(* ===== verification/Prelude.thy ===== *)
theory Prelude
  imports Main "HOL-Library.Multiset" "HOL-Library.AList" "HOL-Library.List_Lexorder"
    "HOL-Library.Product_Lexorder"
begin

text \<open>
  Shared vocabulary of the development: the result type that carries Python's
  exceptions as values, Python's slice and integer-division idioms, the page
  arithmetic every memory component uses, longest common prefixes of lists,
  insertion-ordered dictionaries as association lists, and the generic lemmas
  the component theories rely on.

  Nothing in this theory models a file of the repository; it fixes how the
  language and its standard library are read.
\<close>

section \<open>Errors as values\<close>

text \<open>
  A Python function that can raise returns \<open>py_error + 'a\<close>; \<open>Inl\<close> is the
  exception, \<open>Inr\<close> the normal result.
\<close>

datatype py_error =
    IndexError
  | KeyError
  | ValueError
  | AssertionError
  | RuntimeError
  | ZeroDivisionError
  | TypeError
  | AttributeError
  | NotImplementedError
  | StaleNode
  | OutOfFuel

text \<open>
  \<open>StaleNode\<close> marks a use of a node handle that is no longer part of its tree and
  \<open>OutOfFuel\<close> the exhausted bound of a loop that need not end; both are outcomes
  the theorems exclude, not Python exceptions.
\<close>

type_synonym 'a res = "py_error + 'a"

definition bind_res :: "'a res \<Rightarrow> ('a \<Rightarrow> 'b res) \<Rightarrow> 'b res" where
  "bind_res r f = (case r of Inl e \<Rightarrow> Inl e | Inr x \<Rightarrow> f x)"

definition map_res :: "('a \<Rightarrow> 'b) \<Rightarrow> 'a res \<Rightarrow> 'b res" where
  "map_res f r = (case r of Inl e \<Rightarrow> Inl e | Inr x \<Rightarrow> Inr (f x))"

named_theorems res_simps \<open>evaluation of results\<close>
named_theorems page_simps \<open>page arithmetic\<close>
named_theorems unit_simps \<open>logical units of radix keys\<close>

section \<open>Python idioms\<close>

text \<open>\<open>xs[a:b]\<close> for non-negative bounds: out-of-range bounds are clipped.\<close>

definition slice :: "nat \<Rightarrow> nat \<Rightarrow> 'a list \<Rightarrow> 'a list" where
  "slice a b xs = take (b - a) (drop a xs)"

text \<open>\<open>slice(a, b).indices(n)\<close> with step 1: \<open>None\<close> is an omitted bound and a
  negative bound counts from the end; both are clipped to \<open>[0, n]\<close>.\<close>

definition clip_bound :: "nat \<Rightarrow> int \<Rightarrow> nat" where
  "clip_bound n i = (if i < 0 then nat (max 0 (i + int n)) else min (nat i) n)"

definition slice_indices :: "int option \<Rightarrow> int option \<Rightarrow> nat \<Rightarrow> nat \<times> nat" where
  "slice_indices start stop n =
     ((case start of None \<Rightarrow> 0 | Some i \<Rightarrow> clip_bound n i),
      (case stop of None \<Rightarrow> n | Some i \<Rightarrow> clip_bound n i))"

text \<open>Every \<open>k\<close>-th element from the first, \<open>xs[::k]\<close>.\<close>

function every :: "nat \<Rightarrow> 'a list \<Rightarrow> 'a list" where
  "every k xs = (if k = 0 \<or> xs = [] then [] else hd xs # every k (drop k xs))"
  by pat_completeness auto
termination
  by (relation "measure (\<lambda>(k, xs). length xs)") auto

declare every.simps [simp del]

text \<open>Rounding a token count down or up to whole pages.\<close>

definition page_floor :: "nat \<Rightarrow> nat \<Rightarrow> nat" where
  "page_floor p n = n div p * p"

definition page_ceil :: "nat \<Rightarrow> nat \<Rightarrow> nat" where
  "page_ceil p n = (n + p - 1) div p"

text \<open>Length of the longest common prefix of two lists: the reference for every
  prefix comparison of the program.\<close>

fun cpl :: "'a list \<Rightarrow> 'a list \<Rightarrow> nat" where
  "cpl (x # xs) (y # ys) = (if x = y then Suc (cpl xs ys) else 0)"
| "cpl _ _ = 0"

section \<open>Lemmas on results\<close>

lemma bind_res_simps [simp, res_simps]:
  "bind_res (Inl e) f = Inl e"
  "bind_res (Inr x) f = f x"
  by (simp_all add: bind_res_def)

lemma map_res_simps [simp, res_simps]:
  "map_res f (Inl e) = Inl e"
  "map_res f (Inr x) = Inr (f x)"
  by (simp_all add: map_res_def)

lemma bind_res_Inr_iff [res_simps]:
  "bind_res r f = Inr y \<longleftrightarrow> (\<exists>x. r = Inr x \<and> f x = Inr y)"
  by (cases r) auto

lemma map_res_Inr_iff [res_simps]:
  "map_res f r = Inr y \<longleftrightarrow> (\<exists>x. r = Inr x \<and> y = f x)"
  by (cases r) auto

section \<open>Lemmas on slices\<close>

lemma slice_0 [simp]: "slice 0 b xs = take b xs"
  by (simp add: slice_def)

lemma slice_empty [simp]: "b \<le> a \<Longrightarrow> slice a b xs = []"
  by (simp add: slice_def)

lemma length_slice [simp]: "length (slice a b xs) = min b (length xs) - a"
  by (simp add: slice_def)

lemma slice_all [simp]: "length xs \<le> b \<Longrightarrow> slice a b xs = drop a xs"
  by (simp add: slice_def)

lemma nth_slice: "i < min b (length xs) - a \<Longrightarrow> slice a b xs ! i = xs ! (a + i)"
  by (simp add: slice_def)

lemma slice_append_slice: "a \<le> b \<Longrightarrow> b \<le> c \<Longrightarrow> slice a b xs @ slice b c xs = slice a c xs"
proof -
  assume "a \<le> b" "b \<le> c"
  then obtain i j where "b = a + i" "c = b + j" by (auto simp: le_iff_add)
  then show ?thesis
    by (simp add: slice_def take_add add.commute)
qed

lemma slice_map: "slice a b (map f xs) = map f (slice a b xs)"
  by (simp add: slice_def take_map drop_map)

lemma eq_take_append_iff:
  assumes "length xs \<le> length qs"
  shows "qs = take (length qs) (xs @ ys) \<longleftrightarrow>
    take (length xs) qs = xs \<and> drop (length xs) qs = take (length qs - length xs) ys"
proof -
  have "take (length qs) (xs @ ys) = xs @ take (length qs - length xs) ys"
    using assms by simp
  then show ?thesis
    using append_eq_conv_conj [of xs "take (length qs - length xs) ys" qs] by metis
qed

lemma clip_bound_le [simp]: "clip_bound n i \<le> n"
  by (auto simp: clip_bound_def)

lemma clip_bound_nat [simp]: "clip_bound n (int i) = min i n"
  by (simp add: clip_bound_def)

lemma every_Nil [simp]: "every k [] = []"
  by (simp add: every.simps)

lemma every_step: "0 < k \<Longrightarrow> xs \<noteq> [] \<Longrightarrow> every k xs = hd xs # every k (drop k xs)"
  by (subst every.simps) simp

lemma set_every_subset: "set (every k xs) \<subseteq> set xs"
proof (induction k xs rule: every.induct)
  case (1 k xs)
  then show ?case
    using set_drop_subset [of k xs] by (subst every.simps) auto
qed

section \<open>Page arithmetic\<close>

lemma page_floor_le [simp, page_simps]: "page_floor p n \<le> n"
  by (simp add: page_floor_def)

lemma page_floor_1 [simp, page_simps]: "page_floor (Suc 0) n = n"
  by (simp add: page_floor_def)

lemma dvd_page_floor [simp, page_simps]: "p dvd page_floor p n"
  by (simp add: page_floor_def)

lemma page_floor_dvd [page_simps]: "p dvd n \<Longrightarrow> page_floor p n = n"
  by (simp add: page_floor_def)

lemma page_floor_greatest: "p dvd m \<Longrightarrow> m \<le> n \<Longrightarrow> m \<le> page_floor p n"
  by (auto simp: page_floor_def elim: dvdE) (metis div_le_mono dvd_div_mult_self mult_le_mono1)

lemma page_floor_mono: "m \<le> n \<Longrightarrow> page_floor p m \<le> page_floor p n"
  by (simp add: page_floor_def div_le_mono)

lemma page_floor_less: "0 < p \<Longrightarrow> n < page_floor p n + p"
  by (simp add: page_floor_def) (metis div_mult_mod_eq mod_less_divisor
      nat_add_left_cancel_less)

section \<open>Longest common prefixes\<close>

lemma cpl_Nil [simp]: "cpl [] ys = 0" "cpl xs [] = 0"
  by simp (cases xs, simp_all)

lemma cpl_le_left [simp]: "cpl xs ys \<le> length xs"
  by (induction xs ys rule: cpl.induct) auto

lemma cpl_le_right [simp]: "cpl xs ys \<le> length ys"
  by (induction xs ys rule: cpl.induct) auto

lemma cpl_commute: "cpl xs ys = cpl ys xs"
  by (induction xs ys rule: cpl.induct) auto

lemma take_cpl: "n \<le> cpl xs ys \<Longrightarrow> take n xs = take n ys"
proof (induction xs ys arbitrary: n rule: cpl.induct)
  case (1 x xs y ys)
  then show ?case by (cases n) (auto split: if_splits)
qed auto

lemma cpl_greatest: "n \<le> length xs \<Longrightarrow> n \<le> length ys \<Longrightarrow> take n xs = take n ys \<Longrightarrow> n \<le> cpl xs ys"
proof (induction xs ys arbitrary: n rule: cpl.induct)
  case (1 x xs y ys)
  then show ?case by (cases n) (auto split: if_splits)
qed auto

lemma le_cpl_iff: "n \<le> cpl xs ys \<longleftrightarrow> n \<le> length xs \<and> n \<le> length ys \<and> take n xs = take n ys"
  using cpl_greatest take_cpl cpl_le_left cpl_le_right order_trans by metis

lemma cpl_eqI:
  assumes "\<And>n. n \<le> m \<longleftrightarrow> n \<le> length xs \<and> n \<le> length ys \<and> take n xs = take n ys"
  shows "cpl xs ys = m"
  using assms le_cpl_iff by (metis nle_le)

lemma cpl_nth_neq:
  "cpl xs ys < length xs \<Longrightarrow> cpl xs ys < length ys \<Longrightarrow> xs ! cpl xs ys \<noteq> ys ! cpl xs ys"
  by (induction xs ys rule: cpl.induct) (auto split: if_splits)

lemma cpl_take_take: "cpl (take m xs) (take n ys) = min (cpl xs ys) (min m n)"
  by (rule cpl_eqI) (auto simp: le_cpl_iff min_absorb1)

lemma cpl_append_same [simp]: "cpl (xs @ ys) (xs @ zs) = length xs + cpl ys zs"
  by (induction xs) auto

lemma cpl_self [simp]: "cpl xs xs = length xs"
  by (induction xs) auto

lemma cpl_eq_left: "cpl xs ys = length xs \<longleftrightarrow> xs = take (length xs) ys"
  by (metis cpl_le_left cpl_le_right le_cpl_iff le_refl length_take min.absorb2 nle_le take_all)

section \<open>Insertion-ordered dictionaries\<close>

text \<open>
  A Python \<open>dict\<close> is an association list with distinct keys: \<open>AList.update\<close>
  overwrites in place or appends, \<open>AList.delete\<close> is \<open>pop\<close>, and \<open>map_of\<close> looks up.
\<close>

lemma map_of_mem: "map_of al k = Some v \<Longrightarrow> (k, v) \<in> set al"
  by (rule map_of_SomeD)

lemma set_update_distinct:
  assumes "distinct (map fst al)"
  shows "set (AList.update k v al) = insert (k, v) {p \<in> set al. fst p \<noteq> k}"
  using assms by (induction al) (auto simp: image_iff)

lemma set_delete: "set (AList.delete k al) = {p \<in> set al. fst p \<noteq> k}"
  by (induction al) auto

lemma map_of_mem_size [termination_simp]:
  "map_of al k = Some v \<Longrightarrow> f v < Suc (size_list (\<lambda>p. f (snd p)) al)"
  by (induction al) (auto split: if_splits simp: less_Suc_eq_le trans_le_add1 trans_le_add2)

section \<open>Lists of blocks\<close>

lemma block_cases:
  assumes "p < m * (k::nat)"
  obtains i j where "i < m" "j < k" "p = i * k + j"
proof
  have "0 < k" using assms by (cases k) auto
  then show "p mod k < k" by simp
  show "p div k < m" using assms by (simp add: less_mult_imp_div_less)
  show "p = p div k * k + p mod k" by simp
qed

lemma length_concat_block: "\<forall>x\<in>set xss. length x = k \<Longrightarrow> length (concat xss) = length xss * k"
  by (induction xss) auto

lemma nth_concat_block:
  "\<forall>x\<in>set xss. length x = k \<Longrightarrow> i < length xss \<Longrightarrow> j < k \<Longrightarrow> concat xss ! (i * k + j) = xss ! i ! j"
proof (induction xss arbitrary: i)
  case (Cons x xss)
  then show ?case by (cases i) (auto simp: nth_append)
qed simp

end
