(* ===== verification/RadixKey.thy ===== *)
theory RadixKey
  imports Prelude
begin

text \<open>
  The class \<open>RadixKey\<close> of \<open>python/sglang/srt/mem_cache/radix_cache.py\<close>: the
  key type of the prefix cache. A key is a sequence of raw tokens seen through a
  view: an optional cap on the raw tokens (\<open>limit\<close>), an optional bigram view
  in which \<open>N + 1\<close> raw tokens are \<open>N\<close> overlapping pairs, and a name space
  (\<open>extra_key\<close>, \<open>cache_salt\<close>).

  The lemmas show that every operation is the corresponding list operation on
  the key's \<^emph>\<open>logical units\<close> (\<open>rk_iter\<close>): slicing is \<open>take\<close> and \<open>drop\<close>, the
  galloping comparison of \<open>match\<close> computes the longest common prefix rounded
  down to pages, and \<open>child_key\<close> is injective on the name space and the first
  page of units.
\<close>

section \<open>The key and its operations\<close>

record radix_key =
  token_ids :: "int list"
  extra_key :: "string option"
  cache_salt :: "string option"
  is_bigram :: bool
  limit :: "nat option"

text \<open>A logical unit: a token, or a pair of neighbouring tokens in the bigram view.\<close>

datatype rk_unit = Tok int | Pair int int

text \<open>\<open>__init__\<close>: an empty salt is stored as \<open>None\<close> (\<open>cache_salt or None\<close>).\<close>

definition mk_radix_key ::
  "int list \<Rightarrow> string option \<Rightarrow> bool \<Rightarrow> nat option \<Rightarrow> string option \<Rightarrow> radix_key" where
  "mk_radix_key ts ek bg lim salt =
     \<lparr>token_ids = ts, extra_key = ek,
      cache_salt = (if salt = Some [] then None else salt),
      is_bigram = bg, limit = lim\<rparr>"

definition raw_len :: "radix_key \<Rightarrow> nat" where
  "raw_len k =
     (let n = length (token_ids k) in
      case limit k of
        None \<Rightarrow> n
      | Some l \<Rightarrow> if l < n then l else n)"

definition raw_token_ids :: "radix_key \<Rightarrow> int list" where
  "raw_token_ids k =
     (let n = raw_len k; t = token_ids k in if n = length t then t else take n t)"

definition rk_len :: "radix_key \<Rightarrow> nat" where
  "rk_len k =
     (let n = raw_len k in
      if is_bigram k then (if n > 0 then n - 1 else 0) else n)"

definition rk_iter :: "radix_key \<Rightarrow> rk_unit list" where
  "rk_iter k =
     (let t = token_ids k; n = raw_len k in
      if is_bigram k
      then map (\<lambda>i. Pair (t ! i) (t ! (i + 1))) [0..<(if n > 0 then n - 1 else 0)]
      else if n = length t then map Tok t
      else map (\<lambda>i. Tok (t ! i)) [0..<n])"

text \<open>The body of \<open>__getitem__\<close> once the bounds are normalised to \<open>[start, stop)\<close>.\<close>

definition rk_slice :: "nat \<Rightarrow> nat \<Rightarrow> radix_key \<Rightarrow> radix_key" where
  "rk_slice start stop k =
     (if is_bigram k
      then mk_radix_key (if stop > start then slice start (stop + 1) (token_ids k) else [])
             (extra_key k) True None (cache_salt k)
      else mk_radix_key (slice start stop (token_ids k)) (extra_key k) False None (cache_salt k))"

text \<open>\<open>__getitem__\<close> on a slice object and on an integer.\<close>

definition rk_getitem_slice ::
  "radix_key \<Rightarrow> int option \<Rightarrow> int option \<Rightarrow> int option \<Rightarrow> radix_key res" where
  "rk_getitem_slice k start stop step =
     (let (a, b) = slice_indices start stop (rk_len k) in
      if step \<noteq> None \<and> step \<noteq> Some 1 then Inl ValueError else Inr (rk_slice a b k))"

definition rk_getitem_int :: "radix_key \<Rightarrow> int \<Rightarrow> radix_key res" where
  "rk_getitem_int k idx =
     (let idx = (if idx < 0 then idx + int (rk_len k) else idx) in
      if idx < 0 \<or> idx \<ge> int (rk_len k) then Inl IndexError
      else rk_getitem_slice k (Some idx) (Some (idx + 1)) None)"

text \<open>\<open>key[n:]\<close> and \<open>key[:n]\<close> as the tree code writes them.\<close>

definition rk_drop :: "nat \<Rightarrow> radix_key \<Rightarrow> radix_key" where
  "rk_drop n k = rk_slice (min n (rk_len k)) (rk_len k) k"

definition rk_take :: "nat \<Rightarrow> radix_key \<Rightarrow> radix_key" where
  "rk_take n k = rk_slice 0 (min n (rk_len k)) k"

definition page_aligned :: "radix_key \<Rightarrow> nat \<Rightarrow> radix_key" where
  "page_aligned k page_size =
     (if page_size = 1 then k
      else rk_take (rk_len k div page_size * page_size) k)"

definition maybe_to_bigram_view ::
  "radix_key \<Rightarrow> bool \<Rightarrow> 'v list option \<Rightarrow> radix_key \<times> 'v list option" where
  "maybe_to_bigram_view k is_eagle v =
     (if is_eagle \<and> \<not> is_bigram k
      then (let k' = k\<lparr>is_bigram := True\<rparr> in (k', map_option (take (rk_len k')) v))
      else (k, v))"

definition check_compatible :: "radix_key \<Rightarrow> radix_key \<Rightarrow> unit res" where
  "check_compatible k o' =
     (if extra_key k \<noteq> extra_key o' then Inl ValueError
      else if cache_salt k \<noteq> cache_salt o' then Inl ValueError
      else Inr ())"

text \<open>The inner loop of \<open>match\<close>: bisection inside the window \<open>[lo, hi)\<close> that
  holds the first difference.\<close>

function bisect_window :: "int list \<Rightarrow> int list \<Rightarrow> nat \<Rightarrow> nat \<Rightarrow> nat" where
  "bisect_window t0 t1 lo hi =
     (if hi - lo > 1
      then (let mid = (lo + hi) div 2 in
            if slice lo mid t0 = slice lo mid t1 then bisect_window t0 t1 mid hi
            else bisect_window t0 t1 lo mid)
      else lo)"
  by pat_completeness auto
termination
  by (relation "measure (\<lambda>(t0, t1, lo, hi). hi - lo)") auto

text \<open>The outer loop of \<open>match\<close>: windows of doubling width. \<open>step\<close> starts at 1 and
  doubles, so the guard \<open>0 < step\<close> always holds; it only makes the recursion total.\<close>

function gallop :: "int list \<Rightarrow> int list \<Rightarrow> nat \<Rightarrow> nat \<Rightarrow> nat \<Rightarrow> nat" where
  "gallop t0 t1 n lo step =
     (if lo < n \<and> 0 < step
      then (let hi = (if lo + step < n then lo + step else n) in
            if slice lo hi t0 \<noteq> slice lo hi t1 then bisect_window t0 t1 lo hi
            else gallop t0 t1 n hi (step * 2))
      else n)"
  by pat_completeness auto
termination
  by (relation "measure (\<lambda>(t0, t1, n, lo, step). n - lo)") auto

declare bisect_window.simps [simp del] gallop.simps [simp del]

definition rk_match :: "radix_key \<Rightarrow> radix_key \<Rightarrow> nat \<Rightarrow> nat res" where
  "rk_match k o' page_size =
     bind_res (check_compatible k o') (\<lambda>_.
       let t0 = token_ids k; t1 = token_ids o';
           n = min (length t0) (length t1);
           matched_tokens = gallop t0 t1 n 0 1
       in if is_bigram k
          then (let matched = min (matched_tokens - 1) (min (rk_len k) (rk_len o'))
                in Inr (if page_size > 1 then matched div page_size * page_size else matched))
          else (let matched_tokens = min matched_tokens (min (rk_len k) (rk_len o'))
                in if page_size = 1 then Inr matched_tokens
                   else if page_size = 0 then Inl ZeroDivisionError
                   else Inr (matched_tokens div page_size * page_size)))"

text \<open>
  The dictionary key of a child. Python's values are kept apart as Python's
  equality keeps them apart: an \<open>int\<close>, a flat tuple of ints, a tuple of pairs,
  each plain or wrapped in a name space.
\<close>

datatype ck_plain = PInt int | PTuple "int list" | PPairs "(int \<times> int) list"

datatype child_key =
    CPlain ck_plain
  | CExtra string ck_plain
  | CSalt "string option" string ck_plain

definition child_key_plain :: "radix_key \<Rightarrow> nat \<Rightarrow> ck_plain res" where
  "child_key_plain k page_size =
     (let t = token_ids k in
      if is_bigram k
      then (if page_size = 1
            then (case t of a # b # _ \<Rightarrow> Inr (PTuple [a, b]) | _ \<Rightarrow> Inl IndexError)
            else if page_size < length t \<or> page_size = 0
            then Inr (PPairs (map (\<lambda>j. (t ! j, t ! (j + 1))) [0..<page_size]))
            else Inl IndexError)
      else (if page_size = 1
            then (case t of a # _ \<Rightarrow> Inr (PInt a) | [] \<Rightarrow> Inl IndexError)
            else Inr (PTuple (take page_size t))))"

definition rk_child_key :: "radix_key \<Rightarrow> nat \<Rightarrow> child_key res" where
  "rk_child_key k page_size =
     map_res (\<lambda>plain.
        case cache_salt k of
          Some s \<Rightarrow> CSalt (extra_key k) s plain
        | None \<Rightarrow> (case extra_key k of None \<Rightarrow> CPlain plain | Some e \<Rightarrow> CExtra e plain))
       (child_key_plain k page_size)"

text \<open>The name space of a key.\<close>

definition rk_ns :: "radix_key \<Rightarrow> string option \<times> string option" where
  "rk_ns k = (extra_key k, cache_salt k)"

text \<open>A stored salt is never the empty string: \<open>__init__\<close> normalises it.\<close>

definition salt_ok :: "radix_key \<Rightarrow> bool" where
  "salt_ok k \<longleftrightarrow> cache_salt k \<noteq> Some []"

section \<open>Keys as lists of logical units\<close>

lemma raw_len_le: "raw_len k \<le> length (token_ids k)"
  by (auto simp: raw_len_def Let_def split: option.splits)

lemma raw_len_None [simp]: "limit k = None \<Longrightarrow> raw_len k = length (token_ids k)"
  by (simp add: raw_len_def Let_def)

lemma raw_token_ids_eq [simp]: "raw_token_ids k = take (raw_len k) (token_ids k)"
  by (simp add: raw_token_ids_def Let_def)

lemma min_raw_len [simp]: "min (length (token_ids k)) (raw_len k) = raw_len k"
  using raw_len_le [of k] by simp

lemma mk_radix_key_sel [simp]:
  "token_ids (mk_radix_key ts ek bg lim salt) = ts"
  "extra_key (mk_radix_key ts ek bg lim salt) = ek"
  "is_bigram (mk_radix_key ts ek bg lim salt) = bg"
  "limit (mk_radix_key ts ek bg lim salt) = lim"
  "salt_ok (mk_radix_key ts ek bg lim salt)"
  by (simp_all add: mk_radix_key_def salt_ok_def)

lemma rk_iter_flat:
  "\<not> is_bigram k \<Longrightarrow> rk_iter k = map Tok (take (raw_len k) (token_ids k))"
  using raw_len_le [of k] by (auto simp: rk_iter_def Let_def intro: nth_equalityI)

lemma rk_iter_bigram:
  "is_bigram k \<Longrightarrow>
     rk_iter k = map (\<lambda>i. Pair (token_ids k ! i) (token_ids k ! (i + 1))) [0..<raw_len k - 1]"
  by (cases "raw_len k") (auto simp: rk_iter_def Let_def)

lemma rk_len_eq: "rk_len k = (if is_bigram k then raw_len k - 1 else raw_len k)"
  by (simp add: rk_len_def Let_def)

lemma length_rk_iter [simp, unit_simps]: "length (rk_iter k) = rk_len k"
  by (cases "is_bigram k") (simp_all add: rk_iter_flat rk_iter_bigram rk_len_eq)

lemma rk_len_le_tokens: "rk_len k \<le> length (token_ids k)"
  using raw_len_le [of k] by (auto simp: rk_len_eq)

lemma rk_slice_sel [simp]:
  "extra_key (rk_slice a b k) = extra_key k"
  "is_bigram (rk_slice a b k) = is_bigram k"
  "limit (rk_slice a b k) = None"
  "salt_ok (rk_slice a b k)"
  by (simp_all add: rk_slice_def)

lemma rk_slice_salt [simp]: "salt_ok k \<Longrightarrow> cache_salt (rk_slice a b k) = cache_salt k"
  by (simp add: rk_slice_def mk_radix_key_def salt_ok_def)

lemma rk_slice_ns [simp]: "salt_ok k \<Longrightarrow> rk_ns (rk_slice a b k) = rk_ns k"
  by (simp add: rk_ns_def)

lemma rk_len_slice: "a \<le> b \<Longrightarrow> b \<le> rk_len k \<Longrightarrow> rk_len (rk_slice a b k) = b - a"
  using raw_len_le [of k]
  by (auto simp: rk_len_eq rk_slice_def split: if_splits)

theorem rk_iter_slice [unit_simps]:
  assumes "a \<le> b" "b \<le> rk_len k"
  shows "rk_iter (rk_slice a b k) = slice a b (rk_iter k)"
proof (rule nth_equalityI)
  show len: "length (rk_iter (rk_slice a b k)) = length (slice a b (rk_iter k))"
    using assms by (simp add: rk_len_slice)
  fix i assume "i < length (rk_iter (rk_slice a b k))"
  with assms have i: "i < b - a" by (simp add: rk_len_slice)
  have "b \<le> raw_len k" and bg: "is_bigram k \<Longrightarrow> b + 1 \<le> raw_len k"
    using assms i by (auto simp: rk_len_eq split: if_splits)
  moreover have "raw_len k \<le> length (token_ids k)" by (rule raw_len_le)
  ultimately show "rk_iter (rk_slice a b k) ! i = slice a b (rk_iter k) ! i"
    using i assms
    by (cases "is_bigram k")
      (auto simp: rk_iter_flat rk_iter_bigram nth_slice rk_slice_def rk_len_eq slice_def)
qed

lemma rk_iter_drop [simp, unit_simps]: "rk_iter (rk_drop n k) = drop n (rk_iter k)"
  by (simp add: rk_drop_def rk_iter_slice min_def)

lemma rk_iter_take [simp, unit_simps]: "rk_iter (rk_take n k) = take n (rk_iter k)"
  by (simp add: rk_take_def rk_iter_slice min_def)

lemma rk_drop_sel [simp]:
  "is_bigram (rk_drop n k) = is_bigram k" "salt_ok (rk_drop n k)"
  "salt_ok k \<Longrightarrow> rk_ns (rk_drop n k) = rk_ns k"
  by (simp_all add: rk_drop_def)

lemma rk_take_sel [simp]:
  "is_bigram (rk_take n k) = is_bigram k" "salt_ok (rk_take n k)"
  "salt_ok k \<Longrightarrow> rk_ns (rk_take n k) = rk_ns k"
  by (simp_all add: rk_take_def)

lemma rk_len_drop [simp, unit_simps]: "rk_len (rk_drop n k) = rk_len k - n"
  by (metis length_drop length_rk_iter rk_iter_drop)

lemma rk_len_take [simp, unit_simps]: "rk_len (rk_take n k) = min n (rk_len k)"
  by (metis length_rk_iter length_take min.commute rk_iter_take)

lemma rk_iter_page_aligned [unit_simps]:
  "0 < p \<Longrightarrow> rk_iter (page_aligned k p) = take (page_floor p (rk_len k)) (rk_iter k)"
  by (auto simp: page_aligned_def page_floor_def)

lemma page_aligned_sel [simp]:
  "is_bigram (page_aligned k p) = is_bigram k" "salt_ok k \<Longrightarrow> salt_ok (page_aligned k p)"
  "salt_ok k \<Longrightarrow> rk_ns (page_aligned k p) = rk_ns k"
  by (simp_all add: page_aligned_def)

lemma rk_len_page_aligned [simp, unit_simps]:
  "0 < p \<Longrightarrow> rk_len (page_aligned k p) = page_floor p (rk_len k)"
  by (metis length_rk_iter length_take min.absorb2 page_floor_le rk_iter_page_aligned)

lemma rk_getitem_int_unit:
  assumes "i < rk_len k"
  shows "\<exists>k'. rk_getitem_int k (int i) = Inr k' \<and> rk_iter k' = [rk_iter k ! i]"
proof -
  have "min (Suc i) (rk_len k) = Suc i" "min i (rk_len k) = i" using assms by auto
  moreover have "nat (int i + 1) = Suc i" by simp
  moreover have "slice i (Suc i) (rk_iter k) = [rk_iter k ! i]"
    using assms by (simp add: slice_def take_Suc_conv_app_nth Cons_nth_drop_Suc [symmetric])
  ultimately show ?thesis
    using assms
    by (auto simp: rk_getitem_int_def rk_getitem_slice_def slice_indices_def clip_bound_def
        rk_iter_slice)
qed

section \<open>The galloping comparison is the longest common prefix\<close>

lemma slice_eq_iff_cpl:
  assumes "lo \<le> hi" "hi \<le> length xs" "hi \<le> length ys" "lo \<le> cpl xs ys"
  shows "slice lo hi xs = slice lo hi ys \<longleftrightarrow> hi \<le> cpl xs ys"
proof -
  have split: "take hi zs = take lo zs @ slice lo hi zs" for zs :: "'a list"
    using slice_append_slice [of 0 lo hi zs] assms(1) by simp
  have "take lo xs = take lo ys" using assms(4) by (rule take_cpl)
  then have "take hi xs = take hi ys \<longleftrightarrow> slice lo hi xs = slice lo hi ys"
    by (simp add: split)
  then show ?thesis using assms by (simp add: le_cpl_iff)
qed

lemma bisect_window_cpl:
  assumes "lo \<le> cpl t0 t1" "cpl t0 t1 < hi" "hi \<le> length t0" "hi \<le> length t1"
  shows "bisect_window t0 t1 lo hi = cpl t0 t1"
  using assms
proof (induction t0 t1 lo hi rule: bisect_window.induct)
  case (1 t0 t1 lo hi)
  show ?case
  proof (cases "hi - lo > 1")
    case False
    then have "bisect_window t0 t1 lo hi = lo" by (subst bisect_window.simps) simp
    with False "1.prems" show ?thesis by simp
  next
    case True
    define mid where "mid = (lo + hi) div 2"
    have mid: "lo \<le> mid" "mid \<le> hi" "mid \<le> length t0" "mid \<le> length t1"
      using True "1.prems" by (auto simp: mid_def)
    have eq: "slice lo mid t0 = slice lo mid t1 \<longleftrightarrow> mid \<le> cpl t0 t1"
      using mid "1.prems" by (intro slice_eq_iff_cpl) auto
    show ?thesis
    proof (cases "mid \<le> cpl t0 t1")
      case le: True
      then have "bisect_window t0 t1 mid hi = cpl t0 t1"
        using "1.IH"(1) [OF True mid_def] eq "1.prems" by simp
      with True eq le show ?thesis
        by (subst bisect_window.simps) (simp add: mid_def)
    next
      case gt: False
      then have "bisect_window t0 t1 lo mid = cpl t0 t1"
        using "1.IH"(2) [OF True mid_def] eq "1.prems" mid by simp
      with True eq gt show ?thesis
        by (subst bisect_window.simps) (simp add: mid_def)
    qed
  qed
qed

lemma gallop_cpl:
  assumes "lo \<le> cpl t0 t1" "0 < step" "n = min (length t0) (length t1)"
  shows "gallop t0 t1 n lo step = cpl t0 t1"
  using assms
proof (induction t0 t1 n lo step rule: gallop.induct)
  case (1 t0 t1 n lo step)
  have cn: "cpl t0 t1 \<le> n" using "1.prems" by simp
  show ?case
  proof (cases "lo < n")
    case False
    then have "n = cpl t0 t1" using cn "1.prems"(1) by simp
    with False show ?thesis by (subst gallop.simps) simp
  next
    case True
    define hi where "hi = (if lo + step < n then lo + step else n)"
    have hi: "lo \<le> hi" "hi \<le> length t0" "hi \<le> length t1"
      using True "1.prems" by (auto simp: hi_def)
    have eq: "slice lo hi t0 = slice lo hi t1 \<longleftrightarrow> hi \<le> cpl t0 t1"
      using hi "1.prems" by (intro slice_eq_iff_cpl) auto
    have unfold: "gallop t0 t1 n lo step =
        (if slice lo hi t0 \<noteq> slice lo hi t1 then bisect_window t0 t1 lo hi
         else gallop t0 t1 n hi (step * 2))"
      unfolding gallop.simps [of t0 t1 n lo step] hi_def [symmetric] Let_def
      using True "1.prems"(2) by (simp only: simp_thms if_True)
    show ?thesis
    proof (cases "hi \<le> cpl t0 t1")
      case le: True
      then have "gallop t0 t1 n hi (step * 2) = cpl t0 t1"
        using "1.IH" [OF _ hi_def] True eq "1.prems" by simp
      with le eq show ?thesis by (simp only: unfold simp_thms if_False)
    next
      case gt: False
      then have "bisect_window t0 t1 lo hi = cpl t0 t1"
        using hi "1.prems" by (intro bisect_window_cpl) auto
      with gt eq show ?thesis by (simp only: unfold simp_thms if_True)
    qed
  qed
qed

lemma cpl_map_inj: "inj f \<Longrightarrow> cpl (map f xs) (map f ys) = cpl xs ys"
  by (induction xs ys rule: cpl.induct) (auto simp: inj_eq)

lemma all_neighbours_iff:
  "(\<forall>i<n. P i \<and> P (i + 1)) \<longleftrightarrow> n = 0 \<or> (\<forall>i<Suc n. P i)" (is "?A \<longleftrightarrow> _")
proof (cases "n = 0")
  case False
  have "P i" if A: ?A and i: "i < Suc n" for i
  proof (cases i)
    case 0
    then show ?thesis using A [rule_format, of 0] False by simp
  next
    case (Suc j)
    then show ?thesis using A [rule_format, of j] i by simp
  qed
  moreover have ?A if B: "\<forall>i<Suc n. P i"
    by (intro allI impI conjI; rule B [rule_format]; simp)
  ultimately show ?thesis using False by blast
qed simp

lemma cpl_units_bigram:
  assumes "is_bigram k" "is_bigram o'"
  shows "cpl (rk_iter k) (rk_iter o') =
    min (cpl (token_ids k) (token_ids o') - 1) (min (rk_len k) (rk_len o'))"
proof (rule cpl_eqI)
  fix n
  let ?t = "token_ids k" and ?u = "token_ids o'"
  have lens: "rk_len k \<le> length ?t - 1" "rk_len o' \<le> length ?u - 1"
    using raw_len_le [of k] raw_len_le [of o'] assms by (simp_all add: rk_len_eq)
  have "take n (rk_iter k) = take n (rk_iter o') \<longleftrightarrow> n = 0 \<or> take (Suc n) ?t = take (Suc n) ?u"
    if n: "n \<le> rk_len k" "n \<le> rk_len o'"
  proof -
    have "take n (rk_iter k) = map (\<lambda>i. Pair (?t ! i) (?t ! (i + 1))) [0..<n]"
      "take n (rk_iter o') = map (\<lambda>i. Pair (?u ! i) (?u ! (i + 1))) [0..<n]"
      using n assms by (simp_all add: rk_iter_bigram rk_len_eq take_map min_def)
    then have "take n (rk_iter k) = take n (rk_iter o') \<longleftrightarrow>
        (\<forall>i<n. ?t ! i = ?u ! i \<and> ?t ! (i + 1) = ?u ! (i + 1))"
      by (auto simp: list_eq_iff_nth_eq)
    also have "\<dots> \<longleftrightarrow> n = 0 \<or> (\<forall>i<Suc n. ?t ! i = ?u ! i)"
      by (rule all_neighbours_iff)
    also have "\<dots> \<longleftrightarrow> n = 0 \<or> take (Suc n) ?t = take (Suc n) ?u"
      using n lens by (auto simp: list_eq_iff_nth_eq)
    finally show ?thesis .
  qed
  moreover have "n \<le> cpl ?t ?u - 1 \<longleftrightarrow> n = 0 \<or> Suc n \<le> cpl ?t ?u" by arith
  ultimately show "n \<le> min (cpl ?t ?u - 1) (min (rk_len k) (rk_len o')) \<longleftrightarrow>
      n \<le> length (rk_iter k) \<and> n \<le> length (rk_iter o') \<and> take n (rk_iter k) = take n (rk_iter o')"
    using lens by (auto simp: le_cpl_iff simp del: take_Suc)
qed

lemma cpl_units_flat:
  assumes "\<not> is_bigram k" "\<not> is_bigram o'"
  shows "cpl (rk_iter k) (rk_iter o') =
    min (cpl (token_ids k) (token_ids o')) (min (rk_len k) (rk_len o'))"
  using assms by (simp add: rk_iter_flat cpl_map_inj inj_def cpl_take_take rk_len_eq)

lemma check_compatible_iff: "check_compatible k o' = Inr () \<longleftrightarrow> rk_ns k = rk_ns o'"
  by (auto simp: check_compatible_def rk_ns_def)

theorem rk_match_units:
  assumes "0 < p" "is_bigram k = is_bigram o'" "rk_ns k = rk_ns o'"
  shows "rk_match k o' p = Inr (page_floor p (cpl (rk_iter k) (rk_iter o')))"
proof -
  have "gallop (token_ids k) (token_ids o') (min (length (token_ids k)) (length (token_ids o'))) 0 1
      = cpl (token_ids k) (token_ids o')"
    by (rule gallop_cpl) auto
  moreover have "check_compatible k o' = Inr ()" using assms(3) by (simp add: check_compatible_iff)
  ultimately show ?thesis
    using assms
    by (auto simp: rk_match_def page_floor_def cpl_units_flat cpl_units_bigram Let_def)
qed

lemma rk_match_incompatible: "rk_ns k \<noteq> rk_ns o' \<Longrightarrow> rk_match k o' p = Inl ValueError"
  by (auto simp: rk_match_def check_compatible_def rk_ns_def)

section \<open>Child keys identify the name space and the first page\<close>

lemma child_key_plain_ok:
  assumes "0 < p" "p \<le> rk_len k"
  shows "\<exists>c. child_key_plain k p = Inr c"
  using assms raw_len_le [of k]
  by (auto simp: child_key_plain_def rk_len_eq Let_def split: list.splits if_splits)

lemma child_key_plain_eq_iff:
  assumes p: "0 < p" "p \<le> rk_len k" "p \<le> rk_len o'" and bg: "is_bigram k = is_bigram o'"
  shows "child_key_plain k p = child_key_plain o' p \<longleftrightarrow> take p (rk_iter k) = take p (rk_iter o')"
proof (cases "is_bigram k")
  case True
  let ?pairs = "\<lambda>t. map (\<lambda>j. (t ! j, t ! (j + 1))) [0..<p]"
  let ?un = "\<lambda>(a, b). Pair a b"
  have len: "p < length (token_ids k)" "p < length (token_ids o')"
    using p raw_len_le [of k] raw_len_le [of o'] True bg by (auto simp: rk_len_eq)
  have units: "take p (rk_iter k) = map ?un (?pairs (token_ids k))"
    "take p (rk_iter o') = map ?un (?pairs (token_ids o'))"
    using p True bg by (simp_all add: rk_iter_bigram rk_len_eq take_map min_def)
  have inj: "inj ?un" by (auto simp: inj_def)
  have "take p (rk_iter k) = take p (rk_iter o') \<longleftrightarrow> ?pairs (token_ids k) = ?pairs (token_ids o')"
    unfolding units using inj by (simp only: inj_map_eq_map)
  then show ?thesis
    using True bg len p
    by (cases "token_ids k"; cases "token_ids o'"; cases "tl (token_ids k)"; cases "tl (token_ids o')")
      (auto simp: child_key_plain_def Let_def)
next
  case False
  have len: "p \<le> raw_len k" "p \<le> raw_len o'" "p \<le> length (token_ids k)" "p \<le> length (token_ids o')"
    using p raw_len_le [of k] raw_len_le [of o'] False bg by (auto simp: rk_len_eq)
  have "take p (rk_iter k) = take p (rk_iter o') \<longleftrightarrow> take p (token_ids k) = take p (token_ids o')"
    using False bg len by (simp add: rk_iter_flat take_map inj_map_eq_map inj_def min_def)
  then show ?thesis
    using False bg len p
    by (cases "token_ids k"; cases "token_ids o'") (auto simp: child_key_plain_def Let_def)
qed

lemma rk_child_key_ok:
  assumes "0 < p" "p \<le> rk_len k"
  shows "\<exists>c. rk_child_key k p = Inr c"
  using child_key_plain_ok [OF assms] by (auto simp: rk_child_key_def)

theorem rk_child_key_eq_iff:
  assumes "0 < p" "p \<le> rk_len k" "p \<le> rk_len o'" "is_bigram k = is_bigram o'"
  shows "rk_child_key k p = rk_child_key o' p \<longleftrightarrow>
           rk_ns k = rk_ns o' \<and> take p (rk_iter k) = take p (rk_iter o')"
proof -
  obtain c d where cd: "child_key_plain k p = Inr c" "child_key_plain o' p = Inr d"
    using child_key_plain_ok assms by metis
  then have "c = d \<longleftrightarrow> take p (rk_iter k) = take p (rk_iter o')"
    using child_key_plain_eq_iff [OF assms] by simp
  then show ?thesis
    using cd by (auto simp: rk_child_key_def rk_ns_def split: option.splits)
qed

section \<open>The bigram view\<close>

lemma maybe_to_bigram_view_sel [simp]:
  "is_bigram (fst (maybe_to_bigram_view k e v)) = (is_bigram k \<or> e)"
  "salt_ok (fst (maybe_to_bigram_view k e v)) = salt_ok k"
  "rk_ns (fst (maybe_to_bigram_view k e v)) = rk_ns k"
  by (auto simp: maybe_to_bigram_view_def Let_def salt_ok_def rk_ns_def)

end
