(* ===== verification/RadixContent.thy ===== *)
theory RadixContent
  imports RadixTree
begin

text \<open>
  What a radix tree holds, and the functional correctness of matching and
  inserting with respect to it. \<open>cached p t ns qs\<close> says that under the name space
  \<open>ns\<close> the tree stores the units \<open>map fst qs\<close> with the kv indices \<open>map snd qs\<close>,
  for sequences of whole pages. \<open>best_match\<close> is the longest such sequence that
  agrees with a given key.
\<close>

section \<open>Well-formed trees and their content\<close>

definition entry_ok :: "nat \<Rightarrow> bool \<Rightarrow> child_key \<Rightarrow> tree \<Rightarrow> bool" where
  "entry_ok p bg ck c \<longleftrightarrow>
     salt_ok (tkey c) \<and> is_bigram (tkey c) = bg \<and> 0 < rk_len (tkey c) \<and> p dvd rk_len (tkey c) \<and>
     rk_child_key (tkey c) p = Inr ck \<and>
     (case tval c of None \<Rightarrow> False | Some v \<Rightarrow> length v = rk_len (tkey c))"

fun wf_tree :: "nat \<Rightarrow> bool \<Rightarrow> rk_namespace option \<Rightarrow> tree \<Rightarrow> bool" where
  "wf_tree p bg ro (Node i cs) \<longleftrightarrow>
     distinct (map fst cs) \<and>
     (\<forall>e \<in> set cs. entry_ok p bg (fst e) (snd e) \<and>
        (ro = None \<or> ro = Some (rk_ns (tkey (snd e)))) \<and>
        wf_tree p bg (Some (rk_ns (tkey (snd e)))) (snd e))"

definition wf_kid :: "nat \<Rightarrow> bool \<Rightarrow> rk_namespace option \<Rightarrow> child_key \<Rightarrow> tree \<Rightarrow> bool" where
  "wf_kid p bg ro ck c \<longleftrightarrow>
     entry_ok p bg ck c \<and> (ro = None \<or> ro = Some (rk_ns (tkey c))) \<and>
     wf_tree p bg (Some (rk_ns (tkey c))) c"

definition edge :: "tree \<Rightarrow> (rk_unit \<times> nat) list" where
  "edge c = zip (rk_iter (tkey c)) (the (tval c))"

fun cached :: "nat \<Rightarrow> tree \<Rightarrow> rk_namespace \<Rightarrow> (rk_unit \<times> nat) list \<Rightarrow> bool" where
  "cached p (Node i cs) ns qs \<longleftrightarrow>
     qs = [] \<or>
     (\<exists>e \<in> set cs. rk_ns (tkey (snd e)) = ns \<and>
        (if length qs \<le> length (edge (snd e))
         then p dvd length qs \<and> qs = take (length qs) (edge (snd e))
         else take (length (edge (snd e))) qs = edge (snd e) \<and>
              cached p (snd e) ns (drop (length (edge (snd e))) qs)))"

declare cached.simps [simp del]

definition kid_cached :: "nat \<Rightarrow> tree \<Rightarrow> rk_namespace \<Rightarrow> (rk_unit \<times> nat) list \<Rightarrow> bool" where
  "kid_cached p c ns qs \<longleftrightarrow>
     rk_ns (tkey c) = ns \<and>
     (if length qs \<le> length (edge c)
      then p dvd length qs \<and> qs = take (length qs) (edge c)
      else take (length (edge c)) qs = edge c \<and> cached p c ns (drop (length (edge c)) qs))"

definition best_match ::
  "nat \<Rightarrow> tree \<Rightarrow> rk_namespace \<Rightarrow> rk_unit list \<Rightarrow> (rk_unit \<times> nat) list \<Rightarrow> bool" where
  "best_match p t ns us ps \<longleftrightarrow>
     cached p t ns ps \<and> map fst ps = take (length ps) us \<and>
     (\<forall>qs. cached p t ns qs \<and> map fst qs = take (length qs) us \<longrightarrow> length qs \<le> length ps)"

text \<open>The key an operation works on: in the view of the cache and whole pages long.\<close>

definition key_ok :: "nat \<Rightarrow> bool \<Rightarrow> radix_key \<Rightarrow> bool" where
  "key_ok p bg k \<longleftrightarrow> salt_ok k \<and> is_bigram k = bg \<and> p dvd rk_len k"

named_theorems content_simps \<open>content of trees\<close>

lemma cached_iff:
  "cached p t ns qs \<longleftrightarrow> qs = [] \<or> (\<exists>ck c. (ck, c) \<in> set (kids t) \<and> kid_cached p c ns qs)"
  by (cases t) (force simp: cached.simps kid_cached_def)

lemma cached_Nil [simp]: "cached p t ns []"
  by (simp add: cached_iff)

lemma wf_tree_iff:
  "wf_tree p bg ro t \<longleftrightarrow>
     distinct (map fst (kids t)) \<and> (\<forall>(ck, c) \<in> set (kids t). wf_kid p bg ro ck c)"
  by (cases t) (auto simp: wf_kid_def)

lemma wf_tree_mem: "wf_tree p bg ro t \<Longrightarrow> (ck, c) \<in> set (kids t) \<Longrightarrow> wf_kid p bg ro ck c"
  by (auto simp: wf_tree_iff)

lemma wf_tree_entry: "wf_tree p bg ro t \<Longrightarrow> (ck, c) \<in> set (kids t) \<Longrightarrow> entry_ok p bg ck c"
  by (auto simp: wf_kid_def dest: wf_tree_mem)

lemma wf_tree_kid:
  assumes "wf_tree p bg ro t" "map_of (kids t) ck = Some c"
  shows "entry_ok p bg ck c" "wf_tree p bg (Some (rk_ns (tkey c))) c"
    "ro = None \<or> ro = Some (rk_ns (tkey c))"
  using wf_tree_mem [OF assms(1) map_of_SomeD [OF assms(2)]] by (auto simp: wf_kid_def)

lemma length_edge: "entry_ok p bg ck c \<Longrightarrow> length (edge c) = rk_len (tkey c)"
  by (auto simp: entry_ok_def edge_def split: option.splits)

lemma map_fst_edge: "entry_ok p bg ck c \<Longrightarrow> map fst (edge c) = rk_iter (tkey c)"
  by (auto simp: entry_ok_def edge_def split: option.splits)

lemma map_snd_edge: "entry_ok p bg ck c \<Longrightarrow> tval c = Some v \<Longrightarrow> map snd (edge c) = v"
  by (auto simp: entry_ok_def edge_def)

lemma kid_cached_page:
  assumes "entry_ok p bg ck c" "kid_cached p c ns qs"
    and IH: "\<And>rs. cached p c ns rs \<Longrightarrow> p dvd length rs"
  shows "p dvd length qs"
proof (cases "length qs \<le> length (edge c)")
  case True
  with assms(2) show ?thesis by (simp add: kid_cached_def)
next
  case False
  then have "p dvd length (drop (length (edge c)) qs)"
    using assms(2) by (intro IH) (simp add: kid_cached_def)
  moreover have "p dvd length (edge c)" using assms(1) by (auto simp: length_edge entry_ok_def)
  ultimately have "p dvd (length qs - length (edge c)) + length (edge c)"
    by (intro dvd_add) simp_all
  then show ?thesis using False by simp
qed

lemma cached_page: "wf_tree p bg ro t \<Longrightarrow> cached p t ns qs \<Longrightarrow> p dvd length qs"
proof (induction t arbitrary: ro qs)
  case (Node i cs)
  show ?case
  proof (cases "qs = []")
    case False
    then obtain k c where e: "(k, c) \<in> set cs" "kid_cached p c ns qs"
      using Node.prems(2) by (auto simp: cached_iff)
    then have wf: "entry_ok p bg k c" "wf_tree p bg (Some (rk_ns (tkey c))) c"
      using Node.prems(1) by auto
    have c: "c \<in> Basic_BNFs.snds (k, c)" by simp
    show ?thesis
      using wf(1) e(2) by (rule kid_cached_page) (rule Node.IH [OF e(1) c wf(2)])
  qed simp
qed

section \<open>Finding a child\<close>

lemma page_le_len: "key_ok p bg k \<Longrightarrow> 0 < rk_len k \<Longrightarrow> p \<le> rk_len k"
  by (simp add: key_ok_def dvd_imp_le)

lemma entry_page_le: "entry_ok p bg ck c \<Longrightarrow> p \<le> rk_len (tkey c)"
  by (simp add: entry_ok_def dvd_imp_le)

lemma kid_by_child_key:
  assumes "0 < p" "wf_tree p bg ro t" "key_ok p bg key" "0 < rk_len key"
    and "rk_child_key key p = Inr ck" "(ck', c) \<in> set (kids t)"
  shows "ck' = ck \<longleftrightarrow> rk_ns (tkey c) = rk_ns key \<and> take p (rk_iter (tkey c)) = take p (rk_iter key)"
proof -
  have c: "entry_ok p bg ck' c" using assms(2,6) by (rule wf_tree_entry)
  have "rk_child_key (tkey c) p = rk_child_key key p \<longleftrightarrow>
      rk_ns (tkey c) = rk_ns key \<and> take p (rk_iter (tkey c)) = take p (rk_iter key)"
    using assms(1) entry_page_le [OF c] page_le_len [OF assms(3,4)] c assms(3)
    by (intro rk_child_key_eq_iff) (auto simp: entry_ok_def key_ok_def)
  with c assms(5) show ?thesis by (auto simp: entry_ok_def)
qed

lemma kid_cached_first_page:
  assumes c: "entry_ok p bg ck c" and kc: "kid_cached p c ns qs" and p: "p \<le> length qs"
  shows "take p qs = take p (edge c)"
proof (cases "length qs \<le> length (edge c)")
  case True
  then have "qs = take (length qs) (edge c)" using kc by (simp add: kid_cached_def)
  then show ?thesis using p by (metis min.absorb2 take_take min.commute)
next
  case False
  then have "take (length (edge c)) qs = edge c" using kc by (simp add: kid_cached_def)
  then show ?thesis
    using entry_page_le [OF c] by (metis length_edge [OF c] min.absorb1 take_take)
qed

text \<open>A tree holds at most one kv index for each unit of a cached sequence.\<close>

lemma cached_functional:
  assumes "0 < p" "wf_tree p bg ro t" "cached p t ns qs" "cached p t ns rs" "map fst qs = map fst rs"
  shows "qs = rs"
  using assms(2-)
proof (induction t arbitrary: ro qs rs rule: measure_induct_rule [where f = size])
  case (less t)
  note prems = less.prems
  have len: "length qs = length rs" using prems(4) by (rule map_eq_imp_length_eq)
  show ?case
  proof (cases "qs = []")
    case False
    then obtain k c l d where c: "(k, c) \<in> set (kids t)" "kid_cached p c ns qs"
      and d: "(l, d) \<in> set (kids t)" "kid_cached p d ns rs"
      using prems(2,3) len by (auto simp: cached_iff)
    note ok = wf_tree_entry [OF prems(1) c(1)] wf_tree_entry [OF prems(1) d(1)]
    have "p \<le> length qs" using cached_page [OF prems(1,2)] False by (simp add: dvd_imp_le)
    then have "take p (rk_iter (tkey c)) = take p (rk_iter (tkey d))"
      using kid_cached_first_page [OF ok(1) c(2)] kid_cached_first_page [OF ok(2) d(2)] len prems(4)
      by (metis map_fst_edge [OF ok(1)] map_fst_edge [OF ok(2)] take_map)
    then have "rk_child_key (tkey c) p = rk_child_key (tkey d) p"
      using c(2) d(2) ok entry_page_le [OF ok(1)] entry_page_le [OF ok(2)] assms(1)
      by (subst rk_child_key_eq_iff) (auto simp: kid_cached_def entry_ok_def)
    then have "k = l" using ok by (simp add: entry_ok_def)
    then have "d = c" using prems(1) c(1) d(1) by (metis eq_key_imp_eq_value wf_tree_iff)
    then have d': "kid_cached p c ns rs" using d(2) by simp
    show ?thesis
    proof (cases "length qs \<le> length (edge c)")
      case True
      then show ?thesis using c(2) d' len unfolding kid_cached_def by metis
    next
      case gt: False
      have "size c < size t" using c(1) size_kid [of "kids t" k c "info t"] prems(1)
        by (simp add: wf_tree_iff)
      moreover have "wf_tree p bg (Some (rk_ns (tkey c))) c"
        using wf_tree_mem [OF prems(1) c(1)] by (simp add: wf_kid_def)
      moreover have "map fst (drop (length (edge c)) qs) = map fst (drop (length (edge c)) rs)"
        using prems(4) by (simp flip: drop_map)
      ultimately have "drop (length (edge c)) qs = drop (length (edge c)) rs"
        using less.IH c(2) d' gt len unfolding kid_cached_def by metis
      then show ?thesis using c(2) d' gt len unfolding kid_cached_def by (metis append_take_drop_id)
    qed
  qed (use len in simp)
qed

text \<open>A non-empty cached sequence along the key runs through the child the key selects.\<close>

lemma cached_along_key:
  assumes "0 < p" "wf_tree p bg ro t" "key_ok p bg key" "0 < rk_len key"
    and "rk_child_key key p = Inr ck"
    and "cached p t (rk_ns key) qs" "map fst qs = take (length qs) (rk_iter key)" "qs \<noteq> []"
  shows "\<exists>c. map_of (kids t) ck = Some c \<and> kid_cached p c (rk_ns key) qs"
proof -
  obtain ck' c where e: "(ck', c) \<in> set (kids t)" and kc: "kid_cached p c (rk_ns key) qs"
    using assms(6,8) by (auto simp: cached_iff)
  have c: "entry_ok p bg ck' c" using assms(2) e by (rule wf_tree_entry)
  have "p dvd length qs" using assms(2,6) by (rule cached_page)
  then have "p \<le> length qs" using assms(8) by (simp add: dvd_imp_le)
  with c kc have "take p qs = take p (edge c)" by (rule kid_cached_first_page)
  then have "take p (map fst qs) = take p (rk_iter (tkey c))"
    by (metis map_fst_edge [OF c] take_map)
  then have "take p (rk_iter (tkey c)) = take p (rk_iter key)"
    using assms(7) \<open>p \<le> length qs\<close> by (simp add: min_def)
  then have "ck' = ck"
    using kid_by_child_key [OF assms(1-5) e] kc by (simp add: kid_cached_def)
  with e assms(2) have "map_of (kids t) ck = Some c"
    by (simp add: wf_tree_iff)
  with kc show ?thesis by blast
qed

section \<open>Replacing and splitting a child\<close>

lemma kids_set_kid [simp]: "kids (set_kid ck c t) = AList.update ck c (kids t)"
  "info (set_kid ck c t) = info t"
  by (simp_all add: set_kid_def)

lemma touch_simps [simp]:
  "kids (touch now t) = kids t" "tkey (touch now t) = tkey t" "tval (touch now t) = tval t"
  "tid (touch now t) = tid t" "tlock (touch now t) = tlock t"
  by (simp_all add: touch_def)

lemma cached_kids_cong: "kids t = kids t' \<Longrightarrow> cached p t = cached p t'"
  by (intro ext) (simp add: cached_iff)

lemma wf_kids_cong: "kids t = kids t' \<Longrightarrow> wf_tree p bg ro t = wf_tree p bg ro t'"
  by (simp add: wf_tree_iff)

lemma touch_content [simp, content_simps]:
  "cached p (touch now t) = cached p t" "wf_tree p bg ro (touch now t) = wf_tree p bg ro t"
  "entry_ok p bg ck (touch now t) = entry_ok p bg ck t" "edge (touch now t) = edge t"
  "kid_cached p (touch now t) = kid_cached p t"
proof -
  show c: "cached p (touch now t) = cached p t" by (rule cached_kids_cong) simp
  show "wf_tree p bg ro (touch now t) = wf_tree p bg ro t" by (rule wf_kids_cong) simp
  show "entry_ok p bg ck (touch now t) = entry_ok p bg ck t" by (simp add: entry_ok_def cong: option.case_cong)
  show e: "edge (touch now t) = edge t" by (simp add: edge_def)
  show "kid_cached p (touch now t) = kid_cached p t"
    by (intro ext) (simp add: kid_cached_def c e)
qed

lemma same_edge:
  assumes "tkey c' = tkey c" "tval c' = tval c"
  shows "entry_ok p bg ck c' = entry_ok p bg ck c" "edge c' = edge c"
  using assms by (simp_all add: entry_ok_def edge_def cong: option.case_cong)

lemma wf_set_kid:
  assumes "wf_tree p bg ro t" "entry_ok p bg ck c" "wf_tree p bg (Some (rk_ns (tkey c))) c"
    and "ro = None \<or> ro = Some (rk_ns (tkey c))"
  shows "wf_tree p bg ro (set_kid ck c t)"
  using assms by (auto simp: wf_tree_iff [of _ _ _ t] wf_tree_iff [of _ _ _ "set_kid ck c t"]
      wf_kid_def set_update_distinct distinct_update)

lemma cached_set_kid_iff:
  assumes "wf_tree p bg ro t"
  shows "cached p (set_kid ck c' t) ns qs \<longleftrightarrow>
     qs = [] \<or> kid_cached p c' ns qs \<or>
     (\<exists>a b. (a, b) \<in> set (kids t) \<and> a \<noteq> ck \<and> kid_cached p b ns qs)"
proof -
  have d: "distinct (map fst (kids t))" using assms(1) by (simp add: wf_tree_iff)
  show ?thesis
    by (auto simp: cached_iff [of _ "set_kid ck c' t"] set_update_distinct [OF d])
qed

lemma cached_set_kid:
  assumes "wf_tree p bg ro t" "map_of (kids t) ck = Some c"
    and Q: "\<And>ns qs. qs \<noteq> [] \<Longrightarrow> kid_cached p c' ns qs \<longleftrightarrow> kid_cached p c ns qs \<or> Q ns qs"
  shows "cached p (set_kid ck c' t) ns qs \<longleftrightarrow> cached p t ns qs \<or> qs \<noteq> [] \<and> Q ns qs"
proof -
  have mem: "(ck, c) \<in> set (kids t)" using assms(2) by (rule map_of_SomeD)
  have "(ck, d') \<in> set (kids t) \<Longrightarrow> d' = c" for d'
    using assms(1,2) by (simp add: wf_tree_iff)
  then have "cached p t ns qs \<longleftrightarrow> qs = [] \<or> kid_cached p c ns qs \<or>
      (\<exists>a b. (a, b) \<in> set (kids t) \<and> a \<noteq> ck \<and> kid_cached p b ns qs)"
    using mem unfolding cached_iff by blast
  then show ?thesis
    using Q [of qs ns] unfolding cached_set_kid_iff [OF assms(1)] by blast
qed

lemma cached_add_kid:
  assumes "wf_tree p bg ro t" "map_of (kids t) ck = None"
  shows "cached p (set_kid ck c t) ns qs \<longleftrightarrow> cached p t ns qs \<or> qs \<noteq> [] \<and> kid_cached p c ns qs"
proof -
  have "a \<noteq> ck" if "(a, b) \<in> set (kids t)" for a b
    using assms(2) that by (auto simp: map_of_eq_None_iff intro: rev_image_eqI)
  then show ?thesis
    unfolding cached_set_kid_iff [OF assms(1)] cached_iff [of p t] by blast
qed

text \<open>What a successful split produces, in terms of edges and content.\<close>

lemma split_node_result:
  assumes "0 < p" "entry_ok p bg ck c" "wf_tree p bg (Some (rk_ns (tkey c))) c"
    and "p dvd n" "0 < n" "n < rk_len (tkey c)"
  shows "\<exists>new. split_node p clk i (tkey c) c n = Inr new \<and>
     tid new = i \<and> tlock new = tlock c \<and>
     tkey new = rk_take n (tkey c) \<and> tval new = map_option (take n) (tval c) \<and>
     entry_ok p bg ck new \<and> wf_tree p bg (Some (rk_ns (tkey new))) new \<and>
     rk_ns (tkey new) = rk_ns (tkey c) \<and> edge new = take n (edge c) \<and>
     (\<exists>ck2 c2. kids new = [(ck2, c2)] \<and> tid c2 = tid c \<and> tlock c2 = tlock c \<and> kids c2 = kids c \<and>
        tkey c2 = rk_drop n (tkey c) \<and> edge c2 = drop n (edge c))"
proof -
  let ?k = "tkey c"
  obtain v where v: "tval c = Some v" "length v = rk_len ?k"
    using assms(2) by (auto simp: entry_ok_def split: option.splits)
  have k: "salt_ok ?k" "is_bigram ?k = bg" "p dvd rk_len ?k" "rk_child_key ?k p = Inr ck"
    using assms(2) by (auto simp: entry_ok_def)
  have dvd: "p dvd rk_len ?k - n" using k(3) assms(4) by (simp add: dvd_diff_nat)
  have "p \<le> rk_len (rk_drop n ?k)" "p \<le> n"
    using dvd assms(4-6) by (auto simp: dvd_imp_le)
  then obtain ck2 where ck2: "rk_child_key (rk_drop n ?k) p = Inr ck2"
    using rk_child_key_ok [OF assms(1)] by blast
  have "rk_child_key (rk_take n ?k) p = rk_child_key ?k p"
    using assms(1,6) \<open>p \<le> n\<close> k
    by (subst rk_child_key_eq_iff) (auto simp: min_def)
  then have ckt: "rk_child_key (rk_take n ?k) p = Inr ck" using k(4) by simp
  obtain hn hc where h: "split_node_hash_value (hash_value (info c)) n p = (hn, hc)"
    by (rule prod.exhaust)
  obtain en ec where e: "split_node_hash_value (event_hash_value (info c)) n p = (en, ec)"
    by (rule prod.exhaust)
  define c2 where "c2 = Node ((info c)\<lparr>rkey := rk_drop n ?k, rvalue := Some (drop n v),
      hash_value := hc, event_hash_value := ec\<rparr>) (kids c)"
  define new where "new = Node ((new_tree_node i (priority (info c)) clk)
      \<lparr>hit_count := hit_count (info c), lock_ref := tlock c, rkey := rk_take n ?k,
       rvalue := Some (take n v), hash_value := hn, event_hash_value := en\<rparr>) [(ck2, c2)]"
  have "split_node p clk i ?k c n = Inr new"
    by (simp add: split_node_def ck2 v h e new_def c2_def Let_def)
  moreover have new: "tid new = i" "tlock new = tlock c" "tkey new = rk_take n ?k"
    "tval new = Some (take n v)" "kids new = [(ck2, c2)]"
    by (simp_all add: new_def new_tree_node_def)
  moreover have c2: "tid c2 = tid c" "tlock c2 = tlock c" "kids c2 = kids c"
    "tkey c2 = rk_drop n ?k" "tval c2 = Some (drop n v)"
    by (simp_all add: c2_def)
  moreover have "edge new = take n (edge c)" "edge c2 = drop n (edge c)"
    using v by (simp_all add: edge_def new c2 take_zip drop_zip)
  moreover have "entry_ok p bg ck new"
    using v k ckt assms(4-6) by (simp add: entry_ok_def new)
  moreover have "rk_ns (tkey new) = rk_ns ?k" "rk_ns (tkey c2) = rk_ns ?k"
    using k by (simp_all add: new c2)
  moreover have "entry_ok p bg ck2 c2"
    using v k ck2 dvd assms(6) by (simp add: entry_ok_def c2)
  moreover have "wf_tree p bg (Some (rk_ns (tkey c2))) c2"
    using assms(3) wf_kids_cong [OF c2(3)] \<open>rk_ns (tkey c2) = rk_ns ?k\<close> by simp
  ultimately show ?thesis
    by (simp add: wf_tree_iff [of _ _ _ new] wf_kid_def v)
qed

lemma kid_cached_split:
  assumes "p dvd n" "n \<le> length (edge c)" "edge new = take n (edge c)" "rk_ns (tkey new) = rk_ns (tkey c)"
    and "kids new = [(ck2, c2)]" "kids c2 = kids c" "edge c2 = drop n (edge c)"
    and "rk_ns (tkey c2) = rk_ns (tkey c)"
  shows "kid_cached p new ns qs \<longleftrightarrow> kid_cached p c ns qs"
proof -
  have new: "cached p new ns rs \<longleftrightarrow> rs = [] \<or> kid_cached p c2 ns rs" for rs
    using assms(5) by (simp add: cached_iff [of _ new])
  have c2: "cached p c2 = cached p c" using assms(6) by (rule cached_kids_cong)
  consider "length qs \<le> n" | "n < length qs" "length qs \<le> length (edge c)" | "length (edge c) < length qs"
    by linarith
  then show ?thesis
  proof cases
    case 1
    then show ?thesis using assms by (auto simp: kid_cached_def min_def)
  next
    case 2
    have dv: "p dvd length qs - n \<longleftrightarrow> p dvd length qs"
      using assms(1) 2 by (metis dvd_diffD dvd_diff_nat less_imp_le)
    have eq: "take n qs = take n (edge c) \<and> drop n qs = take (length qs - n) (drop n (edge c))
        \<longleftrightarrow> qs = take (length qs) (edge c)"
    proof
      assume "take n qs = take n (edge c) \<and> drop n qs = take (length qs - n) (drop n (edge c))"
      then have "qs = take n (edge c) @ take (length qs - n) (drop n (edge c))"
        by (metis append_take_drop_id)
      then show "qs = take (length qs) (edge c)" using 2(1)
        by (metis le_add_diff_inverse less_imp_le take_add)
    next
      assume "qs = take (length qs) (edge c)"
      then show "take n qs = take n (edge c) \<and> drop n qs = take (length qs - n) (drop n (edge c))"
        using 2(1) by (metis drop_take less_imp_le min.absorb1 take_take)
    qed
    show ?thesis
      using 2 assms dv eq by (auto simp: kid_cached_def new)
  next
    case 3
    have eq: "take n qs = take n (edge c) \<and> take (length (edge c) - n) (drop n qs) = drop n (edge c)
        \<longleftrightarrow> take (length (edge c)) qs = edge c"
      using assms(2) by (metis append_take_drop_id le_add_diff_inverse take_add
          drop_take min.absorb1 take_take)
    have dd: "drop (length (edge c) - n) (drop n qs) = drop (length (edge c)) qs"
      using assms(2) by simp
    show ?thesis
      using 3 assms eq dd by (auto simp: kid_cached_def new c2)
  qed
qed

section \<open>One step along a key\<close>

text \<open>What \<open>match\<close> computes at the child the key selects.\<close>

lemma found_child:
  assumes "0 < p" "wf_tree p bg ro t" "key_ok p bg key" "0 < rk_len key"
    and "rk_child_key key p = Inr ck" "map_of (kids t) ck = Some c"
    and m: "m = page_floor p (cpl (rk_iter (tkey c)) (rk_iter key))"
  shows "rk_match (tkey c) key p = Inr m" "p \<le> m" "p dvd m" "m \<le> rk_len (tkey c)" "m \<le> rk_len key"
    "take m (rk_iter (tkey c)) = take m (rk_iter key)" "rk_ns (tkey c) = rk_ns key"
    "n \<le> cpl (rk_iter (tkey c)) (rk_iter key) \<Longrightarrow> p dvd n \<Longrightarrow> n \<le> m"
proof -
  note c = wf_tree_kid [OF assms(2,6)]
  have first: "rk_ns (tkey c) = rk_ns key" "take p (rk_iter (tkey c)) = take p (rk_iter key)"
    using kid_by_child_key [OF assms(1-5) map_of_SomeD [OF assms(6)]] by auto
  show "rk_ns (tkey c) = rk_ns key" by (rule first)
  show "rk_match (tkey c) key p = Inr m"
    using assms(1,3) c(1) first(1) unfolding m
    by (intro rk_match_units) (auto simp: key_ok_def entry_ok_def)
  have "p \<le> cpl (rk_iter (tkey c)) (rk_iter key)"
    using first(2) entry_page_le [OF c(1)] page_le_len [OF assms(3,4)]
    by (simp add: le_cpl_iff)
  then show "p \<le> m" unfolding m by (intro page_floor_greatest) simp_all
  show "p dvd m" by (simp add: m)
  have le: "m \<le> cpl (rk_iter (tkey c)) (rk_iter key)" by (simp add: m)
  then show "take m (rk_iter (tkey c)) = take m (rk_iter key)" by (rule take_cpl)
  show "m \<le> rk_len (tkey c)" "m \<le> rk_len key"
    using le cpl_le_left [of "rk_iter (tkey c)" "rk_iter key"]
      cpl_le_right [of "rk_iter (tkey c)" "rk_iter key"] by simp_all
  show "n \<le> cpl (rk_iter (tkey c)) (rk_iter key) \<Longrightarrow> p dvd n \<Longrightarrow> n \<le> m"
    unfolding m by (rule page_floor_greatest)
qed

lemma best_match_empty_key: "rk_len key = 0 \<Longrightarrow> best_match p t ns (rk_iter key) []"
  by (auto simp: best_match_def dest: arg_cong [where f = length])

lemma best_match_no_child:
  assumes "0 < p" "wf_tree p bg ro t" "key_ok p bg key" "0 < rk_len key"
    and "rk_child_key key p = Inr ck" "map_of (kids t) ck = None"
  shows "best_match p t (rk_ns key) (rk_iter key) []"
  using cached_along_key [OF assms(1-5)] assms(6)
  by (auto simp: best_match_def)

lemma kid_cached_edge_prefix:
  assumes "kid_cached p c ns qs"
  shows "take (min (length qs) (length (edge c))) qs = take (min (length qs) (length (edge c))) (edge c)"
  using assms by (auto simp: kid_cached_def min_def split: if_splits)

lemma best_match_partial:
  assumes "0 < p" "wf_tree p bg ro t" "key_ok p bg key" "0 < rk_len key"
    and "rk_child_key key p = Inr ck" "map_of (kids t) ck = Some c"
    and m: "m = page_floor p (cpl (rk_iter (tkey c)) (rk_iter key))" and "m < rk_len (tkey c)"
  shows "best_match p t (rk_ns key) (rk_iter key) (take m (edge c))"
proof -
  note f = found_child [OF assms(1-7)]
  note c = wf_tree_kid [OF assms(2,6)]
  have len: "length (take m (edge c)) = m" using f(4) by (simp add: length_edge [OF c(1)])
  have "kid_cached p c (rk_ns key) (take m (edge c))"
    using f(3,4,7) by (simp add: kid_cached_def length_edge [OF c(1)] min_def)
  then have "cached p t (rk_ns key) (take m (edge c))"
    using map_of_SomeD [OF assms(6)] by (auto simp: cached_iff)
  moreover have "map fst (take m (edge c)) = take m (rk_iter key)"
    using f(6) by (simp add: take_map [symmetric] map_fst_edge [OF c(1)])
  moreover have "length qs \<le> m"
    if qs: "cached p t (rk_ns key) qs" "map fst qs = take (length qs) (rk_iter key)" for qs
  proof (cases "qs = []")
    case False
    then have kc: "kid_cached p c (rk_ns key) qs"
      using cached_along_key [OF assms(1-5) qs] assms(6) by auto
    let ?n = "min (length qs) (rk_len (tkey c))"
    have "map fst (take ?n qs) = map fst (take ?n (edge c))"
      using kid_cached_edge_prefix [OF kc] by (simp add: length_edge [OF c(1)])
    then have "take ?n (rk_iter (tkey c)) = take ?n (rk_iter key)"
      using qs(2) by (simp add: take_map [symmetric] map_fst_edge [OF c(1)] min_def split: if_splits)
    moreover have "length qs \<le> rk_len key"
      using qs(2) by (metis length_map length_rk_iter length_take min.cobounded2 min.commute)
    ultimately have "?n \<le> cpl (rk_iter (tkey c)) (rk_iter key)" by (simp add: le_cpl_iff)
    moreover have "p dvd ?n"
      using cached_page [OF assms(2) qs(1)] c(1) by (simp add: min_def entry_ok_def)
    ultimately have "?n \<le> m" by (rule f(8))
    with assms(8) show ?thesis by (simp add: min_def split: if_splits)
  qed simp
  ultimately show ?thesis unfolding best_match_def len by blast
qed

lemma best_match_through:
  assumes "0 < p" "wf_tree p bg ro t" "key_ok p bg key" "0 < rk_len key"
    and "rk_child_key key p = Inr ck" "map_of (kids t) ck = Some c"
    and m: "m = page_floor p (cpl (rk_iter (tkey c)) (rk_iter key))" and "\<not> m < rk_len (tkey c)"
    and best: "best_match p c (rk_ns key) (drop m (rk_iter key)) ps"
  shows "best_match p t (rk_ns key) (rk_iter key) (edge c @ ps)"
proof -
  note f = found_child [OF assms(1-7)]
  note c = wf_tree_kid [OF assms(2,6)]
  have mlen: "m = length (edge c)" using f(4) assms(8) by (simp add: length_edge [OF c(1)])
  have fe: "map fst (edge c) = take m (rk_iter key)"
    using f(6) mlen by (metis map_fst_edge [OF c(1)] length_map take_all order_refl)
  have ps: "cached p c (rk_ns key) ps" "map fst ps = take (length ps) (drop m (rk_iter key))"
    "\<And>qs. cached p c (rk_ns key) qs \<Longrightarrow> map fst qs = take (length qs) (drop m (rk_iter key)) \<Longrightarrow>
       length qs \<le> length ps"
    using best by (auto simp: best_match_def)
  have "kid_cached p c (rk_ns key) (edge c @ ps)"
    using f(3,7) mlen ps(1) by (auto simp: kid_cached_def)
  then have "cached p t (rk_ns key) (edge c @ ps)"
    using map_of_SomeD [OF assms(6)] by (auto simp: cached_iff)
  moreover have "map fst (edge c @ ps) = take (length (edge c @ ps)) (rk_iter key)"
    using fe ps(2) mlen by (simp add: take_add)
  moreover have "length qs \<le> length (edge c @ ps)"
    if qs: "cached p t (rk_ns key) qs" "map fst qs = take (length qs) (rk_iter key)" for qs
  proof (cases "length qs \<le> m")
    case False
    then have "qs \<noteq> []" by auto
    then have kc: "kid_cached p c (rk_ns key) qs"
      using cached_along_key [OF assms(1-5) qs] assms(6) by auto
    have "map fst (drop m qs) = take (length (drop m qs)) (drop m (rk_iter key))"
      using qs(2) by (metis drop_map drop_take length_drop)
    then have "length (drop m qs) \<le> length ps"
      using kc False mlen by (intro ps(3)) (auto simp: kid_cached_def)
    then show ?thesis using mlen by simp
  qed (simp add: mlen)
  ultimately show ?thesis by (simp add: best_match_def)
qed

lemma key_ok_drop: "key_ok p bg key \<Longrightarrow> p dvd m \<Longrightarrow> key_ok p bg (rk_drop m key)"
  by (simp add: key_ok_def dvd_diff_nat)

lemma next_child_key:
  assumes "0 < p" "key_ok p bg key"
  shows "\<exists>ck'. (if rk_len key > 0 then rk_child_key key p else Inr ck) = Inr ck' \<and>
           (rk_len key > 0 \<longrightarrow> rk_child_key key p = Inr ck')"
  using rk_child_key_ok [OF assms(1)] page_le_len [OF assms(2)] by auto

lemma kid_cached_same:
  assumes "rk_ns (tkey c') = rk_ns (tkey c)" "edge c' = edge c"
    and "\<And>ns qs. cached p c' ns qs \<longleftrightarrow> cached p c ns qs \<or> Q ns qs"
  shows "kid_cached p c' ns qs \<longleftrightarrow> kid_cached p c ns qs \<or>
     (rk_ns (tkey c) = ns \<and> length (edge c) < length qs \<and> take (length (edge c)) qs = edge c \<and>
      Q ns (drop (length (edge c)) qs))"
  using assms by (auto simp: kid_cached_def)

section \<open>Matching returns the longest cached prefix\<close>

theorem match_loop_correct:
  assumes "0 < p" "wf_tree p bg ro t" "key_ok p bg key"
    and "rk_len key > 0 \<longrightarrow> rk_child_key key p = Inr ck"
  shows "\<exists>t' i' vs l ps. match_loop p clk now i t key ck = Inr (t', i', vs, l) \<and>
     best_match p t (rk_ns key) (rk_iter key) ps \<and> concat vs = map snd ps \<and>
     info t' = info t \<and> wf_tree p bg ro t' \<and> (\<forall>ns qs. cached p t' ns qs \<longleftrightarrow> cached p t ns qs)"
  using assms
proof (induction t arbitrary: key ck ro i rule: measure_induct_rule [where f = size])
  case (less t)
  note prems = less.prems
  show ?case
  proof (cases "rk_len key > 0")
    case False
    then show ?thesis
      using prems best_match_empty_key [of key p t] by (subst match_loop.simps) auto
  next
    case True
    note ck = prems(4) [rule_format, OF True]
    show ?thesis
    proof (cases "map_of (kids t) ck")
      case None
      then show ?thesis
        using best_match_no_child [OF prems(1-3) True ck None] True prems(2)
        by (subst match_loop.simps) auto
    next
      case (Some c)
      define m where "m = page_floor p (cpl (rk_iter (tkey c)) (rk_iter key))"
      note f = found_child [OF prems(1-3) True ck Some m_def]
      note c = wf_tree_kid [OF prems(2) Some]
      obtain v where v: "tval c = Some v" using c(1) by (auto simp: entry_ok_def split: option.splits)
      have pck: "rk_child_key (tkey c) p = Inr ck" using c(1) by (simp add: entry_ok_def)
      show ?thesis
      proof (cases "m < rk_len (tkey c)")
        case lt: True
        have "0 < m" using f(2) prems(1) by simp
        from split_node_result [of p bg ck "touch now c" m clk i] obtain new where new:
          "split_node p clk i (tkey c) (touch now c) m = Inr new" "tval new = Some (take m v)"
          "entry_ok p bg ck new" "wf_tree p bg (Some (rk_ns (tkey new))) new"
          "rk_ns (tkey new) = rk_ns (tkey c)" "edge new = take m (edge c)" "tkey new = rk_take m (tkey c)"
          and "\<exists>ck2 c2. kids new = [(ck2, c2)] \<and> kids c2 = kids c \<and> tkey c2 = rk_drop m (tkey c) \<and>
             edge c2 = drop m (edge c)"
          using prems(1) c(1,2) f(3) \<open>0 < m\<close> lt v by auto
        then obtain ck2 c2 where c2: "kids new = [(ck2, c2)]" "kids c2 = kids c"
          "tkey c2 = rk_drop m (tkey c)" "edge c2 = drop m (edge c)" by auto
        have "rk_ns (tkey c2) = rk_ns (tkey c)" using c(1) by (simp add: c2 entry_ok_def)
        then have "kid_cached p new ns qs \<longleftrightarrow> kid_cached p c ns qs" for ns qs
          using kid_cached_split [OF f(3) _ new(6,5) c2(1,2,4)] f(4) by (simp add: length_edge [OF c(1)])
        then have "cached p (set_kid ck new t) ns qs \<longleftrightarrow> cached p t ns qs" for ns qs
          using cached_set_kid [OF prems(2) Some, of new "\<lambda>_ _. False"] by simp
        moreover have "wf_tree p bg ro (set_kid ck new t)"
          using prems(2) new c(3) by (intro wf_set_kid) auto
        moreover have "match_loop p clk now i t key ck = Inr (set_kid ck new t, i + 1, [take m v], tid new)"
          using True Some f(1) lt new pck by (subst match_loop.simps) simp
        ultimately show ?thesis
          using best_match_partial [OF prems(1-3) True ck Some m_def lt] map_snd_edge [OF c(1) v]
          by (auto simp: take_map [symmetric])
      next
        case ge: False
        have kd: "key_ok p bg (rk_drop m key)" using prems(3) f(3) by (rule key_ok_drop)
        obtain ck' where ck': "(if rk_len (rk_drop m key) > 0 then rk_child_key (rk_drop m key) p else Inr ck) = Inr ck'"
          "rk_len (rk_drop m key) > 0 \<longrightarrow> rk_child_key (rk_drop m key) p = Inr ck'"
          using next_child_key [OF prems(1) kd] by blast
        have "size (touch now c) < size t"
          using size_kid [OF Some, of "info t"] by (cases c) (simp add: touch_def)
        moreover have "wf_tree p bg (Some (rk_ns (tkey c))) (touch now c)" using c(2) by simp
        ultimately obtain c' i' vs l ps where rec:
          "match_loop p clk now i (touch now c) (rk_drop m key) ck' = Inr (c', i', vs, l)"
          "best_match p c (rk_ns key) (drop m (rk_iter key)) ps" "concat vs = map snd ps"
          "info c' = info (touch now c)" "wf_tree p bg (Some (rk_ns (tkey c))) c'"
          "\<And>ns qs. cached p c' ns qs \<longleftrightarrow> cached p c ns qs"
          using less.IH [of "touch now c" "Some (rk_ns (tkey c))" "rk_drop m key" ck' i] prems(1,3) kd ck'(2)
          by (auto simp: best_match_def key_ok_def)
        have ec: "tkey c' = tkey c" "tval c' = tval c" using rec(4) by simp_all
        note ec = ec same_edge [OF ec]
        have "kid_cached p c' ns qs \<longleftrightarrow> kid_cached p c ns qs" for ns qs
          using kid_cached_same [of c' c p "\<lambda>_ _. False"] ec rec(6) by simp
        then have "cached p (set_kid ck c' t) ns qs \<longleftrightarrow> cached p t ns qs" for ns qs
          using cached_set_kid [OF prems(2) Some, of c' "\<lambda>_ _. False"] by simp
        moreover have "wf_tree p bg ro (set_kid ck c' t)"
          using prems(2) ec rec(5) c(1,3) by (intro wf_set_kid) auto
        moreover have "match_loop p clk now i t key ck = Inr (set_kid ck c' t, i', v # vs, l)"
          using True Some f(1) ge v ck'(1) rec(1) by (subst match_loop.simps) simp
        ultimately show ?thesis
          using best_match_through [OF prems(1-3) True ck Some m_def ge rec(2)]
            map_snd_edge [OF c(1) v] rec(3)
          by auto
      qed
    qed
  qed
qed

section \<open>Inserting adds the page-aligned prefixes of the key\<close>

definition added ::
  "nat \<Rightarrow> radix_key \<Rightarrow> nat list \<Rightarrow> (rk_unit \<times> nat) list \<Rightarrow> rk_namespace \<Rightarrow> (rk_unit \<times> nat) list \<Rightarrow> bool" where
  "added p key v ps ns qs \<longleftrightarrow>
     ns = rk_ns key \<and> p dvd length qs \<and> length qs \<le> rk_len key \<and>
     qs = take (length qs) (ps @ drop (length ps) (zip (rk_iter key) v))"

lemma bump_node_simps [simp]:
  "kids (bump_node prio ch t) = kids t" "tkey (bump_node prio ch t) = tkey t"
  "tval (bump_node prio ch t) = tval t" "tid (bump_node prio ch t) = tid t"
  "tlock (bump_node prio ch t) = tlock t"
  by (simp_all add: bump_node_def inc_hit_count_def)

lemma bump_content [simp, content_simps]:
  "cached p (bump_node prio ch t) = cached p t"
  "wf_tree p bg ro (bump_node prio ch t) = wf_tree p bg ro t"
  "entry_ok p bg ck (bump_node prio ch t) = entry_ok p bg ck t" "edge (bump_node prio ch t) = edge t"
  "kid_cached p (bump_node prio ch t) = kid_cached p t"
proof -
  show c: "cached p (bump_node prio ch t) = cached p t" by (rule cached_kids_cong) simp
  show "wf_tree p bg ro (bump_node prio ch t) = wf_tree p bg ro t" by (rule wf_kids_cong) simp
  show "entry_ok p bg ck (bump_node prio ch t) = entry_ok p bg ck t" by (rule same_edge) simp_all
  show e: "edge (bump_node prio ch t) = edge t" by (rule same_edge) simp_all
  show "kid_cached p (bump_node prio ch t) = kid_cached p t"
    by (intro ext) (simp add: kid_cached_def c e)
qed

text \<open>The node the loop descends into holds exactly the matched part of the key.\<close>

lemma insert_descend:
  assumes "0 < p" "wf_tree p bg ro t" "key_ok p bg key" "0 < rk_len key"
    and "rk_child_key key p = Inr ck" "map_of (kids t) ck = Some c"
    and m: "m = page_floor p (cpl (rk_iter (tkey c)) (rk_iter key))"
  shows "\<exists>i' next.
     insert_next p clk i (touch now c) ck m prio chunked = Inr (ck, i', next) \<and>
     entry_ok p bg ck next \<and> wf_tree p bg (Some (rk_ns key)) next \<and> rk_ns (tkey next) = rk_ns key \<and>
     rk_iter (tkey next) = take m (rk_iter key) \<and> rk_len (tkey next) = m \<and>
     (\<forall>ns qs. kid_cached p next ns qs \<longleftrightarrow> kid_cached p c ns qs)"
proof -
  note f = found_child [OF assms(1-7)]
  note c = wf_tree_kid [OF assms(2,6)]
  have pck: "rk_child_key (tkey c) p = Inr ck" using c(1) by (simp add: entry_ok_def)
  show ?thesis
  proof (cases "m < rk_len (tkey c)")
    case True
    have "0 < m" using f(2) assms(1) by simp
    from split_node_result [of p bg ck "touch now c" m clk i] obtain new where new:
      "split_node p clk i (tkey c) (touch now c) m = Inr new"
      "entry_ok p bg ck new" "wf_tree p bg (Some (rk_ns (tkey new))) new"
      "rk_ns (tkey new) = rk_ns (tkey c)" "edge new = take m (edge c)" "tkey new = rk_take m (tkey c)"
      and "\<exists>ck2 c2. kids new = [(ck2, c2)] \<and> kids c2 = kids c \<and> tkey c2 = rk_drop m (tkey c) \<and>
         edge c2 = drop m (edge c)"
      using assms(1) c(1,2) f(3) \<open>0 < m\<close> True by auto
    then obtain ck2 c2 where c2: "kids new = [(ck2, c2)]" "kids c2 = kids c"
      "tkey c2 = rk_drop m (tkey c)" "edge c2 = drop m (edge c)" by auto
    have "rk_ns (tkey c2) = rk_ns (tkey c)" using c(1) by (simp add: c2 entry_ok_def)
    then have "kid_cached p new ns qs \<longleftrightarrow> kid_cached p c ns qs" for ns qs
      using kid_cached_split [OF f(3) _ new(5,4) c2(1,2,4)] f(4) by (simp add: length_edge [OF c(1)])
    then show ?thesis
      using True new f(4,6,7) pck by (simp add: insert_next_def min_def)
  next
    case False
    then have "m = rk_len (tkey c)" using f(4) by simp
    moreover have "rk_iter (tkey c) = take m (rk_iter key)"
      using f(6) \<open>m = rk_len (tkey c)\<close> by (metis length_rk_iter order_refl take_all)
    ultimately show ?thesis using False c f(7) by (simp add: insert_next_def)
  qed
qed

lemma added_Nil_key:
  "rk_len key = 0 \<Longrightarrow> added p key v [] ns qs \<longleftrightarrow> ns = rk_ns key \<and> qs = []"
  by (cases qs) (auto simp: added_def)

lemma insert_leaf_cached:
  assumes "kids c = []" "tkey c = key" "tval c = Some v" "length v = rk_len key" "qs \<noteq> []"
  shows "kid_cached p c ns qs \<longleftrightarrow> added p key v [] ns qs"
proof -
  have "edge c = zip (rk_iter key) v" using assms by (simp add: edge_def)
  moreover have "cached p c ns rs \<longleftrightarrow> rs = []" for rs using assms(1) by (simp add: cached_iff)
  ultimately show ?thesis
    using assms by (auto simp: kid_cached_def added_def)
qed

lemma added_through:
  assumes "edge c = take m (edge c)" "length (edge c) = m" "p dvd m" "m \<le> rk_len key"
    and "rk_ns (tkey c) = rk_ns key" "length v = rk_len key" "qs \<noteq> []" "salt_ok key"
  shows "kid_cached p c ns qs \<or>
     (rk_ns (tkey c) = ns \<and> length (edge c) < length qs \<and> take (length (edge c)) qs = edge c \<and>
      added p (rk_drop m key) (drop m v) ps ns (drop (length (edge c)) qs))
   \<longleftrightarrow> kid_cached p c ns qs \<or> added p key v (edge c @ ps) ns qs"
proof -
  let ?F = "ps @ drop (length ps) (zip (rk_iter (rk_drop m key)) (drop m v))"
  have full: "(edge c @ ps) @ drop (length (edge c @ ps)) (zip (rk_iter key) v) = edge c @ ?F"
    using assms(2) by (simp add: drop_zip add.commute)
  show ?thesis
  proof (cases "length qs \<le> m")
    case True
    then have "added p key v (edge c @ ps) ns qs \<Longrightarrow> kid_cached p c ns qs"
      using assms(2,5) unfolding added_def kid_cached_def full by simp
    then show ?thesis using True assms(2) by auto
  next
    case False
    have dv: "p dvd length qs - m \<longleftrightarrow> p dvd length qs"
      using assms(3) False by (metis dvd_diffD dvd_diff_nat nat_le_linear)
    have "qs = take (length qs) (edge c @ ?F) \<longleftrightarrow>
        take m qs = edge c \<and> drop m qs = take (length qs - m) ?F"
      using eq_take_append_iff [of "edge c" qs ?F] assms(2) False by simp
    moreover have "rk_ns (rk_drop m key) = rk_ns key" using assms(8) by simp
    ultimately have "added p key v (edge c @ ps) ns qs \<longleftrightarrow>
        (rk_ns (tkey c) = ns \<and> length (edge c) < length qs \<and> take (length (edge c)) qs = edge c \<and>
         added p (rk_drop m key) (drop m v) ps ns (drop (length (edge c)) qs))"
      using False assms(2,4,5) dv unfolding added_def full by auto
    then show ?thesis by blast
  qed
qed

theorem insert_loop_correct:
  assumes "0 < p" "wf_tree p bg ro t" "key_ok p bg key"
    and "rk_len key > 0 \<longrightarrow> rk_child_key key p = Inr ck"
    and "length v = rk_len key" "ro = None \<or> ro = Some (rk_ns key)" "rk_len key < fuel"
  shows "\<exists>t' i' a' total l ps.
     insert_loop fuel p clk now i t key v ck prio chunked a = Inr (t', i', a', total, l) \<and>
     best_match p t (rk_ns key) (rk_iter key) ps \<and> total = length ps \<and>
     info t' = info t \<and> wf_tree p bg ro t' \<and>
     (\<forall>ns qs. cached p t' ns qs \<longleftrightarrow> cached p t ns qs \<or> added p key v ps ns qs)"
  using assms
proof (induction fuel arbitrary: t key v ck ro i)
  case 0
  then show ?case by simp
next
  case (Suc fuel)
  note prems = Suc.prems
  show ?case
  proof (cases "rk_len key > 0")
    case False
    then show ?thesis
      using prems best_match_empty_key [of key p t] added_Nil_key [of key p v]
      by (auto simp: insert_tail_def)
  next
    case True
    note ck = prems(4) [rule_format, OF True]
    show ?thesis
    proof (cases "map_of (kids t) ck")
      case None
      define leaf where "leaf = Node (inc_hit_count ((new_tree_node i prio clk)
          \<lparr>rkey := key, rvalue := Some v\<rparr>) chunked) []"
      have leaf: "kids leaf = []" "tkey leaf = key" "tval leaf = Some v"
        by (simp_all add: leaf_def inc_hit_count_def)
      have "entry_ok p bg ck leaf" "wf_tree p bg (Some (rk_ns (tkey leaf))) leaf"
        using prems(3,5) True ck leaf by (simp_all add: entry_ok_def key_ok_def wf_tree_iff)
      then have "wf_tree p bg ro (set_kid ck leaf t)"
        using prems(2,6) leaf by (intro wf_set_kid) auto
      moreover have "cached p (set_kid ck leaf t) ns qs \<longleftrightarrow> cached p t ns qs \<or> added p key v [] ns qs" for ns qs
        using cached_add_kid [OF prems(2) None, of leaf ns qs] insert_leaf_cached [OF leaf prems(5)]
        by (cases "qs = []") auto
      moreover obtain a' where
        "insert_loop (Suc fuel) p clk now i t key v ck prio chunked a = Inr (set_kid ck leaf t, i + 1, a', 0, tid leaf)"
        using True None by (simp add: insert_tail_def leaf_def [symmetric] Let_def)
      ultimately show ?thesis
        using best_match_no_child [OF prems(1-3) True ck None]
        by (intro exI [where x = "[]"] exI conjI allI; (assumption | simp))
    next
      case (Some c)
      define m where "m = page_floor p (cpl (rk_iter (tkey c)) (rk_iter key))"
      note f = found_child [OF prems(1-3) True ck Some m_def]
      obtain i' "next" where desc:
        "insert_next p clk i (touch now c) ck m prio chunked = Inr (ck, i', next)"
        and nx: "entry_ok p bg ck next" "wf_tree p bg (Some (rk_ns key)) next" "rk_ns (tkey next) = rk_ns key"
          "rk_iter (tkey next) = take m (rk_iter key)" "rk_len (tkey next) = m"
          "\<And>ns qs. kid_cached p next ns qs \<longleftrightarrow> kid_cached p c ns qs"
        using insert_descend [OF prems(1-3) True ck Some m_def] by blast
      have kd: "key_ok p bg (rk_drop m key)" using prems(3) f(3) by (rule key_ok_drop)
      obtain ck' where ck': "(if rk_len (rk_drop m key) > 0 then rk_child_key (rk_drop m key) p else Inr ck) = Inr ck'"
        "rk_len (rk_drop m key) > 0 \<longrightarrow> rk_child_key (rk_drop m key) p = Inr ck'"
        using next_child_key [OF prems(1) kd] by blast
      have salt: "salt_ok key" using prems(3) by (simp add: key_ok_def)
      have fu: "rk_len (rk_drop m key) < fuel" using prems(1,7) f(2) True by simp
      have "\<exists>t' i'' a' total l ps.
         insert_loop fuel p clk now i' next (rk_drop m key) (drop m v) ck' prio chunked a = Inr (t', i'', a', total, l) \<and>
         best_match p next (rk_ns (rk_drop m key)) (rk_iter (rk_drop m key)) ps \<and> total = length ps \<and>
         info t' = info next \<and> wf_tree p bg (Some (rk_ns key)) t' \<and>
         (\<forall>ns qs. cached p t' ns qs \<longleftrightarrow> cached p next ns qs \<or> added p (rk_drop m key) (drop m v) ps ns qs)"
        using prems(1,5) nx(2) kd ck'(2) salt fu by (intro Suc.IH) auto
      then obtain next' i'' a' total l ps where rec:
        "insert_loop fuel p clk now i' next (rk_drop m key) (drop m v) ck' prio chunked a = Inr (next', i'', a', total, l)"
        "best_match p next (rk_ns key) (drop m (rk_iter key)) ps" "total = length ps"
        "info next' = info next" "wf_tree p bg (Some (rk_ns key)) next'"
        "\<And>ns qs. cached p next' ns qs \<longleftrightarrow> cached p next ns qs \<or> added p (rk_drop m key) (drop m v) ps ns qs"
        using salt by auto
      have en: "tkey next' = tkey next" "tval next' = tval next" using rec(4) by simp_all
      note en = en same_edge [OF en]
      have le: "length (edge next) = m" using length_edge [OF nx(1)] nx(5) by simp
      define t1 where "t1 = set_kid ck next t"
      have t1: "wf_tree p bg ro t1"
        using prems(2,6) nx unfolding t1_def by (intro wf_set_kid) auto
      have c1: "cached p t1 ns qs \<longleftrightarrow> cached p t ns qs" for ns qs
        using cached_set_kid [OF prems(2) Some, of "next" "\<lambda>_ _. False"] nx(6) by (simp add: t1_def)
      have m1: "map_of (kids t1) ck = Some next" by (simp add: t1_def update_Some_unfold)
      have mm: "m = page_floor p (cpl (rk_iter (tkey next)) (rk_iter key))"
        using nx(4) f(3,5) by (simp add: cpl_take_take [of m _ "rk_len key", simplified] page_floor_dvd min_def
            cpl_take_take [of m "rk_iter key" "rk_len key" "rk_iter key", simplified])
      have "best_match p t1 (rk_ns key) (rk_iter key) (edge next @ ps)"
        using best_match_through [OF prems(1) t1 prems(3) True ck m1 mm _ rec(2)] nx(5) by simp
      then have best: "best_match p t (rk_ns key) (rk_iter key) (edge next @ ps)"
        by (simp add: best_match_def c1)
      have same: "set_kid ck next' t = set_kid ck next' t1"
        by (simp add: set_kid_def t1_def)
      have "cached p (set_kid ck next' t1) ns qs \<longleftrightarrow> cached p t ns qs \<or> added p key v (edge next @ ps) ns qs" for ns qs
      proof -
        have "kid_cached p next' ns qs \<longleftrightarrow> kid_cached p next ns qs \<or> added p key v (edge next @ ps) ns qs"
          if "qs \<noteq> []" for ns qs
          using kid_cached_same [of next' "next" p "added p (rk_drop m key) (drop m v) ps" ns qs]
            added_through [of "next" m p key v qs ns ps] en rec(6) le f(3,5) nx(3) prems(5) that salt
          by simp
        from cached_set_kid [OF t1 m1 this] show ?thesis using c1 by (cases "qs = []") auto
      qed
      moreover have "wf_tree p bg ro (set_kid ck next' t1)"
        using t1 en nx rec(5) prems(6) by (intro wf_set_kid) auto
      moreover have "insert_loop (Suc fuel) p clk now i t key v ck prio chunked a
          = Inr (set_kid ck next' t, i'', a', m + total, l)"
        using True Some f(1) desc ck'(1) rec(1) by (simp add: Let_def)
      ultimately show ?thesis
        using best rec(3) le same by (auto simp: t1_def)
    qed
  qed
qed

end
