(* ===== verification/EvictPolicy.thy ===== *)
theory EvictPolicy
  imports RadixTree
begin

text \<open>
  The eviction strategies of \<open>python/sglang/srt/mem_cache/evict_policy.py\<close>, the
  registry \<open>get_eviction_strategy\<close> of \<open>mem_cache/utils.py\<close>, and the priority
  queue that \<open>RadixCache.evict\<close> drives.

  A strategy maps a node to a number or a tuple of numbers; both are lists of
  integers here, compared lexicographically, which is Python's order on tuples of
  equal length. A heap entry is \<open>(priority, node)\<close>; entries of equal priority are
  compared by \<open>TreeNode.__lt__\<close>, the last access time. \<open>heapq\<close> is the interface
  \<open>min_heap\<close>: popping returns some least entry and keeps the others. Its
  instance takes the first least entry of the list.
\<close>

section \<open>Strategies\<close>

datatype eviction_strategy =
    LRUStrategy
  | LFUStrategy
  | FIFOStrategy
  | MRUStrategy
  | FILOStrategy
  | PriorityStrategy
  | SLRUStrategy nat

fun get_priority :: "eviction_strategy \<Rightarrow> tree_info \<Rightarrow> int list" where
  "get_priority LRUStrategy n = [last_access_time n]"
| "get_priority LFUStrategy n = [int (hit_count n), last_access_time n]"
| "get_priority FIFOStrategy n = [creation_time n]"
| "get_priority MRUStrategy n = [- last_access_time n]"
| "get_priority FILOStrategy n = [- creation_time n]"
| "get_priority PriorityStrategy n = [priority n, last_access_time n]"
| "get_priority (SLRUStrategy protected_threshold) n =
     (let is_protected = (if hit_count n \<ge> protected_threshold then 1 else 0)
      in [is_protected, last_access_time n])"

text \<open>\<open>str.lower()\<close> on the ASCII letters.\<close>

definition lower_char :: "char \<Rightarrow> char" where
  "lower_char c = (if 65 \<le> (of_char c :: nat) \<and> (of_char c :: nat) \<le> 90
                   then char_of ((of_char c :: nat) + 32) else c)"

definition eviction_policy_factories :: "(string \<times> eviction_strategy) list" where
  "eviction_policy_factories =
     [(''lru'', LRUStrategy), (''lfu'', LFUStrategy), (''fifo'', FIFOStrategy),
      (''mru'', MRUStrategy), (''filo'', FILOStrategy), (''priority'', PriorityStrategy),
      (''slru'', SLRUStrategy 2)]"

definition get_eviction_strategy :: "string \<Rightarrow> eviction_strategy res" where
  "get_eviction_strategy eviction_policy =
     (case map_of eviction_policy_factories (map lower_char eviction_policy) of
        None \<Rightarrow> Inl ValueError
      | Some s \<Rightarrow> Inr s)"

section \<open>The priority queue\<close>

text \<open>A heap entry: the priority, the node's access time (used by \<open>__lt__\<close>) and its id.\<close>

type_synonym heap_entry = "int list \<times> int \<times> nat"

definition heap_entry_of :: "eviction_strategy \<Rightarrow> tree_info \<Rightarrow> heap_entry" where
  "heap_entry_of s n = (get_priority s n, last_access_time n, node_id n)"

definition entry_less :: "heap_entry \<Rightarrow> heap_entry \<Rightarrow> bool" where
  "entry_less x y \<longleftrightarrow>
     fst x < fst y \<or> fst x = fst y \<and> fst (snd x) < fst (snd y)"

locale min_heap =
  fixes pop :: "heap_entry list \<Rightarrow> (heap_entry \<times> heap_entry list) option"
  assumes pop_empty: "pop h = None \<longleftrightarrow> h = []"
    and pop_mset: "pop h = Some (x, h') \<Longrightarrow> mset h = add_mset x (mset h')"
    and pop_least: "pop h = Some (x, h') \<Longrightarrow> y \<in> set h \<Longrightarrow> \<not> entry_less y x"
begin

lemma pop_in: "pop h = Some (x, h') \<Longrightarrow> x \<in> set h"
  by (metis pop_mset set_mset_mset union_single_eq_member)

lemma pop_set: "pop h = Some (x, h') \<Longrightarrow> set h = insert x (set h')"
  by (metis pop_mset set_mset_add_mset_insert set_mset_mset)

lemma pop_length: "pop h = Some (x, h') \<Longrightarrow> length h = Suc (length h')"
  by (metis pop_mset size_add_mset size_mset)

end

fun heappop :: "heap_entry list \<Rightarrow> (heap_entry \<times> heap_entry list) option" where
  "heappop [] = None"
| "heappop (x # xs) =
     (case heappop xs of
        None \<Rightarrow> Some (x, xs)
      | Some (y, ys) \<Rightarrow> if entry_less y x then Some (y, x # ys) else Some (x, xs))"

lemma entry_less_irrefl: "\<not> entry_less x x"
  by (simp add: entry_less_def)

lemma entry_less_neg_trans: "\<not> entry_less x y \<Longrightarrow> \<not> entry_less y z \<Longrightarrow> \<not> entry_less x z"
  by (auto simp: entry_less_def)

lemma entry_less_asym: "entry_less x y \<Longrightarrow> \<not> entry_less y x"
  by (auto simp: entry_less_def)

lemma heappop_None: "heappop h = None \<longleftrightarrow> h = []"
  by (cases h) (auto split: option.splits if_splits)

lemma heappop_mset: "heappop h = Some (x, h') \<Longrightarrow> mset h = add_mset x (mset h')"
proof (induction h arbitrary: x h')
  case (Cons a h)
  then show ?case
    by (cases "heappop h") (auto simp: heappop_None split: prod.splits if_splits)
qed simp

lemma heappop_least: "heappop h = Some (x, h') \<Longrightarrow> y \<in> set h \<Longrightarrow> \<not> entry_less y x"
proof (induction h arbitrary: x h' y)
  case (Cons a h)
  show ?case
  proof (cases "heappop h")
    case None
    with Cons.prems show ?thesis by (simp add: heappop_None entry_less_irrefl)
  next
    case (Some b)
    obtain z zs where b: "b = (z, zs)" by (cases b)
    have z: "\<not> entry_less y' z" if "y' \<in> set h" for y'
      using Cons.IH Some b that by blast
    show ?thesis
    proof (cases "entry_less z a")
      case True
      then have "x = z" using Cons.prems(1) Some b by simp
      with Cons.prems(2) z [of y] True show ?thesis by (auto dest: entry_less_asym)
    next
      case False
      then have "x = a" using Cons.prems(1) Some b by simp
      with Cons.prems(2) z [of y] False show ?thesis
        using entry_less_neg_trans [of y z a] by (auto simp: entry_less_irrefl)
    qed
  qed
qed simp

interpretation heapq: min_heap heappop
  by unfold_locales (auto simp: heappop_None dest: heappop_mset heappop_least)

section \<open>What the strategies order by\<close>

text \<open>Entries of one strategy have priorities of one length, so the list order is
  Python's tuple order.\<close>

lemma get_priority_length: "length (get_priority s m) = length (get_priority s n)"
  by (cases s) (auto simp: Let_def)

lemma slru_probationary_first:
  assumes "hit_count m < th" "th \<le> hit_count n"
  shows "entry_less (heap_entry_of (SLRUStrategy th) m) (heap_entry_of (SLRUStrategy th) n)"
  using assms by (simp add: entry_less_def heap_entry_of_def)

lemma lru_order:
  "entry_less (heap_entry_of LRUStrategy m) (heap_entry_of LRUStrategy n) \<longleftrightarrow>
     last_access_time m < last_access_time n"
  by (auto simp: entry_less_def heap_entry_of_def)

lemma priority_order:
  "entry_less (heap_entry_of PriorityStrategy m) (heap_entry_of PriorityStrategy n) \<longleftrightarrow>
     priority m < priority n \<or> priority m = priority n \<and> last_access_time m < last_access_time n"
  by (auto simp: entry_less_def heap_entry_of_def)

end
