(* ===== verification/KVAllocator.thy ===== *)
theory KVAllocator
  imports Prelude
begin

text \<open>
  The allocators of KV-cache slots: \<open>BaseTokenToKVPoolAllocator\<close>,
  \<open>TokenToKVPoolAllocator\<close> and \<open>PagedTokenToKVPoolAllocator\<close> of
  \<open>python/sglang/srt/mem_cache/allocator/\<close> (\<open>base.py\<close>, \<open>token.py\<close>, \<open>paged.py\<close>).

  One record holds the fields of both classes and \<open>paged\<close> tells them apart, as
  Python's method dispatch does. Tensors of indices are lists; \<open>torch.sort\<close> is
  \<open>sort\<close> and \<open>torch.unique\<close> the sorted list of distinct elements. The assertions
  that the debug mode enables are \<open>AssertionError\<close> results.

  The locale \<open>slot_pool\<close> states what a client relies on: the pages that are
  available never repeat, allocation moves pages out of the pool and freeing
  moves them back. Both classes are instances of it.
\<close>

section \<open>The allocator state\<close>

record kv_alloc =
  paged :: bool
  al_size :: nat
  al_page_size :: nat
  need_sort :: bool
  num_pages :: nat
  debug_mode :: bool
  free_pages :: "nat list"
  release_pages :: "nat list"
  is_not_in_free_group :: bool
  free_group :: "nat list list"
  free_page_reps_group :: "nat list list"

definition unique :: "nat list \<Rightarrow> nat list" where
  "unique xs = sort (remdups xs)"

definition available_size :: "kv_alloc \<Rightarrow> nat" where
  "available_size a =
     (if paged a then (length (free_pages a) + length (release_pages a)) * al_page_size a
      else length (free_pages a) + length (release_pages a))"

definition merge_and_sort_free :: "kv_alloc \<Rightarrow> kv_alloc" where
  "merge_and_sort_free a =
     (if length (release_pages a) > 0
      then a\<lparr>free_pages := sort (free_pages a @ release_pages a), release_pages := []\<rparr>
      else a)"

text \<open>\<open>clear\<close> of both classes: slot (page) 0 is the padding slot and never free.\<close>

definition tok_clear :: "kv_alloc \<Rightarrow> kv_alloc" where
  "tok_clear a = a\<lparr>free_pages := [1..<al_size a + 1], is_not_in_free_group := True,
                    free_group := [], release_pages := []\<rparr>"

definition paged_clear :: "kv_alloc \<Rightarrow> kv_alloc" where
  "paged_clear a = a\<lparr>free_pages := [1..<num_pages a + 1], is_not_in_free_group := True,
                      free_group := [], free_page_reps_group := [], release_pages := []\<rparr>"

definition alloc_clear :: "kv_alloc \<Rightarrow> kv_alloc" where
  "alloc_clear a = (if paged a then paged_clear a else tok_clear a)"

definition init_token_alloc :: "nat \<Rightarrow> bool \<Rightarrow> kv_alloc" where
  "init_token_alloc sz srt =
     tok_clear \<lparr>paged = False, al_size = sz, al_page_size = 1, need_sort = srt, num_pages = 0,
       debug_mode = False, free_pages = [], release_pages = [], is_not_in_free_group = True,
       free_group = [], free_page_reps_group = []\<rparr>"

definition init_paged_alloc :: "nat \<Rightarrow> nat \<Rightarrow> bool \<Rightarrow> bool \<Rightarrow> kv_alloc" where
  "init_paged_alloc sz p srt dbg =
     paged_clear \<lparr>paged = True, al_size = sz, al_page_size = p, need_sort = srt,
       num_pages = sz div p, debug_mode = dbg, free_pages = [], release_pages = [],
       is_not_in_free_group = True, free_group = [], free_page_reps_group = []\<rparr>"

definition alloc_resize :: "nat \<Rightarrow> kv_alloc \<Rightarrow> kv_alloc" where
  "alloc_resize max_total_num_tokens a =
     (let a1 = a\<lparr>al_size := max_total_num_tokens\<rparr>;
          a2 = (if al_page_size a1 > 1
                then a1\<lparr>num_pages := max_total_num_tokens div al_page_size a1\<rparr> else a1)
      in alloc_clear a2)"

section \<open>The token allocator\<close>

definition tok_alloc :: "nat \<Rightarrow> kv_alloc \<Rightarrow> kv_alloc \<times> nat list option" where
  "tok_alloc need_size a =
     (let a1 = (if need_sort a \<and> need_size > length (free_pages a)
                then merge_and_sort_free a else a)
      in if need_size > length (free_pages a1) then (a1, None)
         else (a1\<lparr>free_pages := drop need_size (free_pages a1)\<rparr>,
               Some (take need_size (free_pages a1))))"

definition tok_free :: "nat list \<Rightarrow> kv_alloc \<Rightarrow> kv_alloc" where
  "tok_free free_index a =
     (if length free_index = 0 then a
      else if is_not_in_free_group a
      then (if need_sort a then a\<lparr>release_pages := release_pages a @ free_index\<rparr>
            else a\<lparr>free_pages := free_pages a @ free_index\<rparr>)
      else a\<lparr>free_group := free_group a @ [free_index]\<rparr>)"

section \<open>The paged allocator\<close>

text \<open>\<open>(out_pages[:, None] * page_size + arange(page_size)).reshape(-1)\<close>\<close>

definition expand_pages :: "nat \<Rightarrow> nat list \<Rightarrow> nat list" where
  "expand_pages p pages = concat (map (\<lambda>pg. map (\<lambda>j. pg * p + j) [0..<p]) pages)"

definition paged_alloc :: "nat \<Rightarrow> kv_alloc \<Rightarrow> (kv_alloc \<times> nat list option) res" where
  "paged_alloc need_size a =
     (if debug_mode a \<and> need_size mod al_page_size a \<noteq> 0 then Inl AssertionError
      else
        (let n = need_size div al_page_size a;
             a1 = (if need_sort a \<and> n > length (free_pages a) then merge_and_sort_free a else a)
         in if n > length (free_pages a1) then Inr (a1, None)
            else Inr (a1\<lparr>free_pages := drop n (free_pages a1)\<rparr>,
                      Some (expand_pages (al_page_size a) (take n (free_pages a1))))))"

definition release_page_ids :: "nat list list \<Rightarrow> kv_alloc \<Rightarrow> kv_alloc" where
  "release_page_ids page_ids a =
     (if need_sort a then a\<lparr>release_pages := concat page_ids @ release_pages a\<rparr>
      else a\<lparr>free_pages := concat page_ids @ free_pages a\<rparr>)"

definition debug_check_no_duplicate_pages :: "kv_alloc \<Rightarrow> kv_alloc res" where
  "debug_check_no_duplicate_pages a =
     (let pages = free_pages a @ release_pages a in
      if length (unique pages) = length pages then Inr a else Inl AssertionError)"

definition debug_checked :: "kv_alloc \<Rightarrow> kv_alloc res" where
  "debug_checked a = (if debug_mode a then debug_check_no_duplicate_pages a else Inr a)"

definition paged_free :: "nat list \<Rightarrow> kv_alloc \<Rightarrow> kv_alloc res" where
  "paged_free free_index a =
     (if length free_index = 0 then Inr a
      else debug_checked
        (if is_not_in_free_group a
         then release_page_ids [unique (map (\<lambda>i. i div al_page_size a) free_index)] a
         else a\<lparr>free_group := free_group a @ [free_index]\<rparr>))"

text \<open>The page representatives that \<open>free_segment\<close> picks by stride.\<close>

definition segment_pieces :: "nat \<Rightarrow> nat list \<Rightarrow> nat \<Rightarrow> nat list list" where
  "segment_pieces ps free_index start_pos =
     (let offset = start_pos mod ps in
      if offset = 0 then [every ps free_index]
      else [take 1 free_index, every ps (drop (ps - offset) free_index)])"

definition paged_free_segment :: "nat list \<Rightarrow> nat \<Rightarrow> kv_alloc \<Rightarrow> kv_alloc res" where
  "paged_free_segment free_index start_pos a =
     (if length free_index = 0 then Inr a
      else
        (let ps = al_page_size a;
             pieces = segment_pieces ps free_index start_pos;
             page_ids = concat (map (map (\<lambda>i. i div ps)) pieces)
         in if debug_mode a \<and> sort page_ids \<noteq> unique (map (\<lambda>i. i div ps) free_index)
            then Inl AssertionError
            else if is_not_in_free_group a
            then debug_checked (release_page_ids (map (map (\<lambda>i. i div ps)) pieces) a)
            else Inr (a\<lparr>free_page_reps_group := free_page_reps_group a @ pieces\<rparr>)))"

section \<open>The methods a client calls\<close>

definition al_alloc :: "nat \<Rightarrow> kv_alloc \<Rightarrow> (kv_alloc \<times> nat list option) res" where
  "al_alloc n a = (if paged a then paged_alloc n a else Inr (tok_alloc n a))"

definition al_free :: "nat list \<Rightarrow> kv_alloc \<Rightarrow> kv_alloc res" where
  "al_free xs a = (if paged a then paged_free xs a else Inr (tok_free xs a))"

definition al_free_segment :: "nat list \<Rightarrow> nat \<Rightarrow> kv_alloc \<Rightarrow> kv_alloc res" where
  "al_free_segment xs start_pos a =
     (if paged a then paged_free_segment xs start_pos a else al_free xs a)"

text \<open>\<open>free_segments\<close>: the head of a segment that starts on the page where the
  previous one ended is trimmed.\<close>

fun free_segments_from ::
  "nat option \<Rightarrow> (nat list \<times> nat) list \<Rightarrow> kv_alloc \<Rightarrow> kv_alloc res" where
  "free_segments_from prev_end [] a = Inr a"
| "free_segments_from prev_end ((free_index, start_pos) # segs) a =
     (let ps = al_page_size a; n = length free_index in
      if n = 0 then free_segments_from prev_end segs a
      else
        (let seg_end = start_pos + n;
             (idx, st) =
               (case prev_end of
                  None \<Rightarrow> (free_index, start_pos)
                | Some e \<Rightarrow>
                    if start_pos div ps = (e - 1) div ps
                    then (let boundary = (start_pos div ps + 1) * ps
                          in (drop (boundary - start_pos) free_index, boundary))
                    else (free_index, start_pos))
         in bind_res (al_free_segment idx st a) (free_segments_from (Some seg_end) segs)))"

definition al_free_segments :: "(nat list \<times> nat) list \<Rightarrow> kv_alloc \<Rightarrow> kv_alloc res" where
  "al_free_segments segs a = free_segments_from None segs a"

definition free_group_begin :: "kv_alloc \<Rightarrow> kv_alloc" where
  "free_group_begin a =
     (let a1 = a\<lparr>is_not_in_free_group := False, free_group := []\<rparr>
      in if paged a then a1\<lparr>free_page_reps_group := []\<rparr> else a1)"

definition base_free_group_end :: "kv_alloc \<Rightarrow> kv_alloc res" where
  "base_free_group_end a =
     (let a1 = a\<lparr>is_not_in_free_group := True\<rparr> in
      if free_group a1 \<noteq> [] then al_free (concat (free_group a1)) a1 else Inr a1)"

definition free_group_end :: "kv_alloc \<Rightarrow> kv_alloc res" where
  "free_group_end a =
     (if paged a
      then bind_res (base_free_group_end a) (\<lambda>a1.
             debug_checked
               (if free_page_reps_group a1 \<noteq> []
                then (release_page_ids
                        [map (\<lambda>i. i div al_page_size a1) (concat (free_page_reps_group a1))] a1)
                      \<lparr>free_page_reps_group := []\<rparr>
                else a1))
      else base_free_group_end a)"

section \<open>Pools of slots\<close>

text \<open>
  What a client relies on. \<open>slots\<close> are the token slots that can be handed out,
  \<open>good\<close> is the allocator's invariant between requests, \<open>grain\<close> the allocation
  unit, and \<open>whole xs\<close> says that a list of slots can be given back.
\<close>

locale slot_pool =
  fixes slots :: "'a \<Rightarrow> nat set"
    and alloc :: "nat \<Rightarrow> 'a \<Rightarrow> ('a \<times> nat list option) res"
    and free :: "nat list \<Rightarrow> 'a \<Rightarrow> 'a res"
    and good :: "'a \<Rightarrow> bool"
    and grain :: "'a \<Rightarrow> nat"
    and whole :: "'a \<Rightarrow> nat list \<Rightarrow> bool"
  assumes finite_slots: "good a \<Longrightarrow> finite (slots a)"
    and alloc_returns: "good a \<Longrightarrow> grain a dvd n \<Longrightarrow> \<exists>a' r. alloc n a = Inr (a', r) \<and> good a' \<and>
          grain a' = grain a \<and> (\<forall>xs. whole a' xs = whole a xs)"
    and alloc_some: "good a \<Longrightarrow> grain a dvd n \<Longrightarrow> alloc n a = Inr (a', Some xs) \<Longrightarrow>
          length xs = n \<and> distinct xs \<and> whole a xs \<and> set xs \<subseteq> slots a \<and> slots a' = slots a - set xs"
    and alloc_none: "good a \<Longrightarrow> grain a dvd n \<Longrightarrow> alloc n a = Inr (a', None) \<Longrightarrow>
          slots a' = slots a \<and> card (slots a) < n"
    and free_returns: "good a \<Longrightarrow> whole a xs \<Longrightarrow> set xs \<inter> slots a = {} \<Longrightarrow>
          \<exists>a'. free xs a = Inr a' \<and> good a' \<and> grain a' = grain a \<and> slots a' = slots a \<union> set xs"
begin

lemma alloc_succeeds:
  assumes "good a" "grain a dvd n" "n \<le> card (slots a)"
  shows "\<exists>a' xs. alloc n a = Inr (a', Some xs)"
proof -
  obtain a' r where "alloc n a = Inr (a', r)" using alloc_returns [OF assms(1,2)] by blast
  with alloc_none [OF assms(1,2)] assms(3) show ?thesis by (cases r) auto
qed

lemma alloc_twice_disjoint:
  assumes "good a" "grain a dvd n" "alloc n a = Inr (a1, Some xs)"
    and "grain a dvd m" "alloc m a1 = Inr (a2, Some ys)"
  shows "set xs \<inter> set ys = {}"
proof -
  have "good a1" "grain a1 = grain a" using alloc_returns [OF assms(1,2)] assms(3) by auto
  then have "set ys \<subseteq> slots a1" using alloc_some assms(4,5) by metis
  then show ?thesis using alloc_some [OF assms(1-3)] by blast
qed

lemma alloc_free_restores:
  assumes "good a" "grain a dvd n" "alloc n a = Inr (a1, Some xs)"
  shows "\<exists>a2. free xs a1 = Inr a2 \<and> good a2 \<and> slots a2 = slots a"
proof -
  have a1: "good a1" "\<And>xs. whole a1 xs = whole a xs"
    using alloc_returns [OF assms(1,2)] assms(3) by auto
  have s: "whole a xs" "set xs \<subseteq> slots a" "slots a1 = slots a - set xs"
    using alloc_some [OF assms] by auto
  then have "set xs \<inter> slots a1 = {}" by blast
  with a1 s(1) obtain a2 where "free xs a1 = Inr a2" "good a2" "slots a2 = slots a1 \<union> set xs"
    using free_returns by metis
  with s show ?thesis by (intro exI [of _ a2]) auto
qed

lemma card_slots_alloc:
  assumes "good a" "grain a dvd n" "alloc n a = Inr (a1, Some xs)"
  shows "card (slots a1) + n = card (slots a)"
proof -
  have s: "length xs = n" "distinct xs" "set xs \<subseteq> slots a" "slots a1 = slots a - set xs"
    using alloc_some [OF assms] by auto
  have "card (slots a - set xs) = card (slots a) - card (set xs)"
    using s(3) by (simp add: card_Diff_subset)
  moreover have "card (set xs) \<le> card (slots a)"
    using s(3) finite_slots [OF assms(1)] by (simp add: card_mono)
  ultimately show ?thesis using s by (simp add: distinct_card)
qed

end

section \<open>The pools of the two allocators\<close>

definition pool_pages :: "kv_alloc \<Rightarrow> nat list" where
  "pool_pages a = free_pages a @ release_pages a"

text \<open>Between requests no free group is open, no page is listed twice, and released
  pages wait for sorting only when the allocator sorts.\<close>

definition pool_ok :: "kv_alloc \<Rightarrow> bool" where
  "pool_ok a \<longleftrightarrow> distinct (pool_pages a) \<and> is_not_in_free_group a \<and> 0 < al_page_size a \<and>
     (need_sort a \<or> release_pages a = [])"

definition tok_ok :: "kv_alloc \<Rightarrow> bool" where
  "tok_ok a \<longleftrightarrow> pool_ok a \<and> \<not> paged a \<and> al_page_size a = 1"

definition paged_ok :: "kv_alloc \<Rightarrow> bool" where
  "paged_ok a \<longleftrightarrow> pool_ok a \<and> paged a"

definition page_slots :: "nat \<Rightarrow> nat set \<Rightarrow> nat set" where
  "page_slots p P = {x. x div p \<in> P}"

definition pool_slots :: "kv_alloc \<Rightarrow> nat set" where
  "pool_slots a = page_slots (al_page_size a) (set (pool_pages a))"

text \<open>A list of slots made of complete pages.\<close>

definition whole_pages :: "kv_alloc \<Rightarrow> nat list \<Rightarrow> bool" where
  "whole_pages a xs \<longleftrightarrow>
     (\<forall>x y. x \<in> set xs \<longrightarrow> y div al_page_size a = x div al_page_size a \<longrightarrow> y \<in> set xs)"

lemma set_unique [simp]: "set (unique xs) = set xs"
  by (simp add: unique_def)

lemma distinct_unique [simp]: "distinct (unique xs)"
  by (simp add: unique_def)

lemma page_slots_1 [simp]: "page_slots (Suc 0) P = P"
  by (simp add: page_slots_def)

lemma page_slots_Diff: "page_slots p (A - B) = page_slots p A - page_slots p B"
  by (auto simp: page_slots_def)

lemma page_slots_Un: "page_slots p (A \<union> B) = page_slots p A \<union> page_slots p B"
  by (auto simp: page_slots_def)

lemma page_slots_mono: "A \<subseteq> B \<Longrightarrow> page_slots p A \<subseteq> page_slots p B"
  by (auto simp: page_slots_def)

lemma set_expand_pages: "0 < p \<Longrightarrow> set (expand_pages p pages) = page_slots p (set pages)"
proof -
  assume p: "0 < p"
  have "x \<in> set (expand_pages p pages)" if "x div p \<in> set pages" for x
    using that dividend_less_times_div [OF p, of x]
    by (auto simp: expand_pages_def mult.commute intro!: bexI [of _ "x div p"])
  moreover have "x div p \<in> set pages" if x: "x \<in> set (expand_pages p pages)" for x
  proof -
    obtain pg where pg: "pg \<in> set pages" "pg * p \<le> x" "x < pg * p + p"
      using x by (auto simp: expand_pages_def)
    then have "x div p = pg" using div_mult_self3 [of p pg "x - pg * p"] p by simp
    with pg show ?thesis by simp
  qed
  ultimately show ?thesis by (auto simp: page_slots_def)
qed

lemma length_expand_pages [simp]: "length (expand_pages p pages) = length pages * p"
  by (induction pages) (auto simp: expand_pages_def)

lemma distinct_expand_pages: "0 < p \<Longrightarrow> distinct pages \<Longrightarrow> distinct (expand_pages p pages)"
proof (induction pages)
  case (Cons pg pages)
  have "set (expand_pages p [pg]) \<inter> set (expand_pages p pages) = {}"
    using Cons.prems by (auto simp: set_expand_pages page_slots_def)
  moreover have "distinct (expand_pages p [pg])"
    by (auto simp: expand_pages_def distinct_map intro!: inj_onI)
  moreover have "expand_pages p (pg # pages) = expand_pages p [pg] @ expand_pages p pages"
    by (simp add: expand_pages_def)
  ultimately show ?case using Cons by simp
qed (simp add: expand_pages_def)

lemma card_page_slots: "0 < p \<Longrightarrow> distinct pages \<Longrightarrow> card (page_slots p (set pages)) = length pages * p"
  by (metis distinct_card distinct_expand_pages length_expand_pages set_expand_pages)

lemma card_pool_slots: "pool_ok a \<Longrightarrow> card (pool_slots a) = length (pool_pages a) * al_page_size a"
  by (simp add: pool_slots_def pool_ok_def card_page_slots)

lemma finite_pool_slots: "0 < al_page_size a \<Longrightarrow> finite (pool_slots a)"
  by (metis List.finite_set pool_slots_def set_expand_pages)

section \<open>Taking pages off the pool\<close>

text \<open>The step both \<open>alloc\<close> methods share: merge the released pages if the free
  list is too short, then take \<open>n\<close> pages off its front.\<close>

definition take_pages :: "nat \<Rightarrow> kv_alloc \<Rightarrow> kv_alloc \<times> nat list option" where
  "take_pages n a =
     (let a1 = (if need_sort a \<and> n > length (free_pages a) then merge_and_sort_free a else a)
      in if n > length (free_pages a1) then (a1, None)
         else (a1\<lparr>free_pages := drop n (free_pages a1)\<rparr>, Some (take n (free_pages a1))))"

lemma tok_alloc_take: "tok_alloc n a = take_pages n a"
  by (simp add: tok_alloc_def take_pages_def)

lemma paged_alloc_take:
  "al_page_size a dvd n \<Longrightarrow>
     paged_alloc n a =
       Inr (map_prod id (map_option (expand_pages (al_page_size a))) (take_pages (n div al_page_size a) a))"
  by (auto simp: paged_alloc_def take_pages_def Let_def)

lemma mset_merge_and_sort [simp]: "mset (pool_pages (merge_and_sort_free a)) = mset (pool_pages a)"
  by (auto simp: merge_and_sort_free_def pool_pages_def)

lemma merge_and_sort_sel [simp]:
  "al_page_size (merge_and_sort_free a) = al_page_size a" "paged (merge_and_sort_free a) = paged a"
  "need_sort (merge_and_sort_free a) = need_sort a"
  "is_not_in_free_group (merge_and_sort_free a) = is_not_in_free_group a"
  "debug_mode (merge_and_sort_free a) = debug_mode a"
  "release_pages (merge_and_sort_free a) = []"
  by (auto simp: merge_and_sort_free_def)

lemma pool_ok_merge: "pool_ok a \<Longrightarrow> pool_ok (merge_and_sort_free a)"
  using mset_eq_imp_distinct_iff [OF mset_merge_and_sort [of a]] by (simp add: pool_ok_def)

lemma take_pages_some:
  assumes ok: "pool_ok a" and some: "take_pages n a = (a', Some pgs)"
  shows "length pgs = n" "distinct pgs" "set pgs \<subseteq> set (pool_pages a)"
    "set (pool_pages a') = set (pool_pages a) - set pgs" "pool_ok a'"
    "al_page_size a' = al_page_size a" "paged a' = paged a" "debug_mode a' = debug_mode a"
proof -
  define a1 where "a1 = (if need_sort a \<and> n > length (free_pages a) then merge_and_sort_free a else a)"
  have a1: "mset (pool_pages a1) = mset (pool_pages a)" "pool_ok a1" "al_page_size a1 = al_page_size a"
    "paged a1 = paged a" "debug_mode a1 = debug_mode a"
    using ok pool_ok_merge by (auto simp: a1_def)
  have set_eq: "set (pool_pages a1) = set (pool_pages a)"
    using a1(1) by (metis set_mset_mset)
  have r: "a' = a1\<lparr>free_pages := drop n (free_pages a1)\<rparr>" "pgs = take n (free_pages a1)"
    "n \<le> length (free_pages a1)"
    using some by (auto simp: take_pages_def Let_def a1_def [symmetric] split: if_splits)
  have d: "distinct (take n (free_pages a1) @ drop n (free_pages a1) @ release_pages a1)"
    using a1(2) unfolding pool_ok_def pool_pages_def by (metis append_assoc append_take_drop_id)
  have sp: "set (pool_pages a1) = set pgs \<union> set (pool_pages a')"
  proof -
    have "set (free_pages a1) = set (take n (free_pages a1)) \<union> set (drop n (free_pages a1))"
      by (metis append_take_drop_id set_append)
    then show ?thesis by (auto simp: r pool_pages_def)
  qed
  show "length pgs = n" using r by simp
  show "distinct pgs" using d by (simp add: r)
  show "set pgs \<subseteq> set (pool_pages a)" using sp set_eq by blast
  have "set pgs \<inter> set (pool_pages a') = {}" using d by (auto simp: r pool_pages_def)
  then show "set (pool_pages a') = set (pool_pages a) - set pgs" using sp set_eq by blast
  show "pool_ok a'" using a1(2) d by (auto simp: pool_ok_def pool_pages_def r)
  show "al_page_size a' = al_page_size a" "paged a' = paged a" "debug_mode a' = debug_mode a"
    using a1 by (simp_all add: r)
qed

lemma take_pages_none:
  assumes ok: "pool_ok a" and none: "take_pages n a = (a', None)"
  shows "set (pool_pages a') = set (pool_pages a)" "length (pool_pages a) < n" "pool_ok a'"
    "al_page_size a' = al_page_size a" "paged a' = paged a" "debug_mode a' = debug_mode a"
proof -
  define a1 where "a1 = (if need_sort a \<and> n > length (free_pages a) then merge_and_sort_free a else a)"
  have a1: "mset (pool_pages a1) = mset (pool_pages a)" "pool_ok a1" "al_page_size a1 = al_page_size a"
    "paged a1 = paged a" "debug_mode a1 = debug_mode a"
    using ok pool_ok_merge by (auto simp: a1_def)
  have r: "a' = a1" "length (free_pages a1) < n"
    using none by (auto simp: take_pages_def Let_def a1_def [symmetric] split: if_splits)
  have "release_pages a1 = []"
    using ok r(2) by (auto simp: a1_def pool_ok_def split: if_splits)
  then have "length (pool_pages a1) < n" using r(2) by (simp add: pool_pages_def)
  then show "length (pool_pages a) < n" using a1(1) by (metis size_mset)
  show "set (pool_pages a') = set (pool_pages a)" using a1(1) r(1) by (metis set_mset_mset)
  show "pool_ok a'" "al_page_size a' = al_page_size a" "paged a' = paged a" "debug_mode a' = debug_mode a"
    using a1 r by simp_all
qed

lemma take_pages_ok:
  assumes "pool_ok a" "take_pages n a = (a', r)"
  shows "pool_ok a' \<and> al_page_size a' = al_page_size a \<and> paged a' = paged a"
proof (cases r)
  case None
  show ?thesis using take_pages_none [OF assms(1) assms(2) [unfolded None]] by simp
next
  case (Some pgs)
  show ?thesis using take_pages_some [OF assms(1) assms(2) [unfolded Some]] by simp
qed

section \<open>Giving pages back\<close>

lemma pool_ok_release:
  assumes "pool_ok a" "distinct (concat ids)" "set (concat ids) \<inter> set (pool_pages a) = {}"
  shows "pool_ok (release_page_ids ids a)"
    "set (pool_pages (release_page_ids ids a)) = set (pool_pages a) \<union> set (concat ids)"
  using assms by (auto simp: pool_ok_def release_page_ids_def pool_pages_def)

lemma release_sel [simp]:
  "al_page_size (release_page_ids ids a) = al_page_size a" "paged (release_page_ids ids a) = paged a"
  "debug_mode (release_page_ids ids a) = debug_mode a"
  "is_not_in_free_group (release_page_ids ids a) = is_not_in_free_group a"
  by (simp_all add: release_page_ids_def)

lemma debug_checked_ok: "pool_ok a \<Longrightarrow> debug_checked a = Inr a"
  by (simp add: debug_checked_def debug_check_no_duplicate_pages_def pool_ok_def pool_pages_def
      unique_def distinct_remdups_id)

lemma whole_pages_slots:
  assumes "whole_pages a xs"
  shows "page_slots (al_page_size a) ((\<lambda>i. i div al_page_size a) ` set xs) = set xs"
  using assms unfolding page_slots_def whole_pages_def by fastforce

theorem paged_free_correct:
  assumes ok: "paged_ok a" and whole: "whole_pages a xs" and dis: "set xs \<inter> pool_slots a = {}"
  shows "\<exists>a'. paged_free xs a = Inr a' \<and> paged_ok a' \<and> al_page_size a' = al_page_size a \<and>
      pool_slots a' = pool_slots a \<union> set xs"
proof (cases "xs = []")
  case True
  then show ?thesis using ok by (simp add: paged_free_def)
next
  case False
  let ?p = "al_page_size a"
  let ?ids = "[unique (map (\<lambda>i. i div ?p) xs)]"
  have po: "pool_ok a" "paged a" using ok by (auto simp: paged_ok_def)
  have "set (concat ?ids) \<inter> set (pool_pages a) = {}"
    using dis by (auto simp: pool_slots_def page_slots_def)
  note rel = pool_ok_release [OF po(1) _ this]
  have eq: "paged_free xs a = Inr (release_page_ids ?ids a)"
    using False po rel(1) by (simp add: paged_free_def debug_checked_ok pool_ok_def)
  have "pool_slots (release_page_ids ?ids a) = pool_slots a \<union> set xs"
    using rel(2) whole_pages_slots [OF whole] by (simp add: pool_slots_def page_slots_Un)
  with eq rel(1) po show ?thesis by (simp add: paged_ok_def)
qed

lemma tok_free_correct:
  assumes ok: "tok_ok a" and d: "distinct xs" and dis: "set xs \<inter> pool_slots a = {}"
  shows "tok_ok (tok_free xs a) \<and> pool_slots (tok_free xs a) = pool_slots a \<union> set xs"
  using assms
  by (auto simp: tok_ok_def pool_ok_def tok_free_def pool_slots_def pool_pages_def)

interpretation token_pool: slot_pool pool_slots "\<lambda>n a. Inr (tok_alloc n a)" "\<lambda>xs a. Inr (tok_free xs a)"
  tok_ok al_page_size "\<lambda>a xs. distinct xs"
proof (unfold_locales, goal_cases)
  case (1 a)
  then show ?case by (simp add: tok_ok_def finite_pool_slots)
next
  case (2 a n)
  obtain a' r where r: "take_pages n a = (a', r)" by (rule prod.exhaust)
  have "pool_ok a' \<and> al_page_size a' = al_page_size a \<and> paged a' = paged a"
    using take_pages_ok [OF _ r] 2 by (simp add: tok_ok_def)
  then show ?case using 2 r by (simp add: tok_ok_def tok_alloc_take)
next
  case (3 a n a' xs)
  then have "pool_ok a" "take_pages n a = (a', Some xs)" by (auto simp: tok_ok_def tok_alloc_take)
  from take_pages_some [OF this] show ?case using 3 by (simp add: pool_slots_def tok_ok_def)
next
  case (4 a n a')
  then have "pool_ok a" "take_pages n a = (a', None)" by (auto simp: tok_ok_def tok_alloc_take)
  from take_pages_none [OF this] show ?case
    using 4 card_pool_slots [of a] by (simp add: pool_slots_def tok_ok_def)
next
  case (5 a xs)
  then show ?case using tok_free_correct [of a xs] by (simp add: tok_ok_def)
qed

lemma whole_pages_expand: "0 < al_page_size a \<Longrightarrow> whole_pages a (expand_pages (al_page_size a) pgs)"
  by (auto simp: whole_pages_def set_expand_pages page_slots_def)

interpretation paged_pool: slot_pool pool_slots paged_alloc paged_free paged_ok al_page_size whole_pages
proof (unfold_locales, goal_cases)
  case (1 a)
  then show ?case by (simp add: paged_ok_def pool_ok_def finite_pool_slots)
next
  case (2 a n)
  obtain a' r where r: "take_pages (n div al_page_size a) a = (a', r)" by (rule prod.exhaust)
  have "pool_ok a' \<and> al_page_size a' = al_page_size a \<and> paged a' = paged a"
    using take_pages_ok [OF _ r] 2 by (simp add: paged_ok_def)
  then show ?case using 2 r by (simp add: paged_ok_def paged_alloc_take whole_pages_def)
next
  case (3 a n a' xs)
  let ?p = "al_page_size a"
  have a: "pool_ok a" "0 < ?p" using 3 by (auto simp: paged_ok_def pool_ok_def)
  from 3 obtain pgs where pgs: "take_pages (n div ?p) a = (a', Some pgs)" "xs = expand_pages ?p pgs"
    by (cases "take_pages (n div ?p) a") (auto simp: paged_alloc_take)
  note t = take_pages_some [OF a(1) pgs(1)]
  show ?case
    using 3 t a(2)
    by (simp add: pgs(2) set_expand_pages distinct_expand_pages whole_pages_expand pool_slots_def
        page_slots_Diff page_slots_mono)
next
  case (4 a n a')
  let ?p = "al_page_size a"
  have a: "pool_ok a" "0 < ?p" using 4 by (auto simp: paged_ok_def pool_ok_def)
  from 4 have "take_pages (n div ?p) a = (a', None)"
    by (cases "take_pages (n div ?p) a") (auto simp: paged_alloc_take)
  note t = take_pages_none [OF a(1) this]
  have "length (pool_pages a) * ?p < n div ?p * ?p" using t(2) a(2) by simp
  then show ?case using 4(2) t(1,4) card_pool_slots [OF a(1)] by (simp add: pool_slots_def)
next
  case (5 a xs)
  then show ?case using paged_free_correct [of a xs] by (auto simp: paged_ok_def)
qed

section \<open>Freeing runs of pages\<close>

definition al_ok :: "kv_alloc \<Rightarrow> bool" where
  "al_ok a \<longleftrightarrow> (if paged a then paged_ok a else tok_ok a)"

lemma every_expand: "0 < p \<Longrightarrow> every p (expand_pages p pgs) = map (\<lambda>g. g * p) pgs"
proof (induction pgs)
  case (Cons g pgs)
  have e: "expand_pages p (g # pgs) = map (\<lambda>j. g * p + j) [0..<p] @ expand_pages p pgs"
    by (simp add: expand_pages_def)
  obtain q where q: "p = Suc q" using Cons.prems by (cases p) auto
  have "hd (expand_pages p (g # pgs)) = g * p" "expand_pages p (g # pgs) \<noteq> []"
    unfolding e by (simp_all add: q upt_conv_Cons del: upt_Suc)
  moreover have "drop p (expand_pages p (g # pgs)) = expand_pages p pgs" unfolding e by simp
  ultimately show ?case using Cons every_step [of p "expand_pages p (g # pgs)"] by simp
qed (simp add: expand_pages_def)

lemma distinct_expand_iff: "0 < p \<Longrightarrow> distinct (expand_pages p pgs) \<longleftrightarrow> distinct pgs"
proof
  assume p: "0 < p" and d: "distinct (expand_pages p pgs)"
  have "card (page_slots p (set pgs)) = length pgs * p"
    using distinct_card [OF d] by (simp add: set_expand_pages [OF p])
  moreover have "card (page_slots p (set pgs)) = card (set pgs) * p"
    using card_page_slots [OF p distinct_remdups [of pgs]] by (simp add: length_remdups_card_conv)
  ultimately show "distinct pgs" using p by (simp add: card_distinct)
qed (rule distinct_expand_pages)

lemma paged_free_run:
  assumes ok: "paged_ok a" and d: "distinct (expand_pages (al_page_size a) pgs)"
    and dis: "set (expand_pages (al_page_size a) pgs) \<inter> pool_slots a = {}"
  shows "\<exists>a'. paged_free_segment (expand_pages (al_page_size a) pgs) 0 a = Inr a' \<and> paged_ok a' \<and>
      al_page_size a' = al_page_size a \<and> pool_slots a' = pool_slots a \<union> set (expand_pages (al_page_size a) pgs)"
proof (cases "pgs = []")
  case True
  then show ?thesis using ok by (simp add: paged_free_segment_def expand_pages_def)
next
  case False
  let ?p = "al_page_size a" and ?v = "expand_pages (al_page_size a) pgs"
  have po: "pool_ok a" "paged a" "0 < ?p" using ok by (auto simp: paged_ok_def pool_ok_def)
  have dp: "distinct pgs" using d distinct_expand_iff [OF po(3)] by simp
  have ne: "length ?v \<noteq> 0" using False po(3) by simp
  have pieces: "map (map (\<lambda>i. i div ?p)) (segment_pieces ?p ?v 0) = [pgs]"
    using po(3) by (simp add: segment_pieces_def every_expand comp_def)
  have "(\<lambda>i. i div ?p) ` set ?v = set pgs"
  proof
    show "(\<lambda>i. i div ?p) ` set ?v \<subseteq> set pgs" using po(3) by (auto simp: set_expand_pages page_slots_def)
    have "g \<in> (\<lambda>i. i div ?p) ` set ?v" if "g \<in> set pgs" for g
      using that po(3) by (intro image_eqI [of _ _ "g * ?p"]) (auto simp: set_expand_pages page_slots_def)
    then show "set pgs \<subseteq> (\<lambda>i. i div ?p) ` set ?v" by blast
  qed
  then have "set (remdups (map (\<lambda>i. i div ?p) ?v)) = set pgs" by simp
  then have "mset (remdups (map (\<lambda>i. i div ?p) ?v)) = mset pgs"
    using dp by (metis distinct_remdups set_eq_iff_mset_eq_distinct)
  then have chk: "sort pgs = unique (map (\<lambda>i. i div ?p) ?v)"
    unfolding unique_def by (intro properties_for_sort) simp_all
  have "set pgs \<inter> set (pool_pages a) = {}"
  proof (rule ccontr)
    assume "set pgs \<inter> set (pool_pages a) \<noteq> {}"
    then obtain g where "g \<in> set pgs" "g \<in> set (pool_pages a)" by blast
    then have "g * ?p \<in> set ?v \<inter> pool_slots a"
      using po(3) by (simp add: set_expand_pages pool_slots_def page_slots_def)
    then show False using dis by blast
  qed
  then have rel: "pool_ok (release_page_ids [pgs] a)" "set (pool_pages (release_page_ids [pgs] a)) = set (pool_pages a) \<union> set pgs"
    using pool_ok_release [OF po(1), of "[pgs]"] dp by simp_all
  have "paged_free_segment ?v 0 a = Inr (release_page_ids [pgs] a)"
    using ne pieces chk po(1) rel(1) by (simp add: paged_free_segment_def Let_def pool_ok_def debug_checked_ok)
  moreover have "pool_slots (release_page_ids [pgs] a) = pool_slots a \<union> set ?v"
    using rel(2) po(3) by (simp add: pool_slots_def page_slots_Un set_expand_pages)
  ultimately show ?thesis using rel(1) po(2) by (simp add: paged_ok_def)
qed

theorem al_free_run:
  assumes "al_ok a" "v = expand_pages (al_page_size a) pgs" "distinct v" "set v \<inter> pool_slots a = {}"
  shows "\<exists>a'. al_free_segment v 0 a = Inr a' \<and> al_ok a' \<and> al_page_size a' = al_page_size a \<and>
      pool_slots a' = pool_slots a \<union> set v"
proof (cases "paged a")
  case True
  then show ?thesis
    using paged_free_run [of a pgs] assms by (auto simp: al_ok_def al_free_segment_def paged_ok_def)
next
  case False
  then show ?thesis
    using tok_free_correct [of a v] assms
    by (auto simp: al_ok_def al_free_segment_def al_free_def tok_ok_def)
qed

end
