(* ===== verification/ReqPool.thy ===== *)
theory ReqPool
  imports Prelude
begin

text \<open>
  \<open>ReqToTokenPool\<close> of \<open>python/sglang/srt/mem_cache/memory_pool.py\<close>: the rows that
  map the token positions of a request to KV slots, and the list of free rows.

  \<open>req_to_token\<close> is the list of its rows. The fields of \<open>Req\<close> that the pool and
  the prefix cache read or write form the record \<open>req\<close>; a tensor view of a row is
  the list of its entries.
\<close>

record req =
  origin_input_ids :: "int list"
  output_ids :: "int list"
  full_untruncated_fill_ids :: "int list"
  extend_end :: int
  req_extra_key :: "string option"
  req_cache_salt :: "string option"
  req_priority :: "int option"
  req_pool_idx :: "nat option"
  cache_protected_len :: nat
  prefix_indices :: "nat list"
  last_node :: "nat option"
  inflight_middle_chunks :: nat
  kv_committed_len :: nat

text \<open>\<open>Req.get_fill_ids\<close>; \<open>extend_end\<close> is \<open>extend_range.end\<close>.\<close>

definition get_fill_ids :: "req \<Rightarrow> int list" where
  "get_fill_ids r =
     (let ids = full_untruncated_fill_ids r; e = extend_end r in
      if 0 \<le> e then take (nat e) ids else take (length ids - nat (- e)) ids)"

record req_pool =
  rp_size :: nat
  max_context_len :: nat
  req_to_token :: "nat list list"
  free_slots :: "nat list"
  req_generation :: "nat list"

definition req_pool_init :: "nat \<Rightarrow> nat \<Rightarrow> req_pool" where
  "req_pool_init sz mcl =
     \<lparr>rp_size = sz, max_context_len = mcl,
      req_to_token = replicate (sz + 1) (replicate mcl 0),
      free_slots = [1..<sz + 1], req_generation = replicate (sz + 1) 0\<rparr>"

text \<open>\<open>req_to_token[row, a:b]\<close> and the assignment to it, with Python's clipping of
  the bounds; a row that does not exist is an \<open>IndexError\<close>, a value of another
  length than the slice a \<open>RuntimeError\<close>.\<close>

definition row_slice :: "req_pool \<Rightarrow> nat \<Rightarrow> nat \<Rightarrow> nat \<Rightarrow> nat list res" where
  "row_slice p row a b =
     (if row < length (req_to_token p) then Inr (slice a b (req_to_token p ! row))
      else Inl IndexError)"

definition rp_write :: "nat \<Rightarrow> nat \<Rightarrow> nat \<Rightarrow> nat list \<Rightarrow> req_pool \<Rightarrow> req_pool res" where
  "rp_write row a b values p =
     (if row < length (req_to_token p) then
        (let r = req_to_token p ! row in
         if length values = length (slice a b r)
         then Inr (p\<lparr>req_to_token :=
                      (req_to_token p)[row := take a r @ values @ drop (a + length values) r]\<rparr>)
         else Inl RuntimeError)
      else Inl IndexError)"

definition rp_available_size :: "req_pool \<Rightarrow> nat" where
  "rp_available_size p = length (free_slots p)"

text \<open>The assignment loop of \<open>alloc\<close>; \<open>select_index[offset]\<close> is the head of the
  indices not yet handed out.\<close>

fun assign_slots :: "req list \<Rightarrow> nat list \<Rightarrow> nat list \<Rightarrow> (req list \<times> nat list) res" where
  "assign_slots [] sel gen = Inr ([], gen)"
| "assign_slots (r # rs) sel gen =
     (if req_pool_idx r = None then
        (case sel of
           [] \<Rightarrow> Inl IndexError
         | s # sel' \<Rightarrow>
             if s < length gen
             then map_res (\<lambda>(rs', gen'). (r\<lparr>req_pool_idx := Some s\<rparr> # rs', gen'))
                    (assign_slots rs sel' (gen[s := gen ! s + 1]))
             else Inl IndexError)
      else map_res (\<lambda>(rs', gen'). (r # rs', gen')) (assign_slots rs sel gen))"

definition rp_alloc :: "req list \<Rightarrow> req_pool \<Rightarrow> (req_pool \<times> req list \<times> nat list option) res" where
  "rp_alloc reqs p =
     (let reusing = filter (\<lambda>r. req_pool_idx r \<noteq> None) reqs in
      if \<not> list_all (\<lambda>r. inflight_middle_chunks r > 0 \<or> kv_committed_len r > 0) reusing
      then Inl AssertionError
      else
        (let need_size = length reqs - length reusing; n = length (free_slots p) in
         if need_size > n then Inr (p, reqs, None)
         else
           (let select_index = drop (n - need_size) (free_slots p);
                free' = take (n - need_size) (free_slots p)
            in map_res (\<lambda>(rs, gen).
                 (p\<lparr>free_slots := free', req_generation := gen\<rparr>, rs,
                  Some (map (\<lambda>r. the (req_pool_idx r)) rs)))
                 (assign_slots reqs select_index (req_generation p)))))"

definition rp_free :: "req \<Rightarrow> req_pool \<Rightarrow> (req_pool \<times> req) res" where
  "rp_free r p =
     (case req_pool_idx r of
        None \<Rightarrow> Inl AssertionError
      | Some i \<Rightarrow> Inr (p\<lparr>free_slots := free_slots p @ [i]\<rparr>, r\<lparr>req_pool_idx := None\<rparr>))"

definition rp_clear :: "req_pool \<Rightarrow> req_pool" where
  "rp_clear p = p\<lparr>free_slots := [1..<rp_size p + 1],
                    req_generation := replicate (length (req_generation p)) 0\<rparr>"

section \<open>Rows are handed out once\<close>

text \<open>Free rows are distinct, never the padding row 0, and inside the table.\<close>

definition rp_ok :: "req_pool \<Rightarrow> bool" where
  "rp_ok p \<longleftrightarrow> distinct (free_slots p) \<and> set (free_slots p) \<subseteq> {1..rp_size p} \<and>
     length (req_generation p) = rp_size p + 1 \<and> length (req_to_token p) = rp_size p + 1"

definition rows_of :: "req list \<Rightarrow> nat list" where
  "rows_of rs = map (\<lambda>r. the (req_pool_idx r)) (filter (\<lambda>r. req_pool_idx r \<noteq> None) rs)"

lemma rp_ok_init: "rp_ok (req_pool_init sz mcl)"
  by (auto simp: rp_ok_def req_pool_init_def)

lemma assign_slots_ok:
  assumes "length sel = length (filter (\<lambda>r. req_pool_idx r = None) rs)" "\<forall>s\<in>set sel. s < length gen"
  shows "\<exists>rs' gen'. assign_slots rs sel gen = Inr (rs', gen') \<and> length gen' = length gen \<and>
    length rs' = length rs \<and> (\<forall>r\<in>set rs'. req_pool_idx r \<noteq> None) \<and>
    mset (rows_of rs') = mset sel + mset (rows_of rs)"
  using assms
proof (induction rs sel gen rule: assign_slots.induct)
  case (2 r rs sel gen)
  show ?case
  proof (cases "req_pool_idx r = None")
    case True
    with 2 obtain s sel' where s: "sel = s # sel'" by (cases sel) auto
    then have "s < length gen" using 2(4) by simp
    with 2(1) [OF True s] 2(3,4) True s show ?thesis by (auto simp: rows_of_def)
  next
    case False
    with 2 show ?thesis by (auto simp: rows_of_def)
  qed
qed (simp add: rows_of_def)

lemma rp_alloc_some:
  assumes ok: "rp_ok p"
    and reuse: "\<forall>r\<in>set rs. req_pool_idx r \<noteq> None \<longrightarrow> inflight_middle_chunks r > 0 \<or> kv_committed_len r > 0"
    and enough: "length (filter (\<lambda>r. req_pool_idx r = None) rs) \<le> length (free_slots p)"
  shows "\<exists>p' rs' xs. rp_alloc rs p = Inr (p', rs', Some xs) \<and> rp_ok p' \<and> length xs = length rs \<and>
    mset (rows_of rs') + mset (free_slots p') = mset (rows_of rs) + mset (free_slots p) \<and>
    xs = rows_of rs'"
proof -
  let ?need = "length (filter (\<lambda>r. req_pool_idx r = None) rs)"
  let ?n = "length (free_slots p)"
  let ?sel = "drop (?n - ?need) (free_slots p)"
  have need: "length rs - length (filter (\<lambda>r. req_pool_idx r \<noteq> None) rs) = ?need"
    using sum_length_filter_compl [of "\<lambda>r. req_pool_idx r = None" rs] by simp
  have len: "length ?sel = ?need" using enough by simp
  have inb: "\<forall>s\<in>set ?sel. s < length (req_generation p)"
    using ok set_drop_subset [of "?n - ?need" "free_slots p"] by (fastforce simp: rp_ok_def)
  obtain rs' gen' where a: "assign_slots rs ?sel (req_generation p) = Inr (rs', gen')"
    "length gen' = length (req_generation p)" "length rs' = length rs"
    "\<forall>r\<in>set rs'. req_pool_idx r \<noteq> None" "mset (rows_of rs') = mset ?sel + mset (rows_of rs)"
    using assign_slots_ok [OF len inb] by blast
  have xs: "map (\<lambda>r. the (req_pool_idx r)) rs' = rows_of rs'"
    using a(4) by (simp add: rows_of_def)
  have "mset (take (?n - ?need) (free_slots p)) + mset ?sel = mset (free_slots p)"
    by (metis append_take_drop_id mset_append)
  then have rows: "mset (rows_of rs') + mset (take (?n - ?need) (free_slots p)) =
      mset (rows_of rs) + mset (free_slots p)"
    using a(5) by (simp add: ac_simps)
  have guard: "list_all (\<lambda>r. inflight_middle_chunks r > 0 \<or> kv_committed_len r > 0)
      (filter (\<lambda>r. req_pool_idx r \<noteq> None) rs)"
    using reuse by (auto simp: list_all_iff)
  have call: "rp_alloc rs p = Inr (p\<lparr>free_slots := take (?n - ?need) (free_slots p),
      req_generation := gen'\<rparr>, rs', Some (rows_of rs'))"
    using guard enough a(1) xs unfolding rp_alloc_def Let_def need by simp
  have "rp_ok (p\<lparr>free_slots := take (?n - ?need) (free_slots p), req_generation := gen'\<rparr>)"
    using ok a(2) set_take_subset [of "?n - ?need" "free_slots p"] by (auto simp: rp_ok_def)
  moreover have "length (rows_of rs') = length rs" using a(3) by (simp add: xs [symmetric])
  ultimately show ?thesis using call rows by simp
qed

end
