(* ===== verification/RadixCache.thy ===== *)
theory RadixCache
  imports RadixContent EvictPolicy KVAllocator ReqPool
begin

text \<open>
  The class \<open>RadixCache\<close> (\<open>python/sglang/srt/mem_cache/radix_cache.py\<close>): its public
  operations on the tree of \<open>RadixTree\<close>, composed with the slot allocator and the
  table of request rows.

  The model is the cache with \<open>enable_kv_cache_events\<close> and metrics off, where the
  event and metrics hooks return without effect. A node handle held by a request
  or by \<open>evictable_leaves\<close> is the node's id; following \<open>parent\<close> pointers from a
  handle to the root is the walk of the path from the root to that id, unwound
  from its end. A handle that is not in the tree gives \<open>StaleNode\<close>.
\<close>

section \<open>The cache state\<close>

record radix_cache =
  disable :: bool
  page_size :: nat
  is_eagle :: bool
  disable_finished_insert :: bool
  eviction_strategy :: eviction_strategy
  root_node :: tree
  next_id :: nat
  acct :: acct

definition max_int :: int where
  "max_int = 2 ^ 63 - 1"

definition new_root :: "nat \<Rightarrow> clock \<Rightarrow> tree" where
  "new_root i clk =
     Node ((new_tree_node i (- max_int) clk)
             \<lparr>rkey := empty_key, rvalue := Some [], host_value := Some [], lock_ref := 1,
              hash_value := Some []\<rparr>) []"

definition rc_reset :: "clock \<Rightarrow> radix_cache \<Rightarrow> radix_cache" where
  "rc_reset clk c =
     c\<lparr>root_node := new_root (next_id c) clk, next_id := next_id c + 1,
       acct := \<lparr>evictable_size = 0, protected_size = 0, evictable_leaves = {}\<rparr>\<rparr>"

definition rc_init :: "clock \<Rightarrow> nat \<Rightarrow> bool \<Rightarrow> nat \<Rightarrow> bool \<Rightarrow> bool \<Rightarrow> string \<Rightarrow> radix_cache res" where
  "rc_init clk i dis p eagle dfi policy =
     map_res (\<lambda>s. rc_reset clk
         \<lparr>disable = dis, page_size = p, is_eagle = eagle, disable_finished_insert = dfi,
          eviction_strategy = s, root_node = new_root i clk, next_id = i,
          acct = \<lparr>evictable_size = 0, protected_size = 0, evictable_leaves = {}\<rparr>\<rparr>)
       (get_eviction_strategy (map lower_char policy))"

section \<open>Matching and inserting\<close>

record match_result =
  device_indices :: "nat list"
  last_device_node :: nat

definition empty_match_result :: "radix_cache \<Rightarrow> match_result" where
  "empty_match_result c = \<lparr>device_indices = [], last_device_node = tid (root_node c)\<rparr>"

definition rc_match_prefix ::
  "clock \<Rightarrow> int \<Rightarrow> radix_key \<Rightarrow> radix_cache \<Rightarrow> (radix_cache \<times> match_result) res" where
  "rc_match_prefix clk now key0 c =
     (let key = fst (maybe_to_bigram_view key0 (is_eagle c) (None :: nat list option)) in
      if disable c \<or> rk_len key = 0 then Inr (c, empty_match_result c)
      else
        (let key = page_aligned key (page_size c) in
         if rk_len key = 0 then Inr (c, empty_match_result c)
         else bind_res (match_prefix_helper (page_size c) clk now (next_id c) (root_node c) key)
           (\<lambda>(t, i, vs, l).
              Inr (c\<lparr>root_node := t, next_id := i\<rparr>,
                   \<lparr>device_indices = concat vs, last_device_node = l\<rparr>))))"

record insert_result =
  prefix_len :: nat
  ins_last_node :: "nat option"

text \<open>Without a value the token ids are the value; a negative id cannot be one.\<close>

definition default_value :: "radix_key \<Rightarrow> nat list" where
  "default_value key = map nat (take (rk_len key) (token_ids key))"

definition rc_insert ::
  "clock \<Rightarrow> int \<Rightarrow> radix_key \<Rightarrow> nat list option \<Rightarrow> int option \<Rightarrow> bool \<Rightarrow> radix_cache
     \<Rightarrow> (radix_cache \<times> insert_result) res" where
  "rc_insert clk now key0 val0 prio chunked c =
     (if disable c then Inr (c, \<lparr>prefix_len = 0, ins_last_node = None\<rparr>)
      else
        (let (key1, val1) = maybe_to_bigram_view key0 (is_eagle c) val0;
             key = page_aligned key1 (page_size c);
             v = (case val1 of Some v \<Rightarrow> take (rk_len key) v | None \<Rightarrow> default_value key)
         in bind_res (insert_helper (page_size c) clk now (next_id c) (root_node c) key v prio chunked (acct c))
              (\<lambda>(t, i, a, total, l).
                 Inr (c\<lparr>root_node := t, next_id := i, acct := a\<rparr>,
                      \<lparr>prefix_len = total, ins_last_node = Some l\<rparr>))))"

section \<open>Lock references\<close>

text \<open>
  \<open>walk f n t s\<close> applies \<open>f\<close> to the nodes on the way from node \<open>n\<close> up to \<open>t\<close>, in
  that order, threading the state \<open>s\<close>; \<open>walk_kids\<close> does so below a node.
\<close>

type_synonym lock_state = "acct \<times> int"

fun walk :: "(tree \<Rightarrow> lock_state \<Rightarrow> tree \<times> lock_state) \<Rightarrow> nat \<Rightarrow> tree \<Rightarrow> lock_state
               \<Rightarrow> (tree \<times> lock_state) option"
  and walk_kids :: "(tree \<Rightarrow> lock_state \<Rightarrow> tree \<times> lock_state) \<Rightarrow> nat \<Rightarrow> (child_key \<times> tree) list
               \<Rightarrow> lock_state \<Rightarrow> ((child_key \<times> tree) list \<times> lock_state) option" where
  "walk f n (Node i cs) s =
     (if node_id i = n then Some (f (Node i cs) s)
      else (case walk_kids f n cs s of
              None \<Rightarrow> None
            | Some (cs', s') \<Rightarrow> Some (f (Node i cs') s')))"
| "walk_kids f n [] s = None"
| "walk_kids f n ((ck, c) # cs) s =
     (case walk f n c s of
        Some (c', s') \<Rightarrow> Some ((ck, c') # cs, s')
      | None \<Rightarrow>
          (case walk_kids f n cs s of
             None \<Rightarrow> None
           | Some (cs', s') \<Rightarrow> Some ((ck, c) # cs', s')))"

definition inc_step :: "tree \<Rightarrow> lock_state \<Rightarrow> tree \<times> lock_state" where
  "inc_step node s =
     (let (a, delta) = s; n = int (rk_len (tkey node));
          (a1, delta1) =
            (if tlock node = 0
             then (a\<lparr>evictable_size := evictable_size a - n, protected_size := protected_size a + n\<rparr>,
                   delta - n)
             else (a, delta));
          node' = Node ((info node)\<lparr>lock_ref := tlock node + 1\<rparr>) (kids node)
      in (node', update_leaf_status node' a1, delta1))"

definition dec_step :: "tree \<Rightarrow> lock_state \<Rightarrow> tree \<times> lock_state" where
  "dec_step node s =
     (let (a, delta) = s; n = int (rk_len (tkey node));
          (a1, delta1) =
            (if tlock node = 1
             then (a\<lparr>evictable_size := evictable_size a + n, protected_size := protected_size a - n\<rparr>,
                   delta + n)
             else (a, delta));
          node' = Node ((info node)\<lparr>lock_ref := tlock node - 1\<rparr>) (kids node)
      in (node', update_leaf_status node' a1, delta1))"

definition lock_path ::
  "(tree \<Rightarrow> lock_state \<Rightarrow> tree \<times> lock_state) \<Rightarrow> nat \<Rightarrow> radix_cache \<Rightarrow> (radix_cache \<times> int) res" where
  "lock_path f n c =
     (if disable c then Inr (c, 0)
      else if n = tid (root_node c) then Inr (c, 0)
      else (case walk_kids f n (kids (root_node c)) (acct c, 0) of
              None \<Rightarrow> Inl StaleNode
            | Some (cs, a, delta) \<Rightarrow>
                Inr (c\<lparr>root_node := Node (info (root_node c)) cs, acct := a\<rparr>, delta)))"

definition inc_lock_ref :: "nat \<Rightarrow> radix_cache \<Rightarrow> (radix_cache \<times> int) res" where
  "inc_lock_ref n c = lock_path inc_step n c"

definition dec_lock_ref :: "nat \<Rightarrow> radix_cache \<Rightarrow> (radix_cache \<times> int) res" where
  "dec_lock_ref n c = lock_path dec_step n c"

section \<open>Eviction\<close>

fun find_node :: "nat \<Rightarrow> tree \<Rightarrow> tree option"
  and find_kids :: "nat \<Rightarrow> (child_key \<times> tree) list \<Rightarrow> tree option" where
  "find_node n (Node i cs) = (if node_id i = n then Some (Node i cs) else find_kids n cs)"
| "find_kids n [] = None"
| "find_kids n ((ck, c) # cs) =
     (case find_node n c of Some t \<Rightarrow> Some t | None \<Rightarrow> find_kids n cs)"

text \<open>
  \<open>_delete_leaf(node)\<close> for the node with id \<open>n\<close> below \<open>t\<close>: the tree without it, the
  node, and its parent after the removal. \<open>None\<close> when there is no such node.
\<close>

definition pop_child :: "nat \<Rightarrow> tree \<Rightarrow> tree_info \<Rightarrow> (child_key \<times> tree) list \<Rightarrow> (tree \<times> tree \<times> tree) res" where
  "pop_child p node i cs =
     bind_res (rk_child_key (tkey node) p) (\<lambda>ck.
       case map_of cs ck of
         Some v \<Rightarrow>
           if tid v = tid node
           then (let par = Node i (AList.delete ck cs) in Inr (par, node, par))
           else Inl AssertionError
       | None \<Rightarrow> Inl AssertionError)"

fun cut_leaf :: "nat \<Rightarrow> nat \<Rightarrow> tree \<Rightarrow> (tree \<times> tree \<times> tree) res option"
  and cut_kids :: "nat \<Rightarrow> nat \<Rightarrow> (child_key \<times> tree) list
                     \<Rightarrow> ((child_key \<times> tree) list \<times> tree \<times> tree) res option" where
  "cut_leaf p n (Node i cs) =
     (case find (\<lambda>e. tid (snd e) = n) cs of
        Some e \<Rightarrow> Some (pop_child p (snd e) i cs)
      | None \<Rightarrow>
          map_option (map_res (\<lambda>(cs', x, par). (Node i cs', x, par))) (cut_kids p n cs))"
| "cut_kids p n [] = None"
| "cut_kids p n ((ck, c) # cs) =
     (case cut_leaf p n c of
        Some r \<Rightarrow> Some (map_res (\<lambda>(c', x, par). ((ck, c') # cs, x, par)) r)
      | None \<Rightarrow>
          map_option (map_res (\<lambda>(cs', x, par). ((ck, c) # cs', x, par))) (cut_kids p n cs))"

definition delete_leaf :: "nat \<Rightarrow> nat \<Rightarrow> tree \<Rightarrow> acct \<Rightarrow> (tree \<times> acct \<times> tree) res" where
  "delete_leaf p n t a =
     (case cut_leaf p n t of
        None \<Rightarrow> Inl StaleNode
      | Some r \<Rightarrow>
          map_res (\<lambda>(t', x, par).
            (t', update_leaf_status par
                   (a\<lparr>evictable_size := evictable_size a - int (rk_len (tkey x)),
                     evictable_leaves := evictable_leaves a - {tid x}\<rparr>),
             par)) r)"

text \<open>Every removal makes the tree smaller, so the eviction loop ends.\<close>

lemma size_delete_le:
  "size_list (size_prod (\<lambda>_. 0) size) (AList.delete ck cs) \<le> size_list (size_prod (\<lambda>_. 0) size) cs"
  by (induction cs) auto

lemma size_delete:
  "(ck, c) \<in> set cs \<Longrightarrow>
     size_list (size_prod (\<lambda>_. 0) size) (AList.delete ck cs) < size_list (size_prod (\<lambda>_. 0) size) cs"
proof (induction cs)
  case (Cons e cs)
  then show ?case
    using size_delete_le [of ck cs] by (auto simp: less_Suc_eq_le trans_le_add2 le_SucI)
qed simp

lemma pop_child_size:
  "pop_child p x i cs = Inr (t', y, par) \<Longrightarrow> size t' < size (Node i cs)"
  by (auto simp: pop_child_def bind_res_Inr_iff Let_def split: option.splits if_splits
      dest!: map_of_SomeD size_delete)

lemma cut_leaf_size:
  "cut_leaf p n t = Some (Inr (t', x, par)) \<Longrightarrow> size t' < size t"
  "cut_kids p n cs = Some (Inr (cs', x, par)) \<Longrightarrow>
     size_list (size_prod (\<lambda>_. 0) size) cs' < size_list (size_prod (\<lambda>_. 0) size) cs"
proof (induction p n t and p n cs arbitrary: t' and cs' rule: cut_leaf_cut_kids.induct)
  case (1 p n i cs)
  then show ?case
    by (auto simp: map_res_Inr_iff dest!: pop_child_size split: option.splits)
next
  case (3 p n ck c cs)
  then show ?case
    by (auto simp: map_res_Inr_iff split: option.splits)
qed simp

lemma delete_leaf_size: "delete_leaf p n t a = Inr (t', a', par) \<Longrightarrow> size t' < size t"
  by (auto simp: delete_leaf_def map_res_Inr_iff split: option.splits dest: cut_leaf_size)

lemma bind_res_cong [fundef_cong]:
  "r = r' \<Longrightarrow> (\<And>x. r' = Inr x \<Longrightarrow> f x = f' x) \<Longrightarrow> bind_res r f = bind_res r' f'"
  by (cases r') auto

text \<open>The \<open>while\<close> loop of \<open>evict\<close>, over the tree, the counters, the allocator, the
  heap and \<open>num_evicted\<close>.\<close>

function evict_loop ::
  "nat \<Rightarrow> eviction_strategy \<Rightarrow> int \<Rightarrow> tree \<Rightarrow> acct \<Rightarrow> kv_alloc \<Rightarrow> heap_entry list \<Rightarrow> nat
     \<Rightarrow> (tree \<times> acct \<times> kv_alloc \<times> nat) res" where
  "evict_loop p s num_tokens t a al heap num_evicted =
     (if int num_evicted < num_tokens then
        (case heappop heap of
           None \<Rightarrow> Inr (t, a, al, num_evicted)
         | Some ((pr, at, n), heap') \<Rightarrow>
             (case find_node n t of
                None \<Rightarrow> Inl StaleNode
              | Some x \<Rightarrow>
                  (case tval x of
                     None \<Rightarrow> Inl TypeError
                   | Some v \<Rightarrow>
                       bind_res (al_free_segment v 0 al) (\<lambda>al'.
                       bind_res (delete_leaf p n t a) (\<lambda>(t', a', par).
                         evict_loop p s num_tokens t' a' al'
                           (if length (kids par) = 0 \<and> tlock par = 0
                            then heap' @ [heap_entry_of s (info par)] else heap')
                           (num_evicted + length v))))))
      else Inr (t, a, al, num_evicted))"
  by pat_completeness auto
termination
  by (relation "measure (\<lambda>(p, s, m, t, a, al, h, k). size t)") (auto dest: delete_leaf_size)

declare evict_loop.simps [simp del]

fun leaf_entries :: "eviction_strategy \<Rightarrow> tree \<Rightarrow> nat list \<Rightarrow> heap_entry list res" where
  "leaf_entries s t [] = Inr []"
| "leaf_entries s t (n # ns) =
     (case find_node n t of
        None \<Rightarrow> Inl StaleNode
      | Some x \<Rightarrow> map_res (\<lambda>es. heap_entry_of s (info x) # es) (leaf_entries s t ns))"

definition rc_evict :: "int \<Rightarrow> radix_cache \<Rightarrow> kv_alloc \<Rightarrow> (radix_cache \<times> kv_alloc \<times> nat) res" where
  "rc_evict num_tokens c al =
     (if disable c then Inr (c, al, 0)
      else
        bind_res (leaf_entries (eviction_strategy c) (root_node c)
                    (sorted_list_of_set (evictable_leaves (acct c)))) (\<lambda>heap.
        bind_res (evict_loop (page_size c) (eviction_strategy c) num_tokens (root_node c) (acct c) al heap 0)
          (\<lambda>(t, a, al', k). Inr (c\<lparr>root_node := t, acct := a\<rparr>, al', k))))"

section \<open>Sizes and values\<close>

text \<open>\<open>_total_size_helper\<close>; the stack discipline does not matter for a sum.\<close>

fun total_size_helper :: "tree \<Rightarrow> nat res"
  and total_size_kids :: "(child_key \<times> tree) list \<Rightarrow> nat res" where
  "total_size_helper (Node i cs) =
     (case rvalue i of
        None \<Rightarrow> Inl TypeError
      | Some v \<Rightarrow> map_res (\<lambda>n. length v + n) (total_size_kids cs))"
| "total_size_kids [] = Inr 0"
| "total_size_kids ((ck, c) # cs) =
     (if evicted c then total_size_kids cs
      else bind_res (total_size_helper c) (\<lambda>m. map_res (\<lambda>n. m + n) (total_size_kids cs)))"

definition total_size :: "radix_cache \<Rightarrow> nat res" where
  "total_size c = total_size_helper (root_node c)"

text \<open>\<open>_dfs_helper\<close> of \<open>all_values_flatten\<close>; \<open>torch.cat\<close> refuses an empty list.\<close>

fun dfs_values :: "tree \<Rightarrow> nat list option list"
  and dfs_kids :: "(child_key \<times> tree) list \<Rightarrow> nat list option list" where
  "dfs_values (Node i cs) = dfs_kids cs"
| "dfs_kids [] = []"
| "dfs_kids ((ck, c) # cs) = tval c # dfs_values c @ dfs_kids cs"

definition all_values_flatten :: "radix_cache \<Rightarrow> nat list res" where
  "all_values_flatten c =
     (let values = dfs_values (root_node c) in
      if values = [] then Inl RuntimeError
      else if None \<in> set values then Inl TypeError
      else Inr (concat (map the values)))"

section \<open>Caching the tokens of a request\<close>

record mem_state =
  cache :: radix_cache
  kv :: kv_alloc
  pool :: req_pool

text \<open>The key both operations build from the token ids of a request.\<close>

definition req_radix_key :: "radix_cache \<Rightarrow> req \<Rightarrow> int list \<Rightarrow> radix_key" where
  "req_radix_key c r toks =
     page_aligned (mk_radix_key toks (req_extra_key r) (is_eagle c) None (req_cache_salt r)) (page_size c)"

definition req_prio :: "req \<Rightarrow> int option" where
  "req_prio r = Some (case req_priority r of None \<Rightarrow> 0 | Some x \<Rightarrow> x)"

text \<open>Both operations are called for requests that hold a row; a request without one
  is rejected.\<close>

definition with_row :: "req \<Rightarrow> (nat \<Rightarrow> 'a res) \<Rightarrow> 'a res" where
  "with_row r f = (case req_pool_idx r of None \<Rightarrow> Inl TypeError | Some row \<Rightarrow> f row)"

definition cache_finished_req ::
  "clock \<Rightarrow> int \<Rightarrow> bool \<Rightarrow> nat \<Rightarrow> req \<Rightarrow> mem_state \<Rightarrow> mem_state res" where
  "cache_finished_req clk now is_insert0 kv_len_to_handle r m =
     (let c = cache m;
          is_insert = (if disable_finished_insert c then False else is_insert0);
          prot = cache_protected_len r
      in with_row r (\<lambda>row.
        if disable c then
          bind_res (row_slice (pool m) row prot kv_len_to_handle) (\<lambda>kv_indices.
            map_res (\<lambda>al. m\<lparr>kv := al\<rparr>) (al_free_segment kv_indices prot (kv m)))
        else
          (let toks = take kv_len_to_handle (origin_input_ids r @ output_ids r) in
           bind_res (row_slice (pool m) row 0 (length toks)) (\<lambda>kv_indices.
           let key = req_radix_key c r toks;
               key_len = rk_len key;
               values = take key_len kv_indices
           in
           bind_res (if is_insert
                     then map_res (\<lambda>(c', res). (c', prefix_len res))
                            (rc_insert clk now key (Some values) (req_prio r) False c)
                     else Inr (c, key_len)) (\<lambda>(c1, freed_end).
           bind_res (al_free_segments
                       [(slice prot freed_end kv_indices, prot), (drop key_len kv_indices, key_len)]
                       (kv m)) (\<lambda>al.
           case last_node r of
             None \<Rightarrow> Inr (m\<lparr>cache := c1, kv := al\<rparr>)
           | Some n \<Rightarrow> map_res (\<lambda>(c2, _). m\<lparr>cache := c2, kv := al\<rparr>) (dec_lock_ref n c1)))))))"

definition cache_unfinished_req ::
  "clock \<Rightarrow> int \<Rightarrow> int \<Rightarrow> bool \<Rightarrow> req \<Rightarrow> mem_state \<Rightarrow> (mem_state \<times> req) res" where
  "cache_unfinished_req clk now1 now2 chunked r m =
     (let c = cache m; prot = cache_protected_len r in
      if disable c then Inr (m, r)
      else with_row r (\<lambda>row.
        let toks = get_fill_ids r in
        bind_res (row_slice (pool m) row 0 (length toks)) (\<lambda>kv_indices.
        let key = req_radix_key c r toks; values = take (rk_len key) kv_indices in
        bind_res (rc_insert clk now1 key (Some values) (req_prio r) chunked c) (\<lambda>(c1, res).
        bind_res (al_free_segment (slice prot (prefix_len res) kv_indices) prot (kv m)) (\<lambda>al.
        bind_res (rc_match_prefix clk now2 key c1) (\<lambda>(c2, mr).
        let new_indices = device_indices mr; n = length new_indices in
        if n \<noteq> rk_len key then Inl AssertionError
        else
          bind_res (rp_write row prot n (drop prot new_indices) (pool m)) (\<lambda>pool'.
          bind_res (case last_node r of None \<Rightarrow> Inl AttributeError | Some l \<Rightarrow> dec_lock_ref l c2) (\<lambda>(c3, _).
          bind_res (inc_lock_ref (last_device_node mr) c3) (\<lambda>(c4, _).
            Inr (m\<lparr>cache := c4, kv := al, pool := pool'\<rparr>,
                 r\<lparr>cache_protected_len := n,
                   prefix_indices :=
                     (if n < length kv_indices then new_indices @ drop n kv_indices else new_indices),
                   last_node := Some (last_device_node mr)\<rparr>))))))))))"

end
