(* ===== verification/RadixAccount.thy ===== *)
theory RadixAccount
  imports RadixCache
begin

text \<open>
  Bookkeeping of the radix tree. What matching and inserting do to a tree is
  described by two inductive relations, \<open>splits\<close> (nodes are split, no content
  changes) and \<open>leaf_diff\<close> (two trees differ by one leaf, read forwards for an
  insertion and backwards for a removal); every invariant is shown to be preserved
  by rule induction on them. The invariants are the counters and the set of
  evictable leaves (\<open>acct_ok\<close>), unique node ids (\<open>uniq\<close>), and \<open>locks_ok H\<close>: the
  reference count of a node is the number of handles in \<open>H\<close> held on it or below it.
\<close>

section \<open>Flat views of a tree\<close>

type_synonym node_view = "nat \<times> int \<times> nat \<times> bool"

text \<open>Id, lock count, key length and whether there are children.\<close>

definition nv :: "tree \<Rightarrow> node_view" where
  "nv t = (tid t, tlock t, rk_len (tkey t), kids t \<noteq> [])"

fun view :: "tree \<Rightarrow> node_view multiset" where
  "view (Node i cs) = add_mset (nv (Node i cs)) (sum_list (map (\<lambda>e. view (snd e)) cs))"

declare view.simps [simp del]

abbreviation view_kids :: "(child_key \<times> tree) multiset \<Rightarrow> node_view multiset" where
  "view_kids M \<equiv> (\<Sum>e\<in>#M. view (snd e))"

definition ids :: "tree \<Rightarrow> nat set" where
  "ids t = fst ` set_mset (view t)"

definition ev :: "node_view multiset \<Rightarrow> int" where
  "ev M = (\<Sum>(n, l, k, h)\<in>#M. if l = 0 then int k else 0)"

definition pr :: "node_view multiset \<Rightarrow> int" where
  "pr M = (\<Sum>(n, l, k, h)\<in>#M. if l > 0 then int k else 0)"

definition lv :: "node_view multiset \<Rightarrow> nat set" where
  "lv M = {n. \<exists>k. (n, 0, k, False) \<in># M}"

definition nonneg :: "node_view multiset \<Rightarrow> bool" where
  "nonneg M \<longleftrightarrow> (\<forall>x \<in># M. 0 \<le> fst (snd x))"

definition acct_ok :: "acct \<Rightarrow> node_view multiset \<Rightarrow> bool" where
  "acct_ok a M \<longleftrightarrow> evictable_size a = ev M \<and> protected_size a = pr M \<and> evictable_leaves a = lv M \<and> nonneg M"

definition uniq :: "nat \<Rightarrow> node_view multiset \<Rightarrow> bool" where
  "uniq i M \<longleftrightarrow> (\<forall>n. count (image_mset fst M) n \<le> 1) \<and> (\<forall>x \<in># M. fst x < i)"

named_theorems view_simps \<open>flat views of trees\<close>

lemma view_unfold: "view t = add_mset (nv t) (view_kids (mset (kids t)))"
  by (cases t) (simp add: view.simps sum_mset_sum_list [symmetric])

lemma ev_simps [simp, view_simps]:
  "ev {#} = 0" "ev (add_mset (n, l, k, h) M) = (if l = 0 then int k else 0) + ev M"
  "ev (M + N) = ev M + ev N"
  by (simp_all add: ev_def)

lemma pr_simps [simp, view_simps]:
  "pr {#} = 0" "pr (add_mset (n, l, k, h) M) = (if l > 0 then int k else 0) + pr M"
  "pr (M + N) = pr M + pr N"
  by (simp_all add: pr_def)

lemma lv_simps [simp, view_simps]:
  "lv {#} = {}" "lv (add_mset (n, l, k, h) M) = (if l = 0 \<and> \<not> h then insert n (lv M) else lv M)"
  "lv (M + N) = lv M \<union> lv N"
  by (auto simp: lv_def)

lemma nonneg_simps [simp, view_simps]:
  "nonneg {#}" "nonneg (add_mset (n, l, k, h) M) \<longleftrightarrow> 0 \<le> l \<and> nonneg M"
  "nonneg (M + N) \<longleftrightarrow> nonneg M \<and> nonneg N"
  by (auto simp: nonneg_def)

lemma lv_subset: "lv M \<subseteq> fst ` set_mset M"
  by (force simp: lv_def)

lemma le_one_bump:
  assumes d: "\<And>m. d m = (if m = n then 1 else 0) + c m"
  shows "(\<forall>m. d m \<le> (1::nat)) \<longleftrightarrow> c n = 0 \<and> (\<forall>m. c m \<le> 1)"
proof (intro iffI conjI allI)
  assume a: "\<forall>m. d m \<le> 1"
  show "c n = 0" using a [rule_format, of n] d [of n] by simp
  show "c m \<le> 1" for m using a [rule_format, of m] d [of m] by (simp split: if_splits)
next
  fix m
  assume "c n = 0 \<and> (\<forall>m. c m \<le> 1)"
  then show "d m \<le> 1" using d [of m] by (cases "m = n") auto
qed

lemma uniq_add: "uniq i (add_mset (n, l, k, h) M) \<longleftrightarrow> n < i \<and> n \<notin> fst ` set_mset M \<and> uniq i M"
proof -
  have z: "n \<notin> fst ` set_mset M \<longleftrightarrow> count (image_mset fst M) n = 0"
    by (simp add: count_eq_zero_iff)
  have "(\<forall>m. count (image_mset fst (add_mset (n, l, k, h) M)) m \<le> 1) \<longleftrightarrow>
      count (image_mset fst M) n = 0 \<and> (\<forall>m. count (image_mset fst M) m \<le> 1)"
  proof -
    have "count (image_mset fst (add_mset (n, l, k, h) M)) m = (if m = n then 1 else 0) + count (image_mset fst M) m" for m
      by simp
    then show ?thesis by (rule le_one_bump)
  qed
  then show ?thesis unfolding uniq_def z by auto
qed

lemma uniq_grow:
  assumes "uniq i M" "image_mset fst M' = image_mset fst M + mset [i..<i']" "i \<le> i'"
  shows "uniq i' M'"
proof -
  have old: "n < i" if "n \<in># image_mset fst M" for n
    using assms(1) that by (auto simp: uniq_def)
  have "count (image_mset fst M') n \<le> 1" for n
  proof (cases "n < i")
    case True
    then have "count (mset [i..<i']) n = 0" by (simp add: count_eq_zero_iff)
    then show ?thesis using assms(1,2) by (simp add: uniq_def)
  next
    case False
    then have "count (image_mset fst M) n = 0" using old by (meson count_inI)
    then show ?thesis using assms(2) distinct_count_atmost_1 [of "[i..<i']"] by simp
  qed
  moreover have "fst x < i'" if "x \<in># M'" for x
  proof -
    have "fst x \<in># image_mset fst M + mset [i..<i']" using assms(2) that by (metis image_eqI multiset.set_map)
    then consider "fst x \<in># image_mset fst M" | "fst x < i'" by fastforce
    then show ?thesis using old [of "fst x"] assms(3) by cases simp_all
  qed
  ultimately show ?thesis by (simp add: uniq_def)
qed

lemma uniq_sub: "uniq i (M + N) \<Longrightarrow> uniq i M"
  unfolding uniq_def by (metis add_leE count_union image_mset_union union_iff)

lemma uniq_less: "uniq i M \<Longrightarrow> n \<in> fst ` set_mset M \<Longrightarrow> n < i"
  by (auto simp: uniq_def)

lemma ids_unfold: "ids t = insert (tid t) (\<Union>e\<in>set (kids t). ids (snd e))"
proof -
  have "set_mset (view t) = insert (nv t) (\<Union>e\<in>set (kids t). set_mset (view (snd e)))"
    by (subst view_unfold) (simp add: sum_mset_sum_list [symmetric] flip: set_mset_mset)
  then show ?thesis by (simp add: ids_def nv_def image_UN)
qed

section \<open>What the operations do to a tree\<close>

text \<open>The fields of a node that no match or insertion changes at the top of a subtree.\<close>

definition same_node :: "tree \<Rightarrow> tree \<Rightarrow> bool" where
  "same_node t t' \<longleftrightarrow> tid t' = tid t \<and> tlock t' = tlock t \<and> tkey t' = tkey t \<and> tval t' = tval t"

definition split_of :: "nat \<Rightarrow> nat \<Rightarrow> tree \<Rightarrow> tree \<Rightarrow> bool" where
  "split_of p i c new \<longleftrightarrow>
     (\<exists>n v ck2 c2. p dvd n \<and> 0 < n \<and> n < rk_len (tkey c) \<and> tval c = Some v \<and> length v = rk_len (tkey c) \<and>
        salt_ok (tkey c) \<and> tid new = i \<and> tlock new = tlock c \<and> tkey new = rk_take n (tkey c) \<and>
        tval new = Some (take n v) \<and> kids new = [(ck2, c2)] \<and> tid c2 = tid c \<and> tlock c2 = tlock c \<and>
        kids c2 = kids c \<and> tkey c2 = rk_drop n (tkey c) \<and> tval c2 = Some (drop n v))"

inductive splits :: "nat \<Rightarrow> nat \<Rightarrow> tree \<Rightarrow> nat \<Rightarrow> tree \<Rightarrow> bool" for p where
  splits_info: "same_node t t' \<Longrightarrow> kids t' = kids t \<Longrightarrow> splits p i t i t'"
| splits_split: "same_node t t' \<Longrightarrow> mset (kids t) = add_mset (ck, c) M \<Longrightarrow>
    mset (kids t') = add_mset (ck, new) M \<Longrightarrow> split_of p i c new \<Longrightarrow> splits p i t (Suc i) t'"
| splits_kid: "same_node t t' \<Longrightarrow> mset (kids t) = add_mset (ck, c) M \<Longrightarrow>
    mset (kids t') = add_mset (ck, c') M \<Longrightarrow> splits p i c i' c' \<Longrightarrow> splits p i t i' t'"
| splits_trans: "splits p i t j u \<Longrightarrow> splits p j u k w \<Longrightarrow> splits p i t k w"

inductive leaf_diff :: "tree \<Rightarrow> tree \<Rightarrow> tree \<Rightarrow> tree \<Rightarrow> bool" for par leaf where
  diff_here: "same_node t t' \<Longrightarrow> par = t \<Longrightarrow> kids leaf = [] \<Longrightarrow>
    mset (kids t') = add_mset (ck, leaf) (mset (kids t)) \<Longrightarrow> leaf_diff par leaf t t'"
| diff_kid: "same_node t t' \<Longrightarrow> mset (kids t) = add_mset (ck, c) M \<Longrightarrow>
    mset (kids t') = add_mset (ck, c') M \<Longrightarrow> leaf_diff par leaf c c' \<Longrightarrow> leaf_diff par leaf t t'"

lemma same_node_refl [simp]: "same_node t t"
  by (simp add: same_node_def)

lemma same_node_trans: "same_node t u \<Longrightarrow> same_node u w \<Longrightarrow> same_node t w"
  by (simp add: same_node_def)

lemma splits_same_node: "splits p i t i' t' \<Longrightarrow> same_node t t'"
  by (induction rule: splits.induct) (auto intro: same_node_trans)

lemma splits_le: "splits p i t i' t' \<Longrightarrow> i \<le> i'"
  by (induction rule: splits.induct) auto

lemma leaf_diff_same_node: "leaf_diff par leaf t t' \<Longrightarrow> same_node t t'"
  by (cases rule: leaf_diff.cases) auto

lemma mset_update_kid:
  assumes "distinct (map fst cs)" "map_of cs ck = Some c"
  shows "mset cs = add_mset (ck, c) (mset (AList.delete ck cs))"
    "mset (AList.update ck c' cs) = add_mset (ck, c') (mset (AList.delete ck cs))"
  using assms
proof (induction cs)
  case (Cons e cs)
  {
    case 1
    then show ?case using Cons.IH by (cases "fst e = ck") (auto simp: delete_notin_dom)
  next
    case 2
    then show ?case using Cons.IH by (cases "fst e = ck") (auto simp: delete_notin_dom)
  }
qed simp_all

lemma mset_update_new: "map_of cs ck = None \<Longrightarrow> mset (AList.update ck c cs) = add_mset (ck, c) (mset cs)"
  by (induction cs) (auto split: if_splits)

lemma splits_set_kid:
  assumes "distinct (map fst (kids t))" "map_of (kids t) ck = Some c" "splits p i c i' c'"
  shows "splits p i t i' (set_kid ck c' t)"
  using mset_update_kid [OF assms(1,2)] assms(3)
  by (intro splits_kid [of t "set_kid ck c' t"]) (auto simp: same_node_def)

lemma leaf_diff_set_kid:
  assumes "distinct (map fst (kids t))" "map_of (kids t) ck = Some c" "leaf_diff par leaf c c'"
  shows "leaf_diff par leaf t (set_kid ck c' t)"
  using mset_update_kid [OF assms(1,2)] assms(3)
  by (intro diff_kid [of t "set_kid ck c' t"]) (auto simp: same_node_def)

section \<open>What the relations keep\<close>

lemma nonempty_kids: "mset (kids t) = add_mset x M \<Longrightarrow> kids t \<noteq> []"
  by auto

lemma view_split_of:
  assumes "split_of p i c new"
  shows "\<exists>n. n \<le> rk_len (tkey c) \<and> view new = add_mset (i, tlock c, n, True)
      (add_mset (tid c, tlock c, rk_len (tkey c) - n, kids c \<noteq> []) (view_kids (mset (kids c))))"
proof -
  obtain n v ck2 c2 where s: "n < rk_len (tkey c)" "tid new = i" "tlock new = tlock c"
    "tkey new = rk_take n (tkey c)" "kids new = [(ck2, c2)]" "tid c2 = tid c" "tlock c2 = tlock c"
    "kids c2 = kids c" "tkey c2 = rk_drop n (tkey c)"
    using assms unfolding split_of_def by blast
  have "view c2 = add_mset (tid c, tlock c, rk_len (tkey c) - n, kids c \<noteq> []) (view_kids (mset (kids c)))"
    by (subst view_unfold) (simp add: nv_def s)
  then show ?thesis
    by (intro exI [of _ n], subst view_unfold) (use s in \<open>simp add: nv_def min_def\<close>)
qed

lemma nv_same: "same_node t t' \<Longrightarrow> (kids t = [] \<longleftrightarrow> kids t' = []) \<Longrightarrow> nv t' = nv t"
  by (simp add: nv_def same_node_def)

definition same_sums :: "node_view multiset \<Rightarrow> node_view multiset \<Rightarrow> bool" where
  "same_sums M M' \<longleftrightarrow> ev M' = ev M \<and> pr M' = pr M \<and> lv M' = lv M \<and> nonneg M' = nonneg M"

lemma same_sums_frame:
  "same_sums M M' \<Longrightarrow> same_sums (M + C) (M' + C)" "same_sums M M' \<Longrightarrow> same_sums (add_mset x M) (add_mset x M')"
  by (cases x; simp add: same_sums_def)+

lemma splits_view:
  assumes "splits p i t i' t'"
  shows "same_sums (view t) (view t')" "image_mset fst (view t') = image_mset fst (view t) + mset [i..<i']"
  using assms
proof (induction rule: splits.induct)
  case (splits_info t t' i)
  {
    case 1
    then show ?case using splits_info nv_same [of t t'] by (simp add: view_unfold [of t] view_unfold [of t'] same_sums_def)
  next
    case 2
    then show ?case using splits_info nv_same [of t t'] by (simp add: view_unfold [of t] view_unfold [of t'])
  }
next
  case (splits_split t t' ck c M new i)
  obtain n where n: "n \<le> rk_len (tkey c)" "view new = add_mset (i, tlock c, n, True)
      (add_mset (tid c, tlock c, rk_len (tkey c) - n, kids c \<noteq> []) (view_kids (mset (kids c))))"
    using view_split_of [OF splits_split(4)] by blast
  have nv: "nv t' = nv t" using splits_split(1-3) by (intro nv_same) auto
  have c: "view c = add_mset (tid c, tlock c, rk_len (tkey c), kids c \<noteq> []) (view_kids (mset (kids c)))"
    by (subst view_unfold) (simp add: nv_def)
  have v: "view t = add_mset (nv t) (view c + view_kids M)" "view t' = add_mset (nv t) (view new + view_kids M)"
    using splits_split(2,3) nv by (simp_all add: view_unfold [of t] view_unfold [of t'])
  have "same_sums (view c) (view new)"
    unfolding c n(2) using n(1) by (auto simp: same_sums_def)
  then have "same_sums (view c + view_kids M) (view new + view_kids M)" by (rule same_sums_frame)
  then have s1: "same_sums (view t) (view t')" unfolding v by (rule same_sums_frame)
  have s2: "image_mset fst (view t') = image_mset fst (view t) + mset [i..<Suc i]"
    unfolding v n(2) c by simp
  {
    case 1
    show ?case by (rule s1)
  next
    case 2
    show ?case by (rule s2)
  }
next
  case (splits_kid t t' ck c M c' i i')
  have nv: "nv t' = nv t" using splits_kid(1-3) by (intro nv_same) auto
  have v: "view t = add_mset (nv t) (view c + view_kids M)" "view t' = add_mset (nv t) (view c' + view_kids M)"
    using splits_kid(2,3) nv by (simp_all add: view_unfold [of t] view_unfold [of t'])
  {
    case 1
    show ?case unfolding v using splits_kid(5) by (intro same_sums_frame)
  next
    case 2
    show ?case unfolding v using splits_kid(6) by simp
  }
next
  case (splits_trans i t j u k w)
  {
    case 1
    show ?case using splits_trans(3,5) by (simp add: same_sums_def)
  next
    case 2
    have "[i..<k] = [i..<j] @ [j..<k]"
      using splits_le [OF splits_trans(1)] splits_le [OF splits_trans(2)] upt_add_eq_append [of i j "k - j"]
      by simp
    then show ?case using splits_trans(4,6) by simp
  }
qed

lemma leaf_diff_view:
  assumes "leaf_diff par leaf t t'"
  shows "\<exists>N. view t = add_mset (nv par) N \<and>
    view t' = add_mset (tid par, tlock par, rk_len (tkey par), True) (add_mset (tid leaf, tlock leaf, rk_len (tkey leaf), False) N)"
  using assms
proof (induction rule: leaf_diff.induct)
  case (diff_here t t' ck)
  have "nv t' = (tid par, tlock par, rk_len (tkey par), True)"
    using diff_here by (auto simp: nv_def same_node_def)
  moreover have "view leaf = {#(tid leaf, tlock leaf, rk_len (tkey leaf), False)#}"
    using diff_here(3) by (subst view_unfold) (simp add: nv_def)
  ultimately show ?case
    using diff_here(2,4) by (simp add: view_unfold [of t] view_unfold [of t'] add_mset_commute)
next
  case (diff_kid t t' ck c M c')
  have "nv t' = nv t" using diff_kid(1-3) by (intro nv_same) auto
  then have v: "view t = add_mset (nv t) (view c + view_kids M)" "view t' = add_mset (nv t) (view c' + view_kids M)"
    using diff_kid(2,3) by (simp_all add: view_unfold [of t] view_unfold [of t'])
  obtain N where "view c = add_mset (nv par) N" "view c' = add_mset (tid par, tlock par, rk_len (tkey par), True)
      (add_mset (tid leaf, tlock leaf, rk_len (tkey leaf), False) N)"
    using diff_kid(5) by blast
  then show ?case
    by (intro exI [of _ "add_mset (nv t) (N + view_kids M)"]) (simp add: v add_mset_commute)
qed

lemma acct_add_leaf:
  assumes "acct_ok a (view t)" "uniq i (view t)" "leaf_diff par leaf t t'" "tid leaf = i" "tlock leaf = 0"
  shows "acct_ok (a\<lparr>evictable_size := evictable_size a + int (rk_len (tkey leaf)),
            evictable_leaves := insert i (evictable_leaves a - {tid par})\<rparr>) (view t')"
    "uniq (Suc i) (view t')"
proof -
  obtain N where N: "view t = add_mset (nv par) N" "view t' = add_mset (tid par, tlock par, rk_len (tkey par), True)
      (add_mset (i, 0, rk_len (tkey leaf), False) N)"
    using leaf_diff_view [OF assms(3)] assms(4,5) by auto
  have u: "tid par < i" "tid par \<notin> fst ` set_mset N" "uniq i N"
    using assms(2) unfolding N nv_def uniq_add by auto
  then have "tid par \<notin> lv N" using lv_subset [of N] by blast
  then show "acct_ok (a\<lparr>evictable_size := evictable_size a + int (rk_len (tkey leaf)),
            evictable_leaves := insert i (evictable_leaves a - {tid par})\<rparr>) (view t')"
    using assms(1) unfolding N nv_def acct_ok_def by (auto split: if_splits)
  have "image_mset fst (view t') = image_mset fst (view t) + mset [i..<Suc i]"
    unfolding N nv_def by simp
  with assms(2) show "uniq (Suc i) (view t')" by (rule uniq_grow) simp
qed

lemma acct_cut_leaf:
  assumes "acct_ok a (view t')" "uniq i (view t')" "leaf_diff par leaf t t'" "tlock leaf = 0" "\<not> evicted par"
    and kids: "\<forall>(ck, c) \<in> set (kids par). \<not> evicted c"
  shows "acct_ok (update_leaf_status par (a\<lparr>evictable_size := evictable_size a - int (rk_len (tkey leaf)),
            evictable_leaves := evictable_leaves a - {tid leaf}\<rparr>)) (view t)"
    "uniq i (view t)"
proof -
  obtain N where N: "view t = add_mset (nv par) N" "view t' = add_mset (tid par, tlock par, rk_len (tkey par), True)
      (add_mset (tid leaf, 0, rk_len (tkey leaf), False) N)"
    using leaf_diff_view [OF assms(3)] assms(4) by auto
  have u: "tid par < i" "tid par \<noteq> tid leaf" "tid par \<notin> fst ` set_mset N" "tid leaf \<notin> fst ` set_mset N" "uniq i N"
    using assms(2) unfolding N uniq_add by auto
  then have l: "tid par \<notin> lv N" "tid leaf \<notin> lv N" using lv_subset [of N] by blast+
  have ne: "(\<exists>(ck, c) \<in> set (kids par). \<not> evicted c) \<longleftrightarrow> kids par \<noteq> []"
    using kids by (cases "kids par") auto
  have nn: "0 \<le> tlock par" using assms(1) unfolding N acct_ok_def by simp
  show "uniq i (view t)" using u unfolding N nv_def uniq_add by simp
  show "acct_ok (update_leaf_status par (a\<lparr>evictable_size := evictable_size a - int (rk_len (tkey leaf)),
            evictable_leaves := evictable_leaves a - {tid leaf}\<rparr>)) (view t)"
    using assms(1,5) l u(2) nn unfolding N nv_def acct_ok_def update_leaf_status_def ne
    by (auto split: if_splits)
qed

section \<open>Lock counts\<close>

text \<open>\<open>H\<close> is the multiset of node ids on which \<open>inc_lock_ref\<close> was called and not yet
  undone; \<open>held H t\<close> counts those on \<open>t\<close> or below.\<close>

definition held :: "nat multiset \<Rightarrow> tree \<Rightarrow> nat" where
  "held H t = size {#h \<in># H. h \<in> ids t#}"

fun lock_ok :: "nat multiset \<Rightarrow> tree \<Rightarrow> bool" where
  "lock_ok H (Node i cs) \<longleftrightarrow>
     lock_ref i = int (held H (Node i cs)) \<and> (\<forall>e \<in> set cs. lock_ok H (snd e))"

definition locks_ok :: "nat multiset \<Rightarrow> tree \<Rightarrow> bool" where
  "locks_ok H t \<longleftrightarrow> (\<forall>e \<in># mset (kids t). lock_ok H (snd e))"

lemma lock_ok_iff: "lock_ok H t \<longleftrightarrow> tlock t = int (held H t) \<and> locks_ok H t"
  by (cases t) (simp add: locks_ok_def)

lemma splits_ids: "splits p i t i' t' \<Longrightarrow> ids t' = ids t \<union> {i..<i'}"
proof -
  assume "splits p i t i' t'"
  then have "set_mset (image_mset fst (view t')) = set_mset (image_mset fst (view t) + mset [i..<i'])"
    by (simp only: splits_view)
  then show ?thesis by (simp add: ids_def)
qed

lemma leaf_diff_ids: "leaf_diff par leaf t t' \<Longrightarrow> ids t' = insert (tid leaf) (ids t)"
proof -
  assume "leaf_diff par leaf t t'"
  then obtain N where "view t = add_mset (nv par) N"
    "view t' = add_mset (tid par, tlock par, rk_len (tkey par), True) (add_mset (tid leaf, tlock leaf, rk_len (tkey leaf), False) N)"
    by (blast dest: leaf_diff_view)
  then show ?thesis by (simp add: ids_def nv_def insert_commute)
qed

lemma held_cong: "(\<And>h. h \<in># H \<Longrightarrow> h \<in> ids t' \<longleftrightarrow> h \<in> ids t) \<Longrightarrow> held H t' = held H t"
  unfolding held_def by (metis (mono_tags, lifting) filter_mset_cong)

lemma held_splits:
  assumes "splits p i t i' t'" "\<forall>h\<in>#H. h < i"
  shows "held H t' = held H t"
  using assms splits_ids [OF assms(1)] by (intro held_cong) fastforce

lemma split_of_locks:
  assumes "split_of p i c new" "lock_ok H c" "\<forall>h\<in>#H. h < i"
  shows "lock_ok H new"
proof -
  obtain n v ck2 c2 where s: "tid new = i" "tlock new = tlock c" "kids new = [(ck2, c2)]"
    "tid c2 = tid c" "tlock c2 = tlock c" "kids c2 = kids c"
    using assms(1) unfolding split_of_def by blast
  have "ids c2 = ids c" "ids new = insert i (ids c)"
    using s by (simp_all add: ids_unfold [of c] ids_unfold [of c2] ids_unfold [of new])
  then have "held H c2 = held H c" "held H new = held H c"
    using assms(3) by (auto intro!: held_cong)
  then show ?thesis using assms(2) s by (simp add: lock_ok_iff [of H new] lock_ok_iff [of H c2] lock_ok_iff [of H c] locks_ok_def)
qed

lemma splits_locks_ok:
  assumes "splits p i t i' t'" "\<forall>h\<in>#H. h < i" "locks_ok H t"
  shows "locks_ok H t'"
  using assms
proof (induction rule: splits.induct)
  case (splits_kid t t' ck c M c' i i')
  have c: "lock_ok H c" using splits_kid(2,7) by (simp add: locks_ok_def)
  then have "locks_ok H c'" using splits_kid(5,6) by (simp add: lock_ok_iff)
  then have "lock_ok H c'"
    using c held_splits [OF splits_kid(4,6)] splits_same_node [OF splits_kid(4)]
    by (simp add: lock_ok_iff same_node_def)
  then show ?case using splits_kid(2,3,7) by (simp add: locks_ok_def)
next
  case (splits_trans i t j u k w)
  then show ?case using splits_le [of p i t j u] by fastforce
qed (auto simp: locks_ok_def split_of_locks)

lemma splits_lock_ok:
  "splits p i t i' t' \<Longrightarrow> \<forall>h\<in>#H. h < i \<Longrightarrow> lock_ok H t \<Longrightarrow> lock_ok H t'"
  using splits_locks_ok held_splits splits_same_node by (metis lock_ok_iff same_node_def)

lemma leaf_diff_locks:
  assumes "leaf_diff par leaf t t'" "tid leaf \<notin># H"
  shows "held H t' = held H t" "locks_ok H t' \<longleftrightarrow> locks_ok H t \<and> tlock leaf = 0"
proof -
  show "held H t' = held H t" using assms leaf_diff_ids [OF assms(1)] by (intro held_cong) auto
  have leaf: "lock_ok H leaf \<longleftrightarrow> tlock leaf = 0" if "kids leaf = []"
  proof -
    have "ids leaf = {tid leaf}" using that by (simp add: ids_unfold [of leaf])
    moreover have "size {#h \<in># H. h = tid leaf#} = 0" using assms(2) by auto
    ultimately have "held H leaf = 0" by (simp add: held_def)
    then show ?thesis using that by (simp add: lock_ok_iff [of H leaf] locks_ok_def)
  qed
  show "locks_ok H t' \<longleftrightarrow> locks_ok H t \<and> tlock leaf = 0"
    using assms(1)
  proof (induction rule: leaf_diff.induct)
    case (diff_here t t' ck)
    then show ?case using leaf by (auto simp: locks_ok_def)
  next
    case (diff_kid t t' ck c M c')
    have "held H c' = held H c"
      using assms(2) leaf_diff_ids [OF diff_kid(4)] by (intro held_cong) auto
    then have "lock_ok H c' \<longleftrightarrow> lock_ok H c \<and> tlock leaf = 0"
      using leaf_diff_same_node [OF diff_kid(4)] diff_kid(5) by (auto simp: lock_ok_iff same_node_def)
    then show ?case using diff_kid(2,3) by (auto simp: locks_ok_def)
  qed
qed

section \<open>Positions of nodes\<close>

text \<open>\<open>reach t n ns qs\<close>: the edges from \<open>t\<close> down to node \<open>n\<close> spell \<open>qs\<close> in name space \<open>ns\<close>.\<close>

fun reach :: "tree \<Rightarrow> nat \<Rightarrow> rk_namespace \<Rightarrow> (rk_unit \<times> nat) list \<Rightarrow> bool" where
  "reach (Node i cs) n ns qs \<longleftrightarrow>
     node_id i = n \<and> qs = [] \<or>
     (\<exists>e \<in> set cs. rk_ns (tkey (snd e)) = ns \<and> take (length (edge (snd e))) qs = edge (snd e) \<and>
        reach (snd e) n ns (drop (length (edge (snd e))) qs))"

declare reach.simps [simp del]

definition kid_reach :: "tree \<Rightarrow> nat \<Rightarrow> rk_namespace \<Rightarrow> (rk_unit \<times> nat) list \<Rightarrow> bool" where
  "kid_reach c n ns qs \<longleftrightarrow> rk_ns (tkey c) = ns \<and> (\<exists>rs. qs = edge c @ rs \<and> reach c n ns rs)"

lemma reach_iff:
  "reach t n ns qs \<longleftrightarrow> tid t = n \<and> qs = [] \<or> (\<exists>e \<in># mset (kids t). kid_reach (snd e) n ns qs)"
proof -
  have "take (length xs) qs = xs \<and> P (drop (length xs) qs) \<longleftrightarrow> (\<exists>rs. qs = xs @ rs \<and> P rs)" for xs P
    by (metis append_eq_conv_conj append_take_drop_id)
  then show ?thesis by (cases t) (simp add: reach.simps kid_reach_def)
qed

lemma reach_ids: "reach t n ns qs \<Longrightarrow> n \<in> ids t"
proof (induction t n ns qs rule: reach.induct)
  case (1 i cs n ns qs)
  then show ?case by (auto simp: reach.simps [of i] ids_unfold [of "Node i cs"])
qed

lemma reach_node_cong: "tid t' = tid t \<Longrightarrow> mset (kids t') = mset (kids t) \<Longrightarrow> reach t' = reach t"
  by (intro ext) (simp add: reach_iff [of t] reach_iff [of t'])

lemma edge_same_node: "same_node c c' \<Longrightarrow> edge c' = edge c"
  by (simp add: edge_def same_node_def)

lemma kid_reach_mono:
  "same_node c c' \<Longrightarrow> (\<And>rs. reach c n ns rs \<Longrightarrow> reach c' n ns rs) \<Longrightarrow> kid_reach c n ns qs \<Longrightarrow> kid_reach c' n ns qs"
  by (auto simp: kid_reach_def edge_same_node) (simp add: same_node_def)

lemma split_of_edges:
  assumes "split_of p i c new"
  shows "\<exists>n ck2 c2. kids new = [(ck2, c2)] \<and> kids c2 = kids c \<and> tid c2 = tid c \<and>
    edge new = take n (edge c) \<and> edge c2 = drop n (edge c) \<and>
    rk_ns (tkey new) = rk_ns (tkey c) \<and> rk_ns (tkey c2) = rk_ns (tkey c)"
  using assms unfolding split_of_def edge_def by (auto simp: take_zip drop_zip)

lemma split_of_reach:
  assumes "split_of p i c new" "kid_reach c n ns qs"
  shows "kid_reach new n ns qs"
proof -
  obtain m ck2 c2 where s: "kids new = [(ck2, c2)]" "kids c2 = kids c" "tid c2 = tid c"
    "edge new = take m (edge c)" "edge c2 = drop m (edge c)"
    "rk_ns (tkey new) = rk_ns (tkey c)" "rk_ns (tkey c2) = rk_ns (tkey c)"
    using split_of_edges [OF assms(1)] by blast
  obtain rs where rs: "rk_ns (tkey c) = ns" "qs = edge c @ rs" "reach c n ns rs"
    using assms(2) by (auto simp: kid_reach_def)
  have "reach c2 n ns rs" using rs(3) reach_node_cong [OF s(3)] s(2) by simp
  then have "kid_reach c2 n ns (edge c2 @ rs)" using s(7) rs(1) by (auto simp: kid_reach_def)
  then have "reach new n ns (edge c2 @ rs)" by (subst reach_iff) (simp add: s(1))
  moreover have "qs = edge new @ edge c2 @ rs"
    by (simp add: rs(2) s(4,5) flip: append_assoc)
  ultimately show ?thesis using s(6) rs(1) by (auto simp: kid_reach_def)
qed

lemma splits_reach: "splits p i t i' t' \<Longrightarrow> reach t n ns qs \<Longrightarrow> reach t' n ns qs"
proof (induction arbitrary: qs rule: splits.induct)
  case (splits_info t t' i)
  then show ?case using reach_node_cong [of t' t] by (simp add: same_node_def)
next
  case (splits_split t t' ck c M new i)
  then show ?case
    using split_of_reach [OF splits_split(4), of n ns] by (auto simp: reach_iff [of t] reach_iff [of t'] same_node_def)
next
  case (splits_kid t t' ck c M c' i i')
  have "kid_reach c n ns rs \<Longrightarrow> kid_reach c' n ns rs" for rs
    using kid_reach_mono [OF splits_same_node [OF splits_kid(4)], of n ns] splits_kid(5) by blast
  then show ?case
    using splits_kid by (auto simp: reach_iff [of t] reach_iff [of t'] same_node_def)
qed blast

lemma leaf_diff_reach: "leaf_diff par leaf t t' \<Longrightarrow> reach t n ns qs \<Longrightarrow> reach t' n ns qs"
proof (induction arbitrary: qs rule: leaf_diff.induct)
  case (diff_here t t' ck)
  then show ?case by (auto simp: reach_iff [of t] reach_iff [of t'] same_node_def)
next
  case (diff_kid t t' ck c M c')
  have "kid_reach c n ns rs \<Longrightarrow> kid_reach c' n ns rs" for rs
    using kid_reach_mono [OF leaf_diff_same_node [OF diff_kid(4)], of n ns] diff_kid(5) by blast
  then show ?case
    using diff_kid by (auto simp: reach_iff [of t] reach_iff [of t'] same_node_def)
qed

lemma leaf_diff_reach_back:
  "leaf_diff par leaf t t' \<Longrightarrow> reach t' n ns qs \<Longrightarrow> n \<noteq> tid leaf \<Longrightarrow> reach t n ns qs"
proof (induction arbitrary: qs rule: leaf_diff.induct)
  case (diff_here t t' ck)
  have "\<not> kid_reach leaf n ns qs"
    using diff_here(3,6) by (simp add: kid_reach_def reach_iff [of leaf])
  then show ?case using diff_here by (auto simp: reach_iff [of t] reach_iff [of t'] same_node_def)
next
  case (diff_kid t t' ck c M c')
  have "kid_reach c' n ns rs \<Longrightarrow> kid_reach c n ns rs" for rs
    using diff_kid(5,7) leaf_diff_same_node [OF diff_kid(4)]
    by (intro kid_reach_mono [of c' c]) (auto simp: same_node_def)
  then show ?case
    using diff_kid by (auto simp: reach_iff [of t] reach_iff [of t'] same_node_def)
qed

lemma reach_cached:
  assumes "wf_tree p bg ro t" "reach t n ns qs"
  shows "cached p t ns qs"
  using assms
proof (induction t n ns qs arbitrary: ro rule: reach.induct)
  case (1 i cs n ns qs)
  show ?case
  proof (cases "qs = []")
    case False
    then obtain ck c where "(ck, c) \<in> set cs" "kid_reach c n ns qs"
      using 1(3) by (auto simp: reach_iff [of "Node i cs"])
    then obtain rs where c: "(ck, c) \<in> set cs" "rk_ns (tkey c) = ns" "qs = edge c @ rs" "reach c n ns rs"
      by (auto simp: kid_reach_def)
    have wf: "entry_ok p bg ck c" "wf_tree p bg (Some (rk_ns (tkey c))) c" using 1(2) c(1) by auto
    have "cached p c ns rs" using 1(1) [of "(ck, c)"] c wf(2) by auto
    then have "kid_cached p c ns qs"
      using c(2,3) length_edge [OF wf(1)] wf(1) by (auto simp: kid_cached_def entry_ok_def)
    then show ?thesis using c(1) by (auto simp: cached_iff [of p "Node i cs"])
  qed simp
qed

section \<open>Slots and page runs\<close>

text \<open>The slots a tree owns, with multiplicity, and the page structure of its values:
  each value is a sequence of whole pages.\<close>

fun tslots :: "tree \<Rightarrow> nat multiset" where
  "tslots (Node i cs) = mset (the (rvalue i)) + sum_list (map (\<lambda>e. tslots (snd e)) cs)"

declare tslots.simps [simp del]

definition page_run :: "nat \<Rightarrow> nat list \<Rightarrow> bool" where
  "page_run p v \<longleftrightarrow> (\<exists>pgs. v = expand_pages p pgs)"

fun runs :: "nat \<Rightarrow> tree \<Rightarrow> bool" where
  "runs p (Node i cs) \<longleftrightarrow> page_run p (the (rvalue i)) \<and> (\<forall>e \<in> set cs. runs p (snd e))"

declare runs.simps [simp del]

lemma tslots_unfold: "tslots t = mset (the (tval t)) + (\<Sum>e\<in>#mset (kids t). tslots (snd e))"
  by (cases t) (simp add: tslots.simps sum_mset_sum_list [symmetric])

lemma runs_unfold: "runs p t \<longleftrightarrow> page_run p (the (tval t)) \<and> (\<forall>e \<in># mset (kids t). runs p (snd e))"
  by (cases t) (simp add: runs.simps)

lemma split_of_tslots: "split_of p i c new \<Longrightarrow> tslots new = tslots c"
proof -
  assume "split_of p i c new"
  then obtain n v ck2 c2 where "tval c = Some v" "tval new = Some (take n v)" "kids new = [(ck2, c2)]"
    "kids c2 = kids c" "tval c2 = Some (drop n v)"
    unfolding split_of_def by blast
  moreover have "mset (take n v) + mset (drop n v) = mset v"
    by (metis append_take_drop_id mset_append)
  ultimately show ?thesis
    by (simp add: tslots_unfold [of c] tslots_unfold [of c2] tslots_unfold [of new] flip: add.assoc)
qed

lemma splits_tslots: "splits p i t i' t' \<Longrightarrow> tslots t' = tslots t"
proof (induction rule: splits.induct)
  case (splits_kid t t' ck c M c' i i')
  then show ?case by (simp add: tslots_unfold [of t] tslots_unfold [of t'] same_node_def)
next
  case (splits_split t t' ck c M new i)
  then show ?case by (simp add: tslots_unfold [of t] tslots_unfold [of t'] same_node_def split_of_tslots)
next
  case (splits_info t t' i)
  then show ?case by (simp add: tslots_unfold [of t] tslots_unfold [of t'] same_node_def)
qed simp

lemma leaf_diff_tslots: "leaf_diff par leaf t t' \<Longrightarrow> tslots t' = tslots t + mset (the (tval leaf))"
proof (induction rule: leaf_diff.induct)
  case (diff_here t t' ck)
  then show ?case by (simp add: tslots_unfold [of t] tslots_unfold [of t'] tslots_unfold [of leaf] same_node_def)
next
  case (diff_kid t t' ck c M c')
  then show ?case by (simp add: tslots_unfold [of t] tslots_unfold [of t'] same_node_def)
qed

lemma expand_pages_append: "expand_pages p (xs @ ys) = expand_pages p xs @ expand_pages p ys"
  by (simp add: expand_pages_def)

lemma expand_pages_take_drop:
  "take (k * p) (expand_pages p pgs) = expand_pages p (take k pgs)"
  "drop (k * p) (expand_pages p pgs) = expand_pages p (drop k pgs)"
proof -
  have sp: "expand_pages p pgs = expand_pages p (take k pgs) @ expand_pages p (drop k pgs)"
    by (metis append_take_drop_id expand_pages_append)
  have "take (k * p) (expand_pages p pgs) = expand_pages p (take k pgs) \<and>
    drop (k * p) (expand_pages p pgs) = expand_pages p (drop k pgs)"
  proof (cases "k \<le> length pgs")
    case True
    then show ?thesis by (subst (1 2) sp) (simp add: min_def)
  next
    case False
    then show ?thesis by (simp add: expand_pages_def [of p "[]"])
  qed
  then show "take (k * p) (expand_pages p pgs) = expand_pages p (take k pgs)"
    "drop (k * p) (expand_pages p pgs) = expand_pages p (drop k pgs)" by simp_all
qed

lemma page_run_take_drop: "page_run p v \<Longrightarrow> p dvd n \<Longrightarrow> page_run p (take n v) \<and> page_run p (drop n v)"
  unfolding page_run_def by (metis dvd_div_mult_self expand_pages_take_drop)

lemma split_of_runs: "split_of p i c new \<Longrightarrow> runs p c \<Longrightarrow> runs p new"
proof -
  assume "split_of p i c new" "runs p c"
  then obtain n v ck2 c2 where "p dvd n" "tval c = Some v" "tval new = Some (take n v)" "kids new = [(ck2, c2)]"
    "kids c2 = kids c" "tval c2 = Some (drop n v)"
    unfolding split_of_def by blast
  with \<open>runs p c\<close> show ?thesis
    using page_run_take_drop [of p v n] by (simp add: runs_unfold [of p c] runs_unfold [of p c2] runs_unfold [of p new])
qed

lemma splits_runs: "splits p i t i' t' \<Longrightarrow> runs p t \<Longrightarrow> runs p t'"
proof (induction rule: splits.induct)
  case (splits_kid t t' ck c M c' i i')
  then show ?case by (simp add: runs_unfold [of p t] runs_unfold [of p t'] same_node_def)
next
  case (splits_split t t' ck c M new i)
  then show ?case by (simp add: runs_unfold [of p t] runs_unfold [of p t'] same_node_def split_of_runs)
next
  case (splits_info t t' i)
  then show ?case by (simp add: runs_unfold [of p t] runs_unfold [of p t'] same_node_def)
qed simp

lemma leaf_diff_runs:
  "leaf_diff par leaf t t' \<Longrightarrow> runs p t' \<longleftrightarrow> runs p t \<and> page_run p (the (tval leaf))"
proof (induction rule: leaf_diff.induct)
  case (diff_here t t' ck)
  then show ?case by (auto simp: runs_unfold [of p t] runs_unfold [of p t'] runs_unfold [of p leaf] same_node_def)
next
  case (diff_kid t t' ck c M c')
  then show ?case by (auto simp: runs_unfold [of p t] runs_unfold [of p t'] same_node_def)
qed

end
