(* ===== verification/RadixSteps.thy ===== *)
theory RadixSteps
  imports RadixAccount
begin

text \<open>
  The loops of \<open>RadixCache\<close> as steps of the relations of \<open>RadixAccount\<close>: matching
  only splits nodes and ends at the node that spells the match, inserting splits
  nodes and adds at most one leaf with the matching update of the counters,
  removing a leaf is the converse, and a walk from a handle to the root changes the
  lock counts on that path only.
\<close>

section \<open>Matching\<close>

lemma split_node_split_of:
  assumes "split_node p clk i (tkey c) c n = Inr new" "entry_ok p bg ck c"
    and "p dvd n" "0 < n" "n < rk_len (tkey c)"
  shows "split_of p i c new"
proof -
  obtain v where v: "tval c = Some v" "length v = rk_len (tkey c)" "salt_ok (tkey c)"
    using assms(2) by (auto simp: entry_ok_def split: option.splits)
  have new: "tid new = i \<and> tlock new = tlock c \<and> tkey new = rk_take n (tkey c) \<and> tval new = Some (take n v) \<and>
    (\<exists>ck2 c2. kids new = [(ck2, c2)] \<and> tid c2 = tid c \<and> tlock c2 = tlock c \<and> kids c2 = kids c \<and>
      tkey c2 = rk_drop n (tkey c) \<and> tval c2 = Some (drop n v))"
  proof -
    obtain hn hc en ec where "split_node_hash_value (hash_value (info c)) n p = (hn, hc)"
      "split_node_hash_value (event_hash_value (info c)) n p = (en, ec)"
      by (metis prod.exhaust)
    then show ?thesis
      using assms(1) v(1) by (auto simp: split_node_def bind_res_Inr_iff Let_def new_tree_node_def)
  qed
  then show ?thesis unfolding split_of_def using assms(3-5) v by blast
qed

lemma splits_touch: "splits p i t i (touch now t)"
  by (rule splits_info) (simp_all add: same_node_def)

lemma splits_kid_split:
  assumes "distinct (map fst (kids t))" "map_of (kids t) ck = Some c" "split_of p i (touch now c) new"
  shows "splits p i t (Suc i) (set_kid ck new t)"
proof -
  have "split_of p i c new" using assms(3) by (simp add: split_of_def)
  then show ?thesis
    using mset_update_kid [OF assms(1,2)] by (intro splits_split [of t "set_kid ck new t"]) (auto simp: same_node_def)
qed

lemma wf_distinct: "wf_tree p bg ro t \<Longrightarrow> distinct (map fst (kids t))"
  by (simp add: wf_tree_iff)

lemma kid_reach_set_kid: "kid_reach c n ns qs \<Longrightarrow> reach (set_kid ck c t) n ns qs"
proof -
  assume "kid_reach c n ns qs"
  moreover have "(ck, c) \<in> set (AList.update ck c (kids t))"
    by (rule map_of_SomeD) (simp add: update_conv')
  ultimately show ?thesis by (subst reach_iff) force
qed

lemma edge_page: "entry_ok p bg ck c \<Longrightarrow> tval c = Some v \<Longrightarrow> map fst (edge c) = rk_iter (tkey c) \<and> map snd (edge c) = v"
  using map_fst_edge map_snd_edge by blast

lemma match_loop_splits:
  assumes "0 < p" "wf_tree p bg ro t" "key_ok p bg key"
    and "rk_len key > 0 \<longrightarrow> rk_child_key key p = Inr ck"
    and "match_loop p clk now i t key ck = Inr (t', i', vs, l)"
  shows "splits p i t i' t' \<and>
    (\<exists>ps. reach t' l (rk_ns key) ps \<and> map snd ps = concat vs \<and> map fst ps = take (length ps) (rk_iter key))"
  using assms
proof (induction t arbitrary: key ck ro i t' i' vs l rule: measure_induct_rule [where f = size])
  case (less t)
  note prems = less.prems
  have here: "splits p i t i t" "reach t (tid t) ns []" for ns
    by (simp_all add: splits_info reach_iff [of t])
  show ?case
  proof (cases "rk_len key > 0 \<and> map_of (kids t) ck \<noteq> None")
    case False
    then have "t' = t \<and> i' = i \<and> vs = [] \<and> l = tid t"
      using prems(5) by (subst (asm) match_loop.simps) (auto split: if_splits option.splits)
    then show ?thesis using here by (intro conjI exI [of _ "[]"]) simp_all
  next
    case True
    then obtain c where len: "0 < rk_len key" and Some: "map_of (kids t) ck = Some c" by auto
    note ck = prems(4) [rule_format, OF len]
    define m where "m = page_floor p (cpl (rk_iter (tkey c)) (rk_iter key))"
    note f = found_child [OF prems(1-3) len ck Some m_def]
    note c = wf_tree_kid [OF prems(2) Some]
    obtain v where v: "tval c = Some v" using c(1) by (auto simp: entry_ok_def split: option.splits)
    have pck: "rk_child_key (tkey c) p = Inr ck" using c(1) by (simp add: entry_ok_def)
    note d = wf_distinct [OF prems(2)]
    show ?thesis
    proof (cases "m < rk_len (tkey c)")
      case lt: True
      have "0 < m" using f(2) prems(1) by simp
      from split_node_result [of p bg ck "touch now c" m clk i] obtain new where
        call: "split_node p clk i (tkey c) (touch now c) m = Inr new" and tv: "tval new = Some (take m v)"
        and e: "edge new = take m (edge c)" "rk_ns (tkey new) = rk_ns key"
        using prems(1) c(1,2) f(3,7) \<open>0 < m\<close> lt v by auto
      have "match_loop p clk now i t key ck = Inr (set_kid ck new t, i + 1, [take m v], tid new)"
        using len Some f(1) lt call tv pck by (subst match_loop.simps) simp
      then have new: "t' = set_kid ck new t" "i' = Suc i" "vs = [take m v]" "l = tid new"
        using prems(5) by simp_all
      have sp: "split_of p i (touch now c) new"
        using call c(1) f(3) lt \<open>0 < m\<close> by (intro split_node_split_of [of p clk i "touch now c" m new bg ck]) auto
      from e have "kid_reach new l (rk_ns key) (take m (edge c))"
        using new(4) by (auto simp: kid_reach_def reach_iff [of new])
      then have "reach t' l (rk_ns key) (take m (edge c))" unfolding new(1) by (rule kid_reach_set_kid)
      moreover have "map snd (take m (edge c)) = concat vs" "map fst (take m (edge c)) = take m (rk_iter key)"
        using edge_page [OF c(1) v] f(6) by (simp_all add: new(3) flip: take_map)
      ultimately show ?thesis
        using splits_kid_split [OF d Some sp] new(1,2) lt length_edge [OF c(1)]
        by (intro conjI exI [of _ "take m (edge c)"]) (auto simp: min_def)
    next
      case ge: False
      have kd: "key_ok p bg (rk_drop m key)" using prems(3) f(3) by (rule key_ok_drop)
      obtain ck' where ck': "(if rk_len (rk_drop m key) > 0 then rk_child_key (rk_drop m key) p else Inr ck) = Inr ck'"
        "rk_len (rk_drop m key) > 0 \<longrightarrow> rk_child_key (rk_drop m key) p = Inr ck'"
        using next_child_key [OF prems(1) kd] by blast
      obtain c' ws where rec: "match_loop p clk now i (touch now c) (rk_drop m key) ck' = Inr (c', i', ws, l)"
        "t' = set_kid ck c' t" "vs = v # ws"
        using prems(5) len Some f(1) ge v ck'(1)
        by (subst (asm) match_loop.simps) (auto simp: bind_res_Inr_iff)
      have "size (touch now c) < size t"
        using size_kid [OF Some, of "info t"] by (cases c) (simp add: touch_def)
      then have "splits p i (touch now c) i' c' \<and> (\<exists>ps. reach c' l (rk_ns (rk_drop m key)) ps \<and>
          map snd ps = concat ws \<and> map fst ps = take (length ps) (rk_iter (rk_drop m key)))"
        by (rule less.IH [OF _ prems(1) _ kd ck'(2) rec(1)]) (use c(2) in simp)
      then obtain ps where sp: "splits p i (touch now c) i' c'" and ps: "reach c' l (rk_ns key) ps"
          "map snd ps = concat ws" "map fst ps = take (length ps) (drop m (rk_iter key))"
        using prems(3) by (auto simp: key_ok_def)
      have spc: "splits p i c i' c'" using splits_touch sp by (rule splits_trans)
      then have e: "edge c' = edge c" "tkey c' = tkey c"
        using splits_same_node [OF spc] by (simp_all only: edge_same_node) (simp add: same_node_def)
      then have "kid_reach c' l (rk_ns key) (edge c @ ps)" using ps(1) f(7) by (auto simp: kid_reach_def)
      then have "reach t' l (rk_ns key) (edge c @ ps)" unfolding rec(2) by (rule kid_reach_set_kid)
      moreover
      have mlen: "m = length (edge c)" using ge f(4) length_edge [OF c(1)] by simp
      have "rk_iter (tkey c) = take m (rk_iter key)"
        using f(6) mlen length_edge [OF c(1)] by simp
      then have "map fst (edge c @ ps) = take m (rk_iter key) @ take (length ps) (drop m (rk_iter key))"
        using edge_page [OF c(1) v] ps(3) by (simp only: map_append)
      then have "map fst (edge c @ ps) = take (length (edge c @ ps)) (rk_iter key)"
        by (simp only: take_add mlen length_append)
      moreover have "map snd (edge c @ ps) = concat vs"
        using edge_page [OF c(1) v] ps(2) rec(3) by simp
      moreover have "splits p i t i' t'" using splits_set_kid [OF d Some spc] rec(2) by simp
      ultimately show ?thesis by blast
    qed
  qed
qed

section \<open>Inserting\<close>

text \<open>The update of the counters when a leaf \<open>n\<close> of length \<open>k\<close> is added below \<open>par\<close>.\<close>

definition leaf_acct :: "nat \<Rightarrow> nat \<Rightarrow> nat \<Rightarrow> acct \<Rightarrow> acct" where
  "leaf_acct par n k a =
     a\<lparr>evictable_size := evictable_size a + int k, evictable_leaves := insert n (evictable_leaves a - {par})\<rparr>"

lemma splits_bump: "splits p i t i (bump_node prio ch t)"
  by (rule splits_info) (simp_all add: same_node_def)

lemma insert_tail_leaf:
  assumes "wf_tree p bg ro t" "0 < rk_len key" "map_of (kids t) ck = None"
    and "insert_tail clk i t key v ck prio chunked a = (t', i', a', l)"
  shows "\<exists>leaf. leaf_diff t leaf t t' \<and> tid leaf = i \<and> tlock leaf = 0 \<and> tkey leaf = key \<and> tval leaf = Some v \<and>
    l = i \<and> i' = Suc i \<and> a' = leaf_acct (tid t) i (rk_len key) a \<and> t' = set_kid ck leaf t \<and> kids leaf = []"
proof -
  define leaf where "leaf = Node (inc_hit_count ((new_tree_node i prio clk)\<lparr>rkey := key, rvalue := Some v\<rparr>) chunked) []"
  have leaf: "kids leaf = []" "tkey leaf = key" "tval leaf = Some v" "tid leaf = i" "tlock leaf = 0"
    by (simp_all add: leaf_def inc_hit_count_def new_tree_node_def)
  have "\<not> evicted leaf" by (simp add: evicted_def leaf)
  moreover have "(ck, leaf) \<in> set (AList.update ck leaf (kids t))"
    by (rule map_of_SomeD) (simp add: update_conv')
  ultimately have "\<exists>(_, c) \<in> set (kids (set_kid ck leaf t)). \<not> evicted c" by auto
  then have "update_leaf_status leaf (update_leaf_status (set_kid ck leaf t)
       (a\<lparr>evictable_size := evictable_size a + int (rk_len key)\<rparr>)) = leaf_acct (tid t) i (rk_len key) a"
    using \<open>\<not> evicted leaf\<close> by (simp add: update_leaf_status_def leaf leaf_acct_def)
  moreover have "leaf_diff t leaf t (set_kid ck leaf t)"
    using leaf(1) assms(3) by (intro diff_here) (auto simp: same_node_def mset_update_new)
  ultimately show ?thesis
    using assms(2,4) leaf by (auto simp: insert_tail_def Let_def leaf_def [symmetric])
qed

lemma insert_next_splits:
  assumes "0 < p" "wf_tree p bg ro t" "key_ok p bg key" "0 < rk_len key"
    and "rk_child_key key p = Inr ck" "map_of (kids t) ck = Some c"
    and m: "m = page_floor p (cpl (rk_iter (tkey c)) (rk_iter key))"
    and call: "insert_next p clk i (touch now c) ck m prio chunked = Inr (slot, i', next)"
  shows "splits p i t i' (set_kid ck next t)"
proof (cases "m < rk_len (tkey c)")
  case True
  note f = found_child [OF assms(1-7)]
  note c = wf_tree_kid [OF assms(2,6)]
  note d = wf_distinct [OF assms(2)]
  obtain new where new: "split_node p clk i (tkey c) (touch now c) m = Inr new" "i' = Suc i"
    "next = bump_node prio chunked new"
    using call True by (auto simp: insert_next_def bind_res_Inr_iff map_res_Inr_iff)
  have "split_of p i (touch now c) new"
    using new(1) c(1) f(2,3) assms(1) True by (intro split_node_split_of [of p clk i "touch now c" m new bg ck]) auto
  then have "splits p i t i' (set_kid ck new t)" unfolding new(2) by (rule splits_kid_split [OF d assms(6)])
  moreover have "splits p i' (set_kid ck new t) i' (set_kid ck next (set_kid ck new t))"
    using d splits_bump [of p i' new prio chunked] unfolding new(3)
    by (intro splits_set_kid) (auto simp: distinct_update update_conv')
  moreover have "set_kid ck next (set_kid ck new t) = set_kid ck next t" by (simp add: set_kid_def)
  ultimately show ?thesis using splits_trans by metis
next
  case False
  then have "i' = i" "next = bump_node prio chunked (touch now c)"
    using call by (simp_all add: insert_next_def)
  then have "splits p i c i' next"
    using splits_touch [of p i c now] splits_bump [of p i "touch now c" prio chunked] splits_trans by metis
  then show ?thesis by (rule splits_set_kid [OF wf_distinct [OF assms(2)] assms(6)])
qed

text \<open>The effect of an insertion: splits, then at most one new leaf that takes the
  part of the value behind the \<open>total_len\<close> units that were already there.\<close>

definition inserted ::
  "nat \<Rightarrow> nat \<Rightarrow> tree \<Rightarrow> nat list \<Rightarrow> acct \<Rightarrow> nat \<Rightarrow> tree \<Rightarrow> acct \<Rightarrow> nat \<Rightarrow> bool" where
  "inserted p i t v a i' t' a' total_len \<longleftrightarrow>
     splits p i t i' t' \<and> a' = a \<and> total_len = length v \<or>
     (\<exists>i1 t1 par leaf. splits p i t i1 t1 \<and> leaf_diff par leaf t1 t' \<and> tid leaf = i1 \<and> tlock leaf = 0 \<and>
        i' = Suc i1 \<and> tval leaf = Some (drop total_len v) \<and> rk_len (tkey leaf) = length v - total_len \<and> total_len < length v \<and>
        a' = leaf_acct (tid par) i1 (rk_len (tkey leaf)) a)"

lemma inserted_kid:
  assumes "splits p i t i1 t1" "distinct (map fst (kids t1))" "map_of (kids t1) ck = Some next"
    and "inserted p i1 next (drop m v) a i' next' a' total_len" "m \<le> length v"
  shows "inserted p i t v a i' (set_kid ck next' t1) a' (m + total_len)"
  using assms(4) unfolding inserted_def [of p i1]
proof (elim disjE exE conjE, goal_cases)
  case 1
  have "splits p i t i' (set_kid ck next' t1)"
    using assms(1) splits_set_kid [OF assms(2,3) 1(1)] by (rule splits_trans)
  then show ?case using 1 assms(5) by (simp add: inserted_def)
next
  case (2 i2 n2 par leaf)
  define t2 where "t2 = set_kid ck n2 t1"
  have "splits p i t i2 t2"
    unfolding t2_def using assms(1) splits_set_kid [OF assms(2,3) 2(1)] by (rule splits_trans)
  moreover have "leaf_diff par leaf t2 (set_kid ck next' t2)"
    using 2(2) assms(2) unfolding t2_def
    by (intro leaf_diff_set_kid) (simp_all add: distinct_update update_conv')
  moreover have "set_kid ck next' t2 = set_kid ck next' t1" by (simp add: t2_def set_kid_def)
  moreover have "drop total_len (drop m v) = drop (m + total_len) v" "m + total_len < length v"
    "length (drop m v) - total_len = length v - (m + total_len)"
    using 2 by (simp_all add: add.commute)
  ultimately show ?case using 2 unfolding inserted_def
    by (intro disjI2 exI [of _ i2] exI [of _ t2] exI [of _ par] exI [of _ leaf]) simp
qed

lemma insert_loop_steps:
  assumes "0 < p" "wf_tree p bg ro t" "key_ok p bg key"
    and "rk_len key > 0 \<longrightarrow> rk_child_key key p = Inr ck"
    and "length v = rk_len key" "ro = None \<or> ro = Some (rk_ns key)"
    and "insert_loop fuel p clk now i t key v ck prio chunked a = Inr (t', i', a', total_len, l)"
  shows "inserted p i t v a i' t' a' total_len \<and> (\<exists>qs. reach t' l (rk_ns key) qs \<and> map fst qs = rk_iter key)"
  using assms
proof (induction fuel arbitrary: t key v ck ro i t' i' a' total_len l)
  case 0
  then show ?case by simp
next
  case (Suc fuel)
  note prems = Suc.prems
  consider "rk_len key = 0" | "0 < rk_len key" "map_of (kids t) ck = None"
    | c where "0 < rk_len key" "map_of (kids t) ck = Some c" by (cases "rk_len key") auto
  then show ?case
  proof cases
    case 1
    then have "t' = t \<and> i' = i \<and> a' = a \<and> total_len = 0 \<and> l = tid t"
      using prems(7) by (auto simp: insert_tail_def)
    moreover have "rk_iter key = []" using 1 by (metis length_0_conv length_rk_iter)
    ultimately show ?thesis
      using prems(5) 1 by (auto simp: inserted_def splits_info reach_iff [of t])
  next
    case 2
    then have "insert_tail clk i t key v ck prio chunked a = (t', i', a', l)" "total_len = 0"
      using prems(7) by (auto split: prod.splits)
    from insert_tail_leaf [OF prems(2) 2 this(1)] this(2) obtain leaf where leaf:
      "leaf_diff t leaf t t'" "tid leaf = i" "tlock leaf = 0" "tkey leaf = key" "tval leaf = Some v"
      "l = i" "i' = Suc i" "a' = leaf_acct (tid t) i (rk_len key) a" "t' = set_kid ck leaf t" "kids leaf = []"
      by blast
    have "kid_reach leaf l (rk_ns key) (edge leaf)" using leaf by (auto simp: kid_reach_def reach_iff [of leaf])
    then have "reach t' l (rk_ns key) (edge leaf)" unfolding leaf(9) by (rule kid_reach_set_kid)
    moreover have "map fst (edge leaf) = rk_iter key" using leaf(4,5) prems(5) by (simp add: edge_def)
    moreover have "inserted p i t v a i' t' a' total_len"
      unfolding inserted_def using leaf prems(5) 2(1) \<open>total_len = 0\<close> splits_info [of t t p i]
      by (intro disjI2 exI [of _ i] exI [of _ t] exI [of _ t] exI [of _ leaf]) auto
    ultimately show ?thesis by blast
  next
    case (3 c)
    note ck = prems(4) [rule_format, OF 3(1)]
    define m where "m = page_floor p (cpl (rk_iter (tkey c)) (rk_iter key))"
    note f = found_child [OF prems(1-3) 3(1) ck 3(2) m_def]
    obtain i1 "next" where desc: "insert_next p clk i (touch now c) ck m prio chunked = Inr (ck, i1, next)"
      and nx: "entry_ok p bg ck next" "wf_tree p bg (Some (rk_ns key)) next" "rk_ns (tkey next) = rk_ns key"
        "rk_iter (tkey next) = take m (rk_iter key)"
      using insert_descend [OF prems(1-3) 3(1) ck 3(2) m_def] by blast
    note sp = insert_next_splits [OF prems(1-3) 3(1) ck 3(2) m_def desc]
    have kd: "key_ok p bg (rk_drop m key)" using prems(3) f(3) by (rule key_ok_drop)
    obtain ck' where ck': "(if rk_len (rk_drop m key) > 0 then rk_child_key (rk_drop m key) p else Inr ck) = Inr ck'"
      "rk_len (rk_drop m key) > 0 \<longrightarrow> rk_child_key (rk_drop m key) p = Inr ck'"
      using next_child_key [OF prems(1) kd] by blast
    obtain next' tot where rec: "insert_loop fuel p clk now i1 next (rk_drop m key) (drop m v) ck' prio chunked a =
        Inr (next', i', a', tot, l)" "t' = set_kid ck next' t" "total_len = m + tot"
      using prems(7) 3 f(1) desc ck'(1) by (auto simp: bind_res_Inr_iff Let_def)
    have ns: "rk_ns (rk_drop m key) = rk_ns key" using prems(3) by (simp add: key_ok_def)
    have "inserted p i1 next (drop m v) a i' next' a' tot \<and>
        (\<exists>qs. reach next' l (rk_ns (rk_drop m key)) qs \<and> map fst qs = rk_iter (rk_drop m key))"
      using nx(2) prems(5) by (intro Suc.IH [OF prems(1) _ kd ck'(2) _ disjI2 rec(1)]) (simp_all add: ns)
    then obtain qs where ins: "inserted p i1 next (drop m v) a i' next' a' tot"
      and qs: "reach next' l (rk_ns key) qs" "map fst qs = drop m (rk_iter key)"
      using ns by auto
    have same: "same_node next next'"
      using ins unfolding inserted_def by (blast dest: splits_same_node leaf_diff_same_node intro: same_node_trans)
    then have "edge next' = edge next" "rk_ns (tkey next') = rk_ns key"
      using nx(3) by (simp_all only: edge_same_node) (simp add: same_node_def)
    then have "kid_reach next' l (rk_ns key) (edge next @ qs)" using qs(1) by (auto simp: kid_reach_def)
    then have "reach t' l (rk_ns key) (edge next @ qs)" unfolding rec(2) by (rule kid_reach_set_kid)
    moreover have "map fst (edge next @ qs) = rk_iter key"
      using map_fst_edge [OF nx(1)] nx(4) qs(2) by simp
    moreover have "inserted p i t v a i' (set_kid ck next' (set_kid ck next t)) a' (m + tot)"
      using f(5) prems(5) wf_distinct [OF prems(2)]
      by (intro inserted_kid [OF sp _ _ ins]) (simp_all add: distinct_update update_conv')
    then have "inserted p i t v a i' t' a' total_len" by (simp add: rec set_kid_def)
    ultimately show ?thesis by blast
  qed
qed

section \<open>Nodes by id\<close>

fun subs :: "tree \<Rightarrow> tree set" where
  "subs (Node i cs) = insert (Node i cs) (\<Union>e \<in> set cs. subs (snd e))"

declare subs.simps [simp del]

lemma subs_unfold: "subs t = insert t (\<Union>e \<in> set (kids t). subs (snd e))"
  by (cases t) (simp add: subs.simps)

lemma subs_self [simp]: "t \<in> subs t"
  by (simp add: subs_unfold [of t])

lemma size_kid_mem: "(ck, c) \<in> set cs \<Longrightarrow> size c < size (Node i cs)"
  by (induction cs) auto

lemma subs_size: "x \<in> subs t \<Longrightarrow> size x \<le> size t"
proof (induction t rule: subs.induct)
  case (1 i cs)
  show ?case
  proof (cases "x = Node i cs")
    case False
    then obtain e where e: "e \<in> set cs" "x \<in> subs (snd e)" using 1(2) by (auto simp: subs_unfold [of "Node i cs"])
    then have "size x \<le> size (snd e)" by (rule 1(1))
    moreover have "size (snd e) < size (Node i cs)" using e(1) by (metis prod.collapse size_kid_mem)
    ultimately show ?thesis by simp
  qed simp
qed

lemma set_view: "set_mset (view t) = nv ` subs t"
proof (induction t rule: subs.induct)
  case (1 i cs)
  have "set_mset (view_kids (mset cs)) = (\<Union>e \<in> set cs. set_mset (view (snd e)))"
    by (induction cs) auto
  then show ?case
    using 1 by (auto simp: subs_unfold [of "Node i cs"] view_unfold [of "Node i cs"])
qed

lemma ids_subs: "ids t = tid ` subs t"
  by (simp add: ids_def set_view image_image nv_def)

lemma uniq_disjoint: "uniq i (M + N) \<Longrightarrow> fst ` set_mset M \<inter> fst ` set_mset N = {}"
proof (rule ccontr)
  assume u: "uniq i (M + N)" and "fst ` set_mset M \<inter> fst ` set_mset N \<noteq> {}"
  then obtain n where "n \<in># image_mset fst M" "n \<in># image_mset fst N" by auto
  then have "0 < count (image_mset fst M) n" "0 < count (image_mset fst N) n" by simp_all
  then have "\<not> count (image_mset fst (M + N)) n \<le> 1" unfolding image_mset_union count_union by linarith
  then show False using u unfolding uniq_def by blast
qed

lemma view_kids_split:
  assumes "e \<in># M"
  shows "view_kids M = view (snd e) + view_kids (M - {#e#})"
proof -
  have "view_kids (add_mset e (M - {#e#})) = view (snd e) + view_kids (M - {#e#})" by simp
  then show ?thesis using assms by simp
qed

lemma subs_unique:
  assumes "uniq i (view t)" "x \<in> subs t" "y \<in> subs t" "tid x = tid y"
  shows "x = y"
  using assms
proof (induction t arbitrary: x y rule: subs.induct)
  case (1 inf cs)
  let ?t = "Node inf cs"
  have u: "node_id inf \<notin> fst ` set_mset (view_kids (mset cs))" "uniq i (view_kids (mset cs))"
    using 1(2) by (simp_all add: view_unfold [of ?t] nv_def uniq_add)
  have below: "tid z \<in> fst ` set_mset (view_kids (mset cs))" "uniq i (view (snd e))"
    if "e \<in> set cs" "z \<in> subs (snd e)" for e z
  proof -
    have sp: "view_kids (mset cs) = view (snd e) + view_kids (mset cs - {#e#})"
      using that(1) by (intro view_kids_split) simp
    show "uniq i (view (snd e))" using u(2) unfolding sp by (rule uniq_sub)
    have "nv z \<in># view (snd e)" using that(2) by (simp add: set_view)
    then have "nv z \<in># view_kids (mset cs)" unfolding sp by simp
    then show "tid z \<in> fst ` set_mset (view_kids (mset cs))" by (metis fst_conv image_eqI nv_def)
  qed
  have cases: "z = ?t \<or> (\<exists>e \<in> set cs. z \<in> subs (snd e))" if "z \<in> subs ?t" for z
    using that by (auto simp: subs_unfold [of ?t])
  show ?case
  proof (cases "x = ?t \<or> y = ?t")
    case True
    have "z = ?t" if "z \<in> subs ?t" "tid z = node_id inf" for z
      using cases [OF that(1)] below(1) [of _ z] u(1) that(2) by auto
    from this [OF 1(3)] this [OF 1(4)] show ?thesis using True 1(5) by auto
  next
    case False
    then obtain e f where e: "e \<in> set cs" "x \<in> subs (snd e)" and f: "f \<in> set cs" "y \<in> subs (snd f)"
      using cases [OF 1(3)] cases [OF 1(4)] by blast
    have "e = f"
    proof (rule ccontr)
      assume ne: "e \<noteq> f"
      then have "f \<in># mset cs - {#e#}" using f(1) by (simp add: in_diff_count)
      then have "view_kids (mset cs) = view (snd e) + (view (snd f) + view_kids (mset cs - {#e#} - {#f#}))"
        using view_kids_split [of e "mset cs"] view_kids_split [of f "mset cs - {#e#}"] e(1) by simp
      then have "uniq i (view (snd e) + view (snd f))"
        using u(2) uniq_sub [of i "view (snd e) + view (snd f)"] by (simp add: add.assoc)
      from uniq_disjoint [OF this] have "ids (snd e) \<inter> ids (snd f) = {}" by (simp add: ids_def)
      then show False using e(2) f(2) 1(5) by (auto simp: ids_subs)
    qed
    then show ?thesis using 1(1) [OF e(1) below(2) [OF e]] e(2) f(2) 1(5) by blast
  qed
qed

lemma find_node_subs:
  "find_node n t = Some x \<Longrightarrow> x \<in> subs t \<and> tid x = n"
  "find_kids n cs = Some x \<Longrightarrow> (\<exists>e \<in> set cs. x \<in> subs (snd e)) \<and> tid x = n"
proof (induction n t and n cs rule: find_node_find_kids.induct)
  case (1 n i cs)
  then show ?case by (auto simp: subs_unfold [of "Node i cs"] split: if_splits)
next
  case (3 n ck c cs)
  then show ?case by (auto split: option.splits)
qed simp

lemma find_node_None:
  "find_node n t = None \<longleftrightarrow> n \<notin> ids t"
  "find_kids n cs = None \<longleftrightarrow> (\<forall>e \<in> set cs. n \<notin> ids (snd e))"
proof (induction n t and n cs rule: find_node_find_kids.induct)
  case (1 n i cs)
  then show ?case by (auto simp: ids_unfold [of "Node i cs"])
next
  case (3 n ck c cs)
  then show ?case by (auto split: option.splits)
qed simp

lemma find_node_unique:
  assumes "uniq i (view t)" "x \<in> subs t"
  shows "find_node (tid x) t = Some x"
proof (cases "find_node (tid x) t")
  case None
  then show ?thesis using assms(2) by (auto simp: find_node_None ids_subs)
next
  case (Some y)
  then show ?thesis using subs_unique [OF assms(1,2)] find_node_subs(1) [OF Some] by metis
qed

section \<open>Removing a leaf\<close>

lemma wf_map_of: "wf_tree p bg ro t \<Longrightarrow> (ck, c) \<in> set (kids t) \<Longrightarrow> map_of (kids t) ck = Some c"
  by (simp add: wf_tree_iff)

lemma pop_child_wf:
  assumes "wf_tree p bg ro (Node i cs)" "(ck, x) \<in> set cs"
  shows "pop_child p x i cs = Inr (Node i (AList.delete ck cs), x, Node i (AList.delete ck cs))"
  using wf_tree_entry [OF assms(1), of ck x] wf_map_of [OF assms(1), of ck x] assms(2)
  by (simp add: pop_child_def entry_ok_def Let_def)

lemma cut_leaf_diff:
  "wf_tree p bg ro t \<Longrightarrow> cut_leaf p n t = Some r \<Longrightarrow>
     \<exists>t' x par. r = Inr (t', x, par) \<and> tid x = n \<and> x \<in> subs t \<and> x \<noteq> t \<and>
       (kids x = [] \<longrightarrow> leaf_diff par x t' t \<and> (\<exists>y \<in> subs t. same_node par y \<and> set (kids par) \<subseteq> set (kids y)))"
  "\<forall>e \<in> set cs. wf_tree p bg (Some (rk_ns (tkey (snd e)))) (snd e) \<Longrightarrow> cut_kids p n cs = Some r' \<Longrightarrow>
     \<exists>cs' x par ck c c' M. r' = Inr (cs', x, par) \<and> tid x = n \<and> mset cs = add_mset (ck, c) M \<and>
       mset cs' = add_mset (ck, c') M \<and> x \<in> subs c \<and>
       (kids x = [] \<longrightarrow> leaf_diff par x c' c \<and> (\<exists>y \<in> subs c. same_node par y \<and> set (kids par) \<subseteq> set (kids y)))"
proof (induction p n t and p n cs arbitrary: ro r and r' rule: cut_leaf_cut_kids.induct)
  case (1 p n i cs)
  let ?t = "Node i cs"
  show ?case
  proof (cases "find (\<lambda>e. tid (snd e) = n) cs")
    case None
    then obtain r' where r': "cut_kids p n cs = Some r'" "r = map_res (\<lambda>(cs', x, par). (Node i cs', x, par)) r'"
      using 1(3) by auto
    have "\<forall>e \<in> set cs. wf_tree p bg (Some (rk_ns (tkey (snd e)))) (snd e)" using 1(2) by simp
    from 1(1) [OF None this r'(1)] obtain cs' x par ck c c' M where k: "r' = Inr (cs', x, par)" "tid x = n"
      "mset cs = add_mset (ck, c) M" "mset cs' = add_mset (ck, c') M" "x \<in> subs c"
      "kids x = [] \<longrightarrow> leaf_diff par x c' c \<and> (\<exists>y \<in> subs c. same_node par y \<and> set (kids par) \<subseteq> set (kids y))"
      by blast
    have c: "(ck, c) \<in> set cs" using k(3) by (metis set_mset_mset union_single_eq_member)
    have "leaf_diff par x (Node i cs') ?t" if "leaf_diff par x c' c"
      using k(3,4) by (intro diff_kid [OF _ _ _ that, of _ _ ck M]) (simp_all add: same_node_def)
    moreover have sub: "subs c \<subseteq> subs ?t" using c by (force simp: subs_unfold [of ?t])
    moreover have "x \<noteq> ?t"
    proof
      assume "x = ?t"
      then show False using subs_size [OF k(5)] size_kid_mem [OF c, of i] by simp
    qed
    moreover have "r = Inr (Node i cs', x, par)" using k(1) r'(2) by simp
    ultimately show ?thesis using k(2,5,6) by blast
  next
    case (Some e)
    then have e: "e \<in> set cs" "tid (snd e) = n" by (auto simp: find_Some_iff)
    have r: "r = Inr (Node i (AList.delete (fst e) cs), snd e, Node i (AList.delete (fst e) cs))"
      using 1(3) Some pop_child_wf [OF 1(2), of "fst e" "snd e"] e by simp
    have "mset cs = add_mset (fst e, snd e) (mset (AList.delete (fst e) cs))"
      using wf_map_of [OF 1(2), of "fst e" "snd e"] wf_distinct [OF 1(2)] e(1)
      by (intro mset_update_kid(1)) auto
    then have "leaf_diff (Node i (AList.delete (fst e) cs)) (snd e) (Node i (AList.delete (fst e) cs)) ?t"
      if "kids (snd e) = []" using that by (intro diff_here [of _ _ _ _ "fst e"]) (simp_all add: same_node_def)
    moreover have "snd e \<in> subs ?t" using e(1) by (force simp: subs_unfold [of ?t])
    moreover have "snd e \<noteq> ?t"
      using size_kid_mem [of "fst e" "snd e" cs i] e(1) by (metis less_irrefl prod.collapse)
    moreover have "set (AList.delete (fst e) cs) \<subseteq> set cs" by (auto simp: set_delete)
    ultimately show ?thesis using r e(2) by (auto simp: same_node_def intro!: bexI [of _ ?t])
  qed
next
  case (2 p n)
  then show ?case by simp
next
  case (3 p n ck c cs)
  show ?case
  proof (cases "cut_leaf p n c")
    case None
    then obtain r where r: "cut_kids p n cs = Some r" "r' = map_res (\<lambda>(cs', x, par). ((ck, c) # cs', x, par)) r"
      using 3(4) by auto
    have "\<forall>e \<in> set cs. wf_tree p bg (Some (rk_ns (tkey (snd e)))) (snd e)" using 3(3) by simp
    from 3(2) [OF None this r(1)] obtain cs' x par ck1 c1 c' M where "r = Inr (cs', x, par)" "tid x = n"
      "mset cs = add_mset (ck1, c1) M" "mset cs' = add_mset (ck1, c') M" "x \<in> subs c1"
      "kids x = [] \<longrightarrow> leaf_diff par x c' c1 \<and> (\<exists>y \<in> subs c1. same_node par y \<and> set (kids par) \<subseteq> set (kids y))"
      by blast
    then show ?thesis
      using r(2) by (intro exI [of _ "(ck, c) # cs'"] exI [of _ x] exI [of _ par] exI [of _ ck1] exI [of _ c1]
          exI [of _ c'] exI [of _ "add_mset (ck, c) M"]) (simp add: add_mset_commute)
  next
    case (Some r)
    then have "r' = map_res (\<lambda>(c', x, par). ((ck, c') # cs, x, par)) r" using 3(4) by simp
    moreover have "wf_tree p bg (Some (rk_ns (tkey c))) c" using 3(3) by simp
    from 3(1) [OF this Some] obtain c' x par where "r = Inr (c', x, par)" "tid x = n" "x \<in> subs c"
      "kids x = [] \<longrightarrow> leaf_diff par x c' c \<and> (\<exists>y \<in> subs c. same_node par y \<and> set (kids par) \<subseteq> set (kids y))"
      by blast
    ultimately show ?thesis
      by (intro exI [of _ "(ck, c') # cs"] exI [of _ x] exI [of _ par] exI [of _ ck] exI [of _ c]
          exI [of _ c'] exI [of _ "mset cs"]) simp
  qed
qed

lemma cut_leaf_None:
  "cut_leaf p n t = None \<longleftrightarrow> (\<forall>e \<in> set (kids t). n \<notin> ids (snd e))"
  "cut_kids p n cs = None \<longleftrightarrow> (\<forall>e \<in> set cs. \<forall>f \<in> set (kids (snd e)). n \<notin> ids (snd f))"
proof (induction p n t and p n cs rule: cut_leaf_cut_kids.induct)
  case (1 p n i cs)
  have "(\<forall>e \<in> set cs. n \<notin> ids (snd e)) \<longleftrightarrow>
      (\<forall>e \<in> set cs. tid (snd e) \<noteq> n) \<and> (\<forall>e \<in> set cs. \<forall>f \<in> set (kids (snd e)). n \<notin> ids (snd f))"
    by (subst ids_unfold) auto
  moreover have "find (\<lambda>e. tid (snd e) = n) cs = None \<longleftrightarrow> (\<forall>e \<in> set cs. tid (snd e) \<noteq> n)"
    unfolding find_None_iff by blast
  ultimately show ?case using 1 by (auto split: option.splits)
next
  case (3 p n ck c cs)
  then show ?case by (auto split: option.splits)
qed simp

lemma leaf_diff_wf:
  assumes "leaf_diff par leaf t t'" "wf_tree p bg ro t'"
  shows "wf_tree p bg ro t"
  using assms
proof (induction arbitrary: ro rule: leaf_diff.induct)
  case (diff_here t t' ck)
  have "mset (map fst (kids t')) = mset (ck # map fst (kids t))"
    using diff_here(4) by (metis fst_conv image_mset_add_mset mset.simps(2) mset_map)
  then have "distinct (ck # map fst (kids t))"
    using wf_distinct [OF diff_here(5)] mset_eq_imp_distinct_iff by blast
  moreover have "set (kids t) \<subseteq> set (kids t')"
    using diff_here(4) by (metis set_mset_add_mset_insert set_mset_mset subset_insertI)
  ultimately show ?case using diff_here(5) by (auto simp: wf_tree_iff [of _ _ _ t] wf_tree_iff [of _ _ _ t'])
next
  case (diff_kid t t' ck c M c')
  have "mset (map fst (kids t')) = mset (map fst (kids t))"
    using diff_kid(2,3) by (metis fst_conv image_mset_add_mset mset_map)
  then have d: "distinct (map fst (kids t))"
    using wf_distinct [OF diff_kid(6)] mset_eq_imp_distinct_iff by blast
  have sets: "set (kids t) = insert (ck, c) (set_mset M)" "set (kids t') = insert (ck, c') (set_mset M)"
    using diff_kid(2,3) by (metis set_mset_add_mset_insert set_mset_mset)+
  have same: "same_node c c'" by (rule leaf_diff_same_node [OF diff_kid(4)])
  have kid: "wf_kid p bg ro ck c'" using wf_tree_mem [OF diff_kid(6)] sets by simp
  have keys: "tkey c' = tkey c" "tval c' = tval c" using same by (simp_all add: same_node_def)
  have "wf_tree p bg (Some (rk_ns (tkey c))) c"
    using diff_kid(5) kid by (simp add: wf_kid_def keys)
  then have "wf_kid p bg ro ck c"
    using kid same_edge(1) [OF keys, of p bg ck] by (simp add: wf_kid_def keys)
  then show ?case using diff_kid(6) d sets by (auto simp: wf_tree_iff [of _ _ _ t] wf_tree_iff [of _ _ _ t'])
qed

lemma leaf_diff_cached:
  assumes "leaf_diff par leaf t t'" "cached p t ns qs"
  shows "cached p t' ns qs"
  using assms
proof (induction arbitrary: qs rule: leaf_diff.induct)
  case (diff_here t t' ck)
  then have "set (kids t) \<subseteq> set (kids t')"
    by (metis set_mset_add_mset_insert set_mset_mset subset_insertI)
  then show ?case using diff_here(5) by (auto simp: cached_iff [of p t] cached_iff [of p t'])
next
  case (diff_kid t t' ck c M c')
  have sets: "set (kids t) = insert (ck, c) (set_mset M)" "set (kids t') = insert (ck, c') (set_mset M)"
    using diff_kid(2,3) by (metis set_mset_add_mset_insert set_mset_mset)+
  have same: "same_node c c'" by (rule leaf_diff_same_node [OF diff_kid(4)])
  have "kid_cached p c ns qs \<Longrightarrow> kid_cached p c' ns qs"
    using diff_kid(5) edge_same_node [OF same] same by (auto simp: kid_cached_def same_node_def split: if_splits)
  then show ?case using diff_kid(6) sets by (auto simp: cached_iff [of p t] cached_iff [of p t'])
qed

end
