(* ===== verification/RadixLocks.thy ===== *)
theory RadixLocks
  imports RadixSteps
begin

text \<open>
  \<open>inc_lock_ref\<close> and \<open>dec_lock_ref\<close>. The locale \<open>lock_walk\<close> states what one step of
  the walk to the root does; its lemmas give the effect of the whole walk, and the
  two steps of the code are its instances.
\<close>

section \<open>Trees that differ by the lock counts on one path\<close>

definition relock_node :: "int \<Rightarrow> tree \<Rightarrow> tree \<Rightarrow> bool" where
  "relock_node d t t' \<longleftrightarrow> tid t' = tid t \<and> tlock t' = tlock t + d \<and> tkey t' = tkey t \<and> tval t' = tval t"

inductive relocked :: "int \<Rightarrow> nat \<Rightarrow> tree \<Rightarrow> tree \<Rightarrow> bool" for d n where
  relock_here: "relock_node d t t' \<Longrightarrow> tid t = n \<Longrightarrow> kids t' = kids t \<Longrightarrow> relocked d n t t'"
| relock_kid: "relock_node d t t' \<Longrightarrow> mset (kids t) = add_mset (ck, c) M \<Longrightarrow>
    mset (kids t') = add_mset (ck, c') M \<Longrightarrow> relocked d n c c' \<Longrightarrow> relocked d n t t'"

text \<open>At the root, which keeps its own count.\<close>

definition relocked_below :: "int \<Rightarrow> nat \<Rightarrow> tree \<Rightarrow> tree \<Rightarrow> bool" where
  "relocked_below d n t t' \<longleftrightarrow> same_node t t' \<and>
     (\<exists>ck c c' M. mset (kids t) = add_mset (ck, c) M \<and> mset (kids t') = add_mset (ck, c') M \<and> relocked d n c c')"

lemma relocked_node: "relocked d n t t' \<Longrightarrow> relock_node d t t'"
  by (cases rule: relocked.cases) auto

lemma relocked_in_ids: "relocked d n t t' \<Longrightarrow> n \<in> ids t"
proof (induction rule: relocked.induct)
  case (relock_kid t t' ck c M c')
  have "(ck, c) \<in> set (kids t)" using relock_kid(2) by (metis set_mset_mset union_single_eq_member)
  then show ?case using relock_kid(5) by (force simp: ids_unfold [of t])
next
  case (relock_here t t')
  then show ?case by (simp add: ids_unfold [of t])
qed

lemma relocked_view_ids: "relocked d n t t' \<Longrightarrow> image_mset fst (view t') = image_mset fst (view t)"
proof (induction rule: relocked.induct)
  case (relock_here t t')
  then show ?case by (simp add: view_unfold [of t] view_unfold [of t'] nv_def relock_node_def)
next
  case (relock_kid t t' ck c M c')
  then show ?case by (simp add: view_unfold [of t] view_unfold [of t'] nv_def relock_node_def)
qed

lemma relocked_ids: "relocked d n t t' \<Longrightarrow> ids t' = ids t"
  by (metis ids_def relocked_view_ids set_image_mset)

lemma relock_edge: "relock_node d t t' \<Longrightarrow> edge t' = edge t"
  by (simp add: relock_node_def edge_def)

lemma relocked_reach: "relocked d n t t' \<Longrightarrow> reach t' m ns qs \<longleftrightarrow> reach t m ns qs"
proof (induction arbitrary: qs rule: relocked.induct)
  case (relock_here t t')
  then show ?case using reach_node_cong [of t' t] by (simp add: relock_node_def)
next
  case (relock_kid t t' ck c M c')
  have "kid_reach c' m ns qs \<longleftrightarrow> kid_reach c m ns qs" for qs
    using relocked_node [OF relock_kid(4)] relock_kid(5) relock_edge [OF relocked_node [OF relock_kid(4)]]
    by (auto simp: kid_reach_def relock_node_def)
  then show ?case using relock_kid(1-3) by (simp add: reach_iff [of t] reach_iff [of t'] relock_node_def)
qed

lemma relocked_wf: "relocked d n t t' \<Longrightarrow> wf_tree p bg ro t' \<longleftrightarrow> wf_tree p bg ro t"
proof (induction arbitrary: ro rule: relocked.induct)
  case (relock_here t t')
  then show ?case using wf_kids_cong [of t' t] by simp
next
  case (relock_kid t t' ck c M c')
  have keys: "tkey c' = tkey c" "tval c' = tval c"
    using relocked_node [OF relock_kid(4)] by (simp_all add: relock_node_def)
  have "mset (map fst (kids t')) = mset (map fst (kids t))"
    using relock_kid(2,3) by (metis fst_conv image_mset_add_mset mset_map)
  then have d: "distinct (map fst (kids t')) \<longleftrightarrow> distinct (map fst (kids t))"
    by (rule mset_eq_imp_distinct_iff)
  have sets: "set (kids t) = insert (ck, c) (set_mset M)" "set (kids t') = insert (ck, c') (set_mset M)"
    using relock_kid(2,3) by (metis set_mset_add_mset_insert set_mset_mset)+
  have "wf_kid p bg ro ck c' \<longleftrightarrow> wf_kid p bg ro ck c"
    using same_edge(1) [OF keys, of p bg ck] relock_kid(5) keys by (simp add: wf_kid_def)
  then show ?case unfolding wf_tree_iff d sets by auto
qed

lemma relocked_tslots: "relocked d n t t' \<Longrightarrow> tslots t' = tslots t"
proof (induction rule: relocked.induct)
  case (relock_here t t')
  then show ?case by (simp add: tslots_unfold [of t] tslots_unfold [of t'] relock_node_def)
next
  case (relock_kid t t' ck c M c')
  then show ?case by (simp add: tslots_unfold [of t] tslots_unfold [of t'] relock_node_def)
qed

lemma relocked_runs: "relocked d n t t' \<Longrightarrow> runs p t' \<longleftrightarrow> runs p t"
proof (induction rule: relocked.induct)
  case (relock_here t t')
  then show ?case by (simp add: runs_unfold [of p t] runs_unfold [of p t'] relock_node_def)
next
  case (relock_kid t t' ck c M c')
  then show ?case by (simp add: runs_unfold [of p t] runs_unfold [of p t'] relock_node_def)
qed

text \<open>The handles \<open>H\<close> and \<open>H'\<close> before and after a walk from \<open>n\<close>.\<close>

definition rehold :: "int \<Rightarrow> nat \<Rightarrow> nat multiset \<Rightarrow> nat multiset \<Rightarrow> bool" where
  "rehold d n H H' \<longleftrightarrow>
     (\<forall>S. int (size {#h \<in># H'. h \<in> S#}) = int (size {#h \<in># H. h \<in> S#}) + (if n \<in> S then d else 0))"

lemma rehold_inc: "rehold 1 n H (add_mset n H)"
  by (simp add: rehold_def)

lemma rehold_dec: "rehold (- 1) n (add_mset n H) H"
  by (simp add: rehold_def)

lemma rehold_held: "rehold d n H H' \<Longrightarrow> int (held H' t) = int (held H t) + (if n \<in> ids t then d else 0)"
  by (simp add: rehold_def held_def)

lemma lock_ok_elsewhere:
  assumes "rehold d n H H'"
  shows "n \<notin> ids t \<Longrightarrow> lock_ok H t \<Longrightarrow> lock_ok H' t"
proof (induction t rule: subs.induct)
  case (1 i cs)
  have "\<forall>e \<in> set cs. lock_ok H' (snd e)" using 1 by (auto simp: ids_unfold [of "Node i cs"])
  then show ?case using 1(2,3) rehold_held [OF assms, of "Node i cs"] by simp
qed

lemma relocked_lock_ok:
  assumes "relocked d n t t'" "rehold d n H H'" "uniq i (view t)" "lock_ok H t"
  shows "lock_ok H' t'"
  using assms(1,3,4)
proof (induction rule: relocked.induct)
  case (relock_here t t')
  have u: "n \<notin> fst ` set_mset (view_kids (mset (kids t)))"
    using relock_here(2,4) by (simp add: view_unfold [of t] nv_def uniq_add)
  have "lock_ok H' (snd e)" if e: "e \<in> set (kids t)" for e
  proof (rule lock_ok_elsewhere [OF assms(2)])
    show "n \<notin> ids (snd e)" using u view_kids_split [of e "mset (kids t)"] e by (auto simp: ids_def)
    show "lock_ok H (snd e)" using relock_here(5) e by (simp add: lock_ok_iff [of H t] locks_ok_def)
  qed
  moreover have "held H t' = held H t"
    using relock_here(1,3) by (intro held_cong) (simp add: ids_unfold [of t] ids_unfold [of t'] relock_node_def)
  moreover have "n \<in> ids t'" using relock_here(1,2) by (simp add: ids_unfold [of t'] relock_node_def)
  ultimately show ?case
    using relock_here rehold_held [OF assms(2), of t']
    by (simp add: lock_ok_iff [of H' t'] lock_ok_iff [of H t] locks_ok_def relock_node_def)
next
  case (relock_kid t t' ck c M c')
  have vt: "view t = add_mset (nv t) (view c + view_kids M)"
    using relock_kid(2) by (simp add: view_unfold [of t])
  then have u: "uniq i (view c + view_kids M)" using relock_kid(6) by (simp add: nv_def uniq_add)
  have H: "lock_ok H c" "\<And>e. e \<in># M \<Longrightarrow> lock_ok H (snd e)" "tlock t = int (held H t)"
    using relock_kid(2,7) by (simp_all add: lock_ok_iff [of H t] locks_ok_def)
  have "lock_ok H' c'" using relock_kid(5) uniq_sub [OF u] H(1) by blast
  moreover have "lock_ok H' (snd e)" if e: "e \<in># M" for e
  proof (rule lock_ok_elsewhere [OF assms(2) _ H(2) [OF e]])
    have "ids c \<inter> ids (snd e) = {}"
      using uniq_disjoint [OF u] view_kids_split [OF e] by (auto simp: ids_def)
    then show "n \<notin> ids (snd e)" using relocked_in_ids [OF relock_kid(4)] by blast
  qed
  moreover have rl: "relocked d n t t'" using relock_kid(1-4) by (rule relocked.relock_kid)
  have "held H t' = held H t" using relocked_ids [OF rl] by (intro held_cong) simp
  moreover have "n \<in> ids t'" using relocked_in_ids [OF rl] relocked_ids [OF rl] by simp
  ultimately show ?case
    using relock_kid(1,3) H(3) rehold_held [OF assms(2), of t']
    by (simp add: lock_ok_iff [of H' t'] locks_ok_def relock_node_def)
qed

section \<open>Walks to the root\<close>

definition valued :: "tree \<Rightarrow> bool" where
  "valued t \<longleftrightarrow> (\<forall>x \<in> subs t. \<not> evicted x)"

lemma valued_kids: "valued t \<Longrightarrow> e \<in> set (kids t) \<Longrightarrow> valued (snd e)"
  by (auto simp: valued_def subs_unfold [of t])

lemma walk_None:
  "walk f n t s = None \<longleftrightarrow> n \<notin> ids t"
  "walk_kids f n cs s = None \<longleftrightarrow> (\<forall>e \<in> set cs. n \<notin> ids (snd e))"
proof (induction f n t s and f n cs s rule: walk_walk_kids.induct)
  case (1 f n i cs s)
  then show ?case by (auto simp: ids_unfold [of "Node i cs"] split: option.splits)
next
  case (3 f n ck c cs s)
  then show ?case by (auto split: option.splits)
qed simp

locale lock_walk =
  fixes step :: "tree \<Rightarrow> lock_state \<Rightarrow> tree \<times> lock_state"
    and d :: int
    and lo :: int
  assumes step_tree: "fst (step t s) = Node ((info t)\<lparr>lock_ref := tlock t + d\<rparr>) (kids t)"
    and step_acct: "\<not> evicted t \<Longrightarrow> \<forall>e \<in> set (kids t). \<not> evicted (snd e) \<Longrightarrow> lo \<le> tlock t \<Longrightarrow>
      acct_ok (fst s) (add_mset (nv t) N) \<Longrightarrow> uniq i (add_mset (nv t) N) \<Longrightarrow>
      acct_ok (fst (snd (step t s))) (add_mset (nv (fst (step t s))) N)"
    and step_delta: "evictable_size (fst (snd (step t s))) - evictable_size (fst s) = snd (snd (step t s)) - snd s"
begin

lemma step_relock: "step t s = (t', s') \<Longrightarrow> relock_node d t t' \<and> kids t' = kids t"
  using step_tree [of t s] by (simp add: relock_node_def)

lemma walk_relocked:
  "walk f n t s = Some (t', s') \<Longrightarrow> f = step \<Longrightarrow> relocked d n t t'"
  "walk_kids f n cs s = Some (cs', s') \<Longrightarrow> f = step \<Longrightarrow>
     \<exists>ck c c' M. mset cs = add_mset (ck, c) M \<and> mset cs' = add_mset (ck, c') M \<and> relocked d n c c'"
proof (induction f n t s and f n cs s arbitrary: t' s' and cs' s' rule: walk_walk_kids.induct)
  case (1 f n i cs s)
  show ?case
  proof (cases "node_id i = n")
    case True
    then show ?thesis using 1(2,3) step_relock [of "Node i cs" s t' s'] by (intro relock_here) auto
  next
    case False
    then obtain cs' s1 where k: "walk_kids f n cs s = Some (cs', s1)" "step (Node i cs') s1 = (t', s')"
      using 1(2,3) by (auto split: option.splits)
    from 1(1) [OF False k(1) 1(3)] obtain ck c c' M where
      "mset cs = add_mset (ck, c) M" "mset cs' = add_mset (ck, c') M" "relocked d n c c'" by blast
    note kid = this
    show ?thesis
      using step_relock [OF k(2)] kid(1,2)
      by (intro relock_kid [OF _ _ _ kid(3), of _ _ ck M]) (auto simp: relock_node_def)
  qed
next
  case (3 f n ck c cs s)
  show ?case
  proof (cases "walk f n c s")
    case None
    then obtain cs1 where k: "walk_kids f n cs s = Some (cs1, s')" "cs' = (ck, c) # cs1"
      using 3(3) by (auto split: option.splits)
    from 3(2) [OF None k(1) 3(4)] obtain ck1 c1 c2 M where
      "mset cs = add_mset (ck1, c1) M" "mset cs1 = add_mset (ck1, c2) M" "relocked d n c1 c2" by blast
    then show ?thesis
      by (intro exI [of _ ck1] exI [of _ c1] exI [of _ c2] exI [of _ "add_mset (ck, c) M"])
        (simp add: k(2) add_mset_commute)
  next
    case (Some r)
    then obtain c' where k: "r = (c', s')" "cs' = (ck, c') # cs" using 3(3) by (auto split: prod.splits)
    then show ?thesis
      using 3(1) [of c' s'] Some 3(4)
      by (intro exI [of _ ck] exI [of _ c] exI [of _ c'] exI [of _ "mset cs"]) simp
  qed
qed simp

lemma walk_delta:
  "walk f n t s = Some (t', s') \<Longrightarrow> f = step \<Longrightarrow>
     evictable_size (fst s') - evictable_size (fst s) = snd s' - snd s"
  "walk_kids f n cs s = Some (cs', s') \<Longrightarrow> f = step \<Longrightarrow>
     evictable_size (fst s') - evictable_size (fst s) = snd s' - snd s"
proof (induction f n t s and f n cs s arbitrary: t' s' and cs' s' rule: walk_walk_kids.induct)
  case (1 f n i cs s)
  show ?case
  proof (cases "node_id i = n")
    case True
    then show ?thesis using 1(2,3) step_delta [of "Node i cs" s] by auto
  next
    case False
    then obtain cs' s1 where k: "walk_kids f n cs s = Some (cs', s1)" "step (Node i cs') s1 = (t', s')"
      using 1(2,3) by (auto split: option.splits)
    then show ?thesis using 1(1) [OF False k(1) 1(3)] step_delta [of "Node i cs'" s1] by simp
  qed
next
  case (3 f n ck c cs s)
  then show ?case by (auto split: option.splits)
qed simp

lemma walk_acct:
  "walk f n t s = Some (t', s') \<Longrightarrow> f = step \<Longrightarrow> valued t \<Longrightarrow>
     \<forall>x \<in> subs t. n \<in> ids x \<longrightarrow> lo \<le> tlock x \<Longrightarrow>
     acct_ok (fst s) (view t + C) \<Longrightarrow> uniq i (view t + C) \<Longrightarrow> acct_ok (fst s') (view t' + C)"
  "walk_kids f n cs s = Some (cs', s') \<Longrightarrow> f = step \<Longrightarrow> \<forall>e \<in> set cs. valued (snd e) \<Longrightarrow>
     \<forall>e \<in> set cs. \<forall>x \<in> subs (snd e). n \<in> ids x \<longrightarrow> lo \<le> tlock x \<Longrightarrow>
     acct_ok (fst s) (view_kids (mset cs) + C) \<Longrightarrow> uniq i (view_kids (mset cs) + C) \<Longrightarrow>
     acct_ok (fst s') (view_kids (mset cs') + C)"
proof (induction f n t s and f n cs s arbitrary: t' s' C and cs' s' C rule: walk_walk_kids.induct)
  case (1 f n inf cs s)
  let ?t = "Node inf cs"
  have vt: "view ?t + C = add_mset (nv ?t) (view_kids (mset cs) + C)" by (subst view_unfold) simp
  have val: "\<not> evicted ?t" "\<forall>e \<in> set cs. valued (snd e)" "\<forall>e \<in> set cs. \<not> evicted (snd e)"
    using 1(4) valued_kids [OF 1(4)] by (auto simp: valued_def)
  show ?case
  proof (cases "node_id inf = n")
    case True
    then have st: "step ?t s = (t', s')" using 1(2,3) by simp
    have "lo \<le> tlock ?t" using 1(5) [rule_format, of ?t] True by (simp add: ids_unfold [of ?t])
    with step_acct [of ?t s "view_kids (mset cs) + C" i] val(1,3) 1(6,7)
    have "acct_ok (fst s') (add_mset (nv t') (view_kids (mset cs) + C))" by (simp add: vt st)
    then show ?thesis using step_relock [OF st] by (simp add: view_unfold [of t'])
  next
    case False
    then obtain cs1 s1 where k: "walk_kids f n cs s = Some (cs1, s1)" "step (Node inf cs1) s1 = (t', s')"
      using 1(2,3) by (auto split: option.splits)
    let ?m = "Node inf cs1"
    from walk_relocked(2) [OF k(1) 1(3)] obtain ck c c' M where r: "mset cs = add_mset (ck, c) M"
      "mset cs1 = add_mset (ck, c') M" "relocked d n c c'" by blast
    have nv: "nv ?m = nv ?t" using r(1,2) by (auto simp: nv_def)
    have vm: "view ?m + C = add_mset (nv ?t) (view_kids (mset cs1) + C)" by (subst view_unfold) (simp add: nv)
    have "acct_ok (fst s1) (view_kids (mset cs1) + add_mset (nv ?t) C)"
      by (rule 1(1) [OF False k(1) 1(3) val(2)]) (use 1(5-7) vt in \<open>auto simp: subs_unfold [of ?t]\<close>)
    then have a: "acct_ok (fst s1) (add_mset (nv ?m) (view_kids (mset cs1) + C))" by (simp add: nv)
    have "image_mset fst (view_kids (mset cs1)) = image_mset fst (view_kids (mset cs))"
      using relocked_view_ids [OF r(3)] by (simp add: r(1,2))
    then have "uniq i (add_mset (nv ?m) (view_kids (mset cs1) + C))"
      using uniq_grow [OF 1(7), of "view ?m + C" i] by (simp add: vm vt nv)
    moreover have "n \<in> ids ?t"
      using relocked_in_ids [OF r(3)] r(1)
      by (subst ids_unfold) (metis UN_iff insertCI set_mset_mset snd_conv tree.sel(2) union_single_eq_member)
    then have "lo \<le> tlock ?m" using 1(5) [rule_format, of ?t] by simp
    moreover have "\<not> evicted (snd e)" if "e \<in> set cs1" for e
    proof -
      have "e = (ck, c') \<or> e \<in># M" using r(2) that by (metis insert_iff set_mset_add_mset_insert set_mset_mset)
      moreover have "evicted c' \<longleftrightarrow> evicted c"
        using relocked_node [OF r(3)] by (simp add: relock_node_def evicted_def)
      ultimately show ?thesis
        using val(3) r(1) by (metis insert_iff set_mset_add_mset_insert set_mset_mset snd_conv)
    qed
    ultimately have "acct_ok (fst s') (add_mset (nv t') (view_kids (mset cs1) + C))"
      using step_acct [of ?m s1 "view_kids (mset cs1) + C" i] a val(1) k(2) by (simp add: evicted_def)
    then show ?thesis using step_relock [OF k(2)] by (simp add: view_unfold [of t'])
  qed
next
  case (3 f n ck c cs s)
  show ?case
  proof (cases "walk f n c s")
    case None
    then obtain cs1 where k: "walk_kids f n cs s = Some (cs1, s')" "cs' = (ck, c) # cs1"
      using 3(3) by (auto split: option.splits)
    have "acct_ok (fst s') (view_kids (mset cs1) + (view c + C))"
      by (rule 3(2) [OF None k(1) 3(4)]) (use 3(5-8) in \<open>simp_all add: ac_simps\<close>)
    then show ?thesis by (simp add: k(2) ac_simps)
  next
    case (Some r)
    then obtain c' where k: "walk f n c s = Some (c', s')" "cs' = (ck, c') # cs" using 3(3) by (auto split: prod.splits)
    have "acct_ok (fst s') (view c' + (view_kids (mset cs) + C))"
      by (rule 3(1) [OF k(1) 3(4)]) (use 3(5-8) in \<open>simp_all add: ac_simps\<close>)
    then show ?thesis by (simp add: k(2) ac_simps)
  qed
qed simp

end

section \<open>The two walks of the code\<close>

lemma update_leaf_status_view:
  assumes "\<not> evicted t" "\<forall>e \<in> set (kids t). \<not> evicted (snd e)" "0 \<le> tlock t"
    and "tid t \<notin> lv N" "evictable_leaves a - {tid t} = lv N"
  shows "evictable_leaves (update_leaf_status t a) = lv (add_mset (nv t) N)"
proof -
  have "(\<exists>(_, child) \<in> set (kids t). \<not> evicted child) \<longleftrightarrow> kids t \<noteq> []"
    using assms(2) by (cases "kids t") auto
  then show ?thesis
    using assms(1,3-5) by (auto simp: update_leaf_status_def nv_def split: if_splits)
qed

lemma update_leaf_status_sizes [simp]:
  "evictable_size (update_leaf_status t a) = evictable_size a"
  "protected_size (update_leaf_status t a) = protected_size a"
  by (simp_all add: update_leaf_status_def)

lemma step_view:
  assumes "\<not> evicted t" "\<forall>e \<in> set (kids t). \<not> evicted (snd e)" "uniq i (add_mset (nv t) N)"
    and "acct_ok a (add_mset (nv t) N)" "0 \<le> l"
    and "t' = Node ((info t)\<lparr>lock_ref := l\<rparr>) (kids t)" "evictable_leaves b = evictable_leaves a"
    and "evictable_size b = ev (add_mset (nv t') N)" "protected_size b = pr (add_mset (nv t') N)"
  shows "acct_ok (update_leaf_status t' b) (add_mset (nv t') N)"
proof -
  have "tid t \<notin> lv N" using assms(3) lv_subset [of N] by (auto simp: nv_def uniq_add)
  moreover have "evictable_leaves b - {tid t} = lv N"
    using assms(4,7) \<open>tid t \<notin> lv N\<close> by (auto simp: acct_ok_def nv_def split: if_splits)
  ultimately have "evictable_leaves (update_leaf_status t' b) = lv (add_mset (nv t') N)"
    using assms(1,2,5,6) by (intro update_leaf_status_view) (auto simp: evicted_def)
  moreover have "nonneg (add_mset (nv t') N)"
    using assms(4-6) by (simp add: acct_ok_def nv_def)
  ultimately show ?thesis using assms(8,9) by (simp add: acct_ok_def)
qed

interpretation inc_walk: lock_walk inc_step 1 0
proof (unfold_locales, goal_cases)
  case (1 t s)
  then show ?case by (simp add: inc_step_def Let_def split: prod.splits)
next
  case (2 t s N i)
  obtain a x where s: "s = (a, x)" by (cases s)
  let ?n = "int (rk_len (tkey t))"
  define t' where "t' = Node ((info t)\<lparr>lock_ref := tlock t + 1\<rparr>) (kids t)"
  define b where "b = (if tlock t = 0
    then a\<lparr>evictable_size := evictable_size a - ?n, protected_size := protected_size a + ?n\<rparr> else a)"
  have st: "fst (step t s) = t' \<and> fst (snd (step t s)) = update_leaf_status t' b" if "step = inc_step" for step
    unfolding that by (simp add: inc_step_def s Let_def t'_def b_def)
  have "acct_ok (update_leaf_status t' b) (add_mset (nv t') N)"
    by (rule step_view [OF 2(1,2) 2(5) 2(4) [unfolded s fst_conv], where l = "tlock t + 1"])
      (use 2(3,4) in \<open>auto simp: t'_def b_def s acct_ok_def nv_def\<close>)
  then show ?case using st by simp
next
  case (3 t s)
  then show ?case by (simp add: inc_step_def Let_def split: prod.splits)
qed

interpretation dec_walk: lock_walk dec_step "- 1" 1
proof (unfold_locales, goal_cases)
  case (1 t s)
  then show ?case by (simp add: dec_step_def Let_def split: prod.splits)
next
  case (2 t s N i)
  obtain a x where s: "s = (a, x)" by (cases s)
  let ?n = "int (rk_len (tkey t))"
  define t' where "t' = Node ((info t)\<lparr>lock_ref := tlock t - 1\<rparr>) (kids t)"
  define b where "b = (if tlock t = 1
    then a\<lparr>evictable_size := evictable_size a + ?n, protected_size := protected_size a - ?n\<rparr> else a)"
  have st: "fst (step t s) = t' \<and> fst (snd (step t s)) = update_leaf_status t' b" if "step = dec_step" for step
    unfolding that by (simp add: dec_step_def s Let_def t'_def b_def)
  have "acct_ok (update_leaf_status t' b) (add_mset (nv t') N)"
    by (rule step_view [OF 2(1,2) 2(5) 2(4) [unfolded s fst_conv], where l = "tlock t - 1"])
      (use 2(3,4) in \<open>auto simp: t'_def b_def s acct_ok_def nv_def\<close>)
  then show ?case using st by simp
next
  case (3 t s)
  then show ?case by (simp add: dec_step_def Let_def split: prod.splits)
qed

end
