(* ===== verification/RadixInv.thy ===== *)
theory RadixInv
  imports RadixLocks
begin

text \<open>
  The invariant of \<open>RadixCache\<close> and the contracts of its operations. \<open>cache_ok H c\<close>
  holds when the tree is well formed, the counters and the set of evictable leaves
  agree with the lock counts, node ids are unique, and every lock count is the
  number of handles of \<open>H\<close> at or below its node.
\<close>

section \<open>The invariant\<close>

definition root_ok :: "tree \<Rightarrow> bool" where
  "root_ok t \<longleftrightarrow> tlock t = 1 \<and> rk_len (tkey t) = 0 \<and> tval t = Some []"

definition cache_ok :: "nat multiset \<Rightarrow> radix_cache \<Rightarrow> bool" where
  "cache_ok H c \<longleftrightarrow>
     0 < page_size c \<and> root_ok (root_node c) \<and>
     wf_tree (page_size c) (is_eagle c) None (root_node c) \<and>
     acct_ok (acct c) (view (root_node c)) \<and> uniq (next_id c) (view (root_node c)) \<and>
     locks_ok H (root_node c) \<and> (\<forall>h \<in># H. h \<in> ids (root_node c))"

text \<open>The key as the operations see it, and the keys a cache accepts: a key that is
  already a bigram view belongs to an EAGLE cache.\<close>

definition eff_key :: "radix_cache \<Rightarrow> radix_key \<Rightarrow> radix_key" where
  "eff_key c key = page_aligned (fst (maybe_to_bigram_view key (is_eagle c) (None :: nat list option))) (page_size c)"

definition key_fits :: "radix_cache \<Rightarrow> radix_key \<Rightarrow> bool" where
  "key_fits c key \<longleftrightarrow> salt_ok key \<and> (is_bigram key \<longrightarrow> is_eagle c)"

abbreviation content :: "radix_cache \<Rightarrow> rk_namespace \<Rightarrow> (rk_unit \<times> nat) list \<Rightarrow> bool" where
  "content c \<equiv> cached (page_size c) (root_node c)"

lemma same_node_root: "same_node t t' \<Longrightarrow> root_ok t' = root_ok t"
  by (simp add: same_node_def root_ok_def)

lemma eff_key_sel [simp]:
  assumes "key_fits c key" "0 < page_size c"
  shows "key_ok (page_size c) (is_eagle c) (eff_key c key)" "rk_ns (eff_key c key) = rk_ns key"
  using assms by (auto simp: key_ok_def key_fits_def eff_key_def)

lemma view_Node_cong: "nv t' = nv t \<Longrightarrow> mset (kids t') = mset (kids t) \<Longrightarrow> view t' = view t"
  by (simp add: view_unfold [of t] view_unfold [of t'])

lemma cache_ok_same_kids:
  assumes "cache_ok H c" "kids t = kids (root_node c)" "same_node (root_node c) t"
  shows "cache_ok H (c\<lparr>root_node := t\<rparr>)"
proof -
  have v: "view t = view (root_node c)"
    using assms(2,3) by (intro view_Node_cong) (simp_all add: nv_def same_node_def)
  show ?thesis
    using assms v same_node_root [OF assms(3)] wf_kids_cong [OF assms(2)]
    by (simp add: cache_ok_def locks_ok_def ids_def)
qed

lemma splits_cache_ok:
  assumes "cache_ok H c" "splits (page_size c) (next_id c) (root_node c) i' t'"
    and "wf_tree (page_size c) (is_eagle c) None t'"
  shows "cache_ok H (c\<lparr>root_node := t', next_id := i'\<rparr>)"
proof -
  let ?t = "root_node c"
  have u: "uniq (next_id c) (view ?t)" and H: "\<forall>h \<in># H. h \<in> ids ?t" using assms(1) by (simp_all add: cache_ok_def)
  have lt: "\<forall>h \<in># H. h < next_id c" using H uniq_less [OF u] by (auto simp: ids_def)
  note sv = splits_view [OF assms(2)]
  have "acct_ok (acct c) (view t')" using assms(1) sv(1) by (simp add: cache_ok_def acct_ok_def same_sums_def)
  moreover have "uniq i' (view t')" using u sv(2) splits_le [OF assms(2)] by (rule uniq_grow)
  moreover have "locks_ok H t'"
    using splits_locks_ok [OF assms(2) lt] assms(1) by (simp add: cache_ok_def)
  moreover have "\<forall>h \<in># H. h \<in> ids t'" using H splits_ids [OF assms(2)] by auto
  ultimately show ?thesis
    using assms(1,3) same_node_root [OF splits_same_node [OF assms(2)]] by (simp add: cache_ok_def)
qed

section \<open>Matching\<close>

theorem rc_match_prefix_correct:
  assumes ok: "cache_ok H c" and en: "\<not> disable c" and key: "key_fits c key"
  shows "\<exists>c' r ps. rc_match_prefix clk now key c = Inr (c', r) \<and> cache_ok H c' \<and>
    best_match (page_size c) (root_node c) (rk_ns key) (rk_iter (eff_key c key)) ps \<and>
    device_indices r = map snd ps \<and> reach (root_node c') (last_device_node r) (rk_ns key) ps \<and>
    splits (page_size c) (next_id c) (root_node c) (next_id c') (root_node c') \<and>
    c' = c\<lparr>root_node := root_node c', next_id := next_id c'\<rparr> \<and>
    (\<forall>ns qs. content c' ns qs \<longleftrightarrow> content c ns qs)"
proof (cases "rk_len (eff_key c key) = 0")
  case True
  let ?t = "root_node c"
  have "rc_match_prefix clk now key c = Inr (c, empty_match_result c)"
    using True by (auto simp: rc_match_prefix_def eff_key_def Let_def)
  moreover have "best_match (page_size c) ?t (rk_ns key) (rk_iter (eff_key c key)) []"
    using True by (rule best_match_empty_key)
  moreover have "splits (page_size c) (next_id c) ?t (next_id c) ?t" by (rule splits_info) simp_all
  ultimately show ?thesis
    using ok by (intro exI [of _ c] exI [of _ "empty_match_result c"] exI [of _ "[]"])
      (simp add: empty_match_result_def reach_iff [of ?t])
next
  case False
  let ?p = "page_size c" and ?t = "touch now (root_node c)" and ?k = "eff_key c key"
  have p: "0 < ?p" using ok by (simp add: cache_ok_def)
  have ne: "rk_len (fst (maybe_to_bigram_view key (is_eagle c) (None :: nat list option))) \<noteq> 0"
    using False p by (intro notI) (simp add: eff_key_def page_floor_def)
  have wf: "wf_tree ?p (is_eagle c) None ?t" using ok by (simp add: cache_ok_def)
  note ko = eff_key_sel(1) [OF key p]
  obtain ck where ck: "rk_child_key ?k ?p = Inr ck"
    using rk_child_key_ok [OF p] page_le_len [OF ko] False by blast
  obtain t' i' vs l ps where ml: "match_loop ?p clk now (next_id c) ?t ?k ck = Inr (t', i', vs, l)"
    "best_match ?p ?t (rk_ns ?k) (rk_iter ?k) ps" "concat vs = map snd ps" "wf_tree ?p (is_eagle c) None t'"
    "\<forall>ns qs. cached ?p t' ns qs \<longleftrightarrow> cached ?p ?t ns qs"
    using match_loop_correct [OF p wf ko] ck by blast
  obtain ps' where sp: "splits ?p (next_id c) ?t i' t'" and r: "reach t' l (rk_ns ?k) ps'"
    "map snd ps' = concat vs" "map fst ps' = take (length ps') (rk_iter ?k)"
    using match_loop_splits [OF p wf ko _ ml(1)] ck by blast
  have "length ps' = length ps" using r(2) ml(3) by (metis length_map)
  moreover have "map fst ps = take (length ps) (rk_iter ?k)" using ml(2) by (simp add: best_match_def)
  ultimately have "ps' = ps" using r(2,3) ml(3) by (metis zip_map_fst_snd)
  have sp0: "splits ?p (next_id c) (root_node c) i' t'" using splits_touch sp by (rule splits_trans)
  have call: "rc_match_prefix clk now key c =
      Inr (c\<lparr>root_node := t', next_id := i'\<rparr>, \<lparr>device_indices = concat vs, last_device_node = l\<rparr>)"
    using en ne False ck ml(1)
    by (simp add: rc_match_prefix_def eff_key_def [symmetric] match_prefix_helper_def Let_def)
  show ?thesis
    by (rule exI [of _ "c\<lparr>root_node := t', next_id := i'\<rparr>"],
        rule exI [of _ "\<lparr>device_indices = concat vs, last_device_node = l\<rparr>"], rule exI [of _ ps])
      (use call splits_cache_ok [OF ok sp0 ml(4)] ml r sp0 \<open>ps' = ps\<close> eff_key_sel(2) [OF key p] in
        \<open>simp add: best_match_def\<close>)
qed

section \<open>Inserting\<close>

text \<open>The value that goes with the key: given values are cut to the length of the key.\<close>

definition eff_value :: "radix_cache \<Rightarrow> radix_key \<Rightarrow> nat list option \<Rightarrow> nat list" where
  "eff_value c key v =
     (case v of Some v \<Rightarrow> take (rk_len (eff_key c key)) v | None \<Rightarrow> default_value (eff_key c key))"

definition value_fits :: "radix_cache \<Rightarrow> radix_key \<Rightarrow> nat list option \<Rightarrow> bool" where
  "value_fits c key v \<longleftrightarrow> (case v of None \<Rightarrow> True | Some v \<Rightarrow> rk_len (eff_key c key) \<le> length v)"

lemma bigram_view_key: "fst (maybe_to_bigram_view k e v) = fst (maybe_to_bigram_view k e w)"
  by (simp add: maybe_to_bigram_view_def Let_def)

lemma bigram_view_value:
  "n \<le> rk_len (fst (maybe_to_bigram_view k e v)) \<Longrightarrow>
     map_option (take n) (snd (maybe_to_bigram_view k e v)) = map_option (take n) v"
  by (cases v) (auto simp: maybe_to_bigram_view_def Let_def min_def)

lemma length_eff_value: "value_fits c key v \<Longrightarrow> length (eff_value c key v) = rk_len (eff_key c key)"
  using rk_len_le_tokens [of "eff_key c key"]
  by (auto simp: value_fits_def eff_value_def default_value_def split: option.splits)

lemma rc_insert_eff:
  assumes "0 < page_size c" "\<not> disable c"
  shows "rc_insert clk now key v prio chunked c =
     map_res (\<lambda>(t, i, a, total_len, l).
         (c\<lparr>root_node := t, next_id := i, acct := a\<rparr>, \<lparr>prefix_len = total_len, ins_last_node = Some l\<rparr>))
       (insert_helper (page_size c) clk now (next_id c) (root_node c) (eff_key c key) (eff_value c key v) prio chunked (acct c))"
proof -
  obtain k1 v1 where kv: "maybe_to_bigram_view key (is_eagle c) v = (k1, v1)" by (rule prod.exhaust)
  have k: "page_aligned k1 (page_size c) = eff_key c key"
    using bigram_view_key [of key "is_eagle c" v "None :: nat list option"] kv by (simp add: eff_key_def)
  have "rk_len (eff_key c key) \<le> rk_len k1" using assms(1) by (simp add: k [symmetric])
  then have "map_option (take (rk_len (eff_key c key))) v1 = map_option (take (rk_len (eff_key c key))) v"
    using bigram_view_value [of "rk_len (eff_key c key)" key "is_eagle c" v] kv by simp
  then have v: "(case v1 of None \<Rightarrow> default_value (eff_key c key) | Some v \<Rightarrow> take (rk_len (eff_key c key)) v) = eff_value c key v"
    by (cases v; cases v1) (simp_all add: eff_value_def)
  show ?thesis
    unfolding rc_insert_def kv Let_def split_conv k v using assms(2)
    by (cases "insert_helper (page_size c) clk now (next_id c) (root_node c) (eff_key c key) (eff_value c key v) prio chunked (acct c)")
      (auto split: prod.splits)
qed

lemma inserted_cache_ok:
  assumes ok: "cache_ok H c" and ins: "inserted (page_size c) (next_id c) (root_node c) v (acct c) i' t' a' total_len"
    and wf: "wf_tree (page_size c) (is_eagle c) None t'"
  shows "cache_ok H (c\<lparr>root_node := t', next_id := i', acct := a'\<rparr>)"
  using ins unfolding inserted_def
proof (elim disjE exE conjE, goal_cases)
  case 1
  then show ?case using splits_cache_ok [OF ok 1(1) wf] by simp
next
  case (2 i1 t1 par leaf)
  have c1: "cache_ok H (c\<lparr>root_node := t1, next_id := i1\<rparr>)"
    using splits_cache_ok [OF ok 2(1)] leaf_diff_wf [OF 2(2) wf] by blast
  have H: "tid leaf \<notin># H"
    using c1 uniq_less [of i1 "view t1" "tid leaf"] 2(3) by (auto simp: cache_ok_def ids_def)
  have "acct_ok a' (view t')" "uniq i' (view t')"
    using acct_add_leaf [of "acct c" t1 i1 par leaf t'] c1 2 by (simp_all add: cache_ok_def leaf_acct_def)
  moreover have "locks_ok H t'" using leaf_diff_locks(2) [OF 2(2) H] c1 2(4) by (simp add: cache_ok_def)
  moreover have "\<forall>h \<in># H. h \<in> ids t'" using c1 leaf_diff_ids [OF 2(2)] by (simp add: cache_ok_def)
  ultimately show ?case
    using c1 wf same_node_root [OF leaf_diff_same_node [OF 2(2)]] by (simp add: cache_ok_def)
qed

theorem rc_insert_correct:
  assumes ok: "cache_ok H c" and en: "\<not> disable c" and key: "key_fits c key" and v: "value_fits c key v"
  shows "\<exists>c' r ps l. rc_insert clk now key v prio chunked c = Inr (c', r) \<and> cache_ok H c' \<and>
    best_match (page_size c) (root_node c) (rk_ns key) (rk_iter (eff_key c key)) ps \<and>
    prefix_len r = length ps \<and> ins_last_node r = Some l \<and>
    (\<exists>qs. reach (root_node c') l (rk_ns key) qs \<and> map fst qs = rk_iter (eff_key c key)) \<and>
    inserted (page_size c) (next_id c) (root_node c) (eff_value c key v) (acct c)
      (next_id c') (root_node c') (acct c') (length ps) \<and>
    c' = c\<lparr>root_node := root_node c', next_id := next_id c', acct := acct c'\<rparr> \<and>
    (\<forall>ns qs. content c' ns qs \<longleftrightarrow>
       content c ns qs \<or> added (page_size c) (eff_key c key) (eff_value c key v) ps ns qs)"
proof -
  let ?p = "page_size c" and ?k = "eff_key c key" and ?v = "eff_value c key v"
  have p: "0 < ?p" using ok by (simp add: cache_ok_def)
  define pr where "pr = (case prio of None \<Rightarrow> 0 | Some x \<Rightarrow> x)"
  define t1 where "t1 = Node ((info (root_node c))\<lparr>last_access_time := now,
    priority := max (priority (info (root_node c))) pr\<rparr>) (kids (root_node c))"
  have t1: "kids t1 = kids (root_node c)" "same_node (root_node c) t1" by (simp_all add: t1_def same_node_def)
  note ok1 = cache_ok_same_kids [OF ok t1]
  have wf: "wf_tree ?p (is_eagle c) None t1" using ok1 by (simp add: cache_ok_def)
  note ko = eff_key_sel(1) [OF key p] and ns = eff_key_sel(2) [OF key p] and len = length_eff_value [OF v]
  have con: "cached ?p t1 = cached ?p (root_node c)" using t1(1) by (rule cached_kids_cong)
  have "\<exists>t' i' a' total_len l ps. insert_helper ?p clk now (next_id c) (root_node c) ?k ?v prio chunked (acct c) =
      Inr (t', i', a', total_len, l) \<and> best_match ?p t1 (rk_ns ?k) (rk_iter ?k) ps \<and> total_len = length ps \<and>
    wf_tree ?p (is_eagle c) None t' \<and>
    (\<forall>ns qs. cached ?p t' ns qs \<longleftrightarrow> cached ?p t1 ns qs \<or> added ?p ?k ?v ps ns qs) \<and>
    inserted ?p (next_id c) t1 ?v (acct c) i' t' a' total_len \<and>
    (\<exists>qs. reach t' l (rk_ns ?k) qs \<and> map fst qs = rk_iter ?k)"
  proof (cases "rk_len ?k = 0")
    case True
    then have "rk_iter ?k = []" by (metis length_0_conv length_rk_iter)
    moreover have "insert_helper ?p clk now (next_id c) (root_node c) ?k ?v prio chunked (acct c) =
      Inr (t1, next_id c, acct c, 0, tid t1)"
      using True by (simp add: insert_helper_def t1_def pr_def Let_def)
    moreover have "best_match ?p t1 (rk_ns ?k) (rk_iter ?k) []" using True by (rule best_match_empty_key)
    moreover have "inserted ?p (next_id c) t1 ?v (acct c) (next_id c) t1 (acct c) 0"
      using True len by (simp add: inserted_def splits_info)
    ultimately show ?thesis
      using wf True added_Nil_key [OF True, of ?p ?v]
      by (intro exI [of _ t1] exI [of _ "next_id c"] exI [of _ "acct c"] exI [of _ 0] exI [of _ "tid t1"] exI [of _ "[]"])
        (auto simp: reach_iff [of t1])
  next
    case False
    obtain ck where ck: "rk_child_key ?k ?p = Inr ck"
      using rk_child_key_ok [OF p] page_le_len [OF ko] False by blast
    then have ck': "0 < rk_len ?k \<longrightarrow> rk_child_key ?k ?p = Inr ck" by simp
    have fuel: "rk_len ?k < rk_len ?k + 1" by simp
    have call: "insert_helper ?p clk now (next_id c) (root_node c) ?k ?v prio chunked (acct c) =
      insert_loop (rk_len ?k + 1) ?p clk now (next_id c) t1 ?k ?v ck pr chunked (acct c)"
      using False ck by (simp add: insert_helper_def t1_def pr_def Let_def)
    obtain t' i' a' total_len l ps where il:
      "insert_loop (rk_len ?k + 1) ?p clk now (next_id c) t1 ?k ?v ck pr chunked (acct c) = Inr (t', i', a', total_len, l)"
      "best_match ?p t1 (rk_ns ?k) (rk_iter ?k) ps" "total_len = length ps" "wf_tree ?p (is_eagle c) None t'"
      "\<forall>ns qs. cached ?p t' ns qs \<longleftrightarrow> cached ?p t1 ns qs \<or> added ?p ?k ?v ps ns qs"
      using insert_loop_correct [OF p wf ko ck' len disjI1 [OF refl] fuel] by blast
    from insert_loop_steps [OF p wf ko ck' len disjI1 [OF refl] il(1)] il show ?thesis
      unfolding call by blast
  qed
  then obtain t' i' a' l ps where r:
    "insert_helper ?p clk now (next_id c) (root_node c) ?k ?v prio chunked (acct c) = Inr (t', i', a', length ps, l)"
    "best_match ?p t1 (rk_ns ?k) (rk_iter ?k) ps" "wf_tree ?p (is_eagle c) None t'"
    "\<forall>ns qs. cached ?p t' ns qs \<longleftrightarrow> cached ?p t1 ns qs \<or> added ?p ?k ?v ps ns qs"
    "inserted ?p (next_id c) t1 ?v (acct c) i' t' a' (length ps)"
    "\<exists>qs. reach t' l (rk_ns ?k) qs \<and> map fst qs = rk_iter ?k"
    by blast
  have sp: "splits ?p (next_id c) (root_node c) (next_id c) t1" using t1 by (intro splits_info)
  have ins: "inserted ?p (next_id c) (root_node c) ?v (acct c) i' t' a' (length ps)"
    using r(5) splits_trans [OF sp] unfolding inserted_def by blast
  define c' where "c' = c\<lparr>root_node := t', next_id := i', acct := a'\<rparr>"
  have "rc_insert clk now key v prio chunked c = Inr (c', \<lparr>prefix_len = length ps, ins_last_node = Some l\<rparr>)"
    unfolding rc_insert_eff [OF p en] r(1) by (simp add: c'_def)
  moreover have "cache_ok H c'" unfolding c'_def using ok ins r(3) by (rule inserted_cache_ok)
  moreover have "best_match ?p (root_node c) (rk_ns key) (rk_iter ?k) ps"
    using r(2) by (simp add: best_match_def con ns)
  moreover have "\<forall>ns qs. content c' ns qs \<longleftrightarrow> content c ns qs \<or> added ?p ?k ?v ps ns qs"
    using r(4) by (simp add: c'_def con)
  ultimately show ?thesis
    using ins r(6) by (intro exI [of _ c'] exI [of _ "\<lparr>prefix_len = length ps, ins_last_node = Some l\<rparr>"]
        exI [of _ ps] exI [of _ l]) (simp add: c'_def ns)
qed

section \<open>Locking\<close>

definition tot :: "node_view multiset \<Rightarrow> int" where
  "tot M = (\<Sum>(n, l, k, h)\<in>#M. int k)"

lemma tot_simps [simp]: "tot {#} = 0" "tot (add_mset (n, l, k, h) M) = int k + tot M" "tot (M + N) = tot M + tot N"
  by (simp_all add: tot_def)

lemma ev_plus_pr: "nonneg M \<Longrightarrow> ev M + pr M = tot M"
proof (induction M)
  case (add x M)
  then show ?case by (cases x) auto
qed simp

lemma relocked_tot: "relocked d n t t' \<Longrightarrow> tot (view t') = tot (view t)"
proof (induction rule: relocked.induct)
  case (relock_here t t')
  then show ?case by (simp add: view_unfold [of t] view_unfold [of t'] nv_def relock_node_def)
next
  case (relock_kid t t' ck c M c')
  then show ?case by (simp add: view_unfold [of t] view_unfold [of t'] nv_def relock_node_def)
qed

text \<open>What a lock operation leaves alone.\<close>

definition same_content :: "radix_cache \<Rightarrow> radix_cache \<Rightarrow> bool" where
  "same_content c c' \<longleftrightarrow>
     page_size c' = page_size c \<and> is_eagle c' = is_eagle c \<and> disable c' = disable c \<and>
     disable_finished_insert c' = disable_finished_insert c \<and> eviction_strategy c' = eviction_strategy c \<and>
     next_id c' = next_id c \<and> tid (root_node c') = tid (root_node c) \<and>
     ids (root_node c') = ids (root_node c) \<and>
     tslots (root_node c') = tslots (root_node c) \<and> (\<forall>p. runs p (root_node c') = runs p (root_node c)) \<and>
     (\<forall>n ns qs. reach (root_node c') n ns qs \<longleftrightarrow> reach (root_node c) n ns qs) \<and>
     (\<forall>ns qs. content c' ns qs \<longleftrightarrow> content c ns qs) \<and>
     evictable_size (acct c') + protected_size (acct c') = evictable_size (acct c) + protected_size (acct c)"

lemma same_content_refl [simp]: "same_content c c"
  by (simp add: same_content_def)

lemma wf_valued: "wf_tree p bg ro t \<Longrightarrow> tval t \<noteq> None \<Longrightarrow> valued t"
proof (induction t arbitrary: ro rule: subs.induct)
  case (1 i cs)
  have "valued (snd e)" if e: "e \<in> set cs" for e
  proof (rule 1(1) [OF e])
    show "wf_tree p bg (Some (rk_ns (tkey (snd e)))) (snd e)" using 1(2) e by auto
    show "tval (snd e) \<noteq> None" using 1(2) e by (auto simp: entry_ok_def split: option.splits)
  qed
  then show ?case using 1(3) by (auto simp: valued_def evicted_def subs_unfold [of "Node i cs"])
qed

lemma relocked_cached: "relocked d n t t' \<Longrightarrow> cached p t' ns qs \<longleftrightarrow> cached p t ns qs"
proof (induction arbitrary: qs rule: relocked.induct)
  case (relock_here t t')
  then show ?case using cached_kids_cong [of t' t] by simp
next
  case (relock_kid t t' ck c M c')
  have sets: "set (kids t) = insert (ck, c) (set_mset M)" "set (kids t') = insert (ck, c') (set_mset M)"
    using relock_kid(2,3) by (metis set_mset_add_mset_insert set_mset_mset)+
  have "kid_cached p c' ns qs \<longleftrightarrow> kid_cached p c ns qs"
    using relocked_node [OF relock_kid(4)] relock_edge [OF relocked_node [OF relock_kid(4)]] relock_kid(5)
    by (auto simp: kid_cached_def relock_node_def)
  then show ?case using sets by (auto simp: cached_iff [of p t] cached_iff [of p t'])
qed

lemma below_facts:
  assumes "mset (kids t) = add_mset (ck, c) M" "mset (kids t') = add_mset (ck, c') M" "relocked d n c c'"
    and "same_node t t'"
  shows "ids t' = ids t" "tslots t' = tslots t" "runs p t' = runs p t" "reach t' m ns qs \<longleftrightarrow> reach t m ns qs"
    "cached p t' ns qs \<longleftrightarrow> cached p t ns qs" "wf_tree p bg ro t' \<longleftrightarrow> wf_tree p bg ro t"
    "tot (view t') = tot (view t)" "image_mset fst (view t') = image_mset fst (view t)"
proof -
  define u where "u = Node ((info t')\<lparr>lock_ref := tlock t + d\<rparr>) (kids t')"
  have r: "relocked d n t u"
    using assms(1,2,4) unfolding u_def
    by (intro relock_kid [OF _ _ _ assms(3), of _ _ ck M]) (auto simp: relock_node_def same_node_def)
  have k: "kids u = kids t'" "tid u = tid t'" "tval u = tval t'" "tkey u = tkey t'" by (simp_all add: u_def)
  show "ids t' = ids t" using relocked_ids [OF r] k by (simp add: ids_unfold [of t'] ids_unfold [of u])
  show "tslots t' = tslots t" using relocked_tslots [OF r] k by (simp add: tslots_unfold [of t'] tslots_unfold [of u])
  show "runs p t' = runs p t" using relocked_runs [OF r, of p] k by (simp add: runs_unfold [of p t'] runs_unfold [of p u])
  show "reach t' m ns qs \<longleftrightarrow> reach t m ns qs"
    using relocked_reach [OF r] k by (simp add: reach_iff [of t'] reach_iff [of u])
  show "cached p t' ns qs \<longleftrightarrow> cached p t ns qs"
    using relocked_cached [OF r] cached_kids_cong [OF k(1)] by simp
  show "wf_tree p bg ro t' \<longleftrightarrow> wf_tree p bg ro t" using relocked_wf [OF r] wf_kids_cong [OF k(1)] by simp
  show "tot (view t') = tot (view t)"
    using relocked_tot [OF r] k by (simp add: view_unfold [of t'] view_unfold [of u] nv_def)
  show "image_mset fst (view t') = image_mset fst (view t)"
    using relocked_view_ids [OF r] k by (simp add: view_unfold [of t'] view_unfold [of u] nv_def)
qed

context lock_walk
begin

lemma lock_path_correct:
  assumes ok: "cache_ok H c" and en: "\<not> disable c" and n: "n \<in> ids (root_node c)"
    and path: "\<forall>e \<in> set (kids (root_node c)). \<forall>x \<in> subs (snd e). n \<in> ids x \<longrightarrow> lo \<le> tlock x"
    and re: "rehold d n H H'" and sub: "\<forall>h \<in># H'. h \<in> ids (root_node c)"
  shows "\<exists>c' delta. lock_path step n c = Inr (c', delta) \<and> cache_ok H' c' \<and> same_content c c' \<and>
    delta = evictable_size (acct c') - evictable_size (acct c)"
proof (cases "n = tid (root_node c)")
  case True
  let ?t = "root_node c"
  have u: "uniq (next_id c) (view ?t)" using ok by (simp add: cache_ok_def)
  have "n \<notin> ids (snd e)" if "e \<in> set (kids ?t)" for e
    using u view_kids_split [of e "mset (kids ?t)"] that True
    by (auto simp: view_unfold [of ?t] nv_def uniq_add ids_def)
  then have "locks_ok H' ?t" using ok lock_ok_elsewhere [OF re] by (simp add: cache_ok_def locks_ok_def)
  then show ?thesis using ok en True sub by (simp add: lock_path_def cache_ok_def)
next
  case False
  let ?t = "root_node c"
  have "\<exists>e \<in> set (kids ?t). n \<in> ids (snd e)" using n False by (auto simp: ids_unfold [of ?t])
  then obtain cs a delta where w: "walk_kids step n (kids ?t) (acct c, 0) = Some (cs, a, delta)"
    using walk_None(2) [of step n "kids ?t" "(acct c, 0)"] by auto
  define t' where "t' = Node (info ?t) cs"
  define c' where "c' = c\<lparr>root_node := t', acct := a\<rparr>"
  obtain ck k k' M where r: "mset (kids ?t) = add_mset (ck, k) M" "mset (kids t') = add_mset (ck, k') M"
    "relocked d n k k'"
    using walk_relocked(2) [OF w refl] by (auto simp: t'_def)
  have same: "same_node ?t t'" by (simp add: t'_def same_node_def)
  note b = below_facts [OF r same]
  have u: "uniq (next_id c) (view ?t)" and wf: "wf_tree (page_size c) (is_eagle c) None ?t"
    and ro: "root_ok ?t" using ok by (simp_all add: cache_ok_def)
  have vt: "view ?t = add_mset (nv ?t) (view_kids (mset (kids ?t)))" by (rule view_unfold)
  have nv: "nv t' = nv ?t" using r(1,2) by (auto simp: nv_def t'_def)
  have val: "\<forall>e \<in> set (kids ?t). valued (snd e)"
    using wf_valued [OF wf] ro valued_kids by (auto simp: root_ok_def)
  have "acct_ok a (view_kids (mset cs) + {#nv ?t#})"
    using walk_acct(2) [OF w refl val path, of "{#nv ?t#}" "next_id c"] ok vt by (simp add: cache_ok_def)
  then have acct: "acct_ok a (view t')" using nv by (subst view_unfold) (simp add: t'_def)
  have "uniq (next_id c) (view t')" using uniq_grow [OF u, of "view t'" "next_id c"] b(8) by simp
  moreover have "locks_ok H' t'"
  proof -
    have uk: "uniq (next_id c) (view k + view_kids M)" using u unfolding vt r(1) by (simp add: nv_def uniq_add)
    have lk: "lock_ok H k" "\<forall>e \<in># M. lock_ok H (snd e)" using ok r(1) by (simp_all add: cache_ok_def locks_ok_def)
    have "lock_ok H' k'" using relocked_lock_ok [OF r(3) re uniq_sub [OF uk] lk(1)] .
    moreover have "lock_ok H' (snd e)" if e: "e \<in># M" for e
    proof (rule lock_ok_elsewhere [OF re])
      have "ids k \<inter> ids (snd e) = {}" using uniq_disjoint [OF uk] view_kids_split [OF e] by (auto simp: ids_def)
      then show "n \<notin> ids (snd e)" using relocked_in_ids [OF r(3)] by blast
      show "lock_ok H (snd e)" using lk(2) e by blast
    qed
    ultimately show ?thesis using r(2) by (auto simp: locks_ok_def)
  qed
  ultimately have "cache_ok H' c'"
    using ok acct sub b(1) b(6) [of "page_size c" "is_eagle c" None] same_node_root [OF same]
    by (simp add: cache_ok_def c'_def)
  moreover have "same_content c c'"
  proof -
    have "evictable_size a + protected_size a = tot (view t')" using acct ev_plus_pr by (simp add: acct_ok_def)
    moreover have "evictable_size (acct c) + protected_size (acct c) = tot (view ?t)"
      using ok ev_plus_pr by (simp add: cache_ok_def acct_ok_def)
    ultimately show ?thesis using b(1-5,7) by (simp add: same_content_def c'_def t'_def)
  qed
  moreover have "delta = evictable_size a - evictable_size (acct c)" using walk_delta(2) [OF w refl] by simp
  moreover have "lock_path step n c = Inr (c', delta)"
    using en False w by (simp add: lock_path_def c'_def t'_def)
  ultimately show ?thesis by (intro exI [of _ c'] exI [of _ delta]) (simp add: c'_def)
qed

end

lemma locks_held:
  assumes "locks_ok H t" "e \<in> set (kids t)" "x \<in> subs (snd e)"
  shows "lock_ok H x"
proof -
  have "lock_ok H y \<Longrightarrow> x \<in> subs y \<Longrightarrow> lock_ok H x" for y
    by (induction y rule: subs.induct) (auto simp: subs.simps)
  from this [of "snd e"] show ?thesis using assms by (simp add: locks_ok_def)
qed

theorem inc_lock_ref_correct:
  assumes "cache_ok H c" "\<not> disable c" "n \<in> ids (root_node c)"
  shows "\<exists>c' delta. inc_lock_ref n c = Inr (c', delta) \<and> cache_ok (add_mset n H) c' \<and> same_content c c' \<and>
    delta = evictable_size (acct c') - evictable_size (acct c)"
  unfolding inc_lock_ref_def
proof (rule inc_walk.lock_path_correct [OF assms _ rehold_inc])
  show "\<forall>e \<in> set (kids (root_node c)). \<forall>x \<in> subs (snd e). n \<in> ids x \<longrightarrow> 0 \<le> tlock x"
    using assms(1) locks_held by (fastforce simp: cache_ok_def lock_ok_iff)
  show "\<forall>h \<in># add_mset n H. h \<in> ids (root_node c)" using assms(1,3) by (auto simp: cache_ok_def)
qed

theorem dec_lock_ref_correct:
  assumes "cache_ok (add_mset n H) c" "\<not> disable c"
  shows "\<exists>c' delta. dec_lock_ref n c = Inr (c', delta) \<and> cache_ok H c' \<and> same_content c c' \<and>
    delta = evictable_size (acct c') - evictable_size (acct c)"
  unfolding dec_lock_ref_def
proof (rule dec_walk.lock_path_correct [OF assms _ _ rehold_dec])
  show "n \<in> ids (root_node c)" "\<forall>h \<in># H. h \<in> ids (root_node c)" using assms(1) by (auto simp: cache_ok_def)
  have "1 \<le> tlock x" if "e \<in> set (kids (root_node c))" "x \<in> subs (snd e)" "n \<in> ids x" for e x
  proof -
    have "tlock x = int (held (add_mset n H) x)"
      using locks_held [OF _ that(1,2)] assms(1) by (simp add: cache_ok_def lock_ok_iff)
    then show ?thesis using that(3) by (simp add: held_def)
  qed
  then show "\<forall>e \<in> set (kids (root_node c)). \<forall>x \<in> subs (snd e). n \<in> ids x \<longrightarrow> 1 \<le> tlock x" by blast
qed

lemma rc_reset_ok: "0 < page_size c \<Longrightarrow> cache_ok {#} (rc_reset clk c)"
  by (simp add: cache_ok_def rc_reset_def new_root_def new_tree_node_def root_ok_def empty_key_def
      acct_ok_def view.simps nv_def locks_ok_def uniq_add) (simp add: uniq_def rk_len_eq raw_len_def mk_radix_key_def)

end
