(* ===== verification/RadixEvict.thy ===== *)
theory RadixEvict
  imports RadixInv
begin

text \<open>
  Eviction. The loop of \<open>RadixCache.evict\<close> always ends, frees exactly the slots of
  the nodes it removes, never touches a node on the path of a held handle, keeps the
  invariant, and stops short of the requested amount only when nothing evictable is
  left.
\<close>

section \<open>The state of the loop\<close>

definition evict_inv :: "nat \<Rightarrow> bool \<Rightarrow> nat \<Rightarrow> nat multiset \<Rightarrow> tree \<Rightarrow> acct \<Rightarrow> kv_alloc \<Rightarrow> bool" where
  "evict_inv p bg i H t a al \<longleftrightarrow>
     0 < p \<and> root_ok t \<and> wf_tree p bg None t \<and> acct_ok a (view t) \<and> uniq i (view t) \<and> locks_ok H t \<and>
     (\<forall>h \<in># H. h \<in> ids t) \<and> runs p t \<and> al_ok al \<and> al_page_size al = p \<and>
     (\<forall>x. count (tslots t) x \<le> 1) \<and> set_mset (tslots t) \<inter> pool_slots al = {}"

definition heap_inv :: "acct \<Rightarrow> heap_entry list \<Rightarrow> bool" where
  "heap_inv a h \<longleftrightarrow> distinct (map (\<lambda>e. snd (snd e)) h) \<and> set (map (\<lambda>e. snd (snd e)) h) = evictable_leaves a"

text \<open>What a run of the loop that removed nodes of \<open>k\<close> slots in total did.\<close>

definition evicted_to ::
  "nat \<Rightarrow> nat multiset \<Rightarrow> tree \<Rightarrow> acct \<Rightarrow> kv_alloc \<Rightarrow> tree \<Rightarrow> acct \<Rightarrow> kv_alloc \<Rightarrow> nat \<Rightarrow> bool" where
  "evicted_to p H t a al t' a' al' k \<longleftrightarrow>
     (\<exists>F. tslots t = tslots t' + F \<and> pool_slots al' = pool_slots al \<union> set_mset F \<and> size F = k) \<and>
     evictable_size a' = evictable_size a - int k \<and> protected_size a' = protected_size a \<and>
     (\<forall>h \<in># H. \<forall>ns qs. reach t h ns qs \<longrightarrow> reach t' h ns qs) \<and>
     (\<forall>ns qs. cached p t' ns qs \<longrightarrow> cached p t ns qs) \<and> tid t' = tid t"

lemma evicted_to_refl: "evicted_to p H t a al t a al 0"
  by (simp add: evicted_to_def)

lemma evicted_to_trans:
  assumes "evicted_to p H t a al t1 a1 al1 k" "evicted_to p H t1 a1 al1 t2 a2 al2 l"
  shows "evicted_to p H t a al t2 a2 al2 (k + l)"
proof -
  obtain F G where "tslots t = tslots t1 + F" "pool_slots al1 = pool_slots al \<union> set_mset F" "size F = k"
    "tslots t1 = tslots t2 + G" "pool_slots al2 = pool_slots al1 \<union> set_mset G" "size G = l"
    using assms unfolding evicted_to_def by blast
  then have "tslots t = tslots t2 + (F + G) \<and> pool_slots al2 = pool_slots al \<union> set_mset (F + G) \<and> size (F + G) = k + l"
    by (auto simp: ac_simps)
  then show ?thesis using assms unfolding evicted_to_def by auto
qed

section \<open>One removal\<close>

lemma subs_wf_kid:
  assumes "wf_tree p bg ro t" "x \<in> subs t"
  shows "x = t \<or> (\<exists>ck. entry_ok p bg ck x)"
  using assms
proof (induction t arbitrary: ro rule: subs.induct)
  case (1 i cs)
  then show ?case
  proof (cases "x = Node i cs")
    case False
    then obtain e where e: "e \<in> set cs" "x \<in> subs (snd e)" using 1(3) by (auto simp: subs.simps)
    then have "x = snd e \<or> (\<exists>ck. entry_ok p bg ck x)" using 1(1) [OF e(1) _ e(2)] 1(2) by auto
    then show ?thesis using 1(2) e(1) by auto
  qed simp
qed

lemma evictable_leaf:
  assumes "evict_inv p bg i H t a al" "n \<in> evictable_leaves a"
  shows "\<exists>x v. find_node n t = Some x \<and> x \<in> subs t \<and> tid x = n \<and> tlock x = 0 \<and> kids x = [] \<and> tval x = Some v \<and>
    rk_len (tkey x) = length v \<and> x \<noteq> t"
proof -
  have inv: "lv (view t) = evictable_leaves a" "uniq i (view t)" "root_ok t" "wf_tree p bg None t"
    using assms(1) by (simp_all add: evict_inv_def acct_ok_def)
  then obtain k where "(n, 0, k, False) \<in># view t" using assms(2) by (auto simp: lv_def)
  then obtain x where x: "x \<in> subs t" "nv x = (n, 0, k, False)" unfolding set_view by auto
  then have f: "tid x = n" "tlock x = 0" "kids x = []" by (simp_all add: nv_def)
  have ne: "x \<noteq> t" using f inv(3) by (auto simp: root_ok_def)
  then obtain ck where "entry_ok p bg ck x" using subs_wf_kid [OF inv(4) x(1)] by blast
  then obtain v where "tval x = Some v" "length v = rk_len (tkey x)" by (auto simp: entry_ok_def split: option.splits)
  then show ?thesis using find_node_unique [OF inv(2) x(1)] f x(1) ne by auto
qed

lemma runs_subs: "runs p t \<Longrightarrow> x \<in> subs t \<Longrightarrow> page_run p (the (tval x))"
  by (induction t rule: subs.induct) (auto simp: subs.simps runs.simps)

lemma subs_valued: "valued t \<Longrightarrow> y \<in> subs t \<Longrightarrow> valued y"
proof (induction t rule: subs.induct)
  case (1 i cs)
  then show ?case by (cases "y = Node i cs") (auto simp: valued_def subs.simps)
qed

lemma delete_leaf_correct:
  assumes inv: "evict_inv p bg i H t a al" and x: "x \<in> subs t" "tlock x = 0" "kids x = []" "x \<noteq> t"
  shows "\<exists>t' a' par. delete_leaf p (tid x) t a = Inr (t', a', par) \<and> leaf_diff par x t' t \<and>
    acct_ok a' (view t') \<and> uniq i (view t') \<and>
    evictable_leaves a' = (evictable_leaves a - {tid x}) \<union> (if length (kids par) = 0 \<and> tlock par = 0 then {tid par} else {}) \<and>
    (tid par \<notin> evictable_leaves a) \<and>
    evictable_size a' = evictable_size a - int (rk_len (tkey x)) \<and> protected_size a' = protected_size a"
proof -
  have wf: "wf_tree p bg None t" "root_ok t" and ac: "acct_ok a (view t)" "uniq i (view t)"
    using inv by (simp_all add: evict_inv_def)
  have "tid x \<in> ids (snd e)" if "e \<in> set (kids t)" "x \<in> subs (snd e)" for e using that by (auto simp: ids_subs)
  then have "cut_leaf p (tid x) t \<noteq> None"
    using x(1,4) by (auto simp: cut_leaf_None(1) subs_unfold [of t])
  then obtain r where r: "cut_leaf p (tid x) t = Some r" by auto
  from cut_leaf_diff(1) [OF wf(1) r] obtain t' z par where z: "r = Inr (t', z, par)" "tid z = tid x" "z \<in> subs t"
    "kids z = [] \<longrightarrow> leaf_diff par z t' t \<and> (\<exists>y \<in> subs t. same_node par y \<and> set (kids par) \<subseteq> set (kids y))" by blast
  have "z = x" using subs_unique [OF ac(2) z(3) x(1) z(2)] .
  then obtain y where ld: "leaf_diff par x t' t" and y: "y \<in> subs t" "same_node par y" "set (kids par) \<subseteq> set (kids y)"
    using z(4) x(3) by blast
  have vy: "valued y" using subs_valued [OF wf_valued [OF wf(1)] y(1)] wf(2) by (auto simp: root_ok_def)
  have val: "\<not> evicted par" "\<forall>(ck, c) \<in> set (kids par). \<not> evicted c"
  proof -
    show "\<not> evicted par" using vy y(2) by (auto simp: valued_def evicted_def same_node_def subs_unfold [of y])
    show "\<forall>(ck, c) \<in> set (kids par). \<not> evicted c"
      using valued_kids [OF vy] y(3) by (auto simp: valued_def)
  qed
  define a' where "a' = update_leaf_status par (a\<lparr>evictable_size := evictable_size a - int (rk_len (tkey x)),
    evictable_leaves := evictable_leaves a - {tid x}\<rparr>)"
  note ac' = acct_cut_leaf [OF ac ld x(2) val, folded a'_def]
  obtain N where N: "view t' = add_mset (nv par) N" "view t = add_mset (tid par, tlock par, rk_len (tkey par), True)
      (add_mset (tid x, 0, rk_len (tkey x), False) N)"
    using leaf_diff_view [OF ld] x(2) by auto
  have u: "tid par \<noteq> tid x" "tid par \<notin> lv N" "tid x \<notin> lv N"
    using ac(2) lv_subset [of N] unfolding N(2) uniq_add by auto
  have "lv (view t) = insert (tid x) (lv N)" "lv (view t') = (if tlock par = 0 \<and> kids par = [] then insert (tid par) (lv N) else lv N)"
    unfolding N nv_def by simp_all
  then have "evictable_leaves a = insert (tid x) (lv N)"
    "evictable_leaves a' = (if tlock par = 0 \<and> kids par = [] then insert (tid par) (lv N) else lv N)"
    using ac(1) ac'(1) by (simp_all add: acct_ok_def)
  moreover have "delete_leaf p (tid x) t a = Inr (t', a', par)"
    using r z(1) \<open>z = x\<close> by (simp add: delete_leaf_def a'_def)
  ultimately show ?thesis using ld ac' u by (auto simp: a'_def)
qed

lemma evict_step:
  assumes inv: "evict_inv p bg i H t a al" and n: "n \<in> evictable_leaves a"
  shows "\<exists>x v al' t' a' par. find_node n t = Some x \<and> tval x = Some v \<and> al_free_segment v 0 al = Inr al' \<and>
    delete_leaf p n t a = Inr (t', a', par) \<and> evict_inv p bg i H t' a' al' \<and>
    evicted_to p H t a al t' a' al' (length v) \<and> tid par \<notin> evictable_leaves a \<and>
    evictable_leaves a' = (evictable_leaves a - {n}) \<union> (if length (kids par) = 0 \<and> tlock par = 0 then {tid par} else {})"
proof -
  obtain x v where x: "find_node n t = Some x" "x \<in> subs t" "tid x = n" "tlock x = 0" "kids x = []" "tval x = Some v"
    "rk_len (tkey x) = length v" "x \<noteq> t"
    using evictable_leaf [OF inv n] by blast
  obtain t' a' par where d: "delete_leaf p n t a = Inr (t', a', par)" "leaf_diff par x t' t" "acct_ok a' (view t')"
    "uniq i (view t')" "tid par \<notin> evictable_leaves a"
    "evictable_leaves a' = (evictable_leaves a - {n}) \<union> (if length (kids par) = 0 \<and> tlock par = 0 then {tid par} else {})"
    "evictable_size a' = evictable_size a - int (rk_len (tkey x))" "protected_size a' = protected_size a"
    using delete_leaf_correct [OF inv x(2,4,5,8)] x(3) by blast
  have sl: "tslots t = tslots t' + mset v" using leaf_diff_tslots [OF d(2)] x(6) by simp
  have f: "al_ok al" "al_page_size al = p" "\<forall>y. count (tslots t) y \<le> 1" "set_mset (tslots t) \<inter> pool_slots al = {}"
    "runs p t" "locks_ok H t" "\<forall>h \<in># H. h \<in> ids t" "root_ok t" "wf_tree p bg None t" "0 < p"
    using inv by (simp_all add: evict_inv_def)
  have cnt: "count (tslots t') y + count (mset v) y \<le> 1" for y using f(3) unfolding sl by simp
  have dv: "distinct v"
    unfolding distinct_count_atmost_1
  proof
    fix y
    show "count (mset v) y = (if y \<in> set v then 1 else 0)"
    proof (cases "y \<in> set v")
      case True
      then have "0 < count (mset v) y" by (simp only: count_greater_zero_iff set_mset_mset)
      then have "count (mset v) y = 1" using cnt [of y] by linarith
      then show ?thesis using True by simp
    qed (simp add: count_eq_zero_iff)
  qed
  obtain pgs where pgs: "v = expand_pages p pgs" using runs_subs [OF f(5) x(2)] x(6) by (auto simp: page_run_def)
  have dis: "set v \<inter> pool_slots al = {}" using f(4) unfolding sl by auto
  obtain al' where al: "al_free_segment v 0 al = Inr al'" "al_ok al'" "al_page_size al' = p"
    "pool_slots al' = pool_slots al \<union> set v"
    using al_free_run [OF f(1) _ dv dis, of pgs] pgs f(2) by auto
  have "set_mset (tslots t') \<inter> set v = {}"
  proof (rule ccontr)
    assume "set_mset (tslots t') \<inter> set v \<noteq> {}"
    then obtain y where "0 < count (tslots t') y" "0 < count (mset v) y" by auto
    then show False using cnt [of y] by linarith
  qed
  moreover have "set_mset (tslots t') \<inter> pool_slots al = {}" using f(4) unfolding sl by auto
  moreover have "count (tslots t') y \<le> 1" for y using cnt [of y] by linarith
  moreover have H: "n \<notin># H"
  proof -
    obtain e where e: "e \<in> set (kids t)" "x \<in> subs (snd e)" using x(2,8) by (auto simp: subs_unfold [of t])
    have "held H x = 0" using locks_held [OF f(6) e] x(4) by (simp add: lock_ok_iff [of H x])
    then show ?thesis using x(3,5) by (auto simp: held_def ids_unfold [of x])
  qed
  moreover have "locks_ok H t'" using leaf_diff_locks(2) [OF d(2)] H f(6) x(3) by simp
  moreover have "\<forall>h \<in># H. h \<in> ids t'" using leaf_diff_ids [OF d(2)] f(7) H x(3) by auto
  moreover have "runs p t'" using leaf_diff_runs [OF d(2)] f(5) by simp
  moreover have "root_ok t'" using same_node_root [OF leaf_diff_same_node [OF d(2)]] f(8) by simp
  moreover have "wf_tree p bg None t'" using leaf_diff_wf [OF d(2) f(9)] .
  ultimately have "evict_inv p bg i H t' a' al'" using d al f(10) by (auto simp: evict_inv_def)
  moreover have "evicted_to p H t a al t' a' al' (length v)"
    unfolding evicted_to_def
  proof (intro conjI ballI allI impI)
    show "\<exists>F. tslots t = tslots t' + F \<and> pool_slots al' = pool_slots al \<union> set_mset F \<and> size F = length v"
      using sl al(4) by (intro exI [of _ "mset v"]) simp
    show "reach t' h ns qs" if "h \<in># H" "reach t h ns qs" for h ns qs
      using leaf_diff_reach_back [OF d(2) that(2)] that(1) H x(3) by auto
    show "cached p t ns qs" if "cached p t' ns qs" for ns qs using leaf_diff_cached [OF d(2) that] .
    show "tid t' = tid t" using leaf_diff_same_node [OF d(2)] by (simp add: same_node_def)
  qed (use d(7,8) x(7) in simp_all)
  ultimately show ?thesis using x(1,6) al(1) d(1,5,6) by blast
qed

section \<open>The loop\<close>

lemma heappop_heap_inv:
  assumes "heap_inv a h" "heappop h = Some ((pri, at, n), h')"
  shows "n \<in> evictable_leaves a" "distinct (map (\<lambda>e. snd (snd e)) h')"
    "set (map (\<lambda>e. snd (snd e)) h') = evictable_leaves a - {n}"
proof -
  let ?id = "\<lambda>e :: heap_entry. snd (snd e)"
  have m: "mset (map ?id h) = mset (n # map ?id h')"
    using heapq.pop_mset [OF assms(2)] by simp
  have d: "distinct (n # map ?id h')"
    using mset_eq_imp_distinct_iff [OF m] assms(1) by (simp add: heap_inv_def)
  have s: "set (map ?id h) = set (n # map ?id h')" using m by (rule mset_eq_setD)
  show "n \<in> evictable_leaves a" using s assms(1) by (auto simp: heap_inv_def)
  show "distinct (map ?id h')" using d by simp
  show "set (map ?id h') = evictable_leaves a - {n}" using s d assms(1) by (auto simp: heap_inv_def)
qed

theorem evict_loop_correct:
  assumes "evict_inv p bg i H t a al" "heap_inv a h"
  shows "\<exists>t' a' al' k. evict_loop p s num_tokens t a al h k0 = Inr (t', a', al', k0 + k) \<and>
    evict_inv p bg i H t' a' al' \<and> evicted_to p H t a al t' a' al' k \<and>
    (num_tokens \<le> int (k0 + k) \<or> evictable_leaves a' = {})"
  using assms
proof (induction t arbitrary: a al h k0 rule: measure_induct_rule [where f = size])
  case (less t)
  show ?case
  proof (cases "int k0 < num_tokens \<and> h \<noteq> []")
    case False
    then have "evict_loop p s num_tokens t a al h k0 = Inr (t, a, al, k0 + 0)"
      by (subst evict_loop.simps) auto
    moreover have "num_tokens \<le> int (k0 + 0) \<or> evictable_leaves a = {}"
      using False less.prems(2) by (auto simp: heap_inv_def)
    ultimately show ?thesis using less.prems(1) evicted_to_refl by blast
  next
    case True
    then obtain e h' where "heappop h = Some (e, h')" using heapq.pop_empty [of h] by (cases "heappop h") auto
    then obtain pri at n where pop: "heappop h = Some ((pri, at, n), h')" by (cases e) auto
    note hi = heappop_heap_inv [OF less.prems(2) pop]
    obtain x v al1 t1 a1 par where st: "find_node n t = Some x" "tval x = Some v" "al_free_segment v 0 al = Inr al1"
      "delete_leaf p n t a = Inr (t1, a1, par)" "evict_inv p bg i H t1 a1 al1"
      "evicted_to p H t a al t1 a1 al1 (length v)" "tid par \<notin> evictable_leaves a"
      "evictable_leaves a1 = (evictable_leaves a - {n}) \<union> (if length (kids par) = 0 \<and> tlock par = 0 then {tid par} else {})"
      using evict_step [OF less.prems(1) hi(1)] by blast
    define h1 where "h1 = (if length (kids par) = 0 \<and> tlock par = 0 then h' @ [heap_entry_of s (info par)] else h')"
    have "heap_inv a1 h1"
      using hi(2,3) st(7,8) by (auto simp: heap_inv_def h1_def heap_entry_of_def)
    from less.IH [OF delete_leaf_size [OF st(4)] st(5) this] obtain t' a' al' k where rec:
      "evict_loop p s num_tokens t1 a1 al1 h1 (k0 + length v) = Inr (t', a', al', k0 + length v + k)"
      "evict_inv p bg i H t' a' al'" "evicted_to p H t1 a1 al1 t' a' al' k"
      "num_tokens \<le> int (k0 + length v + k) \<or> evictable_leaves a' = {}" by blast
    have "evict_loop p s num_tokens t a al h k0 = Inr (t', a', al', k0 + (length v + k))"
      using True pop st(1-4) rec(1) unfolding h1_def by (subst evict_loop.simps) (simp add: add.assoc)
    moreover have "evicted_to p H t a al t' a' al' (length v + k)" using st(6) rec(3) by (rule evicted_to_trans)
    ultimately show ?thesis using rec(2,4) by (metis add.assoc)
  qed
qed

section \<open>Nothing evictable is left behind\<close>

lemma held_mono: "x \<in> subs y \<Longrightarrow> held H x \<le> held H y"
proof -
  assume x: "x \<in> subs y"
  have "subs x \<subseteq> subs y" using x
  proof (induction y rule: subs.induct)
    case (1 i cs)
    then show ?case by (auto simp: subs.simps [of i])
  qed
  then have "ids x \<subseteq> ids y" by (auto simp: ids_subs)
  then have "{#h \<in># H. h \<in> ids x#} \<subseteq># {#h \<in># H. h \<in> ids y#}"
    by (intro filter_mset_mono_strong) auto
  then show ?thesis unfolding held_def by (rule size_mset_mono)
qed

lemma unlocked_has_leaf:
  assumes "locks_ok H t" "e \<in> set (kids t)" "x \<in> subs (snd e)" "tlock x = 0"
  shows "\<exists>y e. e \<in> set (kids t) \<and> y \<in> subs (snd e) \<and> tlock y = 0 \<and> kids y = []"
  using assms(3,4)
proof (induction x rule: measure_induct_rule [where f = size])
  case (less x)
  show ?case
  proof (cases "kids x")
    case Nil
    then show ?thesis using less.prems assms(2) by blast
  next
    case (Cons f cs)
    have lk: "lock_ok H x" using locks_held [OF assms(1,2) less.prems(1)] .
    have "snd f \<in> subs x" using Cons by (subst subs_unfold) auto
    then have "held H (snd f) \<le> held H x" by (rule held_mono)
    then have "tlock (snd f) = 0"
      using lk less.prems(2) Cons by (auto simp: lock_ok_iff [of H x] lock_ok_iff [of H "snd f"] locks_ok_def)
    moreover have "snd f \<in> subs (snd e)"
    proof -
      have "z \<in> subs w \<Longrightarrow> g \<in> set (kids z) \<Longrightarrow> snd g \<in> subs w" for z w g
      proof (induction w rule: subs.induct)
        case (1 i cs)
        then show ?case
          using subs_self [of "snd g"] by (cases "z = Node i cs") (auto simp: subs.simps [of i] simp del: subs_self)
      qed
      then show ?thesis using less.prems(1) Cons by simp
    qed
    moreover have "size (snd f) < size x"
      using size_kid_mem [of "fst f" "snd f" "kids x" "info x"] Cons by (metis list.set_intros(1) prod.collapse tree.collapse)
    ultimately show ?thesis using less.IH by blast
  qed
qed

lemma no_leaves_no_evictable:
  assumes "locks_ok H t" "root_ok t" "acct_ok a (view t)" "evictable_leaves a = {}"
  shows "evictable_size a = 0"
proof -
  have "fst (snd v) \<noteq> 0" if "v \<in># view t" for v
  proof
    assume z: "fst (snd v) = 0"
    obtain x where x: "x \<in> subs t" "v = nv x" using \<open>v \<in># view t\<close> by (auto simp: set_view)
    then have "tlock x = 0" using z by (simp add: nv_def)
    then have "x \<noteq> t" using assms(2) by (auto simp: root_ok_def)
    then obtain e where "e \<in> set (kids t)" "x \<in> subs (snd e)" using x(1) by (auto simp: subs_unfold [of t])
    then obtain y f where y: "f \<in> set (kids t)" "y \<in> subs (snd f)" "tlock y = 0" "kids y = []"
      using unlocked_has_leaf [OF assms(1)] \<open>tlock x = 0\<close> by blast
    then have "y \<in> subs t" by (auto simp: subs_unfold [of t])
    then have "(tid y, 0, rk_len (tkey y), False) \<in># view t" using y(3,4) by (auto simp: set_view nv_def image_iff)
    then show False using assms(3,4) by (auto simp: acct_ok_def lv_def)
  qed
  moreover have "(\<forall>v \<in># M. fst (snd v) \<noteq> 0) \<Longrightarrow> ev M = 0" for M
  proof (induction M)
    case (add v M)
    then show ?case by (cases v) auto
  qed simp
  ultimately show ?thesis using assms(3) by (simp add: acct_ok_def)
qed

lemma leaf_entries_ok:
  assumes "\<forall>n \<in> set ns. n \<in> ids t"
  shows "\<exists>h. leaf_entries s t ns = Inr h \<and> map (\<lambda>e. snd (snd e)) h = ns"
  using assms
proof (induction ns)
  case (Cons n ns)
  obtain x where x: "find_node n t = Some x" using Cons.prems find_node_None(1) [of n t] by auto
  then have "tid x = n" using find_node_subs(1) by blast
  then show ?case using Cons x by (auto simp: heap_entry_of_def)
qed simp

text \<open>The slots of the cache and of the allocator.\<close>

definition mem_ok :: "nat multiset \<Rightarrow> radix_cache \<Rightarrow> kv_alloc \<Rightarrow> bool" where
  "mem_ok H c al \<longleftrightarrow> cache_ok H c \<and> runs (page_size c) (root_node c) \<and> al_ok al \<and> al_page_size al = page_size c \<and>
     (\<forall>x. count (tslots (root_node c)) x \<le> 1) \<and> set_mset (tslots (root_node c)) \<inter> pool_slots al = {}"

theorem rc_evict_correct:
  assumes ok: "mem_ok H c al" and en: "\<not> disable c"
  shows "\<exists>c' al' k. rc_evict num_tokens c al = Inr (c', al', k) \<and> mem_ok H c' al' \<and>
    evicted_to (page_size c) H (root_node c) (acct c) al (root_node c') (acct c') al' k \<and>
    (num_tokens \<le> int k \<or> evictable_size (acct c') = 0) \<and> c' = c\<lparr>root_node := root_node c', acct := acct c'\<rparr>"
proof -
  let ?t = "root_node c" and ?a = "acct c"
  have inv: "evict_inv (page_size c) (is_eagle c) (next_id c) H ?t ?a al"
    using ok by (simp add: mem_ok_def cache_ok_def evict_inv_def)
  have lv: "evictable_leaves ?a = lv (view ?t)" using inv by (simp add: evict_inv_def acct_ok_def)
  have fin: "finite (evictable_leaves ?a)"
    unfolding lv by (rule finite_subset [OF lv_subset]) simp
  have "\<forall>n \<in> set (sorted_list_of_set (evictable_leaves ?a)). n \<in> ids ?t"
    using fin lv lv_subset [of "view ?t"] by (auto simp: ids_def)
  then obtain h where h: "leaf_entries (eviction_strategy c) ?t (sorted_list_of_set (evictable_leaves ?a)) = Inr h"
    "map (\<lambda>e. snd (snd e)) h = sorted_list_of_set (evictable_leaves ?a)"
    using leaf_entries_ok by blast
  have "heap_inv ?a h" unfolding heap_inv_def h(2) using fin by simp
  from evict_loop_correct [OF inv this, of "eviction_strategy c" num_tokens 0] obtain t' a' al' k where r:
    "evict_loop (page_size c) (eviction_strategy c) num_tokens ?t ?a al h 0 = Inr (t', a', al', k)"
    "evict_inv (page_size c) (is_eagle c) (next_id c) H t' a' al'"
    "evicted_to (page_size c) H ?t ?a al t' a' al' k" "num_tokens \<le> int k \<or> evictable_leaves a' = {}"
    by auto
  define c' where "c' = c\<lparr>root_node := t', acct := a'\<rparr>"
  have "rc_evict num_tokens c al = Inr (c', al', k)" using en h(1) r(1) by (simp add: rc_evict_def c'_def)
  moreover have "mem_ok H c' al'" using r(2) by (simp add: mem_ok_def cache_ok_def evict_inv_def c'_def)
  moreover have "num_tokens \<le> int k \<or> evictable_size a' = 0"
    using r(4) no_leaves_no_evictable [of H t' a'] r(2) by (auto simp: evict_inv_def)
  ultimately show ?thesis using r(3) by (intro exI [of _ c'] exI [of _ al'] exI [of _ k]) (simp add: c'_def)
qed

section \<open>Matched prefixes under a lock\<close>

lemma mem_ok_splits:
  assumes "mem_ok H c al" "cache_ok H c'" "page_size c' = page_size c"
    and "splits (page_size c) (next_id c) (root_node c) (next_id c') (root_node c')"
  shows "mem_ok H c' al"
  using assms splits_tslots [OF assms(4)] splits_runs [OF assms(4)] by (simp add: mem_ok_def)

lemma mem_ok_same_content: "mem_ok H c al \<Longrightarrow> cache_ok H' c' \<Longrightarrow> same_content c c' \<Longrightarrow> mem_ok H' c' al"
  by (simp add: mem_ok_def same_content_def)

lemma best_match_unique:
  assumes "0 < p" "wf_tree p bg ro t" "best_match p t ns us ps" "best_match p t ns us qs"
  shows "qs = ps"
proof -
  have "length qs = length ps" using assms(3,4) unfolding best_match_def by (meson le_antisym)
  then show ?thesis using assms cached_functional [OF assms(1,2), of ns qs ps] by (simp add: best_match_def)
qed

lemma locked_prefix:
  assumes ok: "mem_ok H c al" and en: "\<not> disable c" and key: "key_fits c key"
    and best: "best_match (page_size c) (root_node c) (rk_ns key) (rk_iter (eff_key c key)) ps"
    and at: "reach (root_node c) l (rk_ns key) ps" and l: "l \<in># H"
  shows "\<exists>c1 al1 k c2 r. rc_evict num_tokens c al = Inr (c1, al1, k) \<and> mem_ok H c1 al1 \<and>
    rc_match_prefix clk now key c1 = Inr (c2, r) \<and> mem_ok H c2 al1 \<and> device_indices r = map snd ps"
proof -
  obtain c1 al1 k where e: "rc_evict num_tokens c al = Inr (c1, al1, k)" "mem_ok H c1 al1"
    "evicted_to (page_size c) H (root_node c) (acct c) al (root_node c1) (acct c1) al1 k"
    "c1 = c\<lparr>root_node := root_node c1, acct := acct c1\<rparr>"
    using rc_evict_correct [OF ok en] by metis
  have sel: "page_size c1 = page_size c" "is_eagle c1 = is_eagle c" "disable c1 = disable c"
    by (subst e(4), simp)+
  have ek: "eff_key c1 key = eff_key c key" and key1: "key_fits c1 key" and en1: "\<not> disable c1"
    using key en by (simp_all add: eff_key_def key_fits_def sel)
  have ok1: "cache_ok H c1" using e(2) by (simp add: mem_ok_def)
  then have wf1: "0 < page_size c1" "wf_tree (page_size c1) (is_eagle c1) None (root_node c1)"
    by (simp_all add: cache_ok_def)
  obtain c2 r qs where m: "rc_match_prefix clk now key c1 = Inr (c2, r)" "cache_ok H c2"
    "best_match (page_size c1) (root_node c1) (rk_ns key) (rk_iter (eff_key c1 key)) qs" "device_indices r = map snd qs"
    "splits (page_size c1) (next_id c1) (root_node c1) (next_id c2) (root_node c2)"
    "c2 = c1\<lparr>root_node := root_node c2, next_id := next_id c2\<rparr>"
    using rc_match_prefix_correct [OF ok1 en1 key1] by metis
  have "reach (root_node c1) l (rk_ns key) ps" using e(3) at l unfolding evicted_to_def by blast
  then have "cached (page_size c1) (root_node c1) (rk_ns key) ps" by (rule reach_cached [OF wf1(2)])
  then have "best_match (page_size c1) (root_node c1) (rk_ns key) (rk_iter (eff_key c1 key)) ps"
    using best e(3) unfolding best_match_def ek sel(1) evicted_to_def by blast
  with m(3) have "qs = ps" by (rule best_match_unique [OF wf1, rotated])
  moreover have "page_size c2 = page_size c1" by (subst m(6)) simp
  ultimately show ?thesis using e(1,2) m(1,4) mem_ok_splits [OF e(2) m(2) _ m(5)] by blast
qed

section \<open>Inserting slots\<close>

lemma inserted_tslots:
  assumes "inserted p i t v a i' t' a' n"
  shows "tslots t' = tslots t + mset (drop n v)" "runs p t \<Longrightarrow> page_run p (drop n v) \<Longrightarrow> runs p t'"
proof -
  consider "splits p i t i' t'" "n = length v"
    | i1 t1 par leaf where "splits p i t i1 t1" "leaf_diff par leaf t1 t'" "tval leaf = Some (drop n v)"
    using assms unfolding inserted_def by blast
  then have "tslots t' = tslots t + mset (drop n v) \<and> (runs p t \<longrightarrow> page_run p (drop n v) \<longrightarrow> runs p t')"
  proof cases
    case 1
    then show ?thesis using splits_tslots [OF 1(1)] splits_runs [OF 1(1)] by simp
  next
    case 2
    then show ?thesis
      using splits_tslots [OF 2(1)] splits_runs [OF 2(1)] leaf_diff_tslots [OF 2(2)] leaf_diff_runs [OF 2(2)] by simp
  qed
  then show "tslots t' = tslots t + mset (drop n v)" "runs p t \<Longrightarrow> page_run p (drop n v) \<Longrightarrow> runs p t'" by auto
qed

text \<open>The slots behind the part of the key that was cached already become the
  tree's; they must be fresh, distinct and whole pages.\<close>

definition fresh_slots :: "radix_cache \<Rightarrow> kv_alloc \<Rightarrow> nat list \<Rightarrow> bool" where
  "fresh_slots c al v \<longleftrightarrow> distinct v \<and> page_run (page_size c) v \<and>
     set v \<inter> set_mset (tslots (root_node c)) = {} \<and> set v \<inter> pool_slots al = {}"

lemma mem_ok_insert_tail:
  assumes ok: "mem_ok H c al" and en: "\<not> disable c" and key: "key_fits c key" and v: "value_fits c key v"
    and best: "best_match (page_size c) (root_node c) (rk_ns key) (rk_iter (eff_key c key)) ps"
    and fresh: "fresh_slots c al (drop (length ps) (eff_value c key v))"
  shows "\<exists>c' r. rc_insert clk now key v prio chunked c = Inr (c', r) \<and> mem_ok H c' al \<and> prefix_len r = length ps \<and>
    tslots (root_node c') = tslots (root_node c) + mset (drop (length ps) (eff_value c key v)) \<and>
    c' = c\<lparr>root_node := root_node c', next_id := next_id c', acct := acct c'\<rparr> \<and>
    (\<forall>ns qs. content c' ns qs \<longleftrightarrow>
       content c ns qs \<or> added (page_size c) (eff_key c key) (eff_value c key v) ps ns qs)"
proof -
  let ?v = "eff_value c key v" and ?new = "drop (length ps) (eff_value c key v)"
  have c: "cache_ok H c" using ok by (simp add: mem_ok_def)
  obtain c' r ps' l where r: "rc_insert clk now key v prio chunked c = Inr (c', r)" "cache_ok H c'"
    "best_match (page_size c) (root_node c) (rk_ns key) (rk_iter (eff_key c key)) ps'" "prefix_len r = length ps'"
    "inserted (page_size c) (next_id c) (root_node c) ?v (acct c) (next_id c') (root_node c') (acct c') (length ps')"
    "c' = c\<lparr>root_node := root_node c', next_id := next_id c', acct := acct c'\<rparr>"
    "\<forall>ns qs. content c' ns qs \<longleftrightarrow> content c ns qs \<or> added (page_size c) (eff_key c key) ?v ps' ns qs"
    using rc_insert_correct [OF c en key v] by metis
  have ps: "ps' = ps" using best_match_unique [OF _ _ best r(3)] c unfolding cache_ok_def by blast
  note sl = inserted_tslots [OF r(5), unfolded ps]
  have "count (tslots (root_node c')) x \<le> 1" for x
  proof (cases "x \<in> set ?new")
    case True
    then have "x \<notin># tslots (root_node c)" using fresh by (auto simp: fresh_slots_def)
    then have "count (tslots (root_node c)) x = 0" by (rule not_in_iff [THEN iffD1])
    moreover have "count (mset ?new) x \<le> 1" using fresh by (simp add: fresh_slots_def distinct_count_atmost_1)
    ultimately show ?thesis unfolding sl(1) by simp
  next
    case False
    then have "count (mset ?new) x = 0" by (simp add: count_eq_zero_iff)
    moreover have "count (tslots (root_node c)) x \<le> 1" using ok by (simp add: mem_ok_def)
    ultimately show ?thesis unfolding sl(1) count_union by linarith
  qed
  moreover have "set_mset (tslots (root_node c')) \<inter> pool_slots al = {}"
    using ok fresh unfolding sl(1) mem_ok_def fresh_slots_def by auto
  moreover have "page_size c' = page_size c" by (subst r(6)) simp
  ultimately have "mem_ok H c' al" using ok r(2) sl(2) fresh by (simp add: mem_ok_def fresh_slots_def)
  then show ?thesis using r(1,4,6,7) sl(1) unfolding ps by blast
qed

theorem mem_ok_insert:
  assumes ok: "mem_ok H c al" and en: "\<not> disable c" and key: "key_fits c key" and v: "value_fits c key v"
    and fresh: "fresh_slots c al (eff_value c key v)"
  shows "\<exists>c' r. rc_insert clk now key v prio chunked c = Inr (c', r) \<and> mem_ok H c' al \<and>
    tslots (root_node c') = tslots (root_node c) + mset (drop (prefix_len r) (eff_value c key v))"
proof -
  have c: "cache_ok H c" using ok by (simp add: mem_ok_def)
  obtain ps where best: "best_match (page_size c) (root_node c) (rk_ns key) (rk_iter (eff_key c key)) ps"
    using rc_insert_correct [OF c en key v] by metis
  have "page_size c dvd length ps"
    using best c cached_page unfolding best_match_def cache_ok_def by blast
  then have "fresh_slots c al (drop (length ps) (eff_value c key v))"
    using fresh page_run_take_drop set_drop_subset [of "length ps" "eff_value c key v"] by (auto simp: fresh_slots_def)
  from mem_ok_insert_tail [OF ok en key v best this, of clk now prio chunked] show ?thesis by metis
qed

section \<open>Total size\<close>

lemma total_size_slots:
  "valued t \<Longrightarrow> total_size_helper t = Inr (size (tslots t))"
  "\<forall>e \<in> set cs. valued (snd e) \<Longrightarrow> total_size_kids cs = Inr (size (\<Sum>e\<in>#mset cs. tslots (snd e)))"
proof (induction t and cs rule: total_size_helper_total_size_kids.induct)
  case (1 i cs)
  obtain v where "rvalue i = Some v" using 1(2) by (auto simp: valued_def evicted_def subs.simps)
  moreover have "\<forall>e \<in> set cs. valued (snd e)" using valued_kids [OF 1(2)] by simp
  ultimately show ?case using 1(1) by (simp add: tslots_unfold [of "Node i cs"])
next
  case (3 ck c cs)
  have c: "\<not> evicted c" "valued c" using 3(4) by (auto simp: valued_def)
  then show ?case using 3 by simp
qed simp

lemma tot_tslots:
  assumes "wf_tree p bg ro t" "length (the (tval t)) = rk_len (tkey t)"
  shows "tot (view t) = int (size (tslots t))"
  using assms
proof (induction t arbitrary: ro rule: subs.induct)
  case (1 i cs)
  have "tot (view (snd e)) = int (size (tslots (snd e)))" if e: "e \<in> set cs" for e
  proof (rule 1(1) [OF e])
    show "wf_tree p bg (Some (rk_ns (tkey (snd e)))) (snd e)" using 1(2) e by auto
    show "length (the (tval (snd e))) = rk_len (tkey (snd e))"
      using 1(2) e by (auto simp: entry_ok_def split: option.splits)
  qed
  then have "tot (view_kids (mset cs)) = int (size (\<Sum>e\<in>#mset cs. tslots (snd e)))"
    by (induction cs) auto
  then show ?case using 1(3) by (simp add: view_unfold [of "Node i cs"] tslots_unfold [of "Node i cs"] nv_def)
qed

lemma total_size_counters:
  assumes ok: "cache_ok H c"
  shows "\<exists>n. total_size c = Inr n \<and> int n = evictable_size (acct c) + protected_size (acct c)"
proof -
  let ?t = "root_node c"
  have f: "wf_tree (page_size c) (is_eagle c) None ?t" "root_ok ?t" "acct_ok (acct c) (view ?t)"
    using ok by (simp_all add: cache_ok_def)
  have "valued ?t" using wf_valued [OF f(1)] f(2) by (simp add: root_ok_def)
  then have "total_size c = Inr (size (tslots ?t))" by (simp add: total_size_def total_size_slots)
  moreover have "tot (view ?t) = int (size (tslots ?t))" using tot_tslots [OF f(1)] f(2) by (simp add: root_ok_def)
  moreover have "evictable_size (acct c) + protected_size (acct c) = tot (view ?t)"
    using f(3) ev_plus_pr by (simp add: acct_ok_def)
  ultimately show ?thesis by simp
qed

section \<open>Runs of the cache\<close>

text \<open>
  The states reached by any sequence of operations from an empty cache: \<open>H\<close> holds the
  node handles that requests have locked. A client allocates before it inserts, so
  inserted slots are fresh; it locks nodes it was given and unlocks what it locked.
\<close>

inductive cache_step ::
  "nat multiset \<times> radix_cache \<times> kv_alloc \<Rightarrow> nat multiset \<times> radix_cache \<times> kv_alloc \<Rightarrow> bool" where
  step_match: "key_fits c key \<Longrightarrow> rc_match_prefix clk now key c = Inr (c', r) \<Longrightarrow>
    cache_step (H, c, al) (H, c', al)"
| step_insert: "key_fits c key \<Longrightarrow> value_fits c key v \<Longrightarrow> fresh_slots c al (eff_value c key v) \<Longrightarrow>
    rc_insert clk now key v prio chunked c = Inr (c', r) \<Longrightarrow> cache_step (H, c, al) (H, c', al)"
| step_inc: "n \<in> ids (root_node c) \<Longrightarrow> inc_lock_ref n c = Inr (c', delta) \<Longrightarrow>
    cache_step (H, c, al) (add_mset n H, c', al)"
| step_dec: "dec_lock_ref n c = Inr (c', delta) \<Longrightarrow> cache_step (add_mset n H, c, al) (H, c', al)"
| step_evict: "rc_evict num_tokens c al = Inr (c', al', k) \<Longrightarrow> cache_step (H, c, al) (H, c', al')"

inductive cache_reach :: "nat multiset \<times> radix_cache \<times> kv_alloc \<Rightarrow> nat multiset \<times> radix_cache \<times> kv_alloc \<Rightarrow> bool" where
  reach_refl: "cache_reach s s"
| reach_step: "cache_reach s t \<Longrightarrow> cache_step t u \<Longrightarrow> cache_reach s u"

inductive_cases cache_stepE: "cache_step (H, c, al) (H', c', al')"

definition run_ok :: "nat multiset \<times> radix_cache \<times> kv_alloc \<Rightarrow> bool" where
  "run_ok s \<longleftrightarrow> (case s of (H, c, al) \<Rightarrow> mem_ok H c al \<and> \<not> disable c)"

lemma same_content_disable: "same_content c c' \<Longrightarrow> disable c' = disable c"
  by (simp add: same_content_def)

lemma cache_step_ok:
  assumes "cache_step s s'" "run_ok s"
  shows "run_ok s'"
  using assms
proof (induction rule: cache_step.induct)
  case (step_match c key clk now c' r H al)
  then have m: "mem_ok H c al" "cache_ok H c" "\<not> disable c" by (simp_all add: run_ok_def mem_ok_def)
  obtain c1 r1 where r: "rc_match_prefix clk now key c = Inr (c1, r1)" "cache_ok H c1"
    "splits (page_size c) (next_id c) (root_node c) (next_id c1) (root_node c1)"
    "c1 = c\<lparr>root_node := root_node c1, next_id := next_id c1\<rparr>"
    using rc_match_prefix_correct [OF m(2,3) step_match(1)] by metis
  have "page_size c1 = page_size c" "disable c1 = disable c" by (subst r(4), simp)+
  then have "run_ok (H, c1, al)" using mem_ok_splits [OF m(1) r(2) _ r(3)] m(3) by (simp add: run_ok_def)
  then show ?case using r(1) step_match(2) by simp
next
  case (step_insert c key v al clk now prio chunked c' r H)
  then have m: "mem_ok H c al" "\<not> disable c" by (simp_all add: run_ok_def)
  have "disable c' = disable c"
    using step_insert(4) by (auto simp: rc_insert_def Let_def bind_res_Inr_iff split: if_splits prod.splits)
  then show ?case using mem_ok_insert [OF m step_insert(1-3), of clk now prio chunked] step_insert(4) m(2)
    by (auto simp: run_ok_def)
next
  case (step_inc n c c' delta H al)
  then have m: "mem_ok H c al" "cache_ok H c" "\<not> disable c" by (simp_all add: run_ok_def mem_ok_def)
  from inc_lock_ref_correct [OF m(2,3) step_inc(1)] step_inc(2)
  have "cache_ok (add_mset n H) c'" "same_content c c'" by auto
  then show ?case using mem_ok_same_content [OF m(1)] m(3) same_content_disable by (auto simp: run_ok_def)
next
  case (step_dec n c c' delta H al)
  then have m: "mem_ok (add_mset n H) c al" "cache_ok (add_mset n H) c" "\<not> disable c"
    by (simp_all add: run_ok_def mem_ok_def)
  from dec_lock_ref_correct [OF m(2,3)] step_dec(1) have "cache_ok H c'" "same_content c c'" by auto
  then show ?case using mem_ok_same_content [OF m(1)] m(3) same_content_disable by (auto simp: run_ok_def)
next
  case (step_evict num_tokens c al c' al' k H)
  then have m: "mem_ok H c al" "\<not> disable c" by (simp_all add: run_ok_def)
  from rc_evict_correct [OF m, of num_tokens] step_evict(1)
  have e: "mem_ok H c' al'" "c' = c\<lparr>root_node := root_node c', acct := acct c'\<rparr>" by auto
  have "disable c' = disable c" by (subst e(2)) simp
  then show ?case using e(1) m(2) by (simp add: run_ok_def)
qed

lemma cache_reach_ok: "cache_reach s s' \<Longrightarrow> run_ok s \<Longrightarrow> run_ok s'"
  by (induction rule: cache_reach.induct) (auto intro: cache_step_ok)

section \<open>Matching what was inserted\<close>

lemma added_full:
  assumes "map fst ps = take (length ps) (rk_iter k)" "length v = rk_len k" "p dvd rk_len k"
  shows "added p k v ps (rk_ns k) (ps @ drop (length ps) (zip (rk_iter k) v))"
    "map fst (ps @ drop (length ps) (zip (rk_iter k) v)) = rk_iter k"
    "map snd (ps @ drop (length ps) (zip (rk_iter k) v)) = map snd ps @ drop (length ps) v"
proof -
  let ?F = "ps @ drop (length ps) (zip (rk_iter k) v)"
  have le: "length ps \<le> rk_len k" using arg_cong [OF assms(1), of length] by simp
  show f: "map fst ?F = rk_iter k" using assms(1,2) by (simp add: drop_map [symmetric])
  show "map snd ?F = map snd ps @ drop (length ps) v" using assms(2) by (simp add: drop_map [symmetric])
  have "length ?F = rk_len k" using arg_cong [OF f, of length] by simp
  then show "added p k v ps (rk_ns k) ?F" using assms(3) by (simp add: added_def)
qed

lemma rc_insert_match:
  assumes "cache_ok H c" "\<not> disable c" "key_fits c key" "value_fits c key v"
  shows "\<exists>c1 r1 c2 r2 ps. rc_insert clk now key v prio chunked c = Inr (c1, r1) \<and>
    rc_match_prefix clk now' key c1 = Inr (c2, r2) \<and> cache_ok H c2 \<and>
    best_match (page_size c) (root_node c) (rk_ns key) (rk_iter (eff_key c key)) ps \<and> prefix_len r1 = length ps \<and>
    device_indices r2 = map snd ps @ drop (length ps) (eff_value c key v) \<and>
    length (device_indices r2) = rk_len (eff_key c key)"
proof -
  let ?k = "eff_key c key" and ?v = "eff_value c key v" and ?p = "page_size c"
  obtain c1 r1 ps where i: "rc_insert clk now key v prio chunked c = Inr (c1, r1)" "cache_ok H c1"
    "best_match ?p (root_node c) (rk_ns key) (rk_iter ?k) ps" "prefix_len r1 = length ps"
    "c1 = c\<lparr>root_node := root_node c1, next_id := next_id c1, acct := acct c1\<rparr>"
    "\<forall>ns qs. content c1 ns qs \<longleftrightarrow> content c ns qs \<or> added ?p ?k ?v ps ns qs"
    using rc_insert_correct [OF assms] by metis
  have sel: "page_size c1 = ?p" "is_eagle c1 = is_eagle c" "disable c1 = disable c" by (subst i(5), simp)+
  have k1: "eff_key c1 key = ?k" "key_fits c1 key" "\<not> disable c1"
    using assms(2,3) by (simp_all add: eff_key_def key_fits_def sel)
  obtain c2 r2 qs where m: "rc_match_prefix clk now' key c1 = Inr (c2, r2)" "cache_ok H c2"
    "best_match ?p (root_node c1) (rk_ns key) (rk_iter ?k) qs" "device_indices r2 = map snd qs"
    using rc_match_prefix_correct [OF i(2) k1(3,2)] unfolding sel k1(1) by metis
  have wf: "0 < ?p" "wf_tree ?p (is_eagle c1) None (root_node c1)"
    using i(2) by (simp_all add: cache_ok_def sel)
  let ?F = "ps @ drop (length ps) (zip (rk_iter ?k) ?v)"
  have "map fst ps = take (length ps) (rk_iter ?k)" using i(3) by (simp add: best_match_def)
  moreover have "?p dvd rk_len ?k" using eff_key_sel(1) [OF assms(3) wf(1)] by (simp add: key_ok_def)
  ultimately have full: "added ?p ?k ?v ps (rk_ns ?k) ?F" "map fst ?F = rk_iter ?k" "map snd ?F = map snd ps @ drop (length ps) ?v"
    using added_full [of ps ?k ?v ?p] length_eff_value [OF assms(4)] by auto
  have lF: "length ?F = rk_len ?k" using arg_cong [OF full(2), of length] by simp
  have "cached ?p (root_node c1) (rk_ns key) ?F"
    using i(6) full(1) eff_key_sel(2) [OF assms(3) wf(1)] unfolding sel by metis
  moreover have "length rs \<le> rk_len ?k" if "map fst rs = take (length rs) (rk_iter ?k)" for rs :: "(rk_unit \<times> nat) list"
    using arg_cong [OF that, of length] by simp
  ultimately have "best_match ?p (root_node c1) (rk_ns key) (rk_iter ?k) ?F"
    using full(2) lF unfolding best_match_def by (metis length_rk_iter order_refl take_all)
  with m(3) have "qs = ?F" by (intro best_match_unique [OF wf])
  moreover have "length (map snd ?F) = rk_len ?k" using lF by simp
  ultimately show ?thesis using i(1,3,4) m(1,2,4) full(3) by metis
qed

lemma match_lock_evict:
  assumes ok: "mem_ok H c al" and en: "\<not> disable c" and key: "key_fits c key"
  shows "\<exists>c1 r c2 delta c3 al3 k c4 r4. rc_match_prefix clk now key c = Inr (c1, r) \<and>
    inc_lock_ref (last_device_node r) c1 = Inr (c2, delta) \<and> rc_evict num_tokens c2 al = Inr (c3, al3, k) \<and>
    rc_match_prefix clk now' key c3 = Inr (c4, r4) \<and> device_indices r4 = device_indices r"
proof -
  have cok: "cache_ok H c" using ok by (simp add: mem_ok_def)
  obtain c1 r ps where m: "rc_match_prefix clk now key c = Inr (c1, r)" "cache_ok H c1"
    "best_match (page_size c) (root_node c) (rk_ns key) (rk_iter (eff_key c key)) ps"
    "device_indices r = map snd ps" "reach (root_node c1) (last_device_node r) (rk_ns key) ps"
    "splits (page_size c) (next_id c) (root_node c) (next_id c1) (root_node c1)"
    "c1 = c\<lparr>root_node := root_node c1, next_id := next_id c1\<rparr>"
    "\<forall>ns qs. content c1 ns qs \<longleftrightarrow> content c ns qs"
    using rc_match_prefix_correct [OF cok en key] by metis
  have sel1: "page_size c1 = page_size c" "is_eagle c1 = is_eagle c" "disable c1 = disable c"
    by (subst m(7), simp)+
  have en1: "\<not> disable c1" using en sel1 by simp
  let ?l = "last_device_node r"
  obtain c2 delta where i: "inc_lock_ref ?l c1 = Inr (c2, delta)" "cache_ok (add_mset ?l H) c2" "same_content c1 c2"
    using inc_lock_ref_correct [OF m(2) en1 reach_ids [OF m(5)]] by blast
  have ok2: "mem_ok (add_mset ?l H) c2 al"
    using mem_ok_same_content [OF mem_ok_splits [OF ok m(2) sel1(1) m(6)] i(2,3)] .
  have sel2: "page_size c2 = page_size c" "is_eagle c2 = is_eagle c" "\<not> disable c2"
    using i(3) sel1 en by (simp_all add: same_content_def)
  have k2: "key_fits c2 key" "eff_key c2 key = eff_key c key" using key by (simp_all add: key_fits_def eff_key_def sel2)
  have con: "cached (page_size c) (root_node c2) ns qs \<longleftrightarrow> content c ns qs" for ns qs
    using i(3) m(8) unfolding same_content_def sel1(1) by metis
  have "best_match (page_size c2) (root_node c2) (rk_ns key) (rk_iter (eff_key c2 key)) ps"
    using m(3) unfolding best_match_def sel2(1) k2(2) con .
  moreover have "reach (root_node c2) ?l (rk_ns key) ps" using i(3) m(5) unfolding same_content_def by blast
  ultimately obtain c3 al3 k c4 r4 where "rc_evict num_tokens c2 al = Inr (c3, al3, k)"
    "rc_match_prefix clk now' key c3 = Inr (c4, r4)" "device_indices r4 = map snd ps"
    using locked_prefix [OF ok2 sel2(3) k2(1)] by (metis union_single_eq_member)
  then show ?thesis using m(1,4) i(1) by metis
qed

end
