(* ===== verification/RadixProps.thy ===== *)
theory RadixProps
  imports RadixEvict
begin

text \<open>
  The properties of the radix cache, with the small states on which they are instantiated.
\<close>

section \<open>Sample states\<close>

text \<open>A small cache with two-slot pages and an allocator of eight pages, on which the
  properties are instantiated.\<close>

definition demo_clock :: clock where
  "demo_clock i = (int i, int i)"

definition demo_cache :: radix_cache where
  "demo_cache = rc_reset demo_clock
     \<lparr>disable = False, page_size = 2, is_eagle = False, disable_finished_insert = False,
      eviction_strategy = LRUStrategy, root_node = new_root 0 demo_clock, next_id = 0,
      acct = \<lparr>evictable_size = 0, protected_size = 0, evictable_leaves = {}\<rparr>\<rparr>"

definition demo_key :: radix_key where
  "demo_key = mk_radix_key [11, 12, 13, 14, 15] None False None None"

definition demo_alloc :: kv_alloc where
  "demo_alloc = init_paged_alloc 16 2 False False"

lemma demo_cache_sel [simp]:
  "page_size demo_cache = 2" "is_eagle demo_cache = False" "disable demo_cache = False"
  "root_node demo_cache = new_root 0 demo_clock"
  by (simp_all add: demo_cache_def rc_reset_def)

lemma demo_cache_ok: "cache_ok {#} demo_cache"
  unfolding demo_cache_def by (rule rc_reset_ok) simp

lemma demo_key_fits: "key_fits demo_cache demo_key"
  by (simp add: key_fits_def demo_key_def salt_ok_def mk_radix_key_def)

lemma demo_value_fits: "value_fits demo_cache demo_key (Some [2, 3, 4, 5])"
  by code_simp

text \<open>The same cache after inserting the key with the slots of pages 1 and 2.\<close>

definition demo_insert :: "(radix_cache \<times> insert_result) res" where
  "demo_insert = rc_insert demo_clock 3 demo_key (Some [2, 3, 4, 5]) None False demo_cache"

definition demo_full :: radix_cache where
  "demo_full = (case demo_insert of Inr (c, r) \<Rightarrow> c | Inl e \<Rightarrow> demo_cache)"

definition demo_used :: kv_alloc where
  "demo_used = demo_alloc\<lparr>free_pages := [3..<9]\<rparr>"

lemma demo_fresh: "fresh_slots demo_cache demo_used (eff_value demo_cache demo_key (Some [2, 3, 4, 5]))"
proof -
  have "eff_value demo_cache demo_key (Some [2, 3, 4, 5]) = expand_pages 2 [1, 2]" by code_simp
  moreover have e: "expand_pages 2 [1, 2] = [2, 3, 4, 5]" by code_simp
  moreover have "page_run 2 [2, 3, 4, 5]" unfolding page_run_def using e by metis
  moreover have "pool_slots demo_used = page_slots 2 {3, 4, 5, 6, 7, 8}"
    by (simp add: pool_slots_def pool_pages_def demo_used_def demo_alloc_def init_paged_alloc_def paged_clear_def)
  ultimately show ?thesis
    by (auto simp: fresh_slots_def page_slots_def new_root_def tslots.simps)
qed

lemma demo_used_ok: "al_ok demo_used" "al_page_size demo_used = 2" "paged_ok demo_used"
  by (simp_all add: al_ok_def paged_ok_def pool_ok_def pool_pages_def demo_used_def demo_alloc_def
      init_paged_alloc_def paged_clear_def)

lemma demo_cache_mem_ok: "mem_ok {#} demo_cache demo_used"
proof -
  have "tslots (new_root 0 demo_clock) = {#}" "runs 2 (new_root 0 demo_clock)"
    by (simp_all add: new_root_def tslots.simps runs.simps page_run_def expand_pages_def exI [of _ "[]"])
  then show ?thesis using demo_cache_ok demo_used_ok by (simp add: mem_ok_def)
qed

lemma demo_mem_ok: "mem_ok {#} demo_full demo_used"
  using mem_ok_insert [OF demo_cache_mem_ok _ demo_key_fits demo_value_fits demo_fresh, of demo_clock 3 None False]
  by (auto simp: demo_full_def demo_insert_def)

lemma demo_full_sel: "disable demo_full = False" "page_size demo_full = 2" "is_eagle demo_full = False"
  by code_simp+

lemma demo_full_ok: "cache_ok {#} demo_full"
  using demo_mem_ok by (simp add: mem_ok_def)

lemma demo_full_fits: "key_fits demo_full demo_key" "value_fits demo_full demo_key (Some [6, 7, 8, 9])"
  by code_simp+

lemma demo_full_node: "1 \<in> ids (root_node demo_full)"
  by code_simp

lemma demo_run: "cache_reach ({#}, demo_cache, demo_used) ({#}, demo_full, demo_used)"
proof -
  obtain r where "rc_insert demo_clock 3 demo_key (Some [2, 3, 4, 5]) None False demo_cache = Inr (demo_full, r)"
    using mem_ok_insert [OF demo_cache_mem_ok _ demo_key_fits demo_value_fits demo_fresh, of demo_clock 3 None False]
    by (auto simp: demo_full_def demo_insert_def)
  then show ?thesis
    by (rule reach_step [OF reach_refl step_insert [OF demo_key_fits demo_value_fits demo_fresh]])
qed

text \<open>\<open>demo_full\<close> with its leaf locked.\<close>

definition demo_locked :: radix_cache where
  "demo_locked = (case inc_lock_ref 1 demo_full of Inr (c, d) \<Rightarrow> c | Inl e \<Rightarrow> demo_full)"

lemma demo_locked_ok: "cache_ok {#1#} demo_locked" "\<not> disable demo_locked"
  using inc_lock_ref_correct [OF demo_full_ok _ demo_full_node] demo_full_sel(1)
  by (auto simp: demo_locked_def same_content_def)

section \<open>The radix cache\<close>

text \<open>C1: On a cache that satisfies its invariant, \<open>match_prefix\<close> returns the kv indices of
  the longest cached prefix of the (page-aligned) key in the name space of the key, and
  although it may split a node it leaves the cached content and the invariant as they were.\<close>

theorem match_prefix_longest:
  assumes "cache_ok H c" "\<not> disable c" "key_fits c key"
  shows "\<exists>c' r ps. rc_match_prefix clk now key c = Inr (c', r) \<and> cache_ok H c' \<and>
    best_match (page_size c) (root_node c) (rk_ns key) (rk_iter (eff_key c key)) ps \<and>
    device_indices r = map snd ps \<and> (\<forall>ns qs. content c' ns qs \<longleftrightarrow> content c ns qs)"
  using rc_match_prefix_correct [OF assms] by metis

theorem match_prefix_longest_witness:
  "\<exists>c' r ps. rc_match_prefix demo_clock 7 demo_key demo_full = Inr (c', r) \<and> cache_ok {#} c' \<and>
    best_match (page_size demo_full) (root_node demo_full) (rk_ns demo_key) (rk_iter (eff_key demo_full demo_key)) ps \<and>
    device_indices r = map snd ps \<and> (\<forall>ns qs. content c' ns qs \<longleftrightarrow> content demo_full ns qs)"
  using match_prefix_longest [OF demo_full_ok _ demo_full_fits(1), of demo_clock 7] demo_full_sel(1) by blast

text \<open>C2: \<open>insert\<close> reports the length of the longest cached prefix of the key and afterwards
  the cache holds exactly what it held before and the page-aligned prefixes of the key,
  with the indices it had for the matched part and the given ones behind it.\<close>

theorem insert_adds_prefixes:
  assumes "cache_ok H c" "\<not> disable c" "key_fits c key" "value_fits c key v"
  shows "\<exists>c' r ps. rc_insert clk now key v prio chunked c = Inr (c', r) \<and> cache_ok H c' \<and>
    best_match (page_size c) (root_node c) (rk_ns key) (rk_iter (eff_key c key)) ps \<and> prefix_len r = length ps \<and>
    (\<forall>ns qs. content c' ns qs \<longleftrightarrow>
       content c ns qs \<or> added (page_size c) (eff_key c key) (eff_value c key v) ps ns qs)"
  using rc_insert_correct [OF assms] by metis

theorem insert_adds_prefixes_witness:
  "\<exists>c' r ps. rc_insert demo_clock 9 demo_key (Some [6, 7, 8, 9]) None False demo_full = Inr (c', r) \<and> cache_ok {#} c' \<and>
    best_match (page_size demo_full) (root_node demo_full) (rk_ns demo_key) (rk_iter (eff_key demo_full demo_key)) ps \<and>
    prefix_len r = length ps \<and>
    (\<forall>ns qs. content c' ns qs \<longleftrightarrow> content demo_full ns qs \<or>
       added (page_size demo_full) (eff_key demo_full demo_key) (eff_value demo_full demo_key (Some [6, 7, 8, 9])) ps ns qs)"
  using insert_adds_prefixes [OF demo_full_ok _ demo_full_fits, of demo_clock 9 None False] demo_full_sel(1) by blast

text \<open>C3: Matching a key right after inserting it returns an index for every unit of the
  page-aligned key: the indices cached before for the matched prefix, the inserted ones
  for the rest.\<close>

theorem insert_then_match:
  assumes "cache_ok H c" "\<not> disable c" "key_fits c key" "value_fits c key v"
  shows "\<exists>c1 r1 c2 r2 ps. rc_insert clk now key v prio chunked c = Inr (c1, r1) \<and>
    rc_match_prefix clk now' key c1 = Inr (c2, r2) \<and>
    best_match (page_size c) (root_node c) (rk_ns key) (rk_iter (eff_key c key)) ps \<and>
    device_indices r2 = map snd ps @ drop (length ps) (eff_value c key v) \<and>
    length (device_indices r2) = rk_len (eff_key c key)"
  using rc_insert_match [OF assms] by metis

theorem insert_then_match_witness:
  "\<exists>c1 r1 c2 r2 ps. rc_insert demo_clock 9 demo_key (Some [6, 7, 8, 9]) None False demo_full = Inr (c1, r1) \<and>
    rc_match_prefix demo_clock 10 demo_key c1 = Inr (c2, r2) \<and>
    best_match (page_size demo_full) (root_node demo_full) (rk_ns demo_key) (rk_iter (eff_key demo_full demo_key)) ps \<and>
    device_indices r2 = map snd ps @ drop (length ps) (eff_value demo_full demo_key (Some [6, 7, 8, 9])) \<and>
    length (device_indices r2) = rk_len (eff_key demo_full demo_key)"
  using insert_then_match [OF demo_full_ok _ demo_full_fits, of demo_clock 9 None False 10] demo_full_sel(1) by blast

text \<open>C4: \<open>evict\<close> ends, keeps the invariant, returns the number of slots it freed, gives
  exactly those slots of the tree back to the allocator, lowers \<open>evictable_size\<close> by that
  number and leaves \<open>protected_size\<close> alone; it frees less than requested only when
  nothing evictable remains.\<close>

theorem evict_frees_enough:
  assumes "mem_ok H c al" "\<not> disable c"
  shows "\<exists>c' al' k F. rc_evict num_tokens c al = Inr (c', al', k) \<and> mem_ok H c' al' \<and>
    tslots (root_node c) = tslots (root_node c') + F \<and> pool_slots al' = pool_slots al \<union> set_mset F \<and> size F = k \<and>
    evictable_size (acct c') = evictable_size (acct c) - int k \<and> protected_size (acct c') = protected_size (acct c) \<and>
    (num_tokens \<le> int k \<or> evictable_size (acct c') = 0)"
  using rc_evict_correct [OF assms] unfolding evicted_to_def by metis

theorem evict_frees_enough_witness:
  "\<exists>c' al' k F. rc_evict 4 demo_full demo_used = Inr (c', al', k) \<and> mem_ok {#} c' al' \<and>
    tslots (root_node demo_full) = tslots (root_node c') + F \<and>
    pool_slots al' = pool_slots demo_used \<union> set_mset F \<and> size F = k \<and>
    evictable_size (acct c') = evictable_size (acct demo_full) - int k \<and>
    protected_size (acct c') = protected_size (acct demo_full) \<and> (4 \<le> int k \<or> evictable_size (acct c') = 0)"
  using evict_frees_enough [OF demo_mem_ok, of 4] demo_full_sel(1) by blast

text \<open>C5: A prefix that was matched and locked survives eviction: after \<open>match_prefix\<close>,
  \<open>inc_lock_ref\<close> on the node it returned and an eviction of any size, matching the same
  key again returns the same kv indices.\<close>

theorem locked_prefix_survives:
  assumes "mem_ok H c al" "\<not> disable c" "key_fits c key"
  shows "\<exists>c1 r c2 delta c3 al3 k c4 r4. rc_match_prefix clk now key c = Inr (c1, r) \<and>
    inc_lock_ref (last_device_node r) c1 = Inr (c2, delta) \<and> rc_evict num_tokens c2 al = Inr (c3, al3, k) \<and>
    rc_match_prefix clk now' key c3 = Inr (c4, r4) \<and> device_indices r4 = device_indices r"
  using match_lock_evict [OF assms] by metis

theorem locked_prefix_survives_witness:
  "\<exists>c1 r c2 delta c3 al3 k c4 r4. rc_match_prefix demo_clock 11 demo_key demo_full = Inr (c1, r) \<and>
    inc_lock_ref (last_device_node r) c1 = Inr (c2, delta) \<and> rc_evict 4 c2 demo_used = Inr (c3, al3, k) \<and>
    rc_match_prefix demo_clock 12 demo_key c3 = Inr (c4, r4) \<and> device_indices r4 = device_indices r"
  using locked_prefix_survives [OF demo_mem_ok _ demo_full_fits(1), of demo_clock 11 4 12] demo_full_sel(1) by blast

text \<open>C6: In every state reached from a good one by matches, insertions of fresh slots, locks,
  unlocks and evictions the invariant holds: the tree is well formed, its slots are disjoint
  from the free ones, every lock count equals the number of handles at or below its node,
  and the counters are the sums over the tree.\<close>

theorem cache_runs_safe:
  assumes "cache_reach (H, c, al) (H', c', al')" "mem_ok H c al" "\<not> disable c"
  shows "mem_ok H' c' al' \<and>
    (\<exists>n. total_size c' = Inr n \<and> int n = evictable_size (acct c') + protected_size (acct c'))"
proof -
  have "run_ok (H', c', al')" using assms by (intro cache_reach_ok [OF assms(1)]) (simp add: run_ok_def)
  then show ?thesis using total_size_counters by (auto simp: run_ok_def mem_ok_def)
qed

theorem cache_runs_safe_witness:
  "mem_ok {#} demo_full demo_used \<and>
    (\<exists>n. total_size demo_full = Inr n \<and> int n = evictable_size (acct demo_full) + protected_size (acct demo_full))"
  using cache_runs_safe [OF demo_run demo_cache_mem_ok] by simp

text \<open>C7: \<open>inc_lock_ref\<close> on a node of the tree succeeds, adds one handle to the counts of the
  nodes on its path, moves exactly the newly locked tokens from \<open>evictable_size\<close> to
  \<open>protected_size\<close> and returns that change; content and slots stay as they are.\<close>

theorem inc_lock_ref_counts:
  assumes "cache_ok H c" "\<not> disable c" "n \<in> ids (root_node c)"
  shows "\<exists>c' delta. inc_lock_ref n c = Inr (c', delta) \<and> cache_ok (add_mset n H) c' \<and> same_content c c' \<and>
    delta = evictable_size (acct c') - evictable_size (acct c)"
  using assms by (rule inc_lock_ref_correct)

theorem inc_lock_ref_counts_witness:
  "\<exists>c' delta. inc_lock_ref 1 demo_full = Inr (c', delta) \<and> cache_ok {#1#} c' \<and> same_content demo_full c' \<and>
    delta = evictable_size (acct c') - evictable_size (acct demo_full)"
  using inc_lock_ref_counts [OF demo_full_ok _ demo_full_node] demo_full_sel(1) by blast

text \<open>C8: \<open>dec_lock_ref\<close> on a held handle always succeeds and removes exactly that handle from
  the counts: no count goes negative and the assertion about nodes of another tree never fires.\<close>

theorem dec_lock_ref_releases:
  assumes "cache_ok (add_mset n H) c" "\<not> disable c"
  shows "\<exists>c' delta. dec_lock_ref n c = Inr (c', delta) \<and> cache_ok H c' \<and> same_content c c' \<and>
    delta = evictable_size (acct c') - evictable_size (acct c)"
  using assms by (rule dec_lock_ref_correct)

theorem dec_lock_ref_releases_witness:
  "\<exists>c' delta. dec_lock_ref 1 demo_locked = Inr (c', delta) \<and> cache_ok {#} c' \<and> same_content demo_locked c' \<and>
    delta = evictable_size (acct c') - evictable_size (acct demo_locked)"
  using dec_lock_ref_releases [of 1 "{#}" demo_locked] demo_locked_ok by blast

end
