(* ===== verification/SchedulePolicy.thy ===== *)
theory SchedulePolicy
  imports Complex_Main RadixEvict "HOL-Library.Char_ord"
begin

text \<open>
  \<open>SchedulePolicy\<close> of \<open>python/sglang/srt/managers/schedule_policy.py\<close>: the order of the
  waiting queue. The policies sort the queue by the cached prefix, by a depth-first
  weighting of the radix tree, by output length, by priority and arrival, by routing
  key, or shuffle it.

  \<open>list.sort(key=...)\<close> is the stable \<open>sort_key\<close>; tuples compare lexicographically
  and \<open>float("inf")\<close> is the upper component of a pair. Environment switches are the
  record \<open>policy_env\<close>, clock readings are arguments, and \<open>random.shuffle\<close> is the
  parameter \<open>shuffle\<close>.
\<close>

section \<open>Requests in the queue\<close>

record sched_req = req +
  rid :: string
  max_new_tokens :: int
  ignore_eos :: bool
  wait_queue_entry_time :: int
  routing_key :: "string option"
  return_logprob :: bool
  logprob_start_len :: int
  host_hit_length :: nat
  swa_host_hit_length :: nat
  mamba_host_hit_length :: nat
  storage_hit_length :: nat
  num_matched_prefix_tokens :: nat
  last_host_node :: "nat option"
  best_match_node :: "nat option"
  mamba_pool_idx :: "nat option"
  retracted_stain :: bool
  extend_start :: int
  req_finished :: bool
  dllm_incomplete_ids :: "int list"

record policy_env =
  check_threshold :: int
  deprioritize_threshold :: int
  force_miss :: bool
  reprefill_tail :: nat
  fast_match_prefix :: bool
  is_decode_instance :: bool

section \<open>Tile metrics of a prefill batch\<close>

definition ceil_div :: "int \<Rightarrow> int \<Rightarrow> int" where
  "ceil_div v d = - ((- v) div d)"

record tile_metrics =
  block_m :: int
  request_count :: nat
  tm_extend_lens :: "int list"
  q_tiles_per_request :: "int list"
  max_extend_len :: int
  sum_extend_len :: int
  legacy_q_tiles_per_head :: int
  compact_q_tiles_per_head :: int
  saved_q_tiles_per_head :: int
  saved_q_tile_ratio :: "rat option"

definition list_max :: "int list \<Rightarrow> int" where
  "list_max xs = (case xs of [] \<Rightarrow> 0 | x # ys \<Rightarrow> fold max ys x)"

definition estimate_prefill_extend_tile_metrics :: "int list \<Rightarrow> int \<Rightarrow> tile_metrics" where
  "estimate_prefill_extend_tile_metrics extend_lens bm =
     (let normalized_lens = map (max 0) extend_lens;
          q_tiles = map (\<lambda>n. if n > 0 then ceil_div n bm else 0) normalized_lens;
          legacy_tiles = (if q_tiles \<noteq> [] then int (length q_tiles) * list_max q_tiles else 0);
          compact_tiles = sum_list q_tiles;
          saved_tiles = legacy_tiles - compact_tiles
      in \<lparr>block_m = bm, request_count = length normalized_lens, tm_extend_lens = normalized_lens,
          q_tiles_per_request = q_tiles,
          max_extend_len = (if normalized_lens \<noteq> [] then list_max normalized_lens else 0),
          sum_extend_len = sum_list normalized_lens,
          legacy_q_tiles_per_head = legacy_tiles, compact_q_tiles_per_head = compact_tiles,
          saved_q_tiles_per_head = saved_tiles,
          saved_q_tile_ratio = (if legacy_tiles \<noteq> 0 then Some (of_int saved_tiles / of_int legacy_tiles) else None)\<rparr>)"

section \<open>Matching a request against the cache\<close>

definition compute_max_prefix_len :: "sched_req \<Rightarrow> int \<Rightarrow> int" where
  "compute_max_prefix_len r input_len =
     (let m = input_len - 1;
          m' = (if return_logprob r \<and> logprob_start_len r \<ge> 0 then min m (logprob_start_len r) else m)
      in max m' 0)"

definition zero_match_result :: "radix_cache \<Rightarrow> match_result \<Rightarrow> match_result" where
  "zero_match_result c m = \<lparr>device_indices = take 0 (device_indices m), last_device_node = tid (root_node c)\<rparr>"

definition req_key :: "sched_req \<Rightarrow> int list \<Rightarrow> nat option \<Rightarrow> radix_key" where
  "req_key r toks key_lim = mk_radix_key toks (req_extra_key r) False key_lim (req_cache_salt r)"

definition match_prefix_for_req ::
  "policy_env \<Rightarrow> clock \<Rightarrow> int \<Rightarrow> sched_req \<Rightarrow> int list option \<Rightarrow> radix_cache \<Rightarrow> (radix_cache \<times> sched_req) res" where
  "match_prefix_for_req env clk now r toks_opt c =
     (let toks = (case toks_opt of None \<Rightarrow> origin_input_ids r @ output_ids r | Some t \<Rightarrow> t);
          key_limit = (if reprefill_tail env \<noteq> 0 then Some (length toks - reprefill_tail env) else None)
      in bind_res (rc_match_prefix clk now (req_key r toks key_limit) c) (\<lambda>(c', m0).
           let m = (if force_miss env then zero_match_result c' m0 else m0);
               max_len = compute_max_prefix_len r (int (length toks))
           in Inr (c', r\<lparr>prefix_indices := device_indices m, last_node := Some (last_device_node m),
                         last_host_node := Some (last_device_node m),
                         best_match_node := Some (last_device_node m),
                         host_hit_length := 0, swa_host_hit_length := 0, mamba_host_hit_length := 0,
                         num_matched_prefix_tokens :=
                           nat (min (int (length (device_indices m)) + 0) max_len)\<rparr>)))"

section \<open>Policies\<close>

datatype policy = LPM | DFS_WEIGHT | FCFS | LOF | RANDOM | ROUTING_KEY

definition is_cache_aware :: "policy \<Rightarrow> bool" where
  "is_cache_aware p \<longleftrightarrow> p = LPM \<or> p = DFS_WEIGHT"

record schedule_policy =
  sp_policy :: policy
  enable_hierarchical_cache :: bool
  enable_priority_scheduling :: bool
  schedule_low_priority_values_first :: bool
  waiting_queue_radix_tree :: radix_cache

definition priority_sign :: "schedule_policy \<Rightarrow> int" where
  "priority_sign sp = (if schedule_low_priority_values_first sp then 1 else - 1)"

definition validate_and_adjust_policy :: "string \<Rightarrow> bool \<Rightarrow> policy res" where
  "validate_and_adjust_policy pol tree_disabled =
     (if pol = ''lpm'' \<or> pol = ''dfs-weight''
      then (if tree_disabled then Inr FCFS else Inr (if pol = ''lpm'' then LPM else DFS_WEIGHT))
      else if pol = ''fcfs'' then Inr FCFS
      else if pol = ''lof'' then Inr LOF
      else if pol = ''random'' then Inr RANDOM
      else if pol = ''routing-key'' then Inr ROUTING_KEY
      else Inl ValueError)"

definition determine_active_policy :: "schedule_policy \<Rightarrow> sched_req list \<Rightarrow> policy" where
  "determine_active_policy sp waiting_queue =
     (if sp_policy sp = LPM \<and> length waiting_queue > 128 then FCFS else sp_policy sp)"

text \<open>One iteration of \<open>_compute_prefix_matches\<close>, and the loop. \<open>now k j\<close> is the \<open>j\<close>-th
  clock reading for the \<open>k\<close>-th request.\<close>

definition in_batch_check ::
  "policy_env \<Rightarrow> clock \<Rightarrow> (nat \<Rightarrow> int) \<Rightarrow> sched_req \<Rightarrow> radix_cache \<Rightarrow> (radix_cache \<times> bool) res" where
  "in_batch_check env clk now r wt =
     (let toks = origin_input_ids r @ output_ids r; key = req_key r toks None in
      bind_res (rc_match_prefix clk (now 1) key wt) (\<lambda>(wt1, m0).
        let m = (if force_miss env then zero_match_result wt1 m0 else m0) in
        if int (length (device_indices m)) \<ge> deprioritize_threshold env then Inr (wt1, True)
        else map_res (\<lambda>(wt2, _). (wt2, False))
               (rc_insert clk (now 2) key (Some (replicate (length toks) 0)) (Some 0) False wt1)))"

fun prefix_match_loop ::
  "policy_env \<Rightarrow> clock \<Rightarrow> clock \<Rightarrow> (nat \<Rightarrow> nat \<Rightarrow> int) \<Rightarrow> nat \<Rightarrow> sched_req list \<Rightarrow> radix_cache \<Rightarrow> radix_cache
     \<Rightarrow> (sched_req list \<times> radix_cache \<times> radix_cache \<times> string set) res" where
  "prefix_match_loop env clk wclk now k [] c wt = Inr ([], c, wt, {})"
| "prefix_match_loop env clk wclk now k (r # rs) c wt =
     bind_res (match_prefix_for_req env clk (now k 0) r (Some (origin_input_ids r @ output_ids r)) c) (\<lambda>(c1, r1).
     bind_res (if int (length (prefix_indices r1)) \<le> check_threshold env
               then in_batch_check env wclk (now k) r1 wt else Inr (wt, False)) (\<lambda>(wt1, depr).
     bind_res (prefix_match_loop env clk wclk now (k + 1) rs c1 wt1) (\<lambda>(rs', c2, wt2, D).
       Inr (r1 # rs', c2, wt2, if depr then insert (rid r1) D else D))))"

definition compute_prefix_matches ::
  "policy_env \<Rightarrow> clock \<Rightarrow> clock \<Rightarrow> (nat \<Rightarrow> nat \<Rightarrow> int) \<Rightarrow> sched_req list \<Rightarrow> radix_cache \<Rightarrow> radix_cache
     \<Rightarrow> (sched_req list \<times> radix_cache \<times> radix_cache \<times> string set) res" where
  "compute_prefix_matches env clk wclk now q c wt = prefix_match_loop env clk wclk now 0 q c (rc_reset wclk wt)"

section \<open>Sorting the queue\<close>

definition lpm_key :: "string set \<Rightarrow> sched_req \<Rightarrow> bool \<times> int" where
  "lpm_key D r = (if rid r \<notin> D then (False, - int (num_matched_prefix_tokens r)) else (True, 0))"

definition sort_by_longest_prefix :: "string set \<Rightarrow> sched_req list \<Rightarrow> sched_req list" where
  "sort_by_longest_prefix D q = sort_key (lpm_key D) q"

text \<open>Sorting by priority needs a priority on every request: \<open>None * sign\<close> raises.\<close>

definition with_priorities :: "sched_req list \<Rightarrow> 'a \<Rightarrow> 'a res" where
  "with_priorities q x = (if \<exists>r \<in> set q. req_priority r = None then Inl TypeError else Inr x)"

definition prio :: "sched_req \<Rightarrow> int" where
  "prio r = (case req_priority r of None \<Rightarrow> 0 | Some p \<Rightarrow> p)"

definition sort_by_longest_output :: "bool \<Rightarrow> int \<Rightarrow> sched_req list \<Rightarrow> sched_req list res" where
  "sort_by_longest_output by_prio sign q =
     (if by_prio then with_priorities q (sort_key (\<lambda>x. (prio x * sign, - max_new_tokens x)) q)
      else Inr (sort_key (\<lambda>x. - max_new_tokens x) q))"

definition sort_by_priority_and_fcfs :: "int \<Rightarrow> sched_req list \<Rightarrow> sched_req list res" where
  "sort_by_priority_and_fcfs sign q =
     with_priorities q (sort_key (\<lambda>x. (prio x * sign, wait_queue_entry_time x)) q)"

text \<open>\<open>Counter(r.routing_key for r in running_batch.reqs if r.routing_key)\<close>\<close>

definition routing_keys :: "sched_req list \<Rightarrow> string list" where
  "routing_keys rs = filter (\<lambda>k. k \<noteq> []) (List.map_filter routing_key rs)"

definition routing_sort_key :: "string list \<Rightarrow> sched_req \<Rightarrow> nat \<times> int \<times> string" where
  "routing_sort_key keys r =
     (let key = (case routing_key r of None \<Rightarrow> [] | Some k \<Rightarrow> k) in
      if key \<noteq> [] \<and> key \<in> set keys then (0, - int (count_list keys key), key) else (1, 0, key))"

definition sort_by_routing_key :: "sched_req list \<Rightarrow> sched_req list \<Rightarrow> sched_req list" where
  "sort_by_routing_key running q =
     (let keys = routing_keys running in
      if keys = [] then q else sort_key (routing_sort_key keys) q)"

text \<open>The depth-first weighting. \<open>node_to_weight\<close> is a \<open>defaultdict(int)\<close>: a total function
  on node ids.\<close>

fun calc_weight :: "tree \<Rightarrow> (nat \<Rightarrow> nat) \<Rightarrow> nat \<Rightarrow> nat"
  and calc_weight_kids :: "nat \<Rightarrow> (child_key \<times> tree) list \<Rightarrow> (nat \<Rightarrow> nat) \<Rightarrow> nat \<Rightarrow> nat" where
  "calc_weight (Node i cs) w = calc_weight_kids (node_id i) cs w"
| "calc_weight_kids n [] w = w"
| "calc_weight_kids n ((ck, c) # cs) w =
     (let w1 = calc_weight c w in calc_weight_kids n cs (w1(n := w1 n + w1 (tid c))))"

function get_dfs_priority :: "tree \<Rightarrow> (nat \<Rightarrow> nat) \<Rightarrow> (nat \<Rightarrow> sched_req list) \<Rightarrow> sched_req list" where
  "get_dfs_priority (Node i cs) w reqs =
     (let children = sort_key (\<lambda>x. - int (w (tid x))) (map snd cs)
      in concat (map (\<lambda>c. get_dfs_priority c w reqs) children) @ reqs (node_id i))"
  by pat_completeness auto
termination
proof (relation "measure (\<lambda>(t, w, reqs). size t)", goal_cases)
  case (2 i cs w reqs x z)
  then obtain ck where "(ck, z) \<in> set cs" by auto
  then show ?case using size_kid_mem [of ck z cs i] by simp
qed simp

declare get_dfs_priority.simps [simp del]

definition reqs_at :: "sched_req list \<Rightarrow> nat \<Rightarrow> sched_req list" where
  "reqs_at q n = filter (\<lambda>r. last_node r = Some n) q"

definition sort_by_dfs_weight :: "tree \<Rightarrow> sched_req list \<Rightarrow> sched_req list" where
  "sort_by_dfs_weight t q =
     (let w = calc_weight t (\<lambda>n. length (reqs_at q n)) in get_dfs_priority t w (reqs_at q))"

section \<open>The priority of the waiting queue\<close>

fun match_all ::
  "policy_env \<Rightarrow> clock \<Rightarrow> (nat \<Rightarrow> nat \<Rightarrow> int) \<Rightarrow> nat \<Rightarrow> sched_req list \<Rightarrow> radix_cache \<Rightarrow> (sched_req list \<times> radix_cache) res" where
  "match_all env clk now k [] c = Inr ([], c)"
| "match_all env clk now k (r # rs) c =
     bind_res (match_prefix_for_req env clk (now k 0) r None c) (\<lambda>(c1, r1).
     map_res (\<lambda>(rs', c2). (r1 # rs', c2)) (match_all env clk now (k + 1) rs c1))"

definition calc_priority ::
  "policy_env \<Rightarrow> clock \<Rightarrow> clock \<Rightarrow> (nat \<Rightarrow> nat \<Rightarrow> int) \<Rightarrow> (sched_req list \<Rightarrow> sched_req list)
     \<Rightarrow> sched_req list option \<Rightarrow> schedule_policy \<Rightarrow> sched_req list \<Rightarrow> radix_cache
     \<Rightarrow> (sched_req list \<times> radix_cache \<times> schedule_policy) res" where
  "calc_priority env clk wclk now shuffle running sp q0 c0 =
     (let pol = determine_active_policy sp q0 in
      bind_res (if \<not> is_cache_aware pol \<and> fast_match_prefix env \<and> \<not> is_decode_instance env
                then match_all env clk now 0 q0 c0 else Inr (q0, c0)) (\<lambda>(q, c).
        if sp_policy sp = FCFS
        then map_res (\<lambda>q'. (q', c, sp))
               (if enable_priority_scheduling sp then sort_by_priority_and_fcfs (priority_sign sp) q else Inr q)
        else if is_cache_aware pol
        then bind_res (compute_prefix_matches env clk wclk now q c (waiting_queue_radix_tree sp))
               (\<lambda>(q1, c1, wt, D).
                  Inr (if pol = LPM then sort_by_longest_prefix D q1 else sort_by_dfs_weight (root_node c1) q1,
                       c1, sp\<lparr>waiting_queue_radix_tree := wt\<rparr>))
        else map_res (\<lambda>q'. (q', c, sp))
               (case pol of
                  LOF \<Rightarrow> sort_by_longest_output (enable_priority_scheduling sp) (priority_sign sp) q
                | RANDOM \<Rightarrow> Inr (shuffle q)
                | ROUTING_KEY \<Rightarrow> Inr (case running of None \<Rightarrow> q | Some rs \<Rightarrow> sort_by_routing_key rs q)
                | _ \<Rightarrow> Inr q)))"

section \<open>Tiles\<close>

lemma ceil_div_bounds:
  assumes "0 < d"
  shows "n \<le> ceil_div n d * d" "ceil_div n d * d < n + d"
proof -
  have e: "ceil_div n d * d = n + (- n) mod d"
    unfolding ceil_div_def using div_mult_mod_eq [of "- n" d] by linarith
  have "0 \<le> (- n) mod d" "(- n) mod d < d" using assms by simp_all
  then show "n \<le> ceil_div n d * d" "ceil_div n d * d < n + d" unfolding e by linarith+
qed

lemma list_max_ge: "x \<in> set xs \<Longrightarrow> x \<le> list_max xs"
proof (cases xs)
  case (Cons y ys)
  have "z \<le> fold max zs z" "\<forall>u \<in> set zs. u \<le> fold max zs z" for z :: int and zs
  proof (induction zs arbitrary: z)
    case (Cons u zs)
    {
      case 1
      show ?case using Cons.IH(1) [of "max u z"] by simp
    next
      case 2
      show ?case using Cons.IH(1) [of "max u z"] Cons.IH(2) [of "max u z"] by auto
    }
  qed simp_all
  then show "x \<in> set xs \<Longrightarrow> x \<le> list_max xs" using Cons by (auto simp: list_max_def)
qed simp

lemma sum_le_length_max:
  assumes "\<forall>x \<in> set xs. x \<le> (m :: int)"
  shows "sum_list xs \<le> int (length xs) * m"
  using assms by (induction xs) (auto simp: algebra_simps)

lemma compact_le_legacy:
  "compact_q_tiles_per_head (estimate_prefill_extend_tile_metrics xs bm)
     \<le> legacy_q_tiles_per_head (estimate_prefill_extend_tile_metrics xs bm)"
proof -
  let ?q = "map (\<lambda>n. if n > 0 then ceil_div n bm else 0) (map (max 0) xs)"
  have "sum_list ?q \<le> int (length ?q) * list_max ?q"
    by (rule sum_le_length_max) (blast intro: list_max_ge)
  then show ?thesis
    unfolding estimate_prefill_extend_tile_metrics_def Let_def by (cases "xs = []") simp_all
qed

section \<open>Matching keeps the requests\<close>

lemma req_key_fits: "key_fits c (req_key r toks l)"
  by (auto simp: key_fits_def req_key_def salt_ok_def mk_radix_key_def)

text \<open>The fields of a request that matching does not touch.\<close>

definition same_req :: "sched_req \<Rightarrow> sched_req \<Rightarrow> bool" where
  "same_req r r' \<longleftrightarrow> rid r' = rid r \<and> origin_input_ids r' = origin_input_ids r \<and> output_ids r' = output_ids r \<and>
     req_priority r' = req_priority r \<and> wait_queue_entry_time r' = wait_queue_entry_time r \<and>
     max_new_tokens r' = max_new_tokens r \<and> routing_key r' = routing_key r"

lemma same_req_refl [simp]: "same_req r r"
  by (simp add: same_req_def)

lemma match_prefix_for_req_ok:
  assumes ok: "cache_ok H c" and en: "\<not> disable c"
  shows "\<exists>c' r'. match_prefix_for_req env clk now r ts c = Inr (c', r') \<and> cache_ok H c' \<and> \<not> disable c' \<and>
    same_req r r' \<and> (\<exists>n. last_node r' = Some n \<and> n \<in> ids (root_node c')) \<and> ids (root_node c) \<subseteq> ids (root_node c') \<and>
    num_matched_prefix_tokens r' \<le> length (prefix_indices r')"
proof -
  let ?toks = "case ts of None \<Rightarrow> origin_input_ids r @ output_ids r | Some t \<Rightarrow> t"
  let ?k = "req_key r ?toks (if reprefill_tail env \<noteq> 0 then Some (length ?toks - reprefill_tail env) else None)"
  obtain c' m ps where m: "rc_match_prefix clk now ?k c = Inr (c', m)" "cache_ok H c'"
    "reach (root_node c') (last_device_node m) (rk_ns ?k) ps"
    "splits (page_size c) (next_id c) (root_node c) (next_id c') (root_node c')"
    "c' = c\<lparr>root_node := root_node c', next_id := next_id c'\<rparr>"
    using rc_match_prefix_correct [OF ok en req_key_fits] by metis
  have "disable c' = disable c" by (subst m(5)) simp
  moreover have "tid (root_node c') \<in> ids (root_node c')" by (simp add: ids_unfold [of "root_node c'"])
  ultimately show ?thesis
    using m(1,2) reach_ids [OF m(3)] splits_ids [OF m(4)] en
    by (auto simp: match_prefix_for_req_def Let_def same_req_def zero_match_result_def)
qed

lemma match_all_ok:
  assumes "cache_ok H c" "\<not> disable c"
  shows "\<exists>q' c'. match_all env clk now k q c = Inr (q', c') \<and> cache_ok H c' \<and> \<not> disable c' \<and> list_all2 same_req q q'"
  using assms
proof (induction q arbitrary: c k)
  case (Cons r rs)
  obtain c1 r1 where m: "match_prefix_for_req env clk (now k 0) r None c = Inr (c1, r1)" "cache_ok H c1" "\<not> disable c1"
    "same_req r r1"
    using match_prefix_for_req_ok [OF Cons.prems] by blast
  from Cons.IH [OF m(2,3), of "k + 1"] m show ?case by auto
qed simp

lemma rc_insert_disable: "rc_insert clk now key v p ch c = Inr (c', r) \<Longrightarrow> disable c' = disable c"
  by (auto simp: rc_insert_def Let_def bind_res_Inr_iff split: if_splits prod.splits)

lemma rc_match_disable: "rc_match_prefix clk now key c = Inr (c', r) \<Longrightarrow> disable c' = disable c"
  by (auto simp: rc_match_prefix_def Let_def bind_res_Inr_iff split: if_splits prod.splits)

text \<open>The tree of the waiting queue has pages of one token and no bigrams.\<close>

definition sim_ok :: "radix_cache \<Rightarrow> bool" where
  "sim_ok wt \<longleftrightarrow> cache_ok {#} wt \<and> \<not> disable wt \<and> page_size wt = 1 \<and> \<not> is_eagle wt"

lemma in_batch_check_ok:
  assumes "sim_ok wt"
  shows "\<exists>wt' b. in_batch_check env clk now r wt = Inr (wt', b) \<and> sim_ok wt'"
proof -
  let ?toks = "origin_input_ids r @ output_ids r"
  let ?k = "req_key r ?toks None"
  have wt: "cache_ok {#} wt" "\<not> disable wt" using assms by (simp_all add: sim_ok_def)
  obtain wt1 m where m: "rc_match_prefix clk (now 1) ?k wt = Inr (wt1, m)" "cache_ok {#} wt1"
    "wt1 = wt\<lparr>root_node := root_node wt1, next_id := next_id wt1\<rparr>"
    using rc_match_prefix_correct [OF wt req_key_fits] by metis
  have s1: "sim_ok wt1" using assms m(2) unfolding sim_ok_def by (subst (2 3 4) m(3)) simp
  have "value_fits wt1 ?k (Some (replicate (length ?toks) 0))"
    using rk_len_le_tokens [of ?k] s1
    by (simp add: value_fits_def eff_key_def sim_ok_def page_aligned_def maybe_to_bigram_view_def req_key_def mk_radix_key_def)
  then obtain wt2 r2 where i: "rc_insert clk (now 2) ?k (Some (replicate (length ?toks) 0)) (Some 0) False wt1 = Inr (wt2, r2)"
    "cache_ok {#} wt2" "wt2 = wt1\<lparr>root_node := root_node wt2, next_id := next_id wt2, acct := acct wt2\<rparr>"
    using rc_insert_correct [of "{#}" wt1 ?k] s1 req_key_fits unfolding sim_ok_def by metis
  have "sim_ok wt2" using s1 i(2) unfolding sim_ok_def by (subst (2 3 4) i(3)) simp
  with m(1) i(1) s1 show ?thesis by (auto simp: in_batch_check_def Let_def)
qed

lemma prefix_match_loop_ok:
  assumes "cache_ok H c" "\<not> disable c" "sim_ok wt"
  shows "\<exists>q' c' wt' D. prefix_match_loop env clk wclk now k q c wt = Inr (q', c', wt', D) \<and> cache_ok H c' \<and> \<not> disable c' \<and>
    sim_ok wt' \<and> list_all2 same_req q q' \<and> ids (root_node c) \<subseteq> ids (root_node c') \<and>
    (\<forall>r \<in> set q'. \<exists>n. last_node r = Some n \<and> n \<in> ids (root_node c'))"
  using assms
proof (induction q arbitrary: c wt k)
  case (Cons r rs)
  let ?ts = "Some (origin_input_ids r @ output_ids r)"
  obtain c1 r1 where m: "match_prefix_for_req env clk (now k 0) r ?ts c = Inr (c1, r1)" "cache_ok H c1" "\<not> disable c1"
    "same_req r r1" "\<exists>n. last_node r1 = Some n \<and> n \<in> ids (root_node c1)" "ids (root_node c) \<subseteq> ids (root_node c1)"
    using match_prefix_for_req_ok [OF Cons.prems(1,2)] by metis
  obtain wt1 b where w: "(if int (length (prefix_indices r1)) \<le> check_threshold env
      then in_batch_check env wclk (now k) r1 wt else Inr (wt, False)) = Inr (wt1, b)" "sim_ok wt1"
    using in_batch_check_ok [OF Cons.prems(3), of env wclk "now k" r1] Cons.prems(3)
    by (cases "int (length (prefix_indices r1)) \<le> check_threshold env") auto
  obtain q' c' wt' D where rec: "prefix_match_loop env clk wclk now (k + 1) rs c1 wt1 = Inr (q', c', wt', D)"
    "cache_ok H c'" "\<not> disable c'" "sim_ok wt'" "list_all2 same_req rs q'" "ids (root_node c1) \<subseteq> ids (root_node c')"
    "\<forall>r \<in> set q'. \<exists>n. last_node r = Some n \<and> n \<in> ids (root_node c')"
    using Cons.IH [OF m(2,3) w(2), of "k + 1"] by metis
  have "prefix_match_loop env clk wclk now k (r # rs) c wt = Inr (r1 # q', c', wt', if b then insert (rid r1) D else D)"
    using m(1) w(1) rec(1) by simp
  moreover have "\<forall>r \<in> set (r1 # q'). \<exists>n. last_node r = Some n \<and> n \<in> ids (root_node c')"
    using m(5) rec(6,7) by auto
  moreover have "list_all2 same_req (r # rs) (r1 # q')" using m(4) rec(5) by simp
  moreover have "ids (root_node c) \<subseteq> ids (root_node c')" using m(6) rec(6) by (rule order_trans)
  ultimately show ?case using rec(2-4) by blast
qed simp

section \<open>The sorts permute the queue\<close>

lemma sort_by_longest_prefix_sorted:
  "mset (sort_by_longest_prefix D q) = mset q" "sorted (map (lpm_key D) (sort_by_longest_prefix D q))"
  by (simp_all add: sort_by_longest_prefix_def)

lemma mset_dfs:
  "mset (get_dfs_priority t w reqs) = (\<Sum>n\<in>#image_mset fst (view t). mset (reqs n))"
proof (induction t w reqs rule: get_dfs_priority.induct)
  case (1 i cs w reqs)
  let ?f = "\<lambda>c. \<Sum>n\<in>#image_mset fst (view c). mset (reqs n)"
  let ?ch = "sort_key (\<lambda>x. - int (w (tid x))) (map snd cs)"
  have "mset (concat (map (\<lambda>c. get_dfs_priority c w reqs) ?ch)) = (\<Sum>c\<in>#mset ?ch. mset (get_dfs_priority c w reqs))"
    by (simp add: mset_concat comp_def sum_mset_sum_list [symmetric])
  also have "\<dots> = (\<Sum>c\<in>#mset ?ch. ?f c)"
    by (rule arg_cong [where f = sum_mset], rule image_mset_cong) (use 1 in simp)
  also have "\<dots> = (\<Sum>e\<in>#mset cs. ?f (snd e))"
    by (simp add: image_mset.compositionality comp_def)
  also have "\<dots> = (\<Sum>n\<in>#image_mset fst (view_kids (mset cs)). mset (reqs n))"
    by (induction cs) simp_all
  finally show ?case
    by (simp add: get_dfs_priority.simps Let_def view_unfold [of "Node i cs"] nv_def)
qed

lemma mset_partition:
  assumes "distinct ns" "\<forall>r \<in> set q. \<exists>n \<in> set ns. f r = Some n"
  shows "(\<Sum>n\<leftarrow>ns. mset (filter (\<lambda>r. f r = Some n) q)) = mset q"
proof -
  have "(\<Sum>n\<leftarrow>ns. mset (filter (\<lambda>r. f r = Some n) q)) = {#r \<in># mset q. \<exists>n \<in> set ns. f r = Some n#}"
    using assms(1)
  proof (induction ns)
    case (Cons m ns)
    have "{#r \<in># mset q. \<exists>n \<in> set (m # ns). f r = Some n#} =
        {#r \<in># mset q. f r = Some m#} + {#r \<in># mset q. \<exists>n \<in> set ns. f r = Some n#}"
      using Cons.prems by (intro multiset_eqI) (auto simp: count_eq_zero_iff)
    then show ?case using Cons by simp
  qed simp
  then show ?thesis using assms(2) by (simp add: filter_mset_eq_conv)
qed

lemma uniq_ids_list:
  assumes "uniq i M"
  shows "\<exists>ns. distinct ns \<and> mset ns = image_mset fst M"
proof -
  obtain ns where ns: "mset ns = image_mset fst M" using ex_mset by blast
  have "count (mset ns) n = (if n \<in> set ns then 1 else 0)" for n
  proof (cases "n \<in> set ns")
    case True
    then have "0 < count (mset ns) n" by (simp only: count_greater_zero_iff set_mset_mset)
    moreover have "count (mset ns) n \<le> 1" using assms unfolding ns uniq_def by blast
    ultimately have "count (mset ns) n = 1" by linarith
    then show ?thesis using True by (simp only: if_True)
  qed (simp add: count_eq_zero_iff)
  then have "distinct ns" by (simp add: distinct_count_atmost_1)
  with ns show ?thesis by blast
qed

theorem sort_by_dfs_weight_permutes:
  assumes u: "uniq i (view t)" and q: "\<forall>r \<in> set q. \<exists>n. last_node r = Some n \<and> n \<in> ids t"
  shows "mset (sort_by_dfs_weight t q) = mset q"
proof -
  obtain ns where ns: "distinct ns" "mset ns = image_mset fst (view t)" using uniq_ids_list [OF u] by blast
  have set: "set ns = ids t" using arg_cong [OF ns(2), of set_mset] by (simp add: ids_def)
  have "mset (sort_by_dfs_weight t q) = (\<Sum>n\<in>#mset ns. mset (reqs_at q n))"
    by (simp add: sort_by_dfs_weight_def Let_def mset_dfs ns(2))
  also have "\<dots> = (\<Sum>n\<leftarrow>ns. mset (filter (\<lambda>r. last_node r = Some n) q))"
    by (simp add: reqs_at_def sum_mset_sum_list [symmetric])
  also have "\<dots> = mset q" using q set by (intro mset_partition [OF ns(1)]) blast
  finally show ?thesis .
qed

text \<open>The weight of a node is the number of requests that matched at or below it.\<close>

lemma calc_weight_other:
  "n \<notin> ids t \<Longrightarrow> calc_weight t w n = w n"
  "n \<noteq> m \<Longrightarrow> \<forall>e \<in> set cs. n \<notin> ids (snd e) \<Longrightarrow> calc_weight_kids m cs w n = w n"
proof (induction t w and m cs w rule: calc_weight_calc_weight_kids.induct)
  case (1 i cs w)
  then show ?case by (simp add: ids_unfold [of "Node i cs"])
next
  case (3 m ck c cs w)
  then show ?case by (simp add: Let_def fun_upd_def)
qed simp

definition weight_below :: "(nat \<Rightarrow> nat) \<Rightarrow> tree \<Rightarrow> nat" where
  "weight_below w t = (\<Sum>n\<in>#image_mset fst (view t). w n)"

lemma weight_below_Node: "weight_below w (Node i cs) = w (node_id i) + (\<Sum>e\<leftarrow>cs. weight_below w (snd e))"
proof -
  have "(\<Sum>n\<in>#image_mset fst (view_kids (mset cs)). w n) = (\<Sum>e\<leftarrow>cs. weight_below w (snd e))"
    by (induction cs) (simp_all add: weight_below_def)
  then show ?thesis by (simp add: weight_below_def view_unfold [of "Node i cs"] nv_def)
qed

lemma weight_below_cong: "(\<And>n. n \<in> ids t \<Longrightarrow> w n = w' n) \<Longrightarrow> weight_below w t = weight_below w' t"
  unfolding weight_below_def by (rule arg_cong [where f = sum_mset], rule image_mset_cong) (auto simp: ids_def)

lemma uniq_kids_disjoint:
  assumes "uniq i (view c + view_kids M)" "e \<in># M"
  shows "ids c \<inter> ids (snd e) = {}"
proof (rule ccontr)
  assume "ids c \<inter> ids (snd e) \<noteq> {}"
  then obtain n where n: "n \<in># image_mset fst (view c)" "n \<in># image_mset fst (view (snd e))"
    by (auto simp: ids_def)
  obtain N where "view_kids M = view (snd e) + N"
    using multi_member_split [OF assms(2)] by auto
  moreover have "count (image_mset fst (view c + view_kids M)) n \<le> 1" using assms(1) unfolding uniq_def by blast
  ultimately have "count (image_mset fst (view c)) n + count (image_mset fst (view (snd e))) n \<le> 1" by simp
  moreover have "0 < count (image_mset fst (view c)) n" "0 < count (image_mset fst (view (snd e))) n"
    using n by (simp_all only: count_greater_zero_iff)
  ultimately show False by linarith
qed

lemma subs_trans: "x \<in> subs y \<Longrightarrow> y \<in> subs t \<Longrightarrow> x \<in> subs t"
proof (induction t rule: subs.induct)
  case (1 i cs)
  then show ?case by (auto simp: subs_unfold [of "Node i cs"])
qed

lemma uniq_kid: "uniq i (view c + view_kids M) \<Longrightarrow> uniq i (view c)" "uniq i (view c + view_kids M) \<Longrightarrow> uniq i (view_kids M)"
  using uniq_sub [of i "view c" "view_kids M"] uniq_sub [of i "view_kids M" "view c"] by (simp_all add: add.commute)

theorem calc_weight_below:
  "uniq b (view t) \<Longrightarrow> s \<in> subs t \<Longrightarrow> calc_weight t w (tid s) = weight_below w s"
  "uniq b (view_kids (mset cs)) \<Longrightarrow> \<forall>e \<in> set cs. m \<notin> ids (snd e) \<Longrightarrow>
     calc_weight_kids m cs w m = w m + (\<Sum>e\<leftarrow>cs. weight_below w (snd e)) \<and>
     (\<forall>e \<in> set cs. \<forall>s \<in> subs (snd e). calc_weight_kids m cs w (tid s) = weight_below w s)"
proof (induction t w and m cs w arbitrary: s rule: calc_weight_calc_weight_kids.induct)
  case (1 i cs w)
  have u: "uniq b (view_kids (mset cs))" "\<forall>e \<in> set cs. node_id i \<notin> ids (snd e)"
    using 1(2) by (auto simp: view_unfold [of "Node i cs"] nv_def uniq_add ids_def)
  from 1(1) [OF u] 1(3) show ?case
    by (auto simp: subs_unfold [of "Node i cs"] weight_below_Node)
next
  case (3 m ck c cs w)
  define w1 where "w1 = calc_weight c w"
  define w2 where "w2 = w1(m := w1 m + w1 (tid c))"
  have u: "uniq b (view c + view_kids (mset cs))" using 3(3) by simp
  have m: "m \<notin> ids c" "\<forall>e \<in> set cs. m \<notin> ids (snd e)" using 3(4) by auto
  have dis: "ids c \<inter> ids (snd e) = {}" if "e \<in> set cs" for e
    using uniq_kids_disjoint [OF u, of e] that by simp
  have c: "w1 (tid s) = weight_below w s" if "s \<in> subs c" for s
    unfolding w1_def by (rule 3(1) [OF uniq_kid(1) [OF u] that])
  have same: "weight_below w2 s = weight_below w s" if "e \<in> set cs" "s \<in> subs (snd e)" for e s
  proof (rule weight_below_cong)
    fix n assume "n \<in> ids s"
    then have "n \<in> ids (snd e)" using subs_trans [OF _ that(2)] by (auto simp: ids_subs)
    then have "n \<notin> ids c" "n \<noteq> m" using dis [OF that(1)] m(2) that(1) by auto
    then show "w2 n = w n" by (simp add: w2_def w1_def calc_weight_other(1))
  qed
  have k: "calc_weight_kids m cs w2 m = w2 m + (\<Sum>e\<leftarrow>cs. weight_below w2 (snd e))"
    "\<forall>e \<in> set cs. \<forall>s \<in> subs (snd e). calc_weight_kids m cs w2 (tid s) = weight_below w2 s"
    using 3(2) [OF refl uniq_kid(2) [OF u] m(2)] unfolding w2_def w1_def by blast+
  have eq: "calc_weight_kids m ((ck, c) # cs) w = calc_weight_kids m cs w2"
    by (simp add: w2_def w1_def Let_def)
  have "(\<Sum>e\<leftarrow>cs. weight_below w2 (snd e)) = (\<Sum>e\<leftarrow>cs. weight_below w (snd e))"
    by (rule arg_cong [where f = sum_list], rule map_cong) (auto intro: same)
  moreover have "w2 m = w m + weight_below w c"
    using c [of c] m(1) by (simp add: w2_def w1_def calc_weight_other(1))
  moreover have "calc_weight_kids m cs w2 (tid s) = weight_below w s" if "s \<in> subs c" for s
  proof -
    have "tid s \<in> ids c" using that by (simp add: ids_subs)
    then have "\<forall>e \<in> set cs. tid s \<notin> ids (snd e)" "tid s \<noteq> m" using dis m(1) by blast+
    then show ?thesis using calc_weight_other(2) c [OF that] by (simp add: w2_def)
  qed
  ultimately show ?case unfolding eq using k same by auto
qed simp

section \<open>Computing the priority\<close>

text \<open>Up to the fields that matching sets, \<open>q'\<close> holds the requests of \<open>q\<close> in another order.\<close>

definition reordered :: "sched_req list \<Rightarrow> sched_req list \<Rightarrow> bool" where
  "reordered q q' \<longleftrightarrow> (\<exists>p. list_all2 same_req q p \<and> mset q' = mset p)"

lemma reorderedI: "list_all2 same_req q p \<Longrightarrow> mset q' = mset p \<Longrightarrow> reordered q q'"
  by (auto simp: reordered_def)

lemma reordered_rids: "reordered q q' \<Longrightarrow> mset (map rid q') = mset (map rid q)"
proof -
  have "map rid p = map rid q" if "list_all2 same_req q p" for p
    using that by (induction) (simp_all add: same_req_def)
  then show "reordered q q' \<Longrightarrow> mset (map rid q') = mset (map rid q)"
    unfolding reordered_def by (metis mset_map)
qed

text \<open>Every sort of the cache-agnostic policies permutes the queue, and fails only on a missing priority.\<close>

lemma with_priorities_Inr [simp]: "with_priorities q x = Inr y \<longleftrightarrow> y = x \<and> (\<forall>r \<in> set q. req_priority r \<noteq> None)"
  by (auto simp: with_priorities_def)

lemma sorts_permute:
  "sort_by_longest_output p s q = Inr q' \<Longrightarrow> mset q' = mset q"
  "sort_by_priority_and_fcfs s q = Inr q' \<Longrightarrow> mset q' = mset q"
  "mset (sort_by_routing_key rs q) = mset q"
  by (auto simp: sort_by_longest_output_def sort_by_priority_and_fcfs_def sort_by_routing_key_def Let_def split: if_splits)

definition needs_priority :: "schedule_policy \<Rightarrow> bool" where
  "needs_priority sp \<longleftrightarrow> enable_priority_scheduling sp \<and> (sp_policy sp = FCFS \<or> sp_policy sp = LOF)"

lemma same_req_priorities:
  "list_all2 same_req q p \<Longrightarrow> \<forall>r \<in> set q. req_priority r \<noteq> None \<Longrightarrow> \<forall>r \<in> set p. req_priority r \<noteq> None"
  by (induction rule: list_all2_induct) (simp_all add: same_req_def)

lemma sort_LOF:
  assumes "by_prio \<longrightarrow> (\<forall>r \<in> set q. req_priority r \<noteq> None)"
  shows "\<exists>q'. sort_by_longest_output by_prio s q = Inr q' \<and> mset q' = mset q"
  using assms by (simp add: sort_by_longest_output_def)

lemma sort_FCFS:
  assumes "\<forall>r \<in> set q. req_priority r \<noteq> None"
  shows "\<exists>q'. sort_by_priority_and_fcfs s q = Inr q' \<and> mset q' = mset q"
  using assms by (simp add: sort_by_priority_and_fcfs_def)

definition policy_ok :: "schedule_policy \<Rightarrow> bool" where
  "policy_ok sp \<longleftrightarrow> (let wt = waiting_queue_radix_tree sp in page_size wt = 1 \<and> \<not> is_eagle wt \<and> \<not> disable wt)"

lemma sim_ok_reset: "policy_ok sp \<Longrightarrow> sim_ok (rc_reset clk (waiting_queue_radix_tree sp))"
  using rc_reset_ok [of "waiting_queue_radix_tree sp" clk] by (simp add: policy_ok_def sim_ok_def Let_def rc_reset_def)

text \<open>The queue before the policy-specific sort.\<close>

lemma refresh_ok:
  assumes "cache_ok H c" "\<not> disable c"
  shows "\<exists>q' c'. (if b then match_all env clk now k q c else Inr (q, c)) = Inr (q', c') \<and> cache_ok H c' \<and>
    \<not> disable c' \<and> list_all2 same_req q q'"
  using match_all_ok [OF assms, of env clk now k q] assms
  by (cases b) (auto intro!: list_all2_refl)

lemma calc_priority_aware:
  assumes "cache_ok H c" "\<not> disable c" "policy_ok sp"
  shows "\<exists>q1 c1 wt D. compute_prefix_matches env clk wclk now q c (waiting_queue_radix_tree sp) = Inr (q1, c1, wt, D) \<and>
    cache_ok H c1 \<and> \<not> disable c1 \<and> sim_ok wt \<and> list_all2 same_req q q1 \<and>
    mset (sort_by_longest_prefix D q1) = mset q1 \<and> mset (sort_by_dfs_weight (root_node c1) q1) = mset q1"
proof -
  obtain q1 c1 wt D where l: "prefix_match_loop env clk wclk now 0 q c (rc_reset wclk (waiting_queue_radix_tree sp)) = Inr (q1, c1, wt, D)"
    "cache_ok H c1" "\<not> disable c1" "sim_ok wt" "list_all2 same_req q q1"
    "\<forall>r \<in> set q1. \<exists>n. last_node r = Some n \<and> n \<in> ids (root_node c1)"
    using prefix_match_loop_ok [OF assms(1,2) sim_ok_reset [OF assms(3)]] by metis
  have "uniq (next_id c1) (view (root_node c1))" using l(2) by (simp add: cache_ok_def acct_ok_def)
  from sort_by_dfs_weight_permutes [OF this l(6)] l show ?thesis
    by (auto simp: compute_prefix_matches_def sort_by_longest_prefix_sorted)
qed

theorem calc_priority_correct:
  assumes "cache_ok H c" "\<not> disable c" "policy_ok sp" "\<forall>xs. mset (shuffle xs) = mset xs"
    and "needs_priority sp \<longrightarrow> (\<forall>r \<in> set q. req_priority r \<noteq> None)"
  shows "\<exists>q' c' sp'. calc_priority env clk wclk now shuffle running sp q c = Inr (q', c', sp') \<and>
    reordered q q' \<and> cache_ok H c' \<and> \<not> disable c' \<and> policy_ok sp'"
proof -
  let ?pol = "determine_active_policy sp q"
  obtain q1 c1 where m: "(if \<not> is_cache_aware ?pol \<and> fast_match_prefix env \<and> \<not> is_decode_instance env
      then match_all env clk now 0 q c else Inr (q, c)) = Inr (q1, c1)" "cache_ok H c1" "\<not> disable c1" "list_all2 same_req q q1"
    using refresh_ok [OF assms(1,2)] by metis
  have same: ?thesis if "calc_priority env clk wclk now shuffle running sp q c = Inr (q', c1, sp)" "mset q' = mset q1" for q'
    using that m assms(3) by (blast intro: reorderedI)
  have pr: "needs_priority sp \<longrightarrow> (\<forall>r \<in> set q1. req_priority r \<noteq> None)"
    using assms(5) same_req_priorities [OF m(4)] by blast
  consider (fcfs) "sp_policy sp = FCFS" | (aware) "sp_policy sp \<noteq> FCFS" "is_cache_aware ?pol"
    | (agn) "sp_policy sp \<noteq> FCFS" "\<not> is_cache_aware ?pol" by blast
  then show ?thesis
  proof cases
    case fcfs
    obtain q' where "(if enable_priority_scheduling sp then sort_by_priority_and_fcfs (priority_sign sp) q1 else Inr q1) = Inr q'"
      "mset q' = mset q1"
      using sort_FCFS [of q1 "priority_sign sp"] pr fcfs unfolding needs_priority_def
      by (cases "enable_priority_scheduling sp") auto
    then show ?thesis using m(1) fcfs by (intro same [of q']) (simp_all add: calc_priority_def Let_def)
  next
    case aware
    then have "q1 = q" "c1 = c" using m(1) by simp_all
    obtain q2 c2 wt D where p: "compute_prefix_matches env clk wclk now q c (waiting_queue_radix_tree sp) = Inr (q2, c2, wt, D)"
      "cache_ok H c2" "\<not> disable c2" "sim_ok wt" "list_all2 same_req q q2"
      "mset (sort_by_longest_prefix D q2) = mset q2" "mset (sort_by_dfs_weight (root_node c2) q2) = mset q2"
      using calc_priority_aware [OF assms(1-3)] by metis
    let ?q = "if ?pol = LPM then sort_by_longest_prefix D q2 else sort_by_dfs_weight (root_node c2) q2"
    have "calc_priority env clk wclk now shuffle running sp q c = Inr (?q, c2, sp\<lparr>waiting_queue_radix_tree := wt\<rparr>)"
      using aware p(1) by (simp add: calc_priority_def Let_def)
    moreover have "reordered q ?q" by (rule reorderedI [OF p(5)]) (simp add: p(6,7))
    moreover have "policy_ok (sp\<lparr>waiting_queue_radix_tree := wt\<rparr>)" using p(4) by (simp add: policy_ok_def sim_ok_def)
    ultimately show ?thesis using p(2,3) by blast
  next
    case agn
    have lof: "\<exists>q'. sort_by_longest_output (enable_priority_scheduling sp) (priority_sign sp) q1 = Inr q' \<and> mset q' = mset q1"
      if "?pol = LOF"
      using that pr by (intro sort_LOF) (auto simp: needs_priority_def determine_active_policy_def split: if_splits)
    then obtain q' where "(case ?pol of
                  LOF \<Rightarrow> sort_by_longest_output (enable_priority_scheduling sp) (priority_sign sp) q1
                | RANDOM \<Rightarrow> Inr (shuffle q1)
                | ROUTING_KEY \<Rightarrow> Inr (case running of None \<Rightarrow> q1 | Some rs \<Rightarrow> sort_by_routing_key rs q1)
                | _ \<Rightarrow> Inr q1) = Inr q'" "mset q' = mset q1"
      using assms(4) sorts_permute(3) by (cases ?pol; cases running) auto
    then show ?thesis using m(1) agn by (intro same [of q']) (simp_all add: calc_priority_def Let_def)
  qed
qed

end
