(* ===== verification/PrefillAdder.thy ===== *)
theory PrefillAdder
  imports SchedulePolicy "HOL-Library.Monad_Syntax"
begin

text \<open>
  \<open>PrefillAdder\<close> of \<open>python/sglang/srt/managers/schedule_policy.py\<close>: which requests of
  the waiting queue join the next prefill batch, and how much of each. It keeps budgets
  (total tokens, tokens needed now, input tokens, chunk tokens, sliding-window tokens,
  state slots), locks the matched prefix of every admitted request in the tree cache and
  may preempt running requests of lower priority.

  The adder is written against any tree cache and any allocator. Their operations are the
  record \<open>mem_ops\<close> over a memory state \<open>'s\<close>; \<open>radix_ops\<close> instantiates it with the radix
  cache and the paged allocator of this development. \<open>float\<close> values are exact rationals.
  Identity of requests is identity of their \<open>rid\<close>.
\<close>

section \<open>The interface to the memory\<close>

record 's mem_ops =
  op_available_size :: "'s \<Rightarrow> int"
  op_evictable_size :: "'s \<Rightarrow> int"
  op_full_available_size :: "'s \<Rightarrow> int"
  op_full_evictable_size :: "'s \<Rightarrow> int"
  op_swa_available_size :: "'s \<Rightarrow> int"
  op_swa_evictable_size :: "'s \<Rightarrow> int"
  op_inc_lock_ref :: "nat option \<Rightarrow> 's \<Rightarrow> 's res"
  op_dec_lock_ref :: "nat option \<Rightarrow> 's \<Rightarrow> 's res"
  op_init_load_back :: "sched_req \<Rightarrow> 's \<Rightarrow> (nat list \<times> nat option \<times> 's) res"
  op_negotiate :: "nat \<Rightarrow> int \<Rightarrow> int option \<Rightarrow> nat \<Rightarrow> 's \<Rightarrow> bool \<times> 's"
  op_release_req :: "sched_req \<Rightarrow> nat \<Rightarrow> 's \<Rightarrow> (sched_req \<times> 's) res"
  tree_disable :: bool
  sliding_window_size :: int
  size_swa :: int

text \<open>Module constants and environment switches.\<close>

record adder_env =
  CLIP_MAX_NEW_TOKENS :: int
  IGNORE_EOS_RESERVE_TOKENS :: int
  IS_HIP :: bool
  PREFILL_TILE_BUDGET :: int
  tile_mode_legacy :: bool

datatype add_req_result = CONTINUE | NO_TOKEN | OTHER

section \<open>State\<close>

record 's adder =
  pa_page_size :: int
  prefill_tile_block_m :: int
  new_token_ratio :: rat
  rem_input_tokens :: int
  rem_chunk_tokens :: "int option"
  dllm_block_size :: "int option"
  rem_dllm_tokens :: int
  rem_total_token_offset :: rat
  cur_rem_token_offset :: int
  req_states :: "(rat \<times> int) list option"
  can_run_list :: "sched_req list"
  preempt_list :: "sched_req list"
  new_chunked_req :: "sched_req option"
  log_hit_tokens :: int
  reprocessed_log_hit_tokens :: int
  log_device_hit_tokens :: int
  log_host_hit_tokens :: int
  log_storage_hit_tokens :: int
  log_input_tokens :: int
  reprocessed_log_input_tokens :: int
  is_hybrid_swa :: bool
  is_all_swa :: bool
  is_hybrid_ssm_cache :: bool
  rem_swa_token_offset :: int
  mamba_slot_cost :: int
  rem_mamba_slots :: "int option"
  preemption_threshold :: int
  dsa_prefill_cp_in_seq_split :: bool
  max_running_requests :: "int option"
  prefill_max_requests :: "int option"
  has_delayer :: bool
  max_prefill_bs :: int
  waiting_queue_len :: nat
  running_reqs :: "sched_req list option"
  mem :: 's

text \<open>The arguments of the constructor that are not stored as they are.\<close>

record 's adder_args =
  arg_page_size :: int
  arg_new_token_ratio :: rat
  arg_rem_input_tokens :: int
  arg_rem_chunk_tokens :: "int option"
  arg_num_mixed_decode_tokens :: int
  arg_preemption_threshold :: int
  arg_max_prefill_bs :: int
  arg_max_running_requests :: "int option"
  arg_prefill_max_requests :: "int option"
  arg_has_delayer :: bool
  arg_dllm :: "(int \<times> int) option"
  arg_waiting_queue_len :: nat
  arg_prefill_tile_block_m :: int
  arg_is_hybrid_swa :: bool
  arg_is_all_swa :: bool
  arg_is_hybrid_ssm_cache :: bool
  arg_mamba_slot_cost :: int
  arg_mamba_schedulable :: int
  arg_mamba_evictable :: int
  arg_dsa_split :: bool
  arg_running :: "sched_req list option"
  arg_mem :: 's

definition running_request_total_token_offset :: "adder_env \<Rightarrow> rat \<Rightarrow> sched_req \<Rightarrow> rat" where
  "running_request_total_token_offset env ratio r =
     of_int (min (max_new_tokens r - int (length (output_ids r))) (CLIP_MAX_NEW_TOKENS env)) * ratio"

definition init_adder :: "adder_env \<Rightarrow> 's adder_args \<Rightarrow> 's adder" where
  "init_adder env a =
     \<lparr>pa_page_size = arg_page_size a, prefill_tile_block_m = arg_prefill_tile_block_m a,
      new_token_ratio = arg_new_token_ratio a,
      rem_input_tokens = arg_rem_input_tokens a - arg_num_mixed_decode_tokens a,
      rem_chunk_tokens = map_option (\<lambda>k. k - arg_num_mixed_decode_tokens a) (arg_rem_chunk_tokens a),
      dllm_block_size = map_option fst (arg_dllm a),
      rem_dllm_tokens = (case arg_dllm a of None \<Rightarrow> 0 | Some (block, max_reqs) \<Rightarrow> max_reqs * block),
      rem_total_token_offset = of_int (arg_num_mixed_decode_tokens a) +
        (case arg_running a of None \<Rightarrow> 0
         | Some rs \<Rightarrow> (\<Sum>r\<leftarrow>rs. running_request_total_token_offset env (arg_new_token_ratio a) r)),
      cur_rem_token_offset = arg_num_mixed_decode_tokens a,
      req_states = None, can_run_list = [], preempt_list = [], new_chunked_req = None,
      log_hit_tokens = 0, reprocessed_log_hit_tokens = 0, log_device_hit_tokens = 0,
      log_host_hit_tokens = 0, log_storage_hit_tokens = 0, log_input_tokens = 0,
      reprocessed_log_input_tokens = 0,
      is_hybrid_swa = arg_is_hybrid_swa a, is_all_swa = arg_is_all_swa a,
      is_hybrid_ssm_cache = arg_is_hybrid_ssm_cache a,
      rem_swa_token_offset = 0, mamba_slot_cost = arg_mamba_slot_cost a,
      rem_mamba_slots =
        (if arg_mamba_slot_cost a \<noteq> 0
         then Some (arg_mamba_schedulable a + (if arg_is_hybrid_ssm_cache a then arg_mamba_evictable a else 0))
         else None),
      preemption_threshold = arg_preemption_threshold a,
      dsa_prefill_cp_in_seq_split = arg_dsa_split a,
      max_running_requests = arg_max_running_requests a,
      prefill_max_requests = arg_prefill_max_requests a,
      has_delayer = arg_has_delayer a, max_prefill_bs = arg_max_prefill_bs a,
      waiting_queue_len = arg_waiting_queue_len a, running_reqs = arg_running a, mem = arg_mem a\<rparr>"

section \<open>Budgets\<close>

text \<open>\<open>int(x)\<close> of a float truncates towards zero.\<close>

definition py_int :: "rat \<Rightarrow> int" where
  "py_int x = (if 0 \<le> x then \<lfloor>x\<rfloor> else \<lceil>x\<rceil>)"

definition available_and_evictable :: "'s mem_ops \<Rightarrow> 's adder \<Rightarrow> int" where
  "available_and_evictable ops pa =
     (if is_all_swa pa then op_swa_available_size ops (mem pa) + op_swa_evictable_size ops (mem pa)
      else if is_hybrid_swa pa then op_full_available_size ops (mem pa) + op_full_evictable_size ops (mem pa)
      else if is_hybrid_ssm_cache pa then op_available_size ops (mem pa) + op_full_evictable_size ops (mem pa)
      else op_available_size ops (mem pa) + op_evictable_size ops (mem pa))"

definition rem_total_tokens :: "'s mem_ops \<Rightarrow> 's adder \<Rightarrow> rat" where
  "rem_total_tokens ops pa = of_int (available_and_evictable ops pa) - rem_total_token_offset pa"

definition rem_swa_tokens :: "'s mem_ops \<Rightarrow> 's adder \<Rightarrow> int" where
  "rem_swa_tokens ops pa =
     op_swa_available_size ops (mem pa) + op_swa_evictable_size ops (mem pa) - rem_swa_token_offset pa"

definition cur_rem_tokens :: "'s mem_ops \<Rightarrow> 's adder \<Rightarrow> int" where
  "cur_rem_tokens ops pa = available_and_evictable ops pa - cur_rem_token_offset pa"

definition ceil_paged_tokens :: "'s adder \<Rightarrow> int \<Rightarrow> int" where
  "ceil_paged_tokens pa tokens = - ((- tokens) div pa_page_size pa) * pa_page_size pa"

definition swa_reserved_tokens :: "'s mem_ops \<Rightarrow> 's adder \<Rightarrow> int \<Rightarrow> int \<Rightarrow> int \<Rightarrow> int" where
  "swa_reserved_tokens ops pa extend_len max_new swa_host_hit =
     (let headroom = min (extend_len + max_new) (sliding_window_size ops);
          reserved = headroom + pa_page_size pa
      in if swa_host_hit > 0 then reserved + ceil_paged_tokens pa swa_host_hit else reserved)"

definition swa_budget_for_req :: "'s mem_ops \<Rightarrow> 's adder \<Rightarrow> int \<Rightarrow> int \<Rightarrow> int \<Rightarrow> int" where
  "swa_budget_for_req ops pa extend_len max_new swa_host_hit =
     (let alloc = (case rem_chunk_tokens pa of Some k \<Rightarrow> min extend_len k | None \<Rightarrow> extend_len)
      in max (alloc - sliding_window_size ops) 0 + swa_reserved_tokens ops pa extend_len max_new swa_host_hit)"

definition swa_new_tokens :: "adder_env \<Rightarrow> sched_req \<Rightarrow> int" where
  "swa_new_tokens env r = min (max (max_new_tokens r - int (length (output_ids r))) 0) (CLIP_MAX_NEW_TOKENS env)"

definition swa_chunk_cap :: "'s mem_ops \<Rightarrow> 's adder \<Rightarrow> int \<Rightarrow> int \<Rightarrow> int" where
  "swa_chunk_cap ops pa max_new swa_host_hit =
     (let cap = rem_swa_tokens ops pa - swa_reserved_tokens ops pa 0 max_new swa_host_hit
      in if cap \<le> 0 then 0 else cap div pa_page_size pa * pa_page_size pa)"

definition swa_req_never_fits :: "'s mem_ops \<Rightarrow> 's adder \<Rightarrow> int \<Rightarrow> int \<Rightarrow> int \<Rightarrow> bool" where
  "swa_req_never_fits ops pa extend_len max_new swa_host_hit \<longleftrightarrow>
     size_swa ops \<le> swa_budget_for_req ops pa extend_len max_new swa_host_hit"

definition mamba_gap_budget_for_req :: "'s adder \<Rightarrow> sched_req \<Rightarrow> int" where
  "mamba_gap_budget_for_req pa r =
     (if mamba_slot_cost pa \<noteq> 0 \<and> mamba_pool_idx r = None then mamba_slot_cost pa else 0)"

definition budget_state :: "'s mem_ops \<Rightarrow> 's adder \<Rightarrow> add_req_result" where
  "budget_state ops pa =
     (if (rem_total_tokens ops pa \<le> 0 \<or> cur_rem_tokens ops pa \<le> 0) \<or>
         (is_hybrid_swa pa \<and> rem_swa_tokens ops pa \<le> 0) \<or>
         (case rem_mamba_slots pa of None \<Rightarrow> False | Some k \<Rightarrow> k \<le> 0) then NO_TOKEN
      else if rem_input_tokens pa \<le> 0 then OTHER
      else if dllm_block_size pa \<noteq> None then (if rem_dllm_tokens pa \<le> 0 then OTHER else CONTINUE)
      else (case rem_chunk_tokens pa of Some k \<Rightarrow> if k \<le> 0 then OTHER else CONTINUE | None \<Rightarrow> CONTINUE))"

definition split_cached_prefix_by_tier :: "int \<Rightarrow> int \<Rightarrow> int \<Rightarrow> int \<times> int \<times> int" where
  "split_cached_prefix_by_tier prefix host_hit storage_hit =
     (let storage = min host_hit storage_hit; host = host_hit - storage; device = max 0 (prefix - host_hit)
      in (device, host, storage))"

definition update_logs :: "int \<Rightarrow> int \<Rightarrow> bool \<Rightarrow> int \<Rightarrow> int \<Rightarrow> 's adder \<Rightarrow> 's adder" where
  "update_logs prefix extend_len stain host_hit storage_hit pa0 =
     (let pa = pa0\<lparr>log_hit_tokens := log_hit_tokens pa0 + prefix,
                   log_input_tokens := log_input_tokens pa0 + extend_len\<rparr>
      in if stain then
           pa\<lparr>reprocessed_log_hit_tokens := reprocessed_log_hit_tokens pa + prefix,
              reprocessed_log_input_tokens := reprocessed_log_input_tokens pa + extend_len\<rparr>
         else if prefix > 0 then
           (let (device, host, storage) = split_cached_prefix_by_tier prefix host_hit storage_hit in
            pa\<lparr>log_device_hit_tokens := log_device_hit_tokens pa + device,
               log_host_hit_tokens := log_host_hit_tokens pa + host,
               log_storage_hit_tokens := log_storage_hit_tokens pa + storage\<rparr>)
         else pa)"

definition update_prefill_budget ::
  "'s mem_ops \<Rightarrow> int \<Rightarrow> int \<Rightarrow> int \<Rightarrow> bool \<Rightarrow> int \<Rightarrow> int \<Rightarrow> int \<Rightarrow> 's adder \<Rightarrow> 's adder" where
  "update_prefill_budget ops prefix extend_len0 max_new stain gap host_hit storage_hit pa =
     (let extend_len = ceil_paged_tokens pa extend_len0;
          page_overhead = pa_page_size pa;
          pa1 = pa\<lparr>rem_total_token_offset :=
                     rem_total_token_offset pa + of_int (extend_len + max_new + page_overhead + gap),
                   cur_rem_token_offset := cur_rem_token_offset pa + (extend_len + page_overhead + gap)\<rparr>;
          pa2 = (if gap \<noteq> 0 then pa1\<lparr>rem_mamba_slots := map_option (\<lambda>k. k - 1) (rem_mamba_slots pa1)\<rparr> else pa1);
          pa3 = pa2\<lparr>rem_input_tokens := rem_input_tokens pa2 - extend_len\<rparr>;
          pa4 = (if is_hybrid_swa pa3
                 then pa3\<lparr>rem_swa_token_offset := rem_swa_token_offset pa3 + swa_budget_for_req ops pa3 extend_len max_new 0\<rparr>
                 else pa3);
          pa5 = (if dllm_block_size pa4 \<noteq> None then pa4\<lparr>rem_dllm_tokens := rem_dllm_tokens pa4 - extend_len\<rparr>
                 else pa4\<lparr>rem_chunk_tokens := map_option (\<lambda>k. k - extend_len) (rem_chunk_tokens pa4)\<rparr>)
      in update_logs prefix extend_len stain host_hit storage_hit pa5)"

section \<open>The tile budget\<close>

text \<open>\<open>getattr(req, "extend_input_len", 0)\<close>: \<open>Req\<close> has no attribute of that name, so the
  default is what every request contributes.\<close>

definition admitted_extend_lens :: "'s adder \<Rightarrow> int list" where
  "admitted_extend_lens pa = map (\<lambda>r. 0) (can_run_list pa)"

definition candidate_tile_metrics :: "'s adder \<Rightarrow> int \<Rightarrow> tile_metrics" where
  "candidate_tile_metrics pa cand =
     estimate_prefill_extend_tile_metrics (admitted_extend_lens pa @ [cand]) (prefill_tile_block_m pa)"

definition tile_admission_metric :: "adder_env \<Rightarrow> tile_metrics \<Rightarrow> int" where
  "tile_admission_metric env m =
     (if tile_mode_legacy env then legacy_q_tiles_per_head m else compact_q_tiles_per_head m)"

definition check_prefill_tile_budget :: "adder_env \<Rightarrow> 's adder \<Rightarrow> int \<Rightarrow> add_req_result option" where
  "check_prefill_tile_budget env pa cand =
     (if \<not> IS_HIP env \<or> PREFILL_TILE_BUDGET env \<le> 0 then None
      else if can_run_list pa = [] then None
      else if tile_admission_metric env (candidate_tile_metrics pa cand) \<le> PREFILL_TILE_BUDGET env then None
      else Some OTHER)"

section \<open>Requests\<close>

definition cand_extend_input_len :: "sched_req \<Rightarrow> int" where
  "cand_extend_input_len r = int (length (full_untruncated_fill_ids r)) - int (length (prefix_indices r))"

definition set_extend_range :: "int \<Rightarrow> int \<Rightarrow> sched_req \<Rightarrow> sched_req" where
  "set_extend_range s e r = r\<lparr>extend_start := s, extend_end := e\<rparr>"

definition extend_range_length :: "sched_req \<Rightarrow> int" where
  "extend_range_length r = extend_end r - extend_start r"

definition needs_host_load_back :: "sched_req \<Rightarrow> bool" where
  "needs_host_load_back r \<longleftrightarrow> host_hit_length r > 0 \<or> swa_host_hit_length r > 0 \<or> mamba_host_hit_length r > 0"

definition clipped_max_new :: "adder_env \<Rightarrow> sched_req \<Rightarrow> int" where
  "clipped_max_new env r = min (max_new_tokens r) (CLIP_MAX_NEW_TOKENS env)"

definition append_run :: "sched_req \<Rightarrow> 's adder \<Rightarrow> 's adder" where
  "append_run r pa = pa\<lparr>can_run_list := can_run_list pa @ [r]\<rparr>"

text \<open>The delayer reads the size of the running batch, which must exist.\<close>

definition negotiate :: "'s mem_ops \<Rightarrow> 's adder \<Rightarrow> (bool \<times> 's adder) res" where
  "negotiate ops pa =
     (if \<not> has_delayer pa then Inr (True, pa)
      else case running_reqs pa of
        None \<Rightarrow> Inl AttributeError
      | Some rs \<Rightarrow>
          (let (ok, m) = op_negotiate ops (length rs) (max_prefill_bs pa) (max_running_requests pa)
                           (waiting_queue_len pa) (mem pa)
           in Inr (ok, pa\<lparr>mem := m\<rparr>)))"

section \<open>Diffusion requests\<close>

definition get_dllm_remain_tokens :: "'s mem_ops \<Rightarrow> int \<Rightarrow> 's adder \<Rightarrow> int" where
  "get_dllm_remain_tokens ops block pa =
     (let k = min (min (rem_dllm_tokens pa) block) (py_int (rem_total_tokens ops pa))
      in if k \<le> 0 then rem_dllm_tokens pa else k)"

definition add_dllm_req :: "'s mem_ops \<Rightarrow> int \<Rightarrow> sched_req \<Rightarrow> int \<Rightarrow> 's adder \<Rightarrow> sched_req \<times> 's adder" where
  "add_dllm_req ops block r0 prefix pa =
     (let trunc_len = min (rem_dllm_tokens pa) block div pa_page_size pa * pa_page_size pa;
          r = set_extend_range prefix (prefix + trunc_len) r0
      in (r, update_prefill_budget ops prefix trunc_len 0 (retracted_stain r) (mamba_gap_budget_for_req pa r)
               (int (host_hit_length r)) (int (storage_hit_length r)) (append_run r pa)))"

definition add_dllm_staging_req ::
  "'s mem_ops \<Rightarrow> adder_env \<Rightarrow> sched_req \<Rightarrow> 's adder \<Rightarrow> (add_req_result \<times> sched_req \<times> 's adder) res" where
  "add_dllm_staging_req ops env r0 pa =
     (case dllm_block_size pa of
        None \<Rightarrow> Inl AssertionError
      | Some block \<Rightarrow>
          (let rem = get_dllm_remain_tokens ops block pa; cand = cand_extend_input_len r0 in
           if rem \<le> 0 then Inr (NO_TOKEN, r0, pa)
           else if dllm_incomplete_ids r0 \<noteq> [] \<and> cand > rem then Inr (NO_TOKEN, r0, pa)
           else
             (let new_len = min cand rem; p = int (length (prefix_indices r0));
                  r = set_extend_range p (p + new_len) r0;
                  max_new = (if cand > rem then 0 else clipped_max_new env r);
                  pa' = update_prefill_budget ops 0 (extend_range_length r) max_new (retracted_stain r)
                          (mamba_gap_budget_for_req pa r) 0 0 (append_run r pa)
              in Inr (if get_dllm_remain_tokens ops block pa' \<le> 0 then NO_TOKEN else CONTINUE, r, pa'))))"

section \<open>The chunked request\<close>

text \<open>The result is the request if its prefill is still not finished. Without a diffusion
  model \<open>rem_chunk_tokens\<close> must be set: \<open>min(None, ...)\<close> raises.\<close>

definition chunk_rem_tokens :: "'s mem_ops \<Rightarrow> 's adder \<Rightarrow> int option res" where
  "chunk_rem_tokens ops pa =
     (case dllm_block_size pa of
        Some block \<Rightarrow> Inr (Some (get_dllm_remain_tokens ops block pa))
      | None \<Rightarrow>
          (case rem_chunk_tokens pa of
             None \<Rightarrow> Inl TypeError
           | Some chunk \<Rightarrow>
               (let k0 = min chunk (py_int (rem_total_tokens ops pa));
                    k = (if is_hybrid_swa pa then min k0 (rem_swa_tokens ops pa - pa_page_size pa) else k0)
                in Inr (if k \<le> 0 then (if is_hybrid_swa pa then None else Some chunk) else Some k))))"

definition add_chunked_req ::
  "'s mem_ops \<Rightarrow> adder_env \<Rightarrow> sched_req \<Rightarrow> 's adder \<Rightarrow> (bool \<times> sched_req \<times> 's adder) res" where
  "add_chunked_req ops env r0 pa0 =
     bind_res (chunk_rem_tokens ops pa0) (\<lambda>rem_opt.
       case rem_opt of
         None \<Rightarrow> Inr (True, r0, pa0)
       | Some rem \<Rightarrow>
           bind_res (negotiate ops pa0) (\<lambda>(_, pa).
             let cand = cand_extend_input_len r0; new_len = min cand rem;
                 p = int (length (prefix_indices r0));
                 r = set_extend_range p (p + new_len) r0
             in Inr (cand > rem, r,
                  update_prefill_budget ops 0 (extend_range_length r) (if cand > rem then 0 else clipped_max_new env r)
                    (retracted_stain r) (mamba_gap_budget_for_req pa r) 0 0 (append_run r pa))))"

section \<open>Requests that ignore the end of sequence\<close>

definition insert_pos :: "rat \<Rightarrow> (rat \<times> int) list \<Rightarrow> nat" where
  "insert_pos tokens_left sts =
     (case find (\<lambda>i. tokens_left \<le> fst (sts ! i)) [0..<length sts] of
        Some i \<Rightarrow> i | None \<Rightarrow> length sts - 1)"

definition req_state :: "rat \<Rightarrow> sched_req \<Rightarrow> rat \<times> int" where
  "req_state ratio r =
     (of_int (max_new_tokens r) * (if ignore_eos r then 1 else ratio) - of_nat (length (output_ids r)),
      int (length (origin_input_ids r)) + int (length (output_ids r)))"

definition add_req_state :: "rat \<Rightarrow> bool \<Rightarrow> sched_req \<Rightarrow> (rat \<times> int) list \<Rightarrow> (rat \<times> int) list" where
  "add_req_state ratio insert_sort r sts =
     (let s = req_state ratio r in
      if fst s \<le> 0 then sts
      else if \<not> insert_sort then sts @ [s]
      else (let i = insert_pos (fst s) sts in take i sts @ [s] @ drop i sts))"

definition next_req_states :: "sched_req \<Rightarrow> 's adder \<Rightarrow> (rat \<times> int) list" where
  "next_req_states r pa =
     (case req_states pa of
        None \<Rightarrow>
          (let add = add_req_state (new_token_ratio pa) False;
               rs = [r] @ (case running_reqs pa of None \<Rightarrow> [] | Some rs \<Rightarrow> rs) @ can_run_list pa
           in sort_key fst (fold add rs []))
      | Some sts \<Rightarrow> add_req_state (new_token_ratio pa) True r sts)"

text \<open>Simulates the requests finishing in the order of their remaining tokens.\<close>

fun eos_fits :: "int \<Rightarrow> rat \<Rightarrow> rat \<Rightarrow> (rat \<times> int) list \<Rightarrow> bool" where
  "eos_fits reserve cur_rem freed [] = True"
| "eos_fits reserve cur_rem freed ((tokens_left, occupied) # sts) =
     (let bs = of_nat (length sts + 1) in
      if cur_rem + freed - tokens_left * bs \<le> of_int reserve * bs then False
      else eos_fits reserve cur_rem (freed + of_int occupied) sts)"

text \<open>What happens to an admissible request: diffusion, whole or chunked prefill.\<close>

definition admit_ignore_eos ::
  "'s mem_ops \<Rightarrow> adder_env \<Rightarrow> sched_req \<Rightarrow> 's adder \<Rightarrow> (add_req_result \<times> sched_req \<times> 's adder) res" where
  "admit_ignore_eos ops env r0 pa =
     (let cand = cand_extend_input_len r0; p = int (length (prefix_indices r0)) in
      case dllm_block_size pa of
        Some block \<Rightarrow>
          (if rem_dllm_tokens pa \<le> 0 then Inr (OTHER, r0, pa)
           else case check_prefill_tile_budget env pa cand of
             Some stop \<Rightarrow> Inr (stop, r0, pa)
           | None \<Rightarrow> (let (r, pa') = add_dllm_req ops block r0 0 pa in Inr (budget_state ops pa', r, pa')))
      | None \<Rightarrow>
          (if (case rem_chunk_tokens pa of None \<Rightarrow> True | Some k \<Rightarrow> cand \<le> k) then
             (case check_prefill_tile_budget env pa cand of
                Some stop \<Rightarrow> Inr (stop, r0, pa)
              | None \<Rightarrow>
                  (let r = set_extend_range p (int (length (full_untruncated_fill_ids r0))) r0;
                       pa' = update_prefill_budget ops 0 (extend_range_length r) (clipped_max_new env r) (retracted_stain r)
                               (mamba_gap_budget_for_req pa r) 0 0 (append_run r pa)
                   in Inr (budget_state ops pa', r, pa')))
           else
             (let trunc_len = the (rem_chunk_tokens pa) in
              if trunc_len \<le> 0 then Inr (OTHER, r0, pa)
              else case check_prefill_tile_budget env pa trunc_len of
                Some stop \<Rightarrow> Inr (stop, r0, pa)
              | None \<Rightarrow>
                  (if prefix_indices r0 \<noteq> [] then Inl AssertionError
                   else
                     (let r = set_extend_range p (p + trunc_len) r0;
                          pa' = update_prefill_budget ops 0 trunc_len 0 (retracted_stain r)
                                  (mamba_gap_budget_for_req pa r) 0 0
                                  ((append_run r pa)\<lparr>new_chunked_req := Some r\<rparr>)
                      in Inr (budget_state ops pa', r, pa'))))))"

definition add_one_req_ignore_eos ::
  "'s mem_ops \<Rightarrow> adder_env \<Rightarrow> sched_req \<Rightarrow> 's adder \<Rightarrow> (add_req_result \<times> sched_req \<times> 's adder) res" where
  "add_one_req_ignore_eos ops env r pa =
     (let cand = cand_extend_input_len r;
          paged_input = ceil_paged_tokens pa cand + mamba_gap_budget_for_req pa r
      in if of_int paged_input > min (of_int (cur_rem_tokens ops pa)) (rem_total_tokens ops pa) then Inr (NO_TOKEN, r, pa)
         else if is_hybrid_swa pa \<and> swa_budget_for_req ops pa cand (swa_new_tokens env r) 0 > rem_swa_tokens ops pa
         then Inr (NO_TOKEN, r, pa)
         else
           (let pa1 = pa\<lparr>req_states := Some (next_req_states r pa)\<rparr> in
            if \<not> is_hybrid_swa pa \<and>
               \<not> eos_fits (IGNORE_EOS_RESERVE_TOKENS env)
                   (of_int (cur_rem_tokens ops pa - ceil_paged_tokens pa cand)) 0 (next_req_states r pa)
            then Inr (NO_TOKEN, r, pa1)
            else bind_res (negotiate ops pa1) (\<lambda>(ok, pa2).
              if \<not> ok then Inr (OTHER, r, pa2) else admit_ignore_eos ops env r pa2)))"

section \<open>Adding one request\<close>

text \<open>\<open>_lock_node\<close>: the body runs with the node locked and the lock is released afterwards,
  whatever the body returns.\<close>

definition lock_node :: "'s mem_ops \<Rightarrow> nat option \<Rightarrow> ('s adder \<Rightarrow> ('a \<times> 's adder) res) \<Rightarrow> 's adder \<Rightarrow> ('a \<times> 's adder) res" where
  "lock_node ops n body pa =
     bind_res (op_inc_lock_ref ops n (mem pa)) (\<lambda>m1.
     bind_res (body (pa\<lparr>mem := m1\<rparr>)) (\<lambda>(x, pa2).
     map_res (\<lambda>m3. (x, pa2\<lparr>mem := m3\<rparr>)) (op_dec_lock_ref ops n (mem pa2))))"

definition req_inc_lock_ref :: "'s mem_ops \<Rightarrow> sched_req \<Rightarrow> 's adder \<Rightarrow> 's adder res" where
  "req_inc_lock_ref ops r pa = map_res (\<lambda>m. pa\<lparr>mem := m\<rparr>) (op_inc_lock_ref ops (last_node r) (mem pa))"

text \<open>The sliding-window gate: \<open>None\<close> rejects, \<open>Some l\<close> goes on with chunk limit \<open>l\<close>.\<close>

definition swa_gate :: "'s mem_ops \<Rightarrow> adder_env \<Rightarrow> sched_req \<Rightarrow> int \<Rightarrow> int option \<Rightarrow> 's adder \<Rightarrow> int option option" where
  "swa_gate ops env r real_input chunk_limit pa =
     (if \<not> is_hybrid_swa pa then Some chunk_limit
      else
        (let host = int (swa_host_hit_length r); new = swa_new_tokens env r;
             swa_needed = swa_budget_for_req ops pa real_input new host in
         if swa_needed < rem_swa_tokens ops pa then Some chunk_limit
         else if \<not> swa_req_never_fits ops pa real_input new host then None
         else
           (let cap = swa_chunk_cap ops pa new host in
            case rem_chunk_tokens pa of
              None \<Rightarrow> None
            | Some k \<Rightarrow> if cap \<le> 0 then None else Some (Some (min k cap)))))"

definition load_back :: "'s mem_ops \<Rightarrow> sched_req \<Rightarrow> 's adder \<Rightarrow> (sched_req \<times> 's adder) res" where
  "load_back ops r pa =
     (if needs_host_load_back r then
        map_res (\<lambda>(new_indices, n, m).
            (r\<lparr>prefix_indices := prefix_indices r @ new_indices, last_node := n,
               cache_protected_len := length (prefix_indices r @ new_indices)\<rparr>, pa\<lparr>mem := m\<rparr>))
          (op_init_load_back ops r (mem pa))
      else Inr (r, pa))"

text \<open>The length of a chunk: at most the limit, a multiple of the alignment size, and such
  that the prefill ends on a page boundary. \<open>None\<close> when nothing is left.\<close>

definition chunk_trunc_len :: "int \<Rightarrow> int option \<Rightarrow> int \<Rightarrow> int \<Rightarrow> int option" where
  "chunk_trunc_len p align_size key_limit prefix =
     (let t0 = key_limit div p * p in
      if t0 \<le> 0 then None
      else
        (case align_size of
           Some a \<Rightarrow> if t0 < a then None else Some (a * (t0 div a))
         | None \<Rightarrow> Some t0) \<bind>
        (\<lambda>t1. let now_input_len = (t1 + prefix) div p * p; t = now_input_len - prefix
              in if t \<le> 0 then None else Some t))"

text \<open>The end of the locked region: diffusion, whole or chunked prefill. \<open>None\<close> goes on
  after the region.\<close>

definition admit_locked ::
  "'s mem_ops \<Rightarrow> adder_env \<Rightarrow> int option \<Rightarrow> int option \<Rightarrow> int \<Rightarrow> sched_req \<Rightarrow> 's adder
     \<Rightarrow> ((add_req_result option \<times> sched_req) \<times> 's adder) res" where
  "admit_locked ops env align_size chunk_limit input_tokens r0 pa =
     (let p = int (length (prefix_indices r0)); gap = mamba_gap_budget_for_req pa r0;
          host = int (host_hit_length r0); storage = int (storage_hit_length r0) in
      case dllm_block_size pa of
        Some block \<Rightarrow>
          (if rem_dllm_tokens pa \<le> 0 then Inr ((Some OTHER, r0), pa)
           else if align_size \<noteq> None then Inl AssertionError
           else case check_prefill_tile_budget env pa input_tokens of
             Some stop \<Rightarrow> Inr ((Some stop, r0), pa)
           | None \<Rightarrow>
               (let (r, pa') = add_dllm_req ops block r0 p pa in
                map_res (\<lambda>pa''. ((None, r), pa'')) (req_inc_lock_ref ops r pa')))
      | None \<Rightarrow>
          (if (case chunk_limit of None \<Rightarrow> True | Some k \<Rightarrow> input_tokens \<le> k) then
             (case check_prefill_tile_budget env pa input_tokens of
                Some stop \<Rightarrow> Inr ((Some stop, r0), pa)
              | None \<Rightarrow>
                  (let r = set_extend_range p (int (length (full_untruncated_fill_ids r0))) r0 in
                   map_res (\<lambda>pa'. ((None, r),
                       update_prefill_budget ops p input_tokens (clipped_max_new env r) (retracted_stain r) gap host storage pa'))
                     (req_inc_lock_ref ops r (append_run r pa))))
           else
             (case chunk_trunc_len (pa_page_size pa) align_size (the chunk_limit) p of
                None \<Rightarrow> Inr ((Some OTHER, r0), pa)
              | Some trunc_len \<Rightarrow>
                  (case check_prefill_tile_budget env pa trunc_len of
                     Some stop \<Rightarrow> Inr ((Some stop, r0), pa)
                   | None \<Rightarrow>
                       (let r = set_extend_range p (p + trunc_len) r0 in
                        map_res (\<lambda>pa'. ((None, r),
                            update_prefill_budget ops p trunc_len 0 (retracted_stain r) gap host storage pa'))
                          (req_inc_lock_ref ops r ((append_run r pa)\<lparr>new_chunked_req := Some r\<rparr>)))))))"

definition locked_region ::
  "'s mem_ops \<Rightarrow> adder_env \<Rightarrow> int option \<Rightarrow> rat \<Rightarrow> int \<Rightarrow> int option \<Rightarrow> sched_req \<Rightarrow> 's adder
     \<Rightarrow> ((add_req_result option \<times> sched_req) \<times> 's adder) res" where
  "locked_region ops env align_size needed_tokens real_input chunk_limit0 r0 pa0 =
     (if needed_tokens \<ge> rem_total_tokens ops pa0 then Inr ((Some NO_TOKEN, r0), pa0)
      else case swa_gate ops env r0 real_input chunk_limit0 pa0 of
        None \<Rightarrow> Inr ((Some NO_TOKEN, r0), pa0)
      | Some chunk_limit \<Rightarrow>
          bind_res (negotiate ops pa0) (\<lambda>(ok, pa1).
            if \<not> ok then Inr ((Some OTHER, r0), pa1)
            else bind_res (load_back ops r0 pa1) (\<lambda>(r, pa).
              let input_tokens = ceil_paged_tokens pa (cand_extend_input_len r) in
              if rem_chunk_tokens pa = None \<and> can_run_list pa \<noteq> [] \<and> input_tokens \<ge> rem_input_tokens pa
              then Inr ((Some OTHER, r), pa)
              else admit_locked ops env align_size chunk_limit input_tokens r pa)))"

definition add_one_req ::
  "'s mem_ops \<Rightarrow> adder_env \<Rightarrow> sched_req \<Rightarrow> int option \<Rightarrow> 's adder \<Rightarrow> (add_req_result \<times> sched_req \<times> 's adder) res" where
  "add_one_req ops env r align_size pa =
     (if dsa_prefill_cp_in_seq_split pa \<and> length (can_run_list pa) \<ge> 1 then Inr (OTHER, r, pa)
      else if (case prefill_max_requests pa of None \<Rightarrow> False | Some x \<Rightarrow> int (length (can_run_list pa)) \<ge> x)
      then Inr (OTHER, r, pa)
      else if ignore_eos r \<and> tree_disable ops then add_one_req_ignore_eos ops env r pa
      else
        (let max_new = min (max (max_new_tokens r - int (length (output_ids r))) 0) (CLIP_MAX_NEW_TOKENS env);
             cand = cand_extend_input_len r;
             needed_tokens = of_int (cand + max_new + pa_page_size pa + mamba_gap_budget_for_req pa r);
             real_input = ceil_paged_tokens pa (cand - int (host_hit_length r))
         in if needed_tokens \<ge> rem_total_tokens ops pa then Inr (NO_TOKEN, r, pa)
            else case swa_gate ops env r real_input (rem_chunk_tokens pa) pa of
              None \<Rightarrow> Inr (NO_TOKEN, r, pa)
            | Some chunk_limit \<Rightarrow>
                if rem_chunk_tokens pa = None \<and> can_run_list pa \<noteq> [] \<and> real_input \<ge> rem_input_tokens pa
                then Inr (OTHER, r, pa)
                else map_res (\<lambda>((stop, r'), pa').
                         (case stop of Some x \<Rightarrow> x | None \<Rightarrow> budget_state ops pa', r', pa'))
                       (lock_node ops (last_node r)
                         (locked_region ops env align_size needed_tokens real_input chunk_limit r) pa)))"

section \<open>Preemption\<close>

definition valid_running_reqs :: "'s adder \<Rightarrow> sched_req list \<Rightarrow> sched_req list" where
  "valid_running_reqs pa rs = filter (\<lambda>r. rid r \<notin> rid ` set (preempt_list pa) \<and> \<not> req_finished r) rs"

definition preempt_key :: "int \<Rightarrow> sched_req \<Rightarrow> int \<times> int" where
  "preempt_key sign x = (prio x * (- sign), - wait_queue_entry_time x)"

text \<open>The greedy choice of victims: the requests chosen and the tokens still missing.\<close>

fun choose_victims :: "(sched_req \<Rightarrow> rat) \<Rightarrow> int \<Rightarrow> int \<Rightarrow> int \<Rightarrow> rat \<Rightarrow> sched_req list \<Rightarrow> sched_req list \<times> rat" where
  "choose_victims offset sign threshold p missing [] = ([], missing)"
| "choose_victims offset sign threshold p missing (v # vs) =
     (if (p - prio v) * (- sign) > threshold then
        (let missing' = missing - offset v in
         if missing' \<le> 0 then ([v], missing')
         else map_prod ((#) v) id (choose_victims offset sign threshold p missing' vs))
      else ([], missing))"

text \<open>The loop that releases the victims, with the number of requests released so far. It
  returns the requests that stay, the released ones and the memory.\<close>

fun release_victims :: "'s mem_ops \<Rightarrow> string set \<Rightarrow> nat \<Rightarrow> nat \<Rightarrow> sched_req list \<Rightarrow> 's
    \<Rightarrow> (sched_req list \<times> sched_req list \<times> 's) res" where
  "release_victims ops victims n counter [] m = Inr ([], [], m)"
| "release_victims ops victims n counter (r # rs) m =
     (if rid r \<in> victims then
        bind_res (op_release_req ops r (n - (counter + 1)) m) (\<lambda>(r', m1).
        map_res (\<lambda>(keep, gone, m2). (keep, r' # gone, m2)) (release_victims ops victims n (counter + 1) rs m1))
      else map_res (\<lambda>(keep, gone, m2). (r # keep, gone, m2)) (release_victims ops victims n counter rs m))"

definition preempt_to_schedule ::
  "'s mem_ops \<Rightarrow> adder_env \<Rightarrow> bool \<Rightarrow> sched_req \<Rightarrow> 's adder \<Rightarrow> (bool \<times> 's adder) res" where
  "preempt_to_schedule ops env low_first r pa =
     (case running_reqs pa of
        None \<Rightarrow> Inl AttributeError
      | Some rs \<Rightarrow>
          (let sign = (if low_first then 1 else - 1);
               offset = running_request_total_token_offset env (new_token_ratio pa);
               valid = valid_running_reqs pa rs;
               missing = of_int (cand_extend_input_len r + clipped_max_new env r) - rem_total_tokens ops pa
           in if (\<exists>x \<in> set valid. req_priority x = None) \<or> (valid \<noteq> [] \<and> req_priority r = None) then Inl TypeError
              else
                (let (victims, missing') =
                       choose_victims offset sign (preemption_threshold pa) (prio r) missing
                         (sort_key (preempt_key sign) valid)
                 in if victims = [] \<or> missing' > 0 then Inr (False, pa)
                    else map_res (\<lambda>(keep, gone, m).
                        (True, pa\<lparr>rem_total_token_offset := rem_total_token_offset pa -
                                    (\<Sum>x\<leftarrow>filter (\<lambda>x. rid x \<in> rid ` set victims) rs. offset x),
                                  running_reqs := Some keep, preempt_list := preempt_list pa @ gone, mem := m\<rparr>))
                      (release_victims ops (rid ` set victims) (length rs) 0 rs (mem pa)))))"

end
