(* ===== verification/LockMemory.thy ===== *)
theory LockMemory
  imports PrefillAdder
begin

text \<open>
  What the prefill adder relies on from the memory: the locale \<open>lock_memory\<close> states how
  locking and unlocking a node changes the handles and the sizes, and the radix cache with
  an allocator is its instance.
\<close>

section \<open>The evictable size as a function of the handles\<close>

text \<open>The shape of a tree that lock counts do not change: for every node the ids at and
  below it and the length of its key. A node counts as evictable when no handle is at or
  below it.\<close>

fun shape :: "tree \<Rightarrow> (nat set \<times> nat) multiset" where
  "shape (Node i cs) =
     add_mset (ids (Node i cs), rk_len (rkey i)) (sum_list (map (\<lambda>e. shape (snd e)) cs))"

declare shape.simps [simp del]

definition ev_of :: "nat multiset \<Rightarrow> (nat set \<times> nat) multiset \<Rightarrow> int" where
  "ev_of H S = (\<Sum>(I, k)\<in>#S. if {#h \<in># H. h \<in> I#} = {#} then int k else 0)"

lemma ev_of_simps [simp]:
  "ev_of H {#} = 0" "ev_of H (add_mset (I, k) S) = (if {#h \<in># H. h \<in> I#} = {#} then int k else 0) + ev_of H S"
  "ev_of H (S + T) = ev_of H S + ev_of H T"
  by (simp_all add: ev_of_def)

lemma shape_unfold: "shape t = add_mset (ids t, rk_len (tkey t)) (\<Sum>e\<in>#mset (kids t). shape (snd e))"
  by (cases t) (simp add: shape.simps sum_mset_sum_list [symmetric])

lemma ev_of_dup: "n \<in># H \<Longrightarrow> ev_of (add_mset n H) S = ev_of H S"
  unfolding ev_of_def
  by (rule arg_cong [where f = sum_mset], rule image_mset_cong) (auto simp: filter_mset_eq_conv)

lemma ev_of_mono: "ev_of (add_mset n H) S \<le> ev_of H S"
  by (induction S) (auto split: if_splits)

lemma ev_shape: "lock_ok H t \<Longrightarrow> ev (view t) = ev_of H (shape t)"
proof (induction t rule: subs.induct)
  case (1 i cs)
  have "\<forall>e \<in> set cs. ev (view (snd e)) = ev_of H (shape (snd e))" using 1 by simp
  then have "ev (view_kids (mset cs)) = ev_of H (\<Sum>e\<in>#mset cs. shape (snd e))"
    by (induction cs) simp_all
  moreover have "lock_ref i = 0 \<longleftrightarrow> {#h \<in># H. h \<in> ids (Node i cs)#} = {#}"
    using 1(2) by (simp add: held_def)
  ultimately show ?case
    by (simp add: view_unfold [of "Node i cs"] shape_unfold [of "Node i cs"] nv_def)
qed

lemma cache_evictable:
  assumes "cache_ok H c"
  shows "evictable_size (acct c) = ev_of H (\<Sum>e\<in>#mset (kids (root_node c)). shape (snd e))"
proof -
  have "ev (view_kids M) = ev_of H (\<Sum>e\<in>#M. shape (snd e))" if "\<forall>e \<in># M. lock_ok H (snd e)" for M
    using that ev_shape by (induction M) simp_all
  moreover have "ev {#nv (root_node c)#} = 0"
    using assms by (simp add: cache_ok_def root_ok_def nv_def)
  ultimately show ?thesis
    using assms by (simp add: cache_ok_def acct_ok_def locks_ok_def view_unfold [of "root_node c"] nv_def)
qed

lemma relocked_shape: "relocked d n t t' \<Longrightarrow> shape t' = shape t"
proof (induction rule: relocked.induct)
  case (relock_here t t')
  then show ?case
    by (simp add: shape_unfold [of t] shape_unfold [of t'] relock_node_def ids_unfold [of t] ids_unfold [of t'])
next
  case (relock_kid t t' ck c M c')
  have "relocked d n t t'" using relock_kid(1-4) by (rule relocked.relock_kid)
  then have "ids t' = ids t" by (rule relocked_ids)
  then show ?case using relock_kid(1,2,3,5) by (simp add: shape_unfold [of t] shape_unfold [of t'] relock_node_def)
qed

definition cache_shape :: "radix_cache \<Rightarrow> (nat set \<times> nat) multiset" where
  "cache_shape c = (\<Sum>e\<in>#mset (kids (root_node c)). shape (snd e))"

context lock_walk
begin

lemma lock_path_shape:
  assumes "lock_path step n c = Inr (c', delta)"
  shows "cache_shape c' = cache_shape c"
proof (cases "disable c \<or> n = tid (root_node c)")
  case True
  then show ?thesis using assms by (auto simp: lock_path_def split: if_splits)
next
  case False
  then obtain cs a where w: "walk_kids step n (kids (root_node c)) (acct c, 0) = Some (cs, a, delta)"
    "c' = c\<lparr>root_node := Node (info (root_node c)) cs, acct := a\<rparr>"
    using assms by (auto simp: lock_path_def split: if_splits option.splits)
  then show ?thesis
    using walk_relocked(2) [OF w(1) refl] relocked_shape by (auto simp: cache_shape_def)
qed

end

section \<open>The contract of a lockable memory\<close>

text \<open>\<open>inv H s\<close>: the memory is consistent and \<open>H\<close> are the handles held on it. The evictable
  size is determined by the handles and a part of the state that locking leaves alone; a
  second handle on the same node costs nothing.\<close>

locale lock_memory =
  fixes ops :: "'s mem_ops"
    and inv :: "nat multiset \<Rightarrow> 's \<Rightarrow> bool"
    and nodes :: "'s \<Rightarrow> nat set"
    and layout :: "'s \<Rightarrow> 'x"
    and ev_at :: "nat multiset \<Rightarrow> 'x \<Rightarrow> int"
  assumes inc_ok: "inv H s \<Longrightarrow> n \<in> nodes s \<Longrightarrow>
      \<exists>s'. op_inc_lock_ref ops (Some n) s = Inr s' \<and> inv (add_mset n H) s' \<and> layout s' = layout s \<and>
        nodes s' = nodes s \<and> op_available_size ops s' = op_available_size ops s"
    and dec_ok: "inv (add_mset n H) s \<Longrightarrow>
      \<exists>s'. op_dec_lock_ref ops (Some n) s = Inr s' \<and> inv H s' \<and> layout s' = layout s \<and>
        nodes s' = nodes s \<and> op_available_size ops s' = op_available_size ops s"
    and evictable: "inv H s \<Longrightarrow> op_evictable_size ops s = ev_at H (layout s)"
    and again: "n \<in># H \<Longrightarrow> ev_at (add_mset n H) x = ev_at H x"
    and fewer: "ev_at (add_mset n H) x \<le> ev_at H x"

text \<open>The radix cache and an allocator. The delayer and the release of a request belong to
  other components and stay parameters; a radix cache without a host tier has no load-back,
  and the sliding-window sizes are the defaults of \<open>BasePrefixCache\<close>.\<close>

definition opt_node :: "radix_cache \<Rightarrow> (nat \<Rightarrow> (radix_cache \<times> int) res) \<Rightarrow> nat option \<Rightarrow> radix_cache res" where
  "opt_node c f n =
     (case n of Some n \<Rightarrow> map_res fst (f n) | None \<Rightarrow> if disable c then Inr c else Inl AttributeError)"

definition radix_ops ::
  "(nat \<Rightarrow> int \<Rightarrow> int option \<Rightarrow> nat \<Rightarrow> radix_cache \<times> kv_alloc \<Rightarrow> bool \<times> radix_cache \<times> kv_alloc)
     \<Rightarrow> (sched_req \<Rightarrow> nat \<Rightarrow> radix_cache \<times> kv_alloc \<Rightarrow> (sched_req \<times> radix_cache \<times> kv_alloc) res)
     \<Rightarrow> bool \<Rightarrow> (radix_cache \<times> kv_alloc) mem_ops" where
  "radix_ops neg rel dis =
     \<lparr>op_available_size = (\<lambda>(c, al). int (available_size al)),
      op_evictable_size = (\<lambda>(c, al). evictable_size (acct c)),
      op_full_available_size = (\<lambda>(c, al). 0), op_full_evictable_size = (\<lambda>_. 0),
      op_swa_available_size = (\<lambda>_. 0), op_swa_evictable_size = (\<lambda>_. 0),
      op_inc_lock_ref = (\<lambda>n (c, al). map_res (\<lambda>c'. (c', al)) (opt_node c (\<lambda>n. inc_lock_ref n c) n)),
      op_dec_lock_ref = (\<lambda>n (c, al). map_res (\<lambda>c'. (c', al)) (opt_node c (\<lambda>n. dec_lock_ref n c) n)),
      op_init_load_back = (\<lambda>r s. Inl NotImplementedError),
      op_negotiate = neg, op_release_req = rel,
      tree_disable = dis, sliding_window_size = 0, size_swa = 0\<rparr>"

definition radix_inv :: "nat multiset \<Rightarrow> radix_cache \<times> kv_alloc \<Rightarrow> bool" where
  "radix_inv H = (\<lambda>(c, al). mem_ok H c al \<and> \<not> disable c)"

lemma mem_ok_relock:
  "mem_ok H c al \<Longrightarrow> cache_ok H' c' \<Longrightarrow> same_content c c' \<Longrightarrow> mem_ok H' c' al"
  by (simp add: mem_ok_def same_content_def)

interpretation radix_memory: lock_memory "radix_ops neg rel dis" radix_inv "\<lambda>(c, al). ids (root_node c)"
    "\<lambda>(c, al). cache_shape c" ev_of
proof (unfold_locales, goal_cases)
  case (1 H s n)
  obtain c al where s: "s = (c, al)" by (rule prod.exhaust)
  have ok: "mem_ok H c al" "cache_ok H c" "\<not> disable c" "n \<in> ids (root_node c)"
    using 1 by (simp_all add: s radix_inv_def mem_ok_def)
  obtain c' delta where i: "inc_lock_ref n c = Inr (c', delta)" "cache_ok (add_mset n H) c'" "same_content c c'"
    using inc_lock_ref_correct [OF ok(2-4)] by blast
  have "cache_shape c' = cache_shape c" using i(1) inc_walk.lock_path_shape by (simp add: inc_lock_ref_def)
  moreover have "\<not> disable c'" "ids (root_node c') = ids (root_node c)" using i(3) ok(3) by (simp_all add: same_content_def)
  ultimately show ?case
    using i mem_ok_relock [OF ok(1) i(2,3)] by (simp add: s radix_ops_def opt_node_def radix_inv_def)
next
  case (2 n H s)
  obtain c al where s: "s = (c, al)" by (rule prod.exhaust)
  have ok: "mem_ok (add_mset n H) c al" "cache_ok (add_mset n H) c" "\<not> disable c"
    using 2 by (simp_all add: s radix_inv_def mem_ok_def)
  obtain c' delta where i: "dec_lock_ref n c = Inr (c', delta)" "cache_ok H c'" "same_content c c'"
    using dec_lock_ref_correct [OF ok(2,3)] by blast
  have "cache_shape c' = cache_shape c" using i(1) dec_walk.lock_path_shape by (simp add: dec_lock_ref_def)
  moreover have "\<not> disable c'" "ids (root_node c') = ids (root_node c)" using i(3) ok(3) by (simp_all add: same_content_def)
  ultimately show ?case
    using i mem_ok_relock [OF ok(1) i(2,3)] by (simp add: s radix_ops_def opt_node_def radix_inv_def)
next
  case (3 H s)
  then show ?case
    using cache_evictable by (auto simp: radix_inv_def radix_ops_def cache_shape_def mem_ok_def)
qed (simp_all add: ev_of_dup ev_of_mono)

end
