(* ===== verification/AdderProofs.thy ===== *)
theory AdderProofs
  imports LockMemory
begin

text \<open>
  The prefill adder: the budgets, the length of chunks, the balance of locks around
  \<open>add_one_req\<close>, the choice of victims for preemption and the admission of requests that
  ignore the end of sequence. The lemmas about \<open>add_one_req\<close> are proved for every
  lockable memory.
\<close>

section \<open>Rounding\<close>

lemma ceil_paged_eq: "ceil_paged_tokens pa t = ceil_div t (pa_page_size pa) * pa_page_size pa"
  by (simp add: ceil_paged_tokens_def ceil_div_def)

lemma ceil_paged_bounds:
  assumes "0 < pa_page_size pa"
  shows "t \<le> ceil_paged_tokens pa t" "ceil_paged_tokens pa t < t + pa_page_size pa"
    "pa_page_size pa dvd ceil_paged_tokens pa t"
  using ceil_div_bounds [OF assms, of t] by (simp_all add: ceil_paged_eq)

lemma ceil_paged_mono:
  assumes "0 < pa_page_size pa" "s \<le> t"
  shows "ceil_paged_tokens pa s \<le> ceil_paged_tokens pa t"
  using assms zdiv_mono1 [of "- t" "- s" "pa_page_size pa"] by (simp add: ceil_paged_tokens_def mult_right_mono)

lemma ceil_paged_dvd: "pa_page_size pa dvd t \<Longrightarrow> ceil_paged_tokens pa t = t"
  by (auto simp: ceil_paged_tokens_def)

lemma ceil_paged_idem: "ceil_paged_tokens pa (ceil_paged_tokens pa t) = ceil_paged_tokens pa t"
  by (rule ceil_paged_dvd) (simp add: ceil_paged_eq)

lemma floor_page_le: "0 < p \<Longrightarrow> x div p * p \<le> (x :: int)"
  by (metis div_mult_mod_eq le_add_same_cancel1 pos_mod_sign)

section \<open>The length of a chunk\<close>

lemma chunk_trunc_len_bounds:
  assumes "chunk_trunc_len p align_size key_lim prefix = Some t" "0 < p" "\<forall>a. align_size = Some a \<longrightarrow> 0 < a"
  shows "0 < t" "t \<le> key_lim div p * p" "p dvd prefix + t"
proof -
  let ?t0 = "key_lim div p * p"
  obtain t1 where t1: "t1 \<le> ?t0" "(t1 + prefix) div p * p - prefix = t" "0 < t"
  proof (cases align_size)
    case None
    then show ?thesis using assms(1) that [of ?t0] by (auto simp: chunk_trunc_len_def Let_def split: if_splits)
  next
    case (Some a)
    then have "a * (?t0 div a) \<le> ?t0" using assms(3) floor_page_le [of a ?t0] by (simp add: mult.commute)
    then show ?thesis
      using assms(1) Some that [of "a * (?t0 div a)"] by (auto simp: chunk_trunc_len_def Let_def split: if_splits)
  qed
  have "t \<le> t1" using floor_page_le [OF assms(2), of "t1 + prefix"] t1(2) by linarith
  then show "0 < t" "t \<le> key_lim div p * p" using t1 by linarith+
  have "prefix + t = (t1 + prefix) div p * p" using t1(2) by linarith
  then show "p dvd prefix + t" by simp
qed

lemma chunk_trunc_len_align:
  assumes "chunk_trunc_len p (Some a) key_lim prefix = Some t" "0 < p" "0 < a" "p dvd a" "p dvd prefix"
  shows "a dvd t"
proof -
  let ?t1 = "a * (key_lim div p * p div a)"
  have t: "t = (?t1 + prefix) div p * p - prefix"
    using assms(1) by (auto simp: chunk_trunc_len_def Let_def split: if_splits)
  have "p dvd ?t1 + prefix" using assms(4,5) by simp
  then have "(?t1 + prefix) div p * p = ?t1 + prefix" by simp
  then show ?thesis using t by simp
qed

section \<open>The sliding-window budget\<close>

text \<open>The first pass of a request allocates \<open>swa_chunk inp l\<close> tokens under the chunk limit \<open>l\<close>.\<close>

definition swa_chunk :: "int \<Rightarrow> int option \<Rightarrow> int" where
  "swa_chunk inp l = (case l of None \<Rightarrow> inp | Some k \<Rightarrow> min inp k)"

lemma swa_reserved_bounds:
  assumes "0 < pa_page_size pa" "0 \<le> host"
  shows "min (extend_len + max_new) (sliding_window_size ops) + pa_page_size pa + host \<le> swa_reserved_tokens ops pa extend_len max_new host"
    "swa_reserved_tokens ops pa extend_len max_new host \<le>
       min (extend_len + max_new) (sliding_window_size ops) + pa_page_size pa + (if host = 0 then 0 else host + pa_page_size pa - 1)"
  using ceil_paged_bounds [OF assms(1), of host] assms(2) by (auto simp: swa_reserved_tokens_def Let_def)

lemma swa_budget_bounds_host:
  assumes "0 < pa_page_size pa" "0 \<le> sliding_window_size ops" "0 \<le> extend_len" "0 \<le> max_new" "0 \<le> host"
  shows "swa_chunk extend_len (rem_chunk_tokens pa) + pa_page_size pa + host \<le> swa_budget_for_req ops pa extend_len max_new host"
    "swa_budget_for_req ops pa extend_len max_new host \<le>
       extend_len + max_new + pa_page_size pa + (if host = 0 then 0 else host + pa_page_size pa - 1)"
  using swa_reserved_bounds(1) [OF assms(1,5), of extend_len max_new ops] swa_reserved_bounds(2) [OF assms(1,5), of ops extend_len max_new] assms(2-4)
  by (auto simp: swa_budget_for_req_def swa_chunk_def Let_def split: option.splits)

lemma swa_chunk_cap_bounds:
  assumes "0 < pa_page_size pa" "swa_chunk_cap ops pa max_new host > 0"
  shows "pa_page_size pa dvd swa_chunk_cap ops pa max_new host"
    "swa_chunk_cap ops pa max_new host + swa_reserved_tokens ops pa 0 max_new host \<le> rem_swa_tokens ops pa"
  using assms floor_page_le [OF assms(1), of "rem_swa_tokens ops pa - swa_reserved_tokens ops pa 0 max_new host"]
  by (auto simp: swa_chunk_cap_def Let_def split: if_splits)

lemma swa_chunk_cap_page:
  assumes "0 < pa_page_size pa" "swa_reserved_tokens ops pa 0 max_new host + pa_page_size pa \<le> rem_swa_tokens ops pa"
  shows "0 < swa_chunk_cap ops pa max_new host"
proof -
  let ?cap = "rem_swa_tokens ops pa - swa_reserved_tokens ops pa 0 max_new host"
  have "0 < ?cap div pa_page_size pa" using assms by (simp add: pos_imp_zdiv_pos_iff)
  then show ?thesis using assms by (simp add: swa_chunk_cap_def Let_def)
qed

text \<open>What the gate lets through fits the pool; what can never pass whole is let through in chunks.\<close>

lemma swa_gate_fits:
  assumes ok: "0 < pa_page_size pa" "0 \<le> sliding_window_size ops" "0 \<le> inp" "0 \<le> swa_new_tokens env r" and swa: "is_hybrid_swa pa"
    and gate: "swa_gate ops env r inp (rem_chunk_tokens pa) pa = Some l"
  shows "swa_chunk inp l + pa_page_size pa + int (swa_host_hit_length r) \<le> rem_swa_tokens ops pa"
proof (cases "swa_budget_for_req ops pa inp (swa_new_tokens env r) (int (swa_host_hit_length r)) < rem_swa_tokens ops pa")
  case True
  then have "l = rem_chunk_tokens pa" using gate swa by (simp add: swa_gate_def)
  then show ?thesis using True swa_budget_bounds_host(1) [OF ok, of "int (swa_host_hit_length r)"] by simp
next
  case False
  let ?cap = "swa_chunk_cap ops pa (swa_new_tokens env r) (int (swa_host_hit_length r))"
  have l: "0 < ?cap" "swa_chunk inp l \<le> ?cap"
    using False gate swa by (auto simp: swa_gate_def swa_chunk_def Let_def split: if_splits option.splits)
  show ?thesis using l swa_chunk_cap_bounds(2) [OF ok(1) l(1)] ok(2,4)
      swa_reserved_bounds(1) [OF ok(1), of "int (swa_host_hit_length r)" 0 "swa_new_tokens env r" ops] by simp
qed

lemma swa_gate_opens:
  assumes "0 < pa_page_size pa" "rem_chunk_tokens pa \<noteq> None"
    "size_swa ops \<le> swa_budget_for_req ops pa inp (swa_new_tokens env r) (int (swa_host_hit_length r))"
    "swa_reserved_tokens ops pa 0 (swa_new_tokens env r) (int (swa_host_hit_length r)) + pa_page_size pa \<le> rem_swa_tokens ops pa"
  shows "swa_gate ops env r inp key_lim pa \<noteq> None"
  using assms swa_chunk_cap_page [OF assms(1,4)] by (auto simp: swa_gate_def swa_req_never_fits_def Let_def)

section \<open>What an update of the budgets keeps and changes\<close>

lemma update_logs_sel [simp]:
  "mem (update_logs a b s h g pa) = mem pa" "can_run_list (update_logs a b s h g pa) = can_run_list pa"
  "pa_page_size (update_logs a b s h g pa) = pa_page_size pa" "rem_total_token_offset (update_logs a b s h g pa) = rem_total_token_offset pa"
  "cur_rem_token_offset (update_logs a b s h g pa) = cur_rem_token_offset pa" "new_chunked_req (update_logs a b s h g pa) = new_chunked_req pa"
  "is_hybrid_swa (update_logs a b s h g pa) = is_hybrid_swa pa" "is_all_swa (update_logs a b s h g pa) = is_all_swa pa"
  "is_hybrid_ssm_cache (update_logs a b s h g pa) = is_hybrid_ssm_cache pa" "rem_chunk_tokens (update_logs a b s h g pa) = rem_chunk_tokens pa"
  "rem_input_tokens (update_logs a b s h g pa) = rem_input_tokens pa"
  by (auto simp: update_logs_def Let_def split: prod.splits)

lemma update_budget_sel [simp]:
  "mem (update_prefill_budget ops a b m s g h st pa) = mem pa"
  "can_run_list (update_prefill_budget ops a b m s g h st pa) = can_run_list pa"
  "pa_page_size (update_prefill_budget ops a b m s g h st pa) = pa_page_size pa"
  "new_chunked_req (update_prefill_budget ops a b m s g h st pa) = new_chunked_req pa"
  "is_hybrid_swa (update_prefill_budget ops a b m s g h st pa) = is_hybrid_swa pa"
  "is_all_swa (update_prefill_budget ops a b m s g h st pa) = is_all_swa pa"
  "is_hybrid_ssm_cache (update_prefill_budget ops a b m s g h st pa) = is_hybrid_ssm_cache pa"
  by (simp_all add: update_prefill_budget_def Let_def)

lemma update_budget_offsets [simp]:
  "rem_total_token_offset (update_prefill_budget ops a b m s g h st pa) =
     rem_total_token_offset pa + of_int (ceil_paged_tokens pa b + m + pa_page_size pa + g)"
  "cur_rem_token_offset (update_prefill_budget ops a b m s g h st pa) =
     cur_rem_token_offset pa + (ceil_paged_tokens pa b + pa_page_size pa + g)"
  "rem_input_tokens (update_prefill_budget ops a b m s g h st pa) = rem_input_tokens pa - ceil_paged_tokens pa b"
  by (simp_all add: update_prefill_budget_def Let_def)

lemma update_budget_chunk [simp]:
  "dllm_block_size pa = None \<Longrightarrow> rem_chunk_tokens (update_prefill_budget ops a b m s g h st pa) =
     map_option (\<lambda>k. k - ceil_paged_tokens pa b) (rem_chunk_tokens pa)"
  by (simp add: update_prefill_budget_def Let_def)

section \<open>Adding one request\<close>

text \<open>A configuration without sliding window, state slots, delayer and diffusion, and a
  request with nothing to load from the host.\<close>

definition plain_adder :: "'s adder \<Rightarrow> bool" where
  "plain_adder pa \<longleftrightarrow> 0 < pa_page_size pa \<and> \<not> is_hybrid_swa pa \<and> \<not> is_all_swa pa \<and> \<not> is_hybrid_ssm_cache pa \<and>
     \<not> has_delayer pa \<and> dllm_block_size pa = None \<and> of_int (cur_rem_token_offset pa) \<le> rem_total_token_offset pa"

definition fresh_req :: "adder_env \<Rightarrow> sched_req \<Rightarrow> bool" where
  "fresh_req env r \<longleftrightarrow> \<not> needs_host_load_back r \<and> length (prefix_indices r) \<le> length (full_untruncated_fill_ids r) \<and>
     0 \<le> max_new_tokens r \<and> 0 \<le> CLIP_MAX_NEW_TOKENS env"

text \<open>The range of tokens of an admitted request: all that is left, or a chunk that ends on
  a page boundary and fits the limit.\<close>

definition extend_ok :: "int \<Rightarrow> int option \<Rightarrow> sched_req \<Rightarrow> sched_req \<Rightarrow> bool" where
  "extend_ok p chunk_limit r r' \<longleftrightarrow>
     extend_start r' = int (length (prefix_indices r)) \<and>
     (extend_end r' = int (length (full_untruncated_fill_ids r)) \<and>
        (\<forall>k. chunk_limit = Some k \<longrightarrow> extend_range_length r' \<le> k) \<or>
      (\<exists>k. chunk_limit = Some k \<and> 0 < extend_range_length r' \<and> extend_range_length r' \<le> k \<and>
         extend_end r' < int (length (full_untruncated_fill_ids r)) \<and> p dvd extend_end r'))"

lemma set_extend_range_sel [simp]:
  "extend_start (set_extend_range a b r) = a" "extend_end (set_extend_range a b r) = b"
  "last_node (set_extend_range a b r) = last_node r" "retracted_stain (set_extend_range a b r) = retracted_stain r"
  "mamba_pool_idx (set_extend_range a b r) = mamba_pool_idx r"
  "extend_range_length (set_extend_range a b r) = b - a"
  by (simp_all add: set_extend_range_def extend_range_length_def)

lemma append_run_sel [simp]:
  "mem (append_run r pa) = mem pa" "can_run_list (append_run r pa) = can_run_list pa @ [r]"
  "pa_page_size (append_run r pa) = pa_page_size pa"
  "rem_total_token_offset (append_run r pa) = rem_total_token_offset pa"
  "cur_rem_token_offset (append_run r pa) = cur_rem_token_offset pa"
  "is_hybrid_swa (append_run r pa) = is_hybrid_swa pa" "is_all_swa (append_run r pa) = is_all_swa pa"
  "is_hybrid_ssm_cache (append_run r pa) = is_hybrid_ssm_cache pa" "rem_chunk_tokens (append_run r pa) = rem_chunk_tokens pa"
  by (simp_all add: append_run_def)

text \<open>What one admission charges.\<close>

definition charged :: "int \<Rightarrow> int \<Rightarrow> int \<Rightarrow> 's adder \<Rightarrow> 's adder \<Rightarrow> bool" where
  "charged tokens max_new gap pa pa' \<longleftrightarrow>
     cur_rem_token_offset pa' = cur_rem_token_offset pa + (ceil_paged_tokens pa tokens + pa_page_size pa + gap) \<and>
     rem_total_token_offset pa' =
       rem_total_token_offset pa + of_int (ceil_paged_tokens pa tokens + max_new + pa_page_size pa + gap)"

definition same_config :: "'s adder \<Rightarrow> 's adder \<Rightarrow> bool" where
  "same_config pa pa' \<longleftrightarrow> pa_page_size pa' = pa_page_size pa \<and> is_hybrid_swa pa' = is_hybrid_swa pa \<and>
     is_all_swa pa' = is_all_swa pa \<and> is_hybrid_ssm_cache pa' = is_hybrid_ssm_cache pa"

lemma floor_below_ceil:
  assumes "0 < pa_page_size pa" "k < ceil_paged_tokens pa c"
  shows "k div pa_page_size pa * pa_page_size pa < c"
proof -
  let ?p = "pa_page_size pa" and ?d = "ceil_div c (pa_page_size pa)"
  have "k < ?d * ?p" using assms(2) by (simp add: ceil_paged_eq)
  then have "k div ?p < ?d"
    using floor_page_le [OF assms(1), of k] mult_right_mono [of ?d "k div ?p" ?p] assms(1) by linarith
  then have "k div ?p \<le> ?d - 1" by simp
  then have "k div ?p * ?p \<le> ?d * ?p - ?p"
    using mult_right_mono [of "k div ?p" "?d - 1" ?p] assms(1) by (simp add: left_diff_distrib)
  then show ?thesis using ceil_paged_bounds(2) [OF assms(1), of c] by (simp add: ceil_paged_eq)
qed

lemma tile_stop: "check_prefill_tile_budget env pa k = Some x \<Longrightarrow> x = OTHER"
  by (auto simp: check_prefill_tile_budget_def split: if_splits)

lemma clipped_max_new_set [simp]: "clipped_max_new env (set_extend_range a b r) = clipped_max_new env r"
  by (simp add: clipped_max_new_def set_extend_range_def)

lemma gap_append [simp]:
  "mamba_gap_budget_for_req (append_run r' pa) r = mamba_gap_budget_for_req pa r"
  by (simp add: mamba_gap_budget_for_req_def append_run_def)

text \<open>The two ways to admit, whole and chunked.\<close>

lemma admit_whole:
  assumes "dllm_block_size pa = None" "0 < pa_page_size pa" "fresh_req env r" "\<forall>k. chunk_limit = Some k \<longrightarrow> input_tokens \<le> k"
    and "input_tokens = ceil_paged_tokens pa (cand_extend_input_len r)" "check_prefill_tile_budget env pa input_tokens = None"
    and "op_inc_lock_ref ops (last_node r) (mem pa) = Inr m'"
  shows "\<exists>r' pa'. admit_locked ops env align_size chunk_limit input_tokens r pa = Inr ((None, r'), pa') \<and>
    mem pa' = m' \<and> can_run_list pa' = can_run_list pa @ [r'] \<and> extend_ok (pa_page_size pa) chunk_limit r r' \<and>
    charged input_tokens (clipped_max_new env r) (mamba_gap_budget_for_req pa r) pa pa' \<and> same_config pa pa'"
proof -
  have c: "case chunk_limit of None \<Rightarrow> True | Some k \<Rightarrow> input_tokens \<le> k"
    using assms(4) by (auto split: option.splits)
  have "cand_extend_input_len r \<le> input_tokens" using assms(2,5) ceil_paged_bounds(1) by simp
  then show ?thesis using assms c
    by (auto simp: admit_locked_def req_inc_lock_ref_def Let_def charged_def same_config_def extend_ok_def
        ceil_paged_tokens_def cand_extend_input_len_def)
qed

lemma admit_chunk:
  assumes "dllm_block_size pa = None" "0 < pa_page_size pa" "\<forall>a. align_size = Some a \<longrightarrow> 0 < a" "k < input_tokens"
    and i: "input_tokens = ceil_paged_tokens pa (cand_extend_input_len r)"
    and t: "chunk_trunc_len (pa_page_size pa) align_size k (int (length (prefix_indices r))) = Some t"
    and "check_prefill_tile_budget env pa t = None" "op_inc_lock_ref ops (last_node r) (mem pa) = Inr m'"
  shows "\<exists>r' pa'. admit_locked ops env align_size (Some k) input_tokens r pa = Inr ((None, r'), pa') \<and>
    mem pa' = m' \<and> can_run_list pa' = can_run_list pa @ [r'] \<and> extend_ok (pa_page_size pa) (Some k) r r' \<and>
    t \<le> input_tokens \<and> charged t 0 (mamba_gap_budget_for_req pa r) pa pa' \<and> same_config pa pa'"
proof -
  note b = chunk_trunc_len_bounds [OF t assms(2,3)]
  have lt: "t < cand_extend_input_len r"
    using b(2) floor_below_ceil [OF assms(2), of k "cand_extend_input_len r"] assms(4) i by simp
  have le: "t \<le> k" using b(2) floor_page_le [OF assms(2), of k] by simp
  show ?thesis using assms b le lt
    by (auto simp: admit_locked_def req_inc_lock_ref_def Let_def charged_def same_config_def extend_ok_def
        ceil_paged_tokens_def cand_extend_input_len_def)
qed

text \<open>The locked region returns early without a trace, or admits the request.\<close>

definition admitted :: "'s mem_ops \<Rightarrow> int option \<Rightarrow> sched_req \<Rightarrow> rat \<Rightarrow> 's adder \<Rightarrow> sched_req \<Rightarrow> 's adder \<Rightarrow> bool" where
  "admitted ops chunk_limit r needed pa r' pa' \<longleftrightarrow>
     can_run_list pa' = can_run_list pa @ [r'] \<and> extend_ok (pa_page_size pa) chunk_limit r r' \<and> same_config pa pa' \<and>
     needed < rem_total_tokens ops pa \<and>
     (\<exists>tokens max_new. tokens \<le> ceil_paged_tokens pa (cand_extend_input_len r) \<and> 0 \<le> max_new \<and>
        charged tokens max_new (mamba_gap_budget_for_req pa r) pa pa')"

lemma locked_region_cases:
  assumes pl: "plain_adder pa" and fr: "fresh_req env r" and al: "\<forall>a. align_size = Some a \<longrightarrow> 0 < a"
    and inc: "op_inc_lock_ref ops (last_node r) (mem pa) = Inr m'"
  shows "(\<exists>x. locked_region ops env align_size needed real_input chunk_limit r pa = Inr ((Some x, r), pa) \<and> x \<noteq> CONTINUE) \<or>
    (\<exists>r' pa'. locked_region ops env align_size needed real_input chunk_limit r pa = Inr ((None, r'), pa') \<and>
       mem pa' = m' \<and> admitted ops chunk_limit r needed pa r' pa')"
proof -
  let ?it = "ceil_paged_tokens pa (cand_extend_input_len r)"
  have p: "0 < pa_page_size pa" "dllm_block_size pa = None" using pl by (simp_all add: plain_adder_def)
  have new: "0 \<le> clipped_max_new env r" using fr by (simp add: fresh_req_def clipped_max_new_def)
  consider (early) "rem_total_tokens ops pa \<le> needed"
    | (full) "needed < rem_total_tokens ops pa" "rem_chunk_tokens pa = None \<and> can_run_list pa \<noteq> [] \<and> ?it \<ge> rem_input_tokens pa"
    | (adm) "needed < rem_total_tokens ops pa" "\<not> (rem_chunk_tokens pa = None \<and> can_run_list pa \<noteq> [] \<and> ?it \<ge> rem_input_tokens pa)"
    by linarith
  then show ?thesis
  proof cases
    case early
    then show ?thesis by (simp add: locked_region_def)
  next
    case full
    then show ?thesis using pl fr
      by (auto simp: locked_region_def plain_adder_def swa_gate_def negotiate_def load_back_def fresh_req_def Let_def)
  next
    case adm
    have eq: "locked_region ops env align_size needed real_input chunk_limit r pa =
        admit_locked ops env align_size chunk_limit ?it r pa"
      using adm pl fr
      by (auto simp: locked_region_def plain_adder_def swa_gate_def negotiate_def load_back_def fresh_req_def Let_def)
    have early: ?thesis if "admit_locked ops env align_size chunk_limit ?it r pa = Inr ((Some OTHER, r), pa)"
      using that eq by simp
    show ?thesis
    proof (cases "\<forall>k. chunk_limit = Some k \<longrightarrow> ?it \<le> k")
      case True
      show ?thesis
      proof (cases "check_prefill_tile_budget env pa ?it")
        case None
        with admit_whole [OF p(2,1) fr True refl None inc] new adm(1) eq show ?thesis by (fastforce simp: admitted_def)
      next
        case (Some x)
        then show ?thesis using tile_stop [OF Some] True p(2)
          by (intro early) (auto simp: admit_locked_def Let_def split: option.splits)
      qed
    next
      case False
      then obtain k where k: "chunk_limit = Some k" "k < ?it" by auto
      show ?thesis
      proof (cases "chunk_trunc_len (pa_page_size pa) align_size k (int (length (prefix_indices r)))")
        case None
        then show ?thesis using k p(2) by (intro early) (simp add: admit_locked_def Let_def)
      next
        case (Some t)
        show ?thesis
        proof (cases "check_prefill_tile_budget env pa t")
          case None
          with admit_chunk [OF p(2,1) al k(2) refl Some None inc] adm(1) eq k(1) show ?thesis
            by (fastforce simp: admitted_def)
        next
          case (Some x)
          then show ?thesis using tile_stop [OF Some] k p(2) \<open>chunk_trunc_len _ _ _ _ = Some t\<close>
            by (intro early) (simp add: admit_locked_def Let_def)
        qed
      qed
    qed
  qed
qed

text \<open>The outcome of \<open>add_one_req\<close>: a rejected request leaves the budgets and the locks as
  they were; an admitted one holds one lock on its prefix, and what is needed now stays
  within what is available or evictable, up to the rounding of one page.\<close>

definition add_outcome ::
  "'s mem_ops \<Rightarrow> (nat multiset \<Rightarrow> 's \<Rightarrow> bool) \<Rightarrow> nat multiset \<Rightarrow> nat \<Rightarrow> sched_req \<Rightarrow> 's adder
     \<Rightarrow> add_req_result \<Rightarrow> sched_req \<Rightarrow> 's adder \<Rightarrow> bool" where
  "add_outcome ops I H n r pa res r' pa' \<longleftrightarrow>
     (pa' = pa\<lparr>mem := mem pa'\<rparr> \<and> can_run_list pa' = can_run_list pa \<and> r' = r \<and> res \<noteq> CONTINUE \<and> I H (mem pa') \<and>
        rem_total_tokens ops pa' = rem_total_tokens ops pa \<and> cur_rem_tokens ops pa' = cur_rem_tokens ops pa) \<or>
     (can_run_list pa' = can_run_list pa @ [r'] \<and> I (add_mset n H) (mem pa') \<and>
        extend_ok (pa_page_size pa) (rem_chunk_tokens pa) r r' \<and> res = budget_state ops pa' \<and>
        - pa_page_size pa < cur_rem_tokens ops pa' \<and>
        of_int (cur_rem_token_offset pa') \<le> rem_total_token_offset pa')"

lemma admitted_fits:
  assumes "admitted ops chunk_limit r (of_int (cand_extend_input_len r + max_new + pa_page_size pa + mamba_gap_budget_for_req pa r)) pa r' pa'"
    and "plain_adder pa" "0 \<le> max_new" "available_and_evictable ops pa' = available_and_evictable ops pa"
  shows "- pa_page_size pa < cur_rem_tokens ops pa'" "of_int (cur_rem_token_offset pa') \<le> rem_total_token_offset pa'"
proof -
  let ?c = "cand_extend_input_len r" and ?g = "mamba_gap_budget_for_req pa r" and ?p = "pa_page_size pa"
  obtain k m where k: "k \<le> ceil_paged_tokens pa ?c" "0 \<le> m" "charged k m ?g pa pa'"
    using assms(1) by (auto simp: admitted_def)
  have p: "0 < ?p" and off: "of_int (cur_rem_token_offset pa) \<le> rem_total_token_offset pa"
    using assms(2) by (simp_all add: plain_adder_def)
  have "(of_int (?c + max_new + ?p + ?g + cur_rem_token_offset pa) :: rat) < of_int (available_and_evictable ops pa)"
    using assms(1) off unfolding admitted_def rem_total_tokens_def of_int_add by linarith
  then have "?c + max_new + ?p + ?g + cur_rem_token_offset pa < available_and_evictable ops pa"
    by (simp only: of_int_less_iff)
  moreover have "ceil_paged_tokens pa k < ?c + ?p"
    using ceil_paged_mono [OF p k(1)] ceil_paged_bounds(2) [OF p, of ?c] by (simp add: ceil_paged_idem)
  ultimately show "- ?p < cur_rem_tokens ops pa'"
    using k(3) assms(3,4) unfolding charged_def cur_rem_tokens_def by linarith
  show "of_int (cur_rem_token_offset pa') \<le> rem_total_token_offset pa'"
    using k(2,3) off by (simp add: charged_def)
qed

lemma plain_available: "plain_adder pa \<Longrightarrow> available_and_evictable ops pa = op_available_size ops (mem pa) + op_evictable_size ops (mem pa)"
  by (simp add: plain_adder_def available_and_evictable_def)

lemma plain_adder_mem [simp]: "plain_adder (pa\<lparr>mem := m\<rparr>) = plain_adder pa"
  by (simp add: plain_adder_def)

lemma rem_mem: "available_and_evictable ops (pa\<lparr>mem := m\<rparr>) = available_and_evictable ops pa \<Longrightarrow>
    rem_total_tokens ops (pa\<lparr>mem := m\<rparr>) = rem_total_tokens ops pa \<and> cur_rem_tokens ops (pa\<lparr>mem := m\<rparr>) = cur_rem_tokens ops pa"
  by (simp add: rem_total_tokens_def cur_rem_tokens_def)

context lock_memory
begin

lemma add_one_req_plain:
  assumes inv: "inv H (mem pa)" and n: "last_node r = Some n" "n \<in> nodes (mem pa)"
    and pl: "plain_adder pa" and fr: "fresh_req env r" and al: "\<forall>a. align_size = Some a \<longrightarrow> 0 < a"
    and eos: "\<not> (ignore_eos r \<and> tree_disable ops)"
  shows "\<exists>res r' pa'. add_one_req ops env r align_size pa = Inr (res, r', pa') \<and> add_outcome ops inv H n r pa res r' pa'"
proof -
  define new where "new = min (max (max_new_tokens r - int (length (output_ids r))) 0) (CLIP_MAX_NEW_TOKENS env)"
  define needed :: rat where
    "needed = of_int (cand_extend_input_len r + new + pa_page_size pa + mamba_gap_budget_for_req pa r)"
  define real_in where "real_in = ceil_paged_tokens pa (cand_extend_input_len r - int (host_hit_length r))"
  have out: ?thesis if "add_one_req ops env r align_size pa = Inr (x, r, pa)" "x \<noteq> CONTINUE" for x
    using that inv by (auto simp: add_outcome_def)
  have new0: "0 \<le> new" using fr by (simp add: new_def fresh_req_def)
  have gate: "swa_gate ops env r real_in (rem_chunk_tokens pa) pa = Some (rem_chunk_tokens pa)"
    using pl by (simp add: swa_gate_def plain_adder_def)
  obtain m1 where m1: "op_inc_lock_ref ops (Some n) (mem pa) = Inr m1" "inv (add_mset n H) m1" "layout m1 = layout (mem pa)"
    "nodes m1 = nodes (mem pa)" "op_available_size ops m1 = op_available_size ops (mem pa)"
    using inc_ok [OF inv n(2)] by blast
  let ?pa1 = "pa\<lparr>mem := m1\<rparr>"
  obtain m2 where m2: "op_inc_lock_ref ops (Some n) m1 = Inr m2" "inv (add_mset n (add_mset n H)) m2" "layout m2 = layout m1"
    "op_available_size ops m2 = op_available_size ops m1"
    using inc_ok [OF m1(2), of n] n(2) m1(4) by auto
  obtain m0 where m0: "op_dec_lock_ref ops (Some n) m1 = Inr m0" "inv H m0" "layout m0 = layout m1"
    "op_available_size ops m0 = op_available_size ops m1" using dec_ok [OF m1(2)] by blast
  obtain m3 where m3: "op_dec_lock_ref ops (Some n) m2 = Inr m3" "inv (add_mset n H) m3" "layout m3 = layout m2"
    "op_available_size ops m3 = op_available_size ops m2" using dec_ok [OF m2(2)] by blast
  have restored: "available_and_evictable ops (pa\<lparr>mem := m0\<rparr>) = available_and_evictable ops pa"
    using plain_available [of "pa\<lparr>mem := m0\<rparr>"] plain_available [OF pl] pl evictable [OF m0(2)] evictable [OF inv] m0(3,4) m1(3,5) by simp
  consider (early) x where "add_one_req ops env r align_size pa = Inr (x, r, pa)" "x \<noteq> CONTINUE"
    | (lock) "add_one_req ops env r align_size pa = map_res (\<lambda>((stop, r'), pa').
        (case stop of Some x \<Rightarrow> x | None \<Rightarrow> budget_state ops pa', r', pa'))
        (lock_node ops (last_node r) (locked_region ops env align_size needed real_in (rem_chunk_tokens pa) r) pa)"
  proof -
    have "add_one_req ops env r align_size pa = Inr (OTHER, r, pa) \<or> add_one_req ops env r align_size pa = Inr (NO_TOKEN, r, pa) \<or>
        add_one_req ops env r align_size pa = map_res (\<lambda>((stop, r'), pa').
          (case stop of Some x \<Rightarrow> x | None \<Rightarrow> budget_state ops pa', r', pa'))
          (lock_node ops (last_node r) (locked_region ops env align_size needed real_in (rem_chunk_tokens pa) r) pa)"
      unfolding add_one_req_def Let_def new_def [symmetric] needed_def [symmetric] real_in_def [symmetric] if_not_P [OF eos]
      by (simp add: gate)
    then show thesis using that by blast
  qed
  then show ?thesis
  proof cases
    case early
    then show ?thesis by (rule out)
  next
    case lock
    consider (stop) x where "locked_region ops env align_size needed real_in (rem_chunk_tokens pa) r ?pa1 = Inr ((Some x, r), ?pa1)" "x \<noteq> CONTINUE"
      | (adm) r' pa' where "locked_region ops env align_size needed real_in (rem_chunk_tokens pa) r ?pa1 = Inr ((None, r'), pa')"
        "mem pa' = m2" "admitted ops (rem_chunk_tokens pa) r needed ?pa1 r' pa'"
      using locked_region_cases [of ?pa1 env r align_size ops m2 needed real_in "rem_chunk_tokens pa"] pl fr al m2(1) n(1) by auto
    then show ?thesis
    proof cases
      case stop
      then have "add_one_req ops env r align_size pa = Inr (x, r, pa\<lparr>mem := m0\<rparr>)"
        using lock m1(1) m0(1) n(1) by (simp add: lock_node_def)
      then show ?thesis using stop(2) m0(2) rem_mem [OF restored] by (simp add: add_outcome_def)
    next
      case adm
      let ?pa3 = "pa'\<lparr>mem := m3\<rparr>"
      have eq: "add_one_req ops env r align_size pa = Inr (budget_state ops ?pa3, r', ?pa3)"
        using lock m1(1) m3(1) n(1) adm(1,2) by (simp add: lock_node_def)
      have same: "same_config ?pa1 pa'" using adm(3) by (simp add: admitted_def)
      have "available_and_evictable ops ?pa3 = available_and_evictable ops ?pa1"
        using same plain_available [of ?pa1 ops] pl evictable [OF m3(2)] evictable [OF m1(2)] m3(3,4) m2(3,4)
        by (simp add: available_and_evictable_def same_config_def plain_adder_def)
      moreover have "admitted ops (rem_chunk_tokens pa) r needed ?pa1 r' ?pa3"
        using adm(3) by (auto simp: admitted_def same_config_def charged_def ceil_paged_tokens_def)
      moreover have "needed = of_int (cand_extend_input_len r + new + pa_page_size ?pa1 + mamba_gap_budget_for_req ?pa1 r)"
        by (simp add: needed_def mamba_gap_budget_for_req_def)
      moreover have "plain_adder ?pa1" using pl by simp
      ultimately have "- pa_page_size ?pa1 < cur_rem_tokens ops ?pa3" "of_int (cur_rem_token_offset ?pa3) \<le> rem_total_token_offset ?pa3"
        using admitted_fits new0 by metis+
      then show ?thesis using eq m3(2) adm(3) by (auto simp: add_outcome_def admitted_def)
    qed
  qed
qed

end

section \<open>Preemption\<close>

lemma choose_victims_spec:
  "choose_victims offset sign threshold p missing vs = (vic, missing') \<Longrightarrow>
     set vic \<subseteq> set vs \<and> (distinct vs \<longrightarrow> distinct vic) \<and>
     (\<forall>v \<in> set vic. (p - prio v) * (- sign) > threshold) \<and> missing' = missing - sum_list (map offset vic)"
proof (induction offset sign threshold p missing vs arbitrary: vic rule: choose_victims.induct)
  case (2 offset sign threshold p missing v vs)
  show ?case
  proof (cases "(p - prio v) * (- sign) > threshold \<and> \<not> missing - offset v \<le> 0")
    case True
    then obtain vic' where v: "choose_victims offset sign threshold p (missing - offset v) vs = (vic', missing')" "vic = v # vic'"
      using "2.prems" by (cases "choose_victims offset sign threshold p (missing - offset v) vs") (auto simp: Let_def)
    from "2.IH" [OF _ refl _ v(1)] True show ?thesis unfolding v(2) by auto
  qed (use "2.prems" in \<open>auto simp: Let_def split: if_splits\<close>)
qed auto

lemma release_victims_keep:
  "release_victims ops V n k rs m = Inr (keep, gone, m') \<Longrightarrow> keep = filter (\<lambda>x. rid x \<notin> V) rs \<and> length gone + length keep = length rs"
  by (induction ops V n k rs m arbitrary: keep gone m' rule: release_victims.induct)
    (auto simp: bind_res_Inr_iff map_res_Inr_iff split: if_splits)

lemma rid_victim:
  assumes "distinct (map rid rs)" "set vic \<subseteq> set rs" "x \<in> set rs"
  shows "rid x \<in> rid ` set vic \<longleftrightarrow> x \<in> set vic"
  using assms by (auto simp: distinct_map dest: inj_onD)

lemma mset_victims:
  assumes "distinct (map rid rs)" "distinct vic" "set vic \<subseteq> set rs"
  shows "mset (filter (\<lambda>x. rid x \<in> rid ` set vic) rs) = mset vic"
proof -
  have "distinct rs" using assms(1) by (simp add: distinct_map)
  moreover have "set (filter (\<lambda>x. rid x \<in> rid ` set vic) rs) = set vic"
    using assms(3) rid_victim [OF assms(1,3)] by auto
  ultimately show ?thesis using assms(2) by (subst set_eq_iff_mset_eq_distinct [symmetric]) auto
qed

theorem preempt_spec:
  assumes call: "preempt_to_schedule ops env low_first r pa = Inr (b, pa')" and rs: "running_reqs pa = Some rs"
    and d: "distinct (map rid rs)"
  defines "sign \<equiv> (if low_first then 1 else - 1)"
    and "offset \<equiv> running_request_total_token_offset env (new_token_ratio pa)"
  shows "(\<not> b \<and> pa' = pa) \<or>
    (b \<and> (\<exists>vic. vic \<noteq> [] \<and> distinct vic \<and> set vic \<subseteq> set rs \<and>
       (\<forall>v \<in> set vic. \<not> req_finished v \<and> (prio r - prio v) * (- sign) > preemption_threshold pa) \<and>
       running_reqs pa' = Some (filter (\<lambda>x. x \<notin> set vic) rs) \<and>
       rem_total_token_offset pa' = rem_total_token_offset pa - sum_list (map offset vic) \<and>
       of_int (cand_extend_input_len r + clipped_max_new env r) - rem_total_tokens ops pa \<le> sum_list (map offset vic)))"
proof -
  let ?valid = "valid_running_reqs pa rs"
  let ?missing = "of_int (cand_extend_input_len r + clipped_max_new env r) - rem_total_tokens ops pa"
  obtain vic miss where cv: "choose_victims offset sign (preemption_threshold pa) (prio r) ?missing
      (sort_key (preempt_key sign) ?valid) = (vic, miss)" by (rule prod.exhaust)
  have "distinct ?valid" using d by (simp add: valid_running_reqs_def distinct_map)
  then have vic: "distinct vic" "set vic \<subseteq> set ?valid"
    and k: "\<forall>v \<in> set vic. (prio r - prio v) * (- sign) > preemption_threshold pa" "miss = ?missing - sum_list (map offset vic)"
    using choose_victims_spec [OF cv] by simp_all
  then have sub: "set vic \<subseteq> set rs" "\<forall>v \<in> set vic. \<not> req_finished v" by (auto simp: valid_running_reqs_def)
  show ?thesis
  proof (cases "vic = [] \<or> miss > 0")
    case True
    then show ?thesis using call rs cv
      by (auto simp: preempt_to_schedule_def Let_def sign_def offset_def split: if_splits)
  next
    case False
    then obtain keep gone m where rel: "release_victims ops (rid ` set vic) (length rs) 0 rs (mem pa) = Inr (keep, gone, m)"
      and b: b "running_reqs pa' = Some keep" "rem_total_token_offset pa' = rem_total_token_offset pa -
        (\<Sum>x\<leftarrow>filter (\<lambda>x. rid x \<in> rid ` set vic) rs. offset x)"
      using call rs cv
      by (auto simp: preempt_to_schedule_def Let_def map_res_Inr_iff sign_def offset_def split: if_splits)
    have "sum_list (map offset (filter (\<lambda>x. rid x \<in> rid ` set vic) rs)) = sum_list (map offset vic)"
      using arg_cong [OF mset_victims [OF d vic(1) sub(1)], of "\<lambda>M. \<Sum>\<^sub># (image_mset offset M)"]
      by (simp flip: sum_mset_sum_list)
    moreover have "keep = filter (\<lambda>x. x \<notin> set vic) rs"
      unfolding conjunct1 [OF release_victims_keep [OF rel]]
      by (rule filter_cong [OF refl]) (simp only: rid_victim [OF d sub(1)])
    ultimately show ?thesis using b False k vic(1) sub by (intro disjI2 conjI exI [of _ vic]) auto
  qed
qed

section \<open>Requests that ignore the end of sequence\<close>

text \<open>The scan for the position of a new entry stops at the last index, so an entry larger
  than all others lands in front of the last one.\<close>

lemma insert_pos_largest:
  assumes "sts \<noteq> []" "\<forall>s \<in> set sts. fst s < x"
  shows "insert_pos x sts = length sts - 1"
proof -
  have "find (\<lambda>i. x \<le> fst (sts ! i)) [0..<length sts] = None"
    using assms(2) by (auto simp: find_None_iff) (meson leD nth_mem)
  then show ?thesis by (simp add: insert_pos_def)
qed

lemma add_req_state_unsorted:
  assumes "sts \<noteq> []" "sorted (map fst sts)" "\<forall>s \<in> set sts. fst s < fst (req_state ratio r)" "0 < fst (req_state ratio r)"
  shows "\<not> sorted (map fst (add_req_state ratio True r sts))"
proof -
  let ?x = "req_state ratio r"
  obtain ys y where sts: "sts = ys @ [y]" using assms(1) by (cases sts rule: rev_cases) auto
  have "add_req_state ratio True r sts = ys @ [?x, y]"
    using insert_pos_largest [OF assms(1,3)] assms(4) by (simp add: add_req_state_def Let_def sts)
  moreover have "fst y < fst ?x" using assms(3) by (simp add: sts)
  ultimately show ?thesis by (simp add: sorted_append)
qed

text \<open>What the simulation checks: when the requests finish in the order of the list, every
  prefix leaves more than the reserve.\<close>

lemma eos_fits_iff:
  "eos_fits reserve cur freed sts \<longleftrightarrow>
     (\<forall>i < length sts. of_int reserve * of_nat (length sts - i) <
        cur + freed + of_int (sum_list (map snd (take i sts))) - fst (sts ! i) * of_nat (length sts - i))"
proof (induction sts arbitrary: freed)
  case (Cons s sts)
  obtain a b where s: "s = (a, b)" by (rule prod.exhaust)
  show ?case unfolding s using Cons.IH [of "freed + of_int b"]
    by (auto simp: All_less_Suc2 Let_def not_le algebra_simps)
qed simp

section \<open>The tile budget\<close>

text \<open>In compact mode the tiles of the requests already admitted are not counted.\<close>

lemma list_sum_zeros: "sum_list (map (\<lambda>r. 0) xs) = (0 :: int)"
  by (induction xs) simp_all

lemma compact_ignores_admitted:
  assumes "\<not> tile_mode_legacy env"
  shows "tile_admission_metric env (candidate_tile_metrics pa c) = (if 0 < c then ceil_div c (prefill_tile_block_m pa) else 0)"
  using assms list_sum_zeros [of "can_run_list pa"]
  by (simp add: tile_admission_metric_def candidate_tile_metrics_def estimate_prefill_extend_tile_metrics_def Let_def
      admitted_extend_lens_def comp_def max_def)

end
