(* ===== verification/SchedProps.thy ===== *)
theory SchedProps
  imports AdderProofs
begin

text \<open>
  The properties of the scheduling policy and of the prefill adder, with the small states
  on which they are instantiated.
\<close>

section \<open>Sample states\<close>

definition ex_clock :: clock where
  "ex_clock i = (int i, int i)"

definition ex_cache :: radix_cache where
  "ex_cache = rc_reset ex_clock
     \<lparr>disable = False, page_size = 2, is_eagle = False, disable_finished_insert = False,
      eviction_strategy = LRUStrategy, root_node = new_root 0 ex_clock, next_id = 0,
      acct = \<lparr>evictable_size = 0, protected_size = 0, evictable_leaves = {}\<rparr>\<rparr>"

definition ex_sim :: radix_cache where
  "ex_sim = ex_cache\<lparr>page_size := 1\<rparr>"

definition ex_alloc :: kv_alloc where
  "ex_alloc = init_paged_alloc 64 2 False False"

definition ex_req :: "string \<Rightarrow> int \<Rightarrow> int list \<Rightarrow> sched_req" where
  "ex_req name p toks =
     \<lparr>origin_input_ids = toks, output_ids = [], full_untruncated_fill_ids = toks, extend_end = 0,
      req_extra_key = None, req_cache_salt = None, req_priority = Some p, req_pool_idx = None,
      cache_protected_len = 0, prefix_indices = [], last_node = Some 0, inflight_middle_chunks = 0,
      kv_committed_len = 0, rid = name, max_new_tokens = 8, ignore_eos = False, wait_queue_entry_time = 0,
      routing_key = None, return_logprob = False, logprob_start_len = - 1, host_hit_length = 0,
      swa_host_hit_length = 0, mamba_host_hit_length = 0, storage_hit_length = 0, num_matched_prefix_tokens = 0,
      last_host_node = None, best_match_node = None, mamba_pool_idx = None, retracted_stain = False,
      extend_start = 0, req_finished = False, dllm_incomplete_ids = []\<rparr>"

definition ex_env :: policy_env where
  "ex_env = \<lparr>check_threshold = 32, deprioritize_threshold = 32, force_miss = False, reprefill_tail = 0,
     fast_match_prefix = True, is_decode_instance = False\<rparr>"

definition ex_policy :: schedule_policy where
  "ex_policy = \<lparr>sp_policy = DFS_WEIGHT, enable_hierarchical_cache = False, enable_priority_scheduling = False,
     schedule_low_priority_values_first = False, waiting_queue_radix_tree = ex_sim\<rparr>"

lemma ex_cache_ok: "cache_ok {#} ex_cache"
  unfolding ex_cache_def by (rule rc_reset_ok) simp

lemma ex_cache_sel [simp]:
  "disable ex_cache = False" "page_size ex_cache = 2" "is_eagle ex_cache = False" "root_node ex_cache = new_root 0 ex_clock"
  by (simp_all add: ex_cache_def rc_reset_def)

lemma ex_policy_ok: "policy_ok ex_policy"
  by (simp add: policy_ok_def ex_policy_def ex_sim_def Let_def)

lemma ex_mem_ok: "mem_ok {#} ex_cache ex_alloc"
proof -
  have "tslots (new_root 0 ex_clock) = {#}" "runs 2 (new_root 0 ex_clock)"
    by (simp_all add: new_root_def tslots.simps runs.simps page_run_def expand_pages_def exI [of _ "[]"])
  moreover have "al_ok ex_alloc" "al_page_size ex_alloc = 2"
    by (simp_all add: al_ok_def paged_ok_def pool_ok_def pool_pages_def ex_alloc_def init_paged_alloc_def paged_clear_def)
  ultimately show ?thesis using ex_cache_ok by (simp add: mem_ok_def)
qed

definition ex_adder_env :: adder_env where
  "ex_adder_env = \<lparr>CLIP_MAX_NEW_TOKENS = 4096, IGNORE_EOS_RESERVE_TOKENS = 1, IS_HIP = True, PREFILL_TILE_BUDGET = 2,
     tile_mode_legacy = False\<rparr>"

definition ex_ops :: "(radix_cache \<times> kv_alloc) mem_ops" where
  "ex_ops = radix_ops (\<lambda>a b c d s. (True, s)) (\<lambda>r k s. Inr (r, s)) False"

definition ex_adder :: "(radix_cache \<times> kv_alloc) adder" where
  "ex_adder = init_adder ex_adder_env
     \<lparr>arg_page_size = 2, arg_new_token_ratio = 1 / 2, arg_rem_input_tokens = 32, arg_rem_chunk_tokens = Some 4,
      arg_num_mixed_decode_tokens = 0, arg_preemption_threshold = 3, arg_max_prefill_bs = 8, arg_max_running_requests = None,
      arg_prefill_max_requests = None, arg_has_delayer = False, arg_dllm = None, arg_waiting_queue_len = 1,
      arg_prefill_tile_block_m = 64, arg_is_hybrid_swa = False, arg_is_all_swa = False, arg_is_hybrid_ssm_cache = False,
      arg_mamba_slot_cost = 0, arg_mamba_schedulable = 0, arg_mamba_evictable = 0, arg_dsa_split = False,
      arg_running = Some [ex_req ''a'' 1 [1, 2], ex_req ''b'' 9 [3]], arg_mem = (ex_cache, ex_alloc)\<rparr>"

lemma ex_adder_plain: "plain_adder ex_adder"
  by (simp add: plain_adder_def ex_adder_def init_adder_def running_request_total_token_offset_def ex_req_def ex_adder_env_def)

lemma ex_adder_sel [simp]: "mem ex_adder = (ex_cache, ex_alloc)" "pa_page_size ex_adder = 2"
  by (simp_all add: ex_adder_def init_adder_def)

lemma ex_fresh: "fresh_req ex_adder_env (ex_req n p toks)"
  by (simp add: fresh_req_def needs_host_load_back_def ex_req_def ex_adder_env_def)

section \<open>The order of the queue\<close>

text \<open>C9: \<open>calc_priority\<close> never loses, duplicates or invents a request: under every policy the
  queue afterwards is a reordering of the queue before, in which only the fields set by
  prefix matching may differ, and the tree cache and the tree of the waiting queue keep
  their invariants. It raises only for a missing priority under priority scheduling.\<close>

theorem calc_priority_reorders:
  assumes "cache_ok H c" "\<not> disable c" "policy_ok sp" "\<forall>xs. mset (shuffle xs) = mset xs"
    and "needs_priority sp \<longrightarrow> (\<forall>r \<in> set q. req_priority r \<noteq> None)"
  shows "\<exists>q' c' sp'. calc_priority env clk wclk now shuffle running sp q c = Inr (q', c', sp') \<and>
    reordered q q' \<and> cache_ok H c' \<and> \<not> disable c' \<and> policy_ok sp'"
  using assms by (rule calc_priority_correct)

theorem calc_priority_reorders_witness:
  "\<exists>q' c' sp'. calc_priority ex_env ex_clock ex_clock (\<lambda>_ _. 5) rev None ex_policy
      [ex_req ''a'' 1 [1, 2, 3], ex_req ''b'' 2 [1, 2, 4]] ex_cache = Inr (q', c', sp') \<and>
    reordered [ex_req ''a'' 1 [1, 2, 3], ex_req ''b'' 2 [1, 2, 4]] q' \<and> cache_ok {#} c' \<and> \<not> disable c' \<and> policy_ok sp'"
  by (rule calc_priority_reorders [OF ex_cache_ok _ ex_policy_ok]) (simp_all add: needs_priority_def ex_policy_def)

text \<open>C10: The depth-first weighting gives every node of the radix tree the number of waiting
  requests whose matched prefix ends at it or below it.\<close>

theorem dfs_weight_counts:
  assumes "cache_ok H c" "s \<in> subs (root_node c)"
  shows "calc_weight (root_node c) (\<lambda>n. length (reqs_at q n)) (tid s) =
    (\<Sum>n\<in>#image_mset fst (view s). length (filter (\<lambda>r. last_node r = Some n) q))"
  using calc_weight_below(1) [of "next_id c" "root_node c" s] assms
  by (simp add: cache_ok_def weight_below_def reqs_at_def)

theorem dfs_weight_counts_witness:
  "calc_weight (root_node ex_cache) (\<lambda>n. length (reqs_at [ex_req ''a'' 1 [1, 2, 3]] n)) (tid (root_node ex_cache)) =
    (\<Sum>n\<in>#image_mset fst (view (root_node ex_cache)). length (filter (\<lambda>r. last_node r = Some n) [ex_req ''a'' 1 [1, 2, 3]]))"
  by (rule dfs_weight_counts [OF ex_cache_ok]) simp

section \<open>Admission\<close>

text \<open>C11: \<open>add_one_req\<close> on a radix cache always returns. If it rejects the request, nothing of the
  adder but the memory behind it may differ, and locks and budgets are as before; if it admits it, the request is last in \<open>can_run_list\<close>, exactly
  one lock on its matched prefix is held, its extend range is the whole rest or a chunk
  within the limit that ends on a page boundary, and the tokens needed now exceed what is
  free or evictable by less than one page.\<close>

theorem add_one_req_safe:
  assumes "radix_inv H (mem pa)" "last_node r = Some n" "n \<in> ids (root_node (fst (mem pa)))" "plain_adder pa"
    "fresh_req env r" "\<forall>a. align_size = Some a \<longrightarrow> 0 < a" "\<not> (ignore_eos r \<and> dis)"
  shows "\<exists>res r' pa'. add_one_req (radix_ops neg rel dis) env r align_size pa = Inr (res, r', pa') \<and>
    add_outcome (radix_ops neg rel dis) radix_inv H n r pa res r' pa'"
  using assms by (intro radix_memory.add_one_req_plain) (auto simp: radix_ops_def split: prod.splits)

theorem add_one_req_safe_witness:
  "\<exists>res r' pa'. add_one_req ex_ops ex_adder_env (ex_req ''q'' 5 [1, 2, 3, 4, 5, 6, 7]) (Some 2) ex_adder = Inr (res, r', pa') \<and>
    add_outcome ex_ops radix_inv {#} 0 (ex_req ''q'' 5 [1, 2, 3, 4, 5, 6, 7]) ex_adder res r' pa'"
  unfolding ex_ops_def
  by (rule add_one_req_safe [OF _ _ _ ex_adder_plain ex_fresh])
    (simp_all add: radix_inv_def ex_mem_ok ex_req_def new_root_def ids_unfold [of "Node _ []"] new_tree_node_def)

text \<open>C12: Preemption takes only running, unfinished requests whose priority is lower by more
  than the threshold, and only when their estimated tokens cover what the new request
  misses; it removes exactly them from the running batch and gives their estimate back to
  the budget. When it declines, nothing changes.\<close>

theorem preempt_takes_lower_priority:
  assumes "preempt_to_schedule ops env low_first r pa = Inr (b, pa')" "running_reqs pa = Some rs" "distinct (map rid rs)"
  shows "(\<not> b \<and> pa' = pa) \<or>
    (b \<and> (\<exists>vic. vic \<noteq> [] \<and> distinct vic \<and> set vic \<subseteq> set rs \<and>
       (\<forall>v \<in> set vic. \<not> req_finished v \<and> (prio r - prio v) * (- (if low_first then 1 else - 1)) > preemption_threshold pa) \<and>
       running_reqs pa' = Some (filter (\<lambda>x. x \<notin> set vic) rs) \<and>
       rem_total_token_offset pa' = rem_total_token_offset pa -
         sum_list (map (running_request_total_token_offset env (new_token_ratio pa)) vic) \<and>
       of_int (cand_extend_input_len r + clipped_max_new env r) - rem_total_tokens ops pa \<le>
         sum_list (map (running_request_total_token_offset env (new_token_ratio pa)) vic)))"
  using assms by (rule preempt_spec)

definition ex_busy :: "(radix_cache \<times> kv_alloc) adder" where
  "ex_busy = ex_adder\<lparr>rem_total_token_offset := 58\<rparr>"

lemma ex_busy_running:
  "running_reqs ex_busy = Some [ex_req ''a'' 1 [1, 2], ex_req ''b'' 9 [3]]"
  "distinct (map rid [ex_req ''a'' 1 [1, 2], ex_req ''b'' 9 [3]])"
  by (simp_all add: ex_busy_def ex_adder_def init_adder_def ex_req_def)

lemma ex_busy_preempts: "\<exists>pa'. preempt_to_schedule ex_ops ex_adder_env False (ex_req ''q'' 5 []) ex_busy = Inr (True, pa')"
proof -
  have "available_size ex_alloc = 64" by code_simp
  moreover have "evictable_size (acct ex_cache) = 0" by (simp add: ex_cache_def rc_reset_def)
  ultimately have "rem_total_tokens ex_ops ex_busy = 6"
    by (simp add: rem_total_tokens_def available_and_evictable_def ex_busy_def ex_adder_def init_adder_def ex_ops_def radix_ops_def)
  moreover have "of_int (cand_extend_input_len (ex_req ''q'' 5 []) + clipped_max_new ex_adder_env (ex_req ''q'' 5 [])) = (8 :: rat)"
    by (simp add: cand_extend_input_len_def clipped_max_new_def ex_req_def ex_adder_env_def)
  moreover have "valid_running_reqs ex_busy [ex_req ''a'' 1 [1, 2], ex_req ''b'' 9 [3]] = [ex_req ''a'' 1 [1, 2], ex_req ''b'' 9 [3]]"
    by (simp add: valid_running_reqs_def ex_busy_def ex_adder_def init_adder_def ex_req_def)
  moreover have pr: "prio (ex_req n p ts) = p" "req_priority (ex_req n p ts) = Some p" "rid (ex_req n p ts) = n" for n p ts
    by (simp_all add: prio_def ex_req_def)
  moreover have "running_request_total_token_offset ex_adder_env (new_token_ratio ex_busy) (ex_req ''a'' 1 [1, 2]) = 4"
    "preemption_threshold ex_busy = 3"
    by (simp_all add: running_request_total_token_offset_def ex_busy_def ex_adder_def init_adder_def ex_req_def ex_adder_env_def)
  moreover have "op_release_req ex_ops r k m = Inr (r, m)" for r k m by (simp add: ex_ops_def radix_ops_def)
  ultimately show ?thesis
    unfolding preempt_to_schedule_def ex_busy_running(1) by (simp add: Let_def preempt_key_def)
qed

theorem preempt_takes_lower_priority_witness:
  "\<exists>pa' vic. preempt_to_schedule ex_ops ex_adder_env False (ex_req ''q'' 5 []) ex_busy = Inr (True, pa') \<and>
     vic \<noteq> [] \<and> (\<forall>v \<in> set vic. \<not> req_finished v \<and> prio (ex_req ''q'' 5 []) - prio v > preemption_threshold ex_busy) \<and>
     running_reqs pa' = Some (filter (\<lambda>x. x \<notin> set vic) [ex_req ''a'' 1 [1, 2], ex_req ''b'' 9 [3]])"
proof -
  obtain pa' where p: "preempt_to_schedule ex_ops ex_adder_env False (ex_req ''q'' 5 []) ex_busy = Inr (True, pa')"
    using ex_busy_preempts by blast
  from preempt_takes_lower_priority [OF p ex_busy_running] obtain vic where "vic \<noteq> []"
    "\<forall>v \<in> set vic. \<not> req_finished v \<and> (prio (ex_req ''q'' 5 []) - prio v) * (- (if False then 1 else - 1)) > preemption_threshold ex_busy"
    "running_reqs pa' = Some (filter (\<lambda>x. x \<notin> set vic) [ex_req ''a'' 1 [1, 2], ex_req ''b'' 9 [3]])"
    by blast
  then show ?thesis using p by (intro exI [of _ pa'] exI [of _ vic]) simp
qed

text \<open>C13: The sliding-window gate of \<open>add_one_req\<close>. The budget of a request covers the tokens its first
  pass allocates, the window loaded back from the host and a page, and does not exceed what the
  request can use, \<open>extend + max_new_tokens + page\<close>, and the load-back rounded up to pages. The
  chunk the gate lets through, shortened or not, fits the room left in the sliding-window pool
  together with the load-back and a page. A request whose budget exceeds the whole pool is not
  refused as long as its reserve and one page fit.\<close>

theorem swa_budget_bounds:
  assumes "0 < pa_page_size pa" "0 \<le> sliding_window_size ops" "0 \<le> inp" "0 \<le> CLIP_MAX_NEW_TOKENS env" "is_hybrid_swa pa"
  shows "let host = int (swa_host_hit_length r); new = swa_new_tokens env r; budget = swa_budget_for_req ops pa inp new host;
      gate = swa_gate ops env r inp (rem_chunk_tokens pa) pa
    in swa_chunk inp (rem_chunk_tokens pa) + pa_page_size pa + host \<le> budget \<and>
      budget \<le> inp + new + pa_page_size pa + (if host = 0 then 0 else host + pa_page_size pa - 1) \<and>
      (\<forall>l. gate = Some l \<longrightarrow> swa_chunk inp l + pa_page_size pa + host \<le> rem_swa_tokens ops pa) \<and>
      (rem_chunk_tokens pa \<noteq> None \<and> size_swa ops \<le> budget \<and>
         swa_reserved_tokens ops pa 0 new host + pa_page_size pa \<le> rem_swa_tokens ops pa \<longrightarrow> gate \<noteq> None)"
proof -
  have new: "0 \<le> swa_new_tokens env r" using assms(4) by (simp add: swa_new_tokens_def)
  then show ?thesis
    using swa_budget_bounds_host [OF assms(1-3) new, of "int (swa_host_hit_length r)"] swa_gate_fits [OF assms(1-3) new assms(5)]
      swa_gate_opens [OF assms(1)] unfolding Let_def by (intro conjI) simp_all
qed

text \<open>A pool of 16 sliding-window tokens, all of them free, a window of 4 and pages of 2. A request
  with 20 tokens to prefill and 3 to load back has a budget above the pool and goes on with a
  chunk of 6 in place of 12.\<close>

definition swa_ops :: "(radix_cache \<times> kv_alloc) mem_ops" where
  "swa_ops = ex_ops\<lparr>op_swa_available_size := \<lambda>_. 16, op_swa_evictable_size := \<lambda>_. 0, sliding_window_size := 4, size_swa := 16\<rparr>"

definition swa_adder :: "(radix_cache \<times> kv_alloc) adder" where
  "swa_adder = ex_adder\<lparr>is_hybrid_swa := True, rem_chunk_tokens := Some 12\<rparr>"

definition swa_req :: sched_req where
  "swa_req = (ex_req ''a'' 1 [1, 2])\<lparr>swa_host_hit_length := 3\<rparr>"

lemma swa_demo_sel [simp]: "pa_page_size swa_adder = 2" "is_hybrid_swa swa_adder" "rem_chunk_tokens swa_adder = Some 12"
  "sliding_window_size swa_ops = 4" "size_swa swa_ops = 16" "swa_host_hit_length swa_req = 3" "swa_new_tokens ex_adder_env swa_req = 8"
  "rem_swa_tokens swa_ops swa_adder = 16"
  by (simp_all add: swa_adder_def swa_ops_def swa_req_def ex_adder_def init_adder_def rem_swa_tokens_def swa_new_tokens_def
      ex_adder_env_def ex_req_def)

theorem swa_budget_bounds_witness:
  "swa_budget_for_req swa_ops swa_adder 20 8 3 = 18 \<and> swa_gate swa_ops ex_adder_env swa_req 20 (Some 12) swa_adder = Some (Some 6) \<and>
   swa_chunk 20 (Some 12) + 2 + 3 \<le> 18 \<and> 18 \<le> 20 + 8 + 2 + (3 + 2 - (1 :: int)) \<and> swa_chunk 20 (Some 6) + 2 + 3 \<le> (16 :: int)"
proof -
  have g: "swa_budget_for_req swa_ops swa_adder 20 8 3 = 18" "swa_gate swa_ops ex_adder_env swa_req 20 (Some 12) swa_adder = Some (Some 6)"
    by (simp_all add: swa_gate_def swa_budget_for_req_def swa_reserved_tokens_def swa_chunk_cap_def swa_req_never_fits_def ceil_paged_tokens_def Let_def)
  moreover have "0 \<le> CLIP_MAX_NEW_TOKENS ex_adder_env" by (simp add: ex_adder_env_def)
  ultimately show ?thesis using swa_budget_bounds [of swa_adder swa_ops 20 ex_adder_env swa_req]
    by (simp add: Let_def)
qed

text \<open>C14: A chunk cut by \<open>add_one_req\<close> is positive, at most the limit rounded down to pages, and
  ends the prefill on a page boundary; with an alignment size that is a multiple of the
  page and a page-aligned prefix its length is a multiple of the alignment size.\<close>

theorem chunk_lengths:
  assumes "chunk_trunc_len p align_size key_lim prefix = Some t" "0 < p" "\<forall>a. align_size = Some a \<longrightarrow> 0 < a"
  shows "0 < t \<and> t \<le> key_lim div p * p \<and> p dvd prefix + t \<and>
    (\<forall>a. align_size = Some a \<and> p dvd a \<and> p dvd prefix \<longrightarrow> a dvd t)"
  using chunk_trunc_len_bounds [OF assms] chunk_trunc_len_align [of p _ key_lim prefix t] assms by auto

theorem chunk_lengths_witness:
  "chunk_trunc_len 2 (Some 4) 11 6 = Some (8 :: int) \<and> (0 :: int) < 8 \<and> (8 :: int) \<le> 11 div 2 * 2 \<and> (2 :: int) dvd 6 + 8"
  using chunk_lengths [of 2 "Some 4" 11 6 8] by (simp add: chunk_trunc_len_def Let_def)

text \<open>C15: The simulation that admits requests ignoring the end of sequence accepts exactly when
  at every request of the list, with the tokens of the earlier ones freed, more than the
  reserve would be left after all remaining requests ran for its remaining tokens.\<close>

theorem eos_simulation:
  "eos_fits reserve cur freed sts \<longleftrightarrow>
     (\<forall>i < length sts. of_int reserve * of_nat (length sts - i) <
        cur + freed + of_int (sum_list (map snd (take i sts))) - fst (sts ! i) * of_nat (length sts - i))"
  by (rule eos_fits_iff)

theorem eos_simulation_witness:
  "eos_fits 1 20 0 [(2, 5), (3, 4)] \<and> \<not> eos_fits 1 5 0 [(2, 5), (3, 4)]"
  unfolding eos_simulation by (simp add: All_less_Suc2)

text \<open>The sorted insertion into the list of remaining tokens is not one: an entry larger
  than all others is put in front of the last entry, which leaves the list unsorted.\<close>

lemma insert_sort_breaks_order:
  assumes "sts \<noteq> []" "sorted (map fst sts)" "\<forall>s \<in> set sts. fst s < fst (req_state ratio r)" "0 < fst (req_state ratio r)"
  shows "\<not> sorted (map fst (add_req_state ratio True r sts))"
  using assms by (rule add_req_state_unsorted)

lemma insert_sort_breaks_order_witness:
  "\<not> sorted (map fst (add_req_state 1 True (ex_req ''q'' 5 [1, 2]) [(1, 4)]))"
  by (rule insert_sort_breaks_order) (simp_all add: req_state_def ex_req_def)

text \<open>In compact mode the tile budget sees only the candidate: the tiles of the requests that
  were already admitted count as zero, whatever their number and length.\<close>

lemma tile_budget_ignores_admitted:
  assumes "\<not> tile_mode_legacy env"
  shows "tile_admission_metric env (candidate_tile_metrics pa c) =
    (if 0 < c then ceil_div c (prefill_tile_block_m pa) else 0)"
  using assms by (rule compact_ignores_admitted)

lemma tile_budget_ignores_admitted_witness:
  "tile_admission_metric ex_adder_env (candidate_tile_metrics ex_adder 100) =
    (if 0 < (100 :: int) then ceil_div 100 (prefill_tile_block_m ex_adder) else 0)"
  by (rule tile_budget_ignores_admitted) (simp add: ex_adder_env_def)

end
