(* ===== verification/PagedExtend.thy ===== *)
theory PagedExtend
  imports KVAllocator
begin

text \<open>
  \<open>alloc_extend\<close> and \<open>alloc_decode\<close> of the paged allocator
  (\<open>python/sglang/srt/mem_cache/allocator/paged.py\<close>), the Triton kernels they launch
  (\<open>python/sglang/kernels/ops/memory/allocator.py\<close>), the tensor program
  \<open>alloc_extend_naive\<close> and the count \<open>get_num_new_pages\<close>.

  One program of a kernel is the list of loads from \<open>free_pages\<close> and the list of its stores
  \<open>(position, value)\<close>; a launch applies the stores of all programs to an uninitialised
  output in any order. \<open>last_loc\<close> is \<open>- 1\<close> for an empty prefix. The lemmas show that the stores of different programs never overlap,
  that every load is in range after the capacity check, that the kernel computes what the
  tensor program computes, and that the slots are those of the tokens: token \<open>t\<close> of a
  request sits at offset \<open>t mod page_size\<close> of a page, on the old last page or on a fresh one.
\<close>

section \<open>Counting pages\<close>

definition pages_of :: "nat \<Rightarrow> nat \<Rightarrow> nat" where
  "pages_of p n = (n + p - 1) div p"

definition new_pages :: "nat \<Rightarrow> nat \<times> nat \<Rightarrow> nat" where
  "new_pages p r = pages_of p (snd r) - pages_of p (fst r)"

text \<open>\<open>get_num_new_pages\<close>; requests are pairs of prefix and sequence length.\<close>

definition get_num_new_pages :: "nat \<Rightarrow> (nat \<times> nat) list \<Rightarrow> nat" where
  "get_num_new_pages p rs = (\<Sum>r\<leftarrow>rs. new_pages p r)"

definition get_num_new_pages_decode :: "nat \<Rightarrow> nat list \<Rightarrow> nat" where
  "get_num_new_pages_decode p seq_lens = (\<Sum>s\<leftarrow>seq_lens. if s mod p = 1 then 1 else 0)"

section \<open>The extend kernel\<close>

definition BLOCK_EXTEND :: nat where "BLOCK_EXTEND = 4096"

definition extend_program ::
  "nat \<Rightarrow> nat list \<Rightarrow> (nat \<times> nat) list \<Rightarrow> int list \<Rightarrow> nat \<Rightarrow> nat list \<times> (nat \<times> nat) list" where
  "extend_program p fp rs last_locs pid =
     (let (pre_len, seq_len) = rs ! pid;
          sum_extend_lens = (\<Sum>(pre, sq)\<leftarrow>take (pid + 1) rs. sq - pre);
          output_start_loc = sum_extend_lens - (seq_len - pre_len);
          sum_num_new_pages = (\<Sum>r\<leftarrow>take (pid + 1) rs. new_pages p r);
          num_page_start_loc_self = new_pages p (pre_len, seq_len);
          new_page_start_loc = sum_num_new_pages - num_page_start_loc_self;
          last_loc = last_locs ! pid;
          num_part1 = min seq_len (pages_of p pre_len * p) - pre_len;
          stores1 = map (\<lambda>i. (output_start_loc + i, nat (last_loc + 1) + i)) (filter (\<lambda>i. i < num_part1) [0..<p])
      in if pre_len + num_part1 = seq_len then ([], stores1)
         else
           (let num_part2 = seq_len div p * p - pages_of p pre_len * p;
                num_blocks = (num_part2 + BLOCK_EXTEND - 1) div BLOCK_EXTEND;
                offsets = concat (map (\<lambda>block_id.
                    filter (\<lambda>i. i < num_part2) (map (\<lambda>i. block_id * BLOCK_EXTEND + i) [0..<BLOCK_EXTEND])) [0..<num_blocks]);
                loads2 = map (\<lambda>i. new_page_start_loc + i div p) offsets;
                stores2 = map (\<lambda>i. (output_start_loc + num_part1 + i, fp ! (new_page_start_loc + i div p) * p + i mod p)) offsets
            in if pre_len + num_part1 + num_part2 = seq_len then (loads2, stores1 @ stores2)
               else
                 (let num_part3 = seq_len - seq_len div p * p;
                      load3 = new_page_start_loc + num_page_start_loc_self - 1;
                      stores3 = map (\<lambda>i. (output_start_loc + num_part1 + num_part2 + i, fp ! load3 * p + i))
                                  (filter (\<lambda>i. i < num_part3) [0..<p])
                  in (loads2 @ [load3], stores1 @ stores2 @ stores3))))"

text \<open>A launch: the programs run in the order \<open>pids\<close>. A load outside of \<open>free_pages\<close> is an
  illegal access.\<close>

definition store :: "nat \<times> nat \<Rightarrow> nat list \<Rightarrow> nat list" where
  "store s out = out[fst s := snd s]"

definition launch :: "nat list \<Rightarrow> (nat \<Rightarrow> nat list \<times> (nat \<times> nat) list) \<Rightarrow> nat list \<Rightarrow> nat list \<Rightarrow> nat list res" where
  "launch fp prog pids out =
     (if \<forall>pid \<in> set pids. \<forall>i \<in> set (fst (prog pid)). i < length fp
      then Inr (fold (\<lambda>pid. fold store (snd (prog pid))) pids out) else Inl IndexError)"

section \<open>The tensor program\<close>

text \<open>\<open>out[a:b] = vs\<close>\<close>

definition slice_assign :: "nat \<Rightarrow> nat \<Rightarrow> nat list \<Rightarrow> nat list \<Rightarrow> nat list res" where
  "slice_assign a b vs out =
     (if length vs = min b (length out) - min a (length out) then Inr (take a out @ vs @ drop b out) else Inl RuntimeError)"

definition naive_step ::
  "nat \<Rightarrow> nat list \<Rightarrow> (nat \<times> nat) list \<Rightarrow> int list \<Rightarrow> nat \<Rightarrow> nat list \<Rightarrow> nat list res" where
  "naive_step p fp rs last_locs i out0 =
     (let (pre, sq) = rs ! i;
          end_pos = (\<Sum>(pre, sq)\<leftarrow>take (i + 1) rs. sq - pre);
          start_pos = end_pos - (sq - pre);
          num_new_pages = new_pages p (pre, sq);
          need_page = num_new_pages - (sq div p - pages_of p pre);
          end_new_pages = (\<Sum>r\<leftarrow>take (i + 1) rs. new_pages p r);
          start_new_pages = end_new_pages - num_new_pages;
          num1 = min sq (pages_of p pre * p) - pre
      in bind_res (if num1 \<noteq> 0
                   then slice_assign start_pos (start_pos + num1) (map (\<lambda>j. nat (last_locs ! i + 1) + j) (take num1 [0..<p])) out0
                   else Inr out0) (\<lambda>out1.
         if pre + num1 = sq then Inr out1
         else
           (let num2 = (sq div p - pages_of p pre) * p in
            bind_res (if num2 \<noteq> 0
                      then slice_assign (start_pos + num1) (start_pos + num1 + num2)
                             (expand_pages p (slice start_new_pages (end_new_pages - need_page) fp)) out1
                      else Inr out1) (\<lambda>out2.
            if pre + num1 + num2 = sq then Inr out2
            else
              (let num3 = sq - sq div p * p in
               if num3 \<noteq> 0
               then (if end_new_pages - 1 < length fp
                     then slice_assign (end_pos - num3) end_pos
                            (map (\<lambda>j. fp ! (end_new_pages - 1) * p + j) (take num3 [0..<p])) out2
                     else Inl IndexError)
               else Inr out2)))))"

fun naive_loop :: "nat \<Rightarrow> nat list \<Rightarrow> (nat \<times> nat) list \<Rightarrow> int list \<Rightarrow> nat list \<Rightarrow> nat list \<Rightarrow> nat list res" where
  "naive_loop p fp rs last_locs [] out = Inr out"
| "naive_loop p fp rs last_locs (i # is) out =
     bind_res (naive_step p fp rs last_locs i out) (naive_loop p fp rs last_locs is)"

definition alloc_extend_naive :: "nat \<Rightarrow> nat list \<Rightarrow> (nat \<times> nat) list \<Rightarrow> int list \<Rightarrow> nat list \<Rightarrow> nat list res" where
  "alloc_extend_naive p fp rs last_locs out = naive_loop p fp rs last_locs [0..<length rs] out"

section \<open>Extending requests\<close>

text \<open>\<open>garbage\<close> is the content of the uninitialised output, \<open>pids\<close> the order in which the
  programs of the launch run. \<open>num_new\<close> is the optional argument \<open>num_new_pages\<close>.\<close>

definition alloc_extend ::
  "(nat \<Rightarrow> nat) \<Rightarrow> nat list \<Rightarrow> (nat \<times> nat) list \<Rightarrow> int list \<Rightarrow> nat \<Rightarrow> nat option \<Rightarrow> kv_alloc \<Rightarrow> (kv_alloc \<times> nat list option) res" where
  "alloc_extend garbage pids rs last_locs extend_num_tokens num_new a0 =
     (let p = al_page_size a0 in
      if debug_mode a0 \<and> \<not> (\<forall>i < length rs. (last_locs ! i + 1) mod int p = int (fst (rs ! i)) mod int p) then Inl AssertionError
      else
        (let bs = length rs;
             a = (if need_sort a0 \<and> extend_num_tokens div p + bs + 1 > length (free_pages a0)
                  then merge_and_sort_free a0 else a0);
             n = (case num_new of None \<Rightarrow> get_num_new_pages p rs | Some n \<Rightarrow> n)
         in if n > length (free_pages a) then Inr (a, None)
            else
              bind_res (launch (free_pages a) (extend_program p (free_pages a) rs last_locs) pids
                         (map garbage [0..<extend_num_tokens])) (\<lambda>out.
              if debug_mode a \<and> length (unique out) \<noteq> length out then Inl AssertionError
              else Inr (a\<lparr>free_pages := drop n (free_pages a)\<rparr>, Some out))))"

section \<open>Decoding\<close>

definition decode_program ::
  "nat \<Rightarrow> nat list \<Rightarrow> nat list \<Rightarrow> int list \<Rightarrow> nat \<Rightarrow> nat list \<times> (nat \<times> nat) list" where
  "decode_program p fp seq_lens last_locs pid =
     (let seq_len = seq_lens ! pid;
          sum_num_new_pages = (\<Sum>s\<leftarrow>take (pid + 1) seq_lens. new_pages p (s - 1, s));
          num_page_start_loc_self = new_pages p (seq_len - 1, seq_len);
          new_page_start_loc = sum_num_new_pages - num_page_start_loc_self
      in if num_page_start_loc_self = 0 then ([], [(pid, nat (last_locs ! pid + 1))])
         else ([new_page_start_loc], [(pid, fp ! new_page_start_loc * p)]))"

definition alloc_decode ::
  "(nat \<Rightarrow> nat) \<Rightarrow> nat list \<Rightarrow> nat list \<Rightarrow> int list \<Rightarrow> kv_alloc \<Rightarrow> (kv_alloc \<times> nat list option) res" where
  "alloc_decode garbage pids seq_lens last_locs a0 =
     (let p = al_page_size a0 in
      if debug_mode a0 \<and> \<not> (\<forall>i < length seq_lens. (last_locs ! i + 2) mod int p = int (seq_lens ! i) mod int p) then Inl AssertionError
      else
        (let bs = length seq_lens;
             a = (if need_sort a0 \<and> bs > length (free_pages a0) then merge_and_sort_free a0 else a0);
             n = get_num_new_pages_decode p seq_lens
         in if n > length (free_pages a) then Inr (a, None)
            else
              bind_res (launch (free_pages a) (decode_program p (free_pages a) seq_lens last_locs) pids
                         (map garbage [0..<bs])) (\<lambda>out.
              if debug_mode a \<and> length (unique out) \<noteq> length out then Inl AssertionError
              else Inr (a\<lparr>free_pages := drop n (free_pages a)\<rparr>, Some out))))"

section \<open>Page arithmetic\<close>

lemma pages_of_bounds:
  assumes "0 < p"
  shows "n \<le> pages_of p n * p" "pages_of p n * p < n + p"
proof -
  have "pages_of p n * p + (n + p - 1) mod p = n + p - 1" unfolding pages_of_def by (rule div_mult_mod_eq)
  moreover have "(n + p - 1) mod p < p" using assms by simp
  ultimately show "n \<le> pages_of p n * p" "pages_of p n * p < n + p" using assms by linarith+
qed

lemma pages_of_unique:
  assumes "0 < p" "n \<le> k * p" "k * p < n + p"
  shows "pages_of p n = k"
proof -
  note b = pages_of_bounds [OF assms(1), of n]
  have "pages_of p n * p < (k + 1) * p" "k * p < (pages_of p n + 1) * p"
    using b assms(2,3) by (simp_all add: add_mult_distrib)
  then have "pages_of p n < k + 1" "k < pages_of p n + 1" using mult_less_cancel2 by blast+
  then show ?thesis by simp
qed

lemma pages_of_le: "0 < p \<Longrightarrow> m \<le> n \<Longrightarrow> pages_of p m \<le> pages_of p n"
  by (simp add: pages_of_def div_le_mono)

lemma pages_of_eq:
  assumes "0 < p"
  shows "pages_of p n = (if n mod p = 0 then n div p else n div p + 1)"
proof -
  have n: "n div p * p + n mod p = n" by (rule div_mult_mod_eq)
  have m: "n mod p < p" using assms by simp
  show ?thesis
  proof (cases "n mod p = 0")
    case True
    then have "n div p * p = n" using n by linarith
    then have "pages_of p n = n div p" using assms by (intro pages_of_unique) simp_all
    then show ?thesis using True by simp
  next
    case False
    then have "n \<le> (n div p + 1) * p" "(n div p + 1) * p < n + p"
      unfolding add_mult_distrib using n m by linarith+
    then have "pages_of p n = n div p + 1" using assms by (intro pages_of_unique)
    then show ?thesis using False by simp
  qed
qed

lemma upt_join: "a \<le> b \<Longrightarrow> b \<le> c \<Longrightarrow> [a..<b] @ [b..<c] = [a..<c]"
  using upt_add_eq_append [of a b "c - b"] by simp

lemma filter_upt_less: "filter (\<lambda>i. i < n) [a..<b] = [a..<min n b]"
proof (induction b)
  case (Suc b)
  then show ?case by (cases "b < n") (auto simp: min_def le_Suc_eq)
qed simp

lemma map_shift: "map f [a..<a + n] = map (\<lambda>i. f (a + i)) [0..<n]"
  by (induction n) simp_all

text \<open>The blocked loop visits every offset once, in order.\<close>

lemma blocked_offsets:
  assumes "0 < b"
  shows "concat (map (\<lambda>k. filter (\<lambda>i. i < n) (map (\<lambda>i. k * b + i) [0..<b])) [0..<m]) = [0..<min n (m * b)]"
proof (induction m)
  case (Suc m)
  have "map (\<lambda>i. m * b + i) [0..<b] = [m * b..<m * b + b]" using map_shift [of "\<lambda>i. i" "m * b" b] by simp
  then have "concat (map (\<lambda>k. filter (\<lambda>i. i < n) (map (\<lambda>i. k * b + i) [0..<b])) [0..<Suc m]) =
      [0..<min n (m * b)] @ [m * b..<min n (m * b + b)]" using Suc by (simp add: filter_upt_less)
  also have "\<dots> = [0..<min n (Suc m * b)]"
  proof (cases "m * b \<le> n")
    case True
    then have "min n (m * b) = m * b" "m * b \<le> min n (m * b + b)" "min n (Suc m * b) = min n (m * b + b)" by simp_all
    then show ?thesis using upt_join [of 0 "m * b" "min n (m * b + b)"] by (simp only:)
  qed simp
  finally show ?case .
qed simp

lemma all_blocks: "concat (map (\<lambda>k. filter (\<lambda>i. i < n) (map (\<lambda>i. k * BLOCK_EXTEND + i) [0..<BLOCK_EXTEND]))
    [0..<(n + BLOCK_EXTEND - 1) div BLOCK_EXTEND]) = [0..<n]"
proof -
  have b: "0 < BLOCK_EXTEND" by (simp add: BLOCK_EXTEND_def)
  have "n \<le> (n + BLOCK_EXTEND - 1) div BLOCK_EXTEND * BLOCK_EXTEND"
    using pages_of_bounds(1) [OF b, of n] by (simp only: pages_of_def)
  then show ?thesis unfolding blocked_offsets [OF b] by (simp add: min_def)
qed

section \<open>The slots of one request\<close>

text \<open>The slot of token \<open>t\<close>: after the last slot on the last page of the prefix, then on the
  new pages, which start at index \<open>start\<close> of the free list.\<close>

definition ext_slot :: "nat \<Rightarrow> nat list \<Rightarrow> nat \<Rightarrow> int \<Rightarrow> nat \<Rightarrow> nat \<Rightarrow> nat" where
  "ext_slot p fp start last_loc pre t =
     (if t < pages_of p pre * p then nat (last_loc + 1) + (t - pre)
      else fp ! (start + (t div p - pages_of p pre)) * p + t mod p)"

definition ext_len :: "nat \<times> nat \<Rightarrow> nat" where
  "ext_len r = snd r - fst r"

definition out_start :: "(nat \<times> nat) list \<Rightarrow> nat \<Rightarrow> nat" where
  "out_start rs i = (\<Sum>r\<leftarrow>take i rs. ext_len r)"

definition page_start :: "nat \<Rightarrow> (nat \<times> nat) list \<Rightarrow> nat \<Rightarrow> nat" where
  "page_start p rs i = (\<Sum>r\<leftarrow>take i rs. new_pages p r)"

definition req_slots :: "nat \<Rightarrow> nat list \<Rightarrow> (nat \<times> nat) list \<Rightarrow> int list \<Rightarrow> nat \<Rightarrow> nat list" where
  "req_slots p fp rs last_locs i =
     map (ext_slot p fp (page_start p rs i) (last_locs ! i) (fst (rs ! i))) [fst (rs ! i)..<snd (rs ! i)]"

lemma starts_Suc:
  assumes "i < length rs"
  shows "out_start rs (Suc i) = out_start rs i + ext_len (rs ! i)"
    "page_start p rs (Suc i) = page_start p rs i + new_pages p (rs ! i)"
  using assms by (simp_all add: out_start_def page_start_def take_Suc_conv_app_nth)

lemma starts_mono:
  assumes "i \<le> j"
  shows "out_start rs i \<le> out_start rs j" "page_start p rs i \<le> page_start p rs j"
proof -
  have "take j rs = take i rs @ take (j - i) (drop i rs)" using assms by (metis le_add_diff_inverse take_add)
  then show "out_start rs i \<le> out_start rs j" "page_start p rs i \<le> page_start p rs j"
    by (simp_all add: out_start_def page_start_def)
qed

text \<open>The three parts of the new tokens.\<close>

lemma parts:
  assumes "0 < p" "pre \<le> sq"
  defines "q1 \<equiv> min sq (pages_of p pre * p)"
  shows "pre \<le> q1" "q1 - pre < p" "q1 \<noteq> sq \<Longrightarrow> q1 = pages_of p pre * p"
    "q1 \<noteq> sq \<Longrightarrow> pages_of p pre \<le> sq div p"
    "q1 \<noteq> sq \<Longrightarrow> sq div p * p \<noteq> sq \<Longrightarrow> new_pages p (pre, sq) = sq div p - pages_of p pre + 1"
    "q1 \<noteq> sq \<Longrightarrow> sq div p * p = sq \<Longrightarrow> new_pages p (pre, sq) = sq div p - pages_of p pre"
proof -
  note b = pages_of_bounds [OF assms(1), of pre]
  show "pre \<le> q1" "q1 - pre < p" "q1 \<noteq> sq \<Longrightarrow> q1 = pages_of p pre * p"
    using b assms(1,2) by (auto simp: q1_def min_def)
  show le: "pages_of p pre \<le> sq div p" if "q1 \<noteq> sq"
  proof -
    have "pages_of p pre * p \<le> sq" using that by (auto simp: q1_def min_def split: if_splits)
    then show ?thesis using assms(1) by (simp add: less_eq_div_iff_mult_less_eq)
  qed
  show "new_pages p (pre, sq) = sq div p - pages_of p pre + 1" if "q1 \<noteq> sq" "sq div p * p \<noteq> sq"
  proof -
    have "sq mod p \<noteq> 0" using that(2) by (metis add.right_neutral div_mult_mod_eq)
    then show ?thesis using le [OF that(1)] assms(1) by (simp add: new_pages_def pages_of_eq [of p sq])
  qed
  show "new_pages p (pre, sq) = sq div p - pages_of p pre" if "q1 \<noteq> sq" "sq div p * p = sq"
  proof -
    have "sq mod p = 0" using that(2) by (metis mod_mult_self2_is_0)
    then show ?thesis using assms(1) by (simp add: new_pages_def pages_of_eq [of p sq])
  qed
qed

lemma parts_append:
  assumes "0 < p" "pre \<le> sq" "min sq (pages_of p pre * p) \<noteq> sq"
  shows "map f [pre..<sq] = map (\<lambda>i. f (pre + i)) [0..<pages_of p pre * p - pre] @
    map (\<lambda>i. f (pages_of p pre * p + i)) [0..<sq div p * p - pages_of p pre * p] @
    map (\<lambda>i. f (sq div p * p + i)) [0..<sq - sq div p * p]"
proof -
  note P = parts [OF assms(1,2)]
  let ?a = "pages_of p pre * p" and ?b = "sq div p * p"
  have le: "pre \<le> ?a" "?a \<le> ?b" "?b \<le> sq"
    using P(1,3,4) assms(3) pages_of_bounds(1) [OF assms(1)] by (auto simp: mult_le_mono1)
  then have "[pre..<sq] = [pre..<pre + (?a - pre)] @ [?a..<?a + (?b - ?a)] @ [?b..<?b + (sq - ?b)]"
    using upt_join [of pre ?a sq] upt_join [of ?a ?b sq] order_trans [OF le(2,3)] by simp
  then show ?thesis by (simp only: map_append map_shift)
qed

lemma ext_slot_parts:
  assumes "0 < p"
  shows "i < pages_of p pre * p - pre \<Longrightarrow> ext_slot p fp st l pre (pre + i) = nat (l + 1) + i"
    "ext_slot p fp st l pre (pages_of p pre * p + i) = fp ! (st + i div p) * p + i mod p"
    "pages_of p pre \<le> sq div p \<Longrightarrow> i < p \<Longrightarrow>
       ext_slot p fp st l pre (sq div p * p + i) = fp ! (st + (sq div p - pages_of p pre)) * p + i"
proof -
  assume "i < pages_of p pre * p - pre"
  then have "pre + i < pages_of p pre * p" by linarith
  then show "ext_slot p fp st l pre (pre + i) = nat (l + 1) + i" by (simp add: ext_slot_def)
next
  show "ext_slot p fp st l pre (pages_of p pre * p + i) = fp ! (st + i div p) * p + i mod p"
    using assms by (simp add: ext_slot_def)
next
  assume *: "pages_of p pre \<le> sq div p" "i < p"
  then have "\<not> sq div p * p + i < pages_of p pre * p"
    using mult_le_mono1 [of "pages_of p pre" "sq div p" p] by linarith
  then show "ext_slot p fp st l pre (sq div p * p + i) = fp ! (st + (sq div p - pages_of p pre)) * p + i"
    using * by (simp add: ext_slot_def)
qed

lemma sum_ext_lens: "(\<Sum>(pre, sq)\<leftarrow>xs. sq - pre) = (\<Sum>r\<leftarrow>xs. ext_len r)"
  by (induction xs) (auto simp: ext_len_def)

lemma sum_take_Suc_minus:
  assumes "i < length rs"
  shows "(\<Sum>(pre, sq)\<leftarrow>take (i + 1) rs. sq - pre) - (snd (rs ! i) - fst (rs ! i)) = out_start rs i"
    "(\<Sum>r\<leftarrow>take (i + 1) rs. new_pages p r) - new_pages p (rs ! i) = page_start p rs i"
    "(\<Sum>(pre, sq)\<leftarrow>take (i + 1) rs. sq - pre) = out_start rs i + ext_len (rs ! i)"
    "(\<Sum>r\<leftarrow>take (i + 1) rs. new_pages p r) = page_start p rs i + new_pages p (rs ! i)"
  using assms ext_len_def [of "rs ! i"]
  by (simp_all add: sum_ext_lens [simplified case_prod_beta] case_prod_beta out_start_def page_start_def take_Suc_conv_app_nth)

text \<open>The stores of a program are those of the tokens of its request, in order, and its loads
  stay among its own new pages.\<close>

lemma extend_program_stores:
  assumes p: "0 < p" and i: "i < length rs" and le: "fst (rs ! i) \<le> snd (rs ! i)"
  shows "snd (extend_program p fp rs last_locs i) =
    map (\<lambda>k. (out_start rs i + k, req_slots p fp rs last_locs i ! k)) [0..<ext_len (rs ! i)]"
    "\<forall>l \<in> set (fst (extend_program p fp rs last_locs i)).
       page_start p rs i \<le> l \<and> l < page_start p rs i + new_pages p (rs ! i)"
proof -
  obtain pre sq where r: "rs ! i = (pre, sq)" by (rule prod.exhaust)
  have ps: "pre \<le> sq" using le r by simp
  let ?o = "out_start rs i" and ?st = "page_start p rs i" and ?l = "last_locs ! i"
  let ?a = "pages_of p pre * p" and ?b = "sq div p * p"
  let ?f = "ext_slot p fp ?st ?l pre"
  let ?g = "\<lambda>t. (?o + (t - pre), ?f t)"
  note P = parts [OF p ps]
  note sums = sum_take_Suc_minus(1,2) [OF i, unfolded r fst_conv snd_conv]
  have goal1: "map (\<lambda>k. (?o + k, req_slots p fp rs last_locs i ! k)) [0..<ext_len (rs ! i)] = map ?g [pre..<sq]"
    using map_shift [of ?g pre "sq - pre"] ps by (simp add: req_slots_def r ext_len_def)
  have n1: "min sq ?a - pre \<le> p" using P(2) by simp
  have f1: "filter (\<lambda>k. k < min sq ?a - pre) [0..<p] = [0..<min sq ?a - pre]"
    using n1 by (simp add: filter_upt_less min_def)
  have s1: "map (\<lambda>k. (?o + k, nat (?l + 1) + k)) [0..<min sq ?a - pre] = map (\<lambda>k. ?g (pre + k)) [0..<min sq ?a - pre]"
    using ext_slot_parts(1) [OF p] by auto
  note ep = extend_program_def [of p fp rs last_locs i, unfolded r Let_def split_conv sums all_blocks f1]
  show "snd (extend_program p fp rs last_locs i) =
      map (\<lambda>k. (?o + k, req_slots p fp rs last_locs i ! k)) [0..<ext_len (rs ! i)]"
  proof (cases "min sq ?a = sq")
    case True
    then show ?thesis unfolding goal1 using s1 map_shift [of ?g pre "sq - pre"] ps P(1) by (simp add: ep)
  next
    case False
    then have a: "min sq ?a = ?a" "pre \<le> ?a" "?a \<le> ?b" using P(1,3,4) by (auto simp: mult_le_mono1)
    have s2: "map (\<lambda>k. (?o + (?a - pre) + k, fp ! (?st + k div p) * p + k mod p)) [0..<?b - ?a] =
        map (\<lambda>k. ?g (?a + k)) [0..<?b - ?a]"
      using ext_slot_parts(2) [OF p] a(2) by (auto simp: add.assoc)
    show ?thesis
    proof (cases "?b = sq")
      case True
      then show ?thesis unfolding goal1 parts_append [OF p ps False, of ?g] using False a s1 s2 by (simp add: ep)
    next
      case b: False
      have lt: "sq - ?b < p" using p by (simp add: minus_div_mult_eq_mod)
      have f3: "filter (\<lambda>k. k < sq - ?b) [0..<p] = [0..<sq - ?b]" using lt by (simp add: filter_upt_less min_def)
      have np: "?st + new_pages p (pre, sq) - 1 = ?st + (sq div p - pages_of p pre)"
        using P(5) [OF False b] by simp
      have s3: "map (\<lambda>k. (?o + (?a - pre) + (?b - ?a) + k, fp ! (?st + (sq div p - pages_of p pre)) * p + k)) [0..<sq - ?b] =
          map (\<lambda>k. ?g (?b + k)) [0..<sq - ?b]"
      proof (rule map_cong [OF refl])
        fix k assume "k \<in> set [0..<sq - ?b]"
        then have "?f (?b + k) = fp ! (?st + (sq div p - pages_of p pre)) * p + k"
          using lt by (intro ext_slot_parts(3) [OF p P(4) [OF False]]) simp
        moreover have "?o + (?a - pre) + (?b - ?a) + k = ?o + (?b + k - pre)" using a(2,3) by linarith
        ultimately show "(?o + (?a - pre) + (?b - ?a) + k, fp ! (?st + (sq div p - pages_of p pre)) * p + k) = ?g (?b + k)"
          by simp
      qed
      show ?thesis unfolding goal1 parts_append [OF p ps False, of ?g]
        using False a b s1 s2 s3 by (simp add: ep f3 np [unfolded One_nat_def])
    qed
  qed
  show "\<forall>l \<in> set (fst (extend_program p fp rs last_locs i)). ?st \<le> l \<and> l < ?st + new_pages p (rs ! i)"
  proof (cases "min sq ?a = sq")
    case True
    then show ?thesis using P(1) by (simp add: ep)
  next
    case False
    then have a: "min sq ?a = ?a" "pre \<le> ?a" "?a \<le> ?b" using P(1,3,4) by (auto simp: mult_le_mono1)
    have d: "k div p < sq div p - pages_of p pre" if "k < ?b - ?a" for k
      using that p by (simp add: div_less_iff_less_mult diff_mult_distrib)
    show ?thesis
    proof (cases "?b = sq")
      case True
      then show ?thesis using False a d P(6) [OF False True] by (auto simp: ep r)
    next
      case b: False
      then show ?thesis using False a d P(5) [OF False b] by (auto simp: ep r intro: less_SucI)
    qed
  qed
qed

section \<open>Launches\<close>

lemma length_fold_store [simp]: "length (fold store ss out) = length out"
  by (induction ss arbitrary: out) (simp_all add: store_def)

lemma fold_store_run:
  assumes "b + n \<le> length out"
  shows "fold store (map (\<lambda>k. (b + k, v k)) [0..<n]) out = take b out @ map v [0..<n] @ drop (b + n) out"
  using assms
proof (induction n)
  case (Suc n)
  then have "fold store (map (\<lambda>k. (b + k, v k)) [0..<Suc n]) out = (take b out @ map v [0..<n] @ drop (b + n) out)[b + n := v n]"
    by (simp add: store_def [of "(b + n, v n)"])
  also have "\<dots> = take b out @ map v [0..<n] @ (drop (b + n) out)[0 := v n]"
    using Suc.prems by (simp add: list_update_append)
  also have "(drop (b + n) out)[0 := v n] = v n # drop (b + Suc n) out"
    using Suc.prems by (simp add: Cons_nth_drop_Suc [symmetric])
  finally show ?case by simp
qed simp

text \<open>Stores to different positions commute, so the order of the programs does not matter.\<close>

lemma fold_store_perm:
  assumes "distinct (map fst ss)" "mset ss = mset ss'"
  shows "fold store ss out = fold store ss' out"
proof -
  have "store x \<circ> store y = store y \<circ> store x" if "x \<in> set ss" "y \<in> set ss" for x y
  proof (cases "x = y")
    case False
    then have "fst x \<noteq> fst y" using assms(1) that by (metis distinct_map inj_on_contraD)
    then show ?thesis by (auto simp: store_def fun_eq_iff list_update_swap)
  qed simp
  then have "fold store ss = fold store ss'" using assms(2) by (intro fold_multiset_equiv)
  then show ?thesis by simp
qed

lemma fold_concat: "fold (\<lambda>pid. fold store (f pid)) pids out = fold store (concat (map f pids)) out"
  by (induction pids arbitrary: out) simp_all

definition reqs_ok :: "(nat \<times> nat) list \<Rightarrow> bool" where
  "reqs_ok rs \<longleftrightarrow> (\<forall>r \<in> set rs. fst r \<le> snd r)"

definition all_slots :: "nat \<Rightarrow> nat list \<Rightarrow> (nat \<times> nat) list \<Rightarrow> int list \<Rightarrow> nat \<Rightarrow> nat list" where
  "all_slots p fp rs last_locs n = concat (map (req_slots p fp rs last_locs) [0..<n])"

lemma length_req_slots [simp]: "length (req_slots p fp rs last_locs i) = ext_len (rs ! i)"
  by (simp add: req_slots_def ext_len_def)

lemma length_all_slots: "n \<le> length rs \<Longrightarrow> length (all_slots p fp rs last_locs n) = out_start rs n"
  by (induction n) (auto simp: all_slots_def starts_Suc out_start_def [of _ 0])

lemma positions:
  assumes "0 < p" "reqs_ok rs" "n \<le> length rs"
  shows "map fst (concat (map (\<lambda>i. snd (extend_program p fp rs ll i)) [0..<n])) = [0..<out_start rs n]"
  using assms(3)
proof (induction n)
  case (Suc n)
  have "map fst (snd (extend_program p fp rs ll n)) = [out_start rs n..<out_start rs n + ext_len (rs ! n)]"
    using extend_program_stores(1) [OF assms(1), of n rs] assms(2) Suc.prems map_shift [of "\<lambda>k. k" "out_start rs n" "ext_len (rs ! n)"]
    by (simp add: reqs_ok_def comp_def)
  then show ?case using Suc starts_Suc(1) [of n rs] upt_join [of 0 "out_start rs n" "out_start rs n + ext_len (rs ! n)"]
    by simp
qed (simp add: out_start_def)

lemma run_in_order:
  assumes "0 < p" "reqs_ok rs" "n \<le> length rs" "out_start rs n \<le> length out"
  shows "fold store (concat (map (\<lambda>i. snd (extend_program p fp rs ll i)) [0..<n])) out =
    all_slots p fp rs ll n @ drop (out_start rs n) out"
  using assms(3,4)
proof (induction n)
  case (Suc n)
  have n: "n < length rs" "out_start rs n \<le> length out" "out_start rs (Suc n) = out_start rs n + ext_len (rs ! n)"
    using Suc.prems starts_Suc(1) [of n rs] starts_mono(1) [of n "Suc n" rs] by auto
  let ?out = "all_slots p fp rs ll n @ drop (out_start rs n) out"
  have len: "length (all_slots p fp rs ll n) = out_start rs n" using length_all_slots n(1) by simp
  have "fold store (snd (extend_program p fp rs ll n)) ?out =
      take (out_start rs n) ?out @ map ((!) (req_slots p fp rs ll n)) [0..<ext_len (rs ! n)] @ drop (out_start rs n + ext_len (rs ! n)) ?out"
    using extend_program_stores(1) [OF assms(1) n(1), of fp ll] assms(2) n Suc.prems(2) len
    by (simp add: reqs_ok_def fold_store_run)
  also have "map ((!) (req_slots p fp rs ll n)) [0..<ext_len (rs ! n)] = req_slots p fp rs ll n"
    using map_nth [of "req_slots p fp rs ll n"] by simp
  finally show ?case using Suc.IH n len by (simp add: all_slots_def add.commute)
qed (simp add: all_slots_def out_start_def)

theorem launch_extend:
  assumes "0 < p" "reqs_ok rs" "mset pids = mset [0..<length rs]" "get_num_new_pages p rs \<le> length fp"
    "length out = out_start rs (length rs)"
  shows "launch fp (extend_program p fp rs ll) pids out = Inr (all_slots p fp rs ll (length rs))"
proof -
  have pids: "set pids = {0..<length rs}" using arg_cong [OF assms(3), of set_mset] by simp
  have loads: "l < length fp" if "i < length rs" "l \<in> set (fst (extend_program p fp rs ll i))" for i l
  proof -
    have "l < page_start p rs (Suc i)"
      using extend_program_stores(2) [OF assms(1) that(1), of fp ll] assms(2) that by (auto simp: starts_Suc reqs_ok_def)
    also have "\<dots> \<le> page_start p rs (length rs)" using that(1) by (intro starts_mono) simp
    also have "\<dots> \<le> length fp" using assms(4) by (simp add: page_start_def get_num_new_pages_def)
    finally show ?thesis .
  qed
  let ?f = "\<lambda>i. snd (extend_program p fp rs ll i)"
  have d: "distinct (map fst (concat (map ?f [0..<length rs])))" using positions [OF assms(1,2) order_refl] by simp
  have m: "mset (concat (map ?f [0..<length rs])) = mset (concat (map ?f pids))"
    using arg_cong [OF assms(3), of "\<lambda>M. \<Sum>i\<in>#M. mset (?f i)"] by (simp add: mset_concat comp_def sum_mset_sum_list [symmetric])
  have "fold store (concat (map ?f pids)) out = fold store (concat (map ?f [0..<length rs])) out"
    using fold_store_perm [OF d m] by simp
  then show ?thesis
    using run_in_order [OF assms(1,2) order_refl, of out fp ll] assms(5) loads pids
    by (simp add: launch_def fold_concat)
qed

section \<open>The tensor program computes the same\<close>

lemma slice_assign_ok:
  "a + length vs \<le> length out \<Longrightarrow> b = a + length vs \<Longrightarrow> slice_assign a b vs out = Inr (take a out @ vs @ drop b out)"
  by (simp add: slice_assign_def)

lemma expand_pages_slots:
  assumes "s + k \<le> length fp"
  shows "expand_pages p (slice s (s + k) fp) = map (\<lambda>i. fp ! (s + i div p) * p + i mod p) [0..<k * p]"
  using assms
proof (induction k)
  case (Suc k)
  have sl: "slice s (s + Suc k) fp = slice s (s + k) fp @ [fp ! (s + k)]"
    using Suc.prems by (simp add: slice_def take_Suc_conv_app_nth)
  have "[0..<Suc k * p] = [0..<k * p] @ [k * p..<k * p + p]" using upt_join [of 0 "k * p" "k * p + p"] by (simp add: add.commute)
  moreover have "map (\<lambda>i. fp ! (s + i div p) * p + i mod p) [k * p..<k * p + p] = map (\<lambda>j. fp ! (s + k) * p + j) [0..<p]"
    unfolding map_shift by simp
  ultimately show ?case using Suc by (simp add: sl [unfolded add_Suc_right] expand_pages_def)
qed (simp add: expand_pages_def)

definition written :: "nat \<Rightarrow> nat list \<Rightarrow> nat list \<Rightarrow> nat list" where
  "written b vs out = take b out @ vs @ drop (b + length vs) out"

lemma slice_assign_next:
  assumes "b + length vs + length ws \<le> length out" "c = b + length vs" "d = c + length ws"
  shows "slice_assign c d ws (written b vs out) = Inr (written b (vs @ ws) out)"
  using assms by (simp add: slice_assign_def written_def add.assoc add.commute add.left_commute)

lemma written_Nil [simp]: "written b [] out = out"
  by (simp add: written_def)

lemma slice_next_if:
  assumes "b + length vs + length ws \<le> length out" "c = b + length vs" "n = length ws"
  shows "(if n \<noteq> 0 then slice_assign c (c + n) ws (written b vs out) else Inr (written b vs out)) = Inr (written b (vs @ ws) out)"
  using assms slice_assign_next [of b vs ws out c "c + n"] by auto

lemma naive_step_slots:
  assumes p: "0 < p" and i: "i < length rs" and le: "fst (rs ! i) \<le> snd (rs ! i)"
    and cap: "page_start p rs i + new_pages p (rs ! i) \<le> length fp" and len: "out_start rs i + ext_len (rs ! i) \<le> length out"
  shows "naive_step p fp rs ll i out = Inr (written (out_start rs i) (req_slots p fp rs ll i) out)"
proof -
  obtain pre sq where r: "rs ! i = (pre, sq)" by (rule prod.exhaust)
  have ps: "pre \<le> sq" "ext_len (rs ! i) = sq - pre" using le r by (simp_all add: ext_len_def)
  let ?o = "out_start rs i" and ?st = "page_start p rs i" and ?l = "ll ! i"
  let ?a = "pages_of p pre * p" and ?b = "sq div p * p" and ?f = "ext_slot p fp (page_start p rs i) (ll ! i) pre"
  note P = parts [OF p ps(1)]
  note sums = sum_take_Suc_minus [OF i, unfolded r fst_conv snd_conv]
  let ?n1 = "min sq ?a - pre"
  let ?v1 = "map (\<lambda>k. ?f (pre + k)) [0..<?n1]"
  have t1: "take ?n1 [0..<p] = [0..<?n1]" using P(2) by (simp add: min_def)
  have v1: "map (\<lambda>j. nat (?l + 1) + j) [0..<?n1] = ?v1" using ext_slot_parts(1) [OF p] by auto
  have s1: "(if ?n1 \<noteq> 0 then slice_assign ?o (?o + ?n1) (map (\<lambda>j. nat (?l + 1) + j) (take ?n1 [0..<p])) out else Inr out) =
      Inr (written ?o ?v1 out)"
  proof -
    have "?n1 \<le> sq - pre" by (rule diff_le_mono) simp
    then have "?o + ?n1 \<le> length out" using len ps(2) by linarith
    then show ?thesis
      using slice_next_if [of ?o "[]" ?v1 out ?o ?n1] unfolding t1 v1 written_Nil by (simp only: list.size add_0_right append_Nil
          length_map length_upt diff_zero)
  qed
  have el: "ext_len (pre, sq) = sq - pre" by (simp add: ext_len_def)
  note ns = naive_step_def [of p fp rs ll i out, unfolded r Let_def split_conv sums(1,2), unfolded sums(3,4) el s1 bind_res_simps]
  show ?thesis
  proof (cases "min sq ?a = sq")
    case True
    then show ?thesis using map_shift [of ?f pre "sq - pre"] ps P(1) by (simp add: ns req_slots_def r)
  next
    case False
    then have a: "min sq ?a = ?a" "pre \<le> ?a" "?a \<le> ?b" "pages_of p pre \<le> sq div p" using P(1,3,4) by (auto simp: mult_le_mono1)
    let ?k = "sq div p - pages_of p pre"
    let ?v2 = "map (\<lambda>j. ?f (?a + j)) [0..<?b - ?a]" and ?v3 = "map (\<lambda>j. ?f (?b + j)) [0..<sq - ?b]"
    have n2: "?k * p = ?b - ?a" by (simp add: diff_mult_distrib)
    have rs: "req_slots p fp rs ll i = ?v1 @ ?v2 @ ?v3"
      using parts_append [OF p ps(1) False, of ?f] a(1) by (simp add: req_slots_def r)
    have need: "?st + new_pages p (pre, sq) - (new_pages p (pre, sq) - ?k) = ?st + ?k"
      using P(5,6) [OF False] by (cases "?b = sq") simp_all
    have "?st + ?k \<le> length fp" using cap P(5,6) [OF False] by (cases "?b = sq") (simp_all add: r)
    then have ex: "expand_pages p (slice ?st (?st + ?k) fp) = ?v2"
      using expand_pages_slots [of ?st ?k fp p] ext_slot_parts(2) [OF p] by (simp add: n2)
    have s2: "(if ?k * p \<noteq> 0 then slice_assign (?o + ?n1) (?o + ?n1 + ?k * p) ?v2 (written ?o ?v1 out) else Inr (written ?o ?v1 out)) =
        Inr (written ?o (?v1 @ ?v2) out)"
    proof (rule slice_next_if)
      have "?b \<le> sq" by simp
      then have "?o + (?a - pre) + (?b - ?a) \<le> length out" using len ps(2) a(2,3) by linarith
      then show "?o + length ?v1 + length ?v2 \<le> length out" using a(1) by simp
    qed (simp_all add: n2)
    note ns2 = ns [unfolded need ex s2 bind_res_simps]
    show ?thesis
    proof (cases "?b = sq")
      case True
      then show ?thesis using False a by (simp add: ns2 rs n2)
    next
      case b: False
      have le_b: "?b \<le> sq" by simp
      have lt: "sq - ?b < p" "?b \<le> sq" "0 < sq - ?b"
        using p le_b le_neq_implies_less [OF le_b b] by (simp add: minus_div_mult_eq_mod, simp_all only: zero_less_diff)
      have t3: "take (sq - ?b) [0..<p] = [0..<sq - ?b]" using lt(1) by simp
      have np: "?st + new_pages p (pre, sq) - 1 = ?st + ?k" "?st + ?k < length fp"
        using P(5) [OF False b] cap by (simp_all add: r)
      have v3: "map (\<lambda>j. fp ! (?st + ?k) * p + j) [0..<sq - ?b] = ?v3"
        using ext_slot_parts(3) [OF p a(4)] lt(1) by auto
      have "slice_assign (?o + (sq - pre) - (sq - ?b)) (?o + (sq - pre)) ?v3 (written ?o (?v1 @ ?v2) out) =
          Inr (written ?o ((?v1 @ ?v2) @ ?v3) out)"
      proof (rule slice_assign_next)
        have l12: "length (?v1 @ ?v2) = (?a - pre) + (?b - ?a)" "length ?v3 = sq - ?b" using a(1) by simp_all
        show "?o + length (?v1 @ ?v2) + length ?v3 \<le> length out" unfolding l12 using len ps(2) a(2,3) lt(2) by linarith
        show "?o + (sq - pre) - (sq - ?b) = ?o + length (?v1 @ ?v2)" unfolding l12 using ps(1) a(2,3) lt(2) by linarith
        show "?o + (sq - pre) = ?o + (sq - pre) - (sq - ?b) + length ?v3" unfolding l12 using ps(1) a(2,3) lt(2) by linarith
      qed
      note s3 = this
      have c: "pre + ?n1 \<noteq> sq" "pre + ?n1 + (?b - ?a) \<noteq> sq" "sq - ?b \<noteq> 0"
        using False a(1-3) b lt(2,3) by linarith+
      show ?thesis
        unfolding ns2 n2 np(1) if_not_P [OF c(1)] if_not_P [OF c(2)] if_P [OF c(3)] if_P [OF np(2)] t3 v3
        by (simp only: s3 rs append_assoc)
    qed
  qed
qed

lemma naive_loop_slots:
  assumes p: "0 < p" and ok: "reqs_ok rs" and cap: "get_num_new_pages p rs \<le> length fp" and len: "out_start rs (length rs) \<le> length out"
    and n: "n \<le> length rs"
  shows "naive_loop p fp rs ll [n..<length rs] (all_slots p fp rs ll n @ drop (out_start rs n) out) =
    Inr (all_slots p fp rs ll (length rs) @ drop (out_start rs (length rs)) out)"
  using n
proof (induction n rule: inc_induct)
  case (step n)
  let ?out = "all_slots p fp rs ll n @ drop (out_start rs n) out"
  have l: "length (all_slots p fp rs ll n) = out_start rs n" using length_all_slots step(2) by simp
  have mono: "out_start rs n + ext_len (rs ! n) \<le> out_start rs (length rs)"
    "page_start p rs n + new_pages p (rs ! n) \<le> page_start p rs (length rs)"
    using starts_mono(1) [of "Suc n" "length rs" rs] starts_mono(2) [of "Suc n" "length rs" p rs] step(2) by (simp_all add: starts_Suc)
  have cap2: "page_start p rs n + new_pages p (rs ! n) \<le> length fp"
    using mono(2) cap by (simp add: page_start_def get_num_new_pages_def)
  have le: "fst (rs ! n) \<le> snd (rs ! n)" using ok step(2) by (simp add: reqs_ok_def)
  have "naive_step p fp rs ll n ?out = Inr (written (out_start rs n) (req_slots p fp rs ll n) ?out)"
    using mono(1) len l by (intro naive_step_slots [OF p step(2) le cap2]) simp
  also have "written (out_start rs n) (req_slots p fp rs ll n) ?out = all_slots p fp rs ll (Suc n) @ drop (out_start rs (Suc n)) out"
    using l starts_Suc(1) [OF step(2)] by (simp add: written_def all_slots_def add.commute)
  finally show ?case using step.IH upt_conv_Cons [OF step(2)] by simp
qed simp

theorem kernel_equals_naive:
  assumes "0 < p" "reqs_ok rs" "mset pids = mset [0..<length rs]" "get_num_new_pages p rs \<le> length fp"
    "length out = out_start rs (length rs)"
  shows "launch fp (extend_program p fp rs ll) pids out = alloc_extend_naive p fp rs ll out"
  using launch_extend [OF assms] naive_loop_slots [OF assms(1,2,4), of out 0 ll] assms(5)
  by (simp add: alloc_extend_naive_def all_slots_def [of _ _ _ _ 0] out_start_def [of _ 0])

section \<open>The slots handed out\<close>

text \<open>The last slots of the requests: at the offset of the prefix, on pages that are in use,
  and no two requests share a partly filled page.\<close>

definition tails_ok :: "nat \<Rightarrow> nat set \<Rightarrow> (nat \<times> nat) list \<Rightarrow> int list \<Rightarrow> bool" where
  "tails_ok p P rs ll \<longleftrightarrow>
     (\<forall>i < length rs. - 1 \<le> ll ! i \<and> nat (ll ! i + 1) mod p = fst (rs ! i) mod p \<and>
        (fst (rs ! i) mod p \<noteq> 0 \<longrightarrow> nat (ll ! i) div p \<notin> P)) \<and>
     (\<forall>i < length rs. \<forall>j < length rs. fst (rs ! i) mod p \<noteq> 0 \<and> fst (rs ! j) mod p \<noteq> 0 \<and> nat (ll ! i) div p = nat (ll ! j) div p \<longrightarrow> i = j)"

lemma next_loc_mod: "- 1 \<le> l \<Longrightarrow> nat (l + 1) mod p = n mod p \<Longrightarrow> (l + 1) mod int p = int n mod int p"
  by (metis (no_types, opaque_lifting) int_nat_eq diff_ge_0_iff_ge diff_minus_eq_add zmod_int)

lemma div_mod_offset: "r < p \<Longrightarrow> (k * p + r) div p = k" "r < p \<Longrightarrow> (k * p + r) mod p = (r :: nat)"
  by simp_all

lemma tail_slot:
  assumes p: "0 < p" and al: "nat (l + 1) mod p = pre mod p" and t: "pre \<le> t" "t < pages_of p pre * p"
  shows "pre mod p \<noteq> 0" "(nat (l + 1) + (t - pre)) div p = nat l div p" "(nat (l + 1) + (t - pre)) mod p = t mod p" "t div p = pre div p"
proof -
  let ?r = "pre mod p" and ?d = "t - pre" and ?q = "nat (l + 1) div p"
  have pre: "pre div p * p + ?r = pre" by (rule div_mult_mod_eq)
  show r0: "?r \<noteq> 0"
  proof
    assume z: "?r = 0"
    then have "pages_of p pre * p = pre" using pages_of_eq [OF p, of pre] pre by simp
    then show False using t by simp
  qed
  have "pages_of p pre * p = pre div p * p + p" using pages_of_eq [OF p, of pre] r0 by simp
  then have lt: "?r + ?d < p" using t pre by linarith
  have l1: "?q * p + ?r = nat (l + 1)" using div_mult_mod_eq [of "nat (l + 1)" p] unfolding al .
  then have e: "nat l = ?q * p + (?r - 1)" "nat (l + 1) + ?d = ?q * p + (?r + ?d)" "t = pre div p * p + (?r + ?d)"
    using r0 pre t(1) by linarith+
  have "nat l div p = ?q" by (subst e(1), rule div_mod_offset(1)) (use lt in linarith)
  then show "(nat (l + 1) + ?d) div p = nat l div p" unfolding e(2) by (simp only: div_mod_offset(1) [OF lt])
  show "t div p = pre div p" by (subst e(3), rule div_mod_offset(1) [OF lt])
  have "t mod p = ?r + ?d" by (subst e(3), rule div_mod_offset(2) [OF lt])
  then show "(nat (l + 1) + ?d) mod p = t mod p" unfolding e(2) by (simp only: div_mod_offset(2) [OF lt])
qed

text \<open>The page of a token: a tail page or the page at an index of the free list, and its
  offset.\<close>

lemma ext_slot_page:
  assumes p: "0 < p" and al: "nat (l + 1) mod p = pre mod p" and t: "pre \<le> t" "t < sq"
  shows "ext_slot p fp st l pre t mod p = t mod p"
    "t < pages_of p pre * p \<Longrightarrow> ext_slot p fp st l pre t div p = nat l div p"
    "\<not> t < pages_of p pre * p \<Longrightarrow> ext_slot p fp st l pre t div p = fp ! (st + (t div p - pages_of p pre)) \<and>
       pages_of p pre \<le> t div p \<and> t div p - pages_of p pre < new_pages p (pre, sq)"
proof -
  show "ext_slot p fp st l pre t mod p = t mod p"
    using tail_slot(3) [OF p al t(1)] by (auto simp: ext_slot_def)
  show "t < pages_of p pre * p \<Longrightarrow> ext_slot p fp st l pre t div p = nat l div p"
    using tail_slot(2) [OF p al t(1)] by (simp add: ext_slot_def)
  assume n: "\<not> t < pages_of p pre * p"
  then have le: "pages_of p pre \<le> t div p" using p by (simp add: less_eq_div_iff_mult_less_eq)
  have "t div p < pages_of p sq"
    using p t(2) pages_of_bounds(1) [OF p, of sq] by (simp add: div_less_iff_less_mult)
  then show "ext_slot p fp st l pre t div p = fp ! (st + (t div p - pages_of p pre)) \<and>
      pages_of p pre \<le> t div p \<and> t div p - pages_of p pre < new_pages p (pre, sq)"
    using n le p by (auto simp: ext_slot_def new_pages_def)
qed

lemma page_index_unique:
  assumes "i < length rs" "j < length rs" "k < new_pages p (rs ! i)" "l < new_pages p (rs ! j)"
    "page_start p rs i + k = page_start p rs j + l"
  shows "i = j"
proof -
  have lt: False if "a < b" "b < length rs" "m < new_pages p (rs ! a)" "page_start p rs a + m = page_start p rs b + n" for a b m n
    using starts_mono(2) [of "Suc a" b p rs] starts_Suc(2) [of a rs p] that by simp
  show ?thesis using lt [of i j k l] lt [of j i l k] assms by (cases i j rule: linorder_cases) auto
qed

lemma slot_unique:
  assumes p: "0 < p" and d: "distinct fp" and cap: "page_start p rs (length rs) \<le> length fp" and P: "set fp \<subseteq> P"
    and tails: "tails_ok p P rs ll"
    and i: "i < length rs" "fst (rs ! i) \<le> t" "t < snd (rs ! i)" and j: "j < length rs" "fst (rs ! j) \<le> u" "u < snd (rs ! j)"
    and eq: "ext_slot p fp (page_start p rs i) (ll ! i) (fst (rs ! i)) t = ext_slot p fp (page_start p rs j) (ll ! j) (fst (rs ! j)) u"
  shows "i = j \<and> t = u"
proof -
  let ?pi = "fst (rs ! i)" and ?pj = "fst (rs ! j)"
  have al: "nat (ll ! i + 1) mod p = ?pi mod p" "nat (ll ! j + 1) mod p = ?pj mod p"
    and out: "?pi mod p \<noteq> 0 \<Longrightarrow> nat (ll ! i) div p \<notin> P" "?pj mod p \<noteq> 0 \<Longrightarrow> nat (ll ! j) div p \<notin> P"
    using tails i(1) j(1) by (auto simp: tails_ok_def)
  note A = ext_slot_page [OF p al(1) i(2,3), of fp "page_start p rs i", simplified]
  note B = ext_slot_page [OF p al(2) j(2,3), of fp "page_start p rs j", simplified]
  have m: "t mod p = u mod p" using A(1) B(1) eq by simp
  have fin: "t = u" if "t div p = u div p" using that m by (metis div_mult_mod_eq)
  have idx: "page_start p rs a + k < length fp" if "a < length rs" "k < new_pages p (rs ! a)" for a k
    using that starts_Suc(2) [of a rs p] starts_mono(2) [of "Suc a" "length rs" p rs] cap by simp
  show ?thesis
  proof (cases "t < pages_of p ?pi * p"; cases "u < pages_of p ?pj * p")
    assume *: "t < pages_of p ?pi * p" "u < pages_of p ?pj * p"
    then have "nat (ll ! i) div p = nat (ll ! j) div p" using A(2) B(2) eq by simp
    moreover have "?pi mod p \<noteq> 0" "?pj mod p \<noteq> 0"
      using tail_slot(1) [OF p al(1) i(2) *(1)] tail_slot(1) [OF p al(2) j(2) *(2)] by simp_all
    ultimately have "i = j" using tails i(1) j(1) unfolding tails_ok_def by blast
    then show ?thesis using fin tail_slot(4) [OF p al(1) i(2) *(1)] tail_slot(4) [OF p al(2) j(2) *(2)] by simp
  next
    assume *: "t < pages_of p ?pi * p" "\<not> u < pages_of p ?pj * p"
    then have "nat (ll ! i) div p \<in> set fp" using A(2) B(3) eq idx [OF j(1)] by (metis nth_mem prod.collapse)
    then show ?thesis using out(1) tail_slot(1) [OF p al(1) i(2) *(1)] P by blast
  next
    assume *: "\<not> t < pages_of p ?pi * p" "u < pages_of p ?pj * p"
    then have "nat (ll ! j) div p \<in> set fp" using A(3) B(2) eq idx [OF i(1)] by (metis nth_mem prod.collapse)
    then show ?thesis using out(2) tail_slot(1) [OF p al(2) j(2) *(2)] P by blast
  next
    assume *: "\<not> t < pages_of p ?pi * p" "\<not> u < pages_of p ?pj * p"
    let ?k = "t div p - pages_of p ?pi" and ?l = "u div p - pages_of p ?pj"
    have k: "?k < new_pages p (rs ! i)" "?l < new_pages p (rs ! j)" using A(3) B(3) * by (metis prod.collapse)+
    have "fp ! (page_start p rs i + ?k) = fp ! (page_start p rs j + ?l)" using A(3) B(3) * eq by simp
    then have "page_start p rs i + ?k = page_start p rs j + ?l"
      using nth_eq_iff_index_eq [OF d idx [OF i(1) k(1)] idx [OF j(1) k(2)]] by simp
    then have "i = j" "?k = ?l" using page_index_unique [OF i(1) j(1) k] by auto
    then show ?thesis using fin A(3) B(3) * by auto
  qed
qed

lemma set_all_slots:
  "x \<in> set (all_slots p fp rs ll n) \<longleftrightarrow>
     (\<exists>i < n. \<exists>t. fst (rs ! i) \<le> t \<and> t < snd (rs ! i) \<and> x = ext_slot p fp (page_start p rs i) (ll ! i) (fst (rs ! i)) t)"
proof -
  have "x \<in> set (req_slots p fp rs ll i) \<longleftrightarrow>
      (\<exists>t. fst (rs ! i) \<le> t \<and> t < snd (rs ! i) \<and> x = ext_slot p fp (page_start p rs i) (ll ! i) (fst (rs ! i)) t)" for i
    by (auto simp: req_slots_def)
  moreover have "x \<in> set (all_slots p fp rs ll n) \<longleftrightarrow> (\<exists>i < n. x \<in> set (req_slots p fp rs ll i))"
    by (auto simp: all_slots_def)
  ultimately show ?thesis by simp
qed

lemma distinct_all_slots:
  assumes "0 < p" "distinct fp" "page_start p rs (length rs) \<le> length fp" "set fp \<subseteq> P" "tails_ok p P rs ll"
  shows "distinct (all_slots p fp rs ll (length rs))"
proof -
  note u = slot_unique [OF assms]
  have "distinct (all_slots p fp rs ll n)" if "n \<le> length rs" for n
    using that
  proof (induction n)
    case (Suc n)
    have n: "n < length rs" using Suc.prems by simp
    have "distinct (req_slots p fp rs ll n)"
      using u [OF n _ _ n] by (auto simp: req_slots_def distinct_map intro!: inj_onI)
    moreover have "set (all_slots p fp rs ll n) \<inter> set (req_slots p fp rs ll n) = {}"
    proof (rule ccontr)
      assume "set (all_slots p fp rs ll n) \<inter> set (req_slots p fp rs ll n) \<noteq> {}"
      then obtain x where x: "x \<in> set (all_slots p fp rs ll n)" "x \<in> set (req_slots p fp rs ll n)" by blast
      obtain i t where i: "i < n" "fst (rs ! i) \<le> t" "t < snd (rs ! i)"
        "x = ext_slot p fp (page_start p rs i) (ll ! i) (fst (rs ! i)) t" using x(1) unfolding set_all_slots by blast
      obtain w where w: "fst (rs ! n) \<le> w" "w < snd (rs ! n)" "x = ext_slot p fp (page_start p rs n) (ll ! n) (fst (rs ! n)) w"
        using x(2) by (auto simp: req_slots_def)
      have "i = n" using u [OF _ i(2,3) n w(1,2)] i(1,4) w(3) n by simp
      then show False using i(1) by simp
    qed
    ultimately show ?case using Suc by (simp add: all_slots_def)
  qed (simp add: all_slots_def)
  then show ?thesis by simp
qed

text \<open>No more pages are needed than the tokens fill, plus one per request.\<close>

lemma new_pages_bound: "0 < p \<Longrightarrow> fst r \<le> snd r \<Longrightarrow> new_pages p r * p < ext_len r + p"
  using pages_of_bounds [of p "snd r"] pages_of_bounds [of p "fst r"]
  by (simp add: new_pages_def ext_len_def diff_mult_distrib)

lemma get_num_new_pages_bound:
  assumes "0 < p" "reqs_ok rs"
  shows "get_num_new_pages p rs \<le> out_start rs (length rs) div p + length rs"
proof -
  have "get_num_new_pages p rs * p \<le> out_start rs (length rs) + length rs * p"
    using assms(2)
  proof (induction rs)
    case (Cons r rs)
    then show ?case using new_pages_bound [OF assms(1), of r]
      by (simp add: get_num_new_pages_def out_start_def reqs_ok_def add_mult_distrib)
  qed (simp add: get_num_new_pages_def)
  then have "get_num_new_pages p rs \<le> (out_start rs (length rs) + length rs * p) div p"
    using assms(1) by (simp only: less_eq_div_iff_mult_less_eq)
  also have "\<dots> = out_start rs (length rs) div p + length rs" using assms(1) by simp
  finally show ?thesis .
qed

section \<open>\<open>alloc_extend\<close>\<close>

text \<open>The outcome of an allocation for the tokens of \<open>rs\<close>: no pages are handed out when there
  are too few; otherwise token \<open>t\<close> of request \<open>i\<close> gets a slot at its offset in a page, no slot
  is handed out twice, the slots lie on the old tail pages or on pages taken from the pool,
  and the pool keeps exactly the other pages.\<close>

definition extend_outcome ::
  "(nat \<times> nat) list \<Rightarrow> int list \<Rightarrow> kv_alloc \<Rightarrow> kv_alloc \<Rightarrow> nat list option \<Rightarrow> bool" where
  "extend_outcome rs ll a a' r \<longleftrightarrow>
     paged_ok a' \<and> al_page_size a' = al_page_size a \<and>
     (case r of
        None \<Rightarrow> set (pool_pages a') = set (pool_pages a) \<and> length (pool_pages a) < get_num_new_pages (al_page_size a) rs
      | Some out \<Rightarrow>
          length out = out_start rs (length rs) \<and> distinct out \<and>
          (\<forall>i < length rs. \<forall>t. fst (rs ! i) \<le> t \<and> t < snd (rs ! i) \<longrightarrow>
             out ! (out_start rs i + (t - fst (rs ! i))) mod al_page_size a = t mod al_page_size a) \<and>
          (\<exists>taken. distinct taken \<and> length taken = get_num_new_pages (al_page_size a) rs \<and> set taken \<subseteq> set (pool_pages a) \<and>
             set (pool_pages a') = set (pool_pages a) - set taken \<and>
             (\<lambda>x. x div al_page_size a) ` set out \<subseteq> set taken \<union> (\<lambda>l. nat l div al_page_size a) ` set (take (length rs) ll)))"

lemma nth_all_slots:
  assumes "i < length rs" "k < ext_len (rs ! i)" "n \<le> length rs" "i < n"
  shows "all_slots p fp rs ll n ! (out_start rs i + k) = req_slots p fp rs ll i ! k"
  using assms(3,4)
proof (induction n)
  case (Suc n)
  have l: "length (all_slots p fp rs ll n) = out_start rs n" using length_all_slots Suc.prems by simp
  show ?case
  proof (cases "i = n")
    case True
    then show ?thesis using l by (simp add: all_slots_def nth_append)
  next
    case False
    then have "out_start rs i + k < out_start rs n"
      using Suc.prems starts_Suc(1) [OF assms(1)] starts_mono(1) [of "Suc i" n rs] assms(2) by simp
    then show ?thesis using Suc False l by (simp add: all_slots_def nth_append)
  qed
qed simp

lemma all_slots_offset:
  assumes "0 < p" "tails_ok p P rs ll" "i < length rs" "fst (rs ! i) \<le> t" "t < snd (rs ! i)"
  shows "all_slots p fp rs ll (length rs) ! (out_start rs i + (t - fst (rs ! i))) mod p = t mod p"
proof -
  have al: "nat (ll ! i + 1) mod p = fst (rs ! i) mod p" using assms(2,3) by (simp add: tails_ok_def)
  have k: "t - fst (rs ! i) < ext_len (rs ! i)" using assms(4,5) by (simp add: ext_len_def)
  have "req_slots p fp rs ll i ! (t - fst (rs ! i)) = ext_slot p fp (page_start p rs i) (ll ! i) (fst (rs ! i)) t"
    using assms(4,5) by (simp add: req_slots_def)
  then show ?thesis
    using nth_all_slots [OF assms(3) k order_refl assms(3)] ext_slot_page(1) [OF assms(1) al assms(4,5)] by simp
qed

lemma all_slots_pages:
  assumes p: "0 < p" and "tails_ok p P rs ll" "length ll = length rs" "page_start p rs (length rs) \<le> length fp"
  shows "(\<lambda>x. x div p) ` set (all_slots p fp rs ll (length rs)) \<subseteq>
    set (take (page_start p rs (length rs)) fp) \<union> (\<lambda>l. nat l div p) ` set ll"
proof (rule image_subsetI)
  fix x assume "x \<in> set (all_slots p fp rs ll (length rs))"
  then obtain i t where i: "i < length rs" "fst (rs ! i) \<le> t" "t < snd (rs ! i)"
    "x = ext_slot p fp (page_start p rs i) (ll ! i) (fst (rs ! i)) t" unfolding set_all_slots by blast
  have al: "nat (ll ! i + 1) mod p = fst (rs ! i) mod p" using assms(2) i(1) by (simp add: tails_ok_def)
  note A = ext_slot_page(2,3) [OF p al i(2,3), of fp "page_start p rs i"]
  show "x div p \<in> set (take (page_start p rs (length rs)) fp) \<union> (\<lambda>l. nat l div p) ` set ll"
  proof (cases "t < pages_of p (fst (rs ! i)) * p")
    case True
    then show ?thesis using A(1) i(1,4) assms(3) by simp
  next
    case False
    let ?k = "page_start p rs i + (t div p - pages_of p (fst (rs ! i)))"
    have "t div p - pages_of p (fst (rs ! i)) < new_pages p (rs ! i)" using A(2) False by simp
    then have "?k < page_start p rs (length rs)"
      using i(1) starts_Suc(2) [of i rs p] starts_mono(2) [of "Suc i" "length rs" p rs] by linarith
    then have "fp ! ?k \<in> set (take (page_start p rs (length rs)) fp)"
      using assms(4) by (metis in_set_conv_nth length_take min.absorb2 nth_take)
    then show ?thesis using A(2) False i(4) by simp
  qed
qed

lemma front_taken:
  assumes a1: "pool_ok a1" "al_page_size a1 = al_page_size a" "paged a1" "set (pool_pages a1) = set (pool_pages a)"
    and n: "get_num_new_pages (al_page_size a) rs \<le> length (free_pages a1)"
    and tails: "tails_ok (al_page_size a) (set (pool_pages a)) rs ll" and ll: "length ll = length rs"
  shows "extend_outcome rs ll a (a1\<lparr>free_pages := drop (get_num_new_pages (al_page_size a) rs) (free_pages a1)\<rparr>)
    (Some (all_slots (al_page_size a) (free_pages a1) rs ll (length rs)))"
proof -
  let ?p = "al_page_size a" and ?n = "get_num_new_pages (al_page_size a) rs" and ?fp = "free_pages a1"
  let ?a' = "a1\<lparr>free_pages := drop ?n ?fp\<rparr>"
  have p: "0 < ?p" using a1(1,2) by (simp add: pool_ok_def)
  have d: "distinct ?fp" "set ?fp \<subseteq> set (pool_pages a)" using a1(1,4) by (auto simp: pool_ok_def pool_pages_def)
  have ps: "page_start ?p rs (length rs) = ?n" by (simp add: page_start_def get_num_new_pages_def)
  have dist: "distinct (all_slots ?p ?fp rs ll (length rs))" using distinct_all_slots [OF p d(1) _ d(2) tails] n ps by simp
  have dt: "distinct (take ?n ?fp @ drop ?n ?fp @ release_pages a1)"
    using a1(1) unfolding pool_ok_def pool_pages_def by (metis append_assoc append_take_drop_id)
  have "set ?fp = set (take ?n ?fp) \<union> set (drop ?n ?fp)" by (metis append_take_drop_id set_append)
  then have rest: "set (pool_pages ?a') = set (pool_pages a1) - set (take ?n ?fp)" using dt by (auto simp: pool_pages_def)
  have "pool_ok ?a'" using a1(1) dt by (auto simp: pool_ok_def pool_pages_def)
  moreover have "set (take ?n ?fp) \<subseteq> set (pool_pages a)" using set_take_subset d(2) by (rule order_trans)
  moreover have "(\<lambda>x. x div ?p) ` set (all_slots ?p ?fp rs ll (length rs)) \<subseteq> set (take ?n ?fp) \<union> (\<lambda>l. nat l div ?p) ` set ll"
    using all_slots_pages [OF p tails ll, of ?fp] n ps by simp
  ultimately show ?thesis
    using a1 dist n rest d(1) length_all_slots [of "length rs" rs] all_slots_offset [OF p tails] ll
    by (auto simp: extend_outcome_def paged_ok_def intro!: exI [of _ "take ?n ?fp"])
qed

text \<open>The result in terms of the free list after a possible merge.\<close>

lemma alloc_extend_slots:
  assumes ok: "paged_ok a" and rs: "reqs_ok rs" and pids: "mset pids = mset [0..<length rs]"
    and n: "extend_num_tokens = out_start rs (length rs)" and ll: "length ll = length rs"
    and tails: "tails_ok (al_page_size a) (set (pool_pages a)) rs ll"
  obtains a1 where "pool_ok a1" "al_page_size a1 = al_page_size a" "paged a1" "set (pool_pages a1) = set (pool_pages a)"
    "get_num_new_pages (al_page_size a) rs > length (free_pages a1) \<Longrightarrow>
       alloc_extend garbage pids rs ll extend_num_tokens None a = Inr (a1, None) \<and>
       length (pool_pages a) < get_num_new_pages (al_page_size a) rs"
    "get_num_new_pages (al_page_size a) rs \<le> length (free_pages a1) \<Longrightarrow>
       alloc_extend garbage pids rs ll extend_num_tokens None a =
         Inr (a1\<lparr>free_pages := drop (get_num_new_pages (al_page_size a) rs) (free_pages a1)\<rparr>,
              Some (all_slots (al_page_size a) (free_pages a1) rs ll (length rs)))"
proof -
  let ?p = "al_page_size a" and ?n = "get_num_new_pages (al_page_size a) rs"
  define a1 where "a1 = (if need_sort a \<and> extend_num_tokens div ?p + length rs + 1 > length (free_pages a) then merge_and_sort_free a else a)"
  have po: "pool_ok a" "paged a" "0 < ?p" using ok by (auto simp: paged_ok_def pool_ok_def)
  have m1: "mset (pool_pages a1) = mset (pool_pages a)" by (simp add: a1_def)
  have a1: "pool_ok a1" "al_page_size a1 = ?p" "paged a1" "debug_mode a1 = debug_mode a"
    using po pool_ok_merge by (auto simp: a1_def)
  have set_eq: "set (pool_pages a1) = set (pool_pages a)" using m1 by (metis set_mset_mset)
  have ps: "page_start ?p rs (length rs) = ?n" by (simp add: page_start_def get_num_new_pages_def)
  have al: "\<forall>i < length rs. (ll ! i + 1) mod int ?p = int (fst (rs ! i)) mod int ?p"
    using tails next_loc_mod by (auto simp: tails_ok_def)
  let ?fp = "free_pages a1"
  have d: "distinct ?fp" "set ?fp \<subseteq> set (pool_pages a)"
    using a1(1) set_eq by (auto simp: pool_ok_def pool_pages_def)
  have "alloc_extend garbage pids rs ll extend_num_tokens None a = Inr (a1, None) \<and> length (pool_pages a) < ?n" if "?n > length ?fp"
  proof
    have "release_pages a1 = []"
      using that get_num_new_pages_bound [OF po(3) rs] po(1) n by (auto simp: a1_def pool_ok_def)
    then show "length (pool_pages a) < ?n" using that m1 by (metis append_Nil2 pool_pages_def size_mset)
    show "alloc_extend garbage pids rs ll extend_num_tokens None a = Inr (a1, None)"
      using that al by (simp add: alloc_extend_def Let_def a1_def)
  qed
  moreover have "alloc_extend garbage pids rs ll extend_num_tokens None a = Inr (a1\<lparr>free_pages := drop ?n ?fp\<rparr>, Some (all_slots ?p ?fp rs ll (length rs)))"
    if le: "?n \<le> length ?fp"
  proof -
    let ?out = "all_slots ?p ?fp rs ll (length rs)"
    have launch: "launch ?fp (extend_program ?p ?fp rs ll) pids (map garbage [0..<extend_num_tokens]) = Inr ?out"
      using le n by (intro launch_extend [OF po(3) rs pids]) simp_all
    have dist: "distinct ?out" using distinct_all_slots [OF po(3) d(1) _ d(2) tails] le ps by simp
    show ?thesis
      unfolding alloc_extend_def Let_def a1_def [symmetric] option.case
      using le al launch dist a1(4) by (simp add: unique_def distinct_remdups_id)
  qed
  ultimately show ?thesis using that a1(1-3) set_eq by blast
qed

theorem alloc_extend_correct:
  assumes ok: "paged_ok a" and rs: "reqs_ok rs" and pids: "mset pids = mset [0..<length rs]"
    and n: "extend_num_tokens = out_start rs (length rs)" and ll: "length ll = length rs"
    and tails: "tails_ok (al_page_size a) (set (pool_pages a)) rs ll"
  shows "\<exists>a' r. alloc_extend garbage pids rs ll extend_num_tokens None a = Inr (a', r) \<and> extend_outcome rs ll a a' r"
proof (rule alloc_extend_slots [OF assms])
  let ?n = "get_num_new_pages (al_page_size a) rs"
  fix a1 assume a1: "pool_ok a1" "al_page_size a1 = al_page_size a" "paged a1" "set (pool_pages a1) = set (pool_pages a)"
    and none: "?n > length (free_pages a1) \<Longrightarrow>
       alloc_extend garbage pids rs ll extend_num_tokens None a = Inr (a1, None) \<and> length (pool_pages a) < ?n"
    and some: "?n \<le> length (free_pages a1) \<Longrightarrow> alloc_extend garbage pids rs ll extend_num_tokens None a =
       Inr (a1\<lparr>free_pages := drop ?n (free_pages a1)\<rparr>, Some (all_slots (al_page_size a) (free_pages a1) rs ll (length rs)))"
  show ?thesis
  proof (cases "?n > length (free_pages a1)")
    case True
    then show ?thesis using none a1 by (auto simp: extend_outcome_def paged_ok_def)
  next
    case False
    then have "extend_outcome rs ll a (a1\<lparr>free_pages := drop ?n (free_pages a1)\<rparr>) (Some (all_slots (al_page_size a) (free_pages a1) rs ll (length rs)))"
      by (intro front_taken [OF a1 _ tails ll]) simp
    then show ?thesis using some False by auto
  qed
qed

section \<open>\<open>alloc_decode\<close>\<close>

text \<open>Decoding is extending every request by one token, for pages of more than one slot.\<close>

definition decode_reqs :: "nat list \<Rightarrow> (nat \<times> nat) list" where
  "decode_reqs seq_lens = map (\<lambda>s. (s - 1, s)) seq_lens"

lemma new_pages_decode:
  assumes "1 < p" "0 < s"
  shows "new_pages p (s - 1, s) = (if s mod p = 1 then 1 else 0)"
proof -
  have p: "0 < p" using assms(1) by simp
  obtain k where k: "s = Suc k" using assms(2) by (cases s) auto
  show ?thesis
  proof (cases "Suc (k mod p) = p")
    case True
    then have "Suc k mod p = 0" "Suc k div p = Suc (k div p)" "k mod p \<noteq> 0"
      using assms(1) by (auto simp: mod_Suc div_Suc)
    then show ?thesis using k by (simp add: new_pages_def pages_of_eq [OF p])
  next
    case False
    then have "Suc k mod p = Suc (k mod p)" "Suc k div p = k div p" by (auto simp: mod_Suc div_Suc)
    then show ?thesis using k by (simp add: new_pages_def pages_of_eq [OF p])
  qed
qed

lemma decode_count:
  assumes "1 < p" "\<forall>s \<in> set seq_lens. 0 < s"
  shows "get_num_new_pages_decode p seq_lens = get_num_new_pages p (decode_reqs seq_lens)"
  using assms(2) new_pages_decode [OF assms(1)]
  by (induction seq_lens) (simp_all add: get_num_new_pages_decode_def get_num_new_pages_def decode_reqs_def)

text \<open>With pages of one slot every token needs a page, and the count would be zero.\<close>

lemma decode_count_page_one:
  "get_num_new_pages_decode 1 seq_lens = 0" "\<forall>s \<in> set seq_lens. 0 < s \<Longrightarrow> get_num_new_pages 1 (decode_reqs seq_lens) = length seq_lens"
  by (induction seq_lens) (auto simp: get_num_new_pages_decode_def get_num_new_pages_def decode_reqs_def new_pages_def pages_of_def)

lemma decode_start: "i \<le> length seq_lens \<Longrightarrow> \<forall>s \<in> set seq_lens. 0 < s \<Longrightarrow> out_start (decode_reqs seq_lens) i = i"
proof (induction i)
  case (Suc i)
  then obtain k where "seq_lens ! i = Suc k" by (metis Suc_le_lessD gr0_implies_Suc nth_mem)
  then have "ext_len (decode_reqs seq_lens ! i) = 1" using Suc.prems by (simp add: decode_reqs_def ext_len_def)
  then show ?case using Suc starts_Suc(1) [of i "decode_reqs seq_lens"] by (simp add: decode_reqs_def)
qed (simp add: out_start_def)

lemma decode_program_stores:
  assumes "1 < p" "\<forall>s \<in> set seq_lens. 0 < s" "i < length seq_lens"
  shows "decode_program p fp seq_lens ll i =
    (if new_pages p (decode_reqs seq_lens ! i) = 0 then [] else [page_start p (decode_reqs seq_lens) i],
     snd (extend_program p fp (decode_reqs seq_lens) ll i))"
proof -
  let ?rs = "decode_reqs seq_lens" and ?s = "seq_lens ! i"
  have p: "0 < p" and s: "0 < ?s" and i: "i < length ?rs" using assms by (simp_all add: decode_reqs_def)
  have r: "?rs ! i = (?s - 1, ?s)" using assms(3) by (simp add: decode_reqs_def)
  have ps: "(\<Sum>s\<leftarrow>take (i + 1) seq_lens. new_pages p (s - 1, s)) - new_pages p (?s - 1, ?s) = page_start p ?rs i"
    using sum_take_Suc_minus(2) [OF i, of p] assms(3) by (simp add: decode_reqs_def take_map comp_def)
  have "snd (extend_program p fp ?rs ll i) = [(i, ext_slot p fp (page_start p ?rs i) (ll ! i) (?s - 1) (?s - 1))]"
  proof -
    have "ext_len (?rs ! i) = 1" using s by (simp add: r ext_len_def)
    moreover have "out_start ?rs i = i" using decode_start assms by simp
    moreover have "[?s - 1..<?s] = [?s - 1]" using s upt_conv_Cons [of "?s - 1" ?s] by simp
    ultimately show ?thesis
      using extend_program_stores(1) [OF p i, of fp ll] by (simp add: r req_slots_def)
  qed
  moreover have "ext_slot p fp (page_start p ?rs i) (ll ! i) (?s - 1) (?s - 1) =
      (if new_pages p (?s - 1, ?s) = 0 then nat (ll ! i + 1) else fp ! page_start p ?rs i * p)"
  proof (cases "(?s - 1) mod p = 0")
    case True
    then have e: "?s - 1 = (?s - 1) div p * p" using div_mult_mod_eq [of "?s - 1" p] by simp
    have "pages_of p (?s - 1) = (?s - 1) div p" using True pages_of_eq [OF p] by simp
    moreover have "?s mod p = 1" using True s assms(1) by (metis Suc_pred' mod_Suc mod_0 One_nat_def less_not_refl)
    ultimately show ?thesis using new_pages_decode [OF assms(1) s] e True by (auto simp: ext_slot_def)
  next
    case False
    then have "?s - 1 < pages_of p (?s - 1) * p"
      using pages_of_eq [OF p, of "?s - 1"] pages_of_bounds(1) [OF p, of "?s - 1"] p
      by (metis le_neq_implies_less mod_mult_self2_is_0)
    moreover have "?s mod p \<noteq> 1"
      using False s assms(1) by (metis One_nat_def Suc_pred' mod_Suc nat.inject zero_neq_one)
    ultimately show ?thesis using new_pages_decode [OF assms(1) s] by (simp add: ext_slot_def)
  qed
  ultimately show ?thesis unfolding decode_program_def Let_def ps by (simp add: r)
qed

lemma launch_decode:
  assumes "1 < p" "\<forall>s \<in> set seq_lens. 0 < s" "mset pids = mset [0..<length seq_lens]"
    "get_num_new_pages_decode p seq_lens \<le> length fp" "length out = length seq_lens"
  shows "launch fp (decode_program p fp seq_lens ll) pids out = Inr (all_slots p fp (decode_reqs seq_lens) ll (length seq_lens))"
proof -
  let ?rs = "decode_reqs seq_lens"
  have len: "length ?rs = length seq_lens" by (simp add: decode_reqs_def)
  have ok: "reqs_ok ?rs" by (auto simp: reqs_ok_def decode_reqs_def)
  have cap: "get_num_new_pages p ?rs \<le> length fp" using assms(4) decode_count [OF assms(1,2)] by simp
  have pids: "set pids = {0..<length seq_lens}" using arg_cong [OF assms(3), of set_mset] by simp
  have ext: "launch fp (extend_program p fp ?rs ll) pids out = Inr (all_slots p fp ?rs ll (length seq_lens))"
    using launch_extend [of p ?rs pids fp out ll] assms decode_start [of "length seq_lens" seq_lens] ok cap len by simp
  have loads: "page_start p ?rs i < length fp" if "i < length seq_lens" "new_pages p (?rs ! i) \<noteq> 0" for i
  proof -
    have "page_start p ?rs i < page_start p ?rs (Suc i)" using that starts_Suc(2) [of i ?rs p] len by simp
    also have "\<dots> \<le> page_start p ?rs (length ?rs)" using that len by (intro starts_mono) simp
    also have "\<dots> \<le> length fp" using cap by (simp add: page_start_def get_num_new_pages_def)
    finally show ?thesis .
  qed
  have "fold (\<lambda>pid. fold store (snd (decode_program p fp seq_lens ll pid))) pids out =
      fold (\<lambda>pid. fold store (snd (extend_program p fp ?rs ll pid))) pids out"
    using decode_program_stores [OF assms(1,2)] pids by (intro fold_cong) auto
  moreover have "fold (\<lambda>pid. fold store (snd (extend_program p fp ?rs ll pid))) pids out = all_slots p fp ?rs ll (length seq_lens)"
    using ext by (auto simp: launch_def split: if_splits)
  moreover have "\<forall>pid \<in> set pids. \<forall>l \<in> set (fst (decode_program p fp seq_lens ll pid)). l < length fp"
    using decode_program_stores [OF assms(1,2)] pids loads by auto
  ultimately show ?thesis by (simp add: launch_def)
qed

lemma decode_aligned:
  assumes tails: "tails_ok p F (decode_reqs seq_lens) ll" and pos: "\<forall>s \<in> set seq_lens. 0 < s" and i: "i < length seq_lens"
  shows "(ll ! i + 2) mod int p = int (seq_lens ! i) mod int p"
proof -
  have l: "- 1 \<le> ll ! i" "nat (ll ! i + 1) mod p = (seq_lens ! i - 1) mod p" "0 < seq_lens ! i"
    using tails pos i by (auto simp: tails_ok_def decode_reqs_def)
  then have "nat (ll ! i + 2) mod p = seq_lens ! i mod p"
    using mod_Suc_eq [of "nat (ll ! i + 1)" p] mod_Suc_eq [of "seq_lens ! i - 1" p] by (simp add: Suc_nat_eq_nat_zadd1 add.commute)
  then show ?thesis using next_loc_mod [of "ll ! i + 1" p "seq_lens ! i"] l(1) by (simp add: add.commute)
qed

lemma alloc_decode_slots:
  assumes ok: "paged_ok a" and p: "1 < al_page_size a" and pos: "\<forall>s \<in> set seq_lens. 0 < s"
    and pids: "mset pids = mset [0..<length seq_lens]" and ll: "length ll = length seq_lens"
    and tails: "tails_ok (al_page_size a) (set (pool_pages a)) (decode_reqs seq_lens) ll"
  obtains a1 where "pool_ok a1" "al_page_size a1 = al_page_size a" "paged a1" "set (pool_pages a1) = set (pool_pages a)"
    "get_num_new_pages (al_page_size a) (decode_reqs seq_lens) > length (free_pages a1) \<Longrightarrow>
       alloc_decode garbage pids seq_lens ll a = Inr (a1, None) \<and>
       length (pool_pages a) < get_num_new_pages (al_page_size a) (decode_reqs seq_lens)"
    "get_num_new_pages (al_page_size a) (decode_reqs seq_lens) \<le> length (free_pages a1) \<Longrightarrow>
       alloc_decode garbage pids seq_lens ll a =
         Inr (a1\<lparr>free_pages := drop (get_num_new_pages (al_page_size a) (decode_reqs seq_lens)) (free_pages a1)\<rparr>,
              Some (all_slots (al_page_size a) (free_pages a1) (decode_reqs seq_lens) ll (length (decode_reqs seq_lens))))"
proof -
  let ?p = "al_page_size a" and ?rs = "decode_reqs seq_lens"
  let ?n = "get_num_new_pages_decode ?p seq_lens"
  define a1 where "a1 = (if need_sort a \<and> length seq_lens > length (free_pages a) then merge_and_sort_free a else a)"
  have po: "pool_ok a" "paged a" "0 < ?p" using ok by (auto simp: paged_ok_def pool_ok_def)
  have m1: "mset (pool_pages a1) = mset (pool_pages a)" by (simp add: a1_def)
  have a1: "pool_ok a1" "al_page_size a1 = ?p" "paged a1" "debug_mode a1 = debug_mode a"
    using po pool_ok_merge by (auto simp: a1_def)
  have set_eq: "set (pool_pages a1) = set (pool_pages a)" using m1 by (metis set_mset_mset)
  have len: "length ?rs = length seq_lens" by (simp add: decode_reqs_def)
  have n: "get_num_new_pages ?p ?rs = ?n" "page_start ?p ?rs (length seq_lens) = ?n"
    using decode_count [OF p pos] len by (simp_all add: page_start_def get_num_new_pages_def)
  have nb: "?n \<le> length seq_lens"
    unfolding get_num_new_pages_decode_def by (induction seq_lens) auto
  have al: "\<forall>i < length seq_lens. (ll ! i + 2) mod int ?p = int (seq_lens ! i) mod int ?p"
    using decode_aligned [OF tails pos] by blast
  let ?fp = "free_pages a1"
  have d: "distinct ?fp" "set ?fp \<subseteq> set (pool_pages a)" using a1(1) set_eq by (auto simp: pool_ok_def pool_pages_def)
  have none: "alloc_decode garbage pids seq_lens ll a = Inr (a1, None) \<and> length (pool_pages a) < ?n" if gt: "?n > length ?fp"
  proof
    have "release_pages a1 = []" using gt nb po(1) by (auto simp: a1_def pool_ok_def)
    then show "length (pool_pages a) < ?n" using gt m1 by (metis append_Nil2 pool_pages_def size_mset)
    show "alloc_decode garbage pids seq_lens ll a = Inr (a1, None)"
      unfolding alloc_decode_def Let_def a1_def [symmetric] using gt al by simp
  qed
  have some: "alloc_decode garbage pids seq_lens ll a =
      Inr (a1\<lparr>free_pages := drop ?n ?fp\<rparr>, Some (all_slots ?p ?fp ?rs ll (length seq_lens)))" if le: "?n \<le> length ?fp"
  proof -
    have launch: "launch ?fp (decode_program ?p ?fp seq_lens ll) pids (map garbage [0..<length seq_lens]) =
        Inr (all_slots ?p ?fp ?rs ll (length seq_lens))"
      using le by (intro launch_decode [OF p pos pids]) simp_all
    have dist: "distinct (all_slots ?p ?fp ?rs ll (length seq_lens))"
      using distinct_all_slots [OF po(3) d(1) _ d(2) tails] le n(2) len by simp
    show ?thesis
      unfolding alloc_decode_def Let_def a1_def [symmetric]
      using le al launch dist a1(4) by (simp add: unique_def distinct_remdups_id)
  qed
  show ?thesis by (rule that [OF a1(1-3) set_eq]) (use none some n(1) len in simp_all)
qed

theorem alloc_decode_correct:
  assumes ok: "paged_ok a" and p: "1 < al_page_size a" and pos: "\<forall>s \<in> set seq_lens. 0 < s"
    and pids: "mset pids = mset [0..<length seq_lens]" and ll: "length ll = length seq_lens"
    and tails: "tails_ok (al_page_size a) (set (pool_pages a)) (decode_reqs seq_lens) ll"
  shows "\<exists>a' r. alloc_decode garbage pids seq_lens ll a = Inr (a', r) \<and> extend_outcome (decode_reqs seq_lens) ll a a' r"
proof (rule alloc_decode_slots [OF assms])
  let ?rs = "decode_reqs seq_lens"
  let ?n = "get_num_new_pages (al_page_size a) ?rs"
  fix a1 assume a1: "pool_ok a1" "al_page_size a1 = al_page_size a" "paged a1" "set (pool_pages a1) = set (pool_pages a)"
    and none: "?n > length (free_pages a1) \<Longrightarrow>
       alloc_decode garbage pids seq_lens ll a = Inr (a1, None) \<and> length (pool_pages a) < ?n"
    and some: "?n \<le> length (free_pages a1) \<Longrightarrow> alloc_decode garbage pids seq_lens ll a =
       Inr (a1\<lparr>free_pages := drop ?n (free_pages a1)\<rparr>, Some (all_slots (al_page_size a) (free_pages a1) ?rs ll (length ?rs)))"
  have ll': "length ll = length ?rs" using ll by (simp add: decode_reqs_def)
  show ?thesis
  proof (cases "?n > length (free_pages a1)")
    case True
    then show ?thesis using none a1 by (auto simp: extend_outcome_def paged_ok_def)
  next
    case False
    then have "extend_outcome ?rs ll a (a1\<lparr>free_pages := drop ?n (free_pages a1)\<rparr>) (Some (all_slots (al_page_size a) (free_pages a1) ?rs ll (length ?rs)))"
      by (intro front_taken [OF a1 _ tails ll']) simp
    then show ?thesis using some False by auto
  qed
qed

end
