(* ===== verification/AllocProps.thy ===== *)
theory AllocProps
  imports PagedExtend
begin

text \<open>
  The properties of the slot allocators: what an allocation and its release do to the pool,
  and what \<open>alloc_extend\<close> and \<open>alloc_decode\<close> hand out. The witnesses use a pool of eight pages
  of four slots and three requests: a new one, one that continues a partly filled page and one
  that starts on a page boundary.
\<close>

definition demo_pool :: kv_alloc where
  "demo_pool = init_paged_alloc 32 4 True True"

definition demo_reqs :: "(nat \<times> nat) list" where
  "demo_reqs = [(0, 5), (6, 11), (4, 4)]"

definition demo_last_locs :: "int list" where
  "demo_last_locs = [- 1, 401, 507]"

lemma demo_pool_ok: "paged_ok demo_pool" "al_page_size demo_pool = 4" "set (pool_pages demo_pool) = {1..8}"
  by (auto simp: demo_pool_def init_paged_alloc_def paged_clear_def paged_ok_def pool_ok_def pool_pages_def)

lemma demo_reqs_ok: "reqs_ok demo_reqs" "length demo_reqs = 3" "length demo_last_locs = 3"
  "out_start demo_reqs 3 = 10" "get_num_new_pages 4 demo_reqs = 3"
  by (simp_all add: demo_reqs_def demo_last_locs_def reqs_ok_def out_start_def ext_len_def
    get_num_new_pages_def new_pages_def pages_of_def All_less_Suc)

lemma demo_tails_ok: "tails_ok 4 {Suc 0..8} demo_reqs demo_last_locs"
  by (simp add: tails_ok_def demo_reqs_def demo_last_locs_def All_less_Suc)

text \<open>C18. Giving back the slots of a successful \<open>alloc\<close> restores the pool: \<open>free\<close> succeeds and
  the free slots are those before the allocation.\<close>

theorem paged_alloc_free_restores:
  assumes "paged_ok a" "al_page_size a dvd n" "paged_alloc n a = Inr (a1, Some xs)"
  shows "\<exists>a2. paged_free xs a1 = Inr a2 \<and> paged_ok a2 \<and> pool_slots a2 = pool_slots a"
  using assms by (rule paged_pool.alloc_free_restores)

lemma demo_alloc: "paged_alloc 8 demo_pool = Inr (demo_pool\<lparr>free_pages := [3, 4, 5, 6, 7, 8]\<rparr>, Some [4, 5, 6, 7, 8, 9, 10, 11])"
  by code_simp

theorem paged_alloc_free_restores_witness:
  "\<exists>a2. paged_free [4, 5, 6, 7, 8, 9, 10, 11] (demo_pool\<lparr>free_pages := [3, 4, 5, 6, 7, 8]\<rparr>) = Inr a2 \<and>
     paged_ok a2 \<and> pool_slots a2 = pool_slots demo_pool"
  using paged_alloc_free_restores [OF demo_pool_ok(1) _ demo_alloc] by (simp add: demo_pool_ok(2))

text \<open>C19. In whatever order the programs of the launch run, the extend kernel stores what the
  tensor program \<open>alloc_extend_naive\<close> computes, provided the capacity check has passed.\<close>

theorem extend_kernel_is_naive:
  assumes "0 < p" "reqs_ok rs" "mset pids = mset [0..<length rs]" "get_num_new_pages p rs \<le> length fp"
    "length out = out_start rs (length rs)"
  shows "launch fp (extend_program p fp rs ll) pids out = alloc_extend_naive p fp rs ll out"
  using assms by (rule kernel_equals_naive)

theorem extend_kernel_is_naive_witness:
  "launch [7, 3, 5] (extend_program 4 [7, 3, 5] demo_reqs demo_last_locs) [2, 0, 1] (replicate 10 0) =
     alloc_extend_naive 4 [7, 3, 5] demo_reqs demo_last_locs (replicate 10 0) \<and>
   alloc_extend_naive 4 [7, 3, 5] demo_reqs demo_last_locs (replicate 10 0) = Inr [28, 29, 30, 31, 12, 402, 403, 20, 21, 22]"
proof
  show "launch [7, 3, 5] (extend_program 4 [7, 3, 5] demo_reqs demo_last_locs) [2, 0, 1] (replicate 10 0) =
      alloc_extend_naive 4 [7, 3, 5] demo_reqs demo_last_locs (replicate 10 0)"
    by (rule extend_kernel_is_naive) (simp_all add: demo_reqs_ok upt_rec)
qed code_simp

text \<open>C20. \<open>alloc_extend\<close> on a consistent pool: it reports exhaustion only when there are fewer
  free pages than the requests need and then leaves the pool as it was; otherwise every token
  gets a slot at its offset within a page, no slot is handed out twice, all slots lie on pages
  just taken from the pool or on the requests' own last pages, and the pool loses exactly the
  pages taken. No access is out of range and no debug assertion fails.\<close>

theorem alloc_extend_safe:
  assumes "paged_ok a" "reqs_ok rs" "mset pids = mset [0..<length rs]"
    "extend_num_tokens = out_start rs (length rs)" "length ll = length rs"
    "tails_ok (al_page_size a) (set (pool_pages a)) rs ll"
  shows "\<exists>a' r. alloc_extend garbage pids rs ll extend_num_tokens None a = Inr (a', r) \<and> extend_outcome rs ll a a' r"
  using assms by (rule alloc_extend_correct)

theorem alloc_extend_safe_witness:
  "\<exists>a' r. alloc_extend (\<lambda>_. 0) [2, 0, 1] demo_reqs demo_last_locs 10 None demo_pool = Inr (a', r) \<and>
     extend_outcome demo_reqs demo_last_locs demo_pool a' r"
  by (rule alloc_extend_safe) (simp_all add: demo_pool_ok demo_reqs_ok demo_tails_ok upt_rec)

end
