(* ===== verification/KVRows.thy ===== *)
theory KVRows
  imports PagedExtend ReqPool
begin

text \<open>
  Rows of \<open>req_to_token\<close> that hold whole pages: token \<open>t\<close> of a request sits at offset
  \<open>t mod page_size\<close> of the page at index \<open>t div page_size\<close>. Giving back the entries from a page
  boundary to the end of the row gives back exactly the pages from there on, a partly filled
  last page included.
\<close>

definition laid :: "nat \<Rightarrow> nat list \<Rightarrow> nat list \<Rightarrow> nat \<Rightarrow> bool" where
  "laid p pages row n \<longleftrightarrow> n \<le> length row \<and> distinct pages \<and> length pages = pages_of p n \<and> take n row = take n (expand_pages p pages)"

lemma nth_expand_pages: "t < length pages * p \<Longrightarrow> expand_pages p pages ! t = pages ! (t div p) * p + t mod p"
  using expand_pages_slots [of 0 "length pages" pages p] by simp

lemma laid_nth:
  assumes "0 < p" "laid p pages row n" "t < n"
  shows "row ! t = pages ! (t div p) * p + t mod p" "t div p < length pages"
proof -
  have "n \<le> length pages * p" using assms(2) pages_of_bounds(1) [OF assms(1), of n] by (simp add: laid_def)
  then have t: "t < length pages * p" using assms(3) by simp
  have "row ! t = take n row ! t" using assms(3) by simp
  also have "\<dots> = expand_pages p pages ! t" using assms(2,3) by (simp add: laid_def)
  finally show "row ! t = pages ! (t div p) * p + t mod p" using nth_expand_pages [OF t] by simp
  show "t div p < length pages" using t assms(1) by (simp add: div_less_iff_less_mult)
qed

lemma laid_prefix:
  assumes "0 < p" "laid p pages row n" "m \<le> n"
  shows "laid p (take (pages_of p m) pages) row m"
proof -
  have le: "pages_of p m \<le> length pages" using pages_of_le [OF assms(1,3)] assms(2) by (simp add: laid_def)
  have "take m row = take m (expand_pages p (take (pages_of p m) pages))"
  proof (rule nth_equalityI)
    have "m \<le> pages_of p m * p" using pages_of_bounds(1) [OF assms(1)] by simp
    then show "length (take m row) = length (take m (expand_pages p (take (pages_of p m) pages)))"
      using assms(2,3) le by (simp add: laid_def min_def)
    fix t assume "t < length (take m row)"
    then have t: "t < m" by simp
    then have tp: "t < pages_of p m * p" "t div p < pages_of p m"
      using pages_of_bounds(1) [OF assms(1), of m] assms(1) by (auto simp: div_less_iff_less_mult)
    then show "take m row ! t = take m (expand_pages p (take (pages_of p m) pages)) ! t"
      using laid_nth(1) [OF assms(1,2)] t assms(3) le by (simp add: nth_expand_pages min_def)
  qed
  then show ?thesis using assms le by (auto simp: laid_def)
qed

text \<open>The pages of the entries from a page boundary on.\<close>

lemma laid_tail_pages:
  assumes p: "0 < p" and l: "laid p pages row n" and s: "p dvd s" "s \<le> n"
  shows "(\<lambda>i. i div p) ` set (slice s n row) = set (drop (s div p) pages)"
proof -
  have nl: "n \<le> length row" using l by (simp add: laid_def)
  have el: "slice s n row ! j = row ! (s + j)" "slice s n row ! j \<in> set (slice s n row)" if "j < n - s" for j
    using that nl nth_mem [of j "slice s n row"] by (simp_all add: nth_slice)
  have pg: "(row ! (s + j)) div p = pages ! ((s + j) div p)" if "j < n - s" for j
    using laid_nth(1) [OF p l, of "s + j"] that p by simp
  show ?thesis
  proof (intro equalityI subsetI)
    fix x assume "x \<in> (\<lambda>i. i div p) ` set (slice s n row)"
    then obtain j where j: "j < length (slice s n row)" "x = slice s n row ! j div p" by (auto simp: in_set_conv_nth)
    then have jn: "j < n - s" using nl by simp
    then have x: "x = pages ! ((s + j) div p)" "(s + j) div p < length pages"
      using j(2) el(1) pg laid_nth(2) [OF p l, of "s + j"] by simp_all
    have "(s + j) div p = s div p + j div p" using s(1) by (simp add: div_add1_eq dvd_eq_mod_eq_0 [symmetric] div_plus_div_distrib_dvd_left)
    then have "x = drop (s div p) pages ! (j div p)" "j div p < length (drop (s div p) pages)" using x by auto
    then show "x \<in> set (drop (s div p) pages)" using nth_mem by blast
  next
    fix x assume "x \<in> set (drop (s div p) pages)"
    then obtain k where k: "k < length pages - s div p" "x = pages ! (s div p + k)" by (auto simp: in_set_conv_nth)
    let ?t = "(s div p + k) * p"
    have "s div p + k + 1 \<le> pages_of p n" using k l by (simp add: laid_def)
    then have "(s div p + k + 1) * p \<le> pages_of p n * p" by (rule mult_le_mono1)
    then have t: "?t < n" using pages_of_bounds(2) [OF p, of n] by (simp add: add_mult_distrib)
    have st: "?t = s + k * p" using s(1) by (simp add: add_mult_distrib)
    then have kp: "k * p < n - s" using t by simp
    have "(s + k * p) div p = s div p + k" using p by simp
    then have "slice s n row ! (k * p) div p = x" using el(1) [OF kp] pg [OF kp] k(2) by simp
    then show "x \<in> (\<lambda>i. i div p) ` set (slice s n row)" using el(2) [OF kp] by blast
  qed
qed

text \<open>Freeing the entries from a page boundary on gives back the pages from there on.\<close>

lemma al_ok_page: "al_ok a \<Longrightarrow> 0 < al_page_size a"
  by (auto simp: al_ok_def paged_ok_def tok_ok_def pool_ok_def split: if_splits)

lemma pool_slots_pages: "0 < al_page_size a \<Longrightarrow> page_slots (al_page_size a) G \<inter> pool_slots a = {} \<Longrightarrow> G \<inter> set (pool_pages a) = {}"
proof (rule ccontr)
  assume p: "0 < al_page_size a" and d: "page_slots (al_page_size a) G \<inter> pool_slots a = {}" and "G \<inter> set (pool_pages a) \<noteq> {}"
  then obtain g where "g \<in> G" "g \<in> set (pool_pages a)" by blast
  then have "g * al_page_size a \<in> page_slots (al_page_size a) G \<inter> pool_slots a" using p by (simp add: pool_slots_def page_slots_def)
  then show False using d by blast
qed

lemma free_tail_pages:
  assumes ok: "al_ok a" and l: "laid (al_page_size a) pages row n" and s: "al_page_size a dvd s" "s \<le> n"
    and dis: "page_slots (al_page_size a) (set pages) \<inter> pool_slots a = {}"
  shows "\<exists>a'. al_free (slice s n row) a = Inr a' \<and> al_ok a' \<and> al_page_size a' = al_page_size a \<and> paged a' = paged a \<and>
    pool_slots a' = pool_slots a \<union> page_slots (al_page_size a) (set (drop (s div al_page_size a) pages))"
proof (cases "slice s n row = []")
  case True
  have "set (drop (s div al_page_size a) pages) = {}" using laid_tail_pages [OF al_ok_page [OF ok] l s] True by simp
  then show ?thesis using ok True
    by (auto simp: al_free_def paged_free_def tok_free_def page_slots_def)
next
  case ne: False
  let ?p = "al_page_size a" and ?xs = "slice s n row" and ?G = "drop (s div al_page_size a) pages"
  have p: "0 < ?p" by (rule al_ok_page [OF ok])
  have img: "(\<lambda>i. i div ?p) ` set ?xs = set ?G" by (rule laid_tail_pages [OF p l s])
  have sub: "set ?G \<subseteq> set pages" by (rule set_drop_subset)
  have disG: "set ?G \<inter> set (pool_pages a) = {}" using pool_slots_pages [OF p dis] sub by blast
  have dG: "distinct ?G" using l by (simp add: laid_def)
  show ?thesis
  proof (cases "paged a")
    case True
    have po: "pool_ok a" "paged_ok a" using ok True by (auto simp: al_ok_def paged_ok_def)
    let ?ids = "[unique (map (\<lambda>i. i div ?p) ?xs)]"
    have ids: "set (concat ?ids) = set ?G" "distinct (concat ?ids)" using img by simp_all
    note rel = pool_ok_release [OF po(1) ids(2)] 
    have rel': "pool_ok (release_page_ids ?ids a)" "set (pool_pages (release_page_ids ?ids a)) = set (pool_pages a) \<union> set ?G"
      using rel disG ids(1) by auto
    have "paged_free ?xs a = Inr (release_page_ids ?ids a)"
      using ne po rel'(1) by (simp add: paged_free_def debug_checked_ok pool_ok_def del: length_slice)
    then show ?thesis using True rel' po by (simp add: al_free_def al_ok_def paged_ok_def pool_slots_def page_slots_Un)
  next
    case False
    then have t: "tok_ok a" using ok by (simp add: al_ok_def)
    then have p1: "?p = 1" by (simp add: tok_ok_def)
    have eq: "set ?xs = set ?G" using img p1 by simp
    have "distinct ?xs"
    proof -
      have "length pages = n" using l p1 by (simp add: laid_def pages_of_def)
      moreover have "expand_pages 1 pages = pages" by (simp add: expand_pages_def)
      ultimately have "take n row = pages" using l p1 by (simp add: laid_def)
      then have "distinct (take n row)" using l by (simp add: laid_def)
      then show ?thesis by (simp add: slice_def drop_take [symmetric])
    qed
    moreover have "set ?xs \<inter> pool_slots a = {}" using eq disG p1 by (simp add: pool_slots_def)
    ultimately show ?thesis using tok_free_correct [OF t] False t eq p1
      by (auto simp: al_free_def al_ok_def tok_ok_def)
  qed
qed

section \<open>Freeing ranges of a row\<close>

lemma every_conv: "0 < k \<Longrightarrow> every k xs = map (\<lambda>i. xs ! (i * k)) [0..<pages_of k (length xs)]"
proof (induction k xs rule: every.induct)
  case (1 k xs)
  show ?case
  proof (cases "xs = []")
    case True
    then show ?thesis using 1(2) by (simp add: pages_of_def)
  next
    case False
    have len: "pages_of k (length xs) = Suc (pages_of k (length xs - k))"
    proof (cases "k \<le> length xs")
      case True
      then show ?thesis using 1(2) by (simp add: pages_of_def le_div_geq)
    next
      case short: False
      have "(length xs + k - 1) div k = 1" using short \<open>xs \<noteq> []\<close> by (intro div_nat_eqI) (cases xs, auto)
      then show ?thesis using short 1(2) by (simp add: pages_of_def)
    qed
    have "every k xs = hd xs # every k (drop k xs)" using 1(2) False by (rule every_step)
    also have "every k (drop k xs) = map (\<lambda>i. drop k xs ! (i * k)) [0..<pages_of k (length xs - k)]"
      using 1 False by simp
    also have "\<dots> = map (\<lambda>i. xs ! (Suc i * k)) [0..<pages_of k (length xs - k)]"
    proof (rule map_cong [OF refl])
      fix i assume i: "i \<in> set [0..<pages_of k (length xs - k)]"
      then have "(i + 1) * k \<le> pages_of k (length xs - k) * k" by (intro mult_le_mono1) simp
      then have "k \<le> length xs"
        using pages_of_bounds(2) [OF 1(2), of "length xs - k"] i by (cases "k \<le> length xs") (auto simp: pages_of_def)
      then show "drop k xs ! (i * k) = xs ! (Suc i * k)" by simp
    qed
    also have "hd xs # \<dots> = map (\<lambda>i. xs ! (i * k)) [0..<pages_of k (length xs)]"
      unfolding len using False by (simp add: upt_conv_Cons hd_conv_nth o_def flip: map_Suc_upt del: upt_Suc)
    finally show ?thesis .
  qed
qed

lemma pages_of_diff: "0 < p \<Longrightarrow> p dvd s \<Longrightarrow> s \<le> n \<Longrightarrow> pages_of p (n - s) = pages_of p n - s div p"
proof -
  assume p: "0 < p" "p dvd s" "s \<le> n"
  then obtain k where s: "s = p * k" by blast
  then have n: "n + p - 1 = (n - s + p - 1) + p * k" using p(1,3) by linarith
  have "(n - s + p - 1 + p * k) div p = k + (n - s + p - 1) div p" using p(1) by (intro div_mult_self2) simp
  moreover have "s div p = k" using p(1) s by simp
  ultimately show ?thesis unfolding pages_of_def n by simp
qed

lemma pages_of_dvd: "0 < p \<Longrightarrow> p dvd n \<Longrightarrow> pages_of p n = n div p"
  using pages_of_diff [of p n n] pages_of_bounds(1) [of p n] by (auto simp: pages_of_def elim!: dvdE)

lemma laid_page_reps:
  assumes p: "0 < p" and l: "laid p pages row n" and s: "p dvd s" "s \<le> n"
  shows "map (\<lambda>i. i div p) (every p (slice s n row)) = drop (s div p) pages"
proof (rule nth_equalityI)
  have nl: "n \<le> length row" "length pages = pages_of p n" using l by (simp_all add: laid_def)
  then have len: "length (slice s n row) = n - s" by simp
  show leq: "length (map (\<lambda>i. i div p) (every p (slice s n row))) = length (drop (s div p) pages)"
    using p s nl len by (simp add: every_conv pages_of_diff)
  fix k assume "k < length (map (\<lambda>i. i div p) (every p (slice s n row)))"
  then have k: "k < pages_of p (n - s)" using p len by (simp add: every_conv)
  then have "(k + 1) * p \<le> pages_of p (n - s) * p" by (intro mult_le_mono1) simp
  then have kp: "k * p < n - s" using pages_of_bounds(2) [OF p, of "n - s"] k by simp
  have "slice s n row ! (k * p) = row ! (s + k * p)" using kp nl by (simp add: nth_slice)
  also have "\<dots> div p = pages ! ((s + k * p) div p)" using laid_nth(1) [OF p l, of "s + k * p"] kp p by simp
  also have "(s + k * p) div p = s div p + k" using p by simp
  finally show "map (\<lambda>i. i div p) (every p (slice s n row)) ! k = drop (s div p) pages ! k"
    using k p len leq nl s by (simp add: every_conv pages_of_diff)
qed

lemma unique_eq_sort: "distinct xs \<Longrightarrow> set ys = set xs \<Longrightarrow> sort xs = unique ys"
proof -
  assume "distinct xs" "set ys = set xs"
  then have "mset (remdups ys) = mset xs" by (metis distinct_remdups set_eq_iff_mset_eq_distinct set_remdups)
  then show ?thesis unfolding unique_def by (intro properties_for_sort) simp_all
qed

lemma free_segment_tail:
  assumes ok: "al_ok a" and l: "laid (al_page_size a) pages row n" and s: "al_page_size a dvd s" "s \<le> n"
    and dis: "page_slots (al_page_size a) (set (drop (s div al_page_size a) pages)) \<inter> pool_slots a = {}"
  shows "\<exists>a'. al_free_segment (slice s n row) s a = Inr a' \<and> al_ok a' \<and> al_page_size a' = al_page_size a \<and> paged a' = paged a \<and>
    pool_slots a' = pool_slots a \<union> page_slots (al_page_size a) (set (drop (s div al_page_size a) pages))"
proof -
  let ?p = "al_page_size a" and ?xs = "slice s n row" and ?G = "drop (s div al_page_size a) pages"
  have p: "0 < ?p" by (rule al_ok_page [OF ok])
  have img: "(\<lambda>i. i div ?p) ` set ?xs = set ?G" by (rule laid_tail_pages [OF p l s])
  have reps: "map (\<lambda>i. i div ?p) (every ?p ?xs) = ?G" by (rule laid_page_reps [OF p l s])
  have dG: "distinct ?G" using l by (simp add: laid_def)
  have disG: "set ?G \<inter> set (pool_pages a) = {}" by (rule pool_slots_pages [OF p dis])
  show ?thesis
  proof (cases "paged a")
    case paged: True
    show ?thesis
    proof (cases "?xs = []")
      case True
      then show ?thesis using img ok paged
        by (simp add: al_free_segment_def paged_free_segment_def page_slots_def del: length_slice)
    next
      case ne: False
      have po: "pool_ok a" "paged_ok a" using ok paged by (auto simp: al_ok_def paged_ok_def)
      have pieces: "map (map (\<lambda>i. i div ?p)) (segment_pieces ?p ?xs s) = [?G]"
        using s(1) reps by (simp add: segment_pieces_def)
      have chk: "sort ?G = unique (map (\<lambda>i. i div ?p) ?xs)" by (rule unique_eq_sort [OF dG]) (simp add: img)
      have rel: "pool_ok (release_page_ids [?G] a)" "set (pool_pages (release_page_ids [?G] a)) = set (pool_pages a) \<union> set ?G"
        using pool_ok_release [OF po(1), of "[?G]"] dG disG by simp_all
      have "paged_free_segment ?xs s a = Inr (release_page_ids [?G] a)"
        using ne pieces chk po(1) rel(1) by (simp add: paged_free_segment_def Let_def pool_ok_def debug_checked_ok del: length_slice)
      then show ?thesis using paged rel po
        by (simp add: al_free_segment_def al_ok_def paged_ok_def pool_slots_def page_slots_Un)
    qed
  next
    case False
    then have t: "tok_ok a" using ok by (simp add: al_ok_def)
    then have p1: "?p = 1" by (simp add: tok_ok_def)
    have "every 1 ?xs = ?xs" using every_conv [of 1 ?xs] by (simp add: pages_of_def map_nth del: length_slice)
    then have xs: "?xs = ?G" using reps p1 by simp
    then show ?thesis using tok_free_correct [OF t, of ?xs] False t dG disG p1
      by (auto simp: al_free_segment_def al_free_def al_ok_def tok_ok_def pool_slots_def)
  qed
qed

text \<open>A range that starts on a page, and the pages it touches.\<close>

lemma free_segment_range:
  assumes ok: "al_ok a" and l: "laid (al_page_size a) pages row n" and s: "al_page_size a dvd s" "s \<le> e" "e \<le> n"
    and dis: "page_slots (al_page_size a) (set (slice (s div al_page_size a) (pages_of (al_page_size a) e) pages)) \<inter> pool_slots a = {}"
  shows "\<exists>a'. al_free_segment (slice s e row) s a = Inr a' \<and> al_ok a' \<and> al_page_size a' = al_page_size a \<and> paged a' = paged a \<and>
    pool_slots a' = pool_slots a \<union> page_slots (al_page_size a) (set (slice (s div al_page_size a) (pages_of (al_page_size a) e) pages))"
proof -
  let ?p = "al_page_size a"
  have "laid ?p (take (pages_of ?p e) pages) row e" by (rule laid_prefix [OF al_ok_page [OF ok] l s(3)])
  moreover have "drop (s div ?p) (take (pages_of ?p e) pages) = slice (s div ?p) (pages_of ?p e) pages"
    by (simp add: slice_def drop_take)
  ultimately show ?thesis using free_segment_tail [OF ok _ s(1,2)] dis by metis
qed

lemma slice_set_split: "a \<le> b \<Longrightarrow> b \<le> c \<Longrightarrow> set (slice a c xs) = set (slice a b xs) \<union> set (slice b c xs)"
  by (metis slice_append_slice set_append)

lemma slice_set_disjoint:
  assumes "distinct xs" "b \<le> c"
  shows "set (slice a b xs) \<inter> set (slice c d xs) = {}"
proof (cases "a \<le> b \<and> c \<le> d")
  case True
  then have "slice a b xs @ slice b d xs = slice a d xs" "slice b c xs @ slice c d xs = slice b d xs"
    using assms(2) by (simp_all add: slice_append_slice)
  moreover have "distinct (slice a d xs)" using assms(1) by (simp add: slice_def)
  ultimately show ?thesis by (metis Int_Un_distrib distinct_append set_append sup_eq_bot_iff)
qed auto

text \<open>Two ranges as \<open>cache_finished_req\<close> gives them back: the first one ends on a page.\<close>

lemma free_segments_two:
  assumes ok: "al_ok a" and l: "laid (al_page_size a) pages row n"
    and s: "al_page_size a dvd s1" "al_page_size a dvd e1" "al_page_size a dvd s2" "s1 \<le> e1" "e1 \<le> s2" "s2 \<le> e2" "e2 \<le> n"
    and dis: "page_slots (al_page_size a) (set (drop (s1 div al_page_size a) pages)) \<inter> pool_slots a = {}"
  shows "\<exists>a'. al_free_segments [(slice s1 e1 row, s1), (slice s2 e2 row, s2)] a = Inr a' \<and> al_ok a' \<and>
    al_page_size a' = al_page_size a \<and> paged a' = paged a \<and>
    pool_slots a' = pool_slots a \<union> page_slots (al_page_size a)
      (set (slice (s1 div al_page_size a) (e1 div al_page_size a) pages) \<union>
       set (slice (s2 div al_page_size a) (pages_of (al_page_size a) e2) pages))"
proof -
  let ?p = "al_page_size a"
  let ?G1 = "slice (s1 div ?p) (e1 div ?p) pages" and ?G2 = "slice (s2 div ?p) (pages_of ?p e2) pages"
  have p: "0 < ?p" by (rule al_ok_page [OF ok])
  have pe: "pages_of ?p e1 = e1 div ?p" by (rule pages_of_dvd [OF p s(2)])
  have d: "distinct pages" "n \<le> length row" using l by (simp_all add: laid_def)
  have sub: "set (slice (s div ?p) k pages) \<subseteq> set (drop (s1 div ?p) pages)" if "s1 \<le> s" for s k
  proof -
    have "set (slice (s div ?p) k pages) \<subseteq> set (drop (s div ?p) pages)" by (auto simp: slice_def dest: in_set_takeD)
    also have "\<dots> \<subseteq> set (drop (s1 div ?p) pages)" using that by (intro set_drop_subset_set_drop div_le_mono)
    finally show ?thesis .
  qed
  have dis1: "page_slots ?p (set (slice (s div ?p) k pages)) \<inter> pool_slots a = {}" if "s1 \<le> s" for s k
    using dis page_slots_mono [OF sub [OF that], of ?p k] by blast
  obtain a1 where a1: "al_free_segment (slice s1 e1 row) s1 a = Inr a1" "al_ok a1" "al_page_size a1 = ?p" "paged a1 = paged a"
    "pool_slots a1 = pool_slots a \<union> page_slots ?p (set ?G1)"
    using free_segment_range [OF ok l s(1,4), unfolded pe] s dis1 [of s1] by auto
  have "set ?G1 \<inter> set ?G2 = {}" using slice_set_disjoint [OF d(1)] s by (simp add: div_le_mono)
  then have dis2: "page_slots (al_page_size a1) (set ?G2) \<inter> pool_slots a1 = {}"
    using dis1 [of s2 "pages_of ?p e2"] s p unfolding a1(3,5) by (auto simp: page_slots_def)
  obtain a2 where a2: "al_free_segment (slice s2 e2 row) s2 a1 = Inr a2" "al_ok a2" "al_page_size a2 = ?p" "paged a2 = paged a"
    "pool_slots a2 = pool_slots a1 \<union> page_slots ?p (set ?G2)"
    using free_segment_range [of a1 pages row n s2 e2] a1 l s dis2 by auto
  have empty1: "al_free_segment (slice s1 e1 row) s1 a = Inr a" if "s1 = e1"
    using that ok by (auto simp: al_free_segment_def paged_free_segment_def al_free_def tok_free_def)
  have empty2: "al_free_segment (slice s2 e2 row) s2 a1 = Inr a1" if "s2 = e2"
    using that by (auto simp: al_free_segment_def paged_free_segment_def al_free_def tok_free_def)
  have nb: "s2 div ?p \<noteq> (e1 - 1) div ?p" if "s1 < e1"
  proof -
    have "(e1 - 1) div ?p < e1 div ?p" using that s(2) p by (metis dvd_div_mult_self less_mult_imp_div_less diff_less zero_less_one gr_zeroI not_less_zero less_le_trans)
    also have "\<dots> \<le> s2 div ?p" using s(5) by (rule div_le_mono)
    finally show ?thesis by simp
  qed
  have l1: "length (slice s1 e1 row) = e1 - s1" "length (slice s2 e2 row) = e2 - s2" using d(2) s by auto
  have "al_free_segments [(slice s1 e1 row, s1), (slice s2 e2 row, s2)] a = Inr a2"
    using a1(1) a2(1) empty1 empty2 nb s(4,6) unfolding al_free_segments_def
    by (cases "s1 = e1"; cases "s2 = e2") (auto simp: l1 Let_def a1(3) simp del: length_slice)
  then show ?thesis using a2 a1(5) by (simp add: page_slots_Un Un_assoc)
qed

end
