(* ===== verification/Session.thy ===== *)
theory Session
  imports Prelude
begin

text \<open>
  Sessions of \<open>python/sglang/srt/session/session_controller.py\<close>: the tree of request nodes of
  a session, the assembly of the tokens of a new turn, and the controller that opens, closes
  and reaps sessions.

  Token arrays, requests and nodes are Python objects that several places refer to, and the
  streaming path extends the arrays of the previous turn in place. They therefore live in a
  store: \<open>arrays\<close>, \<open>sreqs\<close> and \<open>nodes\<close> list the objects created so far, and a reference is an
  index. Objects are never removed. A \<open>MultimodalInputs\<close> object is only its identity here, and
  times are integers.
\<close>

section \<open>Objects\<close>

datatype finish_reason = FINISH_ABORT string | FINISH_OTHER

record sreq =
  sr_rid :: string
  sr_origin :: nat
  sr_unpadded :: nat
  sr_fill :: nat
  sr_output :: "int list"
  sr_max_new_tokens :: "int option"
  sr_finished_reason :: "finish_reason option"
  sr_to_finish :: "finish_reason option"
  sr_session :: "nat option"
  sr_multimodal_inputs :: "nat option"

record snode =
  nd_req :: nat
  nd_parent :: "nat option"
  nd_children :: "nat list"

record world =
  arrays :: "int list list"
  sreqs :: "sreq list"
  nodes :: "snode list"

definition arr :: "world \<Rightarrow> nat \<Rightarrow> int list" where
  "arr w a = arrays w ! a"

definition set_arr :: "nat \<Rightarrow> int list \<Rightarrow> world \<Rightarrow> world" where
  "set_arr a xs w = w\<lparr>arrays := (arrays w)[a := xs]\<rparr>"

definition new_arr :: "int list \<Rightarrow> world \<Rightarrow> nat \<times> world" where
  "new_arr xs w = (length (arrays w), w\<lparr>arrays := arrays w @ [xs]\<rparr>)"

definition upd_sreq :: "nat \<Rightarrow> (sreq \<Rightarrow> sreq) \<Rightarrow> world \<Rightarrow> world" where
  "upd_sreq r f w = w\<lparr>sreqs := (sreqs w)[r := f (sreqs w ! r)]\<rparr>"

definition node_req :: "world \<Rightarrow> nat \<Rightarrow> sreq" where
  "node_req w n = sreqs w ! nd_req (nodes w ! n)"

definition req_is_finished :: "sreq \<Rightarrow> bool" where
  "req_is_finished r \<longleftrightarrow> sr_finished_reason r \<noteq> None"

section \<open>Request nodes\<close>

definition new_snode :: "nat \<Rightarrow> nat option \<Rightarrow> world \<Rightarrow> nat \<times> world" where
  "new_snode r parent w =
     (let n = length (nodes w);
          ns = (case parent of None \<Rightarrow> nodes w
                | Some p \<Rightarrow> (nodes w)[p := (nodes w ! p)\<lparr>nd_children := nd_children (nodes w ! p) @ [n]\<rparr>])
      in (n, w\<lparr>nodes := ns @ [\<lparr>nd_req = r, nd_parent = parent, nd_children = []\<rparr>]\<rparr>))"

definition abort_node :: "nat \<Rightarrow> world \<Rightarrow> world" where
  "abort_node n w =
     (if sr_finished_reason (node_req w n) = None
      then upd_sreq (nd_req (nodes w ! n)) (\<lambda>r. r\<lparr>sr_to_finish := Some (FINISH_ABORT ''Aborted'')\<rparr>) w else w)"

type_synonym node_dict = "(string \<times> nat) list"

text \<open>\<open>clear\<close> walks down the tree; the fuel bounds the depth. \<open>del req_dict[rid]\<close> raises when
  the key is missing.\<close>

fun clear_node :: "nat \<Rightarrow> nat \<Rightarrow> node_dict \<times> world \<Rightarrow> (node_dict \<times> world) res"
  and clear_nodes :: "nat \<Rightarrow> nat list \<Rightarrow> node_dict \<times> world \<Rightarrow> (node_dict \<times> world) res" where
  "clear_node 0 n st = Inl OutOfFuel"
| "clear_node (Suc fuel) n (d, w) =
     bind_res (clear_nodes fuel (nd_children (nodes w ! n)) (d, w)) (\<lambda>(d, w).
       let w = abort_node n w; k = sr_rid (node_req w n) in
       if map_of d k = None then Inl KeyError else Inr (AList.delete k d, w))"
| "clear_nodes fuel [] st = Inr st"
| "clear_nodes fuel (n # ns) st = bind_res (clear_node fuel n st) (clear_nodes fuel ns)"

definition clear_children :: "nat \<Rightarrow> node_dict \<times> world \<Rightarrow> (node_dict \<times> world) res" where
  "clear_children n dw =
     bind_res (clear_nodes (length (nodes (snd dw))) (nd_children (nodes (snd dw) ! n)) dw) (\<lambda>(d, w).
       Inr (d, w\<lparr>nodes := (nodes w)[n := (nodes w ! n)\<lparr>nd_children := []\<rparr>]\<rparr>))"

text \<open>\<open>for _, req_node in req_nodes.items(): req_node.clear(req_nodes)\<close>: the iterator checks the
  size of the dictionary at every step, the last one included.\<close>

fun clear_all :: "nat \<Rightarrow> (string \<times> nat) list \<Rightarrow> node_dict \<times> world \<Rightarrow> (node_dict \<times> world) res" where
  "clear_all sz items (d, w) =
     (if length d \<noteq> sz then Inl RuntimeError
      else case items of
             [] \<Rightarrow> Inr (d, w)
           | (_, n) # rest \<Rightarrow> bind_res (clear_node (length (nodes w) + 1) n (d, w)) (clear_all sz rest))"

section \<open>Sessions\<close>

record session =
  session_id :: "string option"
  capacity_of_str_len :: int
  streaming :: bool
  timeout :: "int option"
  last_active_time :: int
  req_nodes :: node_dict
  close_on_finish :: bool
  inflight :: bool
  committed_origin_len :: "nat option"
  committed_unpadded_len :: "nat option"
  committed_fill_len :: "nat option"

definition new_session :: "int \<Rightarrow> string option \<Rightarrow> bool \<Rightarrow> int option \<Rightarrow> int \<Rightarrow> session" where
  "new_session cap sid strm tmo now =
     \<lparr>session_id = sid, capacity_of_str_len = cap, streaming = strm, timeout = tmo, last_active_time = now,
      req_nodes = [], close_on_finish = False, inflight = False, committed_origin_len = None,
      committed_unpadded_len = None, committed_fill_len = None\<rparr>"

definition is_timed_out :: "int \<Rightarrow> session \<Rightarrow> bool" where
  "is_timed_out now s = (case timeout s of None \<Rightarrow> False | Some t \<Rightarrow> now - last_active_time s > t)"

record session_params =
  sp_rid :: "string option"
  sp_offset :: "int option"
  sp_replace :: "bool option"
  sp_drop_previous_output :: "bool option"

text \<open>The fields of \<open>TokenizedGenerateReqInput\<close> used here; \<open>gi_mm_items\<close> are the offsets of the
  multimodal items.\<close>

record gen_input =
  gi_rid :: string
  gi_input_ids :: nat
  gi_max_new_tokens :: "int option"
  gi_mm_items :: "((int \<times> int) list option) list option"
  gi_session_params :: "session_params option"

definition truthy :: "bool option \<Rightarrow> bool" where
  "truthy b = (b = Some True)"

definition has_offset :: "session_params \<Rightarrow> bool" where
  "has_offset sp = (case sp_offset sp of None \<Rightarrow> False | Some k \<Rightarrow> k \<noteq> 0)"

definition strip_offsets :: "(int \<times> int) list option \<Rightarrow> (int \<times> int) list option" where
  "strip_offsets offs = map_option (map (\<lambda>(s, e). (max 0 (s - 1), max 0 (e - 1)))) offs"

text \<open>\<open>bos\<close> is the tokenizer's BOS token, \<open>None\<close> without a tokenizer.\<close>

definition strip_bos_token :: "int option \<Rightarrow> gen_input \<Rightarrow> world \<Rightarrow> gen_input \<times> world" where
  "strip_bos_token bos gi w =
     (case (bos, arr w (gi_input_ids gi)) of
        (Some b, t # ts) \<Rightarrow>
          (if t = b then
             (let (a, w') = new_arr ts w in
              (gi\<lparr>gi_input_ids := a, gi_mm_items := map_option (map strip_offsets) (gi_mm_items gi)\<rparr>, w'))
           else (gi, w))
      | _ \<Rightarrow> (gi, w))"

text \<open>\<open>xs[:k]\<close> for an optional, possibly negative bound, and \<open>del xs[k:]\<close>.\<close>

definition upto :: "int option \<Rightarrow> 'a list \<Rightarrow> 'a list" where
  "upto k xs = take (case k of None \<Rightarrow> length xs | Some i \<Rightarrow> clip_bound (length xs) i) xs"

definition del_from :: "nat option \<Rightarrow> 'a list \<Rightarrow> 'a list" where
  "del_from k xs = (case k of None \<Rightarrow> [] | Some n \<Rightarrow> take n xs)"

definition out_tail :: "sreq \<Rightarrow> int list" where
  "out_tail r = upto (sr_max_new_tokens r) (sr_output r)"

definition share_fill :: "nat option \<Rightarrow> nat \<Rightarrow> nat \<Rightarrow> sreq \<Rightarrow> int list \<Rightarrow> world \<Rightarrow> nat option \<times> world" where
  "share_fill cfl ia ua r new w =
     (let fa = sr_fill r; out = out_tail r in
      if fa = ia \<or> fa = ua then (None, w)
      else
        (let w1 = set_arr fa (del_from cfl (arr w fa)) w;
             baked = int (length (arr w1 fa)) - int (length (arr w1 ia))
         in if 0 \<le> baked \<and> baked \<le> int (length out)
            then (Some fa, set_arr fa (arr w1 fa @ drop (nat baked) out @ new) w1)
            else (None, w1)))"

definition share_token_arrays :: "session \<Rightarrow> sreq \<Rightarrow> int list \<Rightarrow> world \<Rightarrow> nat \<times> nat \<times> nat option \<times> world" where
  "share_token_arrays s r new w =
     (let out = out_tail r; ia = sr_origin r;
          w1 = set_arr ia (del_from (committed_origin_len s) (arr w ia)) w;
          ua = (if sr_unpadded r = ia then ia else sr_unpadded r);
          w2 = (if ua = ia then w1 else set_arr ua (del_from (committed_unpadded_len s) (arr w1 ua)) w1);
          (carry, w3) = share_fill (committed_fill_len s) ia ua r new w2;
          w4 = set_arr ia (arr w3 ia @ out @ new) w3;
          w5 = (if ua = ia then w4 else set_arr ua (arr w4 ua @ out @ new) w4)
      in (ia, ua, carry, w5))"

definition assemble :: "int list \<Rightarrow> int list \<Rightarrow> session_params \<Rightarrow> int list \<Rightarrow> int list" where
  "assemble origin out sp new =
     (let ids = (if truthy (sp_drop_previous_output sp) then origin else origin @ out) in
      if has_offset sp then upto (sp_offset sp) ids @ new else ids @ new)"

definition concat_token_arrays :: "sreq \<Rightarrow> int list \<Rightarrow> session_params \<Rightarrow> world \<Rightarrow> nat \<times> nat \<times> world" where
  "concat_token_arrays r new sp w =
     (let out = out_tail r;
          (ia, w1) = new_arr (assemble (arr w (sr_origin r)) out sp new) w;
          (ua, w2) = new_arr (assemble (arr w (sr_unpadded r)) out sp new) w1
      in (ia, ua, w2))"

text \<open>The choice of the request to continue from: the node, or an abort message.\<close>

definition single_node :: "node_dict \<Rightarrow> nat res" where
  "single_node d = (case d of [(_, n)] \<Rightarrow> Inr n | _ \<Rightarrow> Inl AssertionError)"

definition select_last :: "session_params \<Rightarrow> session \<Rightarrow> world \<Rightarrow> (nat option \<times> string option \<times> session \<times> world) res" where
  "select_last sp s w =
     (if streaming s then
        (if inflight s then Inr (None, Some ''Streaming session already has an active request.'', s, w)
         else if truthy (sp_replace sp) then Inr (None, Some ''Streaming sessions do not support replace.'', s, w)
         else if truthy (sp_drop_previous_output sp)
           then Inr (None, Some ''Streaming sessions do not support drop_previous_output.'', s, w)
         else if has_offset sp then Inr (None, Some ''Streaming sessions do not support offset.'', s, w)
         else if req_nodes s \<noteq> [] then bind_res (single_node (req_nodes s)) (\<lambda>n. Inr (Some n, None, s, w))
         else Inr (None, None, s, w))
      else if truthy (sp_replace sp) then
        (case sp_rid sp of
           None \<Rightarrow> bind_res (clear_all (length (req_nodes s)) (req_nodes s) (req_nodes s, w))
                     (\<lambda>(d, w). Inr (None, None, s\<lparr>req_nodes := d\<rparr>, w))
         | Some rid \<Rightarrow>
             (case map_of (req_nodes s) rid of
                None \<Rightarrow> Inr (None, Some ''Invalid request session id'', s, w)
              | Some n \<Rightarrow> bind_res (clear_children n (req_nodes s, abort_node n w))
                            (\<lambda>(d, w). Inr (Some n, None, s\<lparr>req_nodes := d\<rparr>, w))))
      else
        (case sp_rid sp of
           None \<Rightarrow> Inr (None, None, s, w)
         | Some rid \<Rightarrow>
             (case map_of (req_nodes s) rid of
                None \<Rightarrow> Inr (None, Some ''Invalid request session id'', s, w)
              | Some n \<Rightarrow>
                  Inr (Some n,
                       if req_is_finished (node_req w n) then None
                       else Some ''Session request is appending to a request that hasn't finished.'', s, w))))"

definition can_share :: "session_params \<Rightarrow> session \<Rightarrow> bool" where
  "can_share sp s \<longleftrightarrow> streaming s \<and> committed_origin_len s \<noteq> None \<and>
     \<not> truthy (sp_drop_previous_output sp) \<and> \<not> has_offset sp"

definition assemble_turn ::
  "int option \<Rightarrow> gen_input \<Rightarrow> session_params \<Rightarrow> nat option \<Rightarrow> session \<Rightarrow> world \<Rightarrow> nat \<times> nat \<times> nat option \<times> world" where
  "assemble_turn bos gi sp prev s w =
     (case prev of
        None \<Rightarrow> (gi_input_ids gi, gi_input_ids gi, None, w)
      | Some n \<Rightarrow>
          (let r = node_req w n; (gi', w') = strip_bos_token bos gi w; new = arr w' (gi_input_ids gi') in
           if can_share sp s then share_token_arrays s r new w'
           else (let (ia, ua, w'') = concat_token_arrays r new sp w' in (ia, ua, None, w''))))"

text \<open>\<open>Req.__init__\<close> for the fields modelled, and \<open>set_finish_with_abort\<close>.\<close>

definition new_sreq :: "gen_input \<Rightarrow> nat \<Rightarrow> nat \<Rightarrow> nat \<Rightarrow> world \<Rightarrow> nat \<times> world" where
  "new_sreq gi ia ua sid w =
     (let (fa, w') = new_arr [] w in
      (length (sreqs w'), w'\<lparr>sreqs := sreqs w' @
         [\<lparr>sr_rid = gi_rid gi, sr_origin = ia, sr_unpadded = (if arr w' ua \<noteq> [] then ua else ia), sr_fill = fa,
           sr_output = [], sr_max_new_tokens = gi_max_new_tokens gi, sr_finished_reason = None, sr_to_finish = None,
           sr_session = Some sid, sr_multimodal_inputs = None\<rparr>]\<rparr>))"

definition set_finish_with_abort :: "string \<Rightarrow> nat \<Rightarrow> world \<Rightarrow> world" where
  "set_finish_with_abort msg r w =
     (let (a, w') = new_arr [0] w in
      upd_sreq r (\<lambda>q. q\<lparr>sr_multimodal_inputs := None, sr_origin := a, sr_to_finish := Some (FINISH_ABORT msg)\<rparr>) w')"

text \<open>\<open>create_req\<close>; \<open>sid\<close> is the session object itself, \<open>now\<close> the clock.\<close>

definition create_req ::
  "int \<Rightarrow> int option \<Rightarrow> nat \<Rightarrow> gen_input \<Rightarrow> session \<Rightarrow> world \<Rightarrow> (nat \<times> session \<times> world) res" where
  "create_req now bos sid gi s0 w0 =
     (case gi_session_params gi of
        None \<Rightarrow> Inl AssertionError
      | Some sp \<Rightarrow>
          bind_res (select_last sp (s0\<lparr>last_active_time := now\<rparr>) w0) (\<lambda>(prev, abort, s, w).
            let (ia, ua, carry, w1) = assemble_turn bos gi sp prev s w;
                (r, w2) = new_sreq gi ia ua sid w1;
                w3 = (case prev of None \<Rightarrow> w2
                      | Some n \<Rightarrow> upd_sreq r (\<lambda>q. q\<lparr>sr_multimodal_inputs := sr_multimodal_inputs (node_req w2 n)\<rparr>) w2);
                w4 = (case carry of None \<Rightarrow> w3 | Some fa \<Rightarrow> upd_sreq r (\<lambda>q. q\<lparr>sr_fill := fa\<rparr>) w3)
            in case abort of
                 Some msg \<Rightarrow> Inr (r, s, set_finish_with_abort msg r w4)
               | None \<Rightarrow>
                   if streaming s then Inr (r, s\<lparr>inflight := True\<rparr>, w4)
                   else (let (n, w5) = new_snode r prev w4 in
                         Inr (r, s\<lparr>req_nodes := AList.update (gi_rid gi) n (req_nodes s)\<rparr>, w5))))"

definition finish_req :: "nat \<Rightarrow> session \<Rightarrow> world \<Rightarrow> (session \<times> world) res" where
  "finish_req r s0 w0 =
     bind_res (case req_nodes s0 of
                 [] \<Rightarrow> Inr w0
               | [(_, n)] \<Rightarrow> Inr (upd_sreq (nd_req (nodes w0 ! n)) (\<lambda>q. q\<lparr>sr_session := None\<rparr>) w0)
               | _ \<Rightarrow> Inl ValueError) (\<lambda>w.
     let q = sreqs w ! r; (n, w') = new_snode r None w in
     Inr (s0\<lparr>inflight := False, req_nodes := [(sr_rid q, n)], committed_origin_len := Some (length (arr w (sr_origin q))),
            committed_unpadded_len := Some (length (arr w (sr_unpadded q))),
            committed_fill_len := Some (length (arr w (sr_fill q)))\<rparr>, w'))"

definition abort_req :: "session \<Rightarrow> session" where
  "abort_req s = s\<lparr>inflight := False\<rparr>"

text \<open>\<open>Req._refresh_fill_ids\<close>\<close>

definition refresh_fill_ids :: "nat \<Rightarrow> world \<Rightarrow> world" where
  "refresh_fill_ids r w =
     (let q = sreqs w ! r;
          n_have_output = int (length (arr w (sr_fill q))) - int (length (arr w (sr_origin q)))
      in if sr_fill q \<noteq> sr_origin q \<and> 0 \<le> n_have_output \<and> n_have_output \<le> int (length (sr_output q))
         then set_arr (sr_fill q) (arr w (sr_fill q) @ drop (nat n_have_output) (sr_output q)) w
         else (let (a, w') = new_arr (arr w (sr_origin q) @ sr_output q) w in upd_sreq r (\<lambda>q. q\<lparr>sr_fill := a\<rparr>) w'))"

section \<open>The controller\<close>

record controller =
  sessions :: "(string \<times> nat) list"
  last_reap_time :: int
  session_objs :: "session list"
  store_of :: world
  released_sessions :: "string list"
  released_mm :: "nat list"

datatype open_output = OpenSessionReqOutput "string option" bool

definition ctl_open :: "int \<Rightarrow> int \<Rightarrow> string option \<Rightarrow> bool option \<Rightarrow> int option \<Rightarrow> controller \<Rightarrow> controller \<times> open_output" where
  "ctl_open now cap sid strm tmo c =
     (case sid of
        None \<Rightarrow> (c, OpenSessionReqOutput None False)
      | Some k \<Rightarrow>
          (if map_of (sessions c) k \<noteq> None then (c, OpenSessionReqOutput sid False)
           else (c\<lparr>sessions := AList.update k (length (session_objs c)) (sessions c),
                   session_objs := session_objs c @ [new_session cap sid (truthy strm) tmo now]\<rparr>,
                 OpenSessionReqOutput sid True)))"

definition has_unfinished_request :: "session \<Rightarrow> world \<Rightarrow> bool res" where
  "has_unfinished_request s w =
     (if streaming s \<and> inflight s then Inr True
      else if streaming s \<and> req_nodes s \<noteq> []
      then bind_res (single_node (req_nodes s)) (\<lambda>n. Inr (\<not> req_is_finished (node_req w n)))
      else Inr False)"

text \<open>The loop over the multimodal inputs: every object is released once.\<close>

fun release_mm :: "nat list \<Rightarrow> nat list \<Rightarrow> world \<Rightarrow> nat list \<times> world" where
  "release_mm seen [] w = (seen, w)"
| "release_mm seen (n # ns) w =
     (let seen' = (case sr_multimodal_inputs (node_req w n) of
                     None \<Rightarrow> seen | Some m \<Rightarrow> if m \<in> set seen then seen else seen @ [m])
      in release_mm seen' ns (upd_sreq (nd_req (nodes w ! n)) (\<lambda>q. q\<lparr>sr_multimodal_inputs := None\<rparr>) w))"

definition upd_session :: "nat \<Rightarrow> (session \<Rightarrow> session) \<Rightarrow> controller \<Rightarrow> controller" where
  "upd_session i f c = c\<lparr>session_objs := (session_objs c)[i := f (session_objs c ! i)]\<rparr>"

definition do_close :: "string \<Rightarrow> controller \<Rightarrow> controller res" where
  "do_close k c =
     (case map_of (sessions c) k of
        None \<Rightarrow> Inl KeyError
      | Some i \<Rightarrow>
          (let s = session_objs c ! i; w = store_of c in
           bind_res (has_unfinished_request s w) (\<lambda>u.
           if u then Inr (upd_session i (\<lambda>s. s\<lparr>close_on_finish := True\<rparr>) c)
           else
             (let w1 = (if streaming s \<and> req_nodes s \<noteq> []
                        then upd_sreq (nd_req (nodes w ! snd (hd (req_nodes s)))) (\<lambda>q. q\<lparr>sr_session := None\<rparr>) w else w);
                  (mm, w2) = release_mm [] (map snd (req_nodes s)) w1
              in Inr (c\<lparr>sessions := AList.delete k (sessions c), store_of := w2,
                        released_sessions := released_sessions c @ [k], released_mm := released_mm c @ mm\<rparr>)))))"

definition ctl_close :: "string \<Rightarrow> controller \<Rightarrow> controller res" where
  "ctl_close k c = (if map_of (sessions c) k = None then Inr c else do_close k c)"

definition all_requests_finished :: "session \<Rightarrow> world \<Rightarrow> bool" where
  "all_requests_finished s w \<longleftrightarrow> (\<forall>(_, n) \<in> set (req_nodes s). req_is_finished (node_req w n))"

fun close_each :: "(nat \<Rightarrow> controller \<Rightarrow> controller) \<Rightarrow> string list \<Rightarrow> controller \<Rightarrow> controller res" where
  "close_each prep [] c = Inr c"
| "close_each prep (k # ks) c =
     (case map_of (sessions c) k of
        None \<Rightarrow> Inl KeyError
      | Some i \<Rightarrow> bind_res (do_close k (prep i c)) (close_each prep ks))"

text \<open>\<open>maybe_reap\<close>: \<open>now\<close> is the time of the call; \<open>is_timed_out\<close> reads the clock again for every
  session, \<open>clock k\<close> for session \<open>k\<close>.\<close>

definition maybe_reap :: "int \<Rightarrow> (string \<Rightarrow> int) \<Rightarrow> int \<Rightarrow> controller \<Rightarrow> controller res" where
  "maybe_reap now clock interval c0 =
     (if now - last_reap_time c0 > interval then
        (let c = c0\<lparr>last_reap_time := now\<rparr>;
             pending = map fst (filter (\<lambda>(_, i). close_on_finish (session_objs c ! i) \<and>
                         all_requests_finished (session_objs c ! i) (store_of c)) (sessions c))
         in bind_res (close_each (\<lambda>i. upd_session i (\<lambda>s. s\<lparr>close_on_finish := False\<rparr>)) pending c) (\<lambda>c1.
            close_each (\<lambda>_. id) (map fst (filter (\<lambda>(k, i). is_timed_out (clock k) (session_objs c1 ! i)) (sessions c1))) c1))
      else Inr c0)"

text \<open>\<open>adjust_mm_offsets\<close>: the offsets of the items of a new turn move by the length of the
  tokens in front of it.\<close>

definition adjust_mm_offsets :: "nat \<Rightarrow> nat \<Rightarrow> ((int \<times> int) list option) list \<Rightarrow> ((int \<times> int) list option) list" where
  "adjust_mm_offsets recv_len origin_len items =
     (if recv_len \<ge> origin_len then items
      else map (map_option (map (\<lambda>(s, e). (s + int (origin_len - recv_len), e + int (origin_len - recv_len))))) items)"

end
