(* ===== verification/StreamingSession.thy ===== *)
theory StreamingSession
  imports KVRows Session
begin

text \<open>
  \<open>python/sglang/srt/session/streaming_session.py\<close>: the KV state that a streaming session keeps
  between its turns, on top of any prefix cache.

  The state holds the slots by session id, the session objects and requests of theory \<open>Session\<close>,
  the KV fields of the requests (\<open>ss_kv\<close>, indexed like \<open>sreqs\<close>), the rows of \<open>req_to_token\<close>, the
  slot allocator and the inner cache. The inner cache is a parameter: the operations that reach it
  take its \<open>dec_lock_ref\<close>, \<open>match_prefix\<close>, \<open>cache_finished_req\<close> and \<open>cache_unfinished_req\<close> as
  arguments. A node of the tree is its id; \<open>VirtualNode\<close> stands for the sentinel. A slot that holds
  KV has a row; the branches without one are errors here.
\<close>

section \<open>State\<close>

record kv_info =
  kv_allocated_len :: nat
  swa_evicted_seqlen :: nat

record mamba_refs =
  mamba_pool_idx :: "nat list option"
  mamba_ping_pong_track_buffer :: "nat list option"
  mamba_next_track_idx :: "int option"
  mamba_last_track_idx :: "int option"
  mamba_last_track_seqlen :: "int option"
  mamba_branching_seqlen :: "int option"

definition no_mamba :: mamba_refs where
  "no_mamba = \<lparr>mamba_pool_idx = None, mamba_ping_pong_track_buffer = None, mamba_next_track_idx = None,
     mamba_last_track_idx = None, mamba_last_track_seqlen = None, mamba_branching_seqlen = None\<rparr>"

record kvreq =
  kq_pool_idx :: "nat option"
  kq_committed_len :: nat
  kq_kv :: "kv_info option"
  kq_last_node :: "nat option"
  kq_protected_len :: nat
  kq_swa_uuid :: "string option"
  kq_skip_ids :: "nat list"
  kq_mamba :: mamba_refs
  kq_finished_len :: "nat option"
  kq_extend_end :: nat
  kq_prefix_indices :: "nat list"

record session_slot =
  sl_pool_idx :: "nat option"
  sl_committed_len :: nat
  sl_kv :: "kv_info option"
  sl_last_node :: "nat option"
  sl_protected_len :: nat
  sl_swa_uuid :: "string option"
  sl_skip_ids :: "nat list"
  sl_mamba :: mamba_refs

definition new_slot :: session_slot where
  "new_slot = \<lparr>sl_pool_idx = None, sl_committed_len = 0, sl_kv = None, sl_last_node = None, sl_protected_len = 0,
     sl_swa_uuid = None, sl_skip_ids = [], sl_mamba = no_mamba\<rparr>"

datatype any_node = VirtualNode | TreeNodeId nat

record 'c streaming =
  ss_slots :: "(string option \<times> session_slot) list"
  ss_sessions :: "session list"
  ss_world :: world
  ss_kv :: "kvreq list"
  ss_rows :: req_pool
  ss_alloc :: kv_alloc
  ss_page_size :: nat
  ss_mamba_freed :: "nat list option"
  ss_inner :: 'c

definition is_holding_kv :: "session_slot \<Rightarrow> bool" where
  "is_holding_kv sl \<longleftrightarrow> sl_kv sl \<noteq> None"

section \<open>Saving and restoring\<close>

definition save_from_req :: "kvreq \<Rightarrow> bool \<Rightarrow> session_slot \<Rightarrow> session_slot \<times> kvreq" where
  "save_from_req q is_first sl =
     (let sl1 = sl\<lparr>sl_pool_idx := kq_pool_idx q, sl_committed_len := kq_committed_len q, sl_kv := kq_kv q\<rparr>;
          sl2 = (if is_first then sl1\<lparr>sl_last_node := kq_last_node q, sl_protected_len := kq_protected_len q,
                                      sl_swa_uuid := kq_swa_uuid q, sl_skip_ids := kq_skip_ids q\<rparr> else sl1)
      in (sl2\<lparr>sl_mamba := kq_mamba q\<rparr>, q\<lparr>kq_pool_idx := None, kq_kv := None, kq_mamba := no_mamba\<rparr>))"

definition restore_to_req :: "session_slot \<Rightarrow> kvreq \<Rightarrow> kvreq" where
  "restore_to_req sl q = q\<lparr>kq_pool_idx := sl_pool_idx sl, kq_committed_len := sl_committed_len sl, kq_kv := sl_kv sl,
     kq_swa_uuid := sl_swa_uuid sl, kq_skip_ids := sl_skip_ids sl, kq_mamba := sl_mamba sl\<rparr>"

section \<open>Finding a slot\<close>

definition req_session :: "'c streaming \<Rightarrow> nat \<Rightarrow> nat option" where
  "req_session st r = sr_session (sreqs (ss_world st) ! r)"

definition is_streaming :: "'c streaming \<Rightarrow> nat \<Rightarrow> bool" where
  "is_streaming st r = (case req_session st r of None \<Rightarrow> False | Some i \<Rightarrow> streaming (ss_sessions st ! i))"

definition has_slot :: "string option \<Rightarrow> 'c streaming \<Rightarrow> bool" where
  "has_slot sid st \<longleftrightarrow> map_of (ss_slots st) sid \<noteq> None"

definition any_holding_kv :: "'c streaming \<Rightarrow> bool" where
  "any_holding_kv st \<longleftrightarrow> (\<exists>(_, sl) \<in> set (ss_slots st). is_holding_kv sl)"

definition try_inc_lock_ref :: "any_node \<Rightarrow> int option" where
  "try_inc_lock_ref n = (case n of VirtualNode \<Rightarrow> Some 0 | TreeNodeId _ \<Rightarrow> None)"

definition upd_ss_session :: "nat \<Rightarrow> (session \<Rightarrow> session) \<Rightarrow> 'c streaming \<Rightarrow> 'c streaming" where
  "upd_ss_session i f st = st\<lparr>ss_sessions := (ss_sessions st)[i := f (ss_sessions st ! i)]\<rparr>"

definition upd_kv :: "nat \<Rightarrow> (kvreq \<Rightarrow> kvreq) \<Rightarrow> 'c streaming \<Rightarrow> 'c streaming" where
  "upd_kv r f st = st\<lparr>ss_kv := (ss_kv st)[r := f (ss_kv st ! r)]\<rparr>"

text \<open>A pre-aborted request is detached from its session, which loses its inflight mark.\<close>

definition find_active_slot :: "nat \<Rightarrow> 'c streaming \<Rightarrow> (string option \<times> session_slot) option \<times> 'c streaming" where
  "find_active_slot r st =
     (case req_session st r of
        None \<Rightarrow> (None, st)
      | Some i \<Rightarrow>
          (if \<not> streaming (ss_sessions st ! i) then (None, st)
           else
             (let sid = session_id (ss_sessions st ! i) in
              case map_of (ss_slots st) sid of
                None \<Rightarrow> (None, st)
              | Some sl \<Rightarrow>
                  (if sl_kv sl = None then (None, st)
                   else if sr_to_finish (sreqs (ss_world st) ! r) \<noteq> None
                   then (None, (upd_ss_session i abort_req st)\<lparr>ss_world := upd_sreq r (\<lambda>q. q\<lparr>sr_session := None\<rparr>) (ss_world st)\<rparr>)
                   else (Some (sid, sl), st)))))"

section \<open>Freeing parts of a row\<close>

definition ceil_align :: "nat \<Rightarrow> nat \<Rightarrow> nat" where
  "ceil_align x y = pages_of y x * y"

definition free_row :: "nat option \<Rightarrow> nat \<Rightarrow> nat \<Rightarrow> 'c streaming \<Rightarrow> 'c streaming res" where
  "free_row pool_idx a b st =
     (case pool_idx of
        None \<Rightarrow> Inl TypeError
      | Some i \<Rightarrow> bind_res (row_slice (ss_rows st) i a b) (\<lambda>xs.
                  map_res (\<lambda>al. st\<lparr>ss_alloc := al\<rparr>) (al_free xs (ss_alloc st))))"

definition free_kv_aligned :: "nat option \<Rightarrow> nat \<Rightarrow> nat \<Rightarrow> 'c streaming \<Rightarrow> 'c streaming res" where
  "free_kv_aligned pool_idx target e st =
     (if e \<le> target then Inr st
      else
        (let start = (if ss_page_size st > 1 then ceil_align target (ss_page_size st) else target)
         in if start < e then free_row pool_idx start e st else Inr st))"

definition cut_kv :: "nat \<Rightarrow> kv_info \<Rightarrow> kv_info" where
  "cut_kv n k = \<lparr>kv_allocated_len = n, swa_evicted_seqlen = min (swa_evicted_seqlen k) n\<rparr>"

definition free_tail :: "string option \<Rightarrow> session_slot \<Rightarrow> nat \<Rightarrow> nat \<Rightarrow> 'c streaming \<Rightarrow> 'c streaming res" where
  "free_tail sid sl r prefix_len st =
     (case (sl_kv sl, kq_kv (ss_kv st ! r)) of
        (Some k, Some _) \<Rightarrow>
          bind_res (free_kv_aligned (sl_pool_idx sl) prefix_len (kv_allocated_len k) st) (\<lambda>st1.
            Inr (upd_kv r (\<lambda>q. q\<lparr>kq_kv := map_option (cut_kv prefix_len) (kq_kv q), kq_committed_len := min (kq_committed_len q) prefix_len\<rparr>)
                   (st1\<lparr>ss_slots := AList.update sid (sl\<lparr>sl_kv := Some (cut_kv prefix_len k),
                          sl_committed_len := min (sl_committed_len sl) prefix_len\<rparr>) (ss_slots st1)\<rparr>)))
      | _ \<Rightarrow> Inl AttributeError)"

section \<open>Matching\<close>

record session_match =
  sm_indices :: "nat list"
  sm_node :: any_node
  sm_protected_len :: nat

definition try_match_prefix :: "nat \<Rightarrow> nat \<Rightarrow> 'c streaming \<Rightarrow> (session_match option \<times> 'c streaming) res" where
  "try_match_prefix key_len r st0 =
     (case find_active_slot r st0 of
        (None, st) \<Rightarrow> Inr (None, st)
      | (Some (sid, sl), st) \<Rightarrow>
          (let st1 = upd_kv r (restore_to_req sl) st;
               prefix_len = min (kq_committed_len (ss_kv st1 ! r)) key_len
           in if prefix_len < sl_protected_len sl then Inl AssertionError
              else bind_res (free_tail sid sl r prefix_len st1) (\<lambda>st2.
                   case kq_pool_idx (ss_kv st2 ! r) of
                     None \<Rightarrow> Inl TypeError
                   | Some i \<Rightarrow>
                       map_res (\<lambda>xs. (Some \<lparr>sm_indices = xs, sm_node = VirtualNode, sm_protected_len = sl_protected_len sl\<rparr>, st2))
                         (row_slice (ss_rows st2) i 0 prefix_len))))"

section \<open>Releasing a session\<close>

definition free_slot_mamba :: "session_slot \<Rightarrow> 'c streaming \<Rightarrow> 'c streaming" where
  "free_slot_mamba sl st =
     (case ss_mamba_freed st of
        None \<Rightarrow> st
      | Some fr \<Rightarrow>
          st\<lparr>ss_mamba_freed := Some (fr @ (case mamba_pool_idx (sl_mamba sl) of None \<Rightarrow> [] | Some xs \<Rightarrow> xs) @
                                     (case mamba_ping_pong_track_buffer (sl_mamba sl) of None \<Rightarrow> [] | Some xs \<Rightarrow> xs))\<rparr>)"

definition release_session :: "(nat \<Rightarrow> 'c \<Rightarrow> 'c res) \<Rightarrow> string option \<Rightarrow> 'c streaming \<Rightarrow> 'c streaming res" where
  "release_session dec sid st0 =
     (case map_of (ss_slots st0) sid of
        None \<Rightarrow> Inr st0
      | Some sl \<Rightarrow>
          (let st = st0\<lparr>ss_slots := AList.delete sid (ss_slots st0)\<rparr> in
           bind_res (case sl_last_node sl of None \<Rightarrow> Inr st
                     | Some n \<Rightarrow> map_res (\<lambda>c. st\<lparr>ss_inner := c\<rparr>) (dec n (ss_inner st))) (\<lambda>st1.
           bind_res (case sl_kv sl of
                       None \<Rightarrow> Inr st1
                     | Some k \<Rightarrow>
                         bind_res (if sl_protected_len sl < kv_allocated_len k
                                   then free_row (sl_pool_idx sl) (sl_protected_len sl) (kv_allocated_len k) st1 else Inr st1) (\<lambda>st2.
                         case sl_pool_idx sl of
                           None \<Rightarrow> Inl TypeError
                         | Some i \<Rightarrow> Inr (st2\<lparr>ss_rows := (ss_rows st2)\<lparr>free_slots := free_slots (ss_rows st2) @ [i]\<rparr>\<rparr>))) (\<lambda>st3.
           Inr (free_slot_mamba sl st3)))))"

section \<open>Finishing a request\<close>

definition trim_overshoot :: "nat \<Rightarrow> nat \<Rightarrow> 'c streaming \<Rightarrow> 'c streaming res" where
  "trim_overshoot r finished_len st =
     (let q = ss_kv st ! r; s = sreqs (ss_world st) ! r; target = length (arr (ss_world st) (sr_origin s)) + finished_len in
      case kq_kv q of
        None \<Rightarrow> Inl AttributeError
      | Some k \<Rightarrow>
          bind_res (free_kv_aligned (kq_pool_idx q) target (kv_allocated_len k) st) (\<lambda>st1.
            Inr ((upd_kv r (\<lambda>q. q\<lparr>kq_kv := Some \<lparr>kv_allocated_len = min (kv_allocated_len k) target, swa_evicted_seqlen = min (swa_evicted_seqlen k) target\<rparr>,
                                  kq_committed_len := min (kq_committed_len q) target\<rparr>) st1)
                 \<lparr>ss_world := upd_sreq r (\<lambda>s. s\<lparr>sr_output := take finished_len (sr_output s)\<rparr>) (ss_world st1)\<rparr>)))"

text \<open>The slot of a first request that is aborted in the middle.\<close>

definition ephemeral_slot :: "kvreq \<Rightarrow> session_slot" where
  "ephemeral_slot q = new_slot\<lparr>sl_pool_idx := kq_pool_idx q, sl_kv := kq_kv q, sl_last_node := kq_last_node q,
     sl_protected_len := kq_protected_len q, sl_swa_uuid := kq_swa_uuid q, sl_skip_ids := kq_skip_ids q,
     sl_mamba := no_mamba\<lparr>mamba_pool_idx := mamba_pool_idx (kq_mamba q),
       mamba_ping_pong_track_buffer := mamba_ping_pong_track_buffer (kq_mamba q)\<rparr>\<rparr>"

definition drop_mamba :: "kvreq \<Rightarrow> kvreq" where
  "drop_mamba q = q\<lparr>kq_mamba := (kq_mamba q)\<lparr>mamba_pool_idx := None, mamba_ping_pong_track_buffer := None\<rparr>\<rparr>"

definition is_abort :: "finish_reason option \<Rightarrow> bool" where
  "is_abort f = (case f of Some (FINISH_ABORT _) \<Rightarrow> True | _ \<Rightarrow> False)"

definition finish_aborted :: "(nat \<Rightarrow> 'c \<Rightarrow> 'c res) \<Rightarrow> nat \<Rightarrow> nat \<Rightarrow> 'c streaming \<Rightarrow> 'c streaming res" where
  "finish_aborted dec r i st =
     (let sid = session_id (ss_sessions st ! i); q = ss_kv st ! r;
          (sl, st1) = (case map_of (ss_slots st) sid of
                         None \<Rightarrow> (ephemeral_slot q, upd_kv r drop_mamba (st\<lparr>ss_slots := AList.update sid (ephemeral_slot q) (ss_slots st)\<rparr>))
                       | Some sl \<Rightarrow> (sl, st))
      in case (sl_kv sl, kq_kv q) of
           (Some k, Some k') \<Rightarrow>
             (let sl' = sl\<lparr>sl_kv := Some (k\<lparr>kv_allocated_len := max (kv_allocated_len k) (kv_allocated_len k')\<rparr>)\<rparr> in
              bind_res (release_session dec sid (st1\<lparr>ss_slots := AList.update sid sl' (ss_slots st1)\<rparr>)) (\<lambda>st2.
                Inr (upd_ss_session i abort_req (upd_kv r (\<lambda>q. q\<lparr>kq_pool_idx := None, kq_kv := None\<rparr>) st2))))
         | _ \<Rightarrow> Inl AttributeError)"

definition finish_saved :: "nat \<Rightarrow> nat \<Rightarrow> 'c streaming \<Rightarrow> 'c streaming res" where
  "finish_saved r i st =
     (let sid = session_id (ss_sessions st ! i); s = sreqs (ss_world st) ! r;
          is_first = (map_of (ss_slots st) sid = None);
          sl = (case map_of (ss_slots st) sid of None \<Rightarrow> new_slot | Some sl \<Rightarrow> sl);
          finished_len = (case kq_finished_len (ss_kv st ! r) of None \<Rightarrow> length (sr_output s) | Some n \<Rightarrow> n);
          target = length (arr (ss_world st) (sr_origin s)) + finished_len
      in bind_res (trim_overshoot r finished_len st) (\<lambda>st1.
         let (sl1, q1) = save_from_req (ss_kv st1 ! r) is_first sl in
         case sl_kv sl1 of
           None \<Rightarrow> Inl AttributeError
         | Some k \<Rightarrow>
             (let sl2 = sl1\<lparr>sl_committed_len := min target (kv_allocated_len k)\<rparr>;
                  st2 = upd_kv r (\<lambda>_. q1) (st1\<lparr>ss_slots := AList.update sid sl2 (ss_slots st1)\<rparr>)
              in bind_res (finish_req r (ss_sessions st2 ! i) (ss_world st2)) (\<lambda>(s', w').
                 Inr ((upd_ss_session i (\<lambda>_. s') st2)\<lparr>ss_world := w'\<rparr>)))))"

definition try_cache_finished_req :: "(nat \<Rightarrow> 'c \<Rightarrow> 'c res) \<Rightarrow> nat \<Rightarrow> 'c streaming \<Rightarrow> (bool \<times> 'c streaming) res" where
  "try_cache_finished_req dec r st =
     (case req_session st r of
        None \<Rightarrow> Inr (False, st)
      | Some i \<Rightarrow>
          (if \<not> streaming (ss_sessions st ! i) then Inr (False, st)
           else map_res (Pair True)
             (if is_abort (sr_finished_reason (sreqs (ss_world st) ! r)) then finish_aborted dec r i st else finish_saved r i st)))"

definition try_cache_unfinished_req :: "bool \<Rightarrow> nat \<Rightarrow> 'c streaming \<Rightarrow> (bool \<times> 'c streaming) res" where
  "try_cache_unfinished_req chunked r st =
     (case req_session st r of
        None \<Rightarrow> Inr (False, st)
      | Some i \<Rightarrow>
          (if \<not> streaming (ss_sessions st ! i) then Inr (False, st)
           else if chunked then
             (case kq_pool_idx (ss_kv st ! r) of
                None \<Rightarrow> Inl TypeError
              | Some row \<Rightarrow> map_res (\<lambda>xs. (True, upd_kv r (\<lambda>q. q\<lparr>kq_prefix_indices := xs\<rparr>) st))
                  (row_slice (ss_rows st) row 0 (kq_extend_end (ss_kv st ! r))))
           else Inr (has_slot (session_id (ss_sessions st ! i)) st, st)))"

section \<open>The cache interface\<close>

definition ss_match_prefix ::
  "(nat \<Rightarrow> 'c streaming \<Rightarrow> ('m \<times> 'c streaming) res) \<Rightarrow> nat \<Rightarrow> nat \<Rightarrow> 'c streaming \<Rightarrow> ((session_match + 'm) \<times> 'c streaming) res" where
  "ss_match_prefix inner key_len r st =
     bind_res (try_match_prefix key_len r st) (\<lambda>(res, st1).
       case res of Some m \<Rightarrow> Inr (Inl m, st1) | None \<Rightarrow> map_res (map_prod Inr id) (inner r st1))"

definition ss_cache_finished_req ::
  "(nat \<Rightarrow> 'c \<Rightarrow> 'c res) \<Rightarrow> (nat \<Rightarrow> 'c streaming \<Rightarrow> 'c streaming res) \<Rightarrow> nat \<Rightarrow> 'c streaming \<Rightarrow> 'c streaming res" where
  "ss_cache_finished_req dec inner r st =
     bind_res (try_cache_finished_req dec r st) (\<lambda>(handled, st1). if handled then Inr st1 else inner r st1)"

definition ss_cache_unfinished_req ::
  "(nat \<Rightarrow> 'c streaming \<Rightarrow> 'c streaming res) \<Rightarrow> bool \<Rightarrow> nat \<Rightarrow> 'c streaming \<Rightarrow> 'c streaming res" where
  "ss_cache_unfinished_req inner chunked r st =
     bind_res (try_cache_unfinished_req chunked r st) (\<lambda>(handled, st1). if handled then Inr st1 else inner r st1)"

definition ss_reset :: "('c \<Rightarrow> 'c) \<Rightarrow> 'c streaming \<Rightarrow> 'c streaming" where
  "ss_reset inner_reset st = st\<lparr>ss_slots := [], ss_inner := inner_reset (ss_inner st)\<rparr>"

section \<open>Accounting\<close>

definition in_batch :: "nat set option \<Rightarrow> session_slot \<Rightarrow> bool" where
  "in_batch active sl = (case active of None \<Rightarrow> False | Some A \<Rightarrow> (case sl_pool_idx sl of None \<Rightarrow> False | Some i \<Rightarrow> i \<in> A))"

definition slot_held_tokens :: "nat \<Rightarrow> session_slot \<Rightarrow> int" where
  "slot_held_tokens p sl = (case sl_kv sl of None \<Rightarrow> 0
     | Some k \<Rightarrow> int (ceil_align (kv_allocated_len k) p) - int (sl_protected_len sl))"

definition session_held_tokens :: "nat set option \<Rightarrow> 'c streaming \<Rightarrow> int" where
  "session_held_tokens active st =
     (\<Sum>(_, sl)\<leftarrow>ss_slots st. if is_holding_kv sl \<and> \<not> in_batch active sl then slot_held_tokens (ss_page_size st) sl else 0)"

definition session_held_swa_tokens :: "nat set option \<Rightarrow> 'c streaming \<Rightarrow> int" where
  "session_held_swa_tokens active st =
     (\<Sum>(_, sl)\<leftarrow>ss_slots st. case sl_kv sl of None \<Rightarrow> 0
       | Some k \<Rightarrow> if in_batch active sl then 0
           else int (ceil_align (kv_allocated_len k) (ss_page_size st)) - int (max (sl_protected_len sl) (swa_evicted_seqlen k)))"

definition session_held_req_count :: "nat set option \<Rightarrow> 'c streaming \<Rightarrow> nat" where
  "session_held_req_count active st = (\<Sum>(_, sl)\<leftarrow>ss_slots st. if is_holding_kv sl \<and> \<not> in_batch active sl then 1 else 0)"

definition session_held_mamba_slots :: "nat set option \<Rightarrow> 'c streaming \<Rightarrow> nat" where
  "session_held_mamba_slots active st =
     (\<Sum>(_, sl)\<leftarrow>ss_slots st. if in_batch active sl then 0
       else (case mamba_pool_idx (sl_mamba sl) of None \<Rightarrow> 0 | Some xs \<Rightarrow> length xs) +
            (case mamba_ping_pong_track_buffer (sl_mamba sl) of None \<Rightarrow> 0 | Some xs \<Rightarrow> length xs))"

end
