(* ===== verification/SessionTurns.thy ===== *)
theory SessionTurns
  imports Session "HOL-Library.Sublist"
begin

text \<open>
  The turns of a streaming session. The new turn extends the arrays of the previous request in
  place; a turn that is aborted leaves its tokens there, and the next turn trims them away. The
  specification is a conversation: the tokens of the finished turns and the turn in progress.
  The session refines it under every sequence of submitted, rejected, finished and aborted turns
  in which none is submitted after a rejected turn was discarded beside the running one: the
  discarded turn takes the inflight mark with it.
\<close>

section \<open>The store\<close>

lemma arr_set_arr [simp]: "a < length (arrays w) \<Longrightarrow> arr (set_arr a xs w) b = (if a = b then xs else arr w b)"
  by (simp add: arr_def set_arr_def nth_list_update)

lemma set_arr_sel [simp]: "length (arrays (set_arr a xs w)) = length (arrays w)"
  "sreqs (set_arr a xs w) = sreqs w" "nodes (set_arr a xs w) = nodes w" "node_req (set_arr a xs w) n = node_req w n"
  by (simp_all add: set_arr_def node_req_def)

lemma upd_sreq_sel [simp]: "arrays (upd_sreq r f w) = arrays w" "nodes (upd_sreq r f w) = nodes w"
  "length (sreqs (upd_sreq r f w)) = length (sreqs w)" "arr (upd_sreq r f w) a = arr w a"
  "sreqs (upd_sreq r f w) ! i = (if i = r \<and> r < length (sreqs w) then f (sreqs w ! r) else sreqs w ! i)"
  by (auto simp: upd_sreq_def arr_def nth_list_update list_update_beyond)

text \<open>A step that only appends to arrays and creates objects.\<close>

definition grows :: "world \<Rightarrow> world \<Rightarrow> bool" where
  "grows w w' \<longleftrightarrow> length (arrays w) \<le> length (arrays w') \<and> (\<forall>a < length (arrays w). prefix (arr w a) (arr w' a))"

lemma grows_refl [simp]: "grows w w"
  by (simp add: grows_def)

lemma grows_trans: "grows w w' \<Longrightarrow> grows w' w'' \<Longrightarrow> grows w w''"
  unfolding grows_def by (meson order_trans less_le_trans prefix_order.trans)

lemma new_arr_sel:
  assumes "new_arr xs w = (a, w')"
  shows "a = length (arrays w)" "length (arrays w') = Suc (length (arrays w))" "arr w' a = xs" "sreqs w' = sreqs w"
    "nodes w' = nodes w" "node_req w' n = node_req w n" "b < length (arrays w) \<Longrightarrow> arr w' b = arr w b" "grows w w'"
  using assms by (auto simp: new_arr_def arr_def nth_append node_req_def grows_def)

lemma take_prefix_same: "prefix xs ys \<Longrightarrow> n \<le> length xs \<Longrightarrow> take n ys = take n xs"
  by (auto simp: prefix_def)

lemma prefix_out_tail: "prefix (out_tail q) (sr_output q)"
  by (simp add: out_tail_def upto_def take_is_prefix)

section \<open>The invariant\<close>

definition addr_ok :: "sreq \<Rightarrow> world \<Rightarrow> bool" where
  "addr_ok q w \<longleftrightarrow> sr_origin q < length (arrays w) \<and> sr_unpadded q < length (arrays w) \<and> sr_fill q < length (arrays w) \<and>
     sr_fill q \<noteq> sr_origin q \<and> sr_fill q \<noteq> sr_unpadded q"

text \<open>The request of the last finished turn: the committed lengths are within the arrays, and
  the committed part of \<open>fill_ids\<close> holds tokens of that turn.\<close>

definition last_ok :: "session \<Rightarrow> world \<Rightarrow> sreq \<Rightarrow> bool" where
  "last_ok s w q \<longleftrightarrow> addr_ok q w \<and>
     (\<exists>co cu cf. committed_origin_len s = Some co \<and> committed_unpadded_len s = Some cu \<and> committed_fill_len s = Some cf \<and>
        co \<le> length (arr w (sr_origin q)) \<and> cu \<le> length (arr w (sr_unpadded q)) \<and> cf \<le> length (arr w (sr_fill q)) \<and>
        prefix (take cf (arr w (sr_fill q))) (take co (arr w (sr_origin q)) @ sr_output q) \<and>
        (sr_unpadded q = sr_origin q \<longrightarrow> cu = co))"

definition active_ok :: "nat \<Rightarrow> world \<Rightarrow> bool" where
  "active_ok r w \<longleftrightarrow> r < length (sreqs w) \<and> addr_ok (sreqs w ! r) w \<and>
     prefix (arr w (sr_fill (sreqs w ! r))) (arr w (sr_origin (sreqs w ! r)) @ sr_output (sreqs w ! r))"

definition hist_ok :: "session \<Rightarrow> world \<Rightarrow> bool" where
  "hist_ok s w \<longleftrightarrow> streaming s \<and>
     (case req_nodes s of
        [] \<Rightarrow> committed_origin_len s = None
      | [(_, n)] \<Rightarrow> n < length (nodes w) \<and> nd_req (nodes w ! n) < length (sreqs w) \<and> last_ok s w (node_req w n)
      | _ \<Rightarrow> False)"

definition last_req :: "session \<Rightarrow> world \<Rightarrow> nat option" where
  "last_req s w = (case req_nodes s of [] \<Rightarrow> None | (_, n) # _ \<Rightarrow> Some (nd_req (nodes w ! n)))"

definition stream_ok :: "session \<Rightarrow> world \<Rightarrow> nat option \<Rightarrow> bool" where
  "stream_ok s w act \<longleftrightarrow> hist_ok s w \<and>
     (case act of None \<Rightarrow> \<not> inflight s | Some r \<Rightarrow> active_ok r w \<and> last_req s w \<noteq> Some r)"

text \<open>The tokens of the finished turns, which the next turn continues.\<close>

definition committed :: "session \<Rightarrow> world \<Rightarrow> int list option" where
  "committed s w = (case req_nodes s of [] \<Rightarrow> None
     | (_, n) # _ \<Rightarrow> Some (del_from (committed_origin_len s) (arr w (sr_origin (node_req w n))) @ out_tail (node_req w n)))"

lemma hist_cases:
  assumes "hist_ok s w"
  obtains "req_nodes s = []" "committed_origin_len s = None"
  | k n where "req_nodes s = [(k, n)]" "n < length (nodes w)" "nd_req (nodes w ! n) < length (sreqs w)" "last_ok s w (node_req w n)"
proof (cases "req_nodes s")
  case (Cons p rest)
  obtain k n where "p = (k, n)" by (rule prod.exhaust)
  then show thesis using assms Cons that(2) [of k n] by (cases rest) (auto simp: hist_ok_def)
qed (use assms that(1) in \<open>simp add: hist_ok_def\<close>)

lemma hist_last: "hist_ok s w \<Longrightarrow> last_req s w = Some r \<Longrightarrow> r < length (sreqs w)"
  by (erule hist_cases) (auto simp: last_req_def)

lemma last_ok_grows: "last_ok s w q \<Longrightarrow> grows w w' \<Longrightarrow> last_ok s w' q"
proof -
  assume l: "last_ok s w q" and g: "grows w w'"
  then obtain co cu cf where c: "committed_origin_len s = Some co" "committed_unpadded_len s = Some cu" "committed_fill_len s = Some cf"
    "co \<le> length (arr w (sr_origin q))" "cu \<le> length (arr w (sr_unpadded q))" "cf \<le> length (arr w (sr_fill q))"
    "prefix (take cf (arr w (sr_fill q))) (take co (arr w (sr_origin q)) @ sr_output q)" "sr_unpadded q = sr_origin q \<longrightarrow> cu = co" and a: "addr_ok q w"
    unfolding last_ok_def by blast
  have p: "prefix (arr w (sr_origin q)) (arr w' (sr_origin q))" "prefix (arr w (sr_unpadded q)) (arr w' (sr_unpadded q))"
    "prefix (arr w (sr_fill q)) (arr w' (sr_fill q))" using a g by (simp_all add: addr_ok_def grows_def)
  have "addr_ok q w'" using a g by (auto simp: addr_ok_def grows_def)
  moreover have "take cf (arr w' (sr_fill q)) = take cf (arr w (sr_fill q))" "take co (arr w' (sr_origin q)) = take co (arr w (sr_origin q))"
    using take_prefix_same p c(4-6) by blast+
  moreover have "co \<le> length (arr w' (sr_origin q))" "cu \<le> length (arr w' (sr_unpadded q))" "cf \<le> length (arr w' (sr_fill q))"
    using c(4-6) p [THEN prefix_length_le] by linarith+
  ultimately show ?thesis unfolding last_ok_def using c(1-3,7,8) by simp
qed

lemma hist_grows:
  assumes h: "hist_ok s w" and g: "grows w w'" and n: "\<And>n. n < length (nodes w) \<Longrightarrow> nd_req (nodes w' ! n) = nd_req (nodes w ! n)"
    and len: "length (nodes w) \<le> length (nodes w')" "length (sreqs w) \<le> length (sreqs w')"
    and same: "\<And>r. last_req s w = Some r \<Longrightarrow> sreqs w' ! r = sreqs w ! r"
  shows "hist_ok s w'" "committed s w' = committed s w" "last_req s w' = last_req s w"
proof -
  have "hist_ok s w' \<and> committed s w' = committed s w \<and> last_req s w' = last_req s w"
  proof (cases "req_nodes s")
    case Nil
    then show ?thesis using h by (auto simp: hist_ok_def committed_def last_req_def)
  next
    case (Cons p rest)
    obtain k i where kn: "req_nodes s = [(k, i)]"
      using h Cons by (cases p, cases rest) (auto simp: hist_ok_def)
    have i: "i < length (nodes w)" "nd_req (nodes w ! i) < length (sreqs w)" "last_ok s w (node_req w i)"
      using h kn by (auto simp: hist_ok_def)
    have e: "node_req w' i = node_req w i" "nd_req (nodes w' ! i) = nd_req (nodes w ! i)"
      using same [of "nd_req (nodes w ! i)"] n [OF i(1)] kn by (auto simp: last_req_def node_req_def)
    have "hist_ok s w'" using h kn i e len last_ok_grows [OF i(3) g] by (simp add: hist_ok_def)
    obtain co where co: "committed_origin_len s = Some co" "co \<le> length (arr w (sr_origin (node_req w i)))"
      "sr_origin (node_req w i) < length (arrays w)" using i(3) by (auto simp: last_ok_def addr_ok_def)
    then have "take co (arr w' (sr_origin (node_req w i))) = take co (arr w (sr_origin (node_req w i)))"
      using g by (intro take_prefix_same) (simp_all add: grows_def)
    then have "committed s w' = committed s w" using kn e co by (simp add: committed_def del_from_def)
    moreover have "last_req s w' = last_req s w" using kn e by (simp add: last_req_def)
    ultimately show ?thesis using \<open>hist_ok s w'\<close> by blast
  qed
  then show "hist_ok s w'" "committed s w' = committed s w" "last_req s w' = last_req s w" by blast+
qed

section \<open>Sharing the arrays of the previous turn\<close>

lemma share_fill_spec:
  assumes "addr_ok q w" "sr_fill q \<noteq> ua" "length (arr w (sr_origin q)) = co" "cf \<le> length (arr w (sr_fill q))"
    "prefix (take cf (arr w (sr_fill q))) (arr w (sr_origin q) @ sr_output q)"
    "share_fill (Some cf) (sr_origin q) ua q new w = (carry, w')"
  shows "length (arrays w') = length (arrays w)" "sreqs w' = sreqs w" "nodes w' = nodes w"
    "b \<noteq> sr_fill q \<Longrightarrow> arr w' b = arr w b" "prefix (take cf (arr w (sr_fill q))) (arr w' (sr_fill q))"
    "carry = None \<or> carry = Some (sr_fill q) \<and> arr w' (sr_fill q) = arr w (sr_origin q) @ out_tail q @ new"
proof -
  let ?fa = "sr_fill q" and ?o = "arr w (sr_origin q)" and ?f = "take cf (arr w (sr_fill q))"
  let ?k = "cf - co"
  have a: "?fa < length (arrays w)" "?fa \<noteq> sr_origin q" using assms(1) by (auto simp: addr_ok_def)
  have lf: "length ?f = cf" using assms(4) by simp
  note sf = share_fill_def [of "Some cf" "sr_origin q" ua q new w, unfolded Let_def del_from_def option.case]
  have body: "?f @ drop ?k (out_tail q) = ?o @ out_tail q" if k: "co \<le> cf" "?k \<le> length (out_tail q)"
  proof -
    have "prefix ?f (?o @ sr_output q)" using assms(5) by simp
    then have "take cf (?o @ sr_output q) = take cf ?f" by (rule take_prefix_same) (simp only: lf)
    then have "?f = ?o @ take ?k (sr_output q)" using k assms(3) by simp
    moreover have "take ?k (sr_output q) = take ?k (out_tail q)"
      using prefix_out_tail [of q] k(2) by (rule take_prefix_same)
    ultimately have "?f @ drop ?k (out_tail q) = ?o @ (take ?k (out_tail q) @ drop ?k (out_tail q))" by simp
    then show ?thesis by simp
  qed
  have r: "(carry, w') = (if 0 \<le> int cf - int co \<and> int cf - int co \<le> int (length (out_tail q))
      then (Some ?fa, set_arr ?fa (?f @ drop (nat (int cf - int co)) (out_tail q) @ new) (set_arr ?fa ?f w))
      else (None, set_arr ?fa ?f w))"
    using sf assms(2,3,4,6) a by simp
  have nat: "nat (int cf - int co) = ?k" by simp
  show "length (arrays w') = length (arrays w)" "sreqs w' = sreqs w" "nodes w' = nodes w"
    "b \<noteq> ?fa \<Longrightarrow> arr w' b = arr w b" "prefix ?f (arr w' ?fa)"
    using r a by (auto split: if_splits)
  show "carry = None \<or> carry = Some ?fa \<and> arr w' ?fa = ?o @ out_tail q @ new"
  proof (cases "0 \<le> int cf - int co \<and> int cf - int co \<le> int (length (out_tail q))")
    case True
    then have "co \<le> cf" "?k \<le> length (out_tail q)" by auto
    then have "?f @ drop ?k (out_tail q) @ new = ?o @ out_tail q @ new" using body by simp
    then show ?thesis using r True a unfolding nat by simp
  qed (use r in auto)
qed

lemma share_spec:
  assumes l: "last_ok s w q" and sh: "share_token_arrays s q new w = (ia, ua, carry, w')"
  defines "h \<equiv> del_from (committed_origin_len s) (arr w (sr_origin q)) @ out_tail q"
  shows "ia = sr_origin q" "ua = sr_unpadded q" "length (arrays w') = length (arrays w)" "sreqs w' = sreqs w" "nodes w' = nodes w"
    "arr w' ia = h @ new" "carry = None \<or> carry = Some (sr_fill q) \<and> arr w' (sr_fill q) = h @ new"
    "last_ok s w' q" "del_from (committed_origin_len s) (arr w' (sr_origin q)) = del_from (committed_origin_len s) (arr w (sr_origin q))"
proof -
  obtain co cu cf where c: "committed_origin_len s = Some co" "committed_unpadded_len s = Some cu" "committed_fill_len s = Some cf"
    "co \<le> length (arr w (sr_origin q))" "cu \<le> length (arr w (sr_unpadded q))" "cf \<le> length (arr w (sr_fill q))"
    "prefix (take cf (arr w (sr_fill q))) (take co (arr w (sr_origin q)) @ sr_output q)" "sr_unpadded q = sr_origin q \<longrightarrow> cu = co" and a: "addr_ok q w"
    using l unfolding last_ok_def by blast
  let ?o = "sr_origin q" and ?u = "sr_unpadded q" and ?f = "sr_fill q"
  have ad: "?o < length (arrays w)" "?u < length (arrays w)" "?f < length (arrays w)" "?f \<noteq> ?o" "?f \<noteq> ?u"
    using a by (auto simp: addr_ok_def)
  define w2 where "w2 = (if ?u = ?o then set_arr ?o (take co (arr w ?o)) w
      else set_arr ?u (take cu (arr (set_arr ?o (take co (arr w ?o)) w) ?u)) (set_arr ?o (take co (arr w ?o)) w))"
  have w2: "length (arrays w2) = length (arrays w)" "sreqs w2 = sreqs w" "nodes w2 = nodes w" "arr w2 ?o = take co (arr w ?o)"
    "arr w2 ?f = arr w ?f" "?u \<noteq> ?o \<Longrightarrow> arr w2 ?u = take cu (arr w ?u)" using ad by (auto simp: w2_def)
  obtain w3 where sf: "share_fill (Some cf) ?o ?u q new w2 = (carry, w3)"
    and sh': "ia = ?o" "ua = ?u" "w' = (let w4 = set_arr ?o (arr w3 ?o @ out_tail q @ new) w3 in
      if ?u = ?o then w4 else set_arr ?u (arr w4 ?u @ out_tail q @ new) w4)"
    using sh c(1-3) unfolding share_token_arrays_def w2_def
    by (cases "?u = ?o") (auto simp: Let_def del_from_def split: prod.splits)
  have "addr_ok q w2" using a w2 by (simp add: addr_ok_def)
  note S = share_fill_spec [OF this ad(5) _ _ _ sf, of co] 
  have S': "length (arrays w3) = length (arrays w2)" "sreqs w3 = sreqs w2" "nodes w3 = nodes w2"
    "\<And>b. b \<noteq> ?f \<Longrightarrow> arr w3 b = arr w2 b" "prefix (take cf (arr w2 ?f)) (arr w3 ?f)"
    "carry = None \<or> carry = Some ?f \<and> arr w3 ?f = arr w2 ?o @ out_tail q @ new"
    using S w2 c by auto
  have res: "arr w' ?o = take co (arr w ?o) @ out_tail q @ new" "?u \<noteq> ?o \<Longrightarrow> arr w' ?u = take cu (arr w ?u) @ out_tail q @ new"
    "arr w' ?f = arr w3 ?f"
    using S' w2 ad sh'(3) by (auto simp: Let_def)
  show "ia = ?o" "ua = ?u" using sh' by simp_all
  show len: "length (arrays w') = length (arrays w)" and "sreqs w' = sreqs w" "nodes w' = nodes w"
    using S' w2 sh'(3) by (auto simp: Let_def)
  show "arr w' ia = h @ new" using res sh' c by (simp add: h_def del_from_def)
  show "carry = None \<or> carry = Some ?f \<and> arr w' ?f = h @ new" using S'(6) res(3) w2(4) c by (auto simp: h_def del_from_def)
  show d: "del_from (committed_origin_len s) (arr w' ?o) = del_from (committed_origin_len s) (arr w ?o)"
    using res c by (simp add: del_from_def)
  have "take cf (arr w' ?f) = take cf (arr w ?f)"
    using take_prefix_same [OF S'(5), of cf] c(6) w2(5) res(3) by simp
  moreover have "cf \<le> length (arr w' ?f)" using prefix_length_le [OF S'(5)] c(6) w2(5) res(3) by simp
  moreover have "cu \<le> length (arr w' ?u) \<or> ?u = ?o" using res(2) c(5) by auto
  ultimately show "last_ok s w' q"
    using c res(1) a len unfolding last_ok_def addr_ok_def by (auto simp: del_from_def)
qed

section \<open>Events of a session\<close>

text \<open>A turn is submitted, its request emits tokens and refreshes its \<open>fill_ids\<close>, and it finishes
  or is aborted. Every submitted request arrives with its own token array. A rejected request
  \<open>r\<close> is scheduled like any other and discarded later: when the slot of the session holds KV
  (\<open>held\<close>), the lookup of the slot detaches the request (\<open>find_active_slot\<close>), otherwise the request
  finishes with its abort reason (\<open>try_cache_finished_req\<close>); both call \<open>abort_req\<close> of the session.\<close>

datatype turn_event =
    Submit int string "int list" "int option" session_params
  | Emit int
  | Refresh
  | FinishTurn
  | AbortTurn
  | Discard nat bool

record turn_state =
  ts_session :: session
  ts_world :: world
  ts_active :: "nat option"

definition turn_input :: "string \<Rightarrow> nat \<Rightarrow> int option \<Rightarrow> session_params \<Rightarrow> gen_input" where
  "turn_input rid a m sp = \<lparr>gi_rid = rid, gi_input_ids = a, gi_max_new_tokens = m, gi_mm_items = None, gi_session_params = Some sp\<rparr>"

fun turn_step :: "int option \<Rightarrow> nat \<Rightarrow> turn_event \<Rightarrow> turn_state \<Rightarrow> turn_state res" where
  "turn_step bos sid (Submit now rid ids m sp) st =
     (let (a, w) = new_arr ids (ts_world st) in
      bind_res (create_req now bos sid (turn_input rid a m sp) (ts_session st) w) (\<lambda>(r, s', w').
        Inr \<lparr>ts_session = s', ts_world = w',
             ts_active = (if sr_to_finish (sreqs w' ! r) = None then Some r else ts_active st)\<rparr>))"
| "turn_step bos sid (Discard r held) st =
     (let w = ts_world st; q = sreqs w ! r in
      if r < length (sreqs w) \<and> sr_session q = Some sid \<and> sr_to_finish q \<noteq> None \<and> sr_finished_reason q = None
      then Inr (st\<lparr>ts_session := abort_req (ts_session st),
                   ts_world := upd_sreq r (if held then (\<lambda>q. q\<lparr>sr_session := None\<rparr>)
                                           else (\<lambda>q. q\<lparr>sr_finished_reason := sr_to_finish q\<rparr>)) w\<rparr>)
      else Inr st)"
| "turn_step bos sid e st =
     (case ts_active st of
        None \<Rightarrow> Inr st
      | Some r \<Rightarrow>
          (case e of
             Emit t \<Rightarrow> Inr (st\<lparr>ts_world := upd_sreq r (\<lambda>q. q\<lparr>sr_output := sr_output q @ [t]\<rparr>) (ts_world st)\<rparr>)
           | Refresh \<Rightarrow> Inr (st\<lparr>ts_world := refresh_fill_ids r (ts_world st)\<rparr>)
           | FinishTurn \<Rightarrow>
               bind_res (finish_req r (ts_session st)
                  (upd_sreq r (\<lambda>q. q\<lparr>sr_finished_reason := Some FINISH_OTHER\<rparr>) (ts_world st)))
                 (\<lambda>(s', w'). Inr \<lparr>ts_session = s', ts_world = w', ts_active = None\<rparr>)
           | _ \<Rightarrow> Inr (st\<lparr>ts_session := abort_req (ts_session st), ts_active := None\<rparr>)))"

text \<open>The specification: the tokens of the finished turns, and the tokens, output and output limit
  of the turn in progress.\<close>

record conversation =
  cv_hist :: "int list option"
  cv_cur :: "(int list \<times> int list \<times> int option) option"

definition strip_bos :: "int option \<Rightarrow> int list \<Rightarrow> int list" where
  "strip_bos bos ids = (case (bos, ids) of (Some b, t # ts) \<Rightarrow> if t = b then ts else ids | _ \<Rightarrow> ids)"

definition plain_append :: "session_params \<Rightarrow> bool" where
  "plain_append sp \<longleftrightarrow> \<not> truthy (sp_replace sp) \<and> \<not> truthy (sp_drop_previous_output sp) \<and> \<not> has_offset sp"

fun conv_step :: "int option \<Rightarrow> turn_event \<Rightarrow> conversation \<Rightarrow> conversation" where
  "conv_step bos (Submit now rid ids m sp) c =
     (if cv_cur c \<noteq> None \<or> \<not> plain_append sp then c
      else c\<lparr>cv_cur := Some (case cv_hist c of None \<Rightarrow> ids | Some h \<Rightarrow> h @ strip_bos bos ids, [], m)\<rparr>)"
| "conv_step bos (Emit t) c = c\<lparr>cv_cur := map_option (\<lambda>(o1, out, m). (o1, out @ [t], m)) (cv_cur c)\<rparr>"
| "conv_step bos Refresh c = c"
| "conv_step bos FinishTurn c =
     (case cv_cur c of None \<Rightarrow> c | Some (o1, out, m) \<Rightarrow> c\<lparr>cv_hist := Some (o1 @ upto m out), cv_cur := None\<rparr>)"
| "conv_step bos AbortTurn c = c\<lparr>cv_cur := None\<rparr>"
| "conv_step bos (Discard r held) c = c"

text \<open>Whether a turn is in progress, and whether a rejected turn has been discarded beside it. No
  turn may be submitted in the last case.\<close>

datatype turn_status = Idle | Guarded | Exposed

fun next_status :: "turn_event \<Rightarrow> turn_status \<Rightarrow> turn_status" where
  "next_status (Submit now rid ids m sp) p = (if p = Idle \<and> plain_append sp then Guarded else p)"
| "next_status (Discard r held) p = (if p = Guarded then Exposed else p)"
| "next_status FinishTurn p = Idle"
| "next_status AbortTurn p = Idle"
| "next_status e p = p"

fun submits :: "turn_event \<Rightarrow> bool" where
  "submits (Submit now rid ids m sp) = True"
| "submits e = False"

fun well_timed :: "turn_status \<Rightarrow> turn_event list \<Rightarrow> bool" where
  "well_timed p [] = True"
| "well_timed p (e # es) = (\<not> (submits e \<and> p = Exposed) \<and> well_timed (next_status e p) es)"

definition conversation_of :: "turn_state \<Rightarrow> conversation" where
  "conversation_of st =
     \<lparr>cv_hist = committed (ts_session st) (ts_world st),
      cv_cur = map_option (\<lambda>r. let q = sreqs (ts_world st) ! r in
        (arr (ts_world st) (sr_origin q), sr_output q, sr_max_new_tokens q)) (ts_active st)\<rparr>"

definition turn_inv :: "turn_state \<Rightarrow> bool" where
  "turn_inv st = stream_ok (ts_session st) (ts_world st) (ts_active st)"

definition turn_ok :: "turn_state \<Rightarrow> bool" where
  "turn_ok st \<longleftrightarrow> turn_inv st \<and> (ts_active st \<noteq> None \<longrightarrow> inflight (ts_session st))"

text \<open>The invariant of a run: a guarded turn is marked as in flight.\<close>

definition turn_at :: "turn_status \<Rightarrow> turn_state \<Rightarrow> bool" where
  "turn_at p st \<longleftrightarrow> turn_inv st \<and> (p = Idle \<longleftrightarrow> ts_active st = None) \<and> (p = Guarded \<longrightarrow> inflight (ts_session st))"

section \<open>Steps of the turn in progress\<close>

lemma active_addr:
  assumes "active_ok r w"
  shows "sr_origin (sreqs w ! r) < length (arrays w)" "sr_fill (sreqs w ! r) < length (arrays w)"
    "sr_fill (sreqs w ! r) \<noteq> sr_origin (sreqs w ! r)" "r < length (sreqs w)"
  using assms by (auto simp: active_ok_def addr_ok_def)

text \<open>A refresh makes \<open>fill_ids\<close> the origin tokens followed by the output.\<close>

lemma refresh_spec:
  assumes ok: "active_ok r w"
  defines "q \<equiv> sreqs w ! r" and "w' \<equiv> refresh_fill_ids r w" and "q' \<equiv> sreqs (refresh_fill_ids r w) ! r"
  shows "grows w w'" "nodes w' = nodes w" "length (sreqs w') = length (sreqs w)" "\<And>i. i \<noteq> r \<Longrightarrow> sreqs w' ! i = sreqs w ! i"
    "active_ok r w'" "sr_origin q' = sr_origin q" "sr_output q' = sr_output q" "sr_max_new_tokens q' = sr_max_new_tokens q"
    "arr w' (sr_origin q) = arr w (sr_origin q)" "arr w' (sr_fill q') = arr w' (sr_origin q') @ sr_output q'"
proof -
  let ?f = "arr w (sr_fill q)" and ?o = "arr w (sr_origin q)"
  let ?n = "int (length ?f) - int (length ?o)"
  have pf: "prefix ?f (?o @ sr_output q)" and a: "addr_ok q w" and r: "r < length (sreqs w)"
    using ok by (auto simp: active_ok_def q_def)
  have ad: "sr_origin q < length (arrays w)" "sr_unpadded q < length (arrays w)" "sr_fill q < length (arrays w)"
    "sr_fill q \<noteq> sr_origin q" "sr_fill q \<noteq> sr_unpadded q" using a by (auto simp: addr_ok_def)
  have "grows w w' \<and> nodes w' = nodes w \<and> length (sreqs w') = length (sreqs w) \<and> (\<forall>i. i \<noteq> r \<longrightarrow> sreqs w' ! i = sreqs w ! i) \<and>
    sr_origin q' = sr_origin q \<and> sr_unpadded q' = sr_unpadded q \<and> sr_output q' = sr_output q \<and> sr_max_new_tokens q' = sr_max_new_tokens q \<and>
    arr w' (sr_origin q) = ?o \<and> arr w' (sr_fill q') = ?o @ sr_output q \<and> addr_ok q' w'"
  proof (cases "0 \<le> ?n \<and> ?n \<le> int (length (sr_output q))")
    case True
    then have e: "w' = set_arr (sr_fill q) (?f @ drop (nat ?n) (sr_output q)) w" "q' = q"
      using ad(4) by (simp_all add: w'_def q'_def q_def refresh_fill_ids_def Let_def)
    have k: "nat ?n = length ?f - length ?o" by simp
    have le: "length ?o \<le> length ?f" "length ?f - length ?o \<le> length (sr_output q)" using True by linarith+
    obtain zs where zs: "?o @ sr_output q = ?f @ zs" using pf by (auto simp: prefix_def)
    have "drop (length ?f) (?o @ sr_output q) = zs" using zs by simp
    then have "drop (length ?f - length ?o) (sr_output q) = zs" using le by simp
    then have "?f @ drop (nat ?n) (sr_output q) = ?o @ sr_output q" using zs k by simp
    then show ?thesis using e ad a pf by (auto simp: grows_def addr_ok_def)
  next
    case False
    obtain b w1 where n: "new_arr (?o @ sr_output q) w = (b, w1)" by (rule prod.exhaust)
    note N = new_arr_sel [OF n]
    have e: "w' = upd_sreq r (\<lambda>q. q\<lparr>sr_fill := b\<rparr>) w1"
      using False ad(4) n unfolding w'_def refresh_fill_ids_def q_def Let_def by auto
    then have q': "q' = q\<lparr>sr_fill := b\<rparr>" using r N(4) by (simp add: q'_def w'_def [symmetric] q_def)
    have "grows w w'" using N(8) e by (simp add: grows_def)
    then show ?thesis using e q' N ad r by (auto simp: addr_ok_def)
  qed
  then show "grows w w'" "nodes w' = nodes w" "length (sreqs w') = length (sreqs w)" "\<And>i. i \<noteq> r \<Longrightarrow> sreqs w' ! i = sreqs w ! i"
    "active_ok r w'" "sr_origin q' = sr_origin q" "sr_output q' = sr_output q" "sr_max_new_tokens q' = sr_max_new_tokens q"
    "arr w' (sr_origin q) = arr w (sr_origin q)" "arr w' (sr_fill q') = arr w' (sr_origin q') @ sr_output q'"
    using r by (auto simp: active_ok_def q'_def w'_def)
qed

text \<open>Steps that touch only the active request and append to arrays keep the finished turns.\<close>

lemma stream_ok_step:
  assumes ok: "stream_ok s w (Some r)" and w': "grows w w'" "nodes w' = nodes w" "length (sreqs w') = length (sreqs w)"
    "\<And>i. i \<noteq> r \<Longrightarrow> sreqs w' ! i = sreqs w ! i" and act: "active_ok r w'"
  shows "stream_ok s w' (Some r)" "committed s w' = committed s w"
proof -
  have h: "hist_ok s w" "last_req s w \<noteq> Some r" using ok by (auto simp: stream_ok_def)
  have same: "sreqs w' ! i = sreqs w ! i" if "last_req s w = Some i" for i
    using that h(2) w'(4) by auto
  note H = hist_grows [OF h(1) w'(1) _ _ _ same, simplified w'(2,3), simplified]
  show "stream_ok s w' (Some r)" "committed s w' = committed s w" using H h act by (auto simp: stream_ok_def)
qed

lemma emit_simulates:
  assumes "turn_inv st"
  shows "\<exists>st'. turn_step bos sid (Emit t) st = Inr st' \<and> turn_inv st' \<and> ts_session st' = ts_session st \<and>
    conversation_of st' = conv_step bos (Emit t) (conversation_of st)"
proof (cases "ts_active st")
  case (Some r)
  let ?w = "ts_world st" and ?s = "ts_session st"
  let ?w' = "upd_sreq r (\<lambda>q. q\<lparr>sr_output := sr_output q @ [t]\<rparr>) ?w"
  have ok: "stream_ok ?s ?w (Some r)" using assms Some by (simp add: turn_inv_def)
  then have act: "active_ok r ?w" by (simp add: stream_ok_def)
  then have "prefix (arr ?w (sr_fill (sreqs ?w ! r))) (arr ?w (sr_origin (sreqs ?w ! r)) @ sr_output (sreqs ?w ! r) @ [t])"
    unfolding active_ok_def by (metis append_assoc prefix_prefix)
  then have "active_ok r ?w'" using act by (auto simp: active_ok_def addr_ok_def)
  then have "stream_ok ?s ?w' (Some r)" "committed ?s ?w' = committed ?s ?w"
    using stream_ok_step [OF ok, of ?w'] by (auto simp: grows_def)
  then show ?thesis using Some active_addr(4) [OF act] by (auto simp: turn_inv_def conversation_of_def Let_def)
qed (use assms in \<open>auto simp: conversation_of_def\<close>)

lemma refresh_simulates:
  assumes "turn_inv st"
  shows "\<exists>st'. turn_step bos sid Refresh st = Inr st' \<and> turn_inv st' \<and> ts_session st' = ts_session st \<and>
    conversation_of st' = conv_step bos Refresh (conversation_of st)"
proof (cases "ts_active st")
  case (Some r)
  let ?w = "ts_world st" and ?s = "ts_session st"
  have ok: "stream_ok ?s ?w (Some r)" using assms Some by (simp add: turn_inv_def)
  then have act: "active_ok r ?w" by (simp add: stream_ok_def)
  note R = refresh_spec [OF act]
  have "stream_ok ?s (refresh_fill_ids r ?w) (Some r)" "committed ?s (refresh_fill_ids r ?w) = committed ?s ?w"
    using stream_ok_step [OF ok R(1-5)] by auto
  then show ?thesis using Some R by (simp add: turn_inv_def conversation_of_def Let_def)
qed (use assms in auto)

lemma abort_simulates:
  assumes "turn_inv st"
  shows "\<exists>st'. turn_step bos sid AbortTurn st = Inr st' \<and> turn_inv st' \<and> conversation_of st' = conv_step bos AbortTurn (conversation_of st)"
proof (cases "ts_active st")
  case (Some r)
  let ?s = "ts_session st"
  have "hist_ok (abort_req ?s) w = hist_ok ?s w" "committed (abort_req ?s) w = committed ?s w" for w
    by (simp_all add: hist_ok_def last_ok_def committed_def abort_req_def cong: list.case_cong)
  then show ?thesis using assms Some by (simp add: turn_inv_def stream_ok_def conversation_of_def) (simp add: abort_req_def)
qed (use assms in \<open>auto simp: conversation_of_def\<close>)

lemma finish_simulates:
  assumes "turn_inv st"
  shows "\<exists>st'. turn_step bos sid FinishTurn st = Inr st' \<and> turn_inv st' \<and> conversation_of st' = conv_step bos FinishTurn (conversation_of st)"
proof (cases "ts_active st")
  case (Some r)
  let ?s = "ts_session st" and ?v = "ts_world st"
  let ?w = "upd_sreq r (\<lambda>q. q\<lparr>sr_finished_reason := Some FINISH_OTHER\<rparr>) ?v"
  have ok: "hist_ok ?s ?v" "active_ok r ?v" "last_req ?s ?v \<noteq> Some r" using assms Some by (auto simp: turn_inv_def stream_ok_def)
  define w1 where "w1 = (case req_nodes ?s of [] \<Rightarrow> ?w
      | (_, n) # _ \<Rightarrow> upd_sreq (nd_req (nodes ?w ! n)) (\<lambda>q. q\<lparr>sr_session := None\<rparr>) ?w)"
  obtain n w2 where n: "new_snode r None w1 = (n, w2)" by (rule prod.exhaust)
  have r: "r < length (sreqs ?v)" by (rule active_addr(4) [OF ok(2)])
  have q1: "sreqs w1 ! r = (sreqs ?v ! r)\<lparr>sr_finished_reason := Some FINISH_OTHER\<rparr>" "arrays w1 = arrays ?v" "length (sreqs w1) = length (sreqs ?v)"
    using ok(3) r by (auto simp: w1_def last_req_def split: list.splits)
  have f: "(case req_nodes ?s of [] \<Rightarrow> Inr ?w | [(_, n)] \<Rightarrow> Inr (upd_sreq (nd_req (nodes ?w ! n)) (\<lambda>q. q\<lparr>sr_session := None\<rparr>) ?w)
      | _ \<Rightarrow> Inl ValueError) = Inr w1"
    using ok(1) by (auto simp: w1_def hist_ok_def split: list.splits)
  have n2: "n = length (nodes w1)" "sreqs w2 = sreqs w1" "arrays w2 = arrays w1" "nd_req (nodes w2 ! n) = r" "n < length (nodes w2)"
    using n by (auto simp: new_snode_def nth_append)
  have nr: "node_req w2 n = sreqs w1 ! r" "arr w2 = arr ?v" using n2 q1 by (auto simp: node_req_def arr_def fun_eq_iff)
  let ?q = "sreqs w1 ! r"
  let ?s' = "?s\<lparr>inflight := False, req_nodes := [(sr_rid ?q, n)], committed_origin_len := Some (length (arr w1 (sr_origin ?q))),
            committed_unpadded_len := Some (length (arr w1 (sr_unpadded ?q))), committed_fill_len := Some (length (arr w1 (sr_fill ?q)))\<rparr>"
  have st: "turn_step bos sid FinishTurn st = Inr \<lparr>ts_session = ?s', ts_world = w2, ts_active = None\<rparr>"
    using Some f n by (simp add: finish_req_def Let_def)
  have a1: "arr w1 = arr ?v" using q1(2) by (auto simp: arr_def)
  have "last_ok ?s' w2 ?q"
    using ok(2) q1 nr a1 n2(3) unfolding last_ok_def active_ok_def addr_ok_def by simp
  then have "turn_inv \<lparr>ts_session = ?s', ts_world = w2, ts_active = None\<rparr>"
    using ok(1) n2 nr r q1 by (simp add: turn_inv_def stream_ok_def hist_ok_def)
  moreover have "conversation_of \<lparr>ts_session = ?s', ts_world = w2, ts_active = None\<rparr> = conv_step bos FinishTurn (conversation_of st)"
    using Some q1 nr a1 by (simp add: conversation_of_def committed_def del_from_def Let_def out_tail_def)
  ultimately show ?thesis using st by blast
qed (use assms in \<open>auto simp: conversation_of_def\<close>)

section \<open>Submitting a turn\<close>

text \<open>Steps that only create objects.\<close>

definition keeps :: "world \<Rightarrow> world \<Rightarrow> bool" where
  "keeps w w' \<longleftrightarrow> length (arrays w) \<le> length (arrays w') \<and> (\<forall>a < length (arrays w). arr w' a = arr w a) \<and>
     nodes w' = nodes w \<and> length (sreqs w) \<le> length (sreqs w') \<and> (\<forall>r < length (sreqs w). sreqs w' ! r = sreqs w ! r)"

lemma keeps_trans: "keeps w w' \<Longrightarrow> keeps w' w'' \<Longrightarrow> keeps w w''"
  unfolding keeps_def by auto

lemma keeps_grows: "keeps w w' \<Longrightarrow> grows w w'"
  by (simp add: keeps_def grows_def)

lemma keeps_new_arr: "new_arr xs w = (a, w') \<Longrightarrow> keeps w w'"
  using new_arr_sel [of xs w a w'] by (simp add: keeps_def)

lemma new_sreq_sel:
  assumes "new_sreq gi ia ua sid w = (r, w')"
  shows "r = length (sreqs w)" "keeps w w'" "length (arrays w') = Suc (length (arrays w))" "length (sreqs w') = Suc r"
    "arr w' (length (arrays w)) = []"
    "ua < length (arrays w) \<Longrightarrow> sreqs w' ! r = \<lparr>sr_rid = gi_rid gi, sr_origin = ia, sr_unpadded = (if arr w ua \<noteq> [] then ua else ia),
      sr_fill = length (arrays w), sr_output = [], sr_max_new_tokens = gi_max_new_tokens gi, sr_finished_reason = None,
      sr_to_finish = None, sr_session = Some sid, sr_multimodal_inputs = None\<rparr>"
  using assms by (auto simp: new_sreq_def new_arr_def keeps_def arr_def nth_append)

lemma keeps_upd: "keeps w w' \<Longrightarrow> length (sreqs w) \<le> r \<Longrightarrow> keeps w (upd_sreq r f w')"
  by (auto simp: keeps_def)

lemma set_finish_sel:
  assumes "length (sreqs w) \<le> r" "keeps w w'" "r < length (sreqs w')"
  shows "keeps w (set_finish_with_abort msg r w')" "sr_to_finish (sreqs (set_finish_with_abort msg r w') ! r) = Some (FINISH_ABORT msg)"
proof -
  obtain a w1 where n: "new_arr [0] w' = (a, w1)" by (rule prod.exhaust)
  note k = keeps_trans [OF assms(2) keeps_new_arr [OF n]]
  show "keeps w (set_finish_with_abort msg r w')"
    unfolding set_finish_with_abort_def n Let_def split_conv by (rule keeps_upd [OF k assms(1)])
  show "sr_to_finish (sreqs (set_finish_with_abort msg r w') ! r) = Some (FINISH_ABORT msg)"
    using assms(3) new_arr_sel(4) [OF n] by (simp add: set_finish_with_abort_def n)
qed

lemma active_ok_keeps: "active_ok r w \<Longrightarrow> keeps w w' \<Longrightarrow> active_ok r w'"
  by (auto simp: active_ok_def keeps_def addr_ok_def)

lemma hist_keeps:
  assumes "hist_ok s w" "keeps w w'"
  shows "hist_ok s w'" "committed s w' = committed s w" "last_req s w' = last_req s w"
proof -
  have "sreqs w' ! r = sreqs w ! r" if "last_req s w = Some r" for r
    using that hist_last [OF assms(1)] assms(2) by (simp add: keeps_def)
  then show "hist_ok s w'" "committed s w' = committed s w" "last_req s w' = last_req s w"
    using hist_grows [OF assms(1) keeps_grows [OF assms(2)]] assms(2) by (simp_all add: keeps_def)
qed

lemma hist_touch [simp]:
  "hist_ok (s\<lparr>last_active_time := t\<rparr>) w = hist_ok s w" "hist_ok (s\<lparr>inflight := b\<rparr>) w = hist_ok s w"
  "committed (s\<lparr>last_active_time := t\<rparr>) w = committed s w" "committed (s\<lparr>inflight := b\<rparr>) w = committed s w"
  "last_req (s\<lparr>last_active_time := t\<rparr>) w = last_req s w" "last_req (s\<lparr>inflight := b\<rparr>) w = last_req s w"
  by (simp_all add: hist_ok_def last_ok_def committed_def last_req_def cong: list.case_cong)

lemma select_streaming:
  assumes "streaming s"
  shows "inflight s \<or> \<not> plain_append sp \<Longrightarrow> \<exists>msg. select_last sp s w = Inr (None, Some msg, s, w)"
    "\<not> inflight s \<Longrightarrow> plain_append sp \<Longrightarrow> hist_ok s w \<Longrightarrow>
       select_last sp s w = Inr (map_option snd (case req_nodes s of [] \<Rightarrow> None | p # _ \<Rightarrow> Some p), None, s, w)"
  using assms by (auto simp: select_last_def plain_append_def single_node_def hist_ok_def split: list.splits)

lemma reject_simulates:
  assumes ok: "turn_inv st" and rej: "inflight (ts_session st) \<or> \<not> plain_append sp"
  shows "\<exists>st'. turn_step bos sid (Submit now rid ids m sp) st = Inr st' \<and> turn_inv st' \<and>
    inflight (ts_session st') = inflight (ts_session st) \<and> conversation_of st' = conversation_of st"
proof -
  let ?s = "ts_session st" and ?w = "ts_world st" and ?t = "(ts_session st)\<lparr>last_active_time := now\<rparr>"
  obtain a w1 where a: "new_arr ids ?w = (a, w1)" by (rule prod.exhaust)
  let ?gi = "turn_input rid a m sp"
  obtain r w2 where r: "new_sreq ?gi a a sid w1 = (r, w2)" by (rule prod.exhaust)
  have st: "streaming ?t" "inflight ?t \<or> \<not> plain_append sp" using ok rej by (auto simp: turn_inv_def stream_ok_def hist_ok_def)
  obtain msg where sel: "select_last sp ?t w1 = Inr (None, Some msg, ?t, w1)" using select_streaming(1) [OF st] by blast
  let ?w3 = "set_finish_with_abort msg r w2"
  have k: "keeps ?w w2" using keeps_trans [OF keeps_new_arr [OF a] new_sreq_sel(2) [OF r]] .
  have rl: "length (sreqs ?w) \<le> r" "r < length (sreqs w2)" using new_sreq_sel(1,4) [OF r] new_arr_sel(4) [OF a] by simp_all
  note F = set_finish_sel [OF rl(1) k rl(2), of msg]
  have step: "turn_step bos sid (Submit now rid ids m sp) st = Inr \<lparr>ts_session = ?t, ts_world = ?w3, ts_active = ts_active st\<rparr>"
    using a r sel F(2) by (simp add: create_req_def assemble_turn_def turn_input_def)
  have h: "hist_ok ?s ?w" using ok by (simp add: turn_inv_def stream_ok_def)
  note H = hist_keeps [OF h F(1)]
  have "turn_inv \<lparr>ts_session = ?t, ts_world = ?w3, ts_active = ts_active st\<rparr>"
    using ok H active_ok_keeps [OF _ F(1)] by (auto simp: turn_inv_def stream_ok_def split: option.splits)
  moreover have "conversation_of \<lparr>ts_session = ?t, ts_world = ?w3, ts_active = ts_active st\<rparr> = conversation_of st"
  proof (cases "ts_active st")
    case (Some i)
    then have "active_ok i ?w" using ok by (simp add: turn_inv_def stream_ok_def)
    then have "sreqs ?w3 ! i = sreqs ?w ! i" "arr ?w3 (sr_origin (sreqs ?w ! i)) = arr ?w (sr_origin (sreqs ?w ! i))"
      using F(1) active_addr by (auto simp: keeps_def)
    then show ?thesis using Some H by (simp add: conversation_of_def Let_def)
  qed (use H in \<open>simp add: conversation_of_def\<close>)
  ultimately show ?thesis using step by (auto intro!: exI)
qed

lemma strip_spec:
  assumes "strip_bos_token bos gi w = (gi', w')" "gi_input_ids gi < length (arrays w)"
  shows "keeps w w'" "sreqs w' = sreqs w" "arr w' (gi_input_ids gi') = strip_bos bos (arr w (gi_input_ids gi))"
proof -
  have "keeps w w' \<and> sreqs w' = sreqs w \<and> arr w' (gi_input_ids gi') = strip_bos bos (arr w (gi_input_ids gi))"
  proof (cases "\<exists>b ts. bos = Some b \<and> arr w (gi_input_ids gi) = b # ts")
    case True
    then obtain b ts where b: "bos = Some b" "arr w (gi_input_ids gi) = b # ts" by blast
    obtain a w1 where n: "new_arr ts w = (a, w1)" by (rule prod.exhaust)
    then show ?thesis using assms b keeps_new_arr [OF n] new_arr_sel(3,4) [OF n]
      by (auto simp: strip_bos_token_def strip_bos_def)
  next
    case False
    then have "strip_bos_token bos gi w = (gi, w)" "strip_bos bos (arr w (gi_input_ids gi)) = arr w (gi_input_ids gi)"
      by (auto simp: strip_bos_token_def strip_bos_def split: option.splits list.splits)
    then show ?thesis using assms by (simp add: keeps_def)
  qed
  then show "keeps w w'" "sreqs w' = sreqs w" "arr w' (gi_input_ids gi') = strip_bos bos (arr w (gi_input_ids gi))" by blast+
qed

text \<open>The request of an accepted turn.\<close>

lemma accept_world:
  assumes ok: "hist_ok s w" and w1: "assemble_turn bos gi sp prev s w = (ia, ua, carry, w1)"
    and prev: "prev = map_option snd (case req_nodes s of [] \<Rightarrow> None | p # _ \<Rightarrow> Some p)"
    and gi: "gi_input_ids gi < length (arrays w)" and sp: "plain_append sp"
  shows "hist_ok s w1" "committed s w1 = committed s w" "last_req s w1 = last_req s w" "sreqs w1 = sreqs w"
    "ia < length (arrays w1)" "ua < length (arrays w1)"
    "arr w1 ia = (case committed s w of None \<Rightarrow> arr w (gi_input_ids gi) | Some h \<Rightarrow> h @ strip_bos bos (arr w (gi_input_ids gi)))"
    "\<And>fa. carry = Some fa \<Longrightarrow> fa < length (arrays w1) \<and> fa \<noteq> ia \<and> fa \<noteq> ua \<and> arr w1 fa = arr w1 ia"
proof -
  have "hist_ok s w1 \<and> committed s w1 = committed s w \<and> last_req s w1 = last_req s w \<and> sreqs w1 = sreqs w \<and>
    ia < length (arrays w1) \<and> ua < length (arrays w1) \<and>
    arr w1 ia = (case committed s w of None \<Rightarrow> arr w (gi_input_ids gi) | Some h \<Rightarrow> h @ strip_bos bos (arr w (gi_input_ids gi))) \<and>
    (\<forall>fa. carry = Some fa \<longrightarrow> fa < length (arrays w1) \<and> fa \<noteq> ia \<and> fa \<noteq> ua \<and> arr w1 fa = arr w1 ia)"
    using ok
  proof (cases rule: hist_cases)
    case 1
    then show ?thesis using w1 prev gi ok by (auto simp: assemble_turn_def committed_def)
  next
    case (2 k n)
    obtain gi' v where v: "strip_bos_token bos gi w = (gi', v)" by (rule prod.exhaust)
    note S = strip_spec [OF v gi]
    note H = hist_keeps [OF ok S(1)]
    have nv: "node_req v n = node_req w n" "nodes v = nodes w" using S by (auto simp: keeps_def node_req_def)
    let ?q = "node_req w n" and ?new = "strip_bos bos (arr w (gi_input_ids gi))"
    have l: "last_ok s v ?q" using H(1) 2(1) nv by (simp add: hist_ok_def)
    have sh: "share_token_arrays s ?q ?new v = (ia, ua, carry, w1)"
      using w1 prev 2(1,4) v S(3) sp ok
      by (auto simp: assemble_turn_def can_share_def plain_append_def hist_ok_def last_ok_def)
    note R = share_spec [OF l sh]
    have nw: "node_req w1 n = ?q" "nodes w1 = nodes w" using R(4,5) nv S(2) by (simp_all add: node_req_def)
    have a: "addr_ok ?q v" using l by (simp add: last_ok_def)
    have ad: "sr_origin ?q < length (arrays w1)" "sr_unpadded ?q < length (arrays w1)" "sr_fill ?q < length (arrays w1)"
      "sr_fill ?q \<noteq> sr_origin ?q" "sr_fill ?q \<noteq> sr_unpadded ?q" using a R(3) by (auto simp: addr_ok_def)
    have c: "committed s w1 = committed s v" "last_req s w1 = last_req s v"
      using 2(1) nw nv R(9) by (simp_all add: committed_def last_req_def)
    have h: "hist_ok s w1" using ok 2 R(4,8) nw S(2) nv by (simp add: hist_ok_def)
    have cv: "committed s v = Some (del_from (committed_origin_len s) (arr v (sr_origin ?q)) @ out_tail ?q)"
      using 2(1) nv by (simp add: committed_def)
    show ?thesis using h c H(2,3) R(1-7) S(2) ad cv [unfolded H(2)] by auto
  qed
  then show "hist_ok s w1" "committed s w1 = committed s w" "last_req s w1 = last_req s w" "sreqs w1 = sreqs w"
    "ia < length (arrays w1)" "ua < length (arrays w1)"
    "arr w1 ia = (case committed s w of None \<Rightarrow> arr w (gi_input_ids gi) | Some h \<Rightarrow> h @ strip_bos bos (arr w (gi_input_ids gi)))"
    "\<And>fa. carry = Some fa \<Longrightarrow> fa < length (arrays w1) \<and> fa \<noteq> ia \<and> fa \<noteq> ua \<and> arr w1 fa = arr w1 ia"
    by blast+
qed

lemma accept_simulates:
  assumes ok: "turn_inv st" and acc: "ts_active st = None" "plain_append sp"
  shows "\<exists>st'. turn_step bos sid (Submit now rid ids m sp) st = Inr st' \<and> turn_ok st' \<and>
    conversation_of st' = conv_step bos (Submit now rid ids m sp) (conversation_of st)"
proof -
  let ?s = "ts_session st" and ?t = "(ts_session st)\<lparr>last_active_time := now\<rparr>"
  obtain a w where a: "new_arr ids (ts_world st) = (a, w)" by (rule prod.exhaust)
  have h0: "hist_ok ?s (ts_world st)" "\<not> inflight ?s" using ok acc by (auto simp: turn_inv_def stream_ok_def)
  note H0 = hist_keeps [OF h0(1) keeps_new_arr [OF a]]
  let ?gi = "turn_input rid a m sp" and ?prev = "map_option snd (case req_nodes ?t of [] \<Rightarrow> None | p # _ \<Rightarrow> Some p)"
  have gi: "gi_input_ids ?gi < length (arrays w)" "arr w a = ids" using new_arr_sel(1-3) [OF a] by (simp_all add: turn_input_def)
  have ga: "gi_input_ids ?gi = a" by (simp add: turn_input_def)
  have ht: "hist_ok ?t w" using H0(1) by simp
  have strm: "streaming ?t" using h0(1) by (simp add: hist_ok_def)
  have sel: "select_last sp ?t w = Inr (?prev, None, ?t, w)" using select_streaming(2) [OF strm _ acc(2) ht] h0(2) by simp
  obtain ia ua carry w1 where w1: "assemble_turn bos ?gi sp ?prev ?t w = (ia, ua, carry, w1)" by (metis prod_cases4)
  note A = accept_world [OF ht w1 refl gi(1) acc(2)]
  obtain r w2 where r: "new_sreq ?gi ia ua sid w1 = (r, w2)" by (rule prod.exhaust)
  note N = new_sreq_sel [OF r]
  define w3 where "w3 = (case ?prev of None \<Rightarrow> w2
      | Some n \<Rightarrow> upd_sreq r (\<lambda>q. q\<lparr>sr_multimodal_inputs := sr_multimodal_inputs (node_req w2 n)\<rparr>) w2)"
  define w4 where "w4 = (case carry of None \<Rightarrow> w3 | Some fa \<Rightarrow> upd_sreq r (\<lambda>q. q\<lparr>sr_fill := fa\<rparr>) w3)"
  have k: "keeps w1 w4" unfolding w4_def w3_def using N(1,2) by (auto intro!: keeps_upd split: option.split)
  have arrs: "arrays w4 = arrays w2" "length (sreqs w4) = length (sreqs w2)" by (auto simp: w4_def w3_def split: option.split)
  have q: "sr_origin (sreqs w4 ! r) = ia" "sr_output (sreqs w4 ! r) = []" "sr_max_new_tokens (sreqs w4 ! r) = m"
    "sr_to_finish (sreqs w4 ! r) = None" "sr_unpadded (sreqs w4 ! r) = ua \<or> sr_unpadded (sreqs w4 ! r) = ia"
    "sr_fill (sreqs w4 ! r) = (case carry of None \<Rightarrow> length (arrays w1) | Some fa \<Rightarrow> fa)"
    using N A(6) by (auto simp: w4_def w3_def turn_input_def split: option.split)
  have create: "create_req now bos sid ?gi ?s w = Inr (r, ?t\<lparr>inflight := True\<rparr>, w4)"
    using sel w1 r strm unfolding create_req_def w4_def w3_def
    by (simp add: turn_input_def Let_def split: option.split)
  let ?st' = "\<lparr>ts_session = ?t\<lparr>inflight := True\<rparr>, ts_world = w4, ts_active = Some r\<rparr>"
  have step: "turn_step bos sid (Submit now rid ids m sp) st = Inr ?st'" using a create q(4) by simp
  note K = hist_keeps [OF A(1) k]
  have last: "last_req ?t w4 \<noteq> Some r" using hist_last [OF A(1)] K(3) N(1) by auto
  have io: "arr w4 ia = arr w1 ia" using k A(5) by (simp add: keeps_def)
  have fill: "arr w4 (sr_fill (sreqs w4 ! r)) = (case carry of None \<Rightarrow> [] | Some _ \<Rightarrow> arr w1 ia)"
    using q(6) A(8) k N(5) arrs(1) by (auto simp: keeps_def arr_def split: option.split)
  have "active_ok r w4"
    using q N A(5,6,8) arrs fill io by (auto simp: active_ok_def addr_ok_def split: option.splits)
  then have "turn_ok ?st'" using K last by (simp add: turn_ok_def turn_inv_def stream_ok_def)
  moreover have "conversation_of ?st' = conv_step bos (Submit now rid ids m sp) (conversation_of st)"
    using acc q K(2) A(2) A(7) [unfolded ga gi(2)] io H0(2) by (simp add: conversation_of_def Let_def)
  ultimately show ?thesis using step by blast
qed

section \<open>Runs\<close>

text \<open>Discarding a rejected request touches no token array.\<close>

lemma detach_keeps:
  fixes f :: "sreq \<Rightarrow> sreq"
  assumes f: "\<And>q. f q = q\<lparr>sr_session := x q, sr_finished_reason := y q\<rparr>"
  shows "stream_ok s (upd_sreq r f w) act = stream_ok s w act" "committed s (upd_sreq r f w) = committed s w"
proof -
  let ?w = "upd_sreq r f w"
  have q: "sr_origin (sreqs ?w ! i) = sr_origin (sreqs w ! i)" "sr_unpadded (sreqs ?w ! i) = sr_unpadded (sreqs w ! i)"
    "sr_fill (sreqs ?w ! i) = sr_fill (sreqs w ! i)" "sr_output (sreqs ?w ! i) = sr_output (sreqs w ! i)"
    "sr_max_new_tokens (sreqs ?w ! i) = sr_max_new_tokens (sreqs w ! i)" for i using f by simp_all
  have h: "hist_ok s ?w = hist_ok s w" "last_req s ?w = last_req s w"
    by (simp_all add: hist_ok_def last_ok_def addr_ok_def node_req_def last_req_def q del: upd_sreq_sel(5) cong: list.case_cong)
  have "active_ok i ?w = active_ok i w" for i by (simp add: active_ok_def addr_ok_def q del: upd_sreq_sel(5))
  then show "stream_ok s ?w act = stream_ok s w act" by (simp add: stream_ok_def h cong: option.case_cong)
  show "committed s ?w = committed s w"
    by (simp add: committed_def out_tail_def node_req_def q del: upd_sreq_sel(5) cong: list.case_cong)
qed

lemma abort_req_stream: "stream_ok s w act \<Longrightarrow> stream_ok (abort_req s) w act" "committed (abort_req s) w = committed s w"
  by (auto simp: stream_ok_def abort_req_def committed_def split: option.splits cong: list.case_cong)

lemma discard_simulates:
  assumes "turn_inv st"
  shows "\<exists>st'. turn_step bos sid (Discard r held) st = Inr st' \<and> turn_inv st' \<and> conversation_of st' = conversation_of st"
proof -
  define f :: "sreq \<Rightarrow> sreq" where "f = (if held then (\<lambda>q. q\<lparr>sr_session := None\<rparr>) else (\<lambda>q. q\<lparr>sr_finished_reason := sr_to_finish q\<rparr>))"
  have f: "f q = q\<lparr>sr_session := (if held then None else sr_session q),
      sr_finished_reason := (if held then sr_finished_reason q else sr_to_finish q)\<rparr>" for q by (simp add: f_def)
  note D = detach_keeps [of f, OF f]
  let ?st = "st\<lparr>ts_session := abort_req (ts_session st), ts_world := upd_sreq r f (ts_world st)\<rparr>"
  have "turn_inv ?st" using assms abort_req_stream(1) by (simp add: turn_inv_def D)
  moreover have "conversation_of ?st = conversation_of st"
    by (cases "ts_active st") (auto simp: conversation_of_def abort_req_stream(2) D(2) f Let_def)
  ultimately show ?thesis using assms by (simp add: Let_def f_def)
qed

theorem turn_simulates:
  assumes at: "turn_at p st" and ok: "\<not> (submits e \<and> p = Exposed)"
  shows "\<exists>st'. turn_step bos sid e st = Inr st' \<and> turn_at (next_status e p) st' \<and>
    conversation_of st' = conv_step bos e (conversation_of st)"
proof -
  have inv: "turn_inv st" and p: "p = Idle \<longleftrightarrow> ts_active st = None" "p = Guarded \<Longrightarrow> inflight (ts_session st)"
    using at by (auto simp: turn_at_def)
  have act: "ts_active st' = None \<longleftrightarrow> cv_cur (conversation_of st') = None" for st' by (simp add: conversation_of_def)
  show ?thesis
  proof (cases e)
    case (Submit now rid ids m sp)
    show ?thesis
    proof (cases "p = Idle \<and> plain_append sp")
      case True
      obtain st' where st': "turn_step bos sid e st = Inr st'" "turn_ok st'" "conversation_of st' = conv_step bos e (conversation_of st)"
        using accept_simulates [OF inv] True p(1) Submit by blast
      then have "ts_active st' \<noteq> None" using True p(1) act [of st] act [of st'] Submit by simp
      then show ?thesis using st' True Submit by (auto simp: turn_at_def turn_ok_def)
    next
      case False
      then have "inflight (ts_session st) \<or> \<not> plain_append sp" using p ok Submit by (cases p) auto
      then obtain st' where st': "turn_step bos sid e st = Inr st'" "turn_inv st'" "inflight (ts_session st') = inflight (ts_session st)"
        "conversation_of st' = conversation_of st" using reject_simulates [OF inv] Submit by blast
      moreover have "conv_step bos e (conversation_of st) = conversation_of st" using False p(1) act [of st] by (auto simp: Submit)
      ultimately show ?thesis using False p act [of st] act [of st'] Submit by (auto simp: turn_at_def)
    qed
  next
    case (Emit t)
    obtain st' where "turn_step bos sid e st = Inr st'" "turn_inv st'" "ts_session st' = ts_session st"
      "conversation_of st' = conv_step bos e (conversation_of st)" using emit_simulates [OF inv] Emit by blast
    then show ?thesis using p act [of st] act [of st'] Emit by (auto simp: turn_at_def)
  next
    case Refresh
    obtain st' where "turn_step bos sid e st = Inr st'" "turn_inv st'" "ts_session st' = ts_session st"
      "conversation_of st' = conv_step bos e (conversation_of st)" using refresh_simulates [OF inv] Refresh by blast
    then show ?thesis using p act [of st] act [of st'] Refresh by (auto simp: turn_at_def)
  next
    case FinishTurn
    obtain st' where "turn_step bos sid e st = Inr st'" "turn_inv st'" "conversation_of st' = conv_step bos e (conversation_of st)"
      using finish_simulates [OF inv] FinishTurn by blast
    then show ?thesis using act [of st'] FinishTurn by (auto simp: turn_at_def split: option.splits)
  next
    case AbortTurn
    obtain st' where "turn_step bos sid e st = Inr st'" "turn_inv st'" "conversation_of st' = conv_step bos e (conversation_of st)"
      using abort_simulates [OF inv] AbortTurn by blast
    then show ?thesis using act [of st'] AbortTurn by (auto simp: turn_at_def)
  next
    case (Discard r held)
    obtain st' where "turn_step bos sid e st = Inr st'" "turn_inv st'" "conversation_of st' = conversation_of st"
      using discard_simulates [OF inv] Discard by blast
    then show ?thesis using p(1) act [of st] act [of st'] Discard by (auto simp: turn_at_def)
  qed
qed

fun turn_run :: "int option \<Rightarrow> nat \<Rightarrow> turn_event list \<Rightarrow> turn_state \<Rightarrow> turn_state res" where
  "turn_run bos sid [] st = Inr st"
| "turn_run bos sid (e # es) st = bind_res (turn_step bos sid e st) (turn_run bos sid es)"

theorem turn_run_simulates:
  assumes "turn_at p st" "well_timed p es"
  shows "\<exists>st'. turn_run bos sid es st = Inr st' \<and> turn_at (fold next_status es p) st' \<and>
    conversation_of st' = fold (conv_step bos) es (conversation_of st)"
  using assms
proof (induction es arbitrary: p st)
  case (Cons e es)
  then show ?case using turn_simulates [of p st e bos sid] by fastforce
qed simp

definition new_turns :: "int \<Rightarrow> string option \<Rightarrow> int option \<Rightarrow> int \<Rightarrow> turn_state" where
  "new_turns cap sid tmo now =
     \<lparr>ts_session = new_session cap sid True tmo now, ts_world = \<lparr>arrays = [], sreqs = [], nodes = []\<rparr>, ts_active = None\<rparr>"

lemma new_turns_ok: "turn_at Idle (new_turns cap sid tmo now)"
  "conversation_of (new_turns cap sid tmo now) = \<lparr>cv_hist = None, cv_cur = None\<rparr>"
  by (simp_all add: turn_at_def turn_inv_def stream_ok_def hist_ok_def new_turns_def new_session_def conversation_of_def committed_def)

end
