(* ===== verification/SessionTree.thy ===== *)
theory SessionTree
  imports SessionTurns
begin

text \<open>
  The request tree of a session that is not streaming. Clearing a node removes exactly the nodes
  below it from the dictionary and marks their unfinished requests as aborted; a new request is
  linked below the one it continues and starts with its tokens.
\<close>

section \<open>Subtrees\<close>

definition child :: "world \<Rightarrow> (nat \<times> nat) set" where
  "child w = {(n, m). n < length (nodes w) \<and> m \<in> set (nd_children (nodes w ! n))}"

definition sub :: "world \<Rightarrow> nat \<Rightarrow> nat set" where
  "sub w n = {m. (n, m) \<in> (child w)\<^sup>*}"

text \<open>Nodes are numbered in the order of their creation; a child refers back to its parent.\<close>

definition forest :: "world \<Rightarrow> bool" where
  "forest w \<longleftrightarrow> (\<forall>n < length (nodes w). distinct (nd_children (nodes w ! n)) \<and>
     (\<forall>m \<in> set (nd_children (nodes w ! n)). n < m \<and> m < length (nodes w) \<and> nd_parent (nodes w ! m) = Some n))"

definition dict_ok :: "node_dict \<Rightarrow> world \<Rightarrow> bool" where
  "dict_ok d w \<longleftrightarrow> distinct (map fst d) \<and>
     (\<forall>(k, n) \<in> set d. n < length (nodes w) \<and> nd_req (nodes w ! n) < length (sreqs w) \<and> sr_rid (node_req w n) = k \<and>
        sr_origin (node_req w n) < length (arrays w))"

lemma forestI:
  assumes "\<And>n. n < length (nodes w) \<Longrightarrow> distinct (nd_children (nodes w ! n))"
    "\<And>n m. n < length (nodes w) \<Longrightarrow> m \<in> set (nd_children (nodes w ! n)) \<Longrightarrow>
       n < m \<and> m < length (nodes w) \<and> nd_parent (nodes w ! m) = Some n"
  shows "forest w"
  using assms unfolding forest_def by blast

lemma forestD:
  assumes "forest w" "n < length (nodes w)"
  shows "distinct (nd_children (nodes w ! n))"
    "m \<in> set (nd_children (nodes w ! n)) \<Longrightarrow> n < m \<and> m < length (nodes w) \<and> nd_parent (nodes w ! m) = Some n"
  using assms unfolding forest_def by blast+

lemma forest_cong: "nodes w' = nodes w \<Longrightarrow> forest w' = forest w"
  by (simp only: forest_def)

lemma sub_refl [simp]: "n \<in> sub w n"
  by (simp add: sub_def)

lemma sub_unfold:
  assumes "n < length (nodes w)"
  shows "sub w n = insert n (\<Union>m \<in> set (nd_children (nodes w ! n)). sub w m)"
proof -
  have "(n, m) \<in> (child w)\<^sup>* \<longleftrightarrow> m = n \<or> (\<exists>c. (n, c) \<in> child w \<and> (c, m) \<in> (child w)\<^sup>*)" for m
  proof
    assume "(n, m) \<in> (child w)\<^sup>*"
    then show "m = n \<or> (\<exists>c. (n, c) \<in> child w \<and> (c, m) \<in> (child w)\<^sup>*)" by (metis converse_rtranclE)
  next
    assume "m = n \<or> (\<exists>c. (n, c) \<in> child w \<and> (c, m) \<in> (child w)\<^sup>*)"
    then show "(n, m) \<in> (child w)\<^sup>*" by (auto intro: converse_rtrancl_into_rtrancl)
  qed
  moreover have "(n, c) \<in> child w \<longleftrightarrow> c \<in> set (nd_children (nodes w ! n))" for c using assms by (simp add: child_def)
  ultimately show ?thesis unfolding sub_def by blast
qed

lemma child_forest: "forest w \<Longrightarrow> (n, m) \<in> child w \<Longrightarrow> n < m \<and> m < length (nodes w) \<and> nd_parent (nodes w ! m) = Some n"
  unfolding child_def forest_def by blast

lemma sub_ge:
  assumes "forest w" "m \<in> sub w n"
  shows "n \<le> m"
proof -
  have "(n, m) \<in> (child w)\<^sup>*" using assms(2) by (simp add: sub_def)
  then show ?thesis by (induction rule: rtrancl_induct) (use child_forest [OF assms(1)] in fastforce)+
qed

text \<open>The ancestors of a node form a chain, so the subtrees of two children of a node are disjoint.\<close>

lemma sub_chain:
  assumes f: "forest w" and "m \<in> sub w a" "m \<in> sub w b" "a \<le> b"
  shows "b \<in> sub w a"
proof -
  have "(b, m) \<in> (child w)\<^sup>*" "(a, m) \<in> (child w)\<^sup>*" using assms(2,3) by (simp_all add: sub_def)
  then show ?thesis
  proof (induction rule: rtrancl_induct)
    case (step y z)
    show ?case
    proof (cases "a = z")
      case True
      then have "b \<le> y" "y < z" using child_forest [OF f step.hyps(2)] sub_ge [OF f, of y b] step.hyps(1)
        by (simp_all add: sub_def)
      then show ?thesis using True assms(4) by simp
    next
      case False
      then obtain y' where y': "(a, y') \<in> (child w)\<^sup>*" "(y', z) \<in> child w" using step.prems by (metis rtranclE)
      then have "y' = y" using child_forest [OF f step.hyps(2)] child_forest [OF f y'(2)] by simp
      then show ?thesis using step.IH y'(1) by simp
    qed
  qed (simp add: sub_def)
qed

lemma sub_siblings:
  assumes f: "forest w" and n: "n < length (nodes w)" and c: "a \<in> set (nd_children (nodes w ! n))" "b \<in> set (nd_children (nodes w ! n))" "a \<noteq> b"
  shows "sub w a \<inter> sub w b = {}"
proof -
  have no: "y \<notin> sub w x" if lt: "x < y" and xy: "x \<in> set (nd_children (nodes w ! n))" "y \<in> set (nd_children (nodes w ! n))" for x y
  proof
    assume "y \<in> sub w x"
    then have "(x, y) \<in> (child w)\<^sup>*" by (simp add: sub_def)
    then obtain z where z: "(x, z) \<in> (child w)\<^sup>*" "(z, y) \<in> child w" using lt by (metis less_irrefl rtranclE)
    have "(n, x) \<in> child w" "(n, y) \<in> child w" using n xy by (simp_all add: child_def)
    then have "z = n" "n < x" using child_forest [OF f, of n x] child_forest [OF f, of n y] child_forest [OF f z(2)] by simp_all
    then show False using sub_ge [OF f, of z x] z(1) by (simp add: sub_def)
  qed
  show ?thesis
  proof (rule ccontr)
    assume "sub w a \<inter> sub w b \<noteq> {}"
    then obtain m where "m \<in> sub w a" "m \<in> sub w b" by blast
    then have "b \<in> sub w a \<or> a \<in> sub w b" using sub_chain [OF f] nat_le_linear by blast
    then show False using no c sub_ge [OF f] by (metis le_neq_implies_less)
  qed
qed

section \<open>Clearing\<close>

text \<open>The requests of the given nodes are aborted unless they have finished.\<close>

definition aborted :: "world \<Rightarrow> nat set \<Rightarrow> world \<Rightarrow> bool" where
  "aborted w N w' \<longleftrightarrow> nodes w' = nodes w \<and> arrays w' = arrays w \<and> length (sreqs w') = length (sreqs w) \<and>
     (\<forall>r. sreqs w' ! r = (if r < length (sreqs w) \<and> r \<in> (\<lambda>n. nd_req (nodes w ! n)) ` N \<and> sr_finished_reason (sreqs w ! r) = None
        then (sreqs w ! r)\<lparr>sr_to_finish := Some (FINISH_ABORT ''Aborted'')\<rparr> else sreqs w ! r))"

lemma aborted_empty [simp]: "aborted w {} w"
  by (simp add: aborted_def)

lemma aborted_trans: "aborted w M w' \<Longrightarrow> aborted w' N w'' \<Longrightarrow> aborted w (M \<union> N) w''"
  by (auto simp: aborted_def)

lemma aborted_node: "aborted w {n} (abort_node n w)"
  by (auto simp: aborted_def abort_node_def node_req_def)

lemma aborted_sub: "aborted w N w' \<Longrightarrow> sub w' n = sub w n \<and> forest w' = forest w"
  by (simp add: aborted_def sub_def child_def forest_def)

lemma aborted_dict: "aborted w N w' \<Longrightarrow> dict_ok d w \<Longrightarrow> dict_ok d w'"
  by (auto simp: aborted_def dict_ok_def node_req_def split: if_splits)

lemma dict_node:
  assumes "dict_ok d w" "n \<in> snd ` set d"
  shows "(sr_rid (node_req w n), n) \<in> set d" "map_of d (sr_rid (node_req w n)) = Some n"
proof -
  obtain k where k: "(k, n) \<in> set d" using assms(2) by auto
  then have "sr_rid (node_req w n) = k" using assms(1) by (auto simp: dict_ok_def)
  then show "(sr_rid (node_req w n), n) \<in> set d" using k by simp
  then show "map_of d (sr_rid (node_req w n)) = Some n" using assms(1) by (simp add: dict_ok_def)
qed

lemma delete_node:
  assumes "dict_ok d w" "n \<in> snd ` set d"
  shows "AList.delete (sr_rid (node_req w n)) d = filter (\<lambda>p. snd p \<noteq> n) d"
proof -
  have "fst p = sr_rid (node_req w n) \<longleftrightarrow> snd p = n" if "p \<in> set d" for p
  proof
    assume "fst p = sr_rid (node_req w n)"
    then have "map_of d (sr_rid (node_req w n)) = Some (snd p)"
      using assms(1) that by (metis dict_ok_def map_of_is_SomeI prod.collapse)
    then show "snd p = n" using dict_node(2) [OF assms] by simp
  qed (use assms(1) that in \<open>auto simp: dict_ok_def\<close>)
  then show ?thesis unfolding AList.delete_eq by (intro filter_cong) (simp_all add: case_prod_beta, metis)
qed

lemma dict_ok_filter: "dict_ok d w \<Longrightarrow> dict_ok (filter P d) w"
  by (auto simp: dict_ok_def distinct_map_filter)

lemma clear_spec:
  "\<lbrakk>forest (snd st); dict_ok (fst st) (snd st); n < length (nodes (snd st)); length (nodes (snd st)) - n \<le> fuel;
    sub (snd st) n \<subseteq> snd ` set (fst st)\<rbrakk> \<Longrightarrow>
   \<exists>w'. clear_node fuel n st = Inr (filter (\<lambda>p. snd p \<notin> sub (snd st) n) (fst st), w') \<and> aborted (snd st) (sub (snd st) n) w'"
  "\<lbrakk>forest (snd st); dict_ok (fst st) (snd st); distinct ns; \<forall>c \<in> set ns. c < length (nodes (snd st)) \<and> length (nodes (snd st)) - c \<le> fuel;
    \<forall>c \<in> set ns. sub (snd st) c \<subseteq> snd ` set (fst st); \<forall>a \<in> set ns. \<forall>b \<in> set ns. a \<noteq> b \<longrightarrow> sub (snd st) a \<inter> sub (snd st) b = {}\<rbrakk> \<Longrightarrow>
   \<exists>w'. clear_nodes fuel ns st = Inr (filter (\<lambda>p. snd p \<notin> (\<Union>c \<in> set ns. sub (snd st) c)) (fst st), w') \<and>
     aborted (snd st) (\<Union>c \<in> set ns. sub (snd st) c) w'"
proof (induction fuel n st and fuel ns st rule: clear_node_clear_nodes.induct)
  case (2 fuel n d w)
  let ?cs = "nd_children (nodes w ! n)" and ?U = "\<Union>c \<in> set (nd_children (nodes w ! n)). sub w c"
  have f: "forest w" and dk: "dict_ok d w" and n: "n < length (nodes w)" using 2 by simp_all
  have cs: "distinct ?cs" "\<And>c. c \<in> set ?cs \<Longrightarrow> n < c \<and> c < length (nodes w)" 
    using forestD [OF f n] by blast+
  have un: "sub w n = insert n ?U" by (rule sub_unfold [OF n])
  have nU: "n \<notin> ?U" using sub_ge [OF f] cs(2) by (auto dest: leD)
  have "\<exists>w1. clear_nodes fuel ?cs (d, w) = Inr (filter (\<lambda>p. snd p \<notin> ?U) d, w1) \<and> aborted w ?U w1"
  proof (rule 2(1) [unfolded fst_conv snd_conv, OF f dk cs(1)])
    show "\<forall>c \<in> set ?cs. c < length (nodes w) \<and> length (nodes w) - c \<le> fuel" using cs(2) 2(5) by fastforce
    show "\<forall>c \<in> set ?cs. sub w c \<subseteq> snd ` set d" using 2(6) un by auto
    show "\<forall>a \<in> set ?cs. \<forall>b \<in> set ?cs. a \<noteq> b \<longrightarrow> sub w a \<inter> sub w b = {}" using sub_siblings [OF f n] by blast
  qed
  then obtain w1 where w1: "clear_nodes fuel ?cs (d, w) = Inr (filter (\<lambda>p. snd p \<notin> ?U) d, w1)" "aborted w ?U w1" by blast
  let ?d1 = "filter (\<lambda>p. snd p \<notin> ?U) d" and ?w2 = "abort_node n w1"
  have ab: "aborted w (?U \<union> {n}) ?w2" using aborted_trans [OF w1(2) aborted_node] .
  then have ab': "aborted w (sub w n) ?w2" using un by simp
  have d1: "dict_ok ?d1 ?w2" using aborted_dict [OF ab dict_ok_filter [OF dk]] .
  have m: "n \<in> snd ` set ?d1" using 2(6) un nU by auto
  have "clear_node (Suc fuel) n (d, w) = Inr (filter (\<lambda>p. snd p \<noteq> n) ?d1, ?w2)"
    using w1(1) dict_node(2) [OF d1 m] delete_node [OF d1 m] by (simp add: Let_def)
  also have "filter (\<lambda>p. snd p \<noteq> n) ?d1 = filter (\<lambda>p. snd p \<notin> sub w n) d"
    unfolding un by (simp add: conj_commute)
  finally show ?case using ab' by auto
next
  case (4 fuel n ns st)
  obtain d w where st: "st = (d, w)" by (rule prod.exhaust)
  note prems = 4(3-8) [unfolded st fst_conv snd_conv]
  obtain w1 where w1: "clear_node fuel n st = Inr (filter (\<lambda>p. snd p \<notin> sub w n) d, w1)" "aborted w (sub w n) w1"
    using 4(1) prems st by auto
  let ?d1 = "filter (\<lambda>p. snd p \<notin> sub w n) d"
  have s: "sub w1 m = sub w m" "forest w1" "nodes w1 = nodes w" for m using aborted_sub [OF w1(2)] prems(1) w1(2) by (auto simp: aborted_def)
  have "dict_ok ?d1 w1" by (rule aborted_dict [OF w1(2) dict_ok_filter [OF prems(2)]])
  moreover have "sub w c \<subseteq> snd ` set ?d1" if "c \<in> set ns" for c
  proof
    fix x assume x: "x \<in> sub w c"
    then have "x \<in> snd ` set d" using prems(5) that by auto
    moreover have "x \<notin> sub w n" using x prems(3,6) that by fastforce
    ultimately show "x \<in> snd ` set ?d1" by auto
  qed
  ultimately have "\<exists>w2. clear_nodes fuel ns (?d1, w1) = Inr (filter (\<lambda>p. snd p \<notin> (\<Union>c \<in> set ns. sub w c)) ?d1, w2) \<and>
      aborted w1 (\<Union>c \<in> set ns. sub w c) w2"
    using 4(2) [of "(?d1, w1)", unfolded fst_conv snd_conv s(1,3)] s(2) prems(3,4,6) by auto
  then obtain w2 where w2: "clear_nodes fuel ns (?d1, w1) = Inr (filter (\<lambda>p. snd p \<notin> (\<Union>c \<in> set ns. sub w c)) ?d1, w2)"
    "aborted w1 (\<Union>c \<in> set ns. sub w c) w2" by blast
  have "filter (\<lambda>p. snd p \<notin> (\<Union>c \<in> set ns. sub w c)) ?d1 = filter (\<lambda>p. snd p \<notin> (\<Union>c \<in> set (n # ns). sub w c)) d"
    by (rule filter_filter [THEN trans]) (auto intro: filter_cong)
  then show ?case using w1(1) w2(1) aborted_trans [OF w1(2) w2(2)] by (simp add: st)
next
  case (3 fuel st)
  show ?case by (rule exI [of _ "snd st"]) simp
qed simp_all

section \<open>The invariant of the tree\<close>

definition tree_ok :: "session \<Rightarrow> world \<Rightarrow> bool" where
  "tree_ok s w \<longleftrightarrow> \<not> streaming s \<and> forest w \<and> dict_ok (req_nodes s) w \<and>
     (\<forall>n \<in> snd ` set (req_nodes s). set (nd_children (nodes w ! n)) \<subseteq> snd ` set (req_nodes s)) \<and>
     (\<forall>n \<in> snd ` set (req_nodes s). \<forall>p. nd_parent (nodes w ! n) = Some p \<longrightarrow>
        p \<in> snd ` set (req_nodes s) \<and> n \<in> set (nd_children (nodes w ! p)))"

lemma new_session_tree_ok: "tree_ok (new_session cap sid False tmo now) \<lparr>arrays = [], sreqs = [], nodes = []\<rparr>"
  by (simp add: tree_ok_def new_session_def forest_def dict_ok_def)

lemma tree_parent:
  assumes "tree_ok s w" "n \<in> snd ` set (req_nodes s)" "nd_parent (nodes w ! n) = Some p"
  shows "p \<in> snd ` set (req_nodes s)" "(p, n) \<in> child w"
proof -
  show p: "p \<in> snd ` set (req_nodes s)" using assms unfolding tree_ok_def by blast
  then have "p < length (nodes w)" using assms(1) by (auto simp: tree_ok_def dict_ok_def)
  then show "(p, n) \<in> child w" using assms unfolding tree_ok_def child_def by blast
qed

lemma sub_in_dict:
  assumes "tree_ok s w" "n \<in> snd ` set (req_nodes s)"
  shows "sub w n \<subseteq> snd ` set (req_nodes s)"
proof
  fix m assume "m \<in> sub w n"
  then have "(n, m) \<in> (child w)\<^sup>*" by (simp add: sub_def)
  then show "m \<in> snd ` set (req_nodes s)"
  proof (induction rule: rtrancl_induct)
    case (step y z)
    then show ?case using assms(1) unfolding tree_ok_def child_def by blast
  qed (rule assms(2))
qed

lemma dict_len: "dict_ok d w \<Longrightarrow> n \<in> snd ` set d \<Longrightarrow> n < length (nodes w)"
  by (auto simp: dict_ok_def)

lemma clear_children_spec:
  assumes ok: "tree_ok s w" and n: "n \<in> snd ` set (req_nodes s)"
  defines "d' \<equiv> filter (\<lambda>p. snd p \<notin> sub w n - {n}) (req_nodes s)"
  shows "\<exists>w'. clear_children n (req_nodes s, w) = Inr (d', w') \<and> tree_ok (s\<lparr>req_nodes := d'\<rparr>) w' \<and> n \<in> snd ` set d' \<and>
    arrays w' = arrays w \<and> length (sreqs w') = length (sreqs w) \<and> length (nodes w') = length (nodes w) \<and>
    (\<exists>v. aborted w (sub w n - {n}) v \<and> w' = v\<lparr>nodes := (nodes w)[n := (nodes w ! n)\<lparr>nd_children := []\<rparr>]\<rparr>)"
proof -
  have f: "forest w" and dk: "dict_ok (req_nodes s) w" using ok by (auto simp: tree_ok_def)
  have nl: "n < length (nodes w)" by (rule dict_len [OF dk n])
  let ?cs = "nd_children (nodes w ! n)" and ?U = "\<Union>c \<in> set (nd_children (nodes w ! n)). sub w c"
  have cs: "distinct ?cs" "\<And>c. c \<in> set ?cs \<Longrightarrow> n < c \<and> c < length (nodes w)"
    using forestD [OF f nl] by blast+
  have nU: "n \<notin> ?U"
  proof
    assume "n \<in> ?U"
    then obtain c where "c \<in> set ?cs" "n \<in> sub w c" by blast
    then show False using cs(2) sub_ge [OF f, of n c] by fastforce
  qed
  then have U: "?U = sub w n - {n}" using sub_unfold [OF nl] by blast
  have subs: "sub w n \<subseteq> snd ` set (req_nodes s)" by (rule sub_in_dict [OF ok n])
  have "\<exists>v. clear_nodes (length (nodes w)) ?cs (req_nodes s, w) = Inr (filter (\<lambda>p. snd p \<notin> ?U) (req_nodes s), v) \<and> aborted w ?U v"
  proof (rule clear_spec(2) [of "(req_nodes s, w)", unfolded fst_conv snd_conv, OF f dk cs(1)])
    show "\<forall>c \<in> set ?cs. c < length (nodes w) \<and> length (nodes w) - c \<le> length (nodes w)" using cs(2) by simp
    show "\<forall>c \<in> set ?cs. sub w c \<subseteq> snd ` set (req_nodes s)" using subs sub_unfold [OF nl] by blast
    show "\<forall>a \<in> set ?cs. \<forall>b \<in> set ?cs. a \<noteq> b \<longrightarrow> sub w a \<inter> sub w b = {}" using sub_siblings [OF f nl] by blast
  qed
  then obtain v where v: "clear_nodes (length (nodes w)) ?cs (req_nodes s, w) = Inr (d', v)" "aborted w (sub w n - {n}) v"
    unfolding U d'_def by blast
  have vn: "nodes v = nodes w" "arrays v = arrays w" "length (sreqs v) = length (sreqs w)" using v(2) by (simp_all add: aborted_def)
  let ?w' = "v\<lparr>nodes := (nodes w)[n := (nodes w ! n)\<lparr>nd_children := []\<rparr>]\<rparr>"
  have r: "clear_children n (req_nodes s, w) = Inr (d', ?w')" using v(1) vn by (simp add: clear_children_def)
  have nd: "n \<in> snd ` set d'" using n by (auto simp: d'_def)
  have ch: "nd_children (nodes ?w' ! m) = (if m = n then [] else nd_children (nodes w ! m))"
    "nd_parent (nodes ?w' ! m) = nd_parent (nodes w ! m)" "nd_req (nodes ?w' ! m) = nd_req (nodes w ! m)" for m
    using nl by (simp_all add: nth_list_update)
  have f': "forest ?w'"
  proof (rule forestI)
    fix x assume x: "x < length (nodes ?w')"
    then have xl: "x < length (nodes w)" by simp
    show "distinct (nd_children (nodes ?w' ! x))" unfolding ch using forestD(1) [OF f xl] by simp
    fix y assume "y \<in> set (nd_children (nodes ?w' ! x))"
    then have "y \<in> set (nd_children (nodes w ! x))" unfolding ch by (simp split: if_splits)
    then show "x < y \<and> y < length (nodes ?w') \<and> nd_parent (nodes ?w' ! y) = Some x" unfolding ch using forestD(2) [OF f xl] by simp
  qed
  have dk': "dict_ok d' ?w'"
  proof -
    have "dict_ok d' v" unfolding d'_def by (rule aborted_dict [OF v(2) dict_ok_filter [OF dk]])
    then show ?thesis using ch(3) vn(1) unfolding dict_ok_def node_req_def by fastforce
  qed
  have kids: "c \<in> snd ` set d'" if x: "x \<in> snd ` set d'" "x \<noteq> n" "c \<in> set (nd_children (nodes w ! x))" for x c
  proof -
    have xd: "x \<in> snd ` set (req_nodes s)" "x \<notin> sub w n" using x(1,2) by (auto simp: d'_def)
    have xc: "(x, c) \<in> child w" using x(3) dict_len [OF dk xd(1)] by (simp add: child_def)
    have "c \<in> snd ` set (req_nodes s)" using ok xd(1) x(3) by (auto simp: tree_ok_def)
    moreover have "c \<notin> sub w n - {n}"
    proof
      assume "c \<in> sub w n - {n}"
      then have "(n, c) \<in> (child w)\<^sup>*" "c \<noteq> n" by (auto simp: sub_def)
      then obtain y where "(n, y) \<in> (child w)\<^sup>*" "(y, c) \<in> child w" by (metis rtranclE)
      then have "x \<in> sub w n" using child_forest [OF f xc] child_forest [OF f, of y c] by (simp add: sub_def)
      then show False using xd(2) by simp
    qed
    ultimately show ?thesis by (auto simp: d'_def)
  qed
  have "p \<in> snd ` set d' \<and> m \<in> set (nd_children (nodes ?w' ! p))"
    if m: "m \<in> snd ` set d'" and p: "nd_parent (nodes ?w' ! m) = Some p" for m p
  proof -
    have md: "m \<in> snd ` set (req_nodes s)" "m \<notin> sub w n - {n}" using m by (auto simp: d'_def)
    have pd: "p \<in> snd ` set (req_nodes s)" "(p, m) \<in> child w" using tree_parent [OF ok md(1)] p ch(2) by simp_all
    have "p \<notin> sub w n"
    proof
      assume "p \<in> sub w n"
      then have "m \<in> sub w n" "n \<le> p" using pd(2) sub_ge [OF f] by (auto simp: sub_def)
      then show False using md(2) child_forest [OF f pd(2)] by simp
    qed
    then have "p \<noteq> n" "p \<in> snd ` set d'" using pd(1) by (auto simp: d'_def)
    then show ?thesis using pd(2) unfolding ch by (simp add: child_def)
  qed
  moreover have "set (nd_children (nodes ?w' ! x)) \<subseteq> snd ` set d'" if "x \<in> snd ` set d'" for x
    unfolding ch using kids [OF that] by auto
  ultimately have "tree_ok (s\<lparr>req_nodes := d'\<rparr>) ?w'" using ok f' dk' unfolding tree_ok_def by simp
  then show ?thesis using r nd vn v(2) by (intro exI [of _ ?w']) auto
qed

section \<open>Adding a request\<close>

lemma tree_ok_keeps:
  assumes "tree_ok s w" "keeps w w'"
  shows "tree_ok s w'"
proof -
  have n: "nodes w' = nodes w" using assms(2) by (simp add: keeps_def)
  have "dict_ok (req_nodes s) w'"
  proof -
    have "dict_ok (req_nodes s) w" using assms(1) by (simp add: tree_ok_def)
    then show ?thesis using assms(2) by (auto simp: dict_ok_def keeps_def node_req_def)
  qed
  then show ?thesis using assms(1) forest_cong [OF n] by (simp add: tree_ok_def n)
qed

lemma tree_ok_touch [simp]: "tree_ok (s\<lparr>last_active_time := t\<rparr>) w = tree_ok s w"
  "tree_ok (s\<lparr>last_active_time := t, req_nodes := d\<rparr>) w = tree_ok (s\<lparr>req_nodes := d\<rparr>) w"
  by (simp_all add: tree_ok_def)

lemma update_new: "k \<notin> fst ` set al \<Longrightarrow> AList.update k v al = al @ [(k, v)]"
  by (induction al) auto

lemma add_node_ok:
  assumes ok: "tree_ok s w" and r: "r < length (sreqs w)" "sr_rid (sreqs w ! r) = k" "sr_origin (sreqs w ! r) < length (arrays w)"
    and k: "k \<notin> fst ` set (req_nodes s)" and p: "case parent of None \<Rightarrow> True | Some p \<Rightarrow> p \<in> snd ` set (req_nodes s)"
    and new: "new_snode r parent w = (n, w')"
  shows "n = length (nodes w)" "AList.update k n (req_nodes s) = req_nodes s @ [(k, n)]"
    "tree_ok (s\<lparr>req_nodes := req_nodes s @ [(k, n)]\<rparr>) w'" "sreqs w' = sreqs w" "arrays w' = arrays w"
    "nodes w' ! n = \<lparr>nd_req = r, nd_parent = parent, nd_children = []\<rparr>"
    "\<And>m. m < n \<Longrightarrow> nodes w' ! m = (if parent = Some m then (nodes w ! m)\<lparr>nd_children := nd_children (nodes w ! m) @ [n]\<rparr> else nodes w ! m)"
proof -
  have f: "forest w" and dk: "dict_ok (req_nodes s) w" using ok by (auto simp: tree_ok_def)
  have pl: "p < length (nodes w)" if "parent = Some p" for p using p that dict_len [OF dk] by simp
  show n: "n = length (nodes w)" and s: "sreqs w' = sreqs w" and a: "arrays w' = arrays w"
    using new by (auto simp: new_snode_def Let_def)
  show upd: "AList.update k n (req_nodes s) = req_nodes s @ [(k, n)]" using k by (rule update_new)
  have len: "length (nodes w') = Suc n" using new n by (auto simp: new_snode_def Let_def split: option.split)
  show new_n: "nodes w' ! n = \<lparr>nd_req = r, nd_parent = parent, nd_children = []\<rparr>"
    and "\<And>m. m < n \<Longrightarrow> nodes w' ! m = (if parent = Some m then (nodes w ! m)\<lparr>nd_children := nd_children (nodes w ! m) @ [n]\<rparr> else nodes w ! m)"
    using new pl n by (auto simp: new_snode_def Let_def nth_append nth_list_update split: option.splits)
  have ch: "nd_children (nodes w' ! m) = (if m = n then [] else if parent = Some m then nd_children (nodes w ! m) @ [n] else nd_children (nodes w ! m))"
    "nd_parent (nodes w' ! m) = (if m = n then parent else nd_parent (nodes w ! m))"
    "nd_req (nodes w' ! m) = (if m = n then r else nd_req (nodes w ! m))" if "m \<le> n" for m
    using new pl that n by (auto simp: new_snode_def Let_def nth_append nth_list_update split: option.splits)
  have f': "forest w'"
  proof (rule forestI)
    fix x assume "x < length (nodes w')"
    then have x: "x \<le> n" using len by simp
    show "distinct (nd_children (nodes w' ! x))"
    proof (cases "x = n")
      case False
      then have xl: "x < length (nodes w)" using x n by simp
      have "n \<notin> set (nd_children (nodes w ! x))" using forestD(2) [OF f xl, of n] n by blast
      then show ?thesis using ch(1) [OF x] forestD(1) [OF f xl] False by simp
    qed (use ch(1) [OF x] in simp)
    fix y assume "y \<in> set (nd_children (nodes w' ! x))"
    then have *: "x < n" "y \<in> set (nd_children (nodes w ! x)) \<or> parent = Some x \<and> y = n"
      using ch(1) [OF x] x by (auto split: if_splits)
    then show "x < y \<and> y < length (nodes w') \<and> nd_parent (nodes w' ! y) = Some x"
    proof -
      have xl: "x < length (nodes w)" using *(1) n by simp
      from *(2) show ?thesis
      proof
        assume "y \<in> set (nd_children (nodes w ! x))"
        then have "x < y" "y < n" "nd_parent (nodes w ! y) = Some x" using forestD(2) [OF f xl] n by blast+
        then show ?thesis using ch(2) [of y] len by simp
      qed (use *(1) ch(2) [of n] len in simp)
    qed
  qed
  have dn: "m < n" if "m \<in> snd ` set (req_nodes s)" for m using dict_len [OF dk that] n by simp
  have "dict_ok (req_nodes s @ [(k, n)]) w'"
  proof -
    have old: "m < length (nodes w') \<and> nd_req (nodes w' ! m) < length (sreqs w') \<and> sr_rid (node_req w' m) = j \<and>
        sr_origin (node_req w' m) < length (arrays w')" if "(j, m) \<in> set (req_nodes s)" for j m
    proof -
      have "m < n" using dn that by force
      moreover have "m < length (nodes w) \<and> nd_req (nodes w ! m) < length (sreqs w) \<and> sr_rid (node_req w m) = j \<and>
          sr_origin (node_req w m) < length (arrays w)" using dk that by (auto simp: dict_ok_def)
      ultimately show ?thesis using ch(3) [of m] len n s a by (simp add: node_req_def)
    qed
    have "distinct (map fst (req_nodes s @ [(k, n)]))" using dk k by (simp add: dict_ok_def)
    then show ?thesis using old ch(3) [of n] r s a len by (auto simp: dict_ok_def node_req_def)
  qed
  moreover have "set (nd_children (nodes w' ! m)) \<subseteq> snd ` set (req_nodes s @ [(k, n)])" if "m \<in> snd ` set (req_nodes s @ [(k, n)])" for m
  proof (cases "m = n")
    case False
    then have "m \<in> snd ` set (req_nodes s)" using that by auto
    then have "set (nd_children (nodes w ! m)) \<subseteq> snd ` set (req_nodes s)" "m < n" using ok dn by (auto simp: tree_ok_def)
    then show ?thesis using ch(1) [of m] by auto
  qed (use ch(1) in simp)
  moreover have "q \<in> snd ` set (req_nodes s @ [(k, n)]) \<and> m \<in> set (nd_children (nodes w' ! q))"
    if m: "m \<in> snd ` set (req_nodes s @ [(k, n)])" and q: "nd_parent (nodes w' ! m) = Some q" for m q
  proof (cases "m = n")
    case True
    then have "q \<in> snd ` set (req_nodes s)" "parent = Some q" using q p ch(2) [of n] by auto
    then show ?thesis using True ch(1) [of q] dn [of q] by auto
  next
    case False
    then have md: "m \<in> snd ` set (req_nodes s)" using m by auto
    then have "q \<in> snd ` set (req_nodes s)" "(q, m) \<in> child w" using tree_parent [OF ok md] q ch(2) [of m] dn [OF md] by auto
    then show ?thesis using ch(1) [of q] dn [of q] by (auto simp: child_def)
  qed
  ultimately show "tree_ok (s\<lparr>req_nodes := req_nodes s @ [(k, n)]\<rparr>) w'" using ok f' by (simp add: tree_ok_def)
qed

text \<open>The tokens a turn is to start with: those of the request it continues, its prompt and, unless
  it is dropped, its output up to the limit; of these the first \<open>offset\<close>, counted from the end when
  negative and all when it is 0 or missing; then the new input, without a leading BOS.\<close>

definition first_n :: "int \<Rightarrow> 'a list \<Rightarrow> 'a list" where
  "first_n k xs = (if 0 \<le> k then take (nat k) xs else take (length xs - nat (- k)) xs)"

definition kept_output :: "sreq \<Rightarrow> int list" where
  "kept_output q = (case sr_max_new_tokens q of None \<Rightarrow> sr_output q | Some m \<Rightarrow> first_n m (sr_output q))"

definition turn_tokens :: "int option \<Rightarrow> gen_input \<Rightarrow> session_params \<Rightarrow> nat option \<Rightarrow> world \<Rightarrow> int list" where
  "turn_tokens bos gi sp prev w =
     (case prev of
        None \<Rightarrow> arr w (gi_input_ids gi)
      | Some p \<Rightarrow>
          (let q = node_req w p;
               prior = arr w (sr_origin q) @ (if sp_drop_previous_output sp = Some True then [] else kept_output q);
               kept = (case sp_offset sp of None \<Rightarrow> prior | Some k \<Rightarrow> if k = 0 then prior else first_n k prior)
           in kept @ strip_bos bos (arr w (gi_input_ids gi))))"

lemma upto_first_n: "upto (Some k) xs = first_n k xs"
proof (cases "0 \<le> k")
  case False
  then have "nat (max 0 (k + int (length xs))) = length xs - nat (- k)" by simp
  then show ?thesis using False by (simp add: upto_def first_n_def clip_bound_def)
qed (simp add: upto_def first_n_def clip_bound_def min_def)

lemma kept_output_tail: "kept_output q = out_tail q"
  by (cases "sr_max_new_tokens q") (simp_all add: kept_output_def out_tail_def upto_first_n, simp add: upto_def)

lemma turn_tokens_assemble:
  "turn_tokens bos gi sp (Some p) w =
     assemble (arr w (sr_origin (node_req w p))) (out_tail (node_req w p)) sp (strip_bos bos (arr w (gi_input_ids gi)))"
  by (cases "sp_offset sp") (simp_all add: turn_tokens_def assemble_def has_offset_def truthy_def kept_output_tail upto_first_n Let_def)

lemma assemble_tree:
  assumes ok: "tree_ok s w" and prev: "case prev of None \<Rightarrow> True | Some p \<Rightarrow> p \<in> snd ` set (req_nodes s)"
    and gi: "gi_input_ids gi < length (arrays w)" and t: "assemble_turn bos gi sp prev s w = (ia, ua, carry, w')"
  shows "carry = None" "keeps w w'" "sreqs w' = sreqs w" "ia < length (arrays w')" "ua < length (arrays w')" "arr w' ia = turn_tokens bos gi sp prev w"
proof -
  have "carry = None \<and> keeps w w' \<and> sreqs w' = sreqs w \<and> ia < length (arrays w') \<and> ua < length (arrays w') \<and>
    arr w' ia = turn_tokens bos gi sp prev w"
  proof (cases prev)
    case None
    then show ?thesis using t gi by (auto simp: assemble_turn_def turn_tokens_def keeps_def)
  next
    case (Some p)
    let ?q = "node_req w p"
    have dk: "dict_ok (req_nodes s) w" "\<not> can_share sp s" using ok by (auto simp: tree_ok_def can_share_def)
    have o: "sr_origin ?q < length (arrays w)" using dict_node(1) [OF dk(1)] dk(1) prev Some by (fastforce simp: dict_ok_def)
    obtain gi' v where v: "strip_bos_token bos gi w = (gi', v)" by (rule prod.exhaust)
    note S = strip_spec [OF v gi]
    let ?new = "strip_bos bos (arr w (gi_input_ids gi))"
    obtain a1 v1 where a1: "new_arr (assemble (arr v (sr_origin ?q)) (out_tail ?q) sp ?new) v = (a1, v1)" by (rule prod.exhaust)
    obtain a2 v2 where a2: "new_arr (assemble (arr v (sr_unpadded ?q)) (out_tail ?q) sp ?new) v1 = (a2, v2)" by (rule prod.exhaust)
    note N1 = new_arr_sel [OF a1] and N2 = new_arr_sel [OF a2]
    have r: "ia = a1" "ua = a2" "carry = None" "w' = v2"
      using t Some v a1 a2 dk(2) S(3) by (auto simp: assemble_turn_def concat_token_arrays_def Let_def)
    have "keeps w v2" using keeps_trans [OF keeps_trans [OF S(1) keeps_new_arr [OF a1]] keeps_new_arr [OF a2]] .
    moreover have "arr v (sr_origin ?q) = arr w (sr_origin ?q)" using S(1) o by (simp add: keeps_def)
    ultimately show ?thesis using r N1 N2 S(2) Some by (simp add: turn_tokens_assemble)
  qed
  then show "carry = None" "keeps w w'" "sreqs w' = sreqs w" "ia < length (arrays w')" "ua < length (arrays w')" "arr w' ia = turn_tokens bos gi sp prev w"
    by blast+
qed

lemma create_tree:
  assumes ok: "tree_ok s1 w1" and sel: "select_last sp (s\<lparr>last_active_time := now\<rparr>) w = Inr (prev, None, s1, w1)"
    and sp: "gi_session_params gi = Some sp" and prev: "case prev of None \<Rightarrow> True | Some p \<Rightarrow> p \<in> snd ` set (req_nodes s1)"
    and k: "gi_rid gi \<notin> fst ` set (req_nodes s1)" and gi: "gi_input_ids gi < length (arrays w1)"
  defines "r \<equiv> length (sreqs w1)" and "s' \<equiv> s1\<lparr>req_nodes := req_nodes s1 @ [(gi_rid gi, length (nodes w1))]\<rparr>"
  shows "\<exists>w'. create_req now bos sid gi s w = Inr (r, s', w') \<and> tree_ok s' w' \<and>
    arr w' (sr_origin (sreqs w' ! r)) = turn_tokens bos gi sp prev w1 \<and> (\<forall>i < r. sreqs w' ! i = sreqs w1 ! i) \<and>
    nodes w' ! length (nodes w1) = \<lparr>nd_req = r, nd_parent = prev, nd_children = []\<rparr> \<and>
    (\<forall>m < length (nodes w1). nodes w' ! m =
       (if prev = Some m then (nodes w1 ! m)\<lparr>nd_children := nd_children (nodes w1 ! m) @ [length (nodes w1)]\<rparr> else nodes w1 ! m))"
proof -
  obtain ia ua carry w2 where t: "assemble_turn bos gi sp prev s1 w1 = (ia, ua, carry, w2)" by (metis prod_cases4)
  note A = assemble_tree [OF ok prev gi t]
  obtain i w3 where n: "new_sreq gi ia ua sid w2 = (i, w3)" by (rule prod.exhaust)
  note N = new_sreq_sel [OF n]
  define w4 where "w4 = (case prev of None \<Rightarrow> w3
      | Some n \<Rightarrow> upd_sreq i (\<lambda>q. q\<lparr>sr_multimodal_inputs := sr_multimodal_inputs (node_req w3 n)\<rparr>) w3)"
  have i: "i = r" "i < length (sreqs w4)" using N(1,4) A(3) by (auto simp: r_def w4_def split: option.split)
  have k4: "keeps w1 w4" using keeps_trans [OF A(2) N(2)] N(1) A(3)
    by (auto simp: w4_def intro!: keeps_upd split: option.split)
  have arrs: "arrays w4 = arrays w3" by (auto simp: w4_def split: option.split)
  have q: "sr_origin (sreqs w4 ! i) = ia" "sr_rid (sreqs w4 ! i) = gi_rid gi"
    using N(4) N(6) [OF A(5)] by (auto simp: w4_def split: option.split)
  have ia: "ia < length (arrays w4)" "arr w4 ia = arr w2 ia" using A(4) N(2,3) arrs by (auto simp: keeps_def arr_def)
  obtain m w5 where m: "new_snode i prev w4 = (m, w5)" by (rule prod.exhaust)
  note M = add_node_ok [OF tree_ok_keeps [OF ok k4] i(2) q(2) _ k prev m]
  have ns: "\<not> streaming s1" using ok by (simp add: tree_ok_def)
  have nodes4: "nodes w4 = nodes w1" using k4 by (simp add: keeps_def)
  have create: "create_req now bos sid gi s w = Inr (r, s', w5)"
    using sel sp t n m M(1,2) A(1) ns i(1) nodes4 q(1) ia(1) unfolding create_req_def w4_def s'_def
    by (simp add: Let_def split: option.splits)
  moreover have "tree_ok s' w5" using M(1,3) q(1) ia(1) nodes4 by (simp add: s'_def)
  moreover have "sreqs w5 = sreqs w4" "arrays w5 = arrays w4" using M(4,5) q(1) ia(1) by simp_all
  moreover have "nodes w5 ! length (nodes w1) = \<lparr>nd_req = r, nd_parent = prev, nd_children = []\<rparr>"
    "\<forall>m < length (nodes w1). nodes w5 ! m =
       (if prev = Some m then (nodes w1 ! m)\<lparr>nd_children := nd_children (nodes w1 ! m) @ [length (nodes w1)]\<rparr> else nodes w1 ! m)"
    using M(1,6,7) q(1) ia(1) i(1) nodes4 by simp_all
  ultimately show ?thesis using q ia A(6) k4 i(1) by (auto simp: arr_def keeps_def r_def)
qed

text \<open>A turn that continues a finished request, or starts a new branch.\<close>

theorem append_turn:
  assumes ok: "tree_ok s w" and sp: "gi_session_params gi = Some sp" "\<not> truthy (sp_replace sp)"
    and prev: "case sp_rid sp of None \<Rightarrow> prev = None
      | Some k \<Rightarrow> \<exists>n. map_of (req_nodes s) k = Some n \<and> prev = Some n \<and> req_is_finished (node_req w n)"
    and k: "gi_rid gi \<notin> fst ` set (req_nodes s)" and gi: "gi_input_ids gi < length (arrays w)"
  shows "\<exists>r s' w'. create_req now bos sid gi s w = Inr (r, s', w') \<and> tree_ok s' w' \<and>
    req_nodes s' = req_nodes s @ [(gi_rid gi, length (nodes w))] \<and> arr w' (sr_origin (sreqs w' ! r)) = turn_tokens bos gi sp prev w \<and>
    nodes w' ! length (nodes w) = \<lparr>nd_req = r, nd_parent = prev, nd_children = []\<rparr> \<and>
    (\<forall>m < length (nodes w). nodes w' ! m =
       (if prev = Some m then (nodes w ! m)\<lparr>nd_children := nd_children (nodes w ! m) @ [length (nodes w)]\<rparr> else nodes w ! m)) \<and>
    r = length (sreqs w) \<and> (\<forall>i < r. sreqs w' ! i = sreqs w ! i)"
proof -
  let ?s1 = "s\<lparr>last_active_time := now\<rparr>"
  have sel: "select_last sp ?s1 w = Inr (prev, None, ?s1, w)"
    using ok sp(2) prev by (auto simp: select_last_def tree_ok_def split: option.splits)
  have p: "case prev of None \<Rightarrow> True | Some p \<Rightarrow> p \<in> snd ` set (req_nodes ?s1)"
    using prev by (force split: option.splits dest!: map_of_SomeD)
  have "tree_ok ?s1 w" "gi_rid gi \<notin> fst ` set (req_nodes ?s1)" using ok k by simp_all
  note C = create_tree [OF this(1) sel sp(1) p this(2) gi, of bos sid]
  then show ?thesis by (elim exE conjE) (intro exI conjI, assumption+, simp_all)
qed

text \<open>A turn that replaces a request: the requests below it are dropped and aborted.\<close>

theorem replace_turn:
  assumes ok: "tree_ok s w" and sp: "gi_session_params gi = Some sp" "truthy (sp_replace sp)" "sp_rid sp = Some k" "map_of (req_nodes s) k = Some n"
    and new: "gi_rid gi \<notin> fst ` set (req_nodes s)" and gi: "gi_input_ids gi < length (arrays w)"
  shows "\<exists>r s' w'. create_req now bos sid gi s w = Inr (r, s', w') \<and> tree_ok s' w' \<and>
    req_nodes s' = filter (\<lambda>p. snd p \<notin> sub w n - {n}) (req_nodes s) @ [(gi_rid gi, length (nodes w))] \<and>
    arr w' (sr_origin (sreqs w' ! r)) = turn_tokens bos gi sp (Some n) w \<and>
    (\<forall>m \<in> sub w n. sr_finished_reason (node_req w m) = None \<longrightarrow>
       sr_to_finish (sreqs w' ! nd_req (nodes w ! m)) = Some (FINISH_ABORT ''Aborted''))"
proof -
  let ?t = "s\<lparr>last_active_time := now\<rparr>" and ?w0 = "abort_node n w"
  have dk: "dict_ok (req_nodes s) w" using ok by (simp add: tree_ok_def)
  have n: "n \<in> snd ` set (req_nodes s)" using map_of_SomeD [OF sp(4)] by force
  note ab = aborted_node [of w n]
  have nw: "nodes ?w0 = nodes w" "arrays ?w0 = arrays w" using ab by (simp_all add: aborted_def)
  have subw: "sub ?w0 m = sub w m" for m using aborted_sub [OF ab] by blast
  have "tree_ok s ?w0" using ok aborted_dict [OF ab dk] aborted_sub [OF ab] by (simp add: tree_ok_def nw)
  note C = clear_children_spec [OF this n, unfolded subw nw]
  obtain w1 v where c: "clear_children n (req_nodes s, ?w0) = Inr (filter (\<lambda>p. snd p \<notin> sub w n - {n}) (req_nodes s), w1)"
    "tree_ok (s\<lparr>req_nodes := filter (\<lambda>p. snd p \<notin> sub w n - {n}) (req_nodes s)\<rparr>) w1"
    "n \<in> snd ` set (filter (\<lambda>p. snd p \<notin> sub w n - {n}) (req_nodes s))" "arrays w1 = arrays w" "length (nodes w1) = length (nodes w)"
    "length (sreqs w1) = length (sreqs ?w0)"
    "aborted ?w0 (sub w n - {n}) v" "w1 = v\<lparr>nodes := (nodes w)[n := (nodes w ! n)\<lparr>nd_children := []\<rparr>]\<rparr>"
    using C by blast
  let ?d = "filter (\<lambda>p. snd p \<notin> sub w n - {n}) (req_nodes s)"
  let ?s1 = "?t\<lparr>req_nodes := ?d\<rparr>"
  have sel: "select_last sp ?t w = Inr (Some n, None, ?s1, w1)"
    using ok sp c(1) by (simp add: select_last_def tree_ok_def)
  have ok1: "tree_ok ?s1 w1" using c(2) by (simp only: tree_ok_touch)
  have A: "aborted w (sub w n) v" using aborted_trans [OF ab c(7)] by (simp add: insert_absorb)
  have sr: "sreqs w1 = sreqs v" "length (sreqs v) = length (sreqs w)" using A by (simp_all add: c(8) aborted_def)
  have nreq: "nd_req (nodes w1 ! m) = nd_req (nodes w ! m)" for m
    using dict_len [OF dk n] by (simp add: c(8) nth_list_update)
  have tok: "turn_tokens bos gi sp (Some n) w1 = turn_tokens bos gi sp (Some n) w"
    using A c(4) nreq by (auto simp: turn_tokens_assemble node_req_def arr_def out_tail_def aborted_def sr(1))
  have new1: "gi_rid gi \<notin> fst ` set (req_nodes ?s1)" using new by auto
  obtain w' where w': "create_req now bos sid gi s w = Inr (length (sreqs w1), ?s1\<lparr>req_nodes := ?d @ [(gi_rid gi, length (nodes w1))]\<rparr>, w')"
    "tree_ok (?s1\<lparr>req_nodes := ?d @ [(gi_rid gi, length (nodes w1))]\<rparr>) w'"
    "arr w' (sr_origin (sreqs w' ! length (sreqs w1))) = turn_tokens bos gi sp (Some n) w1"
    "\<forall>i < length (sreqs w1). sreqs w' ! i = sreqs w1 ! i"
    using create_tree [OF ok1 sel sp(1) _ new1, of bos sid] c(3,4) gi by auto
  have "sr_to_finish (sreqs w' ! nd_req (nodes w ! m)) = Some (FINISH_ABORT ''Aborted'')"
    if m: "m \<in> sub w n" "sr_finished_reason (node_req w m) = None" for m
  proof -
    have "m \<in> snd ` set (req_nodes s)" using sub_in_dict [OF ok n] m(1) by blast
    then have "nd_req (nodes w ! m) < length (sreqs w)" using dk by (auto simp: dict_ok_def)
    then show ?thesis using m w'(4) A sr by (auto simp: aborted_def node_req_def)
  qed
  then show ?thesis using w' c(5) tok by (intro exI) auto
qed

text \<open>Replacing everything (\<open>rid\<close> omitted) never succeeds on a session with requests: the loop
  deletes from the dictionary it iterates over.\<close>

theorem replace_all_raises:
  assumes ok: "tree_ok s w" and ne: "req_nodes s \<noteq> []"
    and sp: "gi_session_params gi = Some sp" "truthy (sp_replace sp)" "sp_rid sp = None"
  shows "create_req now bos sid gi s w = Inl RuntimeError"
proof -
  have dk: "dict_ok (req_nodes s) w" "forest w" using ok by (auto simp: tree_ok_def)
  obtain k n rest where d: "req_nodes s = (k, n) # rest" using ne by (metis list.exhaust surj_pair)
  then have n: "n \<in> snd ` set (req_nodes s)" by simp
  have nl: "n < length (nodes w)" by (rule dict_len [OF dk(1) n])
  have "\<exists>w'. clear_node (length (nodes w) + 1) n (req_nodes s, w) = Inr (filter (\<lambda>p. snd p \<notin> sub w n) (req_nodes s), w') \<and> aborted w (sub w n) w'"
    by (rule clear_spec(1) [of "(req_nodes s, w)", unfolded fst_conv snd_conv, OF dk(2,1) nl _ sub_in_dict [OF ok n]]) simp
  then obtain w' where c: "clear_node (length (nodes w) + 1) n (req_nodes s, w) = Inr (filter (\<lambda>p. snd p \<notin> sub w n) (req_nodes s), w')" by blast
  have "length (filter (\<lambda>p. snd p \<notin> sub w n) (req_nodes s)) < length (req_nodes s)"
    using n by (intro length_filter_less [of "(k, n)"]) (simp_all add: d)
  then have "clear_all (length (req_nodes s)) (req_nodes s) (req_nodes s, w) = Inl RuntimeError"
    using c by (subst clear_all.simps) (simp add: d del: clear_all.simps, simp)
  then show ?thesis using ok sp by (simp add: create_req_def select_last_def tree_ok_def)
qed

end
