(* ===== verification/StreamingProofs.thy ===== *)
theory StreamingProofs
  imports StreamingSession SessionTree
begin

text \<open>
  What the slots of streaming sessions own. \<open>row_laid\<close> says that a row holds the given pages up to a
  length and that none of them is in the pool. Matching, finishing and releasing move whole pages
  between a row and the pool and never lose or duplicate one.
\<close>

definition row_laid :: "'c streaming \<Rightarrow> nat option \<Rightarrow> nat list \<Rightarrow> nat \<Rightarrow> bool" where
  "row_laid st idx pages n \<longleftrightarrow> al_ok (ss_alloc st) \<and> al_page_size (ss_alloc st) = ss_page_size st \<and>
     (case idx of None \<Rightarrow> False
      | Some i \<Rightarrow> i < length (req_to_token (ss_rows st)) \<and> laid (ss_page_size st) pages (req_to_token (ss_rows st) ! i) n) \<and>
     page_slots (ss_page_size st) (set pages) \<inter> pool_slots (ss_alloc st) = {}"

lemma row_laid_page: "row_laid st idx pages n \<Longrightarrow> 0 < ss_page_size st"
  using al_ok_page [of "ss_alloc st"] by (simp add: row_laid_def)

lemma row_laid_cong:
  "ss_rows st' = ss_rows st \<Longrightarrow> ss_alloc st' = ss_alloc st \<Longrightarrow> ss_page_size st' = ss_page_size st \<Longrightarrow>
   row_laid st' idx pages n = row_laid st idx pages n"
  by (simp only: row_laid_def)

lemma page_slots_disjoint: "0 < p \<Longrightarrow> A \<inter> B = {} \<Longrightarrow> page_slots p A \<inter> page_slots p B = {}"
  by (auto simp: page_slots_def)

lemma row_laid_cut:
  assumes l: "row_laid st idx pages n" and m: "m \<le> n"
    and a': "al_ok a'" "al_page_size a' = ss_page_size st" "pool_slots a' = pool_slots (ss_alloc st) \<union> page_slots (ss_page_size st) (set (drop (pages_of (ss_page_size st) m) pages))"
  shows "row_laid (st\<lparr>ss_alloc := a'\<rparr>) idx (take (pages_of (ss_page_size st) m) pages) m"
proof -
  let ?p = "ss_page_size st" and ?k = "pages_of (ss_page_size st) m"
  have p: "0 < ?p" by (rule row_laid_page [OF l])
  obtain i where i: "idx = Some i" "i < length (req_to_token (ss_rows st))" "laid ?p pages (req_to_token (ss_rows st) ! i) n"
    using l by (auto simp: row_laid_def split: option.splits)
  have d: "distinct pages" using i(3) by (simp add: laid_def)
  then have "set (take ?k pages) \<inter> set (drop ?k pages) = {}" by (metis append_take_drop_id distinct_append)
  then have "page_slots ?p (set (take ?k pages)) \<inter> page_slots ?p (set (drop ?k pages)) = {}" by (rule page_slots_disjoint [OF p])
  moreover have "page_slots ?p (set (take ?k pages)) \<inter> pool_slots (ss_alloc st) = {}"
    using l page_slots_mono [OF set_take_subset, of ?p ?k pages] by (auto simp: row_laid_def)
  ultimately show ?thesis using a' i laid_prefix [OF p i(3) m] by (auto simp: row_laid_def)
qed

lemma free_row_spec:
  assumes l: "row_laid st idx pages n" and s: "ss_page_size st dvd s" "s \<le> n"
  shows "\<exists>a'. free_row idx s n st = Inr (st\<lparr>ss_alloc := a'\<rparr>) \<and> al_ok a' \<and> al_page_size a' = ss_page_size st \<and>
    pool_slots a' = pool_slots (ss_alloc st) \<union> page_slots (ss_page_size st) (set (drop (s div ss_page_size st) pages))"
proof -
  let ?p = "ss_page_size st" and ?a = "ss_alloc st"
  obtain i where i: "idx = Some i" "i < length (req_to_token (ss_rows st))" "laid ?p pages (req_to_token (ss_rows st) ! i) n"
    using l by (auto simp: row_laid_def split: option.splits)
  have pa: "al_page_size ?a = ?p" "al_ok ?a" "page_slots ?p (set pages) \<inter> pool_slots ?a = {}" using l by (auto simp: row_laid_def)
  obtain a' where a': "al_free (slice s n (req_to_token (ss_rows st) ! i)) ?a = Inr a'" "al_ok a'" "al_page_size a' = ?p"
    "pool_slots a' = pool_slots ?a \<union> page_slots ?p (set (drop (s div ?p) pages))"
    using free_tail_pages [OF pa(2), unfolded pa(1), OF i(3) s pa(3)] by blast
  have "free_row idx s n st = Inr (st\<lparr>ss_alloc := a'\<rparr>)" using i a'(1) by (simp add: free_row_def row_slice_def)
  then show ?thesis using a' by blast
qed

lemma free_aligned_spec:
  assumes l: "row_laid st idx pages n" and t: "t \<le> n"
  shows "\<exists>a'. free_kv_aligned idx t n st = Inr (st\<lparr>ss_alloc := a'\<rparr>) \<and> al_ok a' \<and> al_page_size a' = ss_page_size st \<and>
    pool_slots a' = pool_slots (ss_alloc st) \<union> page_slots (ss_page_size st) (set (drop (pages_of (ss_page_size st) t) pages))"
proof -
  let ?p = "ss_page_size st" and ?k = "pages_of (ss_page_size st) t"
  have p: "0 < ?p" by (rule row_laid_page [OF l])
  have start: "(if ?p > 1 then ceil_align t ?p else t) = ?k * ?p"
    using p by (cases "?p = 1") (auto simp: ceil_align_def pages_of_def)
  have same: "st\<lparr>ss_alloc := ss_alloc st\<rparr> = st" by simp
  have pa: "al_page_size (ss_alloc st) = ?p" "al_ok (ss_alloc st)" using l by (auto simp: row_laid_def)
  show ?thesis
  proof (cases "?k * ?p < n")
    case True
    then have "\<not> n \<le> t" using pages_of_bounds(1) [OF p, of t] by linarith
    then show ?thesis using free_row_spec [OF l, of "?k * ?p"] True p start by (simp add: free_kv_aligned_def Let_def)
  next
    case False
    have "length pages = pages_of ?p n" using l by (auto simp: row_laid_def laid_def split: option.splits)
    moreover have "pages_of ?p n \<le> ?k"
    proof -
      have "pages_of ?p n * ?p < (?k + 1) * ?p" using pages_of_bounds(2) [OF p, of n] False by (simp add: add_mult_distrib)
      then have "pages_of ?p n < ?k + 1" by (simp only: mult_less_cancel2)
      then show ?thesis by simp
    qed
    ultimately have "drop ?k pages = []" by simp
    then show ?thesis using False start pa
      by (intro exI [of _ "ss_alloc st"]) (simp add: free_kv_aligned_def Let_def page_slots_def same)
  qed
qed

section \<open>Releasing a session\<close>

definition slot_laid :: "'c streaming \<Rightarrow> session_slot \<Rightarrow> nat list \<Rightarrow> bool" where
  "slot_laid st sl pages \<longleftrightarrow>
     (case sl_kv sl of None \<Rightarrow> False
      | Some k \<Rightarrow> row_laid st (sl_pool_idx sl) pages (kv_allocated_len k) \<and>
          ss_page_size st dvd sl_protected_len sl \<and> sl_protected_len sl \<le> kv_allocated_len k)"

theorem release_session_frees:
  assumes slot: "map_of (ss_slots st) sid = Some sl" and l: "slot_laid st sl pages"
    and dec: "case sl_last_node sl of None \<Rightarrow> c' = ss_inner st | Some n \<Rightarrow> dec n (ss_inner st) = Inr c'"
  shows "\<exists>st'. release_session dec sid st = Inr st' \<and> ss_slots st' = AList.delete sid (ss_slots st) \<and> ss_inner st' = c' \<and>
    free_slots (ss_rows st') = free_slots (ss_rows st) @ [the (sl_pool_idx sl)] \<and> al_ok (ss_alloc st') \<and>
    pool_slots (ss_alloc st') = pool_slots (ss_alloc st) \<union>
      page_slots (ss_page_size st) (set (drop (sl_protected_len sl div ss_page_size st) pages)) \<and>
    int (card (pool_slots (ss_alloc st'))) = int (card (pool_slots (ss_alloc st))) + slot_held_tokens (ss_page_size st) sl"
proof -
  let ?p = "ss_page_size st" and ?n = "sl_protected_len sl"
  obtain k where k: "sl_kv sl = Some k" "row_laid st (sl_pool_idx sl) pages (kv_allocated_len k)" "?p dvd ?n" "?n \<le> kv_allocated_len k"
    using l by (auto simp: slot_laid_def split: option.splits)
  let ?G = "drop (?n div ?p) pages"
  define st1 where "st1 = st\<lparr>ss_slots := AList.delete sid (ss_slots st), ss_inner := c'\<rparr>"
  have d: "(case sl_last_node sl of None \<Rightarrow> Inr (st\<lparr>ss_slots := AList.delete sid (ss_slots st)\<rparr>)
      | Some n \<Rightarrow> map_res (\<lambda>c. st\<lparr>ss_slots := AList.delete sid (ss_slots st), ss_inner := c\<rparr>) (dec n (ss_inner (st\<lparr>ss_slots := AList.delete sid (ss_slots st)\<rparr>)))) = Inr st1"
    using dec by (auto simp: st1_def split: option.splits)
  have l1: "row_laid st1 (sl_pool_idx sl) pages (kv_allocated_len k)" "ss_page_size st1 = ?p" "ss_alloc st1 = ss_alloc st"
    using k(2) row_laid_cong [of st1 st] by (simp_all add: st1_def)
  obtain i where i: "sl_pool_idx sl = Some i" "laid ?p pages (req_to_token (ss_rows st) ! i) (kv_allocated_len k)"
    using k(2) by (auto simp: row_laid_def split: option.splits)
  have p: "0 < ?p" by (rule row_laid_page [OF k(2)])
  have lp: "length pages = pages_of ?p (kv_allocated_len k)" "distinct pages" using i(2) by (auto simp: laid_def)
  obtain a' where a': "(if ?n < kv_allocated_len k then free_row (sl_pool_idx sl) ?n (kv_allocated_len k) st1 else Inr st1) = Inr (st1\<lparr>ss_alloc := a'\<rparr>)"
    "al_ok a'" "al_page_size a' = ?p" "pool_slots a' = pool_slots (ss_alloc st) \<union> page_slots ?p (set ?G)"
  proof (cases "?n < kv_allocated_len k")
    case True
    then show thesis using that free_row_spec [OF l1(1), unfolded l1(2,3), OF k(3,4)] by auto
  next
    case False
    then have "kv_allocated_len k = ?n" using k(4) by simp
    then have "pages_of ?p (kv_allocated_len k) = ?n div ?p" using pages_of_unique [OF p, of ?n "?n div ?p"] k(3) p by simp
    then have "?G = []" using lp by simp
    then show thesis using that [of "ss_alloc st"] False k(2) by (simp add: page_slots_def row_laid_def st1_def)
  qed
  define st2 where "st2 = (st1\<lparr>ss_alloc := a'\<rparr>)\<lparr>ss_rows := (ss_rows st)\<lparr>free_slots := free_slots (ss_rows st) @ [i]\<rparr>\<rparr>"
  have run: "release_session dec sid st = Inr (free_slot_mamba sl st2)"
    unfolding release_session_def slot Let_def option.case k(1) d bind_res_simps a'(1) using i(1) by (simp add: st2_def st1_def)
  have sel: "ss_slots (free_slot_mamba sl st2) = ss_slots st2" "ss_inner (free_slot_mamba sl st2) = ss_inner st2"
    "ss_alloc (free_slot_mamba sl st2) = ss_alloc st2" "ss_rows (free_slot_mamba sl st2) = ss_rows st2"
    by (simp_all add: free_slot_mamba_def split: option.split)
  have fin: "finite (pool_slots (ss_alloc st))" using finite_pool_slots p k(2) by (auto simp: row_laid_def)
  have dis: "pool_slots (ss_alloc st) \<inter> page_slots ?p (set ?G) = {}"
    using k(2) page_slots_mono [OF set_drop_subset, of ?p "?n div ?p" pages] by (auto simp: row_laid_def)
  have dG: "distinct ?G" using lp by simp
  have cG: "card (page_slots ?p (set ?G)) = length ?G * ?p" by (rule card_page_slots [OF p dG])
  have finG: "finite (page_slots ?p (set ?G))" using set_expand_pages [OF p, of ?G] by (metis List.finite_set)
  have "int (length ?G * ?p) = slot_held_tokens ?p sl"
  proof -
    have "?n div ?p * ?p = ?n" using k(3) by simp
    moreover have "?n \<le> pages_of ?p (kv_allocated_len k) * ?p"
      using pages_of_bounds(1) [OF p, of "kv_allocated_len k"] k(4) by linarith
    ultimately show ?thesis using k(1) lp(1) by (simp add: slot_held_tokens_def ceil_align_def diff_mult_distrib of_nat_diff)
  qed
  then have "int (card (pool_slots a')) = int (card (pool_slots (ss_alloc st))) + slot_held_tokens ?p sl"
    using card_Un_disjoint [OF fin finG dis] cG a'(4) by simp
  then show ?thesis using run sel a' i(1) by (simp add: st2_def st1_def)
qed

section \<open>Matching\<close>

lemma upd_kv_sel [simp]: "ss_rows (upd_kv r f st) = ss_rows st" "ss_alloc (upd_kv r f st) = ss_alloc st"
  "ss_page_size (upd_kv r f st) = ss_page_size st" "ss_slots (upd_kv r f st) = ss_slots st" "ss_world (upd_kv r f st) = ss_world st"
  "ss_sessions (upd_kv r f st) = ss_sessions st" "ss_inner (upd_kv r f st) = ss_inner st"
  "length (ss_kv (upd_kv r f st)) = length (ss_kv st)" "r < length (ss_kv st) \<Longrightarrow> ss_kv (upd_kv r f st) ! r = f (ss_kv st ! r)"
  by (simp_all add: upd_kv_def)

lemma find_active_slot_some:
  "find_active_slot r st = (Some (sid, sl), st') \<Longrightarrow> st' = st \<and> map_of (ss_slots st) sid = Some sl \<and> sl_kv sl \<noteq> None"
  by (auto simp: find_active_slot_def Let_def split: option.splits if_splits)

text \<open>What a match leaves behind: the slot and the request hold the prefix, and the pages behind it
  are back in the pool.\<close>

theorem match_keeps_prefix:
  assumes f: "find_active_slot r st = (Some (sid, sl), st)" and l: "slot_laid st sl pages" and r: "r < length (ss_kv st)"
    and n: "n = min (sl_committed_len sl) key_len" and le: "sl_protected_len sl \<le> n" "n \<le> kv_allocated_len (the (sl_kv sl))"
  shows "\<exists>st' m sl'. try_match_prefix key_len r st = Inr (Some m, st') \<and>
    sm_indices m = take n (req_to_token (ss_rows st) ! the (sl_pool_idx sl)) \<and> sm_node m = VirtualNode \<and>
    sm_protected_len m = sl_protected_len sl \<and>
    map_of (ss_slots st') sid = Some sl' \<and> slot_laid st' sl' (take (pages_of (ss_page_size st) n) pages) \<and>
    kq_pool_idx (ss_kv st' ! r) = sl_pool_idx sl \<and> map_option kv_allocated_len (kq_kv (ss_kv st' ! r)) = Some n \<and>
    pool_slots (ss_alloc st') = pool_slots (ss_alloc st) \<union> page_slots (ss_page_size st) (set (drop (pages_of (ss_page_size st) n) pages))"
proof -
  let ?p = "ss_page_size st"
  obtain k where k: "sl_kv sl = Some k" "row_laid st (sl_pool_idx sl) pages (kv_allocated_len k)" "?p dvd sl_protected_len sl"
    using l by (auto simp: slot_laid_def split: option.splits)
  obtain i where i: "sl_pool_idx sl = Some i" "i < length (req_to_token (ss_rows st))" "laid ?p pages (req_to_token (ss_rows st) ! i) (kv_allocated_len k)"
    using k(2) by (auto simp: row_laid_def split: option.splits)
  have nk: "n \<le> kv_allocated_len k" using le(2) k(1) by simp
  define st1 where "st1 = upd_kv r (restore_to_req sl) st"
  have q1: "ss_kv st1 ! r = restore_to_req sl (ss_kv st ! r)" using r by (simp add: st1_def)
  have l1: "row_laid st1 (sl_pool_idx sl) pages (kv_allocated_len k)" using k(2) row_laid_cong [of st1 st] by (simp add: st1_def)
  obtain a' where a': "free_kv_aligned (sl_pool_idx sl) n (kv_allocated_len k) st1 = Inr (st1\<lparr>ss_alloc := a'\<rparr>)" "al_ok a'" "al_page_size a' = ?p"
    "pool_slots a' = pool_slots (ss_alloc st) \<union> page_slots ?p (set (drop (pages_of ?p n) pages))"
    using free_aligned_spec [OF l1 nk] by (auto simp: st1_def)
  let ?sl = "sl\<lparr>sl_kv := Some (cut_kv n k), sl_committed_len := min (sl_committed_len sl) n\<rparr>"
  define st2 where "st2 = upd_kv r (\<lambda>q. q\<lparr>kq_kv := map_option (cut_kv n) (kq_kv q), kq_committed_len := min (kq_committed_len q) n\<rparr>)
      (st1\<lparr>ss_alloc := a', ss_slots := AList.update sid ?sl (ss_slots st)\<rparr>)"
  have ft: "free_tail sid sl r n st1 = Inr st2"
    using k(1) a'(1) q1 by (simp add: free_tail_def restore_to_req_def st2_def) (simp add: st1_def)
  have q2: "kq_pool_idx (ss_kv st2 ! r) = Some i" "kq_kv (ss_kv st2 ! r) = Some (cut_kv n k)" "ss_rows st2 = ss_rows st"
    using r q1 k(1) i(1) by (simp_all add: st2_def upd_kv_def restore_to_req_def) (simp_all add: st1_def upd_kv_def)
  have nn: "min (kq_committed_len (ss_kv st1 ! r)) key_len = n" using q1 n by (simp add: restore_to_req_def)
  have run: "try_match_prefix key_len r st = Inr (Some \<lparr>sm_indices = take n (req_to_token (ss_rows st) ! i), sm_node = VirtualNode,
      sm_protected_len = sl_protected_len sl\<rparr>, st2)"
    unfolding try_match_prefix_def f prod.case option.case Let_def st1_def [symmetric] nn
    using le(1) ft q2 i(2) by (simp add: row_slice_def)
  have "row_laid (st\<lparr>ss_alloc := a'\<rparr>) (sl_pool_idx sl) (take (pages_of ?p n) pages) n" by (rule row_laid_cut [OF k(2) nk a'(2-4)])
  then have "slot_laid st2 ?sl (take (pages_of ?p n) pages)"
    using row_laid_cong [of st2 "st\<lparr>ss_alloc := a'\<rparr>"] k(3) le(1) by (simp add: slot_laid_def cut_kv_def st2_def st1_def)
  moreover have "map_of (ss_slots st2) sid = Some ?sl" by (simp add: st2_def update_conv)
  ultimately show ?thesis using run q2 i(1) a'(4) by (simp add: st2_def st1_def cut_kv_def)
qed

section \<open>Save and restore\<close>

theorem save_restore:
  "save_from_req q is_first sl = (sl', q') \<Longrightarrow>
     kq_pool_idx (restore_to_req sl' x) = kq_pool_idx q \<and> kq_committed_len (restore_to_req sl' x) = kq_committed_len q \<and>
     kq_kv (restore_to_req sl' x) = kq_kv q \<and> kq_mamba (restore_to_req sl' x) = kq_mamba q \<and>
     kq_pool_idx q' = None \<and> kq_kv q' = None \<and> kq_mamba q' = no_mamba"
  by (auto simp: save_from_req_def restore_to_req_def Let_def)

section \<open>Finishing\<close>

lemma free_aligned_min:
  assumes l: "row_laid st idx pages n"
  shows "\<exists>a'. free_kv_aligned idx t n st = Inr (st\<lparr>ss_alloc := a'\<rparr>) \<and> al_ok a' \<and> al_page_size a' = ss_page_size st \<and>
    pool_slots a' = pool_slots (ss_alloc st) \<union> page_slots (ss_page_size st) (set (drop (pages_of (ss_page_size st) (min n t)) pages))"
proof (cases "t \<le> n")
  case True
  then show ?thesis using free_aligned_spec [OF l True] by (simp add: min_absorb2)
next
  case False
  have len: "length pages = pages_of (ss_page_size st) n" using l by (auto simp: row_laid_def laid_def split: option.splits)
  then show ?thesis using False l
    by (intro exI [of _ "ss_alloc st"]) (auto simp: free_kv_aligned_def row_laid_def page_slots_def min_def)
qed

lemma finish_req_single:
  assumes "length (req_nodes s) \<le> 1"
  shows "\<exists>s' w'. finish_req r s w = Inr (s', w') \<and> \<not> inflight s' \<and> session_id s' = session_id s \<and> streaming s' = streaming s"
proof -
  have "req_nodes s = [] \<or> (\<exists>k n. req_nodes s = [(k, n)])" using assms by (cases "req_nodes s") auto
  then show ?thesis by (auto simp: finish_req_def Let_def split: prod.split)
qed

theorem finish_saves_kv:
  assumes i: "i < length (ss_sessions st)" "length (req_nodes (ss_sessions st ! i)) \<le> 1" and r: "r < length (ss_kv st)"
    and k: "kq_kv (ss_kv st ! r) = Some k" "row_laid st (kq_pool_idx (ss_kv st ! r)) pages (kv_allocated_len k)"
    and t: "t = length (arr (ss_world st) (sr_origin (sreqs (ss_world st) ! r))) +
      (case kq_finished_len (ss_kv st ! r) of None \<Rightarrow> length (sr_output (sreqs (ss_world st) ! r)) | Some n \<Rightarrow> n)"
    and prot: "prot = (case map_of (ss_slots st) (session_id (ss_sessions st ! i)) of None \<Rightarrow> kq_protected_len (ss_kv st ! r) | Some sl \<Rightarrow> sl_protected_len sl)"
      "ss_page_size st dvd prot" "prot \<le> min (kv_allocated_len k) t"
  defines "n \<equiv> min (kv_allocated_len k) t"
  shows "\<exists>st' sl'. finish_saved r i st = Inr st' \<and> map_of (ss_slots st') (session_id (ss_sessions st ! i)) = Some sl' \<and>
    slot_laid st' sl' (take (pages_of (ss_page_size st) n) pages) \<and> sl_committed_len sl' = n \<and> sl_protected_len sl' = prot \<and>
    sl_pool_idx sl' = kq_pool_idx (ss_kv st ! r) \<and> kq_kv (ss_kv st' ! r) = None \<and> \<not> inflight (ss_sessions st' ! i) \<and>
    pool_slots (ss_alloc st') = pool_slots (ss_alloc st) \<union> page_slots (ss_page_size st) (set (drop (pages_of (ss_page_size st) n) pages))"
proof -
  let ?p = "ss_page_size st" and ?q = "ss_kv st ! r" and ?s = "sreqs (ss_world st) ! r" and ?sid = "session_id (ss_sessions st ! i)"
  define fl where "fl = (case kq_finished_len ?q of None \<Rightarrow> length (sr_output ?s) | Some n \<Rightarrow> n)"
  have tt: "t = length (arr (ss_world st) (sr_origin ?s)) + fl" using t by (simp add: fl_def)
  obtain a' where a': "free_kv_aligned (kq_pool_idx ?q) t (kv_allocated_len k) st = Inr (st\<lparr>ss_alloc := a'\<rparr>)" "al_ok a'" "al_page_size a' = ?p"
    "pool_slots a' = pool_slots (ss_alloc st) \<union> page_slots ?p (set (drop (pages_of ?p n) pages))"
    using free_aligned_min [OF k(2), of t] by (auto simp: n_def)
  let ?k = "\<lparr>kv_allocated_len = n, swa_evicted_seqlen = min (swa_evicted_seqlen k) t\<rparr>"
  define q1 where "q1 = ?q\<lparr>kq_kv := Some ?k, kq_committed_len := min (kq_committed_len ?q) t\<rparr>"
  define st1 where "st1 = (upd_kv r (\<lambda>_. q1) (st\<lparr>ss_alloc := a'\<rparr>))\<lparr>ss_world := upd_sreq r (\<lambda>s. s\<lparr>sr_output := take fl (sr_output s)\<rparr>) (ss_world st)\<rparr>"
  have trim: "trim_overshoot r fl st = Inr st1"
    using k(1) a'(1) tt unfolding trim_overshoot_def Let_def st1_def q1_def n_def by (simp add: upd_kv_def)
  have st1: "ss_kv st1 ! r = q1" "ss_rows st1 = ss_rows st" "ss_alloc st1 = a'" "ss_page_size st1 = ?p" "ss_slots st1 = ss_slots st"
    "ss_sessions st1 = ss_sessions st" using r by (simp_all add: st1_def upd_kv_def)
  define sl0 where "sl0 = (case map_of (ss_slots st) ?sid of None \<Rightarrow> new_slot | Some sl \<Rightarrow> sl)"
  obtain sl1 q2 where sv: "save_from_req q1 (map_of (ss_slots st) ?sid = None) sl0 = (sl1, q2)" by (rule prod.exhaust)
  have sl1: "sl_kv sl1 = Some ?k" "sl_pool_idx sl1 = kq_pool_idx ?q" "kq_kv q2 = None" "sl_protected_len sl1 = prot"
    using sv prot(1) by (auto simp: save_from_req_def Let_def q1_def sl0_def split: option.splits)
  let ?sl = "sl1\<lparr>sl_committed_len := min t n\<rparr>"
  define st2 where "st2 = upd_kv r (\<lambda>_. q2) (st1\<lparr>ss_slots := AList.update ?sid ?sl (ss_slots st)\<rparr>)"
  have st2: "ss_sessions st2 = ss_sessions st" "ss_rows st2 = ss_rows st" "ss_alloc st2 = a'" "ss_page_size st2 = ?p"
    "ss_slots st2 = AList.update ?sid ?sl (ss_slots st)" using st1 by (simp_all add: st2_def)
  obtain s' w' where fr: "finish_req r (ss_sessions st2 ! i) (ss_world st2) = Inr (s', w')" "\<not> inflight s'"
    using finish_req_single [of "ss_sessions st2 ! i" r "ss_world st2"] i(2) st2(1) by auto
  define st3 where "st3 = (upd_ss_session i (\<lambda>_. s') st2)\<lparr>ss_world := w'\<rparr>"
  have run: "finish_saved r i st = Inr st3"
    unfolding finish_saved_def Let_def fl_def [symmetric] tt [symmetric] sl0_def [symmetric] trim bind_res_simps st1 sv prod.case sl1(1) option.case
    using fr(1) by (simp add: st2_def st3_def)
  have "row_laid (st\<lparr>ss_alloc := a'\<rparr>) (kq_pool_idx ?q) (take (pages_of ?p n) pages) n"
    using a'(2-4) by (intro row_laid_cut [OF k(2)]) (simp_all add: n_def)
  then have "slot_laid st3 ?sl (take (pages_of ?p n) pages)"
    using row_laid_cong [of st3 "st\<lparr>ss_alloc := a'\<rparr>"] st2 sl1 prot(2,3) by (simp add: slot_laid_def st3_def upd_ss_session_def n_def)
  moreover have "map_of (ss_slots st3) ?sid = Some ?sl" by (simp add: st3_def upd_ss_session_def st2 update_conv)
  moreover have "kq_kv (ss_kv st3 ! r) = None" using r sl1(3) by (simp add: st3_def upd_ss_session_def st2_def upd_kv_def st1_def)
  moreover have "\<not> inflight (ss_sessions st3 ! i)" using fr(2) i(1) st2(1) by (simp add: st3_def upd_ss_session_def)
  ultimately show ?thesis using run sl1 a'(4) st2(3)
    by (intro exI [of _ st3] exI [of _ ?sl]) (simp add: st3_def upd_ss_session_def n_def)
qed

section \<open>The inflight mark\<close>

lemma create_rejected:
  assumes "streaming s" "inflight s" "gi_session_params gi = Some sp"
  shows "\<exists>msg w'. create_req now bos i gi s w = Inr (length (sreqs w), s\<lparr>last_active_time := now\<rparr>, w') \<and> keeps w w' \<and>
    length (sreqs w') = Suc (length (sreqs w)) \<and> sr_to_finish (sreqs w' ! length (sreqs w)) = Some (FINISH_ABORT msg) \<and>
    sr_session (sreqs w' ! length (sreqs w)) = Some i"
proof -
  let ?t = "s\<lparr>last_active_time := now\<rparr>" and ?a = "gi_input_ids gi"
  have "streaming ?t" "inflight ?t \<or> \<not> plain_append sp" using assms by simp_all
  then obtain msg where sel: "select_last sp ?t w = Inr (None, Some msg, ?t, w)" using select_streaming(1) by blast
  obtain r w2 where r: "new_sreq gi ?a ?a i w = (r, w2)" by (rule prod.exhaust)
  note N = new_sreq_sel(1-4) [OF r]
  have ses: "sr_session (sreqs w2 ! r) = Some i" using r by (auto simp: new_sreq_def new_arr_def)
  have le: "length (sreqs w) \<le> r" "r < length (sreqs w2)" using N by simp_all
  note F = set_finish_sel [OF le(1) N(2) le(2), of msg]
  have "create_req now bos i gi s w = Inr (r, ?t, set_finish_with_abort msg r w2)"
    using sel r assms(3) by (simp add: create_req_def assemble_turn_def)
  moreover have "sr_session (sreqs (set_finish_with_abort msg r w2) ! r) = Some i" "length (sreqs (set_finish_with_abort msg r w2)) = Suc (length (sreqs w))"
    using ses le(2) N(1,4) by (simp_all add: set_finish_with_abort_def new_arr_def Let_def)
  ultimately show ?thesis using F N(1) by auto
qed

lemma new_arr_sreqs: "new_arr xs w = (a, w') \<Longrightarrow> sreqs w' = sreqs w"
  by (auto simp: new_arr_def)

lemma share_fill_sreqs: "share_fill cfl ia ua q new w = (c, w') \<Longrightarrow> sreqs w' = sreqs w"
  by (auto simp: share_fill_def Let_def split: if_splits)

lemma assemble_sreqs: "assemble_turn bos gi sp prev s w = (ia, ua, c, w') \<Longrightarrow> sreqs w' = sreqs w"
  by (auto simp: assemble_turn_def share_token_arrays_def concat_token_arrays_def strip_bos_token_def Let_def
      split: option.splits list.splits prod.splits if_splits dest!: share_fill_sreqs new_arr_sreqs)

lemma create_streaming_new:
  assumes "create_req now bos i gi s w = Inr (r, s', w')" "streaming s"
  shows "r = length (sreqs w)" "j < length (sreqs w) \<Longrightarrow> sreqs w' ! j = sreqs w ! j"
proof -
  obtain sp where sp: "gi_session_params gi = Some sp" using assms(1) by (cases "gi_session_params gi") (auto simp: create_req_def)
  let ?t = "s\<lparr>last_active_time := now\<rparr>"
  obtain prev ab where sel: "select_last sp ?t w = Inr (prev, ab, ?t, w)"
    using assms sp by (auto simp: create_req_def select_last_def bind_res_Inr_iff split: if_splits)
  obtain ia ua c w1 where t: "assemble_turn bos gi sp prev ?t w = (ia, ua, c, w1)" by (metis prod_cases4)
  obtain q w2 where n: "new_sreq gi ia ua i w1 = (q, w2)" by (rule prod.exhaust)
  note N = new_sreq_sel(1,2) [OF n]
  have q: "q = length (sreqs w)" "\<And>j. j < length (sreqs w) \<Longrightarrow> sreqs w2 ! j = sreqs w ! j"
    using N assemble_sreqs [OF t] by (auto simp: keeps_def)
  show "r = length (sreqs w)" "j < length (sreqs w) \<Longrightarrow> sreqs w' ! j = sreqs w ! j"
    using assms sp sel t n q by (auto simp: create_req_def Let_def set_finish_with_abort_def new_arr_def split: option.splits)
qed

text \<open>The lookup of the slot discards a rejected request as the run of turns has it.\<close>

lemma discard_is_lookup:
  assumes "i < length (ss_sessions st)" "streaming (ss_sessions st ! i)" "map_of (ss_slots st) (session_id (ss_sessions st ! i)) = Some sl"
    "sl_kv sl \<noteq> None" "r < length (sreqs (ss_world st))" "sr_session (sreqs (ss_world st) ! r) = Some i"
    "sr_to_finish (sreqs (ss_world st) ! r) \<noteq> None" "sr_finished_reason (sreqs (ss_world st) ! r) = None"
  shows "\<exists>st'. find_active_slot r st = (None, st') \<and>
    turn_step bos i (Discard r True) \<lparr>ts_session = ss_sessions st ! i, ts_world = ss_world st, ts_active = act\<rparr> =
      Inr \<lparr>ts_session = ss_sessions st' ! i, ts_world = ss_world st', ts_active = act\<rparr>"
  using assms by (auto simp: find_active_slot_def req_session_def upd_ss_session_def Let_def)

text \<open>While a request of the session is active, a second one is rejected; looking for the slot of
  the rejected request clears the inflight mark of the session, and a third request is accepted.\<close>

theorem rejected_turn_clears_inflight:
  assumes ok: "turn_ok ts" and act: "ts_active ts = Some r0"
    and st: "i < length (ss_sessions st)" "ss_sessions st ! i = ts_session ts" "ss_world st = ts_world ts"
    and slot: "map_of (ss_slots st) (session_id (ts_session ts)) = Some sl" "sl_kv sl \<noteq> None"
    and sp: "gi_session_params gi = Some sp" and sp': "plain_append sp'"
  shows "\<exists>r1 s1 w1 st' ts2 r2. create_req now bos i gi (ts_session ts) (ts_world ts) = Inr (r1, s1, w1) \<and>
    sr_to_finish (sreqs w1 ! r1) \<noteq> None \<and>
    find_active_slot r1 (st\<lparr>ss_sessions := (ss_sessions st)[i := s1], ss_world := w1\<rparr>) = (None, st') \<and>
    \<not> inflight (ss_sessions st' ! i) \<and>
    turn_step bos i (Submit now' rid ids m sp') \<lparr>ts_session = ss_sessions st' ! i, ts_world = ss_world st', ts_active = None\<rparr> = Inr ts2 \<and>
    ts_active ts2 = Some r2 \<and> r2 \<noteq> r0 \<and> sreqs (ts_world ts2) ! r0 = sreqs (ts_world ts) ! r0"
proof -
  let ?s = "ts_session ts" and ?w = "ts_world ts"
  have so: "stream_ok ?s ?w (Some r0)" "inflight ?s" using ok act by (simp_all add: turn_ok_def turn_inv_def)
  have s: "streaming ?s" "inflight ?s" "hist_ok ?s ?w" "r0 < length (sreqs ?w)"
    using so by (auto simp: stream_ok_def hist_ok_def active_ok_def)
  let ?r1 = "length (sreqs ?w)" and ?s1 = "?s\<lparr>last_active_time := now\<rparr>"
  obtain msg w1 where c: "create_req now bos i gi ?s ?w = Inr (?r1, ?s1, w1)" "keeps ?w w1" "length (sreqs w1) = Suc ?r1"
    "sr_to_finish (sreqs w1 ! ?r1) = Some (FINISH_ABORT msg)" "sr_session (sreqs w1 ! ?r1) = Some i"
    using create_rejected [OF s(1,2) sp, of now bos i ?w] by blast
  let ?st1 = "st\<lparr>ss_sessions := (ss_sessions st)[i := ?s1], ss_world := w1\<rparr>"
  let ?w2 = "upd_sreq ?r1 (\<lambda>q. q\<lparr>sr_session := None\<rparr>) w1"
  let ?st2 = "(upd_ss_session i abort_req ?st1)\<lparr>ss_world := ?w2\<rparr>"
  have f: "find_active_slot ?r1 ?st1 = (None, ?st2)"
    using c(4,5) st(1) s(1) slot by (auto simp: find_active_slot_def req_session_def Let_def)
  have s2: "ss_sessions ?st2 ! i = abort_req ?s1" "ss_world ?st2 = ?w2" using st(1) by (simp_all add: upd_ss_session_def)
  have k2: "keeps ?w ?w2" using keeps_upd [OF c(2)] by simp
  note H = hist_keeps [OF s(3) k2]
  have ok2: "turn_inv \<lparr>ts_session = abort_req ?s1, ts_world = ?w2, ts_active = None\<rparr>"
    using H(1) by (simp add: turn_inv_def stream_ok_def abort_req_def)
  let ?e = "Submit now' rid ids m sp'"
  let ?ts = "\<lparr>ts_session = abort_req ?s1, ts_world = ?w2, ts_active = None\<rparr>"
  obtain ts2 where ts2: "turn_step bos i ?e ?ts = Inr ts2" "turn_ok ts2" "conversation_of ts2 = conv_step bos ?e (conversation_of ?ts)"
    using accept_simulates [OF ok2 _ sp', of bos i now' rid ids m] by auto
  have "cv_cur (conversation_of ts2) \<noteq> None" unfolding ts2(3) using sp' by (simp add: conversation_of_def)
  then obtain r2 where r2: "ts_active ts2 = Some r2" by (cases "ts_active ts2") (auto simp: conversation_of_def)
  obtain a v where a: "new_arr ids ?w2 = (a, v)" by (rule prod.exhaust)
  obtain s3 w3 where cr: "create_req now' bos i (turn_input rid a m sp') (abort_req ?s1) v = Inr (r2, s3, w3)" "ts_world ts2 = w3"
    using ts2(1) r2 a by (auto simp: bind_res_Inr_iff Let_def split: if_splits prod.splits)
  have strm: "streaming (abort_req ?s1)" using s(1) by (simp add: abort_req_def)
  note C = create_streaming_new [OF cr(1) strm]
  have v: "length (sreqs v) = Suc ?r1" "sreqs v ! r0 = sreqs ?w ! r0"
    using new_arr_sel(4) [OF a] c(2,3) s(4) by (auto simp: keeps_def)
  have new: "r2 \<noteq> r0" "sreqs (ts_world ts2) ! r0 = sreqs ?w ! r0" using C v s(4) cr(2) by auto
  have nb: "\<not> inflight (ss_sessions ?st2 ! i)" unfolding s2 by (simp add: abort_req_def)
  have tf: "sr_to_finish (sreqs w1 ! ?r1) \<noteq> None" using c(4) by simp
  have step: "turn_step bos i ?e \<lparr>ts_session = ss_sessions ?st2 ! i, ts_world = ss_world ?st2, ts_active = None\<rparr> = Inr ts2"
    unfolding s2 by (rule ts2(1))
  show ?thesis by (intro exI conjI) (rule c(1) tf f nb step r2 new)+
qed

end
