(* ===== verification/SessionControl.thy ===== *)
theory SessionControl
  imports SessionTree
begin

text \<open>
  The session controller. A streaming session is not released while a request of it is in flight or
  its last request has not finished; closing it then only marks it. A session that is not
  streaming is released at once, whether its requests have finished or not. \<open>maybe_reap\<close> closes
  the sessions that are marked and have finished, and those that have timed out.
\<close>

definition busy_session :: "session \<Rightarrow> world \<Rightarrow> bool" where
  "busy_session s w \<longleftrightarrow> streaming s \<and> (inflight s \<or> \<not> all_requests_finished s w)"

definition busy :: "controller \<Rightarrow> nat \<Rightarrow> bool" where
  "busy c i = busy_session (session_objs c ! i) (store_of c)"

definition ctl_ok :: "controller \<Rightarrow> bool" where
  "ctl_ok c \<longleftrightarrow> distinct (map fst (sessions c)) \<and> distinct (map snd (sessions c)) \<and>
     (\<forall>i \<in> snd ` set (sessions c). i < length (session_objs c) \<and>
        (streaming (session_objs c ! i) \<longrightarrow> length (req_nodes (session_objs c ! i)) \<le> 1))"

text \<open>What closing leaves alone: the nodes and whether a request has finished.\<close>

definition same_fin :: "world \<Rightarrow> world \<Rightarrow> bool" where
  "same_fin w w' \<longleftrightarrow> nodes w' = nodes w \<and> (\<forall>r. sr_finished_reason (sreqs w' ! r) = sr_finished_reason (sreqs w ! r))"

lemma same_fin_refl [simp]: "same_fin w w"
  by (simp add: same_fin_def)

lemma same_fin_trans: "same_fin w w' \<Longrightarrow> same_fin w' w'' \<Longrightarrow> same_fin w w''"
  by (simp add: same_fin_def)

lemma same_fin_upd: "(\<And>q. sr_finished_reason (f q) = sr_finished_reason q) \<Longrightarrow> same_fin w (upd_sreq r f w)"
  by (simp add: same_fin_def)

lemma same_fin_release: "same_fin w (snd (release_mm seen ns w))"
proof (induction seen ns w rule: release_mm.induct)
  case (2 seen n ns w)
  then show ?case
    using same_fin_trans [OF same_fin_upd [of "\<lambda>q. q\<lparr>sr_multimodal_inputs := None\<rparr>" w "nd_req (nodes w ! n)"]] by (simp add: Let_def)
qed simp

lemma same_fin_all: "same_fin w w' \<Longrightarrow> all_requests_finished s w' = all_requests_finished s w"
  by (simp add: all_requests_finished_def same_fin_def req_is_finished_def node_req_def)

text \<open>Sessions that differ at most in \<open>close_on_finish\<close>.\<close>

definition same_but_close :: "session \<Rightarrow> session \<Rightarrow> bool" where
  "same_but_close s s' \<longleftrightarrow> s'\<lparr>close_on_finish := False\<rparr> = s\<lparr>close_on_finish := False\<rparr>"

lemma same_but_close_refl [simp]: "same_but_close s s" "same_but_close s (s\<lparr>close_on_finish := b\<rparr>)"
  by (simp_all add: same_but_close_def)

lemma same_but_close_trans: "same_but_close s s' \<Longrightarrow> same_but_close s' s'' \<Longrightarrow> same_but_close s s''"
  by (simp add: same_but_close_def)

lemma same_but_close_sel:
  assumes "same_but_close s s'"
  shows "streaming s' = streaming s" "inflight s' = inflight s" "req_nodes s' = req_nodes s" "timeout s' = timeout s"
    "last_active_time s' = last_active_time s"
proof -
  have "f (s'\<lparr>close_on_finish := False\<rparr>) = f (s\<lparr>close_on_finish := False\<rparr>)" for f :: "session \<Rightarrow> 'a"
    using assms by (simp add: same_but_close_def)
  from this [of streaming] show "streaming s' = streaming s" by simp
  have "inflight (s'\<lparr>close_on_finish := False\<rparr>) = inflight (s\<lparr>close_on_finish := False\<rparr>)"
    "req_nodes (s'\<lparr>close_on_finish := False\<rparr>) = req_nodes (s\<lparr>close_on_finish := False\<rparr>)"
    "timeout (s'\<lparr>close_on_finish := False\<rparr>) = timeout (s\<lparr>close_on_finish := False\<rparr>)"
    "last_active_time (s'\<lparr>close_on_finish := False\<rparr>) = last_active_time (s\<lparr>close_on_finish := False\<rparr>)"
    using assms by (simp_all add: same_but_close_def)
  then show "inflight s' = inflight s" "req_nodes s' = req_nodes s" "timeout s' = timeout s" "last_active_time s' = last_active_time s" by simp_all
qed

lemma busy_same:
  assumes "same_but_close s s'" "same_fin w w'"
  shows "busy_session s' w' = busy_session s w" "all_requests_finished s' w' = all_requests_finished s w" "is_timed_out t s' = is_timed_out t s"
  using same_but_close_sel [OF assms(1)] same_fin_all [OF assms(2)]
  by (simp_all add: busy_session_def all_requests_finished_def is_timed_out_def split: option.split)

section \<open>Closing one session\<close>

lemma has_unfinished_busy:
  assumes "streaming s \<longrightarrow> length (req_nodes s) \<le> 1"
  shows "has_unfinished_request s w = Inr (busy_session s w)"
proof (cases "req_nodes s")
  case (Cons p rest)
  obtain k n where "p = (k, n)" by (rule prod.exhaust)
  then show ?thesis using assms Cons
    by (cases "streaming s") (auto simp: has_unfinished_request_def busy_session_def all_requests_finished_def single_node_def)
qed (auto simp: has_unfinished_request_def busy_session_def all_requests_finished_def)

lemma do_close_spec:
  assumes ok: "ctl_ok c" and k: "map_of (sessions c) k = Some i"
  shows "busy c i \<Longrightarrow> do_close k c = Inr (upd_session i (\<lambda>s. s\<lparr>close_on_finish := True\<rparr>) c)"
    "\<not> busy c i \<Longrightarrow> \<exists>w' mm. do_close k c = Inr (c\<lparr>sessions := AList.delete k (sessions c), store_of := w',
        released_sessions := released_sessions c @ [k], released_mm := released_mm c @ mm\<rparr>) \<and> same_fin (store_of c) w'"
proof -
  have "i \<in> snd ` set (sessions c)" using map_of_SomeD [OF k] by force
  then have u: "has_unfinished_request (session_objs c ! i) (store_of c) = Inr (busy c i)"
    unfolding busy_def using ok by (intro has_unfinished_busy) (auto simp: ctl_ok_def)
  show "busy c i \<Longrightarrow> do_close k c = Inr (upd_session i (\<lambda>s. s\<lparr>close_on_finish := True\<rparr>) c)"
    using u k by (simp add: do_close_def)
  assume nb: "\<not> busy c i"
  let ?s = "session_objs c ! i" and ?w = "store_of c"
  define w1 where "w1 = (if streaming ?s \<and> req_nodes ?s \<noteq> []
      then upd_sreq (nd_req (nodes ?w ! snd (hd (req_nodes ?s)))) (\<lambda>q. q\<lparr>sr_session := None\<rparr>) ?w else ?w)"
  obtain mm w2 where r: "release_mm [] (map snd (req_nodes ?s)) w1 = (mm, w2)" by (rule prod.exhaust)
  have "same_fin ?w w1" by (auto simp: w1_def intro: same_fin_upd)
  then have "same_fin ?w w2" using same_fin_trans same_fin_release [of w1 "[]" "map snd (req_nodes ?s)"] r by (metis snd_conv)
  moreover have "do_close k c = Inr (c\<lparr>sessions := AList.delete k (sessions c), store_of := w2,
      released_sessions := released_sessions c @ [k], released_mm := released_mm c @ mm\<rparr>)"
    using u k nb r unfolding do_close_def w1_def by (simp add: Let_def)
  ultimately show "\<exists>w' mm. do_close k c = Inr (c\<lparr>sessions := AList.delete k (sessions c), store_of := w',
      released_sessions := released_sessions c @ [k], released_mm := released_mm c @ mm\<rparr>) \<and> same_fin ?w w'" by blast
qed

section \<open>Closing several sessions\<close>

definition close_outcome :: "string set \<Rightarrow> controller \<Rightarrow> controller \<Rightarrow> bool" where
  "close_outcome K c c' \<longleftrightarrow> ctl_ok c' \<and> last_reap_time c' = last_reap_time c \<and> same_fin (store_of c) (store_of c') \<and>
     sessions c' = filter (\<lambda>(k, i). k \<notin> K \<or> busy c i) (sessions c) \<and>
     (\<forall>j. same_but_close (session_objs c ! j) (session_objs c' ! j)) \<and>
     (\<forall>(k, i) \<in> set (sessions c). (k \<in> K \<and> busy c i \<longrightarrow> close_on_finish (session_objs c' ! i)) \<and>
        (k \<notin> K \<longrightarrow> session_objs c' ! i = session_objs c ! i)) \<and>
     set (released_sessions c') = set (released_sessions c) \<union> {k. \<exists>i. (k, i) \<in> set (sessions c) \<and> k \<in> K \<and> \<not> busy c i}"

lemma ctl_ok_index: "ctl_ok c \<Longrightarrow> (k, i) \<in> set (sessions c) \<Longrightarrow> (k', i) \<in> set (sessions c) \<Longrightarrow> k' = k"
  unfolding ctl_ok_def by (metis distinct_map inj_onD prod.inject snd_conv)

lemma ctl_ok_upd:
  assumes "ctl_ok c" "\<And>s. same_but_close s (f s)"
  shows "ctl_ok (upd_session i f c)"
proof -
  have "same_but_close (session_objs c ! j) ((session_objs c)[i := f (session_objs c ! i)] ! j)" for j
    using assms(2) by (cases "i < length (session_objs c)") (auto simp: nth_list_update list_update_beyond)
  from same_but_close_sel(1,3) [OF this] show ?thesis using assms(1) by (simp add: ctl_ok_def upd_session_def)
qed

lemma close_outcome_single:
  assumes "ctl_ok c'" "last_reap_time c' = last_reap_time c" "same_fin (store_of c) (store_of c')"
    "sessions c' = filter (\<lambda>(k', j). k' \<notin> {k} \<or> busy c j) (sessions c)"
    "\<And>j. same_but_close (session_objs c ! j) (session_objs c' ! j)" "busy c i \<Longrightarrow> close_on_finish (session_objs c' ! i)"
    "\<And>k' j. (k', j) \<in> set (sessions c) \<Longrightarrow> k' \<noteq> k \<Longrightarrow> session_objs c' ! j = session_objs c ! j"
    "set (released_sessions c') = set (released_sessions c) \<union> (if busy c i then {} else {k})"
    and mem: "(k, i) \<in> set (sessions c)" and only: "\<And>j. (k, j) \<in> set (sessions c) \<Longrightarrow> j = i"
  shows "close_outcome {k} c c'"
proof -
  have "{k'. \<exists>j. (k', j) \<in> set (sessions c) \<and> k' \<in> {k} \<and> \<not> busy c j} = (if busy c i then {} else {k})"
    using mem by (cases "busy c i") (auto dest: only)
  moreover have "\<forall>(k', j) \<in> set (sessions c). (k' \<in> {k} \<and> busy c j \<longrightarrow> close_on_finish (session_objs c' ! j)) \<and>
      (k' \<notin> {k} \<longrightarrow> session_objs c' ! j = session_objs c ! j)"
    using only assms(6,7) by blast
  ultimately show ?thesis using assms(1-5,8) unfolding close_outcome_def by simp
qed

lemma close_one:
  assumes ok: "ctl_ok c" and k: "map_of (sessions c) k = Some i" and prep: "p = (\<lambda>s. s) \<or> p = (\<lambda>s. s\<lparr>close_on_finish := False\<rparr>)"
  shows "\<exists>c'. do_close k (upd_session i p c) = Inr c' \<and> close_outcome {k} c c'"
proof -
  let ?c = "upd_session i p c"
  have mem: "(k, i) \<in> set (sessions c)" by (rule map_of_SomeD [OF k])
  have il: "i < length (session_objs c)" using ok mem by (force simp: ctl_ok_def)
  have sb: "same_but_close s (p s)" for s using prep by auto
  have ok': "ctl_ok ?c" using ctl_ok_upd [OF ok sb] .
  have sel: "sessions ?c = sessions c" "store_of ?c = store_of c" "released_sessions ?c = released_sessions c" "last_reap_time ?c = last_reap_time c"
    "session_objs ?c = (session_objs c)[i := p (session_objs c ! i)]" by (simp_all add: upd_session_def)
  have b: "busy ?c i = busy c i" using busy_same(1) [OF sb same_fin_refl] il by (simp add: busy_def sel)
  have k': "map_of (sessions ?c) k = Some i" using k sel by simp
  have keys: "fst q = k \<longleftrightarrow> q = (k, i)" if "q \<in> set (sessions c)" for q
    using ok mem that unfolding ctl_ok_def by (metis distinct_map fst_conv inj_onD)
  have other: "j \<noteq> i" if "(k', j) \<in> set (sessions c)" "k' \<noteq> k" for k' j using that ctl_ok_index [OF ok mem] by blast
  have only: "j = i" if "(k, j) \<in> set (sessions c)" for j using keys [OF that] by simp
  show ?thesis
  proof (cases "busy c i")
    case True
    let ?c' = "upd_session i (\<lambda>s. s\<lparr>close_on_finish := True\<rparr>) ?c"
    have "do_close k ?c = Inr ?c'" using do_close_spec(1) [OF ok' k'] True b by simp
    moreover have "close_outcome {k} c ?c'"
    proof (rule close_outcome_single [OF _ _ _ _ _ _ _ _ mem only])
      show "ctl_ok ?c'" by (rule ctl_ok_upd [OF ok']) simp
      show "sessions ?c' = filter (\<lambda>(k', j). k' \<notin> {k} \<or> busy c j) (sessions c)"
        using True only by (subst filter_True) (auto simp: upd_session_def)
      show "same_but_close (session_objs c ! j) (session_objs ?c' ! j)" for j
        using il same_but_close_trans [OF sb] by (auto simp: upd_session_def nth_list_update)
      show "session_objs ?c' ! j = session_objs c ! j" if "(k', j) \<in> set (sessions c)" "k' \<noteq> k" for k' j
        using other [OF that] by (simp add: upd_session_def)
    qed (use True il in \<open>simp_all add: upd_session_def\<close>)
    ultimately show ?thesis by blast
  next
    case False
    obtain w' mm where c': "do_close k ?c = Inr (?c\<lparr>sessions := AList.delete k (sessions ?c), store_of := w',
        released_sessions := released_sessions ?c @ [k], released_mm := released_mm ?c @ mm\<rparr>)" "same_fin (store_of c) w'"
      using do_close_spec(2) [OF ok' k'] False b sel by auto
    let ?c' = "?c\<lparr>sessions := AList.delete k (sessions ?c), store_of := w',
        released_sessions := released_sessions ?c @ [k], released_mm := released_mm ?c @ mm\<rparr>"
    have del: "AList.delete k (sessions c) = filter (\<lambda>(k', j). k' \<notin> {k} \<or> busy c j) (sessions c)"
      unfolding AList.delete_eq using False only by (intro filter_cong) auto
    have "close_outcome {k} c ?c'"
    proof (rule close_outcome_single [OF _ _ _ _ _ _ _ _ mem only])
      show "ctl_ok ?c'" using ok' by (auto simp: ctl_ok_def sel del distinct_map_filter)
      show "same_but_close (session_objs c ! j) (session_objs ?c' ! j)" for j
        using il sb by (auto simp: upd_session_def nth_list_update)
      show "session_objs ?c' ! j = session_objs c ! j" if "(k', j) \<in> set (sessions c)" "k' \<noteq> k" for k' j
        using other [OF that] by (simp add: upd_session_def)
    qed (use False c'(2) in \<open>simp_all add: upd_session_def del\<close>)
    then show ?thesis using c'(1) by blast
  qed
qed

lemma close_outcome_busy: "close_outcome K c c' \<Longrightarrow> busy c' i = busy c i"
  using busy_same(1) by (simp add: close_outcome_def busy_def)

lemma close_outcome_trans:
  assumes 1: "close_outcome K c c1" and 2: "close_outcome L c1 c2" and dis: "K \<inter> L = {}"
  shows "close_outcome (K \<union> L) c c2"
proof -
  note b = close_outcome_busy [OF 1]
  have s1: "sessions c1 = filter (\<lambda>(k, i). k \<notin> K \<or> busy c i) (sessions c)" using 1 by (simp add: close_outcome_def)
  have s2: "sessions c2 = filter (\<lambda>(k, i). k \<notin> L \<or> busy c i) (sessions c1)" using 2 by (simp add: close_outcome_def b)
  have ses: "sessions c2 = filter (\<lambda>(k, i). k \<notin> K \<union> L \<or> busy c i) (sessions c)"
    unfolding s2 s1 filter_filter by (intro filter_cong) auto
  have o1: "(k \<in> K \<and> busy c i \<longrightarrow> close_on_finish (session_objs c1 ! i)) \<and> (k \<notin> K \<longrightarrow> session_objs c1 ! i = session_objs c ! i)"
    if "(k, i) \<in> set (sessions c)" for k i using 1 that by (auto simp: close_outcome_def)
  have o2: "(k \<in> L \<and> busy c i \<longrightarrow> close_on_finish (session_objs c2 ! i)) \<and> (k \<notin> L \<longrightarrow> session_objs c2 ! i = session_objs c1 ! i)"
    if "(k, i) \<in> set (sessions c)" "k \<notin> K \<or> busy c i" for k i using 2 that by (auto simp: close_outcome_def b s1)
  have o: "(k \<in> K \<union> L \<and> busy c i \<longrightarrow> close_on_finish (session_objs c2 ! i)) \<and> (k \<notin> K \<union> L \<longrightarrow> session_objs c2 ! i = session_objs c ! i)"
    if "(k, i) \<in> set (sessions c)" for k i
    using o1 [OF that] o2 [OF that] dis by auto
  have "{k. \<exists>i. (k, i) \<in> set (sessions c) \<and> k \<in> K \<and> \<not> busy c i} \<union> {k. \<exists>i. (k, i) \<in> set (sessions c1) \<and> k \<in> L \<and> \<not> busy c1 i} =
      {k. \<exists>i. (k, i) \<in> set (sessions c) \<and> k \<in> K \<union> L \<and> \<not> busy c i}"
    using dis by (auto simp: s1 b)
  then have rel: "set (released_sessions c2) = set (released_sessions c) \<union> {k. \<exists>i. (k, i) \<in> set (sessions c) \<and> k \<in> K \<union> L \<and> \<not> busy c i}"
    using 1 2 unfolding close_outcome_def by (simp add: Un_assoc)
  have "ctl_ok c2" "last_reap_time c2 = last_reap_time c" "same_fin (store_of c) (store_of c2)"
    "\<forall>j. same_but_close (session_objs c ! j) (session_objs c2 ! j)"
    using 1 2 same_fin_trans same_but_close_trans unfolding close_outcome_def by (blast, simp, blast, blast)
  then show ?thesis unfolding close_outcome_def using ses o rel by blast
qed

lemma close_outcome_empty: "ctl_ok c \<Longrightarrow> close_outcome {} c c"
  by (auto simp: close_outcome_def)

lemma close_each_outcome:
  assumes "ctl_ok c" "distinct ks" "set ks \<subseteq> fst ` set (sessions c)" "p = (\<lambda>s. s) \<or> p = (\<lambda>s. s\<lparr>close_on_finish := False\<rparr>)"
  shows "\<exists>c'. close_each (\<lambda>i. upd_session i p) ks c = Inr c' \<and> close_outcome (set ks) c c'"
  using assms
proof (induction ks arbitrary: c)
  case (Cons k ks)
  obtain i where i: "map_of (sessions c) k = Some i"
    using Cons.prems(3) by (metis domD dom_map_of_conv_image_fst insert_subset list.simps(15))
  obtain c1 where c1: "do_close k (upd_session i p c) = Inr c1" "close_outcome {k} c c1"
    using close_one [OF Cons.prems(1) i Cons.prems(4)] by blast
  have ok1: "ctl_ok c1" using c1(2) by (simp add: close_outcome_def)
  have "set ks \<subseteq> fst ` set (sessions c1)"
  proof
    fix x assume x: "x \<in> set ks"
    then obtain j where "(x, j) \<in> set (sessions c)" using Cons.prems(3) by force
    moreover have "x \<noteq> k" using x Cons.prems(2) by auto
    ultimately have "(x, j) \<in> set (sessions c1)" using c1(2) by (simp add: close_outcome_def)
    then show "x \<in> fst ` set (sessions c1)" by force
  qed
  then obtain c' where c': "close_each (\<lambda>i. upd_session i p) ks c1 = Inr c'" "close_outcome (set ks) c1 c'"
    using Cons.IH [OF ok1] Cons.prems(2,4) by auto
  then have "close_outcome ({k} \<union> set ks) c c'" using close_outcome_trans [OF c1(2) c'(2)] Cons.prems(2) by simp
  then show ?case using i c1(1) c'(1) by simp
qed (simp add: close_outcome_empty)

section \<open>Reaping\<close>

definition due :: "int \<Rightarrow> session \<Rightarrow> world \<Rightarrow> bool" where
  "due now s w \<longleftrightarrow> close_on_finish s \<and> all_requests_finished s w \<or> is_timed_out now s"

lemma same_but_close_eq: "same_but_close s s' \<Longrightarrow> s' = s\<lparr>close_on_finish := close_on_finish s'\<rparr>"
  by (cases s; cases s') (simp add: same_but_close_def)

text \<open>A session that survives two rounds of closing.\<close>

lemma closed_object:
  assumes 1: "close_outcome P c c1" and 2: "close_outcome T c1 c2" and ki: "(k, i) \<in> set (sessions c2)"
    and P: "k \<in> P \<Longrightarrow> close_on_finish (session_objs c ! i)"
  shows "session_objs c2 ! i = (session_objs c ! i)\<lparr>close_on_finish := close_on_finish (session_objs c ! i) \<or> k \<in> T\<rparr>"
proof -
  note b = close_outcome_busy [OF 1]
  have m1: "(k, i) \<in> set (sessions c1)" "k \<in> T \<longrightarrow> busy c i" using 2 ki by (auto simp: close_outcome_def b)
  have m: "(k, i) \<in> set (sessions c)" "k \<in> P \<longrightarrow> busy c i" using 1 m1(1) by (auto simp: close_outcome_def)
  have o1: "k \<in> P \<longrightarrow> close_on_finish (session_objs c1 ! i)" "k \<notin> P \<longrightarrow> session_objs c1 ! i = session_objs c ! i"
    using 1 m by (auto simp: close_outcome_def)
  have o2: "k \<in> T \<longrightarrow> close_on_finish (session_objs c2 ! i)" "k \<notin> T \<longrightarrow> session_objs c2 ! i = session_objs c1 ! i"
    using 2 m1 by (auto simp: close_outcome_def b)
  have c: "close_on_finish (session_objs c2 ! i) = (close_on_finish (session_objs c ! i) \<or> k \<in> T)"
    using o1 o2 P by (cases "k \<in> T"; cases "k \<in> P") simp_all
  have "\<forall>j. same_but_close (session_objs c ! j) (session_objs c1 ! j)" "\<forall>j. same_but_close (session_objs c1 ! j) (session_objs c2 ! j)"
    using 1 2 unfolding close_outcome_def by blast+
  then have "same_but_close (session_objs c ! i) (session_objs c2 ! i)" using same_but_close_trans by blast
  from same_but_close_eq [OF this] show ?thesis unfolding c .
qed

lemma key_filter:
  assumes "distinct (map fst al)" "(k, i) \<in> set al"
  shows "k \<in> set (map fst (filter (\<lambda>(k, i). P k i) al)) \<longleftrightarrow> P k i"
proof
  assume "k \<in> set (map fst (filter (\<lambda>(k, i). P k i) al))"
  then obtain j where "(k, j) \<in> set al" "P k j" by auto
  then show "P k i" using eq_key_imp_eq_value [OF assms] by simp
qed (use assms(2) in force)

lemma upd_session_id: "upd_session i (\<lambda>s. s) c = c"
  by (simp add: upd_session_def)

theorem maybe_reap_outcome:
  assumes ok: "ctl_ok c" and t: "now - last_reap_time c > interval"
  shows "\<exists>c'. maybe_reap now clock interval c = Inr c' \<and> ctl_ok c' \<and> last_reap_time c' = now \<and>
    sessions c' = filter (\<lambda>(k, i). busy c i \<or> \<not> due (clock k) (session_objs c ! i) (store_of c)) (sessions c) \<and>
    (\<forall>(k, i) \<in> set (sessions c'). session_objs c' ! i =
       (session_objs c ! i)\<lparr>close_on_finish := close_on_finish (session_objs c ! i) \<or> is_timed_out (clock k) (session_objs c ! i)\<rparr>) \<and>
    set (released_sessions c') = set (released_sessions c) \<union>
      {k. \<exists>i. (k, i) \<in> set (sessions c) \<and> \<not> busy c i \<and> due (clock k) (session_objs c ! i) (store_of c)}"
proof -
  let ?c = "c\<lparr>last_reap_time := now\<rparr>"
  have okc: "ctl_ok ?c" using ok by (simp add: ctl_ok_def)
  have bc: "busy ?c i = busy c i" for i by (simp add: busy_def)
  let ?f = "\<lambda>(k, i). close_on_finish (session_objs c ! i) \<and> all_requests_finished (session_objs c ! i) (store_of c)"
  let ?P = "map fst (filter ?f (sessions c))"
  have P: "distinct ?P" "set ?P \<subseteq> fst ` set (sessions ?c)" using ok by (auto simp: ctl_ok_def distinct_map_filter)
  obtain c1 where c1: "close_each (\<lambda>i. upd_session i (\<lambda>s. s\<lparr>close_on_finish := False\<rparr>)) ?P ?c = Inr c1" "close_outcome (set ?P) ?c c1"
    using close_each_outcome [OF okc P] by blast
  let ?g = "\<lambda>(k, i). is_timed_out (clock k) (session_objs c1 ! i)"
  let ?T = "map fst (filter ?g (sessions c1))"
  have ok1: "ctl_ok c1" and sb: "\<And>j. same_but_close (session_objs c ! j) (session_objs c1 ! j)"
    and fin: "same_fin (store_of c) (store_of c1)" using c1(2) by (simp_all add: close_outcome_def)
  have tm: "is_timed_out t (session_objs c1 ! j) = is_timed_out t (session_objs c ! j)" for t j by (rule busy_same(3) [OF sb fin])
  have T: "distinct ?T" "set ?T \<subseteq> fst ` set (sessions c1)" using ok1 by (auto simp: ctl_ok_def distinct_map_filter)
  obtain c2 where c2: "close_each (\<lambda>i. upd_session i (\<lambda>s. s)) ?T c1 = Inr c2" "close_outcome (set ?T) c1 c2"
    using close_each_outcome [OF ok1 T] by blast
  have prep: "(\<lambda>i. upd_session i (\<lambda>s. s)) = (\<lambda>_. id)" by (simp add: fun_eq_iff upd_session_id)
  have run: "maybe_reap now clock interval c = Inr c2"
    using t c1(1) c2(1) unfolding prep by (simp add: maybe_reap_def Let_def)
  have b1: "busy c1 i = busy c i" for i using close_outcome_busy [OF c1(2)] bc by simp
  have inP: "k \<in> set ?P \<longleftrightarrow> ?f (k, i)" if "(k, i) \<in> set (sessions c)" for k i
    unfolding split_conv by (rule key_filter [OF _ that]) (use ok in \<open>simp add: ctl_ok_def\<close>)
  have inT: "k \<in> set ?T \<longleftrightarrow> is_timed_out (clock k) (session_objs c ! i)" if "(k, i) \<in> set (sessions c1)" for k i
    unfolding tm by (rule key_filter [OF _ that]) (use ok1 in \<open>simp add: ctl_ok_def\<close>)
  have s1: "sessions c1 = filter (\<lambda>(k, i). \<not> ?f (k, i) \<or> busy c i) (sessions c)"
    using c1(2) inP unfolding close_outcome_def bc by (auto intro!: filter_cong)
  have s2: "sessions c2 = filter (\<lambda>(k, i). \<not> is_timed_out (clock k) (session_objs c ! i) \<or> busy c i) (sessions c1)"
    using c2(2) inT unfolding close_outcome_def b1 by (auto intro!: filter_cong)
  have ses: "sessions c2 = filter (\<lambda>(k, i). busy c i \<or> \<not> due (clock k) (session_objs c ! i) (store_of c)) (sessions c)"
    unfolding s2 s1 filter_filter by (intro filter_cong) (auto simp: due_def)
  have obj: "session_objs c2 ! i = (session_objs c ! i)\<lparr>close_on_finish := close_on_finish (session_objs c ! i) \<or> is_timed_out (clock k) (session_objs c ! i)\<rparr>"
    if ki: "(k, i) \<in> set (sessions c2)" for k i
  proof -
    have m: "(k, i) \<in> set (sessions c1)" "(k, i) \<in> set (sessions c)" using ki s1 s2 by auto
    show ?thesis using closed_object [OF c1(2) c2(2) ki] inP [OF m(2)] inT [OF m(1)] by simp
  qed
  have rel: "set (released_sessions c2) = set (released_sessions c) \<union>
      {k. \<exists>i. (k, i) \<in> set (sessions c) \<and> \<not> busy c i \<and> due (clock k) (session_objs c ! i) (store_of c)}"
  proof -
    have r1: "set (released_sessions c1) = set (released_sessions c) \<union> {k. \<exists>i. (k, i) \<in> set (sessions c) \<and> k \<in> set ?P \<and> \<not> busy c i}"
      using c1(2) by (simp add: close_outcome_def bc)
    have r2: "set (released_sessions c2) = set (released_sessions c1) \<union> {k. \<exists>i. (k, i) \<in> set (sessions c1) \<and> k \<in> set ?T \<and> \<not> busy c i}"
      using c2(2) by (simp add: close_outcome_def b1)
    have e1: "{k. \<exists>i. (k, i) \<in> set (sessions c) \<and> k \<in> set ?P \<and> \<not> busy c i} = {k. \<exists>i. (k, i) \<in> set (sessions c) \<and> ?f (k, i) \<and> \<not> busy c i}"
      using inP by blast
    have e2: "{k. \<exists>i. (k, i) \<in> set (sessions c1) \<and> k \<in> set ?T \<and> \<not> busy c i} =
        {k. \<exists>i. (k, i) \<in> set (sessions c) \<and> \<not> ?f (k, i) \<and> is_timed_out (clock k) (session_objs c ! i) \<and> \<not> busy c i}"
    proof -
      have "{k. \<exists>i. (k, i) \<in> set (sessions c1) \<and> k \<in> set ?T \<and> \<not> busy c i} =
          {k. \<exists>i. (k, i) \<in> set (sessions c1) \<and> is_timed_out (clock k) (session_objs c ! i) \<and> \<not> busy c i}" using inT by blast
      then show ?thesis unfolding s1 by auto
    qed
    show ?thesis unfolding r2 r1 e1 e2 by (auto simp: due_def)
  qed
  have "ctl_ok c2" "last_reap_time c2 = now" using c1(2) c2(2) by (simp_all add: close_outcome_def)
  then show ?thesis using run ses obj rel by (intro exI [of _ c2]) auto
qed

end
