(* ===== verification/SessionProps.thy ===== *)
theory SessionProps
  imports SessionControl
begin

text \<open>
  The properties of sessions, with small sessions on which they are instantiated.
\<close>

section \<open>Streaming sessions\<close>

definition plain_params :: session_params where
  "plain_params = \<lparr>sp_rid = None, sp_offset = None, sp_replace = None, sp_drop_previous_output = None\<rparr>"

text \<open>C23. A streaming session refines the conversation under every sequence of submitted, refused,
  finished, aborted and discarded turns in which no turn is submitted between the discarding of
  a refused turn and the end of the turn running beside it: no event raises, the tokens of a
  turn are those of the finished turns (with the outputs cut to their limits) followed by its
  own input without a leading BOS, although the turns share arrays that aborted turns have
  written to; and a refresh makes \<open>fill_ids\<close> of the active request its prompt followed by its
  output. In the excluded sequences a second turn is accepted beside the first.\<close>

theorem streaming_refines_conversation:
  assumes "well_timed Idle es"
  shows "\<exists>st. turn_run bos sid es (new_turns cap name tmo now) = Inr st \<and>
     conversation_of st = fold (conv_step bos) es \<lparr>cv_hist = None, cv_cur = None\<rparr> \<and>
     (case ts_active st of None \<Rightarrow> True
      | Some r \<Rightarrow> (let w = refresh_fill_ids r (ts_world st); q = sreqs w ! r in
                    arr w (sr_fill q) = arr w (sr_origin q) @ sr_output q))"
proof -
  obtain st where st: "turn_run bos sid es (new_turns cap name tmo now) = Inr st" "turn_inv st"
    "conversation_of st = fold (conv_step bos) es \<lparr>cv_hist = None, cv_cur = None\<rparr>"
    using turn_run_simulates [OF new_turns_ok(1) assms] new_turns_ok(2) by (metis turn_at_def)
  have "active_ok r (ts_world st)" if "ts_active st = Some r" for r
    using st(2) that by (simp add: turn_inv_def stream_ok_def)
  then show ?thesis using st refresh_spec(10) by (auto simp: Let_def split: option.split)
qed

text \<open>Two finished turns, one aborted and one with \<open>replace\<close>, which is refused; two turns
  submitted while another runs are refused as well, and one of them is discarded meanwhile.\<close>

definition replace_params :: session_params where
  "replace_params = plain_params\<lparr>sp_replace := Some True\<rparr>"

definition mixed_turns :: "turn_event list" where
  "mixed_turns = [Submit 0 ''a'' [1, 2] (Some 1) plain_params, Submit 1 ''b'' [1, 3] None plain_params,
     Submit 1 ''c'' [1, 3] None plain_params, Refresh, Emit 4, Discard 1 False, Emit 5, FinishTurn,
     Submit 2 ''d'' [1, 6] None replace_params, Discard 3 True, Submit 3 ''e'' [1, 7] None plain_params, Refresh, Emit 8, AbortTurn,
     Discard 2 True, Submit 4 ''f'' [1, 9] None plain_params]"

theorem streaming_refines_conversation_witness:
  "well_timed Idle mixed_turns \<and> (\<exists>st. turn_run (Some 1) 0 mixed_turns (new_turns 64 (Some ''s'') None 0) = Inr st \<and>
     conversation_of st = \<lparr>cv_hist = Some [1, 2, 4], cv_cur = Some ([1, 2, 4, 9], [], None)\<rparr>)"
proof -
  have t: "well_timed Idle mixed_turns" by code_simp
  have "fold (conv_step (Some 1)) mixed_turns \<lparr>cv_hist = None, cv_cur = None\<rparr> =
    \<lparr>cv_hist = Some [1, 2, 4], cv_cur = Some ([1, 2, 4, 9], [], None)\<rparr>" by code_simp
  then show ?thesis using t streaming_refines_conversation [OF t, of "Some 1" 0 64 "Some ''s''" None 0] by auto
qed

text \<open>The condition on the order is needed: discarding the second turn lets the third in, which
  takes the place of the first.\<close>

definition exposed_turns :: "turn_event list" where
  "exposed_turns = [Submit 0 ''a'' [1, 2] None plain_params, Submit 1 ''b'' [1, 3] None plain_params, Discard 1 False,
     Submit 2 ''c'' [1, 4] None plain_params]"

lemma exposed_turn_replaced:
  "\<not> well_timed Idle exposed_turns" "map_res (\<lambda>st. cv_cur (conversation_of st)) (turn_run (Some 1) 0 exposed_turns (new_turns 64 (Some ''s'') None 0)) =
     Inr (Some ([1, 4], [], None))"
  "cv_cur (fold (conv_step (Some 1)) exposed_turns \<lparr>cv_hist = None, cv_cur = None\<rparr>) = Some ([1, 2], [], None)"
  by code_simp+

text \<open>Padding the prompt of a later turn with multimodal placeholders of the same length goes
  unnoticed: \<open>fill_ids\<close>, carried over from the assembly of the turn, is not rebuilt, so the
  request runs on the tokens before padding.\<close>

definition pad_origin :: "int list \<Rightarrow> nat \<Rightarrow> world \<Rightarrow> world" where
  "pad_origin ids r w = (let (a, w') = new_arr ids w in upd_sreq r (\<lambda>q. q\<lparr>sr_origin := a\<rparr>) w')"

lemma padding_leaves_stale_fill:
  assumes "active_ok r w" "arr w (sr_fill (sreqs w ! r)) = arr w (sr_origin (sreqs w ! r))"
    "length ids = length (arr w (sr_origin (sreqs w ! r)))" "ids \<noteq> arr w (sr_origin (sreqs w ! r))"
  defines "w' \<equiv> refresh_fill_ids r (pad_origin ids r w)"
  shows "arr w' (sr_origin (sreqs w' ! r)) = ids \<and>
    arr w' (sr_fill (sreqs w' ! r)) = arr w (sr_origin (sreqs w ! r)) @ sr_output (sreqs w ! r) \<and>
    arr w' (sr_fill (sreqs w' ! r)) \<noteq> arr w' (sr_origin (sreqs w' ! r)) @ sr_output (sreqs w' ! r)"
proof -
  obtain a w1 where a: "new_arr ids w = (a, w1)" by (rule prod.exhaust)
  note N = new_arr_sel [OF a] and A = active_addr [OF assms(1)]
  let ?q = "sreqs w ! r" and ?v = "pad_origin ids r w"
  have v: "?v = upd_sreq r (\<lambda>q. q\<lparr>sr_origin := a\<rparr>) w1" by (simp add: pad_origin_def a)
  have q: "sreqs ?v ! r = ?q\<lparr>sr_origin := a\<rparr>" using A(4) N(4) by (simp add: v)
  have x: "arr ?v a = ids" "arr ?v (sr_fill ?q) = arr w (sr_origin ?q)" "sr_fill ?q \<noteq> a" "sr_fill ?q < length (arrays ?v)"
    using A(2) N assms(2) by (auto simp: v)
  have "w' = set_arr (sr_fill ?q) (arr w (sr_origin ?q) @ sr_output ?q) ?v"
    using q x assms(3) by (simp add: w'_def refresh_fill_ids_def Let_def)
  then show ?thesis using q x assms(3,4) by auto
qed

definition two_turns :: "turn_event list" where
  "two_turns = [Submit 0 ''a'' [1, 2, 3] (Some 8) plain_params, Refresh, Emit 4, Refresh, Emit 5, FinishTurn,
     Submit 1 ''b'' [1, 9, 9] (Some 8) plain_params]"

definition two_state :: turn_state where
  "two_state = (case turn_run (Some 1) 0 two_turns (new_turns 64 (Some ''s'') None 0) of Inr st \<Rightarrow> st | Inl _ \<Rightarrow> new_turns 0 None None 0)"

lemma two_state_ok: "turn_ok two_state"
proof -
  have "well_timed Idle two_turns" "fold next_status two_turns Idle = Guarded" by code_simp+
  then show ?thesis using turn_run_simulates [OF new_turns_ok(1), of two_turns "Some 1" 0 64 "Some ''s''" None 0]
    by (auto simp: two_state_def turn_at_def turn_ok_def)
qed

lemma two_state_eval: "ts_active two_state = Some 1" "arr (ts_world two_state) (sr_origin (sreqs (ts_world two_state) ! 1)) = [1, 2, 3, 4, 5, 9, 9]"
  "arr (ts_world two_state) (sr_fill (sreqs (ts_world two_state) ! 1)) = [1, 2, 3, 4, 5, 9, 9]" "sr_output (sreqs (ts_world two_state) ! 1) = []"
  by code_simp+

lemma padding_leaves_stale_fill_witness:
  "let w' = refresh_fill_ids 1 (pad_origin [1, 2, 3, 4, 5, 77, 78] 1 (ts_world two_state)) in
     arr w' (sr_origin (sreqs w' ! 1)) = [1, 2, 3, 4, 5, 77, 78] \<and> arr w' (sr_fill (sreqs w' ! 1)) = [1, 2, 3, 4, 5, 9, 9]"
proof -
  have "active_ok 1 (ts_world two_state)" using two_state_ok two_state_eval(1) by (simp add: turn_ok_def turn_inv_def stream_ok_def)
  from padding_leaves_stale_fill [OF this, of "[1, 2, 3, 4, 5, 77, 78]"] show ?thesis
    unfolding two_state_eval by (simp add: Let_def)
qed

section \<open>Sessions with a request tree\<close>

definition tree_params :: "string option \<Rightarrow> bool \<Rightarrow> session_params" where
  "tree_params k replace = \<lparr>sp_rid = k, sp_offset = None, sp_replace = Some replace, sp_drop_previous_output = None\<rparr>"

text \<open>A session with a request, one that continues it and two that continue that one; the last
  two are still running.\<close>

definition demo_sreq :: "string \<Rightarrow> nat \<Rightarrow> int list \<Rightarrow> finish_reason option \<Rightarrow> sreq" where
  "demo_sreq k a out fin = \<lparr>sr_rid = k, sr_origin = a, sr_unpadded = a, sr_fill = a, sr_output = out, sr_max_new_tokens = None,
     sr_finished_reason = fin, sr_to_finish = None, sr_session = Some 0, sr_multimodal_inputs = None\<rparr>"

definition demo_world :: world where
  "demo_world = \<lparr>arrays = [[1, 2], [1, 2, 3, 4], [1, 2, 3, 4, 5], [1, 2, 3, 4, 6], [7, 8]],
     sreqs = [demo_sreq ''a'' 0 [3] (Some FINISH_OTHER), demo_sreq ''b'' 1 [] (Some FINISH_OTHER),
       demo_sreq ''c'' 2 [] None, demo_sreq ''d'' 3 [] None],
     nodes = [\<lparr>nd_req = 0, nd_parent = None, nd_children = [1]\<rparr>, \<lparr>nd_req = 1, nd_parent = Some 0, nd_children = [2, 3]\<rparr>,
       \<lparr>nd_req = 2, nd_parent = Some 1, nd_children = []\<rparr>, \<lparr>nd_req = 3, nd_parent = Some 1, nd_children = []\<rparr>]\<rparr>"

definition demo_session :: session where
  "demo_session = (new_session 64 (Some ''s'') False None 0)\<lparr>req_nodes := [(''a'', 0), (''b'', 1), (''c'', 2), (''d'', 3)]\<rparr>"

lemma demo_tree_ok: "tree_ok demo_session demo_world"
proof -
  have "forest demo_world"
    by (rule forestI) (auto simp: demo_world_def less_Suc_eq nth_Cons')
  then show ?thesis
    by (auto simp: tree_ok_def demo_session_def new_session_def dict_ok_def node_req_def demo_world_def demo_sreq_def)
qed

definition demo_input :: "session_params \<Rightarrow> gen_input" where
  "demo_input sp = \<lparr>gi_rid = ''e'', gi_input_ids = 4, gi_max_new_tokens = None, gi_mm_items = None, gi_session_params = Some sp\<rparr>"

text \<open>C25. A turn that replaces a request continues from it, drops exactly the requests below it
  from the session and marks those still running as aborted; the tree stays well formed.\<close>

theorem replace_drops_subtree:
  assumes "tree_ok s w" "gi_session_params gi = Some sp" "truthy (sp_replace sp)" "sp_rid sp = Some k" "map_of (req_nodes s) k = Some n"
    "gi_rid gi \<notin> fst ` set (req_nodes s)" "gi_input_ids gi < length (arrays w)"
  shows "\<exists>r s' w'. create_req now bos sid gi s w = Inr (r, s', w') \<and> tree_ok s' w' \<and>
    req_nodes s' = filter (\<lambda>p. snd p \<notin> sub w n - {n}) (req_nodes s) @ [(gi_rid gi, length (nodes w))] \<and>
    arr w' (sr_origin (sreqs w' ! r)) = turn_tokens bos gi sp (Some n) w \<and>
    (\<forall>m \<in> sub w n. sr_finished_reason (node_req w m) = None \<longrightarrow>
       sr_to_finish (sreqs w' ! nd_req (nodes w ! m)) = Some (FINISH_ABORT ''Aborted''))"
  using assms by (rule replace_turn)

lemma demo_sub: "sub demo_world 1 = {1, 2, 3}"
proof -
  have l: "length (nodes demo_world) = 4" by (simp add: demo_world_def)
  have "sub demo_world 2 = {2}" "sub demo_world 3 = {3}"
    using sub_unfold [of 2 demo_world] sub_unfold [of 3 demo_world] l by (simp_all add: demo_world_def)
  then show ?thesis using sub_unfold [of 1 demo_world] l by (auto simp: demo_world_def)
qed

theorem replace_drops_subtree_witness:
  "\<exists>r s' w'. create_req 0 None 0 (demo_input (tree_params (Some ''b'') True)) demo_session demo_world = Inr (r, s', w') \<and>
     map fst (req_nodes s') = [''a'', ''b'', ''e''] \<and> arr w' (sr_origin (sreqs w' ! r)) = [1, 2, 3, 4, 7, 8] \<and>
     sr_to_finish (sreqs w' ! 2) = Some (FINISH_ABORT ''Aborted'')"
proof -
  let ?sp = "tree_params (Some ''b'') True"
  have "\<exists>r s' w'. create_req 0 None 0 (demo_input ?sp) demo_session demo_world = Inr (r, s', w') \<and> tree_ok s' w' \<and>
    req_nodes s' = filter (\<lambda>p. snd p \<notin> sub demo_world 1 - {1}) (req_nodes demo_session) @ [(gi_rid (demo_input ?sp), length (nodes demo_world))] \<and>
    arr w' (sr_origin (sreqs w' ! r)) = turn_tokens None (demo_input ?sp) ?sp (Some 1) demo_world \<and>
    (\<forall>m \<in> sub demo_world 1. sr_finished_reason (node_req demo_world m) = None \<longrightarrow>
       sr_to_finish (sreqs w' ! nd_req (nodes demo_world ! m)) = Some (FINISH_ABORT ''Aborted''))"
    by (rule replace_drops_subtree [OF demo_tree_ok, where sp = "?sp" and k = "''b''" and n = 1])
      (simp_all add: demo_input_def tree_params_def truthy_def demo_session_def demo_world_def)
  moreover have "turn_tokens None (demo_input ?sp) ?sp (Some 1) demo_world = [1, 2, 3, 4, 7, 8]" by code_simp
  moreover have "sr_finished_reason (node_req demo_world 2) = None" "nd_req (nodes demo_world ! 2) = 2" by code_simp+
  ultimately show ?thesis unfolding demo_sub by (auto simp: demo_session_def demo_input_def)
qed

text \<open>C26. A turn that appends to a finished request, or starts a new branch, keeps every request of
  the session and adds its own node: last among the children of the request it continues, with
  that request as its parent and no children, all other nodes as before. Its prompt is the prompt
  of the continued request, its output up to the output limit unless it is to be dropped, cut
  by \<open>offset\<close>, followed by the new input without a leading BOS.\<close>

theorem append_extends_tree:
  assumes "tree_ok s w" "gi_session_params gi = Some sp" "\<not> truthy (sp_replace sp)"
    "case sp_rid sp of None \<Rightarrow> prev = None
      | Some k \<Rightarrow> \<exists>n. map_of (req_nodes s) k = Some n \<and> prev = Some n \<and> req_is_finished (node_req w n)"
    "gi_rid gi \<notin> fst ` set (req_nodes s)" "gi_input_ids gi < length (arrays w)"
  shows "\<exists>r s' w'. create_req now bos sid gi s w = Inr (r, s', w') \<and> tree_ok s' w' \<and>
    req_nodes s' = req_nodes s @ [(gi_rid gi, length (nodes w))] \<and> arr w' (sr_origin (sreqs w' ! r)) = turn_tokens bos gi sp prev w \<and>
    nodes w' ! length (nodes w) = \<lparr>nd_req = r, nd_parent = prev, nd_children = []\<rparr> \<and>
    (\<forall>m < length (nodes w). nodes w' ! m =
       (if prev = Some m then (nodes w ! m)\<lparr>nd_children := nd_children (nodes w ! m) @ [length (nodes w)]\<rparr> else nodes w ! m)) \<and>
    r = length (sreqs w) \<and> (\<forall>i < r. sreqs w' ! i = sreqs w ! i)"
  using assms by (rule append_turn)

theorem append_extends_tree_witness:
  "\<exists>r s' w'. create_req 0 None 0 (demo_input (tree_params (Some ''a'') False)) demo_session demo_world = Inr (r, s', w') \<and>
     length (req_nodes s') = 5 \<and> arr w' (sr_origin (sreqs w' ! r)) = [1, 2, 3, 7, 8] \<and> nd_children (nodes w' ! 0) = [1, 4] \<and>
     nd_parent (nodes w' ! 4) = Some 0"
proof -
  let ?sp = "tree_params (Some ''a'') False"
  have l: "length (nodes demo_world) = 4" "nd_children (nodes demo_world ! 0) = [1]" by (simp_all add: demo_world_def)
  have "\<exists>r s' w'. create_req 0 None 0 (demo_input ?sp) demo_session demo_world = Inr (r, s', w') \<and> tree_ok s' w' \<and>
    req_nodes s' = req_nodes demo_session @ [(gi_rid (demo_input ?sp), length (nodes demo_world))] \<and>
    arr w' (sr_origin (sreqs w' ! r)) = turn_tokens None (demo_input ?sp) ?sp (Some 0) demo_world \<and>
    nodes w' ! length (nodes demo_world) = \<lparr>nd_req = r, nd_parent = Some 0, nd_children = []\<rparr> \<and>
    (\<forall>m < length (nodes demo_world). nodes w' ! m = (if Some 0 = Some m
       then (nodes demo_world ! m)\<lparr>nd_children := nd_children (nodes demo_world ! m) @ [length (nodes demo_world)]\<rparr> else nodes demo_world ! m)) \<and>
    r = length (sreqs demo_world) \<and> (\<forall>i < r. sreqs w' ! i = sreqs demo_world ! i)"
    by (rule append_extends_tree [OF demo_tree_ok, where sp = "?sp"])
      (simp_all add: demo_input_def tree_params_def truthy_def demo_session_def demo_world_def node_req_def req_is_finished_def demo_sreq_def)
  moreover have "turn_tokens None (demo_input ?sp) ?sp (Some 0) demo_world = [1, 2, 3, 7, 8]" by code_simp
  ultimately show ?thesis unfolding l by (auto simp: demo_session_def l)
qed

text \<open>Replacing all requests (no \<open>rid\<close>) of a session that has any raises \<open>RuntimeError\<close>: the loop
  deletes entries of the dictionary it iterates over.\<close>

lemma replace_all_fails:
  assumes "tree_ok s w" "req_nodes s \<noteq> []" "gi_session_params gi = Some sp" "truthy (sp_replace sp)" "sp_rid sp = None"
  shows "create_req now bos sid gi s w = Inl RuntimeError"
  using assms by (rule replace_all_raises)

lemma replace_all_fails_witness:
  "create_req 0 None 0 (demo_input (tree_params None True)) demo_session demo_world = Inl RuntimeError"
  by (rule replace_all_fails [OF demo_tree_ok, where sp = "tree_params None True"])
    (simp_all add: demo_input_def tree_params_def truthy_def demo_session_def)

section \<open>The controller\<close>

text \<open>C28. When it is due, \<open>maybe_reap\<close> never raises. A session is due when it is marked for closing and
  all its requests have finished, or when it has timed out. Of the due sessions exactly those
  are released that are not streaming, even with unfinished requests, or that are streaming with
  no request in flight and a finished last request. Every other session stays; it is unchanged,
  except that one that has timed out is now marked for closing.\<close>

theorem reap_releases_due_sessions:
  assumes "ctl_ok c" "now - last_reap_time c > interval"
  shows "\<exists>c'. maybe_reap now clock interval c = Inr c' \<and> ctl_ok c' \<and> last_reap_time c' = now \<and>
    sessions c' = filter (\<lambda>(k, i). busy c i \<or> \<not> due (clock k) (session_objs c ! i) (store_of c)) (sessions c) \<and>
    (\<forall>(k, i) \<in> set (sessions c'). session_objs c' ! i =
       (session_objs c ! i)\<lparr>close_on_finish := close_on_finish (session_objs c ! i) \<or> is_timed_out (clock k) (session_objs c ! i)\<rparr>) \<and>
    set (released_sessions c') = set (released_sessions c) \<union>
      {k. \<exists>i. (k, i) \<in> set (sessions c) \<and> \<not> busy c i \<and> due (clock k) (session_objs c ! i) (store_of c)}"
  using assms by (rule maybe_reap_outcome)

text \<open>A session without a timeout, a streaming one with a request in flight, an idle streaming
  one, and one that is not streaming and has running requests; the last three have timed out.\<close>

definition demo_controller :: controller where
  "demo_controller = \<lparr>sessions = [(''s'', 0), (''t'', 1), (''u'', 2), (''v'', 3)], last_reap_time = 0,
     session_objs = [new_session 64 (Some ''s'') False None 0, (new_session 64 (Some ''t'') True (Some 5) 0)\<lparr>inflight := True\<rparr>,
       new_session 64 (Some ''u'') True (Some 5) 0, demo_session\<lparr>timeout := Some 5\<rparr>],
     store_of = demo_world, released_sessions = [], released_mm = []\<rparr>"

lemma demo_controller_ok: "ctl_ok demo_controller"
  by (simp add: ctl_ok_def demo_controller_def demo_session_def new_session_def)

theorem reap_releases_due_sessions_witness:
  "\<not> all_requests_finished (session_objs demo_controller ! 3) (store_of demo_controller) \<and>
   (\<exists>c'. maybe_reap 10 (\<lambda>_. 11) 1 demo_controller = Inr c' \<and> sessions c' = [(''s'', 0), (''t'', 1)] \<and>
     close_on_finish (session_objs c' ! 1) \<and> set (released_sessions c') = {''u'', ''v''})"
proof -
  let ?c = demo_controller and ?t = "\<lambda>_ :: string. 11 :: int"
  have "\<exists>c'. maybe_reap 10 ?t 1 ?c = Inr c' \<and> ctl_ok c' \<and> last_reap_time c' = 10 \<and>
    sessions c' = filter (\<lambda>(k, i). busy ?c i \<or> \<not> due (?t k) (session_objs ?c ! i) (store_of ?c)) (sessions ?c) \<and>
    (\<forall>(k, i) \<in> set (sessions c'). session_objs c' ! i =
       (session_objs ?c ! i)\<lparr>close_on_finish := close_on_finish (session_objs ?c ! i) \<or> is_timed_out (?t k) (session_objs ?c ! i)\<rparr>) \<and>
    set (released_sessions c') = set (released_sessions ?c) \<union>
      {k. \<exists>i. (k, i) \<in> set (sessions ?c) \<and> \<not> busy ?c i \<and> due (?t k) (session_objs ?c ! i) (store_of ?c)}"
    by (rule reap_releases_due_sessions [OF demo_controller_ok]) (simp add: demo_controller_def)
  moreover have "map_res (\<lambda>c'. (sessions c', close_on_finish (session_objs c' ! 1), released_sessions c')) (maybe_reap 10 ?t 1 ?c) =
      Inr ([(''s'', 0), (''t'', 1)], True, [''u'', ''v''])"
    "\<not> all_requests_finished (session_objs ?c ! 3) (store_of ?c)" by code_simp+
  ultimately show ?thesis by auto
qed

end
