(* ===== verification/StreamingProps.thy ===== *)
theory StreamingProps
  imports StreamingProofs SessionProps
begin

text \<open>
  The properties of the KV slots of streaming sessions. The witnesses use a pool of eight pages of
  four slots, of which the session holds the first two in row 1: six tokens, four of them
  protected by the tree.
\<close>

definition demo_slot :: session_slot where
  "demo_slot = new_slot\<lparr>sl_pool_idx := Some 1, sl_committed_len := 6, sl_kv := Some \<lparr>kv_allocated_len = 6, swa_evicted_seqlen = 0\<rparr>,
     sl_protected_len := 4, sl_last_node := Some 3\<rparr>"

definition demo_kvreq :: kvreq where
  "demo_kvreq = \<lparr>kq_pool_idx = None, kq_committed_len = 0, kq_kv = None, kq_last_node = None, kq_protected_len = 0, kq_swa_uuid = None,
     kq_skip_ids = [], kq_mamba = no_mamba, kq_finished_len = None, kq_extend_end = 0, kq_prefix_indices = []\<rparr>"

definition demo_streaming :: "unit streaming" where
  "demo_streaming = \<lparr>ss_slots = [(Some ''s'', demo_slot)], ss_sessions = [ts_session two_state], ss_world = ts_world two_state,
     ss_kv = [demo_kvreq, demo_kvreq],
     ss_rows = \<lparr>rp_size = 2, max_context_len = 8, req_to_token = [replicate 8 0, [4, 5, 6, 7, 8, 9, 0, 0], replicate 8 0],
       free_slots = [2], req_generation = [0, 1, 0]\<rparr>,
     ss_alloc = (init_paged_alloc 32 4 True True)\<lparr>free_pages := [3, 4, 5, 6, 7, 8]\<rparr>, ss_page_size = 4, ss_mamba_freed = None, ss_inner = ()\<rparr>"

lemma demo_laid: "laid 4 [1, 2] [4, 5, 6, 7, 8, 9, 0, 0] 6"
  by (simp add: laid_def pages_of_def expand_pages_def upt_rec)

lemma demo_row_laid: "row_laid demo_streaming (Some 1) [1, 2] 6"
proof -
  have "al_ok (ss_alloc demo_streaming)" "al_page_size (ss_alloc demo_streaming) = 4" "pool_slots (ss_alloc demo_streaming) = page_slots 4 {3, 4, 5, 6, 7, 8}"
    by (auto simp: demo_streaming_def al_ok_def paged_ok_def pool_ok_def pool_pages_def pool_slots_def init_paged_alloc_def paged_clear_def)
  moreover have "page_slots 4 {1, 2} \<inter> page_slots 4 {3, 4, 5, 6, 7, 8} = {}" by (rule page_slots_disjoint) simp_all
  moreover have "ss_page_size demo_streaming = 4" "req_to_token (ss_rows demo_streaming) = [replicate 8 0, [4, 5, 6, 7, 8, 9, 0, 0], replicate 8 0]"
    by (simp_all add: demo_streaming_def)
  ultimately show ?thesis using demo_laid unfolding row_laid_def by simp
qed

lemma demo_slot_laid: "slot_laid demo_streaming demo_slot [1, 2]"
  using demo_row_laid by (simp add: slot_laid_def demo_slot_def new_slot_def) (simp add: demo_streaming_def)

text \<open>C29. Releasing a session never fails when its tree lock can be dropped: it gives back exactly the
  pages of its row behind the protected prefix, a partly filled last page included, and the
  row; the pool grows by what \<open>session_held_tokens\<close> counted for the slot.\<close>

theorem release_session_returns_kv:
  assumes "map_of (ss_slots st) sid = Some sl" "slot_laid st sl pages"
    "case sl_last_node sl of None \<Rightarrow> c' = ss_inner st | Some n \<Rightarrow> dec n (ss_inner st) = Inr c'"
  shows "\<exists>st'. release_session dec sid st = Inr st' \<and> ss_slots st' = AList.delete sid (ss_slots st) \<and> ss_inner st' = c' \<and>
    free_slots (ss_rows st') = free_slots (ss_rows st) @ [the (sl_pool_idx sl)] \<and> al_ok (ss_alloc st') \<and>
    pool_slots (ss_alloc st') = pool_slots (ss_alloc st) \<union>
      page_slots (ss_page_size st) (set (drop (sl_protected_len sl div ss_page_size st) pages)) \<and>
    int (card (pool_slots (ss_alloc st'))) = int (card (pool_slots (ss_alloc st))) + slot_held_tokens (ss_page_size st) sl"
  using assms by (rule release_session_frees)

theorem release_session_returns_kv_witness:
  "\<exists>st'. release_session (\<lambda>n c. Inr c) (Some ''s'') demo_streaming = Inr st' \<and> free_slots (ss_rows st') = [2, 1] \<and>
     int (card (pool_slots (ss_alloc st'))) = int (card (pool_slots (ss_alloc demo_streaming))) + 4"
proof -
  have "map_of (ss_slots demo_streaming) (Some ''s'') = Some demo_slot" by (simp add: demo_streaming_def)
  from release_session_returns_kv [OF this demo_slot_laid, of "()" "\<lambda>n c. Inr c"]
  obtain st' where st': "release_session (\<lambda>n c. Inr c) (Some ''s'') demo_streaming = Inr st'"
    "free_slots (ss_rows st') = free_slots (ss_rows demo_streaming) @ [the (sl_pool_idx demo_slot)]"
    "int (card (pool_slots (ss_alloc st'))) = int (card (pool_slots (ss_alloc demo_streaming))) + slot_held_tokens (ss_page_size demo_streaming) demo_slot"
    by (auto simp: demo_slot_def new_slot_def)
  moreover have "slot_held_tokens (ss_page_size demo_streaming) demo_slot = 4"
    by (simp add: slot_held_tokens_def demo_slot_def ceil_align_def pages_of_def demo_streaming_def)
  ultimately show ?thesis by (auto simp: demo_streaming_def demo_slot_def)
qed

text \<open>C30. A match on an active slot returns the indices of the committed prefix, hands the row to the
  request and returns the pages behind the prefix to the pool, none of which the prefix uses;
  the slot keeps the prefix for the next attempt.\<close>

theorem match_reuses_committed_kv:
  assumes "find_active_slot r st = (Some (sid, sl), st)" "slot_laid st sl pages" "r < length (ss_kv st)"
    "n = min (sl_committed_len sl) key_len" "sl_protected_len sl \<le> n" "n \<le> kv_allocated_len (the (sl_kv sl))"
  shows "\<exists>st' m sl'. try_match_prefix key_len r st = Inr (Some m, st') \<and>
    sm_indices m = take n (req_to_token (ss_rows st) ! the (sl_pool_idx sl)) \<and> sm_node m = VirtualNode \<and>
    sm_protected_len m = sl_protected_len sl \<and>
    map_of (ss_slots st') sid = Some sl' \<and> slot_laid st' sl' (take (pages_of (ss_page_size st) n) pages) \<and>
    kq_pool_idx (ss_kv st' ! r) = sl_pool_idx sl \<and> map_option kv_allocated_len (kq_kv (ss_kv st' ! r)) = Some n \<and>
    pool_slots (ss_alloc st') = pool_slots (ss_alloc st) \<union> page_slots (ss_page_size st) (set (drop (pages_of (ss_page_size st) n) pages))"
  using assms by (rule match_keeps_prefix)

lemma demo_find: "find_active_slot 1 demo_streaming = (Some (Some ''s'', demo_slot), demo_streaming)"
proof -
  have "sr_session (sreqs (ts_world two_state) ! 1) = Some 0" "sr_to_finish (sreqs (ts_world two_state) ! 1) = None"
    "streaming (ts_session two_state)" "session_id (ts_session two_state) = Some ''s''" by code_simp+
  then show ?thesis by (simp add: find_active_slot_def req_session_def demo_streaming_def demo_slot_def new_slot_def Let_def)
qed

theorem match_reuses_committed_kv_witness:
  "\<exists>st' m. try_match_prefix 5 1 demo_streaming = Inr (Some m, st') \<and> sm_indices m = [4, 5, 6, 7, 8]"
proof -
  have "\<exists>st' m sl'. try_match_prefix 5 1 demo_streaming = Inr (Some m, st') \<and>
    sm_indices m = take 5 (req_to_token (ss_rows demo_streaming) ! the (sl_pool_idx demo_slot)) \<and> sm_node m = VirtualNode \<and>
    sm_protected_len m = sl_protected_len demo_slot \<and>
    map_of (ss_slots st') (Some ''s'') = Some sl' \<and> slot_laid st' sl' (take (pages_of (ss_page_size demo_streaming) 5) [1, 2]) \<and>
    kq_pool_idx (ss_kv st' ! 1) = sl_pool_idx demo_slot \<and> map_option kv_allocated_len (kq_kv (ss_kv st' ! 1)) = Some 5 \<and>
    pool_slots (ss_alloc st') = pool_slots (ss_alloc demo_streaming) \<union>
      page_slots (ss_page_size demo_streaming) (set (drop (pages_of (ss_page_size demo_streaming) 5) [1, 2]))"
    by (rule match_reuses_committed_kv [OF demo_find demo_slot_laid]) (simp_all add: demo_streaming_def demo_slot_def)
  then show ?thesis by (auto simp: demo_streaming_def demo_slot_def)
qed

text \<open>C31. Finishing a turn moves its KV from the request to the slot: the slot holds the pages of the
  tokens up to the finished length, what was allocated beyond goes back to the pool, the
  committed length never exceeds the allocated one, and the session is no longer in flight.\<close>

theorem finish_moves_kv_to_slot:
  assumes "i < length (ss_sessions st)" "length (req_nodes (ss_sessions st ! i)) \<le> 1" "r < length (ss_kv st)"
    "kq_kv (ss_kv st ! r) = Some k" "row_laid st (kq_pool_idx (ss_kv st ! r)) pages (kv_allocated_len k)"
    "t = length (arr (ss_world st) (sr_origin (sreqs (ss_world st) ! r))) +
      (case kq_finished_len (ss_kv st ! r) of None \<Rightarrow> length (sr_output (sreqs (ss_world st) ! r)) | Some n \<Rightarrow> n)"
    "prot = (case map_of (ss_slots st) (session_id (ss_sessions st ! i)) of None \<Rightarrow> kq_protected_len (ss_kv st ! r) | Some sl \<Rightarrow> sl_protected_len sl)"
    "ss_page_size st dvd prot" "prot \<le> min (kv_allocated_len k) t"
  shows "\<exists>st' sl'. finish_saved r i st = Inr st' \<and> map_of (ss_slots st') (session_id (ss_sessions st ! i)) = Some sl' \<and>
    slot_laid st' sl' (take (pages_of (ss_page_size st) (min (kv_allocated_len k) t)) pages) \<and> sl_committed_len sl' = min (kv_allocated_len k) t \<and>
    sl_protected_len sl' = prot \<and> sl_pool_idx sl' = kq_pool_idx (ss_kv st ! r) \<and> kq_kv (ss_kv st' ! r) = None \<and> \<not> inflight (ss_sessions st' ! i) \<and>
    pool_slots (ss_alloc st') = pool_slots (ss_alloc st) \<union>
      page_slots (ss_page_size st) (set (drop (pages_of (ss_page_size st) (min (kv_allocated_len k) t)) pages))"
  using assms by (rule finish_saves_kv)

definition demo_running :: "unit streaming" where
  "demo_running = demo_streaming\<lparr>ss_slots := [], ss_kv := [demo_kvreq, demo_kvreq\<lparr>kq_pool_idx := Some 1,
     kq_kv := Some \<lparr>kv_allocated_len = 6, swa_evicted_seqlen = 0\<rparr>, kq_committed_len := 6, kq_finished_len := Some 1\<rparr>]\<rparr>"

theorem finish_moves_kv_to_slot_witness:
  "\<exists>st' sl'. finish_saved 1 0 demo_running = Inr st' \<and> map_of (ss_slots st') (Some ''s'') = Some sl' \<and> sl_committed_len sl' = 6"
proof -
  have w: "length (arr (ts_world two_state) (sr_origin (sreqs (ts_world two_state) ! 1))) = 7" "length (req_nodes (ts_session two_state)) = 1"
    "session_id (ts_session two_state) = Some ''s''" by code_simp+
  have l: "row_laid demo_running (Some 1) [1, 2] 6"
    using demo_row_laid row_laid_cong [of demo_running demo_streaming] by (simp add: demo_running_def)
  have "\<exists>st' sl'. finish_saved 1 0 demo_running = Inr st' \<and> map_of (ss_slots st') (session_id (ss_sessions demo_running ! 0)) = Some sl' \<and>
    slot_laid st' sl' (take (pages_of (ss_page_size demo_running) (min (kv_allocated_len \<lparr>kv_allocated_len = 6, swa_evicted_seqlen = 0\<rparr>) 8)) [1, 2]) \<and>
    sl_committed_len sl' = min (kv_allocated_len \<lparr>kv_allocated_len = 6, swa_evicted_seqlen = 0\<rparr>) 8 \<and>
    sl_protected_len sl' = 0 \<and> sl_pool_idx sl' = kq_pool_idx (ss_kv demo_running ! 1) \<and> kq_kv (ss_kv st' ! 1) = None \<and> \<not> inflight (ss_sessions st' ! 0) \<and>
    pool_slots (ss_alloc st') = pool_slots (ss_alloc demo_running) \<union>
      page_slots (ss_page_size demo_running) (set (drop (pages_of (ss_page_size demo_running) (min (kv_allocated_len \<lparr>kv_allocated_len = 6, swa_evicted_seqlen = 0\<rparr>) 8)) [1, 2]))"
    by (rule finish_moves_kv_to_slot) (use w l in \<open>simp_all add: demo_running_def demo_streaming_def demo_kvreq_def\<close>)
  then show ?thesis using w(3) by (auto simp: demo_running_def demo_streaming_def)
qed

text \<open>C32. A rejected turn breaks the exclusion of concurrent turns: while a request of the session is
  active, a second one is rejected, but looking up the slot of the rejected request clears the
  inflight mark, and a third request is accepted beside the first.\<close>

theorem rejection_clears_inflight:
  assumes "turn_ok ts" "ts_active ts = Some r0"
    "i < length (ss_sessions st)" "ss_sessions st ! i = ts_session ts" "ss_world st = ts_world ts"
    "map_of (ss_slots st) (session_id (ts_session ts)) = Some sl" "sl_kv sl \<noteq> None"
    "gi_session_params gi = Some sp" "plain_append sp'"
  shows "\<exists>r1 s1 w1 st' ts2 r2. create_req now bos i gi (ts_session ts) (ts_world ts) = Inr (r1, s1, w1) \<and>
    sr_to_finish (sreqs w1 ! r1) \<noteq> None \<and>
    find_active_slot r1 (st\<lparr>ss_sessions := (ss_sessions st)[i := s1], ss_world := w1\<rparr>) = (None, st') \<and>
    \<not> inflight (ss_sessions st' ! i) \<and>
    turn_step bos i (Submit now' rid ids m sp') \<lparr>ts_session = ss_sessions st' ! i, ts_world = ss_world st', ts_active = None\<rparr> = Inr ts2 \<and>
    ts_active ts2 = Some r2 \<and> r2 \<noteq> r0 \<and> sreqs (ts_world ts2) ! r0 = sreqs (ts_world ts) ! r0"
  using assms by (rule rejected_turn_clears_inflight)

theorem rejection_clears_inflight_witness:
  "\<exists>r1 s1 w1 st'. create_req 2 None 0 (turn_input ''c'' 0 None plain_params) (ts_session two_state) (ts_world two_state) = Inr (r1, s1, w1) \<and>
     find_active_slot r1 (demo_streaming\<lparr>ss_sessions := (ss_sessions demo_streaming)[0 := s1], ss_world := w1\<rparr>) = (None, st') \<and>
     \<not> inflight (ss_sessions st' ! 0)"
proof -
  have "session_id (ts_session two_state) = Some ''s''" by code_simp
  then have "map_of (ss_slots demo_streaming) (session_id (ts_session two_state)) = Some demo_slot" by (simp add: demo_streaming_def)
  moreover have "plain_append plain_params" by (simp add: plain_append_def plain_params_def truthy_def has_offset_def)
  ultimately show ?thesis
    using rejection_clears_inflight [OF two_state_ok two_state_eval(1), of 0 demo_streaming demo_slot "turn_input ''c'' 0 None plain_params" plain_params plain_params 2 None]
    by (fastforce simp: demo_streaming_def demo_slot_def turn_input_def)
qed

end
