(* ===== verification/ExpertBalance.thy ===== *)
theory ExpertBalance
  imports Prelude Complex_Main
begin

text \<open>
  The expert-parallelism load balancer of \<open>python/sglang/srt/eplb/eplb_algorithms/deepseek.py\<close>:
  the logical experts of a mixture-of-experts layer are replicated to the physical experts and
  placed on nodes and GPUs. A tensor of shape \<open>[layers, n]\<close> is the list of its rows; the code
  treats the rows of a tensor alike, so that a tensor \<open>[layers * nodes, k]\<close> appears here as the
  rows of each layer in turn.
\<close>

section \<open>Tensor operations\<close>

text \<open>
  PyTorch leaves open in which order \<open>sort\<close> returns equal elements and which of several largest
  elements \<open>max(dim)\<close> points at: both are parameters.
\<close>

record torch_ops =
  sort_desc :: "rat list \<Rightarrow> nat list"
  argmax :: "rat list \<Rightarrow> nat"

fun traverse :: "('a \<Rightarrow> 'b res) \<Rightarrow> 'a list \<Rightarrow> 'b list res" where
  "traverse f [] = Inr []"
| "traverse f (x # xs) = bind_res (f x) (\<lambda>y. map_res (Cons y) (traverse f xs))"

text \<open>\<open>x.gather(-1, index)\<close> on a row, and \<open>x.scatter_(-1, index, src)\<close>; an index out of range raises.\<close>

definition in_range :: "nat \<Rightarrow> int list \<Rightarrow> bool" where
  "in_range n idx \<longleftrightarrow> list_all (\<lambda>i. 0 \<le> i \<and> i < int n) idx"

definition gather :: "'a list \<Rightarrow> int list \<Rightarrow> 'a list res" where
  "gather xs idx = (if in_range (length xs) idx then Inr (map (\<lambda>i. xs ! nat i) idx) else Inl RuntimeError)"

definition scatter :: "'a list \<Rightarrow> int list \<Rightarrow> 'a list \<Rightarrow> 'a list res" where
  "scatter xs idx src =
     (if in_range (length xs) idx then Inr (fold (\<lambda>(i, v) ys. ys[nat i := v]) (zip idx src) xs) else Inl RuntimeError)"

text \<open>\<open>x.view(-1, k)\<close> of a row, and \<open>torch.arange(n)\<close>.\<close>

definition chunks :: "nat \<Rightarrow> 'a list \<Rightarrow> 'a list list" where
  "chunks k xs = map (\<lambda>i. take k (drop (i * k) xs)) [0..<length xs div k]"

definition arange :: "nat \<Rightarrow> int list" where
  "arange n = map int [0..<n]"

section \<open>Packing\<close>

text \<open>\<open>min((j for j in range(num_packs) if pack_items[j] < groups_per_pack), key=...)\<close>: the first
  of the lightest packs that are not full; \<open>min\<close> raises on an empty sequence.\<close>

definition least_loaded :: "nat \<Rightarrow> rat list \<Rightarrow> nat list \<Rightarrow> nat res" where
  "least_loaded groups_per_pack pack_weights pack_items =
     (case filter (\<lambda>j. pack_items ! j < groups_per_pack) [0..<length pack_items] of
        [] \<Rightarrow> Inl ValueError
      | j # js \<Rightarrow> Inr (fold (\<lambda>k best. if pack_weights ! k < pack_weights ! best then k else best) js j))"

record packing =
  pack_weights :: "rat list"
  pack_items :: "nat list"
  pack_index :: "int list"
  rank_in_pack :: "int list"

definition pack_step :: "nat \<Rightarrow> rat list \<Rightarrow> nat \<Rightarrow> packing \<Rightarrow> packing res" where
  "pack_step groups_per_pack weight grp s =
     bind_res (least_loaded groups_per_pack (pack_weights s) (pack_items s)) (\<lambda>pack.
       if groups_per_pack \<le> pack_items s ! pack then Inl AssertionError
       else Inr \<lparr>pack_weights = (pack_weights s)[pack := pack_weights s ! pack + weight ! grp],
                 pack_items = (pack_items s)[pack := Suc (pack_items s ! pack)],
                 pack_index = (pack_index s)[grp := int pack],
                 rank_in_pack = (rank_in_pack s)[grp := int (pack_items s ! pack)]\<rparr>)"

fun pack_loop :: "nat \<Rightarrow> rat list \<Rightarrow> nat list \<Rightarrow> packing \<Rightarrow> packing res" where
  "pack_loop groups_per_pack weight [] s = Inr s"
| "pack_loop groups_per_pack weight (grp # groups) s =
     bind_res (pack_step groups_per_pack weight grp s) (pack_loop groups_per_pack weight groups)"

definition init_packing :: "nat \<Rightarrow> nat \<Rightarrow> packing" where
  "init_packing num_groups num_packs =
     \<lparr>pack_weights = replicate num_packs 0, pack_items = replicate num_packs 0,
      pack_index = replicate num_groups (- 1), rank_in_pack = replicate num_groups (- 1)\<rparr>"

definition balanced_packing :: "torch_ops \<Rightarrow> rat list \<Rightarrow> nat \<Rightarrow> (int list \<times> int list) res" where
  "balanced_packing T weight num_packs =
     (let num_groups = length weight; groups_per_pack = num_groups div num_packs in
      if num_packs = 0 then Inl ZeroDivisionError
      else if num_groups mod num_packs \<noteq> 0 then Inl AssertionError
      else if groups_per_pack = 1 then Inr (arange num_groups, replicate num_groups 0)
      else map_res (\<lambda>s. (pack_index s, rank_in_pack s))
             (pack_loop groups_per_pack weight (sort_desc T weight) (init_packing num_groups num_packs)))"

section \<open>Replication\<close>

text \<open>One round of the loop of \<open>replicate_experts\<close>; \<open>max\<close> over no element raises.\<close>

definition replicate_step ::
    "torch_ops \<Rightarrow> rat list \<Rightarrow> nat \<Rightarrow> int list \<times> int list \<times> nat list \<Rightarrow> (int list \<times> int list \<times> nat list) res" where
  "replicate_step T weight i s =
     (case s of (phy2log, rank, logcnt) \<Rightarrow>
        if weight = [] then Inl IndexError
        else let r = argmax T (map2 (\<lambda>w c. w / of_nat c) weight logcnt) in
          Inr (phy2log[i := int r], rank[i := int (logcnt ! r)], logcnt[r := Suc (logcnt ! r)]))"

fun replicate_loop ::
    "torch_ops \<Rightarrow> rat list \<Rightarrow> nat list \<Rightarrow> int list \<times> int list \<times> nat list \<Rightarrow> (int list \<times> int list \<times> nat list) res" where
  "replicate_loop T weight [] s = Inr s"
| "replicate_loop T weight (i # is) s = bind_res (replicate_step T weight i s) (replicate_loop T weight is)"

definition replicate_experts :: "torch_ops \<Rightarrow> rat list \<Rightarrow> nat \<Rightarrow> (int list \<times> int list \<times> nat list) res" where
  "replicate_experts T weight num_phy =
     (let num_log = length weight in
      if num_phy < num_log then Inl AssertionError
      else replicate_loop T weight [num_log..<num_phy] (arange num_phy, replicate num_phy 0, replicate num_log 1))"

section \<open>Placement\<close>

text \<open>\<open>inverse\<close> fills an uninitialised tensor; every entry of it is written when the argument is a
  permutation, which \<open>inverse_perm\<close> in the theory of proofs shows.\<close>

definition inverse_index :: "int list \<Rightarrow> int list res" where
  "inverse_index perm = scatter (replicate (length perm) 0) perm (arange (length perm))"

text \<open>Step 1 of \<open>rebalance_experts_hierarchical\<close>: groups to nodes.\<close>

definition place_groups :: "torch_ops \<Rightarrow> rat list \<Rightarrow> nat \<Rightarrow> nat \<Rightarrow> nat \<Rightarrow> int list res" where
  "place_groups T weight group_size groups_per_node num_nodes =
     map_res (\<lambda>(group_pack_index, group_rank_in_pack).
         concat (map2 (\<lambda>p r. map (\<lambda>k. (p * int groups_per_node + r) * int group_size + k) (arange group_size))
           group_pack_index group_rank_in_pack))
       (balanced_packing T (map sum_list (chunks group_size weight)) num_nodes)"

text \<open>Steps 2 and 3 on the experts of one node: replicas, and their places on the GPUs of the node.
  The result is \<open>(pphy2mlog, pphyrank, mlogcnt)\<close>.\<close>

definition place_node :: "torch_ops \<Rightarrow> nat \<Rightarrow> nat \<Rightarrow> nat \<Rightarrow> rat list \<Rightarrow> (int list \<times> int list \<times> nat list) res" where
  "place_node T num_phy num_packs phy_experts_per_gpu tokens_per_mlog =
     bind_res (replicate_experts T tokens_per_mlog num_phy) (\<lambda>(phy2mlog, phyrank, mlogcnt).
     bind_res (gather (map2 (\<lambda>w c. w / of_nat c) tokens_per_mlog mlogcnt) phy2mlog) (\<lambda>tokens_per_phy.
     bind_res (balanced_packing T tokens_per_phy num_packs) (\<lambda>(pack_index, rank_in_pack).
     bind_res (inverse_index (map2 (\<lambda>p r. p * int phy_experts_per_gpu + r) pack_index rank_in_pack)) (\<lambda>pphy2phy.
     bind_res (gather phy2mlog pphy2phy) (\<lambda>pphy2mlog.
     bind_res (gather phyrank pphy2phy) (\<lambda>pphyrank.
     Inr (pphy2mlog, pphyrank, mlogcnt)))))))"

text \<open>The nodes of a layer joined: \<open>mlog\<close> numbers of node \<open>k\<close> start at \<open>k * log_per_node\<close>.\<close>

definition shift_nodes :: "nat \<Rightarrow> int list list \<Rightarrow> int list" where
  "shift_nodes log_per_node rows =
     concat (map2 (\<lambda>row k. map (\<lambda>x. x + k * int log_per_node) row) rows (arange (length rows)))"

definition hierarchical_layer ::
    "torch_ops \<Rightarrow> nat \<Rightarrow> nat \<Rightarrow> nat \<Rightarrow> nat \<Rightarrow> nat \<Rightarrow> rat list \<Rightarrow> (int list \<times> int list \<times> nat list) res" where
  "hierarchical_layer T num_physical_experts group_size groups_per_node num_nodes num_gpus weight =
     bind_res (place_groups T weight group_size groups_per_node num_nodes) (\<lambda>log2mlog.
     bind_res (inverse_index log2mlog) (\<lambda>mlog2log.
     bind_res (gather weight mlog2log) (\<lambda>mweight.
     if length weight div num_nodes = 0 then Inl RuntimeError else
     bind_res (traverse (place_node T (num_physical_experts div num_nodes) (num_gpus div num_nodes)
                 (num_physical_experts div num_gpus)) (chunks (length weight div num_nodes) mweight)) (\<lambda>nodes.
     bind_res (gather mlog2log (shift_nodes (length weight div num_nodes) (map fst nodes))) (\<lambda>pphy2log.
     bind_res (gather (concat (map (snd \<circ> snd) nodes)) log2mlog) (\<lambda>logcnt.
     Inr (pphy2log, concat (map (fst \<circ> snd) nodes), logcnt)))))))"

definition rebalance_experts_hierarchical ::
    "torch_ops \<Rightarrow> nat \<Rightarrow> rat list list \<Rightarrow> nat \<Rightarrow> nat \<Rightarrow> nat \<Rightarrow> nat \<Rightarrow> (int list \<times> int list \<times> nat list) list res" where
  "rebalance_experts_hierarchical T num_logical_experts weight num_physical_experts num_groups num_nodes num_gpus =
     (if num_groups = 0 then Inl ZeroDivisionError
      else if num_logical_experts mod num_groups \<noteq> 0 then Inl AssertionError
      else if num_nodes = 0 then Inl ZeroDivisionError
      else if num_groups mod num_nodes \<noteq> 0 then Inl AssertionError
      else if num_gpus mod num_nodes \<noteq> 0 then Inl AssertionError
      else if num_gpus = 0 then Inl ZeroDivisionError
      else if num_physical_experts mod num_gpus \<noteq> 0 then Inl AssertionError
      else traverse (hierarchical_layer T num_physical_experts (num_logical_experts div num_groups)
             (num_groups div num_nodes) num_nodes num_gpus) weight)"

text \<open>\<open>log2phy\<close> of a layer: the scatter into \<open>-1\<close> entries, \<open>maxlogcnt\<close> per logical expert.\<close>

definition logical_to_physical :: "nat \<Rightarrow> nat \<Rightarrow> nat \<Rightarrow> int list \<Rightarrow> int list \<Rightarrow> int list list res" where
  "logical_to_physical num_replicas num_logical_experts maxlogcnt phy2log phyrank =
     map_res (chunks maxlogcnt)
       (scatter (replicate (num_logical_experts * maxlogcnt) (- 1))
          (map2 (\<lambda>l r. l * int maxlogcnt + r) phy2log phyrank) (arange num_replicas))"

definition rebalance_experts ::
    "torch_ops \<Rightarrow> nat \<Rightarrow> rat list list \<Rightarrow> nat \<Rightarrow> nat \<Rightarrow> nat \<Rightarrow> nat \<Rightarrow> bool \<Rightarrow>
     (int list list \<times> int list list list \<times> nat list list) res" where
  "rebalance_experts T num_logical_experts weight num_replicas num_groups num_nodes num_gpus enable_hierarchical =
     bind_res
       (if enable_hierarchical
        then rebalance_experts_hierarchical T num_logical_experts weight num_replicas num_groups num_nodes num_gpus
        else rebalance_experts_hierarchical T num_logical_experts weight num_replicas 1 1 num_gpus) (\<lambda>layers.
     case concat (map (snd \<circ> snd) layers) of
       [] \<Rightarrow> Inl RuntimeError
     | c # cs \<Rightarrow>
         let maxlogcnt = fold max cs c in
         map_res (\<lambda>log2phy. (map fst layers, log2phy, map (snd \<circ> snd) layers))
           (traverse (\<lambda>(phy2log, phyrank, logcnt).
              logical_to_physical num_replicas num_logical_experts maxlogcnt phy2log phyrank) layers))"

end
