(* ===== verification/ExpertProofs.thy ===== *)
theory ExpertProofs
  imports ExpertBalance
begin

text \<open>
  The load balancer returns maps that fit together. Index tensors are permutations
  (\<open>is_perm\<close>), and the pair of \<open>phy2log\<close> and \<open>phyrank\<close> is a bijection between the physical experts
  and the replicas that \<open>logcnt\<close> announces (\<open>replica_table\<close>); replication establishes this and
  reordering, joining nodes and renaming logical experts keep it. What is used of PyTorch is the
  locale \<open>torch_select\<close>.
\<close>

section \<open>Tensor operations\<close>

lemma traverse_Inr:
  "traverse f xs = Inr ys \<longleftrightarrow> length ys = length xs \<and> (\<forall>i<length xs. f (xs ! i) = Inr (ys ! i))"
proof (induction xs arbitrary: ys)
  case (Cons x xs)
  show ?case by (cases ys) (auto simp: res_simps Cons All_less_Suc2)
qed auto

lemma traverse_total:
  assumes "\<And>x. x \<in> set xs \<Longrightarrow> \<exists>y. f x = Inr y \<and> P x y"
  shows "\<exists>ys. traverse f xs = Inr ys \<and> length ys = length xs \<and> (\<forall>i<length xs. P (xs ! i) (ys ! i))"
proof -
  obtain g where g: "\<And>x. x \<in> set xs \<Longrightarrow> f x = Inr (g x) \<and> P x (g x)" using assms by metis
  show ?thesis by (rule exI [of _ "map g xs"]) (simp add: traverse_Inr g)
qed

lemma in_range_nat [simp]: "in_range n (map int js) \<longleftrightarrow> (\<forall>j\<in>set js. j < n)"
  by (simp add: in_range_def list_all_iff)

lemma gather_nat: "\<forall>j\<in>set js. j < length xs \<Longrightarrow> gather xs (map int js) = Inr (map ((!) xs) js)"
  by (simp add: gather_def o_def)

lemma gather_map: "\<forall>j\<in>set js. j < length xs \<Longrightarrow> gather (map f xs) (map int js) = Inr (map f (map ((!) xs) js))"
  by (simp add: gather_nat)

lemma scatter_fold:
  assumes "distinct js" "\<forall>j\<in>set js. j < length xs" "length src = length js"
  shows "let ys = fold (\<lambda>(i, v) ys. ys[nat i := v]) (zip (map int js) src) xs in
     length ys = length xs \<and> (\<forall>k<length js. ys ! (js ! k) = src ! k) \<and> (\<forall>i<length xs. i \<notin> set js \<longrightarrow> ys ! i = xs ! i)"
  using assms
proof (induction js arbitrary: xs src)
  case (Cons j js)
  then obtain v vs where src: "src = v # vs" "length vs = length js" by (cases src) auto
  show ?case
    using Cons.IH [of "xs[j := v]" vs] Cons.prems src by (auto simp: Let_def nth_Cons split: nat.splits)
qed simp

lemma scatter_nat:
  assumes "distinct js" "\<forall>j\<in>set js. j < length xs" "length src = length js"
  obtains ys where "scatter xs (map int js) src = Inr ys" "length ys = length xs"
    "\<And>k. k < length js \<Longrightarrow> ys ! (js ! k) = src ! k"
    "\<And>i. i < length xs \<Longrightarrow> i \<notin> set js \<Longrightarrow> ys ! i = xs ! i"
proof (rule that)
  show "scatter xs (map int js) src = Inr (fold (\<lambda>(i, v) ys. ys[nat i := v]) (zip (map int js) src) xs)"
    using assms by (simp add: scatter_def)
qed (use scatter_fold [OF assms] in \<open>simp_all add: Let_def\<close>)

lemma length_arange [simp]: "length (arange n) = n"
  by (simp add: arange_def)

lemma nth_arange [simp]: "i < n \<Longrightarrow> arange n ! i = int i"
  by (simp add: arange_def)

lemma length_chunks [simp]: "length (chunks k xs) = length xs div k"
  by (simp add: chunks_def)

lemma nth_chunks: "i < length xs div k \<Longrightarrow> chunks k xs ! i = take k (drop (i * k) xs)"
  by (simp add: chunks_def)

lemma chunk_bound:
  assumes "i < n div k" "j < k"
  shows "i * k + j < (n::nat)"
proof -
  have "i * k + j < (i + 1) * k" using assms(2) by simp
  also have "\<dots> \<le> n div k * k" using assms(1) by (intro mult_right_mono) auto
  finally show ?thesis by (meson div_times_less_eq_dividend order_less_le_trans)
qed

lemma length_nth_chunks: "i < length xs div k \<Longrightarrow> length (chunks k xs ! i) = k"
proof -
  assume i: "i < length xs div k"
  then have "(i + 1) * k \<le> length xs div k * k" by (intro mult_right_mono) auto
  also have "\<dots> \<le> length xs" by simp
  finally show ?thesis using i by (simp add: nth_chunks)
qed

lemma nth_nth_chunks: "i < length xs div k \<Longrightarrow> j < k \<Longrightarrow> chunks k xs ! i ! j = xs ! (i * k + j)"
  using chunk_bound [of i "length xs" k j] by (simp add: nth_chunks)

section \<open>Blocks of equal size\<close>

lemma block_less: "i < m \<Longrightarrow> j < k \<Longrightarrow> i * k + j < m * (k::nat)"
  using chunk_bound [of i "m * k" k j] by (cases "k = 0") simp_all

lemma block_div [simp]: "j < k \<Longrightarrow> (i * k + j) div k = (i::nat)" "j < k \<Longrightarrow> (i * k + j) mod k = (j::nat)"
  by simp_all

lemma block_eq: "j < k \<Longrightarrow> j' < k \<Longrightarrow> i * k + j = i' * k + j' \<longleftrightarrow> i = i' \<and> j = (j'::nat)"
  by (metis block_div)

section \<open>Permutations of indices\<close>

definition is_perm :: "nat list \<Rightarrow> bool" where
  "is_perm ps \<longleftrightarrow> distinct ps \<and> set ps = {..<length ps}"

lemma is_perm_less: "is_perm ps \<Longrightarrow> k < length ps \<Longrightarrow> ps ! k < length ps"
  using nth_mem [of k ps] by (auto simp: is_perm_def)

lemma is_permI:
  assumes "distinct ps" "\<And>p. p \<in> set ps \<Longrightarrow> p < length ps"
  shows "is_perm ps"
proof -
  have "set ps \<subseteq> {..<length ps}" using assms(2) by auto
  then have "set ps = {..<length ps}" using assms(1) by (simp add: card_subset_eq distinct_card)
  then show ?thesis using assms(1) by (simp add: is_perm_def)
qed

lemma is_perm_surj: "is_perm ps \<Longrightarrow> i < length ps \<Longrightarrow> \<exists>k<length ps. ps ! k = i"
  by (metis in_set_conv_nth is_perm_def lessThan_iff)

lemma is_perm_bij: "is_perm ps \<Longrightarrow> bij_betw ((!) ps) {..<length ps} {..<length ps}"
  by (rule bij_betw_nth) (auto simp: is_perm_def)

definition inverse_of :: "nat list \<Rightarrow> nat list \<Rightarrow> bool" where
  "inverse_of ps qs \<longleftrightarrow> length qs = length ps \<and> (\<forall>k<length ps. qs ! (ps ! k) = k \<and> ps ! (qs ! k) = k)"

lemma inverse_perm:
  assumes "is_perm ps"
  obtains qs where "inverse_index (map int ps) = Inr (map int qs)" "is_perm qs" "inverse_of ps qs"
proof -
  let ?n = "length ps"
  have d: "distinct ps" "\<forall>j\<in>set ps. j < length (replicate ?n (0::int))" "length (arange ?n) = length ps"
    using assms by (auto simp: is_perm_def)
  obtain ys where ys: "scatter (replicate ?n 0) (map int ps) (arange ?n) = Inr ys" "length ys = ?n"
    "\<And>k. k < ?n \<Longrightarrow> ys ! (ps ! k) = arange ?n ! k"
    by (rule scatter_nat [OF d], rule that) simp_all
  define qs where "qs = map nat ys"
  have q: "qs ! (ps ! k) = k" "ys ! (ps ! k) = int k" if "k < ?n" for k
    using ys(2) ys(3) [OF that] is_perm_less [OF assms that] that by (simp_all add: qs_def)
  have pq: "ps ! (qs ! i) = i \<and> qs ! i < ?n \<and> ys ! i = int (qs ! i)" if "i < ?n" for i
    using is_perm_surj [OF assms that] q by auto
  have "map int qs = ys" by (rule nth_equalityI) (use pq in \<open>auto simp: qs_def ys(2)\<close>)
  moreover have "distinct qs"
    unfolding distinct_conv_nth using pq ys(2) by (metis length_map qs_def)
  then have "is_perm qs" by (rule is_permI) (use pq ys(2) in \<open>auto simp: in_set_conv_nth qs_def\<close>)
  moreover have "inverse_of ps qs" using q(1) pq ys(2) by (simp add: inverse_of_def qs_def)
  ultimately show ?thesis using that [of qs] ys(1) by (simp add: inverse_index_def)
qed

section \<open>What is used of PyTorch\<close>

locale torch_select =
  fixes T :: torch_ops
  assumes sort_desc_perm: "mset (sort_desc T ws) = mset [0..<length ws]"
    and argmax_less: "ws \<noteq> [] \<Longrightarrow> argmax T ws < length ws"
    and argmax_ge: "w \<in> set ws \<Longrightarrow> w \<le> ws ! argmax T ws"

text \<open>The stable sort and the first largest element satisfy it.\<close>

definition stable_ops :: torch_ops where
  "stable_ops = \<lparr>sort_desc = \<lambda>ws. sort_key (\<lambda>i. - (ws ! i)) [0..<length ws],
                 argmax = \<lambda>ws. fold (\<lambda>k best. if ws ! best < ws ! k then k else best) [0..<length ws] 0\<rparr>"

lemma fold_best_mem: "fold (\<lambda>k best. if P k best then k else best) js j \<in> insert j (set js)"
  by (induction js arbitrary: j) auto

lemma fold_argmax_ge:
  fixes ws :: "rat list"
  shows "k \<in> insert j (set js) \<Longrightarrow> ws ! k \<le> ws ! fold (\<lambda>k best. if ws ! best < ws ! k then k else best) js j"
proof (induction js arbitrary: j k)
  case (Cons i js)
  show ?case
  proof (cases "k = i \<or> k = j")
    case True
    then show ?thesis using Cons.IH [of i i] Cons.IH [of j j] by auto
  next
    case False
    then show ?thesis using Cons.IH [of k] Cons.prems by auto
  qed
qed simp

interpretation stable: torch_select stable_ops
proof
  fix ws :: "rat list" and w :: rat
  show "mset (sort_desc stable_ops ws) = mset [0..<length ws]" by (simp add: stable_ops_def)
  show "argmax stable_ops ws < length ws" if "ws \<noteq> []"
  proof -
    have "argmax stable_ops ws \<in> insert 0 (set [0..<length ws])"
      unfolding stable_ops_def torch_ops.simps by (rule fold_best_mem)
    then show ?thesis using that by auto
  qed
  show "w \<le> ws ! argmax stable_ops ws" if w: "w \<in> set ws"
  proof -
    obtain k where "k < length ws" "w = ws ! k" using w by (auto simp: in_set_conv_nth)
    then show ?thesis using fold_argmax_ge [of k 0 "[0..<length ws]" ws] by (simp add: stable_ops_def)
  qed
qed

section \<open>Packing\<close>

lemma least_loaded_open:
  assumes "j < length items" "items ! j < cap"
  obtains p where "least_loaded cap ws items = Inr p" "p < length items" "items ! p < cap"
proof -
  let ?open = "filter (\<lambda>j. items ! j < cap) [0..<length items]"
  have "j \<in> set ?open" using assms by simp
  then obtain k ks where ks: "?open = k # ks" by (cases ?open) auto
  let ?p = "fold (\<lambda>k best. if ws ! k < ws ! best then k else best) ks k"
  have "?p \<in> set (k # ks)" using fold_best_mem [of _ ks k] by simp
  then have "?p \<in> set ?open" unfolding ks .
  then have "?p < length items" "items ! ?p < cap" by simp_all
  moreover have "least_loaded cap ws items = Inr ?p" by (simp add: least_loaded_def ks)
  ultimately show ?thesis by (rule that [rotated])
qed

text \<open>After the groups of \<open>P\<close> have been packed into \<open>m\<close> packs of capacity \<open>cap\<close>.\<close>

definition packed :: "nat \<Rightarrow> nat \<Rightarrow> nat \<Rightarrow> nat set \<Rightarrow> packing \<Rightarrow> bool" where
  "packed n m cap P s \<longleftrightarrow>
     length (pack_items s) = m \<and> length (pack_index s) = n \<and> length (rank_in_pack s) = n \<and>
     sum_list (pack_items s) = card P \<and> (\<forall>j<m. pack_items s ! j \<le> cap) \<and>
     (\<forall>g\<in>P. \<exists>p r. pack_index s ! g = int p \<and> rank_in_pack s ! g = int r \<and> p < m \<and> r < pack_items s ! p) \<and>
     inj_on (\<lambda>g. (pack_index s ! g, rank_in_pack s ! g)) P"

lemma pack_step_packed:
  assumes "packed n m cap P s" "finite P" "card P < m * cap" "g \<notin> P" "g < n"
  obtains s' where "pack_step cap w g s = Inr s'" "packed n m cap (insert g P) s'"
proof -
  have "\<exists>j<m. pack_items s ! j < cap"
  proof (rule ccontr)
    assume "\<not> ?thesis"
    then have "\<forall>j<m. pack_items s ! j = cap" using assms(1) by (force simp: packed_def)
    then have "pack_items s = replicate m cap"
      using assms(1) by (intro nth_equalityI) (auto simp: packed_def)
    then show False using assms(1,3) by (simp add: packed_def sum_list_replicate)
  qed
  then obtain p where p: "least_loaded cap (pack_weights s) (pack_items s) = Inr p" "p < m" "pack_items s ! p < cap"
    using least_loaded_open assms(1) unfolding packed_def by metis
  define s' where "s' = \<lparr>pack_weights = (pack_weights s)[p := pack_weights s ! p + w ! g],
    pack_items = (pack_items s)[p := Suc (pack_items s ! p)],
    pack_index = (pack_index s)[g := int p], rank_in_pack = (rank_in_pack s)[g := int (pack_items s ! p)]\<rparr>"
  have "pack_step cap w g s = Inr s'" using p by (simp add: pack_step_def s'_def)
  moreover have "packed n m cap (insert g P) s'"
    unfolding packed_def
  proof (intro conjI ballI allI impI)
    show "length (pack_items s') = m" "length (pack_index s') = n" "length (rank_in_pack s') = n"
      using assms(1) by (simp_all add: packed_def s'_def)
    show "sum_list (pack_items s') = card (insert g P)"
      using assms(1,2,4) p(2) by (simp add: packed_def s'_def sum_list_update)
    show "pack_items s' ! j \<le> cap" if "j < m" for j
      using assms(1) p that by (cases "j = p") (auto simp: packed_def s'_def)
    show "\<exists>q r. pack_index s' ! h = int q \<and> rank_in_pack s' ! h = int r \<and> q < m \<and> r < pack_items s' ! q"
      if h: "h \<in> insert g P" for h
    proof (cases "h = g")
      case True
      then show ?thesis using assms(1,5) p by (auto simp: packed_def s'_def)
    next
      case False
      then obtain q r where qr: "pack_index s ! h = int q" "rank_in_pack s ! h = int r" "q < m" "r < pack_items s ! q"
        using assms(1) h unfolding packed_def by blast
      have "r < pack_items s' ! q" using qr assms(1) by (cases "q = p") (auto simp: packed_def s'_def)
      then show ?thesis using qr False by (auto simp: s'_def)
    qed
    show "inj_on (\<lambda>g. (pack_index s' ! g, rank_in_pack s' ! g)) (insert g P)"
    proof -
      have old: "pack_index s' ! h = pack_index s ! h" "rank_in_pack s' ! h = rank_in_pack s ! h" if "h \<in> P" for h
        using that assms(4) by (cases "h = g", simp_all add: s'_def)+
      have new: "pack_index s' ! g = int p" "rank_in_pack s' ! g = int (pack_items s ! p)"
        using assms(1,5) by (auto simp: s'_def packed_def)
      have "inj_on (\<lambda>g. (pack_index s' ! g, rank_in_pack s' ! g)) P"
        using assms(1) old by (simp add: packed_def inj_on_def)
      moreover have "(int p, int (pack_items s ! p)) \<noteq> (pack_index s ! h, rank_in_pack s ! h)" if "h \<in> P" for h
        using assms(1) that unfolding packed_def by fastforce
      ultimately show ?thesis using old new assms(4) by (auto simp: inj_on_insert image_iff)
    qed
  qed
  ultimately show ?thesis by (rule that)
qed

lemma pack_loop_packed:
  assumes "packed n m cap P s" "finite P" "distinct gs" "set gs \<inter> P = {}" "set gs \<subseteq> {..<n}"
    "card P + length gs \<le> m * cap"
  shows "\<exists>s'. pack_loop cap w gs s = Inr s' \<and> packed n m cap (P \<union> set gs) s'"
  using assms
proof (induction gs arbitrary: P s)
  case (Cons g gs)
  obtain s1 where s1: "pack_step cap w g s = Inr s1" "packed n m cap (insert g P) s1"
    by (rule pack_step_packed [OF Cons.prems(1,2), of g w]) (use Cons.prems in auto)
  have "\<exists>s'. pack_loop cap w gs s1 = Inr s' \<and> packed n m cap (insert g P \<union> set gs) s'"
    by (rule Cons.IH [OF s1(2)]) (use Cons.prems in auto)
  then show ?case using s1(1) by auto
qed simp

text \<open>The places \<open>pack * groups_per_pack + rank\<close> are a permutation.\<close>

definition places :: "nat \<Rightarrow> nat list \<Rightarrow> nat list \<Rightarrow> nat list" where
  "places cap ps rs = map2 (\<lambda>p r. p * cap + r) ps rs"

lemma places_perm:
  assumes "length ps = n" "length rs = n" "n = m * cap" "\<And>g. g < n \<Longrightarrow> ps ! g < m \<and> rs ! g < cap"
    "inj_on (\<lambda>g. (ps ! g, rs ! g)) {..<n}"
  shows "is_perm (places cap ps rs)"
proof (rule is_permI)
  have nth: "places cap ps rs ! g = ps ! g * cap + rs ! g" if "g < n" for g
    using assms(1,2) that by (simp add: places_def)
  have len: "length (places cap ps rs) = n" using assms(1,2) by (simp add: places_def)
  show "distinct (places cap ps rs)"
    unfolding distinct_conv_nth len
  proof (intro allI impI)
    fix i j assume ij: "i < n" "j < n" "i \<noteq> j"
    show "places cap ps rs ! i \<noteq> places cap ps rs ! j"
    proof
      assume eq: "places cap ps rs ! i = places cap ps rs ! j"
      moreover have b: "rs ! i < cap" "rs ! j < cap" using assms(4) ij by auto
      ultimately show False
        using inj_onD [OF assms(5), of i j] ij block_eq [OF b, of "ps ! i" "ps ! j"] by (simp add: nth)
    qed
  qed
  show "p < length (places cap ps rs)" if p: "p \<in> set (places cap ps rs)" for p
  proof -
    obtain g where "g < n" "p = ps ! g * cap + rs ! g" using p len nth by (metis in_set_conv_nth)
    then show ?thesis using block_less assms(3,4) len by metis
  qed
qed

definition good_packing :: "nat \<Rightarrow> nat \<Rightarrow> nat list \<Rightarrow> nat list \<Rightarrow> bool" where
  "good_packing n m ps rs \<longleftrightarrow> length ps = n \<and> length rs = n \<and>
     (\<forall>g<n. ps ! g < m \<and> rs ! g < n div m) \<and> is_perm (places (n div m) ps rs)"

context torch_select
begin

lemma balanced_packing_good:
  assumes m: "0 < m" "m dvd length w"
  obtains ps rs where "balanced_packing T w m = Inr (map int ps, map int rs)" "good_packing (length w) m ps rs"
proof (cases "length w div m = 1")
  case True
  let ?n = "length w"
  have n: "?n = m" using True m by (metis dvd_div_mult_self mult_1)
  have "is_perm (places (?n div m) [0..<?n] (replicate ?n 0))"
    by (rule places_perm [where n = ?n and m = m]) (use n m in \<open>auto simp: inj_on_def\<close>)
  then have "good_packing ?n m [0..<?n] (replicate ?n 0)" using n m by (simp add: good_packing_def)
  moreover have "balanced_packing T w m = Inr (map int [0..<?n], map int (replicate ?n 0))"
    using True m by (simp add: balanced_packing_def Let_def arange_def)
  ultimately show ?thesis by (rule that [rotated])
next
  case False
  let ?n = "length w" and ?cap = "length w div m"
  have n: "?n = m * ?cap" using m by simp
  have gs: "distinct (sort_desc T w)" "set (sort_desc T w) = {..<?n}" "length (sort_desc T w) = ?n"
    using mset_eq_imp_distinct_iff [OF sort_desc_perm [of w]] mset_eq_setD [OF sort_desc_perm [of w]]
      mset_eq_length [OF sort_desc_perm [of w]]
    by (simp_all add: atLeast_upt)
  have "packed ?n m ?cap {} (init_packing ?n m)"
    by (auto simp: packed_def init_packing_def)
  then obtain s where s: "pack_loop ?cap w (sort_desc T w) (init_packing ?n m) = Inr s" "packed ?n m ?cap {..<?n} s"
    using pack_loop_packed [of ?n m ?cap "{}" "init_packing ?n m" "sort_desc T w" w] gs n by auto
  define ps rs where "ps = map nat (pack_index s)" and "rs = map nat (rank_in_pack s)"
  have len: "length ps = ?n" "length rs = ?n" using s(2) by (simp_all add: packed_def ps_def rs_def)
  have g: "pack_index s ! g = int (ps ! g) \<and> rank_in_pack s ! g = int (rs ! g) \<and> ps ! g < m \<and> rs ! g < ?cap"
    if "g < ?n" for g
  proof -
    have lens: "length (pack_index s) = ?n" "length (rank_in_pack s) = ?n" using s(2) by (simp_all add: packed_def)
    obtain p r where pr: "pack_index s ! g = int p" "rank_in_pack s ! g = int r" "p < m" "r < pack_items s ! p"
      using s(2) \<open>g < ?n\<close> unfolding packed_def by blast
    moreover have "pack_items s ! p \<le> ?cap" using s(2) pr(3) by (simp add: packed_def)
    ultimately show ?thesis using lens \<open>g < ?n\<close> by (simp add: ps_def rs_def)
  qed
  have "inj_on (\<lambda>g. (ps ! g, rs ! g)) {..<?n}"
    using s(2) g by (simp add: packed_def inj_on_def)
  then have "good_packing ?n m ps rs"
    using places_perm [OF len n] g len by (simp add: good_packing_def)
  moreover have "map int ps = pack_index s" "map int rs = rank_in_pack s"
    using s(2) g len by (auto intro!: nth_equalityI simp: packed_def)
  then have "balanced_packing T w m = Inr (map int ps, map int rs)"
    using s(1) m False by (simp add: balanced_packing_def Let_def)
  ultimately show ?thesis by (rule that [rotated])
qed

end

section \<open>Replication\<close>

text \<open>The physical experts are in bijection with the replicas of the \<open>n\<close> logical experts.\<close>

definition replica_table :: "nat \<Rightarrow> nat \<Rightarrow> nat list \<Rightarrow> nat list \<Rightarrow> nat list \<Rightarrow> bool" where
  "replica_table n num_phy lg rk cnt \<longleftrightarrow> length lg = num_phy \<and> length rk = num_phy \<and> length cnt = n \<and>
     bij_betw (\<lambda>i. (lg ! i, rk ! i)) {..<num_phy} (SIGMA l:{..<n}. {..<cnt ! l})"

text \<open>The state of the loop of \<open>replicate_experts\<close> before round \<open>i\<close>; no replica could be moved
  from one expert to another with profit.\<close>

definition replicated :: "rat list \<Rightarrow> nat \<Rightarrow> nat \<Rightarrow> int list \<times> int list \<times> nat list \<Rightarrow> bool" where
  "replicated w num_phy i s \<longleftrightarrow> (\<exists>lg rk cnt.
     s = (map int lg, map int rk, cnt) \<and> length lg = num_phy \<and> length rk = num_phy \<and> length cnt = length w \<and>
     bij_betw (\<lambda>k. (lg ! k, rk ! k)) {..<i} (SIGMA l:{..<length w}. {..<cnt ! l}) \<and>
     sum_list cnt = i \<and> (\<forall>l<length w. 1 \<le> cnt ! l) \<and>
     (\<forall>b<length w. 2 \<le> cnt ! b \<longrightarrow> (\<forall>l<length w. w ! l / of_nat (cnt ! l) \<le> w ! b / of_nat (cnt ! b - 1))))"

lemma div_count_mono:
  fixes x :: rat
  assumes "0 \<le> x" "1 \<le> m" "m \<le> n"
  shows "x / of_nat n \<le> x / of_nat m"
  using assms by (intro divide_left_mono mult_pos_pos) auto

lemma replicated_init:
  assumes "length w \<le> num_phy"
  shows "replicated w num_phy (length w) (arange num_phy, replicate num_phy 0, replicate (length w) 1)"
proof -
  let ?n = "length w"
  have "bij_betw (\<lambda>k. ([0..<num_phy] ! k, replicate num_phy 0 ! k)) {..<?n} (SIGMA l:{..<?n}. {..<replicate ?n (1::nat) ! l})"
    by (rule bij_betw_byWitness [where f' = fst]) (use assms in auto)
  then show ?thesis
    unfolding replicated_def
    by (intro exI [of _ "[0..<num_phy]"] exI [of _ "replicate num_phy 0"] exI [of _ "replicate ?n 1"])
      (simp add: arange_def sum_list_replicate)
qed

context torch_select
begin

lemma replicate_step_replicated:
  assumes s: "replicated w num_phy i s" and i: "i < num_phy" and w: "w \<noteq> []" "\<forall>x\<in>set w. 0 \<le> x"
  obtains s' where "replicate_step T w i s = Inr s'" "replicated w num_phy (Suc i) s'"
proof -
  let ?n = "length w"
  obtain lg rk cnt where s_eq: "s = (map int lg, map int rk, cnt)"
    and len: "length lg = num_phy" "length rk = num_phy" "length cnt = ?n"
    and bij: "bij_betw (\<lambda>k. (lg ! k, rk ! k)) {..<i} (SIGMA l:{..<?n}. {..<cnt ! l})"
    and sum: "sum_list cnt = i" and ge: "\<forall>l<?n. 1 \<le> cnt ! l"
    and fair: "\<forall>b<?n. 2 \<le> cnt ! b \<longrightarrow> (\<forall>l<?n. w ! l / of_nat (cnt ! l) \<le> w ! b / of_nat (cnt ! b - 1))"
    using s unfolding replicated_def by blast
  define loads where "loads = map2 (\<lambda>w c. w / of_nat c) w cnt"
  define r where "r = argmax T loads"
  have loads: "length loads = ?n" "\<And>l. l < ?n \<Longrightarrow> loads ! l = w ! l / of_nat (cnt ! l)"
    using len(3) by (simp_all add: loads_def)
  have r: "r < ?n" unfolding r_def using argmax_less [of loads] loads(1) w(1) by fastforce
  have top: "w ! l / of_nat (cnt ! l) \<le> w ! r / of_nat (cnt ! r)" if "l < ?n" for l
    using argmax_ge [OF nth_mem, of l loads] that r loads by (simp add: r_def)
  let ?cnt = "cnt[r := Suc (cnt ! r)]"
  have le: "w ! l / of_nat (?cnt ! l) \<le> w ! l / of_nat (cnt ! l)" if "l < ?n" for l
    by (rule div_count_mono) (use that w(2) ge r len in \<open>auto simp: nth_list_update\<close>)
  let ?lg = "lg[i := r]" and ?rk = "rk[i := cnt ! r]"
  have same: "\<And>k. k \<in> {..<i} \<Longrightarrow> (?lg ! k, ?rk ! k) = (lg ! k, rk ! k)" by simp
  have at: "(?lg ! i, ?rk ! i) = (r, cnt ! r)" using len i by simp
  have bij1: "bij_betw (\<lambda>k. (?lg ! k, ?rk ! k)) {..<i} (SIGMA l:{..<?n}. {..<cnt ! l})"
    using bij by (subst bij_betw_cong [OF same])
  have "bij_betw (\<lambda>k. (?lg ! k, ?rk ! k)) ({..<i} \<union> {i}) ((SIGMA l:{..<?n}. {..<cnt ! l}) \<union> {(r, cnt ! r)})"
    using notIn_Un_bij_betw [OF _ _ bij1, of i] by (simp add: at)
  moreover have "(SIGMA l:{..<?n}. {..<cnt ! l}) \<union> {(r, cnt ! r)} = (SIGMA l:{..<?n}. {..<?cnt ! l})"
    using r len(3) by (auto simp: nth_list_update split: if_splits)
  moreover have "{..<i} \<union> {i} = {..<Suc i}" by auto
  ultimately have "bij_betw (\<lambda>k. (?lg ! k, ?rk ! k)) {..<Suc i} (SIGMA l:{..<?n}. {..<?cnt ! l})" by simp
  moreover have "\<forall>b<?n. 2 \<le> ?cnt ! b \<longrightarrow> (\<forall>l<?n. w ! l / of_nat (?cnt ! l) \<le> w ! b / of_nat (?cnt ! b - 1))"
  proof (intro allI impI)
    fix b l assume b: "b < ?n" "2 \<le> ?cnt ! b" and l: "l < ?n"
    show "w ! l / of_nat (?cnt ! l) \<le> w ! b / of_nat (?cnt ! b - 1)"
    proof (cases "b = r")
      case True
      then show ?thesis using order_trans [OF le [OF l] top [OF l]] r len(3) by simp
    next
      case False
      then show ?thesis using order_trans [OF le [OF l]] fair b l by simp
    qed
  qed
  moreover have "sum_list ?cnt = Suc i" using sum r len(3) by (simp add: sum_list_update)
  moreover have "\<forall>l<?n. 1 \<le> ?cnt ! l" using ge len(3) r by (auto simp: nth_list_update)
  ultimately have "replicated w num_phy (Suc i) (map int ?lg, map int ?rk, ?cnt)"
    unfolding replicated_def by (intro exI [of _ ?lg] exI [of _ ?rk] exI [of _ ?cnt]) (simp add: len)
  moreover have "replicate_step T w i s = Inr (map int ?lg, map int ?rk, ?cnt)"
    using w(1) by (simp add: replicate_step_def s_eq r_def loads_def Let_def map_update)
  ultimately show ?thesis by (rule that [rotated])
qed

lemma replicate_loop_replicated:
  assumes "replicated w num_phy i s" "i \<le> num_phy" "w \<noteq> []" "\<forall>x\<in>set w. 0 \<le> x"
  shows "\<exists>s'. replicate_loop T w [i..<num_phy] s = Inr s' \<and> replicated w num_phy num_phy s'"
  using assms(2,1)
proof (induction i arbitrary: s rule: inc_induct)
  case (step i)
  obtain s1 where "replicate_step T w i s = Inr s1" "replicated w num_phy (Suc i) s1"
    using replicate_step_replicated [OF step.prems step.hyps(2) assms(3,4)] .
  then show ?case using step.IH [of s1] step.hyps(2) by (simp add: upt_rec)
qed simp

lemma replicate_experts_replicated:
  assumes "length w \<le> num_phy" "w \<noteq> []" "\<forall>x\<in>set w. 0 \<le> x"
  obtains s where "replicate_experts T w num_phy = Inr s" "replicated w num_phy num_phy s"
  using replicate_loop_replicated [OF replicated_init [OF assms(1)] assms] assms(1)
  by (auto simp: replicate_experts_def Let_def not_less)

end

lemma replicated_table:
  assumes "replicated w num_phy num_phy s"
  obtains lg rk cnt where "s = (map int lg, map int rk, cnt)" "replica_table (length w) num_phy lg rk cnt"
    "\<forall>l<length w. 1 \<le> cnt ! l"
  using assms unfolding replicated_def replica_table_def by blast

lemma sum_list_less_ex:
  assumes "sum_list xs = sum_list (ys :: nat list)" "length xs = length ys" "a < length xs" "xs ! a < ys ! a"
  shows "\<exists>b<length xs. ys ! b < xs ! b"
proof (rule ccontr)
  assume "\<not> ?thesis"
  then have "\<forall>b<length xs. xs ! b \<le> ys ! b" by (meson not_less)
  then have "(\<Sum>b<length xs. xs ! b) < (\<Sum>b<length xs. ys ! b)"
    using assms(3,4) by (intro sum_strict_mono_ex1) auto
  then show False using assms(1,2) by (simp add: sum_list_sum_nth lessThan_atLeast0)
qed

text \<open>No distribution of the same number of replicas has a smaller largest load.\<close>

lemma replicated_optimal:
  assumes "replicated w num_phy num_phy (phy, rank, cnt)" "\<forall>x\<in>set w. 0 \<le> x"
    and c: "length c = length w" "\<forall>l<length w. 1 \<le> c ! l" "sum_list c = num_phy" and a: "a < length w"
  shows "\<exists>b<length w. w ! a / of_nat (cnt ! a) \<le> w ! b / of_nat (c ! b)"
proof (cases "c ! a \<le> cnt ! a")
  case True
  then show ?thesis using a c(2) assms(2) by (intro exI [of _ a] conjI div_count_mono) auto
next
  case False
  have len: "length cnt = length w" "sum_list cnt = num_phy"
    and fair: "\<forall>b<length w. 2 \<le> cnt ! b \<longrightarrow> (\<forall>l<length w. w ! l / of_nat (cnt ! l) \<le> w ! b / of_nat (cnt ! b - 1))"
    using assms(1) unfolding replicated_def by auto
  obtain b where b: "b < length w" "c ! b < cnt ! b"
    using sum_list_less_ex [of cnt c a] len c a False by auto
  then have "2 \<le> cnt ! b" using c(2) by (auto dest!: spec [of _ b])
  then have "w ! a / of_nat (cnt ! a) \<le> w ! b / of_nat (cnt ! b - 1)" using fair a b(1) by blast
  also have "\<dots> \<le> w ! b / of_nat (c ! b)"
    by (rule div_count_mono) (use b c(2) assms(2) in auto)
  finally show ?thesis using b(1) by blast
qed

section \<open>Keeping the table of replicas\<close>

lemma replica_table_nth:
  assumes "replica_table n num_phy lg rk cnt" "i < num_phy"
  shows "lg ! i < n" "rk ! i < cnt ! (lg ! i)"
  using bij_betwE [of "\<lambda>i. (lg ! i, rk ! i)"] assms unfolding replica_table_def by fastforce+

lemma replica_table_ex:
  assumes "replica_table n num_phy lg rk cnt" "l < n" "r < cnt ! l"
  shows "\<exists>i<num_phy. lg ! i = l \<and> rk ! i = r"
proof -
  have "(l, r) \<in> (\<lambda>i. (lg ! i, rk ! i)) ` {..<num_phy}"
    using assms bij_betw_imp_surj_on unfolding replica_table_def by fastforce
  then show ?thesis by auto
qed

lemma replica_table_inj:
  assumes "replica_table n num_phy lg rk cnt" "i < num_phy" "j < num_phy" "lg ! i = lg ! j" "rk ! i = rk ! j"
  shows "i = j"
  using assms inj_onD [OF bij_betw_imp_inj_on, of "\<lambda>i. (lg ! i, rk ! i)"] unfolding replica_table_def by blast

lemma replica_tableI:
  assumes "length lg = num_phy" "length rk = num_phy" "length cnt = n"
    and "\<And>i. i < num_phy \<Longrightarrow> lg ! i < n \<and> rk ! i < cnt ! (lg ! i)"
    and "\<And>l r. l < n \<Longrightarrow> r < cnt ! l \<Longrightarrow> \<exists>i<num_phy. lg ! i = l \<and> rk ! i = r"
    and "\<And>i j. i < num_phy \<Longrightarrow> j < num_phy \<Longrightarrow> lg ! i = lg ! j \<Longrightarrow> rk ! i = rk ! j \<Longrightarrow> i = j"
  shows "replica_table n num_phy lg rk cnt"
  unfolding replica_table_def
proof (intro conjI bij_betwI')
  show "(lg ! i, rk ! i) = (lg ! j, rk ! j) \<longleftrightarrow> i = j" if "i \<in> {..<num_phy}" "j \<in> {..<num_phy}" for i j
    using assms(6) that by auto
  show "\<exists>i\<in>{..<num_phy}. y = (lg ! i, rk ! i)" if "y \<in> (SIGMA l:{..<n}. {..<cnt ! l})" for y
    using that assms(5) by fastforce
qed (use assms(1-4) in auto)

lemma replica_table_reorder:
  assumes t: "replica_table n num_phy lg rk cnt" and q: "is_perm qs" "length qs = num_phy"
  shows "replica_table n num_phy (map ((!) lg) qs) (map ((!) rk) qs) cnt"
proof (rule replica_tableI)
  have less: "qs ! i < num_phy" if "i < num_phy" for i using is_perm_less [OF q(1)] q(2) that by simp
  show "map ((!) lg) qs ! i < n \<and> map ((!) rk) qs ! i < cnt ! (map ((!) lg) qs ! i)" if "i < num_phy" for i
    using replica_table_nth [OF t less [OF that]] q(2) that by simp
  show "\<exists>i<num_phy. map ((!) lg) qs ! i = l \<and> map ((!) rk) qs ! i = r" if "l < n" "r < cnt ! l" for l r
    using replica_table_ex [OF t that] is_perm_surj [OF q(1)] q(2) by (metis nth_map)
  show "i = j" if "i < num_phy" "j < num_phy" "map ((!) lg) qs ! i = map ((!) lg) qs ! j"
    "map ((!) rk) qs ! i = map ((!) rk) qs ! j" for i j
  proof -
    have "qs ! i = qs ! j" using replica_table_inj [OF t less less] that q(2) by simp
    then show ?thesis using q that(1,2) by (simp add: is_perm_def nth_eq_iff_index_eq)
  qed
qed (use t q in \<open>simp_all add: replica_table_def\<close>)

lemma replica_table_rename:
  assumes t: "replica_table n num_phy lg rk cnt" and p: "is_perm ps" "length ps = n" and q: "is_perm qs" "inverse_of ps qs"
  shows "replica_table n num_phy (map ((!) qs) lg) rk (map ((!) cnt) ps)"
proof (rule replica_tableI)
  have lens: "length lg = num_phy" "length rk = num_phy" "length cnt = n" using t by (simp_all add: replica_table_def)
  have lq: "length qs = n" and inv: "\<And>k. k < n \<Longrightarrow> qs ! (ps ! k) = k" "\<And>k. k < n \<Longrightarrow> ps ! (qs ! k) = k"
    using q(2) p(2) by (auto simp: inverse_of_def)
  have pq: "ps ! k < n" "qs ! k < n" if "k < n" for k
    using is_perm_less [OF p(1)] is_perm_less [OF q(1)] p(2) lq that by auto
  show "map ((!) qs) lg ! i < n \<and> rk ! i < map ((!) cnt) ps ! (map ((!) qs) lg ! i)" if "i < num_phy" for i
    using replica_table_nth [OF t that] lens that p(2) pq(2) inv(2) by simp
  show "\<exists>i<num_phy. map ((!) qs) lg ! i = l \<and> rk ! i = r" if l: "l < n" and r: "r < map ((!) cnt) ps ! l" for l r
  proof -
    have "r < cnt ! (ps ! l)" using r l p(2) by simp
    then obtain i where "i < num_phy" "lg ! i = ps ! l" "rk ! i = r"
      using replica_table_ex [OF t pq(1) [OF l]] by blast
    then show ?thesis using lens inv(1) [OF l] by auto
  qed
  show "i = j" if "i < num_phy" "j < num_phy" "map ((!) qs) lg ! i = map ((!) qs) lg ! j" "rk ! i = rk ! j" for i j
  proof -
    have "lg ! i = lg ! j"
      using that lens inv(2) replica_table_nth(1) [OF t that(1)] replica_table_nth(1) [OF t that(2)] by (metis nth_map)
    then show ?thesis using replica_table_inj [OF t that(1,2)] that(4) by simp
  qed
qed (use t p in \<open>simp_all add: replica_table_def\<close>)

definition join_nodes :: "nat \<Rightarrow> nat list list \<Rightarrow> nat list" where
  "join_nodes n lgs = concat (map2 (\<lambda>lg k. map (\<lambda>x. x + k * n) lg) lgs [0..<length lgs])"

lemma shift_nodes_join: "shift_nodes n (map (map int) lgs) = map int (join_nodes n lgs)"
  by (auto simp: shift_nodes_def join_nodes_def arange_def map_concat zip_map_map o_def intro!: arg_cong [of _ _ concat] nth_equalityI)

lemma join_nodes_nth:
  assumes "\<forall>lg\<in>set lgs. length lg = num_phy"
  shows "length (join_nodes n lgs) = length lgs * num_phy"
    "i < length lgs \<Longrightarrow> j < num_phy \<Longrightarrow> join_nodes n lgs ! (i * num_phy + j) = i * n + lgs ! i ! j"
proof -
  let ?rows = "map2 (\<lambda>lg k. map (\<lambda>x. x + k * n) lg) lgs [0..<length lgs]"
  have rows: "\<forall>row\<in>set ?rows. length row = num_phy" using assms by (auto dest: set_zip_leftD)
  show "length (join_nodes n lgs) = length lgs * num_phy"
    using length_concat_block [OF rows] by (simp add: join_nodes_def)
  show "join_nodes n lgs ! (i * num_phy + j) = i * n + lgs ! i ! j" if "i < length lgs" "j < num_phy"
    using nth_concat_block [OF rows, of i j] that assms by (simp add: join_nodes_def)
qed

lemma replica_table_join:
  assumes len: "length lgs = k" "length rks = k" "length cnts = k"
    and t: "\<And>i. i < k \<Longrightarrow> replica_table n num_phy (lgs ! i) (rks ! i) (cnts ! i)"
  shows "replica_table (k * n) (k * num_phy) (join_nodes n lgs) (concat rks) (concat cnts)"
proof (rule replica_tableI)
  have lens: "\<forall>lg\<in>set lgs. length lg = num_phy" "\<forall>rk\<in>set rks. length rk = num_phy" "\<forall>cnt\<in>set cnts. length cnt = n"
    using len t by (auto simp: in_set_conv_nth replica_table_def)
  note nth [simp] = join_nodes_nth [OF lens(1)] length_concat_block [OF lens(2)] nth_concat_block [OF lens(2)]
    length_concat_block [OF lens(3)] nth_concat_block [OF lens(3)]
  note row = replica_table_nth [OF t]
  show "length (join_nodes n lgs) = k * num_phy" "length (concat rks) = k * num_phy" "length (concat cnts) = k * n"
    using len by simp_all
  show "join_nodes n lgs ! p < k * n \<and> concat rks ! p < concat cnts ! (join_nodes n lgs ! p)"
    if p: "p < k * num_phy" for p
  proof -
    obtain i j where "i < k" "j < num_phy" "p = i * num_phy + j" using block_cases [OF p] .
    then show ?thesis using row [of i j] block_less [of i k _ n] len by simp
  qed
  show "\<exists>p<k * num_phy. join_nodes n lgs ! p = l \<and> concat rks ! p = r"
    if l: "l < k * n" and r: "r < concat cnts ! l" for l r
  proof -
    obtain i x where ix: "i < k" "x < n" "l = i * n + x" using block_cases [OF l] .
    then obtain j where "j < num_phy" "lgs ! i ! j = x" "rks ! i ! j = r"
      using replica_table_ex [OF t [OF ix(1)] ix(2)] r len by auto
    then show ?thesis using ix len block_less [of i k j num_phy] by (intro exI [of _ "i * num_phy + j"]) simp
  qed
  show "p = p'" if pp: "p < k * num_phy" "p' < k * num_phy" "join_nodes n lgs ! p = join_nodes n lgs ! p'"
    "concat rks ! p = concat rks ! p'" for p p'
  proof -
    obtain i j where ij: "i < k" "j < num_phy" "p = i * num_phy + j" using block_cases [OF pp(1)] .
    obtain i' j' where ij': "i' < k" "j' < num_phy" "p' = i' * num_phy + j'" using block_cases [OF pp(2)] .
    have eq: "i * n + lgs ! i ! j = i' * n + lgs ! i' ! j'" using pp(3) ij ij' len by simp
    then have "i = i'" "lgs ! i ! j = lgs ! i' ! j'"
      using block_eq [of "lgs ! i ! j" n "lgs ! i' ! j'" i i'] row(1) ij ij' by blast+
    then show ?thesis using replica_table_inj [OF t [OF ij(1)] ij(2), of j'] pp(4) ij ij' len by simp
  qed
qed

end
