(* ===== verification/ExpertPlacement.thy ===== *)
theory ExpertPlacement
  imports ExpertProofs
begin

text \<open>
  The placement of experts: the groups of a layer on its nodes, the replicas of a node on its
  GPUs, and the maps that \<open>rebalance_experts\<close> returns.
\<close>

section \<open>One node\<close>

definition loads_ok :: "rat list \<Rightarrow> bool" where
  "loads_ok w \<longleftrightarrow> w \<noteq> [] \<and> (\<forall>x\<in>set w. 0 \<le> x)"

context torch_select
begin

lemma place_node_table:
  assumes w: "loads_ok w" "length w \<le> num_phy" and m: "0 < m" "m dvd num_phy"
  obtains lg rk cnt where "place_node T num_phy m (num_phy div m) w = Inr (map int lg, map int rk, cnt)"
    "replica_table (length w) num_phy lg rk cnt" "\<forall>l<length w. 1 \<le> cnt ! l"
proof -
  have w': "w \<noteq> []" "\<forall>x\<in>set w. 0 \<le> x" using w(1) by (auto simp: loads_ok_def)
  obtain s where s: "replicate_experts T w num_phy = Inr s" "replicated w num_phy num_phy s"
    using replicate_experts_replicated [OF w(2) w'] .
  obtain lg rk cnt where lg: "s = (map int lg, map int rk, cnt)" "replica_table (length w) num_phy lg rk cnt"
    "\<forall>l<length w. 1 \<le> cnt ! l"
    using replicated_table [OF s(2)] .
  let ?loads = "map2 (\<lambda>w c. w / of_nat c) w cnt"
  have lens: "length lg = num_phy" "length rk = num_phy" "length cnt = length w"
    using lg(2) by (simp_all add: replica_table_def)
  have "\<forall>j\<in>set lg. j < length ?loads"
    using replica_table_nth(1) [OF lg(2)] lens by (auto simp: in_set_conv_nth)
  then have g: "gather ?loads (map int lg) = Inr (map ((!) ?loads) lg)" by (rule gather_nat)
  obtain ps rs where pack: "balanced_packing T (map ((!) ?loads) lg) m = Inr (map int ps, map int rs)"
    "good_packing num_phy m ps rs"
    using balanced_packing_good [of m "map ((!) ?loads) lg"] m lens by auto
  let ?q = "places (num_phy div m) ps rs"
  have q: "is_perm ?q" "length ?q = num_phy" using pack(2) by (auto simp: good_packing_def places_def)
  have int_q: "map2 (\<lambda>p r. p * int (num_phy div m) + r) (map int ps) (map int rs) = map int ?q"
    by (simp add: places_def zip_map_map o_def split_def)
  obtain qs where qs: "inverse_index (map int ?q) = Inr (map int qs)" "is_perm qs" "inverse_of ?q qs"
    using inverse_perm [OF q(1)] .
  have lq: "length qs = num_phy" using qs(3) q(2) by (simp add: inverse_of_def)
  have in_q: "\<forall>j\<in>set qs. j < length lg" "\<forall>j\<in>set qs. j < length rk"
    using qs(2) lq lens by (auto simp: is_perm_def)
  have "place_node T num_phy m (num_phy div m) w =
     Inr (map int (map ((!) lg) qs), map int (map ((!) rk) qs), cnt)"
    using in_q by (simp add: place_node_def s(1) lg(1) g pack(1) int_q qs(1) gather_map del: map_map)
  then show ?thesis
    using that [of "map ((!) lg) qs" "map ((!) rk) qs" cnt] replica_table_reorder [OF lg(2) qs(2) lq] lg(3) by simp
qed

end

section \<open>Groups on nodes\<close>

text \<open>\<open>log2mlog\<close>: expert \<open>k\<close> of group \<open>g\<close> gets the place of its group, \<open>group_size\<close> experts each.\<close>

definition expand_groups :: "nat \<Rightarrow> nat list \<Rightarrow> nat list" where
  "expand_groups gs qs = concat (map (\<lambda>q. map (\<lambda>k. q * gs + k) [0..<gs]) qs)"

lemma expand_groups_nth:
  shows "length (expand_groups gs qs) = length qs * gs"
    "g < length qs \<Longrightarrow> k < gs \<Longrightarrow> expand_groups gs qs ! (g * gs + k) = qs ! g * gs + k"
proof -
  have rows: "\<forall>row\<in>set (map (\<lambda>q. map (\<lambda>k. q * gs + k) [0..<gs]) qs). length row = gs" by auto
  show "length (expand_groups gs qs) = length qs * gs"
    unfolding expand_groups_def using length_concat_block [OF rows] by simp
  show "expand_groups gs qs ! (g * gs + k) = qs ! g * gs + k" if "g < length qs" "k < gs"
    unfolding expand_groups_def using nth_concat_block [OF rows, of g k] that by simp
qed

lemma expand_groups_perm:
  assumes "is_perm qs"
  shows "is_perm (expand_groups gs qs)"
proof (rule is_permI)
  let ?e = "expand_groups gs qs"
  show "distinct ?e"
    unfolding distinct_conv_nth expand_groups_nth(1)
  proof (intro allI impI)
    fix i j assume ij: "i < length qs * gs" "j < length qs * gs" "i \<noteq> j"
    obtain g k where gk: "g < length qs" "k < gs" "i = g * gs + k" using block_cases [OF ij(1)] .
    obtain g' k' where gk': "g' < length qs" "k' < gs" "j = g' * gs + k'" using block_cases [OF ij(2)] .
    have "qs ! g = qs ! g' \<longleftrightarrow> g = g'"
      using assms gk gk' by (simp add: is_perm_def nth_eq_iff_index_eq)
    then show "?e ! i \<noteq> ?e ! j"
      using ij(3) gk gk' block_eq [of k gs k'] by (simp add: expand_groups_nth)
  qed
  show "p < length ?e" if p: "p \<in> set ?e" for p
  proof -
    obtain i where i: "i < length qs * gs" "p = ?e ! i" using p by (metis in_set_conv_nth expand_groups_nth(1))
    obtain g k where gk: "g < length qs" "k < gs" "i = g * gs + k" using block_cases [OF i(1)] .
    then show ?thesis using i(2) is_perm_less [OF assms gk(1)] block_less [of "qs ! g" "length qs" k gs] by (simp add: expand_groups_nth)
  qed
qed

context torch_select
begin

lemma place_groups_perm:
  assumes w: "length w = G * gs" "0 < gs" and m: "0 < m" "m dvd G"
  obtains e ps where "place_groups T w gs (G div m) m = Inr (map int e)" "is_perm e" "length e = length w"
    "\<And>l. l < length w \<Longrightarrow> ps ! (l div gs) < m \<and> e ! l div (G div m * gs) = ps ! (l div gs)"
proof -
  let ?tokens = "map sum_list (chunks gs w)"
  have G: "length ?tokens = G" using w by simp
  obtain ps rs where pack: "balanced_packing T ?tokens m = Inr (map int ps, map int rs)" "good_packing G m ps rs"
    using balanced_packing_good [of m ?tokens] m unfolding G by blast
  let ?q = "places (G div m) ps rs"
  let ?e = "expand_groups gs ?q"
  have q: "is_perm ?q" "length ?q = G" using pack(2) by (auto simp: good_packing_def places_def)
  have e: "place_groups T w gs (G div m) m = Inr (map int ?e)"
    by (simp add: place_groups_def pack(1) expand_groups_def places_def map_concat zip_map_map o_def split_def arange_def)
  have loc: "ps ! (l div gs) < m \<and> ?e ! l div (G div m * gs) = ps ! (l div gs)" if "l < length w" for l
  proof -
    obtain g k where gk: "g < G" "k < gs" "l = g * gs + k" using block_cases \<open>l < length w\<close> w(1) by metis
    have ps: "ps ! g < m" "rs ! g < G div m" "length ps = G" "length rs = G" using pack(2) gk(1) by (auto simp: good_packing_def)
    have "?q ! g = ps ! g * (G div m) + rs ! g" using gk(1) ps by (simp add: places_def)
    then have "?e ! l = ps ! g * (G div m * gs) + (rs ! g * gs + k)"
      using gk q(2) by (simp add: expand_groups_nth(2) [of g ?q k gs] distrib_right mult.assoc)
    moreover have "rs ! g * gs + k < G div m * gs" using block_less [OF ps(2) gk(2)] .
    ultimately show ?thesis using ps(1) gk by simp
  qed
  show ?thesis
    by (rule that [OF e expand_groups_perm [OF q(1)] _ loc]) (simp_all add: expand_groups_nth(1) q(2) w(1))
qed

end

section \<open>A layer\<close>

text \<open>The shape conditions that \<open>rebalance_experts_hierarchical\<close> asserts, and enough room for
  one replica of every expert.\<close>

definition shape_ok :: "nat \<Rightarrow> nat \<Rightarrow> nat \<Rightarrow> nat \<Rightarrow> nat \<Rightarrow> bool" where
  "shape_ok num_log num_phy num_groups num_nodes num_gpus \<longleftrightarrow>
     0 < num_log \<and> 0 < num_groups \<and> 0 < num_nodes \<and> 0 < num_gpus \<and> num_groups dvd num_log \<and>
     num_nodes dvd num_groups \<and> num_nodes dvd num_gpus \<and> num_gpus dvd num_phy \<and> num_log \<le> num_phy"

text \<open>All replicas of the experts of a group are on one node.\<close>

definition groups_on_nodes :: "nat \<Rightarrow> nat \<Rightarrow> nat list \<Rightarrow> bool" where
  "groups_on_nodes group_size phy_per_node lg \<longleftrightarrow>
     (\<forall>p<length lg. \<forall>p'<length lg. lg ! p div group_size = lg ! p' div group_size \<longrightarrow> p div phy_per_node = p' div phy_per_node)"

context torch_select
begin

lemma place_nodes_table:
  assumes mw: "length mw = K * lpn" "\<forall>x\<in>set mw. 0 \<le> x" and lpn: "0 < lpn" "lpn \<le> pn" and m: "0 < m" "m dvd pn"
  obtains nodes lgs rks cnts where "traverse (place_node T pn m (pn div m)) (chunks lpn mw) = Inr nodes"
    "map fst nodes = map (map int) (map lgs [0..<K])" "concat (map (fst \<circ> snd) nodes) = map int (concat (map rks [0..<K]))"
    "concat (map (snd \<circ> snd) nodes) = concat (map cnts [0..<K])"
    "\<And>i. i < K \<Longrightarrow> replica_table lpn pn (lgs i) (rks i) (cnts i)" "\<And>i l. i < K \<Longrightarrow> l < lpn \<Longrightarrow> 1 \<le> cnts i ! l"
proof -
  define good where "good x y \<longleftrightarrow> (\<exists>lg rk cnt. y = (map int lg, map int rk, cnt) \<and>
    replica_table lpn pn lg rk cnt \<and> (\<forall>l<lpn. 1 \<le> cnt ! l))" for x :: "rat list" and y
  have rows: "length (chunks lpn mw) = K" using lpn mw(1) by simp
  have row: "length x = lpn \<and> loads_ok x" if x: "x \<in> set (chunks lpn mw)" for x
  proof -
    obtain i where i: "i < length mw div lpn" "x = chunks lpn mw ! i" using x by (auto simp: in_set_conv_nth)
    then have "set x \<subseteq> set mw" by (auto simp: nth_chunks dest: in_set_takeD in_set_dropD)
    then show ?thesis using i mw(2) lpn length_nth_chunks [OF i(1)] by (auto simp: loads_ok_def)
  qed
  have "\<exists>y. place_node T pn m (pn div m) x = Inr y \<and> good x y" if x: "x \<in> set (chunks lpn mw)" for x
    using place_node_table [of x pn m] row [OF x] lpn m unfolding good_def by (metis (no_types, lifting))
  then obtain nodes where nodes: "traverse (place_node T pn m (pn div m)) (chunks lpn mw) = Inr nodes"
    "length nodes = K" "\<And>i. i < K \<Longrightarrow> good (chunks lpn mw ! i) (nodes ! i)"
    using traverse_total [of "chunks lpn mw" "place_node T pn m (pn div m)" good] rows by auto
  obtain lgs rks cnts where parts: "\<And>i. i < K \<Longrightarrow> nodes ! i = (map int (lgs i), map int (rks i), cnts i)"
    "\<And>i. i < K \<Longrightarrow> replica_table lpn pn (lgs i) (rks i) (cnts i)" "\<And>i l. i < K \<Longrightarrow> l < lpn \<Longrightarrow> 1 \<le> cnts i ! l"
    using nodes(3) unfolding good_def by metis
  show ?thesis
    by (rule that [OF nodes(1) _ _ _ parts(2,3)])
      (use nodes(2) parts(1) in \<open>auto simp: map_concat intro!: nth_equalityI arg_cong [of _ _ concat]\<close>)
qed

lemma hierarchical_layer_table:
  assumes sh: "shape_ok (length w) N G K gpus" and w: "loads_ok w"
  obtains lg rk cnt where
    "hierarchical_layer T N (length w div G) (G div K) K gpus w = Inr (map int lg, map int rk, cnt)"
    "replica_table (length w) N lg rk cnt" "\<forall>l<length w. 1 \<le> cnt ! l" "groups_on_nodes (length w div G) (N div K) lg"
proof -
  let ?L = "length w" and ?gs = "length w div G" and ?ln = "length w div K" and ?pn = "N div K"
  have pos: "0 < ?L" "0 < G" "0 < K" "0 < gpus" using sh by (auto simp: shape_ok_def)
  have L: "?L = G * ?gs" "0 < ?gs" using sh by (auto simp: shape_ok_def dvd_div_eq_0_iff simp flip: neq0_conv)
  have KG: "K dvd G" "K dvd gpus" "gpus dvd N" "K dvd ?L" "K dvd N" "?L \<le> N"
    using sh by (auto simp: shape_ok_def intro: dvd_trans)
  have ln: "?ln = G div K * ?gs" "?L = K * ?ln" using KG(1,4) L(1) by (metis div_mult_swap mult.commute, simp)
  have ln0: "0 < ?ln" using ln(2) pos by (metis mult_is_0 neq0_conv)
  have lp: "?ln \<le> ?pn" using KG(6) div_le_mono by blast
  have gk: "0 < gpus div K" "gpus div K dvd ?pn" "?pn div (gpus div K) = N div gpus"
    using KG pos by (auto simp: div_dvd_div dvd_div_eq_0_iff div_div_div_same)
  obtain e ps where e: "place_groups T w ?gs (G div K) K = Inr (map int e)" "is_perm e" "length e = ?L"
    "\<And>l. l < ?L \<Longrightarrow> ps ! (l div ?gs) < K \<and> e ! l div ?ln = ps ! (l div ?gs)"
    using place_groups_perm [OF L pos(3) KG(1)] unfolding ln(1) [symmetric] by blast
  obtain qs where qs: "inverse_index (map int e) = Inr (map int qs)" "is_perm qs" "inverse_of e qs"
    using inverse_perm [OF e(2)] .
  have lq: "length qs = ?L" using qs(3) e(3) by (simp add: inverse_of_def)
  define mw where "mw = map ((!) w) qs"
  have mw: "length mw = ?L" "gather w (map int qs) = Inr mw" "\<forall>x\<in>set mw. 0 \<le> x"
    using lq qs(2) w by (auto simp: mw_def gather_nat is_perm_def loads_ok_def)
  obtain nodes lgs rks cnts where nodes: "traverse (place_node T ?pn (gpus div K) (N div gpus)) (chunks ?ln mw) = Inr nodes"
    "map fst nodes = map (map int) (map lgs [0..<K])" "concat (map (fst \<circ> snd) nodes) = map int (concat (map rks [0..<K]))"
    "concat (map (snd \<circ> snd) nodes) = concat (map cnts [0..<K])"
    and parts: "\<And>i. i < K \<Longrightarrow> replica_table ?ln ?pn (lgs i) (rks i) (cnts i)" "\<And>i l. i < K \<Longrightarrow> l < ?ln \<Longrightarrow> 1 \<le> cnts i ! l"
    using place_nodes_table [of mw K ?ln ?pn "gpus div K"] mw ln ln0 lp gk by metis
  let ?lg = "join_nodes ?ln (map lgs [0..<K])" and ?rk = "concat (map rks [0..<K])" and ?cnt = "concat (map cnts [0..<K])"
  have table: "replica_table ?L N ?lg ?rk ?cnt"
    using replica_table_join [of "map lgs [0..<K]" K "map rks [0..<K]" "map cnts [0..<K]" ?ln ?pn] parts(1) ln(2) KG(5) by simp
  then have lens: "length ?lg = N" "length ?cnt = ?L" by (simp_all add: replica_table_def)
  have in_L: "\<forall>j\<in>set ?lg. j < length (map int qs)" "\<forall>j\<in>set e. j < length ?cnt"
    using replica_table_nth(1) [OF table] lens lq e(2,3) by (auto simp: in_set_conv_nth is_perm_def)
  have res: "hierarchical_layer T N ?gs (G div K) K gpus w = Inr (map int (map ((!) qs) ?lg), map int ?rk, map ((!) ?cnt) e)"
    using ln0 in_L by (simp add: hierarchical_layer_def e(1) qs(1) mw(2) nodes shift_nodes_join gather_map [of _ qs] gather_nat [of e] lq del: map_map)
  show ?thesis
  proof (rule that [OF res replica_table_rename [OF table e(2,3) qs(2,3)]])
    show "\<forall>l<?L. 1 \<le> map ((!) ?cnt) e ! l"
    proof (intro allI impI)
      fix l assume l: "l < ?L"
      then have "e ! l < K * ?ln" using is_perm_less [OF e(2)] e(3) ln(2) by simp
      then obtain i x where ix: "i < K" "x < ?ln" "e ! l = i * ?ln + x" by (rule block_cases)
      have "?cnt ! (e ! l) = cnts i ! x"
        using nth_concat_block [of "map cnts [0..<K]" ?ln i x] parts(1) ix by (auto simp: replica_table_def)
      then show "1 \<le> map ((!) ?cnt) e ! l" using parts(2) ix l e(3) by simp
    qed
    have node: "ps ! (map ((!) qs) ?lg ! p div ?gs) = p div ?pn" if p: "p < N" for p
    proof -
      have "p < K * ?pn" using p KG(5) by simp
      then obtain i j where ij: "i < K" "j < ?pn" "p = i * ?pn + j" by (rule block_cases)
      have x: "?lg ! p = i * ?ln + lgs i ! j" "lgs i ! j < ?ln"
        using join_nodes_nth(2) [of "map lgs [0..<K]" ?pn i j ?ln] ij parts(1) replica_table_nth(1) [OF parts(1) [OF ij(1)] ij(2)]
        by (auto simp: replica_table_def)
      have m: "?lg ! p < ?L" using replica_table_nth(1) [OF table p] .
      then have "qs ! (?lg ! p) < ?L" "e ! (qs ! (?lg ! p)) = ?lg ! p"
        using is_perm_less [OF qs(2)] qs(3) lq e(3) by (auto simp: inverse_of_def)
      then have "ps ! (qs ! (?lg ! p) div ?gs) = ?lg ! p div ?ln" using e(4) by metis
      then show ?thesis using x ij lens p by simp
    qed
    show "groups_on_nodes ?gs ?pn (map ((!) qs) ?lg)"
      unfolding groups_on_nodes_def using node lens by (metis length_map)
  qed
qed

end

section \<open>The maps\<close>

text \<open>Row \<open>l\<close> of \<open>logical_to_physical_map\<close> lists the physical experts of logical expert \<open>l\<close>, each once,
  and is filled up with \<open>-1\<close>.\<close>

definition maps_fit :: "nat \<Rightarrow> nat \<Rightarrow> int list \<Rightarrow> int list list \<Rightarrow> nat list \<Rightarrow> bool" where
  "maps_fit num_log num_phy phy2log log2phy logcnt \<longleftrightarrow>
     length phy2log = num_phy \<and> length log2phy = num_log \<and> length logcnt = num_log \<and>
     (\<forall>p<num_phy. 0 \<le> phy2log ! p \<and> phy2log ! p < int num_log) \<and>
     (\<forall>l<num_log. 1 \<le> logcnt ! l \<and> logcnt ! l \<le> length (log2phy ! l) \<and>
        distinct (take (logcnt ! l) (log2phy ! l)) \<and>
        set (take (logcnt ! l) (log2phy ! l)) = int ` {p. p < num_phy \<and> phy2log ! p = int l} \<and>
        (\<forall>i<length (log2phy ! l). logcnt ! l \<le> i \<longrightarrow> log2phy ! l ! i = - 1))"

lemma logical_to_physical_fits:
  assumes t: "replica_table n N lg rk cnt" and c: "\<forall>l<n. 1 \<le> cnt ! l" "\<forall>l<n. cnt ! l \<le> M" and n: "0 < n"
  obtains log2phy where "logical_to_physical N n M (map int lg) (map int rk) = Inr log2phy"
    "maps_fit n N (map int lg) log2phy cnt" "\<forall>row\<in>set log2phy. length row = M"
proof -
  have lens: "length lg = N" "length rk = N" "length cnt = n" using t by (simp_all add: replica_table_def)
  have M: "0 < M" using c n by fastforce
  have rkM: "rk ! p < M" if "p < N" for p
    using replica_table_nth [OF t that] c(2) by (metis order_less_le_trans)
  let ?idx = "places M lg rk"
  have idx: "length ?idx = N" "\<And>p. p < N \<Longrightarrow> ?idx ! p = lg ! p * M + rk ! p" using lens by (simp_all add: places_def)
  have d: "distinct ?idx"
    unfolding distinct_conv_nth using idx rkM block_eq replica_table_inj [OF t] by (metis (no_types, lifting))
  have less: "\<forall>j\<in>set ?idx. j < length (replicate (n * M) (- 1 :: int))"
    using idx rkM block_less replica_table_nth(1) [OF t] by (metis (no_types, lifting) in_set_conv_nth length_replicate)
  obtain ys where ys: "scatter (replicate (n * M) (- 1)) (map int ?idx) (arange N) = Inr ys" "length ys = n * M"
    "\<And>p. p < N \<Longrightarrow> ys ! (?idx ! p) = int p" "\<And>i. i < n * M \<Longrightarrow> i \<notin> set ?idx \<Longrightarrow> ys ! i = - 1"
    by (rule scatter_nat [OF d less, of "arange N"], rule_tac [2] that) (simp_all add: idx(1))
  have rows: "length ys div M = n" using ys(2) M by simp
  note row = nth_nth_chunks [where xs = ys and k = M, unfolded rows] length_nth_chunks [where xs = ys and k = M, unfolded rows]
  have hit: "\<exists>p<N. lg ! p = l \<and> rk ! p = r \<and> chunks M ys ! l ! r = int p" if lr: "l < n" "r < cnt ! l" for l r
  proof -
    obtain p where p: "p < N" "lg ! p = l" "rk ! p = r" using replica_table_ex [OF t lr] by blast
    then show ?thesis using ys(3) [OF p(1)] idx(2) [OF p(1)] row(1) [OF lr(1)] rkM [OF p(1)] by auto
  qed
  have miss: "chunks M ys ! l ! r = - 1" if lr: "l < n" "r < M" "cnt ! l \<le> r" for l r
  proof -
    have "l * M + r \<notin> set ?idx"
    proof
      assume "l * M + r \<in> set ?idx"
      then obtain p where p: "p < N" "lg ! p * M + rk ! p = l * M + r" using idx by (metis in_set_conv_nth)
      then show False using block_eq [OF rkM [OF p(1)] lr(2)] replica_table_nth(2) [OF t p(1)] lr(3) by auto
    qed
    then show ?thesis using ys(4) block_less [OF lr(1,2)] row(1) [OF lr(1,2)] by simp
  qed
  have fits: "maps_fit n N (map int lg) (chunks M ys) cnt"
    unfolding maps_fit_def
  proof (intro conjI allI impI)
    fix l assume l: "l < n"
    let ?row = "take (cnt ! l) (chunks M ys ! l)"
    have nth: "?row ! r = chunks M ys ! l ! r" "length ?row = cnt ! l" if "r < cnt ! l" for r
      using that l c(2) row(2) by auto
    show "1 \<le> cnt ! l" "cnt ! l \<le> length (chunks M ys ! l)" using c l row(2) by auto
    show "distinct ?row"
      unfolding distinct_conv_nth using hit [OF l] nth by (metis length_take min_less_iff_conj of_nat_eq_iff)
    show "set ?row = int ` {p. p < N \<and> map int lg ! p = int l}"
    proof (intro set_eqI iffI)
      fix x assume "x \<in> set ?row"
      then obtain r where r: "r < cnt ! l" "x = chunks M ys ! l ! r" by (auto simp: in_set_conv_nth)
      then show "x \<in> int ` {p. p < N \<and> map int lg ! p = int l}" using hit [OF l r(1)] lens by auto
    next
      fix x assume "x \<in> int ` {p. p < N \<and> map int lg ! p = int l}"
      then obtain p where p: "p < N" "lg ! p = l" "x = int p" using lens by auto
      then have r: "rk ! p < cnt ! l" using replica_table_nth(2) [OF t p(1)] by simp
      have "chunks M ys ! l ! (rk ! p) = int p"
        using ys(3) [OF p(1)] idx(2) [OF p(1)] row(1) [OF l rkM [OF p(1)]] p(2) by simp
      then show "x \<in> set ?row" using nth [OF r] r p(3) by (metis nth_mem)
    qed
    show "chunks M ys ! l ! i = - 1" if "i < length (chunks M ys ! l)" "cnt ! l \<le> i" for i
      using miss l that row(2) by simp
  qed (use lens rows replica_table_nth(1) [OF t] in auto)
  have "map2 (\<lambda>l r. l * int M + r) (map int lg) (map int rk) = map int ?idx"
    by (simp add: places_def zip_map_map o_def split_def)
  then have "logical_to_physical N n M (map int lg) (map int rk) = Inr (chunks M ys)"
    by (simp add: logical_to_physical_def ys(1))
  moreover have "\<forall>row\<in>set (chunks M ys). length row = M"
    using row(2) rows by (metis in_set_conv_nth length_chunks)
  ultimately show ?thesis using that fits by blast
qed

lemma fold_max_ge: "x \<in> insert c (set cs) \<Longrightarrow> x \<le> fold max cs (c :: nat)"
proof (induction cs arbitrary: c x)
  case (Cons d cs)
  show ?case
  proof (cases "x = c \<or> x = d")
    case True
    then show ?thesis using Cons.IH [of "max d c" "max d c"] by auto
  next
    case False
    then show ?thesis using Cons.IH [of x "max d c"] Cons.prems by simp
  qed
qed simp

lemma traverse_list_all2: "traverse f xs = Inr ys \<Longrightarrow> list_all2 (\<lambda>x y. f x = Inr y) xs ys"
  by (auto simp: traverse_Inr list_all2_conv_all_nth)

context torch_select
begin

lemma hierarchical_tables:
  assumes sh: "shape_ok n N G K gpus" and rows: "\<And>w. w \<in> set weight \<Longrightarrow> length w = n \<and> loads_ok w"
  obtains layers where "rebalance_experts_hierarchical T n weight N G K gpus = Inr layers" "length layers = length weight"
    "\<And>y. y \<in> set layers \<Longrightarrow> \<exists>lg rk cnt. y = (map int lg, map int rk, cnt) \<and> replica_table n N lg rk cnt \<and>
       (\<forall>l<n. 1 \<le> cnt ! l) \<and> groups_on_nodes (n div G) (N div K) lg"
proof -
  define good where "good w y \<longleftrightarrow> (\<exists>lg rk cnt. y = (map int lg, map int rk, cnt) \<and> replica_table n N lg rk cnt \<and>
    (\<forall>l<n. 1 \<le> cnt ! l) \<and> groups_on_nodes (n div G) (N div K) lg)" for w :: "rat list" and y
  have "\<exists>y. hierarchical_layer T N (n div G) (G div K) K gpus w = Inr y \<and> good w y" if w: "w \<in> set weight" for w
    using hierarchical_layer_table [of w N G K gpus] rows [OF w] sh unfolding good_def by metis
  then obtain layers where l: "traverse (hierarchical_layer T N (n div G) (G div K) K gpus) weight = Inr layers"
    "length layers = length weight" "\<And>i. i < length weight \<Longrightarrow> good (weight ! i) (layers ! i)"
    using traverse_total [of weight "hierarchical_layer T N (n div G) (G div K) K gpus" good] by auto
  have "rebalance_experts_hierarchical T n weight N G K gpus = Inr layers"
    using sh l(1) by (auto simp: rebalance_experts_hierarchical_def shape_ok_def dvd_eq_mod_eq_0)
  then show ?thesis using that l(2,3) unfolding good_def by (metis in_set_conv_nth)
qed

lemma rebalance_experts_maps:
  assumes sh: "shape_ok n N (if hier then G else 1) (if hier then K else 1) gpus"
    and rows: "\<And>w. w \<in> set weight \<Longrightarrow> length w = n \<and> loads_ok w" and ne: "weight \<noteq> []"
  obtains phy2log log2phy logcnt where
    "rebalance_experts T n weight N G K gpus hier = Inr (phy2log, log2phy, logcnt)"
    "length phy2log = length weight" "length log2phy = length weight" "length logcnt = length weight"
    "\<And>i. i < length weight \<Longrightarrow> maps_fit n N (phy2log ! i) (log2phy ! i) (logcnt ! i)"
    "\<And>i. i < length weight \<Longrightarrow> \<exists>lg. phy2log ! i = map int lg \<and>
       groups_on_nodes (n div (if hier then G else 1)) (N div (if hier then K else 1)) lg"
proof -
  let ?G = "if hier then G else 1" and ?K = "if hier then K else 1"
  have n: "0 < n" using sh by (simp add: shape_ok_def)
  obtain layers where l: "rebalance_experts_hierarchical T n weight N ?G ?K gpus = Inr layers" "length layers = length weight"
    and good: "\<And>y. y \<in> set layers \<Longrightarrow> \<exists>lg rk cnt. y = (map int lg, map int rk, cnt) \<and> replica_table n N lg rk cnt \<and>
       (\<forall>l<n. 1 \<le> cnt ! l) \<and> groups_on_nodes (n div ?G) (N div ?K) lg"
    by (rule hierarchical_tables [OF sh rows]) (assumption, rule that)
  let ?cnts = "concat (map (snd \<circ> snd) layers)"
  obtain y where "y \<in> set layers" using l(2) ne by (metis last_in_set length_0_conv)
  then have "?cnts \<noteq> []" using good n by (fastforce simp: replica_table_def)
  then obtain c cs where cs: "?cnts = c # cs" by (cases ?cnts) auto
  define M where "M = fold max cs c"
  have leM: "cnt ! k \<le> M" if "(lg, rk, cnt) \<in> set layers" "k < length cnt" for lg rk cnt k
  proof -
    have "cnt ! k \<in> set ?cnts" using that by force
    then show ?thesis using fold_max_ge [of "cnt ! k" c cs] by (simp add: M_def cs)
  qed
  define fit where "fit y t \<longleftrightarrow> maps_fit n N (fst y) t (snd (snd y))" for y :: "int list \<times> int list \<times> nat list" and t
  let ?f = "\<lambda>(phy2log, phyrank, logcnt). logical_to_physical N n M phy2log phyrank"
  have "\<exists>t. ?f y = Inr t \<and> fit y t" if y: "y \<in> set layers" for y
  proof -
    obtain lg rk cnt where g: "y = (map int lg, map int rk, cnt)" "replica_table n N lg rk cnt" "\<forall>l<n. 1 \<le> cnt ! l"
      using good [OF y] by blast
    have "\<forall>l<n. cnt ! l \<le> M" using leM g(1,2) y by (auto simp: replica_table_def)
    then obtain t where "logical_to_physical N n M (map int lg) (map int rk) = Inr t" "maps_fit n N (map int lg) t cnt"
      using logical_to_physical_fits [OF g(2,3) _ n] by blast
    then show ?thesis using g(1) by (simp add: fit_def)
  qed
  then obtain ts where ts: "traverse ?f layers = Inr ts" "length ts = length layers" "\<And>i. i < length layers \<Longrightarrow> fit (layers ! i) (ts ! i)"
    using traverse_total [of layers ?f fit] by auto
  have res: "rebalance_experts T n weight N G K gpus hier = Inr (map fst layers, ts, map (snd \<circ> snd) layers)"
    using l(1) by (cases hier) (simp_all add: rebalance_experts_def cs M_def [symmetric] ts(1) Let_def)
  show ?thesis
  proof (rule that [OF res])
    fix i assume i: "i < length weight"
    show "maps_fit n N (map fst layers ! i) (ts ! i) (map (snd \<circ> snd) layers ! i)"
      using ts(3) l(2) i by (simp add: fit_def)
    show "\<exists>lg. map fst layers ! i = map int lg \<and> groups_on_nodes (n div ?G) (N div ?K) lg"
      using good [of "layers ! i"] l(2) i by fastforce
  qed (simp_all add: l(2) ts(2))
qed

end

end
