(* ===== verification/ExpertProps.thy ===== *)
theory ExpertProps
  imports ExpertPlacement
begin

text \<open>
  The properties of the expert load balancer. The witnesses use one layer of four experts in two
  groups, replicated eightfold over four GPUs on two nodes, with the stable sort.
\<close>

text \<open>C33: for loads of the right shape \<open>rebalance_experts\<close> returns, and the maps of every layer fit
  together: \<open>phy2log\<close> names a logical expert for every physical expert, every logical expert has
  \<open>logcnt \<ge> 1\<close> replicas, its row of \<open>log2phy\<close> lists exactly these replicas, each once, and the rest
  of the row is \<open>-1\<close>.\<close>

theorem rebalance_maps_fit:
  assumes "torch_select T"
    and "shape_ok num_log num_replicas (if hier then num_groups else 1) (if hier then num_nodes else 1) num_gpus"
    and "weight \<noteq> []" "\<forall>w\<in>set weight. length w = num_log \<and> loads_ok w"
  shows "\<exists>phy2log log2phy logcnt.
     rebalance_experts T num_log weight num_replicas num_groups num_nodes num_gpus hier = Inr (phy2log, log2phy, logcnt) \<and>
     length phy2log = length weight \<and> length log2phy = length weight \<and> length logcnt = length weight \<and>
     (\<forall>i<length weight. maps_fit num_log num_replicas (phy2log ! i) (log2phy ! i) (logcnt ! i))"
  by (rule torch_select.rebalance_experts_maps [OF assms(1,2) _ assms(3)]) (use assms(4) in auto)

theorem rebalance_maps_fit_witness:
  "\<exists>phy2log log2phy logcnt.
     rebalance_experts stable_ops 4 [[90, 132, 40, 61]] 8 2 2 4 True = Inr (phy2log, log2phy, logcnt) \<and>
     length phy2log = 1 \<and> length log2phy = 1 \<and> length logcnt = 1 \<and>
     maps_fit 4 8 (phy2log ! 0) (log2phy ! 0) (logcnt ! 0)"
  using rebalance_maps_fit [OF stable.torch_select_axioms, of 4 8 True 2 2 4 "[[90, 132, 40, 61]]"]
  by (simp add: shape_ok_def loads_ok_def)

text \<open>C34: with the hierarchical policy all replicas of the experts of a group are on one node, the
  physical experts \<open>p\<close> of node \<open>p div (num_replicas div num_nodes)\<close>.\<close>

theorem groups_share_a_node:
  assumes "torch_select T" "shape_ok num_log num_replicas num_groups num_nodes num_gpus"
    and "weight \<noteq> []" "\<forall>w\<in>set weight. length w = num_log \<and> loads_ok w"
  shows "\<exists>phy2log log2phy logcnt.
     rebalance_experts T num_log weight num_replicas num_groups num_nodes num_gpus True = Inr (phy2log, log2phy, logcnt) \<and>
     (\<forall>i<length weight. \<forall>p<num_replicas. \<forall>p'<num_replicas.
        phy2log ! i ! p div int (num_log div num_groups) = phy2log ! i ! p' div int (num_log div num_groups) \<longrightarrow>
        p div (num_replicas div num_nodes) = p' div (num_replicas div num_nodes))"
proof -
  have sh: "shape_ok num_log num_replicas (if True then num_groups else 1) (if True then num_nodes else 1) num_gpus"
    using assms(2) by simp
  have rows: "\<And>w. w \<in> set weight \<Longrightarrow> length w = num_log \<and> loads_ok w" using assms(4) by blast
  obtain phy2log log2phy logcnt where r:
    "rebalance_experts T num_log weight num_replicas num_groups num_nodes num_gpus True = Inr (phy2log, log2phy, logcnt)"
    and fit: "\<And>i. i < length weight \<Longrightarrow> maps_fit num_log num_replicas (phy2log ! i) (log2phy ! i) (logcnt ! i)"
    and lg: "\<And>i. i < length weight \<Longrightarrow> \<exists>lg. phy2log ! i = map int lg \<and>
       groups_on_nodes (num_log div num_groups) (num_replicas div num_nodes) lg"
    by (rule torch_select.rebalance_experts_maps [OF assms(1) sh rows assms(3)]) auto
  have "p div (num_replicas div num_nodes) = p' div (num_replicas div num_nodes)"
    if i: "i < length weight" and p: "p < num_replicas" "p' < num_replicas"
      and eq: "phy2log ! i ! p div int (num_log div num_groups) = phy2log ! i ! p' div int (num_log div num_groups)" for i p p'
  proof -
    obtain lg where lg: "phy2log ! i = map int lg" "groups_on_nodes (num_log div num_groups) (num_replicas div num_nodes) lg"
      using lg [OF i] by blast
    have "length lg = num_replicas" using fit [OF i] lg(1) by (simp add: maps_fit_def)
    moreover from this have "lg ! p div (num_log div num_groups) = lg ! p' div (num_log div num_groups)"
      using eq lg(1) p by (simp flip: of_nat_div)
    ultimately show ?thesis using lg(2) p unfolding groups_on_nodes_def by blast
  qed
  then show ?thesis using r by blast
qed

theorem groups_share_a_node_witness:
  "\<exists>phy2log log2phy logcnt.
     rebalance_experts stable_ops 4 [[90, 132, 40, 61]] 8 2 2 4 True = Inr (phy2log, log2phy, logcnt) \<and>
     (\<forall>p<8. \<forall>p'<8. phy2log ! 0 ! p div 2 = phy2log ! 0 ! p' div 2 \<longrightarrow> p div 4 = p' div (4::nat))"
  using groups_share_a_node [OF stable.torch_select_axioms, of 4 8 2 2 4 "[[90, 132, 40, 61]]"]
  by (simp add: shape_ok_def loads_ok_def)

text \<open>C35: \<open>replicate_experts\<close> minimises the largest load: for every other way \<open>c\<close> to give the experts
  at least one and together \<open>num_phy\<close> replicas, each load under the returned counts is at most
  some load under \<open>c\<close>.\<close>

theorem replicate_experts_optimal:
  assumes "torch_select T" "weight \<noteq> []" "\<forall>w\<in>set weight. 0 \<le> w" "length weight \<le> num_phy"
  shows "\<exists>phy2log rank logcnt. replicate_experts T weight num_phy = Inr (phy2log, rank, logcnt) \<and>
     length logcnt = length weight \<and> sum_list logcnt = num_phy \<and>
     (\<forall>c. length c = length weight \<and> (\<forall>l<length c. 1 \<le> c ! l) \<and> sum_list c = num_phy \<longrightarrow>
        (\<forall>a<length weight. \<exists>b<length weight. weight ! a / of_nat (logcnt ! a) \<le> weight ! b / of_nat (c ! b)))"
proof -
  obtain phy2log rank logcnt where r: "replicate_experts T weight num_phy = Inr (phy2log, rank, logcnt)"
    "replicated weight num_phy num_phy (phy2log, rank, logcnt)"
    using torch_select.replicate_experts_replicated [OF assms(1,4,2,3)] by (metis prod_cases3)
  have "length logcnt = length weight" "sum_list logcnt = num_phy" using r(2) by (auto simp: replicated_def)
  then show ?thesis using r(1) replicated_optimal [OF r(2) assms(3)] by auto
qed

theorem replicate_experts_optimal_witness:
  "\<exists>phy2log rank logcnt. replicate_experts stable_ops [90, 132, 40] 5 = Inr (phy2log, rank, logcnt) \<and>
     length logcnt = 3 \<and> sum_list logcnt = 5 \<and>
     (\<forall>a<3. \<exists>b<3. [90, 132, 40] ! a / of_nat (logcnt ! a) \<le> [90, 132, 40] ! b / (of_nat ([1, 3, 1] ! b) :: rat))"
proof -
  have c: "length [1, 3, 1 :: nat] = length [90, 132, 40 :: rat]" "\<forall>l<length [1, 3, 1 :: nat]. 1 \<le> [1, 3, 1 :: nat] ! l"
    "sum_list [1, 3, 1 :: nat] = 5"
    by (auto simp: nth_Cons split: nat.splits)
  obtain phy2log rank logcnt where r: "replicate_experts stable_ops [90, 132, 40] 5 = Inr (phy2log, rank, logcnt)"
    "length logcnt = 3" "sum_list logcnt = 5"
    "\<forall>c. length c = length [90, 132, 40 :: rat] \<and> (\<forall>l<length c. 1 \<le> c ! l) \<and> sum_list c = 5 \<longrightarrow>
       (\<forall>a<length [90, 132, 40 :: rat]. \<exists>b<length [90, 132, 40 :: rat]. [90, 132, 40] ! a / of_nat (logcnt ! a) \<le> [90, 132, 40] ! b / (of_nat (c ! b) :: rat))"
    using replicate_experts_optimal [OF stable.torch_select_axioms, of "[90, 132, 40]" 5] by auto
  have "\<forall>a<length [90, 132, 40 :: rat]. \<exists>b<length [90, 132, 40 :: rat].
     [90, 132, 40] ! a / of_nat (logcnt ! a) \<le> [90, 132, 40] ! b / (of_nat ([1, 3, 1] ! b) :: rat)"
    using r(4) c by blast
  then show ?thesis using r(1,2,3) by (intro exI conjI) (simp_all add: numeral_3_eq_3)
qed

end
