(* ===== verification/PrefillDelayer.thy ===== *)
theory PrefillDelayer
  imports Prelude Complex_Main
begin

text \<open>
  \<open>python/sglang/srt/managers/prefill_delayer.py\<close>: the ranks of a data-parallel group gather in
  every scheduler pass whether they have a prefill to run, and hold it back while some of them
  have none or while the decode batch leaves too few slots. \<open>min_free_slots_delayer.py\<close> is the
  rank-local variant.

  The collective \<open>all_gather_into_tensor\<close> hands every rank the messages of all ranks in rank
  order; the operations of one rank take its result as an argument. The readings of
  \<open>time.perf_counter\<close> during a pass are arguments as well.
\<close>

section \<open>Recent batch sizes\<close>

record bs_tracker =
  window_size :: nat
  recent_attempt_sizes :: "int list"

definition new_tracker :: "int \<Rightarrow> bs_tracker res" where
  "new_tracker window =
     (if window \<le> 0 then Inl ValueError else Inr \<lparr>window_size = nat window, recent_attempt_sizes = []\<rparr>)"

text \<open>\<open>max(self._recent_attempt_sizes, default=0)\<close>.\<close>

definition tracked_max_prefill_bs :: "bs_tracker \<Rightarrow> int" where
  "tracked_max_prefill_bs t = (case recent_attempt_sizes t of [] \<Rightarrow> 0 | x # xs \<Rightarrow> fold max xs x)"

text \<open>Appending to a full \<open>deque(maxlen=n)\<close> drops the oldest element.\<close>

definition deque_append :: "nat \<Rightarrow> 'a \<Rightarrow> 'a list \<Rightarrow> 'a list" where
  "deque_append n x xs = drop (length xs + 1 - n) (xs @ [x])"

definition observe_attempt :: "int \<Rightarrow> bs_tracker \<Rightarrow> (int \<times> bs_tracker) res" where
  "observe_attempt attempted_prefill_bs t =
     (if attempted_prefill_bs \<le> 0 then Inl ValueError
      else let t' = t\<lparr>recent_attempt_sizes := deque_append (window_size t) attempted_prefill_bs (recent_attempt_sizes t)\<rparr>
           in Inr (tracked_max_prefill_bs t', t'))"

section \<open>Negotiation\<close>

record delay_state =
  delayed_count :: int
  start_time :: rat

definition bump_delayed_count :: "delay_state \<Rightarrow> delay_state" where
  "bump_delayed_count s = s\<lparr>delayed_count := delayed_count s + 1\<rparr>"

record negotiate_output =
  next_state :: "delay_state option"
  input_estimation :: string
  output_allow :: bool
  output_reason :: string
  num_prefillable :: int
  num_token_watermark_force_allow :: int
  wait_forward_passes :: int
  wait_seconds :: rat

record prefill_delayer =
  max_delay_passes :: int
  token_usage_low_watermark :: "rat option"
  queue_min_ratio :: "rat option"
  max_delay_ms :: rat
  dp_size :: int
  enable_dp_attention :: bool
  curr_state :: "delay_state option"
  skip_first_delayer :: bool

definition new_delayer :: "int \<Rightarrow> int \<Rightarrow> rat option \<Rightarrow> rat option \<Rightarrow> rat option \<Rightarrow> bool \<Rightarrow> prefill_delayer" where
  "new_delayer dp max_passes watermark ratio delay_ms dp_attention =
     \<lparr>max_delay_passes = max_passes, token_usage_low_watermark = watermark, queue_min_ratio = ratio,
      max_delay_ms = (case delay_ms of None \<Rightarrow> 5000 | Some ms \<Rightarrow> ms), dp_size = dp,
      enable_dp_attention = dp_attention, curr_state = None, skip_first_delayer = True\<rparr>"

text \<open>What the scheduler passes to a negotiation.\<close>

record negotiate_input =
  local_prefillable :: bool
  token_usage :: rat
  in_running_batch :: int
  in_max_prefill_bs :: int
  max_running_requests :: int
  in_waiting_queue_len :: int

text \<open>The five fields that a rank contributes to the gathered tensor.\<close>

record rank_info =
  prefillable :: int
  token_watermark_force_allow :: int
  running_batch :: int
  max_prefill_bs :: int
  waiting_queue_len :: int

definition local_info :: "prefill_delayer \<Rightarrow> negotiate_input \<Rightarrow> rank_info" where
  "local_info d x =
     (let force = local_prefillable x \<and> (case token_usage_low_watermark d of None \<Rightarrow> False | Some w \<Rightarrow> token_usage x < w) in
      \<lparr>prefillable = of_bool (local_prefillable x), token_watermark_force_allow = of_bool force,
       running_batch = in_running_batch x, max_prefill_bs = in_max_prefill_bs x, waiting_queue_len = in_waiting_queue_len x\<rparr>)"

text \<open>\<open>t.max().item()\<close> and \<open>t.min().item()\<close>; the group has at least one rank.\<close>

definition max_over :: "('a \<Rightarrow> int) \<Rightarrow> 'a list \<Rightarrow> int" where
  "max_over f xs = fold (\<lambda>x m. max (f x) m) xs (f (hd xs))"

definition min_over :: "('a \<Rightarrow> int) \<Rightarrow> 'a list \<Rightarrow> int" where
  "min_over f xs = fold (\<lambda>x m. min (f x) m) xs (f (hd xs))"

datatype prefill_status = AllRanks | NoRank | Mixed

definition prefillable_status :: "rank_info list \<Rightarrow> prefill_status" where
  "prefillable_status infos =
     (if min_over prefillable infos > 0 then AllRanks
      else if max_over prefillable infos = 0 then NoRank else Mixed)"

definition status_name :: "prefill_status \<Rightarrow> string" where
  "status_name s = (case s of AllRanks \<Rightarrow> ''all'' | NoRank \<Rightarrow> ''none'' | Mixed \<Rightarrow> ''mixed'')"

text \<open>The readings of the clock: for \<open>wait_info\<close>, for the queue condition, for a new \<open>_State\<close>.\<close>

record clock_reads =
  at_wait :: rat
  at_queue :: rat
  at_new :: rat

definition wait_passes :: "delay_state option \<Rightarrow> int" where
  "wait_passes prev_state = (case prev_state of None \<Rightarrow> 0 | Some s \<Rightarrow> delayed_count s)"

definition wait_time :: "clock_reads \<Rightarrow> delay_state option \<Rightarrow> rat" where
  "wait_time clk prev_state = (case prev_state of None \<Rightarrow> 0 | Some s \<Rightarrow> at_wait clk - start_time s)"

text \<open>A release ends the wait and reports it, a delay goes on counting.\<close>

definition release_out :: "clock_reads \<Rightarrow> delay_state option \<Rightarrow> rank_info list \<Rightarrow> string \<Rightarrow> negotiate_output" where
  "release_out clk prev_state infos reason =
     \<lparr>next_state = None, input_estimation = status_name (prefillable_status infos), output_allow = True, output_reason = reason,
      num_prefillable = sum_list (map prefillable infos),
      num_token_watermark_force_allow = sum_list (map token_watermark_force_allow infos),
      wait_forward_passes = wait_passes prev_state, wait_seconds = wait_time clk prev_state\<rparr>"

definition delay_out :: "clock_reads \<Rightarrow> delay_state option \<Rightarrow> rank_info list \<Rightarrow> negotiate_output" where
  "delay_out clk prev_state infos =
     \<lparr>next_state = Some (bump_delayed_count (case prev_state of None \<Rightarrow> \<lparr>delayed_count = 0, start_time = at_new clk\<rparr> | Some s \<Rightarrow> s)),
      input_estimation = status_name (prefillable_status infos), output_allow = False, output_reason = ''delay'',
      num_prefillable = sum_list (map prefillable infos),
      num_token_watermark_force_allow = sum_list (map token_watermark_force_allow infos),
      wait_forward_passes = 0, wait_seconds = 0\<rparr>"

definition delay_or_timeout :: "prefill_delayer \<Rightarrow> clock_reads \<Rightarrow> delay_state option \<Rightarrow> rank_info list \<Rightarrow> negotiate_output" where
  "delay_or_timeout d clk prev_state infos =
     (if wait_passes prev_state < max_delay_passes d - 1 then delay_out clk prev_state infos
      else release_out clk prev_state infos ''wait_timeout'')"

text \<open>\<open>int(x)\<close> truncates towards zero.\<close>

definition trunc_int :: "rat \<Rightarrow> int" where
  "trunc_int x = (if 0 \<le> x then \<lfloor>x\<rfloor> else \<lceil>x\<rceil>)"

definition queue_condition :: "prefill_delayer \<Rightarrow> clock_reads \<Rightarrow> delay_state option \<Rightarrow> rank_info list \<Rightarrow> bool" where
  "queue_condition d clk prev_state infos =
     (case queue_min_ratio d of None \<Rightarrow> False
      | Some ratio \<Rightarrow>
          max_over running_batch infos > 0 \<and>
          (let queue_min_effective = min (trunc_int (of_int (max_over running_batch infos) * ratio)) (max_over max_prefill_bs infos) in
           queue_min_effective > 0 \<and> max_over waiting_queue_len infos < queue_min_effective) \<and>
          (case prev_state of None \<Rightarrow> True
           | Some s \<Rightarrow> (at_queue clk - start_time s) * 1000 < max_delay_ms d))"

text \<open>\<open>(max_running_requests + dp_size - 1) // dp_size\<close> unless the ranks run their own attention.\<close>

definition local_max_running :: "prefill_delayer \<Rightarrow> int \<Rightarrow> int" where
  "local_max_running d m = (if enable_dp_attention d then m else (m + dp_size d - 1) div dp_size d)"

definition slot_condition :: "prefill_delayer \<Rightarrow> int \<Rightarrow> rank_info list \<Rightarrow> bool" where
  "slot_condition d m infos \<longleftrightarrow> local_max_running d m - max_over running_batch infos < max_over max_prefill_bs infos"

text \<open>\<open>_negotiate_should_allow_prefill_pure\<close>: the output and the new value of \<open>skip_first_delayer\<close>.\<close>

definition negotiate_pure ::
    "prefill_delayer \<Rightarrow> clock_reads \<Rightarrow> delay_state option \<Rightarrow> negotiate_input \<Rightarrow> rank_info list \<Rightarrow> negotiate_output \<times> bool" where
  "negotiate_pure d clk prev_state x infos =
     (let force = max_over token_watermark_force_allow infos > 0; skip = skip_first_delayer d in
      case prefillable_status infos of
        AllRanks \<Rightarrow>
          if force then (release_out clk prev_state infos ''token_watermark'', skip)
          else if slot_condition d (max_running_requests x) infos \<or> queue_condition d clk prev_state infos
          then if skip
               then (release_out clk prev_state infos (if prev_state \<noteq> None then ''wait_success'' else ''no_wait''), False)
               else (delay_or_timeout d clk prev_state infos, skip)
          else (release_out clk prev_state infos (if prev_state \<noteq> None then ''wait_success'' else ''no_wait''), skip)
      | NoRank \<Rightarrow> (release_out clk prev_state infos '''', skip)
      | Mixed \<Rightarrow>
          if force then (release_out clk prev_state infos ''token_watermark'', skip)
          else (delay_or_timeout d clk prev_state infos, skip))"

definition negotiate :: "prefill_delayer \<Rightarrow> clock_reads \<Rightarrow> negotiate_input \<Rightarrow> rank_info list \<Rightarrow> negotiate_output \<times> prefill_delayer" where
  "negotiate d clk x infos =
     (let (out, skip) = negotiate_pure d clk (curr_state d) x infos in
      (out, d\<lparr>curr_state := next_state out, skip_first_delayer := skip\<rparr>))"

section \<open>One scheduler pass\<close>

record pass_executor =
  result :: "negotiate_output option"
  pass_token_usage :: rat
  attempted_prefill_bs :: int

definition new_pass :: "rat \<Rightarrow> pass_executor" where
  "new_pass usage = \<lparr>result = None, pass_token_usage = usage, attempted_prefill_bs = 0\<rparr>"

definition estimate_attempted_prefill_bs :: "prefill_delayer \<Rightarrow> int \<Rightarrow> int \<Rightarrow> int \<Rightarrow> int" where
  "estimate_attempted_prefill_bs d running max_running queue_len =
     min (max queue_len 1) (max (local_max_running d max_running - running) 1)"

text \<open>The state of a pass is the executor, the delayer and the messages the rank has sent; \<open>gathered\<close>
  gives the messages of all ranks for the message of this one.\<close>

definition pass_negotiate ::
    "clock_reads \<Rightarrow> (rank_info \<Rightarrow> rank_info list) \<Rightarrow> negotiate_input \<Rightarrow> pass_executor \<times> prefill_delayer \<times> rank_info list \<Rightarrow>
     bool \<times> pass_executor \<times> prefill_delayer \<times> rank_info list" where
  "pass_negotiate clk gathered x s =
     (case s of (e, d, sent) \<Rightarrow>
      let e1 = (if local_prefillable x
                then e\<lparr>attempted_prefill_bs := max (attempted_prefill_bs e)
                        (estimate_attempted_prefill_bs d (in_running_batch x) (max_running_requests x) (in_waiting_queue_len x))\<rparr>
                else e) in
      case result e1 of
        Some out \<Rightarrow> (output_allow out, e1, d, sent)
      | None \<Rightarrow>
          let x' = x\<lparr>token_usage := pass_token_usage e1\<rparr>;
              info = local_info d x';
              (out, d') = negotiate d clk x' (gathered info)
          in (output_allow out, e1\<lparr>result := Some out\<rparr>, d', sent @ [info]))"

definition idle_input :: negotiate_input where
  "idle_input = \<lparr>local_prefillable = False, token_usage = 0, in_running_batch = 0, in_max_prefill_bs = 0,
                 max_running_requests = 0, in_waiting_queue_len = 0\<rparr>"

text \<open>\<open>finalize\<close>: a pass without a candidate still takes part in the collective. Metrics are left out.\<close>

definition finalize ::
    "clock_reads \<Rightarrow> (rank_info \<Rightarrow> rank_info list) \<Rightarrow> int \<Rightarrow> pass_executor \<times> prefill_delayer \<times> rank_info list \<Rightarrow>
     int \<times> pass_executor \<times> prefill_delayer \<times> rank_info list" where
  "finalize clk gathered actual_prefill_bs s =
     (let s' = (if result (fst s) = None then snd (pass_negotiate clk gathered idle_input s) else s) in
      (if actual_prefill_bs \<noteq> 0 then actual_prefill_bs else attempted_prefill_bs (fst s'), s'))"

section \<open>The rank-local delayer\<close>

definition resolve_min_free_slots :: "int option \<Rightarrow> int \<Rightarrow> bool \<Rightarrow> int option" where
  "resolve_min_free_slots user_value max_running_reqs is_dflash_family =
     (let m = max 0 max_running_reqs in
      case user_value of
        Some v \<Rightarrow> let threshold = min v m in if threshold > 1 then Some threshold else None
      | None \<Rightarrow> if is_dflash_family \<and> m \<ge> 8 then Some (min 4 (max 2 ((m + 5) div 6))) else None)"

definition should_delay :: "int \<Rightarrow> int \<Rightarrow> int \<Rightarrow> bool" where
  "should_delay min_free_slots running_bs num_allocatable_reqs \<longleftrightarrow> running_bs > 0 \<and> num_allocatable_reqs < min_free_slots"

end
