(* ===== verification/DelayerProps.thy ===== *)
theory DelayerProps
  imports PrefillDelayer
begin

text \<open>
  The prefill delayer: a held-back prefill is released after a bounded number of passes, and all
  ranks of the group decide alike.
\<close>

section \<open>A rank over several passes\<close>

fun run_rank :: "prefill_delayer \<Rightarrow> (clock_reads \<times> negotiate_input \<times> rank_info list) list \<Rightarrow> negotiate_output list" where
  "run_rank d [] = []"
| "run_rank d ((clk, x, infos) # ps) = (let (out, d') = negotiate d clk x infos in out # run_rank d' ps)"

lemma negotiate_pure_cases:
  "(\<exists>r. fst (negotiate_pure d clk p x infos) = release_out clk p infos r) \<or>
   fst (negotiate_pure d clk p x infos) = delay_out clk p infos \<and> wait_passes p < max_delay_passes d - 1"
  by (cases "prefillable_status infos"; cases "0 < max_over token_watermark_force_allow infos";
      cases "slot_condition d (max_running_requests x) infos \<or> queue_condition d clk p infos";
      cases "skip_first_delayer d"; cases "wait_passes p < max_delay_passes d - 1")
    (simp_all add: negotiate_pure_def Let_def delay_or_timeout_def, blast+)

text \<open>A pass either allows the prefill and ends the wait, or there is a pass left and it is counted.\<close>

lemma negotiate_cases:
  obtains "output_allow (fst (negotiate d clk x infos))" "curr_state (snd (negotiate d clk x infos)) = None"
  | "\<not> output_allow (fst (negotiate d clk x infos))" "wait_passes (curr_state d) < max_delay_passes d - 1"
    "wait_passes (curr_state (snd (negotiate d clk x infos))) = wait_passes (curr_state d) + 1"
    "max_delay_passes (snd (negotiate d clk x infos)) = max_delay_passes d"
proof -
  have out: "fst (negotiate d clk x infos) = fst (negotiate_pure d clk (curr_state d) x infos)"
    "curr_state (snd (negotiate d clk x infos)) = next_state (fst (negotiate_pure d clk (curr_state d) x infos))"
    "max_delay_passes (snd (negotiate d clk x infos)) = max_delay_passes d"
    by (simp_all add: negotiate_def split_def Let_def)
  consider (release) r where "fst (negotiate_pure d clk (curr_state d) x infos) = release_out clk (curr_state d) infos r"
    | (delay) "fst (negotiate_pure d clk (curr_state d) x infos) = delay_out clk (curr_state d) infos"
        "wait_passes (curr_state d) < max_delay_passes d - 1"
    using negotiate_pure_cases by blast
  then show ?thesis
  proof cases
    case release
    then show ?thesis using that(1) by (simp add: out release_out_def)
  next
    case delay
    then show ?thesis using that(2)
      by (simp add: out delay_out_def bump_delayed_count_def wait_passes_def split: option.splits)
  qed
qed

lemma run_rank_allows:
  assumes "nat (max_delay_passes d - 1 - wait_passes (curr_state d)) < length ps"
  shows "\<exists>out\<in>set (take (Suc (nat (max_delay_passes d - 1 - wait_passes (curr_state d)))) (run_rank d ps)). output_allow out"
  using assms
proof (induction ps arbitrary: d)
  case (Cons p ps)
  obtain clk x infos where p: "p = (clk, x, infos)" by (cases p)
  let ?n = "negotiate d clk x infos"
  have run: "run_rank d (p # ps) = fst ?n # run_rank (snd ?n) ps" by (simp add: p split_def Let_def)
  show ?case
  proof (cases rule: negotiate_cases [of d clk x infos])
    case 1
    then show ?thesis by (simp add: run)
  next
    case 2
    let ?k = "nat (max_delay_passes d - 1 - wait_passes (curr_state d))"
    have k: "nat (max_delay_passes (snd ?n) - 1 - wait_passes (curr_state (snd ?n))) = ?k - 1" "0 < ?k"
      using 2(2,3,4) by auto
    then have "\<exists>out\<in>set (take (Suc (?k - 1)) (run_rank (snd ?n) ps)). output_allow out"
      using Cons.IH [of "snd ?n"] Cons.prems by simp
    then show ?thesis using k(2) by (auto simp: run)
  qed
qed simp

section \<open>The group\<close>

text \<open>All ranks negotiate: rank \<open>i\<close> of the group sends its message, and every rank reads the rows of
  the ranks with attention rank 0, \<open>buffer[:, 0, :]\<close>.\<close>

definition gather_info :: "nat \<Rightarrow> prefill_delayer list \<Rightarrow> negotiate_input list \<Rightarrow> rank_info list" where
  "gather_info attn_tp_size ds xs = every attn_tp_size (map2 local_info ds xs)"

definition group_pass ::
    "nat \<Rightarrow> prefill_delayer list \<Rightarrow> negotiate_input list \<times> clock_reads list \<Rightarrow> (negotiate_output \<times> prefill_delayer) list" where
  "group_pass attn_tp_size ds p =
     (case p of (xs, clks) \<Rightarrow>
        map (\<lambda>(d, x, clk). negotiate d clk x (gather_info attn_tp_size ds xs)) (zip ds (zip xs clks)))"

fun run_group ::
    "nat \<Rightarrow> prefill_delayer list \<Rightarrow> (negotiate_input list \<times> clock_reads list) list \<Rightarrow> negotiate_output list list" where
  "run_group attn_tp_size ds [] = []"
| "run_group attn_tp_size ds (p # ps) =
     (let r = group_pass attn_tp_size ds p in map fst r # run_group attn_tp_size (map snd r) ps)"

text \<open>Two ranks are in step when they differ only in the time at which their wait began.\<close>

definition in_step :: "prefill_delayer \<Rightarrow> prefill_delayer \<Rightarrow> bool" where
  "in_step d d' \<longleftrightarrow>
     d\<lparr>curr_state := None\<rparr> = d'\<lparr>curr_state := None\<rparr> \<and>
     map_option delayed_count (curr_state d) = map_option delayed_count (curr_state d')"

lemma in_step_refl: "in_step d d"
  by (simp add: in_step_def)

lemma in_stepD:
  assumes "in_step d d'"
  shows "max_delay_passes d = max_delay_passes d'" "queue_min_ratio d = queue_min_ratio d'" "dp_size d = dp_size d'"
    "enable_dp_attention d = enable_dp_attention d'" "skip_first_delayer d = skip_first_delayer d'"
    "curr_state d = None \<longleftrightarrow> curr_state d' = None" "wait_passes (curr_state d) = wait_passes (curr_state d')"
  using assms by (cases d; cases d'; auto simp: in_step_def wait_passes_def split: option.splits)+

lemma negotiate_frame:
  "snd (negotiate d clk x infos) = d\<lparr>curr_state := next_state (fst (negotiate d clk x infos)),
     skip_first_delayer := snd (negotiate_pure d clk (curr_state d) x infos)\<rparr>"
  by (simp add: negotiate_def split_def Let_def)

definition same_decision :: "negotiate_output \<Rightarrow> negotiate_output \<Rightarrow> bool" where
  "same_decision out out' \<longleftrightarrow> output_allow out = output_allow out' \<and> output_reason out = output_reason out' \<and>
     map_option delayed_count (next_state out) = map_option delayed_count (next_state out')"

lemma delay_or_timeout_same:
  assumes "in_step d d'"
  shows "same_decision (delay_or_timeout d clk (curr_state d) infos) (delay_or_timeout d' clk' (curr_state d') infos)"
proof -
  have "map_option delayed_count (next_state (delay_out c p infos)) = Some (wait_passes p + 1)" for c p
    by (simp add: delay_out_def bump_delayed_count_def wait_passes_def split: option.splits)
  then show ?thesis
    using in_stepD [OF assms] by (simp add: delay_or_timeout_def same_decision_def release_out_def) (simp add: delay_out_def)
qed

lemma release_same: "same_decision (release_out clk p infos r) (release_out clk' p' infos r)"
  by (simp add: same_decision_def release_out_def)

text \<open>\<open>max_running_requests\<close> counts only when all ranks can prefill.\<close>

lemma negotiate_pure_same:
  assumes s: "in_step d d'" and q: "queue_min_ratio d = None"
    and m: "prefillable_status infos = AllRanks \<Longrightarrow> max_running_requests x = max_running_requests x'"
  shows "same_decision (fst (negotiate_pure d clk (curr_state d) x infos)) (fst (negotiate_pure d' clk' (curr_state d') x' infos))"
    "snd (negotiate_pure d clk (curr_state d) x infos) = snd (negotiate_pure d' clk' (curr_state d') x' infos)"
proof -
  note eq = in_stepD [OF s]
  have slot: "slot_condition d (max_running_requests x) infos = slot_condition d' (max_running_requests x') infos"
    if "prefillable_status infos = AllRanks" using eq m [OF that] by (simp add: slot_condition_def local_max_running_def)
  have queue: "\<not> queue_condition d clk (curr_state d) infos" "\<not> queue_condition d' clk' (curr_state d') infos"
    using q eq(2) by (simp_all add: queue_condition_def)
  show "same_decision (fst (negotiate_pure d clk (curr_state d) x infos)) (fst (negotiate_pure d' clk' (curr_state d') x' infos))"
    by (cases "prefillable_status infos"; cases "0 < max_over token_watermark_force_allow infos";
        cases "slot_condition d' (max_running_requests x') infos"; cases "skip_first_delayer d'")
      (simp_all add: negotiate_pure_def Let_def slot queue eq(5,6) release_same delay_or_timeout_same [OF s])
  show "snd (negotiate_pure d clk (curr_state d) x infos) = snd (negotiate_pure d' clk' (curr_state d') x' infos)"
    using eq(5) by (cases "prefillable_status infos") (simp_all add: negotiate_pure_def Let_def slot queue)
qed

lemma negotiate_in_step:
  assumes s: "in_step d d'" and q: "queue_min_ratio d = None"
    and m: "prefillable_status infos = AllRanks \<Longrightarrow> max_running_requests x = max_running_requests x'"
  shows "same_decision (fst (negotiate d clk x infos)) (fst (negotiate d' clk' x' infos))"
    "in_step (snd (negotiate d clk x infos)) (snd (negotiate d' clk' x' infos))"
    "queue_min_ratio (snd (negotiate d clk x infos)) = None"
proof -
  have out: "fst (negotiate d clk x infos) = fst (negotiate_pure d clk (curr_state d) x infos)" for d clk x
    by (simp add: negotiate_def split_def Let_def)
  have same: "same_decision (fst (negotiate_pure d clk (curr_state d) x infos)) (fst (negotiate_pure d' clk' (curr_state d') x' infos))"
    "snd (negotiate_pure d clk (curr_state d) x infos) = snd (negotiate_pure d' clk' (curr_state d') x' infos)"
    by (rule negotiate_pure_same [OF s q], erule m)+
  show 1: "same_decision (fst (negotiate d clk x infos)) (fst (negotiate d' clk' x' infos))" using same(1) by (simp add: out)
  show "in_step (snd (negotiate d clk x infos)) (snd (negotiate d' clk' x' infos))"
    using s 1 same(2) by (cases d; cases d') (simp add: negotiate_frame in_step_def same_decision_def)
  show "queue_min_ratio (snd (negotiate d clk x infos)) = None" using q by (simp add: negotiate_frame)
qed

text \<open>A pass of \<open>n\<close> ranks: those with a candidate pass the same \<open>max_running_requests\<close>, a server
  argument; the others go through \<open>finalize\<close>, which passes 0. The ranks of an attention group run
  the same schedule and agree on having a candidate.\<close>

definition pass_ok :: "nat \<Rightarrow> nat \<Rightarrow> negotiate_input list \<times> clock_reads list \<Rightarrow> bool" where
  "pass_ok attn_tp_size n p \<longleftrightarrow> length (fst p) = n \<and> length (snd p) = n \<and>
     (\<forall>x\<in>set (fst p). \<forall>x'\<in>set (fst p). local_prefillable x \<and> local_prefillable x' \<longrightarrow> max_running_requests x = max_running_requests x') \<and>
     (\<forall>i<n. local_prefillable (fst p ! i) = local_prefillable (fst p ! (i div attn_tp_size * attn_tp_size)))"

lemma min_over_le:
  assumes "x \<in> set xs"
  shows "min_over f xs \<le> f x"
proof -
  have acc: "fold (\<lambda>x m. min (f x) m) ys a \<le> a" for ys a
  proof (induction ys arbitrary: a)
    case (Cons y ys)
    then show ?case using Cons.IH [of "min (f y) a"] by simp
  qed simp
  have "x \<in> set ys \<Longrightarrow> fold (\<lambda>x m. min (f x) m) ys a \<le> f x" for ys a
  proof (induction ys arbitrary: a)
    case (Cons y ys)
    then show ?case using Cons.IH [of "min (f y) a"] acc [of ys "min (f y) a"] by auto
  qed simp
  then show ?thesis using assms by (simp add: min_over_def)
qed

lemma every_mem:
  assumes "0 < k" "j * k < length xs"
  shows "xs ! (j * k) \<in> set (every k xs)"
  using assms
proof (induction j arbitrary: xs)
  case 0
  then show ?case by (simp add: every_step hd_conv_nth)
next
  case (Suc j)
  have "drop k xs ! (j * k) \<in> set (every k (drop k xs))" by (rule Suc.IH) (use Suc.prems in auto)
  moreover have "xs ! (Suc j * k) = drop k xs ! (j * k)" "xs \<noteq> []" using Suc.prems by auto
  ultimately show ?case using every_step [OF Suc.prems(1), of xs] by simp
qed

lemma all_ranks_prefillable:
  assumes tp: "0 < tp" and ok: "pass_ok tp (length ds) (xs, clks)" and all: "prefillable_status (gather_info tp ds xs) = AllRanks"
    and x: "x \<in> set xs"
  shows "local_prefillable x"
proof -
  obtain i where i: "i < length xs" "x = xs ! i" using x by (metis in_set_conv_nth)
  let ?j = "i div tp * tp"
  have len: "length xs = length ds" using ok by (simp add: pass_ok_def)
  have j: "?j < length xs" using i(1) div_times_less_eq_dividend [of i tp] by linarith
  then have "map2 local_info ds xs ! ?j \<in> set (gather_info tp ds xs)"
    unfolding gather_info_def using len by (intro every_mem [OF tp]) simp
  then have "local_info (ds ! ?j) (xs ! ?j) \<in> set (gather_info tp ds xs)" using j len by simp
  then have "0 < prefillable (local_info (ds ! ?j) (xs ! ?j))"
    using all min_over_le [of _ _ prefillable] by (fastforce simp: prefillable_status_def split: if_splits)
  then have "local_prefillable (xs ! ?j)" by (simp add: local_info_def Let_def of_bool_def split: if_splits)
  then show ?thesis using ok i len by (simp add: pass_ok_def)
qed

lemma run_group_agrees:
  assumes "\<forall>d\<in>set ds. \<forall>d'\<in>set ds. in_step d d'" "\<forall>d\<in>set ds. queue_min_ratio d = None"
    "\<forall>p\<in>set ps. pass_ok tp (length ds) p" "0 < tp"
  shows "\<forall>outs\<in>set (run_group tp ds ps). length outs = length ds \<and> (\<forall>out\<in>set outs. \<forall>out'\<in>set outs. same_decision out out')"
  using assms(1-3)
proof (induction ps arbitrary: ds)
  case (Cons p ps)
  obtain xs clks where p: "p = (xs, clks)" by (cases p)
  have ok: "pass_ok tp (length ds) (xs, clks)" using Cons.prems(3) p by simp
  then have lens: "length xs = length ds" "length clks = length ds"
    and mrr: "\<And>x x'. x \<in> set xs \<Longrightarrow> x' \<in> set xs \<Longrightarrow> local_prefillable x \<Longrightarrow> local_prefillable x' \<Longrightarrow>
      max_running_requests x = max_running_requests x'" unfolding pass_ok_def fst_conv snd_conv by blast+
  have m: "max_running_requests x = max_running_requests x'"
    if "x \<in> set xs" "x' \<in> set xs" "prefillable_status (gather_info tp ds xs) = AllRanks" for x x'
    by (intro mrr that(1,2) all_ranks_prefillable [OF assms(4) ok that(3)])
  let ?r = "group_pass tp ds p"
  have len: "length ?r = length ds" using lens by (simp add: group_pass_def p)
  have r: "\<exists>d x clk. d \<in> set ds \<and> x \<in> set xs \<and> y = negotiate d clk x (gather_info tp ds xs)" if "y \<in> set ?r" for y
    using that by (auto simp: group_pass_def p dest: set_zip_leftD set_zip_rightD)
  have both: "same_decision (fst y) (fst y') \<and> in_step (snd y) (snd y') \<and> queue_min_ratio (snd y) = None"
    if yr: "y \<in> set ?r" "y' \<in> set ?r" for y y'
  proof -
    obtain d x clk d' x' clk' where y: "d \<in> set ds" "x \<in> set xs" "y = negotiate d clk x (gather_info tp ds xs)"
      "d' \<in> set ds" "x' \<in> set xs" "y' = negotiate d' clk' x' (gather_info tp ds xs)" using r [OF yr(1)] r [OF yr(2)] by blast
    have "in_step d d'" "queue_min_ratio d = None" using y Cons.prems(1,2) by blast+
    from negotiate_in_step [OF this m [OF y(2,5)]] show ?thesis unfolding y by blast
  qed
  have "\<forall>outs\<in>set (run_group tp (map snd ?r) ps). length outs = length (map snd ?r) \<and>
      (\<forall>out\<in>set outs. \<forall>out'\<in>set outs. same_decision out out')"
    by (rule Cons.IH) (use both len Cons.prems(3) in auto)
  then show ?case using both len by (simp add: Let_def)
qed simp

text \<open>With the queue trigger this fails: two ranks in step that see the same messages decide differently
  when the clock of only one of them has passed \<open>max_delay_ms\<close>.\<close>

definition waiting_rank :: "rat \<Rightarrow> prefill_delayer" where
  "waiting_rank t = (new_delayer 2 10 None (Some (1/2)) (Some 100) True)
     \<lparr>curr_state := Some \<lparr>delayed_count = 1, start_time = t\<rparr>, skip_first_delayer := False\<rparr>"

definition short_queue :: "rank_info list" where
  "short_queue = replicate 2 \<lparr>prefillable = 1, token_watermark_force_allow = 0, running_batch = 10, max_prefill_bs = 8, waiting_queue_len = 2\<rparr>"

lemma queue_trigger_diverges:
  "in_step (waiting_rank 0) (waiting_rank (1/1000)) \<and>
   output_allow (fst (negotiate (waiting_rank 0) \<lparr>at_wait = 0, at_queue = 1/10, at_new = 0\<rparr> (idle_input\<lparr>max_running_requests := 64\<rparr>) short_queue)) \<noteq>
   output_allow (fst (negotiate (waiting_rank (1/1000)) \<lparr>at_wait = 0, at_queue = 1/10, at_new = 0\<rparr> (idle_input\<lparr>max_running_requests := 64\<rparr>) short_queue))"
  by (simp add: in_step_def waiting_rank_def new_delayer_def) code_simp

section \<open>One collective per pass\<close>

text \<open>The adder asks once per candidate; the answers of a pass agree and the rank takes part in exactly
  one collective, also when it had no candidate.\<close>

fun ask_all ::
    "clock_reads \<Rightarrow> (rank_info \<Rightarrow> rank_info list) \<Rightarrow> negotiate_input list \<Rightarrow> pass_executor \<times> prefill_delayer \<times> rank_info list \<Rightarrow>
     bool list \<times> pass_executor \<times> prefill_delayer \<times> rank_info list" where
  "ask_all clk gathered [] s = ([], s)"
| "ask_all clk gathered (x # xs) s =
     (let (allow, s1) = pass_negotiate clk gathered x s; (allows, s2) = ask_all clk gathered xs s1 in (allow # allows, s2))"

lemma pass_negotiate_again:
  assumes "result e = Some out" "pass_negotiate clk gathered x (e, d, sent) = (allow, e', d', sent')"
  shows "allow = output_allow out" "result e' = Some out" "d' = d" "sent' = sent"
  using assms by (auto simp: pass_negotiate_def Let_def split: if_splits)

lemma ask_all_again:
  assumes "result e = Some out" "ask_all clk gathered xs (e, d, sent) = (allows, e', d', sent')"
  shows "set allows \<subseteq> {output_allow out} \<and> result e' = Some out \<and> sent' = sent"
  using assms
proof (induction xs arbitrary: e d sent allows)
  case (Cons x xs)
  obtain a e1 d1 s1 where 1: "pass_negotiate clk gathered x (e, d, sent) = (a, e1, d1, s1)" by (metis prod_cases4)
  note again = pass_negotiate_again [OF Cons.prems(1) 1]
  obtain as where as: "ask_all clk gathered xs (e1, d1, s1) = (as, e', d', sent')" "allows = a # as"
    using Cons.prems(2) by (auto simp: 1 split: prod.splits)
  show ?case using Cons.IH [OF again(2) as(1)] as(2) again by auto
qed auto

lemma pass_sends_once:
  assumes "ask_all clk gathered xs (new_pass usage, d, sent) = (allows, s)" "finalize clk gathered actual s = (bs, e', d', sent')"
  shows "length sent' = Suc (length sent) \<and> (\<forall>a\<in>set allows. \<forall>b\<in>set allows. a = b)"
proof (cases xs)
  case Nil
  then show ?thesis using assms by (auto simp: finalize_def new_pass_def pass_negotiate_def idle_input_def Let_def split: prod.splits)
next
  case (Cons x xs')
  obtain a e1 d1 s1 where 1: "pass_negotiate clk gathered x (new_pass usage, d, sent) = (a, e1, d1, s1)" by (metis prod_cases4)
  then obtain out where out: "result e1 = Some out" "a = output_allow out" "length s1 = Suc (length sent)"
    by (auto simp: pass_negotiate_def new_pass_def Let_def split: prod.splits if_splits)
  obtain as e2 d2 s2 where as: "ask_all clk gathered xs' (e1, d1, s1) = (as, e2, d2, s2)" "allows = a # as" "s = (e2, d2, s2)"
    using assms(1) by (cases s) (auto simp: Cons 1 split: prod.splits)
  show ?thesis using ask_all_again [OF out(1) as(1)] assms(2) out as by (auto simp: finalize_def Let_def)
qed

section \<open>Properties\<close>

text \<open>C36: a prefill is held back for fewer than \<open>max_delay_passes\<close> consecutive passes: whatever the
  ranks report and the clocks show, among any \<open>max 1 max_delay_passes\<close> passes there is one that
  allows it.\<close>

theorem prefill_released_in_time:
  assumes "0 \<le> wait_passes (curr_state d)" "nat (max 1 (max_delay_passes d)) \<le> length passes"
  shows "\<exists>out\<in>set (take (nat (max 1 (max_delay_passes d))) (run_rank d passes)). output_allow out"
proof -
  let ?k = "nat (max_delay_passes d - 1 - wait_passes (curr_state d))"
  have k: "Suc ?k \<le> nat (max 1 (max_delay_passes d))" using assms(1) by linarith
  then have "\<exists>out\<in>set (take (Suc ?k) (run_rank d passes)). output_allow out"
    using assms(2) by (intro run_rank_allows) simp
  then show ?thesis using set_take_subset_set_take [OF k, of "run_rank d passes"] by blast
qed

definition busy_input :: negotiate_input where
  "busy_input = \<lparr>local_prefillable = True, token_usage = 9/10, in_running_batch = 60, in_max_prefill_bs = 16,
                 max_running_requests = 64, in_waiting_queue_len = 3\<rparr>"

definition busy_infos :: "rank_info list" where
  "busy_infos = [\<lparr>prefillable = 1, token_watermark_force_allow = 0, running_batch = 60, max_prefill_bs = 16, waiting_queue_len = 3\<rparr>,
                 \<lparr>prefillable = 0, token_watermark_force_allow = 0, running_batch = 64, max_prefill_bs = 16, waiting_queue_len = 0\<rparr>]"

definition zero_clock :: clock_reads where
  "zero_clock = \<lparr>at_wait = 0, at_queue = 0, at_new = 0\<rparr>"

theorem prefill_released_in_time_witness:
  "\<exists>out\<in>set (take 3 (run_rank (new_delayer 2 3 None None None True) (replicate 3 (zero_clock, busy_input, busy_infos)))).
     output_allow out"
  using prefill_released_in_time [of "new_delayer 2 3 None None None True" "replicate 3 (zero_clock, busy_input, busy_infos)"]
  by (simp add: new_delayer_def wait_passes_def)

text \<open>C37: ranks that start together with the same settings, without the queue trigger, take the same
  decision for the same reason in every pass, whatever their own load and clocks and whichever of
  them have a candidate. The ranks with a candidate pass the same \<open>max_running_requests\<close>, and the
  ranks of an attention group agree on having one; what the others pass is not used.\<close>

theorem ranks_decide_alike:
  assumes "0 < attn_tp_size" "\<forall>p\<in>set passes. pass_ok attn_tp_size n p"
  shows "\<forall>outs\<in>set (run_group attn_tp_size (replicate n (new_delayer dp max_passes watermark None delay_ms dp_attention)) passes).
     length outs = n \<and> (\<forall>out\<in>set outs. \<forall>out'\<in>set outs. same_decision out out')"
  using run_group_agrees [of "replicate n (new_delayer dp max_passes watermark None delay_ms dp_attention)" passes attn_tp_size] assms
  by (simp add: in_step_refl new_delayer_def)

text \<open>Two attention groups of two ranks: passes in which only one has a candidate, then one with all
  ranks ready.\<close>

definition mixed_passes :: "(negotiate_input list \<times> clock_reads list) list" where
  "mixed_passes = replicate 4 ([busy_input, busy_input, idle_input, idle_input], [zero_clock, zero_clock, zero_clock\<lparr>at_new := 7\<rparr>, zero_clock]) @
     [(replicate 4 busy_input, replicate 4 zero_clock)]"

lemma mixed_passes_ok: "\<forall>p\<in>set mixed_passes. pass_ok 2 4 p"
  by code_simp

theorem ranks_decide_alike_witness:
  "map (map output_allow) (run_group 2 (replicate 4 (new_delayer 2 3 None None None True)) mixed_passes) =
     [replicate 4 False, replicate 4 False, replicate 4 True, replicate 4 False, replicate 4 True] \<and>
   list_all (\<lambda>outs. length outs = 4 \<and> list_all (\<lambda>out. list_all (same_decision out) outs) outs)
     (run_group 2 (replicate 4 (new_delayer 2 3 None None None True)) mixed_passes)"
proof -
  have "list_all (\<lambda>outs. length outs = 4 \<and> list_all (\<lambda>out. list_all (same_decision out) outs) outs)
     (run_group 2 (replicate 4 (new_delayer 2 3 None None None True)) mixed_passes)"
    unfolding list_all_iff by (rule ranks_decide_alike [OF _ mixed_passes_ok]) simp
  then show ?thesis by (intro conjI) (code_simp, assumption)
qed

end
