(* ===== verification/MemCommon.thy ===== *)
theory MemCommon
  imports RadixEvict StreamingProofs
begin

text \<open>
  \<open>python/sglang/srt/mem_cache/common.py\<close>: what the scheduler does with the KV slots of a request
  when it runs out of memory, when a window slides on and when a request ends. The tree cache is
  the radix cache with one of the two standard allocators; for it \<open>supports_mamba()\<close> is false and
  \<open>req_to_token_pool\<close> is a plain \<open>ReqToTokenPool\<close>. The retraction backups copy tensors and are left
  out.
\<close>

definition kv_to_page_indices :: "nat list \<Rightarrow> nat \<Rightarrow> nat list" where
  "kv_to_page_indices kv_indices ps = map (\<lambda>i. i div ps) (every ps kv_indices)"

definition kv_to_page_num :: "nat \<Rightarrow> nat \<Rightarrow> nat" where
  "kv_to_page_num num_kv_indices ps = (num_kv_indices + ps - 1) div ps"

definition page_align_floor :: "nat \<Rightarrow> nat \<Rightarrow> nat" where
  "page_align_floor len ps = (len div ps) * ps"

section \<open>Requests and their KV\<close>

text \<open>The fields of a request that matter here beside those of \<open>req\<close>.\<close>

record kv_holder =
  base_req :: req
  req_kv :: "kv_info option"
  reasoning_tokens :: nat
  skip_radix_cache_insert :: bool
  swa_evict_floor :: int

text \<open>\<open>get_serving().strip_thinking_cache\<close> and whether \<open>get_spec().speculative_algorithm\<close> is set.\<close>

record serving =
  strip_thinking_cache :: bool
  speculative :: bool

definition effective_kv_committed_len :: "serving \<Rightarrow> kv_holder \<Rightarrow> nat" where
  "effective_kv_committed_len sv h =
     (let r = base_req h in
      if strip_thinking_cache sv \<and> reasoning_tokens h > 0
      then min (kv_committed_len r) (length (origin_input_ids r))
      else kv_committed_len r)"

section \<open>Sliding windows\<close>

text \<open>The frontier up to which slots outside the window can be given back. \<open>evict_floor\<close> is rounded up
  to a page, the new frontier down.\<close>

definition swa_evict_floor_of :: "nat \<Rightarrow> kv_holder \<Rightarrow> int" where
  "swa_evict_floor_of ps h =
     (let prot = int (cache_protected_len (base_req h)); fl = max prot (swa_evict_floor h) in
      if ps > 1 \<and> fl > prot then - ((- fl) div int ps) * int ps else fl)"

definition swa_frontier :: "nat \<Rightarrow> bool \<Rightarrow> int option \<Rightarrow> nat \<Rightarrow> int \<Rightarrow> int \<Rightarrow> int" where
  "swa_frontier ps is_chunk_cache retain_floor window pre_len ev_len =
     (let t0 = (if is_chunk_cache then pre_len - int window else pre_len - max (int window) (int ps));
          t = (case retain_floor of Some fl \<Rightarrow> if is_chunk_cache then t0 else min t0 fl | None \<Rightarrow> t0);
          new = max ev_len t
      in if ps > 1 then (new div int ps) * int ps else new)"

text \<open>\<open>free_swa\<close> is the operation of the sliding-window allocator.\<close>

definition free_swa_out_of_window_slots ::
    "(nat list \<Rightarrow> 'a \<Rightarrow> 'a) \<Rightarrow> nat \<Rightarrow> nat \<Rightarrow> bool \<Rightarrow> int option \<Rightarrow> int \<Rightarrow> req_pool \<Rightarrow> kv_holder \<Rightarrow> 'a \<Rightarrow> (kv_holder \<times> 'a) res" where
  "free_swa_out_of_window_slots free_swa window ps is_chunk_cache retain_floor pre_len rp h al =
     (case req_kv h of
        None \<Rightarrow> Inr (h, al)
      | Some k \<Rightarrow>
          if cache_protected_len (base_req h) mod ps \<noteq> 0 then Inl AssertionError
          else
            let evicted = max (int (swa_evicted_seqlen k)) (swa_evict_floor_of ps h);
                new = swa_frontier ps is_chunk_cache retain_floor window pre_len evicted
            in if new > evicted
               then with_row (base_req h) (\<lambda>row. map_res (\<lambda>slots.
                      (h\<lparr>req_kv := Some (k\<lparr>swa_evicted_seqlen := nat new\<rparr>)\<rparr>, free_swa slots al))
                      (row_slice rp row (nat evicted) (nat new)))
               else Inr (h\<lparr>req_kv := Some (k\<lparr>swa_evicted_seqlen := nat evicted\<rparr>)\<rparr>, al))"

section \<open>Caching, evicting and releasing\<close>

definition maybe_cache_unfinished_req ::
    "clock \<Rightarrow> int \<Rightarrow> int \<Rightarrow> bool \<Rightarrow> kv_holder \<Rightarrow> mem_state \<Rightarrow> (mem_state \<times> kv_holder) res" where
  "maybe_cache_unfinished_req clk now1 now2 chunked h m =
     (if skip_radix_cache_insert h then Inr (m, h)
      else map_res (\<lambda>(m', r). (m', h\<lparr>base_req := r\<rparr>)) (cache_unfinished_req clk now1 now2 chunked (base_req h) m))"

definition evict_from_tree_cache :: "nat \<Rightarrow> mem_state \<Rightarrow> mem_state res" where
  "evict_from_tree_cache num_tokens m =
     (let available = available_size (kv m) in
      if available < num_tokens
      then map_res (\<lambda>(c, al, _). m\<lparr>cache := c, kv := al\<rparr>) (rc_evict (int num_tokens - int available) (cache m) (kv m))
      else Inr m)"

definition release_overallocated_kv_indices ::
    "serving \<Rightarrow> req \<Rightarrow> nat \<Rightarrow> nat \<Rightarrow> mem_state \<Rightarrow> mem_state res" where
  "release_overallocated_kv_indices sv r start_p end_p m =
     (let ps = al_page_size (kv m) in
      if \<not> speculative sv \<and> \<not> strip_thinking_cache sv \<and> start_p \<noteq> end_p then Inl AssertionError
      else
        let start = (if ps > 1 then ceil_align start_p ps else start_p) in
        if start < end_p
        then with_row r (\<lambda>row. bind_res (row_slice (pool m) row start end_p) (\<lambda>idx.
               map_res (\<lambda>al. m\<lparr>kv := al\<rparr>) (al_free_segment idx start (kv m))))
        else Inr m)"

definition release_kv_cache ::
    "serving \<Rightarrow> clock \<Rightarrow> int \<Rightarrow> bool \<Rightarrow> kv_holder \<Rightarrow> mem_state \<Rightarrow> (mem_state \<times> kv_holder) res" where
  "release_kv_cache sv clk now is_insert h m =
     (let r = base_req h in
      if (req_pool_idx r = None) \<noteq> (req_kv h = None) then Inl AssertionError
      else case req_kv h of
        None \<Rightarrow> Inl AssertionError
      | Some k \<Rightarrow>
          let n = effective_kv_committed_len sv h in
          bind_res (cache_finished_req clk now (is_insert \<and> \<not> skip_radix_cache_insert h) n r m) (\<lambda>m1.
          bind_res (release_overallocated_kv_indices sv r n (kv_allocated_len k) m1) (\<lambda>m2.
          bind_res (rp_free r (pool m2)) (\<lambda>(pool', r').
          Inr (m2\<lparr>pool := pool'\<rparr>, h\<lparr>base_req := r', req_kv := None\<rparr>)))))"

end
