(* ===== verification/MemAlloc.thy ===== *)
theory MemAlloc
  imports MemCommon
begin

text \<open>
  \<open>python/sglang/srt/mem_cache/allocation.py\<close>: how a batch gets rows and KV slots before a forward
  pass. The cache is evicted as far as needed, the allocator hands out slots, and the rows of the
  requests are written; when memory does not suffice the functions raise \<open>RuntimeError\<close>.

  The tree cache is the radix cache with one of the two standard allocators, so
  \<open>maybe_evict_swa\<close> does nothing, \<open>_alloc_page_size\<close> is the page size of the cache and the branches for
  Mamba states, DeepSeek-V4 bundles and diffusion models are not taken. Rows are written by the
  loop of \<open>write_cache_indices\<close>. \<open>garbage\<close> and \<open>pids\<close> are the content of an uninitialised tensor and
  the order of the programs of a launch, as for \<open>alloc_extend\<close>.
\<close>

section \<open>Slots\<close>

definition or_out_of_memory :: "mem_state \<Rightarrow> kv_alloc \<times> nat list option \<Rightarrow> (mem_state \<times> nat list) res" where
  "or_out_of_memory m r = (case r of (al, None) \<Rightarrow> Inl RuntimeError | (al, Some out) \<Rightarrow> Inr (m\<lparr>kv := al\<rparr>, out))"

definition alloc_token_slots :: "nat \<Rightarrow> mem_state \<Rightarrow> (mem_state \<times> nat list) res" where
  "alloc_token_slots num_tokens m =
     bind_res (evict_from_tree_cache num_tokens m) (\<lambda>m1.
     bind_res (al_alloc num_tokens (kv m1)) (or_out_of_memory m1))"

definition alloc_paged_token_slots_extend ::
    "(nat \<Rightarrow> nat) \<Rightarrow> nat list \<Rightarrow> (nat \<times> nat) list \<Rightarrow> int list \<Rightarrow> nat \<Rightarrow> mem_state \<Rightarrow> (mem_state \<times> nat list) res" where
  "alloc_paged_token_slots_extend garbage pids lens last_loc extend_num_tokens m =
     (let num_tokens = extend_num_tokens + length lens * al_page_size (kv m) in
      bind_res (evict_from_tree_cache num_tokens m) (\<lambda>m1.
      bind_res (alloc_extend garbage pids lens last_loc extend_num_tokens None (kv m1)) (or_out_of_memory m1)))"

definition alloc_paged_token_slots_decode ::
    "(nat \<Rightarrow> nat) \<Rightarrow> nat list \<Rightarrow> nat list \<Rightarrow> int list \<Rightarrow> mem_state \<Rightarrow> (mem_state \<times> nat list) res" where
  "alloc_paged_token_slots_decode garbage pids seq_lens last_loc m =
     (let num_tokens = length seq_lens * al_page_size (kv m) in
      bind_res (evict_from_tree_cache num_tokens m) (\<lambda>m1.
      bind_res (alloc_decode garbage pids seq_lens last_loc (kv m1)) (or_out_of_memory m1)))"

section \<open>Rows\<close>

definition alloc_req_slots :: "req list \<Rightarrow> req_pool \<Rightarrow> (req_pool \<times> req list \<times> nat list) res" where
  "alloc_req_slots reqs rp =
     bind_res (rp_alloc reqs rp) (\<lambda>(rp', reqs', idx).
     case idx of None \<Rightarrow> Inl RuntimeError | Some xs \<Rightarrow> Inr (rp', reqs', xs))"

text \<open>Entry \<open>i\<close> of a row, with Python's negative indices.\<close>

definition row_entry :: "req_pool \<Rightarrow> nat \<Rightarrow> int \<Rightarrow> nat res" where
  "row_entry rp row i =
     (if row < length (req_to_token rp) then
        (let r = req_to_token rp ! row; n = int (length r) in
         if 0 \<le> i \<and> i < n then Inr (r ! nat i)
         else if - n \<le> i \<and> i < 0 then Inr (r ! nat (n + i))
         else Inl IndexError)
      else Inl IndexError)"

text \<open>\<open>req_to_token[rows, lens - 1]\<close>\<close>

fun last_entries :: "req_pool \<Rightarrow> (nat \<times> nat) list \<Rightarrow> nat list res" where
  "last_entries rp [] = Inr []"
| "last_entries rp ((row, n) # ixs) =
     bind_res (row_entry rp row (int n - 1)) (\<lambda>v. map_res ((#) v) (last_entries rp ixs))"

text \<open>\<open>get_last_loc_torch\<close>\<close>

definition get_last_loc :: "req_pool \<Rightarrow> (nat \<times> nat) list \<Rightarrow> int list res" where
  "get_last_loc rp ixs =
     map_res (map2 (\<lambda>(row, n) v. if n > 0 then int v else - 1) ixs) (last_entries rp ixs)"

text \<open>The loop of \<open>write_cache_indices\<close> over row, prefix and lengths of the requests; the slots not yet
  written are \<open>out_cache_loc[pt:]\<close>.\<close>

fun write_cache_indices :: "nat list \<Rightarrow> (nat \<times> nat list \<times> nat \<times> nat) list \<Rightarrow> req_pool \<Rightarrow> req_pool res" where
  "write_cache_indices out [] rp = Inr rp"
| "write_cache_indices out ((row, locs, pre, sq) # ws) rp =
     bind_res (rp_write row 0 pre locs rp) (\<lambda>rp1.
     bind_res (rp_write row pre sq (take (sq - pre) out) rp1) (\<lambda>rp2.
     write_cache_indices (drop (sq - pre) out) ws rp2))"

text \<open>\<open>write((req_pool_indices, locs), out_cache_loc)\<close>: one entry per request.\<close>

fun write_entries :: "(nat \<times> nat) list \<Rightarrow> nat list \<Rightarrow> req_pool \<Rightarrow> req_pool res" where
  "write_entries [] [] rp = Inr rp"
| "write_entries ((row, i) # ixs) (v # vs) rp =
     (if row < length (req_to_token rp) \<and> i < length (req_to_token rp ! row)
      then write_entries ixs vs (rp\<lparr>req_to_token := (req_to_token rp)[row := (req_to_token rp ! row)[i := v]]\<rparr>)
      else Inl IndexError)"
| "write_entries _ _ rp = Inl RuntimeError"

definition set_allocated_len :: "nat \<Rightarrow> kv_info option \<Rightarrow> kv_info" where
  "set_allocated_len seq_len k =
     (case k of None \<Rightarrow> \<lparr>kv_allocated_len = seq_len, swa_evicted_seqlen = 0\<rparr>
      | Some k \<Rightarrow> k\<lparr>kv_allocated_len := seq_len\<rparr>)"

section \<open>Batches\<close>

text \<open>The lengths that \<open>prepare_for_extend\<close> computes: \<open>seq_lens\<close> are the ends of the extend ranges,
  \<open>extend_num_tokens\<close> counts the tokens behind the prefixes. The extend ranges begin where the
  prefixes end, which \<open>prepare_for_extend\<close> asserts.\<close>

definition extend_lens_of :: "req \<Rightarrow> nat \<times> nat" where
  "extend_lens_of r = (length (prefix_indices r), nat (extend_end r))"

definition num_extend_tokens :: "req list \<Rightarrow> nat" where
  "num_extend_tokens rs = (\<Sum>r\<leftarrow>rs. length (drop (length (prefix_indices r)) (get_fill_ids r)))"

definition prefix_last_loc :: "req \<Rightarrow> int" where
  "prefix_last_loc r = (if prefix_indices r = [] then - 1 else int (last (prefix_indices r)))"

definition alloc_for_extend ::
    "(nat \<Rightarrow> nat) \<Rightarrow> nat list \<Rightarrow> kv_holder list \<Rightarrow> mem_state \<Rightarrow> (mem_state \<times> kv_holder list \<times> nat list) res" where
  "alloc_for_extend garbage pids hs m =
     (let rs = map base_req hs; lens = map extend_lens_of rs; extend_num_tokens = num_extend_tokens rs in
      bind_res (alloc_req_slots rs (pool m)) (\<lambda>(rp, rs', rows).
      bind_res (if page_size (cache m) = 1 then alloc_token_slots extend_num_tokens (m\<lparr>pool := rp\<rparr>)
                else alloc_paged_token_slots_extend garbage pids lens (map prefix_last_loc rs) extend_num_tokens (m\<lparr>pool := rp\<rparr>))
        (\<lambda>(m1, out).
      bind_res (write_cache_indices out (map2 (\<lambda>row r. (row, prefix_indices r, extend_lens_of r)) rows rs) (pool m1)) (\<lambda>rp'.
      Inr (m1\<lparr>pool := rp'\<rparr>,
           map2 (\<lambda>h r. h\<lparr>base_req := r, req_kv := Some (set_allocated_len (nat (extend_end r)) (req_kv h))\<rparr>) hs rs',
           out)))))"

text \<open>\<open>alloc_for_decode\<close> with the rows, the lengths and, for an encoder-decoder model, the encoder
  lengths of the batch. \<open>req.kv\<close> is set for every request that decodes.\<close>

definition alloc_for_decode ::
    "(nat \<Rightarrow> nat) \<Rightarrow> nat list \<Rightarrow> nat \<Rightarrow> nat list option \<Rightarrow> (kv_holder \<times> nat \<times> nat) list \<Rightarrow> mem_state \<Rightarrow>
     (mem_state \<times> kv_holder list \<times> nat list) res" where
  "alloc_for_decode garbage pids token_per_req encoder_lens batch m =
     (let rows = map (fst \<circ> snd) batch; seq_lens = map (snd \<circ> snd) batch in
      bind_res
       (if page_size (cache m) = 1 then alloc_token_slots (length batch * token_per_req) m
        else
          bind_res (last_entries (pool m) (zip rows seq_lens)) (\<lambda>last_loc.
          alloc_paged_token_slots_decode garbage pids (map (\<lambda>n. n + token_per_req) seq_lens) (map int last_loc) m))
       (\<lambda>(m1, out).
      bind_res (write_entries (zip rows (case encoder_lens of None \<Rightarrow> seq_lens | Some el \<Rightarrow> map2 (+) el seq_lens)) out (pool m1)) (\<lambda>rp.
      if list_ex (\<lambda>(h, _). req_kv h = None) batch then Inl AttributeError
      else Inr (m1\<lparr>pool := rp\<rparr>,
         map (\<lambda>(h, _). h\<lparr>req_kv := map_option (\<lambda>k. k\<lparr>kv_allocated_len := kv_allocated_len k + token_per_req\<rparr>) (req_kv h)\<rparr>) batch,
         out))))"

end
