(* ===== verification/MemProofs.thy ===== *)
theory MemProofs
  imports MemCommon
begin

text \<open>
  Where the KV slots of a request go. \<open>holds_kv\<close> is the state of a request between two scheduler
  steps: its row is laid out in pages, the protected part is cached in the tree under the tokens
  of the request, and the rest of the pages belongs to the request alone. Caching a finished or
  an unfinished request moves pages between request, tree and pool and loses none.
\<close>

section \<open>Keys of requests\<close>

lemma req_radix_key_fits: "key_fits c (req_radix_key c r toks)"
proof -
  have "salt_ok (mk_radix_key toks (req_extra_key r) (is_eagle c) None (req_cache_salt r))"
    by (simp add: salt_ok_def mk_radix_key_def)
  then show ?thesis by (simp add: key_fits_def req_radix_key_def mk_radix_key_def)
qed

lemma req_radix_key_len:
  assumes "0 < page_size c"
  shows "page_size c dvd rk_len (req_radix_key c r toks)" "rk_len (req_radix_key c r toks) \<le> length toks"
    "rk_len (eff_key c (req_radix_key c r toks)) = rk_len (req_radix_key c r toks)"
    "rk_iter (eff_key c (req_radix_key c r toks)) = rk_iter (req_radix_key c r toks)"
proof -
  let ?k = "mk_radix_key toks (req_extra_key r) (is_eagle c) None (req_cache_salt r)"
  have len: "rk_len ?k \<le> length toks" by (auto simp: rk_len_def mk_radix_key_def raw_len_def Let_def)
  have big: "is_bigram (req_radix_key c r toks) = is_eagle c" by (simp add: req_radix_key_def mk_radix_key_def)
  have key: "rk_len (req_radix_key c r toks) = page_floor (page_size c) (rk_len ?k)"
    using assms by (simp add: req_radix_key_def)
  have eff: "eff_key c (req_radix_key c r toks) = page_aligned (req_radix_key c r toks) (page_size c)"
    by (simp add: eff_key_def maybe_to_bigram_view_def big)
  show dvd: "page_size c dvd rk_len (req_radix_key c r toks)" by (simp add: key)
  show "rk_len (req_radix_key c r toks) \<le> length toks" using len order_trans [OF page_floor_le] by (simp add: key)
  show "rk_len (eff_key c (req_radix_key c r toks)) = rk_len (req_radix_key c r toks)"
    using dvd assms by (simp add: eff page_floor_dvd)
  show "rk_iter (eff_key c (req_radix_key c r toks)) = rk_iter (req_radix_key c r toks)"
    using dvd assms by (simp add: eff rk_iter_page_aligned page_floor_dvd)
qed

section \<open>The slots of a cached sequence\<close>

lemma distinct_count_le:
  assumes "\<And>x. count (mset xs) x \<le> 1"
  shows "distinct xs"
proof -
  have "count (mset xs) a = (if a \<in> set xs then 1 else 0)" for a
  proof (cases "a \<in> set xs")
    case True
    then have "0 < count (mset xs) a" by simp
    then show ?thesis using assms [of a] True by (metis One_nat_def Suc_leI le_antisym)
  qed (simp add: count_eq_zero_iff)
  then show ?thesis by (simp add: distinct_count_atmost_1)
qed

lemma cached_slots:
  assumes "wf_tree p bg ro t" "cached p t ns qs"
  shows "mset (map snd qs) \<subseteq># (\<Sum>e\<in>#mset (kids t). tslots (snd e)) \<and> (runs p t \<longrightarrow> page_run p (map snd qs))"
  using assms
proof (induction t arbitrary: ro qs)
  case (Node i cs)
  show ?case
  proof (cases "qs = []")
    case True
    have "expand_pages p [] = []" by (simp add: expand_pages_def)
    then show ?thesis using True by (auto simp: page_run_def intro!: exI [of _ "[]"])
  next
    case False
    then obtain k c where e: "(k, c) \<in> set cs" "kid_cached p c ns qs"
      using Node.prems(2) by (auto simp: cached_iff)
    have wf: "entry_ok p bg k c" "wf_tree p bg (Some (rk_ns (tkey c))) c" using Node.prems(1) e(1) by auto
    obtain v where v: "tval c = Some v" "map snd (edge c) = v" using wf(1) map_snd_edge by (auto simp: entry_ok_def split: option.splits)
    have "tslots c \<in># image_mset (\<lambda>e. tslots (snd e)) (mset cs)" using e(1) by (force simp: image_iff)
    then have le: "tslots c \<subseteq># (\<Sum>e\<in>#mset cs. tslots (snd e))" by (metis mset_subset_eq_add_left sum_mset.remove)
    have c: "tslots c = mset v + (\<Sum>e\<in>#mset (kids c). tslots (snd e))" by (subst tslots_unfold) (simp add: v(1))
    have run: "runs p c \<and> page_run p v" if "runs p (Node i cs)"
    proof -
      have "runs p c" using that e(1) by (auto simp: runs.simps)
      then show ?thesis using v(1) by (simp add: runs_unfold [of p c])
    qed
    have "mset (map snd qs) \<subseteq># tslots c \<and> (runs p (Node i cs) \<longrightarrow> page_run p (map snd qs))"
    proof (cases "length qs \<le> length (edge c)")
      case True
      then have q: "p dvd length qs" "qs = take (length qs) (edge c)" using e(2) by (auto simp: kid_cached_def)
      have "map snd qs = take (length qs) v" by (subst q(2)) (simp add: take_map v(2) [symmetric])
      moreover have "mset (take (length qs) v) \<subseteq># mset v" by (metis append_take_drop_id mset_append mset_subset_eq_add_left)
      ultimately show ?thesis using run page_run_take_drop [OF _ q(1)] subset_mset.order_trans [of _ "mset v"] by (auto simp: c)
    next
      case False
      let ?rest = "drop (length (edge c)) qs"
      have q: "take (length (edge c)) qs = edge c" "cached p c ns ?rest" using e(2) False by (auto simp: kid_cached_def)
      have "qs = edge c @ ?rest" by (metis append_take_drop_id q(1))
      then have qs: "map snd qs = v @ map snd ?rest" by (metis map_append v(2))
      have c_in: "c \<in> Basic_BNFs.snds (k, c)" by simp
      have IH: "mset (map snd ?rest) \<subseteq># (\<Sum>e\<in>#mset (kids c). tslots (snd e))" "runs p c \<longrightarrow> page_run p (map snd ?rest)"
        using Node.IH [OF e(1) c_in wf(2) q(2)] by blast+
      have "page_run p (v @ w)" if "page_run p v" "page_run p w" for w
        using that by (auto simp: page_run_def) (metis expand_pages_append)
      then show ?thesis unfolding qs using IH run by (auto simp: c)
    qed
    then show ?thesis using le by (auto intro: subset_mset.order_trans)
  qed
qed

lemma mem_ok_cached_slots:
  assumes ok: "mem_ok H c al" and q: "content c ns qs"
  obtains pgs where "map snd qs = expand_pages (page_size c) pgs" "distinct pgs"
    "page_slots (page_size c) (set pgs) \<subseteq> set_mset (tslots (root_node c))"
proof -
  have c: "0 < page_size c" "wf_tree (page_size c) (is_eagle c) None (root_node c)" "runs (page_size c) (root_node c)"
    "\<And>x. count (tslots (root_node c)) x \<le> 1"
    using ok by (simp_all add: mem_ok_def cache_ok_def)
  have s: "mset (map snd qs) \<subseteq># tslots (root_node c)" "page_run (page_size c) (map snd qs)"
    using cached_slots [OF c(2) q] c(3) by (auto simp: tslots_unfold [of "root_node c"] intro: subset_mset.order_trans)
  obtain pgs where pgs: "map snd qs = expand_pages (page_size c) pgs" using s(2) by (auto simp: page_run_def)
  have "count (mset (map snd qs)) x \<le> 1" for x using mset_subset_eq_count [OF s(1), of x] c(4) [of x] by linarith
  then have "distinct (map snd qs)" by (rule distinct_count_le)
  then have "distinct pgs" using pgs distinct_expand_iff [OF c(1)] by simp
  moreover have "page_slots (page_size c) (set pgs) \<subseteq> set_mset (tslots (root_node c))"
    using set_mset_mono [OF s(1)] set_expand_pages [OF c(1), of pgs] pgs by simp
  ultimately show ?thesis using that pgs by blast
qed

section \<open>Rows of pages\<close>

lemma laid_slice:
  assumes p: "0 < p" and l: "laid p pages row n" and ab: "p dvd a" "p dvd b" "b \<le> n"
  shows "slice a b row = expand_pages p (slice (a div p) (b div p) pages)"
proof -
  have "take b row = take b (expand_pages p pages)"
    using l ab(3) by (metis laid_def min.absorb1 take_take)
  then have "slice a b row = drop a (take b (expand_pages p pages))" unfolding slice_def by (metis drop_take)
  also have "\<dots> = drop (a div p * p) (take (b div p * p) (expand_pages p pages))" using ab by simp
  also have "\<dots> = expand_pages p (drop (a div p) (take (b div p) pages))" by (simp only: expand_pages_take_drop)
  finally show ?thesis by (simp add: slice_def drop_take)
qed

lemma set_drop_slice: "set (drop a xs) = set (slice a (length xs) xs)"
  by simp

abbreviation pages_in :: "nat \<Rightarrow> nat list \<Rightarrow> nat \<Rightarrow> nat \<Rightarrow> nat set" where
  "pages_in p pages a b \<equiv> page_slots p (set (slice a b pages))"

lemma pages_in_split: "a \<le> b \<Longrightarrow> b \<le> d \<Longrightarrow> pages_in p pages a d = pages_in p pages a b \<union> pages_in p pages b d"
  using slice_set_split [of a b d pages] by (simp add: page_slots_Un)

lemma pages_in_disjoint: "0 < p \<Longrightarrow> distinct pages \<Longrightarrow> b \<le> d \<Longrightarrow> pages_in p pages a b \<inter> pages_in p pages d e = {}"
  by (intro page_slots_disjoint slice_set_disjoint)

lemma mem_ok_alloc:
  "mem_ok H c al \<Longrightarrow> al_ok al' \<Longrightarrow> al_page_size al' = al_page_size al \<Longrightarrow>
   set_mset (tslots (root_node c)) \<inter> pool_slots al' = {} \<Longrightarrow> mem_ok H c al'"
  by (simp add: mem_ok_def)

section \<open>The pages of a request\<close>

definition holds_kv :: "radix_cache \<Rightarrow> kv_alloc \<Rightarrow> req_pool \<Rightarrow> req \<Rightarrow> int list \<Rightarrow> nat list \<Rightarrow> nat \<Rightarrow> bool" where
  "holds_kv c al rp r toks pages n \<longleftrightarrow> (\<exists>row.
     req_pool_idx r = Some row \<and> row < length (req_to_token rp) \<and>
     laid (page_size c) pages (req_to_token rp ! row) n \<and> length toks \<le> n \<and>
     page_size c dvd cache_protected_len r \<and> cache_protected_len r \<le> rk_len (req_radix_key c r toks) \<and>
     page_slots (page_size c) (set (drop (cache_protected_len r div page_size c) pages)) \<inter>
       (set_mset (tslots (root_node c)) \<union> pool_slots al) = {} \<and>
     (\<exists>qs. content c (rk_ns (req_radix_key c r toks)) qs \<and>
        map fst qs = take (cache_protected_len r) (rk_iter (req_radix_key c r toks)) \<and>
        map snd qs = take (cache_protected_len r) (req_to_token rp ! row)))"

text \<open>Inserting the pages of a request: the tree takes those behind what it has.\<close>

lemma insert_held:
  assumes ok: "mem_ok H c al" and en: "\<not> disable c" and h: "holds_kv c al rp r toks pages n" "req_pool_idx r = Some row"
  defines "key \<equiv> req_radix_key c r toks" and "entries \<equiv> req_to_token rp ! row"
  obtains c1 res ps where "rc_insert clk now key (Some (take (rk_len key) entries)) prio chunked c = Inr (c1, res)"
    "prefix_len res = length ps" "mem_ok H c1 al" "page_size c dvd length ps" "cache_protected_len r \<le> length ps" "length ps \<le> rk_len key"
    "tslots (root_node c1) = tslots (root_node c) + mset (slice (length ps) (rk_len key) entries)"
    "c1 = c\<lparr>root_node := root_node c1, next_id := next_id c1, acct := acct c1\<rparr>"
    "content c1 (rk_ns key) (ps @ drop (length ps) (zip (rk_iter key) entries))" "map fst ps = take (length ps) (rk_iter key)"
    "\<And>ns qs. content c ns qs \<Longrightarrow> content c1 ns qs"
proof -
  let ?p = "page_size c" and ?prot = "cache_protected_len r"
  have c: "cache_ok H c" "0 < ?p" "wf_tree ?p (is_eagle c) None (root_node c)" using ok by (auto simp: mem_ok_def cache_ok_def)
  note kl = req_radix_key_len [OF c(2), of r toks, folded key_def]
  have fits: "key_fits c key" unfolding key_def by (rule req_radix_key_fits)
  have l: "laid ?p pages entries n" "length toks \<le> n" "?p dvd ?prot" "?prot \<le> rk_len key"
    and dis: "page_slots ?p (set (drop (?prot div ?p) pages)) \<inter> (set_mset (tslots (root_node c)) \<union> pool_slots al) = {}"
    using h unfolding holds_kv_def key_def entries_def by auto
  obtain qs where qs: "content c (rk_ns key) qs" "map fst qs = take ?prot (rk_iter key)"
    using h(1) unfolding holds_kv_def key_def by blast
  have kn: "rk_len key \<le> n" "n \<le> length entries" using kl(2) l by (auto simp: laid_def)
  have v: "value_fits c key (Some (take (rk_len key) entries))" using kn kl(3) by (simp add: value_fits_def)
  have ev: "eff_value c key (Some (take (rk_len key) entries)) = take (rk_len key) entries" by (simp add: eff_value_def kl(3))
  obtain ps where best: "best_match ?p (root_node c) (rk_ns key) (rk_iter (eff_key c key)) ps"
    using rc_insert_correct [OF c(1) en fits v] by metis
  have dvd: "?p dvd length ps" using best c(3) cached_page unfolding best_match_def by blast
  have len: "length ps \<le> rk_len key"
    using best unfolding best_match_def kl(4) by (metis length_map length_rk_iter length_take min.cobounded1)
  have lq: "length qs = ?prot" using qs(2) l(4) by (metis length_map length_rk_iter length_take min.absorb2)
  then have ge: "?prot \<le> length ps" using best qs unfolding best_match_def kl(4) by auto
  have new: "drop (length ps) (take (rk_len key) entries) = expand_pages ?p (slice (length ps div ?p) (rk_len key div ?p) pages)"
    using laid_slice [OF c(2) l(1) dvd kl(1) kn(1)] by (simp add: slice_def drop_take)
  have "set (slice (length ps div ?p) (rk_len key div ?p) pages) \<subseteq> set (drop (?prot div ?p) pages)"
    using ge set_drop_subset_set_drop [OF div_le_mono [of ?prot "length ps" ?p], of pages]
    by (auto simp: slice_def dest!: in_set_takeD)
  then have sub: "set (drop (length ps) (take (rk_len key) entries)) \<subseteq> page_slots ?p (set (drop (?prot div ?p) pages))"
    unfolding new set_expand_pages [OF c(2)] by (rule page_slots_mono)
  have dp: "distinct pages" using l(1) by (simp add: laid_def)
  have "fresh_slots c al (drop (length ps) (take (rk_len key) entries))"
    unfolding fresh_slots_def
  proof (intro conjI)
    show "distinct (drop (length ps) (take (rk_len key) entries))"
      unfolding new using dp c(2) by (intro distinct_expand_pages) (simp_all add: slice_def)
    show "page_run ?p (drop (length ps) (take (rk_len key) entries))" unfolding page_run_def using new by blast
  qed (use dis sub in blast)+
  from mem_ok_insert_tail [OF ok en fits v best, unfolded ev, OF this, of clk now prio chunked]
  obtain c1 res where r: "rc_insert clk now key (Some (take (rk_len key) entries)) prio chunked c = Inr (c1, res)"
    "mem_ok H c1 al" "prefix_len res = length ps"
    "tslots (root_node c1) = tslots (root_node c) + mset (drop (length ps) (take (rk_len key) entries))"
    "c1 = c\<lparr>root_node := root_node c1, next_id := next_id c1, acct := acct c1\<rparr>"
    "\<forall>ns qs. content c1 ns qs \<longleftrightarrow> content c ns qs \<or> added ?p (eff_key c key) (take (rk_len key) entries) ps ns qs" by blast
  have fst_ps: "map fst ps = take (length ps) (rk_iter key)" using best unfolding best_match_def kl(4) by blast
  have zip: "zip (rk_iter key) (take (rk_len key) entries) = zip (rk_iter key) entries"
    by (rule nth_equalityI) (use kn in simp_all)
  let ?full = "ps @ drop (length ps) (zip (rk_iter key) entries)"
  have "length ?full = rk_len key" using len kn by simp
  then have "added ?p (eff_key c key) (take (rk_len key) entries) ps (rk_ns key) ?full"
    using kl(1) eff_key_sel(2) [OF fits c(2)] by (simp add: added_def kl(3,4) zip)
  then have "content c1 (rk_ns key) ?full" using r(6) by blast
  then show ?thesis using that [OF r(1,3,2) dvd ge len _ r(5) _ fst_ps] r(4,6) by (simp add: slice_def drop_take)
qed

section \<open>Finished requests\<close>

text \<open>What the tree and the pool own together.\<close>

definition kv_slots :: "radix_cache \<Rightarrow> kv_alloc \<Rightarrow> nat set" where
  "kv_slots c al = set_mset (tslots (root_node c)) \<union> pool_slots al"

lemma holds_kvD:
  assumes "holds_kv c al rp r toks pages n" "req_pool_idx r = Some row"
  shows "row < length (req_to_token rp)" "laid (page_size c) pages (req_to_token rp ! row) n" "length toks \<le> n"
    "page_size c dvd cache_protected_len r" "cache_protected_len r \<le> rk_len (req_radix_key c r toks)"
    "page_slots (page_size c) (set (drop (cache_protected_len r div page_size c) pages)) \<inter> kv_slots c al = {}"
  using assms by (auto simp: holds_kv_def kv_slots_def)

lemma disjoint_exchange:
  assumes "T \<inter> P = {}" "A \<inter> (T \<union> P) = {}" "B \<inter> (T \<union> P) = {}" "N \<inter> (T \<union> P) = {}" "A \<inter> N = {}" "N \<inter> B = {}"
  shows "(T \<union> N) \<inter> (P \<union> (A \<union> B)) = {}"
  using assms by blast

lemma drop_pages_slice: "length pages \<le> d \<Longrightarrow> set (drop a pages) = set (slice a d pages)"
  by simp

lemma finished_tree:
  assumes ok: "mem_ok H c al" and en: "\<not> disable c" and h: "holds_kv c al rp r toks pages n" "req_pool_idx r = Some row"
  defines "key \<equiv> req_radix_key c r toks" and "entries \<equiv> req_to_token rp ! row"
  obtains c1 e where
    "(if ins then map_res (\<lambda>(c', res). (c', prefix_len res)) (rc_insert clk now key (Some (take (rk_len key) entries)) prio False c)
      else Inr (c, rk_len key)) = Inr (c1, e)"
    "mem_ok H c1 al" "page_size c dvd e" "cache_protected_len r \<le> e" "e \<le> rk_len key" "disable c1 = disable c" "page_size c1 = page_size c"
    "set_mset (tslots (root_node c1)) = set_mset (tslots (root_node c)) \<union> set (slice e (rk_len key) entries)" "\<not> ins \<Longrightarrow> c1 = c"
proof (cases ins)
  case True
  show ?thesis
  proof (rule insert_held [OF ok en h, of clk now prio False, folded key_def entries_def])
    fix c1 res ps
    assume i: "rc_insert clk now key (Some (take (rk_len key) entries)) prio False c = Inr (c1, res)" "prefix_len res = length ps"
      "mem_ok H c1 al" "page_size c dvd length ps" "cache_protected_len r \<le> length ps" "length ps \<le> rk_len key"
      "tslots (root_node c1) = tslots (root_node c) + mset (slice (length ps) (rk_len key) entries)"
      "c1 = c\<lparr>root_node := root_node c1, next_id := next_id c1, acct := acct c1\<rparr>"
    have "disable c1 = disable c" "page_size c1 = page_size c" by (subst i(8), simp)+
    then show ?thesis using that [of c1 "length ps"] i(1-7) True by simp
  qed
next
  case False
  have "0 < page_size c" using ok by (simp add: mem_ok_def cache_ok_def)
  then show ?thesis
    using that [of c "rk_len key"] False ok holds_kvD(5) [OF h] req_radix_key_len(1) [of c r toks] by (simp add: key_def)
qed

lemma cache_finished_conserves:
  assumes ok: "mem_ok (add_mset l H) (cache m) (kv m)" and en: "\<not> disable (cache m)" and last: "last_node r = Some l"
    and h: "holds_kv (cache m) (kv m) (pool m) r toks pages n"
    and toks: "toks = take N (origin_input_ids r @ output_ids r)" "N \<le> length (origin_input_ids r @ output_ids r)"
  shows "\<exists>m'. cache_finished_req clk now ins N r m = Inr m' \<and> mem_ok H (cache m') (kv m') \<and> pool m' = pool m \<and>
     page_size (cache m') = page_size (cache m) \<and> (\<not> ins \<longrightarrow> same_content (cache m) (cache m')) \<and>
     kv_slots (cache m') (kv m') = kv_slots (cache m) (kv m) \<union>
       pages_in (page_size (cache m)) pages (cache_protected_len r div page_size (cache m)) (pages_of (page_size (cache m)) N)"
proof -
  let ?c = "cache m" and ?al = "kv m" and ?p = "page_size (cache m)" and ?prot = "cache_protected_len r"
  obtain row where row: "req_pool_idx r = Some row" using h by (auto simp: holds_kv_def)
  let ?key = "req_radix_key ?c r toks" and ?entries = "req_to_token (pool m) ! row"
  note hD = holds_kvD [OF h row]
  have p: "0 < ?p" "al_ok ?al" "al_page_size ?al = ?p" using ok by (auto simp: mem_ok_def cache_ok_def)
  note kl = req_radix_key_len [OF p(1), of r toks]
  have N: "length toks = N" "N \<le> n" "rk_len ?key \<le> N" using toks hD(3) kl(2) by auto
  let ?ins = "if disable_finished_insert ?c then False else ins"
  obtain c1 e where c1: "(if ?ins then map_res (\<lambda>(c', res). (c', prefix_len res))
        (rc_insert clk now ?key (Some (take (rk_len ?key) ?entries)) (req_prio r) False ?c) else Inr (?c, rk_len ?key)) = Inr (c1, e)"
    "mem_ok (add_mset l H) c1 ?al" "?p dvd e" "?prot \<le> e" "e \<le> rk_len ?key" "disable c1 = disable ?c" "page_size c1 = ?p"
    "set_mset (tslots (root_node c1)) = set_mset (tslots (root_node ?c)) \<union> set (slice e (rk_len ?key) ?entries)"
    and same: "\<not> ?ins \<Longrightarrow> c1 = ?c"
    using finished_tree [OF ok en h row] by metis
  have dp: "distinct pages" "length pages = pages_of ?p n" "n \<le> length ?entries" using hD(2) by (simp_all add: laid_def)
  have own: "pages_in ?p pages a b \<inter> kv_slots ?c ?al = {}" if "?prot div ?p \<le> a" for a b
  proof -
    have "set (slice a b pages) \<subseteq> set (drop (?prot div ?p) pages)"
      using set_drop_subset_set_drop [OF that, of pages] by (auto simp: slice_def dest!: in_set_takeD)
    then show ?thesis using hD(6) page_slots_mono by blast
  qed
  have seg: "take N ?entries = slice 0 N ?entries" by simp
  have new: "set (slice e (rk_len ?key) ?entries) = pages_in ?p pages (e div ?p) (rk_len ?key div ?p)"
    using laid_slice [OF p(1) hD(2) c1(3) kl(1)] N set_expand_pages [OF p(1)] by simp
  obtain al' where al: "al_free_segments [(slice ?prot e ?entries, ?prot), (slice (rk_len ?key) N ?entries, rk_len ?key)] ?al = Inr al'"
    "al_ok al'" "al_page_size al' = ?p"
    "pool_slots al' = pool_slots ?al \<union> (pages_in ?p pages (?prot div ?p) (e div ?p) \<union> pages_in ?p pages (rk_len ?key div ?p) (pages_of ?p N))"
    using free_segments_two [of ?al pages ?entries n ?prot e "rk_len ?key" N] p hD c1(3-5) kl(1) N
    by (auto simp: kv_slots_def page_slots_Un Int_Un_distrib)
  have le: "?prot div ?p \<le> e div ?p" "e div ?p \<le> rk_len ?key div ?p" "rk_len ?key div ?p \<le> pages_of ?p N"
    using c1(4,5) N(3) pages_of_le [OF p(1) N(3)] pages_of_dvd [OF p(1) kl(1)] by (auto simp: div_le_mono)
  have "mem_ok (add_mset l H) c1 al'"
  proof (rule mem_ok_alloc [OF c1(2) al(2)])
    show "al_page_size al' = al_page_size ?al" using al(3) p(3) by simp
    show "set_mset (tslots (root_node c1)) \<inter> pool_slots al' = {}"
      unfolding c1(8) new al(4)
    proof (rule disjoint_exchange)
      show "set_mset (tslots (root_node ?c)) \<inter> pool_slots ?al = {}" using ok by (simp add: mem_ok_def)
    qed (use own le pages_in_disjoint [OF p(1) dp(1)] in \<open>simp_all add: kv_slots_def\<close>)
  qed
  then obtain c2 d where c2: "dec_lock_ref l c1 = Inr (c2, d)" "mem_ok H c2 al'" "same_content c1 c2"
    using dec_lock_ref_correct [of l H c1] en c1(6) mem_ok_same_content unfolding mem_ok_def by metis
  have tail: "take (rk_len ?key) (take N ?entries) = take (rk_len ?key) ?entries" "drop (rk_len ?key) (take N ?entries) = slice (rk_len ?key) N ?entries"
    "slice ?prot e (take N ?entries) = slice ?prot e ?entries"
    using N c1(5) by (auto simp: slice_def drop_take min_absorb1)
  have sl: "row_slice (pool m) row 0 (length toks) = Inr (take N ?entries)" using hD(1) N(1) by (simp add: row_slice_def)
  have run: "cache_finished_req clk now ins N r m = Inr (m\<lparr>cache := c2, kv := al'\<rparr>)"
    unfolding cache_finished_req_def Let_def with_row_def row option.case toks(1) [symmetric] sl bind_res_simps tail c1(1)
    using en by (simp add: tail(3) al(1) c2(1) last)
  have "kv_slots c2 al' = kv_slots ?c ?al \<union> pages_in ?p pages (?prot div ?p) (pages_of ?p N)"
    using c2(3) pages_in_split [OF le(1), of "pages_of ?p N" ?p pages] pages_in_split [OF le(2,3), of ?p pages] le
    by (auto simp: kv_slots_def same_content_def c1(8) new al(4))
  moreover have "page_size c2 = ?p" using c2(2) al(3) by (simp add: mem_ok_def)
  moreover have "same_content ?c c2" if "\<not> ins" using c2(3) same that by simp
  ultimately show ?thesis using run c2(2) by simp
qed

lemma free_range_mem_ok:
  assumes ok: "mem_ok H c al" and l: "laid (page_size c) pages entries n" and s: "page_size c dvd s" "s \<le> e" "e \<le> n"
    and dis: "pages_in (page_size c) pages (s div page_size c) (pages_of (page_size c) e) \<inter> kv_slots c al = {}"
  obtains al' where "al_free_segment (slice s e entries) s al = Inr al'" "mem_ok H c al'"
    "kv_slots c al' = kv_slots c al \<union> pages_in (page_size c) pages (s div page_size c) (pages_of (page_size c) e)"
proof -
  let ?P = "pages_in (page_size c) pages (s div page_size c) (pages_of (page_size c) e)"
  have a: "al_ok al" "al_page_size al = page_size c" "set_mset (tslots (root_node c)) \<inter> pool_slots al = {}"
    using ok by (simp_all add: mem_ok_def)
  have d: "?P \<inter> pool_slots al = {}" "?P \<inter> set_mset (tslots (root_node c)) = {}" using dis unfolding kv_slots_def by blast+
  obtain al' where al: "al_free_segment (slice s e entries) s al = Inr al'" "al_ok al'" "al_page_size al' = page_size c"
    "pool_slots al' = pool_slots al \<union> ?P"
    using free_segment_range [OF a(1), unfolded a(2), OF l s d(1)] by blast
  have "set_mset (tslots (root_node c)) \<inter> pool_slots al' = {}" unfolding al(4) using a(3) d(2) by blast
  then have "mem_ok H c al'" using mem_ok_alloc [OF ok al(2)] al(3) a(2) by simp
  then show ?thesis using that al by (simp add: kv_slots_def Un_assoc)
qed

lemma release_overallocated:
  assumes ok: "mem_ok H (cache m) (kv m)" and row: "req_pool_idx r = Some row" "row < length (req_to_token (pool m))"
    and l: "laid (page_size (cache m)) pages (req_to_token (pool m) ! row) n" and N: "N \<le> n"
    and sv: "speculative sv \<or> strip_thinking_cache sv \<or> N = n"
    and dis: "pages_in (page_size (cache m)) pages (pages_of (page_size (cache m)) N) (length pages) \<inter> kv_slots (cache m) (kv m) = {}"
  obtains al where "release_overallocated_kv_indices sv r N n m = Inr (m\<lparr>kv := al\<rparr>)" "mem_ok H (cache m) al"
    "kv_slots (cache m) al = kv_slots (cache m) (kv m) \<union>
       pages_in (page_size (cache m)) pages (pages_of (page_size (cache m)) N) (length pages)"
proof -
  let ?p = "page_size (cache m)" and ?start = "pages_of (page_size (cache m)) N * page_size (cache m)"
  have p: "0 < ?p" "al_page_size (kv m) = ?p" using ok by (auto simp: mem_ok_def cache_ok_def)
  have start: "(if al_page_size (kv m) > 1 then ceil_align N (al_page_size (kv m)) else N) = ?start"
  proof (cases "?p = 1")
    case True
    then show ?thesis using p by (simp add: pages_of_def)
  qed (use p in \<open>simp add: ceil_align_def\<close>)
  have len: "length pages = pages_of ?p n" using l by (simp add: laid_def)
  show ?thesis
  proof (cases "?start < n")
    case True
    have "?start div ?p = pages_of ?p N" using p(1) by simp
    then obtain al where "al_free_segment (slice ?start n (req_to_token (pool m) ! row)) ?start (kv m) = Inr al" "mem_ok H (cache m) al"
      "kv_slots (cache m) al = kv_slots (cache m) (kv m) \<union> pages_in ?p pages (pages_of ?p N) (length pages)"
      using free_range_mem_ok [OF ok l, of ?start n] True dis unfolding len by auto
    then show ?thesis using that sv True row start
      by (simp add: release_overallocated_kv_indices_def Let_def with_row_def row_slice_def)
  next
    case False
    then have "pages_of ?p n \<le> pages_of ?p N"
      using pages_of_le [OF p(1), of n ?start] pages_of_dvd [OF p(1), of ?start] p(1) by simp
    then have "pages_in ?p pages (pages_of ?p N) (length pages) = {}" by (simp add: len page_slots_def)
    then show ?thesis using that [of "kv m"] ok sv False start by (simp add: release_overallocated_kv_indices_def Let_def)
  qed
qed

lemma release_kv_steps:
  assumes ok: "mem_ok (add_mset l H) (cache m) (kv m)" and en: "\<not> disable (cache m)"
    and last: "last_node (base_req h) = Some l" and k: "req_kv h = Some k"
    and held: "holds_kv (cache m) (kv m) (pool m) (base_req h)
       (take (effective_kv_committed_len sv h) (origin_input_ids (base_req h) @ output_ids (base_req h))) pages (kv_allocated_len k)"
    and N: "effective_kv_committed_len sv h \<le> length (origin_input_ids (base_req h) @ output_ids (base_req h))"
    and sv: "speculative sv \<or> strip_thinking_cache sv \<or> effective_kv_committed_len sv h = kv_allocated_len k"
  shows "\<exists>m'. release_kv_cache sv clk now is_insert h m = Inr (m', h\<lparr>base_req := (base_req h)\<lparr>req_pool_idx := None\<rparr>, req_kv := None\<rparr>) \<and>
     mem_ok H (cache m') (kv m') \<and>
     kv_slots (cache m') (kv m') = kv_slots (cache m) (kv m) \<union>
       page_slots (page_size (cache m)) (set (drop (cache_protected_len (base_req h) div page_size (cache m)) pages)) \<and>
     pool m' = (pool m)\<lparr>free_slots := free_slots (pool m) @ [the (req_pool_idx (base_req h))]\<rparr> \<and>
     (\<not> is_insert \<longrightarrow> same_content (cache m) (cache m'))"
proof -
  let ?r = "base_req h" and ?N = "effective_kv_committed_len sv h" and ?n = "kv_allocated_len k" and ?p = "page_size (cache m)"
  let ?toks = "take ?N (origin_input_ids ?r @ output_ids ?r)" and ?prot = "cache_protected_len (base_req h) div page_size (cache m)"
  obtain row where row: "req_pool_idx ?r = Some row" using held by (auto simp: holds_kv_def)
  note hD = holds_kvD [OF held row]
  have p: "0 < ?p" using ok by (simp add: mem_ok_def cache_ok_def)
  have NN: "?N \<le> ?n" "length ?toks = ?N" using hD(3) N by auto
  have dp: "distinct pages" "length pages = pages_of ?p ?n" using hD(2) by (simp_all add: laid_def)
  have prot: "?prot \<le> pages_of ?p ?N"
  proof -
    have "cache_protected_len ?r \<le> ?N" using hD(5) req_radix_key_len(2) [OF p, of ?r ?toks] NN(2) by linarith
    then show ?thesis using pages_of_le [OF p] pages_of_dvd [OF p hD(4)] by metis
  qed
  have le: "pages_of ?p ?N \<le> length pages" using pages_of_le [OF p NN(1)] dp(2) by simp
  obtain m1 where m1: "cache_finished_req clk now (is_insert \<and> \<not> skip_radix_cache_insert h) ?N ?r m = Inr m1"
    "mem_ok H (cache m1) (kv m1)" "pool m1 = pool m" "page_size (cache m1) = ?p"
    "kv_slots (cache m1) (kv m1) = kv_slots (cache m) (kv m) \<union> pages_in ?p pages ?prot (pages_of ?p ?N)"
    "\<not> is_insert \<longrightarrow> same_content (cache m) (cache m1)"
    using cache_finished_conserves [OF ok en last held refl N, of clk now "is_insert \<and> \<not> skip_radix_cache_insert h"] by blast
  have drop: "page_slots ?p (set (drop ?prot pages)) = pages_in ?p pages ?prot (pages_of ?p ?N) \<union> pages_in ?p pages (pages_of ?p ?N) (length pages)"
    using pages_in_split [OF prot le, of ?p pages] by simp
  have "pages_in ?p pages (pages_of ?p ?N) (length pages) \<inter> kv_slots (cache m1) (kv m1) = {}"
    unfolding m1(5) using hD(6) drop pages_in_disjoint [OF p dp(1), of "pages_of ?p ?N" "pages_of ?p ?N" ?prot "length pages"] by blast
  then obtain al where al: "release_overallocated_kv_indices sv ?r ?N ?n m1 = Inr (m1\<lparr>kv := al\<rparr>)" "mem_ok H (cache m1) al"
    "kv_slots (cache m1) al = kv_slots (cache m1) (kv m1) \<union> pages_in ?p pages (pages_of ?p ?N) (length pages)"
    using release_overallocated [of H m1 ?r row pages ?n ?N sv] m1(2-4) row hD(1,2) NN(1) sv by auto
  have "release_kv_cache sv clk now is_insert h m =
     Inr (m1\<lparr>kv := al, pool := (pool m)\<lparr>free_slots := free_slots (pool m) @ [row]\<rparr>\<rparr>, h\<lparr>base_req := ?r\<lparr>req_pool_idx := None\<rparr>, req_kv := None\<rparr>)"
    by (simp add: release_kv_cache_def Let_def row k m1(1,3) al(1) rp_free_def)
  then show ?thesis using al(2,3) m1(5,6) drop row by (simp add: Un_assoc)
qed

theorem release_kv_conserves:
  assumes "mem_ok (add_mset l H) (cache m) (kv m)" "\<not> disable (cache m)" "last_node (base_req h) = Some l" "req_kv h = Some k"
    and "holds_kv (cache m) (kv m) (pool m) (base_req h)
       (take (effective_kv_committed_len sv h) (origin_input_ids (base_req h) @ output_ids (base_req h))) pages (kv_allocated_len k)"
    and "effective_kv_committed_len sv h \<le> length (origin_input_ids (base_req h) @ output_ids (base_req h))"
    and "speculative sv \<or> strip_thinking_cache sv \<or> effective_kv_committed_len sv h = kv_allocated_len k"
  shows "\<exists>m' h'. release_kv_cache sv clk now is_insert h m = Inr (m', h') \<and> mem_ok H (cache m') (kv m') \<and>
     kv_slots (cache m') (kv m') = kv_slots (cache m) (kv m) \<union>
       page_slots (page_size (cache m)) (set (drop (cache_protected_len (base_req h) div page_size (cache m)) pages)) \<and>
     free_slots (pool m') = free_slots (pool m) @ [the (req_pool_idx (base_req h))] \<and>
     req_kv h' = None \<and> req_pool_idx (base_req h') = None"
proof -
  obtain m' where m': "release_kv_cache sv clk now is_insert h m = Inr (m', h\<lparr>base_req := (base_req h)\<lparr>req_pool_idx := None\<rparr>, req_kv := None\<rparr>)"
    "mem_ok H (cache m') (kv m')" "kv_slots (cache m') (kv m') = kv_slots (cache m) (kv m) \<union>
       page_slots (page_size (cache m)) (set (drop (cache_protected_len (base_req h) div page_size (cache m)) pages))"
    "pool m' = (pool m)\<lparr>free_slots := free_slots (pool m) @ [the (req_pool_idx (base_req h))]\<rparr>"
    using release_kv_steps [OF assms, of clk now is_insert] by blast
  have "free_slots (pool m') = free_slots (pool m) @ [the (req_pool_idx (base_req h))]" using m'(4) by simp
  then show ?thesis using m'(1-3)
    by (intro exI [of _ m'] exI [of _ "h\<lparr>base_req := (base_req h)\<lparr>req_pool_idx := None\<rparr>, req_kv := None\<rparr>"]) simp
qed

end
