(* ===== verification/MemUnfinished.thy ===== *)
theory MemUnfinished
  imports MemProofs
begin

text \<open>
  \<open>cache_unfinished_req\<close>: after a chunk of a prompt the whole pages computed so far move to the
  tree, duplicates go back to the pool, the row of the request is rewritten to the slots of the
  tree and the lock moves to the longer prefix. The state \<open>holds_kv\<close> of the request is kept.
\<close>

lemma cached_take:
  assumes "wf_tree p bg ro t" "cached p t ns qs" "p dvd k"
  shows "cached p t ns (take k qs)"
  using assms
proof (induction t arbitrary: ro qs k)
  case (Node i cs)
  show ?case
  proof (cases "take k qs = []")
    case False
    then obtain j c where e: "(j, c) \<in> set cs" "kid_cached p c ns qs"
      using Node.prems(2) by (auto simp: cached_iff)
    have wf: "entry_ok p bg j c" "wf_tree p bg (Some (rk_ns (tkey c))) c" using Node.prems(1) e(1) by auto
    have dvd: "p dvd length (take k qs)" using cached_page [OF Node.prems(1,2)] Node.prems(3) by (simp add: min_def)
    have "kid_cached p c ns (take k qs)"
    proof (cases "length (take k qs) \<le> length (edge c)")
      case True
      define L M where "L = length (take k qs)" and "M = min (length qs) (length (edge c))"
      have "take M qs = take M (edge c)"
        using e(2) unfolding M_def by (cases "length qs \<le> length (edge c)") (auto simp: kid_cached_def min_def)
      then have "take L (take M qs) = take L (take M (edge c))" by simp
      moreover have "L \<le> M" using True by (simp add: L_def M_def)
      ultimately have "take L qs = take L (edge c)" by (simp add: min_absorb1)
      moreover have "take L qs = take k qs" by (simp add: L_def min_def)
      ultimately have "take k qs = take (length (take k qs)) (edge c)" by (simp add: L_def)
      moreover have "rk_ns (tkey c) = ns" using e(2) by (simp add: kid_cached_def)
      ultimately show ?thesis unfolding kid_cached_def using dvd True by (simp only: if_True simp_thms)
    next
      case False
      then have k: "length (edge c) < k" "length (edge c) < length qs" by auto
      then have q: "take (length (edge c)) qs = edge c" "cached p c ns (drop (length (edge c)) qs)"
        using e(2) by (auto simp: kid_cached_def)
      have "p dvd k - length (edge c)"
        using wf(1) Node.prems(3) by (intro dvd_diff_nat) (auto simp: length_edge entry_ok_def)
      moreover have c: "c \<in> Basic_BNFs.snds (j, c)" by simp
      ultimately have "cached p c ns (take (k - length (edge c)) (drop (length (edge c)) qs))"
        using Node.IH [OF e(1) c wf(2) q(2)] by blast
      then show ?thesis using k q(1) e(2) False by (auto simp: kid_cached_def drop_take min_def)
    qed
    then show ?thesis using e(1) by (auto simp: cached_iff)
  qed (metis cached_Nil)
qed

section \<open>Moving the lock\<close>

lemma match_and_relock:
  assumes ok: "mem_ok (add_mset l H) c al" and en: "\<not> disable c" and key: "key_fits c key"
    and full: "content c (rk_ns key) full" "map fst full = rk_iter (eff_key c key)"
  obtains c2 mr c3 d3 c4 d4 where "rc_match_prefix clk now key c = Inr (c2, mr)" "device_indices mr = map snd full"
    "dec_lock_ref l c2 = Inr (c3, d3)" "inc_lock_ref (last_device_node mr) c3 = Inr (c4, d4)"
    "mem_ok (add_mset (last_device_node mr) H) c4 al" "tslots (root_node c4) = tslots (root_node c)"
    "page_size c4 = page_size c" "is_eagle c4 = is_eagle c" "disable c4 = disable c"
    "\<And>ns qs. content c4 ns qs \<longleftrightarrow> content c ns qs" "reach (root_node c4) (last_device_node mr) (rk_ns key) full"
proof -
  have c: "cache_ok (add_mset l H) c" "0 < page_size c" "wf_tree (page_size c) (is_eagle c) None (root_node c)"
    using ok by (auto simp: mem_ok_def cache_ok_def)
  obtain c2 mr ps where m: "rc_match_prefix clk now key c = Inr (c2, mr)" "cache_ok (add_mset l H) c2"
    "best_match (page_size c) (root_node c) (rk_ns key) (rk_iter (eff_key c key)) ps" "device_indices mr = map snd ps"
    "reach (root_node c2) (last_device_node mr) (rk_ns key) ps"
    "splits (page_size c) (next_id c) (root_node c) (next_id c2) (root_node c2)"
    "c2 = c\<lparr>root_node := root_node c2, next_id := next_id c2\<rparr>" "\<forall>ns qs. content c2 ns qs \<longleftrightarrow> content c ns qs"
    using rc_match_prefix_correct [OF c(1) en key, of clk now] by blast
  have len: "length full = length (rk_iter (eff_key c key))" using full(2) by (metis length_map)
  then have "length full \<le> length ps" using m(3) full unfolding best_match_def by (metis order_refl take_all)
  moreover have ps: "map fst ps = take (length ps) (rk_iter (eff_key c key))" using m(3) by (simp add: best_match_def)
  ultimately have "map fst ps = map fst full" using full(2) len by simp
  then have eq: "ps = full" using cached_functional [OF c(2,3) _ full(1)] m(3) by (simp add: best_match_def)
  have c2: "page_size c2 = page_size c" "is_eagle c2 = is_eagle c" "disable c2 = disable c" by (subst m(7), simp)+
  have ok2: "mem_ok (add_mset l H) c2 al" by (rule mem_ok_splits [OF ok m(2) c2(1) m(6)])
  obtain c3 d3 where c3: "dec_lock_ref l c2 = Inr (c3, d3)" "cache_ok H c3" "same_content c2 c3"
    using dec_lock_ref_correct [OF m(2)] c2(3) en by auto
  have "last_device_node mr \<in> ids (root_node c3)" using reach_ids [OF m(5)] c3(3) by (simp add: same_content_def)
  then obtain c4 d4 where c4: "inc_lock_ref (last_device_node mr) c3 = Inr (c4, d4)" "cache_ok (add_mset (last_device_node mr) H) c4"
    "same_content c3 c4"
    using inc_lock_ref_correct [OF c3(2), of "last_device_node mr"] c2(3) en same_content_disable [OF c3(3)] by auto
  have ok4: "mem_ok (add_mset (last_device_node mr) H) c4 al"
    by (rule mem_ok_same_content [OF mem_ok_same_content [OF ok2 c3(2,3)] c4(2,3)])
  have "tslots (root_node c4) = tslots (root_node c)"
    using c3(3) c4(3) splits_tslots [OF m(6)] by (simp add: same_content_def)
  moreover have "page_size c4 = page_size c" "is_eagle c4 = is_eagle c" "disable c4 = disable c"
    using c3(3) c4(3) c2 by (simp_all add: same_content_def)
  moreover have "reach (root_node c4) (last_device_node mr) (rk_ns key) full"
    using m(5) c3(3) c4(3) eq unfolding same_content_def by blast
  moreover have "\<And>ns qs. content c4 ns qs \<longleftrightarrow> content c ns qs"
    using m(8) c3(3) c4(3) unfolding same_content_def by blast
  ultimately show ?thesis using that m(1,4) c3(1) c4(1) ok4 eq by blast
qed

section \<open>Rewriting the row\<close>

text \<open>A row of which the first \<open>k\<close> entries are replaced by whole other pages.\<close>

lemma laid_replace:
  assumes p: "0 < p" and l: "laid p pages row n" and k: "p dvd k" "k \<le> n"
    and new: "length pgs = k div p" "distinct pgs" "set pgs \<inter> set (drop (k div p) pages) = {}"
  shows "laid p (pgs @ drop (k div p) pages) (expand_pages p pgs @ drop k row) n"
proof -
  let ?pages = "pgs @ drop (k div p) pages" and ?row = "expand_pages p pgs @ drop k row"
  have lk: "length (expand_pages p pgs) = k" using new(1) k(1) by simp
  have len: "n \<le> length row" "length pages = pages_of p n" "distinct pages" using l by (simp_all add: laid_def)
  have kp: "k div p \<le> length pages" using pages_of_le [OF p k(2)] pages_of_dvd [OF p k(1)] len(2) by simp
  have "take n row = take n (expand_pages p pages)" using l by (simp add: laid_def)
  then have "drop k (take n row) = drop k (take n (expand_pages p pages))" by simp
  then have "take (n - k) (drop k row) = take (n - k) (drop k (expand_pages p pages))" by (simp add: drop_take)
  also have "drop k (expand_pages p pages) = expand_pages p (drop (k div p) pages)"
    using expand_pages_take_drop(2) [of "k div p" p pages] k(1) by simp
  finally have "take n ?row = take n (expand_pages p ?pages)" using lk k(2) by (simp add: expand_pages_append)
  then show ?thesis using len kp new lk k(2) by (simp add: laid_def)
qed

section \<open>Unfinished requests\<close>

lemma page_slots_disjointD: "0 < p \<Longrightarrow> page_slots p A \<inter> page_slots p B = {} \<Longrightarrow> A \<inter> B = {}"
proof (rule ccontr)
  assume p: "0 < p" and d: "page_slots p A \<inter> page_slots p B = {}" and "A \<inter> B \<noteq> {}"
  then obtain g where "g \<in> A" "g \<in> B" by blast
  then have "g * p \<in> page_slots p A \<inter> page_slots p B" using p by (simp add: page_slots_def)
  then show False using d by blast
qed

text \<open>Inserting and giving back the duplicates.\<close>

lemma insert_and_free:
  assumes ok: "mem_ok H c al" and en: "\<not> disable c" and held: "holds_kv c al rp r toks pages n" "req_pool_idx r = Some row"
  defines "key \<equiv> req_radix_key c r toks" and "entries \<equiv> req_to_token rp ! row" and "p \<equiv> page_size c"
  obtains c1 res al' full where
    "rc_insert clk now key (Some (take (rk_len key) entries)) prio chunked c = Inr (c1, res)" "prefix_len res \<le> rk_len key"
    "al_free_segment (slice (cache_protected_len r) (prefix_len res) entries) (cache_protected_len r) al = Inr al'"
    "mem_ok H c1 al'" "kv_slots c1 al' = kv_slots c al \<union> pages_in p pages (cache_protected_len r div p) (rk_len key div p)"
    "disable c1 = disable c" "page_size c1 = p" "is_eagle c1 = is_eagle c"
    "content c1 (rk_ns key) full" "map fst full = rk_iter key" "take (cache_protected_len r) (map snd full) = take (cache_protected_len r) entries"
proof -
  let ?prot = "cache_protected_len r"
  note hD = holds_kvD [OF held, folded key_def entries_def p_def]
  have p: "0 < p" "p dvd rk_len key" "rk_len key \<le> length toks"
    using ok req_radix_key_len [of c r toks] by (auto simp: mem_ok_def cache_ok_def p_def key_def)
  have dp: "distinct pages" "length pages = pages_of p n" "n \<le> length entries" using hD(2) by (simp_all add: laid_def)
  have kn: "rk_len key \<le> n" using p(3) hD(3) by simp
  obtain qs where qs: "content c (rk_ns key) qs" "map fst qs = take ?prot (rk_iter key)" "map snd qs = take ?prot entries"
    using held unfolding holds_kv_def key_def entries_def by auto
  show ?thesis
  proof (rule insert_held [OF ok en held, of clk now prio chunked, folded key_def entries_def])
    fix c1 res ps
    assume i: "rc_insert clk now key (Some (take (rk_len key) entries)) prio chunked c = Inr (c1, res)" "prefix_len res = length ps"
      "mem_ok H c1 al" "page_size c dvd length ps" "?prot \<le> length ps" "length ps \<le> rk_len key"
      "tslots (root_node c1) = tslots (root_node c) + mset (slice (length ps) (rk_len key) entries)"
      and c1: "c1 = c\<lparr>root_node := root_node c1, next_id := next_id c1, acct := acct c1\<rparr>"
      and full: "content c1 (rk_ns key) (ps @ drop (length ps) (zip (rk_iter key) entries))" "map fst ps = take (length ps) (rk_iter key)"
      and keep: "\<And>ns qs. content c ns qs \<Longrightarrow> content c1 ns qs"
    let ?full = "ps @ drop (length ps) (zip (rk_iter key) entries)"
    note i = i [folded p_def]
    have sel: "disable c1 = disable c" "page_size c1 = p" "is_eagle c1 = is_eagle c" unfolding p_def by (subst c1, simp)+
    have le: "?prot div p \<le> length ps div p" "length ps div p \<le> rk_len key div p" using i(5,6) by (simp_all add: div_le_mono)
    have new: "set (slice (length ps) (rk_len key) entries) = pages_in p pages (length ps div p) (rk_len key div p)"
      using laid_slice [OF p(1) hD(2) i(4) p(2) kn] set_expand_pages [OF p(1)] by simp
    have as1: "kv_slots c1 al = kv_slots c al \<union> pages_in p pages (length ps div p) (rk_len key div p)"
      by (auto simp: kv_slots_def i(7) new)
    have "set (slice (?prot div p) (length ps div p) pages) \<subseteq> set (drop (?prot div p) pages)"
      by (auto simp: slice_def dest: in_set_takeD)
    then have "pages_in p pages (?prot div p) (length ps div p) \<inter> kv_slots c al = {}"
      using hD(6) page_slots_mono by blast
    then have dis: "pages_in p pages (?prot div p) (pages_of p (length ps)) \<inter> kv_slots c1 al = {}"
      unfolding pages_of_dvd [OF p(1) i(4)] as1
      using pages_in_disjoint [OF p(1) dp(1) order_refl, of "?prot div p" "length ps div p" "rk_len key div p"] by blast
    obtain al' where al: "al_free_segment (slice ?prot (length ps) entries) ?prot al = Inr al'" "mem_ok H c1 al'"
      "kv_slots c1 al' = kv_slots c1 al \<union> pages_in p pages (?prot div p) (pages_of p (length ps))"
      using free_range_mem_ok [OF i(3), unfolded sel(2), OF hD(2,4) i(5) _ dis] i(6) kn by auto
    have "kv_slots c1 al' = kv_slots c al \<union> pages_in p pages (?prot div p) (rk_len key div p)"
      using pages_in_split [OF le, of p pages] by (auto simp: al(3) as1 pages_of_dvd [OF p(1) i(4)])
    moreover have fst_full: "map fst ?full = rk_iter key"
    proof -
      have "map fst (zip (rk_iter key) entries) = rk_iter key" using kn dp(3) by (simp add: map_fst_zip_take)
      then show ?thesis using full(2) by (metis append_take_drop_id drop_map map_append)
    qed
    moreover have "take ?prot (map snd ?full) = take ?prot entries"
    proof -
      have w1: "wf_tree p (is_eagle c1) None (root_node c1)" using i(3) sel(2) by (auto simp: mem_ok_def cache_ok_def)
      have "content c1 (rk_ns key) qs" using keep qs(1) by blast
      moreover have "cached p (root_node c1) (rk_ns key) (take ?prot ?full)"
        by (rule cached_take [OF w1 full(1) [unfolded sel(2)] hD(4)])
      moreover have "map fst (take ?prot ?full) = map fst qs" using fst_full qs(2) by (metis take_map)
      ultimately have "take ?prot ?full = qs" using cached_functional [OF p(1) w1] sel(2) by metis
      then show ?thesis using qs(3) by (metis take_map)
    qed
    ultimately show ?thesis using that [OF i(1) _ _ al(2) _ sel full(1) fst_full]
      i(2,6) al(1) by (simp only:)
  qed
qed

text \<open>The request after the step: its pages are those of the tree, then its own.\<close>

lemma holds_kv_moved:
  assumes ok: "mem_ok H c' al'" and full: "content c' (rk_ns key) full" "map fst full = rk_iter key"
    and key: "req_radix_key c' r' toks = key" "cache_protected_len r' = rk_len key" "req_pool_idx r' = Some row"
    and row: "row < length (req_to_token rp')" "req_to_token rp' ! row = map snd full @ drop (rk_len key) entries"
    and l: "laid (page_size c') pages entries n" and n: "length toks \<le> n" "rk_len key \<le> n" and dvd: "page_size c' dvd rk_len key"
    and own: "page_slots (page_size c') (set (drop (rk_len key div page_size c') pages)) \<inter> kv_slots c' al' = {}"
  obtains pages' where "holds_kv c' al' rp' r' toks pages' n"
    "drop (rk_len key div page_size c') pages' = drop (rk_len key div page_size c') pages"
proof -
  let ?p = "page_size c'" and ?k = "rk_len key"
  have p: "0 < ?p" using ok by (simp add: mem_ok_def cache_ok_def)
  have len: "length full = ?k" using full(2) by (metis length_map length_rk_iter)
  obtain pgs where pgs: "map snd full = expand_pages ?p pgs" "distinct pgs" "page_slots ?p (set pgs) \<subseteq> set_mset (tslots (root_node c'))"
    using mem_ok_cached_slots [OF ok full(1)] .
  have lp: "length pgs = ?k div ?p" using arg_cong [OF pgs(1), of length] len p by simp
  have "page_slots ?p (set pgs) \<inter> page_slots ?p (set (drop (?k div ?p) pages)) = {}"
    using pgs(3) own unfolding kv_slots_def by blast
  then have "set pgs \<inter> set (drop (?k div ?p) pages) = {}" by (rule page_slots_disjointD [OF p])
  from laid_replace [OF p l dvd n(2) lp pgs(2) this]
  have laid': "laid ?p (pgs @ drop (?k div ?p) pages) (req_to_token rp' ! row) n" unfolding row(2) pgs(1) .
  have drop: "drop (?k div ?p) (pgs @ drop (?k div ?p) pages) = drop (?k div ?p) pages" using lp by simp
  have "take ?k (req_to_token rp' ! row) = map snd full" using row(2) len by simp
  then have "holds_kv c' al' rp' r' toks (pgs @ drop (?k div ?p) pages) n"
    unfolding holds_kv_def key drop using row(1) laid' n dvd own full unfolding kv_slots_def by auto
  then show ?thesis using that drop by blast
qed

theorem cache_unfinished_conserves:
  assumes ok: "mem_ok (add_mset l H) (cache m) (kv m)" and en: "\<not> disable (cache m)" and last: "last_node r = Some l"
    and held: "holds_kv (cache m) (kv m) (pool m) r (get_fill_ids r) pages n"
  shows "\<exists>m' r' pages' l'. cache_unfinished_req clk now1 now2 chunked r m = Inr (m', r') \<and>
     last_node r' = Some l' \<and> mem_ok (add_mset l' H) (cache m') (kv m') \<and>
     cache_protected_len r' = rk_len (req_radix_key (cache m) r (get_fill_ids r)) \<and>
     holds_kv (cache m') (kv m') (pool m') r' (get_fill_ids r) pages' n \<and>
     kv_slots (cache m') (kv m') \<union> page_slots (page_size (cache m)) (set (drop (cache_protected_len r' div page_size (cache m)) pages')) =
     kv_slots (cache m) (kv m) \<union> page_slots (page_size (cache m)) (set (drop (cache_protected_len r div page_size (cache m)) pages))"
proof -
  let ?c = "cache m" and ?p = "page_size (cache m)" and ?prot = "cache_protected_len r" and ?toks = "get_fill_ids r"
  obtain row where row: "req_pool_idx r = Some row" using held by (auto simp: holds_kv_def)
  define key entries where "key = req_radix_key ?c r ?toks" and "entries = req_to_token (pool m) ! row"
  let ?k = "rk_len key"
  note hD = holds_kvD [OF held row, folded key_def entries_def]
  have p: "0 < ?p" using ok by (auto simp: mem_ok_def cache_ok_def)
  note kl = req_radix_key_len [OF p, of r ?toks, folded key_def]
  have kn: "?k \<le> n" "n \<le> length entries" using kl(2) hD(2,3) by (auto simp: laid_def)
  have dp: "distinct pages" using hD(2) by (simp add: laid_def)
  obtain c1 res al' full where s1: "rc_insert clk now1 key (Some (take ?k entries)) (req_prio r) chunked ?c = Inr (c1, res)"
    "prefix_len res \<le> ?k" "al_free_segment (slice ?prot (prefix_len res) entries) ?prot (kv m) = Inr al'" "mem_ok (add_mset l H) c1 al'"
    and as1: "kv_slots c1 al' = kv_slots ?c (kv m) \<union> pages_in ?p pages (?prot div ?p) (?k div ?p)"
    and sel1: "disable c1 = disable ?c" "page_size c1 = ?p" "is_eagle c1 = is_eagle ?c"
    and full: "content c1 (rk_ns key) full" "map fst full = rk_iter key" "take ?prot (map snd full) = take ?prot entries"
    unfolding key_def entries_def by (rule insert_and_free [OF ok en held row])
  have key1: "req_radix_key c1 r ?toks = key" by (simp add: key_def req_radix_key_def sel1)
  have fits1: "key_fits c1 key" using req_radix_key_fits [of c1 r ?toks] by (simp add: key1)
  have "map fst full = rk_iter (eff_key c1 key)" using req_radix_key_len(4) [of c1 r ?toks] p sel1(2) full(2) by (simp add: key1)
  then obtain c2 mr c3 d3 c4 d4 where s2: "rc_match_prefix clk now2 key c1 = Inr (c2, mr)" "device_indices mr = map snd full"
    "dec_lock_ref l c2 = Inr (c3, d3)" "inc_lock_ref (last_device_node mr) c3 = Inr (c4, d4)"
    "mem_ok (add_mset (last_device_node mr) H) c4 al'" "tslots (root_node c4) = tslots (root_node c1)"
    and sel4: "page_size c4 = page_size c1" "is_eagle c4 = is_eagle c1"
    and cont4: "\<And>ns qs. content c4 ns qs \<longleftrightarrow> content c1 ns qs"
    using match_and_relock [OF s1(4) _ fits1 full(1), of clk now2] en sel1(1) by metis
  have lf: "length full = ?k" using full(2) by (metis length_map length_rk_iter)
  define rp' where "rp' = (pool m)\<lparr>req_to_token := (req_to_token (pool m))[row := map snd full @ drop ?k entries]\<rparr>"
  have wr: "rp_write row ?prot ?k (drop ?prot (map snd full)) (pool m) = Inr rp'"
  proof -
    have "take ?prot entries @ drop ?prot (map snd full) = map snd full" unfolding full(3) [symmetric] by (rule append_take_drop_id)
    then show ?thesis using hD(1,5) kn lf
      by (simp add: rp_write_def Let_def rp'_def entries_def [symmetric] flip: append_assoc)
  qed
  define idx where "idx = take (length ?toks) entries"
  define r' where "r' = r\<lparr>cache_protected_len := ?k,
    prefix_indices := (if ?k < length idx then map snd full @ drop ?k idx else map snd full),
    last_node := Some (last_device_node mr)\<rparr>"
  have sl: "row_slice (pool m) row 0 (length ?toks) = Inr idx" using hD(1) by (simp add: row_slice_def entries_def idx_def)
  have cut: "take ?k idx = take ?k entries" "slice ?prot (prefix_len res) idx = slice ?prot (prefix_len res) entries"
    using kl(2) s1(2) by (auto simp: slice_def drop_take min_absorb1 idx_def)
  have run: "cache_unfinished_req clk now1 now2 chunked r m = Inr (m\<lparr>cache := c4, kv := al', pool := rp'\<rparr>, r')"
    using en by (simp add: cache_unfinished_req_def with_row_def row Let_def sl key_def [symmetric] cut s1(1,3) s2(1-4) lf wr last r'_def del: drop_map)
  have drop: "page_slots ?p (set (drop (?prot div ?p) pages)) =
      pages_in ?p pages (?prot div ?p) (?k div ?p) \<union> page_slots ?p (set (drop (?k div ?p) pages))"
    using pages_in_split [of "?prot div ?p" "?k div ?p" "max (length pages) (?k div ?p)" ?p pages] hD(5) by (simp add: div_le_mono)
  have as4: "kv_slots c4 al' = kv_slots c1 al'" using s2(6) by (simp add: kv_slots_def)
  have own: "page_slots (page_size c4) (set (drop (?k div page_size c4) pages)) \<inter> kv_slots c4 al' = {}"
    using hD(6) drop pages_in_disjoint [OF p dp order_refl, of "?prot div ?p" "?k div ?p" "length pages"] by (auto simp: as4 as1 sel4 sel1)
  obtain pages' where held': "holds_kv c4 al' rp' r' ?toks pages' n" "drop (?k div page_size c4) pages' = drop (?k div page_size c4) pages"
  proof (rule holds_kv_moved [OF s2(5) _ full(2), where pages = pages and entries = entries and r' = r' and rp' = rp' and row = row and toks = ?toks and n = n])
    show "req_radix_key c4 r' ?toks = key" by (simp add: key_def req_radix_key_def sel4 sel1 r'_def)
  qed (use own cont4 full(1) hD(1,2,3) kn kl(1) row in \<open>auto simp: r'_def rp'_def sel4 sel1 key_def [symmetric]\<close>)
  have "kv_slots c4 al' \<union> page_slots ?p (set (drop (?k div ?p) pages')) = kv_slots ?c (kv m) \<union> page_slots ?p (set (drop (?prot div ?p) pages))"
    using held'(2) drop by (auto simp: as4 as1 sel4 sel1)
  then show ?thesis using run s2(5) held'(1)
    by (intro exI [of _ "m\<lparr>cache := c4, kv := al', pool := rp'\<rparr>"] exI [of _ r'] exI [of _ pages'] exI [of _ "last_device_node mr"])
      (simp add: r'_def key_def)
qed

end
