(* ===== verification/MemExtend.thy ===== *)
theory MemExtend
  imports MemAlloc MemUnfinished
begin

text \<open>
  What \<open>alloc_for_extend\<close> does. A request of the batch comes with a prefix whose cached part is locked
  and whose other pages are its own; afterwards it holds its KV: its row names the prefix and
  new slots on its last page and on pages taken from the pool, which no other request has.
\<close>

section \<open>Eviction before an allocation\<close>

lemma al_ok_pool: "al_ok a \<Longrightarrow> pool_ok a"
  by (auto simp: al_ok_def paged_ok_def tok_ok_def split: if_splits)

lemma available_card: "al_ok a \<Longrightarrow> available_size a = card (pool_slots a)"
  using card_pool_slots [OF al_ok_pool, of a]
  by (auto simp: available_size_def pool_pages_def al_ok_def tok_ok_def split: if_splits)

lemma card_simple:
  assumes "\<And>x. count F x \<le> 1"
  shows "card (set_mset F) = size F"
proof -
  have "count F x = 1" if "x \<in># F" for x using that assms [of x] by (metis count_greater_eq_one_iff le_antisym)
  then have "sum (count F) (set_mset F) = card (set_mset F)" by simp
  then show ?thesis by (simp add: size_multiset_overloaded_eq)
qed

lemma evict_from_tree_cache_ok:
  assumes ok: "mem_ok H (cache m) (kv m)" and en: "\<not> disable (cache m)"
  obtains m' where "evict_from_tree_cache n m = Inr m'" "mem_ok H (cache m') (kv m')" "pool m' = pool m"
    "kv_slots (cache m') (kv m') = kv_slots (cache m) (kv m)" "page_size (cache m') = page_size (cache m)"
    "is_eagle (cache m') = is_eagle (cache m)" "\<not> disable (cache m')"
    "\<And>l ns qs. l \<in># H \<Longrightarrow> reach (root_node (cache m)) l ns qs \<Longrightarrow> reach (root_node (cache m')) l ns qs"
    "int n \<le> int (available_size (kv m)) + evictable_size (acct (cache m)) \<Longrightarrow> n \<le> available_size (kv m')"
    "available_size (kv m) \<le> available_size (kv m')"
proof (cases "available_size (kv m) < n")
  case False
  then have "evict_from_tree_cache n m = Inr m" by (simp add: evict_from_tree_cache_def)
  then show ?thesis using that [of m] ok en False by simp
next
  case True
  obtain c al k where e: "rc_evict (int n - int (available_size (kv m))) (cache m) (kv m) = Inr (c, al, k)" "mem_ok H c al"
    "evicted_to (page_size (cache m)) H (root_node (cache m)) (acct (cache m)) (kv m) (root_node c) (acct c) al k"
    "int n - int (available_size (kv m)) \<le> int k \<or> evictable_size (acct c) = 0"
    "c = (cache m)\<lparr>root_node := root_node c, acct := acct c\<rparr>"
    using rc_evict_correct [OF ok en] by metis
  let ?m = "m\<lparr>cache := c, kv := al\<rparr>"
  obtain F where F: "tslots (root_node (cache m)) = tslots (root_node c) + F" "pool_slots al = pool_slots (kv m) \<union> set_mset F" "size F = k"
    and ev: "evictable_size (acct c) = evictable_size (acct (cache m)) - int k"
    using e(3) unfolding evicted_to_def by blast
  have alok: "al_ok (kv m)" "al_ok al" and disj: "set_mset (tslots (root_node (cache m))) \<inter> pool_slots (kv m) = {}"
    and one: "\<And>x. count (tslots (root_node (cache m))) x \<le> 1"
    using ok e(2) by (auto simp: mem_ok_def)
  have "count F x \<le> 1" for x using one [of x] F(1) by simp
  then have "card (set_mset F) = k" using F(3) card_simple by blast
  moreover have "set_mset F \<inter> pool_slots (kv m) = {}" using disj F(1) by auto
  ultimately have avail: "available_size al = available_size (kv m) + k"
    using available_card alok F(2) finite_pool_slots [OF al_ok_page [OF alok(1)]]
    by (simp add: card_Un_disjoint inf_commute)
  show ?thesis
  proof (rule that [of ?m])
    show "evict_from_tree_cache n m = Inr ?m" using True e(1) by (simp add: evict_from_tree_cache_def Let_def map_res_def)
    show "kv_slots (cache ?m) (kv ?m) = kv_slots (cache m) (kv m)" using F(1,2) by (auto simp: kv_slots_def)
    show "page_size (cache ?m) = page_size (cache m)" "is_eagle (cache ?m) = is_eagle (cache m)" "\<not> disable (cache ?m)"
      using en by (simp_all, (subst e(5), simp)+)
    show "reach (root_node (cache ?m)) l ns qs" if "l \<in># H" "reach (root_node (cache m)) l ns qs" for l ns qs
      using that e(3) unfolding evicted_to_def by (cases ns) auto
    show "n \<le> available_size (kv ?m)" if "int n \<le> int (available_size (kv m)) + evictable_size (acct (cache m))"
      using that e(4) ev avail by auto
  qed (use e(2) avail in simp_all)
qed

section \<open>Handing out slots\<close>

text \<open>\<open>handed_out\<close>: request \<open>i\<close> has got the pages \<open>news ! i\<close> of the pool, and its new tokens the slots at
  their place on its old and new pages.\<close>

definition handed_out :: "kv_alloc \<Rightarrow> kv_alloc \<Rightarrow> (nat \<times> nat) list \<Rightarrow> nat list list \<Rightarrow> nat list \<Rightarrow> nat list list \<Rightarrow> bool" where
  "handed_out al al' lens pgs out news \<longleftrightarrow>
     al_ok al' \<and> al_page_size al' = al_page_size al \<and> length news = length lens \<and> distinct (concat news) \<and>
     set (concat news) \<subseteq> set (pool_pages al) \<and> set (pool_pages al') = set (pool_pages al) - set (concat news) \<and>
     length out = out_start lens (length lens) \<and>
     (\<forall>i < length lens. length (news ! i) = new_pages (al_page_size al) (lens ! i) \<and>
        (\<forall>t. fst (lens ! i) \<le> t \<and> t < snd (lens ! i) \<longrightarrow>
           out ! (out_start lens i + (t - fst (lens ! i))) =
           (pgs ! i @ news ! i) ! (t div al_page_size al) * al_page_size al + t mod al_page_size al))"

text \<open>Cutting a list at the sums of lengths.\<close>

definition cuts :: "(nat \<Rightarrow> nat) \<Rightarrow> nat \<Rightarrow> 'a list \<Rightarrow> 'a list list" where
  "cuts st n xs = map (\<lambda>i. slice (st i) (st (Suc i)) xs) [0..<n]"

lemma concat_cuts:
  assumes "\<And>i j. i \<le> j \<Longrightarrow> st i \<le> st j" "st 0 = 0"
  shows "concat (cuts st n xs) = take (st n) xs"
proof (induction n)
  case (Suc n)
  have "take (st (Suc n)) xs = take (st n) xs @ slice (st n) (st (Suc n)) xs"
    using assms(1) [of n "Suc n"] by (metis le_SucI le_add_diff_inverse order_refl slice_def take_add)
  then show ?case using Suc by (simp add: cuts_def)
qed (simp add: cuts_def assms(2))

lemma slots_of_pages:
  assumes p: "0 < p" and len: "length pgs = pages_of p pre" and t: "pre \<le> t" "t < sq"
    and ll: "ll = (if pre = 0 then - 1 else int (pgs ! ((pre - 1) div p) * p + (pre - 1) mod p))"
    and new: "\<And>k. k < new_pages p (pre, sq) \<Longrightarrow> new ! k = fp ! (st + k)"
  shows "ext_slot p fp st ll pre t = (pgs @ new) ! (t div p) * p + t mod p"
proof (cases "t < pages_of p pre * p")
  case True
  have "pre \<noteq> 0" using True pages_of_eq [OF p, of 0] by (cases "pre = 0") auto
  define x where "x = pgs ! ((pre - 1) div p) * p + (pre - 1) mod p"
  have llx: "ll = int x" using ll \<open>pre \<noteq> 0\<close> by (simp only: x_def if_False)
  then have l1: "nat (ll + 1) = x + 1" by simp
  have al: "nat (ll + 1) mod p = pre mod p"
    unfolding l1 x_def using \<open>pre \<noteq> 0\<close> mod_Suc_eq [of "pre - 1" p] by (metis Suc_eq_plus1 Suc_pred' mod_mult_self3 mod_mod_trivial mod_add_left_eq neq0_conv add.assoc)
  note T = tail_slot [OF p al t(1) True]
  have r: "pre mod p \<noteq> 0" by (rule T(1))
  have d: "(pre - 1) div p = pre div p"
    by (metis One_nat_def r div_Suc neq0_conv Suc_pred' mod_0 \<open>pre \<noteq> 0\<close>)
  have lt: "(pre - 1) mod p < p" using p by simp
  have "nat ll = x" using llx by simp
  then have "nat ll div p = pgs ! (pre div p)" using lt d by (simp add: x_def div_mod_offset(1))
  moreover have "ext_slot p fp st ll pre t = nat (ll + 1) + (t - pre)" using True by (simp add: ext_slot_def)
  ultimately have "ext_slot p fp st ll pre t = pgs ! (t div p) * p + t mod p"
    using T(2,3,4) by (metis div_mult_mod_eq)
  moreover have "t div p < length pgs" using True len p by (simp add: div_less_iff_less_mult)
  ultimately show ?thesis by (simp add: nth_append)
next
  case False
  have le: "pages_of p pre \<le> t div p" using False p by (simp add: less_eq_div_iff_mult_less_eq)
  have "t div p < pages_of p sq" using p t(2) pages_of_bounds(1) [OF p, of sq] by (simp add: div_less_iff_less_mult)
  then have k: "t div p - pages_of p pre < new_pages p (pre, sq)" using le by (simp add: new_pages_def)
  show ?thesis using False le len new [OF k] by (simp add: ext_slot_def nth_append)
qed

lemma page_start_0: "page_start p lens 0 = 0" "out_start lens 0 = 0"
  by (simp_all add: page_start_def out_start_def)

text \<open>The front of the free list of \<open>a1\<close>, which is \<open>al\<close> after a possible merge, handed out to the requests.\<close>

lemma handed_out_front:
  assumes ok: "paged_ok al" and a1: "pool_ok a1" "al_page_size a1 = al_page_size al" "paged a1" "set (pool_pages a1) = set (pool_pages al)"
    and pgs: "\<And>i. i < length lens \<Longrightarrow> length (pgs ! i) = pages_of (al_page_size al) (fst (lens ! i))"
    and locs: "\<And>i. i < length lens \<Longrightarrow> ll ! i = (if fst (lens ! i) = 0 then - 1
        else int (pgs ! i ! ((fst (lens ! i) - 1) div al_page_size al) * al_page_size al + (fst (lens ! i) - 1) mod al_page_size al))"
    and le: "get_num_new_pages (al_page_size al) lens \<le> length (free_pages a1)"
  shows "handed_out al (a1\<lparr>free_pages := drop (get_num_new_pages (al_page_size al) lens) (free_pages a1)\<rparr>) lens pgs
    (all_slots (al_page_size al) (free_pages a1) lens ll (length lens)) (cuts (page_start (al_page_size al) lens) (length lens) (free_pages a1))"
proof -
  let ?p = "al_page_size al" and ?n = "get_num_new_pages (al_page_size al) lens"
  let ?fp = "free_pages a1" and ?a' = "a1\<lparr>free_pages := drop ?n (free_pages a1)\<rparr>"
  let ?out = "all_slots ?p ?fp lens ll (length lens)" and ?news = "cuts (page_start ?p lens) (length lens) ?fp"
  have po: "pool_ok al" "paged al" "0 < ?p" using ok by (auto simp: paged_ok_def pool_ok_def)
  have ps: "page_start ?p lens (length lens) = ?n" by (simp add: page_start_def get_num_new_pages_def)
  have cc: "concat ?news = take ?n ?fp" using concat_cuts [of "page_start ?p lens"] starts_mono(2) page_start_0 ps by metis
  have dt: "distinct (take ?n ?fp @ drop ?n ?fp @ release_pages a1)"
    using a1(1) unfolding pool_ok_def pool_pages_def by (metis append_assoc append_take_drop_id)
  have sp: "set ?fp = set (take ?n ?fp) \<union> set (drop ?n ?fp)" by (metis append_take_drop_id set_append)
  have bound: "page_start ?p lens (Suc i) \<le> length ?fp" "page_start ?p lens (Suc i) = page_start ?p lens i + new_pages ?p (lens ! i)"
    if "i < length lens" for i
    using that starts_Suc(2) [of i lens ?p] starts_mono(2) [of "Suc i" "length lens" ?p lens] ps le by simp_all
  have newlen: "length (?news ! i) = new_pages ?p (lens ! i)" if "i < length lens" for i
    using that bound [OF that] by (simp add: cuts_def slice_def)
  have cut: "?news ! i ! k = ?fp ! (page_start ?p lens i + k)" if "i < length lens" "k < new_pages ?p (lens ! i)" for i k
    using that bound [OF that(1)] by (simp add: cuts_def nth_slice)
  have slot: "?out ! (out_start lens i + (t - fst (lens ! i))) = (pgs ! i @ ?news ! i) ! (t div ?p) * ?p + t mod ?p"
    if i: "i < length lens" "fst (lens ! i) \<le> t" "t < snd (lens ! i)" for i t
  proof -
    have "?out ! (out_start lens i + (t - fst (lens ! i))) = ext_slot ?p ?fp (page_start ?p lens i) (ll ! i) (fst (lens ! i)) t"
      using nth_all_slots [OF i(1) _ order_refl i(1), of "t - fst (lens ! i)"] i by (simp add: req_slots_def ext_len_def)
    also have "\<dots> = (pgs ! i @ ?news ! i) ! (t div ?p) * ?p + t mod ?p"
      by (rule slots_of_pages [OF po(3) pgs [OF i(1)] i(2,3) locs [OF i(1)]]) (use cut [OF i(1)] in simp)
    finally show ?thesis .
  qed
  show ?thesis
    unfolding handed_out_def cc
  proof (intro conjI allI impI)
    show "al_ok ?a'" using a1 dt by (auto simp: al_ok_def paged_ok_def pool_ok_def pool_pages_def)
    show "length ?out = out_start lens (length lens)" by (rule length_all_slots) simp
    show "set (take ?n ?fp) \<subseteq> set (pool_pages al)" using a1(4) sp by (auto simp: pool_pages_def)
    show "set (pool_pages ?a') = set (pool_pages al) - set (take ?n ?fp)"
      using a1(4) [symmetric] sp dt by (auto simp: pool_pages_def)
    show "distinct (take ?n ?fp)" using dt by simp
  qed (use a1(2) slot newlen in \<open>auto simp: cuts_def\<close>)
qed

lemma handed_out_paged:
  assumes ok: "paged_ok al" and lens: "reqs_ok lens" and pids: "mset pids = mset [0..<length lens]"
    and n: "num = out_start lens (length lens)" and ll: "length ll = length lens"
    and tails: "tails_ok (al_page_size al) (set (pool_pages al)) lens ll"
    and pgs: "\<And>i. i < length lens \<Longrightarrow> length (pgs ! i) = pages_of (al_page_size al) (fst (lens ! i))"
    and locs: "\<And>i. i < length lens \<Longrightarrow> ll ! i = (if fst (lens ! i) = 0 then - 1
        else int (pgs ! i ! ((fst (lens ! i) - 1) div al_page_size al) * al_page_size al + (fst (lens ! i) - 1) mod al_page_size al))"
    and enough: "num + length lens * al_page_size al \<le> available_size al"
  shows "\<exists>al' out news. alloc_extend garbage pids lens ll num None al = Inr (al', Some out) \<and> handed_out al al' lens pgs out news"
proof (rule alloc_extend_slots [OF ok lens pids n ll tails])
  let ?p = "al_page_size al" and ?n = "get_num_new_pages (al_page_size al) lens"
  fix a1 assume a1: "pool_ok a1" "al_page_size a1 = ?p" "paged a1" "set (pool_pages a1) = set (pool_pages al)"
    and none: "?n > length (free_pages a1) \<Longrightarrow> alloc_extend garbage pids lens ll num None al = Inr (a1, None) \<and> length (pool_pages al) < ?n"
    and some: "?n \<le> length (free_pages a1) \<Longrightarrow> alloc_extend garbage pids lens ll num None al =
         Inr (a1\<lparr>free_pages := drop ?n (free_pages a1)\<rparr>, Some (all_slots ?p (free_pages a1) lens ll (length lens)))"
  have po: "paged al" "0 < ?p" using ok by (auto simp: paged_ok_def pool_ok_def)
  have "?n * ?p \<le> (num div ?p + length lens) * ?p" using get_num_new_pages_bound [OF po(2) lens] n by (simp add: mult_le_mono1)
  also have "\<dots> \<le> num + length lens * ?p" by (simp add: distrib_right)
  also have "\<dots> \<le> length (pool_pages al) * ?p" using enough po(1) by (simp add: available_size_def pool_pages_def)
  finally have "?n \<le> length (pool_pages al)" using po(2) by simp
  then have le: "?n \<le> length (free_pages a1)" using none by (meson not_le)
  show ?thesis using some [OF le] handed_out_front [OF ok a1 pgs locs le] by blast
qed

lemma handed_out_decode:
  assumes ok: "paged_ok al" and p: "1 < al_page_size al" and pos: "\<forall>s \<in> set seq_lens. 0 < s"
    and pids: "mset pids = mset [0..<length seq_lens]" and ll: "length ll = length seq_lens"
    and tails: "tails_ok (al_page_size al) (set (pool_pages al)) (decode_reqs seq_lens) ll"
    and pgs: "\<And>i. i < length seq_lens \<Longrightarrow> length (pgs ! i) = pages_of (al_page_size al) (seq_lens ! i - 1)"
    and locs: "\<And>i. i < length seq_lens \<Longrightarrow> ll ! i = (if seq_lens ! i - 1 = 0 then - 1
        else int (pgs ! i ! ((seq_lens ! i - 1 - 1) div al_page_size al) * al_page_size al + (seq_lens ! i - 1 - 1) mod al_page_size al))"
    and enough: "get_num_new_pages_decode (al_page_size al) seq_lens * al_page_size al \<le> available_size al"
  shows "\<exists>al' out news. alloc_decode garbage pids seq_lens ll al = Inr (al', Some out) \<and> handed_out al al' (decode_reqs seq_lens) pgs out news"
proof (rule alloc_decode_slots [OF ok p pos pids ll tails])
  let ?p = "al_page_size al" and ?rs = "decode_reqs seq_lens"
  let ?n = "get_num_new_pages ?p ?rs"
  fix a1 assume a1: "pool_ok a1" "al_page_size a1 = ?p" "paged a1" "set (pool_pages a1) = set (pool_pages al)"
    and none: "?n > length (free_pages a1) \<Longrightarrow> alloc_decode garbage pids seq_lens ll al = Inr (a1, None) \<and> length (pool_pages al) < ?n"
    and some: "?n \<le> length (free_pages a1) \<Longrightarrow> alloc_decode garbage pids seq_lens ll al =
         Inr (a1\<lparr>free_pages := drop ?n (free_pages a1)\<rparr>, Some (all_slots ?p (free_pages a1) ?rs ll (length ?rs)))"
  have "paged al" using ok by (simp add: paged_ok_def)
  then have "?n * ?p \<le> length (pool_pages al) * ?p"
    using enough decode_count [OF p pos] by (simp add: available_size_def pool_pages_def)
  then have "?n \<le> length (pool_pages al)" using p by simp
  then have le: "?n \<le> length (free_pages a1)" using none by (meson not_le)
  have at: "?rs ! i = (seq_lens ! i - 1, seq_lens ! i)" if "i < length ?rs" for i using that by (simp add: decode_reqs_def)
  have i: "i < length seq_lens" if "i < length ?rs" for i using that by (simp add: decode_reqs_def)
  have "handed_out al (a1\<lparr>free_pages := drop ?n (free_pages a1)\<rparr>) ?rs pgs (all_slots ?p (free_pages a1) ?rs ll (length ?rs))
      (cuts (page_start ?p ?rs) (length ?rs) (free_pages a1))"
    by (rule handed_out_front [OF ok a1 _ _ le]) (use pgs locs i in \<open>simp_all only: at fst_conv\<close>)
  then show ?thesis using some [OF le] by blast
qed

text \<open>Pages of one slot: the slots are the pages.\<close>

lemma al_alloc_one:
  assumes ok: "al_ok al" and one: "al_page_size al = 1" and enough: "num \<le> available_size al"
  shows "\<exists>al' out. al_alloc num al = Inr (al', Some out) \<and> al_ok al' \<and> al_page_size al' = 1 \<and> length out = num \<and> distinct out \<and>
    set out \<subseteq> set (pool_pages al) \<and> set (pool_pages al') = set (pool_pages al) - set out"
proof -
  have enough': "num \<le> card (pool_slots al)" using enough available_card [OF ok] by simp
  have dvd: "al_page_size al dvd num" using one by simp
  show ?thesis
  proof (cases "paged al")
    case True
    then have good: "paged_ok al" using ok by (simp add: al_ok_def)
    obtain al' out where a: "paged_alloc num al = Inr (al', Some out)" using paged_pool.alloc_succeeds [OF good dvd enough'] by blast
    have "paged_ok al'" "al_page_size al' = 1" using paged_pool.alloc_returns [OF good dvd] a one by auto
    then show ?thesis using paged_pool.alloc_some [OF good dvd a] a True one
      by (auto simp: al_alloc_def al_ok_def paged_ok_def pool_slots_def)
  next
    case False
    then have good: "tok_ok al" using ok by (simp add: al_ok_def)
    obtain al' out where a: "Inr (tok_alloc num al) = (Inr (al', Some out) :: (kv_alloc \<times> nat list option) res)"
      using token_pool.alloc_succeeds [OF good dvd enough'] by blast
    have "tok_ok al'" using token_pool.alloc_returns [OF good dvd] a by auto
    then show ?thesis using token_pool.alloc_some [OF good dvd a] a False one
      by (auto simp: al_alloc_def al_ok_def tok_ok_def pool_slots_def)
  qed
qed

lemma pages_of_one: "pages_of 1 n = n"
  by (simp add: pages_of_def)

lemma handed_out_tokens:
  assumes ok: "al_ok al" and one: "al_page_size al = 1" and lens: "reqs_ok lens" and n: "num = out_start lens (length lens)"
    and pgs: "\<And>i. i < length lens \<Longrightarrow> length (pgs ! i) = fst (lens ! i)" and enough: "num \<le> available_size al"
  shows "\<exists>al' out news. al_alloc num al = Inr (al', Some out) \<and> handed_out al al' lens pgs out news"
proof -
  obtain al' out where a: "al_alloc num al = Inr (al', Some out)" "al_ok al'" "al_page_size al' = 1" "length out = num" "distinct out"
    "set out \<subseteq> set (pool_pages al)" "set (pool_pages al') = set (pool_pages al) - set out"
    using al_alloc_one [OF ok one enough] by blast
  let ?news = "cuts (out_start lens) (length lens) out"
  have cc: "concat ?news = out" using concat_cuts [of "out_start lens"] starts_mono(1) page_start_0(2) a(4) n by (metis order_refl take_all)
  have bound: "out_start lens (Suc i) \<le> length out" if "i < length lens" for i
    using that starts_mono(1) [of "Suc i" "length lens" lens] a(4) n by simp
  have slot: "out ! (out_start lens i + (t - fst (lens ! i))) = (pgs ! i @ ?news ! i) ! t"
    if "i < length lens" "fst (lens ! i) \<le> t" "t < snd (lens ! i)" for i t
    using that bound [of i] starts_Suc(1) [of i lens] pgs [of i]
    by (auto simp: cuts_def slice_def new_pages_def pages_of_def ext_len_def nth_append)
  have len: "length (?news ! i) = new_pages 1 (lens ! i)" if "i < length lens" for i
    using that bound [of i] starts_Suc(1) [of i lens] by (simp add: cuts_def slice_def new_pages_def pages_of_def ext_len_def)
  have "handed_out al al' lens pgs out ?news"
    unfolding handed_out_def cc one using a n slot len by (auto simp: cuts_def)
  then show ?thesis using a(1) by blast
qed

section \<open>Writing the rows\<close>

lemma rp_write_ok:
  assumes "row < length (req_to_token rp)" "a \<le> b" "b \<le> length (req_to_token rp ! row)" "length vs = b - a"
  shows "rp_write row a b vs rp = Inr (rp\<lparr>req_to_token := (req_to_token rp)[row := take a (req_to_token rp ! row) @ vs @ drop b (req_to_token rp ! row)]\<rparr>)"
  using assms by (simp add: rp_write_def slice_def Let_def)

text \<open>The entries of a row that a request of the batch writes.\<close>

definition row_after :: "nat list \<Rightarrow> nat list \<Rightarrow> nat list \<Rightarrow> nat list" where
  "row_after locs new old = locs @ new @ drop (length locs + length new) old"

lemma write_cache_indices_ok:
  assumes "distinct (map fst ws)"
    "\<And>row locs pre sq. (row, locs, pre, sq) \<in> set ws \<Longrightarrow>
       row < length (req_to_token rp) \<and> length locs = pre \<and> pre \<le> sq \<and> sq \<le> length (req_to_token rp ! row)"
    "length out = out_start (map (snd \<circ> snd) ws) (length ws)"
  shows "\<exists>rt. write_cache_indices out ws rp = Inr (rp\<lparr>req_to_token := rt\<rparr>) \<and> length rt = length (req_to_token rp) \<and>
    (\<forall>row. row \<notin> set (map fst ws) \<longrightarrow> rt ! row = req_to_token rp ! row) \<and>
    (\<forall>i < length ws. case ws ! i of (row, locs, pre, sq) \<Rightarrow>
       rt ! row = row_after locs (take (sq - pre) (drop (out_start (map (snd \<circ> snd) ws) i) out)) (req_to_token rp ! row))"
  using assms
proof (induction ws arbitrary: out rp)
  case Nil
  then show ?case by (intro exI [of _ "req_to_token rp"]) simp
next
  case (Cons w ws)
  obtain row locs pre sq where w: "w = (row, locs, pre, sq)" by (metis prod.exhaust)
  let ?old = "req_to_token rp ! row" and ?lens = "map (snd \<circ> snd) ws"
  have r: "row < length (req_to_token rp)" "length locs = pre" "pre \<le> sq" "sq \<le> length ?old" "row \<notin> set (map fst ws)"
    using Cons.prems(1,2) w by auto
  have st: "out_start (map (snd \<circ> snd) (w # ws)) (Suc i) = (sq - pre) + out_start ?lens i" for i
    by (simp add: out_start_def w ext_len_def)
  have "length out = (sq - pre) + out_start ?lens (length ws)" using Cons.prems(3) st [of "length ws"] unfolding length_Cons by (rule trans)
  then have len: "sq - pre \<le> length out" "length (drop (sq - pre) out) = out_start ?lens (length ws)" by simp_all
  define rp2 where "rp2 = rp\<lparr>req_to_token := (req_to_token rp)[row := row_after locs (take (sq - pre) out) ?old]\<rparr>"
  have "rp_write row 0 pre locs rp = Inr (rp\<lparr>req_to_token := (req_to_token rp)[row := locs @ drop pre ?old]\<rparr>)"
    using r by (simp add: rp_write_ok)
  moreover have "rp_write row pre sq (take (sq - pre) out) (rp\<lparr>req_to_token := (req_to_token rp)[row := locs @ drop pre ?old]\<rparr>) = Inr rp2"
    using r len(1) by (simp add: rp_write_ok rp2_def row_after_def)
  ultimately have step: "write_cache_indices out (w # ws) rp = write_cache_indices (drop (sq - pre) out) ws rp2" by (simp add: w bind_res_def)
  have other: "req_to_token rp2 ! x = req_to_token rp ! x" if "x \<noteq> row" for x using that by (simp add: rp2_def)
  have "\<exists>rt. write_cache_indices (drop (sq - pre) out) ws rp2 = Inr (rp2\<lparr>req_to_token := rt\<rparr>) \<and> length rt = length (req_to_token rp2) \<and>
    (\<forall>x. x \<notin> set (map fst ws) \<longrightarrow> rt ! x = req_to_token rp2 ! x) \<and>
    (\<forall>i < length ws. case ws ! i of (x, locs, pre', sq') \<Rightarrow>
       rt ! x = row_after locs (take (sq' - pre') (drop (out_start ?lens i) (drop (sq - pre) out))) (req_to_token rp2 ! x))"
  proof (rule Cons.IH [OF _ _ len(2)])
    show "distinct (map fst ws)" using Cons.prems(1) by simp
    fix x locs' pre' sq' assume in_ws: "(x, locs', pre', sq') \<in> set ws"
    then have "x \<noteq> row" using r(5) by (metis fst_conv image_eqI set_map)
    then show "x < length (req_to_token rp2) \<and> length locs' = pre' \<and> pre' \<le> sq' \<and> sq' \<le> length (req_to_token rp2 ! x)"
      using Cons.prems(2) [of x locs' pre' sq'] in_ws other by (auto simp: rp2_def)
  qed
  then obtain rt where rt: "write_cache_indices (drop (sq - pre) out) ws rp2 = Inr (rp2\<lparr>req_to_token := rt\<rparr>)"
    "length rt = length (req_to_token rp2)" "\<And>x. x \<notin> set (map fst ws) \<Longrightarrow> rt ! x = req_to_token rp2 ! x"
    "\<And>i. i < length ws \<Longrightarrow> case ws ! i of (x, locs, pre', sq') \<Rightarrow>
       rt ! x = row_after locs (take (sq' - pre') (drop (out_start ?lens i) (drop (sq - pre) out))) (req_to_token rp2 ! x)"
    by blast
  have here: "rt ! row = row_after locs (take (sq - pre) out) ?old" using rt(3) [OF r(5)] r(1) by (simp add: rp2_def)
  have rows: "case (w # ws) ! i of (x, locs, pre', sq') \<Rightarrow>
      rt ! x = row_after locs (take (sq' - pre') (drop (out_start (map (snd \<circ> snd) (w # ws)) i) out)) (req_to_token rp ! x)"
    if "i < length (w # ws)" for i
  proof (cases i)
    case 0
    then show ?thesis using here by (simp add: w out_start_def)
  next
    case (Suc j)
    then have j: "j < length ws" using that by simp
    obtain x locs' pre' sq' where wj: "ws ! j = (x, locs', pre', sq')" by (metis prod.exhaust)
    then have "x \<noteq> row" using r(5) nth_mem [OF j] by (metis fst_conv image_eqI set_map)
    then show ?thesis using rt(4) [OF j] other st [of j] wj Suc by (simp add: add.commute)
  qed
  show ?case
  proof (intro exI [of _ rt] conjI allI impI)
    show "write_cache_indices out (w # ws) rp = Inr (rp\<lparr>req_to_token := rt\<rparr>)" unfolding step rt(1) by (simp add: rp2_def)
    show "length rt = length (req_to_token rp)" using rt(2) by (simp add: rp2_def)
    show "rt ! x = req_to_token rp ! x" if "x \<notin> set (map fst (w # ws))" for x using rt(3) [of x] other that w by simp
  qed (rule rows)
qed

section \<open>Rows for the requests\<close>

lemma assign_slots_same:
  assumes "assign_slots rs sel gen = Inr (rs', gen')"
  shows "length rs' = length rs \<and> (\<forall>i < length rs. \<exists>row. rs' ! i = (rs ! i)\<lparr>req_pool_idx := Some row\<rparr>)"
  using assms
proof (induction rs sel gen arbitrary: rs' gen' rule: assign_slots.induct)
  case (2 r rs sel gen)
  obtain r' rs'' where rs': "rs' = r' # rs''" "\<exists>row. r' = r\<lparr>req_pool_idx := Some row\<rparr>"
    "length rs'' = length rs" "\<forall>i < length rs. \<exists>row. rs'' ! i = (rs ! i)\<lparr>req_pool_idx := Some row\<rparr>"
  proof (cases "req_pool_idx r")
    case None
    then obtain s sel' where s: "sel = s # sel'" "s < length gen" using 2(3) by (auto split: list.splits if_splits)
    then obtain rs'' gen'' where "assign_slots rs sel' (gen[s := gen ! s + 1]) = Inr (rs'', gen'')" "rs' = r\<lparr>req_pool_idx := Some s\<rparr> # rs''"
      using 2(3) None by (auto simp: map_res_def split: sum.splits)
    then show ?thesis using 2(1) [OF None s(1) s(2)] that by blast
  next
    case (Some row)
    then obtain rs'' gen'' where e: "assign_slots rs sel gen = Inr (rs'', gen'')" "rs' = r # rs''"
      using 2(3) by (auto simp: map_res_def split: sum.splits)
    have "r = r\<lparr>req_pool_idx := Some row\<rparr>" using Some by simp
    then show ?thesis using 2(2) [OF _ e(1)] Some e(2) that by blast
  qed
  have "\<exists>row. rs' ! i = ((r # rs) ! i)\<lparr>req_pool_idx := Some row\<rparr>" if "i < length (r # rs)" for i
    using that rs' by (cases i) auto
  then show ?case using rs'(1,3) by simp
qed simp

text \<open>The pool of rows beside the rows of the batch: no row is both in use and free.\<close>

definition rows_ok :: "req list \<Rightarrow> req_pool \<Rightarrow> bool" where
  "rows_ok rs rp \<longleftrightarrow> rp_ok rp \<and> distinct (rows_of rs @ free_slots rp) \<and> set (rows_of rs) \<subseteq> {1..rp_size rp} \<and>
     (\<forall>r \<in> set rs. req_pool_idx r \<noteq> None \<longrightarrow> inflight_middle_chunks r > 0 \<or> kv_committed_len r > 0)"

lemma alloc_req_slots_ok:
  assumes rows: "rows_ok rs rp" and enough: "length (filter (\<lambda>r. req_pool_idx r = None) rs) \<le> length (free_slots rp)"
  obtains rp' rs' xs where "alloc_req_slots rs rp = Inr (rp', rs', xs)" "rp_ok rp'" "req_to_token rp' = req_to_token rp"
    "length xs = length rs" "distinct (xs @ free_slots rp')" "set xs \<subseteq> {1..rp_size rp}" "rp_size rp' = rp_size rp"
    "rs' = map2 (\<lambda>r x. r\<lparr>req_pool_idx := Some x\<rparr>) rs xs"
    "mset xs + mset (free_slots rp') = mset (rows_of rs) + mset (free_slots rp)"
proof -
  obtain rp' rs' xs where a: "rp_alloc rs rp = Inr (rp', rs', Some xs)" "rp_ok rp'" "length xs = length rs"
    "mset (rows_of rs') + mset (free_slots rp') = mset (rows_of rs) + mset (free_slots rp)" "xs = rows_of rs'"
    using rp_alloc_some [OF _ _ enough] rows unfolding rows_ok_def by metis
  obtain sel gen where as: "assign_slots rs sel (req_generation rp) = Inr (rs', gen)"
    and rp': "rp' = rp\<lparr>free_slots := free_slots rp', req_generation := gen\<rparr>" and xs: "xs = map (\<lambda>r. the (req_pool_idx r)) rs'"
    using a(1) by (auto simp: rp_alloc_def map_res_def Let_def split: if_splits sum.splits)
  have same: "length rs' = length rs" "\<And>i. i < length rs \<Longrightarrow> \<exists>row. rs' ! i = (rs ! i)\<lparr>req_pool_idx := Some row\<rparr>"
    using assign_slots_same [OF as] by blast+
  have eq: "rs' ! i = (rs ! i)\<lparr>req_pool_idx := Some (xs ! i)\<rparr>" if i: "i < length rs" for i
  proof -
    obtain row where "rs' ! i = (rs ! i)\<lparr>req_pool_idx := Some row\<rparr>" using same(2) [OF i] by blast
    moreover have "xs ! i = the (req_pool_idx (rs' ! i))" using xs same(1) i by simp
    ultimately show ?thesis by simp
  qed
  have "rs' = map2 (\<lambda>r x. r\<lparr>req_pool_idx := Some x\<rparr>) rs xs"
    by (rule nth_equalityI) (use same(1) a(3) eq in auto)
  moreover have m: "mset (xs @ free_slots rp') = mset (rows_of rs @ free_slots rp)" using a(4,5) by simp
  then have "distinct (xs @ free_slots rp')" using rows unfolding rows_ok_def by (metis mset_eq_imp_distinct_iff)
  moreover have "set xs \<subseteq> set (rows_of rs @ free_slots rp)" using mset_eq_setD [OF m] by auto
  then have "set xs \<subseteq> {1..rp_size rp}" using rows by (auto simp: rows_ok_def rp_ok_def)
  moreover have "req_to_token rp' = req_to_token rp" "rp_size rp' = rp_size rp" by (subst rp', simp)+
  moreover have "alloc_req_slots rs rp = Inr (rp', rs', xs)" using a(1) by (simp add: alloc_req_slots_def bind_res_def)
  moreover have "mset xs + mset (free_slots rp') = mset (rows_of rs) + mset (free_slots rp)" using a(4,5) by simp
  ultimately show ?thesis using that a(2,3) by blast
qed

section \<open>Requests before and after\<close>

text \<open>The pages of a request behind the cached part.\<close>

definition own_pages :: "radix_cache \<Rightarrow> req \<Rightarrow> nat list \<Rightarrow> nat set" where
  "own_pages c r pages = set (drop (cache_protected_len r div page_size c) pages)"

text \<open>A request before its slots are allocated: the prefix lies on the given pages, its first part is
  cached under the tokens of the request on the path to the node that the request has locked, and
  the other pages belong to the request alone.\<close>

definition holds_prefix :: "radix_cache \<Rightarrow> kv_alloc \<Rightarrow> req \<Rightarrow> int list \<Rightarrow> nat list \<Rightarrow> bool" where
  "holds_prefix c al r toks pages \<longleftrightarrow>
     prefix_indices r = take (length (prefix_indices r)) (expand_pages (page_size c) pages) \<and>
     length pages = pages_of (page_size c) (length (prefix_indices r)) \<and> distinct pages \<and>
     page_size c dvd cache_protected_len r \<and> cache_protected_len r \<le> length (prefix_indices r) \<and>
     cache_protected_len r \<le> rk_len (req_radix_key c r toks) \<and>
     page_slots (page_size c) (own_pages c r pages) \<inter> kv_slots c al = {} \<and>
     (\<exists>l qs. last_node r = Some l \<and> reach (root_node c) l (rk_ns (req_radix_key c r toks)) qs \<and>
        map fst qs = take (cache_protected_len r) (rk_iter (req_radix_key c r toks)) \<and>
        map snd qs = take (cache_protected_len r) (prefix_indices r))"

lemma req_radix_key_cong:
  "page_size c' = page_size c \<Longrightarrow> is_eagle c' = is_eagle c \<Longrightarrow> req_radix_key c' = req_radix_key c"
  by (simp add: req_radix_key_def fun_eq_iff)

lemma holds_prefix_evicted:
  assumes "holds_prefix c al r toks pages" "page_size c' = page_size c" "is_eagle c' = is_eagle c" "kv_slots c' al' = kv_slots c al"
    and "\<And>l ns qs. l \<in># H \<Longrightarrow> reach (root_node c) l ns qs \<Longrightarrow> reach (root_node c') l ns qs" "the (last_node r) \<in># H"
  shows "holds_prefix c' al' r toks pages"
proof -
  note key = req_radix_key_cong [OF assms(2,3)]
  obtain l qs where l: "last_node r = Some l" "reach (root_node c) l (rk_ns (req_radix_key c r toks)) qs"
    "map fst qs = take (cache_protected_len r) (rk_iter (req_radix_key c r toks))" "map snd qs = take (cache_protected_len r) (prefix_indices r)"
    using assms(1) unfolding holds_prefix_def by blast
  have "reach (root_node c') l (rk_ns (req_radix_key c r toks)) qs" using assms(5) [OF _ l(2)] assms(6) l(1) by simp
  then have "\<exists>l qs. last_node r = Some l \<and> reach (root_node c') l (rk_ns (req_radix_key c r toks)) qs \<and>
      map fst qs = take (cache_protected_len r) (rk_iter (req_radix_key c r toks)) \<and> map snd qs = take (cache_protected_len r) (prefix_indices r)"
    using l(1,3,4) by blast
  then show ?thesis using assms(1) unfolding holds_prefix_def own_pages_def key assms(2,4) by blast
qed

lemma prefix_nth:
  assumes "0 < page_size c" "holds_prefix c al r toks pages" "t < length (prefix_indices r)"
  shows "prefix_indices r ! t = pages ! (t div page_size c) * page_size c + t mod page_size c"
proof -
  have "t < length pages * page_size c"
    using assms pages_of_bounds(1) [OF assms(1), of "length (prefix_indices r)"] by (simp add: holds_prefix_def)
  moreover have "prefix_indices r ! t = expand_pages (page_size c) pages ! t"
    using assms(2,3) unfolding holds_prefix_def by (metis nth_take)
  ultimately show ?thesis by (simp add: nth_expand_pages)
qed

lemma prefix_cached_slots:
  assumes ok: "mem_ok H c al" and h: "holds_prefix c al r toks pages"
  shows "page_slots (page_size c) (set (take (cache_protected_len r div page_size c) pages)) \<subseteq> set_mset (tslots (root_node c))"
proof -
  let ?p = "page_size c" and ?k = "cache_protected_len r"
  have p: "0 < ?p" and wf: "wf_tree ?p (is_eagle c) None (root_node c)" using ok by (auto simp: mem_ok_def cache_ok_def)
  have k: "?p dvd ?k" "?k \<le> length (prefix_indices r)" using h by (auto simp: holds_prefix_def)
  obtain l qs where qs: "reach (root_node c) l (rk_ns (req_radix_key c r toks)) qs" "map snd qs = take ?k (prefix_indices r)"
    using h unfolding holds_prefix_def by blast
  obtain pgs where pgs: "map snd qs = expand_pages ?p pgs" "page_slots ?p (set pgs) \<subseteq> set_mset (tslots (root_node c))"
    using mem_ok_cached_slots [OF ok reach_cached [OF wf qs(1)]] by blast
  have "take ?k (prefix_indices r) = take ?k (expand_pages ?p pages)"
    using h k(2) unfolding holds_prefix_def by (metis min.absorb1 take_take)
  also have "\<dots> = expand_pages ?p (take (?k div ?p) pages)"
    using expand_pages_take_drop(1) [of "?k div ?p" ?p pages] k(1) by simp
  finally have "set (expand_pages ?p (take (?k div ?p) pages)) = set (expand_pages ?p pgs)" using qs(2) pgs(1) by simp
  then show ?thesis using pgs(2) set_expand_pages [OF p] by simp
qed

lemma prefix_not_free:
  assumes ok: "mem_ok H c al" and h: "holds_prefix c al r toks pages"
  shows "set pages \<inter> set (pool_pages al) = {}"
proof -
  let ?p = "page_size c" and ?k = "cache_protected_len r div page_size c"
  have p: "0 < ?p" and ps: "al_page_size al = ?p" and disj: "set_mset (tslots (root_node c)) \<inter> pool_slots al = {}"
    using ok by (auto simp: mem_ok_def cache_ok_def)
  have "set pages = set (take ?k pages) \<union> set (drop ?k pages)" by (metis append_take_drop_id set_append)
  then have "page_slots ?p (set pages) = page_slots ?p (set (take ?k pages)) \<union> page_slots ?p (own_pages c r pages)"
    by (simp add: own_pages_def page_slots_Un)
  moreover have "page_slots ?p (own_pages c r pages) \<inter> pool_slots al = {}" using h by (auto simp: holds_prefix_def kv_slots_def)
  ultimately have "page_slots ?p (set pages) \<inter> page_slots ?p (set (pool_pages al)) = {}"
    using prefix_cached_slots [OF ok h] disj ps by (auto simp: pool_slots_def)
  then show ?thesis by (rule page_slots_disjointD [OF p])
qed

end
