(* ===== verification/MemBatch.thy ===== *)
theory MemBatch
  imports MemExtend
begin

text \<open>
  Allocating for a batch: every request that comes with a prefix leaves with its KV. The pages of
  the batch stay apart from each other, from the tree and from the pool, and no page is lost.
\<close>

section \<open>The last slots of the prefixes\<close>

lemma nth_in_drop: "k \<le> i \<Longrightarrow> i < length xs \<Longrightarrow> xs ! i \<in> set (drop k xs)"
  using nth_mem [of "i - k" "drop k xs"] by simp

lemma prefix_last_loc_eq:
  assumes "0 < page_size c" "holds_prefix c al r toks pages"
  shows "prefix_last_loc r = (if length (prefix_indices r) = 0 then - 1
    else int (pages ! ((length (prefix_indices r) - 1) div page_size c) * page_size c + (length (prefix_indices r) - 1) mod page_size c))"
proof (cases "prefix_indices r = []")
  case False
  then have "last (prefix_indices r) = prefix_indices r ! (length (prefix_indices r) - 1)" by (rule last_conv_nth)
  also have "\<dots> = pages ! ((length (prefix_indices r) - 1) div page_size c) * page_size c + (length (prefix_indices r) - 1) mod page_size c"
    using False by (intro prefix_nth [OF assms]) simp
  finally show ?thesis using False unfolding prefix_last_loc_def by (simp only: length_0_conv if_False)
qed (simp add: prefix_last_loc_def)

text \<open>The slot of token \<open>n - 1\<close>: the next token goes to the same page unless that page is full.\<close>

lemma last_slot:
  assumes p: "0 < p" and n: "0 < n" and l: "l = int (pages ! ((n - 1) div p) * p + (n - 1) mod p)"
  shows "- 1 \<le> l" "nat (l + 1) mod p = n mod p" "n mod p \<noteq> 0 \<Longrightarrow> nat l div p = pages ! (n div p)"
proof -
  show "- 1 \<le> l" unfolding l by linarith
  have nat1: "nat (l + 1) = pages ! ((n - 1) div p) * p + ((n - 1) mod p + 1)" unfolding l by linarith
  have "nat (l + 1) mod p = ((n - 1) mod p + 1) mod p" unfolding nat1 by simp
  also have "\<dots> = (n - 1 + 1) mod p" by (rule mod_add_left_eq)
  finally show "nat (l + 1) mod p = n mod p" using n by simp
  assume r: "n mod p \<noteq> 0"
  have d: "(n - 1) div p = n div p" by (metis One_nat_def r div_Suc neq0_conv Suc_pred' mod_0)
  have lt: "(n - 1) mod p < p" using p by simp
  show "nat l div p = pages ! (n div p)" unfolding l nat_int d by (rule div_mod_offset(1) [OF lt])
qed

lemma last_page:
  assumes "0 < p" "n mod p \<noteq> 0" "length pages = pages_of p n" "k \<le> n"
  shows "pages ! (n div p) \<in> set (drop (k div p) pages)"
  by (rule nth_in_drop) (use assms pages_of_eq [OF assms(1), of n] in \<open>simp_all add: div_le_mono\<close>)

lemma prefix_last_loc_tail:
  assumes p: "0 < page_size c" and h: "holds_prefix c al r toks pages"
  defines "n \<equiv> length (prefix_indices r)" and "l \<equiv> prefix_last_loc r"
  shows "- 1 \<le> l" "nat (l + 1) mod page_size c = n mod page_size c"
    "n mod page_size c \<noteq> 0 \<Longrightarrow> nat l div page_size c \<in> own_pages c r pages"
proof -
  let ?p = "page_size c"
  have l: "0 < n \<Longrightarrow> l = int (pages ! ((n - 1) div ?p) * ?p + (n - 1) mod ?p)"
    using prefix_last_loc_eq [OF p h] unfolding l_def n_def by (simp only: if_False less_numeral_extra(3) neq0_conv [symmetric])
  show "- 1 \<le> l" by (simp add: l_def prefix_last_loc_def)
  show "nat (l + 1) mod ?p = n mod ?p"
    by (cases "n = 0") (use last_slot(2) [OF p _ l] in \<open>auto simp: l_def n_def prefix_last_loc_def\<close>)
  assume r: "n mod ?p \<noteq> 0"
  then have n: "0 < n" by (metis mod_0 neq0_conv)
  have "length pages = pages_of ?p n" "cache_protected_len r \<le> n" using h by (simp_all add: holds_prefix_def n_def)
  then show "nat l div ?p \<in> own_pages c r pages"
    using last_slot(3) [OF p n l [OF n] r] last_page [OF p r] by (simp add: own_pages_def)
qed

section \<open>The batch\<close>

text \<open>A batch that \<open>prepare_for_extend\<close> may allocate for: every request holds its prefix and a lock on it,
  the range to compute ends behind the prefix, within its tokens and within a row, and no page
  belongs to two requests.\<close>

definition extend_ready :: "nat multiset \<Rightarrow> mem_state \<Rightarrow> req \<Rightarrow> nat list \<Rightarrow> bool" where
  "extend_ready H m r pages \<longleftrightarrow> holds_prefix (cache m) (kv m) r (get_fill_ids r) pages \<and> the (last_node r) \<in># H \<and>
     int (length (prefix_indices r)) \<le> extend_end r \<and> extend_end r \<le> int (length (full_untruncated_fill_ids r)) \<and>
     (\<forall>row < length (req_to_token (pool m)). extend_end r \<le> int (length (req_to_token (pool m) ! row)))"

definition batch_ready :: "nat multiset \<Rightarrow> mem_state \<Rightarrow> req list \<Rightarrow> nat list list \<Rightarrow> bool" where
  "batch_ready H m rs pgs \<longleftrightarrow> length pgs = length rs \<and> (\<forall>i < length rs. extend_ready H m (rs ! i) (pgs ! i)) \<and>
     (\<forall>i < length rs. \<forall>j < length rs. i \<noteq> j \<longrightarrow> own_pages (cache m) (rs ! i) (pgs ! i) \<inter> own_pages (cache m) (rs ! j) (pgs ! j) = {})"

lemma extend_ready_lens:
  assumes "extend_ready H m r pages"
  shows "fst (extend_lens_of r) = length (prefix_indices r)" "fst (extend_lens_of r) \<le> snd (extend_lens_of r)"
    "length (get_fill_ids r) = snd (extend_lens_of r)" "0 \<le> extend_end r" "snd (extend_lens_of r) = nat (extend_end r)"
  using assms by (auto simp: extend_ready_def extend_lens_of_def get_fill_ids_def Let_def)

lemma batch_lens:
  assumes "batch_ready H m rs pgs"
  shows "reqs_ok (map extend_lens_of rs)" "num_extend_tokens rs = out_start (map extend_lens_of rs) (length rs)"
proof -
  have r: "\<exists>pages. extend_ready H m r pages" if "r \<in> set rs" for r
    using that assms unfolding batch_ready_def in_set_conv_nth by blast
  have le: "fst (extend_lens_of r) \<le> snd (extend_lens_of r)" if "r \<in> set rs" for r
    using r [OF that] extend_ready_lens(2) by blast
  then show "reqs_ok (map extend_lens_of rs)" by (simp add: reqs_ok_def)
  have "length (drop (length (prefix_indices r)) (get_fill_ids r)) = ext_len (extend_lens_of r)" if in_rs: "r \<in> set rs" for r
  proof -
    obtain pages where "extend_ready H m r pages" using r [OF in_rs] by blast
    then show ?thesis using extend_ready_lens(1,3) by (simp add: ext_len_def)
  qed
  then have "map (\<lambda>r. length (drop (length (prefix_indices r)) (get_fill_ids r))) rs = map (ext_len \<circ> extend_lens_of) rs" by simp
  then show "num_extend_tokens rs = out_start (map extend_lens_of rs) (length rs)"
    by (simp only: num_extend_tokens_def out_start_def take_map take_all order_refl map_map)
qed

lemma batch_tails:
  assumes ok: "mem_ok H (cache m) (kv m)" and b: "batch_ready H m rs pgs"
  shows "tails_ok (page_size (cache m)) (set (pool_pages (kv m))) (map extend_lens_of rs) (map prefix_last_loc rs)"
proof -
  have p: "0 < page_size (cache m)" using ok by (simp add: mem_ok_def cache_ok_def)
  have h: "holds_prefix (cache m) (kv m) (rs ! i) (get_fill_ids (rs ! i)) (pgs ! i)" if "i < length rs" for i
    using b that by (simp add: batch_ready_def extend_ready_def)
  have own: "own_pages (cache m) (rs ! i) (pgs ! i) \<subseteq> set (pgs ! i)" for i unfolding own_pages_def by (rule set_drop_subset)
  have "nat (prefix_last_loc (rs ! i)) div page_size (cache m) \<notin> set (pool_pages (kv m))"
    if "i < length rs" "length (prefix_indices (rs ! i)) mod page_size (cache m) \<noteq> 0" for i
    using prefix_last_loc_tail(3) [OF p h that(2)] prefix_not_free [OF ok h] own that(1) by blast
  moreover have "i = j" if ij: "i < length rs" "j < length rs" "length (prefix_indices (rs ! i)) mod page_size (cache m) \<noteq> 0"
      "length (prefix_indices (rs ! j)) mod page_size (cache m) \<noteq> 0"
      "nat (prefix_last_loc (rs ! i)) div page_size (cache m) = nat (prefix_last_loc (rs ! j)) div page_size (cache m)" for i j
    using prefix_last_loc_tail(3) [OF p h [OF ij(1)] ij(3)] prefix_last_loc_tail(3) [OF p h [OF ij(2)] ij(4)] ij(1,2,5) b
    unfolding batch_ready_def by auto
  ultimately show ?thesis
    using prefix_last_loc_tail(1,2) [OF p h] by (simp add: tails_ok_def extend_lens_of_def)
qed

lemma batch_ready_evicted:
  assumes b: "batch_ready H m rs pgs" and "page_size (cache m') = page_size (cache m)" "is_eagle (cache m') = is_eagle (cache m)"
    "kv_slots (cache m') (kv m') = kv_slots (cache m) (kv m)" "req_to_token (pool m') = req_to_token (pool m)"
    and "\<And>l ns qs. l \<in># H \<Longrightarrow> reach (root_node (cache m)) l ns qs \<Longrightarrow> reach (root_node (cache m')) l ns qs"
  shows "batch_ready H m' rs pgs"
proof -
  have own: "own_pages (cache m') r pages = own_pages (cache m) r pages" for r pages by (simp add: own_pages_def assms(2))
  have "extend_ready H m' r pages" if r: "extend_ready H m r pages" for r pages
  proof -
    have hp: "holds_prefix (cache m) (kv m) r (get_fill_ids r) pages" and l: "the (last_node r) \<in># H"
      using r by (auto simp: extend_ready_def)
    have "holds_prefix (cache m') (kv m') r (get_fill_ids r) pages"
      by (rule holds_prefix_evicted [OF hp assms(2-4) _ l]) (rule assms(6))
    then show ?thesis using r by (simp add: extend_ready_def assms(5))
  qed
  then show ?thesis using b by (simp add: batch_ready_def own)
qed

text \<open>The two ways to get the slots.\<close>

definition alloc_slots :: "(nat \<Rightarrow> nat) \<Rightarrow> nat list \<Rightarrow> req list \<Rightarrow> mem_state \<Rightarrow> (mem_state \<times> nat list) res" where
  "alloc_slots garbage pids rs m =
     (if page_size (cache m) = 1 then alloc_token_slots (num_extend_tokens rs) m
      else alloc_paged_token_slots_extend garbage pids (map extend_lens_of rs) (map prefix_last_loc rs) (num_extend_tokens rs) m)"

lemma alloc_slots_ok:
  assumes ok: "mem_ok H (cache m) (kv m)" and en: "\<not> disable (cache m)" and b: "batch_ready H m rs pgs"
    and pids: "mset pids = mset [0..<length rs]"
    and enough: "int (num_extend_tokens rs + length rs * page_size (cache m)) \<le> int (available_size (kv m)) + evictable_size (acct (cache m))"
  obtains m1 al out news where "alloc_slots garbage pids rs m = Inr (m1\<lparr>kv := al\<rparr>, out)" "mem_ok H (cache m1) (kv m1)" "pool m1 = pool m"
    "kv_slots (cache m1) (kv m1) = kv_slots (cache m) (kv m)" "page_size (cache m1) = page_size (cache m)" "batch_ready H m1 rs pgs"
    "\<not> disable (cache m1)" "handed_out (kv m1) al (map extend_lens_of rs) pgs out news"
proof -
  let ?lens = "map extend_lens_of rs" and ?num = "num_extend_tokens rs" and ?p = "page_size (cache m)"
  define need where "need = (if ?p = 1 then ?num else ?num + length ?lens * al_page_size (kv m))"
  have ps: "al_page_size (kv m) = ?p" using ok by (simp add: mem_ok_def)
  obtain m1 where m1: "evict_from_tree_cache need m = Inr m1" "mem_ok H (cache m1) (kv m1)" "pool m1 = pool m"
    "kv_slots (cache m1) (kv m1) = kv_slots (cache m) (kv m)" "page_size (cache m1) = ?p" "is_eagle (cache m1) = is_eagle (cache m)"
    "\<not> disable (cache m1)" "\<And>l ns qs. l \<in># H \<Longrightarrow> reach (root_node (cache m)) l ns qs \<Longrightarrow> reach (root_node (cache m1)) l ns qs"
    and suff: "int need \<le> int (available_size (kv m)) + evictable_size (acct (cache m)) \<Longrightarrow> need \<le> available_size (kv m1)"
    by (rule evict_from_tree_cache_ok [OF ok en]) blast
  have "int need \<le> int (?num + length rs * ?p)" by (simp add: need_def ps)
  then have avail: "need \<le> available_size (kv m1)" using suff enough by linarith
  have b1: "batch_ready H m1 rs pgs" by (rule batch_ready_evicted [OF b]) (use m1 in auto)
  have al1: "al_ok (kv m1)" "al_page_size (kv m1) = ?p" "0 < ?p" using m1(2,5) by (auto simp: mem_ok_def cache_ok_def)
  have h: "holds_prefix (cache m1) (kv m1) (rs ! i) (get_fill_ids (rs ! i)) (pgs ! i)" if "i < length rs" for i
    using b1 that by (simp add: batch_ready_def extend_ready_def)
  then have len: "length (pgs ! i) = pages_of ?p (fst (?lens ! i))" if "i < length ?lens" for i
    using that m1(5) by (simp add: holds_prefix_def extend_lens_of_def)
  note lens = batch_lens [OF b1]
  show ?thesis
  proof (cases "?p = 1")
    case True
    have "\<exists>al' out news. al_alloc ?num (kv m1) = Inr (al', Some out) \<and> handed_out (kv m1) al' ?lens pgs out news"
      by (rule handed_out_tokens) (use al1 True lens len avail in \<open>auto simp: need_def pages_of_def\<close>)
    then obtain al' out news where a: "al_alloc ?num (kv m1) = Inr (al', Some out)" "handed_out (kv m1) al' ?lens pgs out news" by blast
    have "alloc_slots garbage pids rs m = Inr (m1\<lparr>kv := al'\<rparr>, out)"
      using True m1(1) a(1) by (simp add: alloc_slots_def alloc_token_slots_def bind_res_def or_out_of_memory_def need_def)
    then show ?thesis using that m1 b1 a(2) by blast
  next
    case False
    have "paged (kv m1)" using al1 False by (auto simp: al_ok_def tok_ok_def split: if_splits)
    then have pok: "paged_ok (kv m1)" using al1(1) by (simp add: al_ok_def)
    have "\<exists>al' out news. alloc_extend garbage pids ?lens (map prefix_last_loc rs) ?num None (kv m1) = Inr (al', Some out) \<and>
        handed_out (kv m1) al' ?lens pgs out news"
    proof (rule handed_out_paged [OF pok])
      show "tails_ok (al_page_size (kv m1)) (set (pool_pages (kv m1))) ?lens (map prefix_last_loc rs)"
        using batch_tails [OF m1(2) b1] al1(2) m1(5) by simp
      show "map prefix_last_loc rs ! i = (if fst (?lens ! i) = 0 then - 1
          else int (pgs ! i ! ((fst (?lens ! i) - 1) div al_page_size (kv m1)) * al_page_size (kv m1) + (fst (?lens ! i) - 1) mod al_page_size (kv m1)))"
        if "i < length ?lens" for i
        using prefix_last_loc_eq [OF _ h, of i] that al1 m1(5) by (simp add: extend_lens_of_def)
    qed (use lens len pids avail al1(2) ps False in \<open>auto simp: need_def\<close>)
    then obtain al' out news where a: "alloc_extend garbage pids ?lens (map prefix_last_loc rs) ?num None (kv m1) = Inr (al', Some out)"
      "handed_out (kv m1) al' ?lens pgs out news" by blast
    have "alloc_slots garbage pids rs m = Inr (m1\<lparr>kv := al'\<rparr>, out)"
      using False m1(1) a(1) by (simp add: alloc_slots_def alloc_paged_token_slots_extend_def bind_res_def or_out_of_memory_def need_def Let_def)
    then show ?thesis using that m1 b1 a(2) by blast
  qed
qed

section \<open>Rows laid out in pages\<close>

lemma laid_row_after:
  assumes p: "0 < p" and h: "length pgs = pages_of p (length locs)" "distinct (pgs @ new)"
    and locs: "\<And>t. t < length locs \<Longrightarrow> locs ! t = pgs ! (t div p) * p + t mod p"
    and sq: "length locs \<le> sq" "sq \<le> length old" "length slots = sq - length locs"
    and new: "length new = new_pages p (length locs, sq)"
      "\<And>t. length locs \<le> t \<Longrightarrow> t < sq \<Longrightarrow> slots ! (t - length locs) = (pgs @ new) ! (t div p) * p + t mod p"
  shows "laid p (pgs @ new) (row_after locs slots old) sq"
  unfolding laid_def
proof (intro conjI)
  have len: "length (pgs @ new) = pages_of p sq" using h(1) new(1) pages_of_le [OF p sq(1)] by (simp add: new_pages_def)
  then have cap: "sq \<le> length (pgs @ new) * p" using pages_of_bounds(1) [OF p, of sq] by simp
  show "length (pgs @ new) = pages_of p sq" by (rule len)
  show "sq \<le> length (row_after locs slots old)" using sq by (simp add: row_after_def)
  have row: "take sq (row_after locs slots old) = locs @ slots" using sq by (simp add: row_after_def)
  show "take sq (row_after locs slots old) = take sq (expand_pages p (pgs @ new))"
    unfolding row
  proof (rule nth_equalityI)
    show "length (locs @ slots) = length (take sq (expand_pages p (pgs @ new)))" using sq cap by simp
    fix t assume "t < length (locs @ slots)"
    then have t: "t < sq" using sq by simp
    have e: "take sq (expand_pages p (pgs @ new)) ! t = (pgs @ new) ! (t div p) * p + t mod p"
      using t cap by (simp add: nth_expand_pages)
    show "(locs @ slots) ! t = take sq (expand_pages p (pgs @ new)) ! t"
    proof (cases "t < length locs")
      case True
      have "t div p < length pgs" using True h(1) p pages_of_bounds(1) [OF p, of "length locs"] by (simp add: div_less_iff_less_mult)
      then show ?thesis using e True locs by (simp add: nth_append)
    next
      case False
      then show ?thesis using e new(2) t by (simp add: nth_append)
    qed
  qed
qed (rule h(2))

lemma protected_pages:
  assumes "0 < page_size c" "holds_prefix c al r toks pages"
  shows "cache_protected_len r div page_size c \<le> length pages"
proof -
  have "cache_protected_len r div page_size c \<le> length (prefix_indices r) div page_size c"
    using assms(2) by (simp add: holds_prefix_def div_le_mono)
  also have "\<dots> \<le> length pages" using assms pages_of_eq [OF assms(1), of "length (prefix_indices r)"] by (simp add: holds_prefix_def)
  finally show ?thesis .
qed

lemma own_pages_append:
  assumes "0 < page_size c" "holds_prefix c al r toks pages"
  shows "own_pages c r (pages @ new) = own_pages c r pages \<union> set new"
  using protected_pages [OF assms] by (simp add: own_pages_def)

text \<open>With its new pages and its row a request holds its KV.\<close>

lemma holds_kv_extended:
  assumes ok: "mem_ok H c al" and h: "holds_prefix c al r toks pages" and idx: "req_pool_idx r' = Some row" "row < length (req_to_token rp)"
    and same: "cache_protected_len r' = cache_protected_len r" "req_radix_key c r' toks = req_radix_key c r toks"
    and laid: "laid (page_size c) (pages @ new) (req_to_token rp ! row) n" and len: "length toks \<le> n"
    and pre: "take (length (prefix_indices r)) (req_to_token rp ! row) = prefix_indices r"
    and new: "set new \<subseteq> set (pool_pages al)" "set (pool_pages al') \<subseteq> set (pool_pages al) - set new" "al_page_size al' = al_page_size al"
  shows "holds_kv c al' rp r' toks (pages @ new) n"
proof -
  let ?p = "page_size c" and ?k = "cache_protected_len r"
  have p: "0 < ?p" and ps: "al_page_size al = ?p" and wf: "wf_tree ?p (is_eagle c) None (root_node c)"
    and disj: "set_mset (tslots (root_node c)) \<inter> pool_slots al = {}" using ok by (auto simp: mem_ok_def cache_ok_def)
  have own: "page_slots ?p (own_pages c r pages) \<inter> (set_mset (tslots (root_node c)) \<union> pool_slots al) = {}"
    using h by (simp add: holds_prefix_def kv_slots_def)
  have "page_slots ?p (set new) \<subseteq> pool_slots al" using page_slots_mono [OF new(1)] by (simp add: pool_slots_def ps)
  moreover have "pool_slots al' \<subseteq> pool_slots al - page_slots ?p (set new)"
    using page_slots_mono [OF new(2), of ?p] by (simp add: pool_slots_def ps new(3) page_slots_Diff)
  ultimately have "page_slots ?p (own_pages c r (pages @ new)) \<inter> (set_mset (tslots (root_node c)) \<union> pool_slots al') = {}"
    using own disj unfolding own_pages_append [OF p h] page_slots_Un by blast
  moreover obtain l qs where qs: "reach (root_node c) l (rk_ns (req_radix_key c r toks)) qs"
    "map fst qs = take ?k (rk_iter (req_radix_key c r toks))" "map snd qs = take ?k (prefix_indices r)"
    using h unfolding holds_prefix_def by blast
  have kn: "?k \<le> length (prefix_indices r)" using h by (simp add: holds_prefix_def)
  have "map snd qs = take ?k (req_to_token rp ! row)" using qs(3) pre kn by (metis min.absorb1 take_take)
  ultimately show ?thesis
    unfolding holds_kv_def same using idx laid len h qs(2) reach_cached [OF wf qs(1)]
    by (auto simp: holds_prefix_def own_pages_def)
qed

section \<open>The whole allocation\<close>

text \<open>The pages that the requests of a batch own together.\<close>

definition batch_pages :: "radix_cache \<Rightarrow> req list \<Rightarrow> nat list list \<Rightarrow> nat set" where
  "batch_pages c rs pgs = (\<Union>i < length rs. own_pages c (rs ! i) (pgs ! i))"

definition own_apart :: "radix_cache \<Rightarrow> req list \<Rightarrow> nat list list \<Rightarrow> bool" where
  "own_apart c rs pgs \<longleftrightarrow> (\<forall>i < length rs. \<forall>j < length rs. i \<noteq> j \<longrightarrow> own_pages c (rs ! i) (pgs ! i) \<inter> own_pages c (rs ! j) (pgs ! j) = {})"

lemma set_concat_nth: "set (concat xss) = (\<Union>i < length xss. set (xss ! i))"
  unfolding set_concat set_conv_nth [of xss] by auto

lemma distinct_concat_disjoint:
  assumes "distinct (concat xss)" "i < length xss" "j < length xss" "i \<noteq> j"
  shows "set (xss ! i) \<inter> set (xss ! j) = {}"
  using assms
proof (induction xss arbitrary: i j)
  case (Cons xs xss)
  have "set xs \<inter> set (xss ! k) = {}" if "k < length xss" for k
    using Cons.prems(1) nth_mem [OF that] by auto
  then show ?case using Cons by (cases i; cases j) auto
qed simp

text \<open>Handing out pages of the pool keeps the pages of the requests apart and loses none.\<close>

lemma pages_handed_out:
  assumes ok: "mem_ok H c al0" and out: "handed_out al0 al lens pgs slots news" "length lens = length rs" "length pgs = length rs"
    and prot: "\<And>i. i < length rs \<Longrightarrow> cache_protected_len (rs ! i) div page_size c \<le> length (pgs ! i)"
    and free: "\<And>i. i < length rs \<Longrightarrow> own_pages c (rs ! i) (pgs ! i) \<inter> set (pool_pages al0) = {}" and apart: "own_apart c rs pgs"
    and same: "length rs' = length rs" "\<And>i. i < length rs \<Longrightarrow> cache_protected_len (rs' ! i) = cache_protected_len (rs ! i)"
  defines "pgs' \<equiv> map2 (@) pgs news"
  shows "own_apart c rs' pgs'" "mem_ok H c al" "pool_slots al = pool_slots al0 - page_slots (page_size c) (set (concat news))"
    "\<And>i. i < length rs \<Longrightarrow> own_pages c (rs' ! i) (pgs' ! i) = own_pages c (rs ! i) (pgs ! i) \<union> set (news ! i)"
    "kv_slots c al \<union> page_slots (page_size c) (batch_pages c rs' pgs') = kv_slots c al0 \<union> page_slots (page_size c) (batch_pages c rs pgs)"
proof -
  let ?p = "page_size c" and ?N = "set (concat news)"
  have ps: "al_page_size al0 = ?p" and disj: "set_mset (tslots (root_node c)) \<inter> pool_slots al0 = {}" using ok by (auto simp: mem_ok_def)
  have n: "length news = length rs" "distinct (concat news)" "?N \<subseteq> set (pool_pages al0)"
    "set (pool_pages al) = set (pool_pages al0) - ?N" "al_ok al" "al_page_size al = ?p"
    using out ps by (auto simp: handed_out_def)
  show own: "own_pages c (rs' ! i) (pgs' ! i) = own_pages c (rs ! i) (pgs ! i) \<union> set (news ! i)" if "i < length rs" for i
    using prot [OF that] same(2) that n(1) out(3) by (simp add: pgs'_def own_pages_def)
  have nn: "set (news ! i) \<subseteq> ?N" if "i < length rs" for i using that n(1) nth_mem by fastforce
  show "own_apart c rs' pgs'"
    unfolding own_apart_def same(1)
  proof (intro allI impI)
    fix i j assume ij: "i < length rs" "j < length rs" "i \<noteq> j"
    have "set (news ! i) \<inter> set (news ! j) = {}" using distinct_concat_disjoint [OF n(2)] ij n(1) by simp
    moreover have "own_pages c (rs ! i) (pgs ! i) \<inter> own_pages c (rs ! j) (pgs ! j) = {}" using apart ij by (simp add: own_apart_def)
    ultimately show "own_pages c (rs' ! i) (pgs' ! i) \<inter> own_pages c (rs' ! j) (pgs' ! j) = {}"
      unfolding own [OF ij(1)] own [OF ij(2)] using free [OF ij(1)] free [OF ij(2)] nn [OF ij(1)] nn [OF ij(2)] n(3) by blast
  qed
  show pool: "pool_slots al = pool_slots al0 - page_slots ?p ?N" using n(4,6) by (simp add: pool_slots_def ps page_slots_Diff)
  have sub: "page_slots ?p ?N \<subseteq> pool_slots al0" using page_slots_mono [OF n(3)] by (simp add: pool_slots_def ps)
  show "mem_ok H c al" by (rule mem_ok_alloc [OF ok n(5)]) (use n(6) ps pool disj in auto)
  have "batch_pages c rs' pgs' = batch_pages c rs pgs \<union> ?N"
    using own unfolding batch_pages_def same(1) set_concat_nth n(1) by auto
  then show "kv_slots c al \<union> page_slots ?p (batch_pages c rs' pgs') = kv_slots c al0 \<union> page_slots ?p (batch_pages c rs pgs)"
    using pool sub by (auto simp: kv_slots_def page_slots_Un)
qed

lemma batch_pages_extended:
  assumes ok: "mem_ok H (cache m) (kv m)" and b: "batch_ready H m rs pgs" and out: "handed_out (kv m) al lens pgs slots news" "length lens = length rs"
    and same: "length rs' = length rs" "\<And>i. i < length rs \<Longrightarrow> cache_protected_len (rs' ! i) = cache_protected_len (rs ! i)"
  defines "pgs' \<equiv> map2 (@) pgs news"
  shows "own_apart (cache m) rs' pgs'" "mem_ok H (cache m) al"
    "kv_slots (cache m) al \<union> page_slots (page_size (cache m)) (batch_pages (cache m) rs' pgs') =
     kv_slots (cache m) (kv m) \<union> page_slots (page_size (cache m)) (batch_pages (cache m) rs pgs)"
proof -
  let ?c = "cache m"
  have p: "0 < page_size ?c" using ok by (simp add: mem_ok_def cache_ok_def)
  have h: "holds_prefix ?c (kv m) (rs ! i) (get_fill_ids (rs ! i)) (pgs ! i)" if "i < length rs" for i
    using b that by (simp add: batch_ready_def extend_ready_def)
  have prot: "cache_protected_len (rs ! i) div page_size ?c \<le> length (pgs ! i)" if "i < length rs" for i
    by (rule protected_pages [OF p h [OF that]])
  have free: "own_pages ?c (rs ! i) (pgs ! i) \<inter> set (pool_pages (kv m)) = {}" if "i < length rs" for i
    using prefix_not_free [OF ok h [OF that]] unfolding own_pages_def by (meson disjoint_iff in_set_dropD)
  have apart: "own_apart ?c rs pgs" and len: "length pgs = length rs" using b by (auto simp: batch_ready_def own_apart_def)
  show "own_apart ?c rs' pgs'" "mem_ok H ?c al"
    "kv_slots ?c al \<union> page_slots (page_size ?c) (batch_pages ?c rs' pgs') = kv_slots ?c (kv m) \<union> page_slots (page_size ?c) (batch_pages ?c rs pgs)"
    using pages_handed_out [OF ok out len prot free apart same] unfolding pgs'_def by blast+
qed

lemma map2_rows:
  assumes "length xs = length rs"
  shows "map fst (map2 (\<lambda>x r. (x, f r, g r)) xs rs) = xs" "map (snd \<circ> snd) (map2 (\<lambda>x r. (x, f r, g r)) xs rs) = map g rs"
  using assms by (induction xs rs rule: list_induct2) simp_all

lemma alloc_for_extend_steps:
  assumes ok: "mem_ok H (cache m) (kv m)" and en: "\<not> disable (cache m)" and b: "batch_ready H m (map base_req hs) pgs"
    and rows: "rows_ok (map base_req hs) (pool m)" and pids: "mset pids = mset [0..<length hs]"
    and free: "length (filter (\<lambda>h. req_pool_idx (base_req h) = None) hs) \<le> length (free_slots (pool m))"
    and enough: "int (num_extend_tokens (map base_req hs) + length hs * page_size (cache m)) \<le> int (available_size (kv m)) + evictable_size (acct (cache m))"
  obtains m1 al out news rt xs rp where
    "alloc_for_extend garbage pids hs m = Inr (m1\<lparr>kv := al, pool := rp\<lparr>req_to_token := rt\<rparr>\<rparr>,
       map2 (\<lambda>h x. h\<lparr>base_req := (base_req h)\<lparr>req_pool_idx := Some x\<rparr>, req_kv := Some (set_allocated_len (nat (extend_end (base_req h))) (req_kv h))\<rparr>) hs xs, out)"
    "mem_ok H (cache m1) (kv m1)" "page_size (cache m1) = page_size (cache m)" "kv_slots (cache m1) (kv m1) = kv_slots (cache m) (kv m)"
    "batch_ready H m1 (map base_req hs) pgs" "handed_out (kv m1) al (map (extend_lens_of \<circ> base_req) hs) pgs out news"
    "length xs = length hs" "distinct (xs @ free_slots rp)" "rp_ok rp" "length rt = length (req_to_token (pool m))" "set xs \<subseteq> {1..rp_size (pool m)}"
    "\<And>i. i < length hs \<Longrightarrow> rt ! (xs ! i) = row_after (prefix_indices (base_req (hs ! i)))
       (take (ext_len (extend_lens_of (base_req (hs ! i)))) (drop (out_start (map (extend_lens_of \<circ> base_req) hs) i) out))
       (req_to_token (pool m) ! (xs ! i))"
    "\<And>row. row \<notin> set xs \<Longrightarrow> rt ! row = req_to_token (pool m) ! row"
proof -
  let ?rs = "map base_req hs" and ?lens = "map (extend_lens_of \<circ> base_req) hs"
  have lens: "map extend_lens_of ?rs = ?lens" by simp
  have free': "length (filter (\<lambda>r. req_pool_idx r = None) ?rs) \<le> length (free_slots (pool m))" using free by (simp add: filter_map comp_def)
  obtain rp rs' xs where rq: "alloc_req_slots ?rs (pool m) = Inr (rp, rs', xs)" "rp_ok rp" "req_to_token rp = req_to_token (pool m)"
    "length xs = length ?rs" "distinct (xs @ free_slots rp)" "set xs \<subseteq> {1..rp_size (pool m)}" "rs' = map2 (\<lambda>r x. r\<lparr>req_pool_idx := Some x\<rparr>) ?rs xs"
    using alloc_req_slots_ok [OF rows free'] by metis
  let ?m0 = "m\<lparr>pool := rp\<rparr>"
  have ok0: "mem_ok H (cache ?m0) (kv ?m0)" and en0: "\<not> disable (cache ?m0)" using ok en by simp_all
  have b0: "batch_ready H ?m0 ?rs pgs" by (rule batch_ready_evicted [OF b]) (simp_all add: rq(3))
  have pids0: "mset pids = mset [0..<length ?rs]" using pids by simp
  have enough0: "int (num_extend_tokens ?rs + length ?rs * page_size (cache ?m0)) \<le> int (available_size (kv ?m0)) + evictable_size (acct (cache ?m0))"
    using enough by simp
  obtain m1 al out news where s: "alloc_slots garbage pids ?rs ?m0 = Inr (m1\<lparr>kv := al\<rparr>, out)" "mem_ok H (cache m1) (kv m1)" "pool m1 = pool ?m0"
    "kv_slots (cache m1) (kv m1) = kv_slots (cache ?m0) (kv ?m0)" "page_size (cache m1) = page_size (cache ?m0)" "batch_ready H m1 ?rs pgs"
    "handed_out (kv m1) al (map extend_lens_of ?rs) pgs out news"
    by (rule alloc_slots_ok [OF ok0 en0 b0 pids0 enough0]) blast
  note ho = s(7) [unfolded lens]
  let ?ws = "map2 (\<lambda>row r. (row, prefix_indices r, extend_lens_of r)) xs ?rs"
  have ws: "length ?ws = length hs" "map fst ?ws = xs" "map (snd \<circ> snd) ?ws = ?lens"
    "\<And>i. i < length hs \<Longrightarrow> ?ws ! i = (xs ! i, prefix_indices (base_req (hs ! i)), extend_lens_of (base_req (hs ! i)))"
    using map2_rows [of xs ?rs prefix_indices extend_lens_of] rq(4) by simp_all
  have tab: "xs ! i < length (req_to_token (pool m))" if "i < length hs" for i
  proof -
    have "xs ! i \<in> {1..rp_size (pool m)}" using that rq(4,6) nth_mem [of i xs] by (metis length_map subsetD)
    then show ?thesis using rows by (simp add: rows_ok_def rp_ok_def)
  qed
  have "\<exists>rt. write_cache_indices out ?ws rp = Inr (rp\<lparr>req_to_token := rt\<rparr>) \<and> length rt = length (req_to_token rp) \<and>
    (\<forall>row. row \<notin> set (map fst ?ws) \<longrightarrow> rt ! row = req_to_token rp ! row) \<and>
    (\<forall>i < length ?ws. case ?ws ! i of (row, locs, pre, sq) \<Rightarrow>
       rt ! row = row_after locs (take (sq - pre) (drop (out_start (map (snd \<circ> snd) ?ws) i) out)) (req_to_token rp ! row))"
  proof (rule write_cache_indices_ok)
    show "distinct (map fst ?ws)" using rq(5) ws(2) by simp
    show "length out = out_start (map (snd \<circ> snd) ?ws) (length ?ws)" unfolding ws(1,3) using ho by (simp add: handed_out_def)
    fix row locs pre sq assume "(row, locs, pre, sq) \<in> set ?ws"
    then obtain i where at: "i < length ?ws" "?ws ! i = (row, locs, pre, sq)" unfolding in_set_conv_nth by blast
    then have i: "i < length hs" "(row, locs, pre, sq) = (xs ! i, prefix_indices (base_req (hs ! i)), extend_lens_of (base_req (hs ! i)))"
      using ws(1) ws(4) [of i] by simp_all
    have "extend_ready H m (base_req (hs ! i)) (pgs ! i)" using b i(1) by (simp add: batch_ready_def)
    then show "row < length (req_to_token rp) \<and> length locs = pre \<and> pre \<le> sq \<and> sq \<le> length (req_to_token rp ! row)"
      using i tab [OF i(1)] rq(3) by (auto simp: extend_ready_def extend_lens_of_def)
  qed
  then obtain rt where rt: "write_cache_indices out ?ws rp = Inr (rp\<lparr>req_to_token := rt\<rparr>)" "length rt = length (req_to_token rp)"
    "\<And>row. row \<notin> set (map fst ?ws) \<Longrightarrow> rt ! row = req_to_token rp ! row"
    "\<And>i. i < length ?ws \<Longrightarrow> case ?ws ! i of (row, locs, pre, sq) \<Rightarrow>
       rt ! row = row_after locs (take (sq - pre) (drop (out_start (map (snd \<circ> snd) ?ws) i) out)) (req_to_token rp ! row)" by blast
  let ?upd = "\<lambda>h x. h\<lparr>base_req := (base_req h)\<lparr>req_pool_idx := Some x\<rparr>, req_kv := Some (set_allocated_len (nat (extend_end (base_req h))) (req_kv h))\<rparr>"
  have hs': "map2 (\<lambda>h r. h\<lparr>base_req := r, req_kv := Some (set_allocated_len (nat (extend_end r)) (req_kv h))\<rparr>) hs rs' = map2 ?upd hs xs"
    by (rule nth_equalityI) (use rq(4,7) in simp_all)
  have slots: "(if page_size (cache m) = 1 then alloc_token_slots (num_extend_tokens ?rs) ?m0
      else alloc_paged_token_slots_extend garbage pids (map extend_lens_of ?rs) (map prefix_last_loc ?rs) (num_extend_tokens ?rs) ?m0) = Inr (m1\<lparr>kv := al\<rparr>, out)"
    using s(1) by (simp add: alloc_slots_def)
  have pool1: "pool (m1\<lparr>kv := al\<rparr>) = rp" using s(3) by simp
  have call: "alloc_for_extend garbage pids hs m = Inr (m1\<lparr>kv := al, pool := rp\<lparr>req_to_token := rt\<rparr>\<rparr>, map2 ?upd hs xs, out)"
    unfolding alloc_for_extend_def Let_def rq(1) bind_res_simps prod.case slots pool1 rt(1) hs' by simp
  show ?thesis
  proof (rule that [OF call s(2) _ _ s(6) ho])
    show "rt ! (xs ! i) = row_after (prefix_indices (base_req (hs ! i)))
        (take (ext_len (extend_lens_of (base_req (hs ! i)))) (drop (out_start ?lens i) out)) (req_to_token (pool m) ! (xs ! i))" if "i < length hs" for i
      using rt(4) [of i] that unfolding ws(1,3) ws(4) [OF that] by (simp add: extend_lens_of_def ext_len_def rq(3))
    show "rt ! row = req_to_token (pool m) ! row" if "row \<notin> set xs" for row using rt(3) [of row] that unfolding ws(2) by (simp add: rq(3))
  qed (use s rq rt(2) in simp_all)
qed

lemma req_radix_key_row [simp]: "req_radix_key c (r\<lparr>req_pool_idx := x\<rparr>) toks = req_radix_key c r toks"
  by (simp add: req_radix_key_def)

lemma handed_out_room:
  assumes "handed_out al al' lens pgs out news" "i < length lens"
  shows "out_start lens i + ext_len (lens ! i) \<le> length out"
  using assms starts_Suc(1) [of i lens] starts_mono(1) [of "Suc i" "length lens" lens] by (simp add: handed_out_def)

lemma handed_out_slots:
  assumes "handed_out al al' lens pgs out news" "i < length lens" "fst (lens ! i) \<le> t" "t < snd (lens ! i)"
  defines "slots \<equiv> take (ext_len (lens ! i)) (drop (out_start lens i) out)"
  shows "slots ! (t - fst (lens ! i)) = (pgs ! i @ news ! i) ! (t div al_page_size al) * al_page_size al + t mod al_page_size al"
proof -
  have "slots ! (t - fst (lens ! i)) = out ! (out_start lens i + (t - fst (lens ! i)))"
    using assms(3,4) handed_out_room [OF assms(1,2)] by (simp add: slots_def ext_len_def)
  then show "slots ! (t - fst (lens ! i)) = (pgs ! i @ news ! i) ! (t div al_page_size al) * al_page_size al + t mod al_page_size al"
    using assms(1-4) by (simp add: handed_out_def)
qed

lemma extended_request:
  assumes ok: "mem_ok H (cache m) (kv m)" and r: "extend_ready H m (rs ! i) (pgs ! i)" and i: "i < length rs"
    and ho: "handed_out (kv m) al (map extend_lens_of rs) pgs out news"
    and row: "row < length rt" "rt ! row = row_after (prefix_indices (rs ! i))
       (take (ext_len (extend_lens_of (rs ! i))) (drop (out_start (map extend_lens_of rs) i) out)) old"
    and old: "extend_end (rs ! i) \<le> int (length old)"
  shows "holds_kv (cache m) al (rp\<lparr>req_to_token := rt\<rparr>) ((rs ! i)\<lparr>req_pool_idx := Some row\<rparr>) (get_fill_ids (rs ! i)) (pgs ! i @ news ! i) (nat (extend_end (rs ! i)))"
proof -
  let ?r = "rs ! i" and ?lens = "map extend_lens_of rs" and ?p = "page_size (cache m)" and ?c = "cache m"
  let ?slots = "take (ext_len (extend_lens_of ?r)) (drop (out_start ?lens i) out)"
  have p: "0 < ?p" and ps: "al_page_size (kv m) = ?p" using ok by (auto simp: mem_ok_def cache_ok_def)
  have h: "holds_prefix ?c (kv m) ?r (get_fill_ids ?r) (pgs ! i)" using r by (simp add: extend_ready_def)
  have li: "?lens ! i = extend_lens_of ?r" using i by simp
  note L = extend_ready_lens [OF r]
  have new: "set (news ! i) \<subseteq> set (concat news)" using ho i by (force simp: handed_out_def)
  have pool: "set (concat news) \<subseteq> set (pool_pages (kv m))" "set (pool_pages al) = set (pool_pages (kv m)) - set (concat news)"
    "distinct (concat news)" "length (news ! i) = new_pages ?p (extend_lens_of ?r)" "al_page_size al = ?p" "length out = out_start ?lens (length ?lens)"
    "length news = length rs"
    using ho i ps by (auto simp: handed_out_def)
  have "length ?slots = ext_len (extend_lens_of ?r)" using handed_out_room [OF ho, of i] i by simp
  then have len: "length ?slots = nat (extend_end ?r) - length (prefix_indices ?r)" by (simp add: extend_lens_of_def ext_len_def)
  have "distinct (news ! i)" using pool(3,7) i by (simp add: distinct_concat_iff)
  moreover have "set (pgs ! i) \<inter> set (news ! i) = {}" using prefix_not_free [OF ok h] new pool(1) by blast
  ultimately have dist: "distinct (pgs ! i @ news ! i)" using h by (simp add: holds_prefix_def)
  have laid: "laid ?p (pgs ! i @ news ! i) (rt ! row) (nat (extend_end ?r))"
    unfolding row(2)
  proof (rule laid_row_after [OF p _ dist])
    show "length (pgs ! i) = pages_of ?p (length (prefix_indices ?r))" using h by (simp add: holds_prefix_def)
    show "prefix_indices ?r ! t = pgs ! i ! (t div ?p) * ?p + t mod ?p" if "t < length (prefix_indices ?r)" for t by (rule prefix_nth [OF p h that])
    show "?slots ! (t - length (prefix_indices ?r)) = (pgs ! i @ news ! i) ! (t div ?p) * ?p + t mod ?p"
      if "length (prefix_indices ?r) \<le> t" "t < nat (extend_end ?r)" for t
      using handed_out_slots [OF ho, of i t] that i L(1,5) li ps by simp
    show "length (news ! i) = new_pages ?p (length (prefix_indices ?r), nat (extend_end ?r))" using pool(4) by (simp add: extend_lens_of_def)
  qed (use L len old in simp_all)
  have pre: "take (length (prefix_indices ?r)) (rt ! row) = prefix_indices ?r" unfolding row(2) by (simp add: row_after_def)
  show ?thesis
    by (rule holds_kv_extended [OF ok h]) (use row(1) laid pre new pool ps L in auto)
qed

text \<open>The batch after the allocation: request \<open>i\<close> holds its KV on the pages \<open>pgs ! i\<close> up to the end of its
  range, and no page belongs to two requests.\<close>

definition batch_holds :: "mem_state \<Rightarrow> kv_holder list \<Rightarrow> kv_holder list \<Rightarrow> nat list list \<Rightarrow> bool" where
  "batch_holds m hs hs' pgs \<longleftrightarrow> length hs' = length hs \<and> length pgs = length hs \<and>
     (\<forall>i < length hs. \<exists>k. req_kv (hs' ! i) = Some k \<and> int (kv_allocated_len k) = extend_end (base_req (hs ! i)) \<and>
        last_node (base_req (hs' ! i)) = last_node (base_req (hs ! i)) \<and>
        holds_kv (cache m) (kv m) (pool m) (base_req (hs' ! i)) (get_fill_ids (base_req (hs ! i))) (pgs ! i) (kv_allocated_len k)) \<and>
     own_apart (cache m) (map base_req hs') pgs \<and> distinct (map (\<lambda>h. the (req_pool_idx (base_req h))) hs' @ free_slots (pool m))"

theorem alloc_for_extend_conserves:
  assumes ok: "mem_ok H (cache m) (kv m)" and en: "\<not> disable (cache m)" and b: "batch_ready H m (map base_req hs) pgs"
    and rows: "rows_ok (map base_req hs) (pool m)" and pids: "mset pids = mset [0..<length hs]"
    and free: "length (filter (\<lambda>h. req_pool_idx (base_req h) = None) hs) \<le> length (free_slots (pool m))"
    and enough: "int (num_extend_tokens (map base_req hs) + length hs * page_size (cache m)) \<le> int (available_size (kv m)) + evictable_size (acct (cache m))"
  shows "\<exists>m' hs' out pgs'. alloc_for_extend garbage pids hs m = Inr (m', hs', out) \<and> mem_ok H (cache m') (kv m') \<and>
    batch_holds m' hs hs' pgs' \<and>
    kv_slots (cache m') (kv m') \<union> page_slots (page_size (cache m)) (batch_pages (cache m') (map base_req hs') pgs') =
    kv_slots (cache m) (kv m) \<union> page_slots (page_size (cache m)) (batch_pages (cache m) (map base_req hs) pgs)"
proof (rule alloc_for_extend_steps [OF assms])
  let ?rs = "map base_req hs"
  fix m1 :: mem_state and al out news rt xs rp
  define hs' where "hs' = map2 (\<lambda>h x. h\<lparr>base_req := (base_req h)\<lparr>req_pool_idx := Some x\<rparr>, req_kv := Some (set_allocated_len (nat (extend_end (base_req h))) (req_kv h))\<rparr>) hs xs"
  define m' where "m' = m1\<lparr>kv := al, pool := rp\<lparr>req_to_token := rt\<rparr>\<rparr>"
  define pgs' where "pgs' = map2 (@) pgs news"
  assume call: "alloc_for_extend garbage pids hs m = Inr (m1\<lparr>kv := al, pool := rp\<lparr>req_to_token := rt\<rparr>\<rparr>,
       map2 (\<lambda>h x. h\<lparr>base_req := (base_req h)\<lparr>req_pool_idx := Some x\<rparr>, req_kv := Some (set_allocated_len (nat (extend_end (base_req h))) (req_kv h))\<rparr>) hs xs, out)"
    and ok1: "mem_ok H (cache m1) (kv m1)" and ps: "page_size (cache m1) = page_size (cache m)"
    and slots: "kv_slots (cache m1) (kv m1) = kv_slots (cache m) (kv m)" and b1: "batch_ready H m1 ?rs pgs"
    and ho: "handed_out (kv m1) al (map (extend_lens_of \<circ> base_req) hs) pgs out news"
    and xs: "length xs = length hs" "distinct (xs @ free_slots rp)" "rp_ok rp" "length rt = length (req_to_token (pool m))" "set xs \<subseteq> {1..rp_size (pool m)}"
    and row: "\<And>i. i < length hs \<Longrightarrow> rt ! (xs ! i) = row_after (prefix_indices (base_req (hs ! i)))
       (take (ext_len (extend_lens_of (base_req (hs ! i)))) (drop (out_start (map (extend_lens_of \<circ> base_req) hs) i) out)) (req_to_token (pool m) ! (xs ! i))"
  have lens: "map (extend_lens_of \<circ> base_req) hs = map extend_lens_of ?rs" by simp
  note ho' = ho [unfolded lens]
  have len: "length hs' = length hs" "length pgs = length hs" "length news = length hs" using xs(1) b ho by (auto simp: hs'_def batch_ready_def handed_out_def)
  have nth: "base_req (hs' ! i) = (base_req (hs ! i))\<lparr>req_pool_idx := Some (xs ! i)\<rparr>"
      "req_kv (hs' ! i) = Some (set_allocated_len (nat (extend_end (base_req (hs ! i)))) (req_kv (hs ! i)))"
      "pgs' ! i = pgs ! i @ news ! i" if "i < length hs" for i
    using that xs(1) len(2,3) by (simp_all add: hs'_def pgs'_def)
  have tab: "xs ! i < length rt" if "i < length hs" for i
  proof -
    have "xs ! i \<in> {1..rp_size (pool m)}" using that xs(1,5) nth_mem [of i xs] by (metis subsetD)
    then show ?thesis using rows xs(4) by (simp add: rows_ok_def rp_ok_def)
  qed
  have holds: "holds_kv (cache m') (kv m') (pool m') (base_req (hs' ! i)) (get_fill_ids (base_req (hs ! i))) (pgs' ! i) (nat (extend_end (base_req (hs ! i))))"
    and end0: "0 \<le> extend_end (base_req (hs ! i))" if i: "i < length hs" for i
  proof -
    have r: "extend_ready H m1 (?rs ! i) (pgs ! i)" and r0: "extend_ready H m (?rs ! i) (pgs ! i)" using b1 b i by (simp_all add: batch_ready_def)
    show "0 \<le> extend_end (base_req (hs ! i))" using r0 i by (simp add: extend_ready_def)
    have old: "extend_end (?rs ! i) \<le> int (length (req_to_token (pool m) ! (xs ! i)))" using r0 tab [OF i] xs(4) i by (simp add: extend_ready_def)
    have at: "rt ! (xs ! i) = row_after (prefix_indices (?rs ! i))
        (take (ext_len (extend_lens_of (?rs ! i))) (drop (out_start (map extend_lens_of ?rs) i) out)) (req_to_token (pool m) ! (xs ! i))"
      using row [OF i] i unfolding lens [symmetric] by simp
    have "i < length ?rs" using i by simp
    from extended_request [OF ok1 r this ho' tab [OF i] at old, of rp] show "holds_kv (cache m') (kv m') (pool m') (base_req (hs' ! i)) (get_fill_ids (base_req (hs ! i))) (pgs' ! i) (nat (extend_end (base_req (hs ! i))))"
      using i nth [OF i] by (simp add: m'_def)
  qed
  have B: "own_apart (cache m1) (map base_req hs') pgs'" "mem_ok H (cache m1) al"
    "kv_slots (cache m1) al \<union> page_slots (page_size (cache m1)) (batch_pages (cache m1) (map base_req hs') pgs') =
     kv_slots (cache m1) (kv m1) \<union> page_slots (page_size (cache m1)) (batch_pages (cache m1) ?rs pgs)"
    using batch_pages_extended [OF ok1 b1 ho', of "map base_req hs'"] len(1) nth(1) unfolding pgs'_def by simp_all
  have own: "batch_pages (cache m1) ?rs pgs = batch_pages (cache m) ?rs pgs" by (simp add: batch_pages_def own_pages_def ps)
  have ids: "map (\<lambda>h. the (req_pool_idx (base_req h))) hs' = xs" by (rule nth_equalityI) (use len nth xs(1) in simp_all)
  have "batch_holds m' hs hs' pgs'"
    unfolding batch_holds_def
  proof (intro conjI allI impI)
    show "\<exists>k. req_kv (hs' ! i) = Some k \<and> int (kv_allocated_len k) = extend_end (base_req (hs ! i)) \<and>
        last_node (base_req (hs' ! i)) = last_node (base_req (hs ! i)) \<and>
        holds_kv (cache m') (kv m') (pool m') (base_req (hs' ! i)) (get_fill_ids (base_req (hs ! i))) (pgs' ! i) (kv_allocated_len k)"
      if i: "i < length hs" for i
      using holds [OF i] end0 [OF i] nth(1,2) [OF i] by (auto simp: set_allocated_len_def split: option.splits)
    show "own_apart (cache m') (map base_req hs') pgs'" using B(1) by (simp add: m'_def)
    show "distinct (map (\<lambda>h. the (req_pool_idx (base_req h))) hs' @ free_slots (pool m'))" using xs(2) ids by (simp add: m'_def)
  qed (use len in \<open>simp_all add: pgs'_def\<close>)
  moreover have "alloc_for_extend garbage pids hs m = Inr (m', hs', out)" using call by (simp add: m'_def hs'_def)
  moreover have "mem_ok H (cache m') (kv m')" using B(2) by (simp add: m'_def)
  moreover have "kv_slots (cache m') (kv m') \<union> page_slots (page_size (cache m)) (batch_pages (cache m') (map base_req hs') pgs') =
      kv_slots (cache m) (kv m) \<union> page_slots (page_size (cache m)) (batch_pages (cache m) ?rs pgs)"
    using B(3) by (simp add: m'_def slots ps own)
  ultimately show ?thesis by blast
qed

end
