(* ===== verification/DecodeBatch.thy ===== *)
theory DecodeBatch
  imports MemBatch Complex_Main
begin

text \<open>
  One round of decoding: \<open>Scheduler.update_running_batch\<close> of \<open>managers/scheduler.py\<close>, the methods of
  \<open>ScheduleBatch\<close> in \<open>managers/schedule_batch.py\<close> that it calls, and the tracker of the new token ratio
  in \<open>managers/scheduler_components/new_token_ratio_tracker.py\<close>.

  Before every decode step the batch drops its finished requests and checks whether the next tokens
  fit. If they do not, requests are retracted, the least preferred first, until the rest fits;
  if even the last one does not fit it is aborted. Then every request gets its next slot.

  The batch is modelled with the fields that decide: its requests, their rows and their lengths.
  Tensors and lists that are only filtered along (logits, encoder lengths, Mamba indices, sampling
  state) are left out, and so are the copies of retracted requests to host memory in
  disaggregated decoding. Requests are values here: \<open>retracted_reqs\<close> are the requests as they
  are when \<open>retract_decode\<close> returns. \<open>extend_range\<close>, which a retraction sets to \<open>None\<close>, is not read again
  before it is set by the next \<open>init_next_round_input\<close> and keeps its value.
\<close>

section \<open>Requests and batches\<close>

record run_req =
  holder :: kv_holder
  finished_reason :: "finish_reason option"
  to_finish :: "finish_reason option"
  max_new :: nat
  retraction_count :: nat
  is_retracted :: bool
  retracted_stain :: bool
  has_input_embeds :: bool
  extend_batch_idx :: nat
  decode_batch_idx :: nat

abbreviation run_base :: "run_req \<Rightarrow> req" where
  "run_base q \<equiv> base_req (holder q)"

record decode_batch =
  reqs :: "run_req list"
  req_pool_indices :: "nat list"
  seq_lens :: "nat list"
  batch_is_full :: bool

text \<open>\<open>mem_cache/allocation_sizing.py\<close>: how much a decode step may allocate for a request. The options of
  speculative decoding are \<open>speculative_num_steps\<close>, \<open>speculative_eagle_topk\<close>,
  \<open>max_speculative_num_draft_tokens()\<close>, whether the algorithm \<open>has_draft_kv()\<close>, and the page size
  of the schedule.\<close>

record spec_args =
  speculative_num_steps :: "nat option"
  speculative_eagle_topk :: "nat option"
  num_draft_tokens :: nat
  has_draft_kv :: bool
  schedule_page_size :: nat

definition or_one :: "nat option \<Rightarrow> nat" where
  "or_one x = (case x of None \<Rightarrow> 1 | Some n \<Rightarrow> if n = 0 then 1 else n)"

definition get_alloc_len_per_decode :: "spec_args option \<Rightarrow> nat" where
  "get_alloc_len_per_decode spec =
     (case spec of
        None \<Rightarrow> 1
      | Some s \<Rightarrow>
          let steps = or_one (speculative_num_steps s); topk = or_one (speculative_eagle_topk s); ps = schedule_page_size s in
          if ps = 1 \<or> topk = 1 \<or> \<not> has_draft_kv s then max (steps * topk) (num_draft_tokens s)
          else max ((((ps - 1) + steps + ps - 1) div ps) * ps * topk) (num_draft_tokens s))"

definition get_alloc_reserve_per_decode :: "spec_args option \<Rightarrow> nat" where
  "get_alloc_reserve_per_decode spec = 2 * get_alloc_len_per_decode spec"

text \<open>\<open>--retraction-policy priority\<close>, \<open>--schedule-low-priority-values-first\<close>,
  \<open>SGLANG_RETRACT_DECODE_STEPS\<close> and the options of speculative decoding, if it is on.\<close>

record retract_args =
  by_priority :: bool
  low_priority_values_first :: bool
  retract_decode_steps :: nat
  spec_options :: "spec_args option"

abbreviation decode_reserve :: "retract_args \<Rightarrow> nat" where
  "decode_reserve a \<equiv> get_alloc_reserve_per_decode (spec_options a)"

definition filter_batch :: "nat list \<Rightarrow> decode_batch \<Rightarrow> decode_batch" where
  "filter_batch keep b =
     (if keep = [] then b\<lparr>reqs := []\<rparr>
      else if length keep = length (reqs b) then b
      else b\<lparr>reqs := map ((!) (reqs b)) keep, req_pool_indices := map ((!) (req_pool_indices b)) keep,
             seq_lens := map ((!) (seq_lens b)) keep\<rparr>)"

text \<open>The indices that \<open>filter_batch()\<close> keeps without arguments.\<close>

definition unfinished_indices :: "run_req list \<Rightarrow> nat list" where
  "unfinished_indices rs = filter (\<lambda>i. finished_reason (rs ! i) = None) [0..<length rs]"

section \<open>Does the next step fit?\<close>

fun required_spec :: "nat \<Rightarrow> nat \<Rightarrow> kv_holder list \<Rightarrow> nat res" where
  "required_spec reserve ps [] = Inr 0"
| "required_spec reserve ps (h # hs) =
     (case req_kv h of
        None \<Rightarrow> Inl AttributeError
      | Some k \<Rightarrow>
          let x = kv_committed_len (base_req h) + reserve - kv_allocated_len k;
              cur = kv_allocated_len k; nxt = cur + x
          in map_res (\<lambda>total. (ceil_align nxt ps - ceil_align cur ps) + total) (required_spec reserve ps hs))"

definition new_tokens_required_next_decode :: "serving \<Rightarrow> nat \<Rightarrow> nat \<Rightarrow> kv_holder list \<Rightarrow> nat res" where
  "new_tokens_required_next_decode sv reserve ps hs =
     (if \<not> speculative sv
      then Inr (length (filter (\<lambda>h. kv_committed_len (base_req h) mod ps = 0) hs) * ps)
      else required_spec reserve ps hs)"

definition check_decode_mem :: "serving \<Rightarrow> nat \<Rightarrow> kv_holder list \<Rightarrow> mem_state \<Rightarrow> (mem_state \<times> bool) res" where
  "check_decode_mem sv reserve hs m =
     bind_res (new_tokens_required_next_decode sv reserve (al_page_size (kv m)) hs) (\<lambda>num_tokens.
     bind_res (evict_from_tree_cache num_tokens m) (\<lambda>m1.
     Inr (m1, available_size (kv m1) \<ge> num_tokens)))"

section \<open>Retraction\<close>

definition length_key :: "req \<Rightarrow> int \<times> int" where
  "length_key r = (int (length (output_ids r)), - int (length (origin_input_ids r)))"

definition sys_maxsize :: int where
  "sys_maxsize = 2 ^ 63 - 1"

definition retraction_key :: "bool \<Rightarrow> req \<Rightarrow> int \<times> int \<times> int" where
  "retraction_key low_first r =
     (let sign = (if low_first then 1 else - 1);
          p = (case req_priority r of Some p \<Rightarrow> p | None \<Rightarrow> if low_first then sys_maxsize else - sys_maxsize - 1)
      in (p * (- sign), length_key r))"

text \<open>\<open>list.sort(reverse=True)\<close> keeps the order of equal elements: it sorts the reversed list and
  reverses the result.\<close>

definition sort_reverse :: "('a \<Rightarrow> 'k::linorder) \<Rightarrow> 'a list \<Rightarrow> 'a list" where
  "sort_reverse f xs = rev (sort_key f (rev xs))"

definition get_decode_retraction_order :: "retract_args \<Rightarrow> run_req list \<Rightarrow> nat list" where
  "get_decode_retraction_order a rs =
     (if by_priority a
      then sort_reverse (\<lambda>i. retraction_key (low_priority_values_first a) (run_base (rs ! i))) [0..<length rs]
      else sort_reverse (\<lambda>i. length_key (run_base (rs ! i))) [0..<length rs])"

definition reset_for_retract :: "run_req \<Rightarrow> run_req res" where
  "reset_for_retract q =
     (if req_kv (holder q) \<noteq> None then Inl AssertionError
      else
        let r = (run_base q)\<lparr>prefix_indices := [], last_node := None, cache_protected_len := 0,
                  inflight_middle_chunks := 0, kv_committed_len := 0\<rparr>;
            r' = (if has_input_embeds q then r\<lparr>output_ids := []\<rparr> else r)
        in Inr (q\<lparr>holder := (holder q)\<lparr>base_req := r'\<rparr>, retraction_count := retraction_count q + 1, is_retracted := True,
                  retracted_stain := True, extend_batch_idx := 0, decode_batch_idx := 0\<rparr>))"

text \<open>\<open>clk\<close> and \<open>now\<close> are the clock, which an insertion into the tree would read.\<close>

definition release_req ::
    "serving \<Rightarrow> retract_args \<Rightarrow> clock \<Rightarrow> int \<Rightarrow> nat \<Rightarrow> run_req \<Rightarrow> mem_state \<Rightarrow> (mem_state \<times> run_req) res" where
  "release_req sv a clk now remaining q m =
     bind_res (release_kv_cache sv clk now False (holder q) m) (\<lambda>(m1, h).
     bind_res (evict_from_tree_cache (remaining * retract_decode_steps a) m1) (\<lambda>m2.
     map_res (\<lambda>q'. (m2, q')) (reset_for_retract (q\<lparr>holder := h\<rparr>))))"

text \<open>All requests, when the engine pauses; the count of the remaining requests includes the one released.\<close>

fun retract_all :: "serving \<Rightarrow> retract_args \<Rightarrow> clock \<Rightarrow> int \<Rightarrow> run_req list \<Rightarrow> mem_state \<Rightarrow> (mem_state \<times> run_req list) res" where
  "retract_all sv a clk now [] m = Inr (m, [])"
| "retract_all sv a clk now (q # qs) m =
     bind_res (release_req sv a clk now (length (q # qs)) q m) (\<lambda>(m1, q').
     map_res (\<lambda>(m2, qs'). (m2, q' # qs')) (retract_all sv a clk now qs m1))"

text \<open>The \<open>while\<close> loop of \<open>retract_decode\<close> over the indices still kept (\<open>pop\<close> takes the last), the indices
  retracted, the requests and the memory.\<close>

function retract_loop ::
    "serving \<Rightarrow> retract_args \<Rightarrow> clock \<Rightarrow> int \<Rightarrow> bool \<Rightarrow> nat list \<Rightarrow> nat list \<Rightarrow> run_req list \<Rightarrow> mem_state \<Rightarrow>
     (nat list \<times> nat list \<times> run_req list \<times> mem_state) res" where
  "retract_loop sv a clk now first_iter idxs retracted rs m =
     bind_res (if first_iter then Inr (m, False) else check_decode_mem sv (decode_reserve a) (map (\<lambda>i. holder (rs ! i)) idxs) m)
      (\<lambda>(m1, fits).
        if fits \<or> length idxs = 1 then Inr (idxs, retracted, rs, m1)
        else if idxs = [] then Inl IndexError
        else bind_res (release_req sv a clk now (length (butlast idxs)) (rs ! last idxs) m1) (\<lambda>(m2, q).
          retract_loop sv a clk now False (butlast idxs) (retracted @ [last idxs]) (rs[last idxs := q]) m2))"
  by pat_completeness auto

termination
  by (relation "measure (\<lambda>(sv, a, clk, now, first_iter, idxs, retracted, rs, m). length idxs)") auto

declare retract_loop.simps [simp del]

definition oom_abort :: finish_reason where
  "oom_abort = FINISH_ABORT ''Out of memory even after retracting all other requests in the decode batch. Aborting the last request.''"

definition estimate_new_token_ratio_after_retract :: "nat \<Rightarrow> run_req list \<Rightarrow> rat" where
  "estimate_new_token_ratio_after_retract steps rs =
     min 1 (of_nat ((\<Sum>q\<leftarrow>rs. length (output_ids (run_base q))) + steps * length rs) / of_nat ((\<Sum>q\<leftarrow>rs. max_new q) + 1))"

text \<open>The result is the batch, the memory, \<open>retracted_reqs\<close>, the ratio and \<open>reqs_to_abort\<close>.\<close>

definition retract_decode ::
    "serving \<Rightarrow> retract_args \<Rightarrow> clock \<Rightarrow> int \<Rightarrow> decode_batch \<Rightarrow> mem_state \<Rightarrow>
     (decode_batch \<times> mem_state \<times> run_req list \<times> rat \<times> run_req list) res" where
  "retract_decode sv a clk now b m =
     bind_res (retract_loop sv a clk now True (get_decode_retraction_order a (reqs b)) [] (reqs b) m)
      (\<lambda>(idxs, retracted, rs, m1).
     bind_res (if length idxs \<le> 1 then check_decode_mem sv (decode_reserve a) (map (\<lambda>i. holder (rs ! i)) idxs) m1 else Inr (m1, True))
      (\<lambda>(m2, fits).
     bind_res
       (if fits then Inr (idxs, [], rs, m2)
        else if idxs = [] then Inl IndexError
        else
          let i = last idxs; q = (rs ! i)\<lparr>to_finish := Some oom_abort\<rparr> in
          map_res (\<lambda>(m3, q'). (butlast idxs, [i], rs[i := q'], m3)) (release_req sv a clk now 0 q m2))
      (\<lambda>(idxs', aborted, rs', m3).
     let b' = filter_batch idxs' (b\<lparr>reqs := rs'\<rparr>) in
     Inr (b', m3, map ((!) rs') retracted, estimate_new_token_ratio_after_retract (retract_decode_steps a) (reqs b'),
          map ((!) rs') aborted))))"

section \<open>The new token ratio\<close>

record ratio_tracker =
  ratio_init :: rat
  ratio_min :: rat
  ratio_decay :: rat
  ratio_current :: rat

text \<open>\<open>from_config\<close> with \<open>SGLANG_INIT_NEW_TOKEN_RATIO\<close>, \<open>schedule_conservativeness\<close>,
  \<open>SGLANG_MIN_NEW_TOKEN_RATIO_FACTOR\<close> and \<open>SGLANG_NEW_TOKEN_RATIO_DECAY_STEPS\<close>.\<close>

definition ratio_from_config :: "rat \<Rightarrow> rat \<Rightarrow> rat \<Rightarrow> nat \<Rightarrow> ratio_tracker res" where
  "ratio_from_config init_ratio conservativeness min_factor decay_steps =
     (let ini = min (init_ratio * conservativeness) 1; mi = min (ini * min_factor) 1 in
      if decay_steps = 0 then Inl ZeroDivisionError
      else Inr \<lparr>ratio_init = ini, ratio_min = mi, ratio_decay = (ini - mi) / of_nat decay_steps, ratio_current = ini\<rparr>)"

definition decay_step :: "ratio_tracker \<Rightarrow> ratio_tracker" where
  "decay_step t = t\<lparr>ratio_current := max (ratio_current t - ratio_decay t) (ratio_min t)\<rparr>"

definition ratio_reset :: "ratio_tracker \<Rightarrow> ratio_tracker" where
  "ratio_reset t = t\<lparr>ratio_current := ratio_init t\<rparr>"

section \<open>A round of decoding\<close>

text \<open>Speculative decoding prepares a batch in its own way, the argument \<open>spec_prepare\<close>. \<open>orders n\<close> is the order in
  which the programs of a launch for \<open>n\<close> requests run.\<close>

definition prepare_for_decode ::
    "(decode_batch \<Rightarrow> mem_state \<Rightarrow> (decode_batch \<times> mem_state) res) \<Rightarrow> serving \<Rightarrow> (nat \<Rightarrow> nat) \<Rightarrow> (nat \<Rightarrow> nat list) \<Rightarrow>
     decode_batch \<Rightarrow> mem_state \<Rightarrow> (decode_batch \<times> mem_state) res" where
  "prepare_for_decode spec_prepare sv garbage orders b m =
     (if speculative sv then spec_prepare b m
      else
        bind_res (alloc_for_decode garbage (orders (length (reqs b))) 1 None
                    (zip (map holder (reqs b)) (zip (req_pool_indices b) (seq_lens b))) m) (\<lambda>(m1, hs, out).
        Inr (b\<lparr>reqs := map2 (\<lambda>q h. q\<lparr>holder := h\<lparr>base_req := (base_req h)\<lparr>kv_committed_len := kv_committed_len (base_req h) + 1\<rparr>\<rparr>,
                                   decode_batch_idx := decode_batch_idx q + 1\<rparr>) (reqs b) hs,
               seq_lens := map Suc (seq_lens b)\<rparr>, m1)))"

record decode_round =
  dr_batch :: decode_batch
  dr_mem :: mem_state
  dr_tracker :: ratio_tracker
  dr_requeued :: "run_req list"
  dr_aborted :: "run_req list"

text \<open>\<open>test_retract\<close> is \<open>TEST_RETRACT and forward_ct % TEST_RETRACT_INTERVAL == 0\<close>.\<close>

definition update_running_batch ::
    "(decode_batch \<Rightarrow> mem_state \<Rightarrow> (decode_batch \<times> mem_state) res) \<Rightarrow> serving \<Rightarrow> retract_args \<Rightarrow> clock \<Rightarrow> int \<Rightarrow> bool \<Rightarrow>
     (nat \<Rightarrow> nat) \<Rightarrow> (nat \<Rightarrow> nat list) \<Rightarrow> decode_batch \<Rightarrow> ratio_tracker \<Rightarrow> mem_state \<Rightarrow> decode_round res" where
  "update_running_batch spec_prepare sv a clk now test_retract garbage orders b t m =
     (let initial_bs = length (reqs b); b0 = filter_batch (unfinished_indices (reqs b)) b in
      if reqs b0 = []
      then Inr \<lparr>dr_batch = b0\<lparr>batch_is_full := False\<rparr>, dr_mem = m, dr_tracker = t, dr_requeued = [], dr_aborted = []\<rparr>
      else
        bind_res (check_decode_mem sv (decode_reserve a) (map holder (reqs b0)) m) (\<lambda>(m1, fits).
        bind_res
          (if \<not> fits \<or> test_retract
           then map_res (\<lambda>(b1, m2, retracted, ratio, aborted). (b1, m2, t\<lparr>ratio_current := ratio\<rparr>, retracted, aborted))
                  (retract_decode sv a clk now b0 m1)
           else Inr (b0, m1, decay_step t, [], []))
          (\<lambda>(b1, m2, t', retracted, aborted).
        let b2 = (if length (reqs b1) < initial_bs then b1\<lparr>batch_is_full := False\<rparr> else b1) in
        if reqs b2 = []
        then Inr \<lparr>dr_batch = b2, dr_mem = m2, dr_tracker = t', dr_requeued = retracted, dr_aborted = aborted\<rparr>
        else map_res (\<lambda>(b3, m3). \<lparr>dr_batch = b3, dr_mem = m3, dr_tracker = t', dr_requeued = retracted, dr_aborted = aborted\<rparr>)
               (prepare_for_decode spec_prepare sv garbage orders b2 m2))))"

end
