(* ===== verification/DecodeProofs.thy ===== *)
theory DecodeProofs
  imports DecodeBatch
begin

text \<open>
  Requests that decode keep their KV: through evictions, through the retraction of others and through
  the allocation of the next slot. Retraction ends with a batch whose next step fits.
\<close>

section \<open>Running requests\<close>

abbreviation all_ids :: "req \<Rightarrow> int list" where
  "all_ids r \<equiv> origin_input_ids r @ output_ids r"

abbreviation eff_toks :: "serving \<Rightarrow> kv_holder \<Rightarrow> int list" where
  "eff_toks sv h \<equiv> take (effective_kv_committed_len sv h) (all_ids (base_req h))"

definition path_held :: "radix_cache \<Rightarrow> req \<Rightarrow> int list \<Rightarrow> nat list \<Rightarrow> bool" where
  "path_held c r toks entries \<longleftrightarrow> page_size c dvd cache_protected_len r \<and>
     cache_protected_len r \<le> rk_len (req_radix_key c r toks) \<and>
     (\<exists>qs. reach (root_node c) (the (last_node r)) (rk_ns (req_radix_key c r toks)) qs \<and>
        map fst qs = take (cache_protected_len r) (rk_iter (req_radix_key c r toks)) \<and>
        map snd qs = take (cache_protected_len r) entries)"

text \<open>A request that decodes: its row is laid out in pages up to its allocated length, the protected part
  is cached on the path to the node that it has locked, and the other pages are its own.\<close>

definition running :: "serving \<Rightarrow> mem_state \<Rightarrow> kv_holder \<Rightarrow> nat list \<Rightarrow> bool" where
  "running sv m h pages \<longleftrightarrow> (\<exists>k row. req_kv h = Some k \<and> last_node (base_req h) \<noteq> None \<and>
     req_pool_idx (base_req h) = Some row \<and> row < length (req_to_token (pool m)) \<and>
     laid (page_size (cache m)) pages (req_to_token (pool m) ! row) (kv_allocated_len k) \<and>
     kv_committed_len (base_req h) \<le> kv_allocated_len k \<and>
     (speculative sv \<or> kv_committed_len (base_req h) = kv_allocated_len k) \<and>
     path_held (cache m) (base_req h) (eff_toks sv h) (req_to_token (pool m) ! row) \<and>
     page_slots (page_size (cache m)) (own_pages (cache m) (base_req h) pages) \<inter> kv_slots (cache m) (kv m) = {})"

abbreviation lnode :: "kv_holder \<Rightarrow> nat" where
  "lnode h \<equiv> the (last_node (base_req h))"

abbreviation row_of :: "kv_holder \<Rightarrow> nat" where
  "row_of h \<equiv> the (req_pool_idx (base_req h))"

definition batch_running :: "serving \<Rightarrow> nat multiset \<Rightarrow> mem_state \<Rightarrow> kv_holder list \<Rightarrow> nat list list \<Rightarrow> bool" where
  "batch_running sv H m hs pgs \<longleftrightarrow> mem_ok (mset (map lnode hs) + H) (cache m) (kv m) \<and> \<not> disable (cache m) \<and>
     length pgs = length hs \<and> (\<forall>i < length hs. running sv m (hs ! i) (pgs ! i)) \<and>
     own_apart (cache m) (map base_req hs) pgs \<and> distinct (map row_of hs @ free_slots (pool m))"

lemma effective_le: "effective_kv_committed_len sv h \<le> kv_committed_len (base_req h)"
  by (simp add: effective_kv_committed_len_def Let_def)

lemma running_holds:
  assumes ok: "mem_ok H (cache m) (kv m)" and r: "running sv m h pages"
  obtains k where "req_kv h = Some k" "last_node (base_req h) = Some (lnode h)"
    "holds_kv (cache m) (kv m) (pool m) (base_req h) (eff_toks sv h) pages (kv_allocated_len k)"
    "speculative sv \<or> strip_thinking_cache sv \<or> effective_kv_committed_len sv h = kv_allocated_len k"
proof -
  have wf: "wf_tree (page_size (cache m)) (is_eagle (cache m)) None (root_node (cache m))" using ok by (simp add: mem_ok_def cache_ok_def)
  obtain k row where k: "req_kv h = Some k" "last_node (base_req h) \<noteq> None" "req_pool_idx (base_req h) = Some row"
    "row < length (req_to_token (pool m))" "laid (page_size (cache m)) pages (req_to_token (pool m) ! row) (kv_allocated_len k)"
    "kv_committed_len (base_req h) \<le> kv_allocated_len k" "speculative sv \<or> kv_committed_len (base_req h) = kv_allocated_len k"
    "path_held (cache m) (base_req h) (eff_toks sv h) (req_to_token (pool m) ! row)"
    "page_slots (page_size (cache m)) (own_pages (cache m) (base_req h) pages) \<inter> kv_slots (cache m) (kv m) = {}"
    using r unfolding running_def by blast
  have "length (eff_toks sv h) \<le> kv_allocated_len k" using effective_le [of sv h] k(6) by simp
  moreover obtain qs where qs: "reach (root_node (cache m)) (lnode h) (rk_ns (req_radix_key (cache m) (base_req h) (eff_toks sv h))) qs"
    "map fst qs = take (cache_protected_len (base_req h)) (rk_iter (req_radix_key (cache m) (base_req h) (eff_toks sv h)))"
    "map snd qs = take (cache_protected_len (base_req h)) (req_to_token (pool m) ! row)"
    using k(8) unfolding path_held_def by blast
  ultimately have "holds_kv (cache m) (kv m) (pool m) (base_req h) (eff_toks sv h) pages (kv_allocated_len k)"
    unfolding holds_kv_def using k(3-5,8,9) reach_cached [OF wf qs(1)] qs(2,3)
    by (auto simp: path_held_def own_pages_def kv_slots_def)
  moreover have "speculative sv \<or> strip_thinking_cache sv \<or> effective_kv_committed_len sv h = kv_allocated_len k"
    using k(7) by (auto simp: effective_kv_committed_len_def Let_def)
  ultimately show ?thesis using that k(1,2) by simp
qed

lemma running_frame:
  assumes r: "running sv m h pages" and c: "page_size (cache m') = page_size (cache m)" "is_eagle (cache m') = is_eagle (cache m)"
    and rows: "req_to_token (pool m') = req_to_token (pool m)"
    and reach: "\<And>ns qs. reach (root_node (cache m)) (lnode h) ns qs \<Longrightarrow> reach (root_node (cache m')) (lnode h) ns qs"
    and slots: "page_slots (page_size (cache m)) (own_pages (cache m) (base_req h) pages) \<inter> kv_slots (cache m') (kv m') = {}"
  shows "running sv m' h pages"
proof -
  note key = req_radix_key_cong [OF c]
  have path: "path_held (cache m') (base_req h) toks entries" if "path_held (cache m) (base_req h) toks entries" for toks entries
    using that reach unfolding path_held_def key c(1) by blast
  show ?thesis
    using r path slots unfolding running_def own_pages_def c(1) rows by blast
qed

lemma own_apart_snoc:
  assumes "own_apart c (rs @ [r]) (pgs @ [pg])" "length pgs = length rs"
  shows "own_apart c rs pgs" "i < length rs \<Longrightarrow> own_pages c (rs ! i) (pgs ! i) \<inter> own_pages c r pg = {}"
proof -
  have a: "own_pages c ((rs @ [r]) ! i) ((pgs @ [pg]) ! i) \<inter> own_pages c ((rs @ [r]) ! j) ((pgs @ [pg]) ! j) = {}"
    if "i < Suc (length rs)" "j < Suc (length rs)" "i \<noteq> j" for i j
    using assms(1) that unfolding own_apart_def by simp
  show "own_apart c rs pgs"
    unfolding own_apart_def
  proof (intro allI impI)
    fix i j assume "i < length rs" "j < length rs" "i \<noteq> j"
    then show "own_pages c (rs ! i) (pgs ! i) \<inter> own_pages c (rs ! j) (pgs ! j) = {}"
      using a [of i j] assms(2) by (simp add: nth_append)
  qed
  show "own_pages c (rs ! i) (pgs ! i) \<inter> own_pages c r pg = {}" if "i < length rs"
    using a [of i "length rs"] that assms(2) by (simp add: nth_append)
qed

lemma own_apart_cong: "page_size c' = page_size c \<Longrightarrow> own_apart c' = own_apart c"
  by (simp add: own_apart_def own_pages_def fun_eq_iff)

section \<open>Checking and retracting\<close>

text \<open>Evicting for a batch that runs.\<close>

lemma evict_running:
  assumes b: "batch_running sv H m hs pgs"
  obtains m' where "evict_from_tree_cache n m = Inr m'" "batch_running sv H m' hs pgs" "pool m' = pool m"
    "kv_slots (cache m') (kv m') = kv_slots (cache m) (kv m)" "page_size (cache m') = page_size (cache m)"
    "int n \<le> int (available_size (kv m)) + evictable_size (acct (cache m)) \<Longrightarrow> n \<le> available_size (kv m')"
    "available_size (kv m) \<le> available_size (kv m')"
proof -
  let ?H = "mset (map lnode hs) + H"
  have ok: "mem_ok ?H (cache m) (kv m)" and en: "\<not> disable (cache m)" using b by (auto simp: batch_running_def)
  obtain m' where m': "evict_from_tree_cache n m = Inr m'" "mem_ok ?H (cache m') (kv m')" "pool m' = pool m"
    "kv_slots (cache m') (kv m') = kv_slots (cache m) (kv m)" "page_size (cache m') = page_size (cache m)"
    "is_eagle (cache m') = is_eagle (cache m)" "\<not> disable (cache m')"
    "\<And>l ns qs. l \<in># ?H \<Longrightarrow> reach (root_node (cache m)) l ns qs \<Longrightarrow> reach (root_node (cache m')) l ns qs"
    "int n \<le> int (available_size (kv m)) + evictable_size (acct (cache m)) \<Longrightarrow> n \<le> available_size (kv m')"
    "available_size (kv m) \<le> available_size (kv m')"
    by (rule evict_from_tree_cache_ok [OF ok en]) blast
  have "running sv m' (hs ! i) (pgs ! i)" if i: "i < length hs" for i
  proof -
    have r: "running sv m (hs ! i) (pgs ! i)" using b i by (simp add: batch_running_def)
    have l: "lnode (hs ! i) \<in># ?H" using nth_mem [OF i] by simp
    have dis: "page_slots (page_size (cache m)) (own_pages (cache m) (base_req (hs ! i)) (pgs ! i)) \<inter> kv_slots (cache m) (kv m) = {}"
      using r unfolding running_def by blast
    show ?thesis by (rule running_frame [OF r m'(5,6)]) (use m'(3,4) dis m'(8) [OF l] in auto)
  qed
  then have "batch_running sv H m' hs pgs"
    using b m'(2,3,5,7) own_apart_cong [OF m'(5)] by (simp add: batch_running_def)
  then show ?thesis using that m' by blast
qed

text \<open>A request after its retraction.\<close>

definition retracted_req :: "run_req \<Rightarrow> run_req" where
  "retracted_req q = q\<lparr>holder := (holder q)\<lparr>base_req := (run_base q)\<lparr>output_ids := (if has_input_embeds q then [] else output_ids (run_base q)),
       req_pool_idx := None, prefix_indices := [], last_node := None, cache_protected_len := 0, inflight_middle_chunks := 0,
       kv_committed_len := 0\<rparr>, req_kv := None\<rparr>,
     retraction_count := retraction_count q + 1, is_retracted := True, retracted_stain := True, extend_batch_idx := 0, decode_batch_idx := 0\<rparr>"

text \<open>The tokens whose KV is to be cached or freed are known.\<close>

definition known_toks :: "serving \<Rightarrow> kv_holder \<Rightarrow> bool" where
  "known_toks sv h \<longleftrightarrow> effective_kv_committed_len sv h \<le> length (all_ids (base_req h))"

lemma release_last:
  assumes b: "batch_running sv H m (hs @ [holder q]) (pgs @ [pg])" and len: "length pgs = length hs" and k: "known_toks sv (holder q)"
  obtains m' where "release_req sv a clk now n q m = Inr (m', retracted_req q)" "batch_running sv H m' hs pgs"
    "kv_slots (cache m') (kv m') = kv_slots (cache m) (kv m) \<union> page_slots (page_size (cache m)) (own_pages (cache m) (run_base q) pg)"
    "pool m' = (pool m)\<lparr>free_slots := free_slots (pool m) @ [row_of (holder q)]\<rparr>" "page_size (cache m') = page_size (cache m)"
proof -
  let ?h = "holder q" and ?p = "page_size (cache m)" and ?H = "mset (map lnode hs) + H"
  have ok: "mem_ok (add_mset (lnode ?h) ?H) (cache m) (kv m)" and en: "\<not> disable (cache m)"
    and run: "\<And>i. i < Suc (length hs) \<Longrightarrow> running sv m ((hs @ [?h]) ! i) ((pgs @ [pg]) ! i)"
    and ap: "own_apart (cache m) (map base_req hs @ [run_base q]) (pgs @ [pg])"
    using b by (auto simp: batch_running_def)
  have rh: "running sv m ?h pg" using run [of "length hs"] len by (simp add: nth_append)
  obtain k' where kv: "req_kv ?h = Some k'" "last_node (run_base q) = Some (lnode ?h)"
    "holds_kv (cache m) (kv m) (pool m) (run_base q) (eff_toks sv ?h) pg (kv_allocated_len k')"
    "speculative sv \<or> strip_thinking_cache sv \<or> effective_kv_committed_len sv ?h = kv_allocated_len k'"
    using running_holds [OF ok rh] by blast
  obtain m1 where m1: "release_kv_cache sv clk now False ?h m = Inr (m1, ?h\<lparr>base_req := (run_base q)\<lparr>req_pool_idx := None\<rparr>, req_kv := None\<rparr>)"
    "mem_ok ?H (cache m1) (kv m1)"
    "kv_slots (cache m1) (kv m1) = kv_slots (cache m) (kv m) \<union> page_slots ?p (own_pages (cache m) (run_base q) pg)"
    "pool m1 = (pool m)\<lparr>free_slots := free_slots (pool m) @ [row_of ?h]\<rparr>" "same_content (cache m) (cache m1)"
    using release_kv_steps [OF ok en kv(2,1,3) _ kv(4), of clk now False] k unfolding known_toks_def own_pages_def by blast
  have c: "page_size (cache m1) = ?p" "is_eagle (cache m1) = is_eagle (cache m)" "\<not> disable (cache m1)"
    "\<And>n ns qs. reach (root_node (cache m1)) n ns qs \<longleftrightarrow> reach (root_node (cache m)) n ns qs"
    using m1(5) en unfolding same_content_def by blast+
  have "running sv m1 (hs ! i) (pgs ! i)" if i: "i < length hs" for i
  proof -
    have r: "running sv m (hs ! i) (pgs ! i)" using run [of i] i len by (simp add: nth_append)
    have "own_pages (cache m) (base_req (hs ! i)) (pgs ! i) \<inter> own_pages (cache m) (run_base q) pg = {}"
      using own_apart_snoc(2) [OF ap, of i] i len by simp
    moreover have "0 < ?p" using ok by (simp add: mem_ok_def cache_ok_def)
    ultimately have "page_slots ?p (own_pages (cache m) (base_req (hs ! i)) (pgs ! i)) \<inter> page_slots ?p (own_pages (cache m) (run_base q) pg) = {}"
      by (intro page_slots_disjoint)
    moreover have "page_slots ?p (own_pages (cache m) (base_req (hs ! i)) (pgs ! i)) \<inter> kv_slots (cache m) (kv m) = {}"
      using r unfolding running_def by blast
    ultimately show ?thesis by (intro running_frame [OF r c(1,2)]) (use m1(3,4) c(4) in auto)
  qed
  moreover have "distinct (map row_of hs @ free_slots (pool m1))" using b m1(4) by (auto simp: batch_running_def)
  ultimately have b1: "batch_running sv H m1 hs pgs"
    using m1(2) c(3) len own_apart_snoc(1) [OF ap] own_apart_cong [OF c(1)] by (simp add: batch_running_def)
  obtain m2 where m2: "evict_from_tree_cache (n * retract_decode_steps a) m1 = Inr m2" "batch_running sv H m2 hs pgs" "pool m2 = pool m1"
    "kv_slots (cache m2) (kv m2) = kv_slots (cache m1) (kv m1)" "page_size (cache m2) = page_size (cache m1)"
    by (rule evict_running [OF b1]) blast
  have "reset_for_retract (q\<lparr>holder := ?h\<lparr>base_req := (run_base q)\<lparr>req_pool_idx := None\<rparr>, req_kv := None\<rparr>\<rparr>) = Inr (retracted_req q)"
    by (simp add: reset_for_retract_def Let_def retracted_req_def)
  then have "release_req sv a clk now n q m = Inr (m2, retracted_req q)"
    by (simp add: release_req_def m1(1) m2(1))
  then show ?thesis using that m2 m1 c(1) by simp
qed

text \<open>What the next step needs, and that the check decides it. It evicts as much as it needs, so it fails
  only when free and evictable slots together do not suffice.\<close>

definition next_fits :: "serving \<Rightarrow> nat \<Rightarrow> kv_holder list \<Rightarrow> mem_state \<Rightarrow> bool" where
  "next_fits sv reserve hs m \<longleftrightarrow>
     (\<exists>n. new_tokens_required_next_decode sv reserve (al_page_size (kv m)) hs = Inr n \<and> n \<le> available_size (kv m))"

lemma required_total:
  assumes "\<And>h. h \<in> set hs \<Longrightarrow> req_kv h \<noteq> None"
  shows "\<exists>n. new_tokens_required_next_decode sv reserve ps hs = Inr n"
proof -
  have "\<exists>n. required_spec reserve ps hs = Inr n"
    using assms by (induction hs) (auto simp: Let_def split: option.splits)
  then show ?thesis by (simp add: new_tokens_required_next_decode_def)
qed

lemma check_running:
  assumes b: "batch_running sv H m hs pgs"
  obtains m' fits where "check_decode_mem sv reserve hs m = Inr (m', fits)" "batch_running sv H m' hs pgs" "pool m' = pool m"
    "kv_slots (cache m') (kv m') = kv_slots (cache m) (kv m)" "page_size (cache m') = page_size (cache m)" "fits = next_fits sv reserve hs m'"
proof -
  have kv: "req_kv h \<noteq> None" if "h \<in> set hs" for h
    using b that unfolding batch_running_def running_def in_set_conv_nth by (metis option.distinct(1))
  have ps: "al_page_size (kv m) = page_size (cache m)" using b by (simp add: batch_running_def mem_ok_def)
  obtain n where n: "new_tokens_required_next_decode sv reserve (al_page_size (kv m)) hs = Inr n" using required_total [OF kv] by blast
  obtain m' where m': "evict_from_tree_cache n m = Inr m'" "batch_running sv H m' hs pgs" "pool m' = pool m"
    "kv_slots (cache m') (kv m') = kv_slots (cache m) (kv m)" "page_size (cache m') = page_size (cache m)"
    by (rule evict_running [OF b]) blast
  have "al_page_size (kv m') = al_page_size (kv m)" using m'(2,5) ps by (simp add: batch_running_def mem_ok_def)
  then have "(n \<le> available_size (kv m')) = next_fits sv reserve hs m'" using n by (simp add: next_fits_def)
  then show ?thesis using that [OF _ m'(2-5)] n m'(1) by (simp add: check_decode_mem_def)
qed

section \<open>The retraction loop\<close>

abbreviation holders_at :: "run_req list \<Rightarrow> nat list \<Rightarrow> kv_holder list" where
  "holders_at rs idxs \<equiv> map (\<lambda>i. holder (rs ! i)) idxs"

definition pages_at :: "radix_cache \<Rightarrow> run_req list \<Rightarrow> nat list list \<Rightarrow> nat list \<Rightarrow> nat set" where
  "pages_at c rs pgs idxs = page_slots (page_size c) (\<Union>i \<in> set idxs. own_pages c (run_base (rs ! i)) (pgs ! i))"

lemma pages_at_append: "pages_at c rs pgs (xs @ ys) = pages_at c rs pgs xs \<union> pages_at c rs pgs ys"
  by (simp add: pages_at_def page_slots_Un)

lemma pages_at_cong: "page_size c' = page_size c \<Longrightarrow> (\<And>i. i \<in> set idxs \<Longrightarrow> rs' ! i = rs ! i) \<Longrightarrow> pages_at c' rs' pgs idxs = pages_at c rs pgs idxs"
  by (simp add: pages_at_def own_pages_def)

text \<open>The requests after those at \<open>idxs\<close> have been retracted.\<close>

definition retract_at :: "nat list \<Rightarrow> run_req list \<Rightarrow> run_req list" where
  "retract_at idxs rs = map (\<lambda>i. if i \<in> set idxs then retracted_req (rs ! i) else rs ! i) [0..<length rs]"

lemma retract_at_simps [simp]:
  "length (retract_at idxs rs) = length rs" "i < length rs \<Longrightarrow> retract_at idxs rs ! i = (if i \<in> set idxs then retracted_req (rs ! i) else rs ! i)"
  by (simp_all add: retract_at_def)

lemma retract_at_Nil [simp]: "retract_at [] rs = rs"
  by (simp add: retract_at_def map_nth)

lemma retract_at_step:
  assumes "j < length rs" "j \<notin> set idxs"
  shows "retract_at idxs (rs[j := retracted_req (rs ! j)]) = retract_at (j # idxs) rs"
  by (rule nth_equalityI) (use assms in \<open>auto simp: nth_list_update\<close>)

lemma retract_at_set: "set xs = set ys \<Longrightarrow> retract_at xs rs = retract_at ys rs"
  by (simp add: retract_at_def)

text \<open>The loop keeps a non-empty beginning of the order.\<close>

definition retract_result where
  "retract_result sv reserve H pgs idxs rs m k m' \<longleftrightarrow> 0 < k \<and> k \<le> length idxs \<and>
     batch_running sv H m' (holders_at rs (take k idxs)) (map ((!) pgs) (take k idxs)) \<and>
     page_size (cache m') = page_size (cache m) \<and>
     pool m' = (pool m)\<lparr>free_slots := free_slots (pool m) @ rev (map row_of (holders_at rs (drop k idxs)))\<rparr> \<and>
     kv_slots (cache m') (kv m') = kv_slots (cache m) (kv m) \<union> pages_at (cache m) rs pgs (drop k idxs) \<and>
     (k = 1 \<or> next_fits sv reserve (holders_at rs (take k idxs)) m')"

lemma retract_loop_step:
  assumes idxs: "idxs = js @ [j]" "js \<noteq> []" "distinct idxs" "set idxs \<subseteq> {..<length rs}"
    and b: "batch_running sv H m (holders_at rs idxs) (map ((!) pgs) idxs)" and k: "known_toks sv (holder (rs ! j))"
  obtains m' where "release_req sv a clk now (length js) (rs ! j) m = Inr (m', retracted_req (rs ! j))"
    "batch_running sv H m' (holders_at rs js) (map ((!) pgs) js)" "page_size (cache m') = page_size (cache m)"
    "kv_slots (cache m') (kv m') = kv_slots (cache m) (kv m) \<union> pages_at (cache m) rs pgs [j]"
    "pool m' = (pool m)\<lparr>free_slots := free_slots (pool m) @ [row_of (holder (rs ! j))]\<rparr>"
proof -
  have b': "batch_running sv H m (holders_at rs js @ [holder (rs ! j)]) (map ((!) pgs) js @ [pgs ! j])" using b by (simp add: idxs(1))
  have "length (map ((!) pgs) js) = length (holders_at rs js)" by simp
  from release_last [OF b' this k, of a clk now "length js"] show ?thesis
    using that by (auto simp: pages_at_def)
qed

lemma retract_loop_ok:
  assumes "idxs \<noteq> []" "distinct idxs" "set idxs \<subseteq> {..<length rs}"
    "batch_running sv H m (holders_at rs idxs) (map ((!) pgs) idxs)" "\<And>i. i \<in> set idxs \<Longrightarrow> known_toks sv (holder (rs ! i))"
  shows "\<exists>k m'. retract_loop sv a clk now first_iter idxs retracted rs m = Inr (take k idxs, retracted @ rev (drop k idxs), retract_at (drop k idxs) rs, m') \<and>
    retract_result sv (decode_reserve a) H pgs idxs rs m k m' \<and> (first_iter \<and> 1 < length idxs \<longrightarrow> k < length idxs)"
  using assms
proof (induction idxs arbitrary: first_iter retracted rs m rule: rev_induct)
  case (snoc j js)
  let ?idxs = "js @ [j]"
  obtain m1 fits where c: "(if first_iter then Inr (m, False) else check_decode_mem sv (decode_reserve a) (holders_at rs ?idxs) m) = Inr (m1, fits)"
    "batch_running sv H m1 (holders_at rs ?idxs) (map ((!) pgs) ?idxs)" "kv_slots (cache m1) (kv m1) = kv_slots (cache m) (kv m)"
    "page_size (cache m1) = page_size (cache m)" "fits \<longrightarrow> next_fits sv (decode_reserve a) (holders_at rs ?idxs) m1"
    "pool m1 = pool m" "first_iter \<longrightarrow> \<not> fits"
  proof (cases first_iter)
    case True
    then show ?thesis using that [of m False] snoc.prems(4) by simp
  next
    case False
    show ?thesis
      by (rule check_running [OF snoc.prems(4), of "decode_reserve a"]) (use that False in simp)
  qed
  show ?case
  proof (cases "fits \<or> length ?idxs = 1")
    case True
    have "retract_loop sv a clk now first_iter ?idxs retracted rs m = Inr (?idxs, retracted, rs, m1)"
      by (subst retract_loop.simps) (use c(1) True in simp)
    moreover have "retract_result sv (decode_reserve a) H pgs ?idxs rs m (length ?idxs) m1"
      using c True by (auto simp: retract_result_def pages_at_def page_slots_def)
    moreover have "\<not> (first_iter \<and> 1 < length ?idxs)" using True c(7) by auto
    ultimately show ?thesis by (intro exI [of _ "length ?idxs"] exI [of _ m1]) simp
  next
    case False
    then have js: "js \<noteq> []" by auto
    obtain m2 where m2: "release_req sv a clk now (length js) (rs ! j) m1 = Inr (m2, retracted_req (rs ! j))"
      "batch_running sv H m2 (holders_at rs js) (map ((!) pgs) js)" "page_size (cache m2) = page_size (cache m1)"
      "kv_slots (cache m2) (kv m2) = kv_slots (cache m1) (kv m1) \<union> pages_at (cache m1) rs pgs [j]"
      "pool m2 = (pool m1)\<lparr>free_slots := free_slots (pool m1) @ [row_of (holder (rs ! j))]\<rparr>"
      using retract_loop_step [OF refl js snoc.prems(2,3) c(2)] snoc.prems(5) by (metis in_set_conv_decomp)
    let ?rs = "rs[j := retracted_req (rs ! j)]"
    have j: "j \<notin> set js" "j < length rs" using snoc.prems(2,3) by auto
    have same: "?rs ! i = rs ! i" if "i \<in> set js" for i using that j(1) by (metis nth_list_update_neq)
    have hat: "holders_at ?rs xs = holders_at rs xs" if "set xs \<subseteq> set js" for xs using same that by auto
    have run: "batch_running sv H m2 (holders_at ?rs js) (map ((!) pgs) js)" unfolding hat [OF order_refl] by (rule m2(2))
    have prem: "distinct js" "set js \<subseteq> {..<length ?rs}" "\<And>i. i \<in> set js \<Longrightarrow> known_toks sv (holder (?rs ! i))"
      using snoc.prems(2,3,5) same by auto
    obtain k m' where IH: "retract_loop sv a clk now False js (retracted @ [j]) ?rs m2 =
        Inr (take k js, (retracted @ [j]) @ rev (drop k js), retract_at (drop k js) ?rs, m')"
      "retract_result sv (decode_reserve a) H pgs js ?rs m2 k m'"
      using snoc.IH [OF js prem(1,2) run prem(3), of False "retracted @ [j]"] by blast
    have k: "0 < k" "k \<le> length js" using IH(2) by (auto simp: retract_result_def)
    have tk: "take k ?idxs = take k js" "drop k ?idxs = drop k js @ [j]" using k by auto
    have "j \<notin> set (drop k js)" using j(1) by (meson in_set_dropD)
    then have ra: "retract_at (drop k js) ?rs = retract_at (drop k ?idxs) rs"
      using retract_at_step [OF j(2), of "drop k js"] retract_at_set [of "j # drop k js" "drop k ?idxs" rs] tk by simp
    have "retract_loop sv a clk now first_iter ?idxs retracted rs m =
        Inr (take k ?idxs, retracted @ rev (drop k ?idxs), retract_at (drop k ?idxs) rs, m')"
      by (subst retract_loop.simps) (use c(1) False m2(1) IH(1) ra tk in simp)
    moreover have "retract_result sv (decode_reserve a) H pgs ?idxs rs m k m'"
    proof -
      have h: "holders_at ?rs (take k js) = holders_at rs (take k js)" by (rule hat) (rule set_take_subset)
      have h': "holders_at ?rs (drop k js) = holders_at rs (drop k js)" by (rule hat) (rule set_drop_subset)
      have p2: "pages_at (cache m2) ?rs pgs (drop k js) = pages_at (cache m) rs pgs (drop k js)"
        by (rule pages_at_cong) (use m2(3) c(4) same in \<open>auto dest: in_set_dropD\<close>)
      have p1: "pages_at (cache m1) rs pgs [j] = pages_at (cache m) rs pgs [j]" by (rule pages_at_cong) (simp_all add: c(4))
      show ?thesis
        using IH(2) [unfolded retract_result_def h h' p2 m2(3,4,5) p1 c(3,4,6)] unfolding retract_result_def tk pages_at_append
        by (simp add: Un_commute Un_left_commute)
    qed
    moreover have "k < length ?idxs" using k by simp
    ultimately show ?thesis by blast
  qed
qed simp

end
