(* ===== verification/DecodeRetract.thy ===== *)
theory DecodeRetract
  imports DecodeProofs
begin

text \<open>
  \<open>retract_decode\<close> on a batch of running requests: the requests that are worth most are kept, the next
  step of those fits, and the pages and rows of the others are free again.
\<close>

section \<open>The order of retraction\<close>

lemma mset_sort_reverse [simp]: "mset (sort_reverse f xs) = mset xs"
  by (simp add: sort_reverse_def)

lemma sort_reverse_descends:
  assumes "i \<in> set (take k (sort_reverse f xs))" "j \<in> set (drop k (sort_reverse f xs))"
  shows "f j \<le> f i"
proof -
  let ?s = "sort_key f (rev xs)"
  have "sorted (map f (rev (drop k (rev ?s)) @ rev (take k (rev ?s))))"
    by (simp flip: rev_append)
  then show ?thesis using assms by (auto simp: sort_reverse_def sorted_append)
qed

text \<open>How much a request is worth keeping.\<close>

definition keep_rank :: "retract_args \<Rightarrow> req \<Rightarrow> int \<times> int \<times> int" where
  "keep_rank a r = (if by_priority a then retraction_key (low_priority_values_first a) r else (0, length_key r))"

lemma retraction_order:
  "mset (get_decode_retraction_order a rs) = mset [0..<length rs]"
  "i \<in> set (take k (get_decode_retraction_order a rs)) \<Longrightarrow> j \<in> set (drop k (get_decode_retraction_order a rs)) \<Longrightarrow>
   keep_rank a (run_base (rs ! j)) \<le> keep_rank a (run_base (rs ! i))"
  using sort_reverse_descends [of i k "\<lambda>i. retraction_key (low_priority_values_first a) (run_base (rs ! i))" "[0..<length rs]" j]
    sort_reverse_descends [of i k "\<lambda>i. length_key (run_base (rs ! i))" "[0..<length rs]" j]
  by (auto simp: get_decode_retraction_order_def keep_rank_def split: if_splits)

section \<open>\<open>retract_decode\<close>\<close>

text \<open>Rows and lengths of the batch are those of its requests.\<close>

definition batch_ok :: "decode_batch \<Rightarrow> bool" where
  "batch_ok b \<longleftrightarrow> req_pool_indices b = map (\<lambda>q. row_of (holder q)) (reqs b) \<and> seq_lens b = map (\<lambda>q. kv_committed_len (run_base q)) (reqs b)"

text \<open>Python's \<open>filter_batch\<close> does nothing when all requests are kept, in whatever order. The requests that
  are not kept may have changed.\<close>

lemma filter_batch_keep:
  assumes b: "batch_ok b" and k: "set keep \<subseteq> {..<length (reqs b)}" and id: "length keep = length (reqs b) \<Longrightarrow> keep = [0..<length (reqs b)]"
    and rs: "length rs = length (reqs b)" "map ((!) rs) keep = map ((!) (reqs b)) keep"
  shows "reqs (filter_batch keep (b\<lparr>reqs := rs\<rparr>)) = map ((!) (reqs b)) keep" "keep \<noteq> [] \<Longrightarrow> batch_ok (filter_batch keep (b\<lparr>reqs := rs\<rparr>))"
proof -
  have nth: "map ((!) (map f (reqs b))) keep = map f (map ((!) rs) keep)" for f :: "run_req \<Rightarrow> nat"
    unfolding rs(2) using k by (auto simp: subset_iff)
  have all: "rs = reqs b" if "length keep = length (reqs b)"
    using rs(2) unfolding id [OF that] by (metis map_nth rs(1))
  show "reqs (filter_batch keep (b\<lparr>reqs := rs\<rparr>)) = map ((!) (reqs b)) keep"
  proof (cases "length keep = length (reqs b)")
    case True
    then show ?thesis using all id rs(1) by (auto simp: filter_batch_def map_nth)
  qed (use rs in \<open>auto simp: filter_batch_def\<close>)
  show "batch_ok (filter_batch keep (b\<lparr>reqs := rs\<rparr>))" if "keep \<noteq> []"
  proof (cases "length keep = length (reqs b)")
    case True
    then show ?thesis using all b rs(1) that by (simp add: filter_batch_def)
  next
    case False
    then show ?thesis using b that rs(1) nth by (simp add: batch_ok_def filter_batch_def)
  qed
qed

lemma retract_at_kept: "set keep \<inter> set idxs = {} \<Longrightarrow> set keep \<subseteq> {..<length rs} \<Longrightarrow> map ((!) (retract_at idxs rs)) keep = map ((!) rs) keep"
  by (auto simp: subset_iff disjoint_iff)

text \<open>The result of \<open>retract_decode\<close>: which requests are kept, retracted and aborted.\<close>

definition retract_outcome where
  "retract_outcome sv a H pgs rs m keep retr ab m' \<longleftrightarrow>
     mset (keep @ retr @ ab) = mset [0..<length rs] \<and>
     batch_running sv H m' (holders_at rs keep) (map ((!) pgs) keep) \<and> page_size (cache m') = page_size (cache m) \<and>
     kv_slots (cache m') (kv m') = kv_slots (cache m) (kv m) \<union> pages_at (cache m) rs pgs (retr @ ab) \<and>
     req_to_token (pool m') = req_to_token (pool m) \<and>
     free_slots (pool m') = free_slots (pool m) @ map row_of (holders_at rs (retr @ ab)) \<and>
     (\<forall>i \<in> set keep. \<forall>j \<in> set retr. keep_rank a (run_base (rs ! j)) \<le> keep_rank a (run_base (rs ! i))) \<and>
     (if keep = [] then length ab = 1 else ab = [] \<and> next_fits sv (decode_reserve a) (holders_at rs keep) m')"

definition aborted_req :: "run_req \<Rightarrow> run_req" where
  "aborted_req q = retracted_req (q\<lparr>to_finish := Some oom_abort\<rparr>)"

lemma retract_last:
  assumes b: "batch_running sv H m [holder (rs ! i)] [pgs ! i]" and k: "known_toks sv (holder (rs ! i))"
  obtains m' where "release_req sv a clk now 0 ((rs ! i)\<lparr>to_finish := Some oom_abort\<rparr>) m = Inr (m', aborted_req (rs ! i))"
    "batch_running sv H m' [] []" "kv_slots (cache m') (kv m') = kv_slots (cache m) (kv m) \<union> pages_at (cache m) rs pgs [i]"
    "pool m' = (pool m)\<lparr>free_slots := free_slots (pool m) @ [row_of (holder (rs ! i))]\<rparr>" "page_size (cache m') = page_size (cache m)"
proof (rule release_last)
  let ?q = "(rs ! i)\<lparr>to_finish := Some oom_abort\<rparr>"
  show "batch_running sv H m ([] @ [holder ?q]) ([] @ [pgs ! i])" "known_toks sv (holder ?q)" using b k by simp_all
qed (use that in \<open>simp_all add: aborted_req_def pages_at_def\<close>)

lemma map_perm_nth:
  assumes "mset idxs = mset [0..<length xs]"
  shows "mset (map f (map ((!) xs) idxs)) = mset (map f xs)"
proof -
  have "mset (map f (map ((!) xs) idxs)) = image_mset (\<lambda>i. f (xs ! i)) (mset [0..<length xs])"
    unfolding assms [symmetric] by (simp add: comp_def)
  also have "\<dots> = mset (map f (map ((!) xs) [0..<length xs]))" by (simp add: comp_def)
  finally show ?thesis by (simp add: map_nth)
qed

text \<open>The order of the requests does not matter.\<close>

lemma batch_running_perm:
  assumes b: "batch_running sv H m hs pgs" and perm: "mset idxs = mset [0..<length hs]"
  shows "batch_running sv H m (map ((!) hs) idxs) (map ((!) pgs) idxs)"
proof -
  have idx: "distinct idxs" "\<And>j. j < length idxs \<Longrightarrow> idxs ! j < length hs" "length idxs = length hs"
    using mset_eq_imp_distinct_iff [OF perm] mset_eq_setD [OF perm] mset_eq_length [OF perm] nth_mem by force+
  have "own_apart (cache m) (map base_req (map ((!) hs) idxs)) (map ((!) pgs) idxs)"
    unfolding own_apart_def
  proof (intro allI impI)
    fix i j assume "i < length (map base_req (map ((!) hs) idxs))" "j < length (map base_req (map ((!) hs) idxs))" "i \<noteq> j"
    then show "own_pages (cache m) (map base_req (map ((!) hs) idxs) ! i) (map ((!) pgs) idxs ! i) \<inter>
        own_pages (cache m) (map base_req (map ((!) hs) idxs) ! j) (map ((!) pgs) idxs ! j) = {}"
      using b idx nth_eq_iff_index_eq [OF idx(1)] unfolding batch_running_def own_apart_def by simp
  qed
  moreover have "mset (map row_of (map ((!) hs) idxs) @ free_slots (pool m)) = mset (map row_of hs @ free_slots (pool m))"
    using map_perm_nth [OF perm, of row_of] by simp
  then have "distinct (map row_of (map ((!) hs) idxs) @ free_slots (pool m))"
    using b mset_eq_imp_distinct_iff unfolding batch_running_def by blast
  ultimately show ?thesis
    using b idx map_perm_nth [OF perm, of lnode] by (simp add: batch_running_def)
qed

text \<open>What the loop leaves behind.\<close>

definition loop_left where
  "loop_left sv a H pgs rs m keep retr m1 \<longleftrightarrow> keep \<noteq> [] \<and> mset (keep @ retr) = mset [0..<length rs] \<and> (1 < length rs \<longrightarrow> retr \<noteq> []) \<and>
     batch_running sv H m1 (holders_at rs keep) (map ((!) pgs) keep) \<and> page_size (cache m1) = page_size (cache m) \<and>
     pool m1 = (pool m)\<lparr>free_slots := free_slots (pool m) @ map row_of (holders_at rs retr)\<rparr> \<and>
     kv_slots (cache m1) (kv m1) = kv_slots (cache m) (kv m) \<union> pages_at (cache m) rs pgs retr \<and>
     (length keep = 1 \<or> next_fits sv (decode_reserve a) (holders_at rs keep) m1) \<and>
     (\<forall>i \<in> set keep. \<forall>j \<in> set retr. keep_rank a (run_base (rs ! j)) \<le> keep_rank a (run_base (rs ! i)))"

lemma retract_loop_left:
  assumes ne: "rs \<noteq> []" and run: "batch_running sv H m (map holder rs) pgs" and known: "\<And>q. q \<in> set rs \<Longrightarrow> known_toks sv (holder q)"
  obtains keep retr m1 where
    "retract_loop sv a clk now True (get_decode_retraction_order a rs) [] rs m = Inr (keep, retr, retract_at retr rs, m1)"
    "loop_left sv a H pgs rs m keep retr m1"
proof -
  let ?idxs = "get_decode_retraction_order a rs"
  have perm: "mset ?idxs = mset [0..<length rs]" by (rule retraction_order(1))
  have idx: "distinct ?idxs" "set ?idxs = {..<length rs}" "length ?idxs = length rs"
    by (simp_all only: mset_eq_imp_distinct_iff [OF perm] mset_eq_setD [OF perm] mset_eq_length [OF perm] distinct_upt set_upt
        length_upt atLeast0LessThan minus_nat.diff_0)
  have hat: "map ((!) (map holder rs)) ?idxs = holders_at rs ?idxs" using idx(2) by auto
  have run1: "batch_running sv H m (holders_at rs ?idxs) (map ((!) pgs) ?idxs)"
    using batch_running_perm [OF run, of ?idxs] perm hat by simp
  have ne': "?idxs \<noteq> []" using ne idx(3) by fastforce
  have known': "known_toks sv (holder (rs ! i))" if "i \<in> set ?idxs" for i using known that idx(2) by simp
  obtain k m1 where loop: "retract_loop sv a clk now True ?idxs [] rs m = Inr (take k ?idxs, rev (drop k ?idxs), retract_at (drop k ?idxs) rs, m1)"
    "retract_result sv (decode_reserve a) H pgs ?idxs rs m k m1" "1 < length ?idxs \<longrightarrow> k < length ?idxs"
    using retract_loop_ok [OF ne' idx(1) equalityD1 [OF idx(2)] run1 known', of a clk now True "[]"] by auto
  have ra: "retract_at (drop k ?idxs) rs = retract_at (rev (drop k ?idxs)) rs" by (rule retract_at_set) simp
  show ?thesis
  proof (rule that)
    show "retract_loop sv a clk now True ?idxs [] rs m = Inr (take k ?idxs, rev (drop k ?idxs), retract_at (rev (drop k ?idxs)) rs, m1)"
      using loop(1) ra by simp
    have kr: "mset (take k ?idxs @ rev (drop k ?idxs)) = mset [0..<length rs]" by (metis append_take_drop_id mset_append mset_rev perm)
    have pa: "pages_at (cache m) rs pgs (rev (drop k ?idxs)) = pages_at (cache m) rs pgs (drop k ?idxs)" by (simp add: pages_at_def)
    show "loop_left sv a H pgs rs m (take k ?idxs) (rev (drop k ?idxs)) m1"
      using loop(2,3) ne' idx(3) kr retraction_order(2) [of _ k a rs] unfolding loop_left_def retract_result_def pa
      by (auto simp: rev_map min_absorb2)
  qed
qed

text \<open>With one request left the check is made again.\<close>

lemma last_check:
  assumes l: "loop_left sv a H pgs rs m keep retr m1"
  obtains m2 fits where "(if length keep \<le> 1 then check_decode_mem sv (decode_reserve a) (holders_at rs keep) m1 else Inr (m1, True)) = Inr (m2, fits)"
    "loop_left sv a H pgs rs m keep retr m2" "fits \<longrightarrow> next_fits sv (decode_reserve a) (holders_at rs keep) m2" "\<not> fits \<longrightarrow> length keep = 1"
proof (cases "length keep = 1")
  case True
  have run: "batch_running sv H m1 (holders_at rs keep) (map ((!) pgs) keep)" using l by (simp add: loop_left_def)
  show ?thesis
  proof (rule check_running [OF run, of "decode_reserve a"])
    fix m2 fits assume c: "check_decode_mem sv (decode_reserve a) (holders_at rs keep) m1 = Inr (m2, fits)"
      "batch_running sv H m2 (holders_at rs keep) (map ((!) pgs) keep)" "pool m2 = pool m1"
      "kv_slots (cache m2) (kv m2) = kv_slots (cache m1) (kv m1)" "page_size (cache m2) = page_size (cache m1)"
      "fits = next_fits sv (decode_reserve a) (holders_at rs keep) m2"
    then show ?thesis using that [of m2 fits] l True unfolding loop_left_def by auto
  qed
next
  case False
  then have "\<not> length keep \<le> 1" using l by (cases keep) (auto simp: loop_left_def)
  then show ?thesis using that [of m1 True] l False unfolding loop_left_def by auto
qed

lemma loop_left_sets:
  assumes "loop_left sv a H pgs rs m keep retr m1"
  shows "set keep \<inter> set retr = {}" "set keep \<subseteq> {..<length rs}" "set retr \<subseteq> {..<length rs}"
    "length keep = length rs \<Longrightarrow> keep = [0..<length rs]"
proof -
  have perm: "mset (keep @ retr) = mset [0..<length rs]" and ne: "1 < length rs \<longrightarrow> retr \<noteq> []" using assms by (auto simp: loop_left_def)
  have d: "distinct (keep @ retr)" "set (keep @ retr) = {..<length rs}"
    by (simp_all only: mset_eq_imp_distinct_iff [OF perm] mset_eq_setD [OF perm] distinct_upt set_upt atLeast0LessThan)
  then show sets: "set keep \<inter> set retr = {}" "set keep \<subseteq> {..<length rs}" "set retr \<subseteq> {..<length rs}" by auto
  assume "length keep = length rs"
  then have "retr = []" using mset_eq_length [OF perm] by simp
  then have "length rs \<le> 1" using ne by linarith
  then consider "rs = []" | q where "rs = [q]" by (cases rs) auto
  then show "keep = [0..<length rs]"
    using \<open>length keep = length rs\<close> sets(2) by cases (auto simp: length_Suc_conv)
qed

theorem retract_decode_ok:
  assumes ne: "reqs b \<noteq> []" and bok: "batch_ok b" and run: "batch_running sv H m (map holder (reqs b)) pgs"
    and known: "\<And>q. q \<in> set (reqs b) \<Longrightarrow> known_toks sv (holder q)"
  obtains keep retr ab b' m' where
    "retract_decode sv a clk now b m = Inr (b', m', map (\<lambda>i. retracted_req (reqs b ! i)) retr,
       estimate_new_token_ratio_after_retract (retract_decode_steps a) (reqs b'), map (\<lambda>i. aborted_req (reqs b ! i)) ab)"
    "retract_outcome sv a H pgs (reqs b) m keep retr ab m'" "reqs b' = map ((!) (reqs b)) keep" "keep \<noteq> [] \<Longrightarrow> batch_ok b'"
proof -
  let ?rs = "reqs b"
  obtain keep retr m1 where loop: "retract_loop sv a clk now True (get_decode_retraction_order a ?rs) [] ?rs m = Inr (keep, retr, retract_at retr ?rs, m1)"
    "loop_left sv a H pgs ?rs m keep retr m1"
    by (rule retract_loop_left [OF ne run known])
  obtain m2 fits where c: "(if length keep \<le> 1 then check_decode_mem sv (decode_reserve a) (holders_at ?rs keep) m1 else Inr (m1, True)) = Inr (m2, fits)"
    "loop_left sv a H pgs ?rs m keep retr m2" "fits \<longrightarrow> next_fits sv (decode_reserve a) (holders_at ?rs keep) m2" "\<not> fits \<longrightarrow> length keep = 1"
    by (rule last_check [OF loop(2)]) blast
  note sets = loop_left_sets [OF c(2)] and L = c(2) [unfolded loop_left_def]
  let ?rs1 = "retract_at retr ?rs"
  have k1: "map ((!) ?rs1) keep = map ((!) ?rs) keep" by (rule retract_at_kept [OF sets(1,2)])
  have h1: "holders_at ?rs1 keep = holders_at ?rs keep" using arg_cong [OF k1, of "map holder"] by (simp add: comp_def)
  have r1: "map ((!) ?rs1) retr = map (\<lambda>i. retracted_req (?rs ! i)) retr" using sets(3) by (auto simp: subset_iff)
  show ?thesis
  proof (cases fits)
    case True
    let ?b = "filter_batch keep (b\<lparr>reqs := ?rs1\<rparr>)"
    have "retract_decode sv a clk now b m = Inr (?b, m2, map (\<lambda>i. retracted_req (?rs ! i)) retr,
       estimate_new_token_ratio_after_retract (retract_decode_steps a) (reqs ?b), map (\<lambda>i. aborted_req (?rs ! i)) [])"
      unfolding retract_decode_def loop(1) bind_res_simps prod.case h1 c(1) using True r1 by (simp add: Let_def)
    moreover have "retract_outcome sv a H pgs ?rs m keep retr [] m2" using L c(3) True by (simp add: retract_outcome_def)
    ultimately show ?thesis using that filter_batch_keep [OF bok sets(2,4) _ k1] by simp
  next
    case False
    then obtain i where i: "keep = [i]" using c(4) by (auto simp: length_Suc_conv)
    have run2: "batch_running sv H m2 [holder (?rs ! i)] [pgs ! i]" using L i by simp
    have known': "known_toks sv (holder (?rs ! i))" using known sets(2) i by simp
    obtain m3 where m3: "release_req sv a clk now 0 ((?rs ! i)\<lparr>to_finish := Some oom_abort\<rparr>) m2 = Inr (m3, aborted_req (?rs ! i))"
      "batch_running sv H m3 [] []" "kv_slots (cache m3) (kv m3) = kv_slots (cache m2) (kv m2) \<union> pages_at (cache m2) ?rs pgs [i]"
      "pool m3 = (pool m2)\<lparr>free_slots := free_slots (pool m2) @ [row_of (holder (?rs ! i))]\<rparr>" "page_size (cache m3) = page_size (cache m2)"
      by (rule retract_last [OF run2 known'])
    have at_i: "?rs1 ! i = ?rs ! i" "i < length ?rs" "i \<notin> set retr" using k1 i sets(1,2) by auto
    let ?rs2 = "?rs1[i := aborted_req (?rs ! i)]" and ?b = "filter_batch [] (b\<lparr>reqs := ?rs1[i := aborted_req (?rs ! i)]\<rparr>)"
    have r2: "map ((!) ?rs2) retr = map (\<lambda>i. retracted_req (?rs ! i)) retr" unfolding r1 [symmetric] using at_i(3) by (intro map_cong refl nth_list_update_neq) blast
    have "retract_decode sv a clk now b m = Inr (?b, m3, map (\<lambda>i. retracted_req (?rs ! i)) retr,
       estimate_new_token_ratio_after_retract (retract_decode_steps a) (reqs ?b), map (\<lambda>i. aborted_req (?rs ! i)) [i])"
      unfolding retract_decode_def loop(1) bind_res_simps prod.case h1 c(1) r2 [symmetric] using False i at_i m3(1) by (simp add: Let_def)
    moreover have pa: "pages_at (cache m2) ?rs pgs [i] = pages_at (cache m) ?rs pgs [i]" by (rule pages_at_cong) (use L in simp_all)
    have "retract_outcome sv a H pgs ?rs m [] retr [i] m3"
      unfolding retract_outcome_def pages_at_append using L m3(2-5) i pa by (simp add: Un_assoc)
    ultimately show ?thesis using that [where keep = "[]" and retr = retr and ab = "[i]"] by (simp add: filter_batch_def)
  qed
qed

section \<open>Retracting everything\<close>

lemma map_nth_tail: "map ((!) (x # xs)) [1..<Suc (length xs)] = xs"
proof -
  have "map ((!) (x # xs)) [1..<Suc (length xs)] = map ((!) (x # xs)) (map Suc [0..<length xs])" by (simp add: map_Suc_upt)
  also have "\<dots> = map ((!) xs) [0..<length xs]" by (simp add: comp_def del: map_Suc_upt)
  finally show ?thesis by (simp add: map_nth)
qed

lemma batch_running_rotate:
  assumes b: "batch_running sv H m (h # hs) (pg # pgs)"
  shows "batch_running sv H m (hs @ [h]) (pgs @ [pg])"
proof -
  let ?idxs = "[1..<Suc (length hs)] @ [0]"
  have len: "length pgs = length hs" using b by (simp add: batch_running_def)
  have perm: "mset ?idxs = mset [0..<length (h # hs)]" by (simp add: upt_conv_Cons del: upt_Suc)
  from batch_running_perm [OF b perm] show ?thesis
    using map_nth_tail [of h hs] map_nth_tail [of pg pgs] len by (simp del: upt_Suc)
qed

theorem retract_all_ok:
  assumes "batch_running sv H m (map holder qs) pgs" "\<And>q. q \<in> set qs \<Longrightarrow> known_toks sv (holder q)"
  shows "\<exists>m'. retract_all sv a clk now qs m = Inr (m', map retracted_req qs) \<and> batch_running sv H m' [] [] \<and>
    page_size (cache m') = page_size (cache m) \<and>
    kv_slots (cache m') (kv m') = kv_slots (cache m) (kv m) \<union> page_slots (page_size (cache m)) (batch_pages (cache m) (map run_base qs) pgs) \<and>
    free_slots (pool m') = free_slots (pool m) @ map (\<lambda>q. row_of (holder q)) qs"
  using assms
proof (induction qs arbitrary: pgs m)
  case Nil
  then show ?case by (auto simp: batch_running_def batch_pages_def page_slots_def)
next
  case (Cons q qs)
  then obtain pg pgs' where pgs: "pgs = pg # pgs'" and len: "length pgs' = length (map holder qs)"
    by (cases pgs) (auto simp: batch_running_def)
  have "batch_running sv H m (map holder qs @ [holder q]) (pgs' @ [pg])" using batch_running_rotate Cons.prems(1) pgs by simp
  then obtain m1 where m1: "release_req sv a clk now (length (q # qs)) q m = Inr (m1, retracted_req q)" "batch_running sv H m1 (map holder qs) pgs'"
    "kv_slots (cache m1) (kv m1) = kv_slots (cache m) (kv m) \<union> page_slots (page_size (cache m)) (own_pages (cache m) (run_base q) pg)"
    "pool m1 = (pool m)\<lparr>free_slots := free_slots (pool m) @ [row_of (holder q)]\<rparr>" "page_size (cache m1) = page_size (cache m)"
    using release_last [OF _ len] Cons.prems(2) by (metis list.set_intros(1))
  obtain m' where m': "retract_all sv a clk now qs m1 = Inr (m', map retracted_req qs)" "batch_running sv H m' [] []"
    "page_size (cache m') = page_size (cache m1)"
    "kv_slots (cache m') (kv m') = kv_slots (cache m1) (kv m1) \<union> page_slots (page_size (cache m1)) (batch_pages (cache m1) (map run_base qs) pgs')"
    "free_slots (pool m') = free_slots (pool m1) @ map (\<lambda>q. row_of (holder q)) qs"
    using Cons.IH [OF m1(2)] Cons.prems(2) by auto
  have "batch_pages (cache m1) (map run_base qs) pgs' = batch_pages (cache m) (map run_base qs) pgs'" by (simp add: batch_pages_def own_pages_def m1(5))
  moreover have "batch_pages (cache m) (map run_base (q # qs)) pgs = own_pages (cache m) (run_base q) pg \<union> batch_pages (cache m) (map run_base qs) pgs'"
    by (simp add: batch_pages_def pgs lessThan_Suc_eq_insert_0 image_image)
  ultimately show ?case using m1(1,3-5) m' by (simp add: page_slots_Un Un_assoc)
qed

end
