(* ===== verification/DecodeStep.thy ===== *)
theory DecodeStep
  imports DecodeProofs
begin

text \<open>
  \<open>prepare_for_decode\<close> on a batch of running requests whose next step fits: every request gets the next
  slot of its row, on its last page or on a new one, and runs on.
\<close>

section \<open>Longer keys\<close>

lemma rk_iter_longer:
  assumes "N \<le> M" "k = mk_radix_key (take N xs) ek big None salt" "k' = mk_radix_key (take M xs) ek big None salt"
  shows "rk_len k \<le> rk_len k'" "rk_iter k = take (rk_len k) (rk_iter k')" "rk_ns k = rk_ns k'"
proof -
  have raw: "raw_len k = min (length xs) N" "raw_len k' = min (length xs) M" "token_ids k = take N xs" "token_ids k' = take M xs"
    "is_bigram k = big" "is_bigram k' = big" by (simp_all add: assms(2,3) mk_radix_key_def raw_len_def)
  show le: "rk_len k \<le> rk_len k'" using assms(1) raw by (auto simp: rk_len_eq)
  show "rk_iter k = take (rk_len k) (rk_iter k')"
  proof (rule nth_equalityI)
    fix i assume "i < length (rk_iter k)"
    then have i: "i < rk_len k" by simp
    show "rk_iter k ! i = take (rk_len k) (rk_iter k') ! i"
      using i le assms(1) raw by (cases big) (auto simp: rk_iter_flat rk_iter_bigram rk_len_eq)
  qed (use le in simp)
  show "rk_ns k = rk_ns k'" by (simp add: assms(2,3) mk_radix_key_def rk_ns_def)
qed

lemma req_radix_key_longer:
  fixes r :: req and xs :: "int list"
  assumes p: "0 < page_size c" and N: "N \<le> M"
  defines "k \<equiv> req_radix_key c r (take N xs)" and "k' \<equiv> req_radix_key c r (take M xs)"
  shows "rk_len k \<le> rk_len k'" "n \<le> rk_len k \<Longrightarrow> take n (rk_iter k') = take n (rk_iter k)" "rk_ns k' = rk_ns k"
proof -
  let ?k = "mk_radix_key (take N xs) (req_extra_key r) (is_eagle c) None (req_cache_salt r)"
  let ?k' = "mk_radix_key (take M xs) (req_extra_key r) (is_eagle c) None (req_cache_salt r)"
  note L = rk_iter_longer [OF N refl refl, of xs "req_extra_key r" "is_eagle c" "req_cache_salt r"]
  have len: "rk_len k = page_floor (page_size c) (rk_len ?k)" "rk_len k' = page_floor (page_size c) (rk_len ?k')"
    using p by (simp_all add: k_def k'_def req_radix_key_def)
  show le: "rk_len k \<le> rk_len k'" unfolding len by (rule page_floor_mono [OF L(1)])
  have it: "rk_iter k = take (rk_len k) (rk_iter ?k)" "rk_iter k' = take (rk_len k') (rk_iter ?k')"
    using p by (simp_all add: len) (simp_all add: k_def k'_def req_radix_key_def rk_iter_page_aligned)
  have lk: "rk_len k \<le> rk_len ?k" unfolding len by (rule page_floor_le)
  show "take n (rk_iter k') = take n (rk_iter k)" if "n \<le> rk_len k"
  proof -
    have "take n (rk_iter k) = take n (take (rk_len k) (take (rk_len ?k) (rk_iter ?k')))" using it(1) L(2) by metis
    then show ?thesis using it(2) that le lk by (simp add: min_absorb1)
  qed
  show "rk_ns k' = rk_ns k" using L(3) by (simp add: k_def k'_def req_radix_key_def)
qed

lemma path_held_longer:
  assumes p: "0 < page_size c" and h: "path_held c r (take N xs) entries" and N: "N \<le> M"
    and same: "take (cache_protected_len r) entries' = take (cache_protected_len r) entries"
  shows "path_held c r (take M xs) entries'"
  using h req_radix_key_longer [OF p N, where r = r and xs = xs] order_trans unfolding path_held_def same by fastforce

section \<open>Rows\<close>

lemma laid_next:
  assumes p: "0 < p" and l: "laid p pages row n" and n: "n < length row" and new: "length new = new_pages p (n, Suc n)" "distinct (pages @ new)"
    and v: "v = (pages @ new) ! (n div p) * p + n mod p"
  shows "laid p (pages @ new) (row[n := v]) (Suc n)"
proof -
  have row: "row_after (take n row) [v] row = row[n := v]" using n by (simp add: row_after_def upd_conv_take_nth_drop)
  have len: "length (take n row) = n" using n by simp
  have pg: "length pages = pages_of p n" "take n row = take n (expand_pages p pages)" using l by (simp_all add: laid_def)
  then have cap: "n \<le> length pages * p" using pages_of_bounds(1) [OF p, of n] by simp
  show ?thesis
    unfolding row [symmetric]
  proof (rule laid_row_after [OF p _ new(2)])
    show "take n row ! t = pages ! (t div p) * p + t mod p" if "t < length (take n row)" for t
      using that cap unfolding pg(2) by (simp add: nth_expand_pages)
    show "[v] ! (t - length (take n row)) = (pages @ new) ! (t div p) * p + t mod p" if "length (take n row) \<le> t" "t < Suc n" for t
      using that n v by (simp add: le_antisym less_Suc_eq_le)
  qed (use n pg(1) new(1) len in simp_all)
qed

lemma write_entries_ok:
  assumes "distinct (map fst ixs)" "length vs = length ixs"
    "\<And>row i. (row, i) \<in> set ixs \<Longrightarrow> row < length (req_to_token rp) \<and> i < length (req_to_token rp ! row)"
  shows "\<exists>rt. write_entries ixs vs rp = Inr (rp\<lparr>req_to_token := rt\<rparr>) \<and> length rt = length (req_to_token rp) \<and>
    (\<forall>j < length ixs. rt ! fst (ixs ! j) = (req_to_token rp ! fst (ixs ! j))[snd (ixs ! j) := vs ! j]) \<and>
    (\<forall>row. row \<notin> set (map fst ixs) \<longrightarrow> rt ! row = req_to_token rp ! row)"
  using assms
proof (induction ixs vs rp rule: write_entries.induct)
  case (1 rp)
  then show ?case by (intro exI [of _ "req_to_token rp"]) simp
next
  case (2 row i ixs v vs rp)
  let ?rp = "rp\<lparr>req_to_token := (req_to_token rp)[row := (req_to_token rp ! row)[i := v]]\<rparr>"
  have ok: "row < length (req_to_token rp)" "i < length (req_to_token rp ! row)" using "2.prems"(3) [of row i] by auto
  have "row' < length (req_to_token ?rp) \<and> i' < length (req_to_token ?rp ! row')" if "(row', i') \<in> set ixs" for row' i'
    using "2.prems"(3) [of row' i'] that ok(1) by (cases "row' = row") auto
  then obtain rt where rt: "write_entries ixs vs ?rp = Inr (?rp\<lparr>req_to_token := rt\<rparr>)" "length rt = length (req_to_token rp)"
    "\<And>j. j < length ixs \<Longrightarrow> rt ! fst (ixs ! j) = (req_to_token ?rp ! fst (ixs ! j))[snd (ixs ! j) := vs ! j]"
    "\<And>r. r \<notin> set (map fst ixs) \<Longrightarrow> rt ! r = req_to_token ?rp ! r"
    using "2.IH" ok "2.prems"(1,2) by auto
  have new: "row \<notin> set (map fst ixs)" using "2.prems"(1) by simp
  have "rt ! fst (((row, i) # ixs) ! j) = (req_to_token rp ! fst (((row, i) # ixs) ! j))[snd (((row, i) # ixs) ! j) := (v # vs) ! j]"
    if "j < length ((row, i) # ixs)" for j
  proof (cases j)
    case 0
    then show ?thesis using rt(4) [OF new] ok(1) by simp
  next
    case (Suc j')
    then have "fst (ixs ! j') \<noteq> row" using that new nth_mem [of j' ixs] by auto
    then show ?thesis using rt(3) [of j'] Suc that by simp
  qed
  moreover have "rt ! r = req_to_token rp ! r" if "r \<notin> set (map fst ((row, i) # ixs))" for r
    using rt(4) [of r] that by (auto simp: nth_list_update)
  ultimately show ?case using rt(1,2) ok by (intro exI [of _ rt]) simp
qed simp_all

section \<open>The next slots\<close>

text \<open>A request that runs, with its numbers.\<close>

lemma runningE:
  assumes ok: "mem_ok H (cache m) (kv m)" and r: "running sv m h pages" and sv: "\<not> speculative sv"
  obtains k where "req_kv h = Some k" "last_node (base_req h) \<noteq> None" "req_pool_idx (base_req h) = Some (row_of h)" "row_of h < length (req_to_token (pool m))"
    "kv_allocated_len k = kv_committed_len (base_req h)"
    "laid (page_size (cache m)) pages (req_to_token (pool m) ! row_of h) (kv_committed_len (base_req h))"
    "length pages = pages_of (page_size (cache m)) (kv_committed_len (base_req h))" "distinct pages"
    "cache_protected_len (base_req h) \<le> kv_committed_len (base_req h)"
    "path_held (cache m) (base_req h) (eff_toks sv h) (req_to_token (pool m) ! row_of h)"
    "page_slots (page_size (cache m)) (own_pages (cache m) (base_req h) pages) \<inter> kv_slots (cache m) (kv m) = {}"
    "own_pages (cache m) (base_req h) pages \<inter> set (pool_pages (kv m)) = {}"
proof -
  let ?p = "page_size (cache m)" and ?n = "kv_committed_len (base_req h)"
  have p: "0 < ?p" and ps: "al_page_size (kv m) = ?p" using ok by (auto simp: mem_ok_def cache_ok_def)
  obtain k where k: "req_kv h = Some k" "last_node (base_req h) \<noteq> None" "req_pool_idx (base_req h) = Some (row_of h)" "row_of h < length (req_to_token (pool m))"
    "kv_allocated_len k = ?n" "laid ?p pages (req_to_token (pool m) ! row_of h) ?n"
    "path_held (cache m) (base_req h) (eff_toks sv h) (req_to_token (pool m) ! row_of h)"
    "page_slots ?p (own_pages (cache m) (base_req h) pages) \<inter> kv_slots (cache m) (kv m) = {}"
    using r sv unfolding running_def by force
  have "cache_protected_len (base_req h) \<le> length (eff_toks sv h)"
    using k(7) req_radix_key_len(2) [OF p, of "base_req h" "eff_toks sv h"] unfolding path_held_def by linarith
  then have prot: "cache_protected_len (base_req h) \<le> ?n" using effective_le [of sv h] by simp
  have "page_slots ?p (own_pages (cache m) (base_req h) pages) \<inter> page_slots ?p (set (pool_pages (kv m))) = {}"
    using k(8) unfolding kv_slots_def pool_slots_def ps by blast
  then have "own_pages (cache m) (base_req h) pages \<inter> set (pool_pages (kv m)) = {}" by (rule page_slots_disjointD [OF p])
  then show ?thesis using that k prot by (simp add: laid_def)
qed

abbreviation lens_of :: "kv_holder list \<Rightarrow> nat list" where
  "lens_of hs \<equiv> map (\<lambda>h. kv_committed_len (base_req h)) hs"

lemma laid_slot:
  assumes "0 < p" "laid p pages row n" "t < n"
  shows "row ! t = pages ! (t div p) * p + t mod p"
proof -
  have "n \<le> length pages * p" using assms(2) pages_of_bounds(1) [OF assms(1), of n] by (simp add: laid_def)
  moreover have "row ! t = expand_pages p pages ! t" using assms(2,3) unfolding laid_def by (metis nth_take)
  ultimately show ?thesis using assms(3) by (simp add: nth_expand_pages)
qed

lemma last_entries_ok:
  assumes "\<And>row n. (row, n) \<in> set ixs \<Longrightarrow> row < length (req_to_token rp) \<and> 0 < n \<and> n \<le> length (req_to_token rp ! row)"
  shows "last_entries rp ixs = Inr (map (\<lambda>(row, n). req_to_token rp ! row ! (n - 1)) ixs)"
  using assms
proof (induction rp ixs rule: last_entries.induct)
  case (2 rp row n ixs)
  have "row < length (req_to_token rp)" "0 < n" "n \<le> length (req_to_token rp ! row)" using "2.prems" [of row n] by auto
  then have e: "row_entry rp row (int n - 1) = Inr (req_to_token rp ! row ! (n - 1))"
    by (simp add: row_entry_def Let_def of_nat_diff nat_diff_distrib)
  moreover have "last_entries rp ixs = Inr (map (\<lambda>(row, n). req_to_token rp ! row ! (n - 1)) ixs)"
    by (rule "2.IH" [OF e]) (use "2.prems" in auto)
  ultimately show ?case using e by simp
qed simp

text \<open>The last slots of the requests of a batch.\<close>

lemma decode_tails:
  assumes b: "batch_running sv H m hs pgs" and sv: "\<not> speculative sv" and pos: "\<And>h. h \<in> set hs \<Longrightarrow> 0 < kv_committed_len (base_req h)"
  defines "ll \<equiv> map (\<lambda>h. int (req_to_token (pool m) ! row_of h ! (kv_committed_len (base_req h) - 1))) hs"
  shows "last_entries (pool m) (zip (map row_of hs) (lens_of hs)) = Inr (map (\<lambda>h. req_to_token (pool m) ! row_of h ! (kv_committed_len (base_req h) - 1)) hs)"
    "i < length hs \<Longrightarrow> ll ! i = int (pgs ! i ! ((lens_of hs ! i - 1) div page_size (cache m)) * page_size (cache m) + (lens_of hs ! i - 1) mod page_size (cache m))"
    "tails_ok (page_size (cache m)) (set (pool_pages (kv m))) (decode_reqs (map Suc (lens_of hs))) ll"
proof -
  let ?p = "page_size (cache m)" and ?n = "\<lambda>i. kv_committed_len (base_req (hs ! i))"
  have ok: "mem_ok (mset (map lnode hs) + H) (cache m) (kv m)" and run: "\<And>i. i < length hs \<Longrightarrow> running sv m (hs ! i) (pgs ! i)"
    and apart: "own_apart (cache m) (map base_req hs) pgs" using b by (auto simp: batch_running_def)
  have p: "0 < ?p" using ok by (simp add: mem_ok_def cache_ok_def)
  have z: "zip (map row_of hs) (lens_of hs) = map (\<lambda>h. (row_of h, kv_committed_len (base_req h))) hs" by (simp add: zip_map_map zip_same_conv_map)
  have rows: "row_of h < length (req_to_token (pool m)) \<and> kv_committed_len (base_req h) \<le> length (req_to_token (pool m) ! row_of h)"
    if h: "h \<in> set hs" for h
  proof -
    obtain i where i: "i < length hs" "hs ! i = h" using h by (auto simp: in_set_conv_nth)
    show ?thesis using runningE [OF ok run [OF i(1)] sv] unfolding i(2) laid_def by blast
  qed
  show "last_entries (pool m) (zip (map row_of hs) (lens_of hs)) = Inr (map (\<lambda>h. req_to_token (pool m) ! row_of h ! (kv_committed_len (base_req h) - 1)) hs)"
    unfolding z using rows pos by (subst last_entries_ok) (auto simp: comp_def)
  have l: "ll ! i = int (pgs ! i ! ((?n i - 1) div ?p) * ?p + (?n i - 1) mod ?p)" if i: "i < length hs" for i
  proof -
    have "laid ?p (pgs ! i) (req_to_token (pool m) ! row_of (hs ! i)) (?n i)" using runningE [OF ok run [OF i] sv] by blast
    then have "req_to_token (pool m) ! row_of (hs ! i) ! (?n i - 1) = pgs ! i ! ((?n i - 1) div ?p) * ?p + (?n i - 1) mod ?p"
      by (rule laid_slot [OF p]) (use pos nth_mem [OF i] in force)
    then show ?thesis using i by (simp only: ll_def nth_map)
  qed
  then show "ll ! i = int (pgs ! i ! ((lens_of hs ! i - 1) div ?p) * ?p + (lens_of hs ! i - 1) mod ?p)" if "i < length hs"
    using that by (simp only: nth_map)
  have own: "nat (ll ! i) div ?p \<in> own_pages (cache m) (base_req (hs ! i)) (pgs ! i)"
      "own_pages (cache m) (base_req (hs ! i)) (pgs ! i) \<inter> set (pool_pages (kv m)) = {}" if i: "i < length hs" "?n i mod ?p \<noteq> 0" for i
  proof -
    have f: "length (pgs ! i) = pages_of ?p (?n i)" "cache_protected_len (base_req (hs ! i)) \<le> ?n i"
      "own_pages (cache m) (base_req (hs ! i)) (pgs ! i) \<inter> set (pool_pages (kv m)) = {}"
      using runningE [OF ok run [OF i(1)] sv] by blast+
    have n0: "0 < ?n i" using pos nth_mem [OF i(1)] by blast
    show "nat (ll ! i) div ?p \<in> own_pages (cache m) (base_req (hs ! i)) (pgs ! i)"
      using last_slot(3) [OF p n0 l [OF i(1)] i(2)] last_page [OF p i(2) f(1,2)] by (simp add: own_pages_def)
    show "own_pages (cache m) (base_req (hs ! i)) (pgs ! i) \<inter> set (pool_pages (kv m)) = {}" by (rule f(3))
  qed
  show "tails_ok ?p (set (pool_pages (kv m))) (decode_reqs (map Suc (lens_of hs))) ll"
    unfolding tails_ok_def
  proof (intro conjI allI impI; (elim conjE)?)
    fix i assume "i < length (decode_reqs (map Suc (lens_of hs)))"
    then have i: "i < length hs" and n: "fst (decode_reqs (map Suc (lens_of hs)) ! i) = ?n i" by (simp_all add: decode_reqs_def)
    have n0: "0 < ?n i" using pos nth_mem [OF i] by blast
    show "- 1 \<le> ll ! i" "nat (ll ! i + 1) mod ?p = fst (decode_reqs (map Suc (lens_of hs)) ! i) mod ?p"
      using last_slot(1,2) [OF p n0 l [OF i]] n by simp_all
    show "nat (ll ! i) div ?p \<notin> set (pool_pages (kv m))" if "fst (decode_reqs (map Suc (lens_of hs)) ! i) mod ?p \<noteq> 0"
      using own [OF i] that n by auto
    fix j assume j': "j < length (decode_reqs (map Suc (lens_of hs)))"
      "fst (decode_reqs (map Suc (lens_of hs)) ! i) mod ?p \<noteq> 0" "fst (decode_reqs (map Suc (lens_of hs)) ! j) mod ?p \<noteq> 0"
      "nat (ll ! i) div ?p = nat (ll ! j) div ?p"
    then have j: "j < length hs" "?n j mod ?p \<noteq> 0" by (simp_all add: decode_reqs_def)
    show "i = j"
    proof (rule ccontr)
      assume "i \<noteq> j"
      then have "own_pages (cache m) (base_req (hs ! i)) (pgs ! i) \<inter> own_pages (cache m) (base_req (hs ! j)) (pgs ! j) = {}"
        using apart i j(1) by (simp add: own_apart_def)
      then show False using own(1) [OF i] own(1) [OF j] j'(2,4) n by auto
    qed
  qed
qed

text \<open>The two ways to get the slots of a step.\<close>

definition decode_slots :: "(nat \<Rightarrow> nat) \<Rightarrow> nat list \<Rightarrow> kv_holder list \<Rightarrow> mem_state \<Rightarrow> (mem_state \<times> nat list) res" where
  "decode_slots garbage pids hs m =
     (if page_size (cache m) = 1 then alloc_token_slots (length hs) m
      else bind_res (last_entries (pool m) (zip (map row_of hs) (lens_of hs))) (\<lambda>last_loc.
        alloc_paged_token_slots_decode garbage pids (map Suc (lens_of hs)) (map int last_loc) m))"

lemma required_pages:
  assumes "1 < p"
  shows "length (filter (\<lambda>h. kv_committed_len (base_req h) mod p = 0) hs) = get_num_new_pages_decode p (map Suc (lens_of hs))"
  using assms by (induction hs) (auto simp: get_num_new_pages_decode_def mod_Suc)

lemma decode_slots_ok:
  assumes b: "batch_running sv H m hs pgs" and sv: "\<not> speculative sv" and pos: "\<And>h. h \<in> set hs \<Longrightarrow> 0 < kv_committed_len (base_req h)"
    and fits: "next_fits sv reserve hs m" and pids: "mset pids = mset [0..<length hs]"
  obtains m1 al out news where "decode_slots garbage pids hs m = Inr (m1\<lparr>kv := al\<rparr>, out)" "batch_running sv H m1 hs pgs" "pool m1 = pool m"
    "kv_slots (cache m1) (kv m1) = kv_slots (cache m) (kv m)" "page_size (cache m1) = page_size (cache m)"
    "handed_out (kv m1) al (decode_reqs (map Suc (lens_of hs))) pgs out news"
proof -
  let ?p = "page_size (cache m)" and ?lens = "decode_reqs (map Suc (lens_of hs))" and ?ss = "map Suc (lens_of hs)"
  have ps: "al_page_size (kv m) = ?p" using b by (simp add: batch_running_def mem_ok_def)
  have need: "length (filter (\<lambda>h. kv_committed_len (base_req h) mod ?p = 0) hs) * ?p \<le> available_size (kv m)"
    using fits sv ps by (simp add: next_fits_def new_tokens_required_next_decode_def)
  obtain m1 where m1: "evict_from_tree_cache (if ?p = 1 then length hs else length hs * ?p) m = Inr m1" "batch_running sv H m1 hs pgs" "pool m1 = pool m"
    "kv_slots (cache m1) (kv m1) = kv_slots (cache m) (kv m)" "page_size (cache m1) = ?p" "available_size (kv m) \<le> available_size (kv m1)"
    by (rule evict_running [OF b]) blast
  have ok1: "mem_ok (mset (map lnode hs) + H) (cache m1) (kv m1)" and run1: "\<And>i. i < length hs \<Longrightarrow> running sv m1 (hs ! i) (pgs ! i)"
    using m1(2) by (auto simp: batch_running_def)
  have al1: "al_ok (kv m1)" "al_page_size (kv m1) = ?p" "0 < ?p" using ok1 m1(5) by (auto simp: mem_ok_def cache_ok_def)
  have len: "length (pgs ! i) = pages_of ?p (lens_of hs ! i)" if "i < length hs" for i
    using runningE [OF ok1 run1 [OF that] sv] that m1(5) by (metis (no_types, lifting) nth_map)
  have st: "out_start ?lens (length ?lens) = length hs" using decode_start [of "length hs" ?ss] by (simp add: decode_reqs_def)
  show ?thesis
  proof (cases "?p = 1")
    case True
    have "\<exists>al' out news. al_alloc (length hs) (kv m1) = Inr (al', Some out) \<and> handed_out (kv m1) al' ?lens pgs out news"
    proof (rule handed_out_tokens [OF al1(1)])
      show "length (pgs ! i) = fst (?lens ! i)" if "i < length ?lens" for i
        using len [of i] that True by (simp add: decode_reqs_def pages_of_def)
    qed (use al1(2) True st need m1(6) in \<open>auto simp: reqs_ok_def decode_reqs_def\<close>)
    then obtain al' out news where a: "al_alloc (length hs) (kv m1) = Inr (al', Some out)" "handed_out (kv m1) al' ?lens pgs out news" by blast
    have "decode_slots garbage pids hs m = Inr (m1\<lparr>kv := al'\<rparr>, out)"
      using True m1(1) a(1) by (simp add: decode_slots_def alloc_token_slots_def or_out_of_memory_def)
    then show ?thesis using that m1 a(2) by blast
  next
    case False
    note T = decode_tails [OF m1(2) sv pos, unfolded m1(3)]
    have p1: "1 < ?p" using False al1(3) by simp
    have "paged (kv m1)" using al1 False by (auto simp: al_ok_def tok_ok_def split: if_splits)
    then have pok: "paged_ok (kv m1)" using al1(1) by (simp add: al_ok_def)
    let ?ll = "map (\<lambda>h. int (req_to_token (pool m) ! row_of h ! (kv_committed_len (base_req h) - 1))) hs"
    have "\<exists>al' out news. alloc_decode garbage pids ?ss ?ll (kv m1) = Inr (al', Some out) \<and> handed_out (kv m1) al' ?lens pgs out news"
    proof (rule handed_out_decode [OF pok])
      show "tails_ok (al_page_size (kv m1)) (set (pool_pages (kv m1))) ?lens ?ll" using T(3) al1(2) m1(5) by simp
      show "?ll ! i = (if ?ss ! i - 1 = 0 then - 1 else int (pgs ! i ! ((?ss ! i - 1 - 1) div al_page_size (kv m1)) * al_page_size (kv m1) +
          (?ss ! i - 1 - 1) mod al_page_size (kv m1)))" if i: "i < length ?ss" for i
        using T(2) [of i] i pos [of "hs ! i"] al1(2) m1(5) by simp
      show "get_num_new_pages_decode (al_page_size (kv m1)) ?ss * al_page_size (kv m1) \<le> available_size (kv m1)"
        using need m1(6) unfolding required_pages [OF p1] al1(2) by linarith
      show "length (pgs ! i) = pages_of (al_page_size (kv m1)) (?ss ! i - 1)" if "i < length ?ss" for i
        using len [of i] that al1(2) by simp
    qed (use p1 al1(2) pids in auto)
    then obtain al' out news where a: "alloc_decode garbage pids ?ss ?ll (kv m1) = Inr (al', Some out)" "handed_out (kv m1) al' ?lens pgs out news" by blast
    have "decode_slots garbage pids hs m = Inr (m1\<lparr>kv := al'\<rparr>, out)"
      using False m1(1) a(1) T(1) ps by (simp add: decode_slots_def alloc_paged_token_slots_decode_def or_out_of_memory_def Let_def comp_def)
    then show ?thesis using that m1 a(2) by blast
  qed
qed

section \<open>The step\<close>

text \<open>A running request holds the whole of its row as a prefix.\<close>

lemma running_prefix:
  assumes ok: "mem_ok H (cache m) (kv m)" and r: "running sv m h pages" and sv: "\<not> speculative sv"
  shows "holds_prefix (cache m) (kv m) ((base_req h)\<lparr>prefix_indices := take (kv_committed_len (base_req h)) (req_to_token (pool m) ! row_of h)\<rparr>)
    (eff_toks sv h) pages"
proof (rule runningE [OF assms])
  let ?p = "page_size (cache m)" and ?n = "kv_committed_len (base_req h)" and ?row = "req_to_token (pool m) ! row_of h"
  let ?r = "(base_req h)\<lparr>prefix_indices := take ?n ?row\<rparr>"
  fix k assume k: "last_node (base_req h) \<noteq> None" "laid ?p pages ?row ?n" "length pages = pages_of ?p ?n" "distinct pages"
    "cache_protected_len (base_req h) \<le> ?n" "path_held (cache m) (base_req h) (eff_toks sv h) ?row"
    "page_slots ?p (own_pages (cache m) (base_req h) pages) \<inter> kv_slots (cache m) (kv m) = {}"
  have "?n \<le> length ?row" and ex: "take ?n ?row = take ?n (expand_pages ?p pages)" using k(2) unfolding laid_def by blast+
  then have len: "length (take ?n ?row) = ?n" unfolding length_take by simp
  have key: "req_radix_key (cache m) ?r (eff_toks sv h) = req_radix_key (cache m) (base_req h) (eff_toks sv h)" by (simp add: req_radix_key_def)
  have "take (cache_protected_len (base_req h)) (take ?n ?row) = take (cache_protected_len (base_req h)) ?row" using k(5) by simp
  then show ?thesis
    unfolding holds_prefix_def key using k(1,3-7) ex len by (auto simp: path_held_def own_pages_def)
qed

definition decoded_holder :: "kv_holder \<Rightarrow> kv_holder" where
  "decoded_holder h = h\<lparr>base_req := (base_req h)\<lparr>kv_committed_len := kv_committed_len (base_req h) + 1\<rparr>,
     req_kv := map_option (\<lambda>k. k\<lparr>kv_allocated_len := kv_allocated_len k + 1\<rparr>) (req_kv h)\<rparr>"

lemma decoded_holder_sel [simp]:
  "base_req (decoded_holder h) = (base_req h)\<lparr>kv_committed_len := kv_committed_len (base_req h) + 1\<rparr>"
  "req_kv (decoded_holder h) = map_option (\<lambda>k. k\<lparr>kv_allocated_len := kv_allocated_len k + 1\<rparr>) (req_kv h)"
  by (simp_all add: decoded_holder_def)

lemma effective_decoded: "effective_kv_committed_len sv h \<le> effective_kv_committed_len sv (decoded_holder h)"
  by (auto simp: effective_kv_committed_len_def decoded_holder_def Let_def)

lemma next_running:
  assumes ok: "mem_ok H (cache m) (kv m)" and r: "running sv m h pages" and sv: "\<not> speculative sv"
    and row: "length rt = length (req_to_token (pool m))" "kv_committed_len (base_req h) < length (req_to_token (pool m) ! row_of h)"
      "rt ! row_of h = (req_to_token (pool m) ! row_of h)[kv_committed_len (base_req h) := v]"
    and new: "length new = new_pages (page_size (cache m)) (kv_committed_len (base_req h), Suc (kv_committed_len (base_req h)))"
      "distinct new" "set new \<subseteq> N" "N \<subseteq> set (pool_pages (kv m))" "pool_slots al = pool_slots (kv m) - page_slots (page_size (cache m)) N"
    and v: "v = (pages @ new) ! (kv_committed_len (base_req h) div page_size (cache m)) * page_size (cache m) + kv_committed_len (base_req h) mod page_size (cache m)"
  shows "running sv (m\<lparr>kv := al, pool := rp\<lparr>req_to_token := rt\<rparr>\<rparr>) (decoded_holder h) (pages @ new)"
proof (rule runningE [OF ok r sv])
  let ?c = "cache m" and ?p = "page_size (cache m)" and ?n = "kv_committed_len (base_req h)" and ?row = "req_to_token (pool m) ! row_of h"
  have p: "0 < ?p" and ps: "al_page_size (kv m) = ?p" and disj: "set_mset (tslots (root_node ?c)) \<inter> pool_slots (kv m) = {}"
    using ok by (auto simp: mem_ok_def cache_ok_def)
  fix k assume k: "req_kv h = Some k" "last_node (base_req h) \<noteq> None" "req_pool_idx (base_req h) = Some (row_of h)" "row_of h < length (req_to_token (pool m))"
    "kv_allocated_len k = ?n" "laid ?p pages ?row ?n" "distinct pages" "cache_protected_len (base_req h) \<le> ?n"
    "path_held ?c (base_req h) (eff_toks sv h) ?row" "page_slots ?p (own_pages ?c (base_req h) pages) \<inter> kv_slots ?c (kv m) = {}"
  have "set pages \<inter> set (pool_pages (kv m)) = {}" using prefix_not_free [OF ok running_prefix [OF ok r sv]] by blast
  then have dist: "distinct (pages @ new)" using k(7) new(2-4) by auto
  have laid: "laid ?p (pages @ new) (rt ! row_of h) (Suc ?n)" unfolding row(3) by (rule laid_next [OF p k(6) row(2) new(1) dist v])
  have prot: "cache_protected_len (base_req h) div ?p \<le> length pages"
    using protected_pages [OF p running_prefix [OF ok r sv]] by simp
  have "page_slots ?p N \<subseteq> pool_slots (kv m)" using page_slots_mono [OF new(4)] by (simp add: pool_slots_def ps)
  then have own: "page_slots ?p (own_pages ?c (base_req h) (pages @ new)) \<inter> kv_slots ?c al = {}"
    using k(10) disj page_slots_mono [OF new(3), of ?p] prot unfolding kv_slots_def new(5)
    by (auto simp: own_pages_def page_slots_Un)
  have "path_held ?c (base_req h) (eff_toks sv (decoded_holder h)) (rt ! row_of h)"
    using path_held_longer [OF p k(9) effective_decoded, of "rt ! row_of h"] k(8) row(3) by simp
  then have path: "path_held ?c (base_req (decoded_holder h)) (eff_toks sv (decoded_holder h)) (rt ! row_of h)"
    by (simp add: path_held_def req_radix_key_def)
  have own': "own_pages ?c (base_req (decoded_holder h)) (pages @ new) = own_pages ?c (base_req h) (pages @ new)" by (simp add: own_pages_def)
  show ?thesis
    unfolding running_def using k(1-5) row(1) laid path own own' by (intro exI [of _ "k\<lparr>kv_allocated_len := Suc ?n\<rparr>"] exI [of _ "row_of h"]) simp
qed

definition decoded :: "run_req \<Rightarrow> run_req" where
  "decoded q = q\<lparr>holder := decoded_holder (holder q), decode_batch_idx := decode_batch_idx q + 1\<rparr>"

text \<open>The slots, the row entries and the requests of one step.\<close>

lemma alloc_for_decode_ok:
  assumes b: "batch_running sv H m hs pgs" and sv: "\<not> speculative sv" and pos: "\<And>h. h \<in> set hs \<Longrightarrow> 0 < kv_committed_len (base_req h)"
    and fits: "next_fits sv reserve hs m" and pids: "mset pids = mset [0..<length hs]"
    and room: "\<And>h. h \<in> set hs \<Longrightarrow> kv_committed_len (base_req h) < length (req_to_token (pool m) ! row_of h)"
  obtains m1 al out news rt where
    "alloc_for_decode garbage pids 1 None (zip hs (zip (map row_of hs) (lens_of hs))) m =
       Inr (m1\<lparr>kv := al, pool := (pool m)\<lparr>req_to_token := rt\<rparr>\<rparr>,
         map (\<lambda>h. h\<lparr>req_kv := map_option (\<lambda>k. k\<lparr>kv_allocated_len := kv_allocated_len k + 1\<rparr>) (req_kv h)\<rparr>) hs, out)"
    "batch_running sv H m1 hs pgs" "pool m1 = pool m" "kv_slots (cache m1) (kv m1) = kv_slots (cache m) (kv m)"
    "page_size (cache m1) = page_size (cache m)" "handed_out (kv m1) al (decode_reqs (map Suc (lens_of hs))) pgs out news"
    "length rt = length (req_to_token (pool m))"
    "\<forall>i < length hs. rt ! row_of (hs ! i) = (req_to_token (pool m) ! row_of (hs ! i))[lens_of hs ! i := out ! i]"
proof -
  let ?ixs = "zip (map row_of hs) (lens_of hs)" and ?batch = "zip hs (zip (map row_of hs) (lens_of hs))"
  obtain m1 al out news where s: "decode_slots garbage pids hs m = Inr (m1\<lparr>kv := al\<rparr>, out)" "batch_running sv H m1 hs pgs" "pool m1 = pool m"
    "kv_slots (cache m1) (kv m1) = kv_slots (cache m) (kv m)" "page_size (cache m1) = page_size (cache m)"
    "handed_out (kv m1) al (decode_reqs (map Suc (lens_of hs))) pgs out news"
    by (rule decode_slots_ok [OF b sv pos fits pids])
  have run: "running sv m (hs ! i) (pgs ! i)" if "i < length hs" for i using b that by (simp add: batch_running_def)
  have len: "length out = length hs"
    using s(6) decode_start [of "length hs" "map Suc (lens_of hs)"] by (simp add: handed_out_def decode_reqs_def)
  have h: "row_of h < length (req_to_token (pool m))" "req_kv h \<noteq> None" if h: "h \<in> set hs" for h
  proof -
    obtain i where i: "i < length hs" "hs ! i = h" using h by (auto simp: in_set_conv_nth)
    show "row_of h < length (req_to_token (pool m))" "req_kv h \<noteq> None" using run [OF i(1)] unfolding i(2) running_def by auto
  qed
  have "distinct (map row_of hs)" using b by (simp add: batch_running_def)
  then have "\<exists>rt. write_entries ?ixs out (pool m) = Inr ((pool m)\<lparr>req_to_token := rt\<rparr>) \<and> length rt = length (req_to_token (pool m)) \<and>
      (\<forall>j < length ?ixs. rt ! fst (?ixs ! j) = (req_to_token (pool m) ! fst (?ixs ! j))[snd (?ixs ! j) := out ! j]) \<and>
      (\<forall>row. row \<notin> set (map fst ?ixs) \<longrightarrow> rt ! row = req_to_token (pool m) ! row)"
    by (intro write_entries_ok) (use h room len in \<open>auto simp: set_zip\<close>)
  then obtain rt where rt: "write_entries ?ixs out (pool m) = Inr ((pool m)\<lparr>req_to_token := rt\<rparr>)" "length rt = length (req_to_token (pool m))"
    "\<And>j. j < length ?ixs \<Longrightarrow> rt ! fst (?ixs ! j) = (req_to_token (pool m) ! fst (?ixs ! j))[snd (?ixs ! j) := out ! j]" by blast
  have cols: "map (fst \<circ> snd) ?batch = map row_of hs" "map (snd \<circ> snd) ?batch = lens_of hs" "length ?batch = length hs"
    "map (\<lambda>(h, _). f h) ?batch = map f hs" for f :: "kv_holder \<Rightarrow> kv_holder"
    by (auto intro: nth_equalityI)
  have none: "\<not> list_ex (\<lambda>(h, _). req_kv h = None) ?batch" using h(2) by (auto simp: list_ex_iff dest: set_zip_leftD)
  have suc: "map (\<lambda>n. n + 1) (lens_of hs) = map Suc (lens_of hs)" by simp
  have slots: "(if page_size (cache m) = 1 then alloc_token_slots (length ?batch * 1) m
      else bind_res (last_entries (pool m) (zip (map (fst \<circ> snd) ?batch) (map (snd \<circ> snd) ?batch))) (\<lambda>last_loc.
        alloc_paged_token_slots_decode garbage pids (map (\<lambda>n. n + 1) (map (snd \<circ> snd) ?batch)) (map int last_loc) m)) = Inr (m1\<lparr>kv := al\<rparr>, out)"
    using s(1) unfolding cols suc decode_slots_def mult_1_right .
  have pool1: "pool (m1\<lparr>kv := al\<rparr>) = pool m" using s(3) by simp
  show ?thesis
  proof (rule that [OF _ s(2-6) rt(2)])
    show "alloc_for_decode garbage pids 1 None ?batch m = Inr (m1\<lparr>kv := al, pool := (pool m)\<lparr>req_to_token := rt\<rparr>\<rparr>,
         map (\<lambda>h. h\<lparr>req_kv := map_option (\<lambda>k. k\<lparr>kv_allocated_len := kv_allocated_len k + 1\<rparr>) (req_kv h)\<rparr>) hs, out)"
      unfolding alloc_for_decode_def Let_def slots
      unfolding bind_res_simps prod.case option.case pool1 cols(1,2,4) rt(1) using none by simp
    show "\<forall>i < length hs. rt ! row_of (hs ! i) = (req_to_token (pool m) ! row_of (hs ! i))[lens_of hs ! i := out ! i]"
      using rt(3) by simp
  qed
qed

lemma next_pages:
  assumes "handed_out al al' (decode_reqs (map Suc ns)) pgs out news" "i < length ns"
  shows "length (news ! i) = new_pages (al_page_size al) (ns ! i, Suc (ns ! i))" "distinct (news ! i)" "set (news ! i) \<subseteq> set (concat news)"
    "out ! i = (pgs ! i @ news ! i) ! (ns ! i div al_page_size al) * al_page_size al + ns ! i mod al_page_size al"
proof -
  have at: "decode_reqs (map Suc ns) ! i = (ns ! i, Suc (ns ! i))" "length (decode_reqs (map Suc ns)) = length ns" using assms(2) by (simp_all add: decode_reqs_def)
  have h: "length news = length ns" "distinct (concat news)" using assms(1) at(2) by (simp_all add: handed_out_def)
  show "length (news ! i) = new_pages (al_page_size al) (ns ! i, Suc (ns ! i))" using assms at by (simp add: handed_out_def)
  show "distinct (news ! i)" using h assms(2) by (simp add: distinct_concat_iff)
  show "set (news ! i) \<subseteq> set (concat news)" using h(1) assms(2) by force
  have "out_start (decode_reqs (map Suc ns)) i = i" using decode_start [of i "map Suc ns"] assms(2) by simp
  then show "out ! i = (pgs ! i @ news ! i) ! (ns ! i div al_page_size al) * al_page_size al + ns ! i mod al_page_size al"
    using assms at unfolding handed_out_def by (metis (no_types, lifting) add.right_neutral diff_self_eq_0 fst_conv lessI order_refl snd_conv)
qed

text \<open>The requests of the batch run on.\<close>

lemma batch_runs_on:
  assumes b: "batch_running sv H m hs pgs" and sv: "\<not> speculative sv"
    and ho: "handed_out (kv m) al (decode_reqs (map Suc (lens_of hs))) pgs out news"
    and room: "\<And>h. h \<in> set hs \<Longrightarrow> kv_committed_len (base_req h) < length (req_to_token (pool m) ! row_of h)"
    and rt: "length rt = length (req_to_token (pool m))"
      "\<forall>i < length hs. rt ! row_of (hs ! i) = (req_to_token (pool m) ! row_of (hs ! i))[lens_of hs ! i := out ! i]"
  defines "m' \<equiv> m\<lparr>kv := al, pool := (pool m)\<lparr>req_to_token := rt\<rparr>\<rparr>" and "pgs' \<equiv> map2 (@) pgs news"
  shows "batch_running sv H m' (map decoded_holder hs) pgs'"
    "kv_slots (cache m) al \<union> page_slots (page_size (cache m)) (batch_pages (cache m) (map base_req (map decoded_holder hs)) pgs') =
     kv_slots (cache m) (kv m) \<union> page_slots (page_size (cache m)) (batch_pages (cache m) (map base_req hs) pgs)"
proof -
  let ?hs' = "map decoded_holder hs" and ?c = "cache m" and ?p = "page_size (cache m)"
  have ok: "mem_ok (mset (map lnode hs) + H) ?c (kv m)" and run: "\<And>i. i < length hs \<Longrightarrow> running sv m (hs ! i) (pgs ! i)"
    and apart: "own_apart ?c (map base_req hs) pgs" and len: "length pgs = length (map base_req hs)"
    and rest: "\<not> disable ?c" "distinct (map row_of hs @ free_slots (pool m))" using b by (auto simp: batch_running_def)
  have p: "0 < ?p" and ps: "al_page_size (kv m) = ?p" using ok by (auto simp: mem_ok_def cache_ok_def)
  have prot: "cache_protected_len (map base_req hs ! i) div ?p \<le> length (pgs ! i)" if i: "i < length (map base_req hs)" for i
    using protected_pages [OF p running_prefix [OF ok run sv], of i] i by simp
  have free: "own_pages ?c (map base_req hs ! i) (pgs ! i) \<inter> set (pool_pages (kv m)) = {}" if i: "i < length (map base_req hs)" for i
  proof -
    have i': "i < length hs" using i by simp
    show ?thesis using runningE [OF ok run [OF i'] sv] i' by (metis nth_map)
  qed
  have lens: "length (decode_reqs (map Suc (lens_of hs))) = length (map base_req hs)" by (simp add: decode_reqs_def)
  note P = pages_handed_out [OF ok ho lens len prot free apart, where rs' = "map base_req ?hs'", folded pgs'_def]
  have P': "own_apart ?c (map base_req ?hs') pgs'" "mem_ok (mset (map lnode hs) + H) ?c al"
    "pool_slots al = pool_slots (kv m) - page_slots ?p (set (concat news))" by (rule P; simp)+
  show "kv_slots ?c al \<union> page_slots ?p (batch_pages ?c (map base_req ?hs') pgs') = kv_slots ?c (kv m) \<union> page_slots ?p (batch_pages ?c (map base_req hs) pgs)"
    by (rule P(5)) simp_all
  have news: "length news = length hs" "set (concat news) \<subseteq> set (pool_pages (kv m))" using ho lens by (simp_all add: handed_out_def)
  have "running sv m' (?hs' ! i) (pgs' ! i)" if i: "i < length hs" for i
  proof -
    note N = next_pages [OF ho, unfolded length_map ps, OF i]
    have n: "lens_of hs ! i = kv_committed_len (base_req (hs ! i))" using i by simp
    have "running sv m' (decoded_holder (hs ! i)) (pgs ! i @ news ! i)"
      unfolding m'_def
      by (rule next_running [OF ok run [OF i] sv rt(1) _ _ N(1,2,3) [unfolded n] news(2) P'(3) N(4) [unfolded n]])
        (use room nth_mem [OF i] rt(2) i in simp_all)
    then show ?thesis using i news(1) len by (simp add: pgs'_def)
  qed
  moreover have maps: "map lnode ?hs' = map lnode hs" "map row_of ?hs' = map row_of hs" by simp_all
  ultimately show "batch_running sv H m' ?hs' pgs'"
    using P'(1,2) rest len news(1) unfolding batch_running_def maps by (simp add: m'_def pgs'_def)
qed

theorem prepare_for_decode_ok:
  assumes bok: "req_pool_indices b = map (\<lambda>q. row_of (holder q)) (reqs b)" "seq_lens b = lens_of (map holder (reqs b))"
    and b: "batch_running sv H m (map holder (reqs b)) pgs" and sv: "\<not> speculative sv"
    and pos: "\<And>q. q \<in> set (reqs b) \<Longrightarrow> 0 < kv_committed_len (run_base q)" and fits: "next_fits sv reserve (map holder (reqs b)) m"
    and orders: "\<And>n. mset (orders n) = mset [0..<n]"
    and room: "\<And>q. q \<in> set (reqs b) \<Longrightarrow> kv_committed_len (run_base q) < length (req_to_token (pool m) ! row_of (holder q))"
  obtains m' pgs' where
    "prepare_for_decode spec sv garbage orders b m = Inr (b\<lparr>reqs := map decoded (reqs b), seq_lens := map Suc (seq_lens b)\<rparr>, m')"
    "batch_running sv H m' (map holder (map decoded (reqs b))) pgs'" "page_size (cache m') = page_size (cache m)"
    "free_slots (pool m') = free_slots (pool m)"
    "kv_slots (cache m') (kv m') \<union> page_slots (page_size (cache m)) (batch_pages (cache m') (map run_base (map decoded (reqs b))) pgs') =
     kv_slots (cache m) (kv m) \<union> page_slots (page_size (cache m)) (batch_pages (cache m) (map run_base (reqs b)) pgs)"
proof -
  let ?hs = "map holder (reqs b)" and ?p = "page_size (cache m)"
  let ?lens = "decode_reqs (map Suc (lens_of ?hs))"
  have pids: "mset (orders (length (reqs b))) = mset [0..<length ?hs]" using orders by simp
  obtain m1 al out news rt where a: "alloc_for_decode garbage (orders (length (reqs b))) 1 None (zip ?hs (zip (map row_of ?hs) (lens_of ?hs))) m =
       Inr (m1\<lparr>kv := al, pool := (pool m)\<lparr>req_to_token := rt\<rparr>\<rparr>,
         map (\<lambda>h. h\<lparr>req_kv := map_option (\<lambda>k. k\<lparr>kv_allocated_len := kv_allocated_len k + 1\<rparr>) (req_kv h)\<rparr>) ?hs, out)"
    "batch_running sv H m1 ?hs pgs" "pool m1 = pool m" "kv_slots (cache m1) (kv m1) = kv_slots (cache m) (kv m)"
    "page_size (cache m1) = ?p" "handed_out (kv m1) al ?lens pgs out news" "length rt = length (req_to_token (pool m))"
    and row: "\<forall>i < length ?hs. rt ! row_of (?hs ! i) = (req_to_token (pool m) ! row_of (?hs ! i))[lens_of ?hs ! i := out ! i]"
  proof (rule alloc_for_decode_ok [OF b sv _ fits pids, where garbage = garbage])
    show "kv_committed_len (base_req h) < length (req_to_token (pool m) ! row_of h)" "0 < kv_committed_len (base_req h)" if "h \<in> set ?hs" for h
      using that room pos by auto
  qed blast
  define m' where "m' = m1\<lparr>kv := al, pool := (pool m)\<lparr>req_to_token := rt\<rparr>\<rparr>"
  have R: "batch_running sv H m' (map decoded_holder ?hs) (map2 (@) pgs news)"
    "kv_slots (cache m1) al \<union> page_slots (page_size (cache m1)) (batch_pages (cache m1) (map base_req (map decoded_holder ?hs)) (map2 (@) pgs news)) =
     kv_slots (cache m1) (kv m1) \<union> page_slots (page_size (cache m1)) (batch_pages (cache m1) (map base_req ?hs) pgs)"
    using batch_runs_on [OF a(2) sv a(6), of rt] room a(7) row unfolding a(3) m'_def by auto
  have hs: "map holder (map decoded (reqs b)) = map decoded_holder ?hs" "map run_base (map decoded (reqs b)) = map base_req (map decoded_holder ?hs)"
    "map run_base (reqs b) = map base_req ?hs" by (simp_all add: decoded_def)
  have q: "map2 (\<lambda>q h. q\<lparr>holder := h\<lparr>base_req := (base_req h)\<lparr>kv_committed_len := kv_committed_len (base_req h) + 1\<rparr>\<rparr>,
      decode_batch_idx := decode_batch_idx q + 1\<rparr>) (reqs b)
      (map (\<lambda>h. h\<lparr>req_kv := map_option (\<lambda>k. k\<lparr>kv_allocated_len := kv_allocated_len k + 1\<rparr>) (req_kv h)\<rparr>) ?hs) = map decoded (reqs b)"
    by (rule nth_equalityI) (simp_all add: decoded_def decoded_holder_def)
  have z: "zip ?hs (zip (req_pool_indices b) (seq_lens b)) = zip ?hs (zip (map row_of ?hs) (lens_of ?hs))" unfolding bok by (simp add: comp_def)
  have call: "prepare_for_decode spec sv garbage orders b m = Inr (b\<lparr>reqs := map decoded (reqs b), seq_lens := map Suc (seq_lens b)\<rparr>, m')"
    unfolding prepare_for_decode_def z a(1) using sv q by (simp add: m'_def)
  have own: "batch_pages (cache m1) rs ps = batch_pages (cache m) rs ps" for rs ps by (simp add: batch_pages_def own_pages_def a(5))
  have "kv_slots (cache m') (kv m') \<union> page_slots ?p (batch_pages (cache m') (map run_base (map decoded (reqs b))) (map2 (@) pgs news)) =
      kv_slots (cache m) (kv m) \<union> page_slots ?p (batch_pages (cache m) (map run_base (reqs b)) pgs)"
    unfolding hs using R(2) a(4,5) by (simp add: m'_def own)
  then show ?thesis using that [OF call R(1) [folded hs(1)]] a(5) by (simp add: m'_def)
qed

end
