(* ===== verification/MemProps.thy ===== *)
theory MemProps
  imports MemUnfinished RadixProps
begin

text \<open>
  The properties of releasing and caching the KV of a request. The witnesses use the cache of two
  pages of two slots with its leaf locked, and a request of seven tokens whose first four
  are that leaf and whose other tokens are on pages 3 and 4.
\<close>

definition demo_taken :: kv_alloc where
  "demo_taken = demo_alloc\<lparr>free_pages := [5..<9]\<rparr>"

definition demo_req :: req where
  "demo_req = \<lparr>origin_input_ids = [11, 12, 13, 14, 20, 21], output_ids = [22], full_untruncated_fill_ids = [11, 12, 13, 14, 20, 21, 22],
     extend_end = 7, req_extra_key = None, req_cache_salt = None, req_priority = None, req_pool_idx = Some 1,
     cache_protected_len = 4, prefix_indices = [2, 3, 4, 5], last_node = Some 1, inflight_middle_chunks = 0, kv_committed_len = 7\<rparr>"

definition demo_rows :: req_pool where
  "demo_rows = \<lparr>rp_size = 1, max_context_len = 8, req_to_token = [replicate 8 0, [2, 3, 4, 5, 6, 7, 8, 0]], free_slots = [],
     req_generation = [0, 1]\<rparr>"

definition demo_mem :: mem_state where
  "demo_mem = \<lparr>cache = demo_locked, kv = demo_taken, pool = demo_rows\<rparr>"

definition demo_holder :: kv_holder where
  "demo_holder = \<lparr>base_req = demo_req, req_kv = Some \<lparr>kv_allocated_len = 7, swa_evicted_seqlen = 0\<rparr>, reasoning_tokens = 0,
     skip_radix_cache_insert = False, swa_evict_floor = 0\<rparr>"

definition plain_serving :: serving where
  "plain_serving = \<lparr>strip_thinking_cache = False, speculative = False\<rparr>"

lemma demo_locked_sel: "page_size demo_locked = 2" "disable demo_locked = False"
  by code_simp+

lemma demo_locked_slots: "tslots (root_node demo_locked) = {#2, 3, 4, 5#}"
  by code_simp

lemma demo_taken_slots: "pool_slots demo_taken = page_slots 2 {5, 6, 7, 8}"
  by (simp add: pool_slots_def pool_pages_def demo_taken_def demo_alloc_def init_paged_alloc_def paged_clear_def)

lemma demo_locked_mem_ok: "mem_ok (add_mset 1 {#}) demo_locked demo_taken"
proof -
  obtain d where d: "inc_lock_ref 1 demo_full = Inr (demo_locked, d)" "same_content demo_full demo_locked"
    using inc_lock_ref_correct [OF demo_full_ok _ demo_full_node] demo_full_sel(1) by (auto simp: demo_locked_def)
  have "mem_ok {#1#} demo_locked demo_used" by (rule mem_ok_same_content [OF demo_mem_ok demo_locked_ok(1) d(2)])
  then show ?thesis
    by (rule mem_ok_alloc)
      (simp_all add: al_ok_def paged_ok_def pool_ok_def pool_pages_def demo_taken_def demo_used_def demo_alloc_def
        init_paged_alloc_def paged_clear_def demo_locked_slots pool_slots_def page_slots_def)
qed

lemma demo_holds: "holds_kv demo_locked demo_taken demo_rows demo_req [11, 12, 13, 14, 20, 21, 22] [1, 2, 3, 4] 7"
  unfolding holds_kv_def
proof (intro exI [of _ 1] conjI exI [of _ "[(Tok 11, 2), (Tok 12, 3), (Tok 13, 4), (Tok 14, 5)]"])
  show "laid (page_size demo_locked) [1, 2, 3, 4] (req_to_token demo_rows ! 1) 7" by code_simp
  show "page_slots (page_size demo_locked) (set (drop (cache_protected_len demo_req div page_size demo_locked) [1, 2, 3, 4])) \<inter>
      (set_mset (tslots (root_node demo_locked)) \<union> pool_slots demo_taken) = {}"
    unfolding demo_locked_slots demo_taken_slots demo_locked_sel by (auto simp: demo_req_def page_slots_def)
  show "content demo_locked (rk_ns (req_radix_key demo_locked demo_req [11, 12, 13, 14, 20, 21, 22]))
      [(Tok 11, 2), (Tok 12, 3), (Tok 13, 4), (Tok 14, 5)]" by code_simp
  show "page_size demo_locked dvd cache_protected_len demo_req" by code_simp
  show "cache_protected_len demo_req \<le> rk_len (req_radix_key demo_locked demo_req [11, 12, 13, 14, 20, 21, 22])" by code_simp
  show "map fst [(Tok 11, 2), (Tok 12, 3), (Tok 13, 4), (Tok 14, 5)] =
      take (cache_protected_len demo_req) (rk_iter (req_radix_key demo_locked demo_req [11, 12, 13, 14, 20, 21, 22]))" by code_simp
qed (simp_all add: demo_req_def demo_rows_def)

text \<open>C38: releasing a request that holds its KV (its row laid out in pages, the protected part cached
  and locked, the rest its own) never fails, whether or not its tokens are inserted into the tree:
  the lock is released, every page of its own ends up in the tree or in the pool, in one of
  them only, nothing else changes hands, and its row is free again.\<close>

theorem release_loses_no_page:
  assumes "mem_ok (add_mset l H) (cache m) (kv m)" "\<not> disable (cache m)" "last_node (base_req h) = Some l" "req_kv h = Some k"
    and "holds_kv (cache m) (kv m) (pool m) (base_req h)
       (take (effective_kv_committed_len sv h) (origin_input_ids (base_req h) @ output_ids (base_req h))) pages (kv_allocated_len k)"
    and "effective_kv_committed_len sv h \<le> length (origin_input_ids (base_req h) @ output_ids (base_req h))"
    and "speculative sv \<or> strip_thinking_cache sv \<or> effective_kv_committed_len sv h = kv_allocated_len k"
  shows "\<exists>m' h'. release_kv_cache sv clk now is_insert h m = Inr (m', h') \<and> mem_ok H (cache m') (kv m') \<and>
     kv_slots (cache m') (kv m') = kv_slots (cache m) (kv m) \<union>
       page_slots (page_size (cache m)) (set (drop (cache_protected_len (base_req h) div page_size (cache m)) pages)) \<and>
     free_slots (pool m') = free_slots (pool m) @ [the (req_pool_idx (base_req h))] \<and>
     req_kv h' = None \<and> req_pool_idx (base_req h') = None"
  by (rule release_kv_conserves [OF assms])

theorem release_loses_no_page_witness:
  "\<exists>m' h'. release_kv_cache plain_serving demo_clock 9 True demo_holder demo_mem = Inr (m', h') \<and> mem_ok {#} (cache m') (kv m') \<and>
     kv_slots (cache m') (kv m') = kv_slots demo_locked demo_taken \<union> page_slots 2 {3, 4} \<and> free_slots (pool m') = [1]"
proof -
  have n: "effective_kv_committed_len plain_serving demo_holder = 7" by code_simp
  have t: "take 7 (origin_input_ids demo_req @ output_ids demo_req) = [11, 12, 13, 14, 20, 21, 22]" by (simp add: demo_req_def)
  have sel: "cache demo_mem = demo_locked" "kv demo_mem = demo_taken" "pool demo_mem = demo_rows" "base_req demo_holder = demo_req"
    "req_kv demo_holder = Some \<lparr>kv_allocated_len = 7, swa_evicted_seqlen = 0\<rparr>" "last_node demo_req = Some 1"
    "cache_protected_len demo_req = 4" "req_pool_idx demo_req = Some 1" "free_slots demo_rows = []"
    by (simp_all add: demo_mem_def demo_holder_def demo_req_def demo_rows_def)
  show ?thesis
    using release_loses_no_page [of 1 "{#}" demo_mem demo_holder "\<lparr>kv_allocated_len = 7, swa_evicted_seqlen = 0\<rparr>" plain_serving
        "[1, 2, 3, 4]" demo_clock 9 True] demo_locked_mem_ok demo_holds
    unfolding sel n t demo_locked_sel by (auto simp: demo_req_def)
qed

text \<open>C39: caching an unfinished request that holds its KV never fails and leaves it holding its KV: the
  protected part grows to all whole pages of its tokens, its row names the slots of the tree, the
  lock is on the longer prefix, and the pages of tree, pool and request together are the same.\<close>

theorem unfinished_keeps_pages:
  assumes "mem_ok (add_mset l H) (cache m) (kv m)" "\<not> disable (cache m)" "last_node r = Some l"
    and "holds_kv (cache m) (kv m) (pool m) r (get_fill_ids r) pages n"
  shows "\<exists>m' r' pages' l'. cache_unfinished_req clk now1 now2 chunked r m = Inr (m', r') \<and>
     last_node r' = Some l' \<and> mem_ok (add_mset l' H) (cache m') (kv m') \<and>
     cache_protected_len r' = rk_len (req_radix_key (cache m) r (get_fill_ids r)) \<and>
     holds_kv (cache m') (kv m') (pool m') r' (get_fill_ids r) pages' n \<and>
     kv_slots (cache m') (kv m') \<union> page_slots (page_size (cache m)) (set (drop (cache_protected_len r' div page_size (cache m)) pages')) =
     kv_slots (cache m) (kv m) \<union> page_slots (page_size (cache m)) (set (drop (cache_protected_len r div page_size (cache m)) pages))"
  by (rule cache_unfinished_conserves [OF assms])

theorem unfinished_keeps_pages_witness:
  "\<exists>m' r' pages' l'. cache_unfinished_req demo_clock 9 10 True demo_req demo_mem = Inr (m', r') \<and>
     last_node r' = Some l' \<and> mem_ok {#l'#} (cache m') (kv m') \<and> cache_protected_len r' = 6 \<and>
     holds_kv (cache m') (kv m') (pool m') r' [11, 12, 13, 14, 20, 21, 22] pages' 7"
proof -
  have f: "get_fill_ids demo_req = [11, 12, 13, 14, 20, 21, 22]" by code_simp
  have k: "rk_len (req_radix_key demo_locked demo_req [11, 12, 13, 14, 20, 21, 22]) = 6" by code_simp
  have sel: "cache demo_mem = demo_locked" "kv demo_mem = demo_taken" "pool demo_mem = demo_rows" "last_node demo_req = Some 1"
    by (simp_all add: demo_mem_def demo_req_def)
  show ?thesis
    using unfinished_keeps_pages [of 1 "{#}" demo_mem demo_req "[1, 2, 3, 4]" 7 demo_clock 9 10 True]
      demo_locked_mem_ok demo_holds demo_locked_sel(2)
    unfolding sel f k by blast
qed

end
