(* ===== verification/MemBatchProps.thy ===== *)
theory MemBatchProps
  imports MemBatch MemProps
begin

text \<open>
  The property of allocating memory for a batch. The witness is a batch of two requests on the cache
  of two pages of two slots: a new one that matched the whole cached prefix, and the next
  chunk of one that has a row and computed three tokens on pages 3 and 4.
\<close>

definition demo_new :: kv_holder where
  "demo_new = demo_holder\<lparr>req_kv := None, base_req := demo_req\<lparr>full_untruncated_fill_ids := [11, 12, 13, 14, 30, 31],
     extend_end := 6, req_pool_idx := None, kv_committed_len := 0\<rparr>\<rparr>"

definition demo_next_chunk :: kv_holder where
  "demo_next_chunk = demo_holder\<lparr>base_req := demo_req\<lparr>full_untruncated_fill_ids := [11, 12, 13, 14, 20, 21, 22, 23, 24],
     extend_end := 9, prefix_indices := [2, 3, 4, 5, 6, 7, 8]\<rparr>\<rparr>"

definition demo_batch_rows :: req_pool where
  "demo_batch_rows = \<lparr>rp_size = 2, max_context_len = 10,
     req_to_token = [replicate 10 0, [2, 3, 4, 5, 6, 7, 8, 0, 0, 0], replicate 10 0], free_slots = [2], req_generation = [0, 1, 0]\<rparr>"

definition demo_batch_mem :: mem_state where
  "demo_batch_mem = demo_mem\<lparr>pool := demo_batch_rows\<rparr>"

lemma demo_batch_sel:
  "cache demo_batch_mem = demo_locked" "kv demo_batch_mem = demo_taken" "pool demo_batch_mem = demo_batch_rows"
  by (simp_all add: demo_batch_mem_def demo_mem_def)

lemma demo_batch_slots: "kv_slots demo_locked demo_taken = {2, 3, 4, 5} \<union> page_slots 2 {5, 6, 7, 8}"
  unfolding kv_slots_def demo_locked_slots demo_taken_slots by auto

lemma demo_new_prefix: "holds_prefix demo_locked demo_taken (base_req demo_new) (get_fill_ids (base_req demo_new)) [1, 2]"
  unfolding holds_prefix_def
proof (intro conjI exI [of _ 1] exI [of _ "[(Tok 11, 2), (Tok 12, 3), (Tok 13, 4), (Tok 14, 5)]"])
  show "page_slots (page_size demo_locked) (own_pages demo_locked (base_req demo_new) [1, 2]) \<inter> kv_slots demo_locked demo_taken = {}"
    by (simp add: own_pages_def demo_locked_sel demo_new_def demo_holder_def demo_req_def page_slots_def)
qed code_simp+

lemma demo_chunk_prefix:
  "holds_prefix demo_locked demo_taken (base_req demo_next_chunk) (get_fill_ids (base_req demo_next_chunk)) [1, 2, 3, 4]"
  unfolding holds_prefix_def
proof (intro conjI exI [of _ 1] exI [of _ "[(Tok 11, 2), (Tok 12, 3), (Tok 13, 4), (Tok 14, 5)]"])
  show "page_slots (page_size demo_locked) (own_pages demo_locked (base_req demo_next_chunk) [1, 2, 3, 4]) \<inter> kv_slots demo_locked demo_taken = {}"
    unfolding demo_batch_slots own_pages_def demo_locked_sel
    by (auto simp: demo_next_chunk_def demo_holder_def demo_req_def page_slots_def)
qed code_simp+

lemma demo_batch_ready:
  "batch_ready {#1#} demo_batch_mem (map base_req [demo_new, demo_next_chunk]) [[1, 2], [1, 2, 3, 4]]"
proof -
  have "extend_ready {#1#} demo_batch_mem (base_req demo_new) [1, 2]"
    unfolding extend_ready_def demo_batch_sel using demo_new_prefix
    by (auto simp: demo_new_def demo_holder_def demo_req_def demo_batch_rows_def less_Suc_eq numeral_3_eq_3)
  moreover have "extend_ready {#1#} demo_batch_mem (base_req demo_next_chunk) [1, 2, 3, 4]"
    unfolding extend_ready_def demo_batch_sel using demo_chunk_prefix
    by (auto simp: demo_next_chunk_def demo_holder_def demo_req_def demo_batch_rows_def less_Suc_eq numeral_3_eq_3)
  moreover have "own_pages demo_locked (base_req demo_new) [1, 2] = {}" by code_simp
  ultimately show ?thesis by (auto simp: batch_ready_def demo_batch_sel less_Suc_eq)
qed

text \<open>C22. When a batch is ready to be extended (every request holds and has locked its prefix, and no
  page belongs to two of them) and rows and slots suffice, counting what can be evicted,
  \<open>alloc_for_extend\<close> does not fail: every request leaves with a row of its own that is laid out in
  pages up to the end of its range, so that it holds its KV as \<open>release_kv_cache\<close> and
  \<open>cache_unfinished_req\<close> expect it, no page belongs to two requests, to the tree or to the pool,
  and the pages of tree, pool and batch together are the same as before.\<close>

theorem alloc_for_extend_holds:
  assumes "mem_ok H (cache m) (kv m)" "\<not> disable (cache m)" "batch_ready H m (map base_req hs) pgs"
    and "rows_ok (map base_req hs) (pool m)" "mset pids = mset [0..<length hs]"
    and "length (filter (\<lambda>h. req_pool_idx (base_req h) = None) hs) \<le> length (free_slots (pool m))"
    and "int (num_extend_tokens (map base_req hs) + length hs * page_size (cache m)) \<le> int (available_size (kv m)) + evictable_size (acct (cache m))"
  shows "\<exists>m' hs' out pgs'. alloc_for_extend garbage pids hs m = Inr (m', hs', out) \<and> mem_ok H (cache m') (kv m') \<and>
    batch_holds m' hs hs' pgs' \<and>
    kv_slots (cache m') (kv m') \<union> page_slots (page_size (cache m)) (batch_pages (cache m') (map base_req hs') pgs') =
    kv_slots (cache m) (kv m) \<union> page_slots (page_size (cache m)) (batch_pages (cache m) (map base_req hs) pgs)"
  by (rule alloc_for_extend_conserves [OF assms])

theorem alloc_for_extend_holds_witness:
  "\<exists>m' hs' out pgs'. alloc_for_extend (\<lambda>_. 0) [1, 0] [demo_new, demo_next_chunk] demo_batch_mem = Inr (m', hs', out) \<and>
    mem_ok {#1#} (cache m') (kv m') \<and> batch_holds m' [demo_new, demo_next_chunk] hs' pgs'"
proof -
  have "\<exists>m' hs' out pgs'. alloc_for_extend (\<lambda>_. 0) [1, 0] [demo_new, demo_next_chunk] demo_batch_mem = Inr (m', hs', out) \<and>
    mem_ok {#1#} (cache m') (kv m') \<and> batch_holds m' [demo_new, demo_next_chunk] hs' pgs' \<and>
    kv_slots (cache m') (kv m') \<union> page_slots (page_size (cache demo_batch_mem)) (batch_pages (cache m') (map base_req hs') pgs') =
    kv_slots (cache demo_batch_mem) (kv demo_batch_mem) \<union> page_slots (page_size (cache demo_batch_mem))
      (batch_pages (cache demo_batch_mem) (map base_req [demo_new, demo_next_chunk]) [[1, 2], [1, 2, 3, 4]])"
  proof (rule alloc_for_extend_holds)
    show "mem_ok {#1#} (cache demo_batch_mem) (kv demo_batch_mem)" unfolding demo_batch_sel by (rule demo_locked_mem_ok)
    show "batch_ready {#1#} demo_batch_mem (map base_req [demo_new, demo_next_chunk]) [[1, 2], [1, 2, 3, 4]]" by (rule demo_batch_ready)
    show "rows_ok (map base_req [demo_new, demo_next_chunk]) (pool demo_batch_mem)"
      unfolding demo_batch_sel
      by (auto simp: rows_ok_def rows_of_def rp_ok_def demo_batch_rows_def demo_new_def demo_next_chunk_def demo_holder_def demo_req_def)
    show "int (num_extend_tokens (map base_req [demo_new, demo_next_chunk]) + length [demo_new, demo_next_chunk] * page_size (cache demo_batch_mem))
       \<le> int (available_size (kv demo_batch_mem)) + evictable_size (acct (cache demo_batch_mem))" by code_simp
    show "length (filter (\<lambda>h. req_pool_idx (base_req h) = None) [demo_new, demo_next_chunk]) \<le> length (free_slots (pool demo_batch_mem))" by code_simp
    show "\<not> disable (cache demo_batch_mem)" by code_simp
  qed (simp add: upt_rec)
  then show ?thesis by blast
qed

end
