(* ===== verification/DecodeProps.thy ===== *)
theory DecodeProps
  imports DecodeRetract DecodeStep MemBatchProps
begin

text \<open>
  The round of decoding as a whole, and its property.
\<close>

section \<open>The requests that are left\<close>

definition live :: "decode_batch \<Rightarrow> run_req list" where
  "live b = filter (\<lambda>q. finished_reason q = None) (reqs b)"

lemma unfinished_live: "map ((!) (reqs b)) (unfinished_indices (reqs b)) = live b"
proof -
  have "live b = filter (\<lambda>q. finished_reason q = None) (map ((!) (reqs b)) [0..<length (reqs b)])" by (simp add: live_def map_nth)
  then show ?thesis by (simp add: unfinished_indices_def filter_map comp_def)
qed

lemma filter_live:
  assumes "batch_ok b"
  shows "reqs (filter_batch (unfinished_indices (reqs b)) b) = live b"
    "live b \<noteq> [] \<Longrightarrow> batch_ok (filter_batch (unfinished_indices (reqs b)) b)"
proof -
  let ?keep = "unfinished_indices (reqs b)"
  have sub: "set ?keep \<subseteq> {..<length (reqs b)}" by (auto simp: unfinished_indices_def)
  have id: "?keep = [0..<length (reqs b)]" if "length ?keep = length (reqs b)"
    using that unfolding unfinished_indices_def by (metis diff_zero filter_True length_filter_less length_upt less_irrefl)
  have self: "b\<lparr>reqs := reqs b\<rparr> = b" by simp
  note F = filter_batch_keep [OF assms sub id refl refl, unfolded self]
  show "reqs (filter_batch ?keep b) = live b" using F(1) unfinished_live by metis
  show "batch_ok (filter_batch ?keep b)" if "live b \<noteq> []" using F(2) that unfinished_live [of b] by fastforce
qed

lemma batch_pages_at:
  "page_slots (page_size c) (batch_pages c (map run_base (map ((!) rs) idxs)) (map ((!) pgs) idxs)) = pages_at c rs pgs idxs"
proof -
  have "batch_pages c (map run_base (map ((!) rs) idxs)) (map ((!) pgs) idxs) = (\<Union>i \<in> set idxs. own_pages c (run_base (rs ! i)) (pgs ! i))"
    unfolding batch_pages_def set_conv_nth [of idxs] by auto
  then show ?thesis by (simp add: pages_at_def)
qed

lemma pages_at_all:
  assumes "mset (keep @ retr @ ab) = mset [0..<length rs]" "length pgs = length rs"
  shows "pages_at c rs pgs (retr @ ab) \<union> pages_at c rs pgs keep = page_slots (page_size c) (batch_pages c (map run_base rs) pgs)"
proof -
  have s: "set (keep @ retr @ ab) = set [0..<length rs]" by (rule mset_eq_setD [OF assms(1)])
  have "pages_at c rs pgs (retr @ ab) \<union> pages_at c rs pgs keep = pages_at c rs pgs (keep @ retr @ ab)"
    unfolding pages_at_append by blast
  also have "\<dots> = pages_at c rs pgs [0..<length rs]" unfolding pages_at_def s ..
  finally show ?thesis
    using batch_pages_at [of c rs "[0..<length rs]" pgs] map_nth [of pgs] assms(2) by (simp only: map_nth)
qed

lemma retract_outcome_from:
  assumes "retract_outcome sv a H pgs rs m1 keep retr ab m'" "kv_slots (cache m1) (kv m1) = kv_slots (cache m) (kv m)"
    "page_size (cache m1) = page_size (cache m)" "pool m1 = pool m"
  shows "retract_outcome sv a H pgs rs m keep retr ab m'"
  using assms pages_at_cong [OF assms(3), of "retr @ ab" rs rs pgs] by (simp add: retract_outcome_def)

text \<open>Retracting where it is needed.\<close>

lemma settle:
  assumes ne: "reqs b \<noteq> []" and bok: "batch_ok b" and run: "batch_running sv H m (map holder (reqs b)) pgs"
    and known: "\<And>q. q \<in> set (reqs b) \<Longrightarrow> known_toks sv (holder q)"
  obtains keep retr ab b' m' t' where
    "bind_res (check_decode_mem sv (decode_reserve a) (map holder (reqs b)) m) (\<lambda>(m1, fits).
       if \<not> fits \<or> test_retract
       then map_res (\<lambda>(b1, m2, retracted, ratio, aborted). (b1, m2, t\<lparr>ratio_current := ratio\<rparr>, retracted, aborted)) (retract_decode sv a clk now b m1)
       else Inr (b, m1, decay_step t, [], [])) =
     Inr (b', m', t', map (\<lambda>i. retracted_req (reqs b ! i)) retr, map (\<lambda>i. aborted_req (reqs b ! i)) ab)"
    "retract_outcome sv a H pgs (reqs b) m keep retr ab m'" "reqs b' = map ((!) (reqs b)) keep" "keep \<noteq> [] \<longrightarrow> batch_ok b'"
proof -
  obtain m1 fits where c: "check_decode_mem sv (decode_reserve a) (map holder (reqs b)) m = Inr (m1, fits)"
    "batch_running sv H m1 (map holder (reqs b)) pgs" "pool m1 = pool m" "kv_slots (cache m1) (kv m1) = kv_slots (cache m) (kv m)"
    "page_size (cache m1) = page_size (cache m)" "fits = next_fits sv (decode_reserve a) (map holder (reqs b)) m1"
    by (rule check_running [OF run])
  show ?thesis
  proof (cases "\<not> fits \<or> test_retract")
    case True
    show ?thesis
    proof (rule retract_decode_ok [OF ne bok c(2) known, of a clk now])
      fix keep retr ab b' m'
      assume r: "retract_decode sv a clk now b m1 = Inr (b', m', map (\<lambda>i. retracted_req (reqs b ! i)) retr,
         estimate_new_token_ratio_after_retract (retract_decode_steps a) (reqs b'), map (\<lambda>i. aborted_req (reqs b ! i)) ab)"
        "retract_outcome sv a H pgs (reqs b) m1 keep retr ab m'" "reqs b' = map ((!) (reqs b)) keep" "keep \<noteq> [] \<Longrightarrow> batch_ok b'"
      then show ?thesis using that [OF _ retract_outcome_from [OF r(2) c(4,5,3)] r(3)] c(1) True by simp
    qed
  next
    case False
    let ?all = "[0..<length (reqs b)]"
    have len: "length pgs = length (reqs b)" using run by (simp add: batch_running_def)
    have all: "map ((!) (reqs b)) ?all = reqs b" "map ((!) pgs) ?all = pgs" using map_nth [of pgs] unfolding len by (simp_all only: map_nth)
    have hs: "holders_at (reqs b) ?all = map holder (reqs b)" using arg_cong [OF all(1), of "map holder"] by (simp only: map_map comp_def)
    have "retract_outcome sv a H pgs (reqs b) m ?all [] [] m1"
      unfolding retract_outcome_def all hs using c(2-6) False ne by (simp add: pages_at_def page_slots_def)
    then show ?thesis
      by (rule that [where b' = b and t' = "decay_step t", rotated]) (use c(1) False all(1) bok in simp_all)
  qed
qed

lemma batch_ok_decoded:
  "batch_ok b \<Longrightarrow> batch_ok (b\<lparr>reqs := map decoded (reqs b), seq_lens := map Suc (seq_lens b)\<rparr>)"
  by (simp add: batch_ok_def decoded_def)

section \<open>The round\<close>

text \<open>A batch before a round: its unfinished requests run on the given pages, their tokens are known and
  their rows have room for one more.\<close>

definition round_ready :: "serving \<Rightarrow> nat multiset \<Rightarrow> mem_state \<Rightarrow> decode_batch \<Rightarrow> nat list list \<Rightarrow> bool" where
  "round_ready sv H m b pgs \<longleftrightarrow> batch_ok b \<and> batch_running sv H m (map holder (live b)) pgs \<and>
     list_all (\<lambda>q. known_toks sv (holder q) \<and> 0 < kv_committed_len (run_base q) \<and>
       kv_committed_len (run_base q) < length (req_to_token (pool m) ! row_of (holder q))) (live b)"

text \<open>The result of a round on the requests \<open>rs\<close>: those at \<open>keep\<close> decode, those at \<open>retr\<close> go back to the queue and those
  at \<open>ab\<close>, at most one and then the last, are aborted.\<close>

definition round_result where
  "round_result sv a H m rs pgs keep retr ab pgs' r \<longleftrightarrow>
     mset (keep @ retr @ ab) = mset [0..<length rs] \<and>
     reqs (dr_batch r) = map (\<lambda>i. decoded (rs ! i)) keep \<and> dr_requeued r = map (\<lambda>i. retracted_req (rs ! i)) retr \<and>
     dr_aborted r = map (\<lambda>i. aborted_req (rs ! i)) ab \<and> length ab = (if keep = [] \<and> rs \<noteq> [] then 1 else 0) \<and>
     (\<forall>i \<in> set keep. \<forall>j \<in> set retr. keep_rank a (run_base (rs ! j)) \<le> keep_rank a (run_base (rs ! i))) \<and>
     (keep \<noteq> [] \<longrightarrow> batch_ok (dr_batch r)) \<and>
     batch_running sv H (dr_mem r) (map holder (reqs (dr_batch r))) pgs' \<and>
     free_slots (pool (dr_mem r)) = free_slots (pool m) @ map (\<lambda>i. row_of (holder (rs ! i))) (retr @ ab) \<and>
     kv_slots (cache (dr_mem r)) (kv (dr_mem r)) \<union>
       page_slots (page_size (cache m)) (batch_pages (cache (dr_mem r)) (map run_base (reqs (dr_batch r))) pgs') =
     kv_slots (cache m) (kv m) \<union> page_slots (page_size (cache m)) (batch_pages (cache m) (map run_base rs) pgs)"

lemma decode_kept:
  assumes o: "retract_outcome sv a H pgs rs m keep retr ab m2" and b: "batch_ok b" "reqs b = map ((!) rs) keep" and ne: "keep \<noteq> []"
    and len: "length pgs = length rs" and sv: "\<not> speculative sv" and orders: "\<And>n. mset (orders n) = mset [0..<n]"
    and ready: "\<And>q. q \<in> set rs \<Longrightarrow> 0 < kv_committed_len (run_base q) \<and> kv_committed_len (run_base q) < length (req_to_token (pool m) ! row_of (holder q))"
    and r: "dr_requeued r = map (\<lambda>i. retracted_req (rs ! i)) retr" "dr_aborted r = map (\<lambda>i. aborted_req (rs ! i)) ab"
  obtains b' m' pgs' where "prepare_for_decode spec sv garbage orders b m2 = Inr (b', m')"
    "round_result sv a H m rs pgs keep retr ab pgs' (r\<lparr>dr_batch := b', dr_mem := m'\<rparr>)"
proof -
  note O = o [unfolded retract_outcome_def]
  have "set keep \<subseteq> {..<length rs}" using mset_eq_setD [OF conjunct1 [OF O]] by auto
  then have in_rs: "q \<in> set rs" if "q \<in> set (reqs b)" for q using that unfolding b(2) by auto
  have hat: "holders_at rs keep = map holder (reqs b)" unfolding b(2) by (simp only: map_map comp_def)
  have run: "batch_running sv H m2 (map holder (reqs b)) (map ((!) pgs) keep)" using O unfolding hat by blast
  have fits: "next_fits sv (decode_reserve a) (map holder (reqs b)) m2" using O ne unfolding hat by simp
  have rows: "req_to_token (pool m2) = req_to_token (pool m)" using O by blast
  obtain m' pgs' where p: "prepare_for_decode spec sv garbage orders b m2 = Inr (b\<lparr>reqs := map decoded (reqs b), seq_lens := map Suc (seq_lens b)\<rparr>, m')"
    "batch_running sv H m' (map holder (map decoded (reqs b))) pgs'" "page_size (cache m') = page_size (cache m2)"
    "free_slots (pool m') = free_slots (pool m2)"
    "kv_slots (cache m') (kv m') \<union> page_slots (page_size (cache m2)) (batch_pages (cache m') (map run_base (map decoded (reqs b))) pgs') =
     kv_slots (cache m2) (kv m2) \<union> page_slots (page_size (cache m2)) (batch_pages (cache m2) (map run_base (reqs b)) (map ((!) pgs) keep))"
    by (rule prepare_for_decode_ok [OF _ _ run sv _ fits orders])
      (use b(1) ready in_rs rows in \<open>auto simp: batch_ok_def\<close>)
  let ?b = "b\<lparr>reqs := map decoded (reqs b), seq_lens := map Suc (seq_lens b)\<rparr>"
  have pg: "pages_at (cache m2) rs pgs keep = pages_at (cache m) rs pgs keep" by (rule pages_at_cong) (use O in simp_all)
  have "kv_slots (cache m') (kv m') \<union> page_slots (page_size (cache m)) (batch_pages (cache m') (map run_base (map decoded (reqs b))) pgs') =
      kv_slots (cache m) (kv m) \<union> (pages_at (cache m) rs pgs (retr @ ab) \<union> pages_at (cache m) rs pgs keep)"
    using p(5) O unfolding b(2) batch_pages_at pg by (simp add: Un_assoc)
  moreover have ab: "ab = []" "mset (keep @ retr) = mset [0..<length rs]" using O ne by auto
  ultimately have "round_result sv a H m rs pgs keep retr ab pgs' (r\<lparr>dr_batch := ?b, dr_mem := m'\<rparr>)"
    unfolding round_result_def pages_at_all [OF conjunct1 [OF O] len]
    using O r p(2,4) batch_ok_decoded [OF b(1)] ne unfolding b(2) ab(1) using ab(2) by (simp add: comp_def)
  then show ?thesis using that p(1) by blast
qed

lemma update_running_batch_steps:
  assumes "reqs (filter_batch (unfinished_indices (reqs b)) b) = rs" "rs \<noteq> []"
  shows "update_running_batch spec sv a clk now test_retract garbage orders b t m =
    bind_res (bind_res (check_decode_mem sv (decode_reserve a) (map holder rs) m) (\<lambda>(m1, fits).
        if \<not> fits \<or> test_retract
        then map_res (\<lambda>(b1, m2, retracted, ratio, aborted). (b1, m2, t\<lparr>ratio_current := ratio\<rparr>, retracted, aborted))
               (retract_decode sv a clk now (filter_batch (unfinished_indices (reqs b)) b) m1)
        else Inr (filter_batch (unfinished_indices (reqs b)) b, m1, decay_step t, [], [])))
      (\<lambda>(b1, m2, t', retracted, aborted).
        let b2 = (if length (reqs b1) < length (reqs b) then b1\<lparr>batch_is_full := False\<rparr> else b1) in
        if reqs b2 = []
        then Inr \<lparr>dr_batch = b2, dr_mem = m2, dr_tracker = t', dr_requeued = retracted, dr_aborted = aborted\<rparr>
        else map_res (\<lambda>(b3, m3). \<lparr>dr_batch = b3, dr_mem = m3, dr_tracker = t', dr_requeued = retracted, dr_aborted = aborted\<rparr>)
               (prepare_for_decode spec sv garbage orders b2 m2))"
  unfolding update_running_batch_def Let_def assms(1) using assms(2)
  by (cases "check_decode_mem sv (decode_reserve a) (map holder rs) m") (simp_all add: case_prod_beta)

theorem update_running_batch_ok:
  assumes ready: "round_ready sv H m b pgs" and sv: "\<not> speculative sv" and orders: "\<And>n. mset (orders n) = mset [0..<n]"
  shows "\<exists>keep retr ab pgs' r. update_running_batch spec sv a clk now test_retract garbage orders b t m = Inr r \<and>
    round_result sv a H m (live b) pgs keep retr ab pgs' r"
proof -
  let ?b0 = "filter_batch (unfinished_indices (reqs b)) b" and ?rs = "live b"
  have bok: "batch_ok b" and run: "batch_running sv H m (map holder ?rs) pgs" and len: "length pgs = length ?rs"
    and q: "\<And>q. q \<in> set ?rs \<Longrightarrow> known_toks sv (holder q) \<and> 0 < kv_committed_len (run_base q) \<and>
       kv_committed_len (run_base q) < length (req_to_token (pool m) ! row_of (holder q))"
    using ready by (auto simp: round_ready_def batch_running_def list_all_iff)
  note F = filter_live [OF bok]
  show ?thesis
  proof (cases "?rs = []")
    case True
    let ?r = "\<lparr>dr_batch = ?b0\<lparr>batch_is_full := False\<rparr>, dr_mem = m, dr_tracker = t, dr_requeued = [], dr_aborted = []\<rparr>"
    have "update_running_batch spec sv a clk now test_retract garbage orders b t m = Inr ?r"
      using True F(1) by (simp add: update_running_batch_def)
    moreover have "round_result sv a H m ?rs pgs [] [] [] [] ?r"
      using True F(1) run len by (simp add: round_result_def batch_pages_def)
    ultimately show ?thesis by blast
  next
    case False
    have ne: "reqs ?b0 \<noteq> []" and run0: "batch_running sv H m (map holder (reqs ?b0)) pgs"
      and known: "\<And>q. q \<in> set (reqs ?b0) \<Longrightarrow> known_toks sv (holder q)" using False run q F(1) by auto
    obtain keep retr ab b1 m2 t' where s: "bind_res (check_decode_mem sv (decode_reserve a) (map holder ?rs) m) (\<lambda>(m1, fits).
        if \<not> fits \<or> test_retract
        then map_res (\<lambda>(b1, m2, retracted, ratio, aborted). (b1, m2, t\<lparr>ratio_current := ratio\<rparr>, retracted, aborted)) (retract_decode sv a clk now ?b0 m1)
        else Inr (?b0, m1, decay_step t, [], [])) =
        Inr (b1, m2, t', map (\<lambda>i. retracted_req (?rs ! i)) retr, map (\<lambda>i. aborted_req (?rs ! i)) ab)"
      "retract_outcome sv a H pgs ?rs m keep retr ab m2" "reqs b1 = map ((!) ?rs) keep" "keep \<noteq> [] \<longrightarrow> batch_ok b1"
      by (rule settle [OF ne F(2) [OF False] run0 known, of a test_retract t clk now, unfolded F(1)])
    let ?b2 = "if length (reqs b1) < length (reqs b) then b1\<lparr>batch_is_full := False\<rparr> else b1"
    let ?r = "\<lparr>dr_batch = ?b2, dr_mem = m2, dr_tracker = t', dr_requeued = map (\<lambda>i. retracted_req (?rs ! i)) retr, dr_aborted = map (\<lambda>i. aborted_req (?rs ! i)) ab\<rparr>"
    have b2: "reqs ?b2 = map ((!) ?rs) keep" "batch_ok b1 \<Longrightarrow> batch_ok ?b2" using s(3) by (auto simp: batch_ok_def)
    have call: "update_running_batch spec sv a clk now test_retract garbage orders b t m =
        (if keep = [] then Inr ?r
         else map_res (\<lambda>(b3, m3). ?r\<lparr>dr_batch := b3, dr_mem := m3\<rparr>) (prepare_for_decode spec sv garbage orders ?b2 m2))"
      by (subst update_running_batch_steps [OF F(1) False]) (unfold s(1) bind_res_simps prod.case Let_def b2(1), simp)
    show ?thesis
    proof (cases "keep = []")
      case True
      note O = s(2) [unfolded retract_outcome_def True]
      have "kv_slots (cache m2) (kv m2) = kv_slots (cache m) (kv m) \<union> (pages_at (cache m) ?rs pgs (retr @ ab) \<union> pages_at (cache m) ?rs pgs [])"
        using O by (simp add: pages_at_def page_slots_def)
      then have "round_result sv a H m ?rs pgs [] retr ab [] ?r"
        unfolding pages_at_all [OF conjunct1 [OF O] len] round_result_def using O b2(1) True False by (simp add: batch_pages_def page_slots_def)
      moreover have "update_running_batch spec sv a clk now test_retract garbage orders b t m = Inr ?r" using call True by (simp only: if_True simp_thms)
      ultimately show ?thesis by blast
    next
      case keep: False
      obtain b3 m3 pgs' where "prepare_for_decode spec sv garbage orders ?b2 m2 = Inr (b3, m3)"
        "round_result sv a H m ?rs pgs keep retr ab pgs' (?r\<lparr>dr_batch := b3, dr_mem := m3\<rparr>)"
        using decode_kept [OF s(2) b2(2) b2(1) keep len sv orders, of ?r spec garbage] s(4) keep q by auto
      moreover from this(1) have "update_running_batch spec sv a clk now test_retract garbage orders b t m = Inr (?r\<lparr>dr_batch := b3, dr_mem := m3\<rparr>)"
        using call keep by simp
      ultimately show ?thesis by blast
    qed
  qed
qed

section \<open>The new token ratio\<close>

text \<open>Without retractions the ratio falls from its initial to its least value in the configured number of
  rounds; a retraction sets it to an estimate of at most one.\<close>

lemma decay_steps:
  assumes "0 \<le> ratio_decay t" "ratio_min t \<le> ratio_current t"
  shows "(decay_step ^^ k) t = t\<lparr>ratio_current := max (ratio_current t - of_nat k * ratio_decay t) (ratio_min t)\<rparr>"
  using assms by (induction k) (simp_all add: decay_step_def max_def algebra_simps)

lemma ratio_decays_to_min:
  assumes "ratio_from_config i c f n = Inr t" "0 \<le> i * c" "f \<le> 1"
  shows "ratio_min t \<le> ratio_init t" "ratio_init t \<le> 1" "ratio_current ((decay_step ^^ n) t) = ratio_min t"
proof -
  define ini where "ini = min (i * c) 1"
  have t: "t = \<lparr>ratio_init = ini, ratio_min = min (ini * f) 1, ratio_decay = (ini - min (ini * f) 1) / of_nat n, ratio_current = ini\<rparr>" and n: "n \<noteq> 0"
    using assms(1) by (auto simp: ratio_from_config_def Let_def ini_def split: if_splits)
  have ini: "0 \<le> ini" "ini \<le> 1" using assms(2) by (simp_all add: ini_def)
  then have "ini * f \<le> ini" using assms(3) mult_left_mono [of f 1 ini] by simp
  then have le: "min (ini * f) 1 \<le> ini" by simp
  then show "ratio_min t \<le> ratio_init t" "ratio_init t \<le> 1" using ini by (simp_all add: t)
  have "(decay_step ^^ n) t = t\<lparr>ratio_current := max (ratio_current t - of_nat n * ratio_decay t) (ratio_min t)\<rparr>"
    by (rule decay_steps) (use le n in \<open>simp_all add: t\<close>)
  then show "ratio_current ((decay_step ^^ n) t) = ratio_min t" using n by (simp add: t)
qed

lemma estimate_bounds: "0 \<le> estimate_new_token_ratio_after_retract steps rs" "estimate_new_token_ratio_after_retract steps rs \<le> 1"
  by (simp_all add: estimate_new_token_ratio_after_retract_def)

section \<open>The property\<close>

text \<open>Two requests share the cached prefix of two pages: one has computed seven tokens and has room on its
  last page, the other eight and needs a page, and no page is free.\<close>

definition demo_shared :: radix_cache where
  "demo_shared = (case inc_lock_ref 1 demo_locked of Inr (c, d) \<Rightarrow> c | Inl e \<Rightarrow> demo_locked)"

definition demo_run :: "kv_holder \<Rightarrow> run_req" where
  "demo_run h = \<lparr>holder = h, finished_reason = None, to_finish = None, max_new = 16, retraction_count = 0, is_retracted = False,
     retracted_stain = False, has_input_embeds = False, extend_batch_idx = 1, decode_batch_idx = 1\<rparr>"

definition demo_full_row :: kv_holder where
  "demo_full_row = demo_holder\<lparr>req_kv := Some \<lparr>kv_allocated_len = 8, swa_evicted_seqlen = 0\<rparr>,
     base_req := demo_req\<lparr>origin_input_ids := [11, 12, 13, 14, 30, 31], output_ids := [32, 33], req_pool_idx := Some 2, kv_committed_len := 8\<rparr>\<rparr>"

definition demo_decode :: decode_batch where
  "demo_decode = \<lparr>reqs = [demo_run demo_holder, demo_run demo_full_row], req_pool_indices = [1, 2], seq_lens = [7, 8], batch_is_full = True\<rparr>"

definition demo_decode_mem :: mem_state where
  "demo_decode_mem = \<lparr>cache = demo_shared, kv = demo_alloc\<lparr>free_pages := []\<rparr>,
     pool = \<lparr>rp_size = 2, max_context_len = 10,
       req_to_token = [replicate 10 0, [2, 3, 4, 5, 6, 7, 8, 0, 0, 0], [2, 3, 4, 5, 10, 11, 12, 13, 0, 0]],
       free_slots = [], req_generation = [0, 1, 1]\<rparr>\<rparr>"

definition demo_retract :: retract_args where
  "demo_retract = \<lparr>by_priority = False, low_priority_values_first = False, retract_decode_steps = 20, spec_options = None\<rparr>"

definition demo_tracker :: ratio_tracker where
  "demo_tracker = \<lparr>ratio_init = 7 / 10, ratio_min = 1 / 10, ratio_decay = 1 / 1000, ratio_current = 1 / 2\<rparr>"

lemma demo_shared_sel: "page_size demo_shared = 2" "disable demo_shared = False" "tslots (root_node demo_shared) = {#2, 3, 4, 5#}"
  by code_simp+

lemma demo_decode_slots: "pool_slots (demo_alloc\<lparr>free_pages := []\<rparr>) = {}"
  by (simp add: pool_slots_def pool_pages_def demo_alloc_def init_paged_alloc_def paged_clear_def page_slots_def)

lemma demo_shared_mem_ok: "mem_ok {#1, 1#} demo_shared (demo_alloc\<lparr>free_pages := []\<rparr>)"
proof -
  have node: "1 \<in> ids (root_node demo_locked)" by code_simp
  obtain d where d: "inc_lock_ref 1 demo_locked = Inr (demo_shared, d)" "cache_ok {#1, 1#} demo_shared" "same_content demo_locked demo_shared"
    using inc_lock_ref_correct [OF demo_locked_ok(1) demo_locked_ok(2) node] by (auto simp: demo_shared_def)
  have "mem_ok {#1, 1#} demo_shared demo_taken" by (rule mem_ok_same_content [OF demo_locked_mem_ok d(2,3)])
  then show ?thesis
  proof (rule mem_ok_alloc)
    show "set_mset (tslots (root_node demo_shared)) \<inter> pool_slots (demo_alloc\<lparr>free_pages := []\<rparr>) = {}" by (simp add: demo_decode_slots)
  qed (simp_all add: al_ok_def paged_ok_def pool_ok_def pool_pages_def demo_taken_def demo_alloc_def init_paged_alloc_def paged_clear_def)
qed

lemma demo_path:
  assumes "h = demo_holder \<or> h = demo_full_row"
  shows "path_held demo_shared (base_req h) (eff_toks plain_serving h) (req_to_token (pool demo_decode_mem) ! row_of h)"
  unfolding path_held_def
proof (intro conjI exI [of _ "[(Tok 11, 2), (Tok 12, 3), (Tok 13, 4), (Tok 14, 5)]"])
qed (use assms in \<open>elim disjE; simp only:; code_simp\<close>)+

lemma demo_running:
  "running plain_serving demo_decode_mem demo_holder [1, 2, 3, 4]" "running plain_serving demo_decode_mem demo_full_row [1, 2, 5, 6]"
proof -
  have sel: "cache demo_decode_mem = demo_shared" "kv demo_decode_mem = demo_alloc\<lparr>free_pages := []\<rparr>" by (simp_all add: demo_decode_mem_def)
  have slots: "kv_slots demo_shared (demo_alloc\<lparr>free_pages := []\<rparr>) = {2, 3, 4, 5}"
    by (simp add: kv_slots_def demo_decode_slots demo_shared_sel(3))
  show "running plain_serving demo_decode_mem demo_holder [1, 2, 3, 4]"
    unfolding running_def sel slots
  proof (intro exI [of _ "\<lparr>kv_allocated_len = 7, swa_evicted_seqlen = 0\<rparr>"] exI [of _ 1] conjI)
    show "page_slots (page_size demo_shared) (own_pages demo_shared (base_req demo_holder) [1, 2, 3, 4]) \<inter> {2, 3, 4, 5} = {}"
      by (auto simp: own_pages_def demo_shared_sel demo_holder_def demo_req_def page_slots_def)
    show "path_held demo_shared (base_req demo_holder) (eff_toks plain_serving demo_holder) (req_to_token (pool demo_decode_mem) ! 1)"
      using demo_path [of demo_holder] by (simp add: demo_holder_def demo_req_def)
    show "laid (page_size demo_shared) [1, 2, 3, 4] (req_to_token (pool demo_decode_mem) ! 1) (kv_allocated_len \<lparr>kv_allocated_len = 7, swa_evicted_seqlen = 0\<rparr>)"
      by code_simp
  qed (simp_all add: demo_holder_def demo_req_def demo_decode_mem_def)
  show "running plain_serving demo_decode_mem demo_full_row [1, 2, 5, 6]"
    unfolding running_def sel slots
  proof (intro exI [of _ "\<lparr>kv_allocated_len = 8, swa_evicted_seqlen = 0\<rparr>"] exI [of _ 2] conjI)
    show "page_slots (page_size demo_shared) (own_pages demo_shared (base_req demo_full_row) [1, 2, 5, 6]) \<inter> {2, 3, 4, 5} = {}"
      by (auto simp: own_pages_def demo_shared_sel demo_full_row_def demo_holder_def demo_req_def page_slots_def)
    show "path_held demo_shared (base_req demo_full_row) (eff_toks plain_serving demo_full_row) (req_to_token (pool demo_decode_mem) ! 2)"
      using demo_path [of demo_full_row] by (simp add: demo_full_row_def demo_holder_def demo_req_def)
    show "laid (page_size demo_shared) [1, 2, 5, 6] (req_to_token (pool demo_decode_mem) ! 2) (kv_allocated_len \<lparr>kv_allocated_len = 8, swa_evicted_seqlen = 0\<rparr>)"
      by code_simp
  qed (simp_all add: demo_full_row_def demo_holder_def demo_req_def demo_decode_mem_def)
qed

lemma demo_round_ready: "round_ready plain_serving {#} demo_decode_mem demo_decode [[1, 2, 3, 4], [1, 2, 5, 6]]"
proof -
  have live: "live demo_decode = [demo_run demo_holder, demo_run demo_full_row]" "map holder (live demo_decode) = [demo_holder, demo_full_row]"
    by (simp_all add: live_def demo_decode_def demo_run_def)
  have apart: "own_apart demo_shared (map base_req [demo_holder, demo_full_row]) [[1, 2, 3, 4], [1, 2, 5, 6]]"
    unfolding own_apart_def own_pages_def demo_shared_sel
    by (auto simp: less_Suc_eq demo_full_row_def demo_holder_def demo_req_def)
  have nodes: "mset (map lnode [demo_holder, demo_full_row]) = {#1, 1#}" by (simp add: demo_full_row_def demo_holder_def demo_req_def)
  have "batch_running plain_serving {#} demo_decode_mem [demo_holder, demo_full_row] [[1, 2, 3, 4], [1, 2, 5, 6]]"
    unfolding batch_running_def nodes using demo_running apart demo_shared_mem_ok demo_shared_sel(2)
    by (auto simp: less_Suc_eq demo_decode_mem_def) (simp_all add: demo_full_row_def demo_holder_def demo_req_def)
  moreover have "batch_ok demo_decode" by code_simp
  moreover have "list_all (\<lambda>q. known_toks plain_serving (holder q) \<and> 0 < kv_committed_len (run_base q) \<and>
       kv_committed_len (run_base q) < length (req_to_token (pool demo_decode_mem) ! row_of (holder q))) (live demo_decode)" by code_simp
  ultimately show ?thesis by (simp add: round_ready_def live(2))
qed

text \<open>C21. A round of decoding (\<open>update_running_batch\<close>) on a batch of running requests never fails, however short
  the memory is and in whatever order the programs of the allocation run. The unfinished requests are
  parted into those that decode, those that are retracted and put back into the queue, none of which is
  worth more than one that decodes, and, only when nothing else is left, one that is aborted. Those that
  decode have one more slot in their rows and run on, so the next round can start from there; the lock, the
  row and the pages of the others are released, and the pages of tree, pool and batch together are
  the same as before.\<close>

theorem decode_round_runs_on:
  assumes "round_ready sv H m b pgs" "\<not> speculative sv" "\<forall>n. mset (orders n) = mset [0..<n]"
  shows "\<exists>keep retr ab pgs' r. update_running_batch spec sv a clk now test_retract garbage orders b t m = Inr r \<and>
    round_result sv a H m (live b) pgs keep retr ab pgs' r"
  by (rule update_running_batch_ok [OF assms(1,2)]) (use assms(3) in blast)

theorem decode_round_runs_on_witness:
  "\<exists>keep retr ab pgs' r. update_running_batch (\<lambda>b m. Inr (b, m)) plain_serving demo_retract demo_clock 9 False (\<lambda>_. 0) (\<lambda>n. rev [0..<n])
     demo_decode demo_tracker demo_decode_mem = Inr r \<and>
   round_result plain_serving demo_retract {#} demo_decode_mem (live demo_decode) [[1, 2, 3, 4], [1, 2, 5, 6]] keep retr ab pgs' r"
  by (rule decode_round_runs_on [OF demo_round_ready]) (simp_all add: plain_serving_def)

end
