(* ===== verification/ReasoningParser.thy ===== *)
theory ReasoningParser
  imports Prelude "HOL-Library.Sublist" "HOL-Library.Monad_Syntax"
begin

text \<open>
  Model of \<open>python/sglang/srt/parser/reasoning_parser.py\<close>: the base detector that separates the
  reasoning of a model from its answer, in one step for a complete text and incrementally for a
  stream, the detectors that only choose its tokens, the two MiniMax detectors that wrap it,
  and the \<open>ReasoningParser\<close> that selects a detector. A Python string is the list of its
  code points. A detector is a record; a subclass with state of its own extends the record.

  \<open>_detect_and_parse_impl\<close> removes the opening token in a loop that does not end for an empty
  token, so the one-time parser returns an option.
\<close>

type_synonym str = "nat list"

section \<open>Python strings\<close>

definition lit :: "string \<Rightarrow> str" where
  "lit s = map of_char s"

text \<open>\<open>text.find(t)\<close>, with \<open>None\<close> for -1. The test \<open>t in text\<close> is \<open>sublist t text\<close> and
  \<open>text.startswith(t)\<close> is \<open>prefix t text\<close>.\<close>

fun find_sub :: "'c list \<Rightarrow> 'c list \<Rightarrow> nat option" where
  "find_sub t [] = (if t = [] then Some 0 else None)"
| "find_sub t (c # cs) = (if prefix t (c # cs) then Some 0 else map_option Suc (find_sub t cs))"

text \<open>\<open>text.replace(t, u, 1)\<close>\<close>

definition replace_first :: "'c list \<Rightarrow> 'c list \<Rightarrow> 'c list \<Rightarrow> 'c list" where
  "replace_first t u s = (case find_sub t s of None \<Rightarrow> s | Some i \<Rightarrow> take i s @ u @ drop (i + length t) s)"

text \<open>\<open>text.split(t, maxsplit=1)\<close> when \<open>t\<close> occurs in the text\<close>

definition split_first :: "'c list \<Rightarrow> 'c list \<Rightarrow> 'c list \<times> 'c list" where
  "split_first t s = (case find_sub t s of None \<Rightarrow> (s, []) | Some i \<Rightarrow> (take i s, drop (i + length t) s))"

text \<open>The characters that \<open>lstrip\<close> removes.\<close>

definition is_space :: "nat \<Rightarrow> bool" where
  "is_space c \<longleftrightarrow> c \<in> {9..13} \<or> c \<in> {28..32} \<or> c \<in> {8192..8202}
     \<or> c \<in> {133, 160, 5760, 8232, 8233, 8239, 8287, 12288}"

definition lstrip :: "str \<Rightarrow> str" where
  "lstrip = dropWhile is_space"

text \<open>\<open>lower\<close>, as far as the result can be a string of ASCII characters: beyond the ASCII letters
  only the Kelvin sign has an ASCII letter as its lower case.\<close>

definition lower :: "str \<Rightarrow> str" where
  "lower = map (\<lambda>c. if 65 \<le> c \<and> c \<le> 90 then c + 32 else if c = 8490 then 107 else c)"

section \<open>The base detector\<close>

record parse_result =
  normal_text :: str
  reasoning_text :: str

definition empty_result :: parse_result where
  "empty_result = \<lparr>normal_text = [], reasoning_text = []\<rparr>"

record detector =
  think_start_token :: str
  think_end_token :: str
  think_excluded_tokens :: "str list option"
  tool_start_token :: "str option"
  force_reasoning :: bool
  in_reasoning :: bool
  stream_reasoning :: bool
  thinks_internally :: bool
  reasoning_default :: string
  buffer :: str
  stripped_think_start :: bool
  think_start_self_label :: str
  force_nonempty_content :: bool
  accumulated_reasoning :: str
  continue_final_message :: bool
  previous_content :: str
  previous_count :: nat

definition base_init ::
  "str \<Rightarrow> str \<Rightarrow> str list option \<Rightarrow> bool \<Rightarrow> bool \<Rightarrow> str option \<Rightarrow> bool \<Rightarrow> str \<Rightarrow> bool \<Rightarrow> string \<Rightarrow> bool \<Rightarrow> detector" where
  "base_init start_token end_token excluded force stream tool cont previous internally default_mode nonempty =
    (let prev = (if cont then previous else []);
         reasoning1 = (if sublist start_token prev then True else force);
         reasoning2 = (if sublist end_token prev then False else reasoning1)
     in \<lparr>think_start_token = start_token, think_end_token = end_token,
         think_excluded_tokens = excluded, tool_start_token = tool, force_reasoning = force,
         in_reasoning = reasoning2, stream_reasoning = stream, thinks_internally = internally,
         reasoning_default = default_mode, buffer = [], stripped_think_start = False,
         think_start_self_label = [], force_nonempty_content = nonempty,
         accumulated_reasoning = [], continue_final_message = cont,
         previous_content = prev, previous_count = length prev\<rparr>)"

definition maybe_apply_force_nonempty_content :: "'a detector_scheme \<Rightarrow> parse_result \<Rightarrow> parse_result" where
  "maybe_apply_force_nonempty_content d ret =
    (if force_nonempty_content d \<and> normal_text ret = []
     then \<lparr>normal_text = reasoning_text ret, reasoning_text = normal_text ret\<rparr>
     else ret)"

text \<open>\<open>think_start_text\<close>\<close>

definition start_text :: "'a detector_scheme \<Rightarrow> str" where
  "start_text d = think_start_token d @ think_start_self_label d"

partial_function (option) strip_starts :: "str \<Rightarrow> str \<Rightarrow> str option" where
  [code]: "strip_starts t s = (if prefix t s then strip_starts t (drop (length t) s) else Some s)"

definition detect_and_parse_impl :: "str \<Rightarrow> 'a detector_scheme \<Rightarrow> parse_result option" where
  "detect_and_parse_impl text d =
    (let in_reason = in_reasoning d \<or> sublist (think_start_token d) text;
         end_token = think_end_token d
     in if \<not> in_reason then Some \<lparr>normal_text = text, reasoning_text = []\<rparr>
     else do {
       processed \<leftarrow> strip_starts (start_text d) text;
       Some (if \<not> sublist end_token processed \<and> \<not> sublist end_token (previous_content d) then
           (case tool_start_token d of
              Some tool \<Rightarrow>
                (case find_sub tool processed of
                   Some tool_idx \<Rightarrow> \<lparr>normal_text = drop tool_idx processed, reasoning_text = take tool_idx processed\<rparr>
                 | None \<Rightarrow> \<lparr>normal_text = [], reasoning_text = processed\<rparr>)
            | None \<Rightarrow> \<lparr>normal_text = [], reasoning_text = processed\<rparr>)
         else if sublist end_token processed then
           (case split_first end_token processed of
              (reasoning, normal) \<Rightarrow> \<lparr>normal_text = normal, reasoning_text = reasoning\<rparr>)
         else \<lparr>normal_text = processed, reasoning_text = []\<rparr>)
     })"

definition detect_and_parse :: "str \<Rightarrow> 'a detector_scheme \<Rightarrow> parse_result option" where
  "detect_and_parse text d = map_option (maybe_apply_force_nonempty_content d) (detect_and_parse_impl text d)"

text \<open>\<open>_ends_with_partial_token\<close>: the loop counts down from the longest possible slice.\<close>

primrec longest_partial :: "str \<Rightarrow> str \<Rightarrow> nat \<Rightarrow> nat" where
  "longest_partial buf token 0 = 0"
| "longest_partial buf token (Suc i) =
     (if prefix (drop (length buf - Suc i) buf) token then Suc i else longest_partial buf token i)"

definition ends_with_partial_token :: "str \<Rightarrow> str \<Rightarrow> nat" where
  "ends_with_partial_token buf token = longest_partial buf token (min (length buf) (length token - 1))"

text \<open>\<open>if self.tool_start_token\<close>: neither \<open>None\<close> nor the empty string.\<close>

definition tool_tokens :: "'a detector_scheme \<Rightarrow> str list" where
  "tool_tokens d = (case tool_start_token d of None \<Rightarrow> [] | Some t \<Rightarrow> if t = [] then [] else [t])"

definition tokens_to_check :: "'a detector_scheme \<Rightarrow> str list" where
  "tokens_to_check d = [start_text d, think_end_token d] @ tool_tokens d"

definition holdback_tokens :: "'a detector_scheme \<Rightarrow> str list" where
  "holdback_tokens d = [think_end_token d] @ tool_tokens d
     @ (if stripped_think_start d then [] else [start_text d])"

definition holdback :: "'a detector_scheme \<Rightarrow> str \<Rightarrow> nat" where
  "holdback d current = foldr (\<lambda>token. max (ends_with_partial_token current token)) (holdback_tokens d) 0"

text \<open>The three parts of \<open>_parse_streaming_increment_impl\<close>: the opening token is removed from the
  buffer, then the text of the buffer is split at a closing or a tool token or emitted as far as
  it cannot be part of a token.\<close>

definition strip_think_start :: "'a detector_scheme \<Rightarrow> 'a detector_scheme" where
  "strip_think_start d =
    (if \<not> stripped_think_start d \<and> sublist (start_text d) (buffer d)
     then d\<lparr>buffer := replace_first (start_text d) [] (buffer d),
            stripped_think_start := True, in_reasoning := True\<rparr>
     else d)"

definition split_current :: "'a detector_scheme \<Rightarrow> parse_result \<times> 'a detector_scheme" where
  "split_current d =
    (let current = buffer d; end_token = think_end_token d in
     if in_reasoning d \<and> sublist end_token current then
       (case split_first end_token current of (reasoning, normal) \<Rightarrow>
          (\<lparr>normal_text = normal, reasoning_text = reasoning\<rparr>, d\<lparr>buffer := [], in_reasoning := False\<rparr>))
     else if in_reasoning d then
       (case filter (\<lambda>t. sublist t current) (tool_tokens d) of
          tool # _ \<Rightarrow>
            (let tool_idx = the (find_sub tool current) in
             (\<lparr>normal_text = drop tool_idx current, reasoning_text = take tool_idx current\<rparr>,
              d\<lparr>buffer := [], in_reasoning := False\<rparr>))
        | [] \<Rightarrow>
            (if stream_reasoning d then
               (let keep = length current - holdback d current in
                (\<lparr>normal_text = [], reasoning_text = take keep current\<rparr>, d\<lparr>buffer := drop keep current\<rparr>))
             else (empty_result, d)))
     else (\<lparr>normal_text = current, reasoning_text = []\<rparr>, d\<lparr>buffer := []\<rparr>))"

definition parse_increment_impl :: "str \<Rightarrow> 'a detector_scheme \<Rightarrow> parse_result \<times> 'a detector_scheme" where
  "parse_increment_impl new_text d =
    (let d1 = d\<lparr>buffer := buffer d @ new_text\<rparr> in
     if list_ex (\<lambda>token. prefix (buffer d1) token \<and> token \<noteq> buffer d1) (tokens_to_check d1)
     then (empty_result, d1)
     else split_current (strip_think_start d1))"

definition parse_streaming_increment :: "str \<Rightarrow> 'a detector_scheme \<Rightarrow> parse_result \<times> 'a detector_scheme" where
  "parse_streaming_increment new_text d =
    (case parse_increment_impl new_text d of (ret, d1) \<Rightarrow>
       (ret, if \<not> force_nonempty_content d1 then d1
             else if in_reasoning d1
             then d1\<lparr>accumulated_reasoning := accumulated_reasoning d1 @ reasoning_text ret\<rparr>
             else d1\<lparr>accumulated_reasoning := []\<rparr>))"

definition strip_leading_think_start :: "'a detector_scheme \<Rightarrow> str \<Rightarrow> str" where
  "strip_leading_think_start d text =
    (if prefix (start_text d) text then drop (length (start_text d)) text else text)"

definition finish :: "'a detector_scheme \<Rightarrow> parse_result \<times> 'a detector_scheme" where
  "finish d =
    (if \<not> in_reasoning d then (\<lparr>normal_text = buffer d, reasoning_text = []\<rparr>, d\<lparr>buffer := []\<rparr>)
     else
       (let buf = strip_leading_think_start d (buffer d); d1 = d\<lparr>buffer := []\<rparr> in
        if force_nonempty_content d1
        then (\<lparr>normal_text = accumulated_reasoning d1 @ buf, reasoning_text = []\<rparr>,
              d1\<lparr>accumulated_reasoning := []\<rparr>)
        else (\<lparr>normal_text = [], reasoning_text = buf\<rparr>, d1)))"

section \<open>Detectors that choose the tokens\<close>

text \<open>Keyword arguments, a Python dictionary with its insertion order. \<open>PyOther\<close> is any object
  that is neither a boolean nor a string.\<close>

datatype py_value = PyBool bool | PyStr str | PyOther

type_synonym kwargs = "(string \<times> py_value) list"

definition kw_bool :: "kwargs \<Rightarrow> string \<Rightarrow> bool \<Rightarrow> bool" where
  "kw_bool kw name dflt = (case map_of kw name of Some (PyBool b) \<Rightarrow> b | _ \<Rightarrow> dflt)"

definition kw_str :: "kwargs \<Rightarrow> string \<Rightarrow> str" where
  "kw_str kw name = (case map_of kw name of Some (PyStr s) \<Rightarrow> s | _ \<Rightarrow> [])"

text \<open>The call of the base constructor: what the detectors share is taken from the keywords.\<close>

definition token_detector :: "kwargs \<Rightarrow> str \<Rightarrow> str \<Rightarrow> str list option \<Rightarrow> bool \<Rightarrow> str option \<Rightarrow> bool \<Rightarrow> string \<Rightarrow> detector" where
  "token_detector kw start_token end_token excluded force tool internally default_mode =
     base_init start_token end_token excluded force (kw_bool kw ''stream_reasoning'' True) tool
       (kw_bool kw ''continue_final_message'' False) (kw_str kw ''previous_content'')
       internally default_mode (kw_bool kw ''force_nonempty_content'' False)"

definition deepseek_r1_detector :: "kwargs \<Rightarrow> detector" where
  "deepseek_r1_detector kw =
     token_detector kw (lit ''<think>'') (lit ''</think>'') None True None False ''always''"

definition qwen3_detector :: "kwargs \<Rightarrow> detector" where
  "qwen3_detector kw =
     token_detector kw (lit ''<think>'') (lit ''</think>'')
       (Some [lit ''<tool_call>'', lit ''</tool_call>'', lit ''<|im_end|>'', lit ''<|endoftext|>''])
       (kw_bool kw ''force_reasoning'' False) (Some (lit ''<tool_call>'')) True ''enable_thinking''"

definition kimi_detector :: "kwargs \<Rightarrow> detector" where
  "kimi_detector kw =
     token_detector kw (9665 # lit ''think'' @ [9655]) (9665 # lit ''/think'' @ [9655]) None False None False ''always''"

definition kimi_k2_detector :: "kwargs \<Rightarrow> detector" where
  "kimi_k2_detector kw =
     token_detector kw (lit ''<think>'') (lit ''</think>'')
       (Some [lit ''<think>'', lit ''<|tool_calls_section_begin|>'', lit ''<|tool_call_begin|>'',
              lit ''<|tool_call_argument_begin|>'', lit ''<|tool_call_section_end|>'', lit ''<|tool_call_end|>'',
              lit ''[EOS]'', lit ''<|im_end|>'', lit ''<|end_header_id|>'', lit ''[EOT]''])
       (kw_bool kw ''force_reasoning'' False) (Some (lit ''<|tool_calls_section_begin|>'')) False ''thinking''"

definition glm45_detector :: "kwargs \<Rightarrow> detector" where
  "glm45_detector kw =
     base_init (lit ''<think>'') (lit ''</think>'')
       (Some [lit ''<tool_call>'', lit ''</tool_call>'', lit ''<eop>'', lit ''<|user|>'', lit ''<|endoftext|>''])
       (kw_bool kw ''force_reasoning'' False) (kw_bool kw ''stream_reasoning'' True)
       (Some (lit ''<tool_call>'')) False [] True ''enable_thinking'' (kw_bool kw ''force_nonempty_content'' False)"

definition nemotron3_detector :: "kwargs \<Rightarrow> detector" where
  "nemotron3_detector kw =
     token_detector kw (lit ''<think>'') (lit ''</think>'') None
       (kw_bool kw ''force_reasoning'' False) (Some (lit ''<tool_call>'')) False ''enable_thinking''"

definition mistral_detector :: "kwargs \<Rightarrow> detector" where
  "mistral_detector kw =
     token_detector kw (lit ''[THINK]'') (lit ''[/THINK]'') None (kw_bool kw ''force_reasoning'' False) None False ''mistral''"

text \<open>The tokens \<open>t["think"]\<close> and \<open>t["tool_calls"]\<close> come from the vocabulary of the tokenizer.\<close>

definition hunyuan_detector :: "str \<Rightarrow> str \<Rightarrow> kwargs \<Rightarrow> detector" where
  "hunyuan_detector think_open tool_calls kw =
     token_detector kw think_open
       (if prefix (lit ''<'') think_open then lit ''</'' @ drop 1 think_open else think_open)
       None (kw_bool kw ''force_reasoning'' False) (Some tool_calls) False ''always''"

definition gemma4_detector :: "kwargs \<Rightarrow> detector" where
  "gemma4_detector kw =
     (token_detector kw (lit ''<|channel>'') (lit ''<channel|>'') None
        (kw_bool kw ''force_reasoning'' False) None False ''explicit_enable_thinking'')
       \<lparr>think_start_self_label := lit ''thought'' @ [10]\<rparr>"

definition deepseek_v3_detector :: "kwargs \<Rightarrow> detector" where
  "deepseek_v3_detector kw = (qwen3_detector kw)\<lparr>reasoning_default := ''explicit_thinking''\<rparr>"

definition dsml_token :: str where
  "dsml_token = 65372 # lit ''DSML'' @ [65372]"

definition dsv4_eos_token :: str where
  "dsv4_eos_token = lit ''<'' @ [65372] @ lit ''end'' @ [9601] @ lit ''of'' @ [9601] @ lit ''sentence'' @ [65372] @ lit ''>''"

definition deepseek_v4_detector :: "kwargs \<Rightarrow> detector" where
  "deepseek_v4_detector kw =
     token_detector kw (lit ''<think>'') (lit ''</think>'') (Some [dsv4_eos_token, dsml_token])
       (kw_bool kw ''force_reasoning'' False) (Some (lit ''<'' @ dsml_token)) True ''explicit_thinking''"

definition mimo_detector :: "kwargs \<Rightarrow> detector" where
  "mimo_detector kw = (qwen3_detector kw)\<lparr>reasoning_default := ''explicit_enable_thinking''\<rparr>"

definition poolside_v1_detector :: "kwargs \<Rightarrow> detector" where
  "poolside_v1_detector kw = (qwen3_detector kw)\<lparr>reasoning_default := ''explicit_enable_thinking''\<rparr>"

section \<open>Detectors that wrap the base\<close>

record append_think_detector = detector +
  is_first_chunk :: bool

definition append_think_init :: "kwargs \<Rightarrow> append_think_detector" where
  "append_think_init kw =
     detector.extend
       (token_detector kw (lit ''<think>'') (lit ''</think>'') None (kw_bool kw ''force_reasoning'' False) None False ''always'')
       (append_think_detector.fields False)"

definition append_think_increment :: "str \<Rightarrow> append_think_detector \<Rightarrow> parse_result \<times> append_think_detector" where
  "append_think_increment new_text d =
    (if \<not> is_first_chunk d
     then (\<lparr>normal_text = think_start_token d @ new_text, reasoning_text = []\<rparr>, d\<lparr>is_first_chunk := True\<rparr>)
     else (\<lparr>normal_text = new_text, reasoning_text = []\<rparr>, d))"

definition append_think_detect :: "str \<Rightarrow> append_think_detector \<Rightarrow> parse_result" where
  "append_think_detect text d = \<lparr>normal_text = think_start_token d @ text, reasoning_text = []\<rparr>"

record minimax_m3_detector = detector +
  lead_buffer :: str
  checked_leading_close :: bool

definition minimax_m3_init :: "kwargs \<Rightarrow> minimax_m3_detector" where
  "minimax_m3_init kw =
     detector.extend
       ((base_init (lit ''<mm:think>'') (lit ''</mm:think>'') None
          (kw_bool kw ''force_reasoning'' False) (kw_bool kw ''stream_reasoning'' True) None
          (kw_bool kw ''continue_final_message'' False) (kw_str kw ''previous_content'') False ''always'' False)
          \<lparr>force_nonempty_content := kw_bool kw ''force_nonempty_content'' False\<rparr>)
       (minimax_m3_detector.fields [] False)"

definition minimax_m3_detect :: "str \<Rightarrow> minimax_m3_detector \<Rightarrow> parse_result option" where
  "minimax_m3_detect text d =
    (let text' = (if \<not> in_reasoning d \<and> prefix (think_end_token d) (lstrip text)
                  then drop (length (think_end_token d)) (lstrip text) else text)
     in map_option (maybe_apply_force_nonempty_content d) (detect_and_parse text' d))"

definition minimax_m3_increment :: "str \<Rightarrow> minimax_m3_detector \<Rightarrow> parse_result \<times> minimax_m3_detector" where
  "minimax_m3_increment new_text d =
    (if \<not> checked_leading_close d \<and> \<not> in_reasoning d then
       (let d1 = d\<lparr>lead_buffer := lead_buffer d @ new_text\<rparr>; stripped = lstrip (lead_buffer d1) in
        if stripped = [] then (empty_result, d1)
        else
          (let new_text' = (if prefix (think_end_token d1) stripped
                            then drop (length (think_end_token d1)) stripped else lead_buffer d1);
               d2 = d1\<lparr>checked_leading_close := True, lead_buffer := []\<rparr>
           in if new_text' = [] then (empty_result, d2) else parse_streaming_increment new_text' d2))
     else parse_streaming_increment new_text d)"

section \<open>Selecting a detector\<close>

datatype detector_class =
    Apertus2509Detector | DeepSeekR1Detector | DeepSeekV3Detector | DeepSeekV4Detector | Glm45Detector
  | HunyuanDetector | GptOssDetector | KimiDetector | KimiK2Detector | KimiK3Detector | MimoDetector
  | MuseGlimmerDetector | PoolsideV1Detector | Qwen3Detector | MiniMaxAppendThinkDetector
  | MiniMaxM3Detector | MistralDetector | Nemotron3Detector | Gemma4Detector | InklingDetector
  | CohereCommand4Detector

definition detector_map :: "(str \<times> detector_class) list" where
  "detector_map = map (\<lambda>(name, cls). (lit name, cls))
    [(''apertus2509'', Apertus2509Detector), (''deepseek-r1'', DeepSeekR1Detector),
     (''deepseek-v3'', DeepSeekV3Detector), (''deepseek-v4'', DeepSeekV4Detector),
     (''glm45'', Glm45Detector), (''hunyuan'', HunyuanDetector), (''gpt-oss'', GptOssDetector),
     (''kimi'', KimiDetector), (''kimi_k2'', KimiK2Detector), (''kimi_k3'', KimiK3Detector),
     (''mimo'', MimoDetector), (''muse'', MuseGlimmerDetector), (''poolside_v1'', PoolsideV1Detector),
     (''qwen3'', Qwen3Detector), (''qwen3-thinking'', Qwen3Detector), (''minimax'', Qwen3Detector),
     (''minimax-append-think'', MiniMaxAppendThinkDetector), (''minimax-m3'', MiniMaxM3Detector),
     (''step3'', DeepSeekR1Detector), (''step3p5'', DeepSeekR1Detector), (''mistral'', MistralDetector),
     (''nemotron_3'', Nemotron3Detector), (''interns1'', Qwen3Detector), (''gemma4'', Gemma4Detector),
     (''inkling'', InklingDetector), (''cohere_command4'', CohereCommand4Detector)]"

text \<open>The parameters of the constructors. Those of the subclasses of \<open>Qwen3Detector\<close> take any keyword
  and hand it on, so what they accept is what \<open>Qwen3Detector\<close> accepts.\<close>

definition signature :: "detector_class \<Rightarrow> string list" where
  "signature cls =
    (let common = [''stream_reasoning'', ''force_reasoning'', ''continue_final_message'', ''previous_content'']
     in case cls of
          Glm45Detector \<Rightarrow> [''stream_reasoning'', ''force_reasoning'', ''force_nonempty_content'']
        | KimiK3Detector \<Rightarrow> common
        | HunyuanDetector \<Rightarrow> common @ [''tokenizer'', ''force_nonempty_content'']
        | MuseGlimmerDetector \<Rightarrow> common @ [''force_nonempty_content'', ''tool_call_parser_active'']
        | _ \<Rightarrow> common @ [''force_nonempty_content''])"

record chat_request =
  is_chat_completion :: bool
  chat_template_kwargs :: kwargs
  request_continue :: bool
  request_messages :: "(string \<times> str) list"

definition template_kwargs :: "chat_request option \<Rightarrow> kwargs" where
  "template_kwargs request = (case request of None \<Rightarrow> [] | Some r \<Rightarrow> chat_template_kwargs r)"

definition effective_force :: "str \<Rightarrow> bool option \<Rightarrow> kwargs \<Rightarrow> bool option" where
  "effective_force name force template =
    (let force1 = (if name \<in> set [lit ''qwen3-thinking'', lit ''gpt-oss'', lit ''minimax''] then Some True else force)
     in if name = lit ''minimax-m3'' \<and> force1 = None
        then Some (map_of template ''thinking_mode'' = Some (PyStr (lit ''enabled'')))
        else force1)"

text \<open>\<open>request.messages[-1]\<close> raises on an empty list of messages.\<close>

definition continue_kwargs :: "chat_request option \<Rightarrow> kwargs res" where
  "continue_kwargs request =
    (case request of
       None \<Rightarrow> Inr []
     | Some r \<Rightarrow>
         (if is_chat_completion r \<and> request_continue r then
            (case rev (request_messages r) of
               [] \<Rightarrow> Inl IndexError
             | (role, content) # _ \<Rightarrow>
                 Inr (if role = ''assistant''
                      then [(''continue_final_message'', PyBool True), (''previous_content'', PyStr content)]
                      else []))
          else Inr []))"

text \<open>The class and the keywords that \<open>ReasoningParser.__init__\<close> calls it with; the call raises
  \<open>TypeError\<close> for a keyword that the constructor does not have.\<close>

definition parser_init ::
  "str option \<Rightarrow> bool \<Rightarrow> bool option \<Rightarrow> chat_request option \<Rightarrow> bool \<Rightarrow> bool \<Rightarrow> (detector_class \<times> kwargs) res" where
  "parser_init model_type stream force request has_tokenizer tool_parser_active =
    (case model_type of
       None \<Rightarrow> Inl ValueError
     | Some name \<Rightarrow>
         (if name = [] then Inl ValueError
          else case map_of detector_map (lower name) of
            None \<Rightarrow> Inl ValueError
          | Some cls \<Rightarrow>
              (let template = template_kwargs request;
                   force_kw = (case effective_force (lower name) force template of
                                 None \<Rightarrow> [] | Some b \<Rightarrow> [(''force_reasoning'', PyBool b)])
               in bind_res (continue_kwargs request) (\<lambda>continue_kw.
                 let kw = [(''stream_reasoning'', PyBool stream)] @ force_kw @ continue_kw
                       @ (if map_of template ''force_nonempty_content'' = Some (PyBool True)
                          then [(''force_nonempty_content'', PyBool True)] else [])
                       @ (if has_tokenizer \<and> ''tokenizer'' \<in> set (signature cls) then [(''tokenizer'', PyOther)] else [])
                       @ (if tool_parser_active \<and> ''tool_call_parser_active'' \<in> set (signature cls)
                          then [(''tool_call_parser_active'', PyBool True)] else [])
                 in if set (map fst kw) \<subseteq> set (signature cls) then Inr (cls, kw) else Inl TypeError))))"

text \<open>The detector of a class that inherits every operation of the base; the others parse with
  code of their own.\<close>

definition plain_detector :: "str \<Rightarrow> str \<Rightarrow> detector_class \<Rightarrow> kwargs \<Rightarrow> detector option" where
  "plain_detector think_open tool_calls cls kw =
    (case cls of
       DeepSeekR1Detector \<Rightarrow> Some (deepseek_r1_detector kw)
     | DeepSeekV3Detector \<Rightarrow> Some (deepseek_v3_detector kw)
     | DeepSeekV4Detector \<Rightarrow> Some (deepseek_v4_detector kw)
     | Glm45Detector \<Rightarrow> Some (glm45_detector kw)
     | HunyuanDetector \<Rightarrow> Some (hunyuan_detector think_open tool_calls kw)
     | KimiDetector \<Rightarrow> Some (kimi_detector kw)
     | KimiK2Detector \<Rightarrow> Some (kimi_k2_detector kw)
     | MimoDetector \<Rightarrow> Some (mimo_detector kw)
     | PoolsideV1Detector \<Rightarrow> Some (poolside_v1_detector kw)
     | Qwen3Detector \<Rightarrow> Some (qwen3_detector kw)
     | MistralDetector \<Rightarrow> Some (mistral_detector kw)
     | Nemotron3Detector \<Rightarrow> Some (nemotron3_detector kw)
     | Gemma4Detector \<Rightarrow> Some (gemma4_detector kw)
     | _ \<Rightarrow> None)"

section \<open>The operations of the parser\<close>

definition parse_non_stream :: "str \<Rightarrow> 'a detector_scheme \<Rightarrow> (str \<times> str) option" where
  "parse_non_stream full_text d = map_option (\<lambda>ret. (reasoning_text ret, normal_text ret)) (detect_and_parse full_text d)"

definition parse_non_stream_blocks :: "str \<Rightarrow> 'a detector_scheme \<Rightarrow> (string \<times> str) list option" where
  "parse_non_stream_blocks full_text d =
    map_option (\<lambda>ret. (if reasoning_text ret = [] then [] else [(''reasoning'', reasoning_text ret)])
                      @ [(''text'', normal_text ret)]) (detect_and_parse full_text d)"

definition parse_stream_chunk :: "str \<Rightarrow> 'a detector_scheme \<Rightarrow> (str \<times> str) \<times> 'a detector_scheme" where
  "parse_stream_chunk chunk_text d =
    (case parse_streaming_increment chunk_text d of (ret, d1) \<Rightarrow> ((reasoning_text ret, normal_text ret), d1))"

definition parse_stream_end :: "'a detector_scheme \<Rightarrow> (str \<times> str) \<times> 'a detector_scheme" where
  "parse_stream_end d = (case finish d of (ret, d1) \<Rightarrow> ((reasoning_text ret, normal_text ret), d1))"

text \<open>What \<open>_process_reasoning_stream\<close> of the chat endpoint hands on for one delta of a choice
  whose parser exists.\<close>

definition process_reasoning_stream :: "str \<Rightarrow> bool \<Rightarrow> 'a detector_scheme \<Rightarrow> (str \<times> str) \<times> 'a detector_scheme" where
  "process_reasoning_stream delta finished d =
    (case parse_stream_chunk delta d of ((reasoning, normal), d1) \<Rightarrow>
       if finished then
         (case parse_stream_end d1 of ((end_reasoning, end_normal), d2) \<Rightarrow>
            ((reasoning @ end_reasoning, normal @ end_normal), d2))
       else ((reasoning, normal), d1))"

text \<open>A whole stream: the concatenated reasoning and content over all deltas, of which the last
  one carries the finish reason.\<close>

fun stream_all :: "str list \<Rightarrow> 'a detector_scheme \<Rightarrow> str \<times> str" where
  "stream_all [] d = ([], [])"
| "stream_all (delta # deltas) d =
    (case process_reasoning_stream delta (deltas = []) d of ((reasoning, normal), d1) \<Rightarrow>
       (case stream_all deltas d1 of (reasoning', normal') \<Rightarrow> (reasoning @ reasoning', normal @ normal')))"

end
