(* ===== verification/ReasoningProofs.thy ===== *)
theory ReasoningProofs
  imports ReasoningParser
begin

text \<open>
  Lemmas on the reasoning parser: searching a text that grows at its end, the slice that the
  stream holds back, and the invariant that relates what the stream has emitted and buffered to
  the text consumed so far.
\<close>

section \<open>Searching\<close>

lemma find_sub_None: "find_sub t s = None \<longleftrightarrow> \<not> sublist t s"
  by (induction s) (auto simp: sublist_Cons_right)

lemma find_sub_SomeD:
  "find_sub t s = Some i \<Longrightarrow> i + length t \<le> length s \<and> take (length t) (drop i s) = t"
proof (induction s arbitrary: i)
  case (Cons c cs)
  show ?case
  proof (cases "prefix t (c # cs)")
    case True
    then show ?thesis using Cons.prems prefix_length_le [OF True] by (auto elim: prefixE)
  qed (use Cons in auto)
qed (auto split: if_splits)

lemma find_sub_prefix: "find_sub t s = Some i \<Longrightarrow> prefix t (drop i s)"
  by (metis find_sub_SomeD take_is_prefix)

lemma find_sub_skip:
  assumes "\<forall>i < length x. \<not> prefix t (drop i (x @ y))"
  shows "find_sub t (x @ y) = map_option ((+) (length x)) (find_sub t y)"
  using assms
proof (induction x)
  case Nil
  show ?case by (cases "find_sub t y") auto
next
  case (Cons c cs)
  have head: "\<not> prefix t (c # cs @ y)" and tail: "\<forall>i < length cs. \<not> prefix t (drop i (cs @ y))"
    using Cons.prems by (fastforce dest: spec [of _ 0], auto dest: spec [of _ "Suc _"])
  have "find_sub t (cs @ y) = map_option ((+) (length cs)) (find_sub t y)"
    using Cons.IH tail by simp
  then show ?case using head by (simp add: option.map_comp comp_def)
qed

lemma find_sub_append: "find_sub t s = Some i \<Longrightarrow> find_sub t (s @ f) = Some i"
proof (induction s arbitrary: i)
  case Nil
  then show ?case by (cases f) (auto split: if_splits)
next
  case (Cons c cs)
  have "prefix t (c # cs) \<or> \<not> prefix t (c # cs @ f)"
  proof (rule ccontr)
    assume contra: "\<not> ?thesis"
    then obtain j where "find_sub t cs = Some j" using Cons.prems by (auto split: if_splits)
    then have "length t \<le> length (c # cs)" using find_sub_SomeD by fastforce
    with contra show False
      by (metis append_Cons prefix_length_prefix prefixI)
  qed
  moreover have "prefix t (c # cs @ f)" if "prefix t (c # cs)"
    using prefix_prefix [OF that, of f] by simp
  ultimately show ?case using Cons by (auto split: if_splits)
qed

lemma split_first_append:
  assumes "sublist t s"
  shows "split_first t (s @ f) = (fst (split_first t s), snd (split_first t s) @ f)"
proof -
  obtain i where i: "find_sub t s = Some i" using assms find_sub_None by blast
  then have "i + length t \<le> length s" using find_sub_SomeD by blast
  then show ?thesis by (simp add: split_first_def i find_sub_append)
qed

lemma replace_first_start: "replace_first t [] (t @ s) = s"
proof -
  have "find_sub t (t @ s) = Some 0" by (cases "t @ s") (auto, metis prefixI)
  then show ?thesis by (simp add: replace_first_def)
qed

section \<open>The slice held back\<close>

lemma longest_partial_le: "longest_partial buf token n \<le> n"
  by (induction n) auto

lemma longest_partial_max:
  "longest_partial buf token n < k \<Longrightarrow> k \<le> n \<Longrightarrow> \<not> prefix (drop (length buf - k) buf) token"
  by (induction n) (auto split: if_splits simp: le_Suc_eq)

lemma foldr_max_ge: "x \<in> set xs \<Longrightarrow> f x \<le> foldr (\<lambda>y. max (f y)) xs (0 :: nat)"
  by (induction xs) (auto simp: le_max_iff_disj)

lemma foldr_max_le: "(\<And>x. x \<in> set xs \<Longrightarrow> f x \<le> n) \<Longrightarrow> foldr (\<lambda>y. max (f y)) xs (0 :: nat) \<le> n"
  by (induction xs) auto

lemma holdback_le: "holdback d current \<le> length current"
  unfolding holdback_def ends_with_partial_token_def
  by (rule foldr_max_le) (meson longest_partial_le min.bounded_iff)

lemma holdback_ge: "t \<in> set (holdback_tokens d) \<Longrightarrow> ends_with_partial_token current t \<le> holdback d current"
  unfolding holdback_def by (rule foldr_max_ge)

text \<open>A token that is not in the text so far can only begin in the slice held back.\<close>

lemma find_after_holdback:
  assumes absent: "\<not> sublist t current" and h: "ends_with_partial_token current t \<le> h" "h \<le> length current"
  shows "find_sub t (current @ f)
    = map_option ((+) (length current - h)) (find_sub t (drop (length current - h) current @ f))"
proof -
  have "\<not> prefix t (drop i (current @ f))" if i: "i < length current - h" for i
  proof
    assume "prefix t (drop i (current @ f))"
    then have pre: "prefix t (drop i current @ f)" using i by simp
    show False
    proof (cases "length t \<le> length (drop i current)")
      case True
      then have "prefix t (drop i current)" using pre by (metis prefix_length_prefix prefixI)
      then show False using absent by (meson sublist_drop prefix_imp_sublist sublist_order.order_trans)
    next
      case False
      then have part: "prefix (drop i current) t" using pre by (metis nat_le_linear prefix_length_prefix prefixI)
      define k where "k = length current - i"
      have drop_k: "drop (length current - k) current = drop i current" using i by (simp add: k_def)
      have "\<not> prefix (drop (length current - k) current) t"
        by (rule longest_partial_max [where n = "min (length current) (length t - 1)"])
           (use h i False in \<open>auto simp: k_def ends_with_partial_token_def\<close>)
      with part drop_k show False by simp
    qed
  qed
  then have "find_sub t (take (length current - h) current @ drop (length current - h) current @ f)
    = map_option ((+) (length (take (length current - h) current))) (find_sub t (drop (length current - h) current @ f))"
    by (intro find_sub_skip) (simp flip: append_assoc)
  then show ?thesis by (simp flip: append_assoc)
qed

section \<open>The split of a text\<close>

text \<open>The reasoning and the content of a text that begins inside the reasoning.\<close>

definition split_text :: "'a detector_scheme \<Rightarrow> str \<Rightarrow> str \<times> str" where
  "split_text d body =
    (case find_sub (think_end_token d) body of
       Some i \<Rightarrow> (take i body, drop (i + length (think_end_token d)) body)
     | None \<Rightarrow> (case tool_start_token d of
         None \<Rightarrow> (body, [])
       | Some tool \<Rightarrow> (case find_sub tool body of Some j \<Rightarrow> (take j body, drop j body) | None \<Rightarrow> (body, []))))"

text \<open>The tokens of a detector can be told apart: none is empty and none occurs in another.\<close>

definition tokens_apart :: "'a detector_scheme \<Rightarrow> bool" where
  "tokens_apart d \<longleftrightarrow> think_start_token d \<noteq> [] \<and> tool_start_token d \<noteq> Some []
     \<and> \<not> sublist (start_text d) (think_end_token d) \<and> \<not> sublist (think_end_token d) (start_text d)
     \<and> list_all (\<lambda>t. \<not> sublist t (start_text d) \<and> \<not> sublist t (think_end_token d)
           \<and> \<not> sublist (start_text d) t \<and> \<not> sublist (think_end_token d) t) (tool_tokens d)"

text \<open>A tool token does not come before the closing token, if both occur.\<close>

definition tool_after_end :: "'a detector_scheme \<Rightarrow> str \<Rightarrow> bool" where
  "tool_after_end d body \<longleftrightarrow>
    (case tool_start_token d of None \<Rightarrow> True
     | Some tool \<Rightarrow> (case (find_sub (think_end_token d) body, find_sub tool body) of
         (Some i, Some j) \<Rightarrow> i < j | _ \<Rightarrow> True))"

lemma strip_starts_absent: "\<not> prefix t s \<Longrightarrow> strip_starts t s = Some s"
  by (simp add: strip_starts.simps)

lemma strip_starts_once: "\<not> prefix t s \<Longrightarrow> strip_starts t (t @ s) = Some s"
  by (simp add: strip_starts.simps [of t "t @ s"] strip_starts_absent)

lemma detect_in_reasoning:
  assumes "in_reasoning d \<or> sublist (think_start_token d) text" and "strip_starts (start_text d) text = Some body"
    and "\<not> sublist (think_end_token d) (previous_content d)"
  shows "map_option (\<lambda>ret. (reasoning_text ret, normal_text ret)) (detect_and_parse_impl text d) = Some (split_text d body)"
proof -
  have "find_sub (think_end_token d) body = None \<longleftrightarrow> \<not> sublist (think_end_token d) body" by (rule find_sub_None)
  then show ?thesis
    using assms by (cases "find_sub (think_end_token d) body")
      (auto simp: detect_and_parse_impl_def split_text_def split_first_def Let_def split: option.splits)
qed

section \<open>The state of a stream\<close>

text \<open>\<open>inside d r c\<close>: the detector has consumed \<open>c\<close>, is still in the reasoning and has emitted \<open>r\<close>;
  a token can only begin in what it has buffered.\<close>

definition keeps :: "str \<Rightarrow> str \<Rightarrow> str \<Rightarrow> bool" where
  "keeps t r b \<longleftrightarrow> (\<forall>f. find_sub t (r @ b @ f) = map_option ((+) (length r)) (find_sub t (b @ f)))"

definition inside :: "'a detector_scheme \<Rightarrow> str \<Rightarrow> str \<Rightarrow> bool" where
  "inside d r c \<longleftrightarrow> in_reasoning d \<and> c = r @ buffer d
     \<and> (\<forall>t \<in> set (think_end_token d # tool_tokens d). \<not> sublist t c \<and> keeps t r (buffer d))"

text \<open>\<open>outside goal d r n c\<close>: the reasoning is over, and whatever follows is content.\<close>

definition outside :: "(str \<Rightarrow> bool) \<Rightarrow> (str \<Rightarrow> str \<times> str) \<Rightarrow> 'a detector_scheme \<Rightarrow> str \<Rightarrow> str \<Rightarrow> str \<Rightarrow> bool" where
  "outside ok goal d r n c \<longleftrightarrow> \<not> in_reasoning d \<and> suffix (buffer d) c
     \<and> (\<forall>f. ok (c @ f) \<longrightarrow> goal (c @ f) = (r, n @ buffer d @ f))"

lemma keeps_append: "keeps t r b \<Longrightarrow> keeps t r (b @ new)"
  by (simp add: keeps_def)

lemma keeps_Nil: "keeps t [] b"
  by (cases "find_sub t b") (auto simp: keeps_def option.map_ident_strong)

lemma keeps_sublist: "keeps t r b \<Longrightarrow> sublist t (r @ b) \<longleftrightarrow> sublist t b"
  unfolding keeps_def by (metis append_Nil2 find_sub_None option.map_disc_iff)

lemma keeps_holdback:
  assumes "keeps t r b" "\<not> sublist t b" "ends_with_partial_token b t \<le> h" "h \<le> length b"
  shows "keeps t (r @ take (length b - h) b) (drop (length b - h) b)"
  unfolding keeps_def
proof (rule allI)
  fix f
  have "find_sub t ((r @ take (length b - h) b) @ drop (length b - h) b @ f) = find_sub t (r @ b @ f)"
    by (metis append.assoc append_take_drop_id)
  also have "\<dots> = map_option ((+) (length r)) (find_sub t (b @ f))"
    using assms(1) by (simp add: keeps_def)
  also have "find_sub t (b @ f) = map_option ((+) (length b - h)) (find_sub t (drop (length b - h) b @ f))"
    by (rule find_after_holdback) (use assms in auto)
  finally show "find_sub t ((r @ take (length b - h) b) @ drop (length b - h) b @ f)
      = map_option ((+) (length (r @ take (length b - h) b))) (find_sub t (drop (length b - h) b @ f))"
    by (cases "find_sub t (drop (length b - h) b @ f)") simp_all
qed

text \<open>The fields that streaming does not change.\<close>

definition config :: "'a detector_scheme \<Rightarrow> str \<times> str \<times> str \<times> str option \<times> bool" where
  "config d = (think_start_token d, think_start_self_label d, think_end_token d, tool_start_token d, force_nonempty_content d)"

lemma config_cong:
  assumes "config d' = config d"
  shows "start_text d' = start_text d" "tool_tokens d' = tool_tokens d" "tokens_to_check d' = tokens_to_check d"
    "split_text d' = split_text d" "tool_after_end d' = tool_after_end d" "tokens_apart d' = tokens_apart d"
    "think_end_token d' = think_end_token d" "force_nonempty_content d' = force_nonempty_content d"
proof -
  have eqs: "think_start_token d' = think_start_token d" "think_start_self_label d' = think_start_self_label d"
    "think_end_token d' = think_end_token d" "tool_start_token d' = tool_start_token d"
    "force_nonempty_content d' = force_nonempty_content d"
    using assms by (simp_all add: config_def)
  show start: "start_text d' = start_text d" and tools: "tool_tokens d' = tool_tokens d"
    unfolding start_text_def tool_tokens_def eqs by simp_all
  show "tokens_to_check d' = tokens_to_check d" "tokens_apart d' = tokens_apart d"
    unfolding tokens_to_check_def tokens_apart_def start tools eqs by simp_all
  show "split_text d' = split_text d" "tool_after_end d' = tool_after_end d"
    unfolding split_text_def tool_after_end_def fun_eq_iff eqs by simp_all
  show "think_end_token d' = think_end_token d" "force_nonempty_content d' = force_nonempty_content d"
    by (rule eqs)+
qed

lemma config_split: "split_current d = (out, d') \<Longrightarrow> config d' = config d \<and> stripped_think_start d' = stripped_think_start d"
  by (auto simp: split_current_def config_def Let_def split: prod.splits if_splits list.splits)

lemma config_strip: "config (strip_think_start d) = config d"
  by (simp add: strip_think_start_def config_def)

lemma config_buffer [simp]: "config (d\<lparr>buffer := b\<rparr>) = config d"
  by (simp add: config_def)

lemmas buffer_cong = config_cong [OF config_buffer]

lemma apartD:
  assumes "tokens_apart d" "t \<in> set (tokens_to_check d)" "t' \<in> set (tokens_to_check d)" "sublist t t'"
  shows "t = t'"
  using assms by (cases "tool_start_token d")
    (auto simp: tokens_apart_def tokens_to_check_def tool_tokens_def list_all_iff split: if_splits)

text \<open>What is kept back by the first test contains no token.\<close>

lemma partial_has_no_token:
  assumes "tokens_apart d" "t \<in> set (tokens_to_check d)" "tok \<in> set (tokens_to_check d)" "prefix b tok" "tok \<noteq> b"
  shows "\<not> sublist t b"
proof
  assume sub: "sublist t b"
  then have "sublist t tok" using assms(4) by (meson prefix_imp_sublist sublist_order.order_trans)
  then have "t = tok" using apartD assms(1-3) by blast
  then show False using sub assms(4,5) by (metis prefix_imp_sublist sublist_order.order_antisym)
qed

lemma split_text_undecided:
  assumes "\<forall>t \<in> set (think_end_token d # tool_tokens d). \<not> sublist t c" "tokens_apart d"
  shows "split_text d c = (c, [])"
  using assms by (auto simp: split_text_def tool_tokens_def tokens_apart_def find_sub_None [THEN iffD2] split: option.splits if_splits)

text \<open>When the tool token has arrived first, the closing token does not follow.\<close>

lemma no_end_after_tool:
  assumes apart: "tokens_apart d" and tool: "tool_start_token d = Some t" "find_sub t c = Some j"
    and none: "find_sub (think_end_token d) c = None" and order: "tool_after_end d (c @ f)"
  shows "find_sub (think_end_token d) (c @ f) = None"
proof (rule ccontr)
  let ?e = "think_end_token d"
  assume "find_sub ?e (c @ f) \<noteq> None"
  then obtain i where i: "find_sub ?e (c @ f) = Some i" by blast
  have less: "i < j" using order tool i by (simp add: tool_after_end_def find_sub_append)
  have e: "take (length ?e) (drop i (c @ f)) = ?e" using find_sub_SomeD [OF i] by blast
  have t: "j + length t \<le> length c" "take (length t) (drop j c) = t" using find_sub_SomeD [OF tool(2)] by auto
  show False
  proof (cases "i + length ?e \<le> length c")
    case True
    then have "take (length ?e) (drop i c) = ?e" using e by simp
    then have "sublist ?e c" by (metis sublist_take sublist_drop sublist_order.order_trans)
    then show False using none find_sub_None by blast
  next
    case False
    have "take (length t) (drop (j - i) ?e) = take (length t) (drop (j - i) (take (length ?e) (drop i (c @ f))))"
      using e by simp
    also have "\<dots> = take (length t) (drop j (c @ f))"
      using False less t(1) by (simp add: drop_take min_def)
    also have "\<dots> = t" using t by simp
    finally have "sublist t ?e" by (metis sublist_take sublist_drop sublist_order.order_trans)
    moreover have "t \<noteq> []" "t \<in> set (tool_tokens d)" using apart tool(1) by (auto simp: tokens_apart_def tool_tokens_def)
    ultimately show False using apart by (auto simp: tokens_apart_def list_all_iff)
  qed
qed

section \<open>One step of a stream\<close>

text \<open>The consumed text \<open>c\<close> is \<open>r\<close> and the buffer, and no token begins in \<open>r\<close>: after the split the
  detector is still inside the reasoning or has found where it ends.\<close>

lemma split_end_found:
  assumes "in_reasoning d" and c: "c = r @ buffer d" and keep: "keeps (think_end_token d) r (buffer d)"
    and found: "sublist (think_end_token d) (buffer d)" and sc: "split_current d = (out, d')"
  shows "outside ok (split_text d) d' (r @ reasoning_text out) (normal_text out) c"
proof -
  let ?e = "think_end_token d"
  obtain i where i: "find_sub ?e (buffer d) = Some i" using found find_sub_None by blast
  have len: "i + length ?e \<le> length (buffer d)" using find_sub_SomeD [OF i] by blast
  have out: "out = \<lparr>normal_text = drop (i + length ?e) (buffer d), reasoning_text = take i (buffer d)\<rparr>"
    and d': "d' = d\<lparr>buffer := [], in_reasoning := False\<rparr>"
    using sc found assms(1) by (auto simp: split_current_def split_first_def i Let_def)
  have "find_sub ?e (c @ f) = Some (length r + i)" for f
    using keep find_sub_append [OF i, of f] by (simp add: c keeps_def)
  then have "split_text d (c @ f) = (r @ take i (buffer d), drop (i + length ?e) (buffer d) @ f)" for f
    using len by (simp add: split_text_def c)
  then show ?thesis by (simp add: outside_def out d')
qed

lemma split_tool_found:
  assumes apart: "tokens_apart d" and ins: "in_reasoning d" and c: "c = r @ buffer d"
    and keep: "\<forall>t \<in> set (think_end_token d # tool_tokens d). keeps t r (buffer d)"
    and none: "\<not> sublist (think_end_token d) (buffer d)"
    and tool: "t \<in> set (tool_tokens d)" "sublist t (buffer d)" and sc: "split_current d = (out, d')"
  shows "outside (tool_after_end d) (split_text d) d' (r @ reasoning_text out) (normal_text out) c"
proof -
  have tok: "tool_start_token d = Some t" "tool_tokens d = [t]"
    using tool(1) by (cases "tool_start_token d"; auto simp: tool_tokens_def split: if_splits)+
  obtain j where j: "find_sub t (buffer d) = Some j" using tool(2) find_sub_None by blast
  have len: "j + length t \<le> length (buffer d)" using find_sub_SomeD [OF j] by blast
  have out: "out = \<lparr>normal_text = drop j (buffer d), reasoning_text = take j (buffer d)\<rparr>"
    and d': "d' = d\<lparr>buffer := [], in_reasoning := False\<rparr>"
    using sc none ins tool(2) by (auto simp: split_current_def tok j Let_def)
  have at: "find_sub t (c @ f) = Some (length r + j)" for f
    using keep find_sub_append [OF j, of f] by (simp add: c keeps_def tok)
  have "\<not> sublist (think_end_token d) c" using keep none keeps_sublist c by auto
  then have no_end: "find_sub (think_end_token d) c = None" by (simp add: find_sub_None)
  have "split_text d (c @ f) = (r @ take j (buffer d), drop j (buffer d) @ f)" if "tool_after_end d (c @ f)" for f
    using no_end_after_tool [OF apart tok(1) _ no_end that] at [of "[]"] at [of f] len by (simp add: split_text_def tok(1) c)
  then show ?thesis by (simp add: outside_def out d')
qed

lemma split_continues:
  assumes ins: "in_reasoning d" and c: "c = r @ buffer d"
    and keep: "\<forall>t \<in> set (think_end_token d # tool_tokens d). keeps t r (buffer d)"
    and none: "\<forall>t \<in> set (think_end_token d # tool_tokens d). \<not> sublist t (buffer d)"
    and sc: "split_current d = (out, d')"
  shows "normal_text out = [] \<and> inside d' (r @ reasoning_text out) c"
proof -
  let ?k = "length (buffer d) - holdback d (buffer d)"
  have absent: "\<forall>t \<in> set (think_end_token d # tool_tokens d). \<not> sublist t c"
    using keep none keeps_sublist unfolding c by blast
  have tools: "filter (\<lambda>t. sublist t (buffer d)) (tool_tokens d) = []" using none by (auto simp: filter_empty_conv)
  have eqs: "think_end_token d' = think_end_token d" "tool_tokens d' = tool_tokens d"
    using config_cong config_split [OF sc] by blast+
  show ?thesis
  proof (cases "stream_reasoning d")
    case True
    have res: "out = \<lparr>normal_text = [], reasoning_text = take ?k (buffer d)\<rparr>" "d' = d\<lparr>buffer := drop ?k (buffer d)\<rparr>"
      using sc none tools ins True by (auto simp: split_current_def Let_def)
    have "keeps t (r @ take ?k (buffer d)) (drop ?k (buffer d))" if "t \<in> set (think_end_token d # tool_tokens d)" for t
      by (rule keeps_holdback) (use that keep none holdback_le in \<open>auto intro!: holdback_ge simp: holdback_tokens_def\<close>)
    then show ?thesis using absent ins res(1) unfolding inside_def eqs by (simp add: res c)
  next
    case False
    have res: "out = empty_result" "d' = d" using sc none tools ins False by (auto simp: split_current_def Let_def)
    then show ?thesis using absent keep ins c by (simp add: inside_def empty_result_def)
  qed
qed

text \<open>\<open>tracks\<close>: the emitted \<open>r\<close> and \<open>n\<close> and the state agree with the consumed text \<open>c\<close> under \<open>goal\<close>.\<close>

definition tracks :: "(str \<Rightarrow> bool) \<Rightarrow> (str \<Rightarrow> str \<times> str) \<Rightarrow> 'a detector_scheme \<Rightarrow> str \<Rightarrow> str \<Rightarrow> str \<Rightarrow> bool" where
  "tracks ok goal d r n c \<longleftrightarrow> outside ok goal d r n c
     \<or> n = [] \<and> inside d r c \<and> ok = tool_after_end d \<and> goal = split_text d"

lemma split_step:
  assumes apart: "tokens_apart d" and ins: "in_reasoning d" and c: "c = r @ buffer d"
    and keep: "\<forall>t \<in> set (think_end_token d # tool_tokens d). keeps t r (buffer d)" and sc: "split_current d = (out, d')"
  shows "tracks (tool_after_end d) (split_text d) d' (r @ reasoning_text out) (normal_text out) c"
proof (cases "\<forall>t \<in> set (think_end_token d # tool_tokens d). \<not> sublist t (buffer d)")
  case True
  have "tool_after_end d' = tool_after_end d" "split_text d' = split_text d"
    using config_cong config_split [OF sc] by blast+
  then show ?thesis using split_continues [OF ins c keep True sc] by (simp add: tracks_def)
next
  case False
  then consider "sublist (think_end_token d) (buffer d)"
    | t where "\<not> sublist (think_end_token d) (buffer d)" "t \<in> set (tool_tokens d)" "sublist t (buffer d)" by auto
  then show ?thesis
  proof cases
    case 1
    then show ?thesis using split_end_found [OF ins c _ 1 sc] keep by (simp add: tracks_def)
  next
    case 2
    then show ?thesis using split_tool_found [OF apart ins c keep _ _ _ sc] by (simp add: tracks_def)
  qed
qed

lemma increment_inside:
  assumes apart: "tokens_apart d" and ins: "inside d r c"
    and start: "\<not> sublist (start_text d) (c @ new)" and inc: "parse_increment_impl new d = (out, d')"
  shows "config d' = config d
    \<and> tracks (tool_after_end d) (split_text d) d' (r @ reasoning_text out) (normal_text out) (c @ new)"
proof -
  define d1 where "d1 = d\<lparr>buffer := buffer d @ new\<rparr>"
  have conf: "config d1 = config d" by (simp add: d1_def)
  note eqs = config_cong [OF conf]
  have c1: "c @ new = r @ buffer d1" and in1: "in_reasoning d1" using ins by (auto simp: inside_def d1_def)
  have keep: "\<forall>t \<in> set (think_end_token d1 # tool_tokens d1). keeps t r (buffer d1)"
    using ins unfolding eqs inside_def by (auto simp: d1_def intro: keeps_append)
  show ?thesis
  proof (cases "list_ex (\<lambda>token. prefix (buffer d1) token \<and> token \<noteq> buffer d1) (tokens_to_check d1)")
    case True
    then have res: "out = empty_result" "d' = d1" using inc by (auto simp: parse_increment_impl_def d1_def)
    obtain tok where tok: "tok \<in> set (tokens_to_check d1)" "prefix (buffer d1) tok" "tok \<noteq> buffer d1"
      using True by (auto simp: list_ex_iff)
    have "\<not> sublist t (buffer d1)" if "t \<in> set (think_end_token d1 # tool_tokens d1)" for t
      by (rule partial_has_no_token [OF _ _ tok]) (use apart that eqs in \<open>auto simp: tokens_to_check_def\<close>)
    then have "\<forall>t \<in> set (think_end_token d1 # tool_tokens d1). \<not> sublist t (c @ new)"
      using keep keeps_sublist unfolding c1 by blast
    then have "inside d1 r (c @ new)" using keep in1 c1 by (simp add: inside_def)
    then show ?thesis using conf eqs by (simp add: res tracks_def empty_result_def)
  next
    case False
    have "\<not> sublist (start_text d1) (buffer d1)"
      using start c1 eqs(1) by (metis suffixI suffix_imp_sublist sublist_order.order_trans)
    then have "split_current d1 = (out, d')"
      using inc False by (auto simp: parse_increment_impl_def d1_def strip_think_start_def)
    then show ?thesis using split_step [OF _ in1 c1 keep] apart eqs conf config_split by metis
  qed
qed

lemma increment_outside:
  assumes out: "outside ok goal d r n c" and start: "\<not> sublist (start_text d) (c @ new)"
    and inc: "parse_increment_impl new d = (ret, d')"
  shows "config d' = config d \<and> reasoning_text ret = [] \<and> outside ok goal d' r (n @ normal_text ret) (c @ new)"
proof -
  define d1 where "d1 = d\<lparr>buffer := buffer d @ new\<rparr>"
  have "suffix (buffer d1) (c @ new)" using out by (simp add: outside_def d1_def)
  then have "\<not> sublist (start_text d1) (buffer d1)"
    using start config_cong(1) [of d1 d] by (metis config_buffer d1_def suffix_imp_sublist sublist_order.order_trans)
  then have "(ret, d') = (empty_result, d1)
      \<or> (ret, d') = (\<lparr>normal_text = buffer d1, reasoning_text = []\<rparr>, d1\<lparr>buffer := []\<rparr>)"
    using inc out by (auto simp: parse_increment_impl_def strip_think_start_def split_current_def outside_def
        d1_def Let_def split: if_splits)
  then show ?thesis using out
    by (auto simp: outside_def d1_def empty_result_def suffix_append)
qed

lemma increment_tracks:
  assumes "tokens_apart d" "tracks ok goal d r n c" "\<not> sublist (start_text d) (c @ new)"
    "\<not> force_nonempty_content d" "parse_stream_chunk new d = ((r', n'), d')"
  shows "config d' = config d \<and> tracks ok goal d' (r @ r') (n @ n') (c @ new)"
proof -
  obtain out e where inc: "parse_increment_impl new d = (out, e)" by fastforce
  have e: "config e = config d \<and> tracks ok goal e (r @ reasoning_text out) (n @ normal_text out) (c @ new)"
  proof (cases "outside ok goal d r n c")
    case True
    show ?thesis using increment_outside [OF True assms(3) inc] by (simp add: tracks_def)
  next
    case False
    then have "n = []" "inside d r c" "ok = tool_after_end d" "goal = split_text d"
      using assms(2) by (auto simp: tracks_def)
    then show ?thesis using increment_inside [OF assms(1) _ assms(3) inc] by simp
  qed
  then have "\<not> force_nonempty_content e" using assms(4) config_cong(8) by metis
  then have "r' = reasoning_text out" "n' = normal_text out" "d' = e"
    using assms(5) by (auto simp: parse_stream_chunk_def parse_streaming_increment_def inc)
  then show ?thesis using e by simp
qed

lemma finish_tracks:
  assumes apart: "tokens_apart d" and tr: "tracks ok goal d r n c" and "ok c" "\<not> sublist (start_text d) c"
    "\<not> force_nonempty_content d" "parse_stream_end d = ((r', n'), d')"
  shows "goal c = (r @ r', n @ n')"
proof (cases "outside ok goal d r n c")
  case True
  then have "goal (c @ []) = (r, n @ buffer d @ [])" using \<open>ok c\<close> unfolding outside_def by (metis append_Nil2)
  then show ?thesis using True assms(6) by (auto simp: parse_stream_end_def finish_def outside_def)
next
  case False
  then have ins: "n = []" "inside d r c" "goal = split_text d" using tr by (auto simp: tracks_def)
  have "\<not> prefix (start_text d) (buffer d)"
    using assms(4) ins(2) unfolding inside_def by (metis prefix_imp_sublist sublist_order.order_trans suffixI suffix_imp_sublist)
  then have "r' = buffer d \<and> n' = []" using ins assms(5,6)
    by (auto simp: parse_stream_end_def finish_def inside_def strip_leading_think_start_def)
  then show ?thesis using split_text_undecided [OF _ apart, of c] ins by (auto simp: inside_def)
qed

lemma stream_tracks:
  assumes "tokens_apart d" "tracks ok goal d r n c" "\<not> sublist (start_text d) (c @ concat deltas)"
    "\<not> force_nonempty_content d" "ok (c @ concat deltas)" "deltas \<noteq> []"
  shows "goal (c @ concat deltas) = (r @ fst (stream_all deltas d), n @ snd (stream_all deltas d))"
  using assms
proof (induction deltas arbitrary: d r n c)
  case (Cons delta deltas)
  obtain r1 n1 d1 where chunk: "parse_stream_chunk delta d = ((r1, n1), d1)" by (metis prod.exhaust)
  obtain r2 n2 d2 where fin: "parse_stream_end d1 = ((r2, n2), d2)" by (metis prod.exhaust)
  have part: "\<not> sublist (start_text d) (c @ delta)"
    using Cons.prems(3) by (metis append.assoc concat.simps(2) prefixI prefix_imp_sublist sublist_order.order_trans)
  have step: "config d1 = config d" "tracks ok goal d1 (r @ r1) (n @ n1) (c @ delta)"
    using increment_tracks [OF Cons.prems(1,2) part Cons.prems(4) chunk] by auto
  note eqs = config_cong [OF step(1)]
  show ?case
  proof (cases "deltas = []")
    case True
    have "goal (c @ delta) = ((r @ r1) @ r2, (n @ n1) @ n2)"
      by (rule finish_tracks [OF _ step(2) _ _ _ fin]) (use Cons.prems True part eqs in auto)
    then show ?thesis by (simp add: True process_reasoning_stream_def chunk fin)
  next
    case False
    have "goal ((c @ delta) @ concat deltas) = ((r @ r1) @ fst (stream_all deltas d1), (n @ n1) @ snd (stream_all deltas d1))"
      by (rule Cons.IH [OF _ step(2)]) (use Cons.prems False eqs in auto)
    then show ?thesis by (simp add: process_reasoning_stream_def chunk False split: prod.splits)
  qed
qed simp

section \<open>The opening token\<close>

text \<open>While only a part of the opening token has arrived, the stream waits; then it removes it.\<close>

lemma opening_waits:
  assumes "strict_prefix (buffer d @ new) (start_text d)" "\<not> force_nonempty_content d"
  shows "parse_stream_chunk new d = (([], []), d\<lparr>buffer := buffer d @ new\<rparr>)"
  using assms
  by (auto simp: parse_stream_chunk_def parse_streaming_increment_def parse_increment_impl_def tokens_to_check_def
      start_text_def empty_result_def strict_prefix_def)

lemma opening_removed:
  assumes apart: "tokens_apart d" and fresh: "\<not> stripped_think_start d" "\<not> force_nonempty_content d"
    and buf: "buffer d @ new = start_text d @ c" and chunk: "parse_stream_chunk new d = ((r, n), d')"
  shows "config d' = config d \<and> tracks (tool_after_end d) (split_text d) d' r n c"
proof -
  define d1 where "d1 = d\<lparr>buffer := c, stripped_think_start := True, in_reasoning := True\<rparr>"
  have conf: "config d1 = config d" by (simp add: d1_def config_def)
  note eqs = config_cong [OF conf]
  have "\<not> (prefix (start_text d @ c) tok \<and> tok \<noteq> start_text d @ c)" if "tok \<in> set (tokens_to_check d)" for tok
    using partial_has_no_token [OF apart _ that, of "start_text d" "start_text d @ c"] by (auto simp: tokens_to_check_def)
  then have impl: "parse_increment_impl new d = split_current d1"
    using fresh buf by (auto simp: parse_increment_impl_def strip_think_start_def list_ex_iff d1_def buffer_cong
        replace_first_start Let_def)
  obtain out e where sc: "split_current d1 = (out, e)" by fastforce
  have in1: "in_reasoning d1" "c = [] @ buffer d1" by (simp_all add: d1_def)
  have tr: "tracks (tool_after_end d) (split_text d) e ([] @ reasoning_text out) (normal_text out) c"
    by (rule split_step [OF _ in1 _ sc, unfolded eqs]) (use apart in \<open>auto simp: keeps_Nil\<close>)
  have ce: "config e = config d" using config_split [OF sc] conf by simp
  then have "\<not> force_nonempty_content e" using fresh config_cong(8) by metis
  then have "r = reasoning_text out" "n = normal_text out" "d' = e"
    using chunk by (auto simp: parse_stream_chunk_def parse_streaming_increment_def impl sc)
  then show ?thesis using tr ce by simp
qed

lemma stream_opening:
  assumes "tokens_apart d" "\<not> stripped_think_start d" "\<not> force_nonempty_content d"
    "strict_prefix (buffer d) (start_text d)" "buffer d @ concat deltas = start_text d @ body"
    "\<not> sublist (start_text d) body" "tool_after_end d body"
  shows "stream_all deltas d = split_text d body"
  using assms
proof (induction deltas arbitrary: d)
  case Nil
  then show ?case by (auto simp: strict_prefix_def)
next
  case (Cons delta deltas)
  have whole: "(buffer d @ delta) @ concat deltas = start_text d @ body" using Cons.prems(5) by simp
  show ?case
  proof (cases "length (start_text d) \<le> length (buffer d @ delta)")
    case True
    then have "prefix (start_text d) (buffer d @ delta)" using whole by (metis prefixI prefix_length_prefix)
    then obtain c where c: "buffer d @ delta = start_text d @ c" by (rule prefixE)
    have body: "body = c @ concat deltas" using whole unfolding c by simp
    obtain r n d1 where chunk: "parse_stream_chunk delta d = ((r, n), d1)" by (metis prod.exhaust)
    have step: "config d1 = config d" "tracks (tool_after_end d) (split_text d) d1 r n c"
      using opening_removed [OF Cons.prems(1-3) c chunk] by auto
    note eqs = config_cong [OF step(1)]
    show ?thesis
    proof (cases "deltas = []")
      case no_more: True
      obtain r2 n2 d2 where fin: "parse_stream_end d1 = ((r2, n2), d2)" by (metis prod.exhaust)
      have "split_text d c = (r @ r2, n @ n2)"
        by (rule finish_tracks [OF _ step(2) _ _ _ fin]) (use Cons.prems no_more body eqs in auto)
      then show ?thesis by (simp add: no_more body process_reasoning_stream_def chunk fin)
    next
      case False
      have "split_text d (c @ concat deltas) = (r @ fst (stream_all deltas d1), n @ snd (stream_all deltas d1))"
        by (rule stream_tracks [OF _ step(2)]) (use Cons.prems False body eqs in auto)
      then show ?thesis by (simp add: False body process_reasoning_stream_def chunk split: prod.splits)
    qed
  next
    case False
    then have part: "strict_prefix (buffer d @ delta) (start_text d)"
      using whole by (metis nat_le_linear prefixI prefix_length_prefix strict_prefix_def)
    let ?d1 = "d\<lparr>buffer := buffer d @ delta\<rparr>"
    have "deltas \<noteq> []" using whole part by (auto simp: strict_prefix_def)
    moreover have "stream_all deltas ?d1 = split_text ?d1 body"
      by (rule Cons.IH) (use Cons.prems part whole in \<open>auto simp: buffer_cong\<close>)
    ultimately show ?thesis
      by (simp add: process_reasoning_stream_def opening_waits [OF part Cons.prems(3)] buffer_cong split: prod.splits)
  qed
qed

end
