(* ===== verification/ReasoningProps.thy ===== *)
theory ReasoningProps
  imports ReasoningProofs
begin

text \<open>
  The property of the reasoning parser: however a text is cut into deltas, the stream gives the
  reasoning and the content that the one-time parser gives.
\<close>

section \<open>The shipped detectors\<close>

definition fresh_detector :: "'a detector_scheme \<Rightarrow> bool" where
  "fresh_detector d \<longleftrightarrow> buffer d = [] \<and> \<not> stripped_think_start d
     \<and> (sublist (think_end_token d) (previous_content d) \<longrightarrow> \<not> in_reasoning d)"

lemma fresh_base_init:
  "fresh_detector (base_init start_token end_token excluded force stream tool cont previous internally mode nonempty)"
  by (simp add: fresh_detector_def base_init_def Let_def)

lemmas detector_defs = deepseek_r1_detector_def deepseek_v3_detector_def deepseek_v4_detector_def glm45_detector_def
  hunyuan_detector_def kimi_detector_def kimi_k2_detector_def mimo_detector_def poolside_v1_detector_def
  qwen3_detector_def mistral_detector_def nemotron3_detector_def gemma4_detector_def token_detector_def

lemma fresh_plain: "plain_detector think_open tool_calls cls kw = Some d \<Longrightarrow> fresh_detector d"
  using fresh_base_init
  by (cases cls) (auto simp: plain_detector_def detector_defs fresh_detector_def)

text \<open>Whether the tokens are apart depends on the three tokens and the label only.\<close>

definition apart :: "str \<Rightarrow> str \<Rightarrow> str \<Rightarrow> str option \<Rightarrow> bool" where
  "apart start_token label end_token tool \<longleftrightarrow>
     start_token \<noteq> [] \<and> tool \<noteq> Some []
     \<and> \<not> sublist (start_token @ label) end_token \<and> \<not> sublist end_token (start_token @ label)
     \<and> (case tool of None \<Rightarrow> True
        | Some t \<Rightarrow> \<not> sublist t (start_token @ label) \<and> \<not> sublist t end_token
            \<and> \<not> sublist (start_token @ label) t \<and> \<not> sublist end_token t)"

lemma apart_base_init:
  assumes "apart s [] e tool"
  shows "tokens_apart (base_init s e excluded force stream tool cont previous internally mode nonempty)"
  using assms by (cases tool) (simp_all add: apart_def tokens_apart_def base_init_def Let_def start_text_def tool_tokens_def)

lemma apart_label:
  assumes "apart s label e tool"
  shows "tokens_apart ((base_init s e excluded force stream tool cont previous internally mode nonempty)\<lparr>think_start_self_label := label\<rparr>)"
  using assms by (cases tool) (simp_all add: apart_def tokens_apart_def base_init_def Let_def start_text_def tool_tokens_def)

lemma apart_default:
  "tokens_apart (d\<lparr>reasoning_default := mode\<rparr>) = tokens_apart d"
  by (simp add: tokens_apart_def start_text_def tool_tokens_def)

lemma shipped_tokens:
  "apart (lit ''<think>'') [] (lit ''</think>'') None"
  "apart (lit ''<think>'') [] (lit ''</think>'') (Some (lit ''<tool_call>''))"
  "apart (lit ''<think>'') [] (lit ''</think>'') (Some (lit ''<|tool_calls_section_begin|>''))"
  "apart (lit ''<think>'') [] (lit ''</think>'') (Some (lit ''<'' @ dsml_token))"
  "apart (lit ''[THINK]'') [] (lit ''[/THINK]'') None"
  "apart (9665 # lit ''think'' @ [9655]) [] (9665 # lit ''/think'' @ [9655]) None"
  "apart (lit ''<|channel>'') (lit ''thought'' @ [10]) (lit ''<channel|>'') None"
  by (simp_all add: apart_def lit_def dsml_token_def sublist_Cons_right)

lemma apart_plain:
  assumes "plain_detector think_open tool_calls cls kw = Some d" "cls \<noteq> HunyuanDetector"
  shows "tokens_apart d"
  using assms
  by (cases cls) (auto simp: plain_detector_def detector_defs apart_default shipped_tokens(1-6) [THEN apart_base_init]
      shipped_tokens(7) [THEN apart_label])

section \<open>Building a parser\<close>

text \<open>The constructors of two detectors do not have every keyword that the parser may pass: the parser
  for GLM-4.5 cannot be built for a request that continues an assistant message, the one for Kimi K3
  not for a request that asks for nonempty content. For every other class the call has the keywords
  of the constructor.\<close>

lemma glm45_cannot_continue:
  assumes "is_chat_completion r" "request_continue r" "request_messages r = messages @ [(''assistant'', content)]"
  shows "parser_init (Some (lit ''glm45'')) stream force (Some r) has_tokenizer tool_active = Inl TypeError"
  using assms
  by (simp add: parser_init_def lower_def lit_def detector_map_def continue_kwargs_def bind_res_def signature_def Let_def)

lemma kimi_k3_cannot_force_content:
  assumes "\<not> request_continue r" "map_of (chat_template_kwargs r) ''force_nonempty_content'' = Some (PyBool True)"
  shows "parser_init (Some (lit ''kimi_k3'')) stream force (Some r) has_tokenizer tool_active = Inl TypeError"
  using assms
  by (simp add: parser_init_def lower_def lit_def detector_map_def continue_kwargs_def bind_res_def signature_def
      template_kwargs_def Let_def)

lemma keywords_accepted:
  assumes "map_of detector_map (lower name) = Some cls" "cls \<noteq> Glm45Detector" "cls \<noteq> KimiK3Detector"
  shows "parser_init (Some name) stream force request has_tokenizer tool_active \<noteq> Inl TypeError"
proof -
  have sig: "{''stream_reasoning'', ''force_reasoning'', ''continue_final_message'', ''previous_content'', ''force_nonempty_content''}
      \<subseteq> set (signature cls)"
    using assms(2,3) by (cases cls) (simp_all add: signature_def)
  have cont: "set (map fst kw) \<subseteq> {''continue_final_message'', ''previous_content''}" if "continue_kwargs request = Inr kw" for kw
    using that by (auto simp: continue_kwargs_def split: option.splits if_splits list.splits)
  show ?thesis
  proof (cases "continue_kwargs request")
    case (Inl e)
    then have "e \<noteq> TypeError" by (auto simp: continue_kwargs_def split: option.splits list.splits if_splits)
    then show ?thesis using assms(1) Inl by (simp add: parser_init_def bind_res_def Let_def)
  next
    case (Inr kw)
    have "fst ` set (case f of None \<Rightarrow> [] | Some b \<Rightarrow> [(''force_reasoning'', PyBool b)]) \<subseteq> set (signature cls)" for f
      using sig by (cases f) auto
    then show ?thesis
      using subset_trans [OF cont [OF Inr]] sig assms(1) by (auto simp: parser_init_def bind_res_def Let_def Inr image_Un)
  qed
qed

section \<open>Streaming equals one-time parsing\<close>

lemma stream_in_reasoning:
  assumes fresh: "fresh_detector d" and apart: "tokens_apart d" and "\<not> force_nonempty_content d"
    and cut: "concat deltas = pre @ body" "pre = [] \<and> in_reasoning d \<or> pre = start_text d" "deltas \<noteq> []"
    and body: "\<not> sublist (start_text d) body" "tool_after_end d body"
  shows "stream_all deltas d = split_text d body"
  using cut(2)
proof
  assume pre: "pre = [] \<and> in_reasoning d"
  have "tracks (tool_after_end d) (split_text d) d [] [] []"
    using pre fresh apart
    by (auto simp: tracks_def inside_def fresh_detector_def keeps_Nil tokens_apart_def tool_tokens_def list_all_iff split: option.splits)
  then have "split_text d ([] @ concat deltas) = ([] @ fst (stream_all deltas d), [] @ snd (stream_all deltas d))"
    by (rule stream_tracks [OF apart]) (use assms pre in auto)
  then show ?thesis using pre cut(1) by simp
next
  assume pre: "pre = start_text d"
  have "strict_prefix (buffer d) (start_text d)"
    using fresh apart by (auto simp: fresh_detector_def tokens_apart_def start_text_def strict_prefix_def)
  then show ?thesis using fresh pre assms by (intro stream_opening) (auto simp: fresh_detector_def)
qed

lemma stream_without_reasoning:
  assumes "fresh_detector d" "tokens_apart d" "\<not> force_nonempty_content d" "\<not> in_reasoning d"
    "\<not> sublist (start_text d) (concat deltas)" "deltas \<noteq> []"
  shows "stream_all deltas d = ([], concat deltas)"
proof -
  have "tracks (\<lambda>_. True) (Pair []) d [] [] []" using assms(1,4) by (simp add: tracks_def outside_def fresh_detector_def)
  then have "([], [] @ concat deltas) = ([] @ fst (stream_all deltas d), [] @ snd (stream_all deltas d))"
    by (rule stream_tracks [OF assms(2)]) (use assms in auto)
  then show ?thesis by simp
qed

lemma one_time_split:
  assumes "\<not> force_nonempty_content d"
    and "pre = [] \<and> in_reasoning d \<or> pre = start_text d"
    and "\<not> sublist (start_text d) body" "\<not> sublist (think_end_token d) (previous_content d)"
  shows "parse_non_stream (pre @ body) d = Some (split_text d body)"
proof -
  have strip: "strip_starts (start_text d) (pre @ body) = Some body"
    using assms(2,3) strip_starts_once strip_starts_absent by (metis append_Nil prefix_imp_sublist)
  have "in_reasoning d \<or> sublist (think_start_token d) (pre @ body)"
    using assms(2) by (auto simp: start_text_def)
  then show ?thesis using detect_in_reasoning [OF _ strip assms(4)] assms(1)
    by (simp add: parse_non_stream_def detect_and_parse_def maybe_apply_force_nonempty_content_def option.map_comp comp_def)
qed

text \<open>
  C40. For every detector that inherits its operations from the base, built with any keyword
  arguments but \<open>force_nonempty_content\<close>, and for every way to cut a text into deltas, the
  reasoning and the content that the chat endpoint streams are those that the one-time parser
  returns for the whole text; in particular the one-time parser returns. The text may begin with
  the opening token and does not contain it anywhere else, a tool token does not come before a
  closing token, and a continued message has not closed its reasoning before the text opens a new
  one. The tokens of the Hunyuan detector come from its tokenizer and are assumed to be apart.
\<close>

theorem stream_equals_one_time:
  assumes "plain_detector think_open tool_calls cls kw = Some d" "\<not> force_nonempty_content d"
    and "cls = HunyuanDetector \<Longrightarrow> tokens_apart d"
    and "deltas \<noteq> []" "concat deltas = pre @ body" "pre = [] \<or> pre = start_text d"
    and "\<not> sublist (think_start_token d) body" "tool_after_end d body"
    and "pre = [] \<or> \<not> sublist (think_end_token d) (previous_content d)"
  shows "parse_non_stream (concat deltas) d = Some (stream_all deltas d)"
proof -
  have fresh: "fresh_detector d" and apart: "tokens_apart d" using assms(1,3) fresh_plain apart_plain by blast+
  have no_start: "\<not> sublist (start_text d) body"
    using assms(7) unfolding start_text_def by (meson sublist_append_rightI sublist_order.order_trans)
  show ?thesis
  proof (cases "pre = [] \<and> \<not> in_reasoning d")
    case True
    then have "parse_non_stream (concat deltas) d = Some ([], concat deltas)" using assms(2,5,7)
      by (simp add: parse_non_stream_def detect_and_parse_def detect_and_parse_impl_def maybe_apply_force_nonempty_content_def)
    then show ?thesis using stream_without_reasoning [OF fresh apart assms(2) _ _ assms(4)] True assms(5) no_start by simp
  next
    case False
    then have pre: "pre = [] \<and> in_reasoning d \<or> pre = start_text d" using assms(6) by blast
    moreover have "\<not> sublist (think_end_token d) (previous_content d)"
      using False assms(9) fresh by (auto simp: fresh_detector_def)
    ultimately show ?thesis
      using one_time_split [OF assms(2) pre no_start] stream_in_reasoning [OF fresh apart assms(2,5) pre assms(4) no_start assms(8)]
      by (simp add: assms(5))
  qed
qed

theorem stream_equals_one_time_witness:
  "parse_non_stream (lit ''<think>a < b</think>yes<tool_call>{}'') (qwen3_detector [])
     = Some (stream_all [lit ''<thi'', lit ''nk>a <'', lit '' b<'', lit ''/think>yes<tool'', lit ''_call>{}''] (qwen3_detector []))
   \<and> stream_all [lit ''<thi'', lit ''nk>a <'', lit '' b<'', lit ''/think>yes<tool'', lit ''_call>{}''] (qwen3_detector [])
     = (lit ''a < b'', lit ''yes<tool_call>{}'')"
proof -
  let ?deltas = "[lit ''<thi'', lit ''nk>a <'', lit '' b<'', lit ''/think>yes<tool'', lit ''_call>{}'']"
  have whole: "concat ?deltas = lit ''<think>a < b</think>yes<tool_call>{}''" by code_simp
  have "parse_non_stream (concat ?deltas) (qwen3_detector []) = Some (stream_all ?deltas (qwen3_detector []))"
  proof (rule stream_equals_one_time [where cls = Qwen3Detector and kw = "[]" and think_open = "[]" and tool_calls = "[]"
        and pre = "lit ''<think>''" and body = "lit ''a < b</think>yes<tool_call>{}''"])
    show "plain_detector [] [] Qwen3Detector [] = Some (qwen3_detector [])" by (simp add: plain_detector_def)
    show "concat ?deltas = lit ''<think>'' @ lit ''a < b</think>yes<tool_call>{}''" by code_simp
    show "lit ''<think>'' = [] \<or> lit ''<think>'' = start_text (qwen3_detector [])" by code_simp
    show "\<not> sublist (think_start_token (qwen3_detector [])) (lit ''a < b</think>yes<tool_call>{}'')" by code_simp
    show "tool_after_end (qwen3_detector []) (lit ''a < b</think>yes<tool_call>{}'')" by code_simp
    show "lit ''<think>'' = [] \<or> \<not> sublist (think_end_token (qwen3_detector [])) (previous_content (qwen3_detector []))" by code_simp
    show "\<not> force_nonempty_content (qwen3_detector [])" by code_simp
  qed simp_all
  moreover have "stream_all ?deltas (qwen3_detector []) = (lit ''a < b'', lit ''yes<tool_call>{}'')" by code_simp
  ultimately show ?thesis using whole by simp
qed

end
