(* ===== verification/TokenMatcher.thy ===== *)
theory TokenMatcher
  imports ReasoningProofs
begin

text \<open>
  \<open>python/sglang/srt/utils/token_sequence_matcher.py\<close>: a sequence of tokens is recognised in a stream
  by the table of its borders, and \<open>Req.update_reasoning_tokens\<close> of \<open>managers/schedule_batch.py\<close>, which
  counts the tokens of the reasoning with it.

  The loop that falls back along the table is a partial function into option, since it need not end
  for an arbitrary table; \<open>None\<close> is a loop that does not end.
\<close>

section \<open>The matcher\<close>

record token_matcher =
  pattern :: "int list"
  prefix_lengths :: "nat list"

partial_function (option) fall_back :: "int list \<Rightarrow> nat list \<Rightarrow> int \<Rightarrow> nat \<Rightarrow> nat res option" where
  [code]: "fall_back p tab token matched =
     (if matched = 0 then Some (Inr 0)
      else if length p \<le> matched then Some (Inl IndexError)
      else if token = p ! matched then Some (Inr matched)
      else if length tab < matched then Some (Inl IndexError)
      else fall_back p tab token (tab ! (matched - 1)))"

definition extend_match :: "int list \<Rightarrow> nat list \<Rightarrow> nat \<Rightarrow> int \<Rightarrow> nat res option" where
  "extend_match p tab matched token = map_option (\<lambda>r. bind_res r (\<lambda>m.
     if length p \<le> m then Inl IndexError else Inr (if token = p ! m then m + 1 else m))) (fall_back p tab token matched)"

fun build_loop :: "int list \<Rightarrow> nat list \<Rightarrow> nat list \<Rightarrow> nat \<Rightarrow> nat list res option" where
  "build_loop p [] tab matched = Some (Inr tab)"
| "build_loop p (index # rest) tab matched = (case extend_match p tab matched (p ! index) of
     None \<Rightarrow> None
   | Some (Inl e) \<Rightarrow> Some (Inl e)
   | Some (Inr m) \<Rightarrow> build_loop p rest (tab[index := m]) m)"

definition build_prefix_lengths :: "int list \<Rightarrow> nat list res option" where
  "build_prefix_lengths p = build_loop p [1..<length p] (replicate (length p) 0) 0"

definition new_matcher :: "int list \<Rightarrow> token_matcher res option" where
  "new_matcher p = (if p = [] then Some (Inl ValueError)
     else map_option (map_res (\<lambda>tab. \<lparr>pattern = p, prefix_lengths = tab\<rparr>)) (build_prefix_lengths p))"

definition matcher_len :: "token_matcher \<Rightarrow> nat" where
  "matcher_len tm = length (pattern tm)"

definition advance :: "token_matcher \<Rightarrow> nat \<Rightarrow> int \<Rightarrow> nat res option" where
  "advance tm matched token = extend_match (pattern tm) (prefix_lengths tm) matched token"

section \<open>Counting the tokens of the reasoning\<close>

text \<open>The fields of a request that the count uses; a token is given alone or as a list.\<close>

record reasoning_count =
  is_reasoning_over :: bool
  reasoning_tokens :: nat
  think_end_matcher :: "token_matcher option"
  think_end_match_len :: nat

definition new_count :: reasoning_count where
  "new_count = \<lparr>is_reasoning_over = False, reasoning_tokens = 0, think_end_matcher = None, think_end_match_len = 0\<rparr>"

definition token_list :: "int + int list \<Rightarrow> int list" where
  "token_list tid = (case tid of Inl t \<Rightarrow> [t] | Inr ts \<Rightarrow> ts)"

text \<open>The loop over the tokens: the position at which the sequence is complete, or the length matched.\<close>

fun scan_tokens :: "token_matcher \<Rightarrow> nat \<Rightarrow> nat \<Rightarrow> int list \<Rightarrow> (nat + nat) res option" where
  "scan_tokens tm matched position [] = Some (Inr (Inr matched))"
| "scan_tokens tm matched position (token # rest) = (case advance tm matched token of
     None \<Rightarrow> None
   | Some (Inl e) \<Rightarrow> Some (Inl e)
   | Some (Inr m) \<Rightarrow> if m = matcher_len tm then Some (Inr (Inl position)) else scan_tokens tm m (position + 1) rest)"

definition count_tokens :: "int list \<Rightarrow> token_matcher \<Rightarrow> 'a reasoning_count_scheme \<Rightarrow> 'a reasoning_count_scheme res option" where
  "count_tokens toks tm s = map_option (map_res (\<lambda>found. case found of
       Inl position \<Rightarrow> s\<lparr>think_end_matcher := Some tm, reasoning_tokens := reasoning_tokens s + (position + 1), is_reasoning_over := True\<rparr>
     | Inr matched \<Rightarrow> s\<lparr>think_end_matcher := Some tm, think_end_match_len := matched,
         reasoning_tokens := reasoning_tokens s + length toks\<rparr>)) (scan_tokens tm (think_end_match_len s) 0 toks)"

definition update_reasoning_tokens :: "int + int list \<Rightarrow> int list \<Rightarrow> 'a reasoning_count_scheme \<Rightarrow> 'a reasoning_count_scheme res option" where
  "update_reasoning_tokens tid think_end_ids s =
     (if is_reasoning_over s then Some (Inr s)
      else case think_end_matcher s of
        Some tm \<Rightarrow> count_tokens (token_list tid) tm s
      | None \<Rightarrow> (case new_matcher think_end_ids of
            None \<Rightarrow> None
          | Some (Inl e) \<Rightarrow> Some (Inl e)
          | Some (Inr tm) \<Rightarrow> count_tokens (token_list tid) tm s))"

text \<open>The calls for the tokens of a request, in order.\<close>

fun count_all :: "int list \<Rightarrow> (int + int list) list \<Rightarrow> 'a reasoning_count_scheme \<Rightarrow> 'a reasoning_count_scheme res option" where
  "count_all end_ids [] s = Some (Inr s)"
| "count_all end_ids (tid # rest) s = (case update_reasoning_tokens tid end_ids s of
     None \<Rightarrow> None
   | Some (Inl e) \<Rightarrow> Some (Inl e)
   | Some (Inr s') \<Rightarrow> count_all end_ids rest s')"

section \<open>The longest overlap\<close>

text \<open>\<open>overlap p xs\<close> is the length of the longest prefix of \<open>p\<close> with which \<open>xs\<close> ends.\<close>

definition overlaps :: "'a list \<Rightarrow> 'a list \<Rightarrow> nat \<Rightarrow> bool" where
  "overlaps p xs k \<longleftrightarrow> k \<le> length p \<and> suffix (take k p) xs"

definition overlap :: "'a list \<Rightarrow> 'a list \<Rightarrow> nat" where
  "overlap p xs = (GREATEST k. overlaps p xs k)"

lemma overlaps_0 [simp]: "overlaps p xs 0"
  by (simp add: overlaps_def)

lemma overlapsD: "overlaps p xs k \<Longrightarrow> k \<le> length p \<and> k \<le> length xs"
  by (auto simp: overlaps_def dest!: suffix_length_le)

lemma overlap_holds [simp]: "overlaps p xs (overlap p xs)"
  unfolding overlap_def by (rule GreatestI_nat [where k = 0 and b = "length p"]) (auto dest: overlapsD)

lemma overlap_ge: "overlaps p xs k \<Longrightarrow> k \<le> overlap p xs"
  unfolding overlap_def by (rule Greatest_le_nat [where b = "length p"]) (auto dest: overlapsD)

lemma overlap_eqI: "overlaps p xs k \<Longrightarrow> (\<And>j. overlaps p xs j \<Longrightarrow> j \<le> k) \<Longrightarrow> overlap p xs = k"
  by (rule antisym) (auto intro: overlap_ge)

lemma overlap_le: "overlap p xs \<le> length p" "overlap p xs \<le> length xs"
  using overlapsD [OF overlap_holds [of p xs]] by auto

lemma overlap_full: "overlap p xs = length p \<longleftrightarrow> suffix p xs"
proof
  assume "suffix p xs"
  then have "length p \<le> overlap p xs" by (intro overlap_ge) (simp add: overlaps_def)
  then show "overlap p xs = length p" using overlap_le(1) [of p xs] by simp
qed (use overlap_holds [of p xs] in \<open>simp add: overlaps_def\<close>)

lemma overlaps_snoc: "overlaps p (xs @ [t]) (Suc k) \<longleftrightarrow> overlaps p xs k \<and> k < length p \<and> p ! k = t"
  by (auto simp: overlaps_def take_Suc_conv_app_nth)

text \<open>The overlaps below an overlap \<open>m\<close> are those of the proper suffixes of the prefix of length \<open>m\<close>.\<close>

lemma overlaps_below:
  assumes "overlaps p xs m" "k < m"
  shows "overlaps p xs k \<longleftrightarrow> overlaps p (tl (take m p)) k"
proof -
  have m: "suffix (take m p) xs" "m \<le> length p" using assms(1) by (auto simp: overlaps_def)
  have "suffix (take k p) xs \<longleftrightarrow> suffix (take k p) (take m p)"
    using m assms(2) by (auto intro: suffix_order.trans dest: suffix_length_suffix)
  also have "\<dots> \<longleftrightarrow> suffix (take k p) (tl (take m p))"
  proof -
    have "take k p \<noteq> take m p" using m(2) assms(2) by (auto dest: arg_cong [where f = length])
    then show ?thesis by (cases "take m p") (auto simp: suffix_Cons)
  qed
  finally show ?thesis using assms(2) m(2) by (auto simp: overlaps_def)
qed

section \<open>The table and the matcher are right\<close>

definition borders_upto :: "int list \<Rightarrow> nat list \<Rightarrow> nat \<Rightarrow> bool" where
  "borders_upto p tab n \<longleftrightarrow> (\<forall>j<n. j < length tab \<and> tab ! j = overlap p (tl (take (Suc j) p)))"

lemma fall_back_correct:
  assumes "borders_upto p tab m" "overlaps p xs m" "m < length p"
    "\<forall>k. overlaps p xs k \<and> m < k \<and> k < length p \<longrightarrow> p ! k \<noteq> t"
  shows "\<exists>m'. fall_back p tab t m = Some (Inr m') \<and> overlaps p xs m' \<and> m' < length p \<and> (m' = 0 \<or> p ! m' = t) \<and>
    (\<forall>k. overlaps p xs k \<and> m' < k \<and> k < length p \<longrightarrow> p ! k \<noteq> t)"
  using assms
proof (induction m rule: less_induct)
  case (less m)
  show ?case
  proof (cases "m = 0 \<or> t = p ! m")
    case True
    then show ?thesis using less.prems by (intro exI [of _ m]) (auto simp: fall_back.simps [of p tab t m])
  next
    case False
    define b where "b = overlap p (tl (take m p))"
    have m: "0 < m" "m \<le> length tab" "tab ! (m - 1) = b" using False less.prems(1)
      by (auto simp: borders_upto_def b_def dest!: spec [of _ "m - 1"])
    have b: "b < m" using overlap_le(2) [of p "tl (take m p)"] m(1) less.prems(3) by (simp add: b_def)
    have "overlaps p xs b" using overlaps_below [OF less.prems(2) b] by (simp add: b_def)
    moreover have "p ! k \<noteq> t" if "overlaps p xs k" "b < k" "k < length p" for k
    proof (cases "k < m")
      case True
      then have "k \<le> b" using overlaps_below [OF less.prems(2) True] that(1) by (simp add: b_def overlap_ge)
      then show ?thesis using that(2) by simp
    next
      case nb: False
      then show ?thesis using less.prems(4) that False by (cases "k = m") auto
    qed
    moreover have "borders_upto p tab b" using less.prems(1) b by (auto simp: borders_upto_def)
    moreover have "fall_back p tab t m = fall_back p tab t b"
      using False m less.prems(3) by (subst fall_back.simps) (simp add: not_less)
    ultimately show ?thesis using less.IH [OF b] b less.prems(3) by simp
  qed
qed

lemma extend_match_correct:
  assumes "borders_upto p tab (overlap p xs)" "overlap p xs < length p"
  shows "extend_match p tab (overlap p xs) t = Some (Inr (overlap p (xs @ [t])))"
proof -
  have "\<forall>k. overlaps p xs k \<and> overlap p xs < k \<and> k < length p \<longrightarrow> p ! k \<noteq> t" by (auto dest: overlap_ge)
  from fall_back_correct [OF assms(1) overlap_holds assms(2) this] obtain m where
    m: "fall_back p tab t (overlap p xs) = Some (Inr m)" "overlaps p xs m" "m < length p" "m = 0 \<or> p ! m = t"
    "\<And>k. overlaps p xs k \<Longrightarrow> m < k \<Longrightarrow> k < length p \<Longrightarrow> p ! k \<noteq> t" by blast
  have below: "j \<le> Suc m \<and> (p ! m \<noteq> t \<longrightarrow> j = 0)" if "overlaps p (xs @ [t]) j" for j
  proof (cases j)
    case (Suc k)
    then have "overlaps p xs k" "k < length p" "p ! k = t" using that by (auto simp: overlaps_snoc)
    then have "k \<le> m" using m(5) not_le by blast
    then show ?thesis using Suc m(4) \<open>p ! k = t\<close> by auto
  qed simp
  have "overlap p (xs @ [t]) = (if t = p ! m then m + 1 else m)"
    by (rule overlap_eqI) (use below m overlaps_snoc [of p xs t m] in auto)
  then show ?thesis using m(1,3) by (simp add: extend_match_def bind_res_def)
qed

lemma build_loop_correct:
  assumes "0 < i" "i \<le> length p" "length tab = length p" "borders_upto p tab i" "m = overlap p (tl (take i p))"
  shows "\<exists>tab'. build_loop p [i..<length p] tab m = Some (Inr tab') \<and> length tab' = length p \<and> borders_upto p tab' (length p)"
  using assms
proof (induction "length p - i" arbitrary: i tab m)
  case 0
  then show ?case by simp
next
  case (Suc n)
  then have i: "i < length p" "[i..<length p] = i # [Suc i..<length p]" by (auto simp: upt_conv_Cons)
  have m: "m < i" using overlap_le(2) [of p "tl (take i p)"] Suc.prems(1,2,5) by simp
  have next_take: "tl (take i p) @ [p ! i] = tl (take (Suc i) p)"
    using i(1) Suc.prems(1) by (auto simp: take_Suc_conv_app_nth tl_append split: list.splits)
  have step: "extend_match p tab m (p ! i) = Some (Inr (overlap p (tl (take (Suc i) p))))"
    unfolding Suc.prems(5) next_take [symmetric]
    by (rule extend_match_correct) (use Suc.prems m i in \<open>auto simp: borders_upto_def\<close>)
  have "borders_upto p (tab[i := overlap p (tl (take (Suc i) p))]) (Suc i)"
    using Suc.prems(3,4) i(1) by (auto simp: borders_upto_def less_Suc_eq)
  then show ?case using Suc.hyps(1) [of "Suc i"] Suc.hyps(2) Suc.prems(3) i by (simp add: step)
qed

definition matcher_ok :: "token_matcher \<Rightarrow> int list \<Rightarrow> bool" where
  "matcher_ok tm p \<longleftrightarrow> pattern tm = p \<and> p \<noteq> [] \<and> borders_upto p (prefix_lengths tm) (length p)"

lemma new_matcher_ok:
  assumes "p \<noteq> []"
  shows "\<exists>tm. new_matcher p = Some (Inr tm) \<and> matcher_ok tm p"
proof -
  have one: "tl (take 1 p) = []" using assms by (cases p) auto
  have zero: "overlap p [] = 0" using overlap_le(2) [of p "[]"] by simp
  have "borders_upto p (replicate (length p) 0) 1" using assms one zero by (auto simp: borders_upto_def)
  then obtain tab where "build_prefix_lengths p = Some (Inr tab)" "borders_upto p tab (length p)"
    using build_loop_correct [of 1 p "replicate (length p) 0" 0] assms one zero by (auto simp: build_prefix_lengths_def Suc_le_eq)
  then show ?thesis using assms by (auto simp: new_matcher_def matcher_ok_def map_res_def)
qed

lemma advance_correct:
  assumes "matcher_ok tm p" "overlap p xs < length p"
  shows "advance tm (overlap p xs) t = Some (Inr (overlap p (xs @ [t])))"
  using assms extend_match_correct [of p "prefix_lengths tm" xs t] by (auto simp: matcher_ok_def advance_def borders_upto_def)

section \<open>Scanning a stream\<close>

lemma sublist_snoc_iff: "sublist p (xs @ [t]) \<longleftrightarrow> sublist p xs \<or> suffix p (xs @ [t])"
  using sublist_Cons_right [of "rev p" t "rev xs"] by (auto simp: suffix_to_prefix simp flip: sublist_rev_right)

lemma overlap_less: "p \<noteq> [] \<Longrightarrow> \<not> sublist p xs \<Longrightarrow> overlap p xs < length p"
  using overlap_le(1) [of p xs] overlap_full [of p xs] by (auto dest: suffix_imp_sublist simp: less_le)

lemma find_sub_inside:
  assumes "find_sub p (xs @ ys) = Some i" "i + length p \<le> length xs"
  shows "sublist p xs"
proof -
  have "prefix (drop i xs) (drop i (xs @ ys))" by simp
  then have "prefix p (drop i xs)"
    using assms(2) by (intro prefix_length_prefix [OF find_sub_prefix [OF assms(1)]]) auto
  then show ?thesis by (meson prefix_imp_sublist sublist_drop sublist_order.order_trans)
qed

lemma find_sub_at_end:
  assumes "\<not> sublist p xs" "find_sub p (xs @ [t]) = Some i"
  shows "i + length p = Suc (length xs)"
  using find_sub_SomeD [OF assms(2)] find_sub_inside [OF assms(2)] assms(1) by force

lemma scan_tokens_correct:
  assumes "matcher_ok tm p" "\<not> sublist p xs"
  shows "scan_tokens tm (overlap p xs) position ts = Some (Inr (case find_sub p (xs @ ts) of
      None \<Rightarrow> Inr (overlap p (xs @ ts)) | Some i \<Rightarrow> Inl (position + (i + length p) - Suc (length xs))))"
  using assms(2)
proof (induction ts arbitrary: xs position)
  case Nil
  then show ?case by (simp add: find_sub_None [THEN iffD2])
next
  case (Cons t ts)
  have p: "p \<noteq> []" "matcher_len tm = length p" using assms(1) by (auto simp: matcher_ok_def matcher_len_def)
  have step: "advance tm (overlap p xs) t = Some (Inr (overlap p (xs @ [t])))"
    using advance_correct [OF assms(1) overlap_less] p(1) Cons.prems by blast
  show ?case
  proof (cases "sublist p (xs @ [t])")
    case True
    then obtain i where i: "find_sub p (xs @ [t]) = Some i" using find_sub_None by (cases "find_sub p (xs @ [t])") auto
    have "overlap p (xs @ [t]) = length p" using True Cons.prems by (simp add: sublist_snoc_iff overlap_full)
    moreover have "find_sub p (xs @ t # ts) = Some i" using find_sub_append [OF i, of ts] by simp
    ultimately show ?thesis using find_sub_at_end [OF Cons.prems i] by (simp add: step p)
  next
    case False
    then have "overlap p (xs @ [t]) \<noteq> length p" using overlap_less [OF p(1)] by fastforce
    then show ?thesis using Cons.IH [OF False, of "position + 1"] by (simp add: step p split: option.splits)
  qed
qed

section \<open>Counting over the calls of a request\<close>

text \<open>What has been counted after the tokens \<open>xs\<close>.\<close>

definition reasoning_len :: "int list \<Rightarrow> int list \<Rightarrow> nat" where
  "reasoning_len end_ids xs = (case find_sub end_ids xs of None \<Rightarrow> length xs | Some i \<Rightarrow> i + length end_ids)"

definition counted :: "int list \<Rightarrow> int list \<Rightarrow> 'a reasoning_count_scheme \<Rightarrow> bool" where
  "counted end_ids xs s \<longleftrightarrow> reasoning_tokens s = reasoning_len end_ids xs \<and> (is_reasoning_over s \<longleftrightarrow> sublist end_ids xs) \<and>
     (\<not> is_reasoning_over s \<longrightarrow> think_end_match_len s = overlap end_ids xs \<and>
        (case think_end_matcher s of None \<Rightarrow> True | Some tm \<Rightarrow> matcher_ok tm end_ids))"

lemma reasoning_len_append: "sublist p xs \<Longrightarrow> reasoning_len p (xs @ ys) = reasoning_len p xs"
  using find_sub_append [of p xs _ ys] find_sub_None [of p xs] by (auto simp: reasoning_len_def split: option.splits)

lemma count_tokens_counted:
  assumes "matcher_ok tm p" "counted p xs s" "\<not> is_reasoning_over s"
  shows "\<exists>s'. count_tokens ts tm s = Some (Inr s') \<and> counted p (xs @ ts) s'"
proof -
  have s: "\<not> sublist p xs" "think_end_match_len s = overlap p xs" "reasoning_tokens s = length xs"
    using assms(2,3) find_sub_None [of p xs] by (auto simp: counted_def reasoning_len_def)
  show ?thesis
  proof (cases "find_sub p (xs @ ts)")
    case None
    then have "\<not> sublist p (xs @ ts)" by (simp add: find_sub_None)
    then show ?thesis using None assms scan_tokens_correct [OF assms(1) s(1), of 0 ts] s
      by (simp add: count_tokens_def counted_def reasoning_len_def map_res_def)
  next
    case (Some i)
    have "sublist p (xs @ ts)" using Some find_sub_None [of p "xs @ ts"] by auto
    moreover have "length xs < i + length p" using find_sub_inside [OF Some] s(1) by (meson not_le)
    ultimately show ?thesis using Some assms scan_tokens_correct [OF assms(1) s(1), of 0 ts] s
      by (simp add: count_tokens_def counted_def reasoning_len_def map_res_def)
  qed
qed

lemma update_reasoning_counted:
  assumes "p \<noteq> []" "counted p xs s"
  shows "\<exists>s'. update_reasoning_tokens tid p s = Some (Inr s') \<and> counted p (xs @ token_list tid) s'"
proof (cases "is_reasoning_over s")
  case True
  then have "sublist p xs" using assms(2) by (simp add: counted_def)
  then show ?thesis using True assms(2)
    by (auto simp: update_reasoning_tokens_def counted_def reasoning_len_append intro: sublist_appendI sublist_order.order_trans)
next
  case False
  show ?thesis
  proof (cases "think_end_matcher s")
    case None
    then show ?thesis using new_matcher_ok [OF assms(1)] count_tokens_counted [OF _ assms(2) False] False
      by (auto simp: update_reasoning_tokens_def)
  next
    case (Some tm)
    then have "matcher_ok tm p" using assms(2) False by (simp add: counted_def)
    then show ?thesis using Some count_tokens_counted [OF _ assms(2) False] False by (auto simp: update_reasoning_tokens_def)
  qed
qed

lemma count_all_counted:
  assumes "p \<noteq> []" "counted p xs s"
  shows "\<exists>s'. count_all p tids s = Some (Inr s') \<and> counted p (xs @ concat (map token_list tids)) s'"
  using assms(2)
proof (induction tids arbitrary: xs s)
  case (Cons tid tids)
  from update_reasoning_counted [OF assms(1) Cons.prems] obtain s' where
    s': "update_reasoning_tokens tid p s = Some (Inr s')" "counted p (xs @ token_list tid) s'" by blast
  then show ?case using Cons.IH [OF s'(2)] by simp
qed simp

lemma counted_new: "p \<noteq> [] \<Longrightarrow> counted p [] new_count"
  using overlap_le(2) [of p "[]"] find_sub_None [of p "[]"] by (auto simp: counted_def new_count_def reasoning_len_def)

end
