(* ===== verification/VocabMask.thy ===== *)
theory VocabMask
  imports Prelude "HOL-Library.Word" "HOL-Library.Signed_Division"
begin

unbundle bit_operations_syntax

text \<open>
  The bit masks over the vocabulary by which constrained decoding forbids tokens. A row holds 32
  tokens per 32 bit word. \<open>constrained/torch_ops/token_filter_torch_ops.py\<close> sets or clears the bits of
  a list of tokens with tensor operations, \<open>python/sglang/kernels/ops/grammar/token_filter_ops.py\<close> with
  Triton kernels, and \<open>bitmask_ops.py\<close> beside it applies a mask to the logits.

  A launch runs its programs concurrently. The kernels do one memory operation per work item, so a
  run of a launch is an order of the work items of all its programs; every order that has them all is
  allowed. An access outside the tensor, which is undefined on the device, is an error here.
\<close>

section \<open>Tensor operations\<close>

type_synonym mask = "32 word list list"

definition add_bit :: "(int \<times> int) list \<Rightarrow> int \<Rightarrow> (int \<times> int) list" where
  "add_bit d token_id = (let element_idx = token_id div 32; bit_idx = nat (token_id mod 32) in
     AList.update element_idx ((case map_of d element_idx of None \<Rightarrow> 0 | Some m \<Rightarrow> m) OR push_bit bit_idx 1) d)"

definition aggregated :: "int list \<Rightarrow> (int \<times> int) list" where
  "aggregated token_ids = foldl add_bit [] token_ids"

text \<open>Indexing a tensor with a tensor: negative indices count from the end.\<close>

fun tensor_index :: "nat \<Rightarrow> int list \<Rightarrow> nat list res" where
  "tensor_index n [] = Inr []"
| "tensor_index n (e # es) =
     (if - int n \<le> e \<and> e < int n then map_res ((#) (nat (if e < 0 then e + int n else e))) (tensor_index n es)
      else Inl IndexError)"

definition put_at :: "'v list \<Rightarrow> nat list \<Rightarrow> 'v list \<Rightarrow> 'v list" where
  "put_at row idx vs = fold (\<lambda>(i, v) r. r[i := v]) (zip idx vs) row"

definition set_token_filter_torch :: "mask \<Rightarrow> int list \<Rightarrow> nat \<Rightarrow> bool \<Rightarrow> bool \<Rightarrow> mask res" where
  "set_token_filter_torch vocab_mask token_ids batch_idx is_allowed reset =
     bind_res (if reset then
         (if batch_idx < length vocab_mask
          then Inr (vocab_mask[batch_idx := replicate (length (vocab_mask ! batch_idx)) (if \<not> is_allowed then - 1 else 0)])
          else Inl IndexError)
       else Inr vocab_mask) (\<lambda>vm.
     if token_ids = [] then Inr vm
     else if length vm \<le> batch_idx then Inl IndexError
     else
       (let row = vm ! batch_idx; agg = aggregated token_ids;
            bitmasks = map (\<lambda>m. word_of_int (if is_allowed then m else NOT m)) (map snd agg)
        in bind_res (tensor_index (length row) (map fst agg)) (\<lambda>idx.
          Inr (vm[batch_idx := put_at row idx
            (map2 (if is_allowed then (OR) else (AND)) (map ((!) row) idx) bitmasks)]))))"

section \<open>Kernels\<close>

text \<open>\<open>tl.range(pid, n, step)\<close>, and the orders in which a launch of \<open>programs\<close> programs executes its items.\<close>

definition stride_range :: "nat \<Rightarrow> nat \<Rightarrow> nat \<Rightarrow> nat list" where
  "stride_range pid n step = map (\<lambda>k. pid + k * step) [0..<(n - pid + step - 1) div step]"

definition launch_order :: "nat \<Rightarrow> nat \<Rightarrow> nat \<Rightarrow> nat list \<Rightarrow> bool" where
  "launch_order programs n step order \<longleftrightarrow>
     mset order = mset (concat (map (\<lambda>pid. stride_range pid n step) [0..<programs]))"

primrec run_items :: "('i \<Rightarrow> 'm \<Rightarrow> 'm res) \<Rightarrow> 'i list \<Rightarrow> 'm \<Rightarrow> 'm res" where
  "run_items f [] m = Inr m"
| "run_items f (i # is) m = bind_res (f i m) (run_items f is)"

definition at_offset :: "int \<Rightarrow> ('v \<Rightarrow> 'v) \<Rightarrow> 'v list \<Rightarrow> 'v list res" where
  "at_offset off f mem = (if 0 \<le> off \<and> off < int (length mem) then Inr (mem[nat off := f (mem ! nat off)]) else Inl IndexError)"

definition reset_vocab_mask_kernel :: "nat \<Rightarrow> nat \<Rightarrow> 32 word \<Rightarrow> nat \<Rightarrow> 32 word list \<Rightarrow> 32 word list res" where
  "reset_vocab_mask_kernel batch_idx num_elements reset_value i mem =
     at_offset (int (batch_idx * num_elements + i)) (\<lambda>_. reset_value) mem"

text \<open>Division of 32 bit integers truncates in a kernel, and a shift by a negative number is undefined.\<close>

definition set_token_filter_batch_kernel ::
    "int list \<Rightarrow> nat \<Rightarrow> nat \<Rightarrow> bool \<Rightarrow> nat \<Rightarrow> 32 word list \<Rightarrow> 32 word list res" where
  "set_token_filter_batch_kernel token_ids batch_idx num_elements is_allowed i mem =
     (if length token_ids \<le> i then Inl IndexError
      else
        (let token_id = token_ids ! i; element_idx = token_id sdiv 32; bit_idx = token_id smod 32;
             offset = int (batch_idx * num_elements) + element_idx
         in if bit_idx < 0 then Inl RuntimeError
            else at_offset offset (\<lambda>w. if is_allowed then w OR push_bit (nat bit_idx) 1
                                        else w AND NOT (push_bit (nat bit_idx) 1)) mem))"

definition compute_grid :: "nat \<Rightarrow> nat \<Rightarrow> nat" where
  "compute_grid num_sms work_items = (if 0 < num_sms then min num_sms work_items else work_items)"

text \<open>The tensors of recent lists of tokens, the least recently used first.\<close>

type_synonym ids_cache = "((nat \<times> int list) \<times> int list) list"

definition get_cached_token_ids_tensor :: "int list \<Rightarrow> nat \<Rightarrow> ids_cache \<Rightarrow> int list \<times> ids_cache" where
  "get_cached_token_ids_tensor token_ids device cached =
     (let key = (device, token_ids) in
      case map_of cached key of
        Some tensor \<Rightarrow> (tensor, AList.delete key cached @ [(key, tensor)])
      | None \<Rightarrow> (let cached' = cached @ [(key, token_ids)] in (token_ids, if 32 < length cached' then tl cached' else cached')))"

text \<open>The mask is a contiguous tensor \<open>mem\<close> with rows of \<open>num_elements\<close>; \<open>resets\<close> and \<open>order\<close> are the orders
  in which the two launches execute their items.\<close>

definition set_token_filter_triton ::
    "nat \<Rightarrow> nat list \<Rightarrow> nat list \<Rightarrow> nat \<Rightarrow> nat \<Rightarrow> int list \<Rightarrow> nat \<Rightarrow> bool \<Rightarrow> bool \<Rightarrow> ids_cache \<Rightarrow> 32 word list \<Rightarrow> (32 word list \<times> ids_cache) res" where
  "set_token_filter_triton num_sms resets order device num_elements token_ids batch_idx is_allowed reset cached mem =
     bind_res (if reset then run_items (reset_vocab_mask_kernel batch_idx num_elements (if is_allowed then 0 else - 1)) resets mem
       else Inr mem) (\<lambda>mem.
     if token_ids = [] then Inr (mem, cached)
     else
       (let (tensor, cached') = get_cached_token_ids_tensor token_ids device cached
        in map_res (\<lambda>mem'. (mem', cached')) (run_items (set_token_filter_batch_kernel tensor batch_idx num_elements is_allowed) order mem)))"

section \<open>Applying a mask\<close>

text \<open>One work item of the kernel is a block of tokens of a row; \<open>ninf\<close> is minus infinity. Words behind the
  end of a row are not used, since only tokens of the vocabulary are stored.\<close>

definition apply_token :: "32 word list \<Rightarrow> nat \<Rightarrow> nat \<Rightarrow> nat \<Rightarrow> 'l \<Rightarrow> nat \<Rightarrow> nat \<Rightarrow> 'l list \<Rightarrow> 'l list res" where
  "apply_token bitmask vocab_size logits_strides bitmask_strides ninf batch_id off logits =
     (let word = batch_id * bitmask_strides + off div 32 in
      if vocab_size \<le> off then Inr logits
      else if length bitmask \<le> word then Inl IndexError
      else if bit (bitmask ! word) (off mod 32) then Inr logits
      else at_offset (int (batch_id * logits_strides + off)) (\<lambda>_. ninf) logits)"

definition cdiv :: "nat \<Rightarrow> nat \<Rightarrow> nat" where
  "cdiv a b = (a + b - 1) div b"

definition apply_token_bitmask_inplace_kernel ::
    "nat \<Rightarrow> 32 word list \<Rightarrow> nat list option \<Rightarrow> nat \<Rightarrow> nat \<Rightarrow> nat \<Rightarrow> 'l \<Rightarrow> nat \<Rightarrow> 'l list \<Rightarrow> 'l list res" where
  "apply_token_bitmask_inplace_kernel block bitmask indices vocab_size logits_strides bitmask_strides ninf work_id logits =
     (let num_blocks = cdiv vocab_size block; row_id = work_id div num_blocks; block_offset = (work_id mod num_blocks) * block
      in bind_res (case indices of None \<Rightarrow> Inr row_id
             | Some idx \<Rightarrow> if row_id < length idx then Inr (idx ! row_id) else Inl IndexError) (\<lambda>batch_id.
           run_items (apply_token bitmask vocab_size logits_strides bitmask_strides ninf batch_id)
             [block_offset..<block_offset + block] logits))"

definition next_power_of_2 :: "nat \<Rightarrow> nat" where
  "next_power_of_2 n = 2 ^ length (takeWhile (\<lambda>k. 2 ^ k < n) [0..<n])"

text \<open>The programs of the launch and the stride of each.\<close>

definition bitmask_grid :: "nat \<Rightarrow> nat \<Rightarrow> nat \<times> nat" where
  "bitmask_grid num_sms items = (if 0 < num_sms then (num_sms, num_sms) else (items, next_power_of_2 items))"

definition apply_token_bitmask_inplace_triton ::
    "nat list \<Rightarrow> 'l \<Rightarrow> nat list option \<Rightarrow> nat \<times> nat \<Rightarrow> nat \<times> nat \<Rightarrow> 32 word list \<Rightarrow> 'l list \<Rightarrow> 'l list res" where
  "apply_token_bitmask_inplace_triton order ninf indices logits_shape bitmask_shape bitmask logits =
     (let required_bitmask_width = (snd logits_shape + 32 - 1) div 32 in
      if required_bitmask_width < snd bitmask_shape then Inl AssertionError
      else
        (let vocab_size = min (snd logits_shape) (snd bitmask_shape * 32)
         in if indices = None \<and> fst logits_shape \<noteq> fst bitmask_shape then Inl AssertionError
            else run_items (apply_token_bitmask_inplace_kernel 4096 bitmask indices vocab_size (snd logits_shape) (snd bitmask_shape) ninf)
              order logits))"

definition bitmask_items :: "nat list option \<Rightarrow> nat \<times> nat \<Rightarrow> nat \<times> nat \<Rightarrow> nat" where
  "bitmask_items indices logits_shape bitmask_shape =
     (case indices of None \<Rightarrow> fst logits_shape | Some idx \<Rightarrow> length idx) * cdiv (min (snd logits_shape) (snd bitmask_shape * 32)) 4096"

section \<open>Launches\<close>

lemma set_stride_range:
  assumes "pid < step"
  shows "set (stride_range pid n step) = {x. x < n \<and> x mod step = pid}"
proof (intro set_eqI iffI)
  fix x assume "x \<in> set (stride_range pid n step)"
  then obtain k where k: "k < (n - pid + step - 1) div step" "x = pid + k * step" by (auto simp: stride_range_def)
  then have "(k + 1) * step \<le> n - pid + step - 1" using assms by (metis Suc_eq_plus1 Suc_leI dividend_less_times_div le_trans less_nat_zero_code mult.commute mult_le_mono1 times_div_less_eq_dividend zero_less_iff_neq_zero)
  then show "x \<in> {x. x < n \<and> x mod step = pid}" using k assms by auto
next
  fix x assume x: "x \<in> {x. x < n \<and> x mod step = pid}"
  have "x div step * step + pid < n" using x div_mult_mod_eq [of x step] by simp
  then have "x div step * step + 1 \<le> n - pid" by simp
  then have "x div step * step + step \<le> n - pid + step - 1" by simp
  then have "x div step + 1 \<le> (n - pid + step - 1) div step" using assms by (simp add: less_eq_div_iff_mult_less_eq algebra_simps)
  then show "x \<in> set (stride_range pid n step)"
    using x by (auto simp: stride_range_def image_iff intro!: bexI [of _ "x div step"])
qed

lemma launch_order_all:
  assumes "launch_order programs n step order"
    "programs = step \<and> (n = 0 \<or> 0 < step) \<or> n \<le> programs \<and> programs \<le> step"
  shows "set order = {0..<n}"
proof -
  have "set order = set (concat (map (\<lambda>pid. stride_range pid n step) [0..<programs]))"
    using assms(1) mset_eq_setD unfolding launch_order_def by metis
  also have "\<dots> = {0..<n}"
  proof (intro set_eqI iffI)
    fix x assume "x \<in> {0..<n}"
    then have x: "x < n" by simp
    then have "x mod step < programs" using assms(2)
      by (cases "programs = step") (auto intro: le_less_trans [OF mod_less_eq_dividend])
    moreover have "x \<in> set (stride_range (x mod step) n step)"
      using x calculation assms(2) by (subst set_stride_range) auto
    ultimately show "x \<in> set (concat (map (\<lambda>pid. stride_range pid n step) [0..<programs]))"
      unfolding set_concat set_map by (intro UnionI [OF imageI [OF imageI]]) auto
  qed (use assms(2) in \<open>auto simp: set_stride_range\<close>)
  finally show ?thesis .
qed

lemma run_items_hits:
  assumes "P m" and step: "\<And>i m. i \<in> set items \<Longrightarrow> P m \<Longrightarrow>
      \<exists>m'. f i m = Inr m' \<and> P m' \<and> (\<forall>x\<in>X. obs m' x = (if hit i x then v else obs m x))"
  shows "\<exists>m'. run_items f items m = Inr m' \<and> P m' \<and> (\<forall>x\<in>X. obs m' x = (if \<exists>i\<in>set items. hit i x then v else obs m x))"
  using assms
proof (induction items arbitrary: m)
  case (Cons i items)
  from Cons.prems(2) [of i m] Cons.prems(1) obtain m1 where
    m1: "f i m = Inr m1" "P m1" "\<forall>x\<in>X. obs m1 x = (if hit i x then v else obs m x)" by auto
  from Cons.IH [OF m1(2)] Cons.prems(2) obtain m2 where
    "run_items f items m1 = Inr m2" "P m2" "\<forall>x\<in>X. obs m2 x = (if \<exists>i\<in>set items. hit i x then v else obs m1 x)" by fastforce
  then show ?case using m1 by auto
qed simp

lemma at_offset_ok:
  assumes "off < length mem"
  shows "at_offset (int off) f mem = Inr (mem[off := f (mem ! off)])"
  using assms by (simp add: at_offset_def)

section \<open>The filter in kernels\<close>

text \<open>A word of the mask and a bit of it.\<close>

definition mask_bit :: "32 word list \<Rightarrow> nat \<times> nat \<Rightarrow> bool" where
  "mask_bit mem x = bit (mem ! fst x) (snd x)"

abbreviation bit_places :: "nat \<Rightarrow> (nat \<times> nat) set" where
  "bit_places n \<equiv> {0..<n} \<times> {0..<32}"

lemma reset_kernel_bits:
  assumes "batch_idx * n + i < L" "length mem = L"
  shows "\<exists>mem'. reset_vocab_mask_kernel batch_idx n (if allowed then 0 else - 1) i mem = Inr mem' \<and> length mem' = L \<and>
    (\<forall>x\<in>bit_places L. mask_bit mem' x = (if fst x = batch_idx * n + i then \<not> allowed else mask_bit mem x))"
  using assms at_offset_ok [of "batch_idx * n + i" mem]
  by (auto simp: reset_vocab_mask_kernel_def mask_bit_def nth_list_update)

lemma nat_token:
  assumes "0 \<le> (t :: int)"
  shows "t sdiv 32 = t div 32" "t smod 32 = t mod 32" "0 \<le> t div 32" "0 \<le> t mod 32"
  using assms by (auto simp: signed_divide_int_def signed_modulo_int_def sgn_if)

lemma filter_kernel_bits:
  assumes "i < length toks" "0 \<le> toks ! i" "toks ! i < 32 * int n" "(batch_idx + 1) * n \<le> L" "length mem = L"
  shows "\<exists>mem'. set_token_filter_batch_kernel toks batch_idx n allowed i mem = Inr mem' \<and> length mem' = L \<and>
    (\<forall>x\<in>bit_places L. mask_bit mem' x =
       (if fst x = batch_idx * n + nat (toks ! i div 32) \<and> snd x = nat (toks ! i mod 32) then allowed else mask_bit mem x))"
proof -
  define e where "e = nat (toks ! i div 32)"
  define b where "b = nat (toks ! i mod 32)"
  have e: "toks ! i div 32 = int e" "toks ! i mod 32 = int b" using assms(2) by (auto simp: e_def b_def nat_token)
  have "e < n" using assms(2,3) by (auto simp: e_def nat_less_iff nat_token)
  then have off: "batch_idx * n + e < L" using assms(4) by (simp add: algebra_simps)
  have "b < 32" using assms(2) by (simp add: b_def nat_less_iff)
  then show ?thesis
    using assms(1,5) off nat_token [OF assms(2)] at_offset_ok [of "batch_idx * n + e" mem]
    by (auto simp: set_token_filter_batch_kernel_def Let_def e mask_bit_def nth_list_update bit_simps)
qed

definition cache_ok :: "ids_cache \<Rightarrow> bool" where
  "cache_ok cached \<longleftrightarrow> (\<forall>((device, ids), tensor) \<in> set cached. tensor = ids) \<and> length cached \<le> 32"

lemma cached_ids:
  assumes "cache_ok cached"
  shows "\<exists>cached'. get_cached_token_ids_tensor toks device cached = (toks, cached') \<and> cache_ok cached'"
proof (cases "map_of cached (device, toks)")
  case None
  then show ?thesis using assms
    by (cases cached) (auto simp: get_cached_token_ids_tensor_def cache_ok_def Let_def)
next
  case (Some tensor)
  have "length (AList.delete (device, toks) cached) < length cached"
    unfolding AList.delete_eq by (rule length_filter_less [OF map_of_SomeD [OF Some]]) simp
  moreover have "tensor = toks" using map_of_SomeD [OF Some] assms by (auto simp: cache_ok_def)
  ultimately show ?thesis using Some assms by (auto simp: get_cached_token_ids_tensor_def cache_ok_def set_delete Let_def)
qed

text \<open>The bit of token \<open>t\<close> after filtering a row.\<close>

definition filtered :: "int list \<Rightarrow> bool \<Rightarrow> bool \<Rightarrow> 32 word list \<Rightarrow> nat \<times> nat \<Rightarrow> bool" where
  "filtered toks allowed reset row x \<longleftrightarrow>
     (if 32 * int (fst x) + int (snd x) \<in> set toks then allowed else if reset then \<not> allowed else mask_bit row x)"

lemma token_place:
  assumes "0 \<le> t" "b < 32"
  shows "e = nat (t div 32) \<and> b = nat (t mod 32) \<longleftrightarrow> 32 * int e + int b = t"
  using assms by (auto simp: nat_token)

lemma grid_all: "launch_order (compute_grid num_sms n) n (compute_grid num_sms n) order \<Longrightarrow> set order = {0..<n}"
  by (rule launch_order_all) (auto simp: compute_grid_def split: if_splits)

lemma reset_phase:
  assumes "length mem = L" "(batch_idx + 1) * n \<le> L" "set resets = {0..<n}"
  shows "\<exists>mem'. (if reset then run_items (reset_vocab_mask_kernel batch_idx n (if allowed then 0 else - 1)) resets mem else Inr mem) = Inr mem' \<and>
    length mem' = L \<and> (\<forall>x\<in>bit_places L. mask_bit mem' x =
       (if reset \<and> batch_idx * n \<le> fst x \<and> fst x < (batch_idx + 1) * n then \<not> allowed else mask_bit mem x))"
proof (cases reset)
  case True
  have "\<exists>mem'. run_items (reset_vocab_mask_kernel batch_idx n (if allowed then 0 else - 1)) resets mem = Inr mem' \<and> length mem' = L \<and>
    (\<forall>x\<in>bit_places L. mask_bit mem' x = (if \<exists>i\<in>set resets. fst x = batch_idx * n + i then \<not> allowed else mask_bit mem x))"
  proof (rule run_items_hits [where P = "\<lambda>m. length m = L" and obs = mask_bit and hit = "\<lambda>i x. fst x = batch_idx * n + i", OF assms(1)])
    fix i and m :: "32 word list" assume i: "i \<in> set resets" and m: "length m = L"
    have "i < n" using i assms(3) by simp
    then have "batch_idx * n + i < L" using assms(2) by simp
    from reset_kernel_bits [OF this m] show "\<exists>m'. reset_vocab_mask_kernel batch_idx n (if allowed then 0 else - 1) i m = Inr m' \<and> length m' = L \<and>
      (\<forall>x\<in>bit_places L. mask_bit m' x = (if fst x = batch_idx * n + i then \<not> allowed else mask_bit m x))" .
  qed
  moreover have "(\<exists>i\<in>set resets. e = batch_idx * n + i) \<longleftrightarrow> batch_idx * n \<le> e \<and> e < (batch_idx + 1) * n" for e
  proof
    assume "batch_idx * n \<le> e \<and> e < (batch_idx + 1) * n"
    then have "e - batch_idx * n \<in> set resets" "e = batch_idx * n + (e - batch_idx * n)" using assms(3) by auto
    then show "\<exists>i\<in>set resets. e = batch_idx * n + i" by blast
  qed (use assms(3) in auto)
  ultimately show ?thesis using True by simp
qed (use assms in simp)

lemma filter_phase:
  assumes "length mem = L" "(batch_idx + 1) * n \<le> L" "\<forall>t\<in>set toks. 0 \<le> t \<and> t < 32 * int n" "set order = {0..<length toks}"
  shows "\<exists>mem'. run_items (set_token_filter_batch_kernel toks batch_idx n allowed) order mem = Inr mem' \<and> length mem' = L \<and>
    (\<forall>x\<in>bit_places L. mask_bit mem' x = (if batch_idx * n \<le> fst x \<and> 32 * int (fst x - batch_idx * n) + int (snd x) \<in> set toks
       then allowed else mask_bit mem x))"
proof -
  have hit: "(\<exists>i\<in>set order. e = batch_idx * n + nat (toks ! i div 32) \<and> b = nat (toks ! i mod 32)) \<longleftrightarrow>
      batch_idx * n \<le> e \<and> 32 * int (e - batch_idx * n) + int b \<in> set toks" if "b < 32" for e b
  proof -
    have "(\<exists>i\<in>set order. e = batch_idx * n + nat (toks ! i div 32) \<and> b = nat (toks ! i mod 32)) \<longleftrightarrow>
      (\<exists>t\<in>set toks. e = batch_idx * n + nat (t div 32) \<and> b = nat (t mod 32))"
      unfolding assms(4) by (metis atLeastLessThan_iff in_set_conv_nth le0)
    also have "\<dots> \<longleftrightarrow> (\<exists>t\<in>set toks. batch_idx * n \<le> e \<and> 32 * int (e - batch_idx * n) + int b = t)"
    proof (rule bex_cong [OF refl])
      fix t assume "t \<in> set toks"
      then have "0 \<le> t" using assms(3) by blast
      have "e = batch_idx * n + nat (t div 32) \<longleftrightarrow> batch_idx * n \<le> e \<and> e - batch_idx * n = nat (t div 32)" by auto
      then show "(e = batch_idx * n + nat (t div 32) \<and> b = nat (t mod 32)) = (batch_idx * n \<le> e \<and> 32 * int (e - batch_idx * n) + int b = t)"
        using token_place [OF \<open>0 \<le> t\<close> that, of "e - batch_idx * n"] by blast
    qed
    finally show ?thesis by auto
  qed
  have "\<exists>mem'. run_items (set_token_filter_batch_kernel toks batch_idx n allowed) order mem = Inr mem' \<and> length mem' = L \<and>
    (\<forall>x\<in>bit_places L. mask_bit mem' x = (if \<exists>i\<in>set order. fst x = batch_idx * n + nat (toks ! i div 32) \<and> snd x = nat (toks ! i mod 32)
       then allowed else mask_bit mem x))"
  proof (rule run_items_hits [where P = "\<lambda>m. length m = L" and obs = mask_bit and
        hit = "\<lambda>i x. fst x = batch_idx * n + nat (toks ! i div 32) \<and> snd x = nat (toks ! i mod 32)", OF assms(1)])
    fix i and m :: "32 word list" assume i: "i \<in> set order" and m: "length m = L"
    have "i < length toks" using i assms(4) by simp
    moreover have "0 \<le> toks ! i" "toks ! i < 32 * int n" using assms(3) nth_mem [OF calculation] by auto
    ultimately show "\<exists>m'. set_token_filter_batch_kernel toks batch_idx n allowed i m = Inr m' \<and> length m' = L \<and>
      (\<forall>x\<in>bit_places L. mask_bit m' x = (if fst x = batch_idx * n + nat (toks ! i div 32) \<and> snd x = nat (toks ! i mod 32) then allowed else mask_bit m x))"
      by (rule filter_kernel_bits [OF _ _ _ assms(2) m])
  qed
  then show ?thesis using hit by (auto simp: Ball_def)
qed

lemma triton_bits:
  assumes "cache_ok cached" "length mem = L" "(batch_idx + 1) * n \<le> L" "\<forall>t\<in>set toks. 0 \<le> t \<and> t < 32 * int n"
    "launch_order (compute_grid num_sms n) n (compute_grid num_sms n) resets"
    "launch_order (compute_grid num_sms (length toks)) (length toks) (compute_grid num_sms (length toks)) order"
  shows "\<exists>mem' cached'. set_token_filter_triton num_sms resets order device n toks batch_idx allowed reset cached mem = Inr (mem', cached') \<and>
    cache_ok cached' \<and> length mem' = L \<and>
    (\<forall>x\<in>bit_places L. mask_bit mem' x = (if batch_idx * n \<le> fst x \<and> fst x < (batch_idx + 1) * n
       then filtered toks allowed reset (drop (batch_idx * n) mem) (fst x - batch_idx * n, snd x) else mask_bit mem x))"
proof -
  obtain mem1 where mem1: "(if reset then run_items (reset_vocab_mask_kernel batch_idx n (if allowed then 0 else - 1)) resets mem else Inr mem) = Inr mem1"
    "length mem1 = L" "\<forall>x\<in>bit_places L. mask_bit mem1 x =
       (if reset \<and> batch_idx * n \<le> fst x \<and> fst x < (batch_idx + 1) * n then \<not> allowed else mask_bit mem x)"
    using reset_phase [OF assms(2,3) grid_all [OF assms(5)]] by blast
  obtain mem2 where mem2: "run_items (set_token_filter_batch_kernel toks batch_idx n allowed) order mem1 = Inr mem2" "length mem2 = L"
    "\<forall>x\<in>bit_places L. mask_bit mem2 x = (if batch_idx * n \<le> fst x \<and> 32 * int (fst x - batch_idx * n) + int (snd x) \<in> set toks
       then allowed else mask_bit mem1 x)"
    using filter_phase [OF mem1(2) assms(3,4) grid_all [OF assms(6)]] by blast
  obtain cached' where c: "get_cached_token_ids_tensor toks device cached = (toks, cached')" "cache_ok cached'"
    using cached_ids [OF assms(1)] by blast
  have inside: "fst x < (batch_idx + 1) * n" if "32 * int (fst x - batch_idx * n) + int (snd x) \<in> set toks" for x
    using bspec [OF assms(4) that] by (simp add: algebra_simps)
  have run: "set_token_filter_triton num_sms resets order device n toks batch_idx allowed reset cached mem =
      Inr (if toks = [] then (mem1, cached) else (mem2, cached'))"
    unfolding set_token_filter_triton_def mem1(1) using c(1) mem2(1) by simp
  let ?out = "if toks = [] then mem1 else mem2"
  have "\<forall>x\<in>bit_places L. mask_bit ?out x = (if batch_idx * n \<le> fst x \<and> fst x < (batch_idx + 1) * n
       then filtered toks allowed reset (drop (batch_idx * n) mem) (fst x - batch_idx * n, snd x) else mask_bit mem x)"
  proof
    fix x assume x: "x \<in> bit_places L"
    then have "mask_bit (drop (batch_idx * n) mem) (fst x - batch_idx * n, snd x) = mask_bit mem x" if "batch_idx * n \<le> fst x"
      using that assms(2) by (auto simp: mask_bit_def)
    then show "mask_bit ?out x = (if batch_idx * n \<le> fst x \<and> fst x < (batch_idx + 1) * n
       then filtered toks allowed reset (drop (batch_idx * n) mem) (fst x - batch_idx * n, snd x) else mask_bit mem x)"
      using bspec [OF mem1(3) x] bspec [OF mem2(3) x] inside [of x] by (auto simp: filtered_def simp del: of_nat_diff)
  qed
  moreover have "cache_ok (if toks = [] then cached else cached')" "length ?out = L" using assms(1) c(2) mem1(2) mem2(2) by auto
  ultimately show ?thesis using run by (intro exI [of _ ?out] exI [of _ "if toks = [] then cached else cached'"]) auto
qed

section \<open>The filter in tensor operations\<close>

definition agg_mask :: "(int \<times> int) list \<Rightarrow> int \<Rightarrow> int" where
  "agg_mask d e = (case map_of d e of None \<Rightarrow> 0 | Some m \<Rightarrow> m)"

lemma add_bit_facts:
  "agg_mask (add_bit d t) e = (if e = t div 32 then agg_mask d e OR push_bit (nat (t mod 32)) 1 else agg_mask d e)"
  "fst ` set (add_bit d t) = insert (t div 32) (fst ` set d)"
  "distinct (map fst d) \<Longrightarrow> distinct (map fst (add_bit d t))"
  by (auto simp: agg_mask_def add_bit_def Let_def update_conv' AList.dom_update distinct_update)

lemma aggregated_facts:
  "bit (agg_mask (aggregated toks) e) b \<longleftrightarrow> (\<exists>t\<in>set toks. t div 32 = e \<and> nat (t mod 32) = b)"
  "fst ` set (aggregated toks) = (\<lambda>t. t div 32) ` set toks"
  "distinct (map fst (aggregated toks))"
proof (induction toks rule: rev_induct)
  case Nil
  { case 1 show ?case by (simp add: aggregated_def agg_mask_def) }
  { case 2 show ?case by (simp add: aggregated_def) }
  { case 3 show ?case by (simp add: aggregated_def) }
next
  case (snoc t toks)
  have app: "aggregated (toks @ [t]) = add_bit (aggregated toks) t" by (simp add: aggregated_def)
  { case 1 show ?case using snoc(1) by (auto simp: app add_bit_facts bit_simps) }
  { case 2 show ?case using snoc(2) by (simp add: app add_bit_facts) }
  { case 3 show ?case using snoc(3) by (simp add: app add_bit_facts) }
qed

lemma tensor_index_nat: "\<forall>e\<in>set es. 0 \<le> e \<and> e < int n \<Longrightarrow> tensor_index n es = Inr (map nat es)"
  by (induction es) auto

lemma length_put_at [simp]: "length (put_at row idx vs) = length row"
proof -
  have "length (fold (\<lambda>(i, v) r. r[i := v]) ps row) = length row" for ps :: "(nat \<times> 'a) list"
    by (induction ps arbitrary: row) auto
  then show ?thesis by (simp add: put_at_def)
qed

lemma put_at_map:
  assumes "distinct (map f ps)" "\<forall>p\<in>set ps. f p < length row"
  shows "p \<in> set ps \<Longrightarrow> put_at row (map f ps) (map g ps) ! f p = g p"
    "e \<notin> f ` set ps \<Longrightarrow> put_at row (map f ps) (map g ps) ! e = row ! e"
proof -
  have out: "e \<notin> f ` set qs \<Longrightarrow> fold (\<lambda>(i, v) r. r[i := v]) (zip (map f qs) (map g qs)) r ! e = r ! e" for e qs and r :: "'b list"
    by (induction qs arbitrary: r) auto
  show "e \<notin> f ` set ps \<Longrightarrow> put_at row (map f ps) (map g ps) ! e = row ! e" by (simp add: put_at_def out)
  show "p \<in> set ps \<Longrightarrow> put_at row (map f ps) (map g ps) ! f p = g p"
    using assms unfolding put_at_def
  proof (induction ps arbitrary: row)
    case (Cons q ps)
    show ?case
    proof (cases "p = q")
      case True
      then have "f p \<notin> f ` set ps" using Cons.prems(2) by auto
      then show ?thesis using True Cons.prems(3) by (simp add: out)
    next
      case False
      then show ?thesis using Cons.IH [of "row[f q := g q]"] Cons.prems by simp
    qed
  qed simp
qed

lemma torch_row:
  assumes "length row = n" "\<forall>t\<in>set toks. 0 \<le> t \<and> t < 32 * int n" "idx = map (nat \<circ> fst) (aggregated toks)"
    "row' = put_at row idx (map2 (if allowed then (OR) else (AND)) (map ((!) row) idx)
       (map (\<lambda>m. word_of_int (if allowed then m else NOT m)) (map snd (aggregated toks))))"
    "x \<in> bit_places n"
  shows "mask_bit row' x = (if 32 * int (fst x) + int (snd x) \<in> set toks then allowed else mask_bit row x)"
proof -
  obtain e b where x: "x = (e, b)" "e < n" "b < 32" using assms(5) by auto
  let ?agg = "aggregated toks"
  let ?g = "\<lambda>(k, m). if allowed then row ! nat k OR word_of_int m else row ! nat k AND word_of_int (NOT m)"
  have keys: "0 \<le> k \<and> k < int n" if "k \<in> fst ` set ?agg" for k
    using that assms(2) unfolding aggregated_facts(2) by (auto simp: nat_token)
  have row': "row' = put_at row (map (nat \<circ> fst) ?agg) (map ?g ?agg)"
    unfolding assms(3,4) by (simp add: zip_map_map zip_same_conv_map case_prod_unfold comp_def)
  have inj: "inj_on nat (fst ` set ?agg)" using keys by (intro inj_onI) (metis nat_0_le)
  have dist: "distinct (map (nat \<circ> fst) ?agg)"
    using aggregated_facts(3) [of toks] inj by (simp add: distinct_map comp_inj_on)
  have within: "\<forall>p\<in>set ?agg. (nat \<circ> fst) p < length row" using keys assms(1) by (auto simp: nat_less_iff)
  have hit: "row' ! nat k = ?g (k, m)" if "(k, m) \<in> set ?agg" for k m
    unfolding row' using put_at_map(1) [OF dist within that, of ?g] by (cases allowed) (simp_all add: comp_def)
  have miss: "row' ! e = row ! e" if "e \<notin> (nat \<circ> fst) ` set ?agg"
    unfolding row' by (rule put_at_map(2) [OF dist within that])
  have "t div 32 = int e \<and> nat (t mod 32) = b \<longleftrightarrow> 32 * int e + int b = t" if "t \<in> set toks" for t
    using token_place [of t b e] bspec [OF assms(2) that] x(3) by auto
  then have tok: "32 * int e + int b \<in> set toks \<longleftrightarrow> bit (agg_mask ?agg (int e)) b"
    unfolding aggregated_facts(1) by auto
  show ?thesis
  proof (cases "int e \<in> fst ` set ?agg")
    case True
    then obtain m where m: "map_of ?agg (int e) = Some m" by (metis (no_types, lifting) map_of_eq_None_iff not_None_eq)
    then have "row' ! e = ?g (int e, m)" using hit [OF map_of_SomeD [OF m]] by simp
    then show ?thesis using x m tok by (auto simp: mask_bit_def agg_mask_def bit_simps)
  next
    case False
    then have "e \<notin> (nat \<circ> fst) ` set ?agg" using keys by force
    moreover have "map_of ?agg (int e) = None" using False by (simp add: map_of_eq_None_iff)
    ultimately show ?thesis using miss x tok by (simp add: mask_bit_def agg_mask_def)
  qed
qed

lemma torch_bits:
  assumes "batch_idx < length vm" "length (vm ! batch_idx) = n" "\<forall>t\<in>set toks. 0 \<le> t \<and> t < 32 * int n"
  shows "\<exists>row'. set_token_filter_torch vm toks batch_idx allowed reset = Inr (vm[batch_idx := row']) \<and> length row' = n \<and>
    (\<forall>x\<in>bit_places n. mask_bit row' x = filtered toks allowed reset (vm ! batch_idx) x)"
proof -
  define row where "row = (if reset then replicate n (if \<not> allowed then - 1 else 0) else vm ! batch_idx)"
  define idx where "idx = map (nat \<circ> fst) (aggregated toks)"
  define row' where "row' = put_at row idx (map2 (if allowed then (OR) else (AND)) (map ((!) row) idx)
       (map (\<lambda>m. word_of_int (if allowed then m else NOT m)) (map snd (aggregated toks))))"
  have len: "length row = n" "length row' = n" using assms(2) by (auto simp: row_def row'_def)
  have row_bit: "mask_bit row x = (if reset then \<not> allowed else mask_bit (vm ! batch_idx) x)" if "x \<in> bit_places n" for x
    using that by (auto simp: row_def mask_bit_def)
  have bits: "mask_bit row' x = (if 32 * int (fst x) + int (snd x) \<in> set toks then allowed else mask_bit row x)" if "x \<in> bit_places n" for x
    by (rule torch_row [OF len(1) assms(3) idx_def row'_def that])
  have "tensor_index n (map fst (aggregated toks)) = Inr idx"
  proof -
    have "\<forall>e\<in>set (map fst (aggregated toks)). 0 \<le> e \<and> e < int n"
      unfolding set_map aggregated_facts(2) using assms(3) by (auto simp: nat_token)
    then show ?thesis by (simp add: tensor_index_nat idx_def)
  qed
  then have "set_token_filter_torch vm toks batch_idx allowed reset = Inr (vm[batch_idx := if toks = [] then row else row'])"
    using assms(1,2) len(1) by (auto simp: set_token_filter_torch_def row_def row'_def Let_def)
  moreover have "mask_bit (if toks = [] then row else row') x = filtered toks allowed reset (vm ! batch_idx) x" if "x \<in> bit_places n" for x
    using bits [OF that] row_bit [OF that] by (auto simp: filtered_def)
  ultimately show ?thesis using len by (intro exI [of _ "if toks = [] then row else row'"]) auto
qed

section \<open>Both filters agree\<close>

lemma mask_eqI:
  assumes "length xs = L" "length ys = L" "\<forall>x\<in>bit_places L. mask_bit xs x = mask_bit ys x"
  shows "xs = ys"
proof (rule nth_equalityI)
  fix e assume e: "e < length xs"
  show "xs ! e = ys ! e"
  proof (rule bit_word_eqI)
    fix b assume "b < LENGTH(32)"
    then show "bit (xs ! e) b = bit (ys ! e) b" using bspec [OF assms(3), of "(e, b)"] e assms(1) by (simp add: mask_bit_def)
  qed
qed (simp add: assms)

lemma filters_agree:
  assumes "cache_ok cached" "\<forall>row\<in>set vm. length row = n" "batch_idx < length vm" "\<forall>t\<in>set toks. 0 \<le> t \<and> t < 32 * int n"
    "launch_order (compute_grid num_sms n) n (compute_grid num_sms n) resets"
    "launch_order (compute_grid num_sms (length toks)) (length toks) (compute_grid num_sms (length toks)) order"
  shows "\<exists>row' cached'. set_token_filter_torch vm toks batch_idx allowed reset = Inr (vm[batch_idx := row']) \<and>
    set_token_filter_triton num_sms resets order device n toks batch_idx allowed reset cached (concat vm) =
      Inr (concat (vm[batch_idx := row']), cached') \<and> cache_ok cached' \<and> length row' = n \<and>
    (\<forall>x\<in>bit_places n. mask_bit row' x = filtered toks allowed reset (vm ! batch_idx) x)"
proof -
  have row: "length (vm ! batch_idx) = n" using assms(2,3) by simp
  from torch_bits [OF assms(3) row assms(4)] obtain row' where
    t: "set_token_filter_torch vm toks batch_idx allowed reset = Inr (vm[batch_idx := row'])" "length row' = n"
      "\<forall>x\<in>bit_places n. mask_bit row' x = filtered toks allowed reset (vm ! batch_idx) x" by blast
  let ?L = "length vm * n"
  have L: "length (concat vm) = ?L" using assms(2) by (rule length_concat_block)
  have "(batch_idx + 1) * n \<le> ?L" using assms(3) by (intro mult_le_mono1) simp
  from triton_bits [OF assms(1) L this assms(4-6)] obtain mem' cached' where
    k: "set_token_filter_triton num_sms resets order device n toks batch_idx allowed reset cached (concat vm) = Inr (mem', cached')"
      "cache_ok cached'" "length mem' = ?L"
      "\<forall>x\<in>bit_places ?L. mask_bit mem' x = (if batch_idx * n \<le> fst x \<and> fst x < (batch_idx + 1) * n
         then filtered toks allowed reset (drop (batch_idx * n) (concat vm)) (fst x - batch_idx * n, snd x) else mask_bit (concat vm) x)"
    by blast
  have rows': "\<forall>row\<in>set (vm[batch_idx := row']). length row = n" using assms(2) t(2) by (auto dest: set_update_subset_insert [THEN subsetD])
  have "mem' = concat (vm[batch_idx := row'])"
  proof (rule mask_eqI [OF k(3)])
    show "length (concat (vm[batch_idx := row'])) = ?L" using length_concat_block [OF rows'] by simp
    show "\<forall>x\<in>bit_places ?L. mask_bit mem' x = mask_bit (concat (vm[batch_idx := row'])) x"
    proof
      fix x assume x: "x \<in> bit_places ?L"
      then have "fst x < length vm * n" by auto
      then obtain r e where re: "r < length vm" "e < n" "fst x = r * n + e" by (rule block_cases)
      have old: "concat vm ! (r * n + e) = vm ! r ! e" by (rule nth_concat_block [OF assms(2) re(1,2)])
      have new: "concat (vm[batch_idx := row']) ! (r * n + e) = vm[batch_idx := row'] ! r ! e"
        using nth_concat_block [OF rows' _ re(2)] re(1) by simp
      show "mask_bit mem' x = mask_bit (concat (vm[batch_idx := row'])) x"
      proof (cases "r = batch_idx")
        case True
        have drop: "mask_bit (drop (batch_idx * n) (concat vm)) (e, snd x) = mask_bit (vm ! batch_idx) (e, snd x)"
          using old True L re by (simp add: mask_bit_def)
        have "(e, snd x) \<in> bit_places n" using x re(2) by auto
        then have "mask_bit row' (e, snd x) = filtered toks allowed reset (vm ! batch_idx) (e, snd x)" using t(3) by blast
        then show ?thesis using bspec [OF k(4) x] True re new drop assms(3) by (simp add: mask_bit_def filtered_def)
      next
        case False
        moreover have "fst x div n = r" using re(2,3) by simp
        ultimately have "\<not> (batch_idx * n \<le> fst x \<and> fst x < (batch_idx + 1) * n)"
          using re(2) div_nat_eqI [of n batch_idx "fst x"] by (auto simp: mult.commute)
        then have "mask_bit mem' x = mask_bit (concat vm) x" using bspec [OF k(4) x] by presburger
        then show ?thesis using False re old new by (simp add: mask_bit_def)
      qed
    qed
  qed
  then show ?thesis using t k by blast
qed

section \<open>The masked logits\<close>

lemma apply_token_hits:
  assumes "vocab_size \<le> lw" "batch_id < rows" "length logits = rows * lw" "off < vocab_size \<longrightarrow> batch_id * bw + off div 32 < length bitmask"
  shows "\<exists>logits'. apply_token bitmask vocab_size lw bw ninf batch_id off logits = Inr logits' \<and> length logits' = rows * lw \<and>
    (\<forall>x\<in>{0..<rows * lw}. logits' ! x = (if off < vocab_size \<and> x = batch_id * lw + off \<and>
       \<not> bit (bitmask ! (batch_id * bw + off div 32)) (off mod 32) then ninf else logits ! x))"
proof (cases "off < vocab_size")
  case True
  then have "batch_id * lw + off < (batch_id + 1) * lw" using assms(1) by simp
  also have "\<dots> \<le> rows * lw" using assms(2) by (intro mult_le_mono1) simp
  finally show ?thesis using assms(3,4) True at_offset_ok [of "batch_id * lw + off" logits]
    by (auto simp: apply_token_def Let_def)
qed (use assms in \<open>auto simp: apply_token_def Let_def\<close>)

lemma apply_kernel_hits:
  assumes "vocab_size \<le> lw" "length logits = rows * lw" "batch < rows"
    "(case indices of None \<Rightarrow> Inr row_id | Some idx \<Rightarrow> if row_id < length idx then Inr (idx ! row_id) else Inl IndexError) = Inr batch"
    "\<forall>off<vocab_size. batch * bw + off div 32 < length bitmask" "row_id = work_id div cdiv vocab_size block"
  shows "\<exists>logits'. apply_token_bitmask_inplace_kernel block bitmask indices vocab_size lw bw ninf work_id logits = Inr logits' \<and>
    length logits' = rows * lw \<and> (\<forall>x\<in>{0..<rows * lw}. logits' ! x = (if \<exists>off\<in>{work_id mod cdiv vocab_size block * block..<
        work_id mod cdiv vocab_size block * block + block}. off < vocab_size \<and> x = batch * lw + off \<and>
        \<not> bit (bitmask ! (batch * bw + off div 32)) (off mod 32) then ninf else logits ! x))"
proof -
  let ?items = "[work_id mod cdiv vocab_size block * block..<work_id mod cdiv vocab_size block * block + block]"
  let ?hit = "\<lambda>off x. off < vocab_size \<and> x = batch * lw + off \<and> \<not> bit (bitmask ! (batch * bw + off div 32)) (off mod 32)"
  have "\<exists>logits'. run_items (apply_token bitmask vocab_size lw bw ninf batch) ?items logits = Inr logits' \<and> length logits' = rows * lw \<and>
    (\<forall>x\<in>{0..<rows * lw}. logits' ! x = (if \<exists>off\<in>set ?items. ?hit off x then ninf else logits ! x))"
  proof (rule run_items_hits [where P = "\<lambda>m. length m = rows * lw" and obs = nth and hit = ?hit, OF assms(2)])
    fix off and m :: "'a list" assume "length m = rows * lw"
    then show "\<exists>m'. apply_token bitmask vocab_size lw bw ninf batch off m = Inr m' \<and> length m' = rows * lw \<and>
      (\<forall>x\<in>{0..<rows * lw}. m' ! x = (if ?hit off x then ninf else m ! x))"
      using assms(1,3,5) by (intro apply_token_hits) auto
  qed
  then show ?thesis using assms(4) unfolding apply_token_bitmask_inplace_kernel_def Let_def assms(6) by simp
qed

text \<open>The blocks of a vocabulary.\<close>

lemma cdiv_div: "off < v \<Longrightarrow> 0 < block \<Longrightarrow> off div block < cdiv v block"
proof -
  assume "off < v" "0 < block"
  then have "off + block \<le> v + block - 1" by simp
  then have "(off + block) div block \<le> (v + block - 1) div block" by (rule div_le_mono)
  moreover have "(off + block) div block = off div block + 1" using \<open>0 < block\<close> by (simp add: div_add_self2)
  ultimately show ?thesis by (simp add: cdiv_def)
qed

lemma block_of:
  assumes "off < v" "0 < block"
  shows "(\<exists>w\<in>{0..<rows * cdiv v block}. f (w div cdiv v block) = b \<and>
      off \<in> {w mod cdiv v block * block..<w mod cdiv v block * block + block}) \<longleftrightarrow> (\<exists>r<rows. f r = b)"
proof
  assume "\<exists>w\<in>{0..<rows * cdiv v block}. f (w div cdiv v block) = b \<and> off \<in> {w mod cdiv v block * block..<w mod cdiv v block * block + block}"
  then obtain w where "w < rows * cdiv v block" "f (w div cdiv v block) = b" by auto
  then show "\<exists>r<rows. f r = b" by (intro exI [of _ "w div cdiv v block"]) (simp add: less_mult_imp_div_less)
next
  assume "\<exists>r<rows. f r = b"
  then obtain r where r: "r < rows" "f r = b" by blast
  let ?n = "cdiv v block"
  let ?w = "r * ?n + off div block"
  have o: "off div block < ?n" using assms by (rule cdiv_div)
  then have "?w < (r + 1) * ?n" by simp
  also have "\<dots> \<le> rows * ?n" using r(1) by (intro mult_le_mono1) simp
  finally have "?w \<in> {0..<rows * ?n}" by simp
  moreover have "?w div ?n = r" "?w mod ?n = off div block" using o by auto
  moreover have "off \<in> {off div block * block..<off div block * block + block}"
    using assms(2) dividend_less_div_times [of block off] by (simp add: add.commute div_times_less_eq_dividend)
  ultimately show "\<exists>w\<in>{0..<rows * ?n}. f (w div ?n) = b \<and> off \<in> {w mod ?n * block..<w mod ?n * block + block}" using r(2) by metis
qed

lemma next_power_ge: "n \<le> next_power_of_2 n"
proof (rule ccontr)
  assume "\<not> ?thesis"
  then have less: "next_power_of_2 n < n" by simp
  let ?k = "length (takeWhile (\<lambda>k. 2 ^ k < n) [0..<n])"
  have "?k < length [0..<n]" using less_trans [OF less_exp less [unfolded next_power_of_2_def]] by simp
  then have "\<not> 2 ^ ([0..<n] ! ?k) < n" by (rule nth_length_takeWhile)
  then show False using less \<open>?k < length [0..<n]\<close> by (simp add: next_power_of_2_def)
qed

lemma bitmask_grid_all:
  assumes "launch_order (fst (bitmask_grid num_sms items)) items (snd (bitmask_grid num_sms items)) order"
  shows "set order = {0..<items}"
  by (rule launch_order_all [OF assms]) (use next_power_ge [of items] in \<open>auto simp: bitmask_grid_def\<close>)

text \<open>The rows a mask is applied to.\<close>

definition mask_rows :: "nat list option \<Rightarrow> nat \<Rightarrow> nat list" where
  "mask_rows indices rows = (case indices of None \<Rightarrow> [0..<rows] | Some idx \<Rightarrow> idx)"

lemma apply_masks:
  assumes "length logits = rows * lw" "length bitmask = brows * bw" "bw \<le> (lw + 31) div 32"
    "indices = None \<Longrightarrow> rows = brows" "\<forall>r\<in>set (mask_rows indices rows). r < rows \<and> r < brows"
    "launch_order (fst (bitmask_grid num_sms items)) items (snd (bitmask_grid num_sms items)) order"
    "items = bitmask_items indices (rows, lw) (brows, bw)"
  shows "\<exists>logits'. apply_token_bitmask_inplace_triton order ninf indices (rows, lw) (brows, bw) bitmask logits = Inr logits' \<and>
    length logits' = rows * lw \<and> (\<forall>r<rows. \<forall>t<lw. logits' ! (r * lw + t) =
      (if r \<in> set (mask_rows indices rows) \<and> t < bw * 32 \<and> \<not> bit (bitmask ! (r * bw + t div 32)) (t mod 32) then ninf else logits ! (r * lw + t)))"
proof -
  let ?v = "min lw (bw * 32)"
  let ?nb = "cdiv ?v 4096"
  let ?rows = "mask_rows indices rows"
  let ?masked = "\<lambda>b off x. off < ?v \<and> x = b * lw + off \<and> \<not> bit (bitmask ! (b * bw + off div 32)) (off mod 32)"
  let ?hit = "\<lambda>w x. \<exists>off\<in>{w mod ?nb * 4096..<w mod ?nb * 4096 + 4096}. ?masked (?rows ! (w div ?nb)) off x"
  have items: "items = length ?rows * ?nb" using assms(7) by (auto simp: bitmask_items_def mask_rows_def split: option.splits)
  have order: "set order = {0..<length ?rows * ?nb}" using bitmask_grid_all [OF assms(6)] items by simp
  have in_mask: "b * bw + off div 32 < length bitmask" if "b < brows" "off < ?v" for b off
  proof -
    have "off div 32 < bw" using that(2) by (simp add: less_mult_imp_div_less)
    then have "b * bw + off div 32 < (b + 1) * bw" by simp
    also have "\<dots> \<le> brows * bw" using that(1) by (intro mult_le_mono1) simp
    finally show ?thesis using assms(2) by simp
  qed
  have "\<exists>logits'. run_items (apply_token_bitmask_inplace_kernel 4096 bitmask indices ?v lw bw ninf) order logits = Inr logits' \<and>
    length logits' = rows * lw \<and> (\<forall>x\<in>{0..<rows * lw}. logits' ! x = (if \<exists>w\<in>set order. ?hit w x then ninf else logits ! x))"
  proof (rule run_items_hits [where P = "\<lambda>m. length m = rows * lw" and obs = nth and hit = ?hit, OF assms(1)])
    fix w and m :: "'a list" assume w: "w \<in> set order" and m: "length m = rows * lw"
    have row: "w div ?nb < length ?rows" using w order by (simp add: less_mult_imp_div_less)
    then have b: "?rows ! (w div ?nb) < rows" "?rows ! (w div ?nb) < brows" using assms(5) by auto
    have sel: "(case indices of None \<Rightarrow> Inr (w div ?nb) | Some idx \<Rightarrow> if w div ?nb < length idx then Inr (idx ! (w div ?nb)) else Inl IndexError) =
      Inr (?rows ! (w div ?nb))" using row by (auto simp: mask_rows_def split: option.splits)
    show "\<exists>m'. apply_token_bitmask_inplace_kernel 4096 bitmask indices ?v lw bw ninf w m = Inr m' \<and> length m' = rows * lw \<and>
      (\<forall>x\<in>{0..<rows * lw}. m' ! x = (if ?hit w x then ninf else m ! x))"
      by (rule apply_kernel_hits [OF _ m b(1) sel _ refl]) (use in_mask b(2) in auto)
  qed
  then obtain logits' where l: "run_items (apply_token_bitmask_inplace_kernel 4096 bitmask indices ?v lw bw ninf) order logits = Inr logits'"
    "length logits' = rows * lw" "\<forall>x\<in>{0..<rows * lw}. logits' ! x = (if \<exists>w\<in>set order. ?hit w x then ninf else logits ! x)" by blast
  have hit: "(\<exists>w\<in>set order. ?hit w (r * lw + t)) \<longleftrightarrow> r \<in> set ?rows \<and> ?masked r t (r * lw + t)" if "t < lw" for r t
  proof -
    have eq: "r * lw + t = b * lw + off \<longleftrightarrow> b = r \<and> off = t" if "off < ?v" for b off
      using that \<open>t < lw\<close> by (metis div_mult_self3 mod_mult_self3 mod_less div_less add.right_neutral less_nat_zero_code min_less_iff_conj neq0_conv)
    have one: "?hit w (r * lw + t) \<longleftrightarrow> ?masked r t (r * lw + t) \<and> (?rows ! (w div ?nb) = r \<and> t \<in> {w mod ?nb * 4096..<w mod ?nb * 4096 + 4096})" for w
    proof
      assume "?hit w (r * lw + t)"
      then obtain off where off: "off \<in> {w mod ?nb * 4096..<w mod ?nb * 4096 + 4096}" "?masked (?rows ! (w div ?nb)) off (r * lw + t)" by blast
      have "?rows ! (w div ?nb) = r \<and> off = t"
        using eq [OF conjunct1 [OF off(2)], of "?rows ! (w div ?nb)", THEN iffD1, OF conjunct1 [OF conjunct2 [OF off(2)]]] .
      then show "?masked r t (r * lw + t) \<and> (?rows ! (w div ?nb) = r \<and> t \<in> {w mod ?nb * 4096..<w mod ?nb * 4096 + 4096})"
        using off by simp
    qed (rule bexI [of _ t], auto)
    have "(\<exists>w\<in>set order. ?hit w (r * lw + t)) \<longleftrightarrow> ?masked r t (r * lw + t) \<and>
      (\<exists>w\<in>{0..<length ?rows * ?nb}. ?rows ! (w div ?nb) = r \<and> t \<in> {w mod ?nb * 4096..<w mod ?nb * 4096 + 4096})"
      unfolding order one by blast
    also have "\<dots> \<longleftrightarrow> ?masked r t (r * lw + t) \<and> (\<exists>i<length ?rows. ?rows ! i = r)"
      using block_of [of t ?v 4096 "length ?rows" "(!) ?rows" r] by auto
    finally show ?thesis by (auto simp: in_set_conv_nth)
  qed
  have "logits' ! (r * lw + t) = (if r \<in> set ?rows \<and> t < bw * 32 \<and> \<not> bit (bitmask ! (r * bw + t div 32)) (t mod 32) then ninf else logits ! (r * lw + t))"
    if "r < rows" "t < lw" for r t
  proof -
    have "r * lw + t < (r + 1) * lw" using that(2) by simp
    also have "\<dots> \<le> rows * lw" using that(1) by (intro mult_le_mono1) simp
    finally show ?thesis using l(3) hit [OF that(2), of r] that(2) by simp
  qed
  then show ?thesis using l(1,2) assms(3,4) by (auto simp: apply_token_bitmask_inplace_triton_def Let_def)
qed

end
