(* ===== verification/ReasonerGrammar.thy ===== *)
theory ReasonerGrammar
  imports TokenMatcher VocabMask
begin

text \<open>
  \<open>constrained/reasoner_grammar_backend.py\<close>: a grammar object that lets the model reason freely and
  applies the grammar of the request only after the end of the reasoning, within a budget of
  reasoning tokens, and \<open>XGrammarGrammar\<close> of \<open>constrained/xgrammar_backend.py\<close>, the grammar it usually wraps.

  The matcher of the xgrammar library is a parameter. The operations of a grammar object are a record
  of functions, because the wrapper works on every subclass of \<open>BaseGrammarObject\<close>. As in the matcher of
  token sequences, the outer option is \<open>None\<close> for a loop that does not end.
\<close>

section \<open>Grammar objects\<close>

record 'g grammar_ops =
  g_accept :: "int \<Rightarrow> 'g \<Rightarrow> 'g res"
  g_rollback :: "nat \<Rightarrow> 'g \<Rightarrow> 'g res"
  g_terminated :: "'g \<Rightarrow> bool"
  g_fill :: "mask \<Rightarrow> nat \<Rightarrow> 'g \<Rightarrow> mask res"

text \<open>The matcher of the library: acceptance of a token, rollback, termination and the mask of the next tokens.\<close>

record 'm matcher_ops =
  m_accept :: "int \<Rightarrow> 'm \<Rightarrow> bool \<times> 'm"
  m_rollback :: "nat \<Rightarrow> 'm \<Rightarrow> 'm"
  m_terminated :: "'m \<Rightarrow> bool"
  m_fill :: "mask \<Rightarrow> nat \<Rightarrow> 'm \<Rightarrow> mask res"

record 'm xgrammar =
  matcher :: 'm
  accepted_tokens :: "int list"
  x_current_token :: "int option"

definition xg_accept_token :: "'m matcher_ops \<Rightarrow> int \<Rightarrow> 'm xgrammar \<Rightarrow> 'm xgrammar res" where
  "xg_accept_token mo token g =
     (if m_terminated mo (matcher g) then Inr g
      else
        (let (accepted, m) = m_accept mo token (matcher g) in
         if \<not> accepted then Inl ValueError
         else Inr (g\<lparr>x_current_token := Some token, matcher := m, accepted_tokens := accepted_tokens g @ [token]\<rparr>)))"

definition xg_rollback :: "'m matcher_ops \<Rightarrow> nat \<Rightarrow> 'm xgrammar \<Rightarrow> 'm xgrammar" where
  "xg_rollback mo k g = g\<lparr>matcher := m_rollback mo k (matcher g),
     accepted_tokens := (if k = 0 then [] else take (length (accepted_tokens g) - k) (accepted_tokens g))\<rparr>"

definition xg_ops :: "'m matcher_ops \<Rightarrow> 'm xgrammar grammar_ops" where
  "xg_ops mo = \<lparr>g_accept = xg_accept_token mo, g_rollback = (\<lambda>k g. Inr (xg_rollback mo k g)),
     g_terminated = (\<lambda>g. m_terminated mo (matcher g)), g_fill = (\<lambda>vm i g. m_fill mo vm i (matcher g))\<rparr>"

section \<open>The reasoner\<close>

type_synonym token_filter = "mask \<Rightarrow> int list \<Rightarrow> nat \<Rightarrow> bool \<Rightarrow> mask res"

record 'g reasoner =
  grammar :: "'g option"
  think_end_ids :: "int list"
  end_matcher :: token_matcher
  think_excluded_token_ids :: "int list option"
  max_think_tokens :: int
  enable_token_filter :: bool
  token_filter_fn :: "token_filter option"
  tokens_in_think :: int
  tokens_after_end :: int
  matched_think_end_tokens :: nat
  thinking_match_history :: "nat list"
  r_current_token :: "int option"

definition new_reasoner :: "'g option \<Rightarrow> int list \<Rightarrow> int list option \<Rightarrow> int \<Rightarrow> bool \<Rightarrow> token_filter option \<Rightarrow> 'g reasoner res option" where
  "new_reasoner g end_ids excluded max_think filter_on filter_fn = map_option (map_res (\<lambda>tm.
     \<lparr>grammar = g, think_end_ids = end_ids, end_matcher = tm, think_excluded_token_ids = excluded, max_think_tokens = max_think,
      enable_token_filter = filter_on, token_filter_fn = filter_fn, tokens_in_think = - 1, tokens_after_end = - 1,
      matched_think_end_tokens = 0, thinking_match_history = [], r_current_token = None\<rparr>)) (new_matcher end_ids)"

definition maybe_init_reasoning :: "bool \<Rightarrow> 'g reasoner \<Rightarrow> 'g reasoner" where
  "maybe_init_reasoning reasoning r =
     (let r = r\<lparr>matched_think_end_tokens := 0, thinking_match_history := []\<rparr> in
      if reasoning then r\<lparr>tokens_in_think := 0, tokens_after_end := - 1\<rparr>
      else r\<lparr>tokens_in_think := - 1, tokens_after_end := 0\<rparr>)"

definition is_thinking :: "'g reasoner \<Rightarrow> bool" where
  "is_thinking r \<longleftrightarrow> 0 \<le> tokens_in_think r \<and> tokens_after_end r = - 1"

definition is_generation :: "'g reasoner \<Rightarrow> bool" where
  "is_generation r \<longleftrightarrow> 0 \<le> tokens_after_end r"

definition transfer_state :: "int \<Rightarrow> 'g reasoner \<Rightarrow> 'g reasoner res option" where
  "transfer_state token r =
     (if is_thinking r then
        (let previous_match = matched_think_end_tokens r;
             r = r\<lparr>thinking_match_history := thinking_match_history r @ [previous_match]\<rparr>
         in map_option (map_res (\<lambda>m.
              if m = matcher_len (end_matcher r) then r\<lparr>matched_think_end_tokens := 0, tokens_after_end := 0\<rparr>
              else r\<lparr>tokens_in_think := tokens_in_think r + (int previous_match + 1 - int m), matched_think_end_tokens := m\<rparr>))
            (advance (end_matcher r) previous_match token))
      else if is_generation r then Some (Inr (r\<lparr>tokens_after_end := tokens_after_end r + 1\<rparr>))
      else Some (Inr r))"

definition rollback_state :: "'g reasoner \<Rightarrow> 'g reasoner" where
  "rollback_state r =
     (let history = thinking_match_history r; previous_match = last history in
      if is_thinking r then
        (if history \<noteq> [] then r\<lparr>thinking_match_history := butlast history,
            tokens_in_think := tokens_in_think r - (int previous_match + 1 - int (matched_think_end_tokens r)),
            matched_think_end_tokens := previous_match\<rparr>
         else r)
      else if is_generation r then
        (if tokens_after_end r = 0 then
           (if history \<noteq> [] then r\<lparr>tokens_after_end := - 1, matched_think_end_tokens := previous_match,
               thinking_match_history := butlast history\<rparr>
            else r)
         else r\<lparr>tokens_after_end := tokens_after_end r - 1\<rparr>)
      else r)"

definition accept_token :: "'g grammar_ops \<Rightarrow> int \<Rightarrow> 'g reasoner \<Rightarrow> 'g reasoner res option" where
  "accept_token ops token r =
     (let r = r\<lparr>r_current_token := Some token\<rparr> in
      if is_generation r then
        (case grammar r of
           None \<Rightarrow> transfer_state token r
         | Some g \<Rightarrow> (case g_accept ops token g of
               Inl e \<Rightarrow> Some (Inl e)
             | Inr g' \<Rightarrow> transfer_state token (r\<lparr>grammar := Some g'\<rparr>)))
      else transfer_state token r)"

definition is_terminated :: "'g grammar_ops \<Rightarrow> 'g reasoner \<Rightarrow> bool" where
  "is_terminated ops r \<longleftrightarrow> is_generation r \<and> (case grammar r of None \<Rightarrow> False | Some g \<Rightarrow> g_terminated ops g)"

definition rollback :: "'g grammar_ops \<Rightarrow> nat \<Rightarrow> 'g reasoner \<Rightarrow> 'g reasoner res" where
  "rollback ops k r =
     (let steps_after = min k (nat (tokens_after_end r)) in
      map_res (\<lambda>r. (rollback_state ^^ k) r)
        (case grammar r of
           None \<Rightarrow> Inr r
         | Some g \<Rightarrow> if 0 < steps_after then map_res (\<lambda>g'. r\<lparr>grammar := Some g'\<rparr>) (g_rollback ops steps_after g) else Inr r))"

definition can_think_more :: "'g reasoner \<Rightarrow> bool" where
  "can_think_more r \<longleftrightarrow> max_think_tokens r < 0 \<or> tokens_in_think r + int (matched_think_end_tokens r) < max_think_tokens r"

definition do_token_filter :: "'g reasoner \<Rightarrow> mask \<Rightarrow> int list \<Rightarrow> nat \<Rightarrow> bool \<Rightarrow> mask res" where
  "do_token_filter r vocab_mask token_ids i is_allowed =
     (case token_filter_fn r of None \<Rightarrow> Inr vocab_mask | Some f \<Rightarrow> f vocab_mask token_ids i is_allowed)"

definition fill_vocab_mask :: "'g grammar_ops \<Rightarrow> mask \<Rightarrow> nat \<Rightarrow> 'g reasoner \<Rightarrow> mask res" where
  "fill_vocab_mask ops vocab_mask i r =
     (if is_thinking r then
        (if \<not> enable_token_filter r then Inr vocab_mask
         else if can_think_more r then
           (case think_excluded_token_ids r of
              None \<Rightarrow> Inr vocab_mask
            | Some ids \<Rightarrow> do_token_filter r vocab_mask ids i False)
         else if length (think_end_ids r) \<le> matched_think_end_tokens r then Inl IndexError
         else do_token_filter r vocab_mask [think_end_ids r ! matched_think_end_tokens r] i True)
      else if is_generation r then
        (case grammar r of None \<Rightarrow> Inr vocab_mask | Some g \<Rightarrow> g_fill ops vocab_mask i g)
      else Inr vocab_mask)"

text \<open>The filter of the xgrammar backend, on a mask in host memory.\<close>

definition xg_token_filter :: token_filter where
  "xg_token_filter vocab_mask token_ids i is_allowed = set_token_filter_torch vocab_mask token_ids i is_allowed True"

section \<open>Runs\<close>

text \<open>\<open>live_run\<close>: the tokens are accepted one after the other, none after the grammar has terminated.\<close>

fun live_run :: "'g grammar_ops \<Rightarrow> int list \<Rightarrow> 'g reasoner \<Rightarrow> 'g reasoner option" where
  "live_run ops [] r = Some r"
| "live_run ops (t # ts) r = (if is_terminated ops r then None
     else case accept_token ops t r of Some (Inr r') \<Rightarrow> live_run ops ts r' | _ \<Rightarrow> None)"

text \<open>\<open>masked_run\<close>: every token is one that the mask filled before it allows; \<open>masks\<close> are the buffers given
  to the fills and \<open>i\<close> is the row of the request.\<close>

definition mask_allows :: "mask \<Rightarrow> nat \<Rightarrow> int \<Rightarrow> bool" where
  "mask_allows vm i t \<longleftrightarrow> i < length vm \<and> 0 \<le> t \<and> nat (t div 32) < length (vm ! i) \<and> bit (vm ! i ! nat (t div 32)) (nat (t mod 32))"

fun masked_run :: "'g grammar_ops \<Rightarrow> nat \<Rightarrow> (mask \<times> int) list \<Rightarrow> 'g reasoner \<Rightarrow> 'g reasoner option" where
  "masked_run ops i [] r = Some r"
| "masked_run ops i ((vm, t) # steps) r = (case fill_vocab_mask ops vm i r of
     Inl e \<Rightarrow> None
   | Inr vm' \<Rightarrow> if \<not> mask_allows vm' i t then None
       else case accept_token ops t r of Some (Inr r') \<Rightarrow> masked_run ops i steps r' | _ \<Rightarrow> None)"

end
