(* ===== verification/ReasonerProofs.thy ===== *)
theory ReasonerProofs
  imports ReasonerGrammar
begin

text \<open>
  The reasoner follows the tokens of the reasoning, rolling back undoes accepting, and the masks end
  the reasoning when its budget is spent.
\<close>

section \<open>Following the reasoning\<close>

text \<open>\<open>follows r xs\<close>: while thinking, the reasoner has seen the tokens \<open>xs\<close>.\<close>

definition follows :: "'g reasoner \<Rightarrow> int list \<Rightarrow> bool" where
  "follows r xs \<longleftrightarrow> matcher_ok (end_matcher r) (think_end_ids r) \<and> (is_thinking r \<noteq> is_generation r) \<and>
     (is_thinking r \<longrightarrow> \<not> sublist (think_end_ids r) xs \<and> matched_think_end_tokens r = overlap (think_end_ids r) xs \<and>
        tokens_in_think r = int (length xs) - int (overlap (think_end_ids r) xs))"

abbreviation with_token :: "int option \<Rightarrow> 'g option \<Rightarrow> 'g reasoner \<Rightarrow> 'g reasoner" where
  "with_token c g r \<equiv> r\<lparr>r_current_token := c, grammar := g\<rparr>"

lemma phase_with_token [simp]:
  "is_thinking (with_token c g r) = is_thinking r" "is_generation (with_token c g r) = is_generation r"
  "follows (with_token c g r) xs = follows r xs"
  by (simp_all add: is_thinking_def is_generation_def follows_def)

lemma same_grammar: "grammar r = g \<Longrightarrow> r\<lparr>r_current_token := c\<rparr> = with_token c g r"
  by (cases r) simp

lemma rollback_with_token: "rollback_state (with_token c g r) = with_token c g (rollback_state r)"
  by (simp add: rollback_state_def Let_def is_thinking_def is_generation_def)

lemma transfer_with_token:
  "transfer_state t (with_token c g r) = map_option (map_res (with_token c g)) (transfer_state t r)"
  by (cases "advance (end_matcher r) (matched_think_end_tokens r) t")
    (auto simp: transfer_state_def Let_def is_thinking_def is_generation_def map_res_def split: sum.splits)

lemma transfer_thinking:
  assumes "follows r xs" "is_thinking r"
  obtains r' where "transfer_state t r = Some (Inr r')" "follows r' (xs @ [t])" "rollback_state r' = r"
    "grammar r' = grammar r" "think_end_ids r' = think_end_ids r"
    "if sublist (think_end_ids r) (xs @ [t]) then tokens_after_end r' = 0 else is_thinking r'"
proof -
  let ?p = "think_end_ids r"
  have f: "matcher_ok (end_matcher r) ?p" "\<not> sublist ?p xs" "matched_think_end_tokens r = overlap ?p xs"
    "tokens_in_think r = int (length xs) - int (overlap ?p xs)" "tokens_after_end r = - 1"
    using assms by (auto simp: follows_def is_thinking_def)
  have p: "?p \<noteq> []" "matcher_len (end_matcher r) = length ?p" using f(1) by (auto simp: matcher_ok_def matcher_len_def)
  have step: "advance (end_matcher r) (overlap ?p xs) t = Some (Inr (overlap ?p (xs @ [t])))"
    by (rule advance_correct [OF f(1) overlap_less [OF p(1) f(2)]])
  have full: "overlap ?p (xs @ [t]) = length ?p \<longleftrightarrow> sublist ?p (xs @ [t])"
    using f(2) by (simp add: overlap_full sublist_snoc_iff)
  let ?h = "r\<lparr>thinking_match_history := thinking_match_history r @ [overlap ?p xs]\<rparr>"
  let ?r' = "if sublist ?p (xs @ [t]) then ?h\<lparr>matched_think_end_tokens := 0, tokens_after_end := 0\<rparr>
    else ?h\<lparr>tokens_in_think := int (length (xs @ [t])) - int (overlap ?p (xs @ [t])), matched_think_end_tokens := overlap ?p (xs @ [t])\<rparr>"
  have "transfer_state t r = Some (Inr ?r')"
    using assms(2) f step full p(2) by (simp add: transfer_state_def Let_def algebra_simps)
  moreover have "overlap ?p (xs @ [t]) \<le> Suc (length xs)" using overlap_le(2) [of ?p "xs @ [t]"] by simp
  then have "follows ?r' (xs @ [t])" "if sublist ?p (xs @ [t]) then tokens_after_end ?r' = 0 else is_thinking ?r'"
    using f by (auto simp: follows_def is_thinking_def is_generation_def)
  moreover have "rollback_state ?r' = r"
    using f \<open>overlap ?p (xs @ [t]) \<le> Suc (length xs)\<close>
    by (auto simp: rollback_state_def Let_def is_thinking_def is_generation_def intro!: reasoner.equality)
  ultimately show ?thesis by (intro that [of ?r']) auto
qed

lemma transfer_generation:
  assumes "follows r xs" "is_generation r"
  shows "transfer_state t r = Some (Inr (r\<lparr>tokens_after_end := tokens_after_end r + 1\<rparr>))"
    "follows (r\<lparr>tokens_after_end := tokens_after_end r + 1\<rparr>) (xs @ [t])"
    "rollback_state (r\<lparr>tokens_after_end := tokens_after_end r + 1\<rparr>) = r"
  using assms by (auto simp: follows_def transfer_state_def rollback_state_def Let_def is_thinking_def is_generation_def)

section \<open>Accepting and rolling back\<close>

lemma accept_thinking:
  assumes "follows r xs" "is_thinking r"
  obtains r' where "accept_token ops t r = Some (Inr r')" "follows r' (xs @ [t])"
    "rollback_state r' = with_token (Some t) (grammar r) r" "grammar r' = grammar r" "r_current_token r' = Some t"
    "think_end_ids r' = think_end_ids r" "if sublist (think_end_ids r) (xs @ [t]) then tokens_after_end r' = 0 else is_thinking r'"
proof -
  obtain r1 where r1: "transfer_state t r = Some (Inr r1)" "follows r1 (xs @ [t])" "rollback_state r1 = r"
    "grammar r1 = grammar r" "think_end_ids r1 = think_end_ids r"
    "if sublist (think_end_ids r) (xs @ [t]) then tokens_after_end r1 = 0 else is_thinking r1"
    using transfer_thinking [OF assms] by metis
  have "\<not> is_generation r" using assms by (simp add: follows_def)
  then have "accept_token ops t r = transfer_state t (with_token (Some t) (grammar r) r)"
    unfolding same_grammar [OF refl, symmetric] by (simp add: accept_token_def Let_def is_generation_def)
  then have "accept_token ops t r = Some (Inr (with_token (Some t) (grammar r) r1))"
    unfolding transfer_with_token r1(1) by simp
  then show ?thesis
  proof (rule that)
    show "follows (with_token (Some t) (grammar r) r1) (xs @ [t])" using r1(2) unfolding phase_with_token .
    show "rollback_state (with_token (Some t) (grammar r) r1) = with_token (Some t) (grammar r) r"
      unfolding rollback_with_token r1(3) ..
    show "if sublist (think_end_ids r) (xs @ [t]) then tokens_after_end (with_token (Some t) (grammar r) r1) = 0
        else is_thinking (with_token (Some t) (grammar r) r1)" using r1(6) by (auto simp: is_thinking_def split: if_splits)
  qed (use r1 in simp_all)
qed

lemma accept_generation:
  assumes "follows r xs" "is_generation r" "accept_token ops t r = Some (Inr r')"
  shows "follows r' (xs @ [t])" "rollback_state r' = with_token (Some t) (grammar r') r" "r_current_token r' = Some t"
    "tokens_after_end r' = tokens_after_end r + 1"
    "case grammar r of None \<Rightarrow> grammar r' = None | Some g \<Rightarrow> \<exists>g'. g_accept ops t g = Inr g' \<and> grammar r' = Some g'"
proof -
  have trans: "transfer_state t (with_token (Some t) g r) = Some (Inr (with_token (Some t) g (r\<lparr>tokens_after_end := tokens_after_end r + 1\<rparr>)))" for g
    unfolding transfer_with_token transfer_generation(1) [OF assms(1,2)] by simp
  have "\<exists>g. r' = with_token (Some t) g (r\<lparr>tokens_after_end := tokens_after_end r + 1\<rparr>) \<and>
    (case grammar r of None \<Rightarrow> g = None | Some h \<Rightarrow> \<exists>h'. g_accept ops t h = Inr h' \<and> g = Some h')"
  proof (cases "grammar r")
    case None
    then show ?thesis using assms(2,3) trans [of None]
      unfolding same_grammar [OF None, symmetric]
      by (intro exI [of _ None]) (simp add: accept_token_def Let_def is_generation_def)
  next
    case (Some h)
    then obtain h' where h': "g_accept ops t h = Inr h'" using assms(2,3)
      by (auto simp: accept_token_def Let_def is_generation_def split: sum.splits)
    then show ?thesis using assms(2,3) Some h' trans [of "Some h'"]
      by (intro exI [of _ "Some h'"]) (simp add: accept_token_def Let_def is_generation_def)
  qed
  then obtain g where r': "r' = with_token (Some t) g (r\<lparr>tokens_after_end := tokens_after_end r + 1\<rparr>)"
    and g: "case grammar r of None \<Rightarrow> g = None | Some h \<Rightarrow> \<exists>h'. g_accept ops t h = Inr h' \<and> g = Some h'" by blast
  show "follows r' (xs @ [t])" unfolding r' phase_with_token by (rule transfer_generation(2) [OF assms(1,2)])
  show "rollback_state r' = with_token (Some t) (grammar r') r"
    unfolding r' rollback_with_token transfer_generation(3) [OF assms(1,2)] by simp
  show "r_current_token r' = Some t" "tokens_after_end r' = tokens_after_end r + 1" unfolding r' by simp_all
  show "case grammar r of None \<Rightarrow> grammar r' = None | Some g \<Rightarrow> \<exists>g'. g_accept ops t g = Inr g' \<and> grammar r' = Some g'"
    using g unfolding r' by (auto split: option.splits)
qed

text \<open>The tokens that a grammar accepts before it terminates.\<close>

fun grammar_run :: "'g grammar_ops \<Rightarrow> int list \<Rightarrow> 'g \<Rightarrow> 'g option" where
  "grammar_run ops [] g = Some g"
| "grammar_run ops (t # ts) g = (if g_terminated ops g then None
     else case g_accept ops t g of Inr g' \<Rightarrow> grammar_run ops ts g' | Inl e \<Rightarrow> None)"

text \<open>Rolling back the states of a run, and the tokens that the inner grammar saw.\<close>

lemma run_generation:
  assumes "follows r xs" "is_generation r" "live_run ops ts r = Some r'"
  shows "(rollback_state ^^ length ts) r' = with_token (r_current_token r') (grammar r') r \<and>
    tokens_after_end r' = tokens_after_end r + int (length ts) \<and>
    (case grammar r of None \<Rightarrow> grammar r' = None | Some g \<Rightarrow> \<exists>g'. grammar r' = Some g' \<and> grammar_run ops ts g = Some g')"
  using assms
proof (induction ts arbitrary: r xs)
  case Nil
  then show ?case by (auto split: option.splits)
next
  case (Cons t ts)
  from Cons.prems(3) obtain r1 where live: "\<not> is_terminated ops r" and r1: "accept_token ops t r = Some (Inr r1)" "live_run ops ts r1 = Some r'"
    by (auto split: if_splits option.splits sum.splits)
  note step = accept_generation [OF Cons.prems(1,2) r1(1)]
  have gen: "is_generation r1" using step(4) Cons.prems(2) by (simp add: is_generation_def)
  note IH = Cons.IH [OF step(1) gen r1(2)]
  have "(rollback_state ^^ length (t # ts)) r' = rollback_state (with_token (r_current_token r') (grammar r') r1)" using IH by simp
  also have "\<dots> = with_token (r_current_token r') (grammar r') r" unfolding rollback_with_token step(2) by simp
  finally show ?case using IH step(4,5) live Cons.prems(2) by (auto simp: is_terminated_def split: option.splits)
qed

lemma run_rolls_back:
  assumes "follows r xs" "live_run ops ts r = Some r'"
  shows "(rollback_state ^^ length ts) r' = with_token (r_current_token r') (grammar r') r \<and>
    (case grammar r of None \<Rightarrow> grammar r' = None
     | Some g \<Rightarrow> \<exists>g'. grammar r' = Some g' \<and> grammar_run ops (drop (length ts - min (length ts) (nat (tokens_after_end r'))) ts) g = Some g') \<and>
    tokens_after_end r' \<le> max 0 (tokens_after_end r) + int (length ts)"
  using assms
proof (induction ts arbitrary: r xs)
  case Nil
  then show ?case by (auto split: option.splits)
next
  case (Cons t ts)
  show ?case
  proof (cases "is_generation r")
    case True
    then have "0 \<le> tokens_after_end r" by (simp add: is_generation_def)
    then show ?thesis using run_generation [OF Cons.prems(1) True Cons.prems(2)] by (auto split: option.splits)
  next
    case False
    then have think: "is_thinking r" using Cons.prems(1) by (simp add: follows_def)
    obtain r1 where step: "accept_token ops t r = Some (Inr r1)" "follows r1 (xs @ [t])" "rollback_state r1 = with_token (Some t) (grammar r) r"
      "grammar r1 = grammar r" "if sublist (think_end_ids r) (xs @ [t]) then tokens_after_end r1 = 0 else is_thinking r1"
      using accept_thinking [OF Cons.prems(1) think, of ops t] by metis
    have run: "live_run ops ts r1 = Some r'" using Cons.prems(2) step(1) by (auto split: if_splits)
    note IH = Cons.IH [OF step(2) run]
    have "(rollback_state ^^ length (t # ts)) r' = rollback_state (with_token (r_current_token r') (grammar r') r1)" using IH by simp
    also have "\<dots> = with_token (r_current_token r') (grammar r') r" unfolding rollback_with_token step(3) by simp
    finally have undone: "(rollback_state ^^ length (t # ts)) r' = with_token (r_current_token r') (grammar r') r" .
    have "tokens_after_end r1 \<le> 0" using step(5) by (auto simp: is_thinking_def split: if_splits)
    then have after: "tokens_after_end r' \<le> int (length ts)" using IH by simp
    then have "length (t # ts) - min (length (t # ts)) (nat (tokens_after_end r')) = Suc (length ts - min (length ts) (nat (tokens_after_end r')))"
      by simp
    then show ?thesis using undone IH step(4) after by (auto split: option.splits)
  qed
qed

lemma funpow_rollback_grammar: "(rollback_state ^^ k) (r\<lparr>grammar := g\<rparr>) = ((rollback_state ^^ k) r)\<lparr>grammar := g\<rparr>"
proof (induction k)
  case (Suc k)
  have "rollback_state (q\<lparr>grammar := g\<rparr>) = (rollback_state q)\<lparr>grammar := g\<rparr>" for q :: "'a reasoner"
    by (simp add: rollback_state_def Let_def is_thinking_def is_generation_def)
  then show ?case using Suc by simp
qed simp

text \<open>\<open>undoes ops core\<close>: rolling a grammar back by the number of accepted tokens restores its \<open>core\<close>.\<close>

definition undoes :: "'g grammar_ops \<Rightarrow> ('g \<Rightarrow> 'c) \<Rightarrow> bool" where
  "undoes ops core \<longleftrightarrow> (\<forall>ts g g'. ts \<noteq> [] \<and> grammar_run ops ts g = Some g' \<longrightarrow>
     (\<exists>g''. g_rollback ops (length ts) g' = Inr g'' \<and> core g'' = core g))"

lemma rollback_restores:
  assumes "follows r xs" "live_run ops ts r = Some r'" "undoes ops core"
  shows "\<exists>g. rollback ops (length ts) r' = Inr (with_token (r_current_token r') g r) \<and> map_option core g = map_option core (grammar r)"
proof -
  note run = run_rolls_back [OF assms(1,2)]
  let ?steps = "min (length ts) (nat (tokens_after_end r'))"
  let ?seen = "drop (length ts - ?steps) ts"
  show ?thesis
  proof (cases "grammar r")
    case None
    then show ?thesis using run by (auto simp: rollback_def)
  next
    case (Some g)
    then obtain g' where g': "grammar r' = Some g'" "grammar_run ops ?seen g = Some g'" using run by auto
    show ?thesis
    proof (cases "0 < ?steps")
      case True
      have "length ?seen = ?steps" by simp
      moreover have "?seen \<noteq> []" using True calculation by (metis length_greater_0_conv)
      ultimately obtain g'' where g'': "g_rollback ops ?steps g' = Inr g''" "core g'' = core g"
        using assms(3) g'(2) unfolding undoes_def by metis
      have "rollback ops (length ts) r' = Inr (((rollback_state ^^ length ts) r')\<lparr>grammar := Some g''\<rparr>)"
        using True g'(1) g''(1) by (simp add: rollback_def funpow_rollback_grammar)
      then show ?thesis using run g''(2) Some by (intro exI [of _ "Some g''"]) simp
    next
      case False
      then have "rollback ops (length ts) r' = Inr ((rollback_state ^^ length ts) r')" using g'(1) by (auto simp: rollback_def)
      moreover have "g' = g" using g'(2) False by simp
      ultimately show ?thesis using run g'(1) Some by (intro exI [of _ "Some g"]) simp
    qed
  qed
qed

section \<open>XGrammar\<close>

text \<open>The documented behaviour of the matcher: rolling back as many tokens as were accepted restores it.\<close>

fun matcher_run :: "'m matcher_ops \<Rightarrow> int list \<Rightarrow> 'm \<Rightarrow> 'm option" where
  "matcher_run mo [] m = Some m"
| "matcher_run mo (t # ts) m = (if m_terminated mo m then None
     else case m_accept mo t m of (accepted, m') \<Rightarrow> if accepted then matcher_run mo ts m' else None)"

definition matcher_rolls_back :: "'m matcher_ops \<Rightarrow> bool" where
  "matcher_rolls_back mo \<longleftrightarrow> (\<forall>ts m m'. matcher_run mo ts m = Some m' \<longrightarrow> m_rollback mo (length ts) m' = m)"

definition xg_core :: "'m xgrammar \<Rightarrow> 'm \<times> int list" where
  "xg_core g = (matcher g, accepted_tokens g)"

lemma xg_run:
  assumes "grammar_run (xg_ops mo) ts g = Some g'"
  shows "matcher_run mo ts (matcher g) = Some (matcher g') \<and> accepted_tokens g' = accepted_tokens g @ ts"
  using assms
proof (induction ts arbitrary: g)
  case (Cons t ts)
  obtain ok m where m: "m_accept mo t (matcher g) = (ok, m)" by fastforce
  show ?case using Cons.prems Cons.IH [of "g\<lparr>x_current_token := Some t, matcher := m, accepted_tokens := accepted_tokens g @ [t]\<rparr>"] m
    by (auto simp: xg_ops_def xg_accept_token_def split: if_splits)
qed simp

lemma xg_undoes: "matcher_rolls_back mo \<Longrightarrow> undoes (xg_ops mo) xg_core"
  unfolding undoes_def
proof (intro allI impI)
  fix ts and g g' :: "'a xgrammar" assume undo: "matcher_rolls_back mo" and run: "ts \<noteq> [] \<and> grammar_run (xg_ops mo) ts g = Some g'"
  from xg_run [of mo ts g g'] run have x: "matcher_run mo ts (matcher g) = Some (matcher g')" "accepted_tokens g' = accepted_tokens g @ ts" by auto
  have "m_rollback mo (length ts) (matcher g') = matcher g" using undo x(1) by (simp add: matcher_rolls_back_def)
  then show "\<exists>g''. g_rollback (xg_ops mo) (length ts) g' = Inr g'' \<and> xg_core g'' = xg_core g"
    using run x(2) by (simp add: xg_ops_def xg_rollback_def xg_core_def)
qed

section \<open>The budget\<close>

lemma accept_config:
  assumes "accept_token ops t r = Some (Inr r')"
  shows "think_end_ids r' = think_end_ids r" "max_think_tokens r' = max_think_tokens r"
    "enable_token_filter r' = enable_token_filter r" "token_filter_fn r' = token_filter_fn r"
proof -
  have "think_end_ids q' = think_end_ids q \<and> max_think_tokens q' = max_think_tokens q \<and>
      enable_token_filter q' = enable_token_filter q \<and> token_filter_fn q' = token_filter_fn q"
    if "transfer_state t q = Some (Inr q')" for q q' :: "'a reasoner"
    using that by (auto simp: transfer_state_def Let_def map_res_Inr_iff split: if_splits)
  note keep = this
  show "think_end_ids r' = think_end_ids r" "max_think_tokens r' = max_think_tokens r"
    "enable_token_filter r' = enable_token_filter r" "token_filter_fn r' = token_filter_fn r"
    using assms by (auto simp: accept_token_def Let_def dest!: keep split: if_splits option.splits sum.splits)
qed

lemma overlap_expected:
  assumes "overlap p xs < length p"
  shows "overlap p (xs @ [p ! overlap p xs]) = Suc (overlap p xs)"
proof (rule overlap_eqI)
  show "overlaps p (xs @ [p ! overlap p xs]) (Suc (overlap p xs))" using assms by (simp add: overlaps_snoc)
  fix j assume j: "overlaps p (xs @ [p ! overlap p xs]) j"
  then show "j \<le> Suc (overlap p xs)" by (cases j) (auto simp: overlaps_snoc dest: overlap_ge)
qed

lemma reasoning_len_end:
  assumes "\<not> sublist p xs" "sublist p (xs @ [t])"
  shows "reasoning_len p (xs @ [t]) = Suc (length xs)"
proof -
  obtain i where "find_sub p (xs @ [t]) = Some i" using assms(2) find_sub_None by (cases "find_sub p (xs @ [t])") auto
  then show ?thesis using find_sub_at_end [OF assms(1)] by (simp add: reasoning_len_def)
qed

text \<open>The mask that forces a token allows it and no other.\<close>

lemma forced_token:
  assumes "i < length vm" "length (vm ! i) = n" "0 \<le> e" "e < 32 * int n"
  shows "\<exists>vm'. xg_token_filter vm [e] i True = Inr vm' \<and> (\<forall>t. mask_allows vm' i t \<longleftrightarrow> t = e)"
proof -
  from torch_bits [OF assms(1,2), of "[e]" True True] assms(3,4) obtain row where
    row: "set_token_filter_torch vm [e] i True True = Inr (vm[i := row])" "length row = n"
      "\<forall>x\<in>bit_places n. mask_bit row x = filtered [e] True True (vm ! i) x" by auto
  have "mask_allows (vm[i := row]) i t \<longleftrightarrow> t = e" for t
  proof (cases "0 \<le> t \<and> nat (t div 32) < n")
    case True
    then have t: "0 \<le> t" "nat (t div 32) < n" by auto
    have "nat (t mod 32) < 32" by (simp add: nat_less_iff)
    then have "(nat (t div 32), nat (t mod 32)) \<in> bit_places n" using t(2) by auto
    from bspec [OF row(3) this] have "bit (row ! nat (t div 32)) (nat (t mod 32)) \<longleftrightarrow> 32 * int (nat (t div 32)) + int (nat (t mod 32)) = e"
      by (auto simp: mask_bit_def filtered_def)
    then show ?thesis using t assms(1) row(2) by (simp add: mask_allows_def nat_token)
  next
    case False
    moreover have "nat (e div 32) < n" using assms(3,4) by (simp add: nat_less_iff nat_token)
    ultimately show ?thesis using assms(1,3) row(2) by (auto simp: mask_allows_def)
  qed
  then show ?thesis using row(1) by (simp add: xg_token_filter_def)
qed

lemma forced_fill:
  assumes "is_thinking r" "enable_token_filter r" "token_filter_fn r = Some xg_token_filter" "\<not> can_think_more r"
    "e = think_end_ids r ! matched_think_end_tokens r" "matched_think_end_tokens r < length (think_end_ids r)"
    "i < length vm" "length (vm ! i) = n" "0 \<le> e" "e < 32 * int n"
  shows "\<exists>vm'. fill_vocab_mask ops vm i r = Inr vm' \<and> (\<forall>t. mask_allows vm' i t \<longleftrightarrow> t = e)"
  using assms(1-6) forced_token [OF assms(7-10)] by (simp add: fill_vocab_mask_def do_token_filter_def)

definition budgeted :: "nat \<Rightarrow> int list \<Rightarrow> int list \<Rightarrow> 'g reasoner \<Rightarrow> bool" where
  "budgeted budget p xs r \<longleftrightarrow> follows r xs \<and> think_end_ids r = p \<and> enable_token_filter r \<and> token_filter_fn r = Some xg_token_filter \<and>
     max_think_tokens r = int budget \<and> (is_thinking r \<longrightarrow> length xs \<le> budget + overlap p xs) \<and>
     (is_generation r \<longrightarrow> sublist p xs \<and> reasoning_len p xs \<le> budget + length p)"

lemma budgeted_step:
  assumes "budgeted budget p xs r" "fill_vocab_mask ops vm i r = Inr vm'" "mask_allows vm' i t"
    "accept_token ops t r = Some (Inr r')" "i < length vm" "length (vm ! i) = n" "\<forall>e\<in>set p. 0 \<le> e \<and> e < 32 * int n"
  shows "budgeted budget p (xs @ [t]) r'"
proof (cases "is_generation r")
  case True
  have f: "follows r xs" "sublist p xs" "reasoning_len p xs \<le> budget + length p" using assms(1) True by (auto simp: budgeted_def)
  note step = accept_generation [OF f(1) True assms(4)]
  have "is_generation r'" using step(4) True by (simp add: is_generation_def)
  moreover have "\<not> is_thinking r'" using calculation step(1) by (simp add: follows_def)
  moreover have "sublist p (xs @ [t])" using f(2) by (simp add: sublist_snoc_iff)
  ultimately show ?thesis
    using assms(1) step(1) accept_config [OF assms(4)] f(3) reasoning_len_append [OF f(2), of "[t]"] by (simp add: budgeted_def)
next
  case False
  then have think: "is_thinking r" using assms(1) by (simp add: budgeted_def follows_def)
  have f: "follows r xs" "think_end_ids r = p" "length xs \<le> budget + overlap p xs" "enable_token_filter r"
    "token_filter_fn r = Some xg_token_filter" "max_think_tokens r = int budget" using assms(1) think by (auto simp: budgeted_def)
  have g: "\<not> sublist p xs" "matched_think_end_tokens r = overlap p xs" "tokens_in_think r = int (length xs) - int (overlap p xs)" "p \<noteq> []"
    using f(1,2) think by (auto simp: follows_def matcher_ok_def)
  have less: "overlap p xs < length p" using overlap_less [OF g(4,1)] .
  have grow: "length (xs @ [t]) \<le> budget + overlap p (xs @ [t]) \<and> length (xs @ [t]) \<le> budget + length p"
  proof (cases "length xs < budget")
    case full: False
    then have "\<not> can_think_more r" using f(6) g(2,3) by (simp add: can_think_more_def)
    moreover have "0 \<le> p ! overlap p xs" "p ! overlap p xs < 32 * int n" using assms(7) nth_mem [OF less] by auto
    ultimately have "t = p ! overlap p xs"
      using forced_fill [where ops = ops, OF think f(4,5) _ refl _ assms(5,6)] assms(2,3) f(2) g(2) less by auto
    then have "overlap p (xs @ [t]) = Suc (overlap p xs)" using overlap_expected [OF less] by simp
    then show ?thesis using f(3) less by simp
  qed simp
  obtain r1 where "accept_token ops t r = Some (Inr r1)" "follows r1 (xs @ [t])"
    "if sublist (think_end_ids r) (xs @ [t]) then tokens_after_end r1 = 0 else is_thinking r1"
    using accept_thinking [OF f(1) think, of ops t] by metis
  then have r': "follows r' (xs @ [t])" "if sublist p (xs @ [t]) then tokens_after_end r' = 0 else is_thinking r'"
    using assms(4) f(2) by auto
  show ?thesis
  proof (cases "sublist p (xs @ [t])")
    case True
    then have "is_generation r'" "\<not> is_thinking r'" using r' by (auto simp: follows_def is_generation_def)
    then show ?thesis using r'(1) f accept_config [OF assms(4)] True grow reasoning_len_end [OF g(1) True] by (simp add: budgeted_def)
  next
    case False
    then have "is_thinking r'" "\<not> is_generation r'" using r' by (auto simp: follows_def)
    then show ?thesis using r'(1) f accept_config [OF assms(4)] grow by (simp add: budgeted_def)
  qed
qed

lemma masked_run_budgeted:
  assumes "budgeted budget p xs r" "masked_run ops i steps r = Some r'"
    "\<forall>(vm, t) \<in> set steps. i < length vm \<and> length (vm ! i) = n" "\<forall>e\<in>set p. 0 \<le> e \<and> e < 32 * int n"
  shows "budgeted budget p (xs @ map snd steps) r'"
  using assms(1-3)
proof (induction steps arbitrary: xs r)
  case (Cons s steps)
  obtain vm t where s: "s = (vm, t)" by fastforce
  from Cons.prems(2) s obtain vm' r1 where step: "fill_vocab_mask ops vm i r = Inr vm'" "mask_allows vm' i t"
    "accept_token ops t r = Some (Inr r1)" "masked_run ops i steps r1 = Some r'"
    by (auto split: sum.splits if_splits option.splits)
  have "budgeted budget p (xs @ [t]) r1"
    by (rule budgeted_step [OF Cons.prems(1) step(1-3) _ _ assms(4)]) (use Cons.prems(3) s in auto)
  from Cons.IH [OF this step(4)] Cons.prems(3) s show ?case by simp
qed simp

lemma budgeted_thinking:
  assumes "budgeted budget p xs r" "is_thinking r"
  shows "\<not> sublist p xs" "length xs < budget + length p"
proof -
  have f: "\<not> sublist p xs" "length xs \<le> budget + overlap p xs" "p \<noteq> []"
    using assms by (auto simp: budgeted_def follows_def matcher_ok_def)
  then show "\<not> sublist p xs" "length xs < budget + length p" using overlap_less [OF f(3,1)] by simp_all
qed

lemma budget_forces:
  assumes "budgeted budget p xs r" "is_thinking r" "budget \<le> length xs" "i < length vm" "length (vm ! i) = n"
    "\<forall>e\<in>set p. 0 \<le> e \<and> e < 32 * int n"
  shows "\<exists>vm'. fill_vocab_mask ops vm i r = Inr vm' \<and> (\<forall>t. mask_allows vm' i t \<longleftrightarrow> t = p ! overlap p xs)"
proof -
  have f: "follows r xs" "think_end_ids r = p" "enable_token_filter r" "token_filter_fn r = Some xg_token_filter" "max_think_tokens r = int budget"
    using assms(1) by (auto simp: budgeted_def)
  have g: "\<not> sublist p xs" "matched_think_end_tokens r = overlap p xs" "tokens_in_think r = int (length xs) - int (overlap p xs)" "p \<noteq> []"
    using f(1,2) assms(2) by (auto simp: follows_def matcher_ok_def)
  have less: "overlap p xs < length p" using overlap_less [OF g(4,1)] .
  show ?thesis
    by (rule forced_fill [OF assms(2) f(3,4)]) (use assms(3-6) f(2,5) g less nth_mem [OF less] in \<open>auto simp: can_think_more_def\<close>)
qed

section \<open>The start\<close>

lemma new_reasoner_ok:
  assumes "new_reasoner g p excluded max_think filter_on filter_fn = Some (Inr r)"
  shows "follows (maybe_init_reasoning reasoning r) []" "think_end_ids (maybe_init_reasoning reasoning r) = p"
    "enable_token_filter (maybe_init_reasoning reasoning r) = filter_on" "token_filter_fn (maybe_init_reasoning reasoning r) = filter_fn"
    "max_think_tokens (maybe_init_reasoning reasoning r) = max_think" "is_thinking (maybe_init_reasoning reasoning r) = reasoning" "p \<noteq> []"
proof -
  have p: "p \<noteq> []" using assms by (auto simp: new_reasoner_def new_matcher_def)
  from new_matcher_ok [OF p] obtain tm where tm: "new_matcher p = Some (Inr tm)" "matcher_ok tm p" by blast
  have "overlap p [] = 0" using overlap_le(2) [of p "[]"] by simp
  then show "follows (maybe_init_reasoning reasoning r) []" "think_end_ids (maybe_init_reasoning reasoning r) = p"
    "enable_token_filter (maybe_init_reasoning reasoning r) = filter_on" "token_filter_fn (maybe_init_reasoning reasoning r) = filter_fn"
    "max_think_tokens (maybe_init_reasoning reasoning r) = max_think" "is_thinking (maybe_init_reasoning reasoning r) = reasoning" "p \<noteq> []"
    using assms tm p by (auto simp: new_reasoner_def maybe_init_reasoning_def Let_def follows_def is_thinking_def is_generation_def)
qed

lemma new_reasoner_budgeted:
  assumes "new_reasoner g p excluded (int budget) True (Some xg_token_filter) = Some (Inr r)"
  shows "budgeted budget p [] (maybe_init_reasoning True r)"
  using new_reasoner_ok(1-6) [OF assms, of True] by (auto simp: budgeted_def follows_def)

lemma live_run_follows:
  assumes "follows r xs" "live_run ops ts r = Some r'"
  shows "follows r' (xs @ ts)"
  using assms
proof (induction ts arbitrary: r xs)
  case (Cons t ts)
  from Cons.prems(2) obtain r1 where r1: "accept_token ops t r = Some (Inr r1)" "live_run ops ts r1 = Some r'"
    by (auto split: if_splits option.splits sum.splits)
  have "follows r1 (xs @ [t])"
  proof (cases "is_generation r")
    case True
    then show ?thesis using accept_generation(1) [OF Cons.prems(1) True r1(1)] by simp
  next
    case False
    then have "is_thinking r" using Cons.prems(1) by (simp add: follows_def)
    from accept_thinking [OF Cons.prems(1) this, of ops t] show ?thesis using r1(1) by auto
  qed
  from Cons.IH [OF this r1(2)] show ?case by simp
qed simp

end
