(* ===== verification/GrammarProps.thy ===== *)
theory GrammarProps
  imports ReasonerProofs
begin

text \<open>
  The properties of constrained decoding and of counting the reasoning: the matcher of token sequences,
  the masks over the vocabulary and the reasoner.
\<close>

section \<open>Counting the reasoning\<close>

text \<open>C16: However the output of a request is cut into calls of \<open>update_reasoning_tokens\<close>, one token or a
  list of tokens at a time, the calls return and the count is the length of the output up to the end of
  the first occurrence of the end sequence, or of the whole output when the sequence has not
  occurred; the reasoning is over exactly when it has occurred. The matcher behind it, with the table
  of borders it builds, therefore never misses an occurrence that overlaps a failed one.\<close>

theorem reasoning_tokens_counted:
  assumes "end_ids \<noteq> []" "xs = concat (map token_list tids)"
  shows "\<exists>s. count_all end_ids tids new_count = Some (Inr s) \<and>
    reasoning_tokens s = (case find_sub end_ids xs of None \<Rightarrow> length xs | Some i \<Rightarrow> i + length end_ids) \<and>
    (is_reasoning_over s \<longleftrightarrow> sublist end_ids xs)"
  using count_all_counted [OF assms(1) counted_new [OF assms(1)], of tids] assms(2)
  by (auto simp: counted_def reasoning_len_def)

theorem reasoning_tokens_counted_witness:
  "\<exists>s. count_all [7, 7, 8] [Inr [5, 7, 7], Inl 7, Inr [8, 7], Inl 8] new_count = Some (Inr s) \<and>
    reasoning_tokens s = 5 \<and> is_reasoning_over s"
proof -
  have "find_sub [7, 7, 8] [5, 7, 7, 7, 8, 7, 8 :: int] = Some 2" by simp
  moreover have "sublist [7, 7, 8] [5, 7, 7, 7, 8, 7, 8 :: int]" by (simp add: sublist_Cons_right)
  ultimately show ?thesis
    using reasoning_tokens_counted [of "[7, 7, 8]" "[5, 7, 7, 7, 8, 7, 8]" "[Inr [5, 7, 7], Inl 7, Inr [8, 7], Inl 8]"]
    by (simp add: token_list_def eval_nat_numeral)
qed

section \<open>Masks\<close>

text \<open>Whether a mask leaves token \<open>t\<close> of row \<open>r\<close> after the tokens \<open>toks\<close> of row \<open>i\<close> were filtered.\<close>

definition token_kept :: "mask \<Rightarrow> int list \<Rightarrow> nat \<Rightarrow> bool \<Rightarrow> bool \<Rightarrow> nat \<Rightarrow> nat \<Rightarrow> bool" where
  "token_kept vm toks i allowed reset r t \<longleftrightarrow>
     (if r = i \<and> int t \<in> set toks then allowed else if r = i \<and> reset then \<not> allowed else bit (vm ! r ! (t div 32)) (t mod 32))"

text \<open>C17: The token filter written with tensor operations and the one written as Triton kernels compute the
  same mask, in every order in which the programs of the launches execute their work items and
  whatever tensors the cache of token lists holds. Applying that mask to a batch of logits with the masking
  kernel, again in every order, leaves the logit of a token when the mask keeps it and sets it to minus
  infinity otherwise: in the filtered row listed tokens are kept or removed as asked, the
  others follow the reset or the old mask, and other rows follow their own mask.\<close>

theorem token_filter_masks_logits:
  assumes "cache_ok cached" "n = (lw + 31) div 32" "\<forall>row\<in>set vm. length row = n" "i < length vm"
    "\<forall>t\<in>set toks. 0 \<le> t \<and> t < 32 * int n" "length logits = length vm * lw"
    "launch_order (compute_grid num_sms n) n (compute_grid num_sms n) resets"
    "launch_order (compute_grid num_sms (length toks)) (length toks) (compute_grid num_sms (length toks)) order"
    "items = bitmask_items None (length vm, lw) (length vm, n)"
    "launch_order (fst (bitmask_grid num_sms items)) items (snd (bitmask_grid num_sms items)) blocks"
  shows "\<exists>vm' cached' logits'. set_token_filter_torch vm toks i allowed reset = Inr vm' \<and>
    set_token_filter_triton num_sms resets order device n toks i allowed reset cached (concat vm) = Inr (concat vm', cached') \<and>
    cache_ok cached' \<and>
    apply_token_bitmask_inplace_triton blocks ninf None (length vm, lw) (length vm, n) (concat vm') logits = Inr logits' \<and>
    (\<forall>r<length vm. \<forall>t<lw. logits' ! (r * lw + t) = (if token_kept vm toks i allowed reset r t then logits ! (r * lw + t) else ninf))"
proof -
  from filters_agree [OF assms(1,3,4,5,7,8)] obtain row' cached' where
    f: "set_token_filter_torch vm toks i allowed reset = Inr (vm[i := row'])"
      "set_token_filter_triton num_sms resets order device n toks i allowed reset cached (concat vm) = Inr (concat (vm[i := row']), cached')"
      "cache_ok cached'" "length row' = n" "\<forall>x\<in>bit_places n. mask_bit row' x = filtered toks allowed reset (vm ! i) x" by blast
  let ?vm' = "vm[i := row']"
  have rows: "\<forall>row\<in>set ?vm'. length row = n" using assms(3) f(4) by (auto dest: set_update_subset_insert [THEN subsetD])
  have len: "length (concat ?vm') = length vm * n" using length_concat_block [OF rows] by simp
  have sel: "\<forall>r\<in>set (mask_rows None (length vm)). r < length vm \<and> r < length vm" by (simp add: mask_rows_def)
  have width: "n \<le> (lw + 31) div 32" using assms(2) by simp
  from apply_masks [OF assms(6) len width refl sel assms(10,9), of ninf] obtain logits' where
    l: "apply_token_bitmask_inplace_triton blocks ninf None (length vm, lw) (length vm, n) (concat ?vm') logits = Inr logits'"
      "\<forall>r<length vm. \<forall>t<lw. logits' ! (r * lw + t) = (if r \<in> set (mask_rows None (length vm)) \<and> t < n * 32 \<and>
         \<not> bit (concat ?vm' ! (r * n + t div 32)) (t mod 32) then ninf else logits ! (r * lw + t))" by blast
  have kept: "bit (concat ?vm' ! (r * n + t div 32)) (t mod 32) = token_kept vm toks i allowed reset r t"
    if "r < length vm" "t < lw" for r t
  proof -
    have e: "t div 32 < n" using that(2) assms(2) by linarith
    have "concat ?vm' ! (r * n + t div 32) = ?vm' ! r ! (t div 32)" using nth_concat_block [OF rows _ e] that(1) by simp
    moreover have "bit (row' ! (t div 32)) (t mod 32) = filtered toks allowed reset (vm ! i) (t div 32, t mod 32)"
      using bspec [OF f(5), of "(t div 32, t mod 32)"] e by (simp add: mask_bit_def)
    moreover have "32 * int (t div 32) + int (t mod 32) = int t" by (simp add: zdiv_int zmod_int)
    ultimately show ?thesis using assms(4) by (cases "r = i") (simp_all add: token_kept_def filtered_def mask_bit_def)
  qed
  have "\<forall>r<length vm. \<forall>t<lw. logits' ! (r * lw + t) = (if token_kept vm toks i allowed reset r t then logits ! (r * lw + t) else ninf)"
  proof (intro allI impI)
    fix r t assume rt: "r < length vm" "t < lw"
    have "t < n * 32" using rt(2) assms(2) by linarith
    then show "logits' ! (r * lw + t) = (if token_kept vm toks i allowed reset r t then logits ! (r * lw + t) else ninf)"
      using l(2) rt kept [OF rt] by (simp add: mask_rows_def)
  qed
  then show ?thesis using f l(1) by blast
qed

text \<open>Two rows of forty tokens; in the second only token 35 stays. Two processors run the launches backwards.\<close>

theorem token_filter_masks_logits_witness:
  "\<exists>vm' cached' logits'. set_token_filter_torch [[- 1, - 1], [3, 7]] [35] 1 True True = Inr vm' \<and>
    set_token_filter_triton 2 [1, 0] [0] 0 2 [35] 1 True True [] (concat [[- 1, - 1], [3, 7]]) = Inr (concat vm', cached') \<and>
    apply_token_bitmask_inplace_triton [1, 0] (- 100) None (2, 40) (2, 2) (concat vm') [0..79] = Inr logits' \<and>
    logits' ! 39 = 39 \<and> logits' ! 74 = - 100 \<and> logits' ! 75 = (75 :: int)"
proof -
  have "cache_ok []" by (simp add: cache_ok_def)
  moreover have "(2 :: nat) = (40 + 31) div 32" by simp
  moreover have "\<forall>row\<in>set [[- 1, - 1], [3, 7 :: 32 word]]. length row = 2" "1 < length [[- 1, - 1], [3, 7 :: 32 word]]" by simp_all
  moreover have "\<forall>t\<in>set [35]. 0 \<le> t \<and> t < 32 * int 2" "length [0..79] = length [[- 1, - 1], [3, 7 :: 32 word]] * 40" by simp_all
  moreover have "launch_order (compute_grid 2 2) 2 (compute_grid 2 2) [1, 0]"
    "launch_order (compute_grid 2 (length [35 :: int])) (length [35 :: int]) (compute_grid 2 (length [35 :: int])) [0]"
    by code_simp+
  moreover have "2 = bitmask_items None (length [[- 1, - 1], [3, 7 :: 32 word]], 40) (length [[- 1, - 1], [3, 7 :: 32 word]], 2)"
    by (simp add: bitmask_items_def cdiv_def)
  moreover have "launch_order (fst (bitmask_grid 2 2)) 2 (snd (bitmask_grid 2 2)) [1, 0]"
    by code_simp
  ultimately have "\<exists>vm' cached' logits'. set_token_filter_torch [[- 1, - 1], [3, 7]] [35] 1 True True = Inr vm' \<and>
    set_token_filter_triton 2 [1, 0] [0] 0 2 [35] 1 True True [] (concat [[- 1, - 1], [3, 7]]) = Inr (concat vm', cached') \<and>
    cache_ok cached' \<and>
    apply_token_bitmask_inplace_triton [1, 0] (- 100) None (length [[- 1, - 1], [3, 7 :: 32 word]], 40) (length [[- 1, - 1], [3, 7 :: 32 word]], 2)
      (concat vm') [0..79] = Inr logits' \<and>
    (\<forall>r<length [[- 1, - 1], [3, 7 :: 32 word]]. \<forall>t<40. logits' ! (r * 40 + t) =
       (if token_kept [[- 1, - 1], [3, 7]] [35] 1 True True r t then [0..79] ! (r * 40 + t) else - 100))"
    by (rule token_filter_masks_logits)
  then obtain vm' cached' logits' where w: "set_token_filter_torch [[- 1, - 1], [3, 7]] [35] 1 True True = Inr vm'"
    "set_token_filter_triton 2 [1, 0] [0] 0 2 [35] 1 True True [] (concat [[- 1, - 1], [3, 7]]) = Inr (concat vm', cached')"
    "apply_token_bitmask_inplace_triton [1, 0] (- 100) None (2, 40) (2, 2) (concat vm') [0..79] = Inr logits'"
    and k: "\<And>r t. r < 2 \<Longrightarrow> t < 40 \<Longrightarrow> logits' ! (r * 40 + t) =
       (if token_kept [[- 1, - 1], [3, 7]] [35] 1 True True r t then [0..79] ! (r * 40 + t) else - 100)" by (auto simp: eval_nat_numeral)
  have "logits' ! 39 = 39" "logits' ! 74 = - 100" "logits' ! 75 = 75"
    using k [of 0 39] k [of 1 34] k [of 1 35] by (simp_all add: token_kept_def nth_upto)
  then show ?thesis using w by blast
qed

section \<open>The reasoner\<close>

text \<open>C24: With the token filter on, reasoning ends within its budget. When every token of a request that starts
  to reason is one that the mask filled before it allows, at most \<open>budget\<close> tokens and the end sequence
  belong to the reasoning: the request either has left the reasoning at the end of the first
  occurrence of the end sequence, or still reasons with fewer tokens than that. And while it still reasons
  with a spent budget, every fill succeeds with a mask that allows exactly one token, the next of the end sequence.\<close>

theorem thinking_budget_enforced:
  assumes "new_reasoner g p excluded (int budget) True (Some xg_token_filter) = Some (Inr r0)"
    "masked_run ops i steps (maybe_init_reasoning True r0) = Some r" "ts = map snd steps"
    "\<forall>(vm, t)\<in>set steps. i < length vm \<and> length (vm ! i) = n" "\<forall>e\<in>set p. 0 \<le> e \<and> e < 32 * int n"
  shows "if is_thinking r
    then \<not> sublist p ts \<and> length ts < budget + length p \<and>
      (budget \<le> length ts \<longrightarrow> (\<exists>e\<in>set p. \<forall>vm. i < length vm \<and> length (vm ! i) = n \<longrightarrow>
         (\<exists>vm'. fill_vocab_mask ops vm i r = Inr vm' \<and> (\<forall>t. mask_allows vm' i t \<longleftrightarrow> t = e))))
    else is_generation r \<and> sublist p ts \<and> reasoning_len p ts \<le> budget + length p"
proof -
  have b: "budgeted budget p ts r"
    using masked_run_budgeted [OF new_reasoner_budgeted [OF assms(1)] assms(2,4,5)] assms(3) by simp
  show ?thesis
  proof (cases "is_thinking r")
    case True
    note t = budgeted_thinking [OF b True]
    have "p ! overlap p ts \<in> set p" using overlap_less [OF new_reasoner_ok(7) [OF assms(1)] t(1)] by simp
    then show ?thesis using True t budget_forces [OF b True _ _ _ assms(5)] by auto
  next
    case False
    then show ?thesis using b by (auto simp: budgeted_def follows_def)
  qed
qed

definition no_grammar :: "nat grammar_ops" where
  "no_grammar = \<lparr>g_accept = (\<lambda>t. Inr), g_rollback = (\<lambda>k. Inr), g_terminated = (\<lambda>g. False), g_fill = (\<lambda>vm i g. Inr vm)\<rparr>"

definition demo_reasoner :: "nat reasoner" where
  "demo_reasoner = \<lparr>grammar = None, think_end_ids = [7, 8], end_matcher = \<lparr>pattern = [7, 8], prefix_lengths = [0, 0]\<rparr>,
     think_excluded_token_ids = None, max_think_tokens = 1, enable_token_filter = True, token_filter_fn = Some xg_token_filter,
     tokens_in_think = - 1, tokens_after_end = - 1, matched_think_end_tokens = 0, thinking_match_history = [], r_current_token = None\<rparr>"

lemma demo_new: "new_reasoner None [7, 8] None (int 1) True (Some xg_token_filter) = Some (Inr demo_reasoner)"
proof -
  have "new_matcher [7, 8] = Some (Inr \<lparr>pattern = [7, 8], prefix_lengths = [0, 0]\<rparr>)" by code_simp
  then show ?thesis by (simp add: new_reasoner_def demo_reasoner_def)
qed

text \<open>A budget of one token: after token 5 the masks force 7 and 8.\<close>

theorem thinking_budget_enforced_witness:
  "\<exists>r. masked_run no_grammar 0 [([[- 1]], 5), ([[- 1]], 7), ([[- 1]], 8)] (maybe_init_reasoning True demo_reasoner) = Some r \<and>
    is_generation r \<and> reasoning_len [7, 8] [5, 7, 8] \<le> 3"
proof -
  have "map_option is_thinking (masked_run no_grammar 0 [([[- 1]], 5), ([[- 1]], 7), ([[- 1]], 8)] (maybe_init_reasoning True demo_reasoner)) = Some False"
    by code_simp
  then obtain r where r: "masked_run no_grammar 0 [([[- 1]], 5), ([[- 1]], 7), ([[- 1]], 8)] (maybe_init_reasoning True demo_reasoner) = Some r"
    "\<not> is_thinking r" by auto
  show ?thesis using thinking_budget_enforced [OF demo_new r(1) refl, of 1] r by auto
qed

text \<open>C27: Rolling back undoes accepting. From a state that the reasoner around an XGrammar grammar reaches, let
  tokens be accepted, none after the grammar has terminated, through the end of the reasoning or not.
  Rolling back as many tokens restores every field of the reasoner but the last accepted token,
  and the matcher and the accepted tokens of the inner grammar, which saw only the tokens after the
  reasoning. The matcher of the library is assumed to undo its own acceptances.\<close>

theorem reasoner_rollback_restores:
  assumes "matcher_rolls_back mo" "new_reasoner g p excluded max_think filter_on filter_fn = Some (Inr r0)"
    "live_run (xg_ops mo) before (maybe_init_reasoning reasoning r0) = Some r" "live_run (xg_ops mo) ts r = Some r'"
  shows "\<exists>g'. rollback (xg_ops mo) (length ts) r' = Inr (r\<lparr>r_current_token := r_current_token r', grammar := g'\<rparr>) \<and>
    map_option xg_core g' = map_option xg_core (grammar r)"
  by (rule rollback_restores [OF live_run_follows [OF new_reasoner_ok(1) [OF assms(2)] assms(3)] assms(4) xg_undoes [OF assms(1)]])

text \<open>A matcher that accepts all tokens but 0 and terminates with 9.\<close>

definition stack_matcher :: "int list matcher_ops" where
  "stack_matcher = \<lparr>m_accept = (\<lambda>t m. (t \<noteq> 0, m @ [t])), m_rollback = (\<lambda>k m. take (length m - k) m),
     m_terminated = (\<lambda>m. m \<noteq> [] \<and> last m = 9), m_fill = (\<lambda>vm i m. Inr vm)\<rparr>"

lemma stack_rolls_back: "matcher_rolls_back stack_matcher"
proof -
  have run: "matcher_run stack_matcher ts m = Some m' \<Longrightarrow> m' = m @ ts" for ts m m'
  proof (induction ts arbitrary: m)
    case (Cons t ts)
    have "matcher_run stack_matcher ts (m @ [t]) = Some m'" using Cons.prems by (auto simp: stack_matcher_def split: if_splits)
    from Cons.IH [OF this] show ?case by simp
  qed simp
  have "m_rollback stack_matcher (length ts) (m @ ts) = m" for ts m by (simp add: stack_matcher_def)
  then show ?thesis unfolding matcher_rolls_back_def using run by blast
qed

definition demo_wrapped :: "int list xgrammar reasoner" where
  "demo_wrapped = \<lparr>grammar = Some \<lparr>matcher = [], accepted_tokens = [], x_current_token = None\<rparr>, think_end_ids = [7, 8],
     end_matcher = \<lparr>pattern = [7, 8], prefix_lengths = [0, 0]\<rparr>, think_excluded_token_ids = None, max_think_tokens = - 1,
     enable_token_filter = False, token_filter_fn = None, tokens_in_think = - 1, tokens_after_end = - 1,
     matched_think_end_tokens = 0, thinking_match_history = [], r_current_token = None\<rparr>"

lemma demo_wrapped_new:
  "new_reasoner (Some \<lparr>matcher = [], accepted_tokens = [], x_current_token = None\<rparr>) [7, 8] None (- 1) False None = Some (Inr demo_wrapped)"
proof -
  have "new_matcher [7, 8] = Some (Inr \<lparr>pattern = [7, 8], prefix_lengths = [0, 0]\<rparr>)" by code_simp
  then show ?thesis by (simp add: new_reasoner_def demo_wrapped_def)
qed

theorem reasoner_rollback_restores_witness:
  "\<exists>r r' g'. live_run (xg_ops stack_matcher) [5, 7] (maybe_init_reasoning True demo_wrapped) = Some r \<and>
    live_run (xg_ops stack_matcher) [8, 4, 6] r = Some r' \<and> is_thinking r \<and> is_generation r' \<and>
    rollback (xg_ops stack_matcher) 3 r' = Inr (r\<lparr>r_current_token := r_current_token r', grammar := g'\<rparr>)"
proof -
  have "map_option is_thinking (live_run (xg_ops stack_matcher) [5, 7] (maybe_init_reasoning True demo_wrapped)) = Some True"
    "map_option is_generation (Option.bind (live_run (xg_ops stack_matcher) [5, 7] (maybe_init_reasoning True demo_wrapped))
       (live_run (xg_ops stack_matcher) [8, 4, 6])) = Some True" by code_simp+
  then obtain r r' where r: "live_run (xg_ops stack_matcher) [5, 7] (maybe_init_reasoning True demo_wrapped) = Some r"
    "live_run (xg_ops stack_matcher) [8, 4, 6] r = Some r'" "is_thinking r" "is_generation r'" by (auto simp del: live_run.simps)
  from reasoner_rollback_restores [OF stack_rolls_back demo_wrapped_new r(1,2)] obtain g' where
    "rollback (xg_ops stack_matcher) (length [8, 4, 6 :: int]) r' = Inr (r\<lparr>r_current_token := r_current_token r', grammar := g'\<rparr>)" by blast
  then have "rollback (xg_ops stack_matcher) 3 r' = Inr (r\<lparr>r_current_token := r_current_token r', grammar := g'\<rparr>)" by (simp add: numeral_3_eq_3)
  then show ?thesis using r by blast
qed

end
