(* ===== verification/Spec2Isabelle.thy ===== *)
theory Spec2Isabelle
  imports RadixProps SchedProps AllocProps StreamingProps ExpertProps DelayerProps DecodeProps ReasoningProps GrammarProps
begin

text \<open>
  \<^bold>\<open>The program.\<close> SGLang (\<open>python/sglang\<close>) serves large language models. Its runtime
  \<open>python/sglang/srt\<close> keeps the key/value tensors of every token that a running request has
  computed, shares them between requests with a common prefix, and decides in every scheduler
  pass which waiting requests join the next prefill batch. This development models the
  decisions and the bookkeeping of that core; the tensors themselves are device memory and
  appear only as the slot numbers by which the core refers to them. All paths below are
  relative to \<open>python/sglang/srt\<close> unless they start with \<open>python\<close>.

  \<^bold>\<open>The parts and how they meet.\<close> A request owns a row of \<open>ReqToTokenPool\<close>; entry \<open>t\<close> of the row
  is the slot of token \<open>t\<close>. Slots come from an allocator and go back to it. The radix cache keeps
  the slots of finished and partly computed prompts in a prefix tree; a request that matches a
  prefix locks the path to it, and only unlocked leaves are evicted. The schedule policy orders
  the waiting queue with the help of the tree, and the prefill adder then admits requests one
  by one against budgets that count the free and the evictable slots. The admitted batch gets rows
  and slots, for which the cache is evicted as far as needed; the running batch gets one slot per
  request in every round of decoding, and when memory runs short its least preferred requests are
  retracted: their slots go back to the tree and the pool, and they wait again. Sessions join the turns
  of a conversation into one growing prompt; the streaming session cache keeps their slots
  between turns outside the tree. Before a batch is formed, the prefill delayer lets the ranks of a
  data-parallel group agree whether to prefill at all. The expert balancer decides on which device
  the replicas of the experts of a model lie. What the model writes goes through the reasoning
  parser, which separates the reasoning from the answer. A request with a grammar gets a mask over the
  vocabulary before every token; while it still reasons, the mask only keeps it within its budget of
  reasoning tokens.

  \<^bold>\<open>Theories and sources.\<close>

  \<^item> \<open>Prelude\<close>: exceptions as \<open>Inl\<close>, Python slices, page arithmetic, dictionaries with insertion
    order, longest common prefixes.

  \<^item> \<open>RadixKey\<close>, \<open>RadixTree\<close>, \<open>RadixCache\<close>: \<open>mem_cache/radix_cache.py\<close>. A \<open>TreeNode\<close> is a node of a
    datatype whose parent pointers are the paths of the tree, the cache is a record with the root,
    the sizes, the leaf set and the clock. \<open>EvictPolicy\<close>: \<open>mem_cache/evict_policy.py\<close> and the
    heap of \<open>evict\<close>. \<open>RadixContent\<close>, \<open>RadixAccount\<close>, \<open>RadixSteps\<close>, \<open>RadixLocks\<close>, \<open>RadixInv\<close> and
    \<open>RadixEvict\<close> hold the lemmas: what a tree caches, how matching and inserting change it, that
    the counters equal what they count, that locks balance and that eviction ends.
    \<open>RadixProps\<close> states the properties.

  \<^item> \<open>KVAllocator\<close>, \<open>PagedExtend\<close>: \<open>mem_cache/allocator/base.py\<close>, \<open>token.py\<close>, \<open>paged.py\<close> and the
    Triton kernels of \<open>python/sglang/kernels/ops/memory/allocator.py\<close>, a program of the launch per
    request. \<open>ReqPool\<close>: the rows of \<open>mem_cache/memory_pool.py\<close>. \<open>KVRows\<close>: rows laid out in pages.
    \<open>AllocProps\<close> states the properties.

  \<^item> \<open>SchedulePolicy\<close>, \<open>PrefillAdder\<close>: \<open>managers/schedule_policy.py\<close>. \<open>LockMemory\<close> states what the
    adder needs of the memory, \<open>AdderProofs\<close> holds the lemmas, \<open>SchedProps\<close> the properties.

  \<^item> \<open>Session\<close>: \<open>session/session_controller.py\<close> over an explicit store of token arrays, requests and
    nodes, since turns share arrays and the aliasing matters. \<open>SessionTurns\<close>, \<open>SessionTree\<close>,
    \<open>SessionControl\<close>: the lemmas on streaming turns, on the request tree and on closing. The turns of a
    streaming session are events of a driver, \<open>turn_step\<close>, that calls the operations as the scheduler
    does; a rejected turn is discarded later by an event of its own, which calls \<open>abort_req\<close> as
    \<open>find_active_slot\<close> does (\<open>discard_is_lookup\<close>). The session refines a conversation as long as no turn is
    submitted after such an event while another turn runs.
    \<open>SessionProps\<close>: the properties. \<open>StreamingSession\<close>, \<open>StreamingProofs\<close>, \<open>StreamingProps\<close>:
    \<open>session/streaming_session.py\<close>.

  \<^item> \<open>MemCommon\<close>: \<open>mem_cache/common.py\<close>, the release of a request and the caching of an unfinished one,
    over the radix cache and an allocator. \<open>MemProofs\<close> and \<open>MemUnfinished\<close> follow the pages of a
    request through these operations: at every moment each page is in the tree, in the pool or held
    by exactly one request. \<open>MemProps\<close>: the properties. \<open>MemAlloc\<close>: \<open>mem_cache/allocation.py\<close>, the rows
    and slots of a batch before its forward pass; \<open>MemExtend\<close> and \<open>MemBatch\<close> show for one request and
    for a batch that every request leaves with its own pages, \<open>MemBatchProps\<close> states the property.

  \<^item> \<open>DecodeBatch\<close>: a round of decoding, \<open>update_running_batch\<close> of \<open>managers/scheduler.py\<close> with the methods
    of \<open>ScheduleBatch\<close> in \<open>managers/schedule_batch.py\<close> that it calls,
    \<open>managers/scheduler_components/new_token_ratio_tracker.py\<close> and \<open>mem_cache/allocation_sizing.py\<close>.
    \<open>DecodeProofs\<close>: running requests keep their KV while others are evicted, retracted and served;
    \<open>DecodeRetract\<close>: retraction ends with a batch whose next step fits; \<open>DecodeStep\<close>: every request then
    gets its slot; \<open>DecodeProps\<close> puts the round together.

  \<^item> \<open>ExpertBalance\<close>: \<open>eplb/eplb_algorithms/deepseek.py\<close>, tensors as lists and loads as rationals.
    \<open>ExpertProofs\<close>, \<open>ExpertPlacement\<close>: the lemmas on packing, replicating and placing; \<open>ExpertProps\<close>:
    the maps fit together, groups stay on a node, the replication minimises the largest load.

  \<^item> \<open>PrefillDelayer\<close>: \<open>managers/prefill_delayer.py\<close> and \<open>managers/min_free_slots_delayer.py\<close>; a pass of
    a group of ranks gathers the messages of all of them, and clock readings are arguments.
    \<open>DelayerProps\<close>: a prefill is released in time, and ranks decide alike.

  \<^item> \<open>ReasoningParser\<close>: \<open>parser/reasoning_parser.py\<close>, strings as lists of code points.
    \<open>ReasoningProofs\<close>: the invariant of a stream; \<open>ReasoningProps\<close>: streaming equals one-time parsing,
    and which keywords the constructors accept.

  \<^item> \<open>TokenMatcher\<close>: \<open>utils/token_sequence_matcher.py\<close> and \<open>Req.update_reasoning_tokens\<close> of
    \<open>managers/schedule_batch.py\<close>; the table of borders is right, and scanning finds the first
    occurrence. \<open>VocabMask\<close>: the masks over the vocabulary as rows of 32 bit words,
    \<open>constrained/torch_ops/token_filter_torch_ops.py\<close> and the Triton kernels of
    \<open>python/sglang/kernels/ops/grammar\<close>, whose work items run in any order. \<open>ReasonerGrammar\<close>:
    \<open>constrained/reasoner_grammar_backend.py\<close> and \<open>XGrammarGrammar\<close> of \<open>constrained/xgrammar_backend.py\<close>;
    \<open>ReasonerProofs\<close>: the reasoner follows the reasoning, rolling back undoes accepting, the masks
    enforce the budget. \<open>GrammarProps\<close>: the properties.

  \<^bold>\<open>Interfaces.\<close> \<open>min_heap\<close> is what \<open>evict\<close> needs of \<open>heapq\<close>; \<open>slot_pool\<close> is the contract of an
  allocator, interpreted for the token and the paged allocator; \<open>lock_walk\<close> is one step of the walk
  to the root, interpreted for taking and for releasing a lock; \<open>lock_memory\<close> is what the prefill
  adder needs of the tree cache and the allocator, interpreted for the radix cache; \<open>torch_select\<close> is
  what the balancer needs of the sort and the selections of the tensor library, whose order of
  equal elements is not documented, interpreted for the stable order. The operations
  of the memory that the adder calls are the fields of the record \<open>mem_ops\<close>, those of a grammar object and
  of the matcher of the xgrammar library the fields of \<open>grammar_ops\<close> and \<open>matcher_ops\<close>, and the inner cache of
  the streaming session cache is an argument of its operations, because other caches can stand
  there.

  \<^bold>\<open>Numbers.\<close> Python integers are \<open>int\<close>, or \<open>nat\<close> where the code keeps them non-negative. Floating
  point quantities (ratios, thresholds) are rationals; clock readings are integers, since only
  their order is used. Indices are unbounded: in the code those of tensors are 64 bit, but the offsets
  that the Triton kernels compute from program numbers and strides are 32 bit, and the theorems on
  kernels say nothing of launches in which these overflow. Lanes of a load that are masked out
  without a default contribute 0.

  \<^bold>\<open>Loops and fuel.\<close> The loops of matching and locking are recursions on the tree. The loop of
  \<open>insert\<close> runs on fuel \<open>rk_len key + 1\<close>: every round consumes at least one unit of the key, and
  \<open>insert_loop_correct\<close> shows that this fuel always gives a result. The loop of \<open>evict\<close> is a function
  whose measure is the number of leaves and nodes left, the loop of \<open>retract_decode\<close> one whose measure
  is the number of requests left. \<open>SessionReqNode.clear\<close> runs on fuel the
  number of nodes of the store, and \<open>clear_spec\<close> shows that it reaches every node below. The loop that
  removes opening tokens in the reasoning parser is a partial function into option, since it does
  not end for an empty token; \<open>stream_equals_one_time\<close> includes that it returns. So is the loop that falls
  back along the table of a token matcher; \<open>fall_back_correct\<close> shows that it returns for the table that
  the matcher builds.

  \<^bold>\<open>Not modelled.\<close> The kernels, layers and models (tensor programs), the servers and processes around
  the scheduler (network and process I/O), the other prefix caches (hierarchical, sliding window,
  Mamba, unified), which share the interface of the radix cache but keep device or host state of
  their own, disaggregated serving, the loading of weights and the benchmarks. Of the radix cache
  the KV event queue, hashing and printing are left out, of \<open>mem_cache/common.py\<close> the copies of
  retracted requests to host memory, the hybrid allocators and the Mamba states, of
  \<open>mem_cache/allocation.py\<close> the Triton kernel that writes the rows (its loop in Python is modelled), the
  KV reuse of diffusion models and the slots of speculative decoding, of the round of decoding the
  preparation under speculative decoding, the merging of batches and the tensors that are only
  filtered along, of the delayer the
  metrics, of constrained decoding the compilation of grammars and the other backends (outlines,
  llguidance), which call libraries, and jump-forward decoding, and of the reasoning parser the detectors with a format of their own (Kimi K3, GPT-OSS,
  Inkling, Apertus, Cohere, Muse).
\<close>

end
